(* ===== verification/Prelude.thy ===== *)
theory Prelude
  imports Complex_Main "HOL-Library.Monad_Syntax"
begin

text \<open>
  What every component of the development shares.

  \<^item> \<^emph>\<open>Undefined behaviour as a value.\<close> The modelled code is C. An operation returns
    \<open>Some r\<close> when the C code returns \<open>r\<close>, and \<open>None\<close> when it reads or writes outside a
    buffer, dereferences a null pointer or fails an \<open>assert\<close>. A theorem that concludes
    \<open>f x = Some r\<close> therefore also says that the run of the code is memory safe.
  \<^item> \<^emph>\<open>Buffers.\<close> A buffer is a list, a pointer into it an \<open>int\<close> (a C pointer may step one
    before the first element); \<open>rd\<close> and \<open>wr\<close> check every access.
  \<^item> \<^emph>\<open>Decimal digits.\<close> \<open>dval\<close> is the value of a digit string, most significant first.
  \<^item> \<^emph>\<open>Digit loops.\<close> The arithmetic of the calculator is a family of loops that walk two
    operand pointers and a result pointer downwards and pass a carry along. The combinators
    \<open>digit_loop\<close>, \<open>digit_loop1\<close> and \<open>digit_loop_ip\<close> are that loop, the locale
    \<open>digit_step\<close> is the contract of a loop body, and its lemmas are the loop's result,
    proved once for every body.
\<close>

named_theorems buf_simps "checked buffer accesses that succeed"
named_theorems dval_simps "value of composed digit strings"

section \<open>Buffers with checked accesses\<close>

definition rd :: "'a list \<Rightarrow> int \<Rightarrow> 'a option" where
  "rd xs p = (if 0 \<le> p \<and> p < int (length xs) then Some (xs ! nat p) else None)"

definition wr :: "'a list \<Rightarrow> int \<Rightarrow> 'a \<Rightarrow> 'a list option" where
  "wr xs p v = (if 0 \<le> p \<and> p < int (length xs) then Some (xs[nat p := v]) else None)"

definition guard :: "bool \<Rightarrow> unit option" where
  "guard b = (if b then Some () else None)"

lemma guard_True [simp]: "b \<Longrightarrow> guard b = Some ()"
  by (simp add: guard_def)

lemma guard_False [simp]: "\<not> b \<Longrightarrow> guard b = None"
  by (simp add: guard_def)

lemma rd_nat [buf_simps]: "k < length xs \<Longrightarrow> rd xs (int k) = Some (xs ! k)"
  by (simp add: rd_def)

lemma rd_pred [buf_simps]: "k < length xs \<Longrightarrow> rd xs (int (Suc k) - 1) = Some (xs ! k)"
  by (simp add: rd_def)

lemma wr_nat [buf_simps]: "k < length xs \<Longrightarrow> wr xs (int k) v = Some (xs[k := v])"
  by (simp add: wr_def)

lemma wr_pred [buf_simps]: "k < length xs \<Longrightarrow> wr xs (int (Suc k) - 1) v = Some (xs[k := v])"
  by (simp add: wr_def)

text \<open>The slice of \<open>n\<close> elements from index \<open>i\<close>, and the write of a whole slice.\<close>

definition seg :: "'a list \<Rightarrow> nat \<Rightarrow> nat \<Rightarrow> 'a list" where
  "seg xs i n = take n (drop i xs)"

definition splice :: "'a list \<Rightarrow> nat \<Rightarrow> 'a list \<Rightarrow> 'a list" where
  "splice xs i ys = take i xs @ ys @ drop (i + length ys) xs"

lemma length_seg [simp]: "i + n \<le> length xs \<Longrightarrow> length (seg xs i n) = n"
  by (simp add: seg_def)

lemma seg_0 [simp]: "seg xs i 0 = []"
  by (simp add: seg_def)

lemma seg_all [simp]: "seg xs 0 (length xs) = xs"
  by (simp add: seg_def)

lemma seg_Suc: "i + n < length xs \<Longrightarrow> seg xs i (Suc n) = seg xs i n @ [xs ! (i + n)]"
  by (simp add: seg_def take_Suc_conv_app_nth)

lemma seg_Cons: "i < length xs \<Longrightarrow> seg xs i (Suc n) = xs ! i # seg xs (Suc i) n"
  by (simp add: seg_def Cons_nth_drop_Suc [symmetric])

lemma seg_append: "seg xs i (m + n) = seg xs i m @ seg xs (i + m) n"
  by (simp add: seg_def take_add add.commute)

lemma seg_update_other: "k < i \<or> i + n \<le> k \<Longrightarrow> seg (xs[k := v]) i n = seg xs i n"
  by (auto simp: seg_def drop_update_swap)

lemma set_seg: "set (seg xs i n) \<subseteq> set xs"
  by (auto simp: seg_def dest: in_set_takeD in_set_dropD)

lemma length_splice [simp]: "i + length ys \<le> length xs \<Longrightarrow> length (splice xs i ys) = length xs"
  by (simp add: splice_def)

lemma splice_Nil [simp]: "splice xs i [] = xs"
  by (simp add: splice_def)

lemma splice_snoc:
  "k < length xs \<Longrightarrow> i + length ys = k \<Longrightarrow> splice (xs[k := v]) i ys = splice xs i (ys @ [v])"
  by (simp add: splice_def drop_update_swap upd_conv_take_nth_drop)

lemma seg_splice_same [simp]:
  "i + length ys \<le> length xs \<Longrightarrow> n = length ys \<Longrightarrow> seg (splice xs i ys) i n = ys"
  by (simp add: seg_def splice_def)

lemma seg_splice_before:
  "j + n \<le> i \<Longrightarrow> i + length ys \<le> length xs \<Longrightarrow> seg (splice xs i ys) j n = seg xs j n"
  by (simp add: seg_def splice_def take_drop min_absorb1)

lemma seg_splice_after:
  "i + length ys \<le> j \<Longrightarrow> i + length ys \<le> length xs \<Longrightarrow> seg (splice xs i ys) j n = seg xs j n"
  by (simp add: seg_def splice_def add.commute)

text \<open>\<open>memset\<close> and \<open>memcpy\<close> between different buffers.\<close>

definition mem_set :: "'a list \<Rightarrow> int \<Rightarrow> 'a \<Rightarrow> nat \<Rightarrow> 'a list option" where
  "mem_set dst p x n =
     (if 0 \<le> p \<and> p + int n \<le> int (length dst) then Some (splice dst (nat p) (replicate n x)) else None)"

definition mem_cpy :: "'a list \<Rightarrow> int \<Rightarrow> 'a list \<Rightarrow> int \<Rightarrow> nat \<Rightarrow> 'a list option" where
  "mem_cpy dst p src q n =
     (if 0 \<le> p \<and> p + int n \<le> int (length dst) \<and> 0 \<le> q \<and> q + int n \<le> int (length src)
      then Some (splice dst (nat p) (seg src (nat q) n)) else None)"

lemma mem_set_nat [buf_simps]:
  "p + n \<le> length dst \<Longrightarrow> mem_set dst (int p) x n = Some (splice dst p (replicate n x))"
  by (simp add: mem_set_def)

lemma mem_cpy_nat [buf_simps]:
  "p + n \<le> length dst \<Longrightarrow> q + n \<le> length src \<Longrightarrow>
     mem_cpy dst (int p) src (int q) n = Some (splice dst p (seg src q n))"
  by (simp add: mem_cpy_def)

section \<open>Decimal digit strings\<close>

definition dval :: "int list \<Rightarrow> int" where
  "dval xs = foldl (\<lambda>a d. 10 * a + d) 0 xs"

definition digit :: "int \<Rightarrow> bool" where
  "digit d \<longleftrightarrow> 0 \<le> d \<and> d \<le> 9"

definition digits :: "int list \<Rightarrow> bool" where
  "digits xs \<longleftrightarrow> list_all digit xs"

lemma digits_simps [simp]:
  "digits []"
  "digits (d # xs) \<longleftrightarrow> digit d \<and> digits xs"
  "digits (xs @ ys) \<longleftrightarrow> digits xs \<and> digits ys"
  "digits (replicate n 0)"
  by (auto simp: digits_def list_all_iff digit_def)

lemma digits_nth: "digits xs \<Longrightarrow> i < length xs \<Longrightarrow> digit (xs ! i)"
  by (auto simp: digits_def list_all_iff)

lemma digits_take [simp]: "digits xs \<Longrightarrow> digits (take n xs)"
  by (auto simp: digits_def list_all_iff dest: in_set_takeD)

lemma digits_drop [simp]: "digits xs \<Longrightarrow> digits (drop n xs)"
  by (auto simp: digits_def list_all_iff dest: in_set_dropD)

lemma digits_seg [simp]: "digits xs \<Longrightarrow> digits (seg xs i n)"
  by (simp add: seg_def)

lemma digits_splice [simp]: "digits xs \<Longrightarrow> digits ys \<Longrightarrow> digits (splice xs i ys)"
  by (simp add: splice_def)

lemma digits_update: "digits xs \<Longrightarrow> digit d \<Longrightarrow> digits (xs[i := d])"
  by (auto simp: digits_def list_all_iff dest: set_update_subset_insert [THEN subsetD])

lemma dval_Nil [simp, dval_simps]: "dval [] = 0"
  by (simp add: dval_def)

lemma dval_snoc [dval_simps]: "dval (xs @ [d]) = 10 * dval xs + d"
  by (simp add: dval_def)

lemma dval_append [dval_simps]: "dval (xs @ ys) = dval xs * 10 ^ length ys + dval ys"
proof (induction ys rule: rev_induct)
  case Nil
  then show ?case by simp
next
  case (snoc y ys)
  have "dval (xs @ ys @ [y]) = 10 * dval (xs @ ys) + y"
    using dval_snoc [of "xs @ ys" y] by simp
  with snoc show ?case by (simp add: dval_snoc algebra_simps)
qed

lemma dval_single [simp, dval_simps]: "dval [d] = d"
  by (simp add: dval_def)

lemma dval_Cons [dval_simps]: "dval (d # xs) = d * 10 ^ length xs + dval xs"
  using dval_append [of "[d]" xs] by simp

lemma dval_zeros [simp, dval_simps]: "dval (replicate n 0) = 0"
  by (induction n) (simp_all add: dval_Cons)

lemma dval_nonneg [simp]: "digits xs \<Longrightarrow> 0 \<le> dval xs"
  by (induction xs) (auto simp: dval_Cons digit_def)

lemma dval_less: "digits xs \<Longrightarrow> dval xs < 10 ^ length xs"
proof (induction xs)
  case Nil
  then show ?case by simp
next
  case (Cons d xs)
  then have "d * 10 ^ length xs \<le> 9 * 10 ^ length xs"
    by (intro mult_right_mono) (auto simp: digit_def)
  moreover have "dval xs < 10 ^ length xs"
    using Cons by simp
  ultimately have "d * 10 ^ length xs + dval xs < 10 * 10 ^ length xs"
    by linarith
  then show ?case by (simp add: dval_Cons)
qed

lemma dval_eq_0_iff: "digits xs \<Longrightarrow> dval xs = 0 \<longleftrightarrow> (\<forall>d \<in> set xs. d = 0)"
proof (induction xs)
  case Nil
  then show ?case by simp
next
  case (Cons d xs)
  then have "0 \<le> d" "digits xs" by (auto simp: digit_def)
  then show ?case
    using Cons.IH by (auto simp: dval_Cons add_nonneg_eq_0_iff)
qed

lemma dval_inj:
  "digits xs \<Longrightarrow> digits ys \<Longrightarrow> length xs = length ys \<Longrightarrow> dval xs = dval ys \<longleftrightarrow> xs = ys"
proof (induction xs ys rule: rev_induct2)
  case (4 x xs y ys)
  then have d: "digit x" "digit y" "digits xs" "digits ys" "length xs = length ys"
    by auto
  have "10 * dval xs + x = 10 * dval ys + y \<longleftrightarrow> dval xs = dval ys \<and> x = y"
    using d(1,2) by (auto simp: digit_def; presburger)
  with 4 d show ?case by (simp add: dval_snoc)
qed auto

section \<open>Digit loops\<close>

text \<open>
  \<open>digit_loop f n v1 p1 v2 p2 out po c\<close> is the C loop that runs \<open>n\<close> times, reads a digit of
  each operand through \<open>*p1--\<close> and \<open>*p2--\<close>, computes the result digit and the next carry with
  \<open>f\<close> and stores the digit through \<open>*po--\<close>. It returns the result buffer and the last
  carry; every pointer has then moved down by \<open>n\<close>. \<open>digit_loop1\<close> has one operand, and in
  \<open>digit_loop_ip\<close> the first operand is the result buffer itself, read and then
  overwritten through the same pointer.
\<close>

fun digit_loop :: "(int \<Rightarrow> int \<Rightarrow> int \<Rightarrow> int \<times> int) \<Rightarrow> nat \<Rightarrow> int list \<Rightarrow> int \<Rightarrow> int list \<Rightarrow> int
    \<Rightarrow> int list \<Rightarrow> int \<Rightarrow> int \<Rightarrow> (int list \<times> int) option" where
  "digit_loop f 0 v1 p1 v2 p2 out po c = Some (out, c)"
| "digit_loop f (Suc n) v1 p1 v2 p2 out po c = do {
     d1 \<leftarrow> rd v1 p1;
     d2 \<leftarrow> rd v2 p2;
     let (d, c') = f d1 d2 c;
     out' \<leftarrow> wr out po d;
     digit_loop f n v1 (p1 - 1) v2 (p2 - 1) out' (po - 1) c'
   }"

fun digit_loop1 :: "(int \<Rightarrow> int \<Rightarrow> int \<times> int) \<Rightarrow> nat \<Rightarrow> int list \<Rightarrow> int
    \<Rightarrow> int list \<Rightarrow> int \<Rightarrow> int \<Rightarrow> (int list \<times> int) option" where
  "digit_loop1 f 0 v p out po c = Some (out, c)"
| "digit_loop1 f (Suc n) v p out po c = do {
     d1 \<leftarrow> rd v p;
     let (d, c') = f d1 c;
     out' \<leftarrow> wr out po d;
     digit_loop1 f n v (p - 1) out' (po - 1) c'
   }"

fun digit_loop_ip :: "(int \<Rightarrow> int \<Rightarrow> int \<Rightarrow> int \<times> int) \<Rightarrow> nat \<Rightarrow> int list \<Rightarrow> int
    \<Rightarrow> int list \<Rightarrow> int \<Rightarrow> int \<Rightarrow> (int list \<times> int) option" where
  "digit_loop_ip f 0 buf p v2 p2 c = Some (buf, c)"
| "digit_loop_ip f (Suc n) buf p v2 p2 c = do {
     d1 \<leftarrow> rd buf p;
     d2 \<leftarrow> rd v2 p2;
     let (d, c') = f d1 d2 c;
     buf' \<leftarrow> wr buf p d;
     digit_loop_ip f n buf' (p - 1) v2 (p2 - 1) c'
   }"

fun digit_loop1_ip :: "(int \<Rightarrow> int \<Rightarrow> int \<times> int) \<Rightarrow> nat \<Rightarrow> int list \<Rightarrow> int \<Rightarrow> int
    \<Rightarrow> (int list \<times> int) option" where
  "digit_loop1_ip f 0 buf p c = Some (buf, c)"
| "digit_loop1_ip f (Suc n) buf p c = do {
     d1 \<leftarrow> rd buf p;
     let (d, c') = f d1 c;
     buf' \<leftarrow> wr buf p d;
     digit_loop1_ip f n buf' (p - 1) c'
   }"

lemma rd_wr_other: "wr xs p v = Some ys \<Longrightarrow> q \<noteq> p \<Longrightarrow> rd ys q = rd xs q"
  by (auto simp: wr_def rd_def nat_eq_iff split: if_splits)

text \<open>Reading before writing, and downwards: in place is the same as from a second copy.\<close>

lemma digit_loop_ip_copy:
  "(\<And>q. q \<le> p \<Longrightarrow> rd v1 q = rd buf q) \<Longrightarrow>
     digit_loop f n v1 p v2 p2 buf p c = digit_loop_ip f n buf p v2 p2 c"
proof (induction n arbitrary: p p2 buf c)
  case 0
  then show ?case by simp
next
  case (Suc n)
  have eq: "digit_loop f n v1 (p - 1) v2 (p2 - 1) ys (p - 1) c'
      = digit_loop_ip f n ys (p - 1) v2 (p2 - 1) c'" if "wr buf p d = Some ys" for d ys c'
    using Suc.prems by (intro Suc.IH) (simp add: rd_wr_other [OF that])
  show ?case
    using Suc.prems [of p]
    by (auto simp: eq Let_def split: prod.split Option.bind_split)
qed

lemma digit_loop1_ip_copy:
  "(\<And>q. q \<le> p \<Longrightarrow> rd v q = rd buf q) \<Longrightarrow>
     digit_loop1 f n v p buf p c = digit_loop1_ip f n buf p c"
proof (induction n arbitrary: p buf c)
  case 0
  then show ?case by simp
next
  case (Suc n)
  have eq: "digit_loop1 f n v (p - 1) ys (p - 1) c' = digit_loop1_ip f n ys (p - 1) c'"
    if "wr buf p d = Some ys" for d ys c'
    using Suc.prems by (intro Suc.IH) (simp add: rd_wr_other [OF that])
  show ?case
    using Suc.prems [of p]
    by (auto simp: eq Let_def split: prod.split Option.bind_split)
qed

text \<open>The contract of a loop body: operand digits weighted by \<open>a\<close> and \<open>b\<close>, the carry by \<open>s\<close>.\<close>

locale digit_step =
  fixes f :: "int \<Rightarrow> int \<Rightarrow> int \<Rightarrow> int \<times> int" and a b s :: int and ok :: "int \<Rightarrow> bool"
  assumes step: "digit d1 \<Longrightarrow> digit d2 \<Longrightarrow> ok c \<Longrightarrow> f d1 d2 c = (d, c') \<Longrightarrow>
      digit d \<and> ok c' \<and> d + 10 * s * c' = a * d1 + b * d2 + s * c"
begin

lemma loop:
  assumes "digits v1" and "digits v2" and "ok c"
    and "n \<le> k1" and "k1 \<le> length v1" and "n \<le> k2" and "k2 \<le> length v2"
    and "n \<le> k" and "k \<le> length out"
  shows "\<exists>new c'. digit_loop f n v1 (int k1 - 1) v2 (int k2 - 1) out (int k - 1) c
           = Some (splice out (k - n) new, c')
         \<and> length new = n \<and> digits new \<and> ok c'
         \<and> dval new + 10 ^ n * s * c'
             = a * dval (seg v1 (k1 - n) n) + b * dval (seg v2 (k2 - n) n) + s * c"
  using assms
proof (induction n arbitrary: k1 k2 k out c)
  case 0
  then show ?case by (intro exI [of _ "[]"] exI [of _ c]) simp
next
  case (Suc n)
  from Suc.prems obtain j1 j2 j where j: "k1 = Suc j1" "k2 = Suc j2" "k = Suc j"
    by (metis Suc_le_D)
  obtain d c1 where f: "f (v1 ! j1) (v2 ! j2) c = (d, c1)"
    by fastforce
  have st: "digit d \<and> ok c1 \<and> d + 10 * s * c1 = a * (v1 ! j1) + b * (v2 ! j2) + s * c"
    by (rule step [OF _ _ _ f]) (use Suc.prems j in \<open>auto intro: digits_nth\<close>)
  obtain new c' where IH: "digit_loop f n v1 (int j1 - 1) v2 (int j2 - 1) (out[j := d]) (int j - 1) c1
        = Some (splice (out[j := d]) (j - n) new, c')"
      "length new = n" "digits new" "ok c'"
      "dval new + 10 ^ n * s * c'
         = a * dval (seg v1 (j1 - n) n) + b * dval (seg v2 (j2 - n) n) + s * c1"
    using Suc.IH [of c1 j1 j2 j "out[j := d]"] Suc.prems j st by auto
  have sp: "splice (out[j := d]) (j - n) new = splice out (j - n) (new @ [d])"
    using IH(2) Suc.prems j by (intro splice_snoc) auto
  have s1: "seg v1 (j1 - n) (Suc n) = seg v1 (j1 - n) n @ [v1 ! j1]"
    and s2: "seg v2 (j2 - n) (Suc n) = seg v2 (j2 - n) n @ [v2 ! j2]"
    using Suc.prems j by (auto simp: seg_Suc)
  have "digit_loop f (Suc n) v1 (int k1 - 1) v2 (int k2 - 1) out (int k - 1) c
          = Some (splice out (j - n) (new @ [d]), c')"
    using Suc.prems j f IH(1) sp by (simp add: buf_simps)
  moreover have "dval (new @ [d]) + 10 ^ Suc n * s * c'
      = a * dval (seg v1 (j1 - n) (Suc n)) + b * dval (seg v2 (j2 - n) (Suc n)) + s * c"
  proof -
    have "10 * (dval new + 10 ^ n * s * c')
        = 10 * (a * dval (seg v1 (j1 - n) n) + b * dval (seg v2 (j2 - n) n) + s * c1)"
      using IH(5) by simp
    then show ?thesis
      using st unfolding s1 s2 dval_snoc power_Suc by (simp add: algebra_simps)
  qed
  ultimately show ?case
    using IH j st by (intro exI [of _ "new @ [d]"] exI [of _ c']) simp
qed

lemma loop_ip:
  assumes "digits buf" and "digits v2" and "ok c"
    and "n \<le> k" and "k \<le> length buf" and "n \<le> k2" and "k2 \<le> length v2"
  shows "\<exists>new c'. digit_loop_ip f n buf (int k - 1) v2 (int k2 - 1) c
           = Some (splice buf (k - n) new, c')
         \<and> length new = n \<and> digits new \<and> ok c'
         \<and> dval new + 10 ^ n * s * c'
             = a * dval (seg buf (k - n) n) + b * dval (seg v2 (k2 - n) n) + s * c"
  using loop [of buf v2 c n k k2 k buf] assms
    digit_loop_ip_copy [of "int k - 1" buf buf f n v2 "int k2 - 1" c] by simp

end

text \<open>The contract of a loop body with one operand.\<close>

locale digit_step1 =
  fixes f :: "int \<Rightarrow> int \<Rightarrow> int \<times> int" and a s :: int and ok :: "int \<Rightarrow> bool"
  assumes step1: "digit d1 \<Longrightarrow> ok c \<Longrightarrow> f d1 c = (d, c') \<Longrightarrow>
      digit d \<and> ok c' \<and> d + 10 * s * c' = a * d1 + s * c"

lemma digit_loop1_conv:
  "digit_loop1 f n v p out po c = digit_loop (\<lambda>d1 d2. f d1) n v p v p out po c"
proof (induction n arbitrary: p out po c)
  case 0
  then show ?case by simp
next
  case (Suc n)
  then show ?case by (cases "rd v p") (auto split: prod.split)
qed

sublocale digit_step1 \<subseteq> two: digit_step "\<lambda>d1 d2. f d1" a 0 s ok
  by unfold_locales (drule step1, auto)

context digit_step1
begin

lemma loop1:
  assumes "digits v" and "ok c" and "n \<le> k1" and "k1 \<le> length v" and "n \<le> k" and "k \<le> length out"
  shows "\<exists>new c'. digit_loop1 f n v (int k1 - 1) out (int k - 1) c = Some (splice out (k - n) new, c')
         \<and> length new = n \<and> digits new \<and> ok c'
         \<and> dval new + 10 ^ n * s * c' = a * dval (seg v (k1 - n) n) + s * c"
  using two.loop [of v v c n k1 k1 k out] assms by (simp add: digit_loop1_conv)

lemma loop1_ip:
  assumes "digits buf" and "ok c" and "n \<le> k" and "k \<le> length buf"
  shows "\<exists>new c'. digit_loop1_ip f n buf (int k - 1) c = Some (splice buf (k - n) new, c')
         \<and> length new = n \<and> digits new \<and> ok c'
         \<and> dval new + 10 ^ n * s * c' = a * dval (seg buf (k - n) n) + s * c"
  using loop1 [of buf c n k k buf] assms
    digit_loop1_ip_copy [of "int k - 1" buf buf f n c] by simp

end

end
