(* ===== verification/BcNumber.thy ===== *)
theory BcNumber
  imports Prelude
begin

text \<open>
  The numbers of \<^verbatim>\<open>usr.bin/bc/number.c\<close>: the struct \<open>bc_struct\<close>, its allocation, the
  normalisation of leading zeros, the comparison and the zero tests.

  A number is sign, digit counts before and after the point, and the digits \<open>n_value\<close>
  points at, most significant first. The reference count, the free list and the base
  pointer \<open>n_ptr\<close> are in \<open>BcMemory\<close>, which shows that counted references are values to callers that
  write only to numbers nobody else holds; here numbers are values. The buffer may be longer than the number (a truncated product keeps
  its lower digits), which is why the value reads a prefix of it.
\<close>

section \<open>Data\<close>

datatype sign = PLUS | MINUS

record bc_num =
  n_sign :: sign
  n_len :: nat
  n_scale :: nat
  n_value :: "int list"

abbreviation (input) BASE :: int where "BASE \<equiv> 10"

definition bc_new_num :: "nat \<Rightarrow> nat \<Rightarrow> bc_num" where
  "bc_new_num len scale =
     \<lparr>n_sign = PLUS, n_len = len, n_scale = scale, n_value = replicate (len + scale) 0\<rparr>"

definition bc_zero :: bc_num where
  "bc_zero = bc_new_num 1 0"

definition bc_one :: bc_num where
  "bc_one = (let n = bc_new_num 1 0 in n\<lparr>n_value := (n_value n)[0 := 1]\<rparr>)"

definition bc_two :: bc_num where
  "bc_two = (let n = bc_new_num 1 0 in n\<lparr>n_value := (n_value n)[0 := 2]\<rparr>)"

text \<open>\<open>_bc_rm_leading_zeros\<close> moves \<open>n_value\<close> forward while the first of several integer digits is 0.\<close>

fun strip_zeros :: "int list \<Rightarrow> nat \<Rightarrow> (int list \<times> nat) option" where
  "strip_zeros [] len = None"
| "strip_zeros (d # ds) len =
     (if d = 0 \<and> len > 1 then strip_zeros ds (len - 1) else Some (d # ds, len))"

definition bc_rm_leading_zeros :: "bc_num \<Rightarrow> bc_num option" where
  "bc_rm_leading_zeros n = do {
     (v, l) \<leftarrow> strip_zeros (n_value n) (n_len n);
     Some (n\<lparr>n_value := v, n_len := l\<rparr>)
   }"

section \<open>Comparison\<close>

text \<open>\<^verbatim>\<open>while ((count > 0) && (*n1ptr == *n2ptr)) { n1ptr++; n2ptr++; count--; }\<close>\<close>

fun cmp_scan :: "nat \<Rightarrow> int list \<Rightarrow> int \<Rightarrow> int list \<Rightarrow> int \<Rightarrow> (nat \<times> int \<times> int) option" where
  "cmp_scan 0 v1 p1 v2 p2 = Some (0, p1, p2)"
| "cmp_scan (Suc count) v1 p1 v2 p2 = do {
     d1 \<leftarrow> rd v1 p1;
     d2 \<leftarrow> rd v2 p2;
     if d1 = d2 then cmp_scan count v1 (p1 + 1) v2 (p2 + 1) else Some (Suc count, p1, p2)
   }"

text \<open>\<^verbatim>\<open>for (; count > 0; count--) if (*ptr++ != 0) return ...\<close>\<close>

fun tail_nonzero :: "nat \<Rightarrow> int list \<Rightarrow> int \<Rightarrow> bool option" where
  "tail_nonzero 0 v p = Some False"
| "tail_nonzero (Suc count) v p = do {
     d \<leftarrow> rd v p;
     if d \<noteq> 0 then Some True else tail_nonzero count v (p + 1)
   }"

definition bc_do_compare :: "bc_num \<Rightarrow> bc_num \<Rightarrow> bool \<Rightarrow> bool \<Rightarrow> int option" where
  "bc_do_compare n1 n2 use_sign ignore_last = (
     let gt = (if \<not> use_sign \<or> n_sign n1 = PLUS then 1 else -1);
         lt = (if \<not> use_sign \<or> n_sign n1 = PLUS then -1 else 1)
     in if use_sign \<and> n_sign n1 \<noteq> n_sign n2 then
          (if n_sign n1 = PLUS then Some 1 else Some (-1))
        else if n_len n1 \<noteq> n_len n2 then
          (if n_len n1 > n_len n2 then Some gt else Some lt)
        else do {
          (count, p1, p2) \<leftarrow>
            cmp_scan (n_len n1 + min (n_scale n1) (n_scale n2)) (n_value n1) 0 (n_value n2) 0;
          if ignore_last \<and> count = 1 \<and> n_scale n1 = n_scale n2 then Some 0
          else if count \<noteq> 0 then do {
            d1 \<leftarrow> rd (n_value n1) p1;
            d2 \<leftarrow> rd (n_value n2) p2;
            if d1 > d2 then Some gt else Some lt
          }
          else if n_scale n1 \<noteq> n_scale n2 then
            (if n_scale n1 > n_scale n2 then do {
               nz \<leftarrow> tail_nonzero (n_scale n1 - n_scale n2) (n_value n1) p1;
               Some (if nz then gt else 0)
             } else do {
               nz \<leftarrow> tail_nonzero (n_scale n2 - n_scale n1) (n_value n2) p2;
               Some (if nz then lt else 0)
             })
          else Some 0
        })"

definition bc_compare :: "bc_num \<Rightarrow> bc_num \<Rightarrow> int option" where
  "bc_compare n1 n2 = bc_do_compare n1 n2 True False"

definition bc_is_neg :: "bc_num \<Rightarrow> bool" where
  "bc_is_neg n \<longleftrightarrow> n_sign n = MINUS"

text \<open>\<^verbatim>\<open>while ((count > 0) && (*nptr++ == 0)) count--;\<close>\<close>

fun zero_scan :: "nat \<Rightarrow> int list \<Rightarrow> int \<Rightarrow> (nat \<times> int) option" where
  "zero_scan 0 v p = Some (0, p)"
| "zero_scan (Suc count) v p = do {
     d \<leftarrow> rd v p;
     if d = 0 then zero_scan count v (p + 1) else Some (Suc count, p + 1)
   }"

text \<open>The quick check \<^verbatim>\<open>num == _zero_\<close> of the code compares references; it gives the same answer.\<close>

definition bc_is_zero :: "bc_num \<Rightarrow> bool option" where
  "bc_is_zero n = (
     if n = bc_zero then Some True
     else do {
       (count, p) \<leftarrow> zero_scan (n_len n + n_scale n) (n_value n) 0;
       Some (if count \<noteq> 0 then False else True)
     })"

definition bc_is_near_zero :: "bc_num \<Rightarrow> nat \<Rightarrow> bool option" where
  "bc_is_near_zero n scale = (
     let scale = (if scale > n_scale n then n_scale n else scale)
     in do {
       (count, p) \<leftarrow> zero_scan (n_len n + scale) (n_value n) 0;
       if count = 0 then Some True
       else if count \<noteq> 1 then Some False
       else do { d \<leftarrow> rd (n_value n) (p - 1); Some (d = 1) }
     })"

section \<open>Well-formed numbers and their value\<close>

definition mag :: "bc_num \<Rightarrow> int" where
  "mag n = dval (seg (n_value n) 0 (n_len n + n_scale n))"

definition bc_abs :: "bc_num \<Rightarrow> rat" where
  "bc_abs n = of_int (mag n) / 10 ^ n_scale n"

definition bc_val :: "bc_num \<Rightarrow> rat" where
  "bc_val n = (if n_sign n = PLUS then bc_abs n else - bc_abs n)"

text \<open>\<open>bc_buf\<close>: the buffer holds the digits; \<open>bc_wf\<close>: and there is an integer digit (the halves of
  a factor inside a multiplication may have none); \<open>bc_lead\<close>: no superfluous leading zero;
  \<open>bc_canon\<close>: moreover no negative zero.\<close>

definition bc_buf :: "bc_num \<Rightarrow> bool" where
  "bc_buf n \<longleftrightarrow> n_len n + n_scale n \<le> length (n_value n) \<and> digits (n_value n)"

definition bc_wf :: "bc_num \<Rightarrow> bool" where
  "bc_wf n \<longleftrightarrow> n_len n \<ge> 1 \<and> n_len n + n_scale n \<le> length (n_value n) \<and> digits (n_value n)"

definition bc_lead :: "bc_num \<Rightarrow> bool" where
  "bc_lead n \<longleftrightarrow> bc_wf n \<and> (n_len n = 1 \<or> n_value n ! 0 \<noteq> 0)"

definition bc_canon :: "bc_num \<Rightarrow> bool" where
  "bc_canon n \<longleftrightarrow> bc_lead n \<and> \<not> (n_sign n = MINUS \<and> mag n = 0)"

text \<open>The magnitude in units of \<open>10 ^ -S\<close>, for a scale \<open>S\<close> no smaller than the number's own.\<close>

definition scaled :: "bc_num \<Rightarrow> nat \<Rightarrow> int" where
  "scaled n S = mag n * 10 ^ (S - n_scale n)"

lemma bc_wfD:
  assumes "bc_wf n"
  shows "1 \<le> n_len n" "n_len n + n_scale n \<le> length (n_value n)" "digits (n_value n)"
    "n_len n \<le> length (n_value n)" "0 < length (n_value n)"
  using assms by (auto simp: bc_wf_def)

lemma bc_bufD:
  assumes "bc_buf n"
  shows "n_len n + n_scale n \<le> length (n_value n)" "digits (n_value n)"
    "n_len n \<le> length (n_value n)"
  using assms by (auto simp: bc_buf_def)

lemma bc_wf_buf [intro]: "bc_wf n \<Longrightarrow> bc_buf n"
  by (simp add: bc_wf_def bc_buf_def)

lemma bc_leadD: "bc_lead n \<Longrightarrow> bc_wf n"
  by (simp add: bc_lead_def)

lemma bc_lead_buf [intro]: "bc_lead n \<Longrightarrow> bc_buf n"
  by (simp add: bc_lead_def bc_wf_buf)

lemma bc_canonD: "bc_canon n \<Longrightarrow> bc_lead n" "bc_canon n \<Longrightarrow> bc_wf n"
  by (simp_all add: bc_canon_def bc_lead_def)

lemma mag_nonneg: "bc_wf n \<Longrightarrow> 0 \<le> mag n"
  by (simp add: mag_def bc_wf_def)

lemma bc_abs_nonneg: "bc_wf n \<Longrightarrow> 0 \<le> bc_abs n"
  by (simp add: bc_abs_def mag_nonneg)

lemma bc_abs_scaled:
  assumes "n_scale n \<le> S"
  shows "bc_abs n = of_int (scaled n S) / 10 ^ S"
proof -
  have "(10::rat) ^ S = 10 ^ n_scale n * 10 ^ (S - n_scale n)"
    using assms by (simp flip: power_add)
  then show ?thesis by (simp add: bc_abs_def scaled_def)
qed

lemma bc_abs_le_iff:
  assumes "n_scale m \<le> S" "n_scale n \<le> S"
  shows "bc_abs m < bc_abs n \<longleftrightarrow> scaled m S < scaled n S"
    and "bc_abs m = bc_abs n \<longleftrightarrow> scaled m S = scaled n S"
  using assms by (simp_all add: bc_abs_scaled [of _ S] divide_strict_right_mono field_simps)

lemma bc_abs_eq_0_iff: "bc_abs n = 0 \<longleftrightarrow> mag n = 0"
  by (simp add: bc_abs_def)

lemma bc_val_eq_0_iff: "bc_val n = 0 \<longleftrightarrow> mag n = 0"
  by (simp add: bc_val_def bc_abs_eq_0_iff)

text \<open>Splitting the digits after \<open>m\<close> places behind the point.\<close>

definition prefix_val :: "bc_num \<Rightarrow> nat \<Rightarrow> int" where
  "prefix_val n m = dval (seg (n_value n) 0 (n_len n + m))"

lemma scaled_bounds:
  assumes wf: "bc_wf n" and m: "m \<le> n_scale n" and S: "n_scale n \<le> S"
  shows "prefix_val n m * 10 ^ (S - m) \<le> scaled n S" "scaled n S < (prefix_val n m + 1) * 10 ^ (S - m)"
proof -
  let ?T = "seg (n_value n) (n_len n + m) (n_scale n - m)"
  have len: "length ?T = n_scale n - m"
    using wf m by (simp add: bc_wf_def)
  have dig: "digits ?T"
    using wf by (simp add: bc_wf_def)
  have "seg (n_value n) 0 (n_len n + n_scale n) = seg (n_value n) 0 (n_len n + m) @ ?T"
    using seg_append [of "n_value n" 0 "n_len n + m" "n_scale n - m"] m by simp
  then have mg: "mag n = prefix_val n m * 10 ^ (n_scale n - m) + dval ?T"
    by (simp add: mag_def prefix_val_def dval_append len)
  have pow: "(10::int) ^ (S - m) = 10 ^ (n_scale n - m) * 10 ^ (S - n_scale n)"
    using m S by (simp flip: power_add)
  have "0 \<le> dval ?T" using dig by simp
  then show "prefix_val n m * 10 ^ (S - m) \<le> scaled n S"
    unfolding scaled_def mg pow by (simp add: algebra_simps)
  have "dval ?T < 10 ^ (n_scale n - m)"
    using dval_less [OF dig] len by simp
  then have "dval ?T * 10 ^ (S - n_scale n) < 10 ^ (n_scale n - m) * 10 ^ (S - n_scale n)"
    by simp
  then show "scaled n S < (prefix_val n m + 1) * 10 ^ (S - m)"
    unfolding scaled_def mg pow by (simp add: algebra_simps)
qed

lemma prefix_val_0_bounds:
  assumes "bc_wf n"
  shows "0 \<le> prefix_val n 0" "prefix_val n 0 < 10 ^ n_len n"
  using assms dval_less [of "seg (n_value n) 0 (n_len n)"]
  by (auto simp: prefix_val_def bc_wf_def)

lemma prefix_val_0_lead:
  assumes "bc_lead n" and "n_len n > 1"
  shows "10 ^ (n_len n - 1) \<le> prefix_val n 0"
proof -
  obtain l where l: "n_len n = Suc l" using assms(2) by (cases "n_len n") auto
  have wf: "bc_wf n" and nz: "n_value n ! 0 \<noteq> 0"
    using assms by (auto simp: bc_lead_def)
  have "seg (n_value n) 0 (n_len n) = n_value n ! 0 # seg (n_value n) 1 l"
    using bc_wfD(4,5) [OF wf] l by (simp add: seg_Cons)
  moreover have "length (seg (n_value n) 1 l) = l"
    using bc_wfD(4) [OF wf] l by simp
  ultimately have "prefix_val n 0 = n_value n ! 0 * 10 ^ l + dval (seg (n_value n) 1 l)"
    by (simp add: prefix_val_def dval_Cons)
  moreover have "1 \<le> n_value n ! 0"
    using digits_nth [OF bc_wfD(3,5) [OF wf]] nz by (simp add: digit_def)
  then have "10 ^ l \<le> n_value n ! 0 * 10 ^ l"
    by simp
  moreover have "0 \<le> dval (seg (n_value n) 1 l)"
    using bc_wfD(3) [OF wf] by simp
  ultimately have "10 ^ l \<le> prefix_val n 0"
    by linarith
  then show ?thesis using l by simp
qed

section \<open>Correctness of the comparison\<close>

lemma cmp_scan_spec:
  assumes "k1 + n \<le> length v1" and "k2 + n \<le> length v2"
  shows "\<exists>i \<le> n. cmp_scan n v1 (int k1) v2 (int k2) = Some (n - i, int (k1 + i), int (k2 + i))
           \<and> seg v1 k1 i = seg v2 k2 i \<and> (i < n \<longrightarrow> v1 ! (k1 + i) \<noteq> v2 ! (k2 + i))"
  using assms
proof (induction n arbitrary: k1 k2)
  case 0
  then show ?case by simp
next
  case (Suc n)
  show ?case
  proof (cases "v1 ! k1 = v2 ! k2")
    case False
    then show ?thesis using Suc.prems by (intro exI [of _ 0]) (simp add: buf_simps)
  next
    case True
    obtain i where i: "i \<le> n"
      "cmp_scan n v1 (int (Suc k1)) v2 (int (Suc k2)) = Some (n - i, int (Suc k1 + i), int (Suc k2 + i))"
      "seg v1 (Suc k1) i = seg v2 (Suc k2) i"
      "i < n \<longrightarrow> v1 ! (Suc k1 + i) \<noteq> v2 ! (Suc k2 + i)"
      using Suc.IH [of "Suc k1" "Suc k2"] Suc.prems by auto
    have "cmp_scan (Suc n) v1 (int k1) v2 (int k2) = Some (Suc n - Suc i, int (k1 + Suc i), int (k2 + Suc i))"
      using True Suc.prems i(2) by (simp add: buf_simps algebra_simps)
    then show ?thesis
      using True Suc.prems i by (intro exI [of _ "Suc i"]) (simp add: seg_Cons)
  qed
qed

lemma tail_nonzero_spec:
  assumes "k + n \<le> length v" and "digits v"
  shows "tail_nonzero n v (int k) = Some (dval (seg v k n) \<noteq> 0)"
  using assms
proof (induction n arbitrary: k)
  case 0
  then show ?case by simp
next
  case (Suc n)
  have d: "digit (v ! k)" using Suc.prems by (intro digits_nth) auto
  have IH: "tail_nonzero n v (int k + 1) = Some (dval (seg v (Suc k) n) \<noteq> 0)"
    using Suc.IH [of "Suc k"] Suc.prems by (simp add: algebra_simps)
  have "0 \<le> dval (seg v (Suc k) n)"
    using Suc.prems by simp
  then have "v ! k * 10 ^ n + dval (seg v (Suc k) n) \<noteq> 0 \<longleftrightarrow> v ! k \<noteq> 0 \<or> dval (seg v (Suc k) n) \<noteq> 0"
    using d by (auto simp: digit_def add_nonneg_eq_0_iff)
  moreover have "dval (seg v k (Suc n)) = v ! k * 10 ^ n + dval (seg v (Suc k) n)"
    using Suc.prems by (simp add: seg_Cons dval_Cons)
  ultimately show ?case
    using IH Suc.prems by (simp add: buf_simps)
qed

lemma zero_scan_spec:
  assumes "k + n \<le> length v" and "digits v"
  shows "\<exists>i \<le> n. dval (seg v k i) = 0 \<and> (i < n \<longrightarrow> v ! (k + i) \<noteq> 0) \<and>
           (\<exists>p. zero_scan n v (int k) = Some (n - i, p) \<and> (i < n \<longrightarrow> p = int (k + i) + 1))"
  using assms
proof (induction n arbitrary: k)
  case 0
  then show ?case by simp
next
  case (Suc n)
  show ?case
  proof (cases "v ! k = 0")
    case False
    then show ?thesis using Suc.prems by (intro exI [of _ 0]) (simp add: buf_simps)
  next
    case True
    obtain i p where i: "i \<le> n" "dval (seg v (Suc k) i) = 0" "i < n \<longrightarrow> v ! (Suc k + i) \<noteq> 0"
      "zero_scan n v (int (Suc k)) = Some (n - i, p)" "i < n \<longrightarrow> p = int (Suc k + i) + 1"
      using Suc.IH [of "Suc k"] Suc.prems by auto
    then show ?thesis
      using True Suc.prems
      by (intro exI [of _ "Suc i"]) (simp add: buf_simps seg_Cons dval_Cons algebra_simps)
  qed
qed

lemma dval_lex:
  assumes "digits us" and "digits ws" and "length us = length ws" and "d1 < d2"
  shows "dval (xs @ d1 # us) < dval (xs @ d2 # ws)"
proof -
  have "dval us < 10 ^ length ws"
    using dval_less [OF assms(1)] assms(3) by simp
  moreover have "(d1 + 1) * 10 ^ length ws \<le> d2 * 10 ^ length ws"
    using assms(4) by (intro mult_right_mono) auto
  moreover have "0 \<le> dval ws" using assms(2) by simp
  ultimately have "d1 * 10 ^ length ws + dval us < d2 * 10 ^ length ws + dval ws"
    by (simp add: algebra_simps)
  then show ?thesis using assms(3) by (simp add: dval_append dval_Cons)
qed

lemma seg_lex:
  assumes "digits v1" "digits v2" "n \<le> length v1" "n \<le> length v2" "i < n"
    and "seg v1 0 i = seg v2 0 i" and "v1 ! i < v2 ! i"
  shows "dval (seg v1 0 n) < dval (seg v2 0 n)"
proof -
  have "seg v 0 n = seg v 0 i @ v ! i # seg v (Suc i) (n - Suc i)"
    if "n \<le> length v" for v :: "int list"
    using seg_append [of v 0 i "Suc (n - Suc i)"] that assms(5) by (simp add: seg_Cons)
  then show ?thesis
    using assms dval_lex [of "seg v1 (Suc i) (n - Suc i)" "seg v2 (Suc i) (n - Suc i)"]
    by simp
qed

text \<open>The three-way comparison as a value of the code, \<open>-1\<close>, \<open>0\<close> or \<open>1\<close>.\<close>

definition cmp3 :: "'a::linorder \<Rightarrow> 'a \<Rightarrow> int" where
  "cmp3 x y = (if x < y then -1 else if x = y then 0 else 1)"

lemma cmp3_simps [simp]:
  "x < y \<Longrightarrow> cmp3 x y = -1" "cmp3 x x = 0" "y < x \<Longrightarrow> cmp3 x y = 1"
  by (auto simp: cmp3_def)

lemma bc_abs_cmp3:
  "n_scale m \<le> S \<Longrightarrow> n_scale n \<le> S \<Longrightarrow> cmp3 (bc_abs m) (bc_abs n) = cmp3 (scaled m S) (scaled n S)"
  by (auto simp: cmp3_def bc_abs_le_iff)

lemma longer_is_greater:
  assumes "bc_lead m" and "bc_wf n" and "n_len n < n_len m" and "n_scale m \<le> S" "n_scale n \<le> S"
  shows "scaled n S < scaled m S"
proof -
  have wf: "bc_wf m" using assms(1) by (rule bc_leadD)
  have "1 < n_len m" using assms(3) bc_wfD(1) [OF assms(2)] by simp
  note lead = prefix_val_0_lead [OF assms(1) this]
  have "prefix_val n 0 + 1 \<le> 10 ^ n_len n"
    using prefix_val_0_bounds [OF assms(2)] by simp
  also have "\<dots> \<le> (10::int) ^ (n_len m - 1)"
    using assms(3) by (intro power_increasing) auto
  also note lead
  finally have "(prefix_val n 0 + 1) * 10 ^ S \<le> prefix_val m 0 * 10 ^ S"
    by (intro mult_right_mono) auto
  then show ?thesis
    using scaled_bounds(2) [OF assms(2), of 0 S] scaled_bounds(1) [OF wf, of 0 S] assms(4,5)
    by (metis le_less_trans less_le_trans not_le zero_le diff_zero)
qed

lemma prefix_val_less_scaled:
  assumes "bc_wf m" "bc_wf n" "k \<le> n_scale m" "k \<le> n_scale n" "n_scale m \<le> S" "n_scale n \<le> S"
    and "prefix_val n k < prefix_val m k"
  shows "scaled n S < scaled m S"
proof -
  have "(prefix_val n k + 1) * 10 ^ (S - k) \<le> prefix_val m k * 10 ^ (S - k)"
    using assms(7) by (intro mult_right_mono) auto
  then show ?thesis
    using scaled_bounds(2) [OF assms(2,4,6)] scaled_bounds(1) [OF assms(1,3,5)] by linarith
qed

lemma mag_split:
  assumes "bc_buf n" and "m \<le> n_scale n"
  shows "mag n = prefix_val n m * 10 ^ (n_scale n - m)
           + dval (seg (n_value n) (n_len n + m) (n_scale n - m))"
proof -
  have "seg (n_value n) 0 (n_len n + n_scale n)
      = seg (n_value n) 0 (n_len n + m) @ seg (n_value n) (n_len n + m) (n_scale n - m)"
    using seg_append [of "n_value n" 0 "n_len n + m" "n_scale n - m"] assms(2) by simp
  then show ?thesis
    using assms by (simp add: mag_def prefix_val_def dval_append bc_buf_def)
qed

text \<open>
  The three ways the comparison of two magnitudes is decided: by the number of integer
  digits, by the first differing digit, by the rest of the longer fraction.
\<close>

definition cmp_result :: "bool \<Rightarrow> bc_num \<Rightarrow> int \<Rightarrow> int" where
  "cmp_result use_sign n1 c = (if \<not> use_sign \<or> n_sign n1 = PLUS then c else - c)"

lemma compare_len:
  assumes "bc_lead n1" "bc_lead n2" and "use_sign \<Longrightarrow> n_sign n1 = n_sign n2"
    and "n_len n1 \<noteq> n_len n2"
  shows "bc_do_compare n1 n2 use_sign ign
           = Some (cmp_result use_sign n1 (cmp3 (bc_abs n1) (bc_abs n2)))"
proof -
  let ?S = "max (n_scale n1) (n_scale n2)"
  have c3: "cmp3 (bc_abs n1) (bc_abs n2) = cmp3 (scaled n1 ?S) (scaled n2 ?S)"
    by (rule bc_abs_cmp3) auto
  consider "n_len n2 < n_len n1" | "n_len n1 < n_len n2" using assms(4) by linarith
  then show ?thesis
  proof cases
    case 1
    then have "scaled n2 ?S < scaled n1 ?S"
      by (intro longer_is_greater assms bc_leadD) auto
    then show ?thesis using 1 assms(3) by (simp add: bc_do_compare_def c3 cmp_result_def Let_def)
  next
    case 2
    then have "scaled n1 ?S < scaled n2 ?S"
      by (intro longer_is_greater assms bc_leadD) auto
    then show ?thesis using 2 assms(3) by (simp add: bc_do_compare_def c3 cmp_result_def Let_def)
  qed
qed

lemma compare_digit:
  assumes wf: "bc_wf n1" "bc_wf n2" and sg: "use_sign \<Longrightarrow> n_sign n1 = n_sign n2"
    and len: "n_len n1 = n_len n2" and k: "k = n_len n1 + min (n_scale n1) (n_scale n2)"
    and i: "i < k" "cmp_scan k (n_value n1) 0 (n_value n2) 0 = Some (k - i, int i, int i)"
      "seg (n_value n1) 0 i = seg (n_value n2) 0 i" "n_value n1 ! i \<noteq> n_value n2 ! i"
  shows "bc_do_compare n1 n2 use_sign False
           = Some (cmp_result use_sign n1 (cmp3 (bc_abs n1) (bc_abs n2)))"
proof -
  let ?S = "max (n_scale n1) (n_scale n2)" and ?m = "min (n_scale n1) (n_scale n2)"
  have c3: "cmp3 (bc_abs n1) (bc_abs n2) = cmp3 (scaled n1 ?S) (scaled n2 ?S)"
    by (rule bc_abs_cmp3) auto
  have bounds: "k \<le> length (n_value n1)" "k \<le> length (n_value n2)"
    using bc_wfD(2) [OF wf(1)] bc_wfD(2) [OF wf(2)] len k by linarith+
  have rds: "rd (n_value n1) (int i) = Some (n_value n1 ! i)"
    "rd (n_value n2) (int i) = Some (n_value n2 ! i)"
    using i(1) bounds by (simp_all add: buf_simps)
  consider "n_value n1 ! i < n_value n2 ! i" | "n_value n2 ! i < n_value n1 ! i"
    using i(4) by linarith
  then show ?thesis
  proof cases
    case 1
    then have "prefix_val n1 ?m < prefix_val n2 ?m"
      unfolding prefix_val_def len [symmetric] k [symmetric]
      using i bounds wf by (intro seg_lex [of _ _ k i]) (auto simp: bc_wf_def)
    then have "scaled n1 ?S < scaled n2 ?S"
      by (intro prefix_val_less_scaled [OF wf(2,1), of ?m]) auto
    then show ?thesis
      using 1 sg i(1,2) rds len k by (simp add: bc_do_compare_def c3 cmp_result_def Let_def)
  next
    case 2
    then have "prefix_val n2 ?m < prefix_val n1 ?m"
      unfolding prefix_val_def len [symmetric] k [symmetric]
      using i bounds wf by (intro seg_lex [of _ _ k i]) (auto simp: bc_wf_def)
    then have "scaled n2 ?S < scaled n1 ?S"
      by (intro prefix_val_less_scaled [OF wf, of ?m]) auto
    then show ?thesis
      using 2 sg i(1,2) rds len k by (simp add: bc_do_compare_def c3 cmp_result_def Let_def)
  qed
qed

lemma compare_tail:
  assumes wf: "bc_wf n1" "bc_wf n2" and sg: "use_sign \<Longrightarrow> n_sign n1 = n_sign n2"
    and len: "n_len n1 = n_len n2" and k: "k = n_len n1 + min (n_scale n1) (n_scale n2)"
    and i: "cmp_scan k (n_value n1) 0 (n_value n2) 0 = Some (0, int k, int k)"
      "seg (n_value n1) 0 k = seg (n_value n2) 0 k"
  shows "bc_do_compare n1 n2 use_sign False
           = Some (cmp_result use_sign n1 (cmp3 (bc_abs n1) (bc_abs n2)))"
proof -
  let ?S = "max (n_scale n1) (n_scale n2)" and ?m = "min (n_scale n1) (n_scale n2)"
  let ?T1 = "dval (seg (n_value n1) k (n_scale n1 - n_scale n2))"
  let ?T2 = "dval (seg (n_value n2) k (n_scale n2 - n_scale n1))"
  have c3: "cmp3 (bc_abs n1) (bc_abs n2) = cmp3 (scaled n1 ?S) (scaled n2 ?S)"
    by (rule bc_abs_cmp3) auto
  have pv: "prefix_val n1 ?m = prefix_val n2 ?m"
    using i(2) k len by (simp add: prefix_val_def)
  have "k + (n_scale n1 - n_scale n2) \<le> length (n_value n1)"
    "k + (n_scale n2 - n_scale n1) \<le> length (n_value n2)"
    using bc_wfD(2) [OF wf(1)] bc_wfD(2) [OF wf(2)] len k by auto
  then have T: "tail_nonzero (n_scale n1 - n_scale n2) (n_value n1) (int k) = Some (?T1 \<noteq> 0)"
    "tail_nonzero (n_scale n2 - n_scale n1) (n_value n2) (int k) = Some (?T2 \<noteq> 0)"
    using bc_wfD(3) [OF wf(1)] bc_wfD(3) [OF wf(2)] by (simp_all only: tail_nonzero_spec)
  have nn: "0 \<le> ?T1" "0 \<le> ?T2" using bc_wfD(3) [OF wf(1)] bc_wfD(3) [OF wf(2)] by simp_all
  note m1 = mag_split [OF bc_wf_buf [OF wf(1)], of ?m] and m2 = mag_split [OF bc_wf_buf [OF wf(2)], of ?m]
  consider (eq) "n_scale n1 = n_scale n2" | (gt) "n_scale n2 < n_scale n1"
    | (lt) "n_scale n1 < n_scale n2" by linarith
  then show ?thesis
  proof cases
    case eq
    then have "scaled n1 ?S = scaled n2 ?S"
      using m1 m2 pv by (simp add: scaled_def)
    then show ?thesis
      using sg i eq len k by (simp add: bc_do_compare_def c3 cmp_result_def Let_def)
  next
    case gt
    then have "scaled n1 ?S = scaled n2 ?S + ?T1"
      using m1 m2 pv k by (simp add: scaled_def min_absorb2 max_absorb1)
    then have "cmp3 (scaled n1 ?S) (scaled n2 ?S) = (if ?T1 \<noteq> 0 then 1 else 0)"
      using nn by (auto simp: cmp3_def)
    then show ?thesis
      using sg i gt len k T by (simp add: bc_do_compare_def c3 cmp_result_def Let_def)
  next
    case lt
    then have "scaled n2 ?S = scaled n1 ?S + ?T2"
      using m1 m2 pv k len by (simp add: scaled_def min_absorb1 max_absorb2)
    then have "cmp3 (scaled n1 ?S) (scaled n2 ?S) = (if ?T2 \<noteq> 0 then -1 else 0)"
      using nn by (auto simp: cmp3_def)
    then show ?thesis
      using sg i lt len k T by (simp add: bc_do_compare_def c3 cmp_result_def Let_def)
  qed
qed

lemma bc_do_compare_abs:
  assumes "bc_lead n1" and "bc_lead n2" and sg: "use_sign \<Longrightarrow> n_sign n1 = n_sign n2"
  shows "bc_do_compare n1 n2 use_sign False
           = Some (cmp_result use_sign n1 (cmp3 (bc_abs n1) (bc_abs n2)))"
proof (cases "n_len n1 = n_len n2")
  case False
  with assms show ?thesis by (intro compare_len) auto
next
  case len: True
  have wf: "bc_wf n1" "bc_wf n2" using assms by (auto intro: bc_leadD)
  define k where "k = n_len n1 + min (n_scale n1) (n_scale n2)"
  have "k \<le> length (n_value n1)" "k \<le> length (n_value n2)"
    using bc_wfD(2) [OF wf(1)] bc_wfD(2) [OF wf(2)] len k_def by linarith+
  then obtain i where i: "i \<le> k"
    "cmp_scan k (n_value n1) 0 (n_value n2) 0 = Some (k - i, int i, int i)"
    "seg (n_value n1) 0 i = seg (n_value n2) 0 i"
    "i < k \<longrightarrow> n_value n1 ! i \<noteq> n_value n2 ! i"
    using cmp_scan_spec [of 0 k "n_value n1" 0 "n_value n2"] by auto
  show ?thesis
  proof (cases "i < k")
    case True
    with i show ?thesis by (intro compare_digit [OF wf sg len k_def, where i = i]) auto
  next
    case False
    with i show ?thesis by (intro compare_tail [OF wf sg len k_def]) auto
  qed
qed

lemma bc_compare_val:
  assumes "bc_canon n1" and "bc_canon n2"
  shows "bc_compare n1 n2 = Some (cmp3 (bc_val n1) (bc_val n2))"
proof (cases "n_sign n1 = n_sign n2")
  case True
  then show ?thesis
    using bc_do_compare_abs [of n1 n2 True] assms
    by (auto simp: bc_compare_def cmp_result_def bc_val_def cmp3_def bc_canon_def)
next
  case False
  have nn: "0 \<le> bc_abs n1" "0 \<le> bc_abs n2"
    using assms by (auto intro: bc_abs_nonneg bc_canonD)
  have pos: "n_sign m = MINUS \<Longrightarrow> bc_canon m \<Longrightarrow> 0 < bc_abs m" for m
    using bc_abs_eq_0_iff [of m] bc_abs_nonneg [of m]
    by (auto simp: bc_canon_def bc_lead_def order.order_iff_strict)
  show ?thesis
  proof (cases "n_sign n1")
    case PLUS
    then have "n_sign n2 = MINUS" using False by (cases "n_sign n2") auto
    then have "bc_val n2 < bc_val n1" using PLUS nn pos [of n2] assms by (simp add: bc_val_def)
    then show ?thesis
      using PLUS False by (simp add: bc_compare_def bc_do_compare_def Let_def)
  next
    case MINUS
    then have "n_sign n2 = PLUS" using False by (cases "n_sign n2") auto
    then have "bc_val n1 < bc_val n2" using MINUS nn pos [of n1] assms by (simp add: bc_val_def)
    then show ?thesis
      using MINUS False by (simp add: bc_compare_def bc_do_compare_def Let_def)
  qed
qed

section \<open>Zero tests and normalisation\<close>

lemma bc_zero_props [simp]: "bc_canon bc_zero" "mag bc_zero = 0" "bc_val bc_zero = 0"
    "n_len bc_zero = 1" "n_scale bc_zero = 0" "n_sign bc_zero = PLUS" "n_value bc_zero = [0]"
  by (simp_all add: bc_zero_def bc_new_num_def bc_canon_def bc_lead_def bc_wf_def mag_def
      seg_def bc_val_def bc_abs_def digit_def)

lemma bc_one_props [simp]: "bc_canon bc_one" "mag bc_one = 1" "bc_val bc_one = 1"
    "n_len bc_one = 1" "n_scale bc_one = 0" "n_sign bc_one = PLUS" "n_value bc_one = [1]"
  by (simp_all add: bc_one_def bc_new_num_def bc_canon_def bc_lead_def bc_wf_def mag_def
      seg_def bc_val_def bc_abs_def digit_def)

lemma bc_two_props [simp]: "bc_canon bc_two" "mag bc_two = 2" "bc_val bc_two = 2"
    "n_len bc_two = 1" "n_scale bc_two = 0" "n_sign bc_two = PLUS" "n_value bc_two = [2]"
  by (simp_all add: bc_two_def bc_new_num_def bc_canon_def bc_lead_def bc_wf_def mag_def
      seg_def bc_val_def bc_abs_def digit_def)

lemma dval_first_nonzero:
  assumes "i < n" and "n \<le> length v" and "digits v" and "dval (seg v 0 i) = 0" and "v ! i \<noteq> 0"
  shows "10 ^ (n - Suc i) \<le> dval (seg v 0 n)"
    and "dval (seg v 0 n) = v ! i * 10 ^ (n - Suc i) + dval (seg v (Suc i) (n - Suc i))"
proof -
  have "seg v 0 n = seg v 0 i @ v ! i # seg v (Suc i) (n - Suc i)"
    using seg_append [of v 0 i "Suc (n - Suc i)"] assms(1,2) by (simp add: seg_Cons)
  then show eq: "dval (seg v 0 n) = v ! i * 10 ^ (n - Suc i) + dval (seg v (Suc i) (n - Suc i))"
    using assms by (simp add: dval_append dval_Cons)
  have "1 \<le> v ! i"
    using digits_nth [OF assms(3), of i] assms by (simp add: digit_def)
  then have "10 ^ (n - Suc i) \<le> v ! i * 10 ^ (n - Suc i)" by simp
  moreover have "0 \<le> dval (seg v (Suc i) (n - Suc i))" using assms(3) by simp
  ultimately show "10 ^ (n - Suc i) \<le> dval (seg v 0 n)" unfolding eq by linarith
qed

lemma bc_is_zero_buf:
  assumes wf: "bc_buf n"
  shows "bc_is_zero n = Some (mag n = 0)"
proof (cases "n = bc_zero")
  case True
  then show ?thesis by (simp add: bc_is_zero_def)
next
  case False
  let ?k = "n_len n + n_scale n"
  obtain i p where i: "i \<le> ?k" "dval (seg (n_value n) 0 i) = 0"
    "i < ?k \<longrightarrow> n_value n ! i \<noteq> 0" "zero_scan ?k (n_value n) 0 = Some (?k - i, p)"
    using zero_scan_spec [of 0 ?k "n_value n"] bc_bufD(1,2) [OF wf] by auto
  have "mag n = 0 \<longleftrightarrow> i = ?k"
  proof (cases "i < ?k")
    case True
    then have "10 ^ (?k - Suc i) \<le> mag n"
      using dval_first_nonzero(1) [of i ?k "n_value n"] i bc_bufD(1,2) [OF wf] by (simp add: mag_def)
    moreover have "(0::int) < 10 ^ (?k - Suc i)" by simp
    ultimately show ?thesis using True by linarith
  next
    case False
    then have "i = ?k" using i(1) by simp
    then show ?thesis using i(2) by (simp add: mag_def)
  qed
  then show ?thesis using False i(1,4) by (auto simp: bc_is_zero_def)
qed

lemma bc_is_zero_mag: "bc_wf n \<Longrightarrow> bc_is_zero n = Some (mag n = 0)"
  by (rule bc_is_zero_buf [OF bc_wf_buf])

lemma bc_is_zero_val: "bc_wf n \<Longrightarrow> bc_is_zero n = Some (bc_val n = 0)"
  by (simp add: bc_is_zero_mag bc_val_eq_0_iff)

lemma bc_is_near_zero_mag:
  assumes wf: "bc_wf n" and m: "m = min scale (n_scale n)"
  shows "bc_is_near_zero n scale = Some (prefix_val n m \<le> 1)"
proof -
  let ?k = "n_len n + m"
  have k: "?k \<le> length (n_value n)" and dg: "digits (n_value n)"
    using bc_wfD(2,3) [OF wf] m by auto
  obtain i p where i: "i \<le> ?k" "dval (seg (n_value n) 0 i) = 0" "i < ?k \<longrightarrow> n_value n ! i \<noteq> 0"
    "zero_scan ?k (n_value n) 0 = Some (?k - i, p)" "i < ?k \<longrightarrow> p = int i + 1"
    using zero_scan_spec [of 0 ?k "n_value n"] k dg by auto
  have sc: "(if scale > n_scale n then n_scale n else scale) = m"
    using m by simp
  consider "i = ?k" | "Suc i = ?k" | "Suc i < ?k" using i(1) by linarith
  then show ?thesis
  proof cases
    case 1
    then show ?thesis using i(2,4) by (simp add: bc_is_near_zero_def sc prefix_val_def Let_def)
  next
    case 2
    then have "i < ?k" and d: "rd (n_value n) (int i) = Some (n_value n ! i)"
      using k by (simp_all add: buf_simps)
    then have pv: "prefix_val n m = n_value n ! i"
      using dval_first_nonzero(2) [of i ?k "n_value n"] i k dg 2 by (simp add: prefix_val_def)
    have "n_value n ! i \<noteq> 0" "digit (n_value n ! i)"
      using i(3) \<open>i < ?k\<close> digits_nth [OF dg, of i] k by auto
    then have "n_value n ! i \<le> 1 \<longleftrightarrow> n_value n ! i = 1" by (auto simp: digit_def)
    moreover have "?k - i = 1" using 2 by simp
    ultimately show ?thesis
      using i(4,5) \<open>i < ?k\<close> d by (simp add: bc_is_near_zero_def sc pv Let_def)
  next
    case 3
    then have "10 ^ (?k - Suc i) \<le> prefix_val n m"
      using dval_first_nonzero(1) [of i ?k "n_value n"] i k dg by (simp add: prefix_val_def)
    moreover have "(10::int) ^ 1 \<le> 10 ^ (?k - Suc i)"
      using 3 by (intro power_increasing) auto
    ultimately have "\<not> prefix_val n m \<le> 1" by simp
    moreover have "?k - i \<noteq> 1" "?k - i \<noteq> 0" using 3 by linarith+
    ultimately show ?thesis using i(4) by (simp add: bc_is_near_zero_def sc Let_def)
  qed
qed

lemma strip_zeros_spec:
  assumes "1 \<le> l" and "l \<le> length v"
  shows "\<exists>k < l. strip_zeros v l = Some (drop k v, l - k) \<and> take k v = replicate k 0
           \<and> (l - k = 1 \<or> drop k v ! 0 \<noteq> 0)"
  using assms
proof (induction v l rule: strip_zeros.induct)
  case (1 len)
  then show ?case by simp
next
  case (2 d ds len)
  show ?case
  proof (cases "d = 0 \<and> len > 1")
    case False
    then show ?thesis using 2(2) by (intro exI [of _ 0]) auto
  next
    case True
    then obtain k where "k < len - 1" "strip_zeros ds (len - 1) = Some (drop k ds, len - 1 - k)"
      "take k ds = replicate k 0" "len - 1 - k = 1 \<or> drop k ds ! 0 \<noteq> 0"
      using 2(1) [OF True] 2(3) by fastforce
    then show ?thesis using True by (intro exI [of _ "Suc k"]) auto
  qed
qed

text \<open>Removing leading zeros leaves the value alone and establishes \<open>bc_lead\<close>.\<close>

lemma bc_rm_leading_zeros_spec:
  assumes wf: "bc_wf n"
  shows "\<exists>n'. bc_rm_leading_zeros n = Some n' \<and> bc_lead n' \<and> mag n' = mag n
           \<and> n_scale n' = n_scale n \<and> n_sign n' = n_sign n \<and> n_len n' \<le> n_len n"
proof -
  obtain k where k: "k < n_len n"
    "strip_zeros (n_value n) (n_len n) = Some (drop k (n_value n), n_len n - k)"
    "take k (n_value n) = replicate k 0" "n_len n - k = 1 \<or> drop k (n_value n) ! 0 \<noteq> 0"
    using strip_zeros_spec [OF bc_wfD(1,4) [OF wf]] by blast
  let ?n = "n\<lparr>n_value := drop k (n_value n), n_len := n_len n - k\<rparr>"
  have "seg (n_value n) 0 (k + (n_len n - k + n_scale n))
      = replicate k 0 @ seg (drop k (n_value n)) 0 (n_len n - k + n_scale n)"
    unfolding seg_append using k(3) by (simp add: seg_def add.commute)
  then have "mag ?n = mag n"
    using k(1) by (simp add: mag_def dval_append)
  then show ?thesis
    using k wf by (intro exI [of _ ?n]) (auto simp: bc_rm_leading_zeros_def bc_lead_def bc_wf_def)
qed

lemma bc_rm_leading_zeros_len: "bc_rm_leading_zeros n = Some n' \<Longrightarrow> n_len n' \<le> n_len n"
proof -
  have "strip_zeros v l = Some (v', l') \<Longrightarrow> l' \<le> l" for v l v' l'
    by (induction v l rule: strip_zeros.induct) (auto split: if_splits)
  then show "bc_rm_leading_zeros n = Some n' \<Longrightarrow> n_len n' \<le> n_len n"
    by (fastforce simp: bc_rm_leading_zeros_def split: Option.bind_splits)
qed

text \<open>\<^verbatim>\<open>for (...; count > 0; count--) *ptr++ = 0;\<close>\<close>

fun zero_fill :: "nat \<Rightarrow> int list \<Rightarrow> int \<Rightarrow> int list option" where
  "zero_fill 0 v p = Some v"
| "zero_fill (Suc count) v p = do { v' \<leftarrow> wr v p 0; zero_fill count v' (p + 1) }"

lemma zero_fill_zeros:
  "k + n \<le> N \<Longrightarrow> zero_fill n (replicate N 0) (int k) = Some (replicate N 0)"
proof (induction n arbitrary: k)
  case 0
  then show ?case by simp
next
  case (Suc n)
  then have "(replicate N (0::int))[k := 0] = replicate N 0"
    by (metis list_update_id nth_replicate add_Suc_right less_le_trans less_add_Suc1)
  moreover have "zero_fill n (replicate N 0) (int k + 1) = Some (replicate N 0)"
    using Suc.IH [of "Suc k"] Suc.prems by (simp add: algebra_simps)
  ultimately show ?case
    using Suc.prems by (simp add: buf_simps)
qed

lemma splice_splice:
  "j + length ys = i \<Longrightarrow> i + length xs \<le> length v \<Longrightarrow>
     splice (splice v i xs) j ys = splice v j (ys @ xs)"
  by (auto simp: splice_def add.assoc)

lemma splice_zeros:
  "i + length ys \<le> N \<Longrightarrow>
     splice (replicate N 0) i ys = replicate i 0 @ ys @ replicate (N - i - length ys) 0"
  by (simp add: splice_def min_def)

text \<open>The digits up to the common scale, and the digits beyond it.\<close>

lemma scaled_split:
  assumes "bc_buf n" and "m \<le> n_scale n" and "n_scale n \<le> S" and "n_scale n = m \<or> n_scale n = S"
  shows "scaled n S = prefix_val n m * 10 ^ (S - m)
           + dval (seg (n_value n) (n_len n + m) (n_scale n - m))"
  using mag_split [OF assms(1,2)] assms(4) by (auto simp: scaled_def)

lemma prefix_val_split:
  assumes "bc_buf n" and "m \<le> n_scale n" and "k \<le> n_len n + m"
  shows "prefix_val n m = dval (seg (n_value n) 0 (n_len n + m - k)) * 10 ^ k
           + dval (seg (n_value n) (n_len n + m - k) k)"
  using seg_append [of "n_value n" 0 "n_len n + m - k" k] assms
  by (simp add: prefix_val_def dval_append bc_buf_def)

text \<open>A magnitude result: the digits \<open>ds\<close> behind \<open>n_len\<close>, then \<open>e\<close> zeros of padding scale.\<close>

lemma mag_padded:
  assumes "n_len n + n_scale n = length ds + e" and "n_value n = ds @ replicate e 0"
  shows "mag n = dval ds * 10 ^ e"
  using assms by (simp add: mag_def seg_def dval_append)

section \<open>Numbers written as digit strings\<close>

text \<open>The number with the given integer and fraction digits, for concrete inputs.\<close>

definition num_of :: "sign \<Rightarrow> int list \<Rightarrow> int list \<Rightarrow> bc_num" where
  "num_of s ip fp = \<lparr>n_sign = s, n_len = length ip, n_scale = length fp, n_value = ip @ fp\<rparr>"

lemma num_of_sel [simp]:
  "n_sign (num_of s ip fp) = s" "n_len (num_of s ip fp) = length ip"
  "n_scale (num_of s ip fp) = length fp" "n_value (num_of s ip fp) = ip @ fp"
  by (simp_all add: num_of_def)

lemma mag_num_of [simp]: "mag (num_of s ip fp) = dval (ip @ fp)"
  using seg_all [of "ip @ fp"] by (simp add: mag_def)

lemma bc_val_num_of:
  "bc_val (num_of s ip fp) = (if s = PLUS then 1 else -1) * of_int (dval (ip @ fp)) / 10 ^ length fp"
  by (simp add: bc_val_def bc_abs_def)

lemma bc_canon_num_of:
  "bc_canon (num_of s ip fp) \<longleftrightarrow> ip \<noteq> [] \<and> digits (ip @ fp) \<and> (length ip = 1 \<or> hd ip \<noteq> 0)
     \<and> (s = MINUS \<longrightarrow> dval (ip @ fp) \<noteq> 0)"
  by (cases ip) (auto simp: bc_canon_def bc_lead_def bc_wf_def)

lemma bc_wf_num_of: "bc_wf (num_of s ip fp) \<longleftrightarrow> ip \<noteq> [] \<and> digits (ip @ fp)"
  by (cases ip) (auto simp: bc_wf_def)

lemmas num_of_simps = bc_val_num_of bc_canon_num_of bc_wf_num_of dval_Cons digit_def

section \<open>Properties\<close>

text \<open>
  C33: on canonical numbers the comparison returns -1, 0 or 1 as the first value is smaller than,
  equal to or greater than the second, for all signs, lengths and scales.
\<close>

theorem bc_compare_correct:
  assumes "bc_canon n1" and "bc_canon n2"
  shows "bc_compare n1 n2 = Some (cmp3 (bc_val n1) (bc_val n2))"
  using assms by (rule bc_compare_val)

theorem bc_compare_correct_witness:
  "bc_compare (num_of MINUS [1] [5]) (num_of MINUS [1] [5, 2]) = Some 1
   \<and> bc_compare (num_of PLUS [1] [5, 0]) (num_of PLUS [1] [5]) = Some 0"
  using bc_compare_correct [of "num_of MINUS [1] [5]" "num_of MINUS [1] [5, 2]"]
    bc_compare_correct [of "num_of PLUS [1] [5, 0]" "num_of PLUS [1] [5]"]
  by (simp add: num_of_simps cmp3_def)

text \<open>
  Removing leading zeros keeps the value, sign and scale of every well-formed number, leaves
  no superfluous leading zero, and never reads outside the digits.
\<close>

theorem bc_rm_leading_zeros_correct:
  assumes "bc_wf n"
  shows "\<exists>n'. bc_rm_leading_zeros n = Some n' \<and> bc_lead n' \<and> bc_val n' = bc_val n
           \<and> n_scale n' = n_scale n \<and> n_sign n' = n_sign n \<and> n_len n' \<le> n_len n"
proof -
  obtain n' where n': "bc_rm_leading_zeros n = Some n'" "bc_lead n'" "mag n' = mag n"
    "n_scale n' = n_scale n" "n_sign n' = n_sign n" "n_len n' \<le> n_len n"
    using bc_rm_leading_zeros_spec [OF assms] by blast
  then have "bc_val n' = bc_val n" by (simp add: bc_val_def bc_abs_def)
  with n' show ?thesis by blast
qed

theorem bc_rm_leading_zeros_correct_witness:
  "\<exists>n'. bc_rm_leading_zeros (num_of MINUS [0, 0, 7] [5]) = Some n' \<and> bc_lead n' \<and> bc_val n' = - (15 / 2)"
  using bc_rm_leading_zeros_correct [of "num_of MINUS [0, 0, 7] [5]"]
  by (auto simp: num_of_simps)

text \<open>
  The zero test is exact, and the near-zero test accepts a number exactly when cutting it
  to the scale leaves 0 or one unit in the last place.
\<close>

theorem bc_zero_tests_correct:
  assumes "bc_wf n"
  shows "bc_is_zero n = Some (bc_val n = 0)
         \<and> bc_is_near_zero n scale = Some (prefix_val n (min scale (n_scale n)) \<le> 1)"
  using bc_is_zero_val [OF assms] bc_is_near_zero_mag [OF assms refl] by simp

theorem bc_zero_tests_correct_witness:
  "bc_is_zero (num_of PLUS [0] [0, 1]) = Some False \<and> bc_is_near_zero (num_of PLUS [0] [0, 1]) 1 = Some True"
  using bc_zero_tests_correct [of "num_of PLUS [0] [0, 1]" 1]
  by (simp add: num_of_simps prefix_val_def seg_def)

end
