(* ===== verification/BcAdd.thy ===== *)
theory BcAdd
  imports BcNumber
begin

text \<open>
  Addition and subtraction of \<^verbatim>\<open>usr.bin/bc/number.c\<close>: the unsigned routines
  \<open>_bc_do_add\<close> and \<open>_bc_do_sub\<close>, each a sequence of digit loops over the fractions, the common
  part and the longer integer part, and the signed \<open>bc_add\<close> and \<open>bc_sub\<close> on top of them.
  The loop bodies are interpretations of the contract \<open>digit_step\<close>.
\<close>

section \<open>Loop bodies\<close>

definition copy_body :: "int \<Rightarrow> int \<Rightarrow> int \<times> int" where
  "copy_body d c = (d, c)"

definition add_body :: "int \<Rightarrow> int \<Rightarrow> int \<Rightarrow> int \<times> int" where
  "add_body d1 d2 carry =
     (let x = d1 + d2 + carry in if x > BASE - 1 then (x - BASE, 1) else (x, 0))"

definition add_carry_body :: "int \<Rightarrow> int \<Rightarrow> int \<times> int" where
  "add_carry_body d1 carry =
     (let x = d1 + carry in if x > BASE - 1 then (x - BASE, 1) else (x, 0))"

definition sub_body :: "int \<Rightarrow> int \<Rightarrow> int \<Rightarrow> int \<times> int" where
  "sub_body d1 d2 borrow =
     (let val = d1 - d2 - borrow in if val < 0 then (val + BASE, 1) else (val, 0))"

definition sub_borrow_body :: "int \<Rightarrow> int \<Rightarrow> int \<times> int" where
  "sub_borrow_body d1 borrow =
     (let val = d1 - borrow in if val < 0 then (val + BASE, 1) else (val, 0))"

definition neg_body :: "int \<Rightarrow> int \<Rightarrow> int \<times> int" where
  "neg_body d2 borrow =
     (let val = - d2 - borrow in if val < 0 then (val + BASE, 1) else (val, 0))"

definition carry_ok :: "int \<Rightarrow> bool" where
  "carry_ok c \<longleftrightarrow> c = 0 \<or> c = 1"

interpretation copy_step: digit_step1 copy_body 1 0 "\<lambda>c. c = 0"
  by unfold_locales (auto simp: copy_body_def)

interpretation add_step: digit_step add_body 1 1 1 carry_ok
  by unfold_locales (auto simp: add_body_def digit_def carry_ok_def Let_def split: if_splits)

interpretation add_carry_step: digit_step1 add_carry_body 1 1 carry_ok
  by unfold_locales (auto simp: add_carry_body_def digit_def carry_ok_def Let_def split: if_splits)

interpretation sub_step: digit_step sub_body 1 "-1" "-1" carry_ok
  by unfold_locales (auto simp: sub_body_def digit_def carry_ok_def Let_def split: if_splits)

interpretation sub_borrow_step: digit_step1 sub_borrow_body 1 "-1" carry_ok
  by unfold_locales (auto simp: sub_borrow_body_def digit_def carry_ok_def Let_def split: if_splits)

interpretation neg_step: digit_step1 neg_body "-1" "-1" carry_ok
  by unfold_locales (auto simp: neg_body_def digit_def carry_ok_def Let_def split: if_splits)

section \<open>The unsigned routines\<close>

text \<open>
  The pointers of \<open>_bc_do_add\<close> are \<open>p1\<close> and \<open>p2\<close> into the operands and \<open>ps\<close> into the sum.
  \<open>add_fraction\<close> copies the part of the longer fraction that has no partner, \<open>add_common\<close>
  adds the digits both operands have, and \<open>add_integer\<close> carries into the longer integer part.
\<close>

type_synonym walk = "int list \<times> int \<times> int \<times> int"

definition add_fraction :: "bc_num \<Rightarrow> bc_num \<Rightarrow> walk \<Rightarrow> walk option" where
  "add_fraction n1 n2 = (\<lambda>(v, p1, p2, ps).
     let f1 = n_scale n1 - n_scale n2; f2 = n_scale n2 - n_scale n1
     in if n_scale n1 > n_scale n2 then do {
          (v, c) \<leftarrow> digit_loop1 copy_body f1 (n_value n1) p1 v ps 0;
          Some (v, p1 - int f1, p2, ps - int f1)
        } else do {
          (v, c) \<leftarrow> digit_loop1 copy_body f2 (n_value n2) p2 v ps 0;
          Some (v, p1, p2 - int f2, ps - int f2)
        })"

definition add_common :: "bc_num \<Rightarrow> bc_num \<Rightarrow> nat \<Rightarrow> walk \<Rightarrow> (walk \<times> int) option" where
  "add_common n1 n2 m = (\<lambda>(v, p1, p2, ps). do {
     (v, carry) \<leftarrow> digit_loop add_body m (n_value n1) p1 (n_value n2) p2 v ps 0;
     Some ((v, p1 - int m, p2 - int m, ps - int m), carry)
   })"

definition add_integer :: "bc_num \<Rightarrow> bc_num \<Rightarrow> nat \<Rightarrow> nat \<Rightarrow> walk \<times> int \<Rightarrow> (int list \<times> int \<times> int) option" where
  "add_integer n1 n2 n1bytes n2bytes = (\<lambda>((v, p1, p2, ps), carry).
     if n1bytes = 0 then do {
       (v, carry) \<leftarrow> digit_loop1 add_carry_body n2bytes (n_value n2) p2 v ps carry;
       Some (v, ps - int n2bytes, carry)
     } else do {
       (v, carry) \<leftarrow> digit_loop1 add_carry_body n1bytes (n_value n1) p1 v ps carry;
       Some (v, ps - int n1bytes, carry)
     })"

definition bc_do_add :: "bc_num \<Rightarrow> bc_num \<Rightarrow> nat \<Rightarrow> bc_num option" where
  "bc_do_add n1 n2 scale_min = (
     let sum_scale = max (n_scale n1) (n_scale n2);
         sum_digits = max (n_len n1) (n_len n2) + 1;
         sum = bc_new_num sum_digits (max sum_scale scale_min);
         n1bytes = n_len n1 + min (n_scale n1) (n_scale n2);
         n2bytes = n_len n2 + min (n_scale n1) (n_scale n2);
         m = min n1bytes n2bytes
     in do {
       v \<leftarrow> (if scale_min > sum_scale
            then zero_fill (scale_min - sum_scale) (n_value sum) (int (sum_scale + sum_digits))
            else Some (n_value sum));
       w \<leftarrow> add_fraction n1 n2 (v, int (n_len n1 + n_scale n1) - 1,
              int (n_len n2 + n_scale n2) - 1, int (sum_scale + sum_digits) - 1);
       w \<leftarrow> add_common n1 n2 m w;
       (v, ps, carry) \<leftarrow> add_integer n1 n2 (n1bytes - m) (n2bytes - m) w;
       v \<leftarrow> (if carry = 1 then do { d \<leftarrow> rd v ps; wr v ps (d + 1) } else Some v);
       bc_rm_leading_zeros (sum\<lparr>n_value := v\<rparr>)
     })"

lemma add_fraction_spec:
  assumes wf: "bc_wf n1" "bc_wf n2" and S: "S = max (n_scale n1) (n_scale n2)"
    and m: "m = min (n_scale n1) (n_scale n2)" and k: "S - m \<le> k" "k \<le> length v"
  shows "\<exists>F. add_fraction n1 n2 (v, int (n_len n1 + n_scale n1) - 1, int (n_len n2 + n_scale n2) - 1, int k - 1)
           = Some (splice v (k - (S - m)) F, int (n_len n1 + m) - 1, int (n_len n2 + m) - 1, int (k - (S - m)) - 1)
         \<and> length F = S - m \<and> digits F
         \<and> dval F = dval (seg (n_value n1) (n_len n1 + m) (n_scale n1 - m))
                  + dval (seg (n_value n2) (n_len n2 + m) (n_scale n2 - m))"
proof (cases "n_scale n1 > n_scale n2")
  case True
  then have e: "S = n_scale n1" "m = n_scale n2" using S m by auto
  obtain F c where "digit_loop1 copy_body (S - m) (n_value n1) (int (n_len n1 + S) - 1) v (int k - 1) 0
        = Some (splice v (k - (S - m)) F, c)" "length F = S - m" "digits F"
      "dval F = dval (seg (n_value n1) (n_len n1 + S - (S - m)) (S - m))"
    using copy_step.loop1 [of "n_value n1" 0 "S - m" "n_len n1 + S" k v] bc_wfD(2,3) [OF wf(1)] k e
    by (auto simp: trans_le_add2)
  moreover have "n_len n1 + S - (S - m) = n_len n1 + m" using e True by simp
  ultimately show ?thesis
    using True e k by (intro exI [of _ F]) (simp add: add_fraction_def of_nat_diff)
next
  case False
  then have e: "S = n_scale n2" "m = n_scale n1" using S m by auto
  obtain F c where "digit_loop1 copy_body (S - m) (n_value n2) (int (n_len n2 + S) - 1) v (int k - 1) 0
        = Some (splice v (k - (S - m)) F, c)" "length F = S - m" "digits F"
      "dval F = dval (seg (n_value n2) (n_len n2 + S - (S - m)) (S - m))"
    using copy_step.loop1 [of "n_value n2" 0 "S - m" "n_len n2 + S" k v] bc_wfD(2,3) [OF wf(2)] k e
    by (auto simp: trans_le_add2)
  moreover have "n_len n2 + S - (S - m) = n_len n2 + m" using e False by simp
  ultimately show ?thesis
    using False e k by (intro exI [of _ F]) (simp add: add_fraction_def of_nat_diff)
qed

lemma add_common_spec:
  assumes "bc_wf n1" "bc_wf n2" and "m \<le> b1" "m \<le> b2" and "b1 \<le> n_len n1 + n_scale n1"
    and "b2 \<le> n_len n2 + n_scale n2" and "m \<le> k" "k \<le> length v"
  shows "\<exists>M c. add_common n1 n2 m (v, int b1 - 1, int b2 - 1, int k - 1)
           = Some ((splice v (k - m) M, int (b1 - m) - 1, int (b2 - m) - 1, int (k - m) - 1), c)
         \<and> length M = m \<and> digits M \<and> carry_ok c
         \<and> dval M + 10 ^ m * c = dval (seg (n_value n1) (b1 - m) m) + dval (seg (n_value n2) (b2 - m) m)"
proof -
  obtain M c where "digit_loop add_body m (n_value n1) (int b1 - 1) (n_value n2) (int b2 - 1) v (int k - 1) 0
      = Some (splice v (k - m) M, c)" "length M = m" "digits M" "carry_ok c"
      "dval M + 10 ^ m * c = dval (seg (n_value n1) (b1 - m) m) + dval (seg (n_value n2) (b2 - m) m)"
    using add_step.loop [of "n_value n1" "n_value n2" 0 m b1 b2 k v] assms
    by (auto simp: bc_wf_def carry_ok_def)
  then show ?thesis
    using assms by (intro exI [of _ M] exI [of _ c]) (simp add: add_common_def of_nat_diff)
qed

lemma add_integer_spec:
  assumes "bc_wf n1" "bc_wf n2" and "b1 = 0 \<or> b2 = 0" and "b1 \<le> n_len n1 + n_scale n1"
    and "b2 \<le> n_len n2 + n_scale n2" and "max b1 b2 \<le> k" "k \<le> length v" and "carry_ok c"
  shows "\<exists>T c'. add_integer n1 n2 b1 b2 ((v, int b1 - 1, int b2 - 1, int k - 1), c)
           = Some (splice v (k - max b1 b2) T, int (k - max b1 b2) - 1, c')
         \<and> length T = max b1 b2 \<and> digits T \<and> carry_ok c'
         \<and> dval T + 10 ^ max b1 b2 * c'
             = dval (seg (n_value n1) 0 b1) + dval (seg (n_value n2) 0 b2) + c"
proof (cases "b1 = 0")
  case True
  obtain T c' where "digit_loop1 add_carry_body b2 (n_value n2) (int b2 - 1) v (int k - 1) c
      = Some (splice v (k - b2) T, c')" "length T = b2" "digits T" "carry_ok c'"
      "dval T + 10 ^ b2 * c' = dval (seg (n_value n2) 0 b2) + c"
    using add_carry_step.loop1 [of "n_value n2" c b2 b2 k v] assms by (auto simp: bc_wf_def)
  then show ?thesis
    using True assms by (intro exI [of _ T] exI [of _ c']) (simp add: add_integer_def of_nat_diff)
next
  case False
  then have "b2 = 0" using assms(3) by simp
  obtain T c' where "digit_loop1 add_carry_body b1 (n_value n1) (int b1 - 1) v (int k - 1) c
      = Some (splice v (k - b1) T, c')" "length T = b1" "digits T" "carry_ok c'"
      "dval T + 10 ^ b1 * c' = dval (seg (n_value n1) 0 b1) + c"
    using add_carry_step.loop1 [of "n_value n1" c b1 b1 k v] assms by (auto simp: bc_wf_def)
  then show ?thesis
    using False \<open>b2 = 0\<close> assms
    by (intro exI [of _ T] exI [of _ c']) (simp add: add_integer_def of_nat_diff)
qed

text \<open>The carry out of the last loop lands in the extra leading digit.\<close>

lemma final_carry:
  assumes "carry_ok c" and "v = 0 # ds"
  shows "(if c = 1 then do { d \<leftarrow> rd v 0; wr v 0 (d + 1) } else Some v) = Some (c # ds)"
  using assms by (auto simp: carry_ok_def rd_def wr_def)

lemma bc_abs_result:
  assumes "mag r = x * 10 ^ e" and "n_scale r = S + e"
  shows "bc_abs r = of_int x / 10 ^ S"
  using assms by (simp add: bc_abs_def power_add)

text \<open>
  \<open>F\<close>, \<open>M\<close> and \<open>T\<close> are what the three loops leave, with the carries \<open>c\<close> and \<open>c'\<close> between them:
  together they hold the sum of the magnitudes in units of the longer fraction.
\<close>

lemma add_digits_value:
  assumes wf: "bc_wf n1" "bc_wf n2" and S: "S = max (n_scale n1) (n_scale n2)"
    and m: "m = min (n_scale n1) (n_scale n2)"
    and b: "b1 = n_len n1 + m" "b2 = n_len n2 + m" "mm \<le> b1" "mm \<le> b2"
    and F: "length F = S - m"
      "dval F = dval (seg (n_value n1) b1 (n_scale n1 - m)) + dval (seg (n_value n2) b2 (n_scale n2 - m))"
    and M: "length M = mm"
      "dval M + 10 ^ mm * c = dval (seg (n_value n1) (b1 - mm) mm) + dval (seg (n_value n2) (b2 - mm) mm)"
    and T: "length T = t"
      "dval T + 10 ^ t * c' = dval (seg (n_value n1) 0 (b1 - mm)) + dval (seg (n_value n2) 0 (b2 - mm)) + c"
  shows "dval (c' # T @ M @ F) = scaled n1 S + scaled n2 S"
proof -
  have "dval (c' # T @ M @ F) = (dval T + 10 ^ t * c') * 10 ^ (mm + (S - m)) + dval M * 10 ^ (S - m) + dval F"
    using F(1) M(1) T(1) by (simp add: dval_append dval_Cons power_add algebra_simps)
  also have "\<dots> = (dval (seg (n_value n1) 0 (b1 - mm)) + dval (seg (n_value n2) 0 (b2 - mm))) * 10 ^ (mm + (S - m))
      + (dval M + 10 ^ mm * c) * 10 ^ (S - m) + dval F"
    unfolding T(2) by (simp add: power_add algebra_simps)
  also have "\<dots> = (prefix_val n1 m + prefix_val n2 m) * 10 ^ (S - m) + dval F"
    using prefix_val_split [OF bc_wf_buf [OF wf(1)], of m mm] prefix_val_split [OF bc_wf_buf [OF wf(2)], of m mm] b m
    unfolding M(2) by (simp add: power_add algebra_simps)
  also have "\<dots> = scaled n1 S + scaled n2 S"
  proof -
    have "scaled n1 S = prefix_val n1 m * 10 ^ (S - m) + dval (seg (n_value n1) b1 (n_scale n1 - m))"
      unfolding b by (rule scaled_split [OF bc_wf_buf [OF wf(1)]]) (use S m in auto)
    moreover have "scaled n2 S = prefix_val n2 m * 10 ^ (S - m) + dval (seg (n_value n2) b2 (n_scale n2 - m))"
      unfolding b by (rule scaled_split [OF bc_wf_buf [OF wf(2)]]) (use S m in auto)
    ultimately show ?thesis unfolding F(2) by (simp add: algebra_simps)
  qed
  finally show ?thesis .
qed

lemma add_bounds:
  fixes S m D b1 b2 mm L :: nat
  assumes "S = max s1 s2" "m = min s1 s2" "D = max l1 l2" "b1 = l1 + m" "b2 = l2 + m"
    "mm = min b1 b2" "L = S + (D + 1)"
  shows "m \<le> S" "b1 \<le> l1 + s1" "b2 \<le> l2 + s2" "mm \<le> b1" "mm \<le> b2" "L - (S - m) = m + D + 1"
    "b1 - mm = 0 \<or> b2 - mm = 0" "mm + max (b1 - mm) (b2 - mm) = m + D"
proof -
  show ms: "m \<le> S" and "b1 \<le> l1 + s1" "b2 \<le> l2 + s2" using assms(1-5) by auto
  show "mm \<le> b1" "mm \<le> b2" using assms(6) by auto
  show "L - (S - m) = m + D + 1" using assms(7) ms by linarith
  show "b1 - mm = 0 \<or> b2 - mm = 0" using assms(6) by linarith
  have "max b1 b2 = m + D" using assms(3-5) by linarith
  then show "mm + max (b1 - mm) (b2 - mm) = m + D" using assms(6) by linarith
qed

lemma bc_do_add_digits:
  assumes wf: "bc_wf n1" "bc_wf n2" and S: "S = max (n_scale n1) (n_scale n2)"
    and D: "D = max (n_len n1) (n_len n2)"
  shows "\<exists>ds. length ds = Suc D + S \<and> digits ds \<and> dval ds = scaled n1 S + scaled n2 S
           \<and> bc_do_add n1 n2 sm = bc_rm_leading_zeros
               ((bc_new_num (D + 1) (max S sm))\<lparr>n_value := ds @ replicate (max S sm - S) 0\<rparr>)"
proof -
  define m where m: "m = min (n_scale n1) (n_scale n2)"
  define b1 where b1: "b1 = n_len n1 + m"
  define b2 where b2: "b2 = n_len n2 + m"
  define mm where mm: "mm = min b1 b2"
  define L where L: "L = S + (D + 1)"
  define N where N: "N = D + 1 + max S sm"
  let ?v0 = "replicate N (0::int)" and ?t = "max (b1 - mm) (b2 - mm)"
  have arith: "m \<le> S" "L \<le> N" "b1 \<le> n_len n1 + n_scale n1" "b2 \<le> n_len n2 + n_scale n2"
    "mm \<le> b1" "mm \<le> b2" "mm \<le> m + D + 1" "L - (S - m) = m + D + 1" "b1 - mm = 0 \<or> b2 - mm = 0"
    "m + D + 1 - mm - ?t = 1" "N - L = max S sm - S" "?t \<le> m + D + 1 - mm"
  proof -
    note ab = add_bounds [OF S m D b1 b2 mm L]
    show "m \<le> S" "b1 \<le> n_len n1 + n_scale n1" "b2 \<le> n_len n2 + n_scale n2" "mm \<le> b1" "mm \<le> b2"
      "L - (S - m) = m + D + 1" "b1 - mm = 0 \<or> b2 - mm = 0"
      by (fact ab)+
    show "m + D + 1 - mm - ?t = 1" "?t \<le> m + D + 1 - mm" "mm \<le> m + D + 1"
      using ab(8) by linarith+
    show "L \<le> N" "N - L = max S sm - S" using L N by simp_all
  qed
  obtain F where F: "add_fraction n1 n2 (?v0, int (n_len n1 + n_scale n1) - 1, int (n_len n2 + n_scale n2) - 1, int L - 1)
      = Some (splice ?v0 (m + D + 1) F, int b1 - 1, int b2 - 1, int (m + D + 1) - 1)"
    "length F = S - m" "digits F"
    "dval F = dval (seg (n_value n1) b1 (n_scale n1 - m)) + dval (seg (n_value n2) b2 (n_scale n2 - m))"
  proof -
    have "S - m \<le> L" "L \<le> length ?v0" using arith(2) L by simp_all
    from add_fraction_spec [OF wf S m this, folded b1 b2, unfolded arith(8)] show ?thesis
      by (elim exE conjE) (rule that)
  qed
  let ?v1 = "splice ?v0 (m + D + 1) F"
  have lF: "m + D + 1 + length F \<le> N" using F(2) arith(1,2) L by simp
  obtain M c where M: "add_common n1 n2 mm (?v1, int b1 - 1, int b2 - 1, int (m + D + 1) - 1)
      = Some ((splice ?v1 (m + D + 1 - mm) M, int (b1 - mm) - 1, int (b2 - mm) - 1, int (m + D + 1 - mm) - 1), c)"
    "length M = mm" "digits M" "carry_ok c"
    "dval M + 10 ^ mm * c = dval (seg (n_value n1) (b1 - mm) mm) + dval (seg (n_value n2) (b2 - mm) mm)"
  proof -
    have "m + D + 1 \<le> length ?v1" using lF by simp
    from add_common_spec [OF wf arith(5,6,3,4,7) this] show ?thesis
      by (elim exE conjE) (rule that)
  qed
  let ?v2 = "splice ?v1 (m + D + 1 - mm) M"
  obtain T c' where T: "add_integer n1 n2 (b1 - mm) (b2 - mm)
        ((?v2, int (b1 - mm) - 1, int (b2 - mm) - 1, int (m + D + 1 - mm) - 1), c)
      = Some (splice ?v2 1 T, 0, c')"
    "length T = ?t" "digits T" "carry_ok c'"
    "dval T + 10 ^ ?t * c' = dval (seg (n_value n1) 0 (b1 - mm)) + dval (seg (n_value n2) 0 (b2 - mm)) + c"
  proof -
    have "b1 - mm \<le> n_len n1 + n_scale n1" "b2 - mm \<le> n_len n2 + n_scale n2" "m + D + 1 - mm \<le> length ?v2"
      using arith(3,4,7) lF M(2) by simp_all
    from add_integer_spec [OF wf arith(9) this(1,2) arith(12) this(3) M(4), unfolded arith(10)]
    show ?thesis by (elim exE conjE) (rule that, simp_all)
  qed
  let ?ds = "c' # T @ M @ F"
  have v2: "?v2 = splice ?v0 (m + D + 1 - mm) (M @ F)"
    using M(2) arith(7) lF by (intro splice_splice) simp_all
  have lens: "1 + length T + length M = m + D + 1" "m + D + 1 + length F = L"
    using T(2) M(2) F(2) arith(1,7,10,12) L by linarith+
  have "splice ?v2 1 T = splice ?v0 1 (T @ M @ F)"
    unfolding v2 using M(2) lens lF by (intro splice_splice) simp_all
  also have "\<dots> = 0 # T @ M @ F @ replicate (N - L) 0"
  proof -
    have "1 + length (T @ M @ F) = L" using lens by simp
    then show ?thesis using splice_zeros [of 1 "T @ M @ F" N] arith(2) by (simp flip: diff_diff_left)
  qed
  finally have v3: "splice ?v2 1 T = 0 # T @ M @ F @ replicate (N - L) 0" .
  have nv: "n_value (bc_new_num (D + 1) (max S sm)) = ?v0"
    by (simp add: bc_new_num_def N)
  have zf: "(if S < sm then zero_fill (sm - S) ?v0 (int L) else Some ?v0) = Some ?v0"
  proof -
    have "L + (sm - S) \<le> N" using L N by simp
    from zero_fill_zeros [OF this] show ?thesis by (simp only: if_cancel)
  qed
  have run: "bc_do_add n1 n2 sm = bc_rm_leading_zeros
      ((bc_new_num (D + 1) (max S sm))\<lparr>n_value := c' # T @ M @ F @ replicate (N - L) 0\<rparr>)"
    unfolding bc_do_add_def Let_def S [symmetric] D [symmetric] m [symmetric] b1 [symmetric]
      b2 [symmetric] mm [symmetric] L [symmetric] nv
    by (simp only: zf F(1) M(1) T(1) final_carry [OF T(4) v3] Option.bind.simps prod.case)
  have "length ?ds = Suc D + S" "digits ?ds"
    using lens L F(3) M(3) T(3,4) by (auto simp: carry_ok_def digit_def)
  with run add_digits_value [OF wf S m b1 b2 arith(5,6) F(2,4) M(2,5) T(2,5)]
  show ?thesis by (intro exI [of _ ?ds]) (simp add: arith(11))
qed

text \<open>The unsigned sum: exact, at the larger scale, without superfluous leading zeros.\<close>

lemma bc_do_add_spec:
  assumes wf: "bc_wf n1" "bc_wf n2"
  shows "\<exists>r. bc_do_add n1 n2 sm = Some r \<and> bc_lead r \<and> n_sign r = PLUS
           \<and> n_scale r = max (max (n_scale n1) (n_scale n2)) sm \<and> bc_abs r = bc_abs n1 + bc_abs n2"
proof -
  define S where S: "S = max (n_scale n1) (n_scale n2)"
  define D where D: "D = max (n_len n1) (n_len n2)"
  obtain ds where ds: "length ds = Suc D + S" "digits ds" "dval ds = scaled n1 S + scaled n2 S"
    "bc_do_add n1 n2 sm = bc_rm_leading_zeros
       ((bc_new_num (D + 1) (max S sm))\<lparr>n_value := ds @ replicate (max S sm - S) 0\<rparr>)"
    using bc_do_add_digits [OF wf S D] by blast
  let ?s = "(bc_new_num (D + 1) (max S sm))\<lparr>n_value := ds @ replicate (max S sm - S) 0\<rparr>"
  have "bc_wf ?s"
    using ds by (simp add: bc_wf_def bc_new_num_def)
  then obtain r where r: "bc_rm_leading_zeros ?s = Some r" "bc_lead r" "mag r = mag ?s"
    "n_scale r = max S sm" "n_sign r = PLUS"
    using bc_rm_leading_zeros_spec [of ?s] by (auto simp: bc_new_num_def)
  have "mag ?s = dval ds * 10 ^ (max S sm - S)"
    using ds(1) by (intro mag_padded) (simp_all add: bc_new_num_def)
  then have "bc_abs r = of_int (dval ds) / 10 ^ S"
    using r by (intro bc_abs_result) auto
  also have "\<dots> = bc_abs n1 + bc_abs n2"
    using ds(3) by (simp add: bc_abs_scaled [of _ S] S add_divide_distrib)
  finally show ?thesis using ds(4) r S by auto
qed

text \<open>
  \<open>_bc_do_sub\<close>, in the same three parts; \<open>n1\<close> is assumed to be the larger number, so the
  last loop runs over its integer digits only.
\<close>

definition sub_fraction :: "bc_num \<Rightarrow> bc_num \<Rightarrow> walk \<Rightarrow> (walk \<times> int) option" where
  "sub_fraction n1 n2 = (\<lambda>(v, p1, p2, pd).
     let min_scale = min (n_scale n1) (n_scale n2);
         k1 = n_scale n1 - min_scale; k2 = n_scale n2 - min_scale
     in if n_scale n1 \<noteq> min_scale then do {
          (v, c) \<leftarrow> digit_loop1 copy_body k1 (n_value n1) p1 v pd 0;
          Some ((v, p1 - int k1, p2, pd - int k1), 0)
        } else do {
          (v, borrow) \<leftarrow> digit_loop1 neg_body k2 (n_value n2) p2 v pd 0;
          Some ((v, p1, p2 - int k2, pd - int k2), borrow)
        })"

definition sub_common :: "bc_num \<Rightarrow> bc_num \<Rightarrow> nat \<Rightarrow> walk \<times> int \<Rightarrow> (walk \<times> int) option" where
  "sub_common n1 n2 m = (\<lambda>((v, p1, p2, pd), borrow). do {
     (v, borrow) \<leftarrow> digit_loop sub_body m (n_value n1) p1 (n_value n2) p2 v pd borrow;
     Some ((v, p1 - int m, p2 - int m, pd - int m), borrow)
   })"

definition bc_do_sub :: "bc_num \<Rightarrow> bc_num \<Rightarrow> nat \<Rightarrow> bc_num option" where
  "bc_do_sub n1 n2 scale_min = (
     let diff_len = max (n_len n1) (n_len n2);
         diff_scale = max (n_scale n1) (n_scale n2);
         min_len = min (n_len n1) (n_len n2);
         min_scale = min (n_scale n1) (n_scale n2);
         diff = bc_new_num diff_len (max diff_scale scale_min)
     in do {
       v \<leftarrow> (if scale_min > diff_scale
            then zero_fill (scale_min - diff_scale) (n_value diff) (int (diff_len + diff_scale))
            else Some (n_value diff));
       w \<leftarrow> sub_fraction n1 n2 (v, int (n_len n1 + n_scale n1) - 1,
              int (n_len n2 + n_scale n2) - 1, int (diff_len + diff_scale) - 1);
       ((v, p1, p2, pd), borrow) \<leftarrow> sub_common n1 n2 (min_len + min_scale) w;
       (v, borrow) \<leftarrow>
         (if diff_len \<noteq> min_len
          then digit_loop1 sub_borrow_body (diff_len - min_len) (n_value n1) p1 v pd borrow
          else Some (v, borrow));
       bc_rm_leading_zeros (diff\<lparr>n_value := v\<rparr>)
     })"

lemma sub_fraction_spec:
  assumes wf: "bc_buf n1" "bc_buf n2" and S: "S = max (n_scale n1) (n_scale n2)"
    and m: "m = min (n_scale n1) (n_scale n2)" and k: "S - m \<le> k" "k \<le> length v"
  shows "\<exists>F c. sub_fraction n1 n2 (v, int (n_len n1 + n_scale n1) - 1, int (n_len n2 + n_scale n2) - 1, int k - 1)
           = Some ((splice v (k - (S - m)) F, int (n_len n1 + m) - 1, int (n_len n2 + m) - 1, int (k - (S - m)) - 1), c)
         \<and> length F = S - m \<and> digits F \<and> carry_ok c
         \<and> dval F - 10 ^ (S - m) * c = dval (seg (n_value n1) (n_len n1 + m) (n_scale n1 - m))
                  - dval (seg (n_value n2) (n_len n2 + m) (n_scale n2 - m))"
proof (cases "n_scale n1 = m")
  case False
  then have e: "S = n_scale n1" "m = n_scale n2" using S m by auto
  obtain F c where "digit_loop1 copy_body (S - m) (n_value n1) (int (n_len n1 + S) - 1) v (int k - 1) 0
        = Some (splice v (k - (S - m)) F, c)" "length F = S - m" "digits F"
      "dval F = dval (seg (n_value n1) (n_len n1 + S - (S - m)) (S - m))"
    using copy_step.loop1 [of "n_value n1" 0 "S - m" "n_len n1 + S" k v] bc_bufD(1,2) [OF wf(1)] k e
    by (auto simp: trans_le_add2)
  moreover have "n_len n1 + S - (S - m) = n_len n1 + m" using e S by simp
  ultimately show ?thesis
    using False e k
    by (intro exI [of _ F] exI [of _ 0]) (simp add: sub_fraction_def m [symmetric] Let_def of_nat_diff carry_ok_def)
next
  case True
  then have e: "S = n_scale n2" using S m by auto
  obtain F c where "digit_loop1 neg_body (S - m) (n_value n2) (int (n_len n2 + S) - 1) v (int k - 1) 0
        = Some (splice v (k - (S - m)) F, c)" "length F = S - m" "digits F" "carry_ok c"
      "dval F - 10 ^ (S - m) * c = - dval (seg (n_value n2) (n_len n2 + S - (S - m)) (S - m))"
    using neg_step.loop1 [of "n_value n2" 0 "S - m" "n_len n2 + S" k v] bc_bufD(1,2) [OF wf(2)] k e
    by (auto simp: trans_le_add2 carry_ok_def)
  moreover have "n_len n2 + S - (S - m) = n_len n2 + m" using e True S by simp
  ultimately show ?thesis
    using True e k
    by (intro exI [of _ F] exI [of _ c]) (simp add: sub_fraction_def m [symmetric] Let_def of_nat_diff)
qed

lemma sub_common_spec:
  assumes "bc_buf n1" "bc_buf n2" and "carry_ok c" and "m \<le> b1" "m \<le> b2" and "b1 \<le> n_len n1 + n_scale n1"
    and "b2 \<le> n_len n2 + n_scale n2" and "m \<le> k" "k \<le> length v"
  shows "\<exists>M c'. sub_common n1 n2 m ((v, int b1 - 1, int b2 - 1, int k - 1), c)
           = Some ((splice v (k - m) M, int (b1 - m) - 1, int (b2 - m) - 1, int (k - m) - 1), c')
         \<and> length M = m \<and> digits M \<and> carry_ok c'
         \<and> dval M - 10 ^ m * c' = dval (seg (n_value n1) (b1 - m) m) - dval (seg (n_value n2) (b2 - m) m) - c"
proof -
  obtain M c' where "digit_loop sub_body m (n_value n1) (int b1 - 1) (n_value n2) (int b2 - 1) v (int k - 1) c
      = Some (splice v (k - m) M, c')" "length M = m" "digits M" "carry_ok c'"
      "dval M - 10 ^ m * c' = dval (seg (n_value n1) (b1 - m) m) - dval (seg (n_value n2) (b2 - m) m) - c"
    using sub_step.loop [of "n_value n1" "n_value n2" c m b1 b2 k v] assms
    by (auto simp: bc_buf_def)
  then show ?thesis
    using assms by (intro exI [of _ M] exI [of _ c']) (simp add: sub_common_def of_nat_diff)
qed

lemma sub_digits_value:
  assumes wf: "bc_buf n1" "bc_buf n2" and S: "S = max (n_scale n1) (n_scale n2)"
    and m: "m = min (n_scale n1) (n_scale n2)" and len: "n_len n2 \<le> n_len n1"
    and F: "length F = S - m" "dval F - 10 ^ (S - m) * c
        = dval (seg (n_value n1) (n_len n1 + m) (n_scale n1 - m)) - dval (seg (n_value n2) (n_len n2 + m) (n_scale n2 - m))"
    and M: "length M = n_len n2 + m" "dval M - 10 ^ (n_len n2 + m) * c'
        = dval (seg (n_value n1) (n_len n1 - n_len n2) (n_len n2 + m)) - dval (seg (n_value n2) 0 (n_len n2 + m)) - c"
    and T: "length T = t" "dval T - 10 ^ t * c'' = dval (seg (n_value n1) 0 (n_len n1 - n_len n2)) - c'"
  shows "dval (T @ M @ F) - 10 ^ (t + (n_len n2 + m) + (S - m)) * c'' = scaled n1 S - scaled n2 S"
proof -
  let ?b = "n_len n2 + m"
  have sub: "n_len n1 + m - ?b = n_len n1 - n_len n2" using len by simp
  have "dval (T @ M @ F) - 10 ^ (t + ?b + (S - m)) * c''
      = (dval T - 10 ^ t * c'') * 10 ^ (?b + (S - m)) + dval M * 10 ^ (S - m) + dval F"
    using F(1) M(1) T(1) by (simp add: dval_append power_add algebra_simps)
  also have "\<dots> = dval (seg (n_value n1) 0 (n_len n1 - n_len n2)) * 10 ^ (?b + (S - m))
      + (dval M - 10 ^ ?b * c') * 10 ^ (S - m) + dval F"
    unfolding T(2) by (simp add: power_add algebra_simps)
  also have "\<dots> = (prefix_val n1 m - prefix_val n2 m) * 10 ^ (S - m) + (dval F - 10 ^ (S - m) * c)"
  proof -
    have "prefix_val n2 m = dval (seg (n_value n2) 0 ?b)"
      by (simp add: prefix_val_def)
    moreover have "prefix_val n1 m = dval (seg (n_value n1) 0 (n_len n1 - n_len n2)) * 10 ^ ?b
        + dval (seg (n_value n1) (n_len n1 - n_len n2) ?b)"
      using prefix_val_split [OF wf(1), of m ?b] m len unfolding sub by simp
    ultimately show ?thesis
      unfolding M(2) by (simp add: power_add algebra_simps)
  qed
  also have "\<dots> = scaled n1 S - scaled n2 S"
  proof -
    have "scaled n1 S = prefix_val n1 m * 10 ^ (S - m) + dval (seg (n_value n1) (n_len n1 + m) (n_scale n1 - m))"
      by (rule scaled_split [OF wf(1)]) (use S m in auto)
    moreover have "scaled n2 S = prefix_val n2 m * 10 ^ (S - m) + dval (seg (n_value n2) (n_len n2 + m) (n_scale n2 - m))"
      by (rule scaled_split [OF wf(2)]) (use S m in auto)
    ultimately show ?thesis unfolding F(2) by (simp add: algebra_simps)
  qed
  finally show ?thesis .
qed

lemma bc_do_sub_digits:
  assumes wf: "bc_buf n1" "bc_buf n2" and len: "n_len n2 \<le> n_len n1"
    and S: "S = max (n_scale n1) (n_scale n2)"
  shows "\<exists>ds c. length ds = n_len n1 + S \<and> digits ds \<and> carry_ok c
           \<and> dval ds - 10 ^ (n_len n1 + S) * c = scaled n1 S - scaled n2 S
           \<and> bc_do_sub n1 n2 sm = bc_rm_leading_zeros
               ((bc_new_num (n_len n1) (max S sm))\<lparr>n_value := ds @ replicate (max S sm - S) 0\<rparr>)"
proof -
  define m where m: "m = min (n_scale n1) (n_scale n2)"
  define N where N: "N = n_len n1 + max S sm"
  define b where b: "b = n_len n2 + m"
  let ?l1 = "n_len n1" and ?l2 = "n_len n2" and ?v0 = "replicate N (0::int)"
  have arith: "m \<le> S" "?l1 + S \<le> N" "S - m \<le> ?l1 + S" "?l1 + S - (S - m) = ?l1 + m"
    "?l1 + m - b = ?l1 - ?l2" "b \<le> ?l1 + m" "b \<le> n_len n2 + n_scale n2" "?l1 + m \<le> ?l1 + n_scale n1"
    using S m N len b by auto
  obtain F c where F: "sub_fraction n1 n2 (?v0, int (?l1 + n_scale n1) - 1, int (?l2 + n_scale n2) - 1, int (?l1 + S) - 1)
      = Some ((splice ?v0 (?l1 + m) F, int (?l1 + m) - 1, int b - 1, int (?l1 + m) - 1), c)"
    "length F = S - m" "digits F" "carry_ok c"
    "dval F - 10 ^ (S - m) * c = dval (seg (n_value n1) (?l1 + m) (n_scale n1 - m))
        - dval (seg (n_value n2) b (n_scale n2 - m))"
  proof -
    have "?l1 + S \<le> length ?v0" using arith(2) by simp
    from sub_fraction_spec [OF wf S m arith(3) this, folded b, unfolded arith(4)] show ?thesis
      by (elim exE conjE) (rule that)
  qed
  let ?v1 = "splice ?v0 (?l1 + m) F"
  have lF: "?l1 + m + length F = ?l1 + S" using F(2) arith(1) by simp
  have lv1: "?l1 + m \<le> length ?v1" using lF arith(2) by simp
  obtain M c' where M: "sub_common n1 n2 b ((?v1, int (?l1 + m) - 1, int b - 1, int (?l1 + m) - 1), c)
      = Some ((splice ?v1 (?l1 - ?l2) M, int (?l1 - ?l2) - 1, int (b - b) - 1, int (?l1 - ?l2) - 1), c')"
    "length M = b" "digits M" "carry_ok c'"
    "dval M - 10 ^ b * c' = dval (seg (n_value n1) (?l1 - ?l2) b) - dval (seg (n_value n2) (b - b) b) - c"
    using sub_common_spec [OF wf F(4) arith(6) order.refl arith(8,7,6) lv1, unfolded arith(5)]
    by (elim exE conjE) (rule that)
  let ?v2 = "splice ?v1 (?l1 - ?l2) M" and ?t = "?l1 - ?l2"
  have v2: "?v2 = splice ?v0 ?t (M @ F)"
    using M(2) arith(2,5,6) lF by (intro splice_splice) simp_all
  have lM: "?t + length M = ?l1 + m" using M(2) arith(5,6) by simp
  obtain T c'' where T: "digit_loop1 sub_borrow_body ?t (n_value n1) (int ?t - 1) ?v2 (int ?t - 1) c'
      = Some (splice ?v2 0 T, c'')" "length T = ?t" "digits T" "carry_ok c''"
    "dval T - 10 ^ ?t * c'' = dval (seg (n_value n1) 0 ?t) - c'"
  proof -
    have "?t \<le> length (n_value n1)" using bc_bufD(3) [OF wf(1)] by simp
    moreover have "?t \<le> length ?v2" using lM lF arith(2) by simp
    ultimately show ?thesis
      using sub_borrow_step.loop1 [OF bc_bufD(2) [OF wf(1)] M(4) order.refl _ order.refl, of ?t ?v2]
        that by auto
  qed
  let ?ds = "T @ M @ F"
  have lds: "length ?ds = ?l1 + S" using T(2) lM lF by simp
  have "splice ?v2 0 T = splice ?v0 0 ?ds"
    unfolding v2 using T(2) lM lF arith(2) by (intro splice_splice) simp_all
  also have "\<dots> = ?ds @ replicate (N - (?l1 + S)) 0"
    using splice_zeros [of 0 ?ds N] lds arith(2) by simp
  finally have v3: "splice ?v2 0 T = ?ds @ replicate (N - (?l1 + S)) 0" .
  have "max ?l1 ?l2 = ?l1" "min ?l1 ?l2 = ?l2" using len by auto
  note mm = this
  have nv: "n_value (bc_new_num ?l1 (max S sm)) = ?v0"
    by (simp add: bc_new_num_def N)
  have zf: "(if S < sm then zero_fill (sm - S) ?v0 (int (?l1 + S)) else Some ?v0) = Some ?v0"
  proof -
    have "?l1 + S + (sm - S) \<le> N" using N by simp
    from zero_fill_zeros [OF this] show ?thesis by (simp only: if_cancel)
  qed
  have t3: "(if ?l1 \<noteq> ?l2 then digit_loop1 sub_borrow_body ?t (n_value n1) (int ?t - 1) ?v2 (int ?t - 1) c'
      else Some (?v2, c')) = Some (splice ?v2 0 T, c'')"
  proof (cases "?l1 = ?l2")
    case True
    with T(1) show ?thesis by simp
  next
    case False
    with T(1) show ?thesis by simp
  qed
  have run: "bc_do_sub n1 n2 sm = bc_rm_leading_zeros
      ((bc_new_num ?l1 (max S sm))\<lparr>n_value := ?ds @ replicate (N - (?l1 + S)) 0\<rparr>)"
    unfolding bc_do_sub_def Let_def mm S [symmetric] m [symmetric] b [symmetric] nv
    by (simp only: zf F(1) b [symmetric] M(1) t3 v3 Option.bind.simps prod.case)
  have "N - (?l1 + S) = max S sm - S" using N by simp
  moreover have "dval ?ds - 10 ^ (?t + b + (S - m)) * c'' = scaled n1 S - scaled n2 S"
    using sub_digits_value [OF wf S m len F(2) F(5) [unfolded b] M(2) [unfolded b] _ T(2,5)] M(5) b by simp
  moreover have "?t + b + (S - m) = ?l1 + S" using lM M(2) lF F(2) by simp
  ultimately show ?thesis
    using run lds F(3) M(3) T(3,4) by (intro exI [of _ ?ds] exI [of _ c'']) simp
qed

text \<open>The unsigned difference of a larger and a smaller number: exact, and no borrow is left over.\<close>

lemma bc_do_sub_exact:
  assumes wf: "bc_wf n1" "bc_buf n2" and len: "n_len n2 \<le> n_len n1" and le: "bc_abs n2 \<le> bc_abs n1"
  shows "\<exists>r. bc_do_sub n1 n2 sm = Some r \<and> bc_lead r \<and> n_sign r = PLUS
           \<and> n_scale r = max (max (n_scale n1) (n_scale n2)) sm \<and> bc_abs r = bc_abs n1 - bc_abs n2"
proof -
  define S where S: "S = max (n_scale n1) (n_scale n2)"
  have sc: "scaled n2 S \<le> scaled n1 S"
    using le bc_abs_le_iff [of n1 S n2] S by (simp add: not_less [symmetric])
  obtain ds c where ds: "length ds = n_len n1 + S" "digits ds" "carry_ok c"
    "dval ds - 10 ^ (n_len n1 + S) * c = scaled n1 S - scaled n2 S"
    "bc_do_sub n1 n2 sm = bc_rm_leading_zeros
       ((bc_new_num (n_len n1) (max S sm))\<lparr>n_value := ds @ replicate (max S sm - S) 0\<rparr>)"
    using bc_do_sub_digits [OF bc_wf_buf [OF wf(1)] wf(2) len S] by blast
  have "c = 0"
    using ds(3,4) sc dval_less [OF ds(2)] ds(1) by (auto simp: carry_ok_def)
  then have dv: "dval ds = scaled n1 S - scaled n2 S" using ds(4) by simp
  let ?s = "(bc_new_num (n_len n1) (max S sm))\<lparr>n_value := ds @ replicate (max S sm - S) 0\<rparr>"
  have "bc_wf ?s"
    using ds(1,2) bc_wfD(1) [OF wf(1)] by (simp add: bc_wf_def bc_new_num_def)
  then obtain r where r: "bc_rm_leading_zeros ?s = Some r" "bc_lead r" "mag r = mag ?s"
    "n_scale r = max S sm" "n_sign r = PLUS"
    using bc_rm_leading_zeros_spec [of ?s] by (auto simp: bc_new_num_def)
  have "mag ?s = dval ds * 10 ^ (max S sm - S)"
    using ds(1) by (intro mag_padded) (simp_all add: bc_new_num_def)
  then have "bc_abs r = of_int (dval ds) / 10 ^ S"
    using r by (intro bc_abs_result) auto
  also have "\<dots> = bc_abs n1 - bc_abs n2"
    unfolding dv by (simp add: bc_abs_scaled [of _ S] S diff_divide_distrib)
  finally show ?thesis using ds(5) r S by auto
qed

lemma bc_do_sub_spec:
  assumes l1: "bc_lead n1" and l2: "bc_lead n2" and le: "bc_abs n2 \<le> bc_abs n1"
  shows "\<exists>r. bc_do_sub n1 n2 sm = Some r \<and> bc_lead r \<and> n_sign r = PLUS
           \<and> n_scale r = max (max (n_scale n1) (n_scale n2)) sm \<and> bc_abs r = bc_abs n1 - bc_abs n2"
proof (rule bc_do_sub_exact [OF bc_leadD [OF l1] bc_wf_buf [OF bc_leadD [OF l2]] _ le])
  define S where S: "S = max (n_scale n1) (n_scale n2)"
  have sc: "scaled n2 S \<le> scaled n1 S"
    using le bc_abs_le_iff [of n1 S n2] S by (simp add: not_less [symmetric])
  show "n_len n2 \<le> n_len n1"
  proof (rule ccontr)
    assume "\<not> ?thesis"
    then have "scaled n1 S < scaled n2 S"
      using S by (intro longer_is_greater [OF l2 bc_leadD [OF l1]]) auto
    with sc show False by simp
  qed
qed

lemma bc_do_add_len: "bc_do_add n1 n2 sm = Some r \<Longrightarrow> n_len r \<le> max (n_len n1) (n_len n2) + 1"
  by (auto simp: bc_do_add_def Let_def bc_new_num_def dest!: bc_rm_leading_zeros_len
      split: Option.bind_splits prod.splits if_splits)

lemma bc_do_sub_len: "bc_do_sub n1 n2 sm = Some r \<Longrightarrow> n_len r \<le> max (n_len n1) (n_len n2)"
  by (auto simp: bc_do_sub_def Let_def bc_new_num_def dest!: bc_rm_leading_zeros_len
      split: Option.bind_splits prod.splits if_splits)

section \<open>The signed routines\<close>

text \<open>\<open>bc_zero_of\<close> is the zero both routines build when the magnitudes cancel.\<close>

definition bc_zero_of :: "nat \<Rightarrow> bc_num option" where
  "bc_zero_of res_scale = (
     let d = bc_new_num 1 res_scale
     in do { v \<leftarrow> zero_fill (res_scale + 1) (n_value d) 0; Some (d\<lparr>n_value := v\<rparr>) })"

definition bc_sub :: "bc_num \<Rightarrow> bc_num \<Rightarrow> nat \<Rightarrow> bc_num option" where
  "bc_sub n1 n2 scale_min = (
     if n_sign n1 \<noteq> n_sign n2 then do {
       diff \<leftarrow> bc_do_add n1 n2 scale_min;
       Some (diff\<lparr>n_sign := n_sign n1\<rparr>)
     } else do {
       cmp_res \<leftarrow> bc_do_compare n1 n2 False False;
       if cmp_res = -1 then do {
         diff \<leftarrow> bc_do_sub n2 n1 scale_min;
         Some (diff\<lparr>n_sign := (if n_sign n2 = PLUS then MINUS else PLUS)\<rparr>)
       } else if cmp_res = 0 then
         bc_zero_of (max scale_min (max (n_scale n1) (n_scale n2)))
       else if cmp_res = 1 then do {
         diff \<leftarrow> bc_do_sub n1 n2 scale_min;
         Some (diff\<lparr>n_sign := n_sign n1\<rparr>)
       } else None
     })"

definition bc_add :: "bc_num \<Rightarrow> bc_num \<Rightarrow> nat \<Rightarrow> bc_num option" where
  "bc_add n1 n2 scale_min = (
     if n_sign n1 = n_sign n2 then do {
       sum \<leftarrow> bc_do_add n1 n2 scale_min;
       Some (sum\<lparr>n_sign := n_sign n1\<rparr>)
     } else do {
       cmp_res \<leftarrow> bc_do_compare n1 n2 False False;
       if cmp_res = -1 then do {
         sum \<leftarrow> bc_do_sub n2 n1 scale_min;
         Some (sum\<lparr>n_sign := n_sign n2\<rparr>)
       } else if cmp_res = 0 then
         bc_zero_of (max scale_min (max (n_scale n1) (n_scale n2)))
       else if cmp_res = 1 then do {
         sum \<leftarrow> bc_do_sub n1 n2 scale_min;
         Some (sum\<lparr>n_sign := n_sign n1\<rparr>)
       } else None
     })"

lemma bc_zero_of_spec:
  "\<exists>r. bc_zero_of s = Some r \<and> bc_canon r \<and> n_scale r = s \<and> bc_val r = 0 \<and> n_sign r = PLUS \<and> n_len r = 1"
proof -
  have "zero_fill (s + 1) (replicate (Suc s) 0) (int 0) = Some (replicate (Suc s) 0)"
    by (intro zero_fill_zeros) simp
  then have "bc_zero_of s = Some (bc_new_num 1 s)"
    by (simp del: zero_fill.simps replicate_Suc add: bc_zero_of_def Let_def bc_new_num_def)
  moreover have "bc_canon (bc_new_num 1 s)" "mag (bc_new_num 1 s) = 0"
    by (simp_all add: bc_canon_def bc_lead_def bc_wf_def bc_new_num_def mag_def seg_def digit_def dval_Cons)
  ultimately show ?thesis
    by (simp add: bc_new_num_def bc_val_eq_0_iff)
qed

text \<open>Giving a sign to an unsigned result.\<close>

lemma signed_result:
  assumes "bc_lead r" and "sg = MINUS \<Longrightarrow> bc_abs r \<noteq> 0"
  shows "bc_canon (r\<lparr>n_sign := sg\<rparr>)"
    and "bc_val (r\<lparr>n_sign := sg\<rparr>) = (if sg = PLUS then bc_abs r else - bc_abs r)"
proof -
  have "mag (r\<lparr>n_sign := sg\<rparr>) = mag r" by (simp add: mag_def)
  then show "bc_canon (r\<lparr>n_sign := sg\<rparr>)"
    "bc_val (r\<lparr>n_sign := sg\<rparr>) = (if sg = PLUS then bc_abs r else - bc_abs r)"
    using assms by (auto simp: bc_canon_def bc_lead_def bc_wf_def bc_abs_def bc_val_def)
qed

lemma canon_minus_pos: "bc_canon n \<Longrightarrow> n_sign n = MINUS \<Longrightarrow> 0 < bc_abs n"
  using bc_abs_nonneg [of n] bc_abs_eq_0_iff [of n] by (auto simp: bc_canon_def bc_lead_def)

lemma sign_cases: "n_sign n = PLUS \<or> n_sign n = MINUS"
  by (cases "n_sign n") auto

lemma bc_add_spec:
  assumes c1: "bc_canon n1" and c2: "bc_canon n2"
  shows "\<exists>r. bc_add n1 n2 sm = Some r \<and> bc_canon r \<and> bc_val r = bc_val n1 + bc_val n2
           \<and> n_scale r = max (max (n_scale n1) (n_scale n2)) sm"
proof (cases "n_sign n1 = n_sign n2")
  case True
  obtain r where r: "bc_do_add n1 n2 sm = Some r" "bc_lead r"
    "n_scale r = max (max (n_scale n1) (n_scale n2)) sm" "bc_abs r = bc_abs n1 + bc_abs n2"
    using bc_do_add_spec c1 c2 bc_canonD(2) by blast
  have "n_sign n1 = MINUS \<Longrightarrow> bc_abs r \<noteq> 0"
    using canon_minus_pos [OF c1] canon_minus_pos [OF c2] True r(4) by simp
  from signed_result [OF r(2) this] show ?thesis
    using True r by (auto simp: bc_add_def bc_val_def)
next
  case False
  note l = bc_canonD(1) [OF c1] bc_canonD(1) [OF c2]
  have cmp: "bc_do_compare n1 n2 False False = Some (cmp3 (bc_abs n1) (bc_abs n2))"
    using bc_do_compare_abs [OF l, of False] by (simp add: cmp_result_def)
  consider "bc_abs n1 < bc_abs n2" | "bc_abs n1 = bc_abs n2" | "bc_abs n2 < bc_abs n1" by linarith
  then show ?thesis
  proof cases
    case 1
    then obtain r where r: "bc_do_sub n2 n1 sm = Some r" "bc_lead r"
      "n_scale r = max (max (n_scale n2) (n_scale n1)) sm" "bc_abs r = bc_abs n2 - bc_abs n1"
      using bc_do_sub_spec [OF l(2,1), of sm] by auto
    let ?r = "r\<lparr>n_sign := n_sign n2\<rparr>"
    have "bc_add n1 n2 sm = Some ?r" using False cmp 1 r(1) by (simp add: bc_add_def)
    moreover have "bc_canon ?r" "bc_val ?r = bc_val n1 + bc_val n2"
      using signed_result [OF r(2), of "n_sign n2"] r(4) 1 False sign_cases [of n1] sign_cases [of n2]
      by (auto simp: bc_val_def)
    ultimately show ?thesis using r(3) by (simp add: max.commute [of "n_scale n2"])
  next
    case 2
    then have "bc_add n1 n2 sm = bc_zero_of (max sm (max (n_scale n1) (n_scale n2)))"
      using False cmp by (simp add: bc_add_def)
    moreover have "bc_val n1 + bc_val n2 = 0"
      using 2 False sign_cases [of n1] sign_cases [of n2] by (auto simp: bc_val_def)
    ultimately show ?thesis
      using bc_zero_of_spec [of "max sm (max (n_scale n1) (n_scale n2))"]
      by (auto simp: max.commute [of sm])
  next
    case 3
    then obtain r where r: "bc_do_sub n1 n2 sm = Some r" "bc_lead r"
      "n_scale r = max (max (n_scale n1) (n_scale n2)) sm" "bc_abs r = bc_abs n1 - bc_abs n2"
      using bc_do_sub_spec [OF l, of sm] by auto
    let ?r = "r\<lparr>n_sign := n_sign n1\<rparr>"
    have "bc_add n1 n2 sm = Some ?r" using False cmp 3 r(1) by (simp add: bc_add_def)
    moreover have "bc_canon ?r" "bc_val ?r = bc_val n1 + bc_val n2"
      using signed_result [OF r(2), of "n_sign n1"] r(4) 3 False sign_cases [of n1] sign_cases [of n2]
      by (auto simp: bc_val_def)
    ultimately show ?thesis using r(3) by simp
  qed
qed

text \<open>Subtraction is addition of the number with its sign flipped, as far as values go.\<close>

lemma bc_sub_spec:
  assumes c1: "bc_canon n1" and c2: "bc_canon n2"
  shows "\<exists>r. bc_sub n1 n2 sm = Some r \<and> bc_canon r \<and> bc_val r = bc_val n1 - bc_val n2
           \<and> n_scale r = max (max (n_scale n1) (n_scale n2)) sm"
proof (cases "n_sign n1 = n_sign n2")
  case False
  obtain r where r: "bc_do_add n1 n2 sm = Some r" "bc_lead r"
    "n_scale r = max (max (n_scale n1) (n_scale n2)) sm" "bc_abs r = bc_abs n1 + bc_abs n2"
    using bc_do_add_spec c1 c2 bc_canonD(2) by blast
  have "n_sign n1 = MINUS \<Longrightarrow> bc_abs r \<noteq> 0"
    using canon_minus_pos [OF c1] bc_abs_nonneg [OF bc_canonD(2) [OF c2]] r(4) by simp
  from signed_result [OF r(2) this] show ?thesis
    using False r sign_cases [of n1] sign_cases [of n2] by (auto simp: bc_sub_def bc_val_def)
next
  case True
  note l = bc_canonD(1) [OF c1] bc_canonD(1) [OF c2]
  have cmp: "bc_do_compare n1 n2 False False = Some (cmp3 (bc_abs n1) (bc_abs n2))"
    using bc_do_compare_abs [OF l, of False] by (simp add: cmp_result_def)
  consider "bc_abs n1 < bc_abs n2" | "bc_abs n1 = bc_abs n2" | "bc_abs n2 < bc_abs n1" by linarith
  then show ?thesis
  proof cases
    case 1
    then obtain r where r: "bc_do_sub n2 n1 sm = Some r" "bc_lead r"
      "n_scale r = max (max (n_scale n2) (n_scale n1)) sm" "bc_abs r = bc_abs n2 - bc_abs n1"
      using bc_do_sub_spec [OF l(2,1), of sm] by auto
    let ?s = "if n_sign n2 = PLUS then MINUS else PLUS"
    let ?r = "r\<lparr>n_sign := ?s\<rparr>"
    have "bc_sub n1 n2 sm = Some ?r" using True cmp 1 r(1) by (simp add: bc_sub_def)
    moreover have "bc_canon ?r" "bc_val ?r = bc_val n1 - bc_val n2"
      using signed_result [OF r(2), of ?s] r(4) 1 True sign_cases [of n2]
      by (auto simp: bc_val_def)
    ultimately show ?thesis using r(3) by (simp add: max.commute [of "n_scale n2"])
  next
    case 2
    then have "bc_sub n1 n2 sm = bc_zero_of (max sm (max (n_scale n1) (n_scale n2)))"
      using True cmp by (simp add: bc_sub_def)
    moreover have "bc_val n1 - bc_val n2 = 0"
      using 2 True sign_cases [of n1] sign_cases [of n2] by (auto simp: bc_val_def)
    ultimately show ?thesis
      using bc_zero_of_spec [of "max sm (max (n_scale n1) (n_scale n2))"]
      by (auto simp: max.commute [of sm])
  next
    case 3
    then obtain r where r: "bc_do_sub n1 n2 sm = Some r" "bc_lead r"
      "n_scale r = max (max (n_scale n1) (n_scale n2)) sm" "bc_abs r = bc_abs n1 - bc_abs n2"
      using bc_do_sub_spec [OF l, of sm] by auto
    let ?r = "r\<lparr>n_sign := n_sign n1\<rparr>"
    have "bc_sub n1 n2 sm = Some ?r" using True cmp 3 r(1) by (simp add: bc_sub_def)
    moreover have "bc_canon ?r" "bc_val ?r = bc_val n1 - bc_val n2"
      using signed_result [OF r(2), of "n_sign n1"] r(4) 3 True sign_cases [of n1]
      by (auto simp: bc_val_def)
    ultimately show ?thesis using r(3) by simp
  qed
qed

section \<open>Properties\<close>

text \<open>
  C8: addition of canonical numbers returns a canonical number whose value is the exact sum,
  at the largest of the two scales and the requested minimum scale.
\<close>

theorem bc_add_correct:
  assumes "bc_canon n1" and "bc_canon n2"
  shows "\<exists>r. bc_add n1 n2 sm = Some r \<and> bc_canon r \<and> bc_val r = bc_val n1 + bc_val n2
           \<and> n_scale r = max (max (n_scale n1) (n_scale n2)) sm"
  using assms by (rule bc_add_spec)

theorem bc_add_correct_witness:
  "\<exists>r. bc_add (num_of PLUS [9, 9] [7, 5]) (num_of MINUS [1] [5]) 3 = Some r
     \<and> bc_val r = 9825 / 100 \<and> n_scale r = 3"
  using bc_add_correct [of "num_of PLUS [9, 9] [7, 5]" "num_of MINUS [1] [5]" 3]
  by (auto simp: num_of_simps)

text \<open>
  C9: subtraction of canonical numbers returns a canonical number whose value is the exact
  difference, at the largest of the two scales and the requested minimum scale.
\<close>

theorem bc_sub_correct:
  assumes "bc_canon n1" and "bc_canon n2"
  shows "\<exists>r. bc_sub n1 n2 sm = Some r \<and> bc_canon r \<and> bc_val r = bc_val n1 - bc_val n2
           \<and> n_scale r = max (max (n_scale n1) (n_scale n2)) sm"
  using assms by (rule bc_sub_spec)

theorem bc_sub_correct_witness:
  "\<exists>r. bc_sub (num_of PLUS [1, 0, 0] []) (num_of PLUS [0] [0, 1]) 0 = Some r
     \<and> bc_val r = 9999 / 100 \<and> n_scale r = 2"
  using bc_sub_correct [of "num_of PLUS [1, 0, 0] []" "num_of PLUS [0] [0, 1]" 0]
  by (auto simp: num_of_simps)

end
