(* ===== verification/BcMul.thy ===== *)
theory BcMul
  imports BcAdd
begin

text \<open>
  Multiplication of \<^verbatim>\<open>usr.bin/bc/number.c\<close>: the column-wise \<open>_bc_simp_mul\<close>, the shifted
  in-place addition \<open>_bc_shift_addsub\<close>, the divide-and-conquer \<open>_bc_rec_mul\<close> with its
  three recursive products, and \<open>bc_multiply\<close>, which truncates the product to its scale.
\<close>

section \<open>The code\<close>

definition mul_base_digits :: nat where
  "mul_base_digits = 80"

abbreviation (input) MUL_SMALL_DIGITS :: nat where
  "MUL_SMALL_DIGITS \<equiv> mul_base_digits div 4"

text \<open>\<open>value\<close> is the rest of the parent's storage from the pointer on: the number shares it.\<close>

definition new_sub_num :: "nat \<Rightarrow> nat \<Rightarrow> int list \<Rightarrow> bc_num" where
  "new_sub_num len scale v = \<lparr>n_sign = PLUS, n_len = len, n_scale = scale, n_value = v\<rparr>"

text \<open>\<^verbatim>\<open>while ((n1ptr >= n1->n_value) && (n2ptr <= n2end)) csum += *n1ptr-- * *n2ptr++;\<close>\<close>

function mul_column :: "int list \<Rightarrow> int \<Rightarrow> int list \<Rightarrow> int \<Rightarrow> int \<Rightarrow> int \<Rightarrow> int option" where
  "mul_column v1 p1 v2 p2 end2 csum = (
     if p1 \<ge> 0 \<and> p2 \<le> end2 then do {
       d1 \<leftarrow> rd v1 p1;
       d2 \<leftarrow> rd v2 p2;
       mul_column v1 (p1 - 1) v2 (p2 + 1) end2 (csum + d1 * d2)
     } else Some csum)"
  by pat_completeness auto
termination
  by (relation "measure (\<lambda>(v1, p1, v2, p2, end2, csum). nat (p1 + 1))") auto

declare mul_column.simps [simp del]

text \<open>The outer loop over the columns: \<open>k\<close> columns are left, \<open>indx\<close> is the next one.\<close>

fun mul_columns :: "nat \<Rightarrow> nat \<Rightarrow> int list \<Rightarrow> nat \<Rightarrow> int list \<Rightarrow> nat \<Rightarrow> int list \<Rightarrow> int \<Rightarrow> int
    \<Rightarrow> (int list \<times> int \<times> int) option" where
  "mul_columns 0 indx v1 n1len v2 n2len pv pvptr csum = Some (pv, pvptr, csum)"
| "mul_columns (Suc k) indx v1 n1len v2 n2len pv pvptr csum = do {
     let n1end = int n1len - 1;
     let n2end = int n2len - 1;
     let n1ptr = n1end - max 0 (int indx - int n2len + 1);
     let n2ptr = n2end - min (int indx) (int n2len - 1);
     csum \<leftarrow> mul_column v1 n1ptr v2 n2ptr n2end csum;
     pv \<leftarrow> wr pv pvptr (csum mod BASE);
     mul_columns k (Suc indx) v1 n1len v2 n2len pv (pvptr - 1) (csum div BASE)
   }"

definition bc_simp_mul :: "bc_num \<Rightarrow> nat \<Rightarrow> bc_num \<Rightarrow> nat \<Rightarrow> bc_num option" where
  "bc_simp_mul n1 n1len n2 n2len = (
     let prodlen = n1len + n2len + 1;
         prod = bc_new_num prodlen 0
     in do {
       (pv, pvptr, csum) \<leftarrow> mul_columns (prodlen - 1) 0 (n_value n1) n1len (n_value n2) n2len
          (n_value prod) (int prodlen - 1) 0;
       pv \<leftarrow> wr pv pvptr csum;
       Some (prod\<lparr>n_value := pv\<rparr>)
     })"

text \<open>The two \<^verbatim>\<open>while (carry)\<close> loops: the carry or borrow ripples through the higher digits.\<close>

function ripple_carry :: "int list \<Rightarrow> int \<Rightarrow> int list option" where
  "ripple_carry v p = do {
     d \<leftarrow> rd v p;
     if d + 1 > BASE - 1
     then do { v' \<leftarrow> wr v p (d + 1 - BASE); ripple_carry v' (p - 1) }
     else wr v p (d + 1)
   }"
  by pat_completeness auto
termination
  by (relation "measure (\<lambda>(v, p). nat (p + 1))") (auto simp: rd_def split: if_splits)

function ripple_borrow :: "int list \<Rightarrow> int \<Rightarrow> int list option" where
  "ripple_borrow v p = do {
     d \<leftarrow> rd v p;
     if d - 1 < 0
     then do { v' \<leftarrow> wr v p (d - 1 + BASE); ripple_borrow v' (p - 1) }
     else wr v p (d - 1)
   }"
  by pat_completeness auto
termination
  by (relation "measure (\<lambda>(v, p). nat (p + 1))") (auto simp: rd_def split: if_splits)

declare ripple_carry.simps [simp del] ripple_borrow.simps [simp del]

definition bc_shift_addsub :: "bc_num \<Rightarrow> bc_num \<Rightarrow> nat \<Rightarrow> bool \<Rightarrow> bc_num option" where
  "bc_shift_addsub accum val shift sub = do {
     d0 \<leftarrow> rd (n_value val) 0;
     let count = (if d0 = 0 then n_len val - 1 else n_len val);
     guard (n_len accum + n_scale accum \<ge> shift + count);
     let accp = int (n_len accum + n_scale accum) - int shift - 1;
     let valp = int (n_len val) - 1;
     v \<leftarrow> (if sub then do {
            (v, carry) \<leftarrow> digit_loop_ip sub_body count (n_value accum) accp (n_value val) valp 0;
            if carry = 0 then Some v else ripple_borrow v (accp - int count)
          } else do {
            (v, carry) \<leftarrow> digit_loop_ip add_body count (n_value accum) accp (n_value val) valp 0;
            if carry = 0 then Some v else ripple_carry v (accp - int count)
          });
     Some (accum\<lparr>n_value := v\<rparr>)
   }"

section \<open>Correctness of the column multiplication\<close>

text \<open>The digit of weight \<open>10 ^ i\<close> of the first \<open>n\<close> digits of a buffer, 0 beyond them.\<close>

definition dig :: "int list \<Rightarrow> nat \<Rightarrow> nat \<Rightarrow> int" where
  "dig v n i = (if i < n then v ! (n - Suc i) else 0)"

lemma dval_dig: "n \<le> length v \<Longrightarrow> dval (seg v 0 n) = (\<Sum>i<n. dig v n i * 10 ^ i)"
proof (induction n)
  case 0
  then show ?case by simp
next
  case (Suc n)
  have "(\<Sum>i<Suc n. dig v (Suc n) i * 10 ^ i) = v ! n + (\<Sum>i<n. dig v (Suc n) (Suc i) * 10 ^ Suc i)"
    by (subst sum.lessThan_Suc_shift) (simp add: dig_def)
  also have "(\<Sum>i<n. dig v (Suc n) (Suc i) * 10 ^ Suc i) = (\<Sum>i<n. 10 * (dig v n i * 10 ^ i))"
    by (intro sum.cong) (auto simp: dig_def)
  also have "\<dots> = 10 * dval (seg v 0 n)"
    using Suc by (simp add: sum_distrib_left)
  finally show ?case
    using Suc.prems by (simp add: seg_Suc dval_snoc)
qed

definition column :: "int list \<Rightarrow> nat \<Rightarrow> int list \<Rightarrow> nat \<Rightarrow> nat \<Rightarrow> int" where
  "column v1 n1 v2 n2 k = (\<Sum>i\<le>k. dig v1 n1 i * dig v2 n2 (k - i))"

lemma column_product:
  assumes "n1 \<le> length v1" and "n2 \<le> length v2"
  shows "(\<Sum>k<n1 + n2. column v1 n1 v2 n2 k * 10 ^ k) = dval (seg v1 0 n1) * dval (seg v2 0 n2)"
proof -
  let ?f = "\<lambda>i j. (dig v1 n1 i * 10 ^ i) * (dig v2 n2 j * 10 ^ j)"
  have "(\<Sum>k<n1 + n2. column v1 n1 v2 n2 k * 10 ^ k) = (\<Sum>k<n1 + n2. \<Sum>i\<le>k. ?f i (k - i))"
  proof (intro sum.cong refl)
    fix k
    have "dig v1 n1 i * dig v2 n2 (k - i) * 10 ^ k = ?f i (k - i)" if "i \<in> {..k}" for i
    proof -
      have "(10::int) ^ k = 10 ^ i * 10 ^ (k - i)"
        using that by (simp flip: power_add)
      then show ?thesis by simp
    qed
    then show "column v1 n1 v2 n2 k * 10 ^ k = (\<Sum>i\<le>k. ?f i (k - i))"
      unfolding column_def sum_distrib_right by (intro sum.cong refl)
  qed
  also have "\<dots> = (\<Sum>(i, j)\<in>{(i, j). i + j < n1 + n2}. ?f i j)"
    by (rule sum.triangle_reindex [symmetric])
  also have "\<dots> = (\<Sum>(i, j)\<in>{..<n1} \<times> {..<n2}. ?f i j)"
  proof (rule sum.mono_neutral_right)
    show "finite {(i, j). i + j < n1 + n2}"
      by (rule finite_subset [of _ "{..<n1 + n2} \<times> {..<n1 + n2}"]) auto
  qed (auto simp: dig_def split: if_splits)
  also have "\<dots> = (\<Sum>i<n1. dig v1 n1 i * 10 ^ i) * (\<Sum>j<n2. dig v2 n2 j * 10 ^ j)"
    by (simp add: sum_product sum.cartesian_product)
  finally show ?thesis using assms by (simp add: dval_dig)
qed

lemma mul_column_spec:
  assumes "n1 \<le> length v1" and "n2 \<le> length v2" and "i \<le> Suc k" and "k < i + n2"
  shows "mul_column v1 (int n1 - 1 - int i) v2 (int n2 - 1 - (int k - int i)) (int n2 - 1) csum
           = Some (csum + (\<Sum>i'\<in>{i..k}. dig v1 n1 i' * dig v2 n2 (k - i')))"
  using assms
proof (induction "Suc k - i" arbitrary: i csum)
  case 0
  then show ?case by (subst mul_column.simps) simp
next
  case (Suc m)
  then have ik: "i \<le> k" by simp
  show ?case
  proof (cases "i < n1")
    case False
    then have "(\<Sum>i'\<in>{i..k}. dig v1 n1 i' * dig v2 n2 (k - i')) = 0"
      by (intro sum.neutral) (auto simp: dig_def)
    with False show ?thesis by (subst mul_column.simps) simp
  next
    case True
    have p: "int n1 - 1 - int i = int (n1 - Suc i)" "int n2 - 1 - (int k - int i) = int (n2 - Suc (k - i))"
      using True ik Suc.prems by auto
    have IH: "mul_column v1 (int n1 - 1 - int (Suc i)) v2 (int n2 - 1 - (int k - int (Suc i))) (int n2 - 1)
          (csum + dig v1 n1 i * dig v2 n2 (k - i))
        = Some (csum + dig v1 n1 i * dig v2 n2 (k - i)
            + (\<Sum>i'\<in>{Suc i..k}. dig v1 n1 i' * dig v2 n2 (k - i')))"
      using Suc.prems Suc.hyps(2) ik by (intro Suc.hyps(1)) auto
    have d: "rd v1 (int n1 - 1 - int i) = Some (dig v1 n1 i)"
      "rd v2 (int n2 - 1 - (int k - int i)) = Some (dig v2 n2 (k - i))"
    proof -
      have "k - i < n2" using ik Suc.prems(4) by linarith
      then show "rd v1 (int n1 - 1 - int i) = Some (dig v1 n1 i)"
        "rd v2 (int n2 - 1 - (int k - int i)) = Some (dig v2 n2 (k - i))"
        unfolding p using True Suc.prems(1,2) by (subst rd_nat; simp add: dig_def)+
    qed
    have "mul_column v1 (int n1 - 1 - int i) v2 (int n2 - 1 - (int k - int i)) (int n2 - 1) csum
        = mul_column v1 (int n1 - 1 - int (Suc i)) v2 (int n2 - 1 - (int k - int (Suc i))) (int n2 - 1)
          (csum + dig v1 n1 i * dig v2 n2 (k - i))"
    proof -
      have "0 \<le> int n1 - 1 - int i" "int n2 - 1 - (int k - int i) \<le> int n2 - 1"
        "int n1 - 1 - int i - 1 = int n1 - 1 - int (Suc i)"
        "int n2 - 1 - (int k - int i) + 1 = int n2 - 1 - (int k - int (Suc i))"
        using True ik by auto
      then show ?thesis
        by (subst mul_column.simps) (simp only: d simp_thms if_True Option.bind.simps)
    qed
    also note IH
    finally show ?thesis
      using ik by (simp add: sum.atLeast_Suc_atMost)
  qed
qed

lemma mul_columns_spec:
  assumes "n1 \<le> length v1" and "n2 \<le> length v2" and "1 \<le> n2"
    and "p = k + 1" and "p \<le> length pv"
  shows "\<exists>new c. mul_columns k indx v1 n1 v2 n2 pv (int p - 1) csum = Some (splice pv 1 new, 0, c)
           \<and> length new = k \<and> digits new
           \<and> dval new + 10 ^ k * c = csum + (\<Sum>j<k. column v1 n1 v2 n2 (indx + j) * 10 ^ j)"
  using assms
proof (induction k arbitrary: indx p pv csum)
  case 0
  then show ?case by (intro exI [of _ "[]"] exI [of _ csum]) simp
next
  case (Suc k)
  define i where "i = Suc indx - n2"
  have i: "i \<le> Suc indx" "indx < i + n2" using Suc.prems(3) by (auto simp: i_def)
  have ptrs: "int n1 - 1 - max 0 (int indx - int n2 + 1) = int n1 - 1 - int i"
    "int n2 - 1 - min (int indx) (int n2 - 1) = int n2 - 1 - (int indx - int i)"
    using Suc.prems(3) by (auto simp: i_def)
  have "(\<Sum>i'\<in>{i..indx}. dig v1 n1 i' * dig v2 n2 (indx - i')) = column v1 n1 v2 n2 indx"
    unfolding column_def
    by (rule sum.mono_neutral_left) (auto simp: dig_def i_def)
  then have col: "mul_column v1 (int n1 - 1 - int i) v2 (int n2 - 1 - (int indx - int i)) (int n2 - 1) csum
      = Some (csum + column v1 n1 v2 n2 indx)"
    using mul_column_spec [OF Suc.prems(1,2) i] by simp
  let ?t = "csum + column v1 n1 v2 n2 indx"
  let ?pv = "pv[Suc k := ?t mod 10]"
  obtain new c where IH: "mul_columns k (Suc indx) v1 n1 v2 n2 ?pv (int (k + 1) - 1) (?t div 10)
        = Some (splice ?pv 1 new, 0, c)" "length new = k" "digits new"
      "dval new + 10 ^ k * c = ?t div 10 + (\<Sum>j<k. column v1 n1 v2 n2 (Suc indx + j) * 10 ^ j)"
    using Suc.IH [of "k + 1" ?pv "Suc indx" "?t div 10"] Suc.prems by auto
  have run: "mul_columns (Suc k) indx v1 n1 v2 n2 pv (int p - 1) csum = Some (splice pv 1 (new @ [?t mod 10]), 0, c)"
  proof -
    have "wr pv (int p - 1) (?t mod 10) = Some ?pv"
      using Suc.prems(4,5) wr_pred [of "Suc k" pv] by simp
    moreover have "int p - 1 - 1 = int (k + 1) - 1" using Suc.prems(4) by simp
    moreover have "splice ?pv 1 new = splice pv 1 (new @ [?t mod 10])"
      using IH(2) Suc.prems(4,5) by (intro splice_snoc) auto
    ultimately show ?thesis
      using col IH(1) by (simp only: mul_columns.simps Let_def ptrs Option.bind.simps)
  qed
  have "(\<Sum>j<Suc k. column v1 n1 v2 n2 (indx + j) * 10 ^ j)
      = column v1 n1 v2 n2 indx + 10 * (\<Sum>j<k. column v1 n1 v2 n2 (Suc indx + j) * 10 ^ j)"
    by (subst sum.lessThan_Suc_shift) (simp add: sum_distrib_left algebra_simps)
  moreover have "dval (new @ [?t mod 10]) + 10 ^ Suc k * c = 10 * (dval new + 10 ^ k * c) + ?t mod 10"
    by (simp add: dval_snoc)
  ultimately have "dval (new @ [?t mod 10]) + 10 ^ Suc k * c
      = csum + (\<Sum>j<Suc k. column v1 n1 v2 n2 (indx + j) * 10 ^ j)"
    unfolding IH(4) by simp
  then show ?case
    using run IH(2,3) by (intro exI [of _ "new @ [?t mod 10]"] exI [of _ c]) (simp add: digit_def)
qed

text \<open>The column multiplication computes the product; the leading digit stays 0.\<close>

lemma bc_simp_mul_spec:
  assumes "n1 \<le> length (n_value u)" and "n2 \<le> length (n_value v)" and "1 \<le> n2"
    and dg: "digits (n_value u)" "digits (n_value v)"
  shows "\<exists>ds. bc_simp_mul u n1 v n2 = Some ((bc_new_num (n1 + n2 + 1) 0)\<lparr>n_value := 0 # ds\<rparr>)
           \<and> length ds = n1 + n2 \<and> digits ds
           \<and> dval ds = dval (seg (n_value u) 0 n1) * dval (seg (n_value v) 0 n2)"
proof -
  let ?k = "n1 + n2" and ?x = "dval (seg (n_value u) 0 n1)" and ?y = "dval (seg (n_value v) 0 n2)"
  let ?z = "replicate (Suc ?k) (0::int)"
  obtain ds c where ds: "mul_columns ?k 0 (n_value u) n1 (n_value v) n2 ?z (int (Suc ?k) - 1) 0
      = Some (splice ?z 1 ds, 0, c)" "length ds = ?k" "digits ds"
    "dval ds + 10 ^ ?k * c = 0 + (\<Sum>j<?k. column (n_value u) n1 (n_value v) n2 (0 + j) * 10 ^ j)"
    using mul_columns_spec [OF assms(1-3), of "Suc ?k" ?k ?z 0 0] by auto
  then have eq: "dval ds + 10 ^ ?k * c = ?x * ?y"
    using column_product [OF assms(1,2)] by simp
  have "?x < 10 ^ n1" "?y < 10 ^ n2" "0 \<le> ?x" "0 \<le> ?y"
    using dval_less [of "seg (n_value u) 0 n1"] dval_less [of "seg (n_value v) 0 n2"] assms by simp_all
  then have "?x * ?y < 10 ^ ?k" "0 \<le> ?x * ?y"
    by (simp_all add: power_add mult_strict_mono)
  moreover have "0 \<le> dval ds" "dval ds < 10 ^ ?k"
    using ds(2,3) dval_less [OF ds(3)] by simp_all
  ultimately have "c = 0"
    using eq by (smt (verit) mult_le_cancel_left1 mult_less_cancel_left1 zero_less_power mult_minus_right)
  moreover have "splice ?z 1 ds = 0 # ds"
    using splice_zeros [of 1 ds "Suc ?k"] ds(2) by simp
  ultimately show ?thesis
    using ds eq by (intro exI [of _ ds]) (simp add: bc_simp_mul_def bc_new_num_def Let_def wr_def)
qed

section \<open>Correctness of the shifted addition and subtraction\<close>

lemma ripple_carry_spec:
  assumes "digits v" and "k \<le> length v" and "dval (seg v 0 k) + 1 < 10 ^ k"
  shows "\<exists>P. ripple_carry v (int k - 1) = Some (splice v 0 P) \<and> length P = k \<and> digits P
           \<and> dval P = dval (seg v 0 k) + 1"
  using assms
proof (induction k arbitrary: v)
  case 0
  then show ?case by simp
next
  case (Suc k)
  let ?d = "v ! k"
  have d: "digit ?d" using Suc.prems by (intro digits_nth) auto
  have rd: "rd v (int (Suc k) - 1) = Some ?d" using Suc.prems(2) by (intro rd_pred) simp
  have sg: "seg v 0 (Suc k) = seg v 0 k @ [?d]" using Suc.prems(2) by (simp add: seg_Suc)
  have wr: "wr v (int (Suc k) - 1) x = Some (v[k := x])" for x
    using Suc.prems(2) by (intro wr_pred) simp
  show ?case
  proof (cases "?d = 9")
    case False
    then have d': "\<not> ?d + 1 > BASE - 1" "digit (?d + 1)" using d by (auto simp: digit_def)
    have "v[k := ?d + 1] = splice v 0 (seg v 0 k @ [?d + 1])"
      using Suc.prems(2) by (simp add: splice_def seg_def upd_conv_take_nth_drop)
    moreover have "ripple_carry v (int (Suc k) - 1) = Some (v[k := ?d + 1])"
      by (subst ripple_carry.simps) (simp only: rd wr d' Option.bind.simps if_False)
    ultimately show ?thesis
      using d'(2) Suc.prems sg by (intro exI [of _ "seg v 0 k @ [?d + 1]"]) (simp add: dval_snoc)
  next
    case True
    let ?v = "v[k := 0]"
    have sk: "seg ?v 0 k = seg v 0 k" by (simp add: seg_update_other)
    have "dval (seg v 0 k) + 1 < 10 ^ k"
      using Suc.prems(3) sg True by (simp add: dval_snoc)
    then obtain P where P: "ripple_carry ?v (int k - 1) = Some (splice ?v 0 P)" "length P = k" "digits P"
      "dval P = dval (seg v 0 k) + 1"
      using Suc.IH [of ?v] Suc.prems(1,2) sk by (auto simp: digits_update digit_def)
    have "ripple_carry v (int (Suc k) - 1) = ripple_carry ?v (int k - 1)"
    proof -
      have "v ! k + 1 > BASE - 1" "v ! k + 1 - BASE = 0" "int (Suc k) - 1 - 1 = int k - 1"
        using True by simp_all
      then show ?thesis
        by (subst ripple_carry.simps) (simp only: rd wr Option.bind.simps if_True)
    qed
    moreover have "splice ?v 0 P = splice v 0 (P @ [0])"
      using P(2) Suc.prems(2) by (intro splice_snoc) auto
    ultimately show ?thesis
      using P sg True by (intro exI [of _ "P @ [0]"]) (simp add: dval_snoc digit_def)
  qed
qed

lemma ripple_borrow_spec:
  assumes "digits v" and "k \<le> length v" and "1 \<le> dval (seg v 0 k)"
  shows "\<exists>P. ripple_borrow v (int k - 1) = Some (splice v 0 P) \<and> length P = k \<and> digits P
           \<and> dval P = dval (seg v 0 k) - 1"
  using assms
proof (induction k arbitrary: v)
  case 0
  then show ?case by simp
next
  case (Suc k)
  let ?d = "v ! k"
  have d: "digit ?d" using Suc.prems by (intro digits_nth) auto
  have rd: "rd v (int (Suc k) - 1) = Some ?d" using Suc.prems(2) by (intro rd_pred) simp
  have sg: "seg v 0 (Suc k) = seg v 0 k @ [?d]" using Suc.prems(2) by (simp add: seg_Suc)
  have wr: "wr v (int (Suc k) - 1) x = Some (v[k := x])" for x
    using Suc.prems(2) by (intro wr_pred) simp
  show ?case
  proof (cases "?d = 0")
    case False
    then have d': "\<not> ?d - 1 < 0" "digit (?d - 1)" using d by (auto simp: digit_def)
    have "v[k := ?d - 1] = splice v 0 (seg v 0 k @ [?d - 1])"
      using Suc.prems(2) by (simp add: splice_def seg_def upd_conv_take_nth_drop)
    moreover have "ripple_borrow v (int (Suc k) - 1) = Some (v[k := ?d - 1])"
      by (subst ripple_borrow.simps) (simp only: rd wr d' Option.bind.simps if_False)
    ultimately show ?thesis
      using d'(2) Suc.prems sg by (intro exI [of _ "seg v 0 k @ [?d - 1]"]) (simp add: dval_snoc)
  next
    case True
    let ?v = "v[k := 9]"
    have sk: "seg ?v 0 k = seg v 0 k" by (simp add: seg_update_other)
    have "1 \<le> dval (seg v 0 k)"
      using Suc.prems(3) sg True by (simp add: dval_snoc)
    then obtain P where P: "ripple_borrow ?v (int k - 1) = Some (splice ?v 0 P)" "length P = k" "digits P"
      "dval P = dval (seg v 0 k) - 1"
      using Suc.IH [of ?v] Suc.prems(1,2) sk by (auto simp: digits_update digit_def)
    have "ripple_borrow v (int (Suc k) - 1) = ripple_borrow ?v (int k - 1)"
    proof -
      have "v ! k - 1 < 0" "v ! k - 1 + BASE = 9" "int (Suc k) - 1 - 1 = int k - 1"
        using True by simp_all
      then show ?thesis
        by (subst ripple_borrow.simps) (simp only: rd wr Option.bind.simps if_True)
    qed
    moreover have "splice ?v 0 P = splice v 0 (P @ [9])"
      using P(2) Suc.prems(2) by (intro splice_snoc) auto
    ultimately show ?thesis
      using P sg True by (intro exI [of _ "P @ [9]"]) (simp add: dval_snoc digit_def)
  qed
qed

text \<open>The digits the routine really adds: a leading zero of the operand is left out.\<close>

definition addsub_count :: "bc_num \<Rightarrow> nat" where
  "addsub_count val = (if n_value val ! 0 = 0 then n_len val - 1 else n_len val)"

lemma addsub_count:
  assumes "bc_wf val" and "n_scale val = 0" and "c = addsub_count val"
  shows "c \<le> n_len val" "dval (seg (n_value val) (n_len val - c) c) = mag val" "mag val < 10 ^ c"
proof -
  show "c \<le> n_len val" by (simp add: assms(3) addsub_count_def)
  obtain l where l: "n_len val = Suc l" using bc_wfD(1) [OF assms(1)] by (cases "n_len val") auto
  have sg: "seg (n_value val) 0 (Suc l) = n_value val ! 0 # seg (n_value val) 1 l"
    using bc_wfD(5) [OF assms(1)] by (simp add: seg_Cons)
  show e: "dval (seg (n_value val) (n_len val - c) c) = mag val"
    unfolding mag_def assms(2,3) addsub_count_def using l sg by (auto simp: dval_Cons)
  show "mag val < 10 ^ c"
    using dval_less [of "seg (n_value val) (n_len val - c) c"] bc_wfD(3,4) [OF assms(1)] e \<open>c \<le> n_len val\<close>
    by simp
qed

text \<open>The three parts of the accumulator: above, level with and below the operand.\<close>

lemma accum_parts:
  assumes "k + c + s = L" and "L \<le> length v"
  shows "dval (seg v 0 L) = (dval (seg v 0 k) * 10 ^ c + dval (seg v k c)) * 10 ^ s + dval (seg v (k + c) s)"
proof -
  have "seg v 0 L = seg v 0 k @ seg v k c @ seg v (k + c) s"
    unfolding assms(1) [symmetric] by (simp add: seg_append)
  then show ?thesis using assms by (simp add: dval_append power_add algebra_simps)
qed

lemma accum_update:
  assumes "k + c + s = L" and "L \<le> length v" and "length P = k" and "length M = c"
  shows "splice (splice v k M) 0 P = splice v 0 (P @ M)"
    and "dval (seg (splice v 0 (P @ M)) 0 L) = (dval P * 10 ^ c + dval M) * 10 ^ s + dval (seg v (k + c) s)"
proof -
  show "splice (splice v k M) 0 P = splice v 0 (P @ M)"
    using assms by (intro splice_splice) auto
  let ?w = "splice v 0 (P @ M)"
  have "length ?w = length v" using assms by (intro length_splice) simp
  then have "dval (seg ?w 0 L) = (dval (seg ?w 0 k) * 10 ^ c + dval (seg ?w k c)) * 10 ^ s + dval (seg ?w (k + c) s)"
    using assms by (intro accum_parts) auto
  moreover have "seg ?w 0 k = P" "seg ?w k c = M" "seg ?w (k + c) s = seg v (k + c) s"
    using assms by (auto simp: splice_def seg_def)
  ultimately show "dval (seg ?w 0 L) = (dval P * 10 ^ c + dval M) * 10 ^ s + dval (seg v (k + c) s)"
    by simp
qed

lemma splice_prefix: "k \<le> length v \<Longrightarrow> splice v 0 (seg v 0 k) = v"
  by (simp add: splice_def seg_def)

lemma digits_spliceD: "digits v \<Longrightarrow> k \<le> length v \<Longrightarrow> dval (seg v 0 k) < 10 ^ k"
  using dval_less [of "seg v 0 k"] by simp

text \<open>Adding in place, where the sum fits the accumulator.\<close>

lemma bc_shift_add_spec:
  assumes acc: "digits (n_value acc)" "n_len acc + n_scale acc = L" "L \<le> length (n_value acc)"
    and val: "bc_wf val" "n_scale val = 0" and fit: "s + addsub_count val \<le> L"
    and less: "mag acc + mag val * 10 ^ s < 10 ^ L"
  shows "\<exists>w. bc_shift_addsub acc val s False = Some (acc\<lparr>n_value := w\<rparr>) \<and> digits w
           \<and> length w = length (n_value acc) \<and> dval (seg w 0 L) = mag acc + mag val * 10 ^ s"
proof -
  define c where c: "c = addsub_count val"
  define k where k: "k = L - s - c"
  have kcs: "k + c + s = L" using fit by (simp add: k c)
  note ac = addsub_count [OF val c]
  let ?v = "n_value acc" and ?P = "seg (n_value acc) 0 k" and ?B = "seg (n_value acc) (k + c) s"
  have Ls: "int L - int s - 1 = int (k + c) - 1" "int (k + c) - 1 - int c = int k - 1" using kcs by auto
  obtain M cy where M: "digit_loop_ip add_body c ?v (int (k + c) - 1) (n_value val) (int (n_len val) - 1) 0
      = Some (splice ?v k M, cy)" "length M = c" "digits M" "carry_ok cy"
    "dval M + 10 ^ c * cy = dval (seg ?v k c) + mag val"
  proof -
    have "0 \<le> int (k + c)" "k + c \<le> length ?v" "c \<le> k + c" using kcs acc(3) by auto
    with add_step.loop_ip [OF acc(1) bc_wfD(3) [OF val(1)], of 0 c "k + c" "n_len val"] ac(1)
      bc_wfD(4) [OF val(1)] ac(2)
    show ?thesis using that by (auto simp: carry_ok_def)
  qed
  have lv: "k + c \<le> length ?v" using kcs acc(3) by simp
  have mg: "mag acc = (dval ?P * 10 ^ c + dval (seg ?v k c)) * 10 ^ s + dval ?B"
    using accum_parts [OF kcs acc(3)] acc(2) by (simp add: mag_def)
  obtain P where P: "(if cy = 0 then Some (splice ?v k M) else ripple_carry (splice ?v k M) (int k - 1))
      = Some (splice ?v 0 (P @ M))" "length P = k" "digits P" "dval P = dval ?P + cy"
  proof (cases "cy = 0")
    case True
    have "splice (splice ?v k M) 0 ?P = splice ?v 0 (?P @ M)"
      using accum_update(1) [OF kcs acc(3) _ M(2), of ?P] lv by simp
    moreover have "splice (splice ?v k M) 0 ?P = splice ?v k M"
      using splice_prefix [of k "splice ?v k M"] seg_splice_before [of 0 k k M ?v] lv M(2) by simp
    ultimately show ?thesis using True lv acc(1) by (intro that [of ?P]) simp_all
  next
    case False
    then have c1: "cy = 1" using M(4) by (simp add: carry_ok_def)
    have "(dval ?P + 1) * 10 ^ (c + s) \<le> mag acc + mag val * 10 ^ s"
    proof -
      have "10 ^ c \<le> dval (seg ?v k c) + mag val" using M(5) dval_nonneg [OF M(3)] unfolding c1 mult_1_right by linarith
      then have "10 ^ c * 10 ^ s \<le> (dval (seg ?v k c) + mag val) * 10 ^ s" by simp
      moreover have "0 \<le> dval ?B" using acc(1) by simp
      ultimately show ?thesis unfolding mg by (simp add: algebra_simps power_add)
    qed
    then have "(dval ?P + 1) * 10 ^ (c + s) < 10 ^ k * 10 ^ (c + s)"
      using less kcs by (simp flip: power_add add: add.assoc)
    then have "dval ?P + 1 < 10 ^ k" by simp
    moreover have "seg (splice ?v k M) 0 k = ?P" using lv M(2) by (intro seg_splice_before) auto
    ultimately obtain P where "ripple_carry (splice ?v k M) (int k - 1) = Some (splice (splice ?v k M) 0 P)"
      "length P = k" "digits P" "dval P = dval ?P + 1"
      using ripple_carry_spec [of "splice ?v k M" k] acc(1) M(2,3) lv by auto
    then show ?thesis using False c1 accum_update(1) [OF kcs acc(3) _ M(2), of P] by (intro that [of P]) simp_all
  qed
  let ?w = "splice ?v 0 (P @ M)"
  have "rd (n_value val) 0 = Some (n_value val ! 0)" using bc_wfD(5) [OF val(1)] by (simp add: rd_def)
  moreover have count: "(if n_value val ! 0 = 0 then n_len val - 1 else n_len val) = c"
    by (simp add: c addsub_count_def)
  ultimately have run: "bc_shift_addsub acc val s False = Some (acc\<lparr>n_value := ?w\<rparr>)"
    using fit P(1) unfolding bc_shift_addsub_def Let_def acc(2) Ls
    by (simp only: M(1) Ls count c [symmetric] guard_True if_False Option.bind.simps prod.case)
  have "dval (seg ?w 0 L) = (dval P * 10 ^ c + dval M) * 10 ^ s + dval ?B"
    by (rule accum_update(2) [OF kcs acc(3) P(2) M(2)])
  also have "\<dots> = (dval ?P * 10 ^ c + (dval M + 10 ^ c * cy)) * 10 ^ s + dval ?B"
    unfolding P(4) by (simp add: algebra_simps)
  also have "\<dots> = mag acc + mag val * 10 ^ s"
    unfolding M(5) mg by (simp add: algebra_simps)
  finally show ?thesis using run acc(1) P M lv by (intro exI [of _ ?w]) simp
qed

text \<open>Subtracting in place, where the accumulator holds enough.\<close>

lemma bc_shift_sub_spec:
  assumes acc: "digits (n_value acc)" "n_len acc + n_scale acc = L" "L \<le> length (n_value acc)"
    and val: "bc_wf val" "n_scale val = 0" and fit: "s + addsub_count val \<le> L"
    and le: "mag val * 10 ^ s \<le> mag acc"
  shows "\<exists>w. bc_shift_addsub acc val s True = Some (acc\<lparr>n_value := w\<rparr>) \<and> digits w
           \<and> length w = length (n_value acc) \<and> dval (seg w 0 L) = mag acc - mag val * 10 ^ s"
proof -
  define c where c: "c = addsub_count val"
  define k where k: "k = L - s - c"
  have kcs: "k + c + s = L" using fit by (simp add: k c)
  note ac = addsub_count [OF val c]
  let ?v = "n_value acc" and ?P = "seg (n_value acc) 0 k" and ?B = "seg (n_value acc) (k + c) s"
  have Ls: "int L - int s - 1 = int (k + c) - 1" "int (k + c) - 1 - int c = int k - 1" using kcs by auto
  have lv: "k + c \<le> length ?v" using kcs acc(3) by simp
  obtain M cy where M: "digit_loop_ip sub_body c ?v (int (k + c) - 1) (n_value val) (int (n_len val) - 1) 0
      = Some (splice ?v k M, cy)" "length M = c" "digits M" "carry_ok cy"
    "dval M - 10 ^ c * cy = dval (seg ?v k c) - mag val"
    using sub_step.loop_ip [OF acc(1) bc_wfD(3) [OF val(1)], of 0 c "k + c" "n_len val"] lv ac(1)
      bc_wfD(4) [OF val(1)] ac(2) by (auto simp: carry_ok_def)
  have mg: "mag acc = (dval ?P * 10 ^ c + dval (seg ?v k c)) * 10 ^ s + dval ?B"
    using accum_parts [OF kcs acc(3)] acc(2) by (simp add: mag_def)
  obtain P where P: "(if cy = 0 then Some (splice ?v k M) else ripple_borrow (splice ?v k M) (int k - 1))
      = Some (splice ?v 0 (P @ M))" "length P = k" "digits P" "dval P = dval ?P - cy"
  proof (cases "cy = 0")
    case True
    have "splice (splice ?v k M) 0 ?P = splice ?v 0 (?P @ M)"
      using accum_update(1) [OF kcs acc(3) _ M(2), of ?P] lv by simp
    moreover have "splice (splice ?v k M) 0 ?P = splice ?v k M"
      using splice_prefix [of k "splice ?v k M"] seg_splice_before [of 0 k k M ?v] lv M(2) by simp
    ultimately show ?thesis using True lv acc(1) by (intro that [of ?P]) simp_all
  next
    case False
    then have c1: "cy = 1" using M(4) by (simp add: carry_ok_def)
    have "dval ?B < 10 ^ s" using dval_less [of ?B] acc(1,3) kcs by simp
    moreover have "(dval (seg ?v k c) - mag val) * 10 ^ s \<le> - 1 * 10 ^ s"
    proof -
      have "dval M < 10 ^ c" using dval_less [OF M(3)] M(2) by simp
      then show ?thesis using M(5) c1 by (intro mult_right_mono) simp_all
    qed
    moreover have "0 \<le> dval ?P * 10 ^ (c + s) + (dval (seg ?v k c) - mag val) * 10 ^ s + dval ?B"
      using le unfolding mg by (simp add: algebra_simps power_add)
    ultimately have "0 < dval ?P * 10 ^ (c + s)" by linarith
    then have "1 \<le> dval ?P" by (simp add: zero_less_mult_iff)
    moreover have "seg (splice ?v k M) 0 k = ?P" using lv M(2) by (intro seg_splice_before) auto
    ultimately obtain P where "ripple_borrow (splice ?v k M) (int k - 1) = Some (splice (splice ?v k M) 0 P)"
      "length P = k" "digits P" "dval P = dval ?P - 1"
      using ripple_borrow_spec [of "splice ?v k M" k] acc(1) M(2,3) lv by auto
    then show ?thesis using False c1 accum_update(1) [OF kcs acc(3) _ M(2), of P] by (intro that [of P]) simp_all
  qed
  let ?w = "splice ?v 0 (P @ M)"
  have "rd (n_value val) 0 = Some (n_value val ! 0)" using bc_wfD(5) [OF val(1)] by (simp add: rd_def)
  moreover have count: "(if n_value val ! 0 = 0 then n_len val - 1 else n_len val) = c"
    by (simp add: c addsub_count_def)
  ultimately have run: "bc_shift_addsub acc val s True = Some (acc\<lparr>n_value := ?w\<rparr>)"
    using fit P(1) unfolding bc_shift_addsub_def Let_def acc(2) Ls
    by (simp only: M(1) Ls count c [symmetric] guard_True if_True Option.bind.simps prod.case)
  have "dval (seg ?w 0 L) = (dval P * 10 ^ c + dval M) * 10 ^ s + dval ?B"
    by (rule accum_update(2) [OF kcs acc(3) P(2) M(2)])
  also have "\<dots> = (dval ?P * 10 ^ c + (dval M - 10 ^ c * cy)) * 10 ^ s + dval ?B"
    unfolding P(4) by (simp add: algebra_simps)
  also have "\<dots> = mag acc - mag val * 10 ^ s"
    unfolding M(5) mg by (simp add: algebra_simps)
  finally show ?thesis using run acc(1) P M lv by (intro exI [of _ ?w]) simp
qed

section \<open>The recursive multiplication\<close>

text \<open>Splitting a factor into its upper digits and its lower \<open>n\<close> digits.\<close>

definition mul_split :: "bc_num \<Rightarrow> nat \<Rightarrow> nat \<Rightarrow> (bc_num \<times> bc_num) option" where
  "mul_split u ulen n = (
     let (u1, u0) =
       (if ulen < n then (bc_zero, new_sub_num ulen 0 (n_value u))
        else (new_sub_num (ulen - n) 0 (n_value u), new_sub_num n 0 (drop (ulen - n) (n_value u))))
     in do {
       u1 \<leftarrow> bc_rm_leading_zeros u1;
       u0 \<leftarrow> bc_rm_leading_zeros u0;
       Some (u1, u0)
     })"

text \<open>\<^verbatim>\<open>bc_is_zero(a) || bc_is_zero(b)\<close>\<close>

definition either_zero :: "bc_num \<Rightarrow> bc_num \<Rightarrow> bool option" where
  "either_zero a b = do { za \<leftarrow> bc_is_zero a; if za then Some True else bc_is_zero b }"

text \<open>The shifted adds that put the three products together.\<close>

definition mul_combine :: "nat \<Rightarrow> nat \<Rightarrow> bool \<Rightarrow> bc_num \<Rightarrow> bc_num \<Rightarrow> bc_num \<Rightarrow> bool \<Rightarrow> bc_num option" where
  "mul_combine prodlen n m1zero m1 m2 m3 sub = do {
     let prod = bc_new_num prodlen 0;
     prod \<leftarrow> (if \<not> m1zero
        then do { prod \<leftarrow> bc_shift_addsub prod m1 (2 * n) False; bc_shift_addsub prod m1 n False }
        else Some prod);
     prod \<leftarrow> bc_shift_addsub prod m3 n False;
     prod \<leftarrow> bc_shift_addsub prod m3 0 False;
     bc_shift_addsub prod m2 n sub
   }"

lemma bc_rm_leading_zeros_mono:
  assumes "bc_rm_leading_zeros n = Some n'"
  shows "n_len n' \<le> n_len n \<and> n_sign n' = n_sign n"
  using bc_rm_leading_zeros_len [OF assms] assms
  by (auto simp: bc_rm_leading_zeros_def split: Option.bind_splits)

lemma bc_sub_len:
  assumes "n_sign n1 = n_sign n2" and "bc_sub n1 n2 sm = Some r"
  shows "n_len r \<le> max 1 (max (n_len n1) (n_len n2))"
proof -
  have "n_len r \<le> 1" if "bc_zero_of s = Some r" for s
    using bc_zero_of_spec [of s] that by auto
  with assms show ?thesis
    by (fastforce simp: bc_sub_def max.commute [of "n_len n2"] dest!: bc_do_sub_len
        split: Option.bind_splits if_splits)
qed

lemma mul_split_len:
  assumes "mul_split u ulen n = Some (u1, u0)"
  shows "n_len u0 \<le> min ulen n" "n_len u1 \<le> (if ulen < n then 1 else ulen - n)"
    "n_sign u1 = PLUS" "n_sign u0 = PLUS"
  using assms
  by (auto simp: mul_split_def new_sub_num_def bc_zero_def bc_new_num_def
      dest!: bc_rm_leading_zeros_mono split: Option.bind_splits if_splits)

function bc_rec_mul :: "bc_num \<Rightarrow> nat \<Rightarrow> bc_num \<Rightarrow> nat \<Rightarrow> bc_num option" where
  "bc_rec_mul u ulen v vlen = (
     if ulen + vlen < mul_base_digits \<or> ulen < MUL_SMALL_DIGITS \<or> vlen < MUL_SMALL_DIGITS
     then bc_simp_mul u ulen v vlen
     else do {
       let n = (max ulen vlen + 1) div 2;
       (u1, u0) \<leftarrow> mul_split u ulen n;
       (v1, v0) \<leftarrow> mul_split v vlen n;
       m1zero \<leftarrow> either_zero u1 v1;
       d1 \<leftarrow> bc_sub u1 u0 0;
       d2 \<leftarrow> bc_sub v0 v1 0;
       m1 \<leftarrow> (if m1zero then Some bc_zero else bc_rec_mul u1 (n_len u1) v1 (n_len v1));
       z2 \<leftarrow> either_zero d1 d2;
       m2 \<leftarrow> (if z2 then Some bc_zero else bc_rec_mul d1 (n_len d1) d2 (n_len d2));
       z3 \<leftarrow> either_zero u0 v0;
       m3 \<leftarrow> (if z3 then Some bc_zero else bc_rec_mul u0 (n_len u0) v0 (n_len v0));
       mul_combine (ulen + vlen + 1) n m1zero m1 m2 m3 (n_sign d1 \<noteq> n_sign d2)
     })"
  by pat_completeness auto

text \<open>The lengths of the three pairs of factors, and why they are smaller.\<close>

lemma mul_lens:
  assumes "\<not> (ulen + vlen < mul_base_digits \<or> ulen < MUL_SMALL_DIGITS \<or> vlen < MUL_SMALL_DIGITS)"
    and "n = (max ulen vlen + 1) div 2"
  shows "20 \<le> n" "ulen \<le> 2 * n" "vlen \<le> 2 * n" "n + min ulen n + min vlen n \<le> ulen + vlen + 1"
    "min ulen n + min vlen n < ulen + vlen" "1 \<le> ulen" "1 \<le> vlen"
proof -
  have n: "max ulen vlen \<le> 2 * n" "2 * n \<le> max ulen vlen + 1"
    and len: "80 \<le> ulen + vlen" "20 \<le> ulen" "20 \<le> vlen"
    using assms by (auto simp: mul_base_digits_def)
  show "1 \<le> ulen" "1 \<le> vlen" "20 \<le> n" "ulen \<le> 2 * n" "vlen \<le> 2 * n"
    using n(1) len by auto
  show "n + min ulen n + min vlen n \<le> ulen + vlen + 1"
    using n(2) by (cases "ulen \<le> vlen") (auto simp: max_def)
  then show "min ulen n + min vlen n < ulen + vlen"
    using \<open>20 \<le> n\<close> by linarith
qed

termination bc_rec_mul
proof (relation "measure (\<lambda>(u, ulen, v, vlen). ulen + vlen)", goal_cases)
  case 1
  then show ?case by simp
next
  case (2 u ulen v vlen n x u1 u0 y v1 v0 m1zero d1 d2)
  note l = mul_lens [OF 2(1,2)]
  show ?case
    using mul_split_len [OF 2(3) [folded 2(4)]] mul_split_len [OF 2(5) [folded 2(6)]] l
    by (auto split: if_splits)
next
  case (3 u ulen v vlen n x u1 u0 y v1 v0 m1zero d1 d2 m1 z2)
  note l = mul_lens [OF 3(1,2)]
  note su = mul_split_len [OF 3(3) [folded 3(4)]] and sv = mul_split_len [OF 3(5) [folded 3(6)]]
  have "n_len d1 \<le> max 1 (max (n_len u1) (n_len u0))" "n_len d2 \<le> max 1 (max (n_len v0) (n_len v1))"
    using 3(8,9) su(3,4) sv(3,4) by (auto dest!: bc_sub_len [rotated])
  then have "n_len d1 \<le> min ulen n" "n_len d2 \<le> min vlen n"
    using su(1,2) sv(1,2) l by (auto split: if_splits)
  then show ?case using l(5) by simp linarith
next
  case (4 u ulen v vlen n x u1 u0 y v1 v0 m1zero d1 d2 m1 z2 m2 z3)
  note l = mul_lens [OF 4(1,2)]
  show ?case
    using mul_split_len(1) [OF 4(3) [folded 4(4)]] mul_split_len(1) [OF 4(5) [folded 4(6)]] l(5)
    by simp linarith
qed

declare bc_rec_mul.simps [simp del]

text \<open>
  \<open>bc_multiply\<close>: the product of all digits, with the sign, the length and the scale set over
  it; digits beyond the scale stay in the buffer and are no longer part of the number.
\<close>

definition bc_multiply :: "bc_num \<Rightarrow> bc_num \<Rightarrow> nat \<Rightarrow> bc_num option" where
  "bc_multiply n1 n2 scale = (
     let len1 = n_len n1 + n_scale n1;
         len2 = n_len n2 + n_scale n2;
         full_scale = n_scale n1 + n_scale n2;
         prod_scale = min full_scale (max scale (max (n_scale n1) (n_scale n2)))
     in do {
       pval \<leftarrow> bc_rec_mul n1 len1 n2 len2;
       let pval = pval\<lparr>n_sign := (if n_sign n1 = n_sign n2 then PLUS else MINUS),
                       n_len := len2 + len1 + 1 - full_scale, n_scale := prod_scale\<rparr>;
       pval \<leftarrow> bc_rm_leading_zeros pval;
       z \<leftarrow> bc_is_zero pval;
       Some (if z then pval\<lparr>n_sign := PLUS\<rparr> else pval)
     })"

section \<open>Correctness of the multiplication\<close>

lemma mul_split_spec:
  assumes "digits (n_value u)" and "ulen \<le> length (n_value u)" and "1 \<le> ulen" and "1 \<le> n" and "ulen \<le> 2 * n"
  shows "\<exists>u1 u0. mul_split u ulen n = Some (u1, u0) \<and> bc_lead u0 \<and> n_scale u0 = 0
           \<and> bc_buf u1 \<and> n_scale u1 = 0 \<and> (bc_lead u1 \<or> n_len u1 = 0)
           \<and> mag u1 * 10 ^ n + mag u0 = dval (seg (n_value u) 0 ulen)
           \<and> (mag u1 \<noteq> 0 \<longrightarrow> n < ulen)"
proof (cases "ulen < n")
  case True
  have "bc_wf (new_sub_num ulen 0 (n_value u))" "bc_wf bc_zero" "mag bc_zero = 0"
    using assms by (simp_all add: bc_wf_def new_sub_num_def bc_zero_def bc_new_num_def mag_def seg_def digit_def)
  moreover have "mag (new_sub_num ulen 0 (n_value u)) = dval (seg (n_value u) 0 ulen)"
    by (simp add: mag_def new_sub_num_def)
  ultimately show ?thesis
    using bc_rm_leading_zeros_spec [of bc_zero] bc_rm_leading_zeros_spec [of "new_sub_num ulen 0 (n_value u)"] True
    by (auto simp: mul_split_def bc_zero_def bc_new_num_def new_sub_num_def intro: bc_wf_buf bc_leadD)
next
  case False
  let ?a = "new_sub_num (ulen - n) 0 (n_value u)" and ?b = "new_sub_num n 0 (drop (ulen - n) (n_value u))"
  have wf: "bc_wf ?b" "n_scale ?b = 0" "n_scale ?a = 0" "n_len ?a = ulen - n"
    using assms False by (simp_all add: bc_wf_def new_sub_num_def)
  have "seg (n_value u) 0 ulen = seg (n_value u) 0 (ulen - n) @ seg (n_value u) (ulen - n) n"
    using seg_append [of "n_value u" 0 "ulen - n" n] False by simp
  then have mg: "mag ?a * 10 ^ n + mag ?b = dval (seg (n_value u) 0 ulen)"
    using False assms(2) by (simp add: mag_def new_sub_num_def dval_append seg_def)
  obtain b where b: "bc_rm_leading_zeros ?b = Some b" "bc_lead b" "n_scale b = 0" "mag b = mag ?b"
    using bc_rm_leading_zeros_spec [OF wf(1)] wf(2) by auto
  show ?thesis
  proof (cases "ulen = n")
    case True
    obtain d ds where "n_value u = d # ds" using assms(2,3) by (cases "n_value u") auto
    then have "bc_rm_leading_zeros ?a = Some ?a" "bc_buf ?a" "mag ?a = 0"
      using True assms(1) by (simp_all add: bc_rm_leading_zeros_def new_sub_num_def bc_buf_def mag_def)
    then show ?thesis using b mg wf True by (auto simp: mul_split_def)
  next
    case ne: False
    then have "bc_wf ?a" using assms False by (simp add: bc_wf_def new_sub_num_def) linarith
    then obtain a where "bc_rm_leading_zeros ?a = Some a" "bc_lead a" "n_scale a = 0" "mag a = mag ?a"
      using bc_rm_leading_zeros_spec [of ?a] wf(3) by auto
    then show ?thesis using b mg False ne by (auto simp: mul_split_def dest: bc_leadD)
  qed
qed

text \<open>The differences of the halves; the upper half may have no digits at all.\<close>

lemma half_canon: "bc_lead a \<Longrightarrow> n_sign a = PLUS \<Longrightarrow> bc_canon a"
  by (simp add: bc_canon_def)

lemma half_val: "n_sign a = PLUS \<Longrightarrow> n_scale a = 0 \<Longrightarrow> bc_val a = of_int (mag a)"
  by (simp add: bc_val_def bc_abs_def)

lemma bc_sub_halves:
  assumes b: "bc_lead b" "n_sign b = PLUS" "n_scale b = 0"
    and a: "bc_buf a" "bc_lead a \<or> n_len a = 0" "n_sign a = PLUS" "n_scale a = 0"
  shows "\<exists>r. bc_sub a b 0 = Some r \<and> bc_lead r \<and> n_scale r = 0 \<and> bc_val r = of_int (mag a - mag b)"
    and "\<exists>r. bc_sub b a 0 = Some r \<and> bc_lead r \<and> n_scale r = 0 \<and> bc_val r = of_int (mag b - mag a)"
proof -
  have "(\<exists>r. bc_sub a b 0 = Some r \<and> bc_lead r \<and> n_scale r = 0 \<and> bc_val r = of_int (mag a - mag b)) \<and>
    (\<exists>r. bc_sub b a 0 = Some r \<and> bc_lead r \<and> n_scale r = 0 \<and> bc_val r = of_int (mag b - mag a))"
  proof (cases "n_len a = 0")
    case False
    then have c: "bc_canon a" "bc_canon b" using a b by (auto intro: half_canon)
    have v: "bc_val a = of_int (mag a)" "bc_val b = of_int (mag b)" using a(3,4) b(2,3) by (auto intro: half_val)
    show ?thesis
      using bc_sub_spec [OF c, of 0] bc_sub_spec [OF c(2,1), of 0] a(4) b(3)
      by (auto simp: v dest: bc_canonD)
  next
    case True
    have m0: "mag a = 0" using True a(4) by (simp add: mag_def)
    have lb: "1 \<le> n_len b" using bc_wfD(1) [OF bc_leadD [OF b(1)]] .
    have cmp: "bc_do_compare a b False False = Some (-1)" "bc_do_compare b a False False = Some 1"
      using True lb by (simp_all add: bc_do_compare_def)
    have "bc_abs a \<le> bc_abs b"
      using m0 bc_abs_nonneg [OF bc_leadD [OF b(1)]] by (simp add: bc_abs_def)
    then obtain r where r: "bc_do_sub b a 0 = Some r" "bc_lead r" "n_sign r = PLUS" "n_scale r = 0"
      "bc_abs r = bc_abs b - bc_abs a"
      using bc_do_sub_exact [OF bc_leadD [OF b(1)] a(1), of 0] True a(4) b(3) by auto
    have l: "bc_lead (r\<lparr>n_sign := s\<rparr>)" and v: "bc_val (r\<lparr>n_sign := s\<rparr>) = (if s = PLUS then bc_abs r else - bc_abs r)"
      for s using r(2) by (simp_all add: bc_lead_def bc_wf_def bc_val_def bc_abs_def mag_def)
    have "bc_abs r = of_int (mag b)" using r(5) m0 b(3) by (simp add: bc_abs_def)
    then show ?thesis using cmp r a(3) b(2) l v m0 by (simp add: bc_sub_def)
  qed
  then show "\<exists>r. bc_sub a b 0 = Some r \<and> bc_lead r \<and> n_scale r = 0 \<and> bc_val r = of_int (mag a - mag b)"
    "\<exists>r. bc_sub b a 0 = Some r \<and> bc_lead r \<and> n_scale r = 0 \<and> bc_val r = of_int (mag b - mag a)"
    by blast+
qed

text \<open>A sub-product: as many digits as both factors and a leading zero.\<close>

definition product_of :: "bc_num \<Rightarrow> nat \<Rightarrow> int \<Rightarrow> bool" where
  "product_of r k x \<longleftrightarrow> bc_wf r \<and> n_scale r = 0 \<and> n_sign r = PLUS \<and> mag r = x \<and> addsub_count r \<le> k"

lemma mag_less: "bc_lead a \<Longrightarrow> n_scale a = 0 \<Longrightarrow> mag a < 10 ^ n_len a"
  using prefix_val_0_bounds [of a] by (simp add: prefix_val_def mag_def bc_lead_def)

lemma mul_lens_split:
  fixes ulen vlen n :: nat
  assumes "n = (max ulen vlen + 1) div 2"
  shows "n \<le> ulen \<or> n \<le> vlen" "n < ulen \<Longrightarrow> n < vlen \<Longrightarrow> 3 * n \<le> ulen + vlen"
proof -
  have n: "2 * n \<le> max ulen vlen + 1" using assms by simp
  then show "n < ulen \<Longrightarrow> n < vlen \<Longrightarrow> 3 * n \<le> ulen + vlen"
    by (cases "ulen \<le> vlen") (auto simp: max_def)
  show "n \<le> ulen \<or> n \<le> vlen"
    using n by (cases "ulen \<le> vlen") (auto simp: max_def)
qed

lemma product_of_zero: "product_of bc_zero k 0"
  by (simp add: product_of_def bc_wf_def bc_zero_def bc_new_num_def addsub_count_def mag_def seg_def digit_def)

lemma addsub_count_small:
  assumes "bc_wf r" and "n_scale r = 0" and "mag r < 10 ^ k" and "n_len r = Suc k"
  shows "addsub_count r = k"
proof -
  have sg: "seg (n_value r) 0 (Suc k) = n_value r ! 0 # seg (n_value r) 1 k"
    using bc_wfD(5) [OF assms(1)] by (simp add: seg_Cons)
  have "n_value r ! 0 * 10 ^ k \<le> mag r"
    using bc_wfD(3,4) [OF assms(1)] assms(2,4) sg by (simp add: mag_def dval_Cons)
  then have "n_value r ! 0 * 10 ^ k < 1 * 10 ^ k" using assms(3) by linarith
  then have "n_value r ! 0 < 1" by (rule mult_right_less_imp_less) simp
  moreover have "0 \<le> n_value r ! 0"
    using digits_nth [OF bc_wfD(3,5) [OF assms(1)]] by (simp add: digit_def)
  ultimately show ?thesis using assms(4) by (simp add: addsub_count_def)
qed

text \<open>The accumulator of the shifted adds: all \<open>L\<close> digits are integer digits, and it holds \<open>x\<close>.\<close>

definition holds :: "bc_num \<Rightarrow> nat \<Rightarrow> int \<Rightarrow> bool" where
  "holds r L x \<longleftrightarrow> bc_wf r \<and> n_sign r = PLUS \<and> n_len r = L \<and> n_scale r = 0
     \<and> length (n_value r) = L \<and> mag r = x"

lemma holds_new: "1 \<le> L \<Longrightarrow> holds (bc_new_num L 0) L 0"
  by (simp add: holds_def bc_wf_def bc_new_num_def mag_def seg_def)

lemma holds_add:
  assumes "holds acc L x" and "product_of val k y" and "s + k \<le> L" and "x + y * 10 ^ s < 10 ^ L"
  shows "\<exists>r. bc_shift_addsub acc val s False = Some r \<and> holds r L (x + y * 10 ^ s)"
proof -
  have "\<exists>w. bc_shift_addsub acc val s False = Some (acc\<lparr>n_value := w\<rparr>) \<and> digits w
      \<and> length w = length (n_value acc) \<and> dval (seg w 0 L) = mag acc + mag val * 10 ^ s"
    using assms by (intro bc_shift_add_spec) (auto simp: holds_def product_of_def bc_wf_def)
  then show ?thesis using assms(1,2) by (auto simp: holds_def product_of_def bc_wf_def mag_def)
qed

lemma holds_sub:
  assumes "holds acc L x" and "product_of val k y" and "s + k \<le> L" and "y * 10 ^ s \<le> x"
  shows "\<exists>r. bc_shift_addsub acc val s True = Some r \<and> holds r L (x - y * 10 ^ s)"
proof -
  have "\<exists>w. bc_shift_addsub acc val s True = Some (acc\<lparr>n_value := w\<rparr>) \<and> digits w
      \<and> length w = length (n_value acc) \<and> dval (seg w 0 L) = mag acc - mag val * 10 ^ s"
    using assms by (intro bc_shift_sub_spec) (auto simp: holds_def product_of_def bc_wf_def)
  then show ?thesis using assms(1,2) by (auto simp: holds_def product_of_def bc_wf_def mag_def)
qed

lemma product_of_nonneg: "product_of m k x \<Longrightarrow> 0 \<le> x"
  by (auto simp: product_of_def dest: mag_nonneg)

lemma mul_combine_spec:
  assumes m1: "m1zero \<longrightarrow> x1 = 0" "\<not> m1zero \<longrightarrow> product_of m1 k1 x1 \<and> 2 * n + k1 \<le> L"
    and m2: "product_of m2 k x2" and m3: "product_of m3 k x3" and k: "n + k \<le> L" "1 \<le> L"
    and A: "A = x1 * 10 ^ (2 * n) + x1 * 10 ^ n + x3 * 10 ^ n + x3" "A < 10 ^ L"
    and fit: "sub \<longrightarrow> x2 * 10 ^ n \<le> A" "\<not> sub \<longrightarrow> A + x2 * 10 ^ n < 10 ^ L"
  shows "\<exists>r. mul_combine L n m1zero m1 m2 m3 sub = Some r
           \<and> holds r L (if sub then A - x2 * 10 ^ n else A + x2 * 10 ^ n)"
proof -
  have nn: "0 \<le> x3" "0 \<le> x3 * 10 ^ n" using product_of_nonneg [OF m3] by simp_all
  have x1: "0 \<le> x1" using m1 product_of_nonneg by (cases m1zero) auto
  obtain p where p: "(if \<not> m1zero
        then do { prod \<leftarrow> bc_shift_addsub (bc_new_num L 0) m1 (2 * n) False; bc_shift_addsub prod m1 n False }
        else Some (bc_new_num L 0)) = Some p" "holds p L (x1 * 10 ^ (2 * n) + x1 * 10 ^ n)"
  proof (cases m1zero)
    case True
    then show ?thesis using holds_new [OF k(2)] m1(1) that by simp
  next
    case False
    have pr: "product_of m1 k1 x1" "2 * n + k1 \<le> L" using m1(2) False by auto
    have le: "x1 * 10 ^ (2 * n) + x1 * 10 ^ n < 10 ^ L" "0 + x1 * 10 ^ (2 * n) < 10 ^ L"
      using A nn x1 zero_le_power [of "10::int" n] mult_nonneg_nonneg [of x1 "10 ^ n"] by linarith+
    obtain q where q: "bc_shift_addsub (bc_new_num L 0) m1 (2 * n) False = Some q" "holds q L (0 + x1 * 10 ^ (2 * n))"
      using holds_add [OF holds_new [OF k(2)] pr le(2)] by blast
    obtain p where "bc_shift_addsub q m1 n False = Some p" "holds p L (x1 * 10 ^ (2 * n) + x1 * 10 ^ n)"
      using holds_add [OF q(2) pr(1), of n] pr(2) le(1) by auto
    then show ?thesis using q(1) False that by simp
  qed
  obtain q where q: "bc_shift_addsub p m3 n False = Some q"
    "holds q L (x1 * 10 ^ (2 * n) + x1 * 10 ^ n + x3 * 10 ^ n)"
    using holds_add [OF p(2) m3 k(1)] A nn by fastforce
  obtain r where r: "bc_shift_addsub q m3 0 False = Some r" "holds r L A"
    using holds_add [OF q(2) m3, of 0] k(1) A by auto
  have "\<exists>s. bc_shift_addsub r m2 n sub = Some s
      \<and> holds s L (if sub then A - x2 * 10 ^ n else A + x2 * 10 ^ n)"
    using holds_add [OF r(2) m2 k(1)] holds_sub [OF r(2) m2 k(1)] fit by (cases sub) simp_all
  then show ?thesis
    unfolding mul_combine_def Let_def by (simp only: p(1) q(1) r(1) Option.bind.simps)
qed

text \<open>The accumulated sums fit: \<open>U\<close> and \<open>V\<close> are the factors, split at \<open>n\<close> digits.\<close>

lemma mul_sum_bound_low:
  fixes u0 v0 :: int
  assumes nn: "0 \<le> u0" "0 \<le> v0" and small: "u0 < 10 ^ n" "v0 < 10 ^ b" and L: "n + n + b \<le> L"
  shows "u0 * v0 * 10 ^ n + u0 * v0 < 10 ^ L"
proof -
  have "u0 * (10 ^ n + 1) \<le> (10 ^ n - 1) * (10 ^ n + 1)" using small nn by (intro mult_right_mono) auto
  also have "\<dots> < 10 ^ (n + n)" by (simp add: power_add algebra_simps)
  finally have "u0 * (10 ^ n + 1) * v0 \<le> 10 ^ (n + n) * v0" using nn by (intro mult_right_mono) auto
  also have "\<dots> < 10 ^ (n + n) * 10 ^ b" using small by simp
  also have "\<dots> \<le> 10 ^ L" using L by (simp flip: power_add)
  finally show ?thesis by (simp add: algebra_simps)
qed

lemma mul_sum_bound:
  fixes u0 u1 v0 v1 :: int
  assumes U: "u1 * 10 ^ n + u0 < 10 ^ ulen" and V: "v1 * 10 ^ n + v0 < 10 ^ vlen"
    and nn: "0 \<le> u0" "0 \<le> u1" "0 \<le> v0" "0 \<le> v1" and small: "u0 < 10 ^ n" "v0 < 10 ^ n"
    and len: "n + min ulen n + min vlen n \<le> ulen + vlen + 1" "n \<le> ulen \<or> n \<le> vlen"
    and big: "u1 \<noteq> 0 \<Longrightarrow> v1 \<noteq> 0 \<Longrightarrow> 3 * n \<le> ulen + vlen"
  shows "u1 * v1 * 10 ^ (2 * n) + u1 * v1 * 10 ^ n + u0 * v0 * 10 ^ n + u0 * v0 < 10 ^ (ulen + vlen + 1)"
proof (cases "u1 * v1 = 0")
  case True
  have "0 \<le> u1 * 10 ^ n" "0 \<le> v1 * 10 ^ n" using nn by simp_all
  then have "u0 < 10 ^ ulen" "v0 < 10 ^ vlen" using U V by linarith+
  then have "u0 < 10 ^ min ulen n" "v0 < 10 ^ min vlen n"
    using small by (simp_all add: min_def)
  then have "u0 * v0 * 10 ^ n + u0 * v0 < 10 ^ (ulen + vlen + 1)"
    using mul_sum_bound_low [OF nn(1,3), of n "min vlen n" "ulen + vlen + 1"]
      mul_sum_bound_low [OF nn(3,1), of n "min ulen n" "ulen + vlen + 1"] len small
    by (auto simp: mult.commute [of v0])
  then show ?thesis using True by auto
next
  case False
  let ?U = "u1 * 10 ^ n + u0" and ?V = "v1 * 10 ^ n + v0"
  have p: "(1::int) \<le> 10 ^ n" by simp
  have pos: "0 \<le> u1 * 10 ^ n" "0 \<le> v1 * 10 ^ n" using nn by simp_all
  have UV: "?U * ?V < 10 ^ (ulen + vlen)"
    unfolding power_add by (rule mult_strict_mono') (use U V nn pos in auto)
  have "v1 * 1 \<le> v1 * 10 ^ n" using nn p by (intro mult_left_mono) auto
  then have "u1 * 10 ^ n * v1 \<le> ?U * ?V" using nn pos by (intro mult_mono) auto
  then have "u1 * v1 * 10 ^ n \<le> ?U * ?V" by (simp only: mult_ac)
  moreover have "u0 * v0 * 10 ^ n < 10 ^ (ulen + vlen)"
  proof -
    have "u0 * v0 < 10 ^ n * 10 ^ n"  by (rule mult_strict_mono') (use small nn in auto)
    then have "u0 * v0 * 10 ^ n < 10 ^ n * 10 ^ n * 10 ^ n" by simp
    also have "\<dots> \<le> 10 ^ (ulen + vlen)" using big False by (simp flip: power_add)
    finally show ?thesis .
  qed
  moreover have "u1 * v1 * 10 ^ (2 * n) + u0 * v0 \<le> ?U * ?V"
    unfolding mult_2 power_add
    using nn pos mult_nonneg_nonneg [OF pos(1) nn(3)] mult_nonneg_nonneg [OF nn(1) pos(2)]
    by (simp add: algebra_simps)
  moreover have "(10::int) ^ (ulen + vlen + 1) = 10 * 10 ^ (ulen + vlen)" by simp
  ultimately show ?thesis using UV zero_le_power [of "10::int" "ulen + vlen"] by linarith
qed

lemma either_zero_spec:
  "bc_buf a \<Longrightarrow> bc_buf b \<Longrightarrow> either_zero a b = Some (mag a = 0 \<or> mag b = 0)"
  by (simp add: either_zero_def bc_is_zero_buf)

text \<open>A recursive product with its shortcut for zero factors.\<close>

lemma sub_product:
  assumes a: "bc_buf a" "mag a \<noteq> 0 \<longrightarrow> bc_lead a" "n_scale a = 0"
    and b: "bc_buf b" "mag b \<noteq> 0 \<longrightarrow> bc_lead b" "n_scale b = 0" and k: "n_len a + n_len b \<le> k"
    and rec: "bc_lead a \<and> bc_lead b \<longrightarrow>
      (\<exists>r. bc_rec_mul a (n_len a) b (n_len b) = Some r \<and> holds r (n_len a + n_len b + 1) (mag a * mag b))"
  shows "\<exists>z m. either_zero a b = Some z \<and> z = (mag a = 0 \<or> mag b = 0)
           \<and> (if z then Some bc_zero else bc_rec_mul a (n_len a) b (n_len b)) = Some m
           \<and> product_of m k (mag a * mag b)"
proof (cases "mag a = 0 \<or> mag b = 0")
  case True
  then have "product_of bc_zero k (mag a * mag b)" using product_of_zero by auto
  then show ?thesis
    using True either_zero_spec [OF a(1) b(1)] by (intro exI [of _ True] exI [of _ bc_zero]) simp
next
  case False
  then have l: "bc_lead a" "bc_lead b" using a b by auto
  obtain r where r: "bc_rec_mul a (n_len a) b (n_len b) = Some r"
    "holds r (n_len a + n_len b + 1) (mag a * mag b)"
    using rec l by blast
  have "mag a < 10 ^ n_len a" "mag b < 10 ^ n_len b" "0 \<le> mag a" "0 \<le> mag b"
    using prefix_val_0_bounds [OF bc_leadD [OF l(1)]] prefix_val_0_bounds [OF bc_leadD [OF l(2)]] a(3) b(3)
    by (simp_all add: prefix_val_def mag_def)
  then have "mag a * mag b < 10 ^ (n_len a + n_len b)"
    unfolding power_add by (intro mult_strict_mono')
  then have "addsub_count r = n_len a + n_len b"
    using r(2) by (intro addsub_count_small) (simp_all add: holds_def)
  then have "product_of r k (mag a * mag b)"
    using r(2) k by (simp add: holds_def product_of_def)
  then show ?thesis using either_zero_spec [OF a(1) b(1)] r(1) False by auto
qed

lemma mag_of_val:
  assumes "bc_wf r" and "n_scale r = 0" and "bc_val r = of_int x"
  shows "mag r = \<bar>x\<bar>" "mag r \<noteq> 0 \<Longrightarrow> n_sign r = (if x < 0 then MINUS else PLUS)"
proof -
  have "(if n_sign r = PLUS then mag r else - mag r) = x"
    using assms(2,3) by (auto simp: bc_val_def bc_abs_def simp flip: of_int_minus split: if_splits)
  then show "mag r = \<bar>x\<bar>" "mag r \<noteq> 0 \<Longrightarrow> n_sign r = (if x < 0 then MINUS else PLUS)"
    using mag_nonneg [OF assms(1)] sign_cases [of r] by (auto split: if_splits)
qed

text \<open>Karatsuba's identity, with the sign of the middle product split off.\<close>

lemma karatsuba:
  fixes u0 u1 v0 v1 B :: int
  assumes "x2 = \<bar>u1 - u0\<bar> * \<bar>v0 - v1\<bar>"
  shows "(u1 * B + u0) * (v1 * B + v0) = u1 * v1 * B\<^sup>2 + u1 * v1 * B + u0 * v0 * B + u0 * v0
           + (if (u1 - u0 < 0) \<noteq> (v0 - v1 < 0) then - x2 * B else x2 * B)"
proof -
  have "(if (u1 - u0 < 0) \<noteq> (v0 - v1 < 0) then - x2 else x2) = (u1 - u0) * (v0 - v1)"
    by (simp add: assms abs_if algebra_simps)
  then have "(if (u1 - u0 < 0) \<noteq> (v0 - v1 < 0) then - x2 * B else x2 * B) = (u1 - u0) * (v0 - v1) * B"
    by (metis (full_types))
  then show ?thesis by (simp add: power2_eq_square algebra_simps)
qed

text \<open>
  The recursive multiplication returns for every pair of digit strings, writes inside its
  buffers and computes the product, of one digit more than the factors together.
\<close>

lemma bc_rec_mul_step:
  assumes IH: "\<And>a b. n_len a + n_len b < ulen + vlen \<Longrightarrow> n_scale a = 0 \<Longrightarrow> n_scale b = 0 \<Longrightarrow> bc_lead a \<and> bc_lead b \<longrightarrow>
      (\<exists>r. bc_rec_mul a (n_len a) b (n_len b) = Some r \<and> holds r (n_len a + n_len b + 1) (mag a * mag b))"
    and big: "\<not> (ulen + vlen < mul_base_digits \<or> ulen < MUL_SMALL_DIGITS \<or> vlen < MUL_SMALL_DIGITS)"
    and u: "digits (n_value u)" "ulen \<le> length (n_value u)"
    and v: "digits (n_value v)" "vlen \<le> length (n_value v)"
  shows "\<exists>r. bc_rec_mul u ulen v vlen = Some r
           \<and> holds r (ulen + vlen + 1) (dval (seg (n_value u) 0 ulen) * dval (seg (n_value v) 0 vlen))"
proof -
  define n where n: "n = (max ulen vlen + 1) div 2"
  define L where L: "L = ulen + vlen + 1"
  define k where k: "k = min ulen n + min vlen n"
  note lens = mul_lens [OF big n]
  have n1: "1 \<le> n" using lens(1) by simp
  obtain u1 u0 where su: "mul_split u ulen n = Some (u1, u0)" "bc_lead u0" "n_scale u0 = 0"
    "bc_buf u1" "n_scale u1 = 0" "bc_lead u1 \<or> n_len u1 = 0"
    "mag u1 * 10 ^ n + mag u0 = dval (seg (n_value u) 0 ulen)" "mag u1 \<noteq> 0 \<longrightarrow> n < ulen"
    using mul_split_spec [OF u lens(6) n1 lens(2)] by blast
  obtain v1 v0 where sv: "mul_split v vlen n = Some (v1, v0)" "bc_lead v0" "n_scale v0 = 0"
    "bc_buf v1" "n_scale v1 = 0" "bc_lead v1 \<or> n_len v1 = 0"
    "mag v1 * 10 ^ n + mag v0 = dval (seg (n_value v) 0 vlen)" "mag v1 \<noteq> 0 \<longrightarrow> n < vlen"
    using mul_split_spec [OF v lens(7) n1 lens(3)] by blast
  note lu = mul_split_len [OF su(1)] and lv = mul_split_len [OF sv(1)]
  have nu1: "n_len u1 \<le> min ulen n" "n_len v1 \<le> min vlen n"
    using lu(2) lv(2) lens n1 by (auto split: if_splits)
  obtain d1 where d1: "bc_sub u1 u0 0 = Some d1" "bc_lead d1" "n_scale d1 = 0"
    "bc_val d1 = of_int (mag u1 - mag u0)"
    using bc_sub_halves(1) [OF su(2) lu(4) su(3) su(4,6) lu(3) su(5)] by blast
  obtain d2 where d2: "bc_sub v0 v1 0 = Some d2" "bc_lead d2" "n_scale d2 = 0"
    "bc_val d2 = of_int (mag v0 - mag v1)"
    using bc_sub_halves(2) [OF sv(2) lv(4) sv(3) sv(4,6) lv(3) sv(5)] by blast
  have ld: "n_len d1 \<le> min ulen n" "n_len d2 \<le> min vlen n"
    using bc_sub_len [OF _ d1(1)] bc_sub_len [OF _ d2(1)] lu lv nu1 lens(6,7) n1 by auto
  note md1 = mag_of_val [OF bc_leadD [OF d1(2)] d1(3,4)]
  note md2 = mag_of_val [OF bc_leadD [OF d2(2)] d2(3,4)]
  have lead1: "mag u1 \<noteq> 0 \<longrightarrow> bc_lead u1" "mag v1 \<noteq> 0 \<longrightarrow> bc_lead v1"
    using su(5,6) sv(5,6) by (auto simp: mag_def)
  let ?k1 = "n_len u1 + n_len v1"
  obtain z1 m1 where m1: "either_zero u1 v1 = Some z1" "z1 = (mag u1 = 0 \<or> mag v1 = 0)"
    "(if z1 then Some bc_zero else bc_rec_mul u1 (n_len u1) v1 (n_len v1)) = Some m1"
    "product_of m1 ?k1 (mag u1 * mag v1)"
  proof -
    have "?k1 < ulen + vlen" using nu1 lens(5) by linarith
    from sub_product [OF su(4) lead1(1) su(5) sv(4) lead1(2) sv(5) order.refl IH [OF this su(5) sv(5)]]
    show ?thesis by (elim exE conjE) (rule that)
  qed
  obtain z2 m2 where m2: "either_zero d1 d2 = Some z2"
    "(if z2 then Some bc_zero else bc_rec_mul d1 (n_len d1) d2 (n_len d2)) = Some m2"
    "product_of m2 k (mag d1 * mag d2)"
  proof -
    have le: "n_len d1 + n_len d2 \<le> k" "n_len d1 + n_len d2 < ulen + vlen" using ld lens(5) k by linarith+
    from sub_product [OF bc_lead_buf [OF d1(2)] impI [OF d1(2)] d1(3) bc_lead_buf [OF d2(2)] impI [OF d2(2)] d2(3) le(1)
        IH [OF le(2) d1(3) d2(3)]]
    show ?thesis by (elim exE conjE) (rule that)
  qed
  obtain z3 m3 where m3: "either_zero u0 v0 = Some z3"
    "(if z3 then Some bc_zero else bc_rec_mul u0 (n_len u0) v0 (n_len v0)) = Some m3"
    "product_of m3 k (mag u0 * mag v0)"
  proof -
    have le: "n_len u0 + n_len v0 \<le> k" "n_len u0 + n_len v0 < ulen + vlen"
      using lu(1) lv(1) lens(5) k by linarith+
    from sub_product [OF bc_lead_buf [OF su(2)] impI [OF su(2)] su(3) bc_lead_buf [OF sv(2)] impI [OF sv(2)] sv(3) le(1)
        IH [OF le(2) su(3) sv(3)]]
    show ?thesis by (elim exE conjE) (rule that)
  qed
  have run: "bc_rec_mul u ulen v vlen = mul_combine L n z1 m1 m2 m3 (n_sign d1 \<noteq> n_sign d2)"
    by (subst bc_rec_mul.simps)
      (simp only: big if_False n [symmetric] L [symmetric] Let_def su(1) sv(1) m1(1,3) d1(1) d2(1)
        m2(1,2) m3(1,2) Option.bind.simps prod.case)
  let ?u1 = "mag u1" and ?u0 = "mag u0" and ?v1 = "mag v1" and ?v0 = "mag v0"
  define A where A: "A = ?u1 * ?v1 * 10 ^ (2 * n) + ?u1 * ?v1 * 10 ^ n + ?u0 * ?v0 * 10 ^ n + ?u0 * ?v0"
  define x2 where x2: "x2 = mag d1 * mag d2"
  define U where U: "U = dval (seg (n_value u) 0 ulen)"
  define V where V: "V = dval (seg (n_value v) 0 vlen)"
  have nn: "0 \<le> ?u0" "0 \<le> ?u1" "0 \<le> ?v0" "0 \<le> ?v1"
    using su(2,4) sv(2,4) by (auto simp: mag_def bc_buf_def dest: bc_lead_buf)
  have small: "?u0 < 10 ^ n" "?v0 < 10 ^ n"
    using mag_less [OF su(2,3)] mag_less [OF sv(2,3)] lu(1) lv(1)
    by (auto intro: less_le_trans power_increasing)
  have UV: "0 \<le> U" "U < 10 ^ ulen" "0 \<le> V" "V < 10 ^ vlen"
    using u v dval_less [of "seg (n_value u) 0 ulen"] dval_less [of "seg (n_value v) 0 vlen"]
    by (simp_all add: U V)
  have "A < 10 ^ L"
    unfolding A L
    by (rule mul_sum_bound)
      (use nn small UV su(7,8) sv(7,8) lens(4) mul_lens_split [OF n] U V in auto)
  moreover have eq: "U * V = A + (if n_sign d1 \<noteq> n_sign d2 then - x2 * 10 ^ n else x2 * 10 ^ n)"
  proof (cases "x2 = 0")
    case True
    then show ?thesis
      using karatsuba [of x2 ?u1 ?u0 ?v0 ?v1 "10 ^ n"] md1(1) md2(1) su(7) sv(7) x2
      by (simp add: A U V power_mult mult.commute [of 2 n])
  next
    case False
    then have "n_sign d1 \<noteq> n_sign d2 \<longleftrightarrow> (?u1 - ?u0 < 0) \<noteq> (?v0 - ?v1 < 0)"
      using md1(2) md2(2) x2 by auto
    then show ?thesis
      using karatsuba [of x2 ?u1 ?u0 ?v0 ?v1 "10 ^ n"] md1(1) md2(1) su(7) sv(7) x2
      by (simp add: A U V power_mult mult.commute [of 2 n])
  qed
  have "0 \<le> U * V" "U * V < 10 ^ (ulen + vlen)"
    using UV by (simp_all add: power_add mult_strict_mono')
  then have "U * V < 10 ^ L" by (simp add: L)
  obtain r where r: "mul_combine L n z1 m1 m2 m3 (n_sign d1 \<noteq> n_sign d2) = Some r"
    "holds r L (if n_sign d1 \<noteq> n_sign d2 then A - x2 * 10 ^ n else A + x2 * 10 ^ n)"
  proof -
    have k: "n + k \<le> L" "1 \<le> L" using lens(4) by (simp_all add: k L)
    have "\<not> z1 \<Longrightarrow> 2 * n + ?k1 \<le> L"
      using m1(2) su(8) sv(8) lu(2) lv(2) by (simp add: L)
    then have one: "\<not> z1 \<longrightarrow> product_of m1 ?k1 (?u1 * ?v1) \<and> 2 * n + ?k1 \<le> L" "z1 \<longrightarrow> ?u1 * ?v1 = 0"
      using m1(2,4) by auto
    have "n_sign d1 \<noteq> n_sign d2 \<longrightarrow> x2 * 10 ^ n \<le> A" "\<not> n_sign d1 \<noteq> n_sign d2 \<longrightarrow> A + x2 * 10 ^ n < 10 ^ L"
      using eq \<open>0 \<le> U * V\<close> \<open>U * V < 10 ^ L\<close> by auto
    from mul_combine_spec [OF one(2,1) m2(3) [folded x2] m3(3) k A \<open>A < 10 ^ L\<close> this]
    show ?thesis by (elim exE conjE) (rule that)
  qed
  have "(if n_sign d1 \<noteq> n_sign d2 then A - x2 * 10 ^ n else A + x2 * 10 ^ n) = U * V"
    unfolding eq by simp
  then show ?thesis using r run by (simp add: U V L)
qed

lemma bc_rec_mul_spec:
  assumes "digits (n_value u)" and "ulen \<le> length (n_value u)"
    and "digits (n_value v)" and "vlen \<le> length (n_value v)" and "1 \<le> vlen"
  shows "\<exists>r. bc_rec_mul u ulen v vlen = Some r
           \<and> holds r (ulen + vlen + 1) (dval (seg (n_value u) 0 ulen) * dval (seg (n_value v) 0 vlen))"
  using assms
proof (induction "ulen + vlen" arbitrary: u ulen v vlen rule: less_induct)
  case less
  show ?case
  proof (cases "ulen + vlen < mul_base_digits \<or> ulen < MUL_SMALL_DIGITS \<or> vlen < MUL_SMALL_DIGITS")
    case True
    then have "bc_rec_mul u ulen v vlen = bc_simp_mul u ulen v vlen"
      by (subst bc_rec_mul.simps) (simp only: if_True)
    moreover obtain ds where "bc_simp_mul u ulen v vlen = Some ((bc_new_num (ulen + vlen + 1) 0)\<lparr>n_value := 0 # ds\<rparr>)"
      "length ds = ulen + vlen" "digits ds" "dval ds = dval (seg (n_value u) 0 ulen) * dval (seg (n_value v) 0 vlen)"
      using bc_simp_mul_spec [OF less.prems(2,4,5,1,3)] by blast
    ultimately show ?thesis
      by (auto simp: holds_def bc_wf_def bc_new_num_def mag_def dval_Cons digit_def seg_def)
  next
    case False
    show ?thesis
    proof (rule bc_rec_mul_step [OF _ False less.prems(1-4)])
      fix a b :: bc_num
      assume l: "n_len a + n_len b < ulen + vlen" and s: "n_scale a = 0" "n_scale b = 0"
      show "bc_lead a \<and> bc_lead b \<longrightarrow> (\<exists>r. bc_rec_mul a (n_len a) b (n_len b) = Some r
          \<and> holds r (n_len a + n_len b + 1) (mag a * mag b))"
        using less.hyps [OF l, where u = a and v = b] s by (auto simp: bc_lead_def bc_wf_def mag_def)
    qed
  qed
qed

text \<open>Cutting a magnitude to fewer digits is integer division.\<close>

lemma mag_cut:
  assumes "digits v" and "k + d \<le> length v"
  shows "dval (seg v 0 k) = dval (seg v 0 (k + d)) div 10 ^ d"
proof -
  have "dval (seg v 0 (k + d)) = dval (seg v 0 k) * 10 ^ d + dval (seg v k d)"
    using assms by (simp add: seg_append dval_append)
  moreover have "0 \<le> dval (seg v k d)" "dval (seg v k d) < 10 ^ d"
    using assms dval_less [of "seg v k d"] by simp_all
  ultimately show ?thesis by simp
qed

definition prod_scale :: "bc_num \<Rightarrow> bc_num \<Rightarrow> nat \<Rightarrow> nat" where
  "prod_scale n1 n2 scale =
     min (n_scale n1 + n_scale n2) (max scale (max (n_scale n1) (n_scale n2)))"

lemma bc_multiply_spec:
  assumes wf: "bc_wf n1" "bc_wf n2" and s: "s = prod_scale n1 n2 scale"
  shows "\<exists>r. bc_multiply n1 n2 scale = Some r \<and> bc_canon r \<and> n_scale r = s
           \<and> mag r = mag n1 * mag n2 div 10 ^ (n_scale n1 + n_scale n2 - s)
           \<and> (mag r \<noteq> 0 \<longrightarrow> n_sign r = (if n_sign n1 = n_sign n2 then PLUS else MINUS))"
proof -
  let ?l1 = "n_len n1 + n_scale n1" and ?l2 = "n_len n2 + n_scale n2" and ?f = "n_scale n1 + n_scale n2"
  let ?sg = "if n_sign n1 = n_sign n2 then PLUS else MINUS"
  have sf: "s \<le> ?f" by (simp add: s prod_scale_def)
  obtain p where p: "bc_rec_mul n1 ?l1 n2 ?l2 = Some p" "holds p (?l1 + ?l2 + 1) (mag n1 * mag n2)"
    using bc_rec_mul_spec [OF bc_wfD(3,2) [OF wf(1)] bc_wfD(3,2) [OF wf(2)]] bc_wfD(1) [OF wf(2)]
    by (auto simp: mag_def)
  let ?p = "p\<lparr>n_sign := ?sg, n_len := ?l2 + ?l1 + 1 - ?f, n_scale := s\<rparr>"
  have len: "n_len ?p + s + (?f - s) = ?l1 + ?l2 + 1" "1 \<le> n_len ?p" using sf by simp_all
  then have wp: "bc_wf ?p" using p(2) by (auto simp: holds_def bc_wf_def)
  have "mag ?p = mag n1 * mag n2 div 10 ^ (?f - s)"
  proof -
    have v: "digits (n_value p)" "n_len ?p + s + (?f - s) \<le> length (n_value p)"
      using p(2) unfolding len(1) by (auto simp: holds_def bc_wf_def)
    have "mag p = dval (seg (n_value p) 0 (?l1 + ?l2 + 1))" using p(2) by (simp add: holds_def mag_def)
    moreover have "mag ?p = dval (seg (n_value p) 0 (n_len ?p + s))" by (simp add: mag_def)
    ultimately show ?thesis using mag_cut [OF v, unfolded len(1)] p(2) by (simp only: holds_def)
  qed
  then obtain r where r: "bc_rm_leading_zeros ?p = Some r" "bc_lead r" "n_scale r = s" "n_sign r = ?sg"
    "mag r = mag n1 * mag n2 div 10 ^ (?f - s)"
    using bc_rm_leading_zeros_spec [OF wp] by auto
  let ?r = "if mag r = 0 then r\<lparr>n_sign := PLUS\<rparr> else r"
  have run: "bc_multiply n1 n2 scale = Some ?r"
    unfolding bc_multiply_def Let_def s [unfolded prod_scale_def, symmetric]
    by (simp only: p(1) r(1) bc_is_zero_mag [OF bc_leadD [OF r(2)]] Option.bind.simps)
  have "bc_canon ?r \<and> n_scale ?r = s \<and> mag ?r = mag r \<and> (mag ?r \<noteq> 0 \<longrightarrow> n_sign ?r = ?sg)"
    using r(2-4) by (auto simp: bc_canon_def bc_lead_def bc_wf_def mag_def)
  then show ?thesis using run r(5) by (intro exI [of _ ?r]) auto
qed

lemma truncated_val:
  assumes "bc_wf r" and "mag r = x div 10 ^ d" and "0 \<le> x" and "n_scale r + d = f"
  shows "bc_abs r \<le> of_int x / 10 ^ f" "of_int x / 10 ^ f < bc_abs r + 1 / 10 ^ n_scale r"
    "d = 0 \<Longrightarrow> bc_abs r = of_int x / 10 ^ f"
proof -
  let ?q = "x div 10 ^ d"
  have pw: "(10::rat) ^ f = 10 ^ d * 10 ^ n_scale r" by (simp add: assms(4) [symmetric] power_add)
  have "?q * 10 ^ d \<le> x" "x < (?q + 1) * 10 ^ d"
  proof -
    have "?q * 10 ^ d + x mod 10 ^ d = x" by (rule div_mult_mod_eq)
    moreover have "0 \<le> x mod 10 ^ d" "x mod 10 ^ d < 10 ^ d" by simp_all
    ultimately show "?q * 10 ^ d \<le> x" "x < (?q + 1) * 10 ^ d" unfolding distrib_right by linarith+
  qed
  then have "of_int (?q * 10 ^ d) \<le> (of_int x :: rat)" "(of_int x :: rat) < of_int ((?q + 1) * 10 ^ d)"
    by (simp_all only: of_int_le_iff of_int_less_iff)
  then show "bc_abs r \<le> of_int x / 10 ^ f" "of_int x / 10 ^ f < bc_abs r + 1 / 10 ^ n_scale r"
    "d = 0 \<Longrightarrow> bc_abs r = of_int x / 10 ^ f"
    unfolding pw bc_abs_def assms(2) by (simp_all add: field_simps)
qed

text \<open>The product is exact where its scale holds all digits, and otherwise cut towards zero.\<close>

lemma bc_multiply_val:
  assumes wf: "bc_wf n1" "bc_wf n2" and r: "bc_multiply n1 n2 scale = Some r"
  shows "bc_canon r" "n_scale r = prod_scale n1 n2 scale"
    "\<bar>bc_val r\<bar> \<le> \<bar>bc_val n1 * bc_val n2\<bar>" "\<bar>bc_val n1 * bc_val n2 - bc_val r\<bar> < 1 / 10 ^ n_scale r"
    "prod_scale n1 n2 scale = n_scale n1 + n_scale n2 \<Longrightarrow> bc_val r = bc_val n1 * bc_val n2"
proof -
  let ?f = "n_scale n1 + n_scale n2" and ?s = "prod_scale n1 n2 scale"
  show c: "bc_canon r" using bc_multiply_spec [OF wf refl, of scale] r by auto
  show sc: "n_scale r = ?s" using bc_multiply_spec [OF wf refl, of scale] r by auto
  have m: "mag r = mag n1 * mag n2 div 10 ^ (?f - ?s)"
    and sg: "mag r \<noteq> 0 \<longrightarrow> n_sign r = (if n_sign n1 = n_sign n2 then PLUS else MINUS)"
    using bc_multiply_spec [OF wf refl, of scale] r by auto
  have le: "?s \<le> ?f" by (simp add: prod_scale_def)
  have nn: "0 \<le> mag n1 * mag n2" using mag_nonneg wf by simp
  have ab: "\<bar>bc_val n1 * bc_val n2\<bar> = of_int (mag n1 * mag n2) / 10 ^ ?f"
    using wf by (simp add: bc_val_def bc_abs_def abs_mult mag_nonneg power_add)
  note t = truncated_val [OF bc_canonD(2) [OF c] m nn, of ?f, folded ab]
  have e: "n_scale r + (?f - ?s) = ?f" using sc le by simp
  have vr: "\<bar>bc_val r\<bar> = bc_abs r"
    using bc_abs_nonneg [OF bc_canonD(2) [OF c]] by (simp add: bc_val_def)
  show "\<bar>bc_val r\<bar> \<le> \<bar>bc_val n1 * bc_val n2\<bar>" using t(1) [OF e] vr by simp
  have same: "\<bar>bc_val n1 * bc_val n2 - bc_val r\<bar> = \<bar>bc_val n1 * bc_val n2\<bar> - bc_abs r"
  proof (cases "mag r = 0")
    case True
    then show ?thesis by (simp add: bc_val_def bc_abs_def)
  next
    case False
    then show ?thesis
      using sg t(1) [OF e] wf [THEN bc_abs_nonneg] bc_abs_nonneg [OF bc_canonD(2) [OF c]]
        sign_cases [of n1] sign_cases [of n2]
      by (auto simp: bc_val_def abs_mult)
  qed
  show "\<bar>bc_val n1 * bc_val n2 - bc_val r\<bar> < 1 / 10 ^ n_scale r" using same t(2) [OF e] by linarith
  show "bc_val r = bc_val n1 * bc_val n2" if "?s = ?f"
    using same t(3) [OF e] that by simp
qed

section \<open>Properties\<close>

lemma holds_inj: "holds r L x \<Longrightarrow> holds r' L x \<Longrightarrow> r = r'"
  using dval_inj [of "n_value r" "n_value r'"] seg_all [of "n_value r"] seg_all [of "n_value r'"]
  by (auto simp: holds_def mag_def bc_wf_def simp del: seg_all intro!: bc_num.equality)

lemma bc_simp_mul_holds:
  assumes "digits (n_value u)" and "ulen \<le> length (n_value u)"
    and "digits (n_value v)" and "vlen \<le> length (n_value v)" and "1 \<le> vlen"
  shows "\<exists>r. bc_simp_mul u ulen v vlen = Some r
           \<and> holds r (ulen + vlen + 1) (dval (seg (n_value u) 0 ulen) * dval (seg (n_value v) 0 vlen))"
  using bc_simp_mul_spec [OF assms(2,4,5,1,3)]
  by (auto simp: holds_def bc_wf_def bc_new_num_def mag_def dval_Cons digit_def seg_def)

text \<open>
  C28: the divide-and-conquer multiplication and the schoolbook multiplication return the same
  number, digit for digit, on all operands.
\<close>

theorem bc_rec_mul_equiv:
  assumes "digits (n_value u)" and "ulen \<le> length (n_value u)"
    and "digits (n_value v)" and "vlen \<le> length (n_value v)" and "1 \<le> vlen"
  shows "bc_rec_mul u ulen v vlen = bc_simp_mul u ulen v vlen
           \<and> bc_simp_mul u ulen v vlen \<noteq> None"
  using bc_rec_mul_spec [OF assms] bc_simp_mul_holds [OF assms] holds_inj by auto

theorem bc_rec_mul_equiv_witness:
  "bc_rec_mul (num_of PLUS (replicate 40 9) []) 40 (num_of PLUS (replicate 50 9) []) 50
     = bc_simp_mul (num_of PLUS (replicate 40 9) []) 40 (num_of PLUS (replicate 50 9) []) 50"
  using bc_rec_mul_equiv [of "num_of PLUS (replicate 40 9) []" 40 "num_of PLUS (replicate 50 9) []" 50]
  by (simp add: digits_def digit_def list_all_iff)

text \<open>
  C7: the product is canonical, its scale is the smaller of the full scale and the largest of the
  requested scale and the factors' scales, and its digits are those of the exact product, cut
  off towards zero behind that scale.
\<close>

theorem bc_multiply_correct:
  assumes "bc_wf n1" and "bc_wf n2"
  shows "\<exists>r. bc_multiply n1 n2 scale = Some r \<and> bc_canon r \<and> n_scale r = prod_scale n1 n2 scale
           \<and> \<bar>bc_val r\<bar> \<le> \<bar>bc_val n1 * bc_val n2\<bar>
           \<and> \<bar>bc_val n1 * bc_val n2 - bc_val r\<bar> < 1 / 10 ^ n_scale r
           \<and> (prod_scale n1 n2 scale = n_scale n1 + n_scale n2 \<longrightarrow> bc_val r = bc_val n1 * bc_val n2)"
proof -
  obtain r where r: "bc_multiply n1 n2 scale = Some r"
    using bc_multiply_spec [OF assms refl, of scale] by blast
  with bc_multiply_val [OF assms r] show ?thesis by blast
qed

theorem bc_multiply_correct_witness:
  "\<exists>r. bc_multiply (num_of MINUS [2] [5]) (num_of PLUS [1] [5]) 7 = Some r
     \<and> bc_canon r \<and> bc_val r = - (15 / 4) \<and> n_scale r = 2"
  using bc_multiply_correct [of "num_of MINUS [2] [5]" "num_of PLUS [1] [5]" 7]
  by (auto simp: num_of_simps prod_scale_def)

end
