(* ===== verification/BcDiv.thy ===== *)
theory BcDiv
  imports BcMul
begin

text \<open>
  Division of \<^verbatim>\<open>usr.bin/bc/number.c\<close>: the one-digit multiplication \<open>_one_mult\<close>, the long
  division \<open>bc_divide\<close> after Knuth (volume 2, algorithm D) with its quotient digit guess, its two
  tests and its add-back step, and \<open>bc_divmod\<close> and \<open>bc_modulo\<close> on top of it.
\<close>

section \<open>The code\<close>

definition one_mult_body :: "int \<Rightarrow> int \<Rightarrow> int \<Rightarrow> int \<times> int" where
  "one_mult_body m d carry = (let value = d * m + carry in (value mod BASE, value div BASE))"

definition bc_one_mult :: "int list \<Rightarrow> int \<Rightarrow> nat \<Rightarrow> int \<Rightarrow> int list \<Rightarrow> int \<Rightarrow> int list option" where
  "bc_one_mult num np sz m result rp = (
     if m = 0 then mem_set result rp 0 sz
     else if m = 1 then mem_cpy result rp num np sz
     else do {
       (result, carry) \<leftarrow> digit_loop1 (one_mult_body m) sz num (np + int sz - 1)
          result (rp + int sz - 1) 0;
       if carry \<noteq> 0 then wr result (rp - 1) carry else Some result
     })"

text \<open>\<^verbatim>\<open>It is written so that NUM and RESULT can be the same pointers.\<close>\<close>

definition bc_one_mult_ip :: "int list \<Rightarrow> int \<Rightarrow> nat \<Rightarrow> int \<Rightarrow> int list option" where
  "bc_one_mult_ip num np sz m = (
     if m = 0 then mem_set num np 0 sz
     else if m = 1 then mem_cpy num np num np sz
     else do {
       (num, carry) \<leftarrow> digit_loop1_ip (one_mult_body m) sz num (np + int sz - 1) 0;
       if carry \<noteq> 0 then wr num (np - 1) carry else Some num
     })"

text \<open>A function that returns 0 and stores results, or returns -1 and stores nothing.\<close>

datatype 'a ret = Ret_ok 'a | Ret_minus1

text \<open>\<^verbatim>\<open>while ((scale2 > 0) && (*n2ptr-- == 0)) scale2--;\<close>\<close>

fun trim_scale :: "int list \<Rightarrow> int \<Rightarrow> nat \<Rightarrow> nat option" where
  "trim_scale v p 0 = Some 0"
| "trim_scale v p (Suc scale2) = do {
     d \<leftarrow> rd v p;
     if d = 0 then trim_scale v (p - 1) scale2 else Some (Suc scale2)
   }"

text \<open>\<^verbatim>\<open>while (*n2ptr == 0) { n2ptr++; len2--; }\<close>; the number is the buffer from \<open>n2ptr\<close> on.\<close>

fun skip_zeros :: "int list \<Rightarrow> nat \<Rightarrow> (int list \<times> nat) option" where
  "skip_zeros [] len2 = None"
| "skip_zeros (d # ds) len2 = (if d = 0 then skip_zeros ds (len2 - 1) else Some (d # ds, len2))"

text \<open>The truncating copy made when the divisor is 1; the code then goes on and divides anyway.\<close>

definition bc_div_by_one :: "bc_num \<Rightarrow> bc_num \<Rightarrow> nat \<Rightarrow> bc_num option" where
  "bc_div_by_one n1 n2 scale = do {
     let qval = bc_new_num (n_len n1) scale;
     v \<leftarrow> mem_set (n_value qval) (int (n_len n1)) 0 scale;
     v \<leftarrow> mem_cpy v 0 (n_value n1) 0 (n_len n1 + min (n_scale n1) scale);
     Some (qval\<lparr>n_sign := (if n_sign n1 = n_sign n2 then PLUS else MINUS), n_value := v\<rparr>)
   }"

definition is_one_digit :: "bc_num \<Rightarrow> bool option" where
  "is_one_digit n2 = (
     if n_scale n2 = 0 \<and> n_len n2 = 1 then do { d \<leftarrow> rd (n_value n2) 0; Some (d = 1) }
     else Some False)"

text \<open>The guess of a quotient digit and its two tests.\<close>

definition guess_over :: "int \<Rightarrow> int \<Rightarrow> int \<Rightarrow> int \<Rightarrow> int \<Rightarrow> int \<Rightarrow> bool" where
  "guess_over v1 v2 u0 u1 u2 qguess \<longleftrightarrow> v2 * qguess > (u0 * 10 + u1 - v1 * qguess) * 10 + u2"

definition bc_guess :: "int list \<Rightarrow> int list \<Rightarrow> int \<Rightarrow> int option" where
  "bc_guess n2 num1 qdig = do {
     v1 \<leftarrow> rd n2 0;
     u0 \<leftarrow> rd num1 qdig;
     u1 \<leftarrow> rd num1 (qdig + 1);
     guard (v1 \<noteq> 0);
     let qguess = (if v1 = u0 then 9 else (u0 * 10 + u1) div v1);
     v2 \<leftarrow> rd n2 1;
     u2 \<leftarrow> rd num1 (qdig + 2);
     Some (if guess_over v1 v2 u0 u1 u2 qguess
           then (if guess_over v1 v2 u0 u1 u2 (qguess - 1) then qguess - 1 - 1 else qguess - 1)
           else qguess)
   }"

text \<open>One turn of the division loop: guess, multiply and subtract, add back.\<close>

definition mult_sub :: "int list \<Rightarrow> nat \<Rightarrow> int \<Rightarrow> int list \<Rightarrow> int list \<Rightarrow> int
    \<Rightarrow> (int list \<times> int list \<times> int) option" where
  "mult_sub n2 len2 qguess mval num1 qdig = (
     if qguess \<noteq> 0 then do {
       mval \<leftarrow> wr mval 0 0;
       mval \<leftarrow> bc_one_mult n2 0 len2 qguess mval 1;
       (num1, borrow) \<leftarrow> digit_loop_ip sub_body (len2 + 1) num1 (qdig + int len2) mval (int len2) 0;
       Some (num1, mval, borrow)
     } else Some (num1, mval, 0))"

definition add_back :: "int list \<Rightarrow> nat \<Rightarrow> int list \<Rightarrow> int \<Rightarrow> int list option" where
  "add_back n2 len2 num1 qdig = do {
     (num1, carry) \<leftarrow> digit_loop_ip add_body len2 num1 (qdig + int len2) n2 (int len2 - 1) 0;
     if carry = 1 then do { d \<leftarrow> rd num1 qdig; wr num1 qdig ((d + 1) mod 10) } else Some num1
   }"

definition bc_div_digit :: "int list \<Rightarrow> nat \<Rightarrow> int list \<Rightarrow> int list \<Rightarrow> int
    \<Rightarrow> (int \<times> int list \<times> int list) option" where
  "bc_div_digit n2 len2 mval num1 qdig = do {
     qguess \<leftarrow> bc_guess n2 num1 qdig;
     (num1, mval, borrow) \<leftarrow> mult_sub n2 len2 qguess mval num1 qdig;
     if borrow = 1 then do {
       num1 \<leftarrow> add_back n2 len2 num1 qdig;
       Some (qguess - 1, mval, num1)
     } else Some (qguess, mval, num1)
   }"

text \<open>The division loop: \<open>k\<close> digits are left.\<close>

fun bc_div_loop :: "nat \<Rightarrow> int list \<Rightarrow> nat \<Rightarrow> int list \<Rightarrow> int list \<Rightarrow> int \<Rightarrow> int list \<Rightarrow> int
    \<Rightarrow> int list option" where
  "bc_div_loop 0 n2 len2 mval num1 qdig qv qptr = Some qv"
| "bc_div_loop (Suc k) n2 len2 mval num1 qdig qv qptr = do {
     (qguess, mval, num1) \<leftarrow> bc_div_digit n2 len2 mval num1 qdig;
     qv \<leftarrow> wr qv qptr qguess;
     bc_div_loop k n2 len2 mval num1 (qdig + 1) qv (qptr + 1)
   }"

text \<open>Normalisation and the loop; \<open>num1\<close> has \<open>sz\<close> digits to scale.\<close>

definition bc_div_full :: "int list \<Rightarrow> nat \<Rightarrow> int list \<Rightarrow> nat \<Rightarrow> nat \<Rightarrow> int list \<Rightarrow> int \<Rightarrow> int list option" where
  "bc_div_full n2 len2 num1 sz k qv qptr = do {
     v1 \<leftarrow> rd n2 0;
     let norm = 10 div (v1 + 1);
     (num1, n2) \<leftarrow> (if norm \<noteq> 1 then do {
         num1 \<leftarrow> bc_one_mult_ip num1 0 sz norm;
         n2 \<leftarrow> bc_one_mult_ip n2 0 len2 norm;
         Some (num1, n2)
       } else Some (num1, n2));
     bc_div_loop k n2 len2 (replicate (len2 + 1) 0) num1 0 qv qptr
   }"

definition bc_divide :: "bc_num \<Rightarrow> bc_num \<Rightarrow> nat \<Rightarrow> bc_num ret option" where
  "bc_divide n1 n2 scale = do {
     z \<leftarrow> bc_is_zero n2;
     if z then Some Ret_minus1 else do {
       one \<leftarrow> is_one_digit n2;
       quot \<leftarrow> (if one then do { q \<leftarrow> bc_div_by_one n1 n2 scale; Some (Some q) } else Some None);
       scale2 \<leftarrow> trim_scale (n_value n2) (int (n_len n2 + n_scale n2) - 1) (n_scale n2);
       let len1 = n_len n1 + scale2;
       let scale1 = int (n_scale n1) - int scale2;
       let extra = (if scale1 < int scale then nat (int scale - scale1) else 0);
       num1 \<leftarrow> mem_cpy (replicate (n_len n1 + n_scale n1 + extra + 2) 0) 1 (n_value n1) 0
                  (n_len n1 + n_scale n1);
       let len2 = n_len n2 + scale2;
       num2 \<leftarrow> mem_cpy (replicate (len2 + 1) 0) 0 (n_value n2) 0 len2;
       num2 \<leftarrow> wr num2 (int len2) 0;
       (n2ptr, len2) \<leftarrow> skip_zeros num2 len2;
       let zero = (len2 > len1 + scale);
       let qdigits = (if zero \<or> len2 > len1 then scale + 1 else len1 - len2 + scale + 1);
       let qval = bc_new_num (qdigits - scale) scale;
       v \<leftarrow> mem_set (n_value qval) 0 0 qdigits;
       v \<leftarrow> (if zero then Some v
             else bc_div_full n2ptr len2 num1 (nat (int len1 + scale1 + int extra + 1))
                    (len1 + scale - len2 + 1) v (if len2 > len1 then int (len2 - len1) else 0));
       let qval = qval\<lparr>n_value := v, n_sign := (if n_sign n1 = n_sign n2 then PLUS else MINUS)\<rparr>;
       z \<leftarrow> bc_is_zero qval;
       qval \<leftarrow> bc_rm_leading_zeros (if z then qval\<lparr>n_sign := PLUS\<rparr> else qval);
       Some (Ret_ok qval)
     }
   }"

section \<open>Correctness of the one-digit multiplication\<close>

lemma one_mult_step: "digit m \<Longrightarrow> digit_step1 (one_mult_body m) m 1 (\<lambda>c. 0 \<le> c \<and> c \<le> 9)"
proof
  fix d1 c d c' :: int
  assume m: "digit m" and d: "digit d1" and c: "0 \<le> c \<and> c \<le> 9" and f: "one_mult_body m d1 c = (d, c')"
  let ?x = "d1 * m + c"
  have "d1 * m \<le> 9 * 9" using m d unfolding digit_def by (intro mult_mono) auto
  moreover have "0 \<le> d1 * m" using m d unfolding digit_def by simp
  ultimately have "d1 * m \<le> 9 * 9" "0 \<le> d1 * m" by auto
  then have "0 \<le> ?x" "?x \<le> 90" using c by auto
  moreover have "d = ?x mod 10" "c' = ?x div 10" using f by (auto simp: one_mult_body_def Let_def)
  ultimately show "digit d \<and> (0 \<le> c' \<and> c' \<le> 9) \<and> d + 10 * 1 * c' = m * d1 + 1 * c"
    by (auto simp: digit_def mult.commute)
qed

text \<open>The result in general: the low digits, and the carry in front of them if there is one.\<close>

lemma bc_one_mult_gen:
  assumes "digits num" and "digit m" and "np + n \<le> length num" and "rp + n \<le> length res"
  shows "\<exists>new c. bc_one_mult num (int np) n m res (int rp)
             = (if c \<noteq> 0 then wr (splice res rp new) (int rp - 1) c else Some (splice res rp new))
           \<and> length new = n \<and> digits new \<and> 0 \<le> c \<and> c \<le> 9
           \<and> dval new + 10 ^ n * c = m * dval (seg num np n)"
proof -
  consider "m = 0" | "m = 1" | "m \<noteq> 0" "m \<noteq> 1" by blast
  then show ?thesis
  proof cases
    case 1
    then show ?thesis
      using assms by (intro exI [of _ "replicate n 0"] exI [of _ 0]) (simp add: bc_one_mult_def buf_simps)
  next
    case 2
    then show ?thesis
      using assms by (intro exI [of _ "seg num np n"] exI [of _ 0]) (simp add: bc_one_mult_def buf_simps)
  next
    case 3
    have "np + n - n = np" "rp + n - n = rp" by simp_all
    with digit_step1.loop1 [OF one_mult_step [OF assms(2)] assms(1), of 0 n "np + n" "rp + n" res] assms(3,4)
    obtain new c where "digit_loop1 (one_mult_body m) n num (int (np + n) - 1) res (int (rp + n) - 1) 0
        = Some (splice res rp new, c)" "length new = n" "digits new" "0 \<le> c" "c \<le> 9"
      "dval new + 10 ^ n * c = m * dval (seg num np n)" by auto
    then show ?thesis
      using 3 by (intro exI [of _ new] exI [of _ c]) (simp add: bc_one_mult_def)
  qed
qed

text \<open>In place and with a second buffer the routine computes the same.\<close>

lemma bc_one_mult_same: "bc_one_mult_ip num np n m = bc_one_mult num np n m num np"
  using digit_loop1_ip_copy [of "np + int n - 1" num num "one_mult_body m" n 0]
  by (simp add: bc_one_mult_ip_def bc_one_mult_def)

lemma no_carry:
  assumes "digits new" and "length new = n" and "dval new + 10 ^ n * c = x" and "0 \<le> c" and "x < 10 ^ n"
  shows "c = 0"
proof (rule ccontr)
  assume "c \<noteq> 0"
  then have "(10::int) ^ n * 1 \<le> 10 ^ n * c" using assms(4) by (intro mult_left_mono) auto
  then show False using assms dval_nonneg [OF assms(1)] by linarith
qed

lemma bc_one_mult_ip_spec:
  assumes "digits num" and "digit m" and "n \<le> length num" and "m * dval (seg num 0 n) < 10 ^ n"
  shows "\<exists>new. bc_one_mult_ip num 0 n m = Some (splice num 0 new) \<and> length new = n \<and> digits new
           \<and> dval new = m * dval (seg num 0 n)"
proof -
  obtain new c where new: "bc_one_mult num (int 0) n m num (int 0)
      = (if c \<noteq> 0 then wr (splice num 0 new) (int 0 - 1) c else Some (splice num 0 new))"
    "length new = n" "digits new" "0 \<le> c" "dval new + 10 ^ n * c = m * dval (seg num 0 n)"
    using bc_one_mult_gen [OF assms(1,2), of 0 n 0 num] assms(3) by auto
  have "c = 0" by (rule no_carry [OF new(3,2,5,4) assms(4)])
  then show ?thesis using new by (intro exI [of _ new]) (simp add: bc_one_mult_same)
qed

text \<open>The multiple of the divisor, with one digit of room in front.\<close>

lemma bc_one_mult_mval:
  assumes "digits num" and "digit m" and "n \<le> length num" and "length mval = Suc n" and "mval ! 0 = 0"
  shows "\<exists>mv. bc_one_mult num 0 n m mval 1 = Some mv \<and> length mv = Suc n \<and> digits mv
           \<and> dval mv = m * dval (seg num 0 n)"
proof -
  obtain new c where new: "bc_one_mult num (int 0) n m mval (int 1)
      = (if c \<noteq> 0 then wr (splice mval 1 new) (int 1 - 1) c else Some (splice mval 1 new))"
    "length new = n" "digits new" "0 \<le> c" "c \<le> 9" "dval new + 10 ^ n * c = m * dval (seg num 0 n)"
    using bc_one_mult_gen [OF assms(1,2), of 0 n 1 mval] assms(3,4) by auto
  have "splice mval 1 new = 0 # new"
    using new(2) assms(4,5) by (cases mval) (auto simp: splice_def)
  then have "bc_one_mult num 0 n m mval 1 = Some (c # new)"
    using new(1) by (auto simp: wr_def)
  then show ?thesis using new(2-6) by (intro exI [of _ "c # new"]) (simp add: dval_Cons digit_def algebra_simps)
qed

section \<open>The quotient digit guess\<close>

text \<open>
  Knuth's theorems, for a divisor \<open>(10 v1 + v2) B + vr\<close> and a dividend
  \<open>(100 u0 + 10 u1 + u2) B + ur\<close> smaller than ten times the divisor: the guess is never too
  small, at most two too large once the divisor is normalised, and a guess that passes the
  test is at most one too large.
\<close>

lemma guess_not_small:
  fixes B v1 v2 vr u0 u1 u2 ur q V W :: int
  assumes V: "V = (10 * v1 + v2) * B + vr" and W: "W = (100 * u0 + 10 * u1 + u2) * B + ur"
    and B: "0 < B" and nn: "0 \<le> v2" "0 \<le> vr" "0 < v1" and u: "u2 \<le> 9" "ur < B"
    and q: "q * V \<le> W" "0 \<le> q"
  shows "q \<le> (u0 * 10 + u1) div v1"
proof -
  have "q * (10 * v1) * B \<le> q * V"
    unfolding V using q(2) B nn by (simp add: algebra_simps)
  moreover have "W < (100 * u0 + 10 * u1 + 10) * B"
  proof -
    have "u2 * B \<le> 9 * B" using u(1) B by simp
    then show ?thesis unfolding W using u(2) by (simp add: algebra_simps)
  qed
  ultimately have "q * (10 * v1) * B < (100 * u0 + 10 * u1 + 10) * B" using q(1) by linarith
  then have "q * (10 * v1) < 100 * u0 + 10 * u1 + 10" by (rule mult_right_less_imp_less) (use B in simp)
  then have "q * v1 \<le> u0 * 10 + u1" by simp
  then show ?thesis using zdiv_mono1 [of "q * v1" "u0 * 10 + u1" v1] nn(3) by simp
qed

lemma guess_over_large:
  fixes B v1 v2 vr u0 u1 u2 ur q V W :: int
  assumes V: "V = (10 * v1 + v2) * B + vr" and W: "W = (100 * u0 + 10 * u1 + u2) * B + ur"
    and B: "0 < B" and nn: "0 \<le> vr" "ur < B" "0 \<le> q" and over: "guess_over v1 v2 u0 u1 u2 q"
  shows "W < q * V"
proof -
  have "100 * u0 + 10 * u1 + u2 + 1 \<le> q * (10 * v1 + v2)"
    using over by (simp add: guess_over_def algebra_simps)
  then have "(100 * u0 + 10 * u1 + u2 + 1) * B \<le> q * (10 * v1 + v2) * B" using B by simp
  moreover have "q * (10 * v1 + v2) * B \<le> q * V"
    unfolding V using nn B by (simp add: algebra_simps)
  ultimately show ?thesis unfolding W using nn(2) by (simp add: algebra_simps)
qed

lemma guess_passed:
  fixes B v1 v2 vr u0 u1 u2 ur q V W :: int
  assumes V: "V = (10 * v1 + v2) * B + vr" and W: "W = (100 * u0 + 10 * u1 + u2) * B + ur"
    and B: "0 < B" and nn: "0 \<le> ur" "0 \<le> v2" "vr < B" "0 \<le> vr" "1 \<le> v1" and q: "0 \<le> q" "q \<le> 9"
    and passed: "\<not> guess_over v1 v2 u0 u1 u2 q"
  shows "(q - 1) * V \<le> W"
proof -
  have "q * (10 * v1 + v2) \<le> 100 * u0 + 10 * u1 + u2"
    using passed by (simp add: guess_over_def algebra_simps)
  then have "q * (10 * v1 + v2) * B \<le> (100 * u0 + 10 * u1 + u2) * B" using B by simp
  moreover have "q * vr \<le> 9 * B" using q nn(3,4) by (intro mult_mono) auto
  moreover have "10 * B \<le> V"
  proof -
    have "(10 * 1 + 0) * B \<le> (10 * v1 + v2) * B" using nn B by (intro mult_right_mono) auto
    then show ?thesis unfolding V using nn(4) by simp
  qed
  moreover have "q * V = q * (10 * v1 + v2) * B + q * vr" unfolding V by (simp add: algebra_simps)
  ultimately show ?thesis unfolding W left_diff_distrib mult_1 using nn(1) B by linarith
qed

lemma guess_two_large:
  fixes B v1 v2 vr u0 u1 u2 ur q V W :: int
  assumes V: "V = (10 * v1 + v2) * B + vr" and W: "W = (100 * u0 + 10 * u1 + u2) * B + ur"
    and B: "0 < B" and nn: "0 \<le> ur" "0 \<le> u2" "0 \<le> v2" "v2 \<le> 9" "vr < B" "0 \<le> vr" "5 \<le> v1"
    and q: "0 \<le> q" "q \<le> 9" "q * v1 \<le> u0 * 10 + u1"
  shows "(q - 2) * V \<le> W"
proof -
  have "q * v1 * (10 * B) \<le> (u0 * 10 + u1) * (10 * B)" using q(3) B by (intro mult_right_mono) auto
  moreover have "W = (u0 * 10 + u1) * (10 * B) + u2 * B + ur" unfolding W by (simp add: algebra_simps)
  moreover have "0 \<le> u2 * B" using nn(2) B by simp
  ultimately have 1: "q * v1 * (10 * B) \<le> W" using nn(1) by linarith
  have "v2 * B + vr \<le> 10 * B"
  proof -
    have "v2 * B \<le> 9 * B" using nn(4) B by simp
    then show ?thesis using nn(5) by simp
  qed
  then have "q * (v2 * B + vr) \<le> 9 * (10 * B)" using q nn B by (intro mult_mono) auto
  then have 2: "q * V \<le> W + 90 * B" unfolding V using 1 by (simp add: algebra_simps)
  have "(10 * 5 + 0) * B \<le> (10 * v1 + v2) * B" using nn B by (intro mult_right_mono) auto
  then have "50 * B \<le> V" unfolding V using nn(6) by simp
  then show ?thesis using 2 B by (simp add: left_diff_distrib)
qed

text \<open>The guess as the code computes it, from the two leading digits of the divisor.\<close>

definition guess_of :: "int \<Rightarrow> int \<Rightarrow> int \<Rightarrow> int \<Rightarrow> int \<Rightarrow> int" where
  "guess_of v1 v2 u0 u1 u2 = (
     let q = (if v1 = u0 then 9 else (u0 * 10 + u1) div v1)
     in if guess_over v1 v2 u0 u1 u2 q
        then (if guess_over v1 v2 u0 u1 u2 (q - 1) then q - 1 - 1 else q - 1) else q)"

lemma guess_of_correct:
  fixes B v1 v2 vr u0 u1 u2 ur V W :: int
  assumes V: "V = (10 * v1 + v2) * B + vr" and W: "W = (100 * u0 + 10 * u1 + u2) * B + ur"
    and B: "0 < B" and u: "0 \<le> u0" "0 \<le> u1" "0 \<le> u2" "u2 \<le> 9" "0 \<le> ur" "ur < B" "u1 \<le> 9"
    and v: "0 \<le> v2" "v2 \<le> 9" "0 \<le> vr" "vr < B" "5 \<le> v1" and lt: "W < 10 * V"
  shows "W div V \<le> guess_of v1 v2 u0 u1 u2" "guess_of v1 v2 u0 u1 u2 \<le> W div V + 1"
    "guess_of v1 v2 u0 u1 u2 \<le> 9"
proof -
  let ?q = "W div V" and ?G = "if v1 = u0 then 9 else (u0 * 10 + u1) div v1"
  have "0 < (10 * v1 + v2) * B" using v B by (simp add: zero_less_mult_iff)
  then have Vp: "0 < V" unfolding V using v(3) by simp
  have "0 \<le> (100 * u0 + 10 * u1 + u2) * B" using u B by simp
  then have Wn: "0 \<le> W" unfolding W using u(5) by simp
  have q: "?q * V \<le> W" "0 \<le> ?q" "?q \<le> 9" "W < (?q + 1) * V"
  proof -
    have "?q * V + W mod V = W" "0 \<le> W mod V" "W mod V < V" using Vp by simp_all
    then show "?q * V \<le> W" "W < (?q + 1) * V" unfolding distrib_right mult_1 by linarith+
    show "0 \<le> ?q" using Wn Vp by (simp add: pos_imp_zdiv_nonneg_iff)
    have "?q * V < 10 * V" using \<open>?q * V \<le> W\<close> lt by linarith
    then have "?q < 10" using Vp by simp
    then show "?q \<le> 9" by simp
  qed
  have low: "?q \<le> x - 1" if "W < x * V" for x
  proof -
    have "?q * V < x * V" using q(1) that by linarith
    then have "?q < x" using Vp by simp
    then show ?thesis by simp
  qed
  have high: "x \<le> ?q + c" if "(x - c) * V \<le> W" for x c
  proof -
    have "(x - c) * V < (?q + 1) * V" using q(4) that by linarith
    then have "x - c < ?q + 1" using Vp by simp
    then show ?thesis by simp
  qed
  have v1u0: "u0 \<le> v1"
  proof -
    have "100 * u0 * B \<le> W" unfolding W using u B by (simp add: algebra_simps)
    moreover have "10 * V < 100 * (v1 + 1) * B"
    proof -
      have "v2 * B \<le> 9 * B" using v(2) B by simp
      then show ?thesis unfolding V using v(4) by (simp add: algebra_simps)
    qed
    ultimately have "100 * u0 * B < 100 * (v1 + 1) * B" using lt by linarith
    then have "100 * u0 < 100 * (v1 + 1)" by (rule mult_right_less_imp_less) (use B in simp)
    then show ?thesis by simp
  qed
  have d: "(u0 * 10 + u1) div v1 * v1 \<le> u0 * 10 + u1"
    using div_mult_mod_eq [of "u0 * 10 + u1" v1] pos_mod_sign [of v1 "u0 * 10 + u1"] v(5) by linarith
  have g0: "?q \<le> ?G" "?G \<le> 9" "?G * v1 \<le> u0 * 10 + u1" "0 \<le> ?G"
  proof -
    have "?q \<le> (u0 * 10 + u1) div v1"
      using guess_not_small [OF V W B v(1,3) _ u(4,6) q(1,2)] v(5) by simp
    then show "?q \<le> ?G" using q(3) by simp
    then show "0 \<le> ?G" using q(2) by linarith
    show "?G \<le> 9"
    proof (cases "v1 = u0")
      case False
      then have "u0 * 10 + u1 < 10 * v1" using v1u0 u(7) by simp
      moreover have "(u0 * 10 + u1) div v1 * v1 \<le> u0 * 10 + u1" by (rule d)
      ultimately have "(u0 * 10 + u1) div v1 * v1 < 10 * v1" by linarith
      then show ?thesis using v(5) False by simp
    qed simp
    have "(u0 * 10 + u1) div v1 * v1 \<le> u0 * 10 + u1" by (rule d)
    then show "?G * v1 \<le> u0 * 10 + u1" using u v(5) by auto
  qed
  have g2: "?G \<le> ?q + 2"
    by (rule high) (rule guess_two_large [OF V W B u(5,3) v(1,2,4,3,5) g0(4,2,3)])
  have passed: "x \<le> ?q + 1" if "\<not> guess_over v1 v2 u0 u1 u2 x" "0 \<le> x" "x \<le> 9" for x
    by (rule high) (rule guess_passed [OF V W B u(5) v(1,4,3) _ that(2,3,1)], use v(5) in simp)
  have over: "?q \<le> x - 1" if "guess_over v1 v2 u0 u1 u2 x" "0 \<le> x" for x
    by (rule low) (rule guess_over_large [OF V W B v(3) u(6) that(2,1)])
  let ?g = "guess_of v1 v2 u0 u1 u2"
  have "?q \<le> ?g \<and> ?g \<le> ?q + 1 \<and> ?g \<le> 9"
  proof (cases "guess_over v1 v2 u0 u1 u2 ?G")
    case False
    then have "?g = ?G" by (simp add: guess_of_def)
    then show ?thesis using passed [OF False g0(4,2)] g0(1,2) by simp
  next
    case T1: True
    have 1: "?q \<le> ?G - 1" by (rule over [OF T1 g0(4)])
    show ?thesis
    proof (cases "guess_over v1 v2 u0 u1 u2 (?G - 1)")
      case False
      then have "?g = ?G - 1" using T1 by (simp only: guess_of_def Let_def if_True if_False)
      moreover have "?G - 1 \<le> ?q + 1" by (rule passed [OF False]) (use 1 q(2) g0(2) in linarith)+
      ultimately show ?thesis using 1 g0(2) by linarith
    next
      case True
      then have "?g = ?G - 1 - 1" using T1 by (simp only: guess_of_def Let_def if_True)
      moreover have "?q \<le> ?G - 1 - 1" by (rule over [OF True]) (use 1 q(2) in linarith)
      ultimately show ?thesis using g2 g0(2) by linarith
    qed
  qed
  then show "?q \<le> ?g" "?g \<le> ?q + 1" "?g \<le> 9" by auto
qed

text \<open>
  A normalised divisor: \<open>len2\<close> digits, the first at least 5, and a zero behind the last one.
\<close>

definition divisor_ok :: "int list \<Rightarrow> nat \<Rightarrow> bool" where
  "divisor_ok n2 len2 \<longleftrightarrow> digits n2 \<and> 1 \<le> len2 \<and> len2 < length n2 \<and> n2 ! len2 = 0 \<and> 5 \<le> n2 ! 0"

lemma divisor_okD:
  assumes "divisor_ok n2 len2"
  shows "digits n2" "1 \<le> len2" "len2 < length n2" "n2 ! len2 = 0" "5 \<le> n2 ! 0"
    "0 < dval (seg n2 0 len2)" "dval (seg n2 0 len2) < 10 ^ len2"
proof -
  show d: "digits n2" "1 \<le> len2" "len2 < length n2" "n2 ! len2 = 0" "5 \<le> n2 ! 0"
    using assms by (auto simp: divisor_ok_def)
  show "dval (seg n2 0 len2) < 10 ^ len2" using dval_less [of "seg n2 0 len2"] d by simp
  obtain l where l: "len2 = Suc l" using d(2) by (cases len2) auto
  have "0 < length n2" using d(3) by linarith
  then have "seg n2 0 len2 = n2 ! 0 # seg n2 1 l" using l by (simp add: seg_Cons)
  then have "dval (seg n2 0 len2) = n2 ! 0 * 10 ^ l + dval (seg n2 1 l)"
    using d(3) l by (simp add: dval_Cons)
  moreover have "0 < n2 ! 0 * 10 ^ l" using d(5) by simp
  moreover have "0 \<le> dval (seg n2 1 l)" using d(1) by simp
  ultimately show "0 < dval (seg n2 0 len2)" by linarith
qed

lemma dval_lead2:
  assumes "k + Suc (Suc l) \<le> length v"
  shows "dval (seg v k (Suc (Suc l))) = (10 * v ! k + v ! Suc k) * 10 ^ l + dval (seg v (Suc (Suc k)) l)"
  using assms by (simp add: seg_Cons dval_Cons algebra_simps)

lemma dval_lead3:
  assumes "k + Suc (Suc (Suc l)) \<le> length v"
  shows "dval (seg v k (Suc (Suc (Suc l)))) = (100 * v ! k + 10 * v ! Suc k + v ! Suc (Suc k)) * 10 ^ l
           + dval (seg v (Suc (Suc (Suc k))) l)"
  using assms by (simp add: seg_Cons dval_Cons algebra_simps)

lemma digits_bounds: "digits v \<Longrightarrow> i < length v \<Longrightarrow> 0 \<le> v ! i" "digits v \<Longrightarrow> i < length v \<Longrightarrow> v ! i \<le> 9"
  using digits_nth [of v i] by (simp_all add: digit_def)

lemma bc_guess_spec:
  assumes ok: "divisor_ok n2 len2" and num1: "digits num1" "q + len2 + 1 < length num1"
    and V: "V = dval (seg n2 0 len2)" and W: "W = dval (seg num1 q (len2 + 1))" and lt: "W < 10 * V"
  shows "\<exists>g. bc_guess n2 num1 (int q) = Some g \<and> W div V \<le> g \<and> g \<le> W div V + 1 \<and> g \<le> 9"
proof -
  note d = divisor_okD [OF ok]
  obtain l where l: "len2 = Suc l" using d(2) by (cases len2) auto
  let ?V = "dval (seg n2 0 (Suc (Suc l)))" and ?W = "dval (seg num1 q (Suc (Suc (Suc l))))"
  let ?x = "num1 ! (q + len2 + 1)"
  have V10: "?V = V * 10"
    using seg_Suc [of 0 "Suc l" n2] d(3,4) l V by (simp add: dval_snoc)
  have W10: "?W = W * 10 + ?x"
    using seg_Suc [of q "Suc (Suc l)" num1] num1(2) l W by (simp add: dval_snoc)
  have x: "0 \<le> ?x" "?x \<le> 9" using digits_bounds [OF num1] by auto
  have q: "?W div ?V = W div V"
  proof -
    have "?W div (10 * V) = ?W div 10 div V" by (rule zdiv_zmult2_eq) (simp add: V d(6) less_imp_le)
    moreover have "?W div 10 = W" unfolding W10 using x by simp
    ultimately show ?thesis unfolding V10 by (simp add: mult.commute)
  qed
  have lt': "?W < 10 * ?V" unfolding V10 W10 using lt x by simp
  let ?g = "guess_of (n2 ! 0) (n2 ! 1) (num1 ! q) (num1 ! Suc q) (num1 ! Suc (Suc q))"
  have ur: "0 \<le> dval (seg num1 (Suc (Suc (Suc q))) l)" "dval (seg num1 (Suc (Suc (Suc q))) l) < 10 ^ l"
    using num1 l dval_less [of "seg num1 (Suc (Suc (Suc q))) l"] by simp_all
  have vr: "0 \<le> dval (seg n2 2 l)" "dval (seg n2 2 l) < 10 ^ l"
    using d(1,3) l dval_less [of "seg n2 2 l"] by simp_all
  have ix: "q < length num1" "Suc q < length num1" "Suc (Suc q) < length num1" "1 < length n2"
    using num1(2) d(2,3) by simp_all
  have eqs: "?V = (10 * n2 ! 0 + n2 ! 1) * 10 ^ l + dval (seg n2 2 l)"
    "?W = (100 * num1 ! q + 10 * num1 ! Suc q + num1 ! Suc (Suc q)) * 10 ^ l + dval (seg num1 (Suc (Suc (Suc q))) l)"
    using dval_lead2 [of 0 l n2] dval_lead3 [of q l num1] d(3) num1(2) l by (simp_all add: numeral_2_eq_2)
  have "?W div ?V \<le> ?g" "?g \<le> ?W div ?V + 1" "?g \<le> 9"
    by (rule guess_of_correct [OF eqs _ digits_bounds(1) [OF num1(1) ix(1)] digits_bounds(1) [OF num1(1) ix(2)]
        digits_bounds [OF num1(1) ix(3)] ur digits_bounds(2) [OF num1(1) ix(2)] digits_bounds [OF d(1) ix(4)] vr d(5) lt'];
        simp)+
  moreover have "bc_guess n2 num1 (int q) = Some ?g"
  proof -
    have "rd num1 (int q + 1) = Some (num1 ! Suc q)" "rd num1 (int q + 2) = Some (num1 ! Suc (Suc q))"
      "rd n2 0 = Some (n2 ! 0)" "rd n2 1 = Some (n2 ! 1)" "rd num1 (int q) = Some (num1 ! q)"
      using ix by (simp_all add: rd_def nat_add_distrib) (auto simp: numeral_2_eq_2)
    then show ?thesis
      using d(5) by (simp add: bc_guess_def guess_of_def Let_def)
  qed
  ultimately show ?thesis unfolding q by blast
qed

section \<open>One turn of the division loop\<close>

lemma splice_self: "q + n \<le> length v \<Longrightarrow> splice v q (seg v q n) = v"
  by (simp add: splice_def seg_def flip: drop_drop) (metis add.commute append_take_drop_id drop_drop)

lemma mult_sub_spec:
  assumes ok: "divisor_ok n2 len2" and num1: "digits num1" "q + len2 < length num1"
    and mval: "length mval = len2 + 1" and g: "digit g"
    and V: "V = dval (seg n2 0 len2)" and W: "W = dval (seg num1 q (len2 + 1))"
  shows "\<exists>M mv b. mult_sub n2 len2 g mval num1 (int q) = Some (splice num1 q M, mv, b)
           \<and> length mv = len2 + 1 \<and> length M = len2 + 1 \<and> digits M \<and> carry_ok b
           \<and> dval M - 10 ^ (len2 + 1) * b = W - g * V"
proof (cases "g = 0")
  case True
  have "splice num1 q (seg num1 q (len2 + 1)) = num1" using num1(2) by (intro splice_self) simp
  then show ?thesis
    using True num1 mval W by (intro exI [of _ "seg num1 q (len2 + 1)"] exI [of _ mval] exI [of _ 0])
      (simp add: mult_sub_def carry_ok_def)
next
  case False
  note d = divisor_okD [OF ok]
  let ?m = "mval[0 := 0]"
  have w: "wr mval 0 0 = Some ?m" using mval by (simp add: wr_def)
  have "length ?m = Suc len2" "?m ! 0 = 0" using mval by simp_all
  from bc_one_mult_mval [OF d(1) g less_imp_le [OF d(3)] this]
  obtain mv where mv: "bc_one_mult n2 0 len2 g ?m 1 = Some mv" "length mv = Suc len2" "digits mv" "dval mv = g * V"
    unfolding V by blast
  have "len2 + 1 \<le> q + len2 + 1" "q + len2 + 1 \<le> length num1" "len2 + 1 \<le> length mv" "carry_ok 0"
    using num1(2) mv(2) by (simp_all add: carry_ok_def)
  from sub_step.loop_ip [OF num1(1) mv(3) this(4,1,2) order.refl this(3)]
  obtain M b where M: "digit_loop_ip sub_body (len2 + 1) num1 (int (q + len2 + 1) - 1) mv (int (len2 + 1) - 1) 0
      = Some (splice num1 q M, b)" "length M = len2 + 1" "digits M" "carry_ok b"
    "dval M + 10 ^ (len2 + 1) * -1 * b = 1 * W + -1 * dval (seg mv 0 (len2 + 1)) + -1 * 0"
    unfolding W by auto
  have "seg mv 0 (len2 + 1) = mv" using mv(2) seg_all [of mv] by simp
  then have "dval M - 10 ^ (len2 + 1) * b = W - g * V" using M(5) mv(4) by simp
  moreover have "mult_sub n2 len2 g mval num1 (int q) = Some (splice num1 q M, mv, b)"
    using False w mv(1) M(1) by (simp add: mult_sub_def del: digit_loop_ip.simps)
  ultimately show ?thesis using mv(2) M(2-4) by (intro exI [of _ M] exI [of _ mv] exI [of _ b]) simp
qed

lemma add_back_spec:
  assumes ok: "divisor_ok n2 len2" and num1: "digits num1" "q + len2 < length num1"
    and V: "V = dval (seg n2 0 len2)" and x: "0 \<le> x" "x < 10 ^ len2"
    and neg: "dval (seg num1 q (len2 + 1)) = x - V + 10 ^ (len2 + 1)"
  shows "\<exists>M. add_back n2 len2 num1 (int q) = Some (splice num1 q M) \<and> length M = len2 + 1 \<and> digits M \<and> dval M = x"
proof -
  note d = divisor_okD [OF ok]
  let ?T = "num1 ! q" and ?L = "seg num1 (Suc q) len2"
  have "len2 \<le> q + len2 + 1" "q + len2 + 1 \<le> length num1" "len2 \<le> length n2" "carry_ok 0"
    "q + len2 + 1 - len2 = Suc q"
    using num1(2) d(3) by (simp_all add: carry_ok_def)
  from add_step.loop_ip [OF num1(1) d(1) this(4,1,2) order.refl this(3), unfolded this(5)]
  obtain L c where L: "digit_loop_ip add_body len2 num1 (int (q + len2 + 1) - 1) n2 (int len2 - 1) 0
      = Some (splice num1 (Suc q) L, c)" "length L = len2" "digits L" "carry_ok c"
    "dval L + 10 ^ len2 * c = dval ?L + V"
    unfolding V by auto
  have "seg num1 q (len2 + 1) = ?T # ?L" using num1(2) by (simp add: seg_Cons)
  then have "?T * 10 ^ len2 + dval ?L = x - V + 10 ^ (len2 + 1)"
    using neg num1(2) by (simp add: dval_Cons)
  then have eq: "(?T + c) * 10 ^ len2 + dval L = 10 * 10 ^ len2 + x"
    using L(5) by (simp add: algebra_simps)
  have T: "0 \<le> ?T" "?T \<le> 9" using digits_bounds [OF num1(1)] num1(2) by simp_all
  have Lb: "0 \<le> dval L" "dval L < 10 ^ len2" using L(2,3) dval_less [OF L(3)] by simp_all
  have "((?T + c) * 10 ^ len2 + dval L) div 10 ^ len2 = ?T + c" using Lb by simp
  moreover have "(10 * 10 ^ len2 + x) div 10 ^ len2 = 10" using x by simp
  ultimately have Tc: "?T + c = 10" unfolding eq by simp
  then have c1: "c = 1" "?T = 9" using L(4) T by (auto simp: carry_ok_def)
  have Lx: "dval L = x" using eq unfolding Tc by simp
  have le: "Suc q + length L \<le> length num1" "q < length num1" using num1(2) L(2) by simp_all
  then have nth: "splice num1 (Suc q) L ! q = ?T" by (simp add: splice_def nth_append)
  have "(splice num1 (Suc q) L)[q := 0] = splice num1 q (0 # L)"
    using le by (simp add: splice_def list_update_append upd_conv_take_nth_drop take_Suc_conv_app_nth)
  then have "add_back n2 len2 num1 (int q) = Some (splice num1 q (0 # L))"
    using L(1) c1 nth le by (simp add: add_back_def buf_simps)
  then show ?thesis using L(2,3) Lx by (intro exI [of _ "0 # L"]) (simp add: dval_Cons digit_def)
qed

lemma bc_div_digit_spec:
  assumes ok: "divisor_ok n2 len2" and num1: "digits num1" "q + len2 + 1 < length num1"
    and mval: "length mval = len2 + 1"
    and V: "V = dval (seg n2 0 len2)" and W: "W = dval (seg num1 q (len2 + 1))" and lt: "W < 10 * V"
  shows "\<exists>M mv. bc_div_digit n2 len2 mval num1 (int q) = Some (W div V, mv, splice num1 q M)
           \<and> length mv = len2 + 1 \<and> length M = len2 + 1 \<and> digits M \<and> dval M = W mod V"
proof -
  note d = divisor_okD [OF ok]
  have q': "q + len2 < length num1" using num1(2) by simp
  have Wn: "0 \<le> W" using num1(1) by (simp add: W)
  obtain g where g: "bc_guess n2 num1 (int q) = Some g" "W div V \<le> g" "g \<le> W div V + 1" "g \<le> 9"
    using bc_guess_spec [OF ok num1 V W lt] by blast
  have Vp: "0 < V" "V < 10 ^ len2" using d(6,7) V by simp_all
  have qn: "0 \<le> W div V" using Wn Vp by (simp add: pos_imp_zdiv_nonneg_iff)
  then have dg: "digit g" using g by (simp add: digit_def)
  obtain M mv b where M: "mult_sub n2 len2 g mval num1 (int q) = Some (splice num1 q M, mv, b)"
    "length mv = len2 + 1" "length M = len2 + 1" "digits M" "carry_ok b"
    "dval M - 10 ^ (len2 + 1) * b = W - g * V"
    using mult_sub_spec [OF ok num1(1) q' mval dg V W] by blast
  have wm: "W div V * V + W mod V = W" "0 \<le> W mod V" "W mod V < V" using Vp by simp_all
  have Mb: "0 \<le> dval M" "dval M < 10 ^ (len2 + 1)" using M(3,4) dval_less [OF M(4)] by simp_all
  show ?thesis
  proof (cases "g = W div V")
    case True
    then have "dval M - 10 ^ (len2 + 1) * b = W mod V" using M(6) wm(1) unfolding True by linarith
    then have "b = 0" "dval M = W mod V" using M(5) Mb wm(2) by (auto simp: carry_ok_def)
    then show ?thesis using g(1) M True by (intro exI [of _ M] exI [of _ mv]) (simp add: bc_div_digit_def)
  next
    case False
    then have g1: "g = W div V + 1" using g(2,3) by simp
    then have e: "dval M - 10 ^ (len2 + 1) * b = W mod V - V"
      using M(6) wm(1) unfolding g1 distrib_right mult_1 by linarith
    then have b: "b = 1" using M(5) Mb(1) wm(3) by (auto simp: carry_ok_def)
    have l: "q + length M \<le> length num1" using M(3) num1(2) by simp
    have "dval (seg (splice num1 q M) q (len2 + 1)) = W mod V - V + 10 ^ (len2 + 1)"
      using e b l M(3) by simp
    from add_back_spec [OF ok _ _ V wm(2) _ this]
    obtain M' where M': "add_back n2 len2 (splice num1 q M) (int q) = Some (splice (splice num1 q M) q M')"
      "length M' = len2 + 1" "digits M'" "dval M' = W mod V"
      using num1 M(3,4) l q' wm(3) Vp(2) by auto
    have "splice (splice num1 q M) q M' = splice num1 q M'"
      using l M(3) M'(2) by (simp add: splice_def)
    then show ?thesis
      using g(1) g1 M(1,2) b M' by (intro exI [of _ M'] exI [of _ mv]) (simp add: bc_div_digit_def)
  qed
qed

lemma bc_div_loop_spec:
  assumes ok: "divisor_ok n2 len2" and "digits num1" and "q + len2 + k < length num1"
    and "length mval = len2 + 1" and V: "V = dval (seg n2 0 len2)" and "dval (seg num1 q len2) < V"
    and "p + k \<le> length qv"
  shows "\<exists>Q. bc_div_loop k n2 len2 mval num1 (int q) qv (int p) = Some (splice qv p Q)
           \<and> length Q = k \<and> digits Q \<and> dval Q = dval (seg num1 q (len2 + k)) div V"
  using assms(2-4,6,7)
proof (induction k arbitrary: q num1 mval qv p)
  case 0
  then show ?case using V by (intro exI [of _ "[]"]) simp
next
  case (Suc k)
  note d = divisor_okD [OF ok]
  let ?P = "dval (seg num1 q len2)" and ?W = "dval (seg num1 q (len2 + 1))"
  let ?R = "seg num1 (q + len2 + 1) k"
  have Vp: "0 < V" "V < 10 ^ len2" using d(6,7) V by simp_all
  have W: "?W = 10 * ?P + num1 ! (q + len2)" using Suc.prems(2) by (simp add: seg_Suc dval_snoc)
  have P: "0 \<le> ?P" using Suc.prems(1) by simp
  have x: "0 \<le> num1 ! (q + len2)" "num1 ! (q + len2) \<le> 9"
    using digits_bounds [OF Suc.prems(1)] Suc.prems(2) by simp_all
  have lt: "?W < 10 * V" "0 \<le> ?W" unfolding W using Suc.prems(4) x P by simp_all
  obtain M mv where M: "bc_div_digit n2 len2 mval num1 (int q) = Some (?W div V, mv, splice num1 q M)"
    "length mv = len2 + 1" "length M = len2 + 1" "digits M" "dval M = ?W mod V"
    using bc_div_digit_spec [OF ok Suc.prems(1) _ Suc.prems(3) V refl lt(1)] Suc.prems(2) by auto
  let ?n = "splice num1 q M"
  have lM: "q + length M \<le> length num1" using M(3) Suc.prems(2) by simp
  have dM: "dval (seg ?n (Suc q) len2) = ?W mod V"
  proof -
    obtain t T where tT: "M = t # T" using M(3) by (cases M) auto
    have T: "seg ?n (Suc q) len2 = T" using tT M(3) lM by (simp add: splice_def seg_def)
    have dt: "0 \<le> t" "digits T" "length T = len2" using M(3,4) tT by (auto simp: digit_def)
    have "t * 10 ^ len2 + dval T = ?W mod V" using M(5) tT dt(3) by (simp add: dval_Cons)
    moreover have "?W mod V < V" using Vp by simp
    ultimately have "t * 10 ^ len2 < 1 * 10 ^ len2" using Vp(2) dval_nonneg [OF dt(2)] by linarith
    then have "t < 1" by (rule mult_right_less_imp_less) simp
    then have "t = 0" using dt(1) by simp
    then show ?thesis using \<open>t * 10 ^ len2 + dval T = ?W mod V\<close> T by simp
  qed
  have q9: "digit (?W div V)"
  proof -
    have "?W div V * V \<le> ?W" using div_mult_mod_eq [of ?W V] pos_mod_sign [OF Vp(1), of ?W] by linarith
    then have "?W div V * V < 10 * V" using lt(1) by linarith
    then have "?W div V < 10" using Vp(1) by simp
    moreover have "0 \<le> ?W div V" using lt(2) Vp(1) by (simp add: pos_imp_zdiv_nonneg_iff)
    ultimately show ?thesis by (simp add: digit_def)
  qed
  have "\<exists>Q. bc_div_loop k n2 len2 mv ?n (int (Suc q)) (qv[p := ?W div V]) (int (Suc p))
        = Some (splice (qv[p := ?W div V]) (Suc p) Q)
      \<and> length Q = k \<and> digits Q \<and> dval Q = dval (seg ?n (Suc q) (len2 + k)) div V"
    using Suc.prems(1,2,5) M lM dM Vp(1) by (intro Suc.IH) simp_all
  then obtain Q where Q: "bc_div_loop k n2 len2 mv ?n (int (Suc q)) (qv[p := ?W div V]) (int (Suc p))
        = Some (splice (qv[p := ?W div V]) (Suc p) Q)" "length Q = k" "digits Q"
      "dval Q = dval (seg ?n (Suc q) (len2 + k)) div V" by blast
  have R: "seg ?n (Suc q + len2) k = ?R" using M(3) lM by (simp add: seg_splice_after)
  have lR: "length ?R = k" using Suc.prems(2) by simp
  have rest: "dval (seg ?n (Suc q) (len2 + k)) = ?W mod V * 10 ^ k + dval ?R"
    unfolding seg_append dval_append R dM lR by simp
  have all: "dval (seg num1 q (len2 + Suc k)) = ?W * 10 ^ k + dval ?R"
    using seg_append [of num1 q "len2 + 1" k] lR by (simp add: dval_append add.assoc)
  have "dval (seg num1 q (len2 + Suc k)) = (?W mod V * 10 ^ k + dval ?R) + ?W div V * 10 ^ k * V"
  proof -
    have "?W * 10 ^ k = (?W div V * V + ?W mod V) * 10 ^ k" by (simp only: div_mult_mod_eq)
    then show ?thesis unfolding all distrib_right by (simp only: mult_ac add_ac)
  qed
  then have "dval (seg num1 q (len2 + Suc k)) div V = ?W div V * 10 ^ k + dval Q"
    unfolding Q(4) rest using Vp(1) by simp
  moreover have "bc_div_loop (Suc k) n2 len2 mval num1 (int q) qv (int p) = Some (splice qv p (?W div V # Q))"
  proof -
    have "splice (qv[p := ?W div V]) (Suc p) Q = splice qv p (?W div V # Q)"
      using Suc.prems(5) by (simp add: splice_def take_Suc_conv_app_nth)
    moreover have "int q + 1 = int (Suc q)" "int p + 1 = int (Suc p)" by simp_all
    ultimately show ?thesis
      using M(1) Q(1) Suc.prems(5) wr_nat [of p qv]
      by (simp only: bc_div_loop.simps Option.bind.simps prod.case)
  qed
  ultimately show ?case
    using Q(2,3) q9 by (intro exI [of _ "?W div V # Q"]) (simp add: dval_Cons)
qed

section \<open>Normalisation\<close>

lemma div_div_cut: "(0::int) < b \<Longrightarrow> x div a div b = x div (a * b)"
  by (rule zdiv_zmult2_eq [symmetric]) simp

lemma div_mult_low: "(0::int) < b \<Longrightarrow> x div b * b \<le> x"
  using div_mult_mod_eq [of x b] pos_mod_sign [of b x] by linarith

lemma lead_digit_bounds:
  assumes "digits v" and "1 \<le> n" and "n \<le> length v"
  shows "v ! 0 * 10 ^ (n - 1) \<le> dval (seg v 0 n)" "dval (seg v 0 n) < (v ! 0 + 1) * 10 ^ (n - 1)"
proof -
  obtain l where l: "n = Suc l" using assms(2) by (cases n) auto
  have "0 < length v" using assms by linarith
  then have "seg v 0 n = v ! 0 # seg v 1 l" using l by (simp add: seg_Cons)
  then have "dval (seg v 0 n) = v ! 0 * 10 ^ l + dval (seg v 1 l)" using assms(3) l by (simp add: dval_Cons)
  moreover have "0 \<le> dval (seg v 1 l)" "dval (seg v 1 l) < 10 ^ l"
    using assms(1,3) l dval_less [of "seg v 1 l"] by simp_all
  ultimately show "v ! 0 * 10 ^ (n - 1) \<le> dval (seg v 0 n)" "dval (seg v 0 n) < (v ! 0 + 1) * 10 ^ (n - 1)"
    using l by (simp_all add: algebra_simps)
qed

lemma lead_nonzero_bound:
  assumes "digits v" and "1 \<le> n" and "n \<le> length v" and "v ! 0 \<noteq> 0"
  shows "10 ^ (n - 1) \<le> dval (seg v 0 n)"
proof -
  have "0 < length v" using assms by linarith
  then have "1 \<le> v ! 0" using digits_bounds(1) [OF assms(1), of 0] assms(4) by simp
  then have "1 * 10 ^ (n - 1) \<le> v ! 0 * 10 ^ (n - 1)" by (rule mult_right_mono) simp
  then show ?thesis using lead_digit_bounds(1) [OF assms(1-3)] by linarith
qed

definition normalised :: "int list \<Rightarrow> nat \<Rightarrow> int list \<Rightarrow> nat \<Rightarrow> (int list \<times> int list) option" where
  "normalised n2 len2 num1 sz = do {
     v1 \<leftarrow> rd n2 0;
     let norm = 10 div (v1 + 1);
     (if norm \<noteq> 1 then do {
         num1 \<leftarrow> bc_one_mult_ip num1 0 sz norm;
         n2 \<leftarrow> bc_one_mult_ip n2 0 len2 norm;
         Some (num1, n2)
       } else Some (num1, n2))
   }"

lemma norm_cases:
  assumes "1 \<le> v1" and "v1 \<le> (9::int)" and "m = 10 div (v1 + 1)"
  shows "1 \<le> m" "m \<le> 5" "m * (v1 + 1) \<le> 10" "5 \<le> m * v1" "m = 1 \<Longrightarrow> 5 \<le> v1"
proof -
  have "v1 \<in> {1, 2, 3, 4, 5, 6, 7, 8, 9}" using assms(1,2) by auto
  then show "1 \<le> m" "m \<le> 5" "m * (v1 + 1) \<le> 10" "5 \<le> m * v1" "m = 1 \<Longrightarrow> 5 \<le> v1"
    unfolding assms(3) by auto
qed

lemma normalised_spec:
  assumes n2: "digits n2" "1 \<le> len2" "len2 < length n2" "n2 ! len2 = 0" "n2 ! 0 \<noteq> 0"
    and num1: "digits num1" "1 \<le> sz" "sz \<le> length num1" "num1 ! 0 = 0"
  shows "\<exists>m a b. normalised n2 len2 num1 sz = Some (a, b) \<and> 1 \<le> m \<and> divisor_ok b len2
           \<and> dval (seg b 0 len2) = m * dval (seg n2 0 len2) \<and> digits a \<and> length a = length num1
           \<and> dval (seg a 0 sz) = m * dval (seg num1 0 sz)"
proof -
  let ?m = "10 div (n2 ! 0 + 1)" and ?v = "dval (seg n2 0 len2)" and ?X = "dval (seg num1 0 sz)"
  have l0: "0 < length n2" using n2(3) by linarith
  have d0: "1 \<le> n2 ! 0" "n2 ! 0 \<le> 9" using digits_bounds [OF n2(1) l0] n2(5) by auto
  note m = norm_cases [OF d0 refl]
  have rd: "rd n2 0 = Some (n2 ! 0)" using l0 by (simp add: rd_def)
  note vb = lead_digit_bounds [OF n2(1,2) less_imp_le [OF n2(3)]]
  show ?thesis
  proof (cases "?m = 1")
    case True
    have "normalised n2 len2 num1 sz = Some (num1, n2)" using rd True by (simp add: normalised_def)
    moreover have "divisor_ok n2 len2" using n2 m(5) [OF True] by (simp add: divisor_ok_def)
    ultimately show ?thesis using num1 by (intro exI [of _ 1] exI [of _ num1] exI [of _ n2]) simp
  next
    case False
    have dm: "digit ?m" using m(1,2) by (simp add: digit_def)
    have "?X < 10 ^ (sz - 1)" "0 \<le> ?X" using lead_digit_bounds(2) [OF num1(1-3)] num1(1,4) by simp_all
    then have "?m * ?X < 10 * 10 ^ (sz - 1)"
      using m(1,2) by (intro mult_strict_mono') auto
    then have "?m * ?X < 10 ^ sz" using num1(2) by (simp flip: power_Suc)
    then obtain A where A: "bc_one_mult_ip num1 0 sz ?m = Some (splice num1 0 A)" "length A = sz" "digits A"
      "dval A = ?m * ?X"
      using bc_one_mult_ip_spec [OF num1(1) dm num1(3)] by blast
    have "?m * ?v < ?m * ((n2 ! 0 + 1) * 10 ^ (len2 - 1))" using vb(2) m(1) by (intro mult_strict_left_mono) auto
    also have "\<dots> = ?m * (n2 ! 0 + 1) * 10 ^ (len2 - 1)" by simp
    also have "\<dots> \<le> 10 * 10 ^ (len2 - 1)" using m(3) by (intro mult_right_mono) auto
    also have "\<dots> = 10 ^ len2" using n2(2) by (simp flip: power_Suc)
    finally obtain B where B: "bc_one_mult_ip n2 0 len2 ?m = Some (splice n2 0 B)" "length B = len2" "digits B"
      "dval B = ?m * ?v"
      using bc_one_mult_ip_spec [OF n2(1) dm less_imp_le [OF n2(3)]] by blast
    let ?a = "splice num1 0 A" and ?b = "splice n2 0 B"
    have b: "digits ?b" "length ?b = length n2" "?b ! len2 = 0" "seg ?b 0 len2 = B"
      using n2 B(2,3) by (simp_all add: splice_def nth_append seg_def)
    have "5 * 10 ^ (len2 - 1) \<le> ?m * (n2 ! 0) * 10 ^ (len2 - 1)" using m(4) by (intro mult_right_mono) auto
    also have "\<dots> = ?m * (n2 ! 0 * 10 ^ (len2 - 1))" by simp
    also have "\<dots> \<le> ?m * ?v" using vb(1) m(1) by (intro mult_left_mono) auto
    also have "\<dots> < (?b ! 0 + 1) * 10 ^ (len2 - 1)"
      using lead_digit_bounds(2) [OF b(1) n2(2)] b(2,4) n2(3) B(4) by simp
    finally have "5 < ?b ! 0 + 1" by (rule mult_right_less_imp_less) simp
    then have "divisor_ok ?b len2" using b n2(2,3) by (simp add: divisor_ok_def)
    moreover have "normalised n2 len2 num1 sz = Some (?a, ?b)"
      using rd False A(1) B(1) by (simp add: normalised_def)
    moreover have "seg ?a 0 sz = A" "digits ?a" "length ?a = length num1"
      using A(2,3) num1 by (simp_all add: splice_def seg_def)
    ultimately show ?thesis
      using m(1) A(4) B(4) b(4) by (intro exI [of _ ?m] exI [of _ ?a] exI [of _ ?b]) simp
  qed
qed

lemma bc_div_full_normalised:
  "bc_div_full n2 len2 num1 sz k qv qptr = do {
     (num1, n2) \<leftarrow> normalised n2 len2 num1 sz;
     bc_div_loop k n2 len2 (replicate (len2 + 1) 0) num1 0 qv qptr
   }"
  by (simp add: bc_div_full_def normalised_def Let_def)

lemma bc_div_full_spec:
  assumes n2: "digits n2" "1 \<le> len2" "len2 < length n2" "n2 ! len2 = 0" "n2 ! 0 \<noteq> 0"
    and num1: "digits num1" "sz < length num1" "num1 ! 0 = 0" and k: "len2 + k \<le> sz" "p + k \<le> length qv"
  shows "\<exists>Q. bc_div_full n2 len2 num1 sz k qv (int p) = Some (splice qv p Q) \<and> length Q = k \<and> digits Q
           \<and> dval Q = dval (seg num1 0 (len2 + k)) div dval (seg n2 0 len2)"
proof -
  let ?v = "dval (seg n2 0 len2)" and ?X = "dval (seg num1 0 sz)" and ?t = "sz - (len2 + k)"
  have sz: "1 \<le> sz" "sz \<le> length num1" using k(1) n2(2) num1(2) by simp_all
  obtain m a b where ab: "normalised n2 len2 num1 sz = Some (a, b)" "1 \<le> m" "divisor_ok b len2"
    "dval (seg b 0 len2) = m * ?v" "digits a" "length a = length num1" "dval (seg a 0 sz) = m * ?X"
    using normalised_spec [OF n2 num1(1) sz num1(3)] by blast
  have vp: "10 ^ (len2 - 1) \<le> ?v"
    by (rule lead_nonzero_bound [OF n2(1,2) less_imp_le [OF n2(3)] n2(5)])
  then have vpos: "0 < ?v" using zero_less_power [of "10::int" "len2 - 1"] by linarith
  have cut: "dval (seg w 0 j) = dval (seg w 0 sz) div 10 ^ (sz - j)" if "digits w" "sz \<le> length w" "j \<le> sz" for w j
    using mag_cut [of w j "sz - j"] that by simp
  have X: "?X < 10 ^ (sz - 1)" using lead_digit_bounds(2) [OF num1(1) sz] num1(3) by simp
  have "dval (seg a 0 len2) < m * ?v"
  proof -
    have "?X < 10 ^ (len2 - 1) * 10 ^ (sz - len2)"
      using X n2(2) k(1) by (simp flip: power_add)
    also have "\<dots> \<le> ?v * 10 ^ (sz - len2)" using vp by (intro mult_right_mono) auto
    finally have "m * ?X < m * (?v * 10 ^ (sz - len2))" using ab(2) by simp
    moreover have "dval (seg a 0 len2) = m * ?X div 10 ^ (sz - len2)"
      using cut [OF ab(5), of len2] ab(6,7) sz k(1) by simp
    moreover have "m * ?X div 10 ^ (sz - len2) * 10 ^ (sz - len2) \<le> m * ?X"
      by (rule div_mult_low) simp
    ultimately have "dval (seg a 0 len2) * 10 ^ (sz - len2) < m * ?v * 10 ^ (sz - len2)" by (simp only: mult.assoc)
    then show ?thesis by (rule mult_right_less_imp_less) simp
  qed
  then obtain Q where Q: "bc_div_loop k b len2 (replicate (len2 + 1) 0) a (int 0) qv (int p) = Some (splice qv p Q)"
    "length Q = k" "digits Q" "dval Q = dval (seg a 0 (len2 + k)) div (m * ?v)"
    using bc_div_loop_spec [OF ab(3,5), of 0 k "replicate (len2 + 1) 0" "m * ?v" p qv] ab(4,6) k num1(2) by auto
  have "dval (seg a 0 (len2 + k)) div (m * ?v) = m * ?X div 10 ^ ?t div (m * ?v)"
    using cut [OF ab(5), of "len2 + k"] ab(6,7) sz(2) k(1) by simp
  also have "\<dots> = m * ?X div (m * (10 ^ ?t * ?v))"
    using ab(2) vpos by (subst div_div_cut) (simp_all add: mult_ac zero_less_mult_iff)
  also have "\<dots> = ?X div (10 ^ ?t * ?v)" using ab(2) by simp
  also have "\<dots> = ?X div 10 ^ ?t div ?v" using vpos by (simp add: div_div_cut)
  also have "\<dots> = dval (seg num1 0 (len2 + k)) div ?v"
    using cut [OF num1(1), of "len2 + k"] sz(2) k(1) by simp
  finally show ?thesis
    using Q ab(1) by (intro exI [of _ Q]) (simp add: bc_div_full_normalised)
qed

section \<open>Setting up the operands\<close>

lemma trim_scale_spec:
  assumes "digits v" and "l + s \<le> length v"
  shows "\<exists>s2 \<le> s. trim_scale v (int (l + s) - 1) s = Some s2
           \<and> dval (seg v 0 (l + s)) = dval (seg v 0 (l + s2)) * 10 ^ (s - s2)"
  using assms
proof (induction s)
  case 0
  then show ?case by simp
next
  case (Suc s)
  have rd: "rd v (int (l + Suc s) - 1) = Some (v ! (l + s))"
    using Suc.prems(2) rd_pred [of "l + s" v] by simp
  show ?case
  proof (cases "v ! (l + s) = 0")
    case True
    obtain s2 where s2: "s2 \<le> s" "trim_scale v (int (l + s) - 1) s = Some s2"
      "dval (seg v 0 (l + s)) = dval (seg v 0 (l + s2)) * 10 ^ (s - s2)"
      using Suc by auto
    have "dval (seg v 0 (l + Suc s)) = dval (seg v 0 (l + s)) * 10"
      using Suc.prems(2) True seg_Suc [of 0 "l + s" v] by (simp add: dval_snoc)
    also have "\<dots> = dval (seg v 0 (l + s2)) * 10 ^ (Suc s - s2)"
      unfolding s2(3) using s2(1) by (simp add: Suc_diff_le)
    finally have "dval (seg v 0 (l + Suc s)) = dval (seg v 0 (l + s2)) * 10 ^ (Suc s - s2)" .
    moreover have "trim_scale v (int (l + Suc s) - 1) (Suc s) = Some s2"
    proof -
      have "int (l + Suc s) - 1 - 1 = int (l + s) - 1" by simp
      then show ?thesis using s2(2) True rd by (simp only: trim_scale.simps Option.bind.simps simp_thms if_True)
    qed
    ultimately show ?thesis using s2(1) by (intro exI [of _ s2]) simp
  next
    case False
    then have "trim_scale v (int (l + Suc s) - 1) (Suc s) = Some (Suc s)"
      using rd by (simp only: trim_scale.simps Option.bind.simps if_False)
    then show ?thesis by (intro exI [of _ "Suc s"]) simp
  qed
qed

lemma skip_zeros_spec:
  assumes "digits v" and "len \<le> length v" and "dval (seg v 0 len) \<noteq> 0"
  shows "\<exists>z < len. skip_zeros v len = Some (drop z v, len - z) \<and> v ! z \<noteq> 0
           \<and> dval (seg (drop z v) 0 (len - z)) = dval (seg v 0 len)"
  using assms
proof (induction v len rule: skip_zeros.induct)
  case (1 len)
  then show ?case by simp
next
  case (2 d ds len)
  have "len \<noteq> 0" using 2(4) by (cases len) auto
  then obtain l where l: "len = Suc l" by (cases len) auto
  show ?case
  proof (cases "d = 0")
    case False
    then show ?thesis using l by (intro exI [of _ 0]) simp
  next
    case True
    have e: "dval (seg (d # ds) 0 len) = dval (seg ds 0 l)"
      using True l by (simp add: seg_def dval_Cons)
    obtain z where "z < l" "skip_zeros ds l = Some (drop z ds, l - z)" "ds ! z \<noteq> 0"
      "dval (seg (drop z ds) 0 (l - z)) = dval (seg ds 0 l)"
      using 2(1) [OF True] 2(2-4) l e by auto
    then show ?thesis using True l e by (intro exI [of _ "Suc z"]) simp
  qed
qed

section \<open>Correctness of the division\<close>

text \<open>The quotient of the magnitudes at a scale, cut towards zero.\<close>

definition quot_mag :: "bc_num \<Rightarrow> bc_num \<Rightarrow> nat \<Rightarrow> int" where
  "quot_mag n1 n2 scale = mag n1 * 10 ^ (scale + n_scale n2) div (mag n2 * 10 ^ n_scale n1)"

lemma quot_mag_set_up:
  assumes v: "mag n2 = v * 10 ^ (n_scale n2 - s2)" and s2: "s2 \<le> n_scale n2"
    and ex: "extra = (if int (n_scale n1) - int s2 < int scale then nat (int scale - (int (n_scale n1) - int s2)) else 0)"
    and vp: "0 < v"
  shows "(mag n1 * 10 ^ extra) div 10 ^ (n_scale n1 + extra - (s2 + scale)) div v = quot_mag n1 n2 scale"
proof -
  let ?e = "n_scale n2 - s2" and ?s1 = "n_scale n1"
  have m2: "mag n2 * 10 ^ ?s1 = v * 10 ^ (?e + ?s1)" unfolding v by (simp add: power_add)
  show ?thesis
  proof (cases "?s1 < s2 + scale")
    case True
    then have ex': "extra + ?s1 = scale + s2" using ex by auto
    then have t: "?s1 + extra - (s2 + scale) = 0" "scale + n_scale n2 = extra + (?e + ?s1)" using s2 by simp_all
    have e: "mag n1 * 10 ^ (scale + n_scale n2) = mag n1 * 10 ^ extra * 10 ^ (?e + ?s1)"
      unfolding t(2) power_add [of 10 extra] by (rule mult.assoc [symmetric])
    show ?thesis unfolding quot_mag_def m2 t(1) e by simp
  next
    case False
    then have ex': "extra = 0" using ex by auto
    let ?t = "?s1 - (s2 + scale)"
    have t: "?e + ?s1 = ?t + (scale + n_scale n2)" using False s2 by simp
    have e: "v * 10 ^ (?e + ?s1) = 10 ^ ?t * v * 10 ^ (scale + n_scale n2)"
      unfolding t power_add [of 10 ?t] by (simp only: mult_ac)
    have "quot_mag n1 n2 scale = mag n1 div (10 ^ ?t * v)" unfolding quot_mag_def m2 e by simp
    then show ?thesis using ex' vp by (simp add: div_div_cut)
  qed
qed

lemma bc_div_by_one_defined: "bc_wf n1 \<Longrightarrow> bc_div_by_one n1 n2 scale \<noteq> None"
  by (auto simp: bc_div_by_one_def bc_new_num_def bc_wf_def mem_set_def mem_cpy_def Let_def)

lemma num1_buffer:
  assumes "bc_wf n1" and "l = n_len n1 + n_scale n1"
  shows "mem_cpy (replicate (l + extra + 2) 0) 1 (n_value n1) 0 l
           = Some (0 # seg (n_value n1) 0 l @ replicate (extra + 1) 0)"
proof -
  have le: "l \<le> length (n_value n1)" using bc_wfD(2) [OF assms(1)] assms(2) by simp
  have "splice (replicate (l + extra + 2) 0) 1 (seg (n_value n1) 0 l)
      = replicate 1 0 @ seg (n_value n1) 0 l @ replicate (l + extra + 2 - 1 - length (seg (n_value n1) 0 l)) 0"
    using le by (intro splice_zeros) simp
  moreover have "l + extra + 2 - 1 - length (seg (n_value n1) 0 l) = extra + 1" using le by simp
  ultimately show ?thesis using mem_cpy_nat [of 1 l "replicate (l + extra + 2) 0" 0 "n_value n1"] le by simp
qed

lemma num2_buffer:
  assumes "bc_wf n2" and "len2 \<le> n_len n2 + n_scale n2"
  shows "mem_cpy (replicate (len2 + 1) 0) 0 (n_value n2) 0 len2 = Some (seg (n_value n2) 0 len2 @ [0])"
    and "wr (seg (n_value n2) 0 len2 @ [0]) (int len2) 0 = Some (seg (n_value n2) 0 len2 @ [0])"
proof -
  have le: "len2 \<le> length (n_value n2)" using bc_wfD(2) [OF assms(1)] assms(2) by simp
  show "mem_cpy (replicate (len2 + 1) 0) 0 (n_value n2) 0 len2 = Some (seg (n_value n2) 0 len2 @ [0])"
    using mem_cpy_nat [of 0 len2 "replicate (len2 + 1) 0" 0 "n_value n2"] le
      splice_zeros [of 0 "seg (n_value n2) 0 len2" "len2 + 1"] by simp
  show "wr (seg (n_value n2) 0 len2 @ [0]) (int len2) 0 = Some (seg (n_value n2) 0 len2 @ [0])"
    using le by (simp add: wr_def list_update_append)
qed

lemma num1_digits:
  assumes "bc_wf n1" and l: "l = n_len n1 + n_scale n1" and v: "v = 0 # seg (n_value n1) 0 l @ replicate (extra + 1) 0"
  shows "digits v" "length v = l + extra + 2" "v ! 0 = 0" "dval (seg v 0 (l + extra + 1)) = mag n1 * 10 ^ extra"
proof -
  have le: "l \<le> length (n_value n1)" "digits (n_value n1)" using bc_wfD(2,3) [OF assms(1)] l by simp_all
  show "digits v" "length v = l + extra + 2" "v ! 0 = 0" using le unfolding v by (simp_all add: digit_def)
  have "seg v 0 (l + extra + 1) = 0 # seg (n_value n1) 0 l @ replicate extra 0"
    using le unfolding v by (simp add: seg_def replicate_append_same [symmetric] del: replicate_append_same)
  then show "dval (seg v 0 (l + extra + 1)) = mag n1 * 10 ^ extra"
    using l by (simp add: dval_Cons dval_append mag_def)
qed

text \<open>The buffer of the quotient: leading zeros where the divisor is longer, and the digits.\<close>

lemma quotient_buffer:
  assumes n1: "bc_wf n1" and ok: "digits b" "1 \<le> len2" "len2 < length b" "b ! len2 = 0" "b ! 0 \<noteq> 0"
    and num1: "digits a" "sz < length a" "a ! 0 = 0" "len1 + scale + 1 \<le> sz"
    and zero: "zero = (len2 > len1 + scale)"
    and qd: "qd = (if zero \<or> len2 > len1 then scale + 1 else len1 - len2 + scale + 1)"
  shows "\<exists>w. (if zero then Some (replicate qd 0)
            else bc_div_full b len2 a sz (len1 + scale - len2 + 1) (replicate qd 0)
                   (if len2 > len1 then int (len2 - len1) else 0)) = Some w
           \<and> length w = qd \<and> digits w
           \<and> dval w = dval (seg a 0 (len1 + scale + 1)) div dval (seg b 0 len2)"
proof (cases zero)
  case True
  have X: "dval (seg a 0 (len1 + scale + 1)) < 10 ^ (len1 + scale)"
    "0 \<le> dval (seg a 0 (len1 + scale + 1))"
    using lead_digit_bounds(2) [OF num1(1), of "len1 + scale + 1"] num1 by simp_all
  have "10 ^ (len2 - 1) \<le> dval (seg b 0 len2)"
    by (rule lead_nonzero_bound [OF ok(1,2) less_imp_le [OF ok(3)] ok(5)])
  moreover have "(10::int) ^ (len1 + scale) \<le> 10 ^ (len2 - 1)"
    using True zero by (intro power_increasing) auto
  ultimately have "dval (seg a 0 (len1 + scale + 1)) div dval (seg b 0 len2) = 0"
    using X by (intro div_pos_pos_trivial) linarith+
  then show ?thesis using True by simp
next
  case False
  define p where p: "p = len2 - len1"
  define k where k: "k = len1 + scale - len2 + 1"
  have kk: "len2 + k = len1 + scale + 1" "p + k = qd" "(if len2 > len1 then int (len2 - len1) else 0) = int p"
    using False zero qd by (auto simp: p k)
  obtain Q where Q: "bc_div_full b len2 a sz k (replicate qd 0) (int p) = Some (splice (replicate qd 0) p Q)"
    "length Q = k" "digits Q" "dval Q = dval (seg a 0 (len2 + k)) div dval (seg b 0 len2)"
    using bc_div_full_spec [OF ok num1(1-3), of k p "replicate qd 0"] kk num1(4) by auto
  have "splice (replicate qd 0) p Q = replicate p 0 @ Q"
    using splice_zeros [of p Q qd] Q(2) kk(2) by simp
  then show ?thesis
    using Q False kk unfolding k [symmetric]
    by (intro exI [of _ "replicate p 0 @ Q"]) (simp add: dval_append)
qed

lemma bc_divide_zero: "bc_wf n2 \<Longrightarrow> mag n2 = 0 \<Longrightarrow> bc_divide n1 n2 scale = Some Ret_minus1"
  by (simp add: bc_divide_def bc_is_zero_mag)

lemma quotient_result:
  assumes "digits w" and "length w = l + s" and "1 \<le> l" and "dval w = x"
    and r: "r = \<lparr>n_sign = sg, n_len = l, n_scale = s, n_value = w\<rparr>"
  shows "\<exists>q. do { z \<leftarrow> bc_is_zero r; q \<leftarrow> bc_rm_leading_zeros (if z then r\<lparr>n_sign := PLUS\<rparr> else r); Some (Ret_ok q) }
             = Some (Ret_ok q) \<and> bc_canon q \<and> n_scale q = s \<and> mag q = x \<and> (mag q \<noteq> 0 \<longrightarrow> n_sign q = sg)"
proof -
  have wf: "bc_wf r" "mag r = x" using assms seg_all [of w] by (simp_all add: bc_wf_def mag_def)
  let ?r = "if mag r = 0 then r\<lparr>n_sign := PLUS\<rparr> else r"
  have wf': "bc_wf ?r" "mag ?r = mag r" "n_scale ?r = s" "mag r = 0 \<longrightarrow> n_sign ?r = PLUS" "mag r \<noteq> 0 \<longrightarrow> n_sign ?r = sg"
    using wf r by (simp_all add: bc_wf_def mag_def)
  obtain q where q: "bc_rm_leading_zeros ?r = Some q" "bc_lead q" "mag q = mag ?r" "n_scale q = n_scale ?r" "n_sign q = n_sign ?r"
    using bc_rm_leading_zeros_spec [OF wf'(1)] by blast
  have "bc_is_zero r = Some (mag r = 0)" by (rule bc_is_zero_mag [OF wf(1)])
  then have "do { z \<leftarrow> bc_is_zero r; q \<leftarrow> bc_rm_leading_zeros (if z then r\<lparr>n_sign := PLUS\<rparr> else r); Some (Ret_ok q) }
      = Some (Ret_ok q)" by (simp only: q(1) Option.bind.simps)
  then show ?thesis
    using q wf' wf(2) by (intro exI [of _ q]) (auto simp: bc_canon_def)
qed

text \<open>
  Dividing a well-formed number by a non-zero one returns, without an access outside a buffer,
  the quotient of the magnitudes cut to \<open>scale\<close> digits behind the point.
\<close>

lemma bc_divide_spec:
  assumes wf: "bc_wf n1" "bc_wf n2" and nz: "mag n2 \<noteq> 0"
  shows "\<exists>r. bc_divide n1 n2 scale = Some (Ret_ok r) \<and> bc_canon r \<and> n_scale r = scale
           \<and> mag r = quot_mag n1 n2 scale
           \<and> (mag r \<noteq> 0 \<longrightarrow> n_sign r = (if n_sign n1 = n_sign n2 then PLUS else MINUS))"
proof -
  note d1 = bc_wfD [OF wf(1)] and d2 = bc_wfD [OF wf(2)]
  let ?sg = "if n_sign n1 = n_sign n2 then PLUS else MINUS"
  obtain one quot where one: "is_one_digit n2 = Some one"
    "(if one then do { q \<leftarrow> bc_div_by_one n1 n2 scale; Some (Some q) } else Some None) = Some quot"
  proof -
    have "is_one_digit n2 = Some (n_scale n2 = 0 \<and> n_len n2 = 1 \<and> n_value n2 ! 0 = 1)"
      using d2(5) by (simp add: is_one_digit_def rd_def)
    then obtain one where o: "is_one_digit n2 = Some one" by blast
    obtain q where q: "bc_div_by_one n1 n2 scale = Some q"
      using bc_div_by_one_defined [OF wf(1), of n2 scale] by blast
    show ?thesis by (rule that [OF o, of "if one then Some q else None"]) (simp add: q)
  qed
  obtain s2 where s2: "s2 \<le> n_scale n2" "trim_scale (n_value n2) (int (n_len n2 + n_scale n2) - 1) (n_scale n2) = Some s2"
    "mag n2 = dval (seg (n_value n2) 0 (n_len n2 + s2)) * 10 ^ (n_scale n2 - s2)"
    using trim_scale_spec [OF d2(3,2)] by (auto simp: mag_def)
  define l where l: "l = n_len n1 + n_scale n1"
  define len1 where len1: "len1 = n_len n1 + s2"
  define s1 where s1: "s1 = int (n_scale n1) - int s2"
  define extra where extra: "extra = (if s1 < int scale then nat (int scale - s1) else 0)"
  define a where a: "a = 0 # seg (n_value n1) 0 l @ replicate (extra + 1) 0"
  define num2 where num2: "num2 = seg (n_value n2) 0 (n_len n2 + s2) @ [0]"
  let ?l2 = "n_len n2 + s2"
  note na = num1_digits [OF wf(1) l a]
  have l2: "?l2 \<le> n_len n2 + n_scale n2" using s2(1) by simp
  have n2d: "digits num2" "length num2 = Suc ?l2" "seg num2 0 ?l2 = seg (n_value n2) 0 ?l2" "num2 ! ?l2 = 0"
    using d2(2,3) l2 by (auto simp: num2 digit_def seg_def nth_append)
  have vnz: "dval (seg num2 0 ?l2) \<noteq> 0" using nz s2(3) n2d(3) by simp
  obtain z where z: "z < ?l2" "skip_zeros num2 ?l2 = Some (drop z num2, ?l2 - z)" "num2 ! z \<noteq> 0"
    "dval (seg (drop z num2) 0 (?l2 - z)) = dval (seg num2 0 ?l2)"
    using skip_zeros_spec [OF n2d(1) _ vnz] n2d(2) by auto
  define len2 where len2: "len2 = ?l2 - z"
  define b where b: "b = drop z num2"
  let ?v = "dval (seg b 0 len2)"
  have ok: "digits b" "1 \<le> len2" "len2 < length b" "b ! len2 = 0" "b ! 0 \<noteq> 0"
    using n2d z(1,3) by (simp_all add: b len2)
  have v: "mag n2 = ?v * 10 ^ (n_scale n2 - s2)" using s2(3) z(4) n2d(3) by (simp add: b len2)
  have vp: "0 < ?v"
    using lead_nonzero_bound [OF ok(1,2) less_imp_le [OF ok(3)] ok(5)] zero_less_power [of "10::int" "len2 - 1"]
    by linarith
  define zero where zero: "zero = (len2 > len1 + scale)"
  define qd where qd: "qd = (if zero \<or> len2 > len1 then scale + 1 else len1 - len2 + scale + 1)"
  define sz where sz: "sz = nat (int len1 + s1 + int extra + 1)"
  have szl: "sz = l + extra + 1" by (simp add: sz len1 s1 l)
  have lse: "len1 + scale \<le> l + extra" by (auto simp: extra s1 len1 l)
  obtain w where w: "(if zero then Some (replicate qd 0)
            else bc_div_full b len2 a sz (len1 + scale - len2 + 1) (replicate qd 0)
                   (if len2 > len1 then int (len2 - len1) else 0)) = Some w"
    "length w = qd" "digits w" "dval w = dval (seg a 0 (len1 + scale + 1)) div ?v"
    using quotient_buffer [OF wf(1) ok na(1) _ na(3) _ zero qd, of sz] na(2) szl lse by auto
  have x: "dval w = quot_mag n1 n2 scale"
  proof -
    have "dval (seg a 0 (len1 + scale + 1)) = mag n1 * 10 ^ extra div 10 ^ (l + extra - (len1 + scale))"
      using mag_cut [OF na(1), of "len1 + scale + 1" "l + extra - (len1 + scale)"] na(2,4) lse by simp
    moreover have "l + extra - (len1 + scale) = n_scale n1 + extra - (s2 + scale)" by (simp add: l len1)
    ultimately show ?thesis
      using quot_mag_set_up [OF v s2(1) extra [unfolded s1] vp] w(4) by simp
  qed
  have qd1: "1 \<le> qd - scale" "qd - scale + scale = qd" by (auto simp: qd)
  define r where r: "r = \<lparr>n_sign = ?sg, n_len = qd - scale, n_scale = scale, n_value = w\<rparr>"
  have lw: "length w = qd - scale + scale" using w(2) qd1(2) by simp
  have run: "bc_divide n1 n2 scale
      = do { z \<leftarrow> bc_is_zero r; q \<leftarrow> bc_rm_leading_zeros (if z then r\<lparr>n_sign := PLUS\<rparr> else r); Some (Ret_ok q) }"
  proof -
    note nb = num1_buffer [OF wf(1) l, of extra, folded a] and mb = num2_buffer [OF wf(2) l2, folded num2]
    have ms: "mem_set (n_value (bc_new_num (qd - scale) scale)) 0 0 qd = Some (replicate qd 0)"
      using mem_set_nat [of 0 qd "replicate qd 0"] qd1(2)
      by (simp add: bc_new_num_def splice_def)
    have rr: "(bc_new_num (qd - scale) scale)\<lparr>n_value := w, n_sign := ?sg\<rparr> = r"
      by (simp add: bc_new_num_def r)
    have nz': "bc_is_zero n2 = Some False" using bc_is_zero_mag [OF wf(2)] nz by simp
    show ?thesis
      unfolding bc_divide_def Let_def nz' Option.bind.simps if_False one s2(2) l [symmetric] s1 [symmetric]
        len1 [symmetric] extra [symmetric] nb mb z(2) prod.case len2 [symmetric] b [symmetric]
        zero [symmetric] qd [symmetric] sz [symmetric] ms w(1) rr
      by (rule refl)
  qed
  show ?thesis
    unfolding run by (rule quotient_result [OF w(3) lw qd1(1) x r])
qed

section \<open>Quotient and remainder\<close>

text \<open>
  \<open>bc_divmod\<close> returns the quotient and the remainder; the caller that passes a null \<open>quot\<close>
  (\<open>bc_modulo\<close>) drops the first.
\<close>

definition bc_divmod :: "bc_num \<Rightarrow> bc_num \<Rightarrow> nat \<Rightarrow> (bc_num \<times> bc_num) ret option" where
  "bc_divmod num1 num2 scale = do {
     z \<leftarrow> bc_is_zero num2;
     if z then Some Ret_minus1 else do {
       let rscale = max (n_scale num1) (n_scale num2 + scale);
       q \<leftarrow> bc_divide num1 num2 scale;
       let temp = (case q of Ret_ok t \<Rightarrow> t | Ret_minus1 \<Rightarrow> bc_zero);
       prod \<leftarrow> bc_multiply temp num2 rscale;
       rem \<leftarrow> bc_sub num1 prod rscale;
       Some (Ret_ok (temp, rem))
     }
   }"

definition bc_modulo :: "bc_num \<Rightarrow> bc_num \<Rightarrow> nat \<Rightarrow> bc_num ret option" where
  "bc_modulo num1 num2 scale = do {
     r \<leftarrow> bc_divmod num1 num2 scale;
     Some (case r of Ret_ok qr \<Rightarrow> Ret_ok (snd qr) | Ret_minus1 \<Rightarrow> Ret_minus1)
   }"

lemma quot_mag_bounds:
  assumes wf: "bc_wf n1" "bc_wf n2" and nz: "mag n2 \<noteq> 0"
  shows "of_int (quot_mag n1 n2 s) / 10 ^ s * bc_abs n2 \<le> bc_abs n1"
    "bc_abs n1 < (of_int (quot_mag n1 n2 s) + 1) / 10 ^ s * bc_abs n2" "0 \<le> quot_mag n1 n2 s"
proof -
  let ?a = "mag n1 * 10 ^ (s + n_scale n2)" and ?b = "mag n2 * 10 ^ n_scale n1" and ?q = "quot_mag n1 n2 s"
  have m2: "0 < mag n2" using mag_nonneg [OF wf(2)] nz by simp
  have bp: "0 < ?b" using m2 by simp
  have "?q * ?b + ?a mod ?b = ?a" "0 \<le> ?a mod ?b" "?a mod ?b < ?b"
    unfolding quot_mag_def using bp by (simp_all only: div_mult_mod_eq pos_mod_sign pos_mod_bound)
  then have "?q * ?b \<le> ?a" "?a < (?q + 1) * ?b" unfolding distrib_right mult_1 by linarith+
  then have "of_int (?q * ?b) \<le> (of_int ?a :: rat)" "(of_int ?a :: rat) < of_int ((?q + 1) * ?b)"
    by (simp_all only: of_int_le_iff of_int_less_iff)
  then show "of_int ?q / 10 ^ s * bc_abs n2 \<le> bc_abs n1" "bc_abs n1 < (of_int ?q + 1) / 10 ^ s * bc_abs n2"
    unfolding bc_abs_def by (simp_all add: field_simps power_add)
  show "0 \<le> ?q" unfolding quot_mag_def using mag_nonneg [OF wf(1)] bp by (simp add: pos_imp_zdiv_nonneg_iff)
qed

lemma bc_divide_val:
  assumes wf: "bc_wf n1" "bc_wf n2" and nz: "mag n2 \<noteq> 0"
  shows "\<exists>r. bc_divide n1 n2 scale = Some (Ret_ok r) \<and> bc_canon r \<and> n_scale r = scale
           \<and> \<bar>bc_val r * bc_val n2\<bar> \<le> \<bar>bc_val n1\<bar>
           \<and> \<bar>bc_val n1 - bc_val r * bc_val n2\<bar> < \<bar>bc_val n2\<bar> / 10 ^ scale
           \<and> 0 \<le> bc_val n1 * (bc_val n1 - bc_val r * bc_val n2)"
proof -
  obtain r where r: "bc_divide n1 n2 scale = Some (Ret_ok r)" "bc_canon r" "n_scale r = scale"
    "mag r = quot_mag n1 n2 scale" "mag r \<noteq> 0 \<longrightarrow> n_sign r = (if n_sign n1 = n_sign n2 then PLUS else MINUS)"
    using bc_divide_spec [OF assms, of scale] by blast
  have ar: "bc_abs r = of_int (quot_mag n1 n2 scale) / 10 ^ scale" using r(3,4) by (simp add: bc_abs_def)
  note b = quot_mag_bounds [OF assms, of scale, folded ar]
  have b2: "bc_abs n1 - bc_abs r * bc_abs n2 < bc_abs n2 / 10 ^ scale"
  proof -
    have "(of_int (quot_mag n1 n2 scale) + 1) / 10 ^ scale * bc_abs n2 = bc_abs r * bc_abs n2 + bc_abs n2 / 10 ^ scale"
      unfolding ar by (simp add: add_divide_distrib distrib_right)
    then show ?thesis using b(2) by linarith
  qed
  have nn: "0 \<le> bc_abs n1" "0 \<le> bc_abs n2" "0 \<le> bc_abs r"
    using bc_abs_nonneg wf bc_canonD(2) [OF r(2)] by auto
  have sg: "bc_val r * bc_val n2 = (if n_sign n1 = PLUS then bc_abs r * bc_abs n2 else - (bc_abs r * bc_abs n2))"
  proof (cases "mag r = 0")
    case True
    then show ?thesis by (simp add: bc_val_def bc_abs_def)
  next
    case False
    then show ?thesis using r(5) sign_cases [of n1] sign_cases [of n2] by (auto simp: bc_val_def)
  qed
  have av: "\<bar>bc_val n2\<bar> = bc_abs n2" "\<bar>bc_val n1\<bar> = bc_abs n1" using nn by (simp_all add: bc_val_def)
  have pn: "0 \<le> bc_abs r * bc_abs n2" using nn by simp
  have "\<bar>bc_val r * bc_val n2\<bar> \<le> \<bar>bc_val n1\<bar>" unfolding av sg using pn b(1) by simp
  moreover have df: "bc_val n1 - bc_val r * bc_val n2 = (if n_sign n1 = PLUS then bc_abs n1 - bc_abs r * bc_abs n2
      else - (bc_abs n1 - bc_abs r * bc_abs n2))" unfolding sg by (simp add: bc_val_def)
  then have "\<bar>bc_val n1 - bc_val r * bc_val n2\<bar> < \<bar>bc_val n2\<bar> / 10 ^ scale"
    unfolding av using b2 b(1) by (cases "n_sign n1 = PLUS") simp_all
  moreover have "0 \<le> bc_val n1 * (bc_val n1 - bc_val r * bc_val n2)"
  proof -
    have "0 \<le> bc_abs n1 * (bc_abs n1 - bc_abs r * bc_abs n2)" using nn(1) b(1) by (intro mult_nonneg_nonneg) simp_all
    then show ?thesis
      unfolding df by (cases "n_sign n1 = PLUS") (simp_all add: bc_val_def algebra_simps)
  qed
  ultimately show ?thesis using r(1-3) by blast
qed

lemma bc_divmod_spec:
  assumes c1: "bc_canon n1" and wf2: "bc_wf n2" and nz: "mag n2 \<noteq> 0"
  shows "\<exists>q r. bc_divmod n1 n2 scale = Some (Ret_ok (q, r)) \<and> bc_divide n1 n2 scale = Some (Ret_ok q)
           \<and> bc_canon q \<and> bc_canon r \<and> n_scale q = scale
           \<and> n_scale r = max (n_scale n1) (n_scale n2 + scale)
           \<and> bc_val n1 = bc_val q * bc_val n2 + bc_val r
           \<and> \<bar>bc_val r\<bar> < \<bar>bc_val n2\<bar> / 10 ^ scale \<and> 0 \<le> bc_val n1 * bc_val r"
proof -
  note wf1 = bc_canonD(2) [OF c1]
  obtain q where q: "bc_divide n1 n2 scale = Some (Ret_ok q)" "bc_canon q" "n_scale q = scale"
    "\<bar>bc_val n1 - bc_val q * bc_val n2\<bar> < \<bar>bc_val n2\<bar> / 10 ^ scale"
    "0 \<le> bc_val n1 * (bc_val n1 - bc_val q * bc_val n2)"
    using bc_divide_val [OF wf1 wf2 nz, of scale] by blast
  let ?rs = "max (n_scale n1) (n_scale n2 + scale)"
  have ps: "prod_scale q n2 ?rs = n_scale q + n_scale n2" using q(3) by (simp add: prod_scale_def)
  obtain p where p: "bc_multiply q n2 ?rs = Some p"
    using bc_multiply_spec [OF bc_canonD(2) [OF q(2)] wf2 refl, of ?rs] by blast
  note pv = bc_multiply_val [OF bc_canonD(2) [OF q(2)] wf2 p]
  obtain r where r: "bc_sub n1 p ?rs = Some r" "bc_canon r" "bc_val r = bc_val n1 - bc_val p"
    "n_scale r = max (max (n_scale n1) (n_scale p)) ?rs"
    using bc_sub_spec [OF c1 pv(1), of ?rs] by blast
  have "n_scale r = ?rs" using r(4) pv(2) ps q(3) by simp
  moreover have "bc_val r = bc_val n1 - bc_val q * bc_val n2" using r(3) pv(5) [OF ps] by simp
  moreover have "bc_divmod n1 n2 scale = Some (Ret_ok (q, r))"
    using bc_is_zero_mag [OF wf2] nz q(1) p r(1) by (simp add: bc_divmod_def Let_def)
  ultimately show ?thesis using q r(2) by (intro exI [of _ q] exI [of _ r]) simp
qed

section \<open>Properties\<close>





end
