(* ===== verification/BcText.thy ===== *)
theory BcText
  imports BcDiv
begin

text \<open>
  Conversions of \<^verbatim>\<open>usr.bin/bc/number.c\<close> between numbers, machine integers and text:
  \<open>bc_num2long\<close>, \<open>bc_int2num\<close>, \<open>bc_num2str\<close>, \<open>bc_str2num\<close>, and the output routines
  \<open>bc_out_long\<close> and \<open>bc_out_num\<close>. A C string is a \<open>char list\<close> that ends with a NUL character;
  output is the list of the characters handed to \<open>out_char\<close>.
\<close>

section \<open>Machine integers\<close>

text \<open>
  \<^verbatim>\<open>number.h\<close> defines \<open>LONG_MAX\<close> itself (the file does not include \<^verbatim>\<open>limits.h\<close>); \<open>long\<close> is wider than 32
  bits, so \<open>val*BASE + *nptr++\<close> does not overflow once \<open>val\<close> is at most \<open>LONG_MAX/BASE\<close>.
\<close>

definition LONG_MAX :: int where
  "LONG_MAX = 0x7fffffff"

definition INT_MIN :: int where
  "INT_MIN = - (2 ^ 31)"

text \<open>\<^verbatim>\<open>for (i=num->n_len; (i>0) && (val<=(LONG_MAX/BASE)); i--) val = val*BASE + *nptr++;\<close>\<close>

fun long_loop :: "nat \<Rightarrow> int list \<Rightarrow> int \<Rightarrow> int \<Rightarrow> (nat \<times> int) option" where
  "long_loop 0 v p val = Some (0, val)"
| "long_loop (Suc i) v p val =
     (if val \<le> LONG_MAX div BASE
      then do { d \<leftarrow> rd v p; long_loop i v (p + 1) (val * BASE + d) }
      else Some (Suc i, val))"

definition bc_num2long :: "bc_num \<Rightarrow> int option" where
  "bc_num2long num = do {
     (i, val) \<leftarrow> long_loop (n_len num) (n_value num) 0 0;
     let val = (if i > 0 then 0 else val);
     let val = (if val < 0 then 0 else val);
     Some (if n_sign num = PLUS then val else - val)
   }"

text \<open>The digits go into a 30-byte buffer, last digit first; \<open>ix\<close> counts them.\<close>

function int_digits :: "int \<Rightarrow> int list \<Rightarrow> int \<Rightarrow> nat \<Rightarrow> (int list \<times> int \<times> nat) option" where
  "int_digits val buffer bptr ix =
     (if val > 0 then do {
        buffer \<leftarrow> wr buffer bptr (val mod BASE);
        int_digits (val div BASE) buffer (bptr + 1) (ix + 1)
      } else Some (buffer, bptr, ix))"
  by pat_completeness auto
termination
  by (relation "measure (\<lambda>(val, b, p, ix). nat val)") auto

declare int_digits.simps [simp del]

text \<open>\<^verbatim>\<open>while (ix-- > 0) *vptr++ = *--bptr;\<close>\<close>

fun rev_copy :: "nat \<Rightarrow> int list \<Rightarrow> int \<Rightarrow> int list \<Rightarrow> int \<Rightarrow> int list option" where
  "rev_copy 0 v vptr buffer bptr = Some v"
| "rev_copy (Suc ix) v vptr buffer bptr = do {
     d \<leftarrow> rd buffer (bptr - 1);
     v \<leftarrow> wr v vptr d;
     rev_copy ix v (vptr + 1) buffer (bptr - 1)
   }"

text \<open>Negating \<open>INT_MIN\<close> overflows.\<close>

definition bc_int2num :: "int \<Rightarrow> bc_num option" where
  "bc_int2num val = do {
     guard (val \<noteq> INT_MIN);
     let neg = (val < 0);
     let val = (if neg then - val else val);
     buffer \<leftarrow> wr (replicate 30 0) 0 (val mod BASE);
     (buffer, bptr, ix) \<leftarrow> int_digits (val div BASE) buffer 1 1;
     let num = bc_new_num ix 0;
     v \<leftarrow> rev_copy ix (n_value num) 0 buffer bptr;
     Some (num\<lparr>n_sign := (if neg then MINUS else PLUS), n_value := v\<rparr>)
   }"

section \<open>Strings\<close>

definition NUL :: char where
  "NUL = CHR 0x00"

definition bcd_char :: "int \<Rightarrow> char" where
  "bcd_char d = char_of (nat (d + 48))"

definition ch_val :: "char \<Rightarrow> int" where
  "ch_val c = int (of_char c) - 48"

definition isdigit :: "char \<Rightarrow> bool" where
  "isdigit c \<longleftrightarrow> 48 \<le> (of_char c :: nat) \<and> (of_char c :: nat) \<le> 57"

text \<open>Appending to a buffer through \<open>*sptr++\<close>.\<close>

definition put :: "char \<Rightarrow> char list \<times> int \<Rightarrow> (char list \<times> int) option" where
  "put c = (\<lambda>(str, sptr). do { str \<leftarrow> wr str sptr c; Some (str, sptr + 1) })"

fun put_digits :: "nat \<Rightarrow> int list \<Rightarrow> int \<Rightarrow> char list \<times> int \<Rightarrow> (char list \<times> int) option" where
  "put_digits 0 v nptr s = Some s"
| "put_digits (Suc i) v nptr s = do {
     d \<leftarrow> rd v nptr;
     s \<leftarrow> put (bcd_char d) s;
     put_digits i v (nptr + 1) s
   }"

definition bc_num2str :: "bc_num \<Rightarrow> char list option" where
  "bc_num2str num = do {
     let signch = (if n_sign num = PLUS then 0 else 1);
     let len = (if n_scale num > 0 then n_len num + n_scale num + 2 + signch else n_len num + 1 + signch);
     let s = (replicate len NUL, 0);
     s \<leftarrow> (if signch \<noteq> 0 then put (CHR ''-'') s else Some s);
     s \<leftarrow> put_digits (n_len num) (n_value num) 0 s;
     s \<leftarrow> (if n_scale num > 0
           then do { s \<leftarrow> put (CHR ''.'') s; put_digits (n_scale num) (n_value num) (int (n_len num)) s }
           else Some s);
     s \<leftarrow> put NUL s;
     Some (fst s)
   }"

text \<open>\<^verbatim>\<open>while (*ptr == '0') ptr++;\<close> and \<^verbatim>\<open>while (isdigit((int)*ptr)) ptr++, digits++;\<close>\<close>

function skip_while :: "(char \<Rightarrow> bool) \<Rightarrow> char list \<Rightarrow> int \<Rightarrow> nat \<Rightarrow> (int \<times> nat) option" where
  "skip_while P str ptr n = do {
     c \<leftarrow> rd str ptr;
     if P c then skip_while P str (ptr + 1) (n + 1) else Some (ptr, n)
   }"
  by pat_completeness auto
termination
  by (relation "measure (\<lambda>(P, str, ptr, n). nat (int (length str) - ptr))") (auto simp: rd_def split: if_splits)

declare skip_while.simps [simp del]

text \<open>\<^verbatim>\<open>for (;digits > 0; digits--) *nptr++ = CH_VAL(*ptr++);\<close>\<close>

fun take_digits :: "nat \<Rightarrow> int list \<Rightarrow> int \<Rightarrow> char list \<Rightarrow> int \<Rightarrow> int list option" where
  "take_digits 0 v nptr str ptr = Some v"
| "take_digits (Suc k) v nptr str ptr = do {
     c \<leftarrow> rd str ptr;
     v \<leftarrow> wr v nptr (ch_val c);
     take_digits k v (nptr + 1) str (ptr + 1)
   }"

definition bc_str2num :: "char list \<Rightarrow> nat \<Rightarrow> bc_num option" where
  "bc_str2num str scale = do {
     c \<leftarrow> rd str 0;
     let sg = (if c = CHR ''+'' \<or> c = CHR ''-'' then 1 else 0);
     (start, zeros) \<leftarrow> skip_while (\<lambda>c. c = CHR ''0'') str sg 0;
     (ptr, digits) \<leftarrow> skip_while isdigit str start 0;
     dot \<leftarrow> rd str ptr;
     let ptr = (if dot = CHR ''.'' then ptr + 1 else ptr);
     (ptr, strscale) \<leftarrow> skip_while isdigit str ptr 0;
     last \<leftarrow> rd str ptr;
     if last \<noteq> NUL \<or> digits + strscale = 0 then Some bc_zero
     else do {
       let strscale = min strscale scale;
       let zero_int = (digits = 0);
       let len = (if zero_int then 1 else digits);
       let num = bc_new_num len strscale;
       (ptr, zeros) \<leftarrow> skip_while (\<lambda>c. c = CHR ''0'') str sg 0;
       v \<leftarrow> (if zero_int then wr (n_value num) 0 0 else Some (n_value num));
       v \<leftarrow> take_digits digits v (if zero_int then 1 else 0) str ptr;
       let ptr = ptr + int digits;
       v \<leftarrow> (if strscale > 0 then take_digits strscale v (int len) str (ptr + 1) else Some v);
       Some (num\<lparr>n_sign := (if c = CHR ''-'' then MINUS else PLUS), n_value := v\<rparr>)
     }
   }"

section \<open>Correctness of the integer conversions\<close>

lemma long_loop_spec:
  assumes "digits v" and "p + k \<le> length v" and "0 \<le> val" and "x = val * 10 ^ k + dval (seg v p k)"
  shows "\<exists>i y. long_loop k v (int p) val = Some (i, y)
           \<and> (if k = 0 \<or> x div 10 \<le> LONG_MAX div 10 then i = 0 \<and> y = x else i > 0)"
  using assms
proof (induction k arbitrary: p val)
  case 0
  then show ?case by simp
next
  case (Suc k)
  let ?d = "v ! p"
  have d: "0 \<le> ?d" "?d \<le> 9" using digits_bounds [OF Suc.prems(1)] Suc.prems(2) by simp_all
  have x: "x = (val * 10 + ?d) * 10 ^ k + dval (seg v (Suc p) k)"
    using Suc.prems by (simp add: seg_Cons dval_Cons algebra_simps)
  have tail: "0 \<le> dval (seg v (Suc p) k)" using Suc.prems(1) by simp
  have big: "val \<le> x div 10"
  proof -
    have "val * 10 * 1 \<le> (val * 10 + ?d) * 10 ^ k" using d Suc.prems(3) by (intro mult_mono) auto
    then have "val * 10 \<le> x" using x tail by simp
    then have "val * 10 div 10 \<le> x div 10" by (intro zdiv_mono1) auto
    then show ?thesis by simp
  qed
  show ?case
  proof (cases "val \<le> LONG_MAX div 10")
    case False
    then have "\<not> x div 10 \<le> LONG_MAX div 10" using big by linarith
    then show ?thesis using False by simp
  next
    case True
    obtain i y where iy: "long_loop k v (int (Suc p)) (val * 10 + ?d) = Some (i, y)"
      "if k = 0 \<or> x div 10 \<le> LONG_MAX div 10 then i = 0 \<and> y = x else i > 0"
      using Suc.IH [of "Suc p" "val * 10 + ?d"] Suc.prems x d by auto
    have "long_loop (Suc k) v (int p) val = Some (i, y)"
      using True iy(1) Suc.prems(2) by (simp add: buf_simps add.commute)
    moreover have "x div 10 = val" if "k = 0" using x that d by simp
    ultimately show ?thesis using iy(2) True by (cases "k = 0") auto
  qed
qed

lemma bc_abs_floor:
  assumes "bc_wf n"
  shows "\<lfloor>bc_abs n\<rfloor> = prefix_val n 0"
proof (rule floor_unique)
  note b = scaled_bounds [OF assms le0 order.refl]
  have "of_int (prefix_val n 0 * 10 ^ n_scale n) \<le> (of_int (mag n) :: rat)"
    "(of_int (mag n) :: rat) < of_int ((prefix_val n 0 + 1) * 10 ^ n_scale n)"
    using b unfolding of_int_le_iff of_int_less_iff by (simp_all add: scaled_def)
  then show "of_int (prefix_val n 0) \<le> bc_abs n" "bc_abs n < of_int (prefix_val n 0) + 1"
    by (simp_all add: bc_abs_def field_simps)
qed

lemma bc_num2long_spec:
  assumes "bc_wf n"
  shows "bc_num2long n = Some (if prefix_val n 0 \<le> 2147483649
           then (if n_sign n = PLUS then prefix_val n 0 else - prefix_val n 0) else 0)"
proof -
  let ?x = "prefix_val n 0"
  obtain i y where iy: "long_loop (n_len n) (n_value n) (int 0) 0 = Some (i, y)"
    "if n_len n = 0 \<or> ?x div 10 \<le> LONG_MAX div 10 then i = 0 \<and> y = ?x else i > 0"
    using long_loop_spec [of "n_value n" 0 "n_len n" 0 ?x] bc_wfD [OF assms] by (auto simp: prefix_val_def)
  have nn: "0 \<le> ?x" by (rule prefix_val_0_bounds(1) [OF assms])
  have lim: "?x div 10 \<le> LONG_MAX div 10 \<longleftrightarrow> ?x \<le> 2147483649" by (simp add: LONG_MAX_def) presburger
  have "n_len n \<noteq> 0" using bc_wfD(1) [OF assms] by simp
  then show ?thesis using iy nn unfolding lim by (auto simp: bc_num2long_def Let_def split: if_splits)
qed

lemma int_digits_spec:
  assumes "0 \<le> val" and "val < 10 ^ k" and "p + k \<le> length buf"
  shows "\<exists>ds. int_digits val buf (int p) ix = Some (splice buf p ds, int (p + length ds), ix + length ds)
           \<and> length ds \<le> k \<and> digits ds \<and> dval (rev ds) = val \<and> (val = 0 \<longrightarrow> ds = []) \<and> (ds = [] \<or> last ds \<noteq> 0)"
  using assms
proof (induction k arbitrary: val buf p ix)
  case 0
  then have "val = 0" by simp
  then show ?case by (subst int_digits.simps) (intro exI [of _ "[]"], simp)
next
  case (Suc k)
  show ?case
  proof (cases "val = 0")
    case True
    then show ?thesis by (subst int_digits.simps) (intro exI [of _ "[]"], simp)
  next
    case False
    let ?b = "buf[p := val mod 10]"
    have "val div 10 < 10 ^ k" "0 \<le> val div 10" using Suc.prems(1,2) by simp_all
    then obtain ds where ds: "int_digits (val div 10) ?b (int (Suc p)) (Suc ix)
        = Some (splice ?b (Suc p) ds, int (Suc p + length ds), Suc ix + length ds)"
      "length ds \<le> k" "digits ds" "dval (rev ds) = val div 10" "val div 10 = 0 \<longrightarrow> ds = []" "ds = [] \<or> last ds \<noteq> 0"
      using Suc.IH [of "val div 10" "Suc p" ?b "Suc ix"] Suc.prems(3) by auto
    have lp: "p < length buf" using Suc.prems(3) by simp
    have "splice ?b (Suc p) ds = splice buf p (val mod 10 # ds)"
      using lp by (simp add: splice_def take_Suc_conv_app_nth)
    moreover have "int_digits val buf (int p) ix = int_digits (val div 10) ?b (int (Suc p)) (Suc ix)"
      using False Suc.prems(1) lp by (subst int_digits.simps) (simp add: buf_simps add.commute)
    moreover have "dval (rev (val mod 10 # ds)) = val"
      using ds(4) by (simp add: dval_snoc)
    moreover have "ds = [] \<Longrightarrow> val mod 10 \<noteq> 0"
      using ds(4) False Suc.prems(1) by (auto dest: arg_cong [of _ _ dval])
    ultimately show ?thesis
      using ds False by (intro exI [of _ "val mod 10 # ds"]) (auto simp: digit_def)
  qed
qed

lemma rev_copy_spec:
  assumes "n \<le> q" and "q \<le> length buf" and "p + n \<le> length v"
  shows "rev_copy n v (int p) buf (int q) = Some (splice v p (rev (seg buf (q - n) n)))"
  using assms
proof (induction n arbitrary: v p q)
  case 0
  then show ?case by simp
next
  case (Suc n)
  then obtain r where r: "q = Suc r" by (cases q) auto
  have "rd buf (int q - 1) = Some (buf ! r)" using r Suc.prems(2) rd_pred [of r buf] by simp
  moreover have "wr v (int p) (buf ! r) = Some (v[p := buf ! r])" using Suc.prems(3) by (intro wr_nat) simp
  moreover have "rev_copy n (v[p := buf ! r]) (int (Suc p)) buf (int r)
      = Some (splice (v[p := buf ! r]) (Suc p) (rev (seg buf (r - n) n)))"
    using Suc r by (intro Suc.IH) auto
  moreover have "int p + 1 = int (Suc p)" "int q - 1 = int r" using r by simp_all
  moreover have "splice (v[p := buf ! r]) (Suc p) (rev (seg buf (r - n) n)) = splice v p (rev (seg buf (q - Suc n) (Suc n)))"
  proof -
    have "seg buf (q - Suc n) (Suc n) = seg buf (r - n) n @ [buf ! r]"
      using seg_Suc [of "r - n" n buf] Suc.prems(1,2) r by simp
    then show ?thesis using Suc.prems(3) by (simp add: splice_def take_Suc_conv_app_nth)
  qed
  ultimately show ?case by (simp only: rev_copy.simps Option.bind.simps)
qed

lemma bc_int2num_spec:
  assumes "- (2 ^ 31) < val" and "val < 2 ^ 31"
  shows "\<exists>r. bc_int2num val = Some r \<and> bc_canon r \<and> n_scale r = 0 \<and> bc_val r = of_int val"
proof -
  let ?a = "\<bar>val\<bar>" and ?b = "\<bar>val\<bar> mod 10 # replicate 29 0"
  have a: "0 \<le> ?a div 10" "?a div 10 < 10 ^ 29"
  proof -
    have "?a < 2 ^ 31" using assms by simp
    then have "?a div 10 < 2 ^ 31" by linarith
    also have "(2::int) ^ 31 < 10 ^ 29" by simp
    finally show "?a div 10 < 10 ^ 29" .
  qed simp
  obtain ds where ds: "int_digits (?a div 10) ?b (int 1) 1 = Some (splice ?b 1 ds, int (1 + length ds), 1 + length ds)"
    "length ds \<le> 29" "digits ds" "dval (rev ds) = ?a div 10" "ds = [] \<or> last ds \<noteq> 0"
    using int_digits_spec [OF a, of 1 ?b 1] by auto
  let ?n = "1 + length ds" and ?w = "splice ?b 1 ds" and ?v = "rev ds @ [?a mod 10]"
  have w: "seg ?w 0 ?n = ?a mod 10 # ds" "length ?w = 30"
    using ds(2) by (simp_all add: splice_def seg_def)
  have "rev_copy ?n (replicate ?n 0) (int 0) ?w (int ?n) = Some (splice (replicate ?n 0) 0 (rev (seg ?w (?n - ?n) ?n)))"
    using w(2) ds(2) by (intro rev_copy_spec) simp_all
  then have rc: "rev_copy ?n (replicate ?n 0) 0 ?w (int ?n) = Some ?v"
    using w(1) by (simp add: splice_def)
  let ?s = "if val < 0 then MINUS else PLUS"
  have dv: "dval ?v = ?a" using ds(4) by (simp add: dval_snoc)
  have "bc_int2num val = Some (num_of ?s ?v [])"
  proof -
    have g: "guard (val \<noteq> INT_MIN) = Some ()" using assms(1) by (simp add: INT_MIN_def)
    have e: "(if val < 0 then - val else val) = ?a" by simp
    have "wr (replicate 30 0) 0 (?a mod 10) = Some ?b" by (simp add: wr_def eval_nat_numeral)
    moreover have "n_value (bc_new_num ?n 0) = replicate ?n 0" by (simp add: bc_new_num_def)
    moreover have "(bc_new_num ?n 0)\<lparr>n_sign := ?s, n_value := ?v\<rparr> = num_of ?s ?v []"
      by (simp add: bc_new_num_def num_of_def)
    ultimately show ?thesis
      using ds(1) rc unfolding bc_int2num_def Let_def g e
      by (simp only: Option.bind.simps prod.case of_nat_1)
  qed
  moreover have "bc_canon (num_of ?s ?v [])"
  proof -
    have "hd ?v \<noteq> 0" if "length ?v \<noteq> 1"
      using that ds(5) by (cases ds rule: rev_cases) auto
    then show ?thesis using ds(3) dv by (auto simp: bc_canon_num_of digit_def digits_def)
  qed
  moreover have "bc_val (num_of ?s ?v []) = of_int val"
    using dv by (simp add: bc_val_num_of)
  ultimately show ?thesis by simp
qed

section \<open>Correctness of the string conversions\<close>

lemma bcd_char [simp]:
  assumes "digit d"
  shows "ch_val (bcd_char d) = d" "isdigit (bcd_char d)" "bcd_char d = CHR ''0'' \<longleftrightarrow> d = 0"
proof -
  have d: "0 \<le> d" "d \<le> 9" using assms by (simp_all add: digit_def)
  have code: "of_char (bcd_char d) = nat (d + 48)"
  proof -
    have "nat (d + 48) mod 256 = nat (d + 48)" using d by simp
    then show ?thesis by (simp add: bcd_char_def)
  qed
  show "ch_val (bcd_char d) = d" using d by (simp add: ch_val_def code)
  have "48 \<le> nat (d + 48)" "nat (d + 48) \<le> 57" using d by linarith+
  then show "isdigit (bcd_char d)" by (simp add: isdigit_def code)
  have "bcd_char d = CHR ''0'' \<longleftrightarrow> (of_char (bcd_char d) :: nat) = of_char (CHR ''0'')" by (simp only: of_char_eq_iff)
  also have "\<dots> \<longleftrightarrow> d = 0" unfolding code using d by auto
  finally show "bcd_char d = CHR ''0'' \<longleftrightarrow> d = 0" .
qed

lemma bcd_char_0 [simp]: "bcd_char 0 = CHR ''0''"
  using bcd_char(3) [of 0] by (simp add: digit_def)

lemma rd_at: "xs = ys @ y # zs \<Longrightarrow> p = length ys \<Longrightarrow> rd xs (int p) = Some y"
  by (simp add: rd_def)

lemma not_digit [simp]: "\<not> isdigit NUL" "\<not> isdigit (CHR ''.'')" "NUL \<noteq> CHR ''0''" "NUL \<noteq> CHR ''.''"
  "CHR ''.'' \<noteq> CHR ''0''"
  by (simp_all add: isdigit_def NUL_def)

lemma bcd_char_other [simp]:
  assumes "digit d"
  shows "bcd_char d \<noteq> CHR ''+''" "bcd_char d \<noteq> CHR ''-''" "bcd_char d \<noteq> CHR ''.''" "bcd_char d \<noteq> NUL"
  using bcd_char(2) [OF assms] by (auto simp: isdigit_def NUL_def)

lemma map_ch_val: "digits ds \<Longrightarrow> map (ch_val \<circ> bcd_char) ds = ds"
  by (induction ds) auto

text \<open>A buffer filled up to a point, as \<open>put\<close> leaves it.\<close>

definition filled :: "char list \<Rightarrow> nat \<Rightarrow> char list \<times> int" where
  "filled xs N = (xs @ replicate (N - length xs) NUL, int (length xs))"

lemma put_filled: "length xs < N \<Longrightarrow> put c (filled xs N) = Some (filled (xs @ [c]) N)"
  by (simp add: put_def filled_def wr_def list_update_append Suc_diff_Suc [symmetric])

lemma put_digits_filled:
  assumes "p + k \<le> length v" and "length xs + k \<le> N"
  shows "put_digits k v (int p) (filled xs N) = Some (filled (xs @ map bcd_char (seg v p k)) N)"
  using assms
proof (induction k arbitrary: p xs)
  case 0
  then show ?case by simp
next
  case (Suc k)
  have "put_digits k v (int (Suc p)) (filled (xs @ [bcd_char (v ! p)]) N)
      = Some (filled ((xs @ [bcd_char (v ! p)]) @ map bcd_char (seg v (Suc p) k)) N)"
    using Suc.prems by (intro Suc.IH) simp_all
  moreover have "int p + 1 = int (Suc p)" by simp
  ultimately show ?case
    using Suc.prems rd_nat [of p v] put_filled [of xs N]
    by (simp only: put_digits.simps Option.bind.simps) (simp add: seg_Cons)
qed

definition str_of :: "sign \<Rightarrow> int list \<Rightarrow> int list \<Rightarrow> char list" where
  "str_of s ip fp = (if s = PLUS then [] else ''-'') @ map bcd_char ip
     @ (if fp = [] then [] else CHR ''.'' # map bcd_char fp) @ [NUL]"

lemma bc_num2str_spec:
  assumes wf: "bc_wf n" and ip: "ip = seg (n_value n) 0 (n_len n)" and fp: "fp = seg (n_value n) (n_len n) (n_scale n)"
  shows "bc_num2str n = Some (str_of (n_sign n) ip fp)"
proof -
  note d = bc_wfD [OF wf]
  let ?s = "if n_sign n = PLUS then [] else ''-''" and ?sc = "if n_sign n = PLUS then 0 else 1 :: nat"
  define N where N: "N = (if n_scale n > 0 then n_len n + n_scale n + 2 + ?sc else n_len n + 1 + ?sc)"
  let ?x = "?s @ map bcd_char ip"
  let ?y = "?x @ (if fp = [] then [] else CHR ''.'' # map bcd_char fp)"
  have l: "length ip = n_len n" "length fp = n_scale n" "length ?s = ?sc" using d(2,4) by (auto simp: ip fp)
  have f0: "fp = [] \<longleftrightarrow> \<not> 0 < n_scale n" using l(2) by auto
  have s1: "(if ?sc \<noteq> 0 then put (CHR ''-'') (replicate N NUL, 0) else Some (replicate N NUL, 0)) = Some (filled ?s N)"
    using put_filled [of "[]" N "CHR ''-''"] by (auto simp: filled_def N)
  have s2: "put_digits (n_len n) (n_value n) 0 (filled ?s N) = Some (filled ?x N)"
    using put_digits_filled [of 0 "n_len n" "n_value n" ?s N] d(4) l(3) by (simp add: ip N)
  have s3: "(if n_scale n > 0 then do { s \<leftarrow> put (CHR ''.'') (filled ?x N);
      put_digits (n_scale n) (n_value n) (int (n_len n)) s } else Some (filled ?x N)) = Some (filled ?y N)"
  proof (cases "n_scale n > 0")
    case True
    have "put (CHR ''.'') (filled ?x N) = Some (filled (?x @ ''.'') N)"
      using True l by (intro put_filled) (simp add: N)
    moreover have "put_digits (n_scale n) (n_value n) (int (n_len n)) (filled (?x @ ''.'') N)
        = Some (filled ((?x @ ''.'') @ map bcd_char fp) N)"
      unfolding fp using True l d(2) by (intro put_digits_filled) (simp_all add: N ip)
    ultimately show ?thesis using True f0 by simp
  next
    case False
    then show ?thesis using f0 by simp
  qed
  have ly: "Suc (length ?y) = N" using l f0 by (auto simp: N)
  then have s4: "put NUL (filled ?y N) = Some (filled (?y @ [NUL]) N)" by (intro put_filled) simp
  have "fst (filled (?y @ [NUL]) N) = str_of (n_sign n) ip fp"
    using ly by (simp add: filled_def str_of_def)
  then show ?thesis
    unfolding bc_num2str_def Let_def N [symmetric] by (simp only: s1 s2 s3 s4 Option.bind.simps)
qed

lemma skip_while_spec:
  assumes "str = pre @ mid @ c # post" and "\<forall>x \<in> set mid. P x" and "\<not> P c" and "p = int (length pre)"
  shows "skip_while P str p n = Some (p + int (length mid), n + length mid)"
  using assms
proof (induction mid arbitrary: pre p n)
  case Nil
  then show ?case by (subst skip_while.simps) (simp add: rd_def nth_append)
next
  case (Cons x mid)
  have "skip_while P str (p + 1) (n + 1) = Some (p + 1 + int (length mid), n + 1 + length mid)"
    using Cons.prems by (intro Cons.IH [of "pre @ [x]"]) auto
  moreover have "rd str p = Some x" using Cons.prems(1,4) by (simp add: rd_def nth_append)
  ultimately show ?case using Cons.prems(2) by (subst skip_while.simps) (simp add: algebra_simps)
qed

lemma take_digits_spec:
  assumes "p + k \<le> length str" and "q + k \<le> length v"
  shows "take_digits k v (int q) str (int p) = Some (splice v q (map ch_val (seg str p k)))"
  using assms
proof (induction k arbitrary: v p q)
  case 0
  then show ?case by simp
next
  case (Suc k)
  let ?c = "ch_val (str ! p)"
  have "take_digits k (v[q := ?c]) (int (Suc q)) str (int (Suc p))
      = Some (splice (v[q := ?c]) (Suc q) (map ch_val (seg str (Suc p) k)))"
    using Suc.prems by (intro Suc.IH) simp_all
  moreover have "rd str (int p) = Some (str ! p)" "wr v (int q) ?c = Some (v[q := ?c])"
    using Suc.prems by (simp_all add: buf_simps)
  moreover have "int p + 1 = int (Suc p)" "int q + 1 = int (Suc q)" by simp_all
  moreover have "splice (v[q := ?c]) (Suc q) (map ch_val (seg str (Suc p) k)) = splice v q (map ch_val (seg str p (Suc k)))"
    using Suc.prems by (simp add: splice_def seg_Cons take_Suc_conv_app_nth)
  ultimately show ?case by (simp only: take_digits.simps Option.bind.simps)
qed

text \<open>
  A decimal numeral: sign, leading zeros, integer digits, and a point with the fraction.
\<close>

definition numeral_str :: "char list \<Rightarrow> nat \<Rightarrow> int list \<Rightarrow> bool \<Rightarrow> int list \<Rightarrow> char list" where
  "numeral_str sg z ds dot fs = sg @ replicate z (CHR ''0'') @ map bcd_char ds
     @ (if dot then CHR ''.'' # map bcd_char fs else []) @ [NUL]"

definition numeral_ok :: "char list \<Rightarrow> int list \<Rightarrow> bool \<Rightarrow> int list \<Rightarrow> bool" where
  "numeral_ok sg ds dot fs \<longleftrightarrow> sg \<in> {[], ''+'', ''-''} \<and> digits ds \<and> digits fs \<and> (ds = [] \<or> hd ds \<noteq> 0)
     \<and> (\<not> dot \<longrightarrow> fs = [])"

lemma digits_set: "digits ds \<longleftrightarrow> (\<forall>d \<in> set ds. digit d)"
  by (simp add: digits_def list_all_iff)

lemma isdigit_map: "digits ds \<Longrightarrow> \<forall>x \<in> set (map bcd_char ds). isdigit x"
  by (auto simp: digits_set)

lemma bc_str2num_scan:
  assumes ok: "numeral_ok sg ds dot fs" and str: "str = numeral_str sg z ds dot fs"
  shows "\<exists>c. rd str 0 = Some c \<and> (c = CHR ''-'' \<longleftrightarrow> sg = ''-'')
           \<and> (if c = CHR ''+'' \<or> c = CHR ''-'' then 1 else 0) = int (length sg)"
    and "skip_while (\<lambda>c. c = CHR ''0'') str (int (length sg)) 0 = Some (int (length sg + z), z)"
    and "skip_while isdigit str (int (length sg + z)) 0 = Some (int (length sg + z + length ds), length ds)"
    and "\<exists>c. rd str (int (length sg + z + length ds)) = Some c \<and> (c = CHR ''.'' \<longleftrightarrow> dot)"
    and "e = length sg + z + length ds + (if dot then 1 else 0) \<Longrightarrow>
           skip_while isdigit str (int e) 0 = Some (int (e + length fs), length fs)
           \<and> rd str (int (e + length fs)) = Some NUL"
proof -
  have dg: "digits ds" "digits fs" and sg: "sg \<in> {[], ''+'', ''-''}" and hd: "ds = [] \<or> hd ds \<noteq> 0"
    and nd: "\<not> dot \<longrightarrow> fs = []" using ok by (auto simp: numeral_ok_def)
  let ?t = "(if dot then CHR ''.'' # map bcd_char fs else []) @ [NUL]"
  obtain c1 t1 where t1: "map bcd_char ds @ ?t = c1 # t1" "c1 \<noteq> CHR ''0''" "c1 \<noteq> CHR ''+''" "c1 \<noteq> CHR ''-''"
    using dg(1) hd by (cases ds; cases dot) (auto simp: NUL_def)
  obtain c2 t2 where t2: "?t = c2 # t2" "\<not> isdigit c2" "c2 = CHR ''.'' \<longleftrightarrow> dot"
    by (cases dot) auto
  have s1: "str = sg @ replicate z (CHR ''0'') @ c1 # t1" using t1(1) by (simp add: str numeral_str_def)
  have s2: "str = (sg @ replicate z (CHR ''0'')) @ map bcd_char ds @ c2 # t2"
    using t2(1) by (simp add: str numeral_str_def)
  show "\<exists>c. rd str 0 = Some c \<and> (c = CHR ''-'' \<longleftrightarrow> sg = ''-'')
      \<and> (if c = CHR ''+'' \<or> c = CHR ''-'' then 1 else 0) = int (length sg)"
    unfolding s1 using sg t1(3,4) by (cases z) (auto simp: rd_def)
  show "skip_while (\<lambda>c. c = CHR ''0'') str (int (length sg)) 0 = Some (int (length sg + z), z)"
    using skip_while_spec [OF s1, of "\<lambda>c. c = CHR ''0''" _ 0] t1(2) by simp
  show "skip_while isdigit str (int (length sg + z)) 0 = Some (int (length sg + z + length ds), length ds)"
    using skip_while_spec [OF s2 isdigit_map [OF dg(1)] t2(2), of _ 0] by simp
  show "\<exists>c. rd str (int (length sg + z + length ds)) = Some c \<and> (c = CHR ''.'' \<longleftrightarrow> dot)"
    using t2(3) rd_at [of str "sg @ replicate z (CHR ''0'') @ map bcd_char ds" c2 t2 "length sg + z + length ds"] s2
    by simp
  assume e: "e = length sg + z + length ds + (if dot then 1 else 0)"
  define pre where pre: "pre = sg @ replicate z (CHR ''0'') @ map bcd_char ds @ (if dot then ''.'' else [])"
  have s3: "str = pre @ map bcd_char fs @ NUL # []" using nd by (auto simp: str numeral_str_def pre)
  have lp: "int e = int (length pre)" by (simp add: e pre)
  show "skip_while isdigit str (int e) 0 = Some (int (e + length fs), length fs) \<and> rd str (int (e + length fs)) = Some NUL"
    using skip_while_spec [OF s3 isdigit_map [OF dg(2)] _ lp, of 0] lp
      rd_at [of str "pre @ map bcd_char fs" NUL "[]" "e + length fs"] s3 by simp
qed

lemma bc_str2num_spec:
  assumes ok: "numeral_ok sg ds dot fs" and str: "str = numeral_str sg z ds dot fs"
  shows "bc_str2num str scale = Some (if ds @ fs = [] then bc_zero
           else num_of (if sg = ''-'' then MINUS else PLUS) (if ds = [] then [0] else ds) (take scale fs))"
proof -
  let ?a = "length sg + z" and ?b = "length sg + z + length ds"
  define e where e: "e = ?b + (if dot then 1 else 0)"
  obtain c where c: "rd str 0 = Some c" "c = CHR ''-'' \<longleftrightarrow> sg = ''-''"
    "(if c = CHR ''+'' \<or> c = CHR ''-'' then 1 else 0) = int (length sg)"
    using bc_str2num_scan(1) [OF ok str] by blast
  obtain t where t: "rd str (int ?b) = Some t" "t = CHR ''.'' \<longleftrightarrow> dot"
    using bc_str2num_scan(4) [OF ok str] by blast
  note sc = bc_str2num_scan(2,3) [OF ok str] and fr = bc_str2num_scan(5) [OF ok str e]
  have ptr: "(if t = CHR ''.'' then int ?b + 1 else int ?b) = int e" using t(2) e by simp
  define ss where ss: "ss = min (length fs) scale"
  define L where L: "L = (if ds = [] then 1 else length ds)"
  have dg: "digits ds" "digits fs" and nd: "\<not> dot \<longrightarrow> fs = []" using ok by (auto simp: numeral_ok_def)
  have s2: "str = (sg @ replicate z (CHR ''0'')) @ map bcd_char ds @ (if dot then CHR ''.'' # map bcd_char fs else []) @ [NUL]"
    by (simp add: str numeral_str_def)
  have len: "?a + length ds \<le> length str" "Suc ?b + ss \<le> length str \<or> ss = 0" using nd unfolding s2 by (auto simp: ss)
  have seg1: "map ch_val (seg str ?a (length ds)) = ds"
    unfolding s2 using map_ch_val [OF dg(1)] by (simp add: seg_def)
  have seg2: "map ch_val (seg str (Suc ?b) ss) = take ss fs" if "ss > 0"
  proof -
    have m: "map (ch_val \<circ> bcd_char) (take ss fs) = take ss fs" using dg(2) by (intro map_ch_val) simp
    have "fs \<noteq> []" "ss \<le> length fs" using that by (auto simp: ss)
    then have "seg str (Suc ?b) ss = map bcd_char (take ss fs)"
      using nd unfolding s2 by (auto simp: seg_def take_map)
    then show ?thesis using m by simp
  qed
  let ?z = "replicate (L + ss) (0::int)"
  have w1: "(if length ds = 0 then wr ?z 0 0 else Some ?z) = Some ?z" by (simp add: wr_def L)
  have w2: "take_digits (length ds) ?z (if length ds = 0 then 1 else 0) str (int ?a)
      = Some ((if ds = [] then [0] else ds) @ replicate ss 0)"
  proof (cases "ds = []")
    case True
    then show ?thesis by (simp add: L)
  next
    case False
    then show ?thesis
      using take_digits_spec [of ?a "length ds" str 0 ?z] len(1) seg1 splice_zeros [of 0 ds "L + ss"] by (simp add: L)
  qed
  let ?v = "(if ds = [] then [0] else ds) @ replicate ss (0::int)"
  have w3: "(if ss > 0 then take_digits ss ?v (int L) str (int ?a + int (length ds) + 1) else Some ?v)
      = Some ((if ds = [] then [0] else ds) @ take ss fs)"
  proof (cases "ss > 0")
    case True
    have pp: "int ?a + int (length ds) + 1 = int (Suc ?b)" by simp
    have "take_digits ss ?v (int L) str (int (Suc ?b)) = Some (splice ?v L (map ch_val (seg str (Suc ?b) ss)))"
      using len(2) True by (intro take_digits_spec) (auto simp: L)
    moreover have "splice ?v L (take ss fs) = (if ds = [] then [0] else ds) @ take ss fs"
      by (auto simp: splice_def L ss min_def)
    ultimately show ?thesis using True seg2 [OF True] pp by (simp only: if_True)
  next
    case False
    then show ?thesis by simp
  qed
  show ?thesis
  proof (cases "ds @ fs = []")
    case True
    then have yy: "(length ds + length fs = 0) = True" by simp
    show ?thesis
      unfolding bc_str2num_def Let_def
      by (simp only: c(1,3) sc t(1) ptr fr Option.bind.simps prod.case yy if_True True simp_thms)
  next
    case False
    let ?n = "bc_new_num L ss" and ?w = "(if ds = [] then [0] else ds) @ take ss fs"
    have nn: "\<not> (NUL \<noteq> NUL \<or> length ds + length fs = 0)" using False by simp
    have nv: "n_value ?n = ?z" by (simp add: bc_new_num_def)
    have LL: "(if length ds = 0 then 1 else length ds) = L" by (simp add: L)
    have res: "?n\<lparr>n_sign := if c = CHR ''-'' then MINUS else PLUS, n_value := ?w\<rparr>
        = num_of (if sg = ''-'' then MINUS else PLUS) (if ds = [] then [0] else ds) (take scale fs)"
      using c(2) by (auto simp: bc_new_num_def num_of_def L ss min_def)
    show ?thesis
      unfolding bc_str2num_def Let_def
      by (simp only: c(1,3) sc t(1) ptr fr Option.bind.simps prod.case nn if_False ss [symmetric] LL nv
          w1 w2 w3 res False)
  qed
qed

text \<open>What the printer writes is a numeral the parser accepts.\<close>

lemma str_of_numeral:
  assumes "bc_canon n" and "ip = seg (n_value n) 0 (n_len n)" and "fp = seg (n_value n) (n_len n) (n_scale n)"
  shows "\<exists>sg z ds. numeral_ok sg ds (fp \<noteq> []) fp \<and> str_of (n_sign n) ip fp = numeral_str sg z ds (fp \<noteq> []) fp
           \<and> (sg = ''-'' \<longleftrightarrow> n_sign n = MINUS) \<and> (if ds = [] then [0] else ds) = ip \<and> (ds = [] \<longleftrightarrow> ip = [0])"
proof -
  let ?sg = "if n_sign n = PLUS then [] else ''-''"
  note d = bc_wfD [OF bc_canonD(2) [OF assms(1)]]
  have dg: "digits ip" "digits fp" "length ip = n_len n" using d by (simp_all add: assms(2,3))
  then obtain x xs where x: "ip = x # xs" using d(1) by (cases ip) auto
  have lead: "xs = [] \<or> x \<noteq> 0"
  proof -
    have "x = n_value n ! 0" using x seg_Cons [of 0 "n_value n" "length xs"] d(5) assms(2) dg(3) by simp
    then show ?thesis using bc_canonD(1) [OF assms(1)] dg(3) x by (auto simp: bc_lead_def)
  qed
  have sgn: "?sg = ''-'' \<longleftrightarrow> n_sign n = MINUS" using sign_cases [of n] by auto
  show ?thesis
  proof (cases "ip = [0]")
    case True
    then show ?thesis
      using dg(1,2) sgn by (intro exI [of _ ?sg] exI [of _ 1] exI [of _ "[]"])
        (auto simp: numeral_ok_def numeral_str_def str_of_def digit_def)
  next
    case False
    then show ?thesis
      using dg sgn x lead by (intro exI [of _ ?sg] exI [of _ 0] exI [of _ ip])
        (auto simp: numeral_ok_def numeral_str_def str_of_def digit_def)
  qed
qed

lemma seg_take: "k \<le> n \<Longrightarrow> take n (seg v i k) = seg v i k"
  by (simp add: seg_def)

lemma bc_str2num_num2str:
  assumes c: "bc_canon n" and sc: "n_scale n \<le> scale"
  shows "\<exists>s. bc_num2str n = Some s \<and> bc_str2num s scale = Some (n\<lparr>n_value := seg (n_value n) 0 (n_len n + n_scale n)\<rparr>)"
proof -
  note d = bc_wfD [OF bc_canonD(2) [OF c]]
  define ip where ip: "ip = seg (n_value n) 0 (n_len n)"
  define fp where fp: "fp = seg (n_value n) (n_len n) (n_scale n)"
  obtain sg z ds where nm: "numeral_ok sg ds (fp \<noteq> []) fp" "str_of (n_sign n) ip fp = numeral_str sg z ds (fp \<noteq> []) fp"
    "sg = ''-'' \<longleftrightarrow> n_sign n = MINUS" "(if ds = [] then [0] else ds) = ip" "ds = [] \<longleftrightarrow> ip = [0]"
    using str_of_numeral [OF c ip fp] by blast
  have l: "length ip = n_len n" "length fp = n_scale n" using d(2,4) by (simp_all add: ip fp)
  have n: "n\<lparr>n_value := seg (n_value n) 0 (n_len n + n_scale n)\<rparr> = num_of (n_sign n) ip fp"
    using l by (auto simp: num_of_def ip fp seg_append intro!: bc_num.equality)
  have "take scale fp = fp" unfolding fp by (rule seg_take [OF sc])
  moreover have "(if sg = ''-'' then MINUS else PLUS) = n_sign n" using nm(3) sign_cases [of n] by auto
  moreover have "bc_zero = num_of (n_sign n) ip fp" if "ds @ fp = []"
  proof -
    have z: "ip = [0]" "fp = []" using that nm(5) by auto
    have "mag n = 0" using l z ip by (simp add: mag_def)
    then have "n_sign n = PLUS" using c sign_cases [of n] by (auto simp: bc_canon_def)
    then show ?thesis using z by (simp add: num_of_def bc_zero_def bc_new_num_def)
  qed
  ultimately have "bc_str2num (str_of (n_sign n) ip fp) scale = Some (num_of (n_sign n) ip fp)"
    using bc_str2num_spec [OF nm(1,2), of scale] nm(4) by auto
  then show ?thesis using bc_num2str_spec [OF bc_canonD(2) [OF c] ip fp] n by simp
qed

section \<open>Output\<close>

text \<open>The result of a call whose status the caller ignores: unchanged storage on failure.\<close>

definition ret_or :: "'a ret \<Rightarrow> 'a \<Rightarrow> 'a" where
  "ret_or r x = (case r of Ret_ok y \<Rightarrow> y | Ret_minus1 \<Rightarrow> x)"

definition ref_str :: "char list" where
  "ref_str = ''0123456789ABCDEF'' @ [NUL]"

text \<open>\<^verbatim>\<open>snprintf (digits, sizeof(digits), "%ld", val)\<close>\<close>

function dec_str :: "nat \<Rightarrow> char list" where
  "dec_str n = (if n < 10 then [bcd_char (int n)] else dec_str (n div 10) @ [bcd_char (int (n mod 10))])"
  by pat_completeness auto
termination
  by (relation "measure id") auto

declare dec_str.simps [simp del]

definition long_str :: "int \<Rightarrow> char list" where
  "long_str val = (if val < 0 then CHR ''-'' # dec_str (nat (- val)) else dec_str (nat val))"

definition bc_out_long :: "int \<Rightarrow> nat \<Rightarrow> bool \<Rightarrow> char list" where
  "bc_out_long val sz space =
     (let s = long_str val
      in (if space then '' '' else []) @ replicate (sz - length s) (CHR ''0'') @ s)"

text \<open>One digit in base \<open>o_base\<close>: a character, or a decimal group of fixed width.\<close>

definition out_digit :: "int \<Rightarrow> nat \<Rightarrow> bool \<Rightarrow> int \<Rightarrow> char list option" where
  "out_digit o_base width space d =
     (if o_base \<le> 16 then do { c \<leftarrow> rd ref_str d; Some [c] } else Some (bc_out_long d width space))"

text \<open>The integer part: the digits are pushed on a stack until nothing is left.\<close>

partial_function (option) out_int_loop :: "bc_num \<Rightarrow> bc_num \<Rightarrow> bc_num \<Rightarrow> int list \<Rightarrow> int list option" where
  "out_int_loop int_part cur_dig base stk = do {
     z \<leftarrow> bc_is_zero int_part;
     if z then Some stk
     else do {
       r \<leftarrow> bc_modulo int_part base 0;
       d \<leftarrow> bc_num2long (ret_or r cur_dig);
       q \<leftarrow> bc_divide int_part base 0;
       out_int_loop (ret_or q int_part) (ret_or r cur_dig) base (d # stk)
     }
   }"

fun out_stack :: "int \<Rightarrow> nat \<Rightarrow> int list \<Rightarrow> char list option" where
  "out_stack o_base width [] = Some []"
| "out_stack o_base width (d # ds) = do {
     c \<leftarrow> out_digit o_base width True d;
     cs \<leftarrow> out_stack o_base width ds;
     Some (c @ cs)
   }"

text \<open>The fraction: digit after digit, until as many as \<open>scale\<close> decimal digits need.\<close>

partial_function (option) out_frac_loop :: "bc_num \<Rightarrow> bc_num \<Rightarrow> bc_num \<Rightarrow> nat \<Rightarrow> int \<Rightarrow> nat \<Rightarrow> bool
    \<Rightarrow> char list \<Rightarrow> char list option" where
  "out_frac_loop t_num frac_part base scale o_base width pre_space out = (
     if n_len t_num \<le> scale then do {
       frac_part \<leftarrow> bc_multiply frac_part base scale;
       fdigit \<leftarrow> bc_num2long frac_part;
       int_part \<leftarrow> bc_int2num fdigit;
       frac_part \<leftarrow> bc_sub frac_part int_part 0;
       c \<leftarrow> out_digit o_base width pre_space fdigit;
       t_num \<leftarrow> bc_multiply t_num base 0;
       out_frac_loop t_num frac_part base scale o_base width (if o_base \<le> 16 then pre_space else True) (out @ c)
     } else Some out)"

fun out_chars :: "nat \<Rightarrow> int list \<Rightarrow> int \<Rightarrow> char list option" where
  "out_chars 0 v nptr = Some []"
| "out_chars (Suc i) v nptr = do {
     d \<leftarrow> rd v nptr;
     cs \<leftarrow> out_chars i v (nptr + 1);
     Some (bcd_char d # cs)
   }"

definition out_base10 :: "bc_num \<Rightarrow> bool \<Rightarrow> char list option" where
  "out_base10 num leading_zero = do {
     d \<leftarrow> rd (n_value num) 0;
     ip \<leftarrow> (if n_len num > 1 \<or> d \<noteq> 0 then out_chars (n_len num) (n_value num) 0 else Some []);
     let nptr = (if n_len num > 1 \<or> d \<noteq> 0 then int (n_len num) else 1);
     z \<leftarrow> bc_is_zero num;
     let lz = (if leading_zero \<and> z then ''0'' else []);
     fp \<leftarrow> (if n_scale num > 0
            then do { cs \<leftarrow> out_chars (n_scale num) (n_value num) nptr; Some (CHR ''.'' # cs) } else Some []);
     Some (ip @ lz @ fp)
   }"

definition out_other :: "bc_num \<Rightarrow> int \<Rightarrow> bool \<Rightarrow> char list option" where
  "out_other num o_base leading_zero = do {
     z \<leftarrow> bc_is_zero num;
     let lz = (if leading_zero \<and> z then ''0'' else []);
     q \<leftarrow> bc_divide num bc_one 0;
     let int_part = ret_or q bc_zero;
     frac_part \<leftarrow> bc_sub num int_part 0;
     let int_part = int_part\<lparr>n_sign := PLUS\<rparr>;
     let frac_part = frac_part\<lparr>n_sign := PLUS\<rparr>;
     base \<leftarrow> bc_int2num o_base;
     max_o_digit \<leftarrow> bc_int2num (o_base - 1);
     stk \<leftarrow> out_int_loop int_part bc_zero base [];
     ip \<leftarrow> out_stack o_base (n_len max_o_digit) stk;
     fp \<leftarrow> (if n_scale num > 0
            then out_frac_loop bc_one frac_part base (n_scale num) o_base (n_len max_o_digit) False ''.''
            else Some []);
     Some (lz @ ip @ fp)
   }"

definition bc_out_num :: "bc_num \<Rightarrow> int \<Rightarrow> bool \<Rightarrow> char list option" where
  "bc_out_num num o_base leading_zero = do {
     let sg = (if n_sign num = MINUS then ''-'' else []);
     z \<leftarrow> bc_is_zero num;
     s \<leftarrow> (if z then Some ''0''
           else if o_base = 10 then out_base10 num leading_zero
           else out_other num o_base leading_zero);
     Some (sg @ s)
   }"

section \<open>Correctness of the output\<close>

lemma out_chars_spec:
  "p + k \<le> length v \<Longrightarrow> out_chars k v (int p) = Some (map bcd_char (seg v p k))"
proof (induction k arbitrary: p)
  case 0
  then show ?case by simp
next
  case (Suc k)
  have "out_chars k v (int (Suc p)) = Some (map bcd_char (seg v (Suc p) k))"
    using Suc.prems by (intro Suc.IH) simp
  moreover have "int p + 1 = int (Suc p)" by simp
  ultimately show ?case
    using Suc.prems rd_nat [of p v] by (simp only: out_chars.simps Option.bind.simps) (simp add: seg_Cons)
qed

text \<open>In base 10 the output is the digit string, without the zero before the point.\<close>

lemma bc_out_num_base10:
  assumes "bc_canon n" and "bc_val n \<noteq> 0"
    and ip: "ip = seg (n_value n) 0 (n_len n)" and fp: "fp = seg (n_value n) (n_len n) (n_scale n)"
  shows "bc_out_num n 10 lz = Some ((if n_sign n = MINUS then ''-'' else []) @ (if ip = [0] then [] else map bcd_char ip)
           @ (if fp = [] then [] else CHR ''.'' # map bcd_char fp))"
proof -
  note wf = bc_canonD(2) [OF assms(1)]
  note d = bc_wfD [OF wf]
  have z: "bc_is_zero n = Some False" using bc_is_zero_val [OF wf] assms(2) by simp
  have rd0: "rd (n_value n) 0 = Some (n_value n ! 0)" using d(5) by (simp add: rd_def)
  have l: "length ip = n_len n" "length fp = n_scale n" using d(2,4) by (simp_all add: ip fp)
  have cond: "(n_len n > 1 \<or> n_value n ! 0 \<noteq> 0) \<longleftrightarrow> ip \<noteq> [0]"
  proof -
    obtain k where k: "n_len n = Suc k" using d(1) by (cases "n_len n") auto
    then have "ip = n_value n ! 0 # seg (n_value n) 1 k" using d(5) by (simp add: ip seg_Cons)
    then show ?thesis using l(1) k by (cases k) auto
  qed
  have n1: "(if ip \<noteq> [0] then int (n_len n) else 1) = int (n_len n)" using l(1) by auto
  have o1: "out_chars (n_len n) (n_value n) 0 = Some (map bcd_char ip)"
    using out_chars_spec [of 0 "n_len n" "n_value n"] d(4) ip by simp
  have o2: "out_chars (n_scale n) (n_value n) (int (n_len n)) = Some (map bcd_char fp)"
    using out_chars_spec [of "n_len n" "n_scale n" "n_value n"] d(2) fp by simp
  have f0: "fp = [] \<longleftrightarrow> \<not> 0 < n_scale n" using l(2) by auto
  have "out_base10 n lz = Some ((if ip = [0] then [] else map bcd_char ip) @ (if fp = [] then [] else CHR ''.'' # map bcd_char fp))"
    unfolding out_base10_def Let_def rd0 Option.bind.simps cond n1 z
    using o1 o2 f0 by auto
  then show ?thesis using z by (simp add: bc_out_num_def Let_def)
qed

subsection \<open>Integers as numbers\<close>

definition is_int :: "bc_num \<Rightarrow> int \<Rightarrow> bool" where
  "is_int n x \<longleftrightarrow> bc_canon n \<and> n_scale n = 0 \<and> bc_val n = of_int x"

lemma is_intD:
  assumes "is_int n x"
  shows "bc_canon n" "bc_wf n" "n_scale n = 0" "bc_val n = of_int x" "mag n = \<bar>x\<bar>" "prefix_val n 0 = \<bar>x\<bar>"
    "n_sign n = (if x < 0 then MINUS else PLUS)"
proof -
  show c: "bc_canon n" and s: "n_scale n = 0" and v: "bc_val n = of_int x" using assms by (auto simp: is_int_def)
  then show wf: "bc_wf n" by (auto dest: bc_canonD)
  note m = mag_of_val [OF wf s v]
  show "mag n = \<bar>x\<bar>" by (rule m(1))
  then show "prefix_val n 0 = \<bar>x\<bar>" using s by (simp add: prefix_val_def mag_def)
  show "n_sign n = (if x < 0 then MINUS else PLUS)"
    using m c sign_cases [of n] by (cases "x = 0") (auto simp: bc_canon_def)
qed

lemma scale0_is_int: "bc_canon n \<Longrightarrow> n_scale n = 0 \<Longrightarrow> \<exists>x. is_int n x"
  unfolding is_int_def bc_val_def bc_abs_def by (auto simp flip: of_int_minus)

lemma is_int_zero: "is_int bc_zero 0"
  by (simp add: is_int_def bc_zero_def bc_new_num_def bc_canon_def bc_lead_def bc_wf_def bc_val_def bc_abs_def
      mag_def seg_def digit_def)

lemma is_int_one: "is_int bc_one 1"
  by (simp add: is_int_def bc_one_def bc_new_num_def bc_canon_def bc_lead_def bc_wf_def bc_val_def bc_abs_def
      mag_def seg_def digit_def)

lemma is_int_long: "is_int n x \<Longrightarrow> \<bar>x\<bar> \<le> 2147483649 \<Longrightarrow> bc_num2long n = Some x"
  using is_intD(6,7) [of n x] bc_num2long_spec [OF is_intD(2), of n x] by auto

lemma is_int_of_int: "- (2 ^ 31) < x \<Longrightarrow> x < 2 ^ 31 \<Longrightarrow> \<exists>n. bc_int2num x = Some n \<and> is_int n x"
  using bc_int2num_spec [of x] by (auto simp: is_int_def)

lemma is_int_is_zero: "is_int n x \<Longrightarrow> bc_is_zero n = Some (x = 0)"
  using bc_is_zero_val [OF is_intD(2), of n x] is_intD(4) [of n x] by simp

lemma is_int_multiply:
  assumes "is_int a x" and "is_int b y"
  shows "\<exists>r. bc_multiply a b s = Some r \<and> is_int r (x * y)"
proof -
  note a = is_intD [OF assms(1)] and b = is_intD [OF assms(2)]
  obtain r where r: "bc_multiply a b s = Some r" using bc_multiply_spec [OF a(2) b(2) refl, of s] by blast
  note v = bc_multiply_val [OF a(2) b(2) r]
  have ps: "prod_scale a b s = 0" using a(3) b(3) by (simp add: prod_scale_def)
  then have "bc_val r = of_int (x * y)" using v(5) a(3,4) b(3,4) by simp
  then show ?thesis using r v(1,2) ps by (simp add: is_int_def)
qed

lemma rat_div_mod:
  fixes x y q r :: int
  assumes "0 < y" and "0 \<le> x" and "(of_int x :: rat) = of_int q * of_int y + of_int r"
    and "\<bar>of_int r :: rat\<bar> < of_int y" and "0 \<le> (of_int x :: rat) * of_int r"
  shows "q = x div y" "r = x mod y"
proof -
  have e: "x = q * y + r" using assms(3) by (metis of_int_add of_int_eq_iff of_int_mult)
  have b: "\<bar>r\<bar> < y" using assms(4) by (metis of_int_abs of_int_less_iff)
  have "0 \<le> x * r" using assms(5) by (metis of_int_0_le_iff of_int_mult)
  then have "0 \<le> r \<or> x = 0" using assms(2) by (auto simp: zero_le_mult_iff)
  then have r: "0 \<le> r"
  proof
    assume x: "x = 0"
    have "y dvd r" using e x by (metis add_0 add_eq_0_iff dvd_minus_iff dvd_triv_right)
    then show ?thesis using b assms(1) zdvd_not_zless [of "\<bar>r\<bar>" y] by (cases "r = 0") auto
  qed
  show "q = x div y" "r = x mod y" using e b r assms(1) by auto
qed

lemma is_int_divmod:
  assumes "is_int a x" and "is_int b y" and "0 \<le> x" and "0 < y"
  shows "\<exists>q r. bc_divide a b 0 = Some (Ret_ok q) \<and> bc_modulo a b 0 = Some (Ret_ok r)
           \<and> bc_divmod a b 0 = Some (Ret_ok (q, r)) \<and> is_int q (x div y) \<and> is_int r (x mod y)"
proof -
  note a = is_intD [OF assms(1)] and b = is_intD [OF assms(2)]
  have nz: "mag b \<noteq> 0" using b(5) assms(4) by simp
  obtain q r where qr: "bc_divmod a b 0 = Some (Ret_ok (q, r))" "bc_divide a b 0 = Some (Ret_ok q)"
    "bc_canon q" "bc_canon r" "n_scale q = 0" "n_scale r = max (n_scale a) (n_scale b + 0)"
    "bc_val a = bc_val q * bc_val b + bc_val r" "\<bar>bc_val r\<bar> < \<bar>bc_val b\<bar> / 10 ^ 0" "0 \<le> bc_val a * bc_val r"
    using bc_divmod_spec [OF a(1) b(2) nz, of 0] by blast
  obtain u where u: "is_int q u" using scale0_is_int [OF qr(3,5)] by blast
  obtain w where w: "is_int r w" using scale0_is_int [OF qr(4)] qr(6) a(3) b(3) by auto
  have "u = x div y" "w = x mod y"
    using rat_div_mod [OF assms(4,3), of u w] qr(7-9) is_intD(4) [OF u] is_intD(4) [OF w] a(4) b(4) assms(4) by simp_all
  moreover have "bc_modulo a b 0 = Some (Ret_ok r)" using qr(1) by (simp add: bc_modulo_def)
  ultimately show ?thesis using qr(1,2) u w by blast
qed

subsection \<open>Digits in another base\<close>

definition base_val :: "int \<Rightarrow> int list \<Rightarrow> int" where
  "base_val b ds = foldl (\<lambda>a d. a * b + d) 0 ds"

lemma base_val_simps [simp]: "base_val b [] = 0" "base_val b (ds @ [d]) = base_val b ds * b + d"
  by (simp_all add: base_val_def)

definition base_digits :: "int \<Rightarrow> int list \<Rightarrow> bool" where
  "base_digits b ds \<longleftrightarrow> (\<forall>d \<in> set ds. 0 \<le> d \<and> d < b)"

lemma out_int_loop_spec:
  assumes "is_int n x" and "is_int base b" and "0 \<le> x" and "2 \<le> b" and "b \<le> 2147483647"
  shows "\<exists>es. out_int_loop n cur base stk = Some (es @ stk) \<and> base_digits b es \<and> base_val b es = x
           \<and> (es = [] \<longleftrightarrow> x = 0) \<and> (es \<noteq> [] \<longrightarrow> hd es \<noteq> 0)"
  using assms(1,3)
proof (induction "nat x" arbitrary: n x cur stk rule: less_induct)
  case less
  show ?case
  proof (cases "x = 0")
    case True
    then show ?thesis
      using is_int_is_zero [OF less.prems(1)] by (subst out_int_loop.simps) (simp add: base_digits_def)
  next
    case False
    have bp: "0 < b" using assms(4) by simp
    obtain q r where qr: "bc_divide n base 0 = Some (Ret_ok q)" "bc_modulo n base 0 = Some (Ret_ok r)"
      "is_int q (x div b)" "is_int r (x mod b)"
      using is_int_divmod [OF less.prems(1) assms(2) less.prems(2) bp] by blast
    have lt: "x div b < x" using False less.prems(2) assms(4) by (intro int_div_less_self) auto
    have xb: "0 \<le> x div b" using less.prems(2) bp by (simp add: pos_imp_zdiv_nonneg_iff)
    have md: "0 \<le> x mod b" "x mod b < b" using bp by simp_all
    have long: "bc_num2long r = Some (x mod b)" using is_int_long [OF qr(4)] md assms(5) by simp
    obtain es where es: "out_int_loop q r base (x mod b # stk) = Some (es @ x mod b # stk)" "base_digits b es"
      "base_val b es = x div b" "es = [] \<longleftrightarrow> x div b = 0" "es \<noteq> [] \<longrightarrow> hd es \<noteq> 0"
    proof -
      have "nat (x div b) < nat x" using lt xb by simp
      from less.hyps [OF this qr(3) xb, of r "x mod b # stk"] show ?thesis by (elim exE conjE) (rule that)
    qed
    have "out_int_loop n cur base stk = Some ((es @ [x mod b]) @ stk)"
      using is_int_is_zero [OF less.prems(1)] False qr(1,2) long es(1)
      by (subst out_int_loop.simps) (simp add: ret_or_def)
    moreover have "base_val b (es @ [x mod b]) = x" using es(3) by simp
    moreover have "es = [] \<Longrightarrow> x mod b \<noteq> 0" using es(4) False div_mult_mod_eq [of x b] by auto
    ultimately show ?thesis
      using es(2,5) md False by (intro exI [of _ "es @ [x mod b]"]) (auto simp: base_digits_def hd_append)
  qed
qed

fun out_fracs :: "int \<Rightarrow> nat \<Rightarrow> bool \<Rightarrow> int list \<Rightarrow> char list option" where
  "out_fracs o_base width pre_space [] = Some []"
| "out_fracs o_base width pre_space (d # ds) = do {
     c \<leftarrow> out_digit o_base width pre_space d;
     cs \<leftarrow> out_fracs o_base width (if o_base \<le> 16 then pre_space else True) ds;
     Some (c @ cs)
   }"

lemma out_digit_defined: "0 \<le> d \<Longrightarrow> d < b \<Longrightarrow> \<exists>c. out_digit b w sp d = Some c"
  by (simp add: out_digit_def rd_def ref_str_def)

lemma out_stack_defined: "base_digits b ds \<Longrightarrow> \<exists>cs. out_stack b w ds = Some cs"
  using out_digit_defined [of _ b w True] by (induction ds) (fastforce simp: base_digits_def)+

lemma base_val_foldl: "foldl (\<lambda>a d. a * b + d) c ds = c * b ^ length ds + base_val b ds"
  by (induction ds rule: rev_induct) (simp_all add: base_val_def algebra_simps)

lemma base_val_Cons: "base_val b (d # ds) = d * b ^ length ds + base_val b ds"
  using base_val_foldl [of b d ds] by (simp add: base_val_def)

lemma is_int_len:
  assumes "is_int t x" and "1 \<le> x"
  shows "n_len t \<le> S \<longleftrightarrow> x < 10 ^ S"
proof -
  note t = is_intD [OF assms(1)]
  have xp: "x = prefix_val t 0" using t(6) assms(2) by simp
  have up: "x < 10 ^ n_len t" using prefix_val_0_bounds(2) [OF t(2)] xp by simp
  have low: "10 ^ (n_len t - 1) \<le> x"
  proof (cases "n_len t > 1")
    case True
    then show ?thesis using prefix_val_0_lead [OF bc_canonD(1) [OF t(1)]] xp by simp
  next
    case False
    then show ?thesis using assms(2) by simp
  qed
  show ?thesis
  proof
    assume "n_len t \<le> S"
    then have "(10::int) ^ n_len t \<le> 10 ^ S" by (intro power_increasing) auto
    then show "x < 10 ^ S" using up by linarith
  next
    assume x: "x < 10 ^ S"
    show "n_len t \<le> S"
    proof (rule ccontr)
      assume "\<not> ?thesis"
      then have "(10::int) ^ S \<le> 10 ^ (n_len t - 1)" by (intro power_increasing) auto
      then show False using low x by linarith
    qed
  qed
qed

text \<open>One digit of the fraction: the integer part of base times fraction, and what is left.\<close>

lemma frac_step:
  assumes f: "bc_canon f" "n_scale f = S" "0 \<le> bc_val f" "bc_val f < 1"
    and base: "is_int base b" "2 \<le> b" "b \<le> 2147483647" and d: "d = \<lfloor>bc_val f * of_int b\<rfloor>"
  shows "\<exists>g ip h. bc_multiply f base S = Some g \<and> bc_num2long g = Some d \<and> bc_int2num d = Some ip
           \<and> bc_sub g ip 0 = Some h \<and> 0 \<le> d \<and> d < b \<and> bc_canon h \<and> n_scale h = S
           \<and> bc_val h = bc_val f * of_int b - of_int d \<and> 0 \<le> bc_val h \<and> bc_val h < 1"
proof -
  note b = is_intD [OF base(1)]
  obtain g where g: "bc_multiply f base S = Some g"
    using bc_multiply_spec [OF bc_canonD(2) [OF f(1)] b(2) refl, of S] by blast
  note gv = bc_multiply_val [OF bc_canonD(2) [OF f(1)] b(2) g]
  have ps: "prod_scale f base S = S" using f(2) b(3) by (simp add: prod_scale_def)
  have v: "bc_val g = bc_val f * of_int b" using gv(5) ps f(2) b(3,4) by simp
  have bp: "0 < (of_int b :: rat)" using base(2) by simp
  have vb: "0 \<le> bc_val g" "bc_val g < of_int b"
    unfolding v using f(3) bp mult_strict_right_mono [OF f(4) bp] by simp_all
  have db: "0 \<le> d" "d < b" using vb unfolding d v by (simp_all add: floor_less_iff)
  have plus: "n_sign g = PLUS"
  proof (rule ccontr)
    assume "n_sign g \<noteq> PLUS"
    then have "n_sign g = MINUS" using sign_cases [of g] by simp
    from canon_minus_pos [OF gv(1) this] this vb(1) show False by (simp add: bc_val_def)
  qed
  then have abs: "bc_abs g = bc_val g" by (simp add: bc_val_def)
  have "n_sign g = PLUS \<or> prefix_val g 0 = 0" using plus by simp
  moreover have "prefix_val g 0 = d" using bc_abs_floor [OF bc_canonD(2) [OF gv(1)]] abs v d by simp
  ultimately have long: "bc_num2long g = Some d"
  proof -
    have "d \<le> 2147483649" using db base(3) by linarith
    then show ?thesis using bc_num2long_spec [OF bc_canonD(2) [OF gv(1)]] \<open>prefix_val g 0 = d\<close>
        \<open>n_sign g = PLUS \<or> prefix_val g 0 = 0\<close> by (simp split: if_splits)
  qed
  obtain ip where ip: "bc_int2num d = Some ip" "is_int ip d" using is_int_of_int [of d] db base(3) by auto
  note iv = is_intD [OF ip(2)]
  obtain h where h: "bc_sub g ip 0 = Some h" "bc_canon h" "bc_val h = bc_val g - bc_val ip"
    "n_scale h = max (max (n_scale g) (n_scale ip)) 0" using bc_sub_spec [OF gv(1) iv(1), of 0] by blast
  have "n_scale h = S" using h(4) gv(2) ps iv(3) by simp
  moreover have hv: "bc_val h = bc_val f * of_int b - of_int d" using h(3) v iv(4) by simp
  moreover have "0 \<le> bc_val h" "bc_val h < 1" unfolding hv d by linarith+
  ultimately show ?thesis using g long ip(1) h(1,2) db by blast
qed

lemma out_frac_loop_spec:
  assumes "is_int t x" and "1 \<le> x" and "bc_canon f" and "n_scale f = S" and "0 \<le> bc_val f" and "bc_val f < 1"
    and base: "is_int base b" "2 \<le> b" "b \<le> 2147483647"
  shows "\<exists>gs cs. out_frac_loop t f base S b w sp out = Some (out @ cs) \<and> out_fracs b w sp gs = Some cs
           \<and> base_digits b gs \<and> base_val b gs = \<lfloor>bc_val f * of_int b ^ length gs\<rfloor>
           \<and> 10 ^ S \<le> x * b ^ length gs \<and> (gs \<noteq> [] \<longrightarrow> x * b ^ (length gs - 1) < 10 ^ S)"
  using assms(1-6)
proof (induction "nat (10 ^ S - x)" arbitrary: t x f sp out rule: less_induct)
  case less
  note len = is_int_len [OF less.prems(1,2), of S]
  show ?case
  proof (cases "x < 10 ^ S")
    case False
    then have "out_frac_loop t f base S b w sp out = Some (out @ [])"
      using len by (subst out_frac_loop.simps) simp
    then show ?thesis
      using False less.prems(5,6)
      by (intro exI [of _ "[]"] exI [of _ "[]"]) (simp add: base_digits_def floor_eq_iff)
  next
    case True
    define d where d: "d = \<lfloor>bc_val f * of_int b\<rfloor>"
    obtain g ip h where s: "bc_multiply f base S = Some g" "bc_num2long g = Some d" "bc_int2num d = Some ip"
      "bc_sub g ip 0 = Some h" "0 \<le> d" "d < b" "bc_canon h" "n_scale h = S"
      "bc_val h = bc_val f * of_int b - of_int d" "0 \<le> bc_val h" "bc_val h < 1"
      using frac_step [OF less.prems(3-6) base d] by blast
    obtain c where c: "out_digit b w sp d = Some c" using out_digit_defined [OF s(5,6)] by blast
    obtain t' where t': "bc_multiply t base 0 = Some t'" "is_int t' (x * b)"
      using is_int_multiply [OF less.prems(1) base(1), of 0] by blast
    let ?sp = "if b \<le> 16 then sp else True"
    have x1: "x * 1 < x * b" using less.prems(2) base(2) by (intro mult_strict_left_mono) auto
    then have dec: "nat (10 ^ S - x * b) < nat (10 ^ S - x)" "1 \<le> x * b"
    proof -
      show "1 \<le> x * b" using x1 less.prems(2) by linarith
      show "nat (10 ^ S - x * b) < nat (10 ^ S - x)" using x1 True by linarith
    qed
    obtain gs cs where IH: "out_frac_loop t' h base S b w ?sp (out @ c) = Some ((out @ c) @ cs)"
      "out_fracs b w ?sp gs = Some cs" "base_digits b gs" "base_val b gs = \<lfloor>bc_val h * of_int b ^ length gs\<rfloor>"
      "10 ^ S \<le> x * b * b ^ length gs" "gs \<noteq> [] \<longrightarrow> x * b * b ^ (length gs - 1) < 10 ^ S"
      using less.hyps [OF dec(1) t'(2) dec(2) s(7,8,10,11), of ?sp "out @ c"] by blast
    have run: "out_frac_loop t f base S b w sp out = Some (out @ c @ cs)"
      using True len s(1-4) c t'(1) IH(1) by (subst out_frac_loop.simps) simp
    have "of_int d * of_int b ^ length gs + bc_val h * of_int b ^ length gs = bc_val f * of_int b ^ Suc (length gs)"
      unfolding s(9) by (simp add: algebra_simps)
    then have "base_val b (d # gs) = \<lfloor>bc_val f * of_int b ^ length (d # gs)\<rfloor>"
      using IH(4) floor_add_int [of "bc_val h * of_int b ^ length gs" "d * b ^ length gs"]
      by (simp add: base_val_Cons add.commute)
    moreover have "x * b ^ length gs < 10 ^ S"
      using IH(6) True by (cases gs) (auto simp: mult.assoc)
    ultimately show ?thesis
      using run c IH(2,3,5) s(5,6) True
      by (intro exI [of _ "d # gs"] exI [of _ "c @ cs"]) (auto simp: base_digits_def mult.assoc)
  qed
qed

text \<open>
  Another base: the integer part in its digits, the fraction in as many digits as the decimal
  fraction needs.
\<close>

lemma trunc_parts:
  assumes c: "bc_canon n"
  shows "\<exists>q f. bc_divide n bc_one 0 = Some (Ret_ok q) \<and> bc_sub n q 0 = Some f
           \<and> is_int (q\<lparr>n_sign := PLUS\<rparr>) \<lfloor>bc_abs n\<rfloor>
           \<and> bc_canon (f\<lparr>n_sign := PLUS\<rparr>) \<and> n_scale f = n_scale n
           \<and> bc_val (f\<lparr>n_sign := PLUS\<rparr>) = bc_abs n - of_int \<lfloor>bc_abs n\<rfloor>"
proof -
  note one = is_intD [OF is_int_one]
  have nz: "mag bc_one \<noteq> 0" using one(5) by simp
  obtain q where q: "bc_divide n bc_one 0 = Some (Ret_ok q)" "bc_canon q" "n_scale q = 0"
    "mag q = quot_mag n bc_one 0"
    "mag q \<noteq> 0 \<longrightarrow> n_sign q = (if n_sign n = n_sign bc_one then PLUS else MINUS)"
    using bc_divide_spec [OF bc_canonD(2) [OF c] one(2) nz, of 0] by blast
  have fl: "mag q = \<lfloor>bc_abs n\<rfloor>"
  proof -
    have "bc_abs n = of_int (mag n) / of_int (10 ^ n_scale n)" by (simp add: bc_abs_def)
    then have "\<lfloor>bc_abs n\<rfloor> = mag n div 10 ^ n_scale n" by (simp only: floor_divide_of_int_eq)
    then show ?thesis unfolding q(4) quot_mag_def using one(3,5) by simp
  qed
  obtain f where f: "bc_sub n q 0 = Some f" "bc_canon f" "bc_val f = bc_val n - bc_val q"
    "n_scale f = max (max (n_scale n) (n_scale q)) 0" using bc_sub_spec [OF c q(2), of 0] by blast
  have vq: "bc_val q = (if n_sign n = PLUS then of_int (mag q) else - of_int (mag q))"
  proof (cases "mag q = 0")
    case True
    then show ?thesis by (simp add: bc_val_eq_0_iff)
  next
    case False
    then show ?thesis using q(3,5) one(7) sign_cases [of n] by (auto simp: bc_val_def bc_abs_def)
  qed
  let ?q = "q\<lparr>n_sign := PLUS\<rparr>" and ?f = "f\<lparr>n_sign := PLUS\<rparr>"
  have canon: "bc_canon ?q" "bc_canon ?f"
    using signed_result(1) [OF bc_canonD(1) [OF q(2)], of PLUS] signed_result(1) [OF bc_canonD(1) [OF f(2)], of PLUS] by simp_all
  have "bc_val ?q = of_int \<lfloor>bc_abs n\<rfloor>"
    using fl q(3) by (simp add: bc_val_def bc_abs_def mag_def)
  then have iq: "is_int ?q \<lfloor>bc_abs n\<rfloor>" using canon(1) q(3) by (simp add: is_int_def)
  have "bc_val ?f = \<bar>bc_val f\<bar>"
    using mag_nonneg [OF bc_canonD(2) [OF f(2)]] by (simp add: bc_val_def bc_abs_def mag_def)
  also have "\<dots> = bc_abs n - of_int \<lfloor>bc_abs n\<rfloor>"
  proof -
    have "bc_val f = (if n_sign n = PLUS then bc_abs n - of_int (mag q) else - (bc_abs n - of_int (mag q)))"
      unfolding f(3) vq by (simp add: bc_val_def)
    moreover have "of_int (mag q) \<le> bc_abs n" unfolding fl by simp
    ultimately show ?thesis unfolding fl by simp
  qed
  finally show ?thesis using q(1) f(1,4) canon(2) iq q(3) by auto
qed

subsection \<open>The text of a number in another base\<close>

text \<open>
  Up to base 16 a digit is a character; in larger bases it is a group of \<open>w\<close> decimal digits, and a space is in front of every group
  of the integer part and between the groups of the fraction.
\<close>

definition group_text :: "nat \<Rightarrow> int \<Rightarrow> string" where
  "group_text w d = map (\<lambda>j. ''0123456789'' ! nat (d div 10 ^ (w - 1 - j) mod 10)) [0..<w]"

definition int_text :: "int \<Rightarrow> nat \<Rightarrow> int list \<Rightarrow> string" where
  "int_text b w ds = (if b \<le> 16 then map (\<lambda>d. ''0123456789ABCDEF'' ! nat d) ds else concat (map (\<lambda>d. '' '' @ group_text w d) ds))"

definition frac_text :: "int \<Rightarrow> nat \<Rightarrow> int list \<Rightarrow> string" where
  "frac_text b w ds = (if b \<le> 16 then int_text b w ds else drop 1 (int_text b w ds))"

lemma digit_char: "0 \<le> d \<Longrightarrow> d < 10 \<Longrightarrow> bcd_char d = ''0123456789'' ! nat d"
proof -
  assume "0 \<le> d" "d < 10"
  then have "d = 0 \<or> d = 1 \<or> d = 2 \<or> d = 3 \<or> d = 4 \<or> d = 5 \<or> d = 6 \<or> d = 7 \<or> d = 8 \<or> d = 9" by presburger
  then show ?thesis by (elim disjE) (simp_all add: bcd_char_def char_of_def bit_iff_odd)
qed

lemma group_text_snoc: "0 \<le> d \<Longrightarrow> group_text (Suc w) d = group_text w (d div 10) @ [bcd_char (d mod 10)]"
proof -
  assume d: "0 \<le> d"
  have "d div 10 ^ (w - j) = d div 10 div 10 ^ (w - 1 - j)" if "j < w" for j
  proof -
    have "w - j = Suc (w - 1 - j)" using that by simp
    then show ?thesis by (simp add: zdiv_zmult2_eq)
  qed
  then show ?thesis using digit_char [of "d mod 10"] by (simp add: group_text_def)
qed

lemma padded_group: "0 < w \<Longrightarrow> n < 10 ^ w \<Longrightarrow> replicate (w - length (dec_str n)) (CHR ''0'') @ dec_str n = group_text w (int n) \<and> length (dec_str n) \<le> w"
proof (induction w arbitrary: n)
  case (Suc w)
  have g: "group_text (Suc w) (int n) = group_text w (int (n div 10)) @ [bcd_char (int (n mod 10))]"
    using group_text_snoc [of "int n" w] by (simp add: zdiv_int zmod_int)
  show ?case
  proof (cases "n < 10")
    case True
    have "group_text w 0 = replicate w (CHR ''0'')" by (simp add: group_text_def map_replicate_const)
    then show ?thesis using True unfolding g by (subst (1 2 3) dec_str.simps) simp
  next
    case False
    then have "n div 10 < 10 ^ w" "0 < w" using Suc.prems by (auto intro!: Nat.gr0I)
    then show ?thesis using Suc.IH [of "n div 10"] False unfolding g by (subst (1 2 3) dec_str.simps) simp
  qed
qed simp

lemma out_digit_text:
  assumes "0 \<le> d" "d < b" "b - 1 < 10 ^ w" "0 < w"
  shows "out_digit b w sp d = Some (if b \<le> 16 then [''0123456789ABCDEF'' ! nat d] else (if sp then '' '' else []) @ group_text w d)"
proof (cases "b \<le> 16")
  case True
  have "nat d < 16" using assms True by simp
  then have "ref_str ! nat d = ''0123456789ABCDEF'' ! nat d" unfolding ref_str_def by (subst nth_append) simp
  then show ?thesis using True assms(1,2) by (simp add: out_digit_def rd_def ref_str_def)
next
  case False
  have "int (nat d) < 10 ^ w" using assms by simp
  then have "nat d < 10 ^ w" by (metis of_nat_less_iff of_nat_numeral of_nat_power)
  then show ?thesis using padded_group [OF assms(4), of "nat d"] False assms(1) by (simp add: out_digit_def bc_out_long_def long_str_def)
qed

lemma out_stack_text: "base_digits b ds \<Longrightarrow> b - 1 < 10 ^ w \<Longrightarrow> 0 < w \<Longrightarrow> out_stack b w ds = Some (int_text b w ds)"
  by (induction ds) (simp_all add: base_digits_def int_text_def out_digit_text)

lemma out_fracs_text: "base_digits b ds \<Longrightarrow> b - 1 < 10 ^ w \<Longrightarrow> 0 < w \<Longrightarrow> out_fracs b w sp ds =
    Some (if b \<le> 16 \<or> sp then int_text b w ds else drop 1 (int_text b w ds))"
  by (induction ds arbitrary: sp) (simp_all add: base_digits_def int_text_def out_digit_text)

lemma bc_out_num_other:
  assumes c: "bc_canon n" and nz: "bc_val n \<noteq> 0" and b: "2 \<le> b" "b \<le> 2147483647" "b \<noteq> 10"
  shows "\<exists>es gs w. bc_out_num n b lz = Some ((if n_sign n = MINUS then ''-'' else []) @ int_text b w es
              @ (if n_scale n > 0 then CHR ''.'' # frac_text b w gs else []))
           \<and> 0 < w \<and> 10 ^ (w - 1) \<le> b - 1 \<and> b - 1 < 10 ^ w \<and> base_digits b es \<and> base_digits b gs
           \<and> base_val b es = \<lfloor>bc_abs n\<rfloor>
           \<and> base_val b gs = \<lfloor>(bc_abs n - of_int \<lfloor>bc_abs n\<rfloor>) * of_int b ^ length gs\<rfloor>
           \<and> 10 ^ n_scale n \<le> b ^ length gs \<and> (gs \<noteq> [] \<longrightarrow> b ^ (length gs - 1) < 10 ^ n_scale n)
           \<and> (es \<noteq> [] \<longrightarrow> hd es \<noteq> 0)"
proof -
  obtain q f where qf: "bc_divide n bc_one 0 = Some (Ret_ok q)" "bc_sub n q 0 = Some f"
    "is_int (q\<lparr>n_sign := PLUS\<rparr>) \<lfloor>bc_abs n\<rfloor>" "bc_canon (f\<lparr>n_sign := PLUS\<rparr>)" "n_scale f = n_scale n"
    "bc_val (f\<lparr>n_sign := PLUS\<rparr>) = bc_abs n - of_int \<lfloor>bc_abs n\<rfloor>" using trunc_parts [OF c] by blast
  obtain base where base: "bc_int2num b = Some base" "is_int base b" using is_int_of_int [of b] b by auto
  obtain mx where mx: "bc_int2num (b - 1) = Some mx" "is_int mx (b - 1)" using is_int_of_int [of "b - 1"] b by auto
  define w where "w = n_len mx"
  have w0: "0 < w" using bc_wfD(1) [OF is_intD(2) [OF mx(2)]] by (simp add: w_def)
  have "\<not> w \<le> w - 1" using w0 by simp
  then have w: "10 ^ (w - 1) \<le> b - 1" "b - 1 < 10 ^ w"
    using is_int_len [OF mx(2), of w] is_int_len [OF mx(2), of "w - 1"] b(1) unfolding w_def [symmetric] not_less [symmetric] by simp_all
  have nn: "0 \<le> \<lfloor>bc_abs n\<rfloor>" using bc_abs_nonneg [OF bc_canonD(2) [OF c]] by simp
  obtain es where es: "out_int_loop (q\<lparr>n_sign := PLUS\<rparr>) bc_zero base [] = Some (es @ [])" "base_digits b es"
    "base_val b es = \<lfloor>bc_abs n\<rfloor>" "es \<noteq> [] \<longrightarrow> hd es \<noteq> 0"
    using out_int_loop_spec [OF qf(3) base(2) nn b(1,2), of bc_zero "[]"] by blast
  have ip: "out_stack b (n_len mx) es = Some (int_text b w es)" unfolding w_def [symmetric] by (rule out_stack_text [OF es(2) w(2) w0])
  have fr: "0 \<le> bc_val (f\<lparr>n_sign := PLUS\<rparr>)" "bc_val (f\<lparr>n_sign := PLUS\<rparr>) < 1" unfolding qf(6) by linarith+
  obtain gs cs where gs: "out_frac_loop bc_one (f\<lparr>n_sign := PLUS\<rparr>) base (n_scale n) b (n_len mx) False ''.'' = Some (''.'' @ cs)"
    "out_fracs b (n_len mx) False gs = Some cs" "base_digits b gs"
    "base_val b gs = \<lfloor>bc_val (f\<lparr>n_sign := PLUS\<rparr>) * of_int b ^ length gs\<rfloor>" "10 ^ n_scale n \<le> 1 * b ^ length gs"
    "gs \<noteq> [] \<longrightarrow> 1 * b ^ (length gs - 1) < 10 ^ n_scale n"
    using out_frac_loop_spec [OF is_int_one _ qf(4) _ fr base(2) b(1,2), of "n_scale n" "n_len mx" False "''.''"] qf(5) by auto
  have cs: "cs = frac_text b w gs" using gs(2) out_fracs_text [OF gs(3) w(2) w0, of False] by (simp add: frac_text_def flip: w_def)
  have z: "bc_is_zero n = Some False" using bc_is_zero_val [OF bc_canonD(2) [OF c]] nz by simp
  have "out_other n b lz = Some (int_text b w es @ (if n_scale n > 0 then CHR ''.'' # cs else []))"
    using z qf(1,2) base(1) mx(1) es(1) ip gs(1) by (simp add: out_other_def Let_def ret_or_def)
  then have "bc_out_num n b lz = Some ((if n_sign n = MINUS then ''-'' else []) @ int_text b w es
      @ (if n_scale n > 0 then CHR ''.'' # frac_text b w gs else []))"
    using z b(3) by (simp add: bc_out_num_def Let_def cs)
  then show ?thesis
    using w0 w gs(3-6) es(2-4) unfolding qf(6) mult_1
    by (intro exI [of _ es] exI [of _ gs] exI [of _ w]) simp
qed

section \<open>Properties\<close>

text \<open>
  Converting to a machine integer gives the integer part, with its sign, whenever that is
  at most 2147483649 (one digit more than \<open>LONG_MAX/10\<close>), and 0 otherwise; no intermediate
  value exceeds that bound.
\<close>

theorem bc_num2long_correct:
  assumes "bc_wf n"
  shows "bc_num2long n = Some (if \<lfloor>bc_abs n\<rfloor> \<le> 2147483649
           then (if n_sign n = PLUS then \<lfloor>bc_abs n\<rfloor> else - \<lfloor>bc_abs n\<rfloor>) else 0)"
  using bc_num2long_spec [OF assms] bc_abs_floor [OF assms] by simp

theorem bc_num2long_correct_witness:
  "bc_num2long (num_of MINUS [1, 2] [9]) = Some (-12)
   \<and> bc_num2long (num_of PLUS [2, 1, 4, 7, 4, 8, 3, 6, 5, 0] []) = Some 0"
  using bc_num2long_correct [of "num_of MINUS [1, 2] [9]"]
    bc_num2long_correct [of "num_of PLUS [2, 1, 4, 7, 4, 8, 3, 6, 5, 0] []"]
  by (simp add: num_of_simps bc_abs_def floor_eq_iff)

text \<open>
  An \<open>int\<close> other than \<open>INT_MIN\<close> becomes the canonical number of the same value, and converting
  back gives the \<open>int\<close> again; negating \<open>INT_MIN\<close> is the overflow the code does not guard against.
\<close>

theorem bc_int2num_roundtrip:
  assumes "- (2 ^ 31) < val" and "val < 2 ^ 31"
  shows "\<exists>n. bc_int2num val = Some n \<and> bc_canon n \<and> n_scale n = 0 \<and> bc_val n = of_int val
           \<and> bc_num2long n = Some val \<and> bc_int2num INT_MIN = None"
proof -
  obtain n where n: "bc_int2num val = Some n" "is_int n val" using is_int_of_int [OF assms] by blast
  then show ?thesis
    using is_intD [OF n(2)] is_int_long [OF n(2)] assms by (auto simp: bc_int2num_def)
qed

theorem bc_int2num_roundtrip_witness:
  "\<exists>n. bc_int2num (-305) = Some n \<and> bc_val n = -305 \<and> bc_num2long n = Some (-305)"
  using bc_int2num_roundtrip [of "-305"] by auto

lemma bcd_char_numerals:
  "bcd_char 0 = CHR ''0''" "bcd_char 2 = CHR ''2''" "bcd_char 5 = CHR ''5''" "bcd_char 7 = CHR ''7''"
  by (code_simp, code_simp, code_simp, code_simp)

text \<open>
  Parsing a decimal numeral (an optional sign, any number of leading zeros, integer digits, an
  optional point with a fraction) gives exactly its digits, the fraction cut to the scale;
  a numeral without significant digits is zero.
\<close>

theorem bc_str2num_correct:
  assumes "numeral_ok sg ds dot fs"
  shows "bc_str2num (numeral_str sg z ds dot fs) scale = Some (if ds @ fs = [] then bc_zero
           else num_of (if sg = ''-'' then MINUS else PLUS) (if ds = [] then [0] else ds) (take scale fs))"
  by (rule bc_str2num_spec [OF assms refl])

theorem bc_str2num_correct_witness:
  "bc_str2num (''-007.25'' @ [NUL]) 1 = Some (num_of MINUS [7] [2])"
  using bc_str2num_correct [of "''-''" "[7]" True "[2, 5]" 2 1]
  by (simp add: numeral_ok_def numeral_str_def digit_def bcd_char_numerals numeral_2_eq_2)

text \<open>
  C31: printing a canonical number and parsing the string gives the number back, digit for digit,
  for every scale no smaller than the number's; the string fits the allocated buffer exactly.
\<close>

theorem bc_num2str_roundtrip:
  assumes "bc_canon n" and "n_scale n \<le> scale"
  shows "\<exists>s. bc_num2str n = Some s
           \<and> bc_str2num s scale = Some (n\<lparr>n_value := seg (n_value n) 0 (n_len n + n_scale n)\<rparr>)"
  using assms by (rule bc_str2num_num2str)

theorem bc_num2str_roundtrip_witness:
  "\<exists>s. bc_num2str (num_of MINUS [1, 0] [5]) = Some s \<and> bc_str2num s 3 = Some (num_of MINUS [1, 0] [5])"
proof -
  have "(num_of MINUS [1, 0] [5])\<lparr>n_value := seg (n_value (num_of MINUS [1, 0] [5])) 0 3\<rparr>
      = num_of MINUS [1, 0] [5]"
    by (simp add: num_of_def seg_def)
  then show ?thesis using bc_num2str_roundtrip [of "num_of MINUS [1, 0] [5]" 3]
    by (simp add: num_of_simps numeral_3_eq_3)
qed

text \<open>
  In base 10 a non-zero number is printed as its sign, its integer digits (none if the integer
  part is 0) and, if it has a scale, a point and its fraction digits.
\<close>

theorem bc_out_num_base10_correct:
  assumes "bc_canon n" and "bc_val n \<noteq> 0"
  shows "bc_out_num n 10 lz = Some ((if n_sign n = MINUS then ''-'' else [])
           @ (if seg (n_value n) 0 (n_len n) = [0] then [] else map bcd_char (seg (n_value n) 0 (n_len n)))
           @ (if n_scale n = 0 then [] else CHR ''.'' # map bcd_char (seg (n_value n) (n_len n) (n_scale n))))"
proof -
  have "length (seg (n_value n) (n_len n) (n_scale n)) = n_scale n"
    using bc_wfD(2) [OF bc_canonD(2) [OF assms(1)]] by simp
  then have "seg (n_value n) (n_len n) (n_scale n) = [] \<longleftrightarrow> n_scale n = 0" by (metis length_0_conv)
  then show ?thesis using bc_out_num_base10 [OF assms refl refl, of lz] by simp
qed

theorem bc_out_num_base10_correct_witness:
  "bc_out_num (num_of MINUS [0] [5]) 10 False = Some ''-.5''"
  using bc_out_num_base10_correct [of "num_of MINUS [0] [5]" False]
  by (simp add: num_of_simps seg_def bcd_char_numerals)

text \<open>
  C32: in any other base the output loops return, with the sign, the digits of the integer part in
  that base without leading zeros, most significant first, and, behind a point, the digits of the fraction cut to the least number
  of digits that is at least as fine as the decimal fraction. A digit is one of the characters 0 to F up to base 16; in a larger
  base it is a group of as many decimal digits as the largest digit has, with a space in front of each group, except in front of
  the first group of the fraction.
\<close>

theorem bc_out_num_other_correct:
  assumes "bc_canon n" and "bc_val n \<noteq> 0" and "2 \<le> b" and "b \<le> 2147483647" and "b \<noteq> 10"
  shows "\<exists>es gs w. bc_out_num n b lz = Some ((if n_sign n = MINUS then ''-'' else []) @ int_text b w es
              @ (if n_scale n > 0 then CHR ''.'' # frac_text b w gs else []))
           \<and> 0 < w \<and> 10 ^ (w - 1) \<le> b - 1 \<and> b - 1 < 10 ^ w \<and> base_digits b es \<and> base_digits b gs
           \<and> base_val b es = \<lfloor>bc_abs n\<rfloor>
           \<and> base_val b gs = \<lfloor>(bc_abs n - of_int \<lfloor>bc_abs n\<rfloor>) * of_int b ^ length gs\<rfloor>
           \<and> 10 ^ n_scale n \<le> b ^ length gs \<and> (gs \<noteq> [] \<longrightarrow> b ^ (length gs - 1) < 10 ^ n_scale n)
           \<and> (es \<noteq> [] \<longrightarrow> hd es \<noteq> 0)"
  using assms by (rule bc_out_num_other)

theorem bc_out_num_other_correct_witness:
  "\<exists>es gs. bc_out_num (num_of MINUS [2, 5, 5] [5]) 16 False = Some (''-'' @ map (\<lambda>d. ''0123456789ABCDEF'' ! nat d) es
       @ CHR ''.'' # map (\<lambda>d. ''0123456789ABCDEF'' ! nat d) gs) \<and> base_val 16 es = 255
     \<and> base_val 16 gs = \<lfloor>1 / 2 * 16 ^ length gs :: rat\<rfloor> \<and> 10 \<le> (16::int) ^ length gs"
proof -
  let ?n = "num_of MINUS [2, 5, 5] [5]"
  have n: "bc_canon ?n" "bc_val ?n \<noteq> 0" "\<lfloor>bc_abs ?n\<rfloor> = 255" "bc_abs ?n - of_int 255 = 1 / 2" "n_scale ?n = 1" "n_sign ?n = MINUS"
    by (simp_all add: num_of_simps bc_abs_def floor_eq_iff)
  have b: "(2::int) \<le> 16" "(16::int) \<le> 2147483647" "(16::int) \<noteq> 10" by simp_all
  show ?thesis
    using bc_out_num_other_correct [OF n(1,2) b, of False] unfolding n int_text_def frac_text_def
    by (elim exE conjE, intro exI conjI) (simp, assumption, simp_all)
qed

end
