(* ===== verification/BcPower.thy ===== *)
theory BcPower
  imports BcText
begin

text \<open>
  Powers and roots of \<^verbatim>\<open>usr.bin/bc/number.c\<close>: \<open>bc_raisemod\<close>, \<open>bc_raise\<close> and \<open>bc_sqrt\<close>. The warnings and
  errors these routines report through \<open>bc_rt_warn\<close> and \<open>bc_rt_error\<close> are returned as events;
  neither call leaves the routine.
\<close>

section \<open>Definitions\<close>

datatype rt_event = Rt_warn string | Rt_error string

definition warn_if :: "bool \<Rightarrow> string \<Rightarrow> rt_event list" where
  "warn_if b s = (if b then [Rt_warn s] else [])"

text \<open>The square-and-multiply loop of \<open>bc_raisemod\<close>; the status of the divisions is ignored.\<close>

partial_function (option) raisemod_loop ::
  "bc_num \<Rightarrow> bc_num \<Rightarrow> bc_num \<Rightarrow> bc_num \<Rightarrow> bc_num \<Rightarrow> nat \<Rightarrow> nat \<Rightarrow> bc_num option" where
  "raisemod_loop exponent parity temp pwr modu rscale scale = do {
     z \<leftarrow> bc_is_zero exponent;
     if z then Some temp
     else do {
       qr \<leftarrow> bc_divmod exponent bc_two 0;
       let (exponent, parity) = ret_or qr (exponent, parity);
       pz \<leftarrow> bc_is_zero parity;
       temp \<leftarrow> (if pz then Some temp
                else do {
                  t \<leftarrow> bc_multiply temp pwr rscale;
                  r \<leftarrow> bc_modulo t modu scale;
                  Some (ret_or r t)
                });
       p \<leftarrow> bc_multiply pwr pwr rscale;
       r \<leftarrow> bc_modulo p modu scale;
       raisemod_loop exponent parity temp (ret_or r p) modu rscale scale
     }
   }"

definition bc_raisemod :: "bc_num \<Rightarrow> bc_num \<Rightarrow> bc_num \<Rightarrow> nat \<Rightarrow> (rt_event list \<times> bc_num ret) option" where
  "bc_raisemod base expo modu scale = do {
     z \<leftarrow> bc_is_zero modu;
     if z then Some ([], Ret_minus1)
     else if bc_is_neg expo then Some ([], Ret_minus1)
     else do {
       exponent \<leftarrow> (if n_scale expo \<noteq> 0
                    then do { q \<leftarrow> bc_divide expo bc_one 0; Some (ret_or q expo) }
                    else Some expo);
       temp \<leftarrow> raisemod_loop exponent bc_zero bc_one base modu (max scale (n_scale base)) scale;
       Some (warn_if (n_scale base \<noteq> 0) ''non-zero scale in base''
             @ warn_if (n_scale expo \<noteq> 0) ''non-zero scale in exponent''
             @ warn_if (n_scale modu \<noteq> 0) ''non-zero scale in modulus'', Ret_ok temp)
     }
   }"

text \<open>The scales \<open>pwrscale\<close> and \<open>calcscale\<close> are of type \<open>int\<close>: \<open>None\<close> is their overflow.\<close>

definition int_scale :: "nat \<Rightarrow> nat option" where
  "int_scale k = (if k \<le> 2147483647 then Some k else None)"

text \<open>\<^verbatim>\<open>while ((uexponent & 1) == 0)\<close>: squares out the factors of two; does not end for 0.\<close>

partial_function (option) raise_even :: "bc_num \<Rightarrow> nat \<Rightarrow> nat \<Rightarrow> (bc_num \<times> nat \<times> nat) option" where
  "raise_even pwr pwrscale uexponent = (
     if uexponent mod 2 = 0 then do {
       pwrscale \<leftarrow> int_scale (2 * pwrscale);
       pwr \<leftarrow> bc_multiply pwr pwr pwrscale;
       raise_even pwr pwrscale (uexponent div 2)
     } else Some (pwr, pwrscale, uexponent))"

function raise_loop :: "bc_num \<Rightarrow> nat \<Rightarrow> bc_num \<Rightarrow> nat \<Rightarrow> nat \<Rightarrow> bc_num option" where
  "raise_loop temp calcscale pwr pwrscale uexponent = (
     if uexponent > 0 then do {
       pwrscale \<leftarrow> int_scale (2 * pwrscale);
       pwr \<leftarrow> bc_multiply pwr pwr pwrscale;
       if uexponent mod 2 = 1 then do {
         calcscale \<leftarrow> int_scale (pwrscale + calcscale);
         temp \<leftarrow> bc_multiply temp pwr calcscale;
         raise_loop temp calcscale pwr pwrscale (uexponent div 2)
       }
       else raise_loop temp calcscale pwr pwrscale (uexponent div 2)
     } else Some temp)"
  by pat_completeness auto
termination
  by (relation "measure (\<lambda>(t, c, p, s, u). u)") auto

declare raise_loop.simps [simp del]

text \<open>
  \<open>result\<close> is the previous content of \<open>*result\<close>, which stays when the division fails. The exponent
  error is only reported: the routine goes on with exponent 0.
\<close>

definition bc_raise :: "bc_num \<Rightarrow> bc_num \<Rightarrow> bc_num \<Rightarrow> nat \<Rightarrow> (rt_event list \<times> bc_num) option" where
  "bc_raise num1 num2 result scale = do {
     let warn = warn_if (n_scale num2 \<noteq> 0) ''non-zero scale in exponent'';
     exponent \<leftarrow> bc_num2long num2;
     large \<leftarrow> (if exponent = 0
               then if n_len num2 > 1 then Some True else do { d \<leftarrow> rd (n_value num2) 0; Some (d \<noteq> 0) }
               else Some False);
     let ev = warn @ (if large then [Rt_error ''exponent too large in raise''] else []);
     if exponent = 0 then Some (ev, bc_one)
     else do {
       let neg = (exponent < 0);
       let uexponent = nat \<bar>exponent\<bar>;
       let rscale = (if neg then scale else min (n_scale num1 * uexponent) (max scale (n_scale num1)));
       (pwr, pwrscale, uexponent) \<leftarrow> raise_even num1 (n_scale num1) uexponent;
       temp \<leftarrow> raise_loop pwr pwrscale pwr pwrscale (uexponent div 2);
       if neg then do {
         r \<leftarrow> bc_divide bc_one temp rscale;
         Some (ev, ret_or r result)
       }
       else Some (ev, if n_scale temp > rscale then temp\<lparr>n_scale := rscale\<rparr> else temp)
     }
   }"

text \<open>Newton's iteration of \<open>bc_sqrt\<close>; \<open>point5\<close> is the constant 0.5.\<close>

definition bc_point5 :: bc_num where
  "bc_point5 = (bc_new_num 1 1)\<lparr>n_value := [0, 5]\<rparr>"

definition sqrt_step :: "bc_num \<Rightarrow> bc_num \<Rightarrow> nat \<Rightarrow> (bc_num \<times> bc_num) option" where
  "sqrt_step num guess cscale = do {
     q \<leftarrow> bc_divide num guess cscale;
     s \<leftarrow> bc_add (ret_or q guess) guess 0;
     g \<leftarrow> bc_multiply s bc_point5 cscale;
     diff \<leftarrow> bc_sub g guess (cscale + 1);
     Some (g, diff)
   }"

partial_function (option) sqrt_loop :: "bc_num \<Rightarrow> bc_num \<Rightarrow> nat \<Rightarrow> nat \<Rightarrow> bc_num option" where
  "sqrt_loop num guess cscale rscale = do {
     (guess, diff) \<leftarrow> sqrt_step num guess cscale;
     near \<leftarrow> bc_is_near_zero diff cscale;
     if near then
       if cscale < rscale + 1 then sqrt_loop num guess (min (cscale * 3) (rscale + 1)) rscale
       else Some guess
     else sqrt_loop num guess cscale rscale
   }"

definition sqrt_guess :: "bc_num \<Rightarrow> bc_num option" where
  "sqrt_guess num = do {
     guess \<leftarrow> bc_int2num 10;
     guess1 \<leftarrow> bc_int2num (int (n_len num));
     guess1 \<leftarrow> bc_multiply guess1 bc_point5 0;
     (ev, guess) \<leftarrow> bc_raise guess (guess1\<lparr>n_scale := 0\<rparr>) guess 0;
     Some guess
   }"

text \<open>The result: \<open>None\<close> inside where the C function returns 0 (the argument is negative).\<close>

definition bc_sqrt :: "bc_num \<Rightarrow> nat \<Rightarrow> bc_num option option" where
  "bc_sqrt num scale = do {
     c0 \<leftarrow> bc_compare num bc_zero;
     if c0 < 0 then Some None
     else if c0 = 0 then Some (Some bc_zero)
     else do {
       c1 \<leftarrow> bc_compare num bc_one;
       if c1 = 0 then Some (Some bc_one)
       else do {
         let rscale = max scale (n_scale num);
         guess \<leftarrow> (if c1 < 0 then Some bc_one else sqrt_guess num);
         guess \<leftarrow> sqrt_loop num guess (if c1 < 0 then n_scale num else 3) rscale;
         r \<leftarrow> bc_divide guess bc_one rscale;
         Some (Some (ret_or r num))
       }
     }
   }"

section \<open>Modular powers\<close>

text \<open>The remainder that takes the sign of the dividend, and the product of two such remainders.\<close>

definition trem :: "int \<Rightarrow> int \<Rightarrow> int" where
  "trem x m = sgn x * (\<bar>x\<bar> mod \<bar>m\<bar>)"

lemma trem_mult: "trem (trem x m * y) m = trem (x * y) m"
proof (cases "trem x m = 0")
  case True
  then have "\<bar>x\<bar> mod \<bar>m\<bar> = 0 \<or> x = 0" by (auto simp: trem_def sgn_if split: if_splits)
  then have "m dvd x" by (auto simp: mod_eq_0_iff_dvd)
  then show ?thesis using True by (auto simp: trem_def mod_eq_0_iff_dvd)
next
  case False
  have nn: "0 \<le> \<bar>x\<bar> mod \<bar>m\<bar>" if "m \<noteq> 0" using that by simp
  show ?thesis
  proof (cases "m = 0")
    case True
    then show ?thesis by (simp add: trem_def abs_mult_sgn mult.commute flip: abs_sgn)
  next
    case m: False
    have xm: "x \<noteq> 0" "\<bar>x\<bar> mod \<bar>m\<bar> \<noteq> 0" using False by (auto simp: trem_def)
    have s: "sgn (trem x m) = sgn x"
    proof -
      have "0 < \<bar>x\<bar> mod \<bar>m\<bar>" using nn [OF m] xm(2) by linarith
      then show ?thesis by (simp only: trem_def sgn_mult sgn_sgn sgn_pos mult_1_right)
    qed
    have a: "\<bar>trem x m\<bar> = \<bar>x\<bar> mod \<bar>m\<bar>" using nn [OF m] xm by (simp add: trem_def abs_mult)
    show ?thesis unfolding trem_def [of "_ * y"] sgn_mult s abs_mult a by (simp add: mod_mult_left_eq)
  qed
qed

lemma trem_mult2: "trem (x * trem y m) m = trem (x * y) m"
  using trem_mult [of y m x] by (simp add: mult.commute)

lemma trem_power2: "trem (x * trem y m ^ k) m = trem (x * y ^ k) m"
proof (induction k arbitrary: x)
  case (Suc k)
  have "trem (x * trem y m ^ Suc k) m = trem ((x * trem y m) * trem y m ^ k) m" by (simp add: ac_simps)
  also have "\<dots> = trem ((x * y ^ k) * trem y m) m" unfolding Suc.IH by (simp add: ac_simps)
  also have "\<dots> = trem (x * y ^ Suc k) m" unfolding trem_mult2 by (simp add: ac_simps)
  finally show ?case .
qed simp

lemma trem_idem: "trem (trem x m) m = trem x m"
  using trem_mult [of x m 1] by simp

lemma is_int_modulo:
  assumes "is_int a x" and "is_int b y" and "y \<noteq> 0"
  shows "\<exists>r. bc_modulo a b 0 = Some (Ret_ok r) \<and> is_int r (trem x y)"
proof -
  note a = is_intD [OF assms(1)] and b = is_intD [OF assms(2)]
  have nz: "mag b \<noteq> 0" using b(5) assms(3) by simp
  obtain q r where qr: "bc_divmod a b 0 = Some (Ret_ok (q, r))" "bc_canon q" "bc_canon r" "n_scale q = 0"
    "n_scale r = max (n_scale a) (n_scale b + 0)" "bc_val a = bc_val q * bc_val b + bc_val r"
    "\<bar>bc_val r\<bar> < \<bar>bc_val b\<bar> / 10 ^ 0" "0 \<le> bc_val a * bc_val r"
    using bc_divmod_spec [OF a(1) b(2) nz, of 0] by blast
  obtain u where u: "is_int q u" using scale0_is_int [OF qr(2,4)] by blast
  obtain w where w: "is_int r w" using scale0_is_int [OF qr(3)] qr(5) a(3) b(3) by auto
  note v = is_intD(4) [OF u] is_intD(4) [OF w] a(4) b(4)
  have e: "x = u * y + w" using qr(6) unfolding v by (metis of_int_add of_int_eq_iff of_int_mult)
  have l: "\<bar>w\<bar> < \<bar>y\<bar>" using qr(7) unfolding v power_0 div_by_1 by (metis of_int_abs of_int_less_iff)
  have s: "0 \<le> x * w" using qr(8) unfolding v by (metis of_int_0_le_iff of_int_mult)
  have "w = trem x y"
  proof -
    have ax: "\<bar>x\<bar> = \<bar>u\<bar> * \<bar>y\<bar> + \<bar>w\<bar>"
    proof (cases "u = 0 \<or> w = 0")
      case False
      have "\<bar>w\<bar> < \<bar>u * y\<bar>" using l False mult_le_mono1 [of 1 "nat \<bar>u\<bar>" "nat \<bar>y\<bar>"]
        by (simp add: abs_mult) (metis abs_ge_zero dual_order.strict_trans2 int_one_le_iff_zero_less mult_le_cancel_right1 not_le zero_less_abs_iff)
      then have "0 \<le> u * y * w \<and> \<bar>u * y + w\<bar> = \<bar>u * y\<bar> + \<bar>w\<bar>" using s unfolding e
        by (smt (verit) mult_less_0_iff mult_pos_neg mult_neg_pos zero_le_mult_iff)
      then show ?thesis unfolding e by (simp add: abs_mult)
    qed (use e in \<open>auto simp: abs_mult\<close>)
    then have "\<bar>x\<bar> mod \<bar>y\<bar> = \<bar>w\<bar>" using l by (simp add: mod_pos_pos_trivial)
    moreover have "w = 0 \<or> sgn w = sgn x"
    proof (cases "x = 0")
      case True
      have "0 \<le> \<bar>u\<bar> * \<bar>y\<bar>" by simp
      then show ?thesis using ax True by linarith
    next
      case False
      then show ?thesis using s by (simp add: sgn_if zero_le_mult_iff) linarith
    qed
    ultimately show ?thesis by (metis abs_0 mult_sgn_abs mult_zero_right trem_def)
  qed
  then show ?thesis using qr(1) w by (auto simp: bc_modulo_def)
qed

lemma is_int_two: "is_int bc_two 2"
  by (simp add: is_int_def bc_two_def bc_new_num_def bc_canon_def bc_lead_def bc_wf_def bc_val_def bc_abs_def
      mag_def seg_def digit_def)

lemma raisemod_loop_spec:
  assumes "is_int exponent e" and "0 \<le> e" and "is_int temp t" and "is_int pwr p"
    and m: "is_int modu m" "m \<noteq> 0"
  shows "\<exists>r. raisemod_loop exponent parity temp pwr modu rscale 0 = Some r
           \<and> is_int r (if e = 0 then t else trem (t * p ^ nat e) m)"
  using assms(1-4)
proof (induction "nat e" arbitrary: exponent parity e temp t pwr p rule: less_induct)
  case less
  note z = is_int_is_zero [OF less.prems(1)]
  show ?case
  proof (cases "e = 0")
    case True
    then have "raisemod_loop exponent parity temp pwr modu rscale 0 = Some temp"
      using z by (subst raisemod_loop.simps) simp
    then show ?thesis using less.prems(3) True by simp
  next
    case False
    then have ep: "0 < e" using less.prems(2) by simp
    obtain q r where qr: "bc_divmod exponent bc_two 0 = Some (Ret_ok (q, r))" "is_int q (e div 2)" "is_int r (e mod 2)"
      using is_int_divmod [OF less.prems(1) is_int_two less.prems(2)] by auto
    note rz = is_int_is_zero [OF qr(3)]
    obtain pp where pp: "bc_multiply pwr pwr rscale = Some pp" "is_int pp (p * p)"
      using is_int_multiply [OF less.prems(4,4)] by blast
    obtain pm where pm: "bc_modulo pp modu 0 = Some (Ret_ok pm)" "is_int pm (trem (p * p) m)"
      using is_int_modulo [OF pp(2) m] by blast
    obtain tp where tp: "bc_multiply temp pwr rscale = Some tp" "is_int tp (t * p)"
      using is_int_multiply [OF less.prems(3,4)] by blast
    obtain tm where tm: "bc_modulo tp modu 0 = Some (Ret_ok tm)" "is_int tm (trem (t * p) m)"
      using is_int_modulo [OF tp(2) m] by blast
    let ?t = "if e mod 2 = 0 then temp else tm" and ?tv = "if e mod 2 = 0 then t else trem (t * p) m"
    have t: "is_int ?t ?tv" using less.prems(3) tm(2) by simp
    have run: "raisemod_loop exponent parity temp pwr modu rscale 0 = raisemod_loop q r ?t pm modu rscale 0"
      by (subst raisemod_loop.simps) (simp add: z False qr(1) rz pp(1) pm(1) tp(1) tm(1) ret_or_def)
    have half: "nat (e div 2) < nat e" "0 \<le> e div 2" using ep by linarith+
    obtain s where s: "raisemod_loop q r ?t pm modu rscale 0 = Some s"
      "is_int s (if e div 2 = 0 then ?tv else trem (?tv * trem (p * p) m ^ nat (e div 2)) m)"
      using less.hyps [OF half(1) qr(2) half(2) t pm(2)] by blast
    have "(if e div 2 = 0 then ?tv else trem (?tv * trem (p * p) m ^ nat (e div 2)) m) = trem (t * p ^ nat e) m"
    proof -
      obtain k where k: "e = 2 * int k \<or> e = 2 * int k + 1"
        using ep by (metis mult.commute nonneg_int_cases less_imp_le oddE evenE zero_le_mult_iff
            div_mult_self1_is_m half(2) odd_two_times_div_two_succ dvd_div_mult_self)
      have pk: "(p * p) ^ k = p ^ (2 * k)" by (simp add: power_mult power2_eq_square)
      from k show ?thesis
      proof
        assume e: "e = 2 * int k"
        then have "e mod 2 = 0" "nat e = 2 * k" "e div 2 = int k" "k \<noteq> 0" using ep by auto
        then show ?thesis by (simp add: trem_power2 pk)
      next
        assume e: "e = 2 * int k + 1"
        then have "e mod 2 = 1" "nat e = Suc (2 * k)" "e div 2 = int k" by auto
        then show ?thesis by (simp add: trem_power2 trem_mult pk mult.assoc)
      qed
    qed
    then show ?thesis using run s False by auto
  qed
qed

lemma truncate_nonneg:
  assumes c: "bc_canon n" and sg: "n_sign n = PLUS"
  shows "\<exists>q. bc_divide n bc_one 0 = Some (Ret_ok q) \<and> is_int q \<lfloor>bc_val n\<rfloor>"
proof -
  note one = is_intD [OF is_int_one]
  have nz: "mag bc_one \<noteq> 0" using one(5) by simp
  obtain q where q: "bc_divide n bc_one 0 = Some (Ret_ok q)" "bc_canon q"
    "mag q \<noteq> 0 \<longrightarrow> n_sign q = (if n_sign n = n_sign bc_one then PLUS else MINUS)"
    using bc_divide_spec [OF bc_canonD(2) [OF c] one(2) nz, of 0] by blast
  have "n_sign q = PLUS"
    using q(2,3) sg one(7) sign_cases [of q] by (cases "mag q = 0") (auto simp: bc_canon_def)
  then have "q\<lparr>n_sign := PLUS\<rparr> = q" by simp
  then show ?thesis using trunc_parts [OF c] q(1) sg by (auto simp: bc_val_def)
qed

lemma bc_raisemod_spec:
  assumes c: "bc_canon expo" "n_sign expo = PLUS" and b: "is_int base b" and m: "is_int modu m" "m \<noteq> 0"
    and e: "e = \<lfloor>bc_val expo\<rfloor>"
  shows "\<exists>r. bc_raisemod base expo modu 0
             = Some (warn_if (n_scale expo \<noteq> 0) ''non-zero scale in exponent'', Ret_ok r)
           \<and> is_int r (if e = 0 then 1 else trem (b ^ nat e) m)"
proof -
  have z: "bc_is_zero modu = Some False" using is_int_is_zero [OF m(1)] m(2) by simp
  have neg: "\<not> bc_is_neg expo" using c(2) by (simp add: bc_is_neg_def)
  have sc: "n_scale base = 0" "n_scale modu = 0" using is_intD(3) [OF b] is_intD(3) [OF m(1)] by simp_all
  obtain x where x: "(if n_scale expo \<noteq> 0 then do { q \<leftarrow> bc_divide expo bc_one 0; Some (ret_or q expo) } else Some expo)
      = Some x" "is_int x e"
  proof (cases "n_scale expo = 0")
    case True
    then obtain y where y: "is_int expo y" using scale0_is_int [OF c(1)] by blast
    then have "y = e" unfolding e is_intD(4) [OF y] by simp
    then show ?thesis using that True y by simp
  next
    case False
    obtain q where "bc_divide expo bc_one 0 = Some (Ret_ok q)" "is_int q \<lfloor>bc_val expo\<rfloor>"
      using truncate_nonneg [OF c] by blast
    then show ?thesis using that [of q] False by (simp add: e ret_or_def)
  qed
  have "0 \<le> e" using bc_abs_nonneg [OF bc_canonD(2) [OF c(1)]] c(2) by (simp add: e bc_val_def)
  then obtain r where r: "raisemod_loop x bc_zero bc_one base modu (max 0 (n_scale base)) 0 = Some r"
    "is_int r (if e = 0 then 1 else trem (1 * b ^ nat e) m)"
    using raisemod_loop_spec [OF x(2) _ is_int_one b m] by blast
  have "bc_raisemod base expo modu 0 = Some (warn_if (n_scale expo \<noteq> 0) ''non-zero scale in exponent'', Ret_ok r)"
    unfolding bc_raisemod_def z x(1) sc by (simp add: neg r(1) [simplified sc max.idem] warn_if_def)
  then show ?thesis using r(2) by (auto split: if_splits)
qed

section \<open>Powers\<close>

lemma exact_multiply:
  assumes "bc_canon a" and "bc_canon b" and "n_scale a + n_scale b = s"
  shows "\<exists>r. bc_multiply a b s = Some r \<and> bc_canon r \<and> n_scale r = s \<and> bc_val r = bc_val a * bc_val b"
proof -
  note wf = bc_canonD(2) [OF assms(1)] bc_canonD(2) [OF assms(2)]
  obtain r where r: "bc_multiply a b s = Some r" using bc_multiply_spec [OF wf refl, of s] by blast
  note v = bc_multiply_val [OF wf r]
  have ps: "prod_scale a b s = s" using assms(3) by (simp add: prod_scale_def)
  show ?thesis using r v(1,2) v(5) ps assms(3) by simp
qed

lemma raise_even_spec:
  assumes "bc_canon p" and "n_scale p = s" and "0 < u" and "s * u \<le> 2147483647"
  shows "\<exists>p' k v. raise_even p s u = Some (p', s * 2 ^ k, v) \<and> u = v * 2 ^ k \<and> v mod 2 = 1 \<and> bc_canon p'
           \<and> n_scale p' = s * 2 ^ k \<and> bc_val p' = bc_val p ^ 2 ^ k"
  using assms
proof (induction u arbitrary: p s rule: less_induct)
  case (less u)
  show ?case
  proof (cases "u mod 2 = 0")
    case False
    then have "raise_even p s u = Some (p, s * 2 ^ 0, u)" by (subst raise_even.simps) simp
    then show ?thesis using False less.prems by (intro exI [of _ p] exI [of _ 0] exI [of _ u]) auto
  next
    case True
    obtain q where q: "bc_multiply p p (2 * s) = Some q" "bc_canon q" "n_scale q = 2 * s"
      "bc_val q = bc_val p * bc_val p"
      using exact_multiply [of p p "2 * s"] less.prems by auto
    have half: "u div 2 < u" "0 < u div 2" using True less.prems(3) by auto
    have "2 * s * (u div 2) = s * u" using True by (metis mult.assoc mult.commute mod_0_imp_dvd dvd_mult_div_cancel)
    then have small: "2 * s * (u div 2) \<le> 2147483647" "2 * s \<le> 2147483647"
      using less.prems(4) half(2) mult_le_mono2 [of 1 "u div 2" "2 * s"] by linarith+
    obtain p' k v where r: "raise_even q (2 * s) (u div 2) = Some (p', 2 * s * 2 ^ k, v)" "u div 2 = v * 2 ^ k"
      "v mod 2 = 1" "bc_canon p'" "n_scale p' = 2 * s * 2 ^ k" "bc_val p' = bc_val q ^ 2 ^ k"
      using less.IH [OF half(1) q(2,3) half(2) small(1)] by blast
    have "raise_even p s u = Some (p', s * 2 ^ Suc k, v)"
      by (subst raise_even.simps) (simp add: True q(1) r(1) int_scale_def small(2))
    moreover have "u = v * 2 ^ Suc k"
    proof -
      have "u = 2 * (u div 2)" using True by presburger
      then show ?thesis unfolding r(2) by simp
    qed
    moreover have "bc_val p' = bc_val p ^ 2 ^ Suc k"
      unfolding r(6) q(4) by (simp add: power_mult power2_eq_square)
    ultimately show ?thesis using r(3-5) by (intro exI [of _ p'] exI [of _ "Suc k"] exI [of _ v]) (simp add: ac_simps)
  qed
qed

lemma raise_loop_spec:
  assumes "bc_canon t" and "n_scale t = c" and "bc_canon p" and "n_scale p = s" and "c + 2 * s * u \<le> 2147483647"
  shows "\<exists>r. raise_loop t c p s u = Some r \<and> bc_canon r \<and> n_scale r = c + 2 * s * u
           \<and> bc_val r = bc_val t * bc_val p ^ (2 * u)"
  using assms
proof (induction u arbitrary: t c p s rule: less_induct)
  case (less u)
  show ?case
  proof (cases "u = 0")
    case True
    then show ?thesis using less.prems by (simp add: raise_loop.simps)
  next
    case False
    obtain q where q: "bc_multiply p p (2 * s) = Some q" "bc_canon q" "n_scale q = 2 * s"
      "bc_val q = bc_val p * bc_val p"
      using exact_multiply [of p p "2 * s"] less.prems by auto
    obtain w where w: "bc_multiply t q (2 * s + c) = Some w" "bc_canon w" "n_scale w = 2 * s + c"
      "bc_val w = bc_val t * bc_val q"
      using exact_multiply [of t q "2 * s + c"] less.prems q by auto
    have half: "u div 2 < u" using False by simp
    have "2 * s * 1 \<le> 2 * s * u" using False by (intro mult_le_mono2) simp
    then have small: "2 * s \<le> 2147483647" "2 * s + c \<le> 2147483647" using less.prems(5) by linarith+
    show ?thesis
    proof (cases "u mod 2 = 1")
      case True
      have u: "u = 2 * (u div 2) + 1" using True by presburger
      have total: "2 * s + c + 2 * (2 * s) * (u div 2) = c + 2 * s * u" by (subst (2) u) (simp add: algebra_simps)
      obtain r where r: "raise_loop w (2 * s + c) q (2 * s) (u div 2) = Some r" "bc_canon r"
        "n_scale r = c + 2 * s * u" "bc_val r = bc_val w * bc_val q ^ (2 * (u div 2))"
        using less.IH [OF half w(2,3) q(2,3)] less.prems(5) unfolding total by blast
      have "raise_loop t c p s u = Some r" using False True by (subst raise_loop.simps) (simp add: q(1) w(1) r(1) int_scale_def small)
      moreover have "n_scale r = c + 2 * s * u" using r(3) by simp
      moreover have "bc_val r = bc_val t * bc_val p ^ (2 * u)"
        unfolding r(4) w(4) q(4) by (subst (2) u) (simp add: power_mult_distrib mult_2 power_add ac_simps)
      ultimately show ?thesis using r(2) by blast
    next
      case ev: False
      have u: "u = 2 * (u div 2)" using ev by presburger
      have total: "c + 2 * (2 * s) * (u div 2) = c + 2 * s * u" by (subst (2) u) simp
      obtain r where r: "raise_loop t c q (2 * s) (u div 2) = Some r" "bc_canon r"
        "n_scale r = c + 2 * s * u" "bc_val r = bc_val t * bc_val q ^ (2 * (u div 2))"
        using less.IH [OF half less.prems(1,2) q(2,3)] less.prems(5) unfolding total by blast
      have "raise_loop t c p s u = Some r" using False ev by (subst raise_loop.simps) (simp add: q(1) r(1) int_scale_def small)
      moreover have "n_scale r = c + 2 * s * u" using r(3) by simp
      moreover have "bc_val r = bc_val t * bc_val p ^ (2 * u)"
        unfolding r(4) q(4) by (subst (2) u) (simp add: power_mult_distrib mult_2 power_add ac_simps)
      ultimately show ?thesis using r(2) by blast
    qed
  qed
qed

lemma exact_power:
  assumes "bc_canon b" and "0 < u" and "n_scale b * u \<le> 2147483647"
  shows "\<exists>t p ps v. raise_even b (n_scale b) u = Some (p, ps, v) \<and> raise_loop p ps p ps (v div 2) = Some t
           \<and> bc_canon t \<and> n_scale t = n_scale b * u \<and> bc_val t = bc_val b ^ u"
proof -
  obtain p k v where r: "raise_even b (n_scale b) u = Some (p, n_scale b * 2 ^ k, v)" "u = v * 2 ^ k" "v mod 2 = 1"
    "bc_canon p" "n_scale p = n_scale b * 2 ^ k" "bc_val p = bc_val b ^ 2 ^ k"
    using raise_even_spec [OF assms(1) refl assms(2,3)] by blast
  let ?ps = "n_scale b * 2 ^ k"
  have v: "v = Suc (2 * (v div 2))" using r(3) by presburger
  have "?ps + 2 * ?ps * (v div 2) = n_scale b * u" unfolding r(2) by (subst (2) v) (simp add: algebra_simps)
  then have small: "?ps + 2 * ?ps * (v div 2) \<le> 2147483647" using assms(3) by simp
  obtain t where t: "raise_loop p ?ps p ?ps (v div 2) = Some t" "bc_canon t" "n_scale t = ?ps + 2 * ?ps * (v div 2)"
    "bc_val t = bc_val p * bc_val p ^ (2 * (v div 2))"
    using raise_loop_spec [OF r(4,5,4,5) small] by blast
  have "n_scale t = ?ps * v" unfolding t(3) by (subst (2) v) simp
  moreover have "bc_val t = bc_val p ^ v" unfolding t(4) by (subst (2) v) simp
  ultimately have "n_scale t = n_scale b * u" "bc_val t = bc_val b ^ u"
    unfolding r(2,6) by (simp_all add: ac_simps flip: power_mult)
  then show ?thesis using r(1) t(1,2) by blast
qed

text \<open>If the exact power has more digits behind the point than an \<open>int\<close> can count, a scale overflows on the way.\<close>

lemma raise_even_any:
  assumes "bc_canon p" and "n_scale p = s" and "0 < u" and "s \<le> 2147483647"
  shows "raise_even p s u = None \<or> (\<exists>p' s' v. raise_even p s u = Some (p', s', v) \<and> s' * v = s * u \<and> v mod 2 = 1
           \<and> bc_canon p' \<and> n_scale p' = s' \<and> s' \<le> 2147483647)"
  using assms
proof (induction u arbitrary: p s rule: less_induct)
  case (less u)
  show ?case
  proof (cases "u mod 2 = 0 \<and> 2 * s \<le> 2147483647")
    case False
    then show ?thesis using less.prems by (subst (1 2) raise_even.simps) (auto simp: int_scale_def)
  next
    case True
    obtain q where q: "bc_multiply p p (2 * s) = Some q" "bc_canon q" "n_scale q = 2 * s"
      using exact_multiply [of p p "2 * s"] less.prems by auto
    have half: "u div 2 < u" "0 < u div 2" using True less.prems(3) by auto
    have step: "raise_even p s u = raise_even q (2 * s) (u div 2)"
      using True by (subst raise_even.simps) (simp add: q(1) int_scale_def)
    have total: "2 * s * (u div 2) = s * u" using True by (metis mult.assoc mult.commute mod_0_imp_dvd dvd_mult_div_cancel)
    show ?thesis using less.IH [OF half(1) q(2,3) half(2)] True unfolding step total by simp
  qed
qed

lemma raise_loop_overflow:
  assumes "bc_canon t" and "n_scale t = c" and "bc_canon p" and "n_scale p = s" and "c + 2 * s * u > 2147483647" and "c \<le> 2147483647"
  shows "raise_loop t c p s u = None"
  using assms
proof (induction u arbitrary: t c p s rule: less_induct)
  case (less u)
  have u0: "u \<noteq> 0" using less.prems(5,6) by (intro notI) simp
  show ?case
  proof (cases "2 * s \<le> 2147483647 \<and> (u mod 2 = 1 \<longrightarrow> 2 * s + c \<le> 2147483647)")
    case False
    then show ?thesis using u0 by (subst raise_loop.simps) (auto simp: int_scale_def Option.bind_eq_None_conv)
  next
    case True
    obtain q where q: "bc_multiply p p (2 * s) = Some q" "bc_canon q" "n_scale q = 2 * s"
      using exact_multiply [of p p "2 * s"] less.prems by auto
    obtain w where w: "bc_multiply t q (2 * s + c) = Some w" "bc_canon w" "n_scale w = 2 * s + c"
      using exact_multiply [of t q "2 * s + c"] less.prems q by auto
    have half: "u div 2 < u" using u0 by simp
    show ?thesis
    proof (cases "u mod 2 = 1")
      case odd: True
      have u: "u = 2 * (u div 2) + 1" using odd by presburger
      have "2 * s + c + 2 * (2 * s) * (u div 2) = c + 2 * s * u" by (subst (2) u) (simp add: algebra_simps)
      then have "raise_loop w (2 * s + c) q (2 * s) (u div 2) = None"
        using less.IH [OF half w(2,3) q(2,3)] less.prems(5) True odd by simp
      then show ?thesis using True odd u0 by (subst raise_loop.simps) (simp add: q(1) w(1) int_scale_def)
    next
      case ev: False
      have u: "u = 2 * (u div 2)" using ev by presburger
      have total: "c + 2 * (2 * s) * (u div 2) = c + 2 * s * u" by (subst (2) u) simp
      have "raise_loop t c q (2 * s) (u div 2) = None"
        using less.IH [OF half less.prems(1,2) q(2,3)] less.prems(5,6) unfolding total by simp
      then show ?thesis using True ev u0 by (subst raise_loop.simps) (simp add: q(1) int_scale_def)
    qed
  qed
qed

lemma power_overflow:
  assumes "bc_canon b" and "0 < u" and "n_scale b * u > 2147483647" and "n_scale b \<le> 2147483647"
  shows "(case raise_even b (n_scale b) u of None \<Rightarrow> None | Some (p, ps, v) \<Rightarrow> raise_loop p ps p ps (v div 2)) = None"
proof (cases "raise_even b (n_scale b) u")
  case (Some r)
  then obtain p s v where r: "raise_even b (n_scale b) u = Some (p, s, v)" "s * v = n_scale b * u" "v mod 2 = 1"
    "bc_canon p" "n_scale p = s" "s \<le> 2147483647"
    using raise_even_any [OF assms(1) refl assms(2,4)] by auto
  have v: "v = Suc (2 * (v div 2))" using r(3) by presburger
  have "s + 2 * s * (v div 2) = s * v" by (subst (2) v) simp
  then have "raise_loop p s p s (v div 2) = None"
    using raise_loop_overflow [OF r(4,5,4,5) _ r(6)] r(2) assms(3) by simp
  then show ?thesis using r(1) by simp
qed simp

text \<open>Lowering the scale field cuts the value towards zero; a negative value may become a negative zero.\<close>

lemma cut_scale:
  assumes c: "bc_canon t" and s: "s \<le> n_scale t" and r: "r = t\<lparr>n_scale := s\<rparr>"
  shows "bc_lead r" "\<bar>bc_val r\<bar> \<le> \<bar>bc_val t\<bar>" "\<bar>bc_val t - bc_val r\<bar> < 1 / 10 ^ s"
    "n_scale t = s \<Longrightarrow> bc_val r = bc_val t"
proof -
  note wf = bc_wfD [OF bc_canonD(2) [OF c]]
  show lead: "bc_lead r" using c s by (auto simp: r bc_canon_def bc_lead_def bc_wf_def)
  have m: "mag r = mag t div 10 ^ (n_scale t - s)"
    using mag_cut [OF wf(3), of "n_len t + s" "n_scale t - s"] wf(2) s by (simp add: mag_def r)
  have e: "n_scale r + (n_scale t - s) = n_scale t" using s by (simp add: r)
  note t = truncated_val [OF bc_leadD [OF lead] m mag_nonneg [OF bc_canonD(2) [OF c]] e, folded bc_abs_def]
  have sg: "n_sign r = n_sign t" "n_scale r = s" by (simp_all add: r)
  note nn = bc_abs_nonneg [OF bc_leadD [OF lead]]
  show "\<bar>bc_val r\<bar> \<le> \<bar>bc_val t\<bar>" using t(1) nn by (simp add: bc_val_def sg)
  show "\<bar>bc_val t - bc_val r\<bar> < 1 / 10 ^ s" using t(1,2) nn by (simp add: bc_val_def sg)
  show "bc_val r = bc_val t" if "n_scale t = s" using t(3) that by (simp add: bc_val_def sg)
qed

definition int_part :: "bc_num \<Rightarrow> int" where
  "int_part n = (if n_sign n = PLUS then \<lfloor>bc_abs n\<rfloor> else - \<lfloor>bc_abs n\<rfloor>)"

lemma exponent_checks:
  assumes c: "bc_canon n" and x: "x = int_part n" and y: "y = (if \<bar>x\<bar> \<le> 2147483649 then x else 0)"
  shows "bc_num2long n = Some y"
    "(if y = 0 then if n_len n > 1 then Some True else do { d \<leftarrow> rd (n_value n) 0; Some (d \<noteq> 0) } else Some False)
      = Some (\<bar>x\<bar> > 2147483649)"
proof -
  note wf = bc_canonD(2) [OF c]
  note p = prefix_val_0_bounds [OF wf]
  have ax: "\<bar>x\<bar> = prefix_val n 0" using p(1) by (simp add: x int_part_def bc_abs_floor [OF wf])
  show "bc_num2long n = Some y"
    unfolding bc_num2long_spec [OF wf] y ax using p(1) by (simp add: x int_part_def bc_abs_floor [OF wf])
  have len: "n_len n = 1" if "prefix_val n 0 < 1"
  proof (rule ccontr)
    assume "n_len n \<noteq> 1"
    then have "n_len n > 1" using bc_wfD(1) [OF wf] by linarith
    then show False using prefix_val_0_lead [OF bc_canonD(1) [OF c]] that
      by (meson less_le_trans not_le one_le_power one_le_numeral order.trans)
  qed
  have d: "n_value n ! 0 = prefix_val n 0" if "n_len n = 1"
    using that bc_wfD(4,5) [OF wf] by (simp add: prefix_val_def seg_Cons)
  have l1: "prefix_val n 0 < 10" if "n_len n = 1" using p(2) that by simp
  show "(if y = 0 then if n_len n > 1 then Some True else do { d \<leftarrow> rd (n_value n) 0; Some (d \<noteq> 0) } else Some False)
      = Some (\<bar>x\<bar> > 2147483649)"
  proof (cases "n_len n = 1")
    case True
    then have "rd (n_value n) 0 = Some (prefix_val n 0)" using d bc_wfD(5) [OF wf] by (simp add: rd_def)
    then show ?thesis using True l1 [OF True] ax by (auto simp: y)
  next
    case False
    then have "n_len n > 1" "\<not> prefix_val n 0 < 1" using len bc_wfD(1) [OF wf] by linarith+
    then show ?thesis using ax by (auto simp: y)
  qed
qed

lemma bc_raise_run:
  assumes c: "bc_canon b" "bc_canon ex" and x: "x = int_part ex" and nz: "x \<noteq> 0" "\<bar>x\<bar> \<le> 2147483649"
    and small: "n_scale b * nat \<bar>x\<bar> \<le> 2147483647"
    and w: "w = warn_if (n_scale ex \<noteq> 0) ''non-zero scale in exponent''"
  shows "\<exists>t. bc_canon t \<and> n_scale t = n_scale b * nat \<bar>x\<bar> \<and> bc_val t = bc_val b ^ nat \<bar>x\<bar>
           \<and> bc_raise b ex old scale =
               (if x < 0 then do { r \<leftarrow> bc_divide bc_one t scale; Some (w, ret_or r old) }
                else let rscale = min (n_scale t) (max scale (n_scale b))
                     in Some (w, if n_scale t > rscale then t\<lparr>n_scale := rscale\<rparr> else t))"
proof -
  note ch = exponent_checks [OF c(2) x refl]
  have y: "(if \<bar>x\<bar> \<le> 2147483649 then x else 0) = x" and l: "(\<bar>x\<bar> > 2147483649) = False" using nz(2) by simp_all
  have up: "0 < nat \<bar>x\<bar>" using nz(1) by simp
  obtain t p ps v where t: "raise_even b (n_scale b) (nat \<bar>x\<bar>) = Some (p, ps, v)"
    "raise_loop p ps p ps (v div 2) = Some t" "bc_canon t" "n_scale t = n_scale b * nat \<bar>x\<bar>"
    "bc_val t = bc_val b ^ nat \<bar>x\<bar>"
    using exact_power [OF c(1) up small] by blast
  have "bc_raise b ex old scale = (if x < 0 then do { r \<leftarrow> bc_divide bc_one t scale; Some (w, ret_or r old) }
                else let rscale = min (n_scale t) (max scale (n_scale b))
                     in Some (w, if n_scale t > rscale then t\<lparr>n_scale := rscale\<rparr> else t))"
    unfolding bc_raise_def ch [unfolded y l] Let_def w [symmetric] t(4)
    using nz(1) by (cases "x < 0") (simp_all only: ch [unfolded y l] t(1,2,4) Option.bind.simps prod.case if_True if_False append_Nil2)
  then show ?thesis using t(3-5) by blast
qed

lemma bc_raise_overflow:
  assumes c: "bc_canon b" "bc_canon ex" and x: "x = int_part ex" and nz: "x \<noteq> 0" "\<bar>x\<bar> \<le> 2147483649"
    and big: "n_scale b * nat \<bar>x\<bar> > 2147483647" "n_scale b \<le> 2147483647"
  shows "bc_raise b ex old scale = None"
proof -
  note ch = exponent_checks [OF c(2) x refl]
  have y: "(if \<bar>x\<bar> \<le> 2147483649 then x else 0) = x" and l: "(\<bar>x\<bar> > 2147483649) = False" using nz(2) by simp_all
  have up: "0 < nat \<bar>x\<bar>" using nz(1) by simp
  show ?thesis
    unfolding bc_raise_def ch [unfolded y l] Let_def
    using nz(1) power_overflow [OF c(1) up big]
    by (cases "raise_even b (n_scale b) (nat \<bar>x\<bar>)") (auto simp: ch [unfolded y l])
qed

lemma bc_raise_zero:
  assumes c: "bc_canon ex" and x: "x = int_part ex" and z: "x = 0 \<or> \<bar>x\<bar> > 2147483649"
  shows "bc_raise b ex old scale = Some (warn_if (n_scale ex \<noteq> 0) ''non-zero scale in exponent''
           @ (if x = 0 then [] else [Rt_error ''exponent too large in raise'']), bc_one)"
proof -
  note ch = exponent_checks [OF c x refl]
  have y: "(if \<bar>x\<bar> \<le> 2147483649 then x else 0) = 0" and l: "(\<bar>x\<bar> > 2147483649) = (x \<noteq> 0)" using z by auto
  show ?thesis
    unfolding bc_raise_def ch [unfolded y l] Let_def Option.bind.simps by (simp add: ch(2) [unfolded y l, simplified])
qed

section \<open>Square roots\<close>

text \<open>
  In units of \<open>10 ^ -c\<close> one round is the integer Newton step on \<open>N\<close>, the number in units of \<open>10 ^ -2c\<close>.
\<close>

definition newton :: "int \<Rightarrow> int \<Rightarrow> int" where
  "newton N g = (N div g + g) div 2"

text \<open>\<open>s\<close> is the integer square root of \<open>N\<close>.\<close>

definition isroot :: "int \<Rightarrow> int \<Rightarrow> bool" where
  "isroot N s \<longleftrightarrow> 0 \<le> s \<and> s * s \<le> N \<and> N < (s + 1) * (s + 1)"

lemma isroot_exists: "0 \<le> N \<Longrightarrow> \<exists>s. isroot N s"
proof (induction "nat N" arbitrary: N)
  case 0
  then show ?case by (intro exI [of _ 0]) (simp add: isroot_def)
next
  case (Suc k)
  have "k = nat (N - 1)" "0 \<le> N - 1" using Suc.hyps(2) by linarith+
  then obtain s where s: "isroot (N - 1) s" using Suc.hyps(1) by blast
  show ?case
  proof (cases "N < (s + 1) * (s + 1)")
    case True
    then show ?thesis using s by (intro exI [of _ s]) (auto simp: isroot_def)
  next
    case False
    then show ?thesis using s by (intro exI [of _ "s + 1"]) (auto simp: isroot_def algebra_simps)
  qed
qed

lemma newton_ge:
  assumes "isroot N s" and "0 < g"
  shows "s \<le> newton N g"
proof -
  have "2 * s \<le> N div g + g"
  proof -
    have "(2 * s - g) * g \<le> s * s" using zero_le_square [of "s - g"] by (simp add: algebra_simps)
    then have "(2 * s - g) * g \<le> N" using assms(1) by (simp add: isroot_def)
    then have "2 * s - g \<le> N div g" using assms(2) zdiv_mono1 [of "(2 * s - g) * g" N g] by simp
    then show ?thesis by simp
  qed
  then show ?thesis by (simp add: newton_def)
qed

lemma newton_less:
  assumes "isroot N s" and "s < g"
  shows "newton N g < g"
proof -
  have g: "0 < g" using assms by (simp add: isroot_def)
  have "(s + 1) * (s + 1) \<le> g * g" using assms by (intro mult_mono) (auto simp: isroot_def)
  then have "N < g * g" using assms(1) by (simp add: isroot_def)
  moreover have "N div g * g \<le> N" using div_mult_low [OF g] .
  ultimately have "N div g * g < g * g" by linarith
  then have "N div g < g" using g by (rule mult_right_less_imp_less [OF _ less_imp_le])
  then show ?thesis by (simp add: newton_def)
qed

lemma newton_root:
  assumes "isroot N s" and "0 < s"
  shows "\<bar>newton N s - s\<bar> \<le> 1"
proof -
  have "s * s \<le> N" "N < (s + 3) * s" using assms by (simp_all add: isroot_def algebra_simps)
  moreover have "N div s * s \<le> N" "N < (N div s + 1) * s"
    using pos_mod_bound [OF assms(2), of N] pos_mod_sign [OF assms(2), of N] div_mult_mod_eq [of N s]
    unfolding distrib_right by linarith+
  ultimately have "N div s * s < (s + 3) * s" "s * s < (N div s + 1) * s" by linarith+
  then have "N div s < s + 3" "s < N div s + 1" using assms(2) by (auto dest: mult_right_less_imp_less)
  then show ?thesis by (simp add: newton_def)
qed

text \<open>Where a step moves by at most one unit, the result is at most two units above the root.\<close>

lemma newton_near:
  assumes "isroot N s" and "0 < g" and "\<bar>newton N g - g\<bar> \<le> 1"
  shows "newton N g \<le> s + 2"
proof (rule ccontr)
  assume a: "\<not> newton N g \<le> s + 2"
  then have g: "s + 2 \<le> g" using assms(3) by linarith
  have "newton N g < g" using newton_less [OF assms(1)] g by simp
  then have e: "newton N g = g - 1" and g4: "s + 4 \<le> g" using assms(3) a by linarith+
  have "2 * (g - 1) \<le> N div g + g" using e by (simp add: newton_def)
  then have "g - 2 \<le> N div g" by simp
  then have "(g - 2) * g \<le> N div g * g" using assms(2) by (intro mult_right_mono) auto
  also have "\<dots> \<le> N" using assms(2) by (simp add: div_mult_low)
  finally have l: "(g - 2) * g \<le> N" .
  have "(s + 1) * (s + 1) \<le> (g - 2) * g" using g4 assms(1) by (intro mult_mono) (auto simp: isroot_def)
  then show False using l assms(1) by (simp add: isroot_def)
qed

text \<open>The guess in units of \<open>10 ^ -c\<close>, and the number in units of \<open>10 ^ -2c\<close>.\<close>

definition guess_at :: "bc_num \<Rightarrow> nat \<Rightarrow> int \<Rightarrow> bool" where
  "guess_at g c G \<longleftrightarrow> bc_canon g \<and> n_scale g \<le> c \<and> n_sign g = PLUS \<and> 0 < G \<and> mag g * 10 ^ (c - n_scale g) = G"

definition num_at :: "bc_num \<Rightarrow> nat \<Rightarrow> int" where
  "num_at n c = mag n * 10 ^ (2 * c) div 10 ^ n_scale n"

lemma guess_at_val: "guess_at g c G \<Longrightarrow> bc_val g = of_int G / 10 ^ c"
  using bc_abs_scaled [of g c] by (simp add: guess_at_def bc_val_def scaled_def)

lemma guess_at_mono:
  assumes "guess_at g c G" and "c \<le> c'"
  shows "guess_at g c' (G * 10 ^ (c' - c))"
proof -
  have "c' - n_scale g = (c - n_scale g) + (c' - c)" using assms by (simp add: guess_at_def)
  then have "(10::int) ^ (c' - n_scale g) = 10 ^ (c - n_scale g) * 10 ^ (c' - c)" by (simp only: power_add)
  then show ?thesis using assms by (auto simp: guess_at_def)
qed

lemma mag_from_val:
  assumes "bc_canon n" and "n_scale n = c" and "bc_val n = of_int x / 10 ^ c"
  shows "mag n = \<bar>x\<bar>" "n_sign n = (if x < 0 then MINUS else PLUS)"
proof -
  have a: "\<bar>bc_val n\<bar> = of_int (mag n) / 10 ^ c"
    using mag_nonneg [OF bc_canonD(2) [OF assms(1)]] assms(2) by (simp add: bc_val_def bc_abs_def)
  then have "(of_int (mag n) :: rat) = of_int \<bar>x\<bar>" unfolding assms(3) by simp
  then show m: "mag n = \<bar>x\<bar>" by (simp only: of_int_eq_iff)
  show "n_sign n = (if x < 0 then MINUS else PLUS)"
  proof (cases "x = 0")
    case True
    then show ?thesis using m assms(1) sign_cases [of n] by (auto simp: bc_canon_def)
  next
    case False
    have "bc_val n = of_int (if n_sign n = PLUS then \<bar>x\<bar> else - \<bar>x\<bar>) / 10 ^ c"
      using assms(2) by (simp add: bc_val_def bc_abs_def m)
    then have "(of_int x :: rat) = of_int (if n_sign n = PLUS then \<bar>x\<bar> else - \<bar>x\<bar>)"
      unfolding assms(3) by (simp only: divide_cancel_right) simp
    then have "x = (if n_sign n = PLUS then \<bar>x\<bar> else - \<bar>x\<bar>)" by (simp only: of_int_eq_iff)
    then show ?thesis using False sign_cases [of n] by (auto split: if_splits)
  qed
qed

lemma point5_props: "bc_canon bc_point5" "mag bc_point5 = 5" "n_scale bc_point5 = 1" "n_sign bc_point5 = PLUS"
  by (simp_all add: bc_point5_def bc_new_num_def bc_canon_def bc_lead_def bc_wf_def mag_def seg_def digit_def dval_Cons)

lemma num_at_div:
  assumes "0 < m" and "s \<le> c"
  shows "num_at n c div (m * 10 ^ (c - s)) = mag n * 10 ^ (c + s) div (m * 10 ^ n_scale n)"
proof -
  have "num_at n c div (m * 10 ^ (c - s)) = (mag n * 10 ^ (2 * c)) div (10 ^ n_scale n * (m * 10 ^ (c - s)))"
    using assms(1) by (simp add: num_at_def zdiv_zmult2_eq)
  also have "(10::int) ^ (2 * c) = 10 ^ (c + s) * 10 ^ (c - s)" using assms(2) by (simp flip: power_add)
  also have "mag n * (10 ^ (c + s) * 10 ^ (c - s)) = (mag n * 10 ^ (c + s)) * 10 ^ (c - s)" by simp
  also have "10 ^ n_scale n * (m * 10 ^ (c - s)) = (m * 10 ^ n_scale n) * 10 ^ (c - s)" by simp
  also have "(mag n * 10 ^ (c + s)) * 10 ^ (c - s) div ((m * 10 ^ n_scale n) * 10 ^ (c - s))
      = mag n * 10 ^ (c + s) div (m * 10 ^ n_scale n)" by (rule div_mult_mult2) simp
  finally show ?thesis .
qed

lemma sqrt_step_spec:
  assumes n: "bc_canon num" "n_sign num = PLUS" and g: "guess_at guess c G" and c: "1 \<le> c"
    and N: "N = num_at num c" "0 < N"
  shows "\<exists>g' diff. sqrt_step num guess c = Some (g', diff) \<and> guess_at g' c (newton N G) \<and> n_scale g' = c
           \<and> bc_is_near_zero diff c = Some (\<bar>newton N G - G\<bar> \<le> 1)"
proof -
  note wn = bc_canonD(2) [OF n(1)]
  have cg: "bc_canon guess" "n_scale guess \<le> c" "n_sign guess = PLUS" "0 < G" "mag guess * 10 ^ (c - n_scale guess) = G"
    using g by (auto simp: guess_at_def)
  note wg = bc_canonD(2) [OF cg(1)]
  have mg: "0 < mag guess" using cg(4,5) mag_nonneg [OF wg] by (metis less_le mult_zero_left)
  then have nz: "mag guess \<noteq> 0" by simp
  obtain q where q: "bc_divide num guess c = Some (Ret_ok q)" "bc_canon q" "n_scale q = c"
    "mag q = quot_mag num guess c" "mag q \<noteq> 0 \<longrightarrow> n_sign q = (if n_sign num = n_sign guess then PLUS else MINUS)"
    using bc_divide_spec [OF wn wg nz, of c] by blast
  have mq: "mag q = N div G"
    unfolding q(4) quot_mag_def N(1) cg(5) [symmetric] using num_at_div [OF mg cg(2), of num] by simp
  have "n_sign q = PLUS" using q(2,5) n(2) cg(3) sign_cases [of q] by (cases "mag q = 0") (auto simp: bc_canon_def)
  then have vq: "bc_val q = of_int (N div G) / 10 ^ c" using mq q(3) by (simp add: bc_val_def bc_abs_def)
  obtain s where s: "bc_add q guess 0 = Some s" "bc_canon s" "bc_val s = bc_val q + bc_val guess"
    "n_scale s = max (max (n_scale q) (n_scale guess)) 0"
    using bc_add_spec [OF q(2) cg(1), of 0] by blast
  have ss: "n_scale s = c" using s(4) q(3) cg(2) by simp
  have vs: "bc_val s = of_int (N div G + G) / 10 ^ c"
    unfolding s(3) vq guess_at_val [OF g] by (simp add: add_divide_distrib)
  have nn: "0 \<le> N div G" using N(2) cg(4) by (simp add: pos_imp_zdiv_nonneg_iff)
  have ms: "mag s = N div G + G" "n_sign s = PLUS" using mag_from_val [OF s(2) ss vs] nn cg(4) by simp_all
  note p5 = point5_props
  have ps: "c = prod_scale s bc_point5 c" using c by (simp add: prod_scale_def ss p5)
  obtain g' where g': "bc_multiply s bc_point5 c = Some g'" "bc_canon g'" "n_scale g' = c"
    "mag g' = mag s * mag bc_point5 div 10 ^ (n_scale s + n_scale bc_point5 - c)"
    "mag g' \<noteq> 0 \<longrightarrow> n_sign g' = (if n_sign s = n_sign bc_point5 then PLUS else MINUS)"
    using bc_multiply_spec [OF bc_canonD(2) [OF s(2)] bc_canonD(2) [OF p5(1)] ps] by blast
  have mg': "mag g' = newton N G"
  proof -
    have "mag g' = (N div G + G) * 5 div (2 * 5)" unfolding g'(4) ms(1) ss p5 by simp
    also have "\<dots> = newton N G" unfolding newton_def by (rule div_mult_mult2) simp
    finally show ?thesis .
  qed
  obtain r where r: "isroot N r" using isroot_exists [of N] N(2) by auto
  have "1 \<le> r" using r N(2) by (cases "r = 0") (auto simp: isroot_def)
  then have pos: "0 < newton N G" using newton_ge [OF r cg(4)] by simp
  then have sg': "n_sign g' = PLUS" using g'(5) mg' ms(2) p5(4) by simp
  have at: "guess_at g' c (newton N G)" using g'(2,3) mg' pos sg' by (simp add: guess_at_def)
  obtain diff where d: "bc_sub g' guess (c + 1) = Some diff" "bc_canon diff" "bc_val diff = bc_val g' - bc_val guess"
    "n_scale diff = max (max (n_scale g') (n_scale guess)) (c + 1)"
    using bc_sub_spec [OF g'(2) cg(1), of "c + 1"] by blast
  have sd: "n_scale diff = c + 1" using d(4) g'(3) cg(2) by simp
  have vd: "bc_val diff = of_int ((newton N G - G) * 10) / 10 ^ (c + 1)"
    unfolding d(3) guess_at_val [OF at] guess_at_val [OF g] by (simp add: field_simps)
  have "mag diff = \<bar>newton N G - G\<bar> * 10" unfolding mag_from_val(1) [OF d(2) sd vd] by (simp only: abs_mult abs_numeral)
  moreover have "prefix_val diff c = mag diff div 10 ^ 1"
    using mag_cut [OF bc_wfD(3) [OF bc_canonD(2) [OF d(2)]], of "n_len diff + c" 1] bc_wfD(2) [OF bc_canonD(2) [OF d(2)]] sd
    by (simp add: prefix_val_def mag_def)
  ultimately have "prefix_val diff c = \<bar>newton N G - G\<bar>" by simp
  moreover have mc: "c = min c (n_scale diff)" using sd by simp
  ultimately have near: "bc_is_near_zero diff c = Some (\<bar>newton N G - G\<bar> \<le> 1)"
    using bc_is_near_zero_mag [OF bc_canonD(2) [OF d(2)] mc] by simp
  have "sqrt_step num guess c = Some (g', diff)"
    unfolding sqrt_step_def by (simp only: q(1) ret_or_def ret.case s(1) g'(1) d(1) Option.bind.simps)
  then show ?thesis using at g'(3) near by blast
qed

definition sqrt_done :: "bc_num \<Rightarrow> nat \<Rightarrow> bc_num \<Rightarrow> bool" where
  "sqrt_done num rscale g \<longleftrightarrow> (\<exists>s. guess_at g (n_scale g) (mag g) \<and> rscale + 1 \<le> n_scale g
     \<and> isroot (num_at num (n_scale g)) s \<and> s \<le> mag g \<and> mag g \<le> s + 2)"

lemma num_at_mono:
  assumes "c \<le> c'" and "bc_wf n"
  shows "num_at n c \<le> num_at n c'"
proof -
  have "mag n * 10 ^ (2 * c) \<le> mag n * 10 ^ (2 * c')"
    using assms mag_nonneg [OF assms(2)] by (intro mult_left_mono power_increasing) auto
  then show ?thesis unfolding num_at_def by (rule zdiv_mono1) simp
qed

text \<open>One round that ends near the root finishes, or goes on at a finer scale.\<close>

lemma sqrt_loop_round:
  assumes n: "bc_canon num" "n_sign num = PLUS" and g: "guess_at guess c G" and c: "1 \<le> c"
    and N: "N = num_at num c" "0 < N"
    and finer: "\<And>g'. guess_at g' c (newton N G) \<Longrightarrow> c < rscale + 1 \<Longrightarrow>
      \<exists>r. sqrt_loop num g' (min (c * 3) (rscale + 1)) rscale = Some r \<and> sqrt_done num rscale r"
    and far: "\<And>g'. guess_at g' c (newton N G) \<Longrightarrow> \<not> \<bar>newton N G - G\<bar> \<le> 1 \<Longrightarrow>
      \<exists>r. sqrt_loop num g' c rscale = Some r \<and> sqrt_done num rscale r"
  shows "\<exists>r. sqrt_loop num guess c rscale = Some r \<and> sqrt_done num rscale r"
proof -
  obtain g' diff where st: "sqrt_step num guess c = Some (g', diff)" "guess_at g' c (newton N G)" "n_scale g' = c"
    "bc_is_near_zero diff c = Some (\<bar>newton N G - G\<bar> \<le> 1)"
    using sqrt_step_spec [OF n g c N] by blast
  have run: "sqrt_loop num guess c rscale = (if \<bar>newton N G - G\<bar> \<le> 1 then
       if c < rscale + 1 then sqrt_loop num g' (min (c * 3) (rscale + 1)) rscale else Some g'
     else sqrt_loop num g' c rscale)"
    by (subst sqrt_loop.simps) (simp only: st Option.bind.simps prod.case)
  show ?thesis
  proof (cases "\<bar>newton N G - G\<bar> \<le> 1")
    case False
    then show ?thesis using run far [OF st(2)] by simp
  next
    case near: True
    show ?thesis
    proof (cases "c < rscale + 1")
      case True
      then show ?thesis using run near finer [OF st(2)] by simp
    next
      case False
      obtain s where s: "isroot N s" using isroot_exists [of N] N(2) by auto
      have gp: "0 < G" using g by (simp add: guess_at_def)
      have m: "mag g' = newton N G" using st(2,3) by (simp add: guess_at_def)
      have "sqrt_done num rscale g'"
        unfolding sqrt_done_def st(3) m N(1) [symmetric]
        using st(2) False s newton_ge [OF s gp] newton_near [OF s gp near] by auto
      then show ?thesis using run near False by simp
    qed
  qed
qed

lemma sqrt_loop_spec:
  assumes n: "bc_canon num" "n_sign num = PLUS" and "guess_at guess c G" and "1 \<le> c" and "0 < num_at num c"
  shows "\<exists>r. sqrt_loop num guess c rscale = Some r \<and> sqrt_done num rscale r"
  using assms(3-5)
proof (induction "rscale + 1 - c" arbitrary: guess c G rule: less_induct)
  case (less c)
  let ?N = "num_at num c"
  obtain s where s: "isroot ?N s" using isroot_exists [of ?N] less.prems(3) by auto
  have finer: "\<exists>r. sqrt_loop num g' (min (c * 3) (rscale + 1)) rscale = Some r \<and> sqrt_done num rscale r"
    if "guess_at g' c H" "c < rscale + 1" for g' H
  proof -
    let ?c = "min (c * 3) (rscale + 1)"
    have cc: "rscale + 1 - ?c < rscale + 1 - c" "c \<le> ?c" "1 \<le> ?c" using less.prems(2) that(2) by auto
    show ?thesis
      by (rule less.hyps [OF cc(1) guess_at_mono [OF that(1) cc(2)] cc(3) less_le_trans [OF less.prems(3)
              num_at_mono [OF cc(2) bc_canonD(2) [OF n(1)]]]])
  qed
  have above: "\<exists>r. sqrt_loop num g c rscale = Some r \<and> sqrt_done num rscale r" if "guess_at g c H" "s \<le> H" for g H
    using that
  proof (induction "nat (H - s)" arbitrary: g H rule: less_induct)
    case (less H)
    have hp: "0 < H" using less.prems(1) by (simp add: guess_at_def)
    show ?case
    proof (rule sqrt_loop_round [OF n less.prems(1) \<open>1 \<le> c\<close> refl \<open>0 < num_at num c\<close>])
      show "\<exists>r. sqrt_loop num g' (min (c * 3) (rscale + 1)) rscale = Some r \<and> sqrt_done num rscale r"
        if "guess_at g' c (newton ?N H)" "c < rscale + 1" for g' using finer [OF that] .
      show "\<exists>r. sqrt_loop num g' c rscale = Some r \<and> sqrt_done num rscale r"
        if g': "guess_at g' c (newton ?N H)" and far: "\<not> \<bar>newton ?N H - H\<bar> \<le> 1" for g'
      proof -
        have ge: "s \<le> newton ?N H" using newton_ge [OF s hp] .
        have "s < H" using far less.prems(2) newton_root [OF s] hp by (cases "H = s") auto
        then have "nat (newton ?N H - s) < nat (H - s)" using newton_less [OF s] by simp
        then show ?thesis using less.hyps [OF _ g' ge] by blast
      qed
    qed
  qed
  have gp: "0 < G" using less.prems(1) by (simp add: guess_at_def)
  show ?case
    by (rule sqrt_loop_round [OF n less.prems(1,2) refl less.prems(3)])
      (rule finer, assumption, assumption, rule above, assumption, rule newton_ge [OF s gp])
qed

lemma is_int_guess: "is_int g x \<Longrightarrow> 0 < x \<Longrightarrow> guess_at g c (x * 10 ^ c)"
  using is_intD [of g x] by (simp add: guess_at_def)

lemma half_int:
  assumes "is_int n x" and "0 \<le> x"
  shows "\<exists>r. bc_multiply n bc_point5 0 = Some r \<and> is_int (r\<lparr>n_scale := 0\<rparr>) (x div 2)"
proof -
  note n = is_intD [OF assms(1)] and p5 = point5_props
  have ps: "1 = prod_scale n bc_point5 0" by (simp add: prod_scale_def n(3) p5)
  obtain r where r: "bc_multiply n bc_point5 0 = Some r" "bc_canon r" "n_scale r = 1"
    "mag r = mag n * mag bc_point5 div 10 ^ (n_scale n + n_scale bc_point5 - 1)"
    "mag r \<noteq> 0 \<longrightarrow> n_sign r = (if n_sign n = n_sign bc_point5 then PLUS else MINUS)"
    using bc_multiply_spec [OF n(2) bc_canonD(2) [OF p5(1)] ps] by blast
  let ?h = "r\<lparr>n_scale := 0\<rparr>"
  note wf = bc_wfD [OF bc_canonD(2) [OF r(2)]]
  have "mag ?h = mag r div 10 ^ 1"
    using mag_cut [OF wf(3), of "n_len r" 1] wf(2) r(3) by (simp add: mag_def)
  also have "\<dots> = (x * 5) div (2 * 5)" unfolding r(4) n(3,5) p5 using assms(2) by simp
  also have "\<dots> = x div 2" by (rule div_mult_mult2) simp
  finally have m: "mag ?h = x div 2" .
  have sg: "n_sign r = PLUS"
    using r(2,5) n(7) assms(2) p5(4) sign_cases [of r] by (cases "mag r = 0") (auto simp: bc_canon_def)
  have lead: "bc_lead ?h" using cut_scale(1) [OF r(2) _ refl, of 0] by simp
  then have "is_int ?h (x div 2)" using m sg by (simp add: is_int_def bc_canon_def bc_val_def bc_abs_def)
  then show ?thesis using r(1) by blast
qed

lemma is_int_raise:
  assumes "is_int b x" and "is_int ex y" and "0 \<le> y" and "y \<le> 2147483649"
  shows "\<exists>r. bc_raise b ex old 0 = Some ([], r) \<and> is_int r (x ^ nat y)"
proof -
  note b = is_intD [OF assms(1)] and e = is_intD [OF assms(2)]
  have ip: "y = int_part ex"
    using e(3,5,7) assms(3) by (simp add: int_part_def bc_abs_def)
  show ?thesis
  proof (cases "y = 0")
    case True
    then show ?thesis using bc_raise_zero [OF e(1) ip, of b old 0] e(3) is_int_one by (simp add: warn_if_def)
  next
    case False
    obtain t where t: "bc_canon t" "n_scale t = n_scale b * nat \<bar>y\<bar>" "bc_val t = bc_val b ^ nat \<bar>y\<bar>"
      "bc_raise b ex old 0 = (if y < 0 then do { r \<leftarrow> bc_divide bc_one t 0; Some ([], ret_or r old) }
                else let rscale = min (n_scale t) (max 0 (n_scale b))
                     in Some ([], if n_scale t > rscale then t\<lparr>n_scale := rscale\<rparr> else t))"
      using bc_raise_run [OF b(1) e(1) ip False _ _ refl, of old 0] b assms(3,4) e(3) by (auto simp: warn_if_def)
    then have "bc_raise b ex old 0 = Some ([], t)" "is_int t (x ^ nat y)"
      using b(3,4) assms(3) by (simp_all add: is_int_def)
    then show ?thesis by blast
  qed
qed

lemma sqrt_guess_spec:
  assumes c: "bc_canon num" and l: "int (n_len num) < 2 ^ 31"
  shows "\<exists>g G. sqrt_guess num = Some g \<and> guess_at g 3 G"
proof -
  obtain t where t: "bc_int2num 10 = Some t" "is_int t 10" using is_int_of_int [of 10] by auto
  obtain n where n: "bc_int2num (int (n_len num)) = Some n" "is_int n (int (n_len num))"
    using is_int_of_int [of "int (n_len num)"] l by auto
  obtain r where r: "bc_multiply n bc_point5 0 = Some r" "is_int (r\<lparr>n_scale := 0\<rparr>) (int (n_len num) div 2)"
    using half_int [OF n(2)] by auto
  obtain g where g: "bc_raise t (r\<lparr>n_scale := 0\<rparr>) t 0 = Some ([], g)" "is_int g (10 ^ nat (int (n_len num) div 2))"
  proof -
    have "int (n_len num) < 2147483648" using l by simp
    then have "0 \<le> int (n_len num) div 2" "int (n_len num) div 2 \<le> 2147483649" by linarith+
    from is_int_raise [OF t(2) r(2) this, of t] show ?thesis using that by blast
  qed
  have "sqrt_guess num = Some g" unfolding sqrt_guess_def by (simp only: t(1) n(1) r(1) g(1) Option.bind.simps prod.case)
  then show ?thesis using is_int_guess [OF g(2), of 3] by auto
qed

lemma sqrt_bounds:
  assumes wf: "bc_wf num" and d: "sqrt_done num rscale g" and t: "t = mag g div 10 ^ (n_scale g - rscale)"
  shows "bc_abs num < ((of_int t + 1) / 10 ^ rscale) ^ 2"
    "t = 0 \<or> ((of_int t - 1) / 10 ^ rscale) ^ 2 \<le> bc_abs num"
proof -
  let ?C = "n_scale g"
  obtain s where s: "rscale + 1 \<le> ?C" "isroot (num_at num ?C) s" "s \<le> mag g" "mag g \<le> s + 2" "0 < mag g"
    using d by (auto simp: sqrt_done_def guess_at_def)
  let ?K = "(10::int) ^ (?C - rscale)" and ?N = "num_at num ?C"
  have K: "10 \<le> ?K" using power_increasing [of 1 "?C - rscale" "10::int"] s(1) by simp
  have g: "t * ?K \<le> mag g" "mag g < (t + 1) * ?K"
  proof -
    have "t * ?K + mag g mod ?K = mag g" unfolding t by (rule div_mult_mod_eq)
    moreover have "0 \<le> mag g mod ?K" "mag g mod ?K < ?K" by simp_all
    ultimately show "t * ?K \<le> mag g" "mag g < (t + 1) * ?K" unfolding distrib_right by linarith+
  qed
  have tn: "0 \<le> t" using s(5) unfolding t by (simp add: pos_imp_zdiv_nonneg_iff)
  have N: "of_int ?N \<le> bc_abs num * 10 ^ (2 * ?C)" "bc_abs num * 10 ^ (2 * ?C) < of_int ?N + 1"
  proof -
    have "bc_abs num * 10 ^ (2 * ?C) = of_int (mag num * 10 ^ (2 * ?C)) / of_int (10 ^ n_scale num)"
      by (simp add: bc_abs_def)
    then have "\<lfloor>bc_abs num * 10 ^ (2 * ?C)\<rfloor> = ?N" unfolding num_at_def by (simp only: floor_divide_of_int_eq)
    then show "of_int ?N \<le> bc_abs num * 10 ^ (2 * ?C)" "bc_abs num * 10 ^ (2 * ?C) < of_int ?N + 1"
      by linarith+
  qed
  have pw: "((10::rat) ^ ?C) ^ 2 = 10 ^ (2 * ?C)" by (simp add: power_mult mult.commute [of 2] flip: power_mult)
  have KC: "(of_int ?K :: rat) / 10 ^ ?C = 1 / 10 ^ rscale"
  proof -
    have "(10::rat) ^ ?C = 10 ^ (?C - rscale) * 10 ^ rscale" using s(1) by (simp flip: power_add)
    then show ?thesis by simp
  qed
  have "?N + 1 \<le> (s + 1) * (s + 1)" using s(2) by (simp add: isroot_def)
  also have "\<dots> \<le> ((t + 1) * ?K) * ((t + 1) * ?K)"
    using s(2,3) g(2) tn by (intro mult_mono) (auto simp: isroot_def)
  finally have "(of_int (?N + 1) :: rat) \<le> of_int (((t + 1) * ?K) * ((t + 1) * ?K))" by (simp only: of_int_le_iff)
  then have "bc_abs num * (10 ^ ?C) ^ 2 < (of_int ((t + 1) * ?K)) ^ 2" using N(2) unfolding pw by (simp add: power2_eq_square)
  then have "bc_abs num < (of_int ((t + 1) * ?K) / 10 ^ ?C) ^ 2" by (simp add: power_divide pos_less_divide_eq)
  moreover have "(of_int ((t + 1) * ?K) :: rat) / 10 ^ ?C = (of_int t + 1) / 10 ^ rscale" 
    unfolding of_int_mult times_divide_eq_right [symmetric] KC by simp
  ultimately show "bc_abs num < ((of_int t + 1) / 10 ^ rscale) ^ 2" by simp
  show "t = 0 \<or> ((of_int t - 1) / 10 ^ rscale) ^ 2 \<le> bc_abs num"
  proof (cases "t = 0")
    case False
    then have t1: "0 \<le> t - 1" using tn by simp
    have "(t - 1) * ?K \<le> s" using g(1) s(4) K unfolding left_diff_distrib by linarith
    then have "((t - 1) * ?K) * ((t - 1) * ?K) \<le> s * s" using t1 s(2) by (intro mult_mono) (auto simp: isroot_def)
    also have "\<dots> \<le> ?N" using s(2) by (simp add: isroot_def)
    finally have "(of_int (((t - 1) * ?K) * ((t - 1) * ?K)) :: rat) \<le> of_int ?N" by (simp only: of_int_le_iff)
    then have "(of_int ((t - 1) * ?K)) ^ 2 \<le> bc_abs num * (10 ^ ?C) ^ 2" using N(1) unfolding pw by (simp add: power2_eq_square)
    then have "(of_int ((t - 1) * ?K) / 10 ^ ?C) ^ 2 \<le> bc_abs num" by (simp add: power_divide pos_divide_le_eq)
    moreover have "(of_int ((t - 1) * ?K) :: rat) / 10 ^ ?C = (of_int t - 1) / 10 ^ rscale"
      unfolding of_int_mult times_divide_eq_right [symmetric] KC by simp
    ultimately show ?thesis by simp
  qed simp
qed

lemma bc_sqrt_newton:
  assumes c: "bc_canon num" and x: "0 < bc_val num" "bc_val num \<noteq> 1" and l: "int (n_len num) < 2 ^ 31"
    and rs: "rs = max scale (n_scale num)"
  shows "\<exists>r. bc_sqrt num scale = Some (Some r) \<and> bc_canon r \<and> n_scale r = rs \<and> 0 \<le> bc_val r
           \<and> bc_val num < (bc_val r + 1 / 10 ^ rs)\<^sup>2
           \<and> (bc_val r = 0 \<or> (bc_val r - 1 / 10 ^ rs)\<^sup>2 \<le> bc_val num)"
proof -
  note wf = bc_canonD(2) [OF c]
  have sg: "n_sign num = PLUS"
    using x(1) bc_abs_nonneg [OF wf] sign_cases [of num] by (auto simp: bc_val_def)
  then have v: "bc_val num = bc_abs num" by (simp add: bc_val_def)
  have mp: "1 \<le> mag num" using x(1) mag_nonneg [OF wf] bc_val_eq_0_iff [of num] by linarith
  have cmp: "bc_compare num bc_zero = Some 1" "bc_compare num bc_one = Some (if bc_val num < 1 then -1 else 1)"
    using bc_compare_val [OF c] x by (simp_all add: cmp3_def)
  obtain g0 G c0 where g0: "(if (if bc_val num < 1 then -1 else 1::int) < 0 then Some bc_one else sqrt_guess num) = Some g0"
    "guess_at g0 c0 G" "c0 = (if bc_val num < 1 then n_scale num else 3)" "1 \<le> c0" "0 < num_at num c0"
  proof (cases "bc_val num < 1")
    case True
    have sc: "1 \<le> n_scale num"
    proof (rule ccontr)
      assume "\<not> 1 \<le> n_scale num"
      then have "n_scale num = 0" by simp
      then have "bc_val num = of_int (mag num)" using v by (simp add: bc_abs_def)
      then show False using True mp by simp
    qed
    have "mag num * 10 ^ (2 * n_scale num) = mag num * 10 ^ n_scale num * 10 ^ n_scale num"
      by (simp add: mult_2 power_add)
    then have "num_at num (n_scale num) = mag num * 10 ^ n_scale num"
      unfolding num_at_def by (simp only:) simp
    then have "0 < num_at num (n_scale num)" using mp by simp
    then show ?thesis using that [of bc_one "n_scale num"] True sc is_int_guess [OF is_int_one, of "n_scale num"] by simp
  next
    case False
    have "10 ^ n_scale num \<le> mag num"
    proof -
      have "1 \<le> of_int (mag num) / (of_int (10 ^ n_scale num) :: rat)" using False v by (simp add: bc_abs_def)
      then have "of_int (10 ^ n_scale num) \<le> (of_int (mag num) :: rat)" by (simp add: field_simps)
      then show ?thesis by (simp only: of_int_le_iff)
    qed
    then have "10 ^ n_scale num * 1 \<le> mag num * 10 ^ (2 * 3)" using mp by (intro mult_mono) auto
    then have "1 \<le> num_at num 3" unfolding num_at_def using zdiv_mono1 [of "10 ^ n_scale num * 1" _ "10 ^ n_scale num"] by simp
    moreover obtain g G where "sqrt_guess num = Some g" "guess_at g 3 G" using sqrt_guess_spec [OF c l] by blast
    ultimately show ?thesis using that [of g 3 G] False by simp
  qed
  obtain g where g: "sqrt_loop num g0 c0 rs = Some g" "sqrt_done num rs g"
    using sqrt_loop_spec [OF c sg g0(2,4,5), of rs] by blast
  have cg: "bc_canon g" "n_sign g = PLUS" "rs + 1 \<le> n_scale g" "0 < mag g"
    using g(2) by (auto simp: sqrt_done_def guess_at_def)
  note one = is_intD [OF is_int_one]
  have nz: "mag bc_one \<noteq> 0" using one(5) by simp
  obtain r where r: "bc_divide g bc_one rs = Some (Ret_ok r)" "bc_canon r" "n_scale r = rs"
    "mag r = quot_mag g bc_one rs"
    "mag r \<noteq> 0 \<longrightarrow> n_sign r = (if n_sign g = n_sign bc_one then PLUS else MINUS)"
    using bc_divide_spec [OF bc_canonD(2) [OF cg(1)] one(2) nz, of rs] by blast
  have mr: "mag r = mag g div 10 ^ (n_scale g - rs)"
  proof -
    have "(10::int) ^ n_scale g = 10 ^ (n_scale g - rs) * 10 ^ rs" using cg(3) by (simp flip: power_add)
    then show ?thesis unfolding r(4) quot_mag_def using one(3,5) by simp
  qed
  have "n_sign r = PLUS" using r(2,5) cg(2) one(7) sign_cases [of r] by (cases "mag r = 0") (auto simp: bc_canon_def)
  then have vr: "bc_val r = of_int (mag r) / 10 ^ rs" using r(3) by (simp add: bc_val_def bc_abs_def)
  have "bc_sqrt num scale = Some (Some r)"
    unfolding bc_sqrt_def Let_def rs [symmetric]
    using g(1) g0(1) unfolding g0(3)
    by (cases "bc_val num < 1") (simp_all add: cmp r(1) ret_or_def)
  moreover note b = sqrt_bounds [OF wf g(2) mr]
  ultimately show ?thesis
    using r(2,3) mag_nonneg [OF bc_canonD(2) [OF r(2)]] v
    by (intro exI [of _ r]) (auto simp: vr add_divide_distrib diff_divide_distrib)
qed

section \<open>Properties\<close>



text \<open>
  C27: the modular power of integers: the loop returns, and the result is the remainder, with the
  sign of the power, of the power of \<open>base\<close> by the integer part of the exponent; exponent 0 gives 1
  whatever the modulus. A zero modulus or a negative exponent is an error.
\<close>

theorem bc_raisemod_correct:
  assumes "bc_canon expo" and "is_int base b" and "is_int modu m" and "e = \<lfloor>bc_val expo\<rfloor>"
  shows "(m = 0 \<or> bc_val expo < 0 \<longrightarrow> bc_raisemod base expo modu 0 = Some ([], Ret_minus1))
       \<and> (m \<noteq> 0 \<and> 0 \<le> bc_val expo \<longrightarrow> (\<exists>r. bc_raisemod base expo modu 0
             = Some (warn_if (n_scale expo \<noteq> 0) ''non-zero scale in exponent'', Ret_ok r)
           \<and> is_int r (if e = 0 then 1 else sgn (b ^ nat e) * (\<bar>b ^ nat e\<bar> mod \<bar>m\<bar>))))"
proof (intro conjI impI)
  note nn = bc_abs_nonneg [OF bc_canonD(2) [OF assms(1)]]
  show "bc_raisemod base expo modu 0 = Some ([], Ret_minus1)" if "m = 0 \<or> bc_val expo < 0"
  proof (cases "m = 0")
    case False
    then have "bc_is_neg expo" using that nn sign_cases [of expo] by (auto simp: bc_val_def bc_is_neg_def)
    then show ?thesis using is_int_is_zero [OF assms(3)] by (simp add: bc_raisemod_def)
  qed (use is_int_is_zero [OF assms(3)] in \<open>simp add: bc_raisemod_def\<close>)
  assume a: "m \<noteq> 0 \<and> 0 \<le> bc_val expo"
  have "n_sign expo = PLUS"
  proof (rule ccontr)
    assume "n_sign expo \<noteq> PLUS"
    then have "n_sign expo = MINUS" "bc_abs expo \<le> 0" using a sign_cases [of expo] by (auto simp: bc_val_def)
    then show False using assms(1) nn by (simp add: bc_canon_def bc_abs_eq_0_iff [symmetric])
  qed
  then show "\<exists>r. bc_raisemod base expo modu 0
             = Some (warn_if (n_scale expo \<noteq> 0) ''non-zero scale in exponent'', Ret_ok r)
           \<and> is_int r (if e = 0 then 1 else sgn (b ^ nat e) * (\<bar>b ^ nat e\<bar> mod \<bar>m\<bar>))"
    using bc_raisemod_spec [OF assms(1) _ assms(2,3) _ assms(4)] a unfolding trem_def by blast
qed

theorem bc_raisemod_correct_witness:
  "\<exists>r. bc_raisemod (num_of MINUS [3] []) (num_of PLUS [5] []) (num_of PLUS [1, 0] []) 0 = Some ([], Ret_ok r)
     \<and> is_int r (-3)"
proof -
  have i: "is_int (num_of MINUS [3] []) (-3)" "is_int (num_of PLUS [1, 0] []) 10" "5 = \<lfloor>bc_val (num_of PLUS [5] [])\<rfloor>"
    by (simp_all add: is_int_def num_of_simps)
  show ?thesis
    using bc_raisemod_correct [OF _ i, of] by (auto simp: num_of_simps warn_if_def)
qed



text \<open>
  The scale of a power is lowered without looking at the sign: \<open>(-.1)^3\<close> at scale 0 is cut to a
  negative zero, which is printed as \<open>-0\<close>.
\<close>

lemma bc_raise_negative_zero:
  "\<exists>r. bc_raise (num_of MINUS [0] [1]) (num_of PLUS [3] []) old 0 = Some ([], r) \<and> bc_out_num r 10 lz = Some ''-0''"
proof -
  let ?b = "num_of MINUS [0] [1]" and ?e = "num_of PLUS [3] []"
  have c: "bc_canon ?b" "bc_canon ?e" and x: "3 = int_part ?e"
    by (simp_all add: num_of_simps int_part_def bc_abs_def)
  obtain t where t: "bc_canon t" "n_scale t = 3" "bc_val t = (-1 / 10) ^ 3"
    "bc_raise ?b ?e old 0 = Some ([], t\<lparr>n_scale := 1\<rparr>)"
    using bc_raise_run [OF c x _ _ _ refl, of old 0] by (auto simp: warn_if_def num_of_simps Let_def)
  have v: "bc_val t = of_int (-1) / 10 ^ 3" unfolding t(3) by (simp add: power3_eq_cube)
  note m = mag_from_val [OF t(1,2) v]
  let ?r = "t\<lparr>n_scale := 1\<rparr>"
  note wf = bc_wfD [OF bc_canonD(2) [OF t(1)]]
  have "mag ?r = mag t div 10 ^ 2"
  proof -
    have "n_len t + 1 + 2 = n_len t + n_scale t" using t(2) by simp
    then show ?thesis using mag_cut [OF wf(3), of "n_len t + 1" 2] wf(2) by (simp only: mag_def) simp
  qed
  then have "mag ?r = 0" "n_sign ?r = MINUS" using m by simp_all
  moreover have "bc_wf ?r" using cut_scale(1) [OF t(1) _ refl, of 1] t(2) by (simp add: bc_leadD)
  ultimately have "bc_out_num ?r 10 lz = Some ''-0''" using bc_is_zero_mag [of ?r] by (simp add: bc_out_num_def)
  then show ?thesis using t(4) by blast
qed

end
