(* ===== verification/BcState.thy ===== *)
theory BcState
  imports BcPower
begin

text \<open>
  The data of the bc machine (\<^verbatim>\<open>usr.bin/bc/bcdefs.h\<close>, \<^verbatim>\<open>global.h\<close>): code segments, variable stacks,
  array trees, the two stacks, and the global variables as one record; and the primitive operations of
  \<^verbatim>\<open>storage.c\<close> and \<^verbatim>\<open>util.c\<close> on it. An operation is a function to an \<open>option\<close>, whose \<open>None\<close> is undefined
  behaviour of the C code (a null or dangling pointer, memory outside an object, memory that was never
  set). A global C array is a partial map: \<open>None\<close> outside its bounds and for an element never set.
\<close>

section \<open>Data\<close>

record program_counter =
  pc_func :: nat
  pc_addr :: nat

record arg =
  av_name :: int
  arg_is_var :: bool

type_synonym arg_list = "arg list"

text \<open>A label group: 64 addresses, not set by the allocation.\<close>

type_synonym bc_label_group = "nat option list"

record bc_function =
  f_defined :: bool
  f_void :: bool
  f_body :: "char option list"
  f_code_size :: nat
  f_label :: "bc_label_group list"
  f_params :: arg_list
  f_autos :: arg_list

text \<open>
  A variable is a stack of values linked by \<open>v_next\<close>; \<open>Var_junk\<close> is a pointer that was never set
  (\<open>get_var\<close> allocates a record without setting \<open>v_next\<close>).
\<close>

datatype bc_var = Var_null | Var_junk | Var (v_value: bc_num) (v_next: bc_var)

datatype bc_array_node = N_num "bc_num list" | N_down "bc_array_node option list"

record bc_array =
  a_tree :: "bc_array_node option"
  a_depth :: nat

text \<open>\<open>a_value\<close> is the address of a \<open>bc_array\<close>: a variable parameter shares it with its argument.\<close>

record bc_var_array =
  a_value :: "nat option"
  a_param :: bool

record bc_state =
  bc_functions :: "nat \<rightharpoonup> bc_function"
  f_names :: "nat \<rightharpoonup> string"
  f_count :: nat
  variables :: "nat \<rightharpoonup> bc_var"
  v_names :: "nat \<rightharpoonup> string"
  v_count :: nat
  arrays :: "nat \<rightharpoonup> bc_var_array list"
  a_names :: "nat \<rightharpoonup> string"
  a_count :: nat
  a_heap :: "nat \<rightharpoonup> bc_array"
  a_next :: nat
  ex_stack :: "bc_num list"
  fn_stack :: "int list"
  i_base :: int
  o_base :: int
  scale :: int
  c_code :: bool
  runtime_error :: bool
  had_sigint :: bool
  pc :: program_counter
  std_only :: bool
  warn_not_std :: bool
  use_math :: bool
  compile_only :: bool
  out_col :: int
  line_size :: int
  stdout_chars :: string
  stdin_chars :: string
  randoms :: "int list"
  messages :: "rt_event list"
  exited :: "int option"

section \<open>Constants\<close>

definition INT_MAX :: int where "INT_MAX = 0x7FFFFFFF"

definition BC_BASE_MAX :: int where "BC_BASE_MAX = INT_MAX"

definition BC_SCALE_MAX :: int where "BC_SCALE_MAX = INT_MAX"

definition BC_DIM_MAX :: int where "BC_DIM_MAX = 16777215"

abbreviation (input) NODE_SIZE :: nat where "NODE_SIZE \<equiv> 64"

abbreviation (input) NODE_DEPTH :: nat where "NODE_DEPTH \<equiv> 4"

abbreviation (input) BC_LABEL_GROUP :: nat where "BC_LABEL_GROUP \<equiv> 64"

abbreviation (input) BC_START_SIZE :: nat where "BC_START_SIZE \<equiv> 1024"

abbreviation (input) STORE_INCR :: nat where "STORE_INCR \<equiv> 32"

abbreviation (input) MAX_STORE :: nat where "MAX_STORE \<equiv> 32767"

section \<open>Messages and exit\<close>

text \<open>
  A runtime error prints a message and sets \<open>runtime_error\<close>; the caller goes on. The location that
  is printed in front of the text is left out.
\<close>

definition rt_error :: "string \<Rightarrow> bc_state \<Rightarrow> bc_state" where
  "rt_error mesg s = s\<lparr>messages := messages s @ [Rt_error mesg], runtime_error := True\<rparr>"

definition rt_warn :: "string \<Rightarrow> bc_state \<Rightarrow> bc_state" where
  "rt_warn mesg s = s\<lparr>messages := messages s @ [Rt_warn mesg]\<rparr>"

text \<open>The events of the number routines.\<close>

fun rt_events :: "rt_event list \<Rightarrow> bc_state \<Rightarrow> bc_state" where
  "rt_events [] s = s"
| "rt_events (Rt_warn m # es) s = rt_events es (rt_warn m s)"
| "rt_events (Rt_error m # es) s = rt_events es (rt_error m s)"

definition bc_exit :: "int \<Rightarrow> bc_state \<Rightarrow> bc_state" where
  "bc_exit val s = s\<lparr>exited := Some val\<rparr>"

section \<open>Output\<close>

definition put_char :: "char \<Rightarrow> bc_state \<Rightarrow> bc_state" where
  "put_char ch s = s\<lparr>stdout_chars := stdout_chars s @ [ch]\<rparr>"

abbreviation (input) newline :: char where "newline \<equiv> CHR 0x0A"

text \<open>The column count and the break of the line.\<close>

definition out_break :: "bc_state \<Rightarrow> bc_state" where
  "out_break s = (let s = s\<lparr>out_col := out_col s + 1\<rparr>
     in if out_col s = line_size s - 1 \<and> line_size s \<noteq> 0
        then (put_char newline (put_char (CHR 0x5C) s))\<lparr>out_col := 1\<rparr> else s)"

definition out_char :: "char \<Rightarrow> bc_state \<Rightarrow> bc_state" where
  "out_char ch s = (if ch = newline then put_char newline (s\<lparr>out_col := 0\<rparr>)
     else put_char ch (out_break s))"

definition out_schar :: "char \<Rightarrow> bc_state \<Rightarrow> bc_state" where
  "out_schar ch s = (if ch = newline then put_char newline (s\<lparr>out_col := 0\<rparr>)
     else put_char ch (if \<not> std_only s then out_break s else s))"

section \<open>Storage growth\<close>

definition new_function :: bc_function where
  "new_function = \<lparr>f_defined = False, f_void = False, f_body = replicate BC_START_SIZE None,
     f_code_size = 0, f_label = [], f_params = [], f_autos = []\<rparr>"

definition more_functions :: "bc_state \<Rightarrow> bc_state" where
  "more_functions s = (let old_count = f_count s; new_count = old_count + STORE_INCR
     in s\<lparr>bc_functions := (\<lambda>i. if i < old_count then bc_functions s i
            else if i < new_count then Some new_function else None),
          f_names := (\<lambda>i. if i < old_count then f_names s i else None), f_count := new_count\<rparr>)"

text \<open>The first three variables and the first array are never copied or set.\<close>

definition more_variables :: "bc_state \<Rightarrow> bc_state" where
  "more_variables s = (let old_count = v_count s; new_count = old_count + STORE_INCR
     in s\<lparr>variables := (\<lambda>i. if 3 \<le> i \<and> i < old_count then variables s i
            else if 3 \<le> i \<and> i < new_count then Some Var_null else None),
          v_names := (\<lambda>i. if 3 \<le> i \<and> i < old_count then v_names s i else None), v_count := new_count\<rparr>)"

definition more_arrays :: "bc_state \<Rightarrow> bc_state" where
  "more_arrays s = (let old_count = a_count s; new_count = old_count + STORE_INCR
     in s\<lparr>arrays := (\<lambda>i. if 1 \<le> i \<and> i < old_count then arrays s i
            else if 1 \<le> i \<and> i < new_count then Some [] else None),
          a_names := (\<lambda>i. if 1 \<le> i \<and> i < old_count then a_names s i else None), a_count := new_count\<rparr>)"

definition init_storage :: "bc_state \<Rightarrow> bc_state" where
  "init_storage s = (
     let s = more_functions (s\<lparr>f_count := 0\<rparr>);
         s = s\<lparr>f_names := (f_names s)(0 \<mapsto> ''(main)'')\<rparr>;
         s = more_variables (s\<lparr>v_count := 0\<rparr>);
         s = more_arrays (s\<lparr>a_count := 0\<rparr>)
     in s\<lparr>ex_stack := [], fn_stack := [], i_base := 10, o_base := 10, scale := 0, c_code := False\<rparr>)"

text \<open>The globals before the program starts (\<^verbatim>\<open>global.h\<close>; unset objects are zero).\<close>

definition zero_state :: bc_state where
  "zero_state = \<lparr>bc_functions = Map.empty, f_names = Map.empty, f_count = 0, variables = Map.empty, v_names = Map.empty,
     v_count = 0, arrays = Map.empty, a_names = Map.empty, a_count = 0, a_heap = Map.empty, a_next = 0, ex_stack = [],
     fn_stack = [], i_base = 0, o_base = 0, scale = 0, c_code = False, runtime_error = False, had_sigint = False,
     pc = \<lparr>pc_func = 0, pc_addr = 0\<rparr>, std_only = False, warn_not_std = False, use_math = False, compile_only = False,
     out_col = 0, line_size = 0, stdout_chars = [], stdin_chars = [], randoms = [], messages = [], exited = None\<rparr>"

definition upd_func :: "nat \<Rightarrow> (bc_function \<Rightarrow> bc_function) \<Rightarrow> bc_state \<Rightarrow> bc_state option" where
  "upd_func func g s = do { f \<leftarrow> bc_functions s func; Some (s\<lparr>bc_functions := (bc_functions s)(func \<mapsto> g f)\<rparr>) }"

definition clear_func :: "nat \<Rightarrow> bc_state \<Rightarrow> bc_state option" where
  "clear_func func = upd_func func (\<lambda>f. f\<lparr>f_defined := False, f_code_size := 0, f_autos := [], f_params := [],
     f_label := []\<rparr>)"

section \<open>The stacks\<close>

definition fpop :: "bc_state \<Rightarrow> int \<times> bc_state" where
  "fpop s = (case fn_stack s of
     v # vs \<Rightarrow> (v, s\<lparr>fn_stack := vs\<rparr>)
   | [] \<Rightarrow> (0, rt_error ''function stack underflow, contact maintainer.'' s))"

definition fpush :: "int \<Rightarrow> bc_state \<Rightarrow> bc_state" where
  "fpush val s = s\<lparr>fn_stack := val # fn_stack s\<rparr>"

definition pop :: "bc_state \<Rightarrow> bc_state" where
  "pop s = s\<lparr>ex_stack := tl (ex_stack s)\<rparr>"

definition push_copy :: "bc_num \<Rightarrow> bc_state \<Rightarrow> bc_state" where
  "push_copy num s = s\<lparr>ex_stack := num # ex_stack s\<rparr>"

definition push_num :: "bc_num \<Rightarrow> bc_state \<Rightarrow> bc_state" where
  "push_num num s = s\<lparr>ex_stack := num # ex_stack s\<rparr>"

text \<open>\<^verbatim>\<open>ex_stack->s_num\<close> and \<^verbatim>\<open>ex_stack->s_next->s_num\<close>\<close>

definition tos :: "bc_state \<Rightarrow> bc_num option" where
  "tos s = (case ex_stack s of x # _ \<Rightarrow> Some x | [] \<Rightarrow> None)"

definition nos :: "bc_state \<Rightarrow> bc_num option" where
  "nos s = (case ex_stack s of _ # y # _ \<Rightarrow> Some y | _ \<Rightarrow> None)"

definition set_tos :: "bc_num \<Rightarrow> bc_state \<Rightarrow> bc_state option" where
  "set_tos num s = (case ex_stack s of _ # xs \<Rightarrow> Some (s\<lparr>ex_stack := num # xs\<rparr>) | [] \<Rightarrow> None)"

fun stack_walk :: "bc_num list \<Rightarrow> int \<Rightarrow> int" where
  "stack_walk [] depth = depth"
| "stack_walk (x # xs) depth = (if depth > 0 then stack_walk xs (depth - 1) else depth)"

definition check_stack :: "int \<Rightarrow> bc_state \<Rightarrow> bool \<times> bc_state" where
  "check_stack depth s = (if stack_walk (ex_stack s) depth > 0 then (False, rt_error ''Stack error.'' s) else (True, s))"

text \<open>Get the current byte and advance the program counter.\<close>

definition byte :: "program_counter \<Rightarrow> bc_state \<Rightarrow> (char \<times> program_counter) option" where
  "byte p s = do {
     f \<leftarrow> bc_functions s (pc_func p);
     b \<leftarrow> rd (f_body f) (int (pc_addr p));
     c \<leftarrow> b;
     Some (c, p\<lparr>pc_addr := pc_addr p + 1\<rparr>)
   }"

definition next_byte :: "bc_state \<Rightarrow> (char \<times> bc_state) option" where
  "next_byte s = do { (c, p) \<leftarrow> byte (pc s) s; Some (c, s\<lparr>pc := p\<rparr>) }"

end
