(* ===== verification/BcArray.thy ===== *)
theory BcArray
  imports BcState
begin

text \<open>
  Arrays of \<^verbatim>\<open>usr.bin/bc/storage.c\<close>: an array is a tree of nodes of 64 elements that grows upwards with
  the largest index used and downwards on demand. The contract: a tree stands for a total map from indices to
  numbers, zero where nothing was stored; \<open>get_array_num\<close> gives the place of an element and leaves the map
  as it is.
\<close>

section \<open>Definitions\<close>

definition zero_node :: bc_array_node where
  "zero_node = N_num (replicate NODE_SIZE bc_zero)"

text \<open>
  \<^verbatim>\<open>while (ix > 0 || log < a_var->a_depth) { sub[log] = ix & NODE_MASK; ix >>= NODE_SHIFT; log++; }\<close>:
  a write behind the \<open>NODE_DEPTH\<close> elements of \<open>sub\<close> is undefined.
\<close>

function index_loop :: "nat \<Rightarrow> nat \<Rightarrow> nat \<Rightarrow> nat list \<Rightarrow> (nat list \<times> nat) option" where
  "index_loop ix lg depth sub =
     (if ix > 0 \<or> lg < depth then do {
        sub \<leftarrow> wr sub (int lg) (ix mod NODE_SIZE);
        index_loop (ix div NODE_SIZE) (lg + 1) depth sub
      } else Some (sub, lg))"
  by pat_completeness auto
termination
  by (relation "measure (\<lambda>(ix, lg, depth, sub). ix + (depth - lg))") auto

declare index_loop.simps [simp del]

function build_tree :: "nat \<Rightarrow> bc_array \<Rightarrow> bc_array" where
  "build_tree lg a_var =
     (if lg > a_depth a_var
      then build_tree lg \<lparr>a_tree = Some (if a_depth a_var \<noteq> 0
             then N_down (a_tree a_var # replicate (NODE_SIZE - 1) None) else zero_node), a_depth = a_depth a_var + 1\<rparr>
      else a_var)"
  by pat_completeness auto
termination
  by (relation "measure (\<lambda>(lg, a). lg - a_depth a)") auto

declare build_tree.simps [simp del]

text \<open>
  The descent to the node that holds the element, along the subscripts from the root; a missing node
  is added. A node read as the wrong member of the union is undefined.
\<close>

fun find_node :: "nat list \<Rightarrow> bc_array_node \<Rightarrow> bc_array_node option" where
  "find_node [i] t = Some t"
| "find_node (i # j # p) (N_down items) = do {
     child \<leftarrow> rd items (int i);
     t \<leftarrow> find_node (j # p) (case child of Some c \<Rightarrow> c
            | None \<Rightarrow> if p = [] then zero_node else N_down (replicate NODE_SIZE None));
     Some (N_down (items[i := Some t]))
   }"
| "find_node _ _ = None"

text \<open>Reading and writing through the pointer that \<open>get_array_num\<close> returns.\<close>

fun node_get :: "nat list \<Rightarrow> bc_array_node \<Rightarrow> bc_num option" where
  "node_get [i] (N_num ns) = rd ns (int i)"
| "node_get (i # p) (N_down items) = do { child \<leftarrow> rd items (int i); t \<leftarrow> child; node_get p t }"
| "node_get _ _ = None"

fun node_set :: "nat list \<Rightarrow> bc_num \<Rightarrow> bc_array_node \<Rightarrow> bc_array_node option" where
  "node_set [i] v (N_num ns) = do { ns \<leftarrow> wr ns (int i) v; Some (N_num ns) }"
| "node_set (i # p) v (N_down items) = do {
     child \<leftarrow> rd items (int i);
     t \<leftarrow> child;
     t \<leftarrow> node_set p v t;
     Some (N_down (items[i := Some t]))
   }"
| "node_set _ _ _ = None"

type_synonym num_ptr = "nat \<times> nat list"

definition new_frame :: bc_var_array where
  "new_frame = \<lparr>a_value = None, a_param = False\<rparr>"

definition new_array :: "bc_state \<Rightarrow> nat \<times> bc_state" where
  "new_array s = (a_next s, s\<lparr>a_heap := (a_heap s)(a_next s \<mapsto> \<lparr>a_tree = None, a_depth = 0\<rparr>), a_next := a_next s + 1\<rparr>)"

text \<open>The array entry of a name, made if necessary.\<close>

definition array_entry :: "nat \<Rightarrow> bc_state \<Rightarrow> (nat \<times> bc_state) option" where
  "array_entry var_index s = do {
     frames \<leftarrow> arrays s var_index;
     let frames = (if frames = [] then [new_frame] else frames);
     Some (case a_value (hd frames) of
       Some ad \<Rightarrow> (ad, s\<lparr>arrays := (arrays s)(var_index \<mapsto> frames)\<rparr>)
     | None \<Rightarrow> let (ad, s) = new_array s
               in (ad, s\<lparr>arrays := (arrays s)(var_index \<mapsto> (hd frames)\<lparr>a_value := Some ad\<rparr> # tl frames)\<rparr>))
   }"

definition get_array_num :: "nat \<Rightarrow> nat \<Rightarrow> bc_state \<Rightarrow> (num_ptr \<times> bc_state) option" where
  "get_array_num var_index idx s = do {
     (ad, s) \<leftarrow> array_entry var_index s;
     a_var \<leftarrow> a_heap s ad;
     sub \<leftarrow> wr (replicate NODE_DEPTH 0) 0 (idx mod NODE_SIZE);
     (sub, lg) \<leftarrow> index_loop (idx div NODE_SIZE) 1 (a_depth a_var) sub;
     let a_var = build_tree lg a_var;
     let path = rev (take lg sub);
     root \<leftarrow> a_tree a_var;
     root \<leftarrow> find_node path root;
     Some ((ad, path), s\<lparr>a_heap := (a_heap s)(ad \<mapsto> a_var\<lparr>a_tree := Some root\<rparr>)\<rparr>)
   }"

definition ptr_get :: "num_ptr \<Rightarrow> bc_state \<Rightarrow> bc_num option" where
  "ptr_get p s = do { a \<leftarrow> a_heap s (fst p); root \<leftarrow> a_tree a; node_get (snd p) root }"

definition ptr_set :: "num_ptr \<Rightarrow> bc_num \<Rightarrow> bc_state \<Rightarrow> bc_state option" where
  "ptr_set p v s = do {
     a \<leftarrow> a_heap s (fst p);
     root \<leftarrow> a_tree a;
     root \<leftarrow> node_set (snd p) v root;
     Some (s\<lparr>a_heap := (a_heap s)(fst p \<mapsto> a\<lparr>a_tree := Some root\<rparr>)\<rparr>)
   }"

text \<open>Copying a tree for a call by value, and freeing one; both read the whole tree.\<close>

fun copy_tree :: "nat \<Rightarrow> bc_array_node \<Rightarrow> bc_array_node option" where
  "copy_tree (Suc (Suc d)) (N_down items) = do {
     items \<leftarrow> those (map (\<lambda>c. case c of None \<Rightarrow> Some None | Some t \<Rightarrow> map_option Some (copy_tree (Suc d) t)) items);
     Some (N_down items)
   }"
| "copy_tree (Suc (Suc d)) (N_num ns) = None"
| "copy_tree _ (N_num ns) = Some (N_num ns)"
| "copy_tree _ (N_down items) = None"

definition copy_array :: "nat \<Rightarrow> bc_state \<Rightarrow> (nat \<times> bc_state) option" where
  "copy_array ad s = do {
     ary \<leftarrow> a_heap s ad;
     root \<leftarrow> a_tree ary;
     root \<leftarrow> copy_tree (a_depth ary) root;
     Some (a_next s, s\<lparr>a_heap := (a_heap s)(a_next s \<mapsto> \<lparr>a_tree = Some root, a_depth = a_depth ary\<rparr>),
                      a_next := a_next s + 1\<rparr>)
   }"

fun free_a_tree :: "nat \<Rightarrow> bc_array_node option \<Rightarrow> unit option" where
  "free_a_tree d None = Some ()"
| "free_a_tree (Suc (Suc d)) (Some (N_down items)) =
     (if \<forall>c \<in> set items. free_a_tree (Suc d) c = Some () then Some () else None)"
| "free_a_tree (Suc (Suc d)) (Some (N_num ns)) = None"
| "free_a_tree _ (Some (N_num ns)) = Some ()"
| "free_a_tree _ (Some (N_down items)) = None"

section \<open>The map an array stands for\<close>

definition idx_path :: "nat \<Rightarrow> nat \<Rightarrow> nat list" where
  "idx_path L idx = map (\<lambda>k. idx div 64 ^ k mod 64) (rev [0..<L])"

fun node_val :: "bc_array_node option \<Rightarrow> nat list \<Rightarrow> bc_num" where
  "node_val (Some (N_num ns)) [i] = ns ! i"
| "node_val (Some (N_down items)) (i # p) = node_val (items ! i) p"
| "node_val _ _ = bc_zero"

definition arr_val :: "bc_array \<Rightarrow> nat \<Rightarrow> bc_num" where
  "arr_val a idx = (if idx < 64 ^ a_depth a then node_val (a_tree a) (idx_path (a_depth a) idx) else bc_zero)"

fun node_wf :: "nat \<Rightarrow> bc_array_node \<Rightarrow> bool" where
  "node_wf 0 t = False"
| "node_wf (Suc d) (N_num ns) \<longleftrightarrow> d = 0 \<and> length ns = 64 \<and> (\<forall>n \<in> set ns. bc_canon n)"
| "node_wf (Suc d) (N_down items) \<longleftrightarrow> d > 0 \<and> length items = 64 \<and> (\<forall>c \<in> set items. \<forall>t. c = Some t \<longrightarrow> node_wf d t)"

definition array_wf :: "bc_array \<Rightarrow> bool" where
  "array_wf a \<longleftrightarrow> a_depth a \<le> 4 \<and> (case a_tree a of None \<Rightarrow> a_depth a = 0 | Some t \<Rightarrow> node_wf (a_depth a) t)"

definition path_ok :: "nat \<Rightarrow> nat list \<Rightarrow> bool" where
  "path_ok d p \<longleftrightarrow> length p = d \<and> (\<forall>i \<in> set p. i < 64)"

lemma idx_path_Suc: "idx_path (Suc d) idx = (idx div 64 ^ d mod 64) # idx_path d idx"
  by (simp add: idx_path_def)

lemma idx_path_ok: "path_ok d (idx_path d idx)"
  by (auto simp: path_ok_def idx_path_def)

lemma idx_path_inj:
  "i < 64 ^ d \<Longrightarrow> j < 64 ^ d \<Longrightarrow> idx_path d i = idx_path d j \<Longrightarrow> i = j"
proof (induction d arbitrary: i j)
  case 0
  then show ?case by simp
next
  case (Suc d)
  have low: "idx_path d (k mod 64 ^ d) = idx_path d k" for k
  proof -
    have "k mod 64 ^ d div 64 ^ e mod 64 = k div 64 ^ e mod 64" if e: "e < d" for e :: nat
    proof -
      obtain f where f: "d = e + Suc f" using e less_imp_add_positive by (metis Suc_pred')
      have "k mod 64 ^ d div 64 ^ e = (k div 64 ^ e) mod 64 ^ Suc f"
        unfolding f power_add by (rule mod_mult2_eq [THEN arg_cong [of _ _ "\<lambda>x. x div 64 ^ e"], THEN trans]) simp
      then show ?thesis by (simp add: mod_mod_cancel)
    qed
    then show ?thesis by (auto simp: idx_path_def)
  qed
  have top: "i div 64 ^ d < 64" "j div 64 ^ d < 64"
    using Suc.prems(1,2) by (simp_all add: less_mult_imp_div_less mult.commute)
  have "idx_path d (i mod 64 ^ d) = idx_path d (j mod 64 ^ d)" "i div 64 ^ d = j div 64 ^ d"
    using Suc.prems(3) top by (simp_all add: idx_path_Suc low)
  moreover from calculation(1) have "i mod 64 ^ d = j mod 64 ^ d" by (intro Suc.IH) simp_all
  ultimately show ?case by (metis div_mult_mod_eq)
qed

lemma index_loop_spec:
  assumes "ix = idx div 64 ^ lg" and "idx < 64 ^ 4" and "length sub = 4" and "1 \<le> lg" and "lg \<le> 4" and "depth \<le> 4"
    and "\<forall>k < lg. sub ! k = idx div 64 ^ k mod 64"
  shows "\<exists>sub' L. index_loop ix lg depth sub = Some (sub', L) \<and> rev (take L sub') = idx_path L idx
           \<and> 1 \<le> L \<and> L \<le> 4 \<and> depth \<le> L \<and> idx < 64 ^ L"
  using assms
proof (induction ix lg depth sub rule: index_loop.induct)
  case (1 ix lg depth sub)
  show ?case
  proof (cases "ix > 0 \<or> lg < depth")
    case False
    then have "index_loop ix lg depth sub = Some (sub, lg)" by (subst index_loop.simps) simp
    moreover have "take lg sub = map (\<lambda>k. idx div 64 ^ k mod 64) [0..<lg]"
      using "1.prems"(3,5,7) by (auto intro!: nth_equalityI)
    then have "rev (take lg sub) = idx_path lg idx" by (simp add: idx_path_def rev_map)
    moreover have "idx < 64 ^ lg" using False "1.prems"(1) by (simp add: div_eq_0_iff)
    ultimately show ?thesis using "1.prems" False by auto
  next
    case True
    have l4: "lg < 4"
    proof (rule ccontr)
      assume "\<not> lg < 4"
      then have "lg = 4" using "1.prems"(5) by simp
      then show False using True "1.prems"(1,2,6) by simp
    qed
    then have w: "wr sub (int lg) (ix mod 64) = Some (sub[lg := ix mod 64])" using "1.prems"(3) by (simp add: wr_nat)
    have "\<exists>sub' L. index_loop (ix div 64) (lg + 1) depth (sub[lg := ix mod 64]) = Some (sub', L) \<and> rev (take L sub') = idx_path L idx
           \<and> 1 \<le> L \<and> L \<le> 4 \<and> depth \<le> L \<and> idx < 64 ^ L"
    proof (rule "1.IH" [OF True])
      show "wr sub (int lg) (ix mod 64) = Some (sub[lg := ix mod 64])" by (rule w)
      show "ix div 64 = idx div 64 ^ (lg + 1)" using "1.prems"(1) by (simp add: div_mult2_eq [symmetric] mult.commute)
      show "\<forall>k < lg + 1. sub[lg := ix mod 64] ! k = idx div 64 ^ k mod 64"
        using "1.prems"(1,3,7) l4 by (auto simp: less_Suc_eq nth_list_update)
    qed (use "1.prems" l4 in auto)
    then show ?thesis using True w by (simp add: index_loop.simps [of ix])
  qed
qed

text \<open>Growing the tree keeps the map.\<close>

lemma zero_node_props:
  "node_wf (Suc 0) zero_node" "path_ok (Suc 0) p \<Longrightarrow> node_val (Some zero_node) p = bc_zero"
  by (auto simp: zero_node_def path_ok_def length_Suc_conv)

lemma empty_down_props:
  "0 < d \<Longrightarrow> node_wf (Suc d) (N_down (replicate 64 None))"
  "path_ok (Suc d) p \<Longrightarrow> node_val (Some (N_down (replicate 64 None))) p = bc_zero"
  by (auto simp: path_ok_def length_Suc_conv)

lemma build_tree_spec:
  assumes "array_wf a" and "lg \<le> 4"
  shows "array_wf (build_tree lg a)" "a_depth (build_tree lg a) = max lg (a_depth a)"
    "arr_val (build_tree lg a) = arr_val a"
proof -
  have "array_wf (build_tree lg a) \<and> a_depth (build_tree lg a) = max lg (a_depth a) \<and> arr_val (build_tree lg a) = arr_val a"
    using assms
  proof (induction lg a rule: build_tree.induct)
    case (1 lg a)
    let ?d = "a_depth a"
    let ?a = "\<lparr>a_tree = Some (if ?d \<noteq> 0 then N_down (a_tree a # replicate 63 None) else zero_node), a_depth = ?d + 1\<rparr>"
    show ?case
    proof (cases "lg > ?d")
      case False
      then show ?thesis using "1.prems" by (simp add: build_tree.simps [of lg a])
    next
      case True
      have st: "?d = 0 \<or> (\<exists>t. a_tree a = Some t \<and> node_wf ?d t)"
        using "1.prems"(1) by (auto simp: array_wf_def split: option.splits)
      have wf: "array_wf ?a"
        using st True "1.prems"(2) zero_node_props(1) by (auto simp: array_wf_def)
      have "arr_val ?a idx = arr_val a idx" for idx
      proof (cases "?d = 0")
        case True
        have z: "a_tree a = None" using True "1.prems"(1) by (cases "a_tree a") (auto simp: array_wf_def)
        show ?thesis using True z zero_node_props(2) [OF idx_path_ok, of idx] by (auto simp: arr_val_def)
      next
        case False
        show ?thesis
        proof (cases "idx < 64 ^ Suc ?d")
          case True
          have top: "idx div 64 ^ ?d < 64" using True by (simp add: less_mult_imp_div_less mult.commute)
          show ?thesis
          proof (cases "idx < 64 ^ ?d")
            case True
            then show ?thesis using False \<open>idx < 64 ^ Suc ?d\<close> by (simp add: arr_val_def idx_path_Suc)
          next
            case ge: False
            then have "idx div 64 ^ ?d \<noteq> 0" by (simp add: div_eq_0_iff)
            then have "(a_tree a # replicate 63 None) ! (idx div 64 ^ ?d) = None"
              using top by (cases "idx div 64 ^ ?d") auto
            then show ?thesis using False ge top \<open>idx < 64 ^ Suc ?d\<close> by (simp add: arr_val_def idx_path_Suc)
          qed
        next
          case ge: False
          then have "\<not> idx < 64 ^ ?d" by simp
          then show ?thesis using ge by (simp add: arr_val_def)
        qed
      qed
      then have same: "arr_val ?a = arr_val a" by blast
      have "build_tree lg a = build_tree lg ?a" using True by (subst build_tree.simps) simp
      then show ?thesis using "1.IH" [OF True] wf same "1.prems"(2) True by (auto simp: max_def)
    qed
  qed
  then show "array_wf (build_tree lg a)" "a_depth (build_tree lg a) = max lg (a_depth a)"
    "arr_val (build_tree lg a) = arr_val a" by auto
qed

lemma find_node_spec:
  assumes "node_wf d t" and "path_ok d p"
  shows "\<exists>t'. find_node p t = Some t' \<and> node_wf d t' \<and> node_get p t' = Some (node_val (Some t) p)
           \<and> (\<forall>q. path_ok d q \<longrightarrow> node_val (Some t') q = node_val (Some t) q)"
  using assms
proof (induction p arbitrary: d t)
  case Nil
  then show ?case by (cases d) (auto simp: path_ok_def)
next
  case (Cons i p)
  obtain e where d: "d = Suc e" using Cons.prems(2) by (cases d) (auto simp: path_ok_def)
  have i: "i < 64" and pe: "path_ok e p" using Cons.prems(2) by (auto simp: path_ok_def d)
  show ?case
  proof (cases p)
    case Nil
    then have "e = 0" using pe by (simp add: path_ok_def)
    then obtain ns where "t = N_num ns" "length ns = 64" using Cons.prems(1) d by (cases t) auto
    then show ?thesis using Cons.prems(1) Nil i by (simp add: rd_nat)
  next
    case p: (Cons j r)
    then obtain e' where e: "e = Suc e'" using pe by (cases e) (auto simp: path_ok_def)
    obtain items where t: "t = N_down items" "length items = 64" "\<forall>c \<in> set items. \<forall>u. c = Some u \<longrightarrow> node_wf e u"
      using Cons.prems(1) d e by (cases t) auto
    have r0: "r = [] \<longleftrightarrow> e' = 0" using pe p e by (auto simp: path_ok_def)
    let ?c = "case items ! i of Some c \<Rightarrow> c | None \<Rightarrow> if r = [] then zero_node else N_down (replicate 64 None)"
    have c: "node_wf e ?c \<and> (\<forall>q. path_ok e q \<longrightarrow> node_val (Some ?c) q = node_val (items ! i) q)"
    proof (cases "items ! i")
      case None
      show ?thesis
      proof (cases "e' = 0")
        case True
        then show ?thesis using None r0 e zero_node_props by simp
      next
        case False
        then show ?thesis using None r0 e empty_down_props(1) [of e'] empty_down_props(2) [of e'] by simp
      qed
    next
      case (Some u)
      then have "Some u \<in> set items" using i t(2) by (metis nth_mem)
      then show ?thesis using Some t(3) by simp
    qed
    then obtain t' where t': "find_node p ?c = Some t'" "node_wf e t'" "node_get p t' = Some (node_val (Some ?c) p)"
      "\<forall>q. path_ok e q \<longrightarrow> node_val (Some t') q = node_val (Some ?c) q"
      using Cons.IH [OF _ pe] by blast
    let ?t = "N_down (items[i := Some t'])"
    have "find_node (i # p) t = Some ?t" using t'(1) i t(2) unfolding p t(1) by (simp add: rd_nat)
    moreover have "node_wf d ?t" using t' t i d e by (auto dest!: set_update_subset_insert [THEN subsetD])
    moreover have "node_get (i # p) ?t = Some (node_val (Some t) (i # p))"
      using t'(3) c pe i t(1,2) p by (simp add: rd_nat)
    moreover have "node_val (Some ?t) q = node_val (Some t) q" if q: "path_ok d q" for q
    proof -
      obtain k q' where k: "q = k # q'" "k < 64" "path_ok e q'" using q d by (cases q) (auto simp: path_ok_def)
      show ?thesis using t'(4) c k t(1,2) by (cases "k = i") auto
    qed
    ultimately show ?thesis by blast
  qed
qed

lemma node_set_spec:
  assumes "node_wf d t" and "path_ok d p" and "node_get p t = Some x" and "bc_canon v"
  shows "\<exists>t'. node_set p v t = Some t' \<and> node_wf d t' \<and> node_get p t' = Some v
           \<and> (\<forall>q. path_ok d q \<longrightarrow> node_val (Some t') q = (if q = p then v else node_val (Some t) q))"
  using assms
proof (induction p arbitrary: d t)
  case Nil
  then show ?case by (cases d) (auto simp: path_ok_def)
next
  case (Cons i p)
  obtain e where d: "d = Suc e" using Cons.prems(2) by (cases d) (auto simp: path_ok_def)
  have i: "i < 64" and pe: "path_ok e p" using Cons.prems(2) by (auto simp: path_ok_def d)
  show ?case
  proof (cases t)
    case (N_num ns)
    then have e0: "e = 0" "length ns = 64" "\<forall>n \<in> set ns. bc_canon n" using Cons.prems(1) d by auto
    then have p: "p = []" using pe by (simp add: path_ok_def)
    have "node_val (Some (N_num (ns[i := v]))) q = (if q = i # p then v else node_val (Some t) q)" if "path_ok d q" for q
      using that e0 d N_num p i by (auto simp: path_ok_def length_Suc_conv nth_list_update split: if_splits)
    moreover have "node_wf d (N_num (ns[i := v]))"
      using e0 d Cons.prems(4) by (auto dest!: set_update_subset_insert [THEN subsetD])
    ultimately show ?thesis using N_num p i e0 by (simp add: wr_nat rd_nat)
  next
    case (N_down items)
    have it: "length items = 64" "\<forall>c \<in> set items. \<forall>u. c = Some u \<longrightarrow> node_wf e u" "0 < e"
      using Cons.prems(1) d N_down by auto
    then obtain j r where p: "p = j # r" using pe by (cases p) (auto simp: path_ok_def)
    obtain u where u: "items ! i = Some u" "node_get p u = Some x"
      using Cons.prems(3) i it(1) by (cases "items ! i") (auto simp: N_down p rd_nat)
    then have "node_wf e u" using it(1,2) i by (metis nth_mem)
    then obtain u' where u': "node_set p v u = Some u'" "node_wf e u'" "node_get p u' = Some v"
      "\<forall>q. path_ok e q \<longrightarrow> node_val (Some u') q = (if q = p then v else node_val (Some u) q)"
      using Cons.IH [OF _ pe u(2) Cons.prems(4)] by blast
    let ?t = "N_down (items[i := Some u'])"
    have "node_set (i # p) v t = Some ?t" using u u'(1) i it(1) by (simp add: N_down p rd_nat)
    moreover have "node_wf d ?t" using u'(2) it i d by (auto dest!: set_update_subset_insert [THEN subsetD])
    moreover have "node_get (i # p) ?t = Some v" using u'(3) i it(1) by (simp add: p rd_nat)
    moreover have "node_val (Some ?t) q = (if q = i # p then v else node_val (Some t) q)" if q: "path_ok d q" for q
    proof -
      obtain k q' where k: "q = k # q'" "k < 64" "path_ok e q'" using q d by (cases q) (auto simp: path_ok_def)
      show ?thesis using u'(4) u(1) k it(1) N_down by (cases "k = i") auto
    qed
    ultimately show ?thesis by blast
  qed
qed

lemma those_map_Some: "(\<And>x. x \<in> set xs \<Longrightarrow> f x = Some (g x)) \<Longrightarrow> those (map f xs) = Some (map g xs)"
  by (induction xs) auto

lemma copy_tree_spec: "node_wf d t \<Longrightarrow> copy_tree d t = Some t"
proof (induction d t rule: copy_tree.induct)
  case (1 d items)
  have "(case c of None \<Rightarrow> Some None | Some t \<Rightarrow> map_option Some (copy_tree (Suc d) t)) = Some c" if "c \<in> set items" for c
    using 1 that by (cases c) auto
  then have "those (map (\<lambda>c. case c of None \<Rightarrow> Some None | Some t \<Rightarrow> map_option Some (copy_tree (Suc d) t)) items) = Some items"
    using those_map_Some [of items _ "\<lambda>c. c"] by simp
  then show ?case by simp
qed auto

lemma free_a_tree_spec: "(\<And>t. r = Some t \<Longrightarrow> node_wf d t) \<Longrightarrow> free_a_tree d r = Some ()"
  by (induction d r rule: free_a_tree.induct) auto

section \<open>The array variables of a state\<close>

definition arrays_ok :: "bc_state \<Rightarrow> bool" where
  "arrays_ok s \<longleftrightarrow> (\<forall>ad a. a_heap s ad = Some a \<longrightarrow> ad < a_next s \<and> array_wf a)
     \<and> (\<forall>v fs f ad. arrays s v = Some fs \<longrightarrow> f \<in> set fs \<longrightarrow> a_value f = Some ad \<longrightarrow> a_heap s ad \<noteq> None)"

definition frame_val :: "bc_state \<Rightarrow> bc_var_array \<Rightarrow> nat \<Rightarrow> bc_num" where
  "frame_val s f idx = (case a_value f of None \<Rightarrow> bc_zero | Some ad \<Rightarrow>
     (case a_heap s ad of None \<Rightarrow> bc_zero | Some a \<Rightarrow> arr_val a idx))"

text \<open>The element \<open>idx\<close> of array variable \<open>v\<close> as the program sees it.\<close>

definition array_val :: "bc_state \<Rightarrow> nat \<Rightarrow> nat \<Rightarrow> bc_num" where
  "array_val s v idx = (case arrays s v of Some (f # fs) \<Rightarrow> frame_val s f idx | _ \<Rightarrow> bc_zero)"

definition array_addr :: "bc_state \<Rightarrow> nat \<Rightarrow> nat option" where
  "array_addr s v = (case arrays s v of Some (f # fs) \<Rightarrow> a_value f | _ \<Rightarrow> None)"

lemma empty_array: "array_wf \<lparr>a_tree = None, a_depth = 0\<rparr>" "arr_val \<lparr>a_tree = None, a_depth = 0\<rparr> idx = bc_zero"
  by (simp_all add: array_wf_def arr_val_def)

text \<open>The state apart from the arrays is the same, and the same array names exist.\<close>

definition same_rest :: "bc_state \<Rightarrow> bc_state \<Rightarrow> bool" where
  "same_rest s s' \<longleftrightarrow> s' = s\<lparr>arrays := arrays s', a_heap := a_heap s', a_next := a_next s'\<rparr> \<and> dom (arrays s') = dom (arrays s)"

lemma same_rest_refl [simp]: "same_rest s s"
  by (simp add: same_rest_def)

lemma same_rest_trans: "same_rest s t \<Longrightarrow> same_rest t u \<Longrightarrow> same_rest s u"
  unfolding same_rest_def by (cases s, cases t, cases u) simp

text \<open>The frames of a variable when an array is made for it.\<close>

definition frames_grow :: "bc_var_array list \<Rightarrow> bc_var_array list \<Rightarrow> bool" where
  "frames_grow fs fs' \<longleftrightarrow> fs' = fs \<or> (\<exists>ad. fs' = \<lparr>a_value = Some ad, a_param = (fs \<noteq> [] \<and> a_param (hd fs))\<rparr> # tl fs
     \<and> (fs \<noteq> [] \<longrightarrow> a_value (hd fs) = None))"

lemma array_entry_old:
  assumes "arrays s v = Some (f # fs)" and "a_value f = Some ad"
  shows "array_entry v s = Some (ad, s)"
proof -
  have "(arrays s)(v \<mapsto> f # fs) = arrays s" using assms(1) by (simp add: fun_upd_idem)
  then show ?thesis using assms by (simp add: array_entry_def Let_def)
qed

lemma array_entry_new:
  assumes "arrays s v = Some fs" and "fs = [] \<or> a_value (hd fs) = None"
    and s': "s' = s\<lparr>a_heap := (a_heap s)(a_next s \<mapsto> \<lparr>a_tree = None, a_depth = 0\<rparr>), a_next := a_next s + 1,
      arrays := (arrays s)(v \<mapsto> \<lparr>a_value = Some (a_next s), a_param = (fs \<noteq> [] \<and> a_param (hd fs))\<rparr> # tl fs)\<rparr>"
  shows "array_entry v s = Some (a_next s, s')"
proof (cases fs)
  case Nil
  then show ?thesis using assms(1) by (simp add: array_entry_def new_frame_def new_array_def s')
next
  case (Cons f gs)
  then show ?thesis using assms(1,2) by (cases f) (simp add: array_entry_def new_array_def s')
qed

lemma array_entry_spec:
  assumes ok: "arrays_ok s" and fs: "arrays s v = Some fs"
  shows "\<exists>ad s' a fs'. array_entry v s = Some (ad, s') \<and> arrays_ok s' \<and> same_rest s s' \<and> a_heap s' ad = Some a
           \<and> array_addr s' v = Some ad \<and> array_val s' = array_val s
           \<and> arrays s' = (arrays s)(v \<mapsto> fs') \<and> frames_grow fs fs'
           \<and> (\<forall>x y. a_heap s x = Some y \<longrightarrow> a_heap s' x = Some y)"
proof (cases "fs = [] \<or> a_value (hd fs) = None")
  case False
  then obtain f gs ad where f: "fs = f # gs" "a_value f = Some ad" by (cases fs) auto
  then have e: "array_entry v s = Some (ad, s)" using array_entry_old fs by simp
  have "\<exists>a. a_heap s ad = Some a" using ok fs f unfolding arrays_ok_def by (metis list.set_intros(1) not_None_eq)
  moreover have "(arrays s)(v \<mapsto> fs) = arrays s" using fs by (simp add: fun_upd_idem)
  ultimately show ?thesis using e ok f fs
    by (auto simp: array_addr_def frames_grow_def intro!: exI [of _ ad] exI [of _ s])
next
  case True
  let ?ad = "a_next s" and ?e = "\<lparr>a_tree = None, a_depth = 0\<rparr>"
  let ?f = "\<lparr>a_value = Some ?ad, a_param = (fs \<noteq> [] \<and> a_param (hd fs))\<rparr>"
  let ?s = "s\<lparr>a_heap := (a_heap s)(?ad \<mapsto> ?e), a_next := ?ad + 1, arrays := (arrays s)(v \<mapsto> ?f # tl fs)\<rparr>"
  have run: "array_entry v s = Some (?ad, ?s)" by (rule array_entry_new [OF fs True refl])
  have fresh: "a_heap s ?ad = None" using ok unfolding arrays_ok_def by (metis less_irrefl not_None_eq)
  have used: "x \<noteq> ?ad" if "arrays s w = Some ws" "f \<in> set ws" "a_value f = Some x" for w ws f x
  proof -
    have "a_heap s x \<noteq> None" using ok that unfolding arrays_ok_def by blast
    then show ?thesis using fresh by auto
  qed
  have "arrays_ok ?s"
    unfolding arrays_ok_def
  proof (intro conjI allI impI)
    fix ad a assume "a_heap ?s ad = Some a"
    then have "ad = ?ad \<and> a = ?e \<or> ad < ?ad \<and> array_wf a"
      using ok by (cases "ad = ?ad") (auto simp: arrays_ok_def)
    then show "ad < a_next ?s" "array_wf a" using empty_array(1) by auto
  next
    fix w ws f ad assume a: "arrays ?s w = Some ws" "f \<in> set ws" "a_value f = Some ad"
    have "ad = ?ad \<or> (\<exists>us. arrays s w = Some us \<and> f \<in> set us)"
      using a fs by (cases "w = v"; cases fs) auto
    then show "a_heap ?s ad \<noteq> None" using ok a(3) unfolding arrays_ok_def by fastforce
  qed
  moreover have "array_val ?s w idx = array_val s w idx" for w idx
  proof (cases "w = v")
    case True
    have "frame_val s (hd fs) idx = bc_zero" if "fs \<noteq> []" using that \<open>fs = [] \<or> _\<close> by (simp add: frame_val_def)
    then show ?thesis using True fs by (cases fs) (auto simp: array_val_def frame_val_def empty_array)
  next
    case False
    have "frame_val ?s f idx = frame_val s f idx" if "arrays s w = Some (f # gs)" for f gs
      using used [OF that] by (auto simp: frame_val_def split: option.splits)
    then show ?thesis using False by (auto simp: array_val_def split: option.splits list.splits)
  qed
  moreover have "\<forall>x y. a_heap s x = Some y \<longrightarrow> a_heap ?s x = Some y" using fresh by auto
  moreover have "frames_grow fs (?f # tl fs)" using True by (auto simp: frames_grow_def)
  ultimately show ?thesis using run
    by (intro exI [of _ ?ad] exI [of _ ?s] exI [of _ ?e] exI [of _ "?f # tl fs"])
       (use fs in \<open>auto simp: same_rest_def array_addr_def\<close>)
qed

lemma get_array_num_spec:
  assumes ok: "arrays_ok s" and fs: "arrays s v = Some fs" and idx: "idx < 64 ^ 4"
  shows "\<exists>p s' fs'. get_array_num v idx s = Some (p, s') \<and> arrays_ok s' \<and> same_rest s s'
           \<and> array_addr s' v = Some (fst p) \<and> array_val s' = array_val s
           \<and> ptr_get p s' = Some (array_val s v idx)
           \<and> (\<exists>a L. a_heap s' (fst p) = Some a \<and> a_depth a = L \<and> L \<le> 4 \<and> idx < 64 ^ L \<and> snd p = idx_path L idx)
           \<and> arrays s' = (arrays s)(v \<mapsto> fs') \<and> frames_grow fs fs' \<and> (\<forall>x. a_heap s' x = None \<longrightarrow> a_heap s x = None)"
proof -
  obtain ad s1 a fs' where e: "array_entry v s = Some (ad, s1)" "arrays_ok s1" "same_rest s s1" "a_heap s1 ad = Some a"
    "array_addr s1 v = Some ad" "array_val s1 = array_val s" "arrays s1 = (arrays s)(v \<mapsto> fs')" "frames_grow fs fs'"
    "\<forall>x y. a_heap s x = Some y \<longrightarrow> a_heap s1 x = Some y"
    using array_entry_spec [OF ok fs] by blast
  have wa: "array_wf a" using e(2,4) by (auto simp: arrays_ok_def)
  then have d4: "a_depth a \<le> 4" by (simp add: array_wf_def)
  let ?sub = "[idx mod 64, 0, 0, 0]"
  have r: "replicate 4 (0::nat) = [0, 0, 0, 0]" by (simp add: eval_nat_numeral)
  have w: "wr (replicate 4 0) 0 (idx mod 64) = Some ?sub" unfolding r by (simp add: wr_def)
  obtain sub L where L: "index_loop (idx div 64) 1 (a_depth a) ?sub = Some (sub, L)" "rev (take L sub) = idx_path L idx"
    "1 \<le> L" "L \<le> 4" "a_depth a \<le> L" "idx < 64 ^ L"
  proof -
    have "idx div 64 = idx div 64 ^ 1" "length ?sub = 4" "\<forall>k < 1. ?sub ! k = idx div 64 ^ k mod 64" by simp_all
    from index_loop_spec [OF this(1) idx this(2) _ _ d4 this(3)] show ?thesis using that by auto
  qed
  let ?a = "build_tree L a"
  note b = build_tree_spec [OF wa L(4)]
  have dL: "a_depth ?a = L" using b(2) L(5) by simp
  then obtain t where t: "a_tree ?a = Some t" "node_wf L t"
    using b(1) L(3) by (cases "a_tree ?a") (auto simp: array_wf_def)
  obtain t' where t': "find_node (idx_path L idx) t = Some t'" "node_wf L t'"
    "node_get (idx_path L idx) t' = Some (node_val (Some t) (idx_path L idx))"
    "\<forall>q. path_ok L q \<longrightarrow> node_val (Some t') q = node_val (Some t) q"
    using find_node_spec [OF t(2) idx_path_ok] by blast
  let ?n = "?a\<lparr>a_tree := Some t'\<rparr>" and ?s = "s1\<lparr>a_heap := (a_heap s1)(ad \<mapsto> ?a\<lparr>a_tree := Some t'\<rparr>)\<rparr>"
  have run: "get_array_num v idx s = Some ((ad, idx_path L idx), ?s)"
    unfolding get_array_num_def e(1) using w L(1,2) e(4) t(1) t'(1) by simp
  have wn: "array_wf ?n" using dL L(4) t'(2) by (simp add: array_wf_def)
  have av: "arr_val ?n = arr_val a"
  proof
    fix i
    have "arr_val ?n i = arr_val ?a i" using t'(4) t(1) dL idx_path_ok by (simp add: arr_val_def)
    then show "arr_val ?n i = arr_val a i" using b(3) by simp
  qed
  have ok': "arrays_ok ?s" using e(2,4) wn unfolding arrays_ok_def by auto
  have val: "array_val ?s = array_val s"
  proof -
    have "frame_val ?s f i = frame_val s1 f i" for f i
      using av e(4) by (auto simp: frame_val_def split: option.splits)
    then have "array_val ?s = array_val s1" by (intro ext) (auto simp: array_val_def split: option.splits list.splits)
    then show ?thesis using e(6) by simp
  qed
  have get: "ptr_get (ad, idx_path L idx) ?s = Some (array_val s v idx)"
  proof -
    have "array_val s v idx = arr_val a idx"
      using e(4,5) unfolding e(6) [symmetric]
      by (auto simp: array_addr_def array_val_def frame_val_def split: option.splits list.splits)
    also have "\<dots> = node_val (Some t) (idx_path L idx)"
      using fun_cong [OF b(3), of idx] t(1) dL L(6) by (simp add: arr_val_def)
    finally show ?thesis using t'(3) by (simp add: ptr_get_def)
  qed
  have addr: "array_addr ?s v = Some ad" using e(5) by (simp add: array_addr_def)
  have rest: "same_rest s ?s" using e(3) by (cases s, cases s1) (auto simp: same_rest_def)
  have grow: "\<forall>x. a_heap ?s x = None \<longrightarrow> a_heap s x = None" using e(9)
  proof (intro allI impI)
    fix x assume "a_heap ?s x = None"
    then have "a_heap s1 x = None" by (auto split: if_splits)
    then show "a_heap s x = None" using e(9) by (cases "a_heap s x") auto
  qed
  show ?thesis
    using run ok' rest addr val get grow dL L(4,6) e(7,8)
    by (intro exI [of _ "(ad, idx_path L idx)"] exI [of _ ?s] exI [of _ fs']) auto
qed

text \<open>Storing through the pointer changes this element, in every variable that shares the array.\<close>

lemma ptr_set_spec:
  assumes ok: "arrays_ok s" and a: "a_heap s ad = Some a" "a_depth a = L" "idx < 64 ^ L"
    and g: "ptr_get (ad, idx_path L idx) s = Some x" and c: "bc_canon n"
  shows "\<exists>s'. ptr_set (ad, idx_path L idx) n s = Some s' \<and> arrays_ok s' \<and> same_rest s s' \<and> arrays s' = arrays s
           \<and> (\<forall>w i. array_val s' w i = (if array_addr s w = Some ad \<and> i = idx then n else array_val s w i))"
proof -
  have wa: "array_wf a" using ok a(1) by (auto simp: arrays_ok_def)
  obtain t where t: "a_tree a = Some t" "node_get (idx_path L idx) t = Some x"
    using g a(1) by (cases "a_tree a") (auto simp: ptr_get_def)
  then have wt: "node_wf L t" using wa a(2) by (simp add: array_wf_def)
  obtain t' where t': "node_set (idx_path L idx) n t = Some t'" "node_wf L t'"
    "\<forall>q. path_ok L q \<longrightarrow> node_val (Some t') q = (if q = idx_path L idx then n else node_val (Some t) q)"
    using node_set_spec [OF wt idx_path_ok t(2) c] by blast
  let ?n = "a\<lparr>a_tree := Some t'\<rparr>"
  let ?s = "s\<lparr>a_heap := (a_heap s)(ad \<mapsto> ?n)\<rparr>"
  have run: "ptr_set (ad, idx_path L idx) n s = Some ?s" using a(1) t(1) t'(1) by (simp add: ptr_set_def)
  have wn: "array_wf ?n" using wa t'(2) a(2) t(1) by (simp add: array_wf_def)
  have ok': "arrays_ok ?s" using ok wn a(1) unfolding arrays_ok_def by auto
  have av: "arr_val ?n i = (if i = idx then n else arr_val a i)" for i
    using t'(3) t(1) a(2,3) idx_path_ok idx_path_inj [of i L idx] by (auto simp: arr_val_def)
  have "array_val ?s w i = (if array_addr s w = Some ad \<and> i = idx then n else array_val s w i)" for w i
    using av a(1) by (auto simp: array_val_def array_addr_def frame_val_def split: option.splits list.splits)
  then show ?thesis using run ok' by (intro exI [of _ ?s]) (auto simp: same_rest_def)
qed

lemma index_loop_overflow:
  assumes "64 ^ (4 - lg) \<le> ix" and "lg \<le> 4" and "length sub = 4"
  shows "index_loop ix lg depth sub = None"
  using assms
proof (induction "4 - lg" arbitrary: lg ix sub)
  case 0
  then have "ix > 0" "wr sub (int lg) (ix mod 64) = None" by (simp_all add: wr_def)
  then show ?case by (subst index_loop.simps) simp
next
  case (Suc d)
  then have l: "lg < 4" "d = 4 - (lg + 1)" by simp_all
  have ix: "ix > 0" using Suc.prems(1) by (meson less_le_trans zero_less_numeral zero_less_power)
  have w: "wr sub (int lg) (ix mod 64) = Some (sub[lg := ix mod 64])" using Suc.prems(3) l by (simp add: wr_nat)
  have "64 * 64 ^ (4 - (lg + 1)) \<le> ix" using Suc.prems(1) Suc.hyps(2) l(2) by (metis power_Suc)
  then have "64 ^ (4 - (lg + 1)) \<le> ix div 64" by (simp add: less_eq_div_iff_mult_less_eq mult.commute)
  then have "index_loop (ix div 64) (lg + 1) depth (sub[lg := ix mod 64]) = None"
    using Suc.hyps(1) [OF l(2)] l Suc.prems(3) by simp
  then show ?case using ix w by (subst index_loop.simps) simp
qed

lemma copy_array_spec:
  assumes ok: "arrays_ok s" and a: "a_heap s ad = Some a" "a_tree a \<noteq> None"
  shows "\<exists>s'. copy_array ad s = Some (a_next s, s') \<and> arrays_ok s' \<and> same_rest s s' \<and> arrays s' = arrays s
           \<and> a_heap s (a_next s) = None \<and> a_heap s' = (a_heap s)(a_next s \<mapsto> a)"
proof -
  obtain t where t: "a_tree a = Some t" using a(2) by auto
  have wa: "array_wf a" using ok a(1) by (auto simp: arrays_ok_def)
  then have wt: "node_wf (a_depth a) t" using t by (simp add: array_wf_def)
  have fresh: "a_heap s (a_next s) = None" using ok unfolding arrays_ok_def by (metis less_irrefl not_None_eq)
  have ea: "\<lparr>a_tree = Some t, a_depth = a_depth a\<rparr> = a" using t by (cases a) simp
  let ?s = "s\<lparr>a_heap := (a_heap s)(a_next s \<mapsto> a), a_next := a_next s + 1\<rparr>"
  have run: "copy_array ad s = Some (a_next s, ?s)"
  proof -
    have "copy_array ad s = Some (a_next s, s\<lparr>a_heap := (a_heap s)(a_next s \<mapsto> \<lparr>a_tree = Some t, a_depth = a_depth a\<rparr>),
        a_next := a_next s + 1\<rparr>)"
      using a(1) t copy_tree_spec [OF wt] by (simp add: copy_array_def)
    then show ?thesis unfolding ea .
  qed
  have "arrays_ok ?s"
    unfolding arrays_ok_def
  proof (intro conjI allI impI)
    fix x y assume "a_heap ?s x = Some y"
    then have "x = a_next s \<and> y = a \<or> x < a_next s \<and> array_wf y"
      using ok by (cases "x = a_next s") (auto simp: arrays_ok_def)
    then show "x < a_next ?s" "array_wf y" using wa by auto
  next
    fix v fs f x assume h: "arrays ?s v = Some fs" "f \<in> set fs" "a_value f = Some x"
    then have "arrays s v = Some fs" by simp
    then have "a_heap s x \<noteq> None" using ok h(2,3) unfolding arrays_ok_def by blast
    then show "a_heap ?s x \<noteq> None" by auto
  qed
  then show ?thesis using run fresh by (intro exI [of _ ?s]) (auto simp: same_rest_def)
qed

section \<open>The contract of a place for numbers\<close>

text \<open>
  Variables and array elements are used the same way: find the place (and make it), read it, write it.
  \<open>ok\<close> is the invariant of the store, \<open>val\<close> the contents as a map, \<open>points p k s\<close> says that \<open>p\<close> is the place of \<open>k\<close>,
  \<open>same k j s\<close> that the two names share a place, \<open>frame\<close> that nothing else of the state differs.
\<close>

locale num_store =
  fixes ok :: "'s \<Rightarrow> bool" and valid :: "'k \<Rightarrow> 's \<Rightarrow> bool" and val :: "'s \<Rightarrow> 'k \<Rightarrow> bc_num"
    and same :: "'k \<Rightarrow> 'k \<Rightarrow> 's \<Rightarrow> bool" and points :: "'p \<Rightarrow> 'k \<Rightarrow> 's \<Rightarrow> bool" and frame :: "'s \<Rightarrow> 's \<Rightarrow> bool"
    and locate :: "'k \<Rightarrow> 's \<Rightarrow> ('p \<times> 's) option" and read :: "'p \<Rightarrow> 's \<Rightarrow> bc_num option"
    and store :: "'p \<Rightarrow> bc_num \<Rightarrow> 's \<Rightarrow> 's option"
  assumes frame_trans: "frame s t \<Longrightarrow> frame t u \<Longrightarrow> frame s u"
    and locate_law: "ok s \<Longrightarrow> valid k s \<Longrightarrow> \<exists>p s'. locate k s = Some (p, s') \<and> ok s' \<and> frame s s' \<and> val s' = val s
           \<and> points p k s' \<and> read p s' = Some (val s k)"
    and store_law: "ok s \<Longrightarrow> points p k s \<Longrightarrow> bc_canon n \<Longrightarrow> \<exists>s'. store p n s = Some s' \<and> ok s' \<and> frame s s'
           \<and> (\<forall>j. val s' j = (if same k j s' then n else val s j))"
begin

text \<open>Storing a number, and replacing the contents by a function of it.\<close>

lemma put:
  assumes "ok s" and "valid k s" and "bc_canon n"
  shows "\<exists>s'. do { (p, s) \<leftarrow> locate k s; store p n s } = Some s' \<and> ok s' \<and> frame s s'
           \<and> (\<forall>j. val s' j = (if same k j s' then n else val s j))"
proof -
  obtain p s1 where l: "locate k s = Some (p, s1)" "ok s1" "frame s s1" "val s1 = val s" "points p k s1"
    using locate_law [OF assms(1,2)] by blast
  obtain s2 where w: "store p n s1 = Some s2" "ok s2" "frame s1 s2"
    "\<forall>j. val s2 j = (if same k j s2 then n else val s1 j)"
    using store_law [OF l(2,5) assms(3)] by blast
  then show ?thesis using l(1,4) frame_trans [OF l(3) w(3)] by auto
qed

lemma update:
  assumes "ok s" and "valid k s" and "f (val s k) = Some n" and "bc_canon n"
  shows "\<exists>s'. do { (p, s) \<leftarrow> locate k s; x \<leftarrow> read p s; y \<leftarrow> f x; store p y s } = Some s' \<and> ok s' \<and> frame s s'
           \<and> (\<forall>j. val s' j = (if same k j s' then n else val s j))"
proof -
  obtain p s1 where l: "locate k s = Some (p, s1)" "read p s1 = Some (val s k)"
    using locate_law [OF assms(1,2)] by blast
  then have "do { (p, s) \<leftarrow> locate k s; x \<leftarrow> read p s; y \<leftarrow> f x; store p y s } = do { (p, s) \<leftarrow> locate k s; store p n s }"
    using assms(3) by simp
  then show ?thesis using put [OF assms(1,2,4)] by simp
qed

lemma fetch:
  assumes "ok s" and "valid k s"
  shows "\<exists>s'. do { (p, s) \<leftarrow> locate k s; x \<leftarrow> read p s; Some (x, s) } = Some (val s k, s') \<and> ok s' \<and> frame s s'
           \<and> val s' = val s"
  using locate_law [OF assms] by auto

end

definition elem_points :: "num_ptr \<Rightarrow> nat \<times> nat \<Rightarrow> bc_state \<Rightarrow> bool" where
  "elem_points p k s \<longleftrightarrow> array_addr s (fst k) = Some (fst p) \<and> (\<exists>a x. a_heap s (fst p) = Some a
     \<and> snd k < 64 ^ a_depth a \<and> snd p = idx_path (a_depth a) (snd k) \<and> ptr_get p s = Some x)"

definition elem_same :: "nat \<times> nat \<Rightarrow> nat \<times> nat \<Rightarrow> bc_state \<Rightarrow> bool" where
  "elem_same k j s \<longleftrightarrow> snd k = snd j \<and> array_addr s (fst k) = array_addr s (fst j)"

interpretation elems: num_store arrays_ok "\<lambda>k s. arrays s (fst k) \<noteq> None \<and> snd k < 64 ^ 4"
  "\<lambda>s k. array_val s (fst k) (snd k)" elem_same elem_points same_rest "\<lambda>k. get_array_num (fst k) (snd k)" ptr_get ptr_set
proof unfold_locales
  show "same_rest s u" if "same_rest s t" "same_rest t u" for s t u using that by (rule same_rest_trans)
next
  fix s and k :: "nat \<times> nat" assume ok: "arrays_ok s" and k: "arrays s (fst k) \<noteq> None \<and> snd k < 64 ^ 4"
  then obtain fs where fs: "arrays s (fst k) = Some fs" by auto
  obtain p s' fs' a where g: "get_array_num (fst k) (snd k) s = Some (p, s')" "arrays_ok s'" "same_rest s s'"
    "array_addr s' (fst k) = Some (fst p)" "array_val s' = array_val s" "ptr_get p s' = Some (array_val s (fst k) (snd k))"
    "a_heap s' (fst p) = Some a" "snd k < 64 ^ a_depth a" "snd p = idx_path (a_depth a) (snd k)"
    using get_array_num_spec [OF ok fs conjunct2 [OF k]] by blast
  then show "\<exists>p s'. get_array_num (fst k) (snd k) s = Some (p, s') \<and> arrays_ok s' \<and> same_rest s s'
           \<and> (\<lambda>k. array_val s' (fst k) (snd k)) = (\<lambda>k. array_val s (fst k) (snd k))
           \<and> elem_points p k s' \<and> ptr_get p s' = Some (array_val s (fst k) (snd k))"
    by (intro exI [of _ p] exI [of _ s']) (auto simp: elem_points_def)
next
  fix s p k n assume ok: "arrays_ok s" and p: "elem_points p k s" and n: "bc_canon n"
  obtain a x where a: "array_addr s (fst k) = Some (fst p)" "a_heap s (fst p) = Some a" "snd k < 64 ^ a_depth a"
    "p = (fst p, idx_path (a_depth a) (snd k))" "ptr_get p s = Some x"
    using p unfolding elem_points_def by (metis prod.collapse)
  obtain s' where s': "ptr_set p n s = Some s'" "arrays_ok s'" "same_rest s s'" "arrays s' = arrays s"
    "\<forall>w i. array_val s' w i = (if array_addr s w = Some (fst p) \<and> i = snd k then n else array_val s w i)"
    using ptr_set_spec [OF ok a(2) refl a(3) _ n, of x] a(5) unfolding a(4) [symmetric] by blast
  have "array_addr s' w = array_addr s w" for w using s'(4) by (simp add: array_addr_def)
  then show "\<exists>s'. ptr_set p n s = Some s' \<and> arrays_ok s' \<and> same_rest s s'
           \<and> (\<forall>j. array_val s' (fst j) (snd j) = (if elem_same k j s' then n else array_val s (fst j) (snd j)))"
    using s' a(1) by (intro exI [of _ s']) (auto simp: elem_same_def)
qed

section \<open>Properties\<close>

lemma BC_DIM_MAX_pow: "int idx \<le> BC_DIM_MAX \<longleftrightarrow> idx < 64 ^ 4"
  by (simp add: BC_DIM_MAX_def) linarith

text \<open>
  C25: for every subscript up to \<open>BC_DIM_MAX\<close> the four elements of \<open>sub\<close> are enough, the place of the
  element is found (and made), no element of any array changes, and storing there changes exactly
  this element, in the variables that share the array; a larger subscript overruns \<open>sub\<close>.
\<close>

theorem get_array_num_correct:
  assumes "arrays_ok s" and "arrays s v \<noteq> None"
  shows "(int idx > BC_DIM_MAX \<longrightarrow> get_array_num v idx s = None)
       \<and> (int idx \<le> BC_DIM_MAX \<longrightarrow> (\<exists>p s'. get_array_num v idx s = Some (p, s') \<and> arrays_ok s' \<and> same_rest s s'
             \<and> array_val s' = array_val s \<and> ptr_get p s' = Some (array_val s v idx)
             \<and> (\<forall>n. bc_canon n \<longrightarrow> (\<exists>t. ptr_set p n s' = Some t \<and> arrays_ok t \<and> same_rest s t
                    \<and> (\<forall>w i. array_val t w i = (if i = idx \<and> array_addr t w = array_addr t v then n else array_val s w i))))))"
proof (intro conjI impI)
  assume "int idx > BC_DIM_MAX"
  then have i: "64 ^ 4 \<le> idx" using BC_DIM_MAX_pow [of idx] by linarith
  then have "64 ^ (4 - 1) \<le> idx div 64" by simp
  then have "index_loop (idx div 64) 1 d (list_update sub 0 x) = None" if "length sub = 4" for d sub x
    using index_loop_overflow [of 1 "idx div 64"] that by simp
  then show "get_array_num v idx s = None"
    by (auto simp: get_array_num_def wr_def split: bind_splits)
next
  assume "int idx \<le> BC_DIM_MAX"
  then have k: "arrays s (fst (v, idx)) \<noteq> None \<and> snd (v, idx) < 64 ^ 4" using assms(2) BC_DIM_MAX_pow by simp
  obtain p s' where l: "get_array_num v idx s = Some (p, s')" "arrays_ok s'" "same_rest s s'"
    "(\<lambda>k. array_val s' (fst k) (snd k)) = (\<lambda>k. array_val s (fst k) (snd k))"
    "elem_points p (v, idx) s'" "ptr_get p s' = Some (array_val s v idx)"
    using elems.locate_law [OF assms(1) k] by auto
  have e: "array_val s' = array_val s" using l(4) by (auto simp: fun_eq_iff)
  have "\<exists>t. ptr_set p n s' = Some t \<and> arrays_ok t \<and> same_rest s t
      \<and> (\<forall>w i. array_val t w i = (if i = idx \<and> array_addr t w = array_addr t v then n else array_val s w i))"
    if n: "bc_canon n" for n
  proof -
    obtain t where t: "ptr_set p n s' = Some t" "arrays_ok t" "same_rest s' t"
      "\<forall>j. array_val t (fst j) (snd j) = (if elem_same (v, idx) j t then n else array_val s' (fst j) (snd j))"
      using elems.store_law [OF l(2,5) n] by blast
    have "array_val t w i = (if i = idx \<and> array_addr t w = array_addr t v then n else array_val s w i)" for w i
      using t(4) [rule_format, of "(w, i)"] e by (auto simp: elem_same_def)
    then show ?thesis using t same_rest_trans [OF l(3) t(3)] by blast
  qed
  then show "\<exists>p s'. get_array_num v idx s = Some (p, s') \<and> arrays_ok s' \<and> same_rest s s'
      \<and> array_val s' = array_val s \<and> ptr_get p s' = Some (array_val s v idx)
      \<and> (\<forall>n. bc_canon n \<longrightarrow> (\<exists>t. ptr_set p n s' = Some t \<and> arrays_ok t \<and> same_rest s t
             \<and> (\<forall>w i. array_val t w i = (if i = idx \<and> array_addr t w = array_addr t v then n else array_val s w i))))"
    using l(1-3,6) e by blast
qed

lemma init_arrays:
  "arrays (init_storage s) v = (if 1 \<le> v \<and> v < 32 then Some [] else None)"
  "arrays_ok (init_storage zero_state)" "array_val (init_storage s) v i = bc_zero"
  by (simp_all add: init_storage_def more_functions_def more_variables_def more_arrays_def Let_def zero_state_def
      arrays_ok_def array_val_def)

theorem get_array_num_correct_witness:
  "\<exists>p s'. get_array_num 1 16777215 (init_storage zero_state) = Some (p, s') \<and> ptr_get p s' = Some bc_zero"
proof -
  have "int 16777215 \<le> BC_DIM_MAX" "arrays (init_storage zero_state) 1 \<noteq> None" by (simp_all add: BC_DIM_MAX_def init_arrays)
  then show ?thesis
    using get_array_num_correct [OF init_arrays(2), of 1 16777215] unfolding init_arrays(3) by blast
qed

text \<open>
  A call by value gets an array of its own: the copy is at a fresh address, holds the same numbers,
  and storing in the one does not change the other.
\<close>

theorem copy_array_correct:
  assumes "arrays_ok s" and "a_heap s ad = Some a" and "a_tree a \<noteq> None"
  shows "\<exists>ad' s'. copy_array ad s = Some (ad', s') \<and> a_heap s ad' = None \<and> ad' \<noteq> ad \<and> arrays_ok s' \<and> same_rest s s'
           \<and> array_val s' = array_val s \<and> (\<exists>b. a_heap s' ad' = Some b \<and> arr_val b = arr_val a)
           \<and> (\<forall>p n t. ptr_set (ad, p) n s' = Some t \<longrightarrow> a_heap t ad' = a_heap s' ad')"
proof -
  obtain s' where s': "copy_array ad s = Some (a_next s, s')" "arrays_ok s'" "same_rest s s'" "arrays s' = arrays s"
    "a_heap s (a_next s) = None" "a_heap s' = (a_heap s)(a_next s \<mapsto> a)"
    using copy_array_spec [OF assms] by blast
  have ne: "a_next s \<noteq> ad" using s'(5) assms(2) by auto
  have "frame_val s' f i = frame_val s f i" if "arrays s w = Some fs" "f \<in> set fs" for w fs f i
  proof (cases "a_value f")
    case (Some x)
    then have "a_heap s x \<noteq> None" using assms(1) that unfolding arrays_ok_def by blast
    then have "x \<noteq> a_next s" using s'(5) by auto
    then show ?thesis using Some s'(6) by (simp add: frame_val_def)
  qed (simp add: frame_val_def)
  then have "array_val s' = array_val s"
    using s'(4) by (intro ext) (auto simp: array_val_def split: option.splits list.splits)
  moreover have "\<forall>p n t. ptr_set (ad, p) n s' = Some t \<longrightarrow> a_heap t (a_next s) = a_heap s' (a_next s)"
    using ne by (auto simp: ptr_set_def split: bind_splits)
  ultimately show ?thesis using s' ne by (intro exI [of _ "a_next s"] exI [of _ s']) auto
qed

theorem copy_array_correct_witness:
  "\<exists>ad' s'. copy_array 0 (zero_state\<lparr>a_heap := [0 \<mapsto> \<lparr>a_tree = Some zero_node, a_depth = 1\<rparr>], a_next := 1\<rparr>) = Some (ad', s') \<and> ad' \<noteq> 0"
proof -
  let ?a = "\<lparr>a_tree = Some zero_node, a_depth = 1\<rparr>"
  let ?s = "zero_state\<lparr>a_heap := [0 \<mapsto> ?a], a_next := 1\<rparr>"
  have "arrays_ok ?s" using zero_node_props(1) by (simp add: arrays_ok_def array_wf_def zero_state_def)
  moreover have "a_heap ?s 0 = Some ?a" "a_tree ?a \<noteq> None" by simp_all
  ultimately show ?thesis using copy_array_correct by blast
qed

end
