(* ===== verification/BcStorage.thy ===== *)
theory BcStorage
  imports BcArray
begin

text \<open>
  Variables, array elements and calls (\<^verbatim>\<open>usr.bin/bc/storage.c\<close>): storing, loading, incrementing and
  decrementing variables, the special variables \<open>ibase\<close>, \<open>obase\<close> and \<open>scale\<close>, array elements, the stacks of
  automatic variables, and the passing of parameters.
\<close>

section \<open>Simple variables\<close>

text \<open>\<open>get_var\<close> returns the place of the variable, which is its name.\<close>

definition get_var :: "nat \<Rightarrow> bc_state \<Rightarrow> (nat \<times> bc_state) option" where
  "get_var var_name s = do {
     var_ptr \<leftarrow> variables s var_name;
     case var_ptr of
       Var_null \<Rightarrow> Some (var_name, s\<lparr>variables := (variables s)(var_name \<mapsto> Var bc_zero Var_junk)\<rparr>)
     | Var_junk \<Rightarrow> None
     | Var x nx \<Rightarrow> Some (var_name, s)
   }"

definition var_get :: "nat \<Rightarrow> bc_state \<Rightarrow> bc_num option" where
  "var_get p s = do { v \<leftarrow> variables s p; case v of Var x nx \<Rightarrow> Some x | _ \<Rightarrow> None }"

definition var_set :: "nat \<Rightarrow> bc_num \<Rightarrow> bc_state \<Rightarrow> bc_state option" where
  "var_set p n s = do {
     v \<leftarrow> variables s p;
     case v of Var x nx \<Rightarrow> Some (s\<lparr>variables := (variables s)(p \<mapsto> Var n nx)\<rparr>) | _ \<Rightarrow> None
   }"

text \<open>The special variables: what the value on the stack sets them to.\<close>

definition set_ibase :: "int \<Rightarrow> bool \<Rightarrow> bc_state \<Rightarrow> bc_state" where
  "set_ibase temp toobig s = (
     if temp < 2 \<and> \<not> toobig then rt_warn ''ibase too small, set to 2'' (s\<lparr>i_base := 2\<rparr>)
     else if temp > 16 \<or> toobig then
       if std_only s then rt_warn ''ibase too large, set to 16'' (s\<lparr>i_base := 16\<rparr>)
       else if temp > 36 \<or> toobig then rt_warn ''ibase too large, set to 36'' (s\<lparr>i_base := 36\<rparr>)
       else (if temp \<ge> 16 \<and> warn_not_std s then rt_warn ''ibase larger than 16 is non-standard'' s else s)\<lparr>i_base := temp\<rparr>
     else s\<lparr>i_base := temp\<rparr>)"

definition set_obase :: "int \<Rightarrow> bool \<Rightarrow> bc_state \<Rightarrow> bc_state" where
  "set_obase temp toobig s = (
     if temp < 2 \<and> \<not> toobig then rt_warn ''obase too small, set to 2'' (s\<lparr>o_base := 2\<rparr>)
     else if temp > BC_BASE_MAX \<or> toobig
     then rt_warn (''obase too large, set to '' @ long_str BC_BASE_MAX) (s\<lparr>o_base := BC_BASE_MAX\<rparr>)
     else s\<lparr>o_base := temp\<rparr>)"

definition set_scale :: "int \<Rightarrow> bool \<Rightarrow> bc_state \<Rightarrow> bc_state" where
  "set_scale temp toobig s = (
     if temp > BC_SCALE_MAX \<or> toobig
     then rt_warn (''scale too large, set to '' @ long_str BC_SCALE_MAX) (s\<lparr>scale := BC_SCALE_MAX\<rparr>)
     else s\<lparr>scale := temp\<rparr>)"

text \<open>A negative value is replaced, with a warning.\<close>

definition negative_special :: "nat \<Rightarrow> bc_state \<Rightarrow> int \<times> bc_state" where
  "negative_special var_name s = (
     if var_name = 0 then (2, rt_warn ''negative ibase, set to 2'' s)
     else if var_name = 1 then (2, rt_warn ''negative obase, set to 2'' s)
     else if var_name = 2 then (0, rt_warn ''negative scale, set to 0'' s)
     else (0, s))"

definition store_special :: "nat \<Rightarrow> bc_state \<Rightarrow> bc_state option" where
  "store_special var_name s = do {
     x \<leftarrow> tos s;
     (temp, toobig, s) \<leftarrow> (if bc_is_neg x then let (t, s) = negative_special var_name s in Some (t, False, s)
        else do { t \<leftarrow> bc_num2long x; z \<leftarrow> bc_is_zero x; Some (t, \<not> z \<and> t = 0, s) });
     Some (if var_name = 0 then set_ibase temp toobig s
           else if var_name = 1 then set_obase temp toobig s
           else if var_name = 2 then set_scale temp toobig s
           else s)
   }"

definition store_var :: "nat \<Rightarrow> bc_state \<Rightarrow> bc_state option" where
  "store_var var_name s = (if var_name > 3
     then do { (p, s) \<leftarrow> get_var var_name s; x \<leftarrow> tos s; var_set p x s }
     else store_special var_name s)"

definition load_var :: "nat \<Rightarrow> bc_state \<Rightarrow> bc_state option" where
  "load_var var_name s = (
     if var_name = 0 then do { n \<leftarrow> bc_int2num (i_base s); Some (push_num n s) }
     else if var_name = 1 then do { n \<leftarrow> bc_int2num (o_base s); Some (push_num n s) }
     else if var_name = 2 then do { n \<leftarrow> bc_int2num (scale s); Some (push_num n s) }
     else do {
       v \<leftarrow> variables s var_name;
       case v of Var x nx \<Rightarrow> Some (push_copy x s) | Var_null \<Rightarrow> Some (push_copy bc_zero s) | Var_junk \<Rightarrow> None
     })"

definition decr_var :: "nat \<Rightarrow> bc_state \<Rightarrow> bc_state option" where
  "decr_var var_name s = (
     if var_name = 0 then Some (if i_base s > 2 then s\<lparr>i_base := i_base s - 1\<rparr> else rt_warn ''ibase too small in --'' s)
     else if var_name = 1 then Some (if o_base s > 2 then s\<lparr>o_base := o_base s - 1\<rparr> else rt_warn ''obase too small in --'' s)
     else if var_name = 2 then Some (if scale s > 0 then s\<lparr>scale := scale s - 1\<rparr>
       else rt_warn ''scale can not be negative in -- '' s)
     else do { (p, s) \<leftarrow> get_var var_name s; x \<leftarrow> var_get p s; y \<leftarrow> bc_sub x bc_one 0; var_set p y s })"

definition incr_var :: "nat \<Rightarrow> bc_state \<Rightarrow> bc_state option" where
  "incr_var var_name s = (
     if var_name = 0 then Some (if i_base s < 16 then s\<lparr>i_base := i_base s + 1\<rparr> else rt_warn ''ibase too big in ++'' s)
     else if var_name = 1 then Some (if o_base s < BC_BASE_MAX then s\<lparr>o_base := o_base s + 1\<rparr>
       else rt_warn ''obase too big in ++'' s)
     else if var_name = 2 then Some (if scale s < BC_SCALE_MAX then s\<lparr>scale := scale s + 1\<rparr>
       else rt_warn ''Scale too big in ++'' s)
     else do { (p, s) \<leftarrow> get_var var_name s; x \<leftarrow> var_get p s; y \<leftarrow> bc_add x bc_one 0; var_set p y s })"

section \<open>Array elements\<close>

text \<open>The subscript check; \<open>None\<close> inside when it is out of bounds.\<close>

definition array_index :: "bc_num \<Rightarrow> nat option option" where
  "array_index num = do {
     idx \<leftarrow> bc_num2long num;
     bad \<leftarrow> (if idx < 0 \<or> idx > BC_DIM_MAX then Some True
             else if idx = 0 then do { z \<leftarrow> bc_is_zero num; Some (\<not> z) } else Some False);
     Some (if bad then None else Some (nat idx))
   }"

definition subscript_error :: "nat \<Rightarrow> bc_state \<Rightarrow> bc_state option" where
  "subscript_error var_name s = do {
     name \<leftarrow> a_names s var_name;
     Some (rt_error (''Array '' @ name @ '' subscript out of bounds.'') s)
   }"

definition store_array :: "nat \<Rightarrow> bc_state \<Rightarrow> bc_state option" where
  "store_array var_name s = (
     let (ok, s) = check_stack 2 s
     in if \<not> ok then Some s else do {
       n \<leftarrow> nos s;
       idx \<leftarrow> array_index n;
       (case idx of None \<Rightarrow> subscript_error var_name s
        | Some idx \<Rightarrow> do {
            (num_ptr, s) \<leftarrow> get_array_num var_name idx s;
            x \<leftarrow> tos s;
            s \<leftarrow> ptr_set num_ptr x s;
            Some (push_num x (pop (pop s)))
          })
     })"

definition load_array :: "nat \<Rightarrow> bc_state \<Rightarrow> bc_state option" where
  "load_array var_name s = (
     let (ok, s) = check_stack 1 s
     in if \<not> ok then Some s else do {
       n \<leftarrow> tos s;
       idx \<leftarrow> array_index n;
       (case idx of None \<Rightarrow> subscript_error var_name s
        | Some idx \<Rightarrow> do {
            (num_ptr, s) \<leftarrow> get_array_num var_name idx s;
            x \<leftarrow> ptr_get num_ptr (pop s);
            Some (push_copy x (pop s))
          })
     })"

definition decr_array :: "nat \<Rightarrow> bc_state \<Rightarrow> bc_state option" where
  "decr_array var_name s = (
     let (ok, s) = check_stack 1 s
     in if \<not> ok then Some s else do {
       n \<leftarrow> tos s;
       idx \<leftarrow> array_index n;
       (case idx of None \<Rightarrow> subscript_error var_name s
        | Some idx \<Rightarrow> do {
            (num_ptr, s) \<leftarrow> get_array_num var_name idx s;
            x \<leftarrow> ptr_get num_ptr (pop s);
            y \<leftarrow> bc_sub x bc_one 0;
            ptr_set num_ptr y (pop s)
          })
     })"

definition incr_array :: "nat \<Rightarrow> bc_state \<Rightarrow> bc_state option" where
  "incr_array var_name s = (
     let (ok, s) = check_stack 1 s
     in if \<not> ok then Some s else do {
       n \<leftarrow> tos s;
       idx \<leftarrow> array_index n;
       (case idx of None \<Rightarrow> subscript_error var_name s
        | Some idx \<Rightarrow> do {
            (num_ptr, s) \<leftarrow> get_array_num var_name idx s;
            x \<leftarrow> ptr_get num_ptr (pop s);
            y \<leftarrow> bc_add x bc_one 0;
            ptr_set num_ptr y (pop s)
          })
     })"

section \<open>Automatic variables and parameters\<close>

definition auto_var :: "int \<Rightarrow> bc_state \<Rightarrow> bc_state option" where
  "auto_var name s = (if name > 0
     then do { v \<leftarrow> variables s (nat name);
               Some (s\<lparr>variables := (variables s)(nat name \<mapsto> Var bc_zero v)\<rparr>) }
     else do { fs \<leftarrow> arrays s (nat (- name));
               Some (s\<lparr>arrays := (arrays s)(nat (- name) \<mapsto> new_frame # fs)\<rparr>) })"

fun auto_vars :: "arg_list \<Rightarrow> bc_state \<Rightarrow> bc_state option" where
  "auto_vars [] s = Some s"
| "auto_vars (a # as) s = do { s \<leftarrow> auto_var (av_name a) s; auto_vars as s }"

definition free_array :: "bc_var_array \<Rightarrow> bc_state \<Rightarrow> bc_state option" where
  "free_array a_temp s = (case a_value a_temp of
     Some ad \<Rightarrow> if a_param a_temp then Some s else do {
         a \<leftarrow> a_heap s ad;
         u \<leftarrow> free_a_tree (a_depth a) (a_tree a);
         Some (s\<lparr>a_heap := (a_heap s)(ad := None)\<rparr>)
       }
   | None \<Rightarrow> Some s)"

definition pop_var :: "int \<Rightarrow> bc_state \<Rightarrow> bc_state option" where
  "pop_var name s = (if name > 0
     then do {
       v \<leftarrow> variables s (nat name);
       case v of Var_null \<Rightarrow> Some s | Var_junk \<Rightarrow> None
       | Var x nx \<Rightarrow> Some (s\<lparr>variables := (variables s)(nat name \<mapsto> nx)\<rparr>)
     }
     else do {
       fs \<leftarrow> arrays s (nat (- name));
       case fs of [] \<Rightarrow> Some s
       | f # fs \<Rightarrow> free_array f (s\<lparr>arrays := (arrays s)(nat (- name) \<mapsto> fs)\<rparr>)
     })"

fun pop_vars :: "arg_list \<Rightarrow> bc_state \<Rightarrow> bc_state option" where
  "pop_vars [] s = Some s"
| "pop_vars (a # as) s = do { s \<leftarrow> pop_var (av_name a) s; pop_vars as s }"

text \<open>Passing a number: the value moves from the stack into a new record of the variable.\<close>

definition pass_value :: "arg \<Rightarrow> bc_state \<Rightarrow> bc_state option" where
  "pass_value p s = do {
     x \<leftarrow> tos s;
     v \<leftarrow> variables s (nat (av_name p));
     set_tos bc_zero (s\<lparr>variables := (variables s)(nat (av_name p) \<mapsto> Var x v)\<rparr>)
   }"

text \<open>Passing an array, whose number is on the stack: shared for a variable parameter, else copied.\<close>

definition pass_array :: "arg \<Rightarrow> bc_state \<Rightarrow> bc_state option" where
  "pass_array p s = do {
     x \<leftarrow> tos s;
     ix \<leftarrow> bc_num2long x;
     guard (ix \<ge> 0);
     (num_ptr, s) \<leftarrow> get_array_num (nat ix) 0 s;
     s \<leftarrow> auto_var (av_name p) s;
     let ix1 = nat (- av_name p);
     fs \<leftarrow> arrays s (nat ix);
     a_src \<leftarrow> rd fs (if nat ix = ix1 then 1 else 0);
     ds \<leftarrow> arrays s ix1;
     ad \<leftarrow> a_value a_src;
     if arg_is_var p then Some (s\<lparr>arrays := (arrays s)(ix1 \<mapsto> \<lparr>a_value = Some ad, a_param = True\<rparr> # tl ds)\<rparr>)
     else do {
       (ad', s) \<leftarrow> copy_array ad s;
       Some (s\<lparr>arrays := (arrays s)(ix1 \<mapsto> \<lparr>a_value = Some ad', a_param = False\<rparr> # tl ds)\<rparr>)
     }
   }"

text \<open>
  The call types at the program counter against the parameter list. On a type mismatch the code
  reports an error and then advances \<open>params\<close> with \<open>params++\<close>, behind the single record it points to:
  the following read of \<open>params->next\<close> is undefined.
\<close>

fun process_args :: "arg_list \<Rightarrow> bc_state \<Rightarrow> bc_state option" where
  "process_args [] s = do {
     (ch, s) \<leftarrow> next_byte s;
     Some (if ch = CHR '':'' then s else rt_error ''Parameter number mismatch'' s)
   }"
| "process_args (p # params) s = do {
     (ch, s) \<leftarrow> next_byte s;
     if ch = CHR '':'' then Some (rt_error ''Parameter number mismatch'' s)
     else if ch = CHR ''0'' \<and> av_name p > 0 then do { s \<leftarrow> pass_value p s; process_args params (pop s) }
     else if ch = CHR ''1'' \<and> av_name p < 0 then do { s \<leftarrow> pass_array p s; process_args params (pop s) }
     else None
   }"

definition process_params :: "nat \<Rightarrow> bc_state \<Rightarrow> bc_state option" where
  "process_params func s = do { f \<leftarrow> bc_functions s func; process_args (f_params f) s }"

section \<open>Variables as a store of numbers\<close>

fun var_wf :: "bc_var \<Rightarrow> bool" where
  "var_wf (Var x nx) \<longleftrightarrow> bc_canon x \<and> var_wf nx"
| "var_wf _ \<longleftrightarrow> True"

definition vars_ok :: "bc_state \<Rightarrow> bool" where
  "vars_ok s \<longleftrightarrow> (\<forall>k v. variables s k = Some v \<longrightarrow> var_wf v)"

definition var_val :: "bc_state \<Rightarrow> nat \<Rightarrow> bc_num" where
  "var_val s k = (case variables s k of Some (Var x nx) \<Rightarrow> x | _ \<Rightarrow> bc_zero)"

definition var_live :: "nat \<Rightarrow> bc_state \<Rightarrow> bool" where
  "var_live k s \<longleftrightarrow> variables s k \<noteq> None \<and> variables s k \<noteq> Some Var_junk"

definition var_points :: "nat \<Rightarrow> nat \<Rightarrow> bc_state \<Rightarrow> bool" where
  "var_points p k s \<longleftrightarrow> p = k \<and> (\<exists>x nx. variables s k = Some (Var x nx))"

definition same_but_vars :: "bc_state \<Rightarrow> bc_state \<Rightarrow> bool" where
  "same_but_vars s s' \<longleftrightarrow> s' = s\<lparr>variables := variables s'\<rparr>"

interpretation vars: num_store vars_ok var_live var_val "\<lambda>k j s. k = j" var_points same_but_vars get_var var_get var_set
proof unfold_locales
  show "same_but_vars s u" if "same_but_vars s t" "same_but_vars t u" for s t u
    using that unfolding same_but_vars_def by (cases s, cases t, cases u) simp
next
  fix s k assume ok: "vars_ok s" and k: "var_live k s"
  then obtain v where v: "variables s k = Some v" "v \<noteq> Var_junk" by (auto simp: var_live_def)
  let ?s = "s\<lparr>variables := (variables s)(k \<mapsto> Var bc_zero Var_junk)\<rparr>"
  show "\<exists>p s'. get_var k s = Some (p, s') \<and> vars_ok s' \<and> same_but_vars s s' \<and> var_val s' = var_val s
           \<and> var_points p k s' \<and> var_get p s' = Some (var_val s k)"
  proof (cases v)
    case Var_null
    have "var_val ?s = var_val s" using v(1) Var_null by (auto simp: var_val_def fun_eq_iff)
    moreover have "vars_ok ?s" using ok by (auto simp: vars_ok_def)
    ultimately show ?thesis using v(1) Var_null
      by (intro exI [of _ k] exI [of _ ?s])
         (auto simp: get_var_def same_but_vars_def var_points_def var_get_def var_val_def)
  qed (use v ok in \<open>auto simp: get_var_def same_but_vars_def var_points_def var_get_def var_val_def\<close>)
next
  fix s p k n assume ok: "vars_ok s" and p: "var_points p k s" and n: "bc_canon n"
  then obtain x nx where v: "p = k" "variables s k = Some (Var x nx)" by (auto simp: var_points_def)
  let ?s = "s\<lparr>variables := (variables s)(k \<mapsto> Var n nx)\<rparr>"
  have "var_wf (Var x nx)" using ok v(2) unfolding vars_ok_def by blast
  then have "vars_ok ?s" using ok n by (auto simp: vars_ok_def)
  then show "\<exists>s'. var_set p n s = Some s' \<and> vars_ok s' \<and> same_but_vars s s'
           \<and> (\<forall>j. var_val s' j = (if k = j then n else var_val s j))"
    using v by (intro exI [of _ ?s]) (auto simp: var_set_def same_but_vars_def var_val_def)
qed

lemma same_but_vars_sel:
  assumes "same_but_vars s s'"
  shows "ex_stack s' = ex_stack s" "i_base s' = i_base s" "o_base s' = o_base s" "scale s' = scale s"
    "runtime_error s' = runtime_error s" "arrays s' = arrays s" "a_heap s' = a_heap s"
  by (subst assms [unfolded same_but_vars_def], simp)+

lemma same_rest_sel:
  assumes "same_rest s s'"
  shows "ex_stack s' = ex_stack s" "i_base s' = i_base s" "o_base s' = o_base s" "scale s' = scale s"
    "runtime_error s' = runtime_error s" "variables s' = variables s" "bc_functions s' = bc_functions s" "pc s' = pc s"
    "fn_stack s' = fn_stack s" "a_names s' = a_names s"
  by (subst conjunct1 [OF assms [unfolded same_rest_def]], simp)+

lemma same_but_vars_more:
  assumes "same_but_vars s s'"
  shows "bc_functions s' = bc_functions s" "pc s' = pc s" "fn_stack s' = fn_stack s" "a_next s' = a_next s"
    "messages s' = messages s"
  by (subst assms [unfolded same_but_vars_def], simp)+

lemma var_live_val: "var_live k s \<Longrightarrow> variables s k = Some Var_null \<or> (\<exists>x nx. variables s k = Some (Var x nx))"
  by (cases "variables s k") (auto simp: var_live_def intro: bc_var.exhaust)

lemma var_val_canon: "vars_ok s \<Longrightarrow> bc_canon (var_val s k)"
  by (cases "variables s k") (auto simp: vars_ok_def var_val_def split: bc_var.split, metis var_wf.simps(1))

text \<open>Assigning to an ordinary variable and reading one.\<close>

lemma store_var_spec:
  assumes ok: "vars_ok s" and l: "var_live k s" and k: "k > 3" and x: "tos s = Some x" "bc_canon x"
  shows "\<exists>s'. store_var k s = Some s' \<and> vars_ok s' \<and> same_but_vars s s' \<and> (\<forall>j. var_val s' j = (if j = k then x else var_val s j))"
proof -
  obtain s' where s': "do { (p, s) \<leftarrow> get_var k s; var_set p x s } = Some s'" "vars_ok s'" "same_but_vars s s'"
    "\<forall>j. var_val s' j = (if k = j then x else var_val s j)"
    using vars.put [OF ok l x(2)] by blast
  obtain p t where t: "get_var k s = Some (p, t)" "same_but_vars s t" using vars.locate_law [OF ok l] by blast
  have "tos t = Some x" using x(1) same_but_vars_sel(1) [OF t(2)] by (simp add: tos_def)
  then have "store_var k s = Some s'" using s'(1) t(1) k by (simp add: store_var_def)
  then show ?thesis using s' by auto
qed

lemma load_var_spec:
  assumes "var_live k s" and "k > 2"
  shows "load_var k s = Some (push_copy (var_val s k) s)"
  using var_live_val [OF assms(1)] assms(2) by (auto simp: load_var_def var_val_def)

lemma step_var_spec:
  assumes ok: "vars_ok s" and l: "var_live k s" and k: "k > 2"
  shows "\<exists>s' n. incr_var k s = Some s' \<and> vars_ok s' \<and> same_but_vars s s' \<and> bc_canon n \<and> bc_val n = bc_val (var_val s k) + 1
           \<and> (\<forall>j. var_val s' j = (if j = k then n else var_val s j))"
    "\<exists>s' n. decr_var k s = Some s' \<and> vars_ok s' \<and> same_but_vars s s' \<and> bc_canon n \<and> bc_val n = bc_val (var_val s k) - 1
           \<and> (\<forall>j. var_val s' j = (if j = k then n else var_val s j))"
proof -
  note c = var_val_canon [OF ok, of k]
  obtain n where n: "bc_add (var_val s k) bc_one 0 = Some n" "bc_canon n" "bc_val n = bc_val (var_val s k) + 1"
    using bc_add_spec [OF c, of bc_one 0] by auto
  show "\<exists>s' n. incr_var k s = Some s' \<and> vars_ok s' \<and> same_but_vars s s' \<and> bc_canon n \<and> bc_val n = bc_val (var_val s k) + 1
           \<and> (\<forall>j. var_val s' j = (if j = k then n else var_val s j))"
    using vars.update [OF ok l, of "\<lambda>x. bc_add x bc_one 0", OF n(1,2)] n k by (auto simp: incr_var_def)
  obtain m where m: "bc_sub (var_val s k) bc_one 0 = Some m" "bc_canon m" "bc_val m = bc_val (var_val s k) - 1"
    using bc_sub_spec [OF c, of bc_one 0] by auto
  show "\<exists>s' n. decr_var k s = Some s' \<and> vars_ok s' \<and> same_but_vars s s' \<and> bc_canon n \<and> bc_val n = bc_val (var_val s k) - 1
           \<and> (\<forall>j. var_val s' j = (if j = k then n else var_val s j))"
    using vars.update [OF ok l, of "\<lambda>x. bc_sub x bc_one 0", OF m(1,2)] m k by (auto simp: decr_var_def)
qed

section \<open>The special variables\<close>

definition bases_ok :: "bc_state \<Rightarrow> bool" where
  "bases_ok s \<longleftrightarrow> 2 \<le> i_base s \<and> i_base s \<le> (if std_only s then 16 else 36) \<and> 2 \<le> o_base s \<and> o_base s \<le> BC_BASE_MAX
     \<and> 0 \<le> scale s \<and> scale s \<le> BC_SCALE_MAX"

text \<open>
  The value a special variable takes: \<open>neg\<close> for a negative number, the limit for a number that is too
  large, and also for a number between 0 and 1, whose integer part is 0 as well.
\<close>

definition special_value :: "int \<Rightarrow> int \<Rightarrow> bc_num \<Rightarrow> int" where
  "special_value lo limit x = (if bc_val x < 0 then lo else if 0 < bc_val x \<and> bc_val x < 1 then limit
     else max lo (min limit \<lfloor>bc_val x\<rfloor>))"

lemma special_input:
  assumes c: "bc_canon x" and p: "\<not> bc_is_neg x"
  shows "\<exists>t. bc_num2long x = Some t \<and> bc_is_zero x = Some (bc_val x = 0) \<and> 0 \<le> t \<and> 0 \<le> bc_val x \<and> (0 < t \<longrightarrow> t = \<lfloor>bc_val x\<rfloor>)
           \<and> (t = 0 \<longrightarrow> bc_val x < 1 \<or> \<lfloor>bc_val x\<rfloor> > 2147483649)"
proof -
  note wf = bc_canonD(2) [OF c]
  have sg: "n_sign x = PLUS" using p sign_cases [of x] by (auto simp: bc_is_neg_def)
  then have v: "bc_val x = bc_abs x" by (simp add: bc_val_def)
  then have fl: "\<lfloor>bc_val x\<rfloor> = prefix_val x 0" using bc_abs_floor [OF wf] by simp
  have nn: "0 \<le> prefix_val x 0" by (rule prefix_val_0_bounds(1) [OF wf])
  have "bc_num2long x = Some (if prefix_val x 0 \<le> 2147483649 then prefix_val x 0 else 0)"
    using bc_num2long_spec [OF wf] sg by simp
  moreover have "0 \<le> bc_val x" unfolding v by (rule bc_abs_nonneg [OF wf])
  moreover have "bc_val x < 1" if "prefix_val x 0 = 0" using that fl by (simp add: floor_eq_iff)
  ultimately show ?thesis using bc_is_zero_val [OF wf] fl nn by auto
qed

lemma store_special_run:
  assumes x: "tos s = Some x" "bc_canon x" and k: "k \<le> 3"
  shows "\<exists>s'. store_var k s = Some s' \<and> s' = s\<lparr>messages := messages s',
           i_base := (if k = 0 then special_value 2 (if std_only s then 16 else 36) x else i_base s),
           o_base := (if k = 1 then special_value 2 BC_BASE_MAX x else o_base s),
           scale := (if k = 2 then special_value 0 BC_SCALE_MAX x else scale s)\<rparr>"
proof (cases "bc_is_neg x")
  case True
  then have v: "bc_val x < 0"
    using x(2) bc_abs_nonneg [OF bc_canonD(2) [OF x(2)]]
    by (auto simp: bc_is_neg_def bc_val_def bc_canon_def less_le bc_abs_eq_0_iff)
  show ?thesis
    using True k x(1) v
    by (auto simp: store_var_def store_special_def negative_special_def special_value_def set_ibase_def set_obase_def
        set_scale_def rt_warn_def BC_BASE_MAX_def BC_SCALE_MAX_def INT_MAX_def)
next
  case False
  obtain t where t: "bc_num2long x = Some t" "bc_is_zero x = Some (bc_val x = 0)" "0 \<le> t" "0 \<le> bc_val x" "0 < t \<longrightarrow> t = \<lfloor>bc_val x\<rfloor>"
    "t = 0 \<longrightarrow> bc_val x < 1 \<or> \<lfloor>bc_val x\<rfloor> > 2147483649"
    using special_input [OF x(2) False] by blast
  let ?big = "bc_val x \<noteq> 0 \<and> t = 0"
  have run: "store_var k s = Some (if k = 0 then set_ibase t ?big s else if k = 1 then set_obase t ?big s
      else if k = 2 then set_scale t ?big s else s)"
    using k x(1) False t(1,2) by (simp add: store_var_def store_special_def)
  have sv: "special_value lo limit x = (if ?big then limit else max lo (min limit t))" if "limit \<le> 2147483649" "lo \<le> limit" for lo limit
  proof (cases "t = 0")
    case True
    then have "bc_val x < 1 \<or> limit \<le> \<lfloor>bc_val x\<rfloor>" using t(6) that by linarith
    then show ?thesis using True t(4) that by (cases "bc_val x = 0") (auto simp: special_value_def min_def max_def)
  next
    case False
    then have "0 < t" using t(3) by simp
    then have "t = \<lfloor>bc_val x\<rfloor>" using t(5) by blast
    have "\<not> bc_val x < 1" using \<open>0 < t\<close> unfolding \<open>t = _\<close> by linarith
    then show ?thesis using False t(4) \<open>t = \<lfloor>bc_val x\<rfloor>\<close> by (simp add: special_value_def)
  qed
  note lim = BC_BASE_MAX_def BC_SCALE_MAX_def INT_MAX_def
  consider "k = 0" | "k = 1" | "k = 2" | "k = 3" using k by linarith
  then show ?thesis
  proof cases
    case 1
    show ?thesis unfolding run using 1 sv [of 16 2] sv [of 36 2] t(3)
      by (cases "std_only s") (auto simp: set_ibase_def rt_warn_def)
  next
    case 2
    show ?thesis unfolding run using 2 sv [of BC_BASE_MAX 2] t(3) by (auto simp: set_obase_def rt_warn_def lim)
  next
    case 3
    show ?thesis unfolding run using 3 sv [of BC_SCALE_MAX 0] t(3) by (auto simp: set_scale_def rt_warn_def lim)
  next
    case 4
    show ?thesis unfolding run using 4 by simp
  qed
qed

lemma store_special_spec:
  assumes x: "tos s = Some x" "bc_canon x" and k: "k \<le> 3"
  shows "\<exists>m. store_var k s = Some (s\<lparr>messages := m,
           i_base := (if k = 0 then special_value 2 (if std_only s then 16 else 36) x else i_base s),
           o_base := (if k = 1 then special_value 2 BC_BASE_MAX x else o_base s),
           scale := (if k = 2 then special_value 0 BC_SCALE_MAX x else scale s)\<rparr>)"
proof -
  obtain s' where "store_var k s = Some s'" "s' = s\<lparr>messages := messages s',
           i_base := (if k = 0 then special_value 2 (if std_only s then 16 else 36) x else i_base s),
           o_base := (if k = 1 then special_value 2 BC_BASE_MAX x else o_base s),
           scale := (if k = 2 then special_value 0 BC_SCALE_MAX x else scale s)\<rparr>"
    using store_special_run [OF assms] by blast
  then show ?thesis by metis
qed

section \<open>Array elements\<close>

definition good_index :: "bc_num \<Rightarrow> bool" where
  "good_index x \<longleftrightarrow> bc_val x = 0 \<or> 1 \<le> bc_val x \<and> \<lfloor>bc_val x\<rfloor> \<le> BC_DIM_MAX"

lemma array_index_spec:
  assumes c: "bc_canon x"
  shows "array_index x = Some (if good_index x then Some (nat \<lfloor>bc_val x\<rfloor>) else None)"
proof (cases "bc_is_neg x")
  case False
  obtain t where t: "bc_num2long x = Some t" "bc_is_zero x = Some (bc_val x = 0)" "0 \<le> t" "0 \<le> bc_val x" "0 < t \<longrightarrow> t = \<lfloor>bc_val x\<rfloor>"
    "t = 0 \<longrightarrow> bc_val x < 1 \<or> \<lfloor>bc_val x\<rfloor> > 2147483649"
    using special_input [OF c False] by blast
  show ?thesis
  proof (cases "t = 0")
    case True
    then have "good_index x \<longleftrightarrow> bc_val x = 0" using t(6) by (auto simp: good_index_def BC_DIM_MAX_def)
    then show ?thesis using True t(1,2) by (simp add: array_index_def BC_DIM_MAX_def)
  next
    case False
    then have "1 \<le> t" using t(3) by simp
    then have "t = \<lfloor>bc_val x\<rfloor>" using t(5) by simp
    then have "bc_val x \<noteq> 0" "1 \<le> bc_val x" using \<open>1 \<le> t\<close> by linarith+
    then have "good_index x \<longleftrightarrow> t \<le> BC_DIM_MAX" using \<open>t = _\<close> by (simp add: good_index_def)
    moreover have "\<lfloor>bc_val x\<rfloor> = t" using \<open>t = _\<close> by simp
    ultimately show ?thesis using t(1) \<open>1 \<le> t\<close> by (simp add: array_index_def)
  qed
next
  case True
  then have sg: "n_sign x = MINUS" by (simp add: bc_is_neg_def)
  note wf = bc_canonD(2) [OF c]
  have "bc_val x < 0"
    using c sg bc_abs_nonneg [OF wf] by (auto simp: bc_val_def bc_canon_def less_le bc_abs_eq_0_iff)
  then have "\<not> good_index x" by (simp add: good_index_def)
  moreover obtain t where "bc_num2long x = Some t" "t \<le> 0"
    using bc_num2long_spec [OF wf] sg prefix_val_0_bounds(1) [OF wf] by auto
  ultimately show ?thesis using bc_is_zero_val [OF wf] \<open>bc_val x < 0\<close> by (auto simp: array_index_def BC_DIM_MAX_def)
qed

lemma good_index_bound: "good_index x \<Longrightarrow> nat \<lfloor>bc_val x\<rfloor> < 64 ^ 4"
  unfolding good_index_def BC_DIM_MAX_def by (auto; linarith)

lemma ex_stack_upd: "ex_stack (s\<lparr>ex_stack := st\<rparr>) = st"
  by simp

lemma stack_indep:
  "ptr_get p (s\<lparr>ex_stack := st\<rparr>) = ptr_get p s"
  "ptr_set p n (s\<lparr>ex_stack := st\<rparr>) = map_option (\<lambda>t. t\<lparr>ex_stack := st\<rparr>) (ptr_set p n s)"
  "arrays_ok (s\<lparr>ex_stack := st\<rparr>) = arrays_ok s" "array_val (s\<lparr>ex_stack := st\<rparr>) = array_val s"
  "array_addr (s\<lparr>ex_stack := st\<rparr>) = array_addr s"
  by (auto simp: ptr_get_def ptr_set_def arrays_ok_def array_val_def array_addr_def frame_val_def fun_eq_iff bind_eq_None_conv
      split: option.splits list.splits bind_splits)

text \<open>Apart from the arrays and the execution stack nothing changes.\<close>

definition arrays_and_stack :: "bc_state \<Rightarrow> bc_state \<Rightarrow> bool" where
  "arrays_and_stack s s' \<longleftrightarrow> same_rest s (s'\<lparr>ex_stack := ex_stack s\<rparr>)"

lemma arrays_and_stackI: "same_rest s t \<Longrightarrow> arrays_and_stack s (t\<lparr>ex_stack := st\<rparr>)"
  unfolding arrays_and_stack_def same_rest_def by (cases s, cases t) simp

lemma check_stack_ok: "depth \<le> length (ex_stack s) \<Longrightarrow> check_stack (int depth) s = (True, s)"
proof -
  have "stack_walk xs (int d) \<le> 0" if "d \<le> length xs" for xs :: "bc_num list" and d
    using that
  proof (induction xs arbitrary: d)
    case (Cons x xs)
    show ?case
    proof (cases d)
      case (Suc e)
      then show ?thesis using Cons.IH [of e] Cons.prems by simp
    qed simp
  qed simp
  then show "depth \<le> length (ex_stack s) \<Longrightarrow> check_stack (int depth) s = (True, s)"
    by (simp add: check_stack_def leD)
qed

lemma check_stack_fail:
  "length (ex_stack s) < depth \<Longrightarrow> check_stack (int depth) s = (False, rt_error ''Stack error.'' s)"
proof -
  have "stack_walk xs (int d) > 0" if "length xs < d" for xs :: "bc_num list" and d
    using that
  proof (induction xs arbitrary: d)
    case (Cons x xs)
    then obtain e where "d = Suc e" "length xs < e" by (cases d) auto
    then show ?case using Cons.IH [of e] by simp
  qed simp
  then show "length (ex_stack s) < depth \<Longrightarrow> check_stack (int depth) s = (False, rt_error ''Stack error.'' s)"
    by (simp add: check_stack_def)
qed

lemma store_array_spec:
  assumes ok: "arrays_ok s" and v: "arrays s v \<noteq> None" and st: "ex_stack s = x # n # rest" and c: "bc_canon x" "bc_canon n"
    and g: "good_index n" and i: "i = nat \<lfloor>bc_val n\<rfloor>"
  shows "\<exists>s'. store_array v s = Some s' \<and> arrays_ok s' \<and> ex_stack s' = x # rest \<and> arrays_and_stack s s'
           \<and> (\<forall>w j. array_val s' w j = (if j = i \<and> array_addr s' w = array_addr s' v then x else array_val s w j))"
proof -
  have k: "arrays s (fst (v, i)) \<noteq> None \<and> snd (v, i) < 64 ^ 4" using v good_index_bound [OF g] i by simp
  obtain t where t: "do { (p, s) \<leftarrow> get_array_num v i s; ptr_set p x s } = Some t" "arrays_ok t" "same_rest s t"
    "\<forall>j. array_val t (fst j) (snd j) = (if elem_same (v, i) j t then x else array_val s (fst j) (snd j))"
    using elems.put [OF ok k c(1)] by auto
  obtain p u where u: "get_array_num v i s = Some (p, u)" "same_rest s u" using elems.locate_law [OF ok k] by auto
  have tu: "tos u = Some x" using same_rest_sel(1) [OF u(2)] st by (simp add: tos_def)
  have pt: "ptr_set p x u = Some t" using t(1) u(1) by simp
  have ck: "check_stack 2 s = (True, s)" using check_stack_ok [of 2 s] st by simp
  have no: "nos s = Some n" using st by (simp add: nos_def)
  have "store_array v s = Some (push_num x (pop (pop t)))"
    unfolding store_array_def ck Let_def prod.case using array_index_spec [OF c(2)] g i u(1) tu pt no by simp
  moreover have "push_num x (pop (pop t)) = t\<lparr>ex_stack := x # rest\<rparr>"
    using same_rest_sel(1) [OF t(3)] st by (simp add: push_num_def pop_def)
  moreover have "array_val t w j = (if j = i \<and> array_addr t w = array_addr t v then x else array_val s w j)" for w j
    using t(4) [rule_format, of "(w, j)"] by (auto simp: elem_same_def)
  ultimately show ?thesis
    using t(2) arrays_and_stackI [OF t(3)] by (intro exI [of _ "t\<lparr>ex_stack := x # rest\<rparr>"]) (simp add: stack_indep)
qed

lemma load_array_spec:
  assumes ok: "arrays_ok s" and v: "arrays s v \<noteq> None" and st: "ex_stack s = n # rest" and c: "bc_canon n"
    and g: "good_index n" and i: "i = nat \<lfloor>bc_val n\<rfloor>"
  shows "\<exists>s'. load_array v s = Some s' \<and> arrays_ok s' \<and> ex_stack s' = array_val s v i # rest \<and> arrays_and_stack s s'
           \<and> array_val s' = array_val s"
proof -
  have k: "arrays s (fst (v, i)) \<noteq> None \<and> snd (v, i) < 64 ^ 4" using v good_index_bound [OF g] i by simp
  obtain p u where u: "get_array_num v i s = Some (p, u)" "arrays_ok u" "same_rest s u"
    "(\<lambda>k. array_val u (fst k) (snd k)) = (\<lambda>k. array_val s (fst k) (snd k))" "ptr_get p u = Some (array_val s v i)"
    using elems.locate_law [OF ok k] by auto
  have ck: "check_stack 1 s = (True, s)" using check_stack_ok [of 1 s] st by simp
  have to: "tos s = Some n" using st by (simp add: tos_def)
  have pu: "pop u = u\<lparr>ex_stack := rest\<rparr>" using same_rest_sel(1) [OF u(3)] st by (simp add: pop_def)
  have "load_array v s = Some (push_copy (array_val s v i) (pop u))"
    unfolding load_array_def ck Let_def prod.case using array_index_spec [OF c] g i u(1,5) to by (simp add: pu stack_indep)
  moreover have "array_val u = array_val s" using u(4) by (auto simp: fun_eq_iff)
  ultimately show ?thesis
    using u(2) arrays_and_stackI [OF u(3)]
    by (intro exI [of _ "u\<lparr>ex_stack := array_val s v i # rest\<rparr>"]) (simp add: stack_indep push_copy_def pu)
qed

lemma step_array_spec:
  assumes ok: "arrays_ok s" and v: "arrays s v \<noteq> None" and st: "ex_stack s = n # rest" and c: "bc_canon n"
    and g: "good_index n" and i: "i = nat \<lfloor>bc_val n\<rfloor>" and y: "f (array_val s v i) = Some y" "bc_canon y"
  shows "\<exists>p u t. get_array_num v i s = Some (p, u) \<and> ptr_get p (pop u) = Some (array_val s v i)
           \<and> ptr_set p y (pop u) = Some t \<and> arrays_ok t \<and> ex_stack t = rest \<and> arrays_and_stack s t
           \<and> (\<forall>w j. array_val t w j = (if j = i \<and> array_addr t w = array_addr t v then y else array_val s w j))"
proof -
  have k: "arrays s (fst (v, i)) \<noteq> None \<and> snd (v, i) < 64 ^ 4" using v good_index_bound [OF g] i by simp
  obtain t where t: "do { (p, s) \<leftarrow> get_array_num v i s; ptr_set p y s } = Some t" "arrays_ok t" "same_rest s t"
    "\<forall>j. array_val t (fst j) (snd j) = (if elem_same (v, i) j t then y else array_val s (fst j) (snd j))"
    using elems.put [OF ok k y(2)] by auto
  obtain p u where u: "get_array_num v i s = Some (p, u)" "same_rest s u" "ptr_get p u = Some (array_val s v i)"
    using elems.locate_law [OF ok k] by auto
  have pu: "pop u = u\<lparr>ex_stack := rest\<rparr>" using same_rest_sel(1) [OF u(2)] st by (simp add: pop_def)
  have pt: "ptr_set p y u = Some t" using t(1) u(1) by simp
  have "array_val t w j = (if j = i \<and> array_addr t w = array_addr t v then y else array_val s w j)" for w j
    using t(4) [rule_format, of "(w, j)"] by (auto simp: elem_same_def)
  moreover have "ptr_get p (pop u) = Some (array_val s v i)" "ptr_set p y (pop u) = Some (t\<lparr>ex_stack := rest\<rparr>)"
    using u(3) pt by (simp_all add: pu stack_indep)
  moreover note arrays_and_stackI [OF t(3), of rest]
  ultimately show ?thesis using u(1) t(2) by (metis (no_types, lifting) stack_indep(3-5) ex_stack_upd)
qed

lemma incr_array_spec:
  assumes ok: "arrays_ok s" and v: "arrays s v \<noteq> None" and st: "ex_stack s = n # rest" and c: "bc_canon n"
    and g: "good_index n" and i: "i = nat \<lfloor>bc_val n\<rfloor>" and e: "bc_canon (array_val s v i)"
  shows "\<exists>s' y. incr_array v s = Some s' \<and> bc_canon y \<and> bc_val y = bc_val (array_val s v i) + 1
           \<and> arrays_ok s' \<and> ex_stack s' = rest \<and> arrays_and_stack s s'
           \<and> (\<forall>w j. array_val s' w j = (if j = i \<and> array_addr s' w = array_addr s' v then y else array_val s w j))"
    "\<exists>s' y. decr_array v s = Some s' \<and> bc_canon y \<and> bc_val y = bc_val (array_val s v i) - 1
           \<and> arrays_ok s' \<and> ex_stack s' = rest \<and> arrays_and_stack s s'
           \<and> (\<forall>w j. array_val s' w j = (if j = i \<and> array_addr s' w = array_addr s' v then y else array_val s w j))"
proof -
  have ck: "check_stack 1 s = (True, s)" using check_stack_ok [of 1 s] st by simp
  have to: "tos s = Some n" using st by (simp add: tos_def)
  have ix: "array_index n = Some (Some i)" using array_index_spec [OF c] g i by simp
  obtain y where y: "bc_add (array_val s v i) bc_one 0 = Some y" "bc_canon y" "bc_val y = bc_val (array_val s v i) + 1"
    using bc_add_spec [OF e, of bc_one 0] by auto
  obtain p u t where t: "get_array_num v i s = Some (p, u)" "ptr_get p (pop u) = Some (array_val s v i)"
    "ptr_set p y (pop u) = Some t" "arrays_ok t" "ex_stack t = rest" "arrays_and_stack s t"
    "\<forall>w j. array_val t w j = (if j = i \<and> array_addr t w = array_addr t v then y else array_val s w j)"
    using step_array_spec [OF ok v st c g i, of "\<lambda>x. bc_add x bc_one 0", OF y(1,2)] by blast
  have "incr_array v s = Some t"
    unfolding incr_array_def ck Let_def prod.case by (simp add: to ix t(1-3) y(1))
  then show "\<exists>s' y. incr_array v s = Some s' \<and> bc_canon y \<and> bc_val y = bc_val (array_val s v i) + 1
           \<and> arrays_ok s' \<and> ex_stack s' = rest \<and> arrays_and_stack s s'
           \<and> (\<forall>w j. array_val s' w j = (if j = i \<and> array_addr s' w = array_addr s' v then y else array_val s w j))"
    using t(4-7) y(2,3) by blast
next
  have ck: "check_stack 1 s = (True, s)" using check_stack_ok [of 1 s] st by simp
  have to: "tos s = Some n" using st by (simp add: tos_def)
  have ix: "array_index n = Some (Some i)" using array_index_spec [OF c] g i by simp
  obtain y where y: "bc_sub (array_val s v i) bc_one 0 = Some y" "bc_canon y" "bc_val y = bc_val (array_val s v i) - 1"
    using bc_sub_spec [OF e, of bc_one 0] by auto
  obtain p u t where t: "get_array_num v i s = Some (p, u)" "ptr_get p (pop u) = Some (array_val s v i)"
    "ptr_set p y (pop u) = Some t" "arrays_ok t" "ex_stack t = rest" "arrays_and_stack s t"
    "\<forall>w j. array_val t w j = (if j = i \<and> array_addr t w = array_addr t v then y else array_val s w j)"
    using step_array_spec [OF ok v st c g i, of "\<lambda>x. bc_sub x bc_one 0", OF y(1,2)] by blast
  have "decr_array v s = Some t"
    unfolding decr_array_def ck Let_def prod.case by (simp add: to ix t(1-3) y(1))
  then show "\<exists>s' y. decr_array v s = Some s' \<and> bc_canon y \<and> bc_val y = bc_val (array_val s v i) - 1
           \<and> arrays_ok s' \<and> ex_stack s' = rest \<and> arrays_and_stack s s'
           \<and> (\<forall>w j. array_val s' w j = (if j = i \<and> array_addr s' w = array_addr s' v then y else array_val s w j))"
    using t(4-7) y(2,3) by blast
qed

section \<open>Calls\<close>

text \<open>The code at the program counter.\<close>

definition code_at :: "char list \<Rightarrow> bc_state \<Rightarrow> bool" where
  "code_at cs s \<longleftrightarrow> (\<exists>f. bc_functions s (pc_func (pc s)) = Some f
     \<and> take (length cs) (drop (pc_addr (pc s)) (f_body f)) = map Some cs)"

definition skip_code :: "nat \<Rightarrow> bc_state \<Rightarrow> bc_state" where
  "skip_code n s = s\<lparr>pc := (pc s)\<lparr>pc_addr := pc_addr (pc s) + n\<rparr>\<rparr>"

lemma skip_code_0 [simp]: "skip_code 0 s = s"
  by (simp add: skip_code_def)

lemma skip_code_add: "skip_code m (skip_code n s) = skip_code (n + m) s"
  by (simp add: skip_code_def)

lemma next_byte_code:
  assumes "code_at (c # cs) s"
  shows "next_byte s = Some (c, skip_code 1 s)" "code_at cs (skip_code 1 s)"
proof -
  obtain f where f: "bc_functions s (pc_func (pc s)) = Some f"
    "take (Suc (length cs)) (drop (pc_addr (pc s)) (f_body f)) = Some c # map Some cs"
    using assms by (auto simp: code_at_def)
  let ?b = "f_body f" and ?a = "pc_addr (pc s)"
  have a: "?a < length ?b" "?b ! ?a = Some c"
  proof -
    show "?a < length ?b" using f(2) by (cases "?a < length ?b") auto
    then have "drop ?a ?b = ?b ! ?a # drop (Suc ?a) ?b" by (simp add: Cons_nth_drop_Suc)
    then show "?b ! ?a = Some c" using f(2) by simp
  qed
  have d: "drop ?a ?b = ?b ! ?a # drop (Suc ?a) ?b" using a(1) by (simp add: Cons_nth_drop_Suc)
  show "next_byte s = Some (c, skip_code 1 s)"
    using f(1) a by (simp add: next_byte_def byte_def skip_code_def rd_nat)
  show "code_at cs (skip_code 1 s)"
    using f d by (simp add: code_at_def skip_code_def)
qed

lemma code_at_cong:
  "bc_functions s' = bc_functions s \<Longrightarrow> pc s' = pc s \<Longrightarrow> code_at cs s' = code_at cs s"
  by (simp add: code_at_def)

text \<open>Binding numbers to parameters.\<close>

fun bind_values :: "arg_list \<Rightarrow> bc_num list \<Rightarrow> (nat \<rightharpoonup> bc_var) \<Rightarrow> (nat \<rightharpoonup> bc_var)" where
  "bind_values (p # ps) (x # xs) vs = bind_values ps xs (vs(nat (av_name p) \<mapsto> Var x (the (vs (nat (av_name p))))))"
| "bind_values _ _ vs = vs"

lemma pass_value_spec:
  assumes "ex_stack s = x # rest" and "variables s (nat (av_name p)) \<noteq> None"
  shows "do { s \<leftarrow> pass_value p s; Some (pop s) }
    = Some (s\<lparr>variables := (variables s)(nat (av_name p) \<mapsto> Var x (the (variables s (nat (av_name p))))), ex_stack := rest\<rparr>)"
  using assms by (auto simp: pass_value_def tos_def set_tos_def pop_def)

lemma process_args_values:
  assumes "code_at (replicate (length ps) (CHR ''0'') @ [CHR '':'']) s" and "length xs = length ps" and "ex_stack s = xs @ rest"
    and "\<forall>p \<in> set ps. av_name p > 0 \<and> variables s (nat (av_name p)) \<noteq> None"
  shows "process_args ps s = Some (skip_code (length ps + 1) (s\<lparr>variables := bind_values ps xs (variables s), ex_stack := rest\<rparr>))"
  using assms
proof (induction ps arbitrary: xs s)
  case Nil
  then have "code_at [CHR '':''] s" "ex_stack s = rest" by simp_all
  then show ?case using next_byte_code(1) [of "CHR '':''" "[]" s] by (simp add: skip_code_def)
next
  case (Cons p ps)
  obtain y ys where xs: "xs = y # ys" "length ys = length ps" using Cons.prems(2) by (cases xs) auto
  have code: "code_at (CHR ''0'' # replicate (length ps) (CHR ''0'') @ [CHR '':'']) s" using Cons.prems(1) by simp
  note b = next_byte_code [OF code]
  let ?k = "nat (av_name p)"
  let ?t = "(skip_code 1 s)\<lparr>variables := (variables s)(?k \<mapsto> Var y (the (variables s ?k))), ex_stack := ys @ rest\<rparr>"
  have st: "ex_stack (skip_code 1 s) = y # ys @ rest" using Cons.prems(3) xs by (simp add: skip_code_def)
  have vk: "variables (skip_code 1 s) ?k \<noteq> None" using Cons.prems(4) by (simp add: skip_code_def)
  have "process_args (p # ps) s = process_args ps ?t"
  proof -
    have "process_args (p # ps) s = do { s \<leftarrow> do { s \<leftarrow> pass_value p (skip_code 1 s); Some (pop s) }; process_args ps s }"
      using b(1) Cons.prems(4) by simp
    then show ?thesis unfolding pass_value_spec [OF st vk] by (simp add: skip_code_def)
  qed
  also have "\<dots> = Some (skip_code (length ps + 1) (?t\<lparr>variables := bind_values ps ys (variables ?t), ex_stack := rest\<rparr>))"
  proof (rule Cons.IH)
    show "code_at (replicate (length ps) (CHR ''0'') @ [CHR '':'']) ?t" using b(2) by (simp add: code_at_def)
  qed (use xs Cons.prems(4) in auto)
  finally show ?case by (simp add: xs skip_code_def)
qed

text \<open>
  Popping: whatever the values on top have become, the stacks below are what is left. Names are
  distinct in a function that passed the parser's check.
\<close>

lemma pop_vars_values:
  assumes "distinct (map av_name ps)" and "\<forall>p \<in> set ps. av_name p > 0 \<and> (\<exists>y. variables s (nat (av_name p)) = Some (Var y (old (nat (av_name p)))))"
  shows "pop_vars ps s = Some (s\<lparr>variables := \<lambda>k. if \<exists>p \<in> set ps. k = nat (av_name p) then Some (old k) else variables s k\<rparr>)"
  using assms
proof (induction ps arbitrary: s)
  case (Cons p ps)
  let ?k = "nat (av_name p)"
  let ?t = "s\<lparr>variables := (variables s)(?k \<mapsto> old ?k)\<rparr>"
  obtain y where y: "av_name p > 0" "variables s ?k = Some (Var y (old ?k))" using Cons.prems(2) by auto
  then have "pop_vars (p # ps) s = pop_vars ps ?t" by (simp add: pop_var_def)
  also have "\<dots> = Some (?t\<lparr>variables := \<lambda>k. if \<exists>p \<in> set ps. k = nat (av_name p) then Some (old k) else variables ?t k\<rparr>)"
  proof (rule Cons.IH)
    show "distinct (map av_name ps)" using Cons.prems(1) by simp
    show "\<forall>q \<in> set ps. av_name q > 0 \<and> (\<exists>y. variables ?t (nat (av_name q)) = Some (Var y (old (nat (av_name q)))))"
    proof
      fix q assume q: "q \<in> set ps"
      have "av_name p \<notin> av_name ` set ps" using Cons.prems(1) by simp
      then have "av_name q \<noteq> av_name p" using q by (metis imageI)
      then have "nat (av_name q) \<noteq> ?k" using q Cons.prems(2) y(1) by (metis eq_nat_nat_iff list.set_intros(2) less_imp_le)
      then show "av_name q > 0 \<and> (\<exists>y. variables ?t (nat (av_name q)) = Some (Var y (old (nat (av_name q)))))"
        using q Cons.prems(2) by simp
    qed
  qed
  finally show ?case by (auto intro!: arg_cong [of _ _ "\<lambda>v. s\<lparr>variables := v\<rparr>"])
qed simp

lemma bind_values_at:
  assumes "distinct (map av_name ps)" and "length xs = length ps" and "\<forall>p \<in> set ps. av_name p > 0"
  shows "bind_values ps xs vs k = (case map_of (zip (map (\<lambda>p. nat (av_name p)) ps) xs) k of
           Some x \<Rightarrow> Some (Var x (the (vs k))) | None \<Rightarrow> vs k)"
  using assms
proof (induction ps arbitrary: xs vs)
  case (Cons p ps)
  obtain y ys where xs: "xs = y # ys" "length ys = length ps" using Cons.prems(2) by (cases xs) auto
  have "nat (av_name p) \<notin> set (map (\<lambda>p. nat (av_name p)) ps)"
    using Cons.prems(1,3) by (auto simp: eq_nat_nat_iff dest!: less_imp_le)
  then have n: "map_of (zip (map (\<lambda>p. nat (av_name p)) ps) ys) (nat (av_name p)) = None"
    using xs(2) by (simp add: map_of_zip_is_None)
  let ?vs = "vs(nat (av_name p) \<mapsto> Var y (the (vs (nat (av_name p)))))"
  have ih: "bind_values ps ys ?vs k = (case map_of (zip (map (\<lambda>p. nat (av_name p)) ps) ys) k of
           Some x \<Rightarrow> Some (Var x (the (?vs k))) | None \<Rightarrow> ?vs k)"
    by (rule Cons.IH) (use Cons.prems xs in auto)
  show ?case unfolding xs bind_values.simps ih
    using n by (cases "k = nat (av_name p)") (auto split: option.split)
qed simp

lemma store_var_live: "store_var k s = Some s' \<Longrightarrow> k > 3 \<Longrightarrow> var_live k s'"
  by (auto simp: store_var_def var_set_def var_live_def get_var_def split: bind_splits bc_var.splits if_splits)

section \<open>Properties\<close>

text \<open>
  What is stored in an ordinary variable is what is loaded from it; every other variable keeps its
  value and nothing else of the state changes.
\<close>

theorem store_load_var:
  assumes "vars_ok s" and "var_live k s" and "k > 3" and "tos s = Some x" and "bc_canon x"
  shows "\<exists>s'. store_var k s = Some s' \<and> load_var k s' = Some (push_copy x s') \<and> vars_ok s' \<and> same_but_vars s s'
           \<and> (\<forall>j. j \<noteq> k \<longrightarrow> var_val s' j = var_val s j)"
proof -
  obtain s' where s': "store_var k s = Some s'" "vars_ok s'" "same_but_vars s s'"
    "\<forall>j. var_val s' j = (if j = k then x else var_val s j)"
    using store_var_spec [OF assms] by blast
  have "load_var k s' = Some (push_copy x s')"
    using load_var_spec [OF store_var_live [OF s'(1) assms(3)]] s'(4) assms(3) by simp
  then show ?thesis using s' by auto
qed

lemma init_vars:
  "variables (init_storage s) k = (if 3 \<le> k \<and> k < 32 then Some Var_null else None)" "vars_ok (init_storage s)"
  by (simp_all add: init_storage_def more_functions_def more_variables_def more_arrays_def Let_def vars_ok_def)

theorem store_load_var_witness:
  "\<exists>s'. store_var 5 (push_num bc_two (init_storage zero_state)) = Some s' \<and> load_var 5 s' = Some (push_copy bc_two s')"
proof -
  let ?s = "push_num bc_two (init_storage zero_state)"
  have "vars_ok ?s" "var_live 5 ?s" "tos ?s = Some bc_two"
    using init_vars by (auto simp: push_num_def vars_ok_def var_live_def tos_def)
  then show ?thesis using store_load_var [of ?s 5 bc_two] by auto
qed

text \<open>
  C34: storing in a special variable sets it to the integer part of the number, cut to the variable's
  range: 2 to 36 (16 in POSIX mode) for \<open>ibase\<close>, 2 to \<open>BC_BASE_MAX\<close> for \<open>obase\<close>, 0 to \<open>BC_SCALE_MAX\<close> for \<open>scale\<close>;
  but a number strictly between 0 and 1 is taken as too large and sets the upper limit.
\<close>

theorem store_special_correct:
  assumes "tos s = Some x" and "bc_canon x" and "k \<le> 2"
  shows "\<exists>m. store_var k s = Some (s\<lparr>messages := m,
           i_base := (if k = 0 then special_value 2 (if std_only s then 16 else 36) x else i_base s),
           o_base := (if k = 1 then special_value 2 BC_BASE_MAX x else o_base s),
           scale := (if k = 2 then special_value 0 BC_SCALE_MAX x else scale s)\<rparr>)"
  using assms by (intro store_special_spec) simp_all

theorem store_special_correct_witness:
  "\<exists>s'. store_var 2 (push_num (num_of PLUS [0] [5]) (init_storage zero_state)) = Some s' \<and> scale s' = 2147483647"
proof -
  let ?x = "num_of PLUS [0] [5]"
  let ?s = "push_num ?x (init_storage zero_state)"
  have "special_value 0 BC_SCALE_MAX ?x = 2147483647"
    by (simp add: special_value_def num_of_simps BC_SCALE_MAX_def INT_MAX_def)
  moreover have "tos ?s = Some ?x" "bc_canon ?x" by (simp_all add: tos_def push_num_def num_of_simps)
  ultimately show ?thesis using store_special_correct [of ?s ?x 2] by auto
qed

text \<open>
  C35: \<open>ibase\<close>, \<open>obase\<close> and \<open>scale\<close> stay in their ranges under storing, \<open>++\<close> and \<open>--\<close>.
\<close>

theorem special_bounds:
  assumes "bases_ok s" and "tos s = Some x" and "bc_canon x" and "k \<le> 2"
  shows "\<exists>s1 s2 s3. store_var k s = Some s1 \<and> incr_var k s = Some s2 \<and> decr_var k s = Some s3
           \<and> bases_ok s1 \<and> bases_ok s2 \<and> bases_ok s3"
proof -
  have sv: "lo \<le> special_value lo limit x \<and> special_value lo limit x \<le> limit" if "lo \<le> limit" for lo limit
    using that by (auto simp: special_value_def)
  note lim = BC_BASE_MAX_def BC_SCALE_MAX_def INT_MAX_def
  obtain m where s1: "store_var k s = Some (s\<lparr>messages := m,
           i_base := (if k = 0 then special_value 2 (if std_only s then 16 else 36) x else i_base s),
           o_base := (if k = 1 then special_value 2 BC_BASE_MAX x else o_base s),
           scale := (if k = 2 then special_value 0 BC_SCALE_MAX x else scale s)\<rparr>)" (is "_ = Some ?s1")
  proof -
    have "k \<le> 3" using assms(4) by simp
    from store_special_spec [OF assms(2,3) this] show ?thesis using that by blast
  qed
  have "bases_ok ?s1"
    using assms(1) sv [of 2 16] sv [of 2 36] sv [of 2 BC_BASE_MAX] sv [of 0 BC_SCALE_MAX]
    by (auto simp: bases_ok_def lim)
  moreover have "k = 0 \<or> k = 1 \<or> k = 2" using assms(4) by linarith
  then have "\<exists>s2 s3. incr_var k s = Some s2 \<and> decr_var k s = Some s3 \<and> bases_ok s2 \<and> bases_ok s3"
    using assms(1) by (elim disjE) (auto simp: incr_var_def decr_var_def bases_ok_def rt_warn_def lim)
  ultimately show ?thesis using s1 by blast
qed

theorem special_bounds_witness:
  "\<exists>s1. store_var 0 (push_num bc_two (init_storage zero_state)) = Some s1 \<and> bases_ok s1"
proof -
  let ?s = "push_num bc_two (init_storage zero_state)"
  have "bases_ok ?s" "tos ?s = Some bc_two"
    by (simp_all add: bases_ok_def tos_def push_num_def init_storage_def more_functions_def more_variables_def more_arrays_def
        Let_def BC_BASE_MAX_def BC_SCALE_MAX_def INT_MAX_def)
  then show ?thesis using special_bounds [of ?s bc_two 0] by auto
qed

text \<open>
  An array element: with a subscript in bounds the stored number is the one that is loaded, the
  subscript is consumed, and other elements keep their values; a subscript that is negative, too large
  or strictly between 0 and 1 is a runtime error that leaves stack and arrays alone.
\<close>

theorem store_load_array:
  assumes ok: "arrays_ok s" and v: "arrays s v \<noteq> None" "a_names s v = Some nm" and st: "ex_stack s = x # n # rest"
    and c: "bc_canon x" "bc_canon n"
  shows "(\<not> good_index n \<longrightarrow> store_array v s = Some (rt_error (''Array '' @ nm @ '' subscript out of bounds.'') s))
       \<and> (good_index n \<longrightarrow> (\<exists>s' s''. store_array v s = Some s' \<and> arrays_ok s' \<and> ex_stack s' = x # rest
             \<and> load_array v (s'\<lparr>ex_stack := n # rest\<rparr>) = Some s'' \<and> ex_stack s'' = x # rest
             \<and> (\<forall>w j. j \<noteq> nat \<lfloor>bc_val n\<rfloor> \<longrightarrow> array_val s' w j = array_val s w j)))"
proof (intro conjI impI)
  assume "\<not> good_index n"
  then show "store_array v s = Some (rt_error (''Array '' @ nm @ '' subscript out of bounds.'') s)"
    using array_index_spec [OF c(2)] check_stack_ok [of 2 s] st v(2)
    by (simp add: store_array_def nos_def subscript_error_def)
next
  assume g: "good_index n"
  let ?i = "nat \<lfloor>bc_val n\<rfloor>"
  obtain s' where s': "store_array v s = Some s'" "arrays_ok s'" "ex_stack s' = x # rest" "arrays_and_stack s s'"
    "\<forall>w j. array_val s' w j = (if j = ?i \<and> array_addr s' w = array_addr s' v then x else array_val s w j)"
    using store_array_spec [OF ok v(1) st c g refl] by blast
  let ?t = "s'\<lparr>ex_stack := n # rest\<rparr>"
  have "dom (arrays s') = dom (arrays s)" using s'(4) by (simp add: arrays_and_stack_def same_rest_def)
  then have "arrays s' v \<noteq> None" using v(1) by (metis domIff)
  then have "arrays ?t v \<noteq> None" by simp
  then obtain s'' where "load_array v ?t = Some s''" "ex_stack s'' = array_val ?t v ?i # rest"
    using load_array_spec [of ?t v n rest ?i] s'(2) c(2) g by (auto simp: stack_indep)
  then show "\<exists>s' s''. store_array v s = Some s' \<and> arrays_ok s' \<and> ex_stack s' = x # rest
             \<and> load_array v (s'\<lparr>ex_stack := n # rest\<rparr>) = Some s'' \<and> ex_stack s'' = x # rest
             \<and> (\<forall>w j. j \<noteq> ?i \<longrightarrow> array_val s' w j = array_val s w j)"
    using s' by (auto simp: stack_indep)
qed

theorem store_load_array_witness:
  "\<exists>s' s''. store_array 1 ((init_storage zero_state)\<lparr>ex_stack := [bc_two, bc_one], a_names := [1 \<mapsto> ''a'']\<rparr>) = Some s'
     \<and> load_array 1 (s'\<lparr>ex_stack := [bc_one]\<rparr>) = Some s'' \<and> ex_stack s'' = [bc_two]"
proof -
  let ?s = "(init_storage zero_state)\<lparr>ex_stack := [bc_two, bc_one], a_names := [1 \<mapsto> ''a'']\<rparr>"
  have "arrays_ok ?s" "arrays ?s 1 \<noteq> None" using init_arrays(1,2) by (simp_all add: arrays_ok_def)
  moreover have "a_names ?s 1 = Some ''a''" "ex_stack ?s = bc_two # bc_one # []" "good_index bc_one"
    by (simp_all add: good_index_def BC_DIM_MAX_def)
  ultimately show ?thesis using store_load_array [of ?s 1 "''a''" bc_two bc_one "[]"] by fastforce
qed

text \<open>
  A call with numbers for simple parameters: the arguments leave the stack and become the values of
  the parameters, whose earlier values are kept below; the program counter stands behind the call. Popping
  the parameters, whatever their values have become, brings the earlier values back.
\<close>

theorem call_values_correct:
  assumes "bc_functions s func = Some f" and "code_at (replicate (length (f_params f)) (CHR ''0'') @ [CHR '':'']) s"
    and "length xs = length (f_params f)" and "ex_stack s = xs @ rest" and d: "distinct (map av_name (f_params f))"
    and live: "\<forall>p \<in> set (f_params f). av_name p > 0 \<and> variables s (nat (av_name p)) \<noteq> None"
  shows "\<exists>s'. process_params func s = Some s' \<and> ex_stack s' = rest \<and> messages s' = messages s
           \<and> pc s' = (pc s)\<lparr>pc_addr := pc_addr (pc s) + length (f_params f) + 1\<rparr>
           \<and> (\<forall>k. variables s' k = (case map_of (zip (map (\<lambda>p. nat (av_name p)) (f_params f)) xs) k of
                Some x \<Rightarrow> Some (Var x (the (variables s k))) | None \<Rightarrow> variables s k))
           \<and> (\<forall>t. (\<forall>p \<in> set (f_params f). \<exists>y. variables t (nat (av_name p)) = Some (Var y (the (variables s (nat (av_name p))))))
                \<longrightarrow> (\<exists>t'. pop_vars (f_params f) t = Some t' \<and> (\<forall>p \<in> set (f_params f). variables t' (nat (av_name p)) = variables s (nat (av_name p)))))"
proof -
  let ?ps = "f_params f"
  let ?s = "skip_code (length ?ps + 1) (s\<lparr>variables := bind_values ?ps xs (variables s), ex_stack := rest\<rparr>)"
  have run: "process_params func s = Some ?s"
    using process_args_values [OF assms(2-4) live] assms(1) by (simp add: process_params_def)
  have pos: "\<forall>p \<in> set ?ps. av_name p > 0" using live by blast
  have "\<exists>t'. pop_vars ?ps t = Some t' \<and> (\<forall>p \<in> set ?ps. variables t' (nat (av_name p)) = variables s (nat (av_name p)))"
    if t: "\<forall>p \<in> set ?ps. \<exists>y. variables t (nat (av_name p)) = Some (Var y (the (variables s (nat (av_name p)))))" for t
  proof -
    have "\<forall>p \<in> set ?ps. av_name p > 0 \<and> (\<exists>y. variables t (nat (av_name p)) = Some (Var y (the (variables s (nat (av_name p))))))"
      using t pos by blast
    note pop = pop_vars_values [OF d this]
    have "\<forall>p \<in> set ?ps. variables (t\<lparr>variables := \<lambda>k. if \<exists>p \<in> set ?ps. k = nat (av_name p) then Some (the (variables s k))
        else variables t k\<rparr>) (nat (av_name p)) = variables s (nat (av_name p))"
      using live by auto
    then show ?thesis using pop by blast
  qed
  then show ?thesis
    using run bind_values_at [OF d assms(3) pos, of "variables s"]
    by (intro exI [of _ ?s]) (simp add: skip_code_def)
qed

theorem call_values_correct_witness:
  "\<exists>s'. process_params 1 ((init_storage zero_state)\<lparr>bc_functions := [0 \<mapsto> new_function\<lparr>f_body := map Some ''0:''\<rparr>,
       1 \<mapsto> new_function\<lparr>f_params := [\<lparr>av_name = 5, arg_is_var = False\<rparr>]\<rparr>], ex_stack := [bc_two]\<rparr>) = Some s'
     \<and> variables s' 5 = Some (Var bc_two Var_null)"
proof -
  let ?f = "new_function\<lparr>f_params := [\<lparr>av_name = 5, arg_is_var = False\<rparr>]\<rparr>"
  let ?s = "(init_storage zero_state)\<lparr>bc_functions := [0 \<mapsto> new_function\<lparr>f_body := map Some ''0:''\<rparr>, 1 \<mapsto> ?f], ex_stack := [bc_two]\<rparr>"
  have "bc_functions ?s 1 = Some ?f" by simp
  moreover have "code_at (replicate (length (f_params ?f)) (CHR ''0'') @ [CHR '':'']) ?s"
    by (simp add: code_at_def init_storage_def more_functions_def more_variables_def more_arrays_def Let_def zero_state_def)
  moreover have "length [bc_two] = length (f_params ?f)" "ex_stack ?s = [bc_two] @ []" "distinct (map av_name (f_params ?f))"
    "\<forall>p \<in> set (f_params ?f). av_name p > 0 \<and> variables ?s (nat (av_name p)) \<noteq> None"
    using init_vars(1) [of zero_state 5] by simp_all
  ultimately show ?thesis using call_values_correct [of ?s 1 ?f "[bc_two]" "[]"] init_vars(1) [of zero_state 5] by fastforce
qed

section \<open>Array parameters\<close>

lemma array_addr_heap: "arrays_ok s \<Longrightarrow> array_addr s v = Some ad \<Longrightarrow> \<exists>a. a_heap s ad = Some a"
  unfolding arrays_ok_def array_addr_def by (fastforce split: option.splits list.splits)

text \<open>Putting a frame in front of an array's stack.\<close>

lemma push_frame:
  assumes ok: "arrays_ok s" and fs: "arrays s w = Some fs" and ad: "a_heap s ad = Some a"
  shows "arrays_ok (s\<lparr>arrays := (arrays s)(w \<mapsto> \<lparr>a_value = Some ad, a_param = b\<rparr> # fs)\<rparr>)"
    "array_val (s\<lparr>arrays := (arrays s)(w \<mapsto> \<lparr>a_value = Some ad, a_param = b\<rparr> # fs)\<rparr>) k = (if k = w then arr_val a else array_val s k)"
proof -
  show "arrays_ok (s\<lparr>arrays := (arrays s)(w \<mapsto> \<lparr>a_value = Some ad, a_param = b\<rparr> # fs)\<rparr>)"
    using ok fs ad unfolding arrays_ok_def by (auto split: if_splits)
  show "array_val (s\<lparr>arrays := (arrays s)(w \<mapsto> \<lparr>a_value = Some ad, a_param = b\<rparr> # fs)\<rparr>) k = (if k = w then arr_val a else array_val s k)"
    using ad by (auto simp: array_val_def frame_val_def fun_eq_iff split: option.splits list.splits)
qed

text \<open>What \<open>pass_array\<close> has done before it looks at the kind of the parameter: the argument has an array, the parameter a new frame.\<close>

lemma pass_array_run:
  assumes ok: "arrays_ok s" and n: "tos s = Some n" "is_int n (int ix)" "int ix \<le> 2147483649"
    and ix: "arrays s ix \<noteq> None" and w: "w = nat (- av_name p)" "arrays s w \<noteq> None" "av_name p < 0"
  obtains s1 gs ad a where "arrays_ok s1" "arrays s1 w = Some gs" "a_heap s1 ad = Some a" "a_tree a \<noteq> None" "array_addr s1 ix = Some ad"
    "array_val s ix = arr_val a" "array_val s1 = array_val s" "\<forall>x. a_heap s1 x = None \<longrightarrow> a_heap s x = None"
    "pass_array p s = (if arg_is_var p then Some (s1\<lparr>arrays := (arrays s1)(w \<mapsto> \<lparr>a_value = Some ad, a_param = True\<rparr> # gs)\<rparr>)
       else do { (ad', t) \<leftarrow> copy_array ad (s1\<lparr>arrays := (arrays s1)(w \<mapsto> new_frame # gs)\<rparr>);
                 Some (t\<lparr>arrays := (arrays t)(w \<mapsto> \<lparr>a_value = Some ad', a_param = False\<rparr> # gs)\<rparr>) })"
proof -
  obtain fs where fs: "arrays s ix = Some fs" using ix by auto
  have z: "(0::nat) < 64 ^ 4" by simp
  obtain q s1 fs' a where g: "get_array_num ix 0 s = Some (q, s1)" "arrays_ok s1" "same_rest s s1"
    "array_addr s1 ix = Some (fst q)" "array_val s1 = array_val s" "a_heap s1 (fst q) = Some a" "0 < (64::nat) ^ a_depth a"
    "snd q = idx_path (a_depth a) 0" "ptr_get q s1 = Some (array_val s ix 0)" "arrays s1 = (arrays s)(ix \<mapsto> fs')" "frames_grow fs fs'"
    "\<forall>x. a_heap s1 x = None \<longrightarrow> a_heap s x = None"
    using get_array_num_spec [OF ok fs z] by blast
  have tree: "a_tree a \<noteq> None" using g(6,9) by (auto simp: ptr_get_def split: bind_splits)
  obtain gs where gs: "arrays s1 w = Some gs" using w(2) g(10) by (cases "w = ix") auto
  obtain f fs'' where f: "fs' = f # fs''" "a_value f = Some (fst q)"
    using g(4,10) by (auto simp: array_addr_def split: list.splits)
  have av: "array_val s ix = arr_val a"
    using g(6,10) f unfolding g(5) [symmetric] by (simp add: array_val_def frame_val_def fun_eq_iff)
  let ?s2 = "s1\<lparr>arrays := (arrays s1)(w \<mapsto> new_frame # gs)\<rparr>"
  have l: "bc_num2long n = Some (int ix)" using is_int_long [OF n(2)] n(3) by simp
  have a2: "auto_var (av_name p) s1 = Some ?s2" using w(1,3) gs by (simp add: auto_var_def)
  have "\<exists>hs h. arrays ?s2 ix = Some hs \<and> rd hs (if ix = w then 1 else 0) = Some h \<and> a_value h = Some (fst q)"
    using g(10) f gs by (cases "ix = w") (auto simp: rd_def)
  then obtain hs h where h: "arrays ?s2 ix = Some hs" "rd hs (if ix = w then 1 else 0) = Some h" "a_value h = Some (fst q)" by blast
  have run: "pass_array p s = (if arg_is_var p then Some (s1\<lparr>arrays := (arrays s1)(w \<mapsto> \<lparr>a_value = Some (fst q), a_param = True\<rparr> # gs)\<rparr>)
     else do { (ad', t) \<leftarrow> copy_array (fst q) ?s2; Some (t\<lparr>arrays := (arrays t)(w \<mapsto> \<lparr>a_value = Some ad', a_param = False\<rparr> # gs)\<rparr>) })"
    unfolding pass_array_def Let_def
    by (simp only: n(1) l g(1) a2 h nat_int Option.bind.simps prod.case guard_True of_nat_0_le_iff w(1) [symmetric]) simp
  from that [OF g(2) gs g(6) tree g(4) av g(5,12) run] show thesis .
qed

text \<open>The copy is new, and everything else is as it was.\<close>

lemma array_used: "arrays_ok s \<Longrightarrow> arrays s v = Some hs \<Longrightarrow> h \<in> set hs \<Longrightarrow> a_value h = Some x \<Longrightarrow> \<exists>y. a_heap s x = Some y"
  unfolding arrays_ok_def by blast

lemma copy_array_new:
  assumes ok: "arrays_ok s1" and gs: "arrays s1 w = Some gs" and a: "a_heap s1 ad = Some a" "a_tree a \<noteq> None"
  obtains t where "copy_array ad (s1\<lparr>arrays := (arrays s1)(w \<mapsto> new_frame # gs)\<rparr>) = Some (a_next s1, t)" "arrays t = (arrays s1)(w \<mapsto> new_frame # gs)"
    "a_heap s1 (a_next s1) = None" "a_heap t (a_next s1) = Some a" "arrays_ok (t\<lparr>arrays := arrays s1\<rparr>)" "array_val (t\<lparr>arrays := arrays s1\<rparr>) = array_val s1"
proof -
  let ?s2 = "s1\<lparr>arrays := (arrays s1)(w \<mapsto> new_frame # gs)\<rparr>"
  have ok2: "arrays_ok ?s2" using ok gs unfolding arrays_ok_def by (auto simp: new_frame_def split: if_splits)
  obtain t where t: "copy_array ad ?s2 = Some (a_next ?s2, t)" "arrays_ok t" "same_rest ?s2 t" "arrays t = arrays ?s2"
    "a_heap ?s2 (a_next ?s2) = None" "a_heap t = (a_heap ?s2)(a_next ?s2 \<mapsto> a)"
    using copy_array_spec [OF ok2 _ a(2), of ad] a(1) by auto
  let ?u = "t\<lparr>arrays := arrays s1\<rparr>"
  have fresh: "a_heap s1 (a_next s1) = None" using t(5) by simp
  have oku: "arrays_ok ?u"
    unfolding arrays_ok_def
  proof (intro conjI allI impI)
    fix x y assume "a_heap ?u x = Some y"
    then have "a_heap t x = Some y" by simp
    then have "x < a_next t \<and> array_wf y" using t(2) unfolding arrays_ok_def by blast
    then show "x < a_next ?u" "array_wf y" by simp_all
  next
    fix v hs h x assume h: "arrays ?u v = Some hs" "h \<in> set hs" "a_value h = Some x"
    then show "a_heap ?u x \<noteq> None" using array_used [OF ok, of v hs h x] t(6) by auto
  qed
  have same: "array_val ?u = array_val s1"
  proof (intro ext)
    fix v i
    have "frame_val ?u h i = frame_val s1 h i" if h: "arrays s1 v = Some (h # hs)" for h hs
    proof (cases "a_value h")
      case (Some x)
      then obtain y where "a_heap s1 x = Some y" using array_used [OF ok h, of h x] by auto
      then have "x \<noteq> a_next s1" using fresh by auto
      then show ?thesis using Some t(6) by (simp add: frame_val_def)
    qed (simp add: frame_val_def)
    then show "array_val ?u v i = array_val s1 v i" by (auto simp: array_val_def split: option.splits list.splits)
  qed
  have "copy_array ad ?s2 = Some (a_next s1, t)" "arrays t = (arrays s1)(w \<mapsto> new_frame # gs)" "a_heap t (a_next s1) = Some a"
    using t(1,4,6) by simp_all
  from that [OF this(1,2) fresh this(3) oku same] show thesis .
qed

text \<open>
  C36: an array argument: a new frame of the parameter stands for the same numbers as the argument, and what was there before is
  below it. For a variable parameter the new frame and the argument are the same array; for a call by value the new frame has an
  array that was not allocated before the call and that no other frame of any array has after it, so that the two are separate,
  also when the argument had no array of its own yet. No other array changes.
\<close>

theorem pass_array_correct:
  assumes ok: "arrays_ok s" and n: "tos s = Some n" "is_int n (int ix)" "int ix \<le> 2147483649"
    and ix: "arrays s ix \<noteq> None" and ix1: "arrays s (nat (- av_name p)) \<noteq> None" "av_name p < 0"
  shows "\<exists>s'. pass_array p s = Some s' \<and> arrays_ok s' \<and> array_val s' (nat (- av_name p)) = array_val s ix
           \<and> (\<forall>w. w \<noteq> nat (- av_name p) \<longrightarrow> array_val s' w = array_val s w)
           \<and> (\<exists>ad gs. arrays s' (nat (- av_name p)) = Some (\<lparr>a_value = Some ad, a_param = arg_is_var p\<rparr> # gs)
                \<and> array_val (s'\<lparr>arrays := (arrays s')(nat (- av_name p) \<mapsto> gs)\<rparr>) = array_val s
                \<and> (arg_is_var p \<longrightarrow> array_addr (s'\<lparr>arrays := (arrays s')(nat (- av_name p) \<mapsto> gs)\<rparr>) ix = Some ad)
                \<and> (\<not> arg_is_var p \<longrightarrow> a_heap s ad = None \<and> (\<forall>w hs h. ((arrays s')(nat (- av_name p) \<mapsto> gs)) w = Some hs \<longrightarrow> h \<in> set hs \<longrightarrow> a_value h \<noteq> Some ad)))"
proof -
  let ?w = "nat (- av_name p)"
  obtain s1 gs ad a where g: "arrays_ok s1" "arrays s1 ?w = Some gs" "a_heap s1 ad = Some a" "a_tree a \<noteq> None" "array_addr s1 ix = Some ad"
    "array_val s ix = arr_val a" "array_val s1 = array_val s" "\<forall>x. a_heap s1 x = None \<longrightarrow> a_heap s x = None"
    "pass_array p s = (if arg_is_var p then Some (s1\<lparr>arrays := (arrays s1)(?w \<mapsto> \<lparr>a_value = Some ad, a_param = True\<rparr> # gs)\<rparr>)
       else do { (ad', t) \<leftarrow> copy_array ad (s1\<lparr>arrays := (arrays s1)(?w \<mapsto> new_frame # gs)\<rparr>);
                 Some (t\<lparr>arrays := (arrays t)(?w \<mapsto> \<lparr>a_value = Some ad', a_param = False\<rparr> # gs)\<rparr>) })"
    by (rule pass_array_run [OF ok n ix refl ix1])
  show ?thesis
  proof (cases "arg_is_var p")
    case True
    let ?s = "s1\<lparr>arrays := (arrays s1)(?w \<mapsto> \<lparr>a_value = Some ad, a_param = True\<rparr> # gs)\<rparr>"
    have "pass_array p s = Some ?s" unfolding g(9) using True by simp
    moreover note push_frame [OF g(1-3), of True]
    moreover have "?s\<lparr>arrays := (arrays ?s)(?w \<mapsto> gs)\<rparr> = s1" using g(2) by (simp add: fun_upd_idem)
    moreover have "arrays ?s ?w = Some (\<lparr>a_value = Some ad, a_param = True\<rparr> # gs)" by simp
    ultimately show ?thesis using True g(5-7) by (intro exI [of _ ?s] conjI exI [of _ ad] exI [of _ gs]) simp_all
  next
    case False
    obtain t where t: "copy_array ad (s1\<lparr>arrays := (arrays s1)(?w \<mapsto> new_frame # gs)\<rparr>) = Some (a_next s1, t)"
      "arrays t = (arrays s1)(?w \<mapsto> new_frame # gs)" "a_heap s1 (a_next s1) = None" "a_heap t (a_next s1) = Some a"
      "arrays_ok (t\<lparr>arrays := arrays s1\<rparr>)" "array_val (t\<lparr>arrays := arrays s1\<rparr>) = array_val s1"
      by (rule copy_array_new [OF g(1-4)])
    let ?n = "a_next s1" and ?u = "t\<lparr>arrays := arrays s1\<rparr>"
    let ?s = "t\<lparr>arrays := (arrays s1)(?w \<mapsto> \<lparr>a_value = Some ?n, a_param = False\<rparr> # gs)\<rparr>"
    have run: "pass_array p s = Some ?s" unfolding g(9) using False t(1,2) by simp
    have "arrays ?u ?w = Some gs" "a_heap ?u ?n = Some a" using g(2) t(4) by simp_all
    note pf = push_frame [OF t(5) this, of False]
    have eq: "?u\<lparr>arrays := (arrays ?u)(?w \<mapsto> \<lparr>a_value = Some ?n, a_param = False\<rparr> # gs)\<rparr> = ?s" by simp
    have below: "?s\<lparr>arrays := (arrays ?s)(?w \<mapsto> gs)\<rparr> = ?u" using g(2) by (simp add: fun_upd_idem)
    have alone: "a_value h \<noteq> Some ?n" if "((arrays ?s)(?w \<mapsto> gs)) v = Some hs" "h \<in> set hs" for v hs h
    proof -
      have "arrays s1 v = Some hs" using that(1) g(2) by (simp split: if_splits)
      then show ?thesis using array_used [OF g(1), of v hs h ?n] that(2) t(3) by auto
    qed
    show ?thesis
    proof (intro exI [of _ ?s] conjI exI [of _ ?n] exI [of _ gs])
      show "array_val (?s\<lparr>arrays := (arrays ?s)(?w \<mapsto> gs)\<rparr>) = array_val s" unfolding below t(6) g(7) ..
      show "\<not> arg_is_var p \<longrightarrow> a_heap s ?n = None
          \<and> (\<forall>v hs h. ((arrays ?s)(?w \<mapsto> gs)) v = Some hs \<longrightarrow> h \<in> set hs \<longrightarrow> a_value h \<noteq> Some ?n)" using g(8) t(3) alone by blast
    qed (use run pf in \<open>simp_all add: eq t(6) g(6,7) False\<close>)
  qed
qed

theorem pass_array_correct_witness:
  "\<exists>s'. pass_array \<lparr>av_name = -2, arg_is_var = False\<rparr> (push_num bc_one (init_storage zero_state)) = Some s'
     \<and> array_val s' 2 = (\<lambda>i. bc_zero)"
proof -
  let ?s = "push_num bc_one (init_storage zero_state)" and ?p = "\<lparr>av_name = -2, arg_is_var = False\<rparr>"
  have a: "arrays_ok ?s" "tos ?s = Some bc_one" "is_int bc_one (int 1)" "int 1 \<le> 2147483649" "arrays ?s 1 \<noteq> None"
    "arrays ?s (nat (- av_name ?p)) \<noteq> None" "av_name ?p < 0"
    using init_arrays(1,2) is_int_one by (simp_all add: arrays_ok_def push_num_def tos_def)
  have "array_val ?s 1 = (\<lambda>i. bc_zero)"
    using init_arrays(3) [of zero_state 1] by (simp add: push_num_def stack_indep fun_eq_iff)
  then show ?thesis using pass_array_correct [OF a] by auto
qed

end
