(* ===== verification/BcExec.thy ===== *)
theory BcExec
  imports BcStorage
begin

text \<open>
  The bc machine (\<^verbatim>\<open>usr.bin/bc/execute.c\<close>): the byte code is read from the code segment of the current function
  and each instruction acts on the state. One definition per group of instructions, composed by \<open>exec_inst\<close>.
  The loops over the code and over the input are partial functions: a run that does not end has no result.
\<close>

section \<open>Operands\<close>

definition char_val :: "char \<Rightarrow> int" where
  "char_val c = int (of_char c)"

text \<open>A variable, array or function number: one byte, or two when the high bit of the first is set.\<close>

definition get_name :: "bc_state \<Rightarrow> (nat \<times> bc_state) option" where
  "get_name s = do {
     (c, s) \<leftarrow> next_byte s;
     let var_name = (of_char c :: nat);
     if var_name \<ge> 128 then do {
       (d, s) \<leftarrow> next_byte s;
       Some ((var_name mod 128) * 256 + of_char d, s)
     }
     else Some (var_name, s)
   }"

section \<open>Jumps, calls and returns\<close>

text \<open>\<^verbatim>\<open>while (l_gp-- > 0) gp = gp->l_next;\<close>\<close>

fun walk_groups :: "nat \<Rightarrow> bc_label_group list \<Rightarrow> bc_label_group list option" where
  "walk_groups 0 gp = Some gp"
| "walk_groups (Suc n) [] = None"
| "walk_groups (Suc n) (g # gp) = walk_groups n gp"

definition exec_jump :: "char \<Rightarrow> bc_state \<Rightarrow> bc_state option" where
  "exec_jump inst s = do {
     (lo, s) \<leftarrow> next_byte s;
     (hi, s) \<leftarrow> next_byte s;
     let label_num = (of_char lo + of_char hi * 256 :: nat);
     if inst = CHR ''J'' \<or> inst = CHR ''B'' \<and> c_code s \<or> inst = CHR ''Z'' \<and> \<not> c_code s then do {
       f \<leftarrow> bc_functions s (pc_func (pc s));
       gp \<leftarrow> walk_groups (label_num div BC_LABEL_GROUP) (f_label f);
       (case gp of
          g # gs \<Rightarrow> do {
            adr \<leftarrow> rd g (int (label_num mod BC_LABEL_GROUP));
            adr \<leftarrow> adr;
            Some (s\<lparr>pc := (pc s)\<lparr>pc_addr := adr\<rparr>\<rparr>)
          }
        | [] \<Rightarrow> Some (rt_error ''Internal error.'' s))
     }
     else Some s
   }"

definition exec_branch :: "char \<Rightarrow> bc_state \<Rightarrow> bc_state option" where
  "exec_branch inst s = (if inst = CHR ''J'' then exec_jump inst s
     else do { x \<leftarrow> tos s; z \<leftarrow> bc_is_zero x; exec_jump inst (pop (s\<lparr>c_code := \<not> z\<rparr>)) })"

definition exec_call :: "bc_state \<Rightarrow> bc_state option" where
  "exec_call s = do {
     (new_func, s) \<leftarrow> get_name s;
     f \<leftarrow> bc_functions s new_func;
     if \<not> f_defined f then do {
       name \<leftarrow> f_names s new_func;
       Some (rt_error (''Function '' @ name @ '' not defined.'') s)
     }
     else do {
       s \<leftarrow> process_params new_func s;
       s \<leftarrow> auto_vars (f_autos f) s;
       let s = fpush (i_base s) (fpush (int (pc_addr (pc s))) (fpush (int (pc_func (pc s))) s));
       Some (s\<lparr>pc := \<lparr>pc_func = new_func, pc_addr = 0\<rparr>\<rparr>)
     }
   }"

text \<open>Popping the frame of the current function: autos, parameters, and the saved program counter.\<close>

definition leave_func :: "bc_state \<Rightarrow> bc_state option" where
  "leave_func s = do {
     f \<leftarrow> bc_functions s (pc_func (pc s));
     s \<leftarrow> pop_vars (f_autos f) s;
     s \<leftarrow> pop_vars (f_params f) s;
     let (b, s) = fpop s;
     let (adr, s) = fpop s;
     let (func, s) = fpop s;
     Some (s\<lparr>pc := \<lparr>pc_func = nat func, pc_addr = nat adr\<rparr>\<rparr>)
   }"

definition exec_return :: "bc_state \<Rightarrow> bc_state option" where
  "exec_return s = (if pc_func (pc s) \<noteq> 0 then leave_func s else Some (rt_error ''Return from main program.'' s))"

section \<open>Numbers in the code and in the input\<close>

definition prog_char :: "bc_state \<Rightarrow> (int \<times> bc_state) option" where
  "prog_char s = do { (c, s) \<leftarrow> next_byte s; Some (char_val c, s) }"

text \<open>\<open>getchar\<close>: the next character of the input, or \<open>EOF\<close>.\<close>

definition get_char :: "bc_state \<Rightarrow> int \<times> bc_state" where
  "get_char s = (case stdin_chars s of c # cs \<Rightarrow> (char_val c, s\<lparr>stdin_chars := cs\<rparr>) | [] \<Rightarrow> (-1, s))"

definition input_char :: "bc_state \<Rightarrow> int \<times> bc_state" where
  "input_char s = (
     let (in_ch, s) = get_char s;
         (in_ch, s) = (if in_ch = 92 then
             let (in_ch, s) = get_char s
             in if in_ch = 10 then (let (in_ch, s) = get_char s in (in_ch, s\<lparr>out_col := 0\<rparr>)) else (in_ch, s)
           else (in_ch, s))
     in (if 48 \<le> in_ch \<and> in_ch \<le> 57 then in_ch - 48
         else if 65 \<le> in_ch \<and> in_ch \<le> 90 then in_ch + 10 - 65
         else if 97 \<le> in_ch \<and> in_ch \<le> 122 then in_ch + 10 - 97
         else if in_ch = 46 \<or> in_ch = 43 \<or> in_ch = 45 then in_ch
         else if in_ch = 126 then 58
         else if in_ch \<le> 32 then 126
         else 58, s))"

partial_function (option) skip_blanks ::
  "(bc_state \<Rightarrow> (int \<times> bc_state) option) \<Rightarrow> int \<Rightarrow> bc_state \<Rightarrow> (int \<times> bc_state) option" where
  "skip_blanks in_char in_ch s = (if in_ch = 126
     then do { (in_ch, s) \<leftarrow> in_char s; skip_blanks in_char in_ch s } else Some (in_ch, s))"

partial_function (option) const_int :: "(bc_state \<Rightarrow> (int \<times> bc_state) option) \<Rightarrow> int \<Rightarrow> bc_num \<Rightarrow> bc_num \<Rightarrow> int
    \<Rightarrow> bc_state \<Rightarrow> (bc_num \<times> int \<times> bc_state) option" where
  "const_int in_char conv_base mult build in_ch s = (if in_ch < 36
     then do {
       result \<leftarrow> bc_multiply build mult 0;
       temp \<leftarrow> bc_int2num (if in_ch \<ge> conv_base then conv_base - 1 else in_ch);
       build \<leftarrow> bc_add result temp 0;
       (in_ch, s) \<leftarrow> in_char s;
       const_int in_char conv_base mult build in_ch s
     }
     else Some (build, in_ch, s))"

partial_function (option) const_frac :: "(bc_state \<Rightarrow> (int \<times> bc_state) option) \<Rightarrow> int \<Rightarrow> bc_num \<Rightarrow> bc_num \<Rightarrow> bc_num
    \<Rightarrow> nat \<Rightarrow> int \<Rightarrow> bc_state \<Rightarrow> (bc_num \<times> bc_num \<times> nat \<times> bc_state) option" where
  "const_frac in_char conv_base mult result divisor ndigits in_ch s = (if in_ch < 36
     then do {
       result \<leftarrow> bc_multiply result mult 0;
       temp \<leftarrow> bc_int2num in_ch;
       result \<leftarrow> bc_add result temp 0;
       divisor \<leftarrow> bc_multiply divisor mult 0;
       (in_ch, s) \<leftarrow> in_char s;
       const_frac in_char conv_base mult result divisor (ndigits + 1)
         (if in_ch < 36 \<and> in_ch \<ge> conv_base then conv_base - 1 else in_ch) s
     }
     else Some (result, divisor, ndigits, s))"

text \<open>The sign, and a single first digit, which may be larger than the base when it is the only one.\<close>

definition const_sign :: "(bc_state \<Rightarrow> (int \<times> bc_state) option) \<Rightarrow> int \<Rightarrow> bc_state \<Rightarrow> (bool \<times> int \<times> bc_state) option" where
  "const_sign in_char in_ch s = (
     if in_ch = 43 then do { (in_ch, s) \<leftarrow> in_char s; Some (False, in_ch, s) }
     else if in_ch = 45 then do { (in_ch, s) \<leftarrow> in_char s; Some (True, in_ch, s) }
     else Some (False, in_ch, s))"

definition const_first :: "(bc_state \<Rightarrow> (int \<times> bc_state) option) \<Rightarrow> int \<Rightarrow> int \<Rightarrow> bc_state
    \<Rightarrow> (bc_num \<times> int \<times> bc_state) option" where
  "const_first in_char conv_base first_ch s = (if first_ch < 36
     then do {
       (in_ch, s) \<leftarrow> in_char s;
       build \<leftarrow> bc_int2num (if in_ch < 36 \<and> first_ch \<ge> conv_base then conv_base - 1 else first_ch);
       Some (build, in_ch, s)
     }
     else Some (bc_zero, first_ch, s))"

text \<open>The first character behind the point is cut to the base whatever it is, also the end of the number.\<close>

definition const_point :: "(bc_state \<Rightarrow> (int \<times> bc_state) option) \<Rightarrow> int \<Rightarrow> bc_num \<Rightarrow> bc_num \<Rightarrow> bc_state
    \<Rightarrow> (bc_num \<times> bc_state) option" where
  "const_point in_char conv_base mult build s = do {
     (in_ch, s) \<leftarrow> in_char s;
     (result, divisor, ndigits, s) \<leftarrow>
       const_frac in_char conv_base mult bc_zero bc_one 0 (if in_ch \<ge> conv_base then conv_base - 1 else in_ch) s;
     q \<leftarrow> bc_divide result divisor ndigits;
     build \<leftarrow> bc_add build (ret_or q result) 0;
     Some (build, s)
   }"

definition push_constant :: "(bc_state \<Rightarrow> (int \<times> bc_state) option) \<Rightarrow> int \<Rightarrow> bc_state \<Rightarrow> bc_state option" where
  "push_constant in_char conv_base s = do {
     mult \<leftarrow> bc_int2num conv_base;
     (in_ch, s) \<leftarrow> in_char s;
     (in_ch, s) \<leftarrow> skip_blanks in_char in_ch s;
     (negative, in_ch, s) \<leftarrow> const_sign in_char in_ch s;
     (build, in_ch, s) \<leftarrow> const_first in_char conv_base in_ch s;
     (build, in_ch, s) \<leftarrow> const_int in_char conv_base mult build in_ch s;
     (build, s) \<leftarrow> (if in_ch = 46 then const_point in_char conv_base mult build s else Some (build, s));
     build \<leftarrow> (if negative then bc_sub bc_zero build 0 else Some build);
     Some (push_num build s)
   }"

text \<open>Constants in base 10: counting the digits ahead of the program counter, then filling the number.\<close>

partial_function (option) b10_count :: "(char \<Rightarrow> bool) \<Rightarrow> char \<Rightarrow> program_counter \<Rightarrow> nat \<Rightarrow> bc_state
    \<Rightarrow> (char \<times> program_counter \<times> nat) option" where
  "b10_count stop inchar look_pc n s = (if stop inchar then Some (inchar, look_pc, n)
     else do { (inchar, look_pc) \<leftarrow> byte look_pc s; b10_count stop inchar look_pc (n + 1) s })"

partial_function (option) b10_fill :: "char \<Rightarrow> int list \<Rightarrow> int \<Rightarrow> bc_state \<Rightarrow> (int list \<times> bc_state) option" where
  "b10_fill inchar v ptr s = (if inchar = CHR '':'' then Some (v, s)
     else do {
       v' \<leftarrow> (if inchar \<noteq> CHR ''.'' then wr v ptr (if char_val inchar > 9 then 9 else char_val inchar) else Some v);
       (inchar', s) \<leftarrow> next_byte s;
       b10_fill inchar' v' (if inchar \<noteq> CHR ''.'' then ptr + 1 else ptr) s
     })"

definition push_b10_const :: "bc_state \<Rightarrow> bc_state option" where
  "push_b10_const s = do {
     (inchar, look_pc) \<leftarrow> byte (pc s) s;
     (inchar, look_pc, kdigits) \<leftarrow> b10_count (\<lambda>c. c = CHR ''.'' \<or> c = CHR '':'') inchar look_pc 0 s;
     kscale \<leftarrow> (if inchar = CHR ''.'' then do {
         (inchar, look_pc) \<leftarrow> byte look_pc s;
         (inchar, look_pc, n) \<leftarrow> b10_count (\<lambda>c. c = CHR '':'') inchar look_pc 0 s;
         Some n
       } else Some 0);
     (inchar, s) \<leftarrow> next_byte s;
     if kdigits = 1 \<and> kscale = 0 \<and> (char_val inchar = 0 \<or> char_val inchar = 1 \<or> char_val inchar > 9) then do {
       build \<leftarrow> (if char_val inchar = 0 then Some bc_zero else if char_val inchar = 1 then Some bc_one
                 else bc_int2num (char_val inchar));
       (inchar, s) \<leftarrow> next_byte (push_num build s);
       Some s
     }
     else do {
       let build = bc_new_num (if kdigits = 0 then 1 else kdigits) kscale;
       v \<leftarrow> (if kdigits = 0 then wr (n_value build) 0 0 else Some (n_value build));
       (v, s) \<leftarrow> b10_fill inchar v (if kdigits = 0 then 1 else 0) s;
       Some (push_num (build\<lparr>n_value := v\<rparr>) s)
     }
   }"

definition exec_const :: "bc_state \<Rightarrow> bc_state option" where
  "exec_const s = do {
     const_base \<leftarrow> (if pc_func (pc s) = 0 then Some (i_base s) else (case fn_stack s of v # vs \<Rightarrow> Some v | [] \<Rightarrow> None));
     if const_base = 10 then push_b10_const s else push_constant prog_char const_base s
   }"

section \<open>Strings\<close>

partial_function (option) plain_string :: "bc_state \<Rightarrow> bc_state option" where
  "plain_string s = do {
     (ch, s) \<leftarrow> next_byte s;
     if ch = CHR 0x22 then Some s else plain_string (out_schar ch s)
   }"

definition escaped_char :: "char \<Rightarrow> char option" where
  "escaped_char ch = (
     if ch = CHR ''a'' then Some (CHR 0x07) else if ch = CHR ''b'' then Some (CHR 0x08)
     else if ch = CHR ''f'' then Some (CHR 0x0C) else if ch = CHR ''n'' then Some (CHR 0x0A)
     else if ch = CHR ''q'' then Some (CHR 0x22) else if ch = CHR ''r'' then Some (CHR 0x0D)
     else if ch = CHR ''t'' then Some (CHR 0x09) else if ch = CHR 0x5C then Some (CHR 0x5C) else None)"

partial_function (option) escaped_string :: "bc_state \<Rightarrow> bc_state option" where
  "escaped_string s = do {
     (ch, s) \<leftarrow> next_byte s;
     if ch = CHR 0x22 then Some s
     else if ch \<noteq> CHR 0x5C then escaped_string (out_schar ch s)
     else do {
       (ch, s) \<leftarrow> next_byte s;
       if ch = CHR 0x22 then Some s
       else escaped_string (case escaped_char ch of Some c \<Rightarrow> out_schar c s | None \<Rightarrow> s)
     }
   }"

section \<open>Arithmetic and tests\<close>

definition assign :: "bool \<Rightarrow> bc_state \<Rightarrow> bc_state option" where
  "assign code s = set_tos (if code then bc_one else bc_zero) s"

text \<open>The two operands are replaced by the result.\<close>

definition replace2 :: "bc_num \<Rightarrow> bc_state \<Rightarrow> bc_state" where
  "replace2 r s = push_num r (pop (pop s))"

definition exec_arith :: "char \<Rightarrow> bc_state \<Rightarrow> bc_state option" where
  "exec_arith inst s = (
     let (ok, s) = check_stack 2 s
     in if \<not> ok then Some s else do {
       a \<leftarrow> nos s;
       b \<leftarrow> tos s;
       if inst = CHR ''+'' then do { r \<leftarrow> bc_add a b 0; Some (replace2 r s) }
       else if inst = CHR ''-'' then do { r \<leftarrow> bc_sub a b 0; Some (replace2 r s) }
       else if inst = CHR ''*'' then do { r \<leftarrow> bc_multiply a b (nat (scale s)); Some (replace2 r s) }
       else if inst = CHR ''/'' then do {
         r \<leftarrow> bc_divide a b (nat (scale s));
         Some (case r of Ret_ok q \<Rightarrow> replace2 q s | Ret_minus1 \<Rightarrow> rt_error ''Divide by zero'' s)
       }
       else if inst = CHR ''%'' then do {
         z \<leftarrow> bc_is_zero b;
         if z then Some (rt_error ''Modulo by zero'' s)
         else do { r \<leftarrow> bc_modulo a b (nat (scale s)); Some (replace2 (ret_or r bc_zero) s) }
       }
       else do {
         (ev, r) \<leftarrow> bc_raise a b bc_zero (nat (scale s));
         let s = rt_events ev s;
         z \<leftarrow> bc_is_zero a;
         let s = (if z \<and> bc_is_neg b then rt_error ''divide by zero'' s else s);
         Some (replace2 r s)
       }
     })"

definition cmp_holds :: "char \<Rightarrow> int \<Rightarrow> bool" where
  "cmp_holds inst c = (if inst = CHR ''='' then c = 0 else if inst = CHR ''#'' then c \<noteq> 0
     else if inst = CHR ''<'' then c = -1 else if inst = CHR ''{'' then c \<le> 0
     else if inst = CHR ''>'' then c = 1 else c \<ge> 0)"

definition exec_compare :: "char \<Rightarrow> bc_state \<Rightarrow> bc_state option" where
  "exec_compare inst s = (
     let (ok, s) = check_stack 2 s
     in if \<not> ok then Some s else do {
       a \<leftarrow> nos s;
       b \<leftarrow> tos s;
       c \<leftarrow> bc_compare a b;
       assign (cmp_holds inst c) (pop (s\<lparr>c_code := cmp_holds inst c\<rparr>))
     })"

text \<open>\<^verbatim>\<open>&&\<close> and \<^verbatim>\<open>||\<close> look at the second operand only when the first does not decide.\<close>

definition exec_logic :: "char \<Rightarrow> bc_state \<Rightarrow> bc_state option" where
  "exec_logic inst s = (
     let (ok, s) = check_stack 2 s
     in if \<not> ok then Some s else do {
       a \<leftarrow> nos s;
       b \<leftarrow> tos s;
       za \<leftarrow> bc_is_zero a;
       code \<leftarrow> (if inst = CHR ''&'' then (if za then Some False else do { zb \<leftarrow> bc_is_zero b; Some (\<not> zb) })
               else (if \<not> za then Some True else do { zb \<leftarrow> bc_is_zero b; Some (\<not> zb) }));
       assign code (pop (s\<lparr>c_code := code\<rparr>))
     })"

text \<open>\<open>!\<close> and \<open>T\<close>\<close>

definition exec_test :: "bc_state \<Rightarrow> bc_state option" where
  "exec_test s = do { x \<leftarrow> tos s; z \<leftarrow> bc_is_zero x; assign z (s\<lparr>c_code := z\<rparr>) }"

definition exec_write :: "char \<Rightarrow> bc_state \<Rightarrow> bc_state option" where
  "exec_write inst s = do {
     x \<leftarrow> tos s;
     out \<leftarrow> bc_out_num x (o_base s) (std_only s);
     let s = fold out_char out s;
     let s = (if inst = CHR ''W'' then out_char newline s else s);
     s \<leftarrow> store_var 4 s;
     Some (pop s)
   }"

section \<open>Special functions\<close>

definition exec_special :: "bc_state \<Rightarrow> bc_state option" where
  "exec_special s = do {
     (new_func, s) \<leftarrow> next_byte s;
     if new_func = CHR ''L'' then do {
       x \<leftarrow> tos s;
       d \<leftarrow> rd (n_value x) 0;
       n \<leftarrow> bc_int2num (int (if n_len x = 1 \<and> n_scale x \<noteq> 0 \<and> d = 0 then n_scale x else n_len x + n_scale x));
       set_tos n s
     }
     else if new_func = CHR ''S'' then do { x \<leftarrow> tos s; n \<leftarrow> bc_int2num (int (n_scale x)); set_tos n s }
     else if new_func = CHR ''R'' then do {
       x \<leftarrow> tos s;
       r \<leftarrow> bc_sqrt x (nat (scale s));
       (case r of Some q \<Rightarrow> set_tos q s | None \<Rightarrow> Some (rt_error ''Square root of a negative number'' s))
     }
     else if new_func = CHR ''I'' then push_constant (\<lambda>s. Some (input_char s)) (i_base s) s
     else if new_func = CHR ''X'' then (case randoms s of
         r # rs \<Rightarrow> do { n \<leftarrow> bc_int2num r; Some (push_num n (s\<lparr>randoms := rs\<rparr>)) }
       | [] \<Rightarrow> None)
     else Some s
   }"

section \<open>The machine\<close>

definition with_name :: "(nat \<Rightarrow> bc_state \<Rightarrow> bc_state option) \<Rightarrow> bc_state \<Rightarrow> bc_state option" where
  "with_name f s = do { (var_name, s) \<leftarrow> get_name s; f var_name s }"

definition exec_exchange :: "bc_state \<Rightarrow> bc_state option" where
  "exec_exchange s = (
     let (ok, s) = check_stack 2 s
     in if \<not> ok then Some s else (case ex_stack s of
         x # y # xs \<Rightarrow> Some (s\<lparr>ex_stack := y # x # xs\<rparr>) | _ \<Rightarrow> None))"

text \<open>Instructions with an operand in the code.\<close>

definition exec_named :: "char \<Rightarrow> (bc_state \<Rightarrow> bc_state option) option" where
  "exec_named inst = (
     if inst = CHR ''A'' then Some (with_name incr_array)
     else if inst = CHR ''L'' then Some (with_name load_array)
     else if inst = CHR ''M'' then Some (with_name decr_array)
     else if inst = CHR ''S'' then Some (with_name store_array)
     else if inst = CHR ''d'' then Some (with_name decr_var)
     else if inst = CHR ''i'' then Some (with_name incr_var)
     else if inst = CHR ''l'' then Some (with_name load_var)
     else if inst = CHR ''s'' then Some (with_name store_var)
     else None)"

definition exec_inst :: "char \<Rightarrow> bc_state \<Rightarrow> bc_state option" where
  "exec_inst inst s = (case exec_named inst of Some f \<Rightarrow> f s | None \<Rightarrow>
     if inst \<in> {CHR ''B'', CHR ''Z'', CHR ''J''} then exec_branch inst s
     else if inst = CHR ''C'' then exec_call s
     else if inst = CHR ''D'' then do { x \<leftarrow> tos s; Some (push_copy x s) }
     else if inst = CHR ''K'' then exec_const s
     else if inst = CHR ''O'' then escaped_string s
     else if inst = CHR ''R'' then exec_return s
     else if inst = CHR ''T'' \<or> inst = CHR ''!'' then exec_test s
     else if inst = CHR ''W'' \<or> inst = CHR ''P'' then exec_write inst s
     else if inst = CHR ''c'' then exec_special s
     else if inst = CHR ''h'' then Some (bc_exit 0 s)
     else if inst = CHR ''n'' then do { x \<leftarrow> tos s; r \<leftarrow> bc_sub bc_zero x 0; set_tos r s }
     else if inst = CHR ''p'' then Some (pop s)
     else if inst = CHR ''w'' then plain_string s
     else if inst = CHR ''x'' then exec_exchange s
     else if inst = CHR ''0'' then Some (push_copy bc_zero s)
     else if inst = CHR ''1'' then Some (push_copy bc_one s)
     else if inst \<in> {CHR ''&'', CHR ''|''} then exec_logic inst s
     else if inst \<in> {CHR ''+'', CHR ''-'', CHR ''*'', CHR ''/'', CHR ''%'', CHR ''^''} then exec_arith inst s
     else if inst \<in> {CHR ''='', CHR ''#'', CHR ''<'', CHR ''{'', CHR ''>'', CHR ''}''} then exec_compare inst s
     else Some (rt_error (''bad instruction: inst='' @ [inst]) s))"

definition exec_step :: "bc_state \<Rightarrow> bc_state option" where
  "exec_step s = do { (inst, s) \<leftarrow> next_byte s; exec_inst inst s }"

definition running :: "bc_state \<Rightarrow> bool option" where
  "running s = do {
     f \<leftarrow> bc_functions s (pc_func (pc s));
     Some (exited s = None \<and> pc_addr (pc s) < f_code_size f \<and> \<not> runtime_error s \<and> \<not> had_sigint s)
   }"

partial_function (option) exec_loop :: "bc_state \<Rightarrow> bc_state option" where
  "exec_loop s = do {
     go \<leftarrow> running s;
     if go then do { s \<leftarrow> exec_step s; exec_loop s } else Some s
   }"

text \<open>Leaving the functions that are still active when the loop stops.\<close>

partial_function (option) unwind :: "bc_state \<Rightarrow> bc_state option" where
  "unwind s = (if pc_func (pc s) \<noteq> 0 then do { s \<leftarrow> leave_func s; unwind s } else Some s)"

definition execute :: "bc_state \<Rightarrow> bc_state option" where
  "execute s = do {
     s \<leftarrow> exec_loop (s\<lparr>pc := \<lparr>pc_func = 0, pc_addr = 0\<rparr>, runtime_error := False, had_sigint := False\<rparr>);
     if exited s \<noteq> None then Some s
     else do { s \<leftarrow> unwind s; Some (s\<lparr>ex_stack := []\<rparr>) }
   }"

text \<open>The interrupt handler.\<close>

definition stop_execution :: "bc_state \<Rightarrow> bc_state" where
  "stop_execution s = s\<lparr>had_sigint := True\<rparr>"

end
