(* ===== verification/BcOps.thy ===== *)
theory BcOps
  imports BcExec
begin

text \<open>
  What the single instructions do on canonical operands: arithmetic, comparisons and tests as operations on rational
  numbers, the reading of operands and constants from the code.
\<close>

section \<open>What the arithmetic instructions promise\<close>

text \<open>
  The relation between the operands and the result of an arithmetic instruction at scale \<open>k\<close>: sums and
  differences are exact, a product is exact or cut towards zero behind at least \<open>k\<close> digits, a quotient
  is cut towards zero at \<open>k\<close> digits, and the remainder is what such a quotient leaves.
\<close>

definition near :: "nat \<Rightarrow> rat \<Rightarrow> rat \<Rightarrow> bool" where
  "near k x r \<longleftrightarrow> r = x \<or> \<bar>r\<bar> \<le> \<bar>x\<bar> \<and> \<bar>x - r\<bar> < 1 / 10 ^ k"

inductive arith_val :: "nat \<Rightarrow> char \<Rightarrow> rat \<Rightarrow> rat \<Rightarrow> rat \<Rightarrow> bool" for k where
  arith_add: "arith_val k (CHR ''+'') a b (a + b)"
| arith_sub: "arith_val k (CHR ''-'') a b (a - b)"
| arith_mul: "near k (a * b) r \<Longrightarrow> arith_val k (CHR ''*'') a b r"
| arith_div: "b \<noteq> 0 \<Longrightarrow> \<bar>r * b\<bar> \<le> \<bar>a\<bar> \<Longrightarrow> \<bar>a - r * b\<bar> < \<bar>b\<bar> / 10 ^ k \<Longrightarrow> 0 \<le> a * (a - r * b)
    \<Longrightarrow> arith_val k (CHR ''/'') a b r"
| arith_mod: "b \<noteq> 0 \<Longrightarrow> a = of_int q / 10 ^ k * b + r \<Longrightarrow> \<bar>r\<bar> < \<bar>b\<bar> / 10 ^ k \<Longrightarrow> 0 \<le> a * r
    \<Longrightarrow> arith_val k (CHR ''%'') a b r"

inductive_cases arith_valE: "arith_val k c a b r"

inductive_simps arith_val_simps:
  "arith_val k (CHR ''+'') a b r" "arith_val k (CHR ''-'') a b r" "arith_val k (CHR ''*'') a b r"
  "arith_val k (CHR ''/'') a b r" "arith_val k (CHR ''%'') a b r"

definition arith_ops :: string where "arith_ops = ''+-*/%''"

text \<open>The relation that a comparison tests.\<close>

fun cmp_test :: "char \<Rightarrow> rat \<Rightarrow> rat \<Rightarrow> bool" where
  "cmp_test c a b = (if c = CHR ''='' then a = b else if c = CHR ''#'' then a \<noteq> b
     else if c = CHR ''<'' then a < b else if c = CHR ''{'' then a \<le> b
     else if c = CHR ''>'' then a > b else a \<ge> b)"

definition truth :: "bool \<Rightarrow> bc_num" where
  "truth b = (if b then bc_one else bc_zero)"

lemma truth_props [simp]: "bc_canon (truth b)" "bc_val (truth b) = of_bool b"
  by (simp_all add: truth_def)

section \<open>The instructions on canonical operands\<close>

lemma scale_val_int: "\<exists>z. bc_val n = of_int z / 10 ^ n_scale n"
proof (cases "n_sign n")
  case PLUS
  then show ?thesis by (intro exI [of _ "mag n"]) (simp add: bc_val_def bc_abs_def)
next
  case MINUS
  then show ?thesis by (intro exI [of _ "- mag n"]) (simp add: bc_val_def bc_abs_def)
qed

lemma mul_near:
  assumes "bc_canon a" and "bc_canon b"
  shows "\<exists>r. bc_multiply a b k = Some r \<and> bc_canon r \<and> near k (bc_val a * bc_val b) (bc_val r)"
proof -
  have wf: "bc_wf a" "bc_wf b" using assms by (auto dest: bc_canonD)
  obtain r where r: "bc_multiply a b k = Some r" using bc_multiply_spec [OF wf] by blast
  note v = bc_multiply_val [OF wf r]
  show ?thesis
  proof (cases "prod_scale a b k = n_scale a + n_scale b")
    case False
    then have "k \<le> n_scale r" using v(2) by (auto simp: prod_scale_def)
    then have "1 / 10 ^ n_scale r \<le> (1 / 10 ^ k :: rat)" by (simp add: field_simps power_increasing)
    then show ?thesis using r v(1,3,4) unfolding near_def by fastforce
  qed (use r v in \<open>auto simp: near_def\<close>)
qed

lemma mag_val: "bc_val n \<noteq> 0 \<longleftrightarrow> mag n \<noteq> 0"
  by (simp add: bc_val_eq_0_iff)

lemma two_operands:
  assumes "ex_stack s = b # a # st"
  shows "check_stack 2 s = (True, s)" "tos s = Some b" "nos s = Some a"
    "replace2 r s = s\<lparr>ex_stack := r # st\<rparr>" "assign c (pop s) = Some (s\<lparr>ex_stack := truth c # st\<rparr>)"
  using assms check_stack_ok [of 2 s]
  by (simp_all add: tos_def nos_def replace2_def push_num_def pop_def assign_def set_tos_def truth_def)

lemma no_two_operands: "length (ex_stack s) < 2 \<Longrightarrow> check_stack 2 s = (False, rt_error ''Stack error.'' s)"
  using check_stack_fail [of s 2] by simp

lemma exec_arith_spec:
  assumes st: "ex_stack s = b # a # st" and c: "bc_canon a" "bc_canon b" and op: "inst \<in> set arith_ops"
    and nz: "inst \<in> {CHR ''/'', CHR ''%''} \<Longrightarrow> bc_val b \<noteq> 0"
  shows "\<exists>r. exec_arith inst s = Some (s\<lparr>ex_stack := r # st\<rparr>) \<and> bc_canon r
           \<and> arith_val (nat (scale s)) inst (bc_val a) (bc_val b) (bc_val r)"
proof -
  let ?k = "nat (scale s)"
  note wf = bc_canonD(2) [OF c(1)] bc_canonD(2) [OF c(2)]
  consider "inst = CHR ''+''" | "inst = CHR ''-''" | "inst = CHR ''*''" | "inst = CHR ''/''" | "inst = CHR ''%''"
    using op by (auto simp: arith_ops_def)
  then show ?thesis
  proof cases
    case 1
    then show ?thesis using bc_add_spec [OF c, of 0] by (auto simp: exec_arith_def two_operands [OF st] arith_val_simps)
  next
    case 2
    then show ?thesis using bc_sub_spec [OF c, of 0] by (auto simp: exec_arith_def two_operands [OF st] arith_val_simps)
  next
    case 3
    then show ?thesis using mul_near [OF c, of ?k] by (auto simp: exec_arith_def two_operands [OF st] arith_val_simps)
  next
    case 4
    then have v: "bc_val b \<noteq> 0" using nz by simp
    then show ?thesis using 4 bc_divide_val [OF wf, of ?k] mag_val [of b]
      by (auto simp: exec_arith_def two_operands [OF st] arith_val_simps)
  next
    case 5
    then have v: "bc_val b \<noteq> 0" using nz by simp
    obtain q r where d: "bc_divmod a b ?k = Some (Ret_ok (q, r))" "bc_canon r" "n_scale q = ?k"
      "bc_val a = bc_val q * bc_val b + bc_val r" "\<bar>bc_val r\<bar> < \<bar>bc_val b\<bar> / 10 ^ ?k" "0 \<le> bc_val a * bc_val r"
      using bc_divmod_spec [OF c(1) wf(2), of ?k] v mag_val [of b] by blast
    obtain z where z: "bc_val q = of_int z / 10 ^ ?k" using scale_val_int [of q] d(3) by metis
    have "arith_val ?k (CHR ''%'') (bc_val a) (bc_val b) (bc_val r)"
      by (rule arith_mod [OF v _ d(5,6), of z]) (use d(4) z in simp)
    then show ?thesis using 5 v d
      by (auto simp: exec_arith_def two_operands [OF st] bc_is_zero_val [OF wf(2)] bc_modulo_def ret_or_def)
  qed
qed

lemma exec_arith_zero:
  assumes st: "ex_stack s = b # a # st" and c: "bc_canon b" and z: "bc_val b = 0"
  shows "exec_arith (CHR ''/'') s = Some (rt_error ''Divide by zero'' s)"
    "exec_arith (CHR ''%'') s = Some (rt_error ''Modulo by zero'' s)"
  using z bc_divide_zero [OF bc_canonD(2) [OF c]] mag_val [of b]
  by (simp_all add: exec_arith_def two_operands [OF st] bc_is_zero_val [OF bc_canonD(2) [OF c]])

lemma exec_compare_spec:
  assumes st: "ex_stack s = b # a # st" and c: "bc_canon a" "bc_canon b" and op: "inst \<in> set ''=#<{>}''"
  shows "exec_compare inst s = Some (s\<lparr>c_code := cmp_test inst (bc_val a) (bc_val b),
           ex_stack := truth (cmp_test inst (bc_val a) (bc_val b)) # st\<rparr>)"
proof -
  have "cmp_holds inst (cmp3 (bc_val a) (bc_val b)) = cmp_test inst (bc_val a) (bc_val b)"
    by (auto simp: cmp_holds_def cmp3_def)
  moreover have "assign t (pop (s\<lparr>c_code := t\<rparr>)) = Some (s\<lparr>c_code := t, ex_stack := truth t # st\<rparr>)" for t
    by (subst two_operands(5) [of _ b a st]) (use st in simp_all)
  ultimately show ?thesis by (simp add: exec_compare_def two_operands [OF st] bc_compare_val [OF c] del: cmp_test.simps)
qed

lemma exec_logic_spec:
  assumes st: "ex_stack s = b # a # st" and c: "bc_canon a" "bc_canon b" and op: "inst \<in> set ''&|''"
    and t: "t = (if inst = CHR ''&'' then bc_val a \<noteq> 0 \<and> bc_val b \<noteq> 0 else bc_val a \<noteq> 0 \<or> bc_val b \<noteq> 0)"
  shows "exec_logic inst s = Some (s\<lparr>c_code := t, ex_stack := truth t # st\<rparr>)"
proof -
  have "assign t (pop (s\<lparr>c_code := t\<rparr>)) = Some (s\<lparr>c_code := t, ex_stack := truth t # st\<rparr>)" for t
    by (subst two_operands(5) [of _ b a st]) (use st in simp_all)
  then show ?thesis using op t c [THEN bc_canonD(2)]
    by (auto simp: exec_logic_def two_operands [OF st] bc_is_zero_val)
qed

lemma exec_test_spec:
  assumes st: "ex_stack s = a # st" and c: "bc_canon a" and t: "t = (bc_val a = 0)"
  shows "exec_test s = Some (s\<lparr>c_code := t, ex_stack := truth t # st\<rparr>)"
  using bc_is_zero_val [OF bc_canonD(2) [OF c]] st t by (simp add: exec_test_def tos_def assign_def set_tos_def truth_def)

section \<open>Operands in the code\<close>

definition name_code :: "nat \<Rightarrow> char list" where
  "name_code n = (if n < 128 then [char_of n] else [char_of (n div 256 + 128), char_of (n mod 256)])"

lemma of_char_of [simp]: "n < 256 \<Longrightarrow> of_char (char_of n :: char) = (n :: nat)"
  by simp

lemma code_at_append: "code_at (xs @ ys) s \<Longrightarrow> code_at ys (skip_code (length xs) s)"
proof (induction xs arbitrary: s)
  case (Cons x xs)
  have "code_at (xs @ ys) (skip_code 1 s)" using next_byte_code(2) [of x "xs @ ys" s] Cons.prems by simp
  from Cons.IH [OF this] show ?case by (simp add: skip_code_add)
qed simp

lemma get_name_code:
  assumes "code_at (name_code n @ cs) s" and "n < 32768"
  shows "get_name s = Some (n, skip_code (length (name_code n)) s)"
proof (cases "n < 128")
  case True
  then have "code_at (char_of n # cs) s" using assms by (simp add: name_code_def)
  from next_byte_code(1) [OF this] True show ?thesis by (simp add: get_name_def name_code_def)
next
  case False
  let ?h = "n div 256 + 128" and ?l = "n mod 256"
  have h: "?h < 256" "?h \<ge> 128" "?h mod 128 * 256 + ?l = n" using assms(2) by auto
  have c: "code_at (char_of ?h # char_of ?l # cs) s" using False assms by (simp add: name_code_def)
  note next_byte_code(1) [OF c] next_byte_code(1) [OF next_byte_code(2) [OF c]]
  then show ?thesis using h False by (simp add: get_name_def name_code_def skip_code_add Let_def)
qed

lemma byte_code:
  assumes "code_at (c # cs) (s\<lparr>pc := p\<rparr>)"
  shows "byte p s = Some (c, p\<lparr>pc_addr := pc_addr p + 1\<rparr>)" "code_at cs (s\<lparr>pc := p\<lparr>pc_addr := pc_addr p + 1\<rparr>\<rparr>)"
proof -
  have "byte p (s\<lparr>pc := p\<rparr>) = byte p s" by (simp add: byte_def)
  then show "byte p s = Some (c, p\<lparr>pc_addr := pc_addr p + 1\<rparr>)"
    using next_byte_code(1) [OF assms] by (auto simp: next_byte_def skip_code_def split: bind_splits dest: arg_cong [of _ _ pc])
  show "code_at cs (s\<lparr>pc := p\<lparr>pc_addr := pc_addr p + 1\<rparr>\<rparr>)"
    using next_byte_code(2) [OF assms] by (simp add: skip_code_def)
qed

section \<open>Constants in base ten\<close>

definition num_char :: "int \<Rightarrow> char" where "num_char d = char_of (nat d)"

lemma num_char_val: "digit d \<Longrightarrow> char_val (num_char d) = d"
  by (auto simp: char_val_def num_char_def digit_def)

lemma num_char_not [simp]: "digit d \<Longrightarrow> num_char d \<noteq> CHR ''.''" "digit d \<Longrightarrow> num_char d \<noteq> CHR '':''"
  using num_char_val [of d] by (auto simp: char_val_def digit_def)

definition const_code :: "int list \<Rightarrow> int list \<Rightarrow> char list" where
  "const_code ds fs = map num_char ds @ (if fs = [] then [] else CHR ''.'' # map num_char fs) @ [CHR '':'']"

lemma b10_count_next: "\<not> stop c \<Longrightarrow> byte p s = Some (y, q) \<Longrightarrow> b10_count stop c p n s = b10_count stop y q (n + 1) s"
  by (subst b10_count.simps) simp

lemma b10_count_code:
  assumes "code_at rem (s\<lparr>pc := p\<rparr>)" and "inchar # rem = xs @ c # rest" and "\<forall>x \<in> set xs. \<not> stop x" and "stop c"
  shows "b10_count stop inchar p n s = Some (c, p\<lparr>pc_addr := pc_addr p + length xs\<rparr>, n + length xs)"
  using assms
proof (induction xs arbitrary: inchar rem p n)
  case Nil
  then show ?case by (subst b10_count.simps) simp
next
  case (Cons x xs)
  obtain y ys where y: "xs @ c # rest = y # ys" by (cases xs) auto
  then have rem: "code_at (y # ys) (s\<lparr>pc := p\<rparr>)" using Cons.prems(1,2) by simp
  note b = byte_code [OF rem]
  have "b10_count stop y (p\<lparr>pc_addr := pc_addr p + 1\<rparr>) (n + 1) s
      = Some (c, p\<lparr>pc_addr := pc_addr p + 1, pc_addr := pc_addr p + 1 + length xs\<rparr>, n + 1 + length xs)"
    using Cons.IH [OF b(2), of y "n + 1"] y Cons.prems(3,4) by simp
  then show ?case using Cons.prems b10_count_next [OF _ b(1), of stop x n] by simp
qed

lemma splice_Cons: "p < length v \<Longrightarrow> splice (v[p := x]) (p + 1) ys = splice v p (x # ys)"
  by (simp add: splice_def upd_conv_take_nth_drop min_def add.commute)

text \<open>Filling in the digits; a point is skipped.\<close>

definition code_digit :: "char \<Rightarrow> int list" where
  "code_digit c = (if c = CHR ''.'' then [] else [char_val c])"

lemma b10_fill_next:
  assumes "next_byte s = Some (y, t)"
  shows "b10_fill (CHR ''.'') v ptr s = b10_fill y v ptr t"
    "c \<noteq> CHR ''.'' \<Longrightarrow> c \<noteq> CHR '':'' \<Longrightarrow> char_val c \<le> 9 \<Longrightarrow> wr v ptr (char_val c) = Some v' \<Longrightarrow> b10_fill c v ptr s = b10_fill y v' (ptr + 1) t"
  using assms by (subst b10_fill.simps, simp)+

lemma b10_fill_code:
  assumes "code_at rem s" and "inchar # rem = xs @ CHR '':'' # rest"
    and "\<forall>x \<in> set xs. x = CHR ''.'' \<or> (x \<noteq> CHR '':'' \<and> char_val x \<le> 9)"
    and "ptr + length (concat (map code_digit xs)) \<le> length v"
  shows "b10_fill inchar v (int ptr) s = Some (splice v ptr (concat (map code_digit xs)), skip_code (length xs) s)"
  using assms
proof (induction xs arbitrary: inchar rem s v ptr)
  case Nil
  then show ?case by (subst b10_fill.simps) simp
next
  case (Cons x xs)
  obtain y ys where y: "xs @ CHR '':'' # rest = y # ys" by (cases xs) auto
  have rem: "code_at (y # ys) s" using Cons.prems(1,2) y by simp
  note b = next_byte_code [OF rem]
  show ?case
  proof (cases "x = CHR ''.''")
    case True
    then show ?thesis using Cons.IH [OF b(2), of y ptr v] Cons.prems y b10_fill_next(1) [OF b(1)]
      by (simp add: skip_code_add code_digit_def)
  next
    case False
    have cd: "code_digit x = [char_val x]" using False by (simp add: code_digit_def)
    have w: "wr v (int ptr) (char_val x) = Some (v[ptr := char_val x])" using Cons.prems(4) cd by (simp add: wr_nat)
    have "splice (v[ptr := char_val x]) (ptr + 1) (concat (map code_digit xs)) = splice v ptr (char_val x # concat (map code_digit xs))"
      using Cons.prems(4) cd splice_Cons [of ptr v] by simp
    then show ?thesis using Cons.IH [OF b(2), of y "ptr + 1" "v[ptr := char_val x]"] Cons.prems y False w
        b10_fill_next(2) [OF b(1), of x v "int ptr"] by (simp add: skip_code_add add.commute cd)
  qed
qed

lemma concat_code_digits: "digits ds \<Longrightarrow> concat (map code_digit (map num_char ds)) = ds"
  by (induction ds) (simp_all add: num_char_val code_digit_def)

lemma push_b10_const_run:
  assumes "byte (pc s) s = Some (c, p1)" "b10_count (\<lambda>c. c = CHR ''.'' \<or> c = CHR '':'') c p1 0 s = Some (e, p2, kd)"
    "(if e = CHR ''.'' then do {
         (inchar, look_pc) \<leftarrow> byte p2 s;
         (inchar, look_pc, n) \<leftarrow> b10_count (\<lambda>c. c = CHR '':'') inchar look_pc 0 s;
         Some n
       } else Some 0) = Some ks"
    and "next_byte s = Some (c, s')" and "\<not> (kd = 1 \<and> ks = 0 \<and> (char_val c = 0 \<or> char_val c = 1 \<or> char_val c > 9))"
    and "b10_fill c (replicate ((if kd = 0 then 1 else kd) + ks) 0) (if kd = 0 then 1 else 0) s' = Some (v, t)"
  shows "push_b10_const s = Some (push_num \<lparr>n_sign = PLUS, n_len = if kd = 0 then 1 else kd, n_scale = ks, n_value = v\<rparr> t)"
proof -
  have w: "kd = 0 \<Longrightarrow> wr (replicate (1 + ks) 0) 0 0 = Some (replicate (1 + ks) (0::int))"
    using wr_nat [of 0 "replicate (1 + ks) (0::int)" 0] by simp
  show ?thesis
    unfolding push_b10_const_def assms(1) bind.bind_lunit prod.case assms(2,3,4) if_not_P [OF assms(5)]
    using assms(6) w by (cases "kd = 0") (simp_all add: bc_new_num_def)
qed

text \<open>The constant instruction pushes the number that the code spells.\<close>

lemma push_b10_const_code:
  assumes cd: "code_at (const_code ds fs @ rest) s" and d: "digits (ds @ fs)" and ne: "ds @ fs \<noteq> []"
  shows "push_b10_const s = Some (push_num (num_of PLUS (if ds = [] then [0] else ds) fs)
           (skip_code (length (const_code ds fs)) s))"
proof -
  let ?xs = "map num_char ds @ (if fs = [] then [] else CHR ''.'' # map num_char fs)"
  let ?ending = "(if fs = [] then [] else CHR ''.'' # map num_char fs) @ CHR '':'' # rest"
  have dg: "digits ds" "digits fs" using d by (auto simp: digits_def)
  obtain e ending where e: "?ending = e # ending" "e = CHR ''.'' \<or> e = CHR '':''" by (cases fs) auto
  obtain c rem where c: "c # rem = map num_char ds @ e # ending" by (cases ds) auto
  have at: "code_at (c # rem) s" "c # rem = ?xs @ CHR '':'' # rest" using cd c e(1) by (simp_all add: const_code_def)
  have at': "code_at (c # rem) (s\<lparr>pc := pc s\<rparr>)" using at(1) by simp
  note b0 = byte_code [OF at'] and n0 = next_byte_code [OF at(1)]
  have nostop: "\<forall>x \<in> set (map num_char ds). \<not> (x = CHR ''.'' \<or> x = CHR '':'')" "\<forall>x \<in> set (map num_char fs). \<not> x = CHR '':''"
    using dg by (auto simp: digits_def list_all_iff)
  let ?p = "(pc s)\<lparr>pc_addr := pc_addr (pc s) + 1 + length ds\<rparr>"
  have cnt1: "b10_count (\<lambda>c. c = CHR ''.'' \<or> c = CHR '':'') c ((pc s)\<lparr>pc_addr := pc_addr (pc s) + 1\<rparr>) 0 s = Some (e, ?p, length ds)"
    using b10_count_code [OF b0(2) c nostop(1) e(2)] by simp
  have cnt2: "(if e = CHR ''.'' then do {
         (inchar, look_pc) \<leftarrow> byte ?p s;
         (inchar, look_pc, n) \<leftarrow> b10_count (\<lambda>c. c = CHR '':'') inchar look_pc 0 s;
         Some n
       } else Some 0) = Some (length fs)"
  proof (cases "fs = []")
    case False
    then have e': "e = CHR ''.''" "ending = map num_char fs @ CHR '':'' # rest" using e by auto
    obtain f fr where f: "f # fr = map num_char fs @ CHR '':'' # rest" by (cases fs) auto
    have "code_at (f # fr) (skip_code (1 + length ds) s)"
      using code_at_append [of "map num_char ds @ [e]" "f # fr" s] at(1) c e' f by simp
    then have "code_at (f # fr) (s\<lparr>pc := ?p\<rparr>)" by (simp add: skip_code_def)
    note b1 = byte_code [OF this]
    show ?thesis using e' b1(1) b10_count_code [OF b1(2) f nostop(2)] by simp
  qed (use e in auto)
  have small: "\<forall>x \<in> set ?xs. x = CHR ''.'' \<or> (x \<noteq> CHR '':'' \<and> char_val x \<le> 9)"
    using dg by (auto simp: digits_def list_all_iff num_char_val digit_def)
  have vals: "concat (map code_digit ?xs) = ds @ fs"
    using concat_code_digits [OF dg(1)] concat_code_digits [OF dg(2)] by (simp add: code_digit_def)
  obtain p1 p2 where p: "byte (pc s) s = Some (c, p1)"
    "b10_count (\<lambda>c. c = CHR ''.'' \<or> c = CHR '':'') c p1 0 s = Some (e, p2, length ds)"
    "(if e = CHR ''.'' then do {
         (inchar, look_pc) \<leftarrow> byte p2 s;
         (inchar, look_pc, n) \<leftarrow> b10_count (\<lambda>c. c = CHR '':'') inchar look_pc 0 s;
         Some n
       } else Some 0) = Some (length fs)"
    using b0(1) cnt1 cnt2 by blast
  have one: "ds = [d] \<and> fs = [] \<Longrightarrow> d = 0 \<or> d = 1 \<Longrightarrow> (if d = 0 then bc_zero else bc_one) = num_of PLUS [d] []" for d
    by (auto simp: bc_zero_def bc_one_def bc_new_num_def num_of_def)
  have lenx: "length (const_code ds fs) = length ?xs + 1" by (simp add: const_code_def)
  show ?thesis
  proof (cases "length ds = 1 \<and> length fs = 0 \<and> (char_val c = 0 \<or> char_val c = 1)")
    case True
    then obtain d where ds: "ds = [d]" "fs = []" by (cases ds) auto
    then have d: "char_val c = d" "d = 0 \<or> d = 1" using True c dg(1) num_char_val [of d] by (auto simp: digits_def)
    have "code_at (CHR '':'' # rest) (skip_code 1 s)" using n0(2) at(2) ds by simp
    then have "code_at (CHR '':'' # rest) (push_num b (skip_code 1 s))" for b by (simp add: push_num_def code_at_def skip_code_def)
    note n1 = next_byte_code(1) [OF this]
    have k: "length ds = Suc 0" "length fs = 0" using ds by simp_all
    have "push_b10_const s = Some (push_num (if d = 0 then bc_zero else bc_one) (skip_code 2 s))"
      using d(2) by (auto simp: push_b10_const_def p k d(1) n0(1) [simplified] n1 [simplified]) (simp_all add: push_num_def skip_code_def)
    then show ?thesis using ds one [of d] d(2) lenx by (simp add: numeral_2_eq_2)
  next
    case False
    have big: "\<not> (length ds = 1 \<and> length fs = 0 \<and> (char_val c = 0 \<or> char_val c = 1 \<or> char_val c > 9))"
    proof -
      have "char_val c \<le> 9" if l: "length ds = 1"
      proof -
        obtain d where ds: "ds = [d]" using l by (auto simp: length_Suc_conv)
        then have "digit d" "c = num_char d" using dg(1) c by (simp_all add: digits_def)
        then show ?thesis using num_char_val [of d] by (simp add: digit_def)
      qed
      then show ?thesis using False by linarith
    qed
    let ?n = "if length ds = 0 then 1 else length ds"
    let ?o = "if length ds = 0 then 1 else 0 :: nat"
    let ?v = "replicate (?n + length fs) (0::int)"
    have "b10_fill c ?v (int ?o) (skip_code 1 s) = Some (splice ?v ?o (ds @ fs), skip_code 1 (skip_code (length ?xs) s))"
      using b10_fill_code [OF n0(2) at(2) small, of ?o ?v] unfolding vals by (simp add: skip_code_add)
    moreover have "splice ?v ?o (ds @ fs) = (if ds = [] then [0] else ds) @ fs" by (simp add: splice_def)
    moreover have "int ?o = (if length ds = 0 then 1 else 0)" by simp
    ultimately have fill: "b10_fill c ?v (if length ds = 0 then 1 else 0) (skip_code 1 s)
        = Some ((if ds = [] then [0] else ds) @ fs, skip_code 1 (skip_code (length ?xs) s))" by argo
    show ?thesis unfolding push_b10_const_run [OF p n0(1) big fill]
      by (cases "ds = []") (simp_all add: num_of_def const_code_def skip_code_add)
  qed
qed

end
