(* ===== verification/BcInOut.thy ===== *)
theory BcInOut
  imports BcOps
begin

text \<open>
  Strings and constants: what the string instructions print and how the output is broken into lines, and the numbers
  that \<open>push_constant\<close> reads from the code or from the input in any base.
\<close>

section \<open>Lines\<close>

text \<open>Text with the line breaks taken out, and the column behind it.\<close>

fun unbroken :: "string \<Rightarrow> string" where
  "unbroken [] = []"
| "unbroken [c] = [c]"
| "unbroken (c # d # cs) = (if c = CHR 0x5C \<and> d = newline then unbroken cs else c # unbroken (d # cs))"

text \<open>The longest line of a text that starts in a column.\<close>

fun line_max :: "nat \<Rightarrow> string \<Rightarrow> nat" where
  "line_max col [] = col"
| "line_max col (c # cs) = (if c = newline then max col (line_max 0 cs) else line_max (col + 1) cs)"

fun end_col :: "nat \<Rightarrow> string \<Rightarrow> nat" where
  "end_col col [] = col"
| "end_col col (c # cs) = (if c = newline then end_col 0 cs else end_col (col + 1) cs)"

lemma line_max_append: "line_max col (xs @ ys) = max (line_max col xs) (line_max (end_col col xs) ys)"
proof (induction xs arbitrary: col)
  case Nil
  have "col \<le> line_max col ys"
  proof (induction ys arbitrary: col)
    case (Cons y ys)
    show ?case using Cons [of "Suc col"] by auto
  qed simp
  then show ?case by simp
qed auto

lemma end_col_append: "end_col col (xs @ ys) = end_col (end_col col xs) ys"
  by (induction xs arbitrary: col) auto

lemma unbroken_append:
  "(xs = [] \<or> last xs \<noteq> CHR 0x5C) \<Longrightarrow> unbroken (xs @ ys) = unbroken xs @ unbroken ys"
proof (induction xs rule: unbroken.induct)
  case (2 c)
  then show ?case by (cases ys) auto
next
  case (3 c d cs)
  then show ?case by (cases cs) auto
qed auto

text \<open>What is printed for a text, from a column on, with lines of at most \<open>ls - 1\<close> characters.\<close>

definition broken :: "nat \<Rightarrow> nat \<Rightarrow> string \<Rightarrow> string \<Rightarrow> bool" where
  "broken ls col chs out \<longleftrightarrow> unbroken out = chs \<and> line_max col out \<le> ls - 1 \<and> end_col col out \<le> ls - 2
     \<and> (out = [] \<or> last out \<noteq> CHR 0x5C)"

lemma broken_snoc:
  assumes "broken ls col chs out" and "ls \<ge> 3" and "c \<noteq> CHR 0x5C"
  shows "broken ls col (chs @ [c]) (out @ (if c \<noteq> newline \<and> end_col col out + 1 = ls - 1 then [CHR 0x5C, newline] else []) @ [c])"
  using assms by (auto simp: broken_def unbroken_append line_max_append end_col_append)

lemma out_chars_broken:
  assumes "line_size s = int ls" and "ls \<ge> 3" and "out_col s = int col" and "col \<le> ls - 2" and "CHR 0x5C \<notin> set chs"
  shows "\<exists>out. fold out_char chs s = s\<lparr>stdout_chars := stdout_chars s @ out, out_col := int (end_col col out)\<rparr> \<and> broken ls col chs out"
  using assms(5)
proof (induction chs rule: rev_induct)
  case Nil
  then show ?case using assms by (intro exI [of _ "[]"]) (simp add: broken_def)
next
  case (snoc c chs)
  then obtain out where out: "fold out_char chs s = s\<lparr>stdout_chars := stdout_chars s @ out, out_col := int (end_col col out)\<rparr>" "broken ls col chs out"
    by auto
  let ?o = "out @ (if c \<noteq> newline \<and> end_col col out + 1 = ls - 1 then [CHR 0x5C, newline] else []) @ [c]"
  let ?k = "end_col col out"
  have brk: "int ?k + 1 = int ls - 1 \<longleftrightarrow> ?k + 1 = ls - 1" using assms(2) by linarith
  have "fold out_char (chs @ [c]) s = out_char c (s\<lparr>stdout_chars := stdout_chars s @ out, out_col := int ?k\<rparr>)" by (simp add: out(1))
  also have "\<dots> = s\<lparr>stdout_chars := stdout_chars s @ ?o, out_col := int (end_col col ?o)\<rparr>"
  proof (cases "c = newline")
    case True
    then show ?thesis by (simp add: out_char_def put_char_def end_col_append)
  next
    case False
    show ?thesis
    proof (cases "?k + 1 = ls - 1")
      case True
      then have "int ?k + 1 = int ls - 1" "int ls \<noteq> 0" using brk assms(2) by simp_all
      then show ?thesis using False True assms(1) by (simp add: out_char_def out_break_def put_char_def end_col_append Let_def)
    next
      case nb: False
      then have "int ?k + 1 \<noteq> int ls - 1" using brk by simp
      then show ?thesis using False nb assms(1) by (simp add: out_char_def out_break_def put_char_def end_col_append Let_def)
    qed
  qed
  finally have "fold out_char (chs @ [c]) s = s\<lparr>stdout_chars := stdout_chars s @ ?o, out_col := int (end_col col ?o)\<rparr>" .
  moreover have "broken ls col (chs @ [c]) ?o" by (rule broken_snoc [OF out(2) assms(2)]) (use snoc.prems in auto)
  ultimately show ?case by (intro exI [of _ ?o] conjI)
qed

section \<open>Strings in the code\<close>

lemma out_schar_skip: "out_schar c (skip_code n s) = skip_code n (out_schar c s)"
  by (simp add: out_schar_def out_break_def put_char_def skip_code_def Let_def)

lemma fold_out_skip: "fold out_schar chs (skip_code n s) = skip_code n (fold out_schar chs s)"
  by (induction chs arbitrary: s) (simp_all add: out_schar_skip)

lemma out_schar_code: "code_at cs (out_schar c s) = code_at cs s"
  by (simp add: code_at_def out_schar_def out_break_def put_char_def Let_def)

lemma plain_string_code:
  assumes "code_at (chs @ CHR 0x22 # cs) s" and "CHR 0x22 \<notin> set chs"
  shows "plain_string s = Some (skip_code (length chs + 1) (fold out_schar chs s))"
  using assms
proof (induction chs arbitrary: s)
  case Nil
  then show ?case using next_byte_code(1) [of "CHR 0x22" cs s] by (subst plain_string.simps) simp
next
  case (Cons c chs)
  note f = next_byte_code [OF Cons.prems(1) [unfolded append_Cons]]
  have c: "c \<noteq> CHR 0x22" using Cons.prems(2) by auto
  have "code_at (chs @ CHR 0x22 # cs) (out_schar c (skip_code 1 s))" using f(2) by (simp add: out_schar_code)
  from Cons.IH [OF this] Cons.prems(2) c f(1) show ?case
    by (subst plain_string.simps) (simp add: skip_code_add out_schar_skip fold_out_skip)
qed

text \<open>The characters that a string with escapes stands for.\<close>

fun unescape :: "string \<Rightarrow> string" where
  "unescape [] = []"
| "unescape [c] = [c]"
| "unescape (c # d # cs) = (if c = CHR 0x5C then (case escaped_char d of Some e \<Rightarrow> e # unescape cs | None \<Rightarrow> unescape cs)
     else c # unescape (d # cs))"

text \<open>No backslash is left without a character to escape.\<close>

fun escapes_ok :: "string \<Rightarrow> bool" where
  "escapes_ok [] = True"
| "escapes_ok [c] = (c \<noteq> CHR 0x5C)"
| "escapes_ok (c # d # cs) = (if c = CHR 0x5C then escapes_ok cs else escapes_ok (d # cs))"

lemma escaped_string_plain:
  assumes "next_byte s = Some (c, t)" and "c \<noteq> CHR 0x22"
  shows "c \<noteq> CHR 0x5C \<Longrightarrow> escaped_string s = escaped_string (out_schar c t)"
    "c = CHR 0x5C \<Longrightarrow> next_byte t = Some (d, u) \<Longrightarrow> d \<noteq> CHR 0x22
       \<Longrightarrow> escaped_string s = escaped_string (case escaped_char d of Some e \<Rightarrow> out_schar e u | None \<Rightarrow> u)"
  using assms by (subst escaped_string.simps, simp)+

lemma escaped_string_code:
  assumes "code_at (chs @ CHR 0x22 # cs) s" and "CHR 0x22 \<notin> set chs" and "escapes_ok chs"
  shows "escaped_string s = Some (skip_code (length chs + 1) (fold out_schar (unescape chs) s))"
  using assms
proof (induction chs arbitrary: s rule: unescape.induct)
  case 1
  then show ?case using next_byte_code(1) [of "CHR 0x22" cs s] by (subst escaped_string.simps) simp
next
  case (2 c)
  then have cd: "code_at (c # CHR 0x22 # cs) s" and c: "c \<noteq> CHR 0x22" "c \<noteq> CHR 0x5C" by auto
  note f = next_byte_code [OF cd]
  note g = next_byte_code [of "CHR 0x22" cs "out_schar c (skip_code 1 s)", unfolded out_schar_code, OF f(2)]
  have "escaped_string (out_schar c (skip_code 1 s)) = Some (skip_code 1 (out_schar c (skip_code 1 s)))"
    using g(1) by (subst escaped_string.simps) simp
  then show ?case using escaped_string_plain(1) [OF f(1) c] by (simp add: skip_code_add out_schar_skip)
next
  case (3 c d chs)
  have cd: "code_at (c # d # chs @ CHR 0x22 # cs) s" using "3.prems"(1) by simp
  have c: "c \<noteq> CHR 0x22" "d \<noteq> CHR 0x22" using "3.prems"(2) by auto
  note f = next_byte_code [OF cd]
  show ?case
  proof (cases "c = CHR 0x5C")
    case True
    note g = next_byte_code [OF f(2)]
    let ?u = "case escaped_char d of Some e \<Rightarrow> out_schar e (skip_code 2 s) | None \<Rightarrow> skip_code 2 s"
    have ss: "skip_code 1 (skip_code 1 s) = skip_code 2 s" by (simp add: skip_code_def)
    have run: "escaped_string s = escaped_string ?u"
      using escaped_string_plain(2) [OF f(1) c(1) True g(1) c(2)] unfolding ss .
    have at: "code_at (chs @ CHR 0x22 # cs) ?u"
      using g(2) unfolding ss by (simp add: out_schar_code split: option.splits)
    have "escaped_string ?u = Some (skip_code (length chs + 1) (fold out_schar (unescape chs) ?u))"
      by (cases "escaped_char d") (use "3.IH"(1,2) [OF True] "3.prems" True at in auto)
    then show ?thesis unfolding run using True
      by (cases "escaped_char d") (simp_all add: skip_code_add out_schar_skip fold_out_skip)
  next
    case False
    have at: "code_at ((d # chs) @ CHR 0x22 # cs) (out_schar c (skip_code 1 s))" using f(2) by (simp add: out_schar_code)
    show ?thesis using "3.IH"(3) [OF False at] "3.prems" False escaped_string_plain(1) [OF f(1) c(1) False]
      by (simp add: skip_code_add out_schar_skip fold_out_skip)
  qed
qed

section \<open>Constants in any base\<close>

text \<open>The character routine gives these values one after the other.\<close>

fun reads :: "(bc_state \<Rightarrow> (int \<times> bc_state) option) \<Rightarrow> int list \<Rightarrow> bc_state \<Rightarrow> bc_state \<Rightarrow> bool" where
  "reads f [] s t \<longleftrightarrow> t = s"
| "reads f (x # xs) s t \<longleftrightarrow> (\<exists>u. f s = Some (x, u) \<and> reads f xs u t)"

lemma reads_append: "reads f (xs @ ys) s t \<longleftrightarrow> (\<exists>u. reads f xs s u \<and> reads f ys u t)"
  by (induction xs arbitrary: s) auto

text \<open>A digit that is too large counts as the largest one.\<close>

definition clamp :: "int \<Rightarrow> int \<Rightarrow> int" where
  "clamp b d = (if d \<ge> b then b - 1 else d)"

lemma clamp_range:
  assumes "2 \<le> b" and "b \<le> 36" and "0 \<le> d" and "d < 36"
  shows "0 \<le> clamp b d" "clamp b d < 2 ^ 31" "clamp b d < 36"
  using assms by (auto simp: clamp_def)

definition digits_val :: "int \<Rightarrow> int \<Rightarrow> int list \<Rightarrow> int" where
  "digits_val b x ds = foldl (\<lambda>a d. a * b + clamp b d) x ds"

lemma digits_val_simps [simp]: "digits_val b x [] = x" "digits_val b x (d # ds) = digits_val b (x * b + clamp b d) ds"
  by (simp_all add: digits_val_def)

lemma is_int_add: "is_int a x \<Longrightarrow> is_int b y \<Longrightarrow> \<exists>r. bc_add a b 0 = Some r \<and> is_int r (x + y)"
  using bc_add_spec [of a b 0] by (auto simp: is_int_def)

lemma next_digit:
  assumes "is_int a x" and "is_int m b" and "0 \<le> d" and "d < 2 ^ 31"
  shows "\<exists>p n r. bc_multiply a m 0 = Some p \<and> bc_int2num d = Some n \<and> bc_add p n 0 = Some r \<and> is_int r (x * b + d)"
proof -
  obtain p where p: "bc_multiply a m 0 = Some p" "is_int p (x * b)" using is_int_multiply [OF assms(1,2)] by blast
  obtain n where n: "bc_int2num d = Some n" "is_int n d" using is_int_of_int [of d] assms(3,4) by auto
  show ?thesis using p n is_int_add [OF p(2) n(2)] by blast
qed

lemma skip_blanks_stop: "c \<noteq> 126 \<Longrightarrow> skip_blanks f c s = Some (c, s)"
  by (subst skip_blanks.simps) simp

lemma skip_blanks_spec:
  "reads f (replicate k 126 @ [c]) s t \<Longrightarrow> c \<noteq> 126 \<Longrightarrow> do { (x, u) \<leftarrow> f s; skip_blanks f x u } = Some (c, t)"
proof (induction k arbitrary: s)
  case 0
  then show ?case by (auto simp: skip_blanks_stop)
next
  case (Suc k)
  then obtain u where u: "f s = Some (126, u)" "reads f (replicate k 126 @ [c]) u t" by auto
  have "skip_blanks f 126 u = do { (x, u) \<leftarrow> f u; skip_blanks f x u }" by (subst skip_blanks.simps) simp
  then show ?case using u Suc.IH [OF u(2) Suc.prems(2)] by simp
qed

lemma const_int_spec:
  assumes "reads f rem s t" and "c # rem = ds @ [e]" and "\<forall>d \<in> set ds. 0 \<le> d \<and> d < 36" and "e \<ge> 36"
    and "is_int m b" and "2 \<le> b" and "b \<le> 36" and "is_int a x"
  shows "\<exists>r. const_int f b m a c s = Some (r, e, t) \<and> is_int r (digits_val b x ds)"
  using assms(1-4,8)
proof (induction ds arbitrary: c rem s a x)
  case Nil
  then show ?case by (subst const_int.simps) simp
next
  case (Cons d ds)
  have d: "c = d" "rem = ds @ [e]" "0 \<le> d" "d < 36" using Cons.prems(2,3) by auto
  obtain p n r where r: "bc_multiply a m 0 = Some p" "bc_int2num (clamp b d) = Some n" "bc_add p n 0 = Some r" "is_int r (x * b + clamp b d)"
    using next_digit [OF Cons.prems(5) assms(5) clamp_range(1,2) [OF assms(6,7) d(3,4)]] by blast
  obtain y ys where y: "rem = y # ys" using d(2) by (cases ds) auto
  then obtain u where u: "f s = Some (y, u)" "reads f ys u t" using Cons.prems(1) by auto
  show ?case using Cons.IH [OF u(2), of y r "x * b + clamp b d"] Cons.prems(3,4) y d r u(1)
    by (subst const_int.simps) (auto simp: clamp_def)
qed

lemma const_frac_spec:
  assumes "reads f rem s t" and "y # rem = ds @ [e]" and "\<forall>d \<in> set ds. 0 \<le> d \<and> d < 36" and "e \<ge> 36"
    and "is_int m b" and "2 \<le> b" and "b \<le> 36" and "is_int a x" and "is_int dv z"
    and "c = (if y < 36 \<and> y \<ge> b then b - 1 else y)"
  shows "\<exists>r w. const_frac f b m a dv n c s = Some (r, w, n + length ds, t) \<and> is_int r (digits_val b x ds) \<and> is_int w (z * b ^ length ds)"
  using assms(1-4,8-10)
proof (induction ds arbitrary: y c rem s a dv x z n)
  case Nil
  then show ?case by (subst const_frac.simps) auto
next
  case (Cons d ds)
  have d: "y = d" "rem = ds @ [e]" "0 \<le> d" "d < 36" using Cons.prems(2,3) by auto
  then have c: "c = clamp b d" "c < 36" using Cons.prems(7) assms(7) by (auto simp: clamp_def)
  obtain p n1 r where r: "bc_multiply a m 0 = Some p" "bc_int2num c = Some n1" "bc_add p n1 0 = Some r" "is_int r (x * b + clamp b d)"
    using next_digit [OF Cons.prems(5) assms(5) clamp_range(1,2) [OF assms(6,7) d(3,4)]] c by blast
  obtain w where w: "bc_multiply dv m 0 = Some w" "is_int w (z * b)" using is_int_multiply [OF Cons.prems(6) assms(5)] by blast
  obtain y' ys where y: "rem = y' # ys" using d(2) by (cases ds) auto
  then obtain u where u: "f s = Some (y', u)" "reads f ys u t" using Cons.prems(1) by auto
  let ?c = "if y' < 36 \<and> y' \<ge> b then b - 1 else y'"
  obtain r' w' where i: "const_frac f b m r w (n + 1) ?c u = Some (r', w', n + 1 + length ds, t)"
    "is_int r' (digits_val b (x * b + clamp b d) ds)" "is_int w' (z * b * b ^ length ds)"
    using Cons.IH [OF u(2) _ _ Cons.prems(4) r(4) w(2) refl, of y' "n + 1"] Cons.prems(3) y d(2) by auto
  show ?case using i c(2) r w u(1) by (subst const_frac.simps) (auto simp: mult.assoc)
qed

text \<open>The integer part; a single digit may be larger than the base.\<close>

definition int_val :: "int \<Rightarrow> int list \<Rightarrow> int" where
  "int_val b ds = (case ds of [] \<Rightarrow> 0 | [d] \<Rightarrow> d | d # d' # r \<Rightarrow> digits_val b (clamp b d) (d' # r))"

lemma const_first_spec:
  assumes "reads f rem s t" and "c # rem = ds @ e # es" and "\<forall>d \<in> set ds. 0 \<le> d \<and> d < 36" and "e \<ge> 36" and "2 \<le> b" and "b \<le> 36"
  shows "\<exists>a x u y ys. const_first f b c s = Some (a, y, u) \<and> y # ys = tl ds @ e # es \<and> reads f ys u t \<and> is_int a x
           \<and> digits_val b x (tl ds) = int_val b ds"
proof (cases ds)
  case Nil
  then have "const_first f b c s = Some (bc_zero, e, s)" "reads f es s t" using assms by (auto simp: const_first_def)
  moreover have "is_int bc_zero 0" by (simp add: is_int_def)
  moreover have "digits_val b 0 (tl ds) = int_val b ds" using Nil by (simp add: int_val_def)
  moreover have "e # es = tl ds @ e # es" using Nil by simp
  ultimately show ?thesis by blast
next
  case (Cons d dr)
  have d: "c = d" "rem = dr @ e # es" "0 \<le> d" "d < 36" using assms(2,3) Cons by auto
  obtain y ys where y: "rem = y # ys" using d(2) by (cases dr) auto
  then obtain u where u: "f s = Some (y, u)" "reads f ys u t" using assms(1) by auto
  let ?x = "if y < 36 \<and> d \<ge> b then b - 1 else d"
  have "- (2 ^ 31) < ?x" "?x < 2 ^ 31" using d assms(5,6) by auto
  then obtain a where a: "bc_int2num ?x = Some a" "is_int a ?x" using is_int_of_int by blast
  have "digits_val b ?x dr = int_val b ds"
    using Cons y d(2) assms(3,4) by (cases dr) (auto simp: int_val_def clamp_def)
  then show ?thesis using Cons u a y d by (auto simp: const_first_def)
qed

text \<open>The quotient of two integers, cut at the number of digits.\<close>

lemma frac_quotient:
  assumes "is_int n x" and "is_int d z" and "0 \<le> x" and "0 < z"
  shows "\<exists>q. bc_divide n d k = Some (Ret_ok q) \<and> bc_canon q \<and> n_scale q = k \<and> 0 \<le> bc_val q
           \<and> bc_val q \<le> of_int x / of_int z \<and> of_int x / of_int z - bc_val q < 1 / 10 ^ k"
proof -
  have v: "bc_val n = of_int x" "bc_val d = of_int z" "bc_wf n" "bc_wf d" using is_intD [OF assms(1)] is_intD [OF assms(2)] by simp_all
  have pos: "(0::rat) < of_int z" "(0::rat) \<le> of_int x" using assms(3,4) by simp_all
  have "mag d \<noteq> 0" using mag_val [of d] v(2) pos(1) by simp
  then obtain q where q: "bc_divide n d k = Some (Ret_ok q)" "bc_canon q" "n_scale q = k" "\<bar>bc_val q * of_int z\<bar> \<le> \<bar>of_int x\<bar>"
    "\<bar>of_int x - bc_val q * of_int z\<bar> < \<bar>of_int z\<bar> / 10 ^ k" "0 \<le> of_int x * (of_int x - bc_val q * of_int z)"
    using bc_divide_val [OF v(3,4), of k] v(1,2) by auto
  have qz: "bc_val q * of_int z \<le> of_int x" using q(4) pos by linarith
  have d: "of_int x - bc_val q * of_int z < of_int z / 10 ^ k" using q(5) pos by linarith
  obtain w where w: "bc_val q = of_int w / 10 ^ k" using scale_val_int [of q] q(3) by metis
  have "0 \<le> w"
  proof (rule ccontr)
    assume "\<not> 0 \<le> w"
    then have "(of_int w :: rat) \<le> -1" by (metis int_one_le_iff_zero_less not_le of_int_le_iff of_int_minus of_int_1 zle_diff1_eq diff_0 minus_int_code(2))
    then have "bc_val q \<le> - 1 / 10 ^ k" unfolding w by (rule divide_right_mono) simp
    then have "bc_val q * of_int z \<le> - 1 / 10 ^ k * of_int z" by (rule mult_right_mono) (use pos in simp)
    then show False using d pos(2) by simp
  qed
  then have "0 \<le> bc_val q" by (simp add: w)
  moreover have "bc_val q \<le> of_int x / of_int z" using qz pos by (simp add: pos_le_divide_eq)
  moreover have "of_int x / of_int z - bc_val q < 1 / 10 ^ k" using d pos by (simp add: field_simps)
  ultimately show ?thesis using q(1-3) by blast
qed

lemma digits_val_nonneg:
  "\<forall>d \<in> set ds. 0 \<le> d \<and> d < 36 \<Longrightarrow> 2 \<le> b \<Longrightarrow> b \<le> 36 \<Longrightarrow> 0 \<le> x \<Longrightarrow> 0 \<le> digits_val b x ds"
  by (induction ds arbitrary: x) (simp_all add: clamp_def)

text \<open>The value of a constant: sign, integer part, and a fraction cut to as many decimals as it has digits.\<close>

definition const_value :: "int \<Rightarrow> int list \<Rightarrow> int list \<Rightarrow> int list \<Rightarrow> rat \<Rightarrow> bool" where
  "const_value b sg ds fs v \<longleftrightarrow> (\<exists>q. v = (if sg = [45] then -1 else 1) * (of_int (int_val b ds) + q) \<and> 0 \<le> q
     \<and> q \<le> of_int (digits_val b 0 fs) / of_int b ^ length fs \<and> of_int (digits_val b 0 fs) / of_int b ^ length fs - q < 1 / 10 ^ length fs
     \<and> (fs = [] \<longrightarrow> q = 0))"

lemma const_point_spec:
  assumes "reads f (fs @ [e]) s t" and "\<forall>d \<in> set fs. 0 \<le> d \<and> d < 36" and "fs \<noteq> []" and "e \<ge> 36" and "2 \<le> b" and "b \<le> 36"
    and "is_int m b" and "is_int a x"
  shows "\<exists>r q. const_point f b m a s = Some (r, t) \<and> bc_canon r \<and> n_scale r = length fs \<and> bc_val r = of_int x + q \<and> 0 \<le> q
     \<and> q \<le> of_int (digits_val b 0 fs) / of_int b ^ length fs \<and> of_int (digits_val b 0 fs) / of_int b ^ length fs - q < 1 / 10 ^ length fs"
proof -
  obtain y ys where fs: "fs = y # ys" using assms(3) by (cases fs) auto
  obtain u where u: "f s = Some (y, u)" "reads f (ys @ [e]) u t" using assms(1) fs by auto
  have y36: "y < 36" using assms(2) fs by simp
  have one: "is_int bc_one 1" and zero: "is_int bc_zero 0" by (simp_all add: is_int_def)
  obtain r w where r: "const_frac f b m bc_zero bc_one 0 (if y \<ge> b then b - 1 else y) u = Some (r, w, 0 + length fs, t)"
    "is_int r (digits_val b 0 fs)" "is_int w (1 * b ^ length fs)"
    using const_frac_spec [OF u(2) _ assms(2,4,7,5,6) zero one, of y "if y \<ge> b then b - 1 else y" 0] fs y36 by auto
  have "0 \<le> digits_val b 0 fs" using digits_val_nonneg [OF assms(2,5,6)] by simp
  then obtain q where q: "bc_divide r w (length fs) = Some (Ret_ok q)" "bc_canon q" "n_scale q = length fs" "0 \<le> bc_val q"
    "bc_val q \<le> of_int (digits_val b 0 fs) / of_int b ^ length fs"
    "of_int (digits_val b 0 fs) / of_int b ^ length fs - bc_val q < 1 / 10 ^ length fs"
    using frac_quotient [OF r(2,3), of "length fs"] assms(5) by auto
  obtain z where z: "bc_add a q 0 = Some z" "bc_canon z" "bc_val z = of_int x + bc_val q" "n_scale z = length fs"
    using bc_add_spec [of a q 0] is_intD [OF assms(8)] q(2,3) by auto
  show ?thesis using u(1) r(1) q z by (intro exI [of _ z] exI [of _ "bc_val q"]) (simp add: const_point_def ret_or_def)
qed

lemma push_constant_spec:
  assumes rd: "reads f (replicate k 126 @ sg @ ds @ (if fs = [] then [] else 46 # fs) @ [e]) s t" and sg: "sg \<in> {[], [43], [45]}"
    and dg: "\<forall>d \<in> set ds. 0 \<le> d \<and> d < 36" "\<forall>d \<in> set fs. 0 \<le> d \<and> d < 36" and ne: "ds @ fs \<noteq> []" and e: "e \<ge> 36" "e \<noteq> 46"
    and b: "2 \<le> b" "b \<le> 36"
  shows "\<exists>n. push_constant f b s = Some (push_num n t) \<and> bc_canon n \<and> n_scale n = length fs \<and> const_value b sg ds fs (bc_val n)"
proof -
  let ?tail = "(if fs = [] then [] else 46 # fs) @ [e]"
  obtain c0 r0 where c0: "sg @ ds @ ?tail = c0 # r0" by (cases "sg @ ds @ ?tail") auto
  have c0': "c0 \<noteq> 126" using c0 sg dg ne by (cases sg; cases ds; cases fs) auto
  have "reads f ((replicate k 126 @ [c0]) @ r0) s t" using rd c0 by simp
  then obtain s1 where s1: "reads f (replicate k 126 @ [c0]) s s1" "reads f r0 s1 t" unfolding reads_append by blast
  note blanks = skip_blanks_spec [OF s1(1) c0']
  obtain c s2 rem where c: "const_sign f c0 s1 = Some (sg = [45], c, s2)" "c # rem = ds @ ?tail" "reads f rem s2 t"
  proof (cases "sg = []")
    case True
    then have "c0 \<noteq> 43" "c0 \<noteq> 45" using c0 dg ne by (cases ds; cases fs; auto)+
    then show ?thesis using that [of c0 s1 r0] True c0 s1(2) by (simp add: const_sign_def)
  next
    case False
    obtain c r where cr: "ds @ ?tail = c # r" by (cases "ds @ ?tail") auto
    have c43: "c0 = 43 \<or> c0 = 45" "sg = [c0]" "r0 = c # r" using False sg c0 cr by auto
    then obtain s2 where "f s1 = Some (c, s2)" "reads f r s2 t" using s1(2) by auto
    then show ?thesis using that [of c s2 r] c43 cr by (auto simp: const_sign_def)
  qed
  obtain h es where tail: "?tail = h # es" "h \<ge> 36" "h = 46 \<longleftrightarrow> fs \<noteq> []" "h = 46 \<Longrightarrow> es = fs @ [e]" "h \<noteq> 46 \<Longrightarrow> es = [] \<and> h = e"
    using e by (cases fs) auto
  obtain a x u y ys where first: "const_first f b c s2 = Some (a, y, u)" "y # ys = tl ds @ h # es" "reads f ys u t" "is_int a x"
    "digits_val b x (tl ds) = int_val b ds"
    using const_first_spec [OF c(3) c(2) [unfolded tail(1)] dg(1) tail(2) b] by blast
  obtain m where m: "bc_int2num b = Some m" "is_int m b" using is_int_of_int [of b] b by auto
  obtain xs where xs: "y # xs = tl ds @ [h]" "ys = xs @ es" using first(2) by (cases "tl ds") auto
  obtain v where v: "reads f xs u v" "reads f es v t" using first(3) unfolding xs(2) reads_append by blast
  have dt: "\<forall>d \<in> set (tl ds). 0 \<le> d \<and> d < 36" using dg(1) by (cases ds) auto
  obtain r where r: "const_int f b m a y u = Some (r, h, v)" "is_int r (int_val b ds)"
    using const_int_spec [OF v(1) xs(1) dt tail(2) m(2) b first(4)] first(5) by auto
  have "\<exists>n q. (if h = 46 then const_point f b m r v else Some (r, v)) = Some (n, t) \<and> bc_canon n \<and> n_scale n = length fs
     \<and> bc_val n = of_int (int_val b ds) + q \<and> 0 \<le> q \<and> q \<le> of_int (digits_val b 0 fs) / of_int b ^ length fs
     \<and> of_int (digits_val b 0 fs) / of_int b ^ length fs - q < 1 / 10 ^ length fs \<and> (fs = [] \<longrightarrow> q = 0)"
  proof (cases "fs = []")
    case True
    then have "h \<noteq> 46" "t = v" using tail v(2) by auto
    then show ?thesis using is_intD [OF r(2)] True by simp
  next
    case False
    then have h: "h = 46" "reads f (fs @ [e]) v t" using tail v(2) by auto
    then show ?thesis using const_point_spec [OF h(2) dg(2) False e(1) b m(2) r(2)] False by simp
  qed
  then obtain n q where n: "(if h = 46 then const_point f b m r v else Some (r, v)) = Some (n, t)" "bc_canon n" "n_scale n = length fs"
    "bc_val n = of_int (int_val b ds) + q" "0 \<le> q" "q \<le> of_int (digits_val b 0 fs) / of_int b ^ length fs"
    "of_int (digits_val b 0 fs) / of_int b ^ length fs - q < 1 / 10 ^ length fs" "fs = [] \<longrightarrow> q = 0" by blast
  obtain w where w: "(if sg = [45] then bc_sub bc_zero n 0 else Some n) = Some w" "bc_canon w" "n_scale w = length fs"
    "bc_val w = (if sg = [45] then -1 else 1) * (of_int (int_val b ds) + q)"
    using bc_sub_spec [OF bc_zero_props(1) n(2), of 0] n(2-4) by (cases "sg = [45]") auto
  have "const_value b sg ds fs (bc_val w)" unfolding const_value_def using w(4) n(5-8) by blast
  moreover have "push_constant f b s = Some (push_num w t)"
  proof -
    obtain x1 t1 where x1: "f s = Some (x1, t1)" "skip_blanks f x1 t1 = Some (c0, s1)" using blanks by (auto split: bind_splits)
    show ?thesis by (simp only: push_constant_def m(1) x1 c(1) first(1) r(1) n(1) w(1) bind.bind_lunit prod.case)
  qed
  ultimately show ?thesis using w by blast
qed

section \<open>The input\<close>

text \<open>At the end of the input \<open>input_char\<close> gives a blank for ever.\<close>

lemma input_char_eof: "stdin_chars s = [] \<Longrightarrow> input_char s = (126, s)"
  by (simp add: input_char_def get_char_def Let_def)

lemma skip_blanks_eof:
  assumes "skip_blanks (\<lambda>s. Some (input_char s)) c s = Some r"
  shows "\<not> (c = 126 \<and> stdin_chars s = [])"
proof -
  have "skip_blanks g c s = Some r \<Longrightarrow> g = (\<lambda>s. Some (input_char s)) \<longrightarrow> \<not> (c = 126 \<and> stdin_chars s = [])" for g
    by (rule skip_blanks.raw_induct [where P = "\<lambda>g c s r. g = (\<lambda>s. Some (input_char s)) \<longrightarrow> \<not> (c = 126 \<and> stdin_chars s = [])"])
      (auto simp: input_char_eof split: if_splits)
  then show ?thesis using assms by blast
qed

section \<open>Properties\<close>

lemma print_line:
  assumes "\<not> std_only s"
  shows "fold out_schar chs s = fold out_char chs s"
  using assms
proof (induction chs arbitrary: s)
  case (Cons c chs)
  have "\<not> std_only (out_char c s)" "out_schar c s = out_char c s"
    using Cons.prems by (simp_all add: out_char_def out_schar_def out_break_def put_char_def Let_def)
  then show ?case using Cons.IH by simp
qed simp

lemma print_posix:
  assumes "std_only s"
  shows "\<exists>col. fold out_schar chs s = s\<lparr>stdout_chars := stdout_chars s @ chs, out_col := col\<rparr>"
  using assms
proof (induction chs arbitrary: s)
  case (Cons c chs)
  have t: "out_schar c s = s\<lparr>stdout_chars := stdout_chars s @ [c], out_col := (if c = newline then 0 else out_col s)\<rparr>"
    using Cons.prems by (simp add: out_schar_def put_char_def)
  then have "std_only (out_schar c s)" using Cons.prems by simp
  then obtain k where "fold out_schar chs (out_schar c s) = (out_schar c s)\<lparr>stdout_chars := stdout_chars (out_schar c s) @ chs, out_col := k\<rparr>"
    using Cons.IH by blast
  then show ?case unfolding t by (intro exI [of _ k]) (simp add: t)
next
  case Nil
  show ?case by (intro exI [of _ "out_col s"]) simp
qed



text \<open>
  C37: a constant in the code or in the input, in a base up to 36: blanks, a sign, digits, a point and digits, and a
  terminator are read, and the number that is pushed is the value of the digits in that base; digits that are too large
  count as the largest one, except in a number of one digit, and the fraction is cut to as many decimals as it has digits.
\<close>

theorem push_constant_correct:
  assumes "reads f (replicate k 126 @ sg @ ds @ (if fs = [] then [] else 46 # fs) @ [e]) s t" and "sg \<in> {[], [43], [45]}"
    and "\<forall>d \<in> set (ds @ fs). 0 \<le> d \<and> d < 36" and "ds @ fs \<noteq> []" and "e \<ge> 36" and "e \<noteq> 46" and "2 \<le> b" and "b \<le> 36"
  shows "\<exists>n. push_constant f b s = Some (push_num n t) \<and> bc_canon n \<and> n_scale n = length fs \<and> const_value b sg ds fs (bc_val n)"
  by (rule push_constant_spec [OF assms(1,2) _ _ assms(4-8)]) (use assms(3) in auto)

theorem push_constant_correct_witness:
  "\<exists>n t. push_constant (\<lambda>s. Some (input_char s)) 16 (zero_state\<lparr>stdin_chars := '' -1G.8'' @ [newline]\<rparr>) = Some (push_num n t)
     \<and> stdin_chars t = [] \<and> bc_val n = - 63 / 2"
proof -
  let ?s = "zero_state\<lparr>stdin_chars := '' -1G.8'' @ [newline]\<rparr>" and ?f = "\<lambda>s. Some (input_char s)"
  have "\<exists>t. reads ?f [126, 45, 1, 16, 46, 8, 126] ?s t \<and> stdin_chars t = []"
    by (simp add: input_char_def get_char_def char_val_def Let_def)
  then obtain t where t: "reads ?f (replicate 1 126 @ [45] @ [1, 16] @ (if [8::int] = [] then [] else 46 # [8]) @ [126]) ?s t" "stdin_chars t = []"
    by auto
  obtain n where n: "push_constant ?f 16 ?s = Some (push_num n t)" "const_value 16 [45] [1, 16] [8] (bc_val n)" "n_scale n = 1"
    using push_constant_correct [OF t(1), of 16] by auto
  obtain q where q: "bc_val n = - (31 + q)" "0 \<le> q" "q \<le> 1 / 2" "1 / 2 - q < 1 / 10"
    using n(2) by (auto simp: const_value_def int_val_def clamp_def)
  obtain z where z: "bc_val n = of_int z / 10" using scale_val_int [of n] n(3) by auto
  have "q = of_int (- z - 310) / 10" using q(1) z by simp
  then have "(of_int (- z - 310) :: rat) \<le> of_int 5" "of_int 4 < (of_int (- z - 310) :: rat)" using q(3,4) by auto
  then have "z = - 315" unfolding of_int_le_iff of_int_less_iff by linarith
  then show ?thesis using n(1) z t(2) by auto
qed

text \<open>
  C39: \<open>read()\<close> at the end of the input does not return: the loop over the blanks never ends.
\<close>

theorem read_eof_diverges:
  assumes "stdin_chars s = []"
  shows "push_constant (\<lambda>s. Some (input_char s)) b s = None"
proof (rule ccontr)
  assume "\<not> ?thesis"
  then obtain c u r where "input_char s = (c, u)" "skip_blanks (\<lambda>s. Some (input_char s)) c u = Some r"
    by (auto simp: push_constant_def split: bind_splits prod.splits)
  then show False using skip_blanks_eof input_char_eof [OF assms] assms by auto
qed

theorem read_eof_diverges_witness: "push_constant (\<lambda>s. Some (input_char s)) 10 zero_state = None"
  by (rule read_eof_diverges) (simp add: zero_state_def)

end
