(* ===== verification/BcCall.thy ===== *)
theory BcCall
  imports BcOps
begin

text \<open>
  Calls: the \<open>C\<close> instruction binds arguments and automatic variables and saves the program counter and the input base;
  the \<open>R\<close> instruction takes all of that back.
\<close>

section \<open>The call\<close>

lemma auto_vars_values:
  assumes "\<forall>p \<in> set as. av_name p > 0 \<and> variables s (nat (av_name p)) \<noteq> None"
  shows "auto_vars as s = Some (s\<lparr>variables := bind_values as (replicate (length as) bc_zero) (variables s)\<rparr>)"
  using assms
proof (induction as arbitrary: s)
  case (Cons p as)
  let ?k = "nat (av_name p)"
  let ?t = "s\<lparr>variables := (variables s)(?k \<mapsto> Var bc_zero (the (variables s ?k)))\<rparr>"
  have "auto_vars (p # as) s = auto_vars as ?t" using Cons.prems by (auto simp: auto_var_def)
  also have "\<dots> = Some (?t\<lparr>variables := bind_values as (replicate (length as) bc_zero) (variables ?t)\<rparr>)"
    by (rule Cons.IH) (use Cons.prems in auto)
  finally show ?case by simp
qed simp

lemma bind_values_append:
  "length xs = length ps \<Longrightarrow> bind_values (ps @ qs) (xs @ ys) vs = bind_values qs ys (bind_values ps xs vs)"
  by (induction ps xs vs rule: bind_values.induct) auto

lemma bind_values_dom: "vs k \<noteq> None \<Longrightarrow> bind_values ps xs vs k \<noteq> None"
  by (induction ps xs vs rule: bind_values.induct) auto

text \<open>All the names of a function's frame: its parameters and its automatic variables, here simple variables.\<close>

definition frame :: "bc_function \<Rightarrow> arg_list" where
  "frame f = f_params f @ f_autos f"

definition frame_ok :: "bc_function \<Rightarrow> bc_state \<Rightarrow> bool" where
  "frame_ok f s \<longleftrightarrow> distinct (map av_name (frame f)) \<and> (\<forall>p \<in> set (frame f). av_name p > 0 \<and> variables s (nat (av_name p)) \<noteq> None)"

definition frame_names :: "bc_function \<Rightarrow> nat set" where
  "frame_names f = (\<lambda>p. nat (av_name p)) ` set (frame f)"

definition call_code :: "nat \<Rightarrow> nat \<Rightarrow> char list" where
  "call_code func n = name_code func @ replicate n (CHR ''0'') @ [CHR '':'']"

lemma exec_call_run:
  assumes cd: "code_at (call_code func (length (f_params f))) s" and fn: "func < 32768" "bc_functions s func = Some f" "f_defined f"
    and xs: "length xs = length (f_params f)" "ex_stack s = xs @ rest" and ok: "frame_ok f s"
  shows "exec_call s = Some (s\<lparr>pc := \<lparr>pc_func = func, pc_addr = 0\<rparr>, ex_stack := rest,
      fn_stack := i_base s # int (pc_addr (pc s) + length (call_code func (length (f_params f)))) # int (pc_func (pc s)) # fn_stack s,
      variables := bind_values (frame f) (xs @ replicate (length (f_autos f)) bc_zero) (variables s)\<rparr>)"
proof -
  let ?ps = "f_params f" and ?l = "length (name_code func)"
  let ?vs = "bind_values ?ps xs (variables s)"
  have cd': "code_at (name_code func @ replicate (length ?ps) (CHR ''0'') @ [CHR '':'']) s" using cd by (simp add: call_code_def)
  note nm = get_name_code [OF cd' fn(1)] and args = code_at_append [OF cd']
  have live: "\<forall>p \<in> set ?ps. av_name p > 0 \<and> variables (skip_code ?l s) (nat (av_name p)) \<noteq> None"
    using ok by (auto simp: frame_ok_def frame_def skip_code_def)
  have "process_params func (skip_code ?l s)
      = Some (skip_code (length ?ps + 1) ((skip_code ?l s)\<lparr>variables := bind_values ?ps xs (variables (skip_code ?l s)), ex_stack := rest\<rparr>))"
    using process_args_values [OF args xs(1) _ live, of rest] xs(2) fn(2) by (simp add: process_params_def skip_code_def)
  then have pp: "process_params func (skip_code ?l s) = Some (skip_code (?l + length ?ps + 1) (s\<lparr>variables := ?vs, ex_stack := rest\<rparr>))"
    by (simp add: skip_code_def)
  have "\<forall>p \<in> set (f_autos f). av_name p > 0 \<and> ?vs (nat (av_name p)) \<noteq> None"
    using ok bind_values_dom [of "variables s"] by (fastforce simp: frame_ok_def frame_def)
  then have av: "auto_vars (f_autos f) (skip_code n (s\<lparr>variables := ?vs, ex_stack := rest\<rparr>))
      = Some ((skip_code n (s\<lparr>variables := ?vs, ex_stack := rest\<rparr>))\<lparr>variables := bind_values (f_autos f) (replicate (length (f_autos f)) bc_zero) ?vs\<rparr>)" for n
    by (subst auto_vars_values) (simp_all add: skip_code_def)
  have "bc_functions (skip_code ?l s) func = Some f" using fn(2) by (simp add: skip_code_def)
  then show ?thesis using nm pp av [of "?l + length ?ps + 1"] fn(3) bind_values_append [OF xs(1), of "f_autos f"]
    by (simp add: exec_call_def frame_def fpush_def call_code_def) (simp add: skip_code_def add.assoc)
qed

section \<open>The return\<close>

lemma leave_func_run:
  assumes fn: "bc_functions t (pc_func (pc t)) = Some f" and fs: "fn_stack t = b # int a # int g # vs"
    and ok: "distinct (map av_name (frame f))" "\<forall>p \<in> set (frame f). av_name p > 0"
    and top: "\<forall>k \<in> frame_names f. \<exists>y. variables t k = Some (Var y (old k))"
  shows "leave_func t = Some (t\<lparr>pc := \<lparr>pc_func = g, pc_addr = a\<rparr>, fn_stack := vs,
           variables := \<lambda>k. if k \<in> frame_names f then Some (old k) else variables t k\<rparr>)"
proof -
  let ?v = "\<lambda>as vars k. if \<exists>p \<in> set as. k = nat (av_name p) then Some (old k) else vars k"
  have d: "distinct (map av_name (f_autos f))" "distinct (map av_name (f_params f))" using ok(1) by (simp_all add: frame_def)
  have t1: "\<forall>p \<in> set (f_autos f). av_name p > 0 \<and> (\<exists>y. variables t (nat (av_name p)) = Some (Var y (old (nat (av_name p)))))"
    using ok(2) top by (auto simp: frame_def frame_names_def)
  have p1: "pop_vars (f_autos f) t = Some (t\<lparr>variables := ?v (f_autos f) (variables t)\<rparr>)" by (rule pop_vars_values [OF d(1) t1])
  have disj: "nat (av_name p) \<noteq> nat (av_name q)" if "p \<in> set (f_params f)" "q \<in> set (f_autos f)" for p q
  proof -
    have "av_name p \<noteq> av_name q" using ok(1) that by (auto simp: frame_def)
    moreover have "av_name p > 0" "av_name q > 0" using ok(2) that by (auto simp: frame_def)
    ultimately show ?thesis by simp
  qed
  have t2: "\<forall>p \<in> set (f_params f). av_name p > 0 \<and> (\<exists>y. variables (t\<lparr>variables := ?v (f_autos f) (variables t)\<rparr>) (nat (av_name p))
      = Some (Var y (old (nat (av_name p)))))"
  proof
    fix p assume p: "p \<in> set (f_params f)"
    then have "\<exists>y. variables t (nat (av_name p)) = Some (Var y (old (nat (av_name p))))" "av_name p > 0"
      using ok(2) top by (auto simp: frame_def frame_names_def)
    moreover have "\<not> (\<exists>q \<in> set (f_autos f). nat (av_name p) = nat (av_name q))" using disj [OF p] by blast
    ultimately show "av_name p > 0 \<and> (\<exists>y. variables (t\<lparr>variables := ?v (f_autos f) (variables t)\<rparr>) (nat (av_name p))
      = Some (Var y (old (nat (av_name p)))))" by simp
  qed
  have eq: "(\<lambda>k. if \<exists>p \<in> set (f_params f). k = nat (av_name p) then Some (old k) else ?v (f_autos f) (variables t) k)
      = (\<lambda>k. if k \<in> frame_names f then Some (old k) else variables t k)"
    by (auto simp: frame_names_def frame_def fun_eq_iff)
  have "pop_vars (f_params f) (t\<lparr>variables := ?v (f_autos f) (variables t)\<rparr>)
      = Some (t\<lparr>variables := \<lambda>k. if \<exists>p \<in> set (f_params f). k = nat (av_name p) then Some (old k) else ?v (f_autos f) (variables t) k\<rparr>)"
    using pop_vars_values [OF d(2) t2] by (simp cong: if_cong)
  then have p2: "pop_vars (f_params f) (t\<lparr>variables := ?v (f_autos f) (variables t)\<rparr>)
      = Some (t\<lparr>variables := \<lambda>k. if k \<in> frame_names f then Some (old k) else variables t k\<rparr>)" unfolding eq .
  show ?thesis using fn fs p1 p2 by (simp add: leave_func_def fpop_def Let_def)
qed

section \<open>Properties\<close>

text \<open>The value at the top of a variable's stack, and what is below.\<close>

definition var_top :: "bc_state \<Rightarrow> nat \<Rightarrow> bc_num option" where
  "var_top s k = (case variables s k of Some (Var x nx) \<Rightarrow> Some x | _ \<Rightarrow> None)"

text \<open>
  C12: a call and its return. The call takes the arguments from the stack, gives the parameters their values and the
  automatic variables zero, on top of what these variables were, saves the place behind the call, and continues at the start
  of the function. From any state of the same function with the same saved places, in which these variables still have one
  value on top of what they were, \<open>R\<close> continues behind the call with the variables and the saved places that the caller had.
\<close>

theorem call_return_correct:
  assumes "code_at (call_code func (length (f_params f))) s" and "func < 32768" and fn: "bc_functions s func = Some f" and "f_defined f"
    and "length xs = length (f_params f)" and "ex_stack s = xs @ rest" and ok: "frame_ok f s"
  shows "\<exists>u. exec_call s = Some u \<and> pc u = \<lparr>pc_func = func, pc_addr = 0\<rparr> \<and> ex_stack u = rest
     \<and> (\<forall>k. k \<notin> frame_names f \<longrightarrow> variables u k = variables s k)
     \<and> (\<forall>k x. map_of (zip (map (\<lambda>p. nat (av_name p)) (frame f)) (xs @ replicate (length (f_autos f)) bc_zero)) k = Some x
          \<longrightarrow> variables u k = Some (Var x (the (variables s k))))
     \<and> (\<forall>t. func \<noteq> 0 \<and> bc_functions t = bc_functions u \<and> pc_func (pc t) = func \<and> fn_stack t = fn_stack u
          \<and> (\<forall>k \<in> frame_names f. \<exists>y. variables t k = Some (Var y (the (variables s k))))
          \<longrightarrow> (\<exists>r. exec_return t = Some r \<and> pc r = (pc s)\<lparr>pc_addr := pc_addr (pc s) + length (call_code func (length (f_params f)))\<rparr>
               \<and> fn_stack r = fn_stack s \<and> ex_stack r = ex_stack t
               \<and> (\<forall>k. variables r k = (if k \<in> frame_names f then variables s k else variables t k))))"
proof -
  let ?vals = "xs @ replicate (length (f_autos f)) bc_zero"
  obtain u where u: "exec_call s = Some u" "u = s\<lparr>pc := \<lparr>pc_func = func, pc_addr = 0\<rparr>, ex_stack := rest,
      fn_stack := i_base s # int (pc_addr (pc s) + length (call_code func (length (f_params f)))) # int (pc_func (pc s)) # fn_stack s,
      variables := bind_values (frame f) ?vals (variables s)\<rparr>"
    using exec_call_run [OF assms(1,2) fn assms(4-6) ok] by blast
  have d: "distinct (map av_name (frame f))" "\<forall>p \<in> set (frame f). av_name p > 0" using ok by (auto simp: frame_ok_def)
  have len: "length ?vals = length (frame f)" using assms(5) by (simp add: frame_def)
  note at = bind_values_at [OF d(1) len d(2), of "variables s"]
  have none: "map_of (zip (map (\<lambda>p. nat (av_name p)) (frame f)) ?vals) k = None" if "k \<notin> frame_names f" for k
    using that len by (subst map_of_zip_is_None) (auto simp: frame_names_def)
  have ret: "\<exists>r. exec_return t = Some r \<and> pc r = (pc s)\<lparr>pc_addr := pc_addr (pc s) + length (call_code func (length (f_params f)))\<rparr>
      \<and> fn_stack r = fn_stack s \<and> ex_stack r = ex_stack t \<and> (\<forall>k. variables r k = (if k \<in> frame_names f then variables s k else variables t k))"
    if t: "func \<noteq> 0" "bc_functions t = bc_functions u" "pc_func (pc t) = func" "fn_stack t = fn_stack u"
      "\<forall>k \<in> frame_names f. \<exists>y. variables t k = Some (Var y (the (variables s k)))" for t
  proof -
    have live: "k \<in> frame_names f \<Longrightarrow> \<exists>v. variables s k = Some v" for k using ok by (auto simp: frame_ok_def frame_names_def)
    have "bc_functions t (pc_func (pc t)) = Some f" using t(2,3) fn u(2) by simp
    from leave_func_run [OF this _ d t(5)] t(4) u(2)
    have "leave_func t = Some (t\<lparr>pc := \<lparr>pc_func = pc_func (pc s), pc_addr = pc_addr (pc s) + length (call_code func (length (f_params f)))\<rparr>,
        fn_stack := fn_stack s, variables := \<lambda>k. if k \<in> frame_names f then Some (the (variables s k)) else variables t k\<rparr>)" by simp
    then show ?thesis using t(1,3) live by (fastforce simp: exec_return_def)
  qed
  show ?thesis
    by (intro exI [of _ u] conjI) (use u at none ret in auto)
qed

text \<open>A function with one parameter and one automatic variable, called with one number.\<close>

definition call_fun :: bc_function where
  "call_fun = new_function\<lparr>f_params := [\<lparr>av_name = 5, arg_is_var = False\<rparr>], f_autos := [\<lparr>av_name = 6, arg_is_var = False\<rparr>], f_defined := True\<rparr>"

definition call_state :: bc_state where
  "call_state = (init_storage zero_state)\<lparr>bc_functions := [0 \<mapsto> new_function\<lparr>f_body := map Some (call_code 1 1)\<rparr>, 1 \<mapsto> call_fun], ex_stack := [bc_two]\<rparr>"

lemma call_example:
  "code_at (call_code 1 (length (f_params call_fun))) call_state" "frame_ok call_fun call_state" "bc_functions call_state 1 = Some call_fun"
  "f_defined call_fun" "length [bc_two] = length (f_params call_fun)" "ex_stack call_state = [bc_two] @ []"
  "variables call_state 5 = Some Var_null" "variables call_state 6 = Some Var_null" "frame_names call_fun = {5, 6}" "pc_addr (pc call_state) = 0"
  "length (f_params call_fun) = 1" "frame call_fun = [\<lparr>av_name = 5, arg_is_var = False\<rparr>, \<lparr>av_name = 6, arg_is_var = False\<rparr>]"
  "length (f_autos call_fun) = 1" "length (call_code 1 1) = 3"
  using init_vars(1) [of zero_state 5] init_vars(1) [of zero_state 6]
  by (simp_all add: call_fun_def call_state_def frame_ok_def frame_def frame_names_def call_code_def name_code_def code_at_def)
    (simp_all add: init_storage_def more_functions_def more_variables_def more_arrays_def Let_def zero_state_def)

theorem call_return_correct_witness:
  "\<exists>u r. exec_call call_state = Some u \<and> var_top u 5 = Some bc_two \<and> var_top u 6 = Some bc_zero
     \<and> exec_return u = Some r \<and> pc_addr (pc r) = 3 \<and> variables r 5 = Some Var_null"
proof -
  note ex = call_example
  obtain u where u: "exec_call call_state = Some u" "pc u = \<lparr>pc_func = 1, pc_addr = 0\<rparr>"
    and vals: "\<forall>k x. map_of (zip (map (\<lambda>p. nat (av_name p)) (frame call_fun)) ([bc_two] @ replicate (length (f_autos call_fun)) bc_zero)) k = Some x
          \<longrightarrow> variables u k = Some (Var x (the (variables call_state k)))"
    and ret: "\<forall>t. 1 \<noteq> (0::nat) \<and> bc_functions t = bc_functions u \<and> pc_func (pc t) = 1 \<and> fn_stack t = fn_stack u
          \<and> (\<forall>k \<in> frame_names call_fun. \<exists>y. variables t k = Some (Var y (the (variables call_state k))))
          \<longrightarrow> (\<exists>r. exec_return t = Some r \<and> pc r = (pc call_state)\<lparr>pc_addr := pc_addr (pc call_state) + length (call_code 1 (length (f_params call_fun)))\<rparr>
               \<and> fn_stack r = fn_stack call_state \<and> ex_stack r = ex_stack t
               \<and> (\<forall>k. variables r k = (if k \<in> frame_names call_fun then variables call_state k else variables t k)))"
    using call_return_correct [OF ex(1) _ ex(3-6,2)] by auto
  have v: "variables u 5 = Some (Var bc_two Var_null)" "variables u 6 = Some (Var bc_zero Var_null)"
    using vals ex by simp_all
  obtain r where "exec_return u = Some r" "pc_addr (pc r) = 3" "variables r 5 = variables call_state 5"
    using ret [rule_format, of u] u(2) v ex by auto
  then show ?thesis using u(1) v ex(7) by (simp add: var_top_def)
qed

end
