(* ===== verification/BcMemory.thy ===== *)
theory BcMemory
  imports BcState "HOL-Library.Multiset"
begin

text \<open>
  The memory of the numbers (\<^verbatim>\<open>usr.bin/bc/number.c\<close>): structs with a reference count, the digits they point at, and
  the list of free structs. The other theories treat a number as a value. Here a number is the address of a struct,
  and the last theorem says that a caller which frees and copies only what it holds sees exactly those values.

  \<open>malloc\<close> gives an address that was never used; that it can fail is left out. \<open>None\<close> is undefined behaviour: a struct
  that is not there, storage freed twice, a digit outside its storage.
\<close>

section \<open>Data\<close>

text \<open>\<open>s_ptr\<close> is the storage that belongs to the struct, \<open>s_value\<close> the storage and the position that \<open>n_value\<close> points at.\<close>

record bc_struct =
  s_sign :: sign
  s_len :: nat
  s_scale :: nat
  s_refs :: int
  s_next :: "nat option"
  s_ptr :: "nat option"
  s_value :: "nat \<times> nat"

record num_store =
  structs :: "nat \<rightharpoonup> bc_struct"
  storage :: "nat \<rightharpoonup> int list"
  bc_Free_list :: "nat option"
  next_struct :: nat
  next_storage :: nat
  zero_num :: nat
  one_num :: nat
  two_num :: nat

section \<open>Operations\<close>

text \<open>A struct from the free list, or a new one. Its fields are as they were: those of a new one were never set.\<close>

definition take_struct :: "num_store \<Rightarrow> (nat \<times> num_store) option" where
  "take_struct h = (case bc_Free_list h of
     Some a \<Rightarrow> do { s \<leftarrow> structs h a; Some (a, h\<lparr>bc_Free_list := s_next s\<rparr>) }
   | None \<Rightarrow> Some (next_struct h, h\<lparr>next_struct := next_struct h + 1\<rparr>))"

definition old_next :: "nat \<Rightarrow> num_store \<Rightarrow> nat option" where
  "old_next a h = (case structs h a of Some s \<Rightarrow> s_next s | None \<Rightarrow> None)"

definition new_num :: "nat \<Rightarrow> nat \<Rightarrow> num_store \<Rightarrow> (nat \<times> num_store) option" where
  "new_num len sc h = do {
     (a, h) \<leftarrow> take_struct h;
     let p = next_storage h;
     Some (a, h\<lparr>structs := (structs h)(a \<mapsto> \<lparr>s_sign = PLUS, s_len = len, s_scale = sc, s_refs = 1,
                  s_next = old_next a h, s_ptr = Some p, s_value = (p, 0)\<rparr>),
                storage := (storage h)(p \<mapsto> replicate (len + sc) 0), next_storage := p + 1\<rparr>)
   }"

definition sub_num :: "nat \<Rightarrow> nat \<Rightarrow> nat \<times> nat \<Rightarrow> num_store \<Rightarrow> (nat \<times> num_store) option" where
  "sub_num len sc v h = do {
     (a, h) \<leftarrow> take_struct h;
     Some (a, h\<lparr>structs := (structs h)(a \<mapsto> \<lparr>s_sign = PLUS, s_len = len, s_scale = sc, s_refs = 1,
                  s_next = old_next a h, s_ptr = None, s_value = v\<rparr>)\<rparr>)
   }"

definition free_storage :: "nat option \<Rightarrow> num_store \<Rightarrow> num_store option" where
  "free_storage ptr h = (case ptr of
     None \<Rightarrow> Some h
   | Some p \<Rightarrow> do { b \<leftarrow> storage h p; Some (h\<lparr>storage := (storage h)(p := None)\<rparr>) })"

text \<open>\<^verbatim>\<open>bc_free_num\<close> gets the address of the caller's pointer and clears it; the result is what the pointer is then.\<close>

definition free_num :: "nat option \<Rightarrow> num_store \<Rightarrow> (nat option \<times> num_store) option" where
  "free_num num h = (case num of
     None \<Rightarrow> Some (None, h)
   | Some a \<Rightarrow> do {
       s \<leftarrow> structs h a;
       let s = s\<lparr>s_refs := s_refs s - 1\<rparr>;
       if s_refs s = 0 then do {
         h \<leftarrow> free_storage (s_ptr s) h;
         Some (None, h\<lparr>structs := (structs h)(a \<mapsto> s\<lparr>s_next := bc_Free_list h\<rparr>), bc_Free_list := Some a\<rparr>)
       } else Some (None, h\<lparr>structs := (structs h)(a \<mapsto> s)\<rparr>)
     })"

definition copy_num :: "nat \<Rightarrow> num_store \<Rightarrow> (nat \<times> num_store) option" where
  "copy_num a h = do {
     s \<leftarrow> structs h a;
     guard (s_refs s < INT_MAX);
     Some (a, h\<lparr>structs := (structs h)(a \<mapsto> s\<lparr>s_refs := s_refs s + 1\<rparr>)\<rparr>)
   }"

definition init_num :: "num_store \<Rightarrow> (nat \<times> num_store) option" where
  "init_num h = copy_num (zero_num h) h"

text \<open>\<^verbatim>\<open>num->n_value[i] = d\<close>\<close>

definition set_digit :: "nat \<Rightarrow> nat \<Rightarrow> int \<Rightarrow> num_store \<Rightarrow> num_store option" where
  "set_digit a i d h = do {
     s \<leftarrow> structs h a;
     let (p, off) = s_value s;
     b \<leftarrow> storage h p;
     b \<leftarrow> wr b (int (off + i)) d;
     Some (h\<lparr>storage := (storage h)(p \<mapsto> b)\<rparr>)
   }"

definition init_numbers :: "num_store \<Rightarrow> num_store option" where
  "init_numbers h = do {
     (z, h) \<leftarrow> new_num 1 0 h;
     (e, h) \<leftarrow> new_num 1 0 (h\<lparr>zero_num := z\<rparr>);
     h \<leftarrow> set_digit e 0 1 (h\<lparr>one_num := e\<rparr>);
     (t, h) \<leftarrow> new_num 1 0 h;
     set_digit t 0 2 (h\<lparr>two_num := t\<rparr>)
   }"

text \<open>\<open>_bc_rm_leading_zeros\<close> moves \<open>n_value\<close> and leaves \<open>n_ptr\<close>.\<close>

fun skip_leading :: "int list \<Rightarrow> nat \<Rightarrow> nat \<Rightarrow> (nat \<times> nat) option" where
  "skip_leading b off len = (if off \<ge> length b then None
     else if b ! off = 0 \<and> len > 1 then skip_leading b (off + 1) (len - 1) else Some (off, len))"

declare skip_leading.simps [simp del]

definition rm_leading :: "nat \<Rightarrow> num_store \<Rightarrow> num_store option" where
  "rm_leading a h = do {
     s \<leftarrow> structs h a;
     let (p, off) = s_value s;
     b \<leftarrow> storage h p;
     (off, len) \<leftarrow> skip_leading b off (s_len s);
     Some (h\<lparr>structs := (structs h)(a \<mapsto> s\<lparr>s_value := (p, off), s_len := len\<rparr>)\<rparr>)
   }"

section \<open>Callers\<close>

text \<open>
  What callers do with numbers. A caller holds references; \<open>R\<close> is the multiset of the references that are held
  anywhere: local variables, the stack, variables, arrays, \<open>_zero_\<close>, \<open>_one_\<close> and \<open>_two_\<close>.
\<close>

datatype store_op = New nat nat | Sub nat nat "nat \<times> nat" | Copy nat | Free nat | Set nat nat int | Strip nat

fun perform :: "store_op \<Rightarrow> num_store \<Rightarrow> (nat option \<times> num_store) option" where
  "perform (New len sc) h = do { (a, h) \<leftarrow> new_num len sc h; Some (Some a, h) }"
| "perform (Sub len sc v) h = do { (a, h) \<leftarrow> sub_num len sc v h; Some (Some a, h) }"
| "perform (Copy a) h = do { (a, h) \<leftarrow> copy_num a h; Some (Some a, h) }"
| "perform (Free a) h = free_num (Some a) h"
| "perform (Set a i d) h = do { h \<leftarrow> set_digit a i d h; Some (None, h) }"
| "perform (Strip a) h = do { h \<leftarrow> rm_leading a h; Some (None, h) }"

definition number_at :: "num_store \<Rightarrow> nat \<Rightarrow> bc_num option" where
  "number_at h a = do {
     s \<leftarrow> structs h a;
     b \<leftarrow> storage h (fst (s_value s));
     Some \<lparr>n_sign = s_sign s, n_len = s_len s, n_scale = s_scale s, n_value = drop (snd (s_value s)) b\<rparr>
   }"

definition owned :: "num_store \<Rightarrow> nat \<Rightarrow> bool" where
  "owned h a = (case structs h a of Some s \<Rightarrow> s_ptr s \<noteq> None | None \<Rightarrow> False)"

text \<open>A caller uses what it holds, and writes only to a number of its own that nobody else holds.\<close>

fun allowed :: "store_op \<Rightarrow> num_store \<Rightarrow> nat multiset \<Rightarrow> bool" where
  "allowed (New len sc) h R = True"
| "allowed (Sub len sc v) h R = True"
| "allowed (Copy a) h R = (a \<in># R \<and> int (count R a) < INT_MAX)"
| "allowed (Free a) h R = (a \<in># R)"
| "allowed (Set a i d) h R = (count R a = 1 \<and> owned h a \<and> (case number_at h a of Some n \<Rightarrow> i < length (n_value n) | None \<Rightarrow> False))"
| "allowed (Strip a) h R = (a \<in># R \<and> (case number_at h a of Some n \<Rightarrow> 0 < n_len n \<and> n_len n \<le> length (n_value n) \<and> (count R a = 1 \<or> n_len n = 1)
     | None \<Rightarrow> False))"

fun holders :: "store_op \<Rightarrow> nat option \<Rightarrow> nat multiset \<Rightarrow> nat multiset" where
  "holders (Free a) r R = R - {#a#}"
| "holders op (Some r) R = add_mset r R"
| "holders op None R = R"

definition empty_store :: num_store where
  "empty_store = \<lparr>structs = Map.empty, storage = Map.empty, bc_Free_list = None, next_struct = 1, next_storage = 1,
     zero_num = 0, one_num = 0, two_num = 0\<rparr>"

inductive store_reach :: "num_store \<Rightarrow> nat multiset \<Rightarrow> bool" where
  reach_init: "init_numbers empty_store = Some h \<Longrightarrow> store_reach h {#zero_num h, one_num h, two_num h#}"
| reach_step: "store_reach h R \<Longrightarrow> allowed op h R \<Longrightarrow> perform op h = Some (r, h') \<Longrightarrow> store_reach h' (holders op r R)"

section \<open>Well-formed memory\<close>

fun free_chain :: "(nat \<rightharpoonup> bc_struct) \<Rightarrow> nat option \<Rightarrow> nat list \<Rightarrow> bool" where
  "free_chain st p [] = (p = None)"
| "free_chain st p (a # as) = (p = Some a \<and> (\<exists>s. st a = Some s \<and> s_refs s = 0 \<and> free_chain st (s_next s) as))"

lemma free_chain_upd [simp]: "a \<notin> set as \<Longrightarrow> free_chain (st(a := x)) p as = free_chain st p as"
  by (induction as arbitrary: p) auto

text \<open>
  The free structs \<open>fl\<close> form the free list, each once; every other struct is held as often as it counts. Every storage
  in use belongs to exactly one struct that is held, and holds the digits of that struct.
\<close>

definition store_inv :: "num_store \<Rightarrow> nat multiset \<Rightarrow> nat list \<Rightarrow> bool" where
  "store_inv h R fl \<longleftrightarrow> free_chain (structs h) (bc_Free_list h) fl \<and> distinct fl
     \<and> dom (structs h) = set fl \<union> set_mset R \<and> set fl \<inter> set_mset R = {}
     \<and> (\<forall>a s. structs h a = Some s \<longrightarrow> a < next_struct h \<and> (a \<in># R \<longrightarrow> s_refs s = int (count R a)))
     \<and> (\<forall>p. storage h p \<noteq> None \<longrightarrow> p < next_storage h \<and> (\<exists>a\<in>#R. \<exists>s. structs h a = Some s \<and> s_ptr s = Some p))
     \<and> (\<forall>a\<in>#R. \<forall>s p. structs h a = Some s \<longrightarrow> s_ptr s = Some p \<longrightarrow> fst (s_value s) = p \<and>
          (\<exists>b. storage h p = Some b \<and> snd (s_value s) + s_len s + s_scale s \<le> length b))
     \<and> (\<forall>a\<in>#R. \<forall>a'\<in>#R. \<forall>s s' p. structs h a = Some s \<longrightarrow> structs h a' = Some s' \<longrightarrow> s_ptr s = Some p \<longrightarrow> s_ptr s' = Some p \<longrightarrow> a = a')"

definition store_ok :: "num_store \<Rightarrow> nat multiset \<Rightarrow> bool" where
  "store_ok h R \<longleftrightarrow> (\<exists>fl. store_inv h R fl)"

lemma store_invD:
  assumes "store_inv h R fl"
  shows "free_chain (structs h) (bc_Free_list h) fl" "distinct fl" "dom (structs h) = set fl \<union> set_mset R" "set fl \<inter> set_mset R = {}"
    "structs h a = Some s \<Longrightarrow> a < next_struct h" "structs h a = Some s \<Longrightarrow> a \<in># R \<Longrightarrow> s_refs s = int (count R a)"
    "storage h p = Some b \<Longrightarrow> p < next_storage h"
  using assms unfolding store_inv_def by blast+

lemma held_struct:
  assumes "store_inv h R fl" and "a \<in># R"
  obtains s where "structs h a = Some s" "s_refs s = int (count R a)" "s_refs s > 0" "a \<notin> set fl"
proof -
  have "a \<in> dom (structs h)" using store_invD(3) [OF assms(1)] assms(2) by simp
  then obtain s where s: "structs h a = Some s" by blast
  then have "s_refs s = int (count R a)" using store_invD(6) [OF assms(1) s assms(2)] by simp
  then show thesis using that [OF s] assms store_invD(4) [OF assms(1)] by auto
qed

text \<open>Taking a struct: it is not held, and what is left of the free list is the free list.\<close>

lemma take_struct_spec:
  assumes "store_inv h R fl"
  obtains a fl' n f where "take_struct h = Some (a, h\<lparr>bc_Free_list := f, next_struct := n\<rparr>)" "a \<notin># R" "a \<notin> set fl'" "a < n"
    "set fl' \<subseteq> set fl" "distinct fl'" "free_chain (structs h) f fl'" "set fl = set fl' \<or> set fl = insert a (set fl')"
    "next_struct h \<le> n" "insert a (dom (structs h)) = insert a (set fl' \<union> set_mset R)"
proof (cases "bc_Free_list h")
  case None
  then have "fl = []" using store_invD(1) [OF assms] by (cases fl) auto
  moreover have "next_struct h \<notin># R"
    using store_invD(3,5) [OF assms] by (metis UnCI domD less_irrefl)
  ultimately show thesis using that [where a = "next_struct h" and fl' = "[]" and n = "next_struct h + 1" and f = None] None store_invD(3) [OF assms]
    by (simp add: take_struct_def)
next
  case (Some a)
  then obtain as where fl: "fl = a # as" using store_invD(1) [OF assms] by (cases fl) auto
  then obtain s where s: "structs h a = Some s" "free_chain (structs h) (s_next s) as" using store_invD(1) [OF assms] by auto
  show thesis
    using that [where a = a and fl' = as and n = "next_struct h" and f = "s_next s"] Some s fl store_invD(2-4) [OF assms] store_invD(5) [OF assms s(1)]
    by (auto simp: take_struct_def)
qed

lemma store_inv_ptr:
  assumes "store_inv h R fl" and "a \<in># R" and "structs h a = Some s" and "s_ptr s = Some p"
  shows "fst (s_value s) = p" "\<exists>b. storage h p = Some b \<and> snd (s_value s) + s_len s + s_scale s \<le> length b"
    "a' \<in># R \<Longrightarrow> structs h a' = Some s' \<Longrightarrow> s_ptr s' = Some p \<Longrightarrow> a' = a"
  using assms unfolding store_inv_def by blast+

lemma storage_owner: "store_inv h R fl \<Longrightarrow> storage h p = Some b \<Longrightarrow> \<exists>a\<in>#R. \<exists>s. structs h a = Some s \<and> s_ptr s = Some p"
  unfolding store_inv_def by blast

lemma store_invI:
  assumes "free_chain (structs h) (bc_Free_list h) fl" "distinct fl" "dom (structs h) = set fl \<union> set_mset R" "set fl \<inter> set_mset R = {}"
    and "\<And>a s. structs h a = Some s \<Longrightarrow> a < next_struct h" and "\<And>a s. structs h a = Some s \<Longrightarrow> a \<in># R \<Longrightarrow> s_refs s = int (count R a)"
    and "\<And>p b. storage h p = Some b \<Longrightarrow> p < next_storage h" and "\<And>p b. storage h p = Some b \<Longrightarrow> \<exists>a\<in>#R. \<exists>s. structs h a = Some s \<and> s_ptr s = Some p"
    and "\<And>a s p. a \<in># R \<Longrightarrow> structs h a = Some s \<Longrightarrow> s_ptr s = Some p \<Longrightarrow> fst (s_value s) = p \<and> (\<exists>b. storage h p = Some b \<and> snd (s_value s) + s_len s + s_scale s \<le> length b)"
    and "\<And>a a' s s' p. a \<in># R \<Longrightarrow> a' \<in># R \<Longrightarrow> structs h a = Some s \<Longrightarrow> structs h a' = Some s' \<Longrightarrow> s_ptr s = Some p \<Longrightarrow> s_ptr s' = Some p \<Longrightarrow> a = a'"
  shows "store_inv h R fl"
  unfolding store_inv_def not_None_eq using assms by (intro conjI) blast+

lemma store_inv_add:
  assumes inv: "store_inv h R fl" and a: "a \<notin># R" "a \<notin> set fl'" "a < n" "set fl' \<subseteq> set fl" "distinct fl'" "free_chain (structs h) f fl'"
    "next_struct h \<le> n" "insert a (dom (structs h)) = insert a (set fl' \<union> set_mset R)"
    and s: "s_refs s = 1" "s_ptr s = None \<or> s_ptr s = Some (next_storage h) \<and> fst (s_value s) = next_storage h \<and> snd (s_value s) + s_len s + s_scale s \<le> length b"
    and st: "st' = (if s_ptr s = None then storage h else (storage h)(next_storage h \<mapsto> b))" "m = (if s_ptr s = None then next_storage h else next_storage h + 1)"
    and h': "structs h' = (structs h)(a \<mapsto> s)" "bc_Free_list h' = f" "next_struct h' = n" "storage h' = st'" "next_storage h' = m"
  shows "store_inv h' (add_mset a R) fl'"
proof (rule store_invI, unfold h')
  have fresh: "\<And>p c. storage h p = Some c \<Longrightarrow> p \<noteq> next_storage h" using store_invD(7) [OF inv] by blast
  have held: "\<And>a' s' p. a' \<in># R \<Longrightarrow> structs h a' = Some s' \<Longrightarrow> s_ptr s' = Some p \<Longrightarrow> fst (s_value s') = p \<and> p \<noteq> next_storage h
      \<and> (\<exists>b. storage h p = Some b \<and> snd (s_value s') + s_len s' + s_scale s' \<le> length b)"
    using store_inv_ptr(1,2) [OF inv] fresh by metis
  show "free_chain ((structs h)(a \<mapsto> s)) f fl'" "distinct fl'" using a by auto
  show "dom ((structs h)(a \<mapsto> s)) = set fl' \<union> set_mset (add_mset a R)" using a(8) by simp
  show "set fl' \<inter> set_mset (add_mset a R) = {}" using a store_invD(4) [OF inv] by auto
  show "a' < n" if "((structs h)(a \<mapsto> s)) a' = Some s'" for a' s' using that store_invD(5) [OF inv, of a' s'] a(3,7) by (auto split: if_splits)
  show "s_refs s' = int (count (add_mset a R) a')" if "((structs h)(a \<mapsto> s)) a' = Some s'" "a' \<in># add_mset a R" for a' s'
    using that a(1) s(1) store_invD(6) [OF inv, of a' s'] by (auto split: if_splits simp: not_in_iff)
  show "p < m" if "st' p = Some c" for p c using that st store_invD(7) [OF inv, of p c] by (auto split: if_splits)
  show "\<exists>a'\<in>#add_mset a R. \<exists>s'. ((structs h)(a \<mapsto> s)) a' = Some s' \<and> s_ptr s' = Some p" if p: "st' p = Some c" for p c
  proof (cases "s_ptr s = Some p")
    case False
    then have "storage h p = Some c" using p st(1) s(2) by (auto split: if_splits)
    then obtain a' s' where "a' \<in># R" "structs h a' = Some s'" "s_ptr s' = Some p" using storage_owner [OF inv] by blast
    then show ?thesis using a(1) by (intro bexI [of _ a']) auto
  qed simp
  show "fst (s_value s') = p \<and> (\<exists>b. st' p = Some b \<and> snd (s_value s') + s_len s' + s_scale s' \<le> length b)"
    if "a' \<in># add_mset a R" "((structs h)(a \<mapsto> s)) a' = Some s'" "s_ptr s' = Some p" for a' s' p
    using that s(2) st(1) held [of a' s' p] by (auto split: if_splits)
  show "a' = a''" if "a' \<in># add_mset a R" "a'' \<in># add_mset a R" "((structs h)(a \<mapsto> s)) a' = Some s'" "((structs h)(a \<mapsto> s)) a'' = Some s''"
      "s_ptr s' = Some p" "s_ptr s'' = Some p" for a' a'' s' s'' p
    using that s(2) held [of a' s' p] held [of a'' s'' p] store_inv_ptr(3) [OF inv, of a'' s'' p a' s'] by (auto split: if_splits)
qed

text \<open>An operation that changes only the struct and the storage of one number that is held.\<close>

lemma store_inv_change:
  assumes inv: "store_inv h R fl" and a: "a \<in># R" "structs h a = Some s" and s': "s_ptr s' = s_ptr s" "a \<in># R' \<Longrightarrow> s_refs s' = int (count R' a)"
    and R': "set_mset R' = set_mset R" "\<And>b. b \<noteq> a \<Longrightarrow> count R' b = count R b"
    and st': "\<And>p c. storage h p = Some c \<Longrightarrow> \<exists>c'. st' p = Some c' \<and> length c' = length c" "\<And>p. storage h p = None \<Longrightarrow> st' p = None"
    and p: "s_ptr s \<noteq> None \<Longrightarrow> fst (s_value s') = fst (s_value s)" "snd (s_value s') + s_len s' + s_scale s' = snd (s_value s) + s_len s + s_scale s"
    and h': "structs h' = (structs h)(a \<mapsto> s')" "bc_Free_list h' = bc_Free_list h" "next_struct h' = next_struct h" "storage h' = st'" "next_storage h' = next_storage h"
  shows "store_inv h' R' fl"
proof (rule store_invI, unfold h')
  have notin: "a \<notin> set fl" using a store_invD(4) [OF inv] by auto
  then show "free_chain ((structs h)(a \<mapsto> s')) (bc_Free_list h) fl" using store_invD(1) [OF inv] by simp
  show "distinct fl" by (rule store_invD(2) [OF inv])
  show "dom ((structs h)(a \<mapsto> s')) = set fl \<union> set_mset R'" using store_invD(3) [OF inv] a R'(1) by auto
  show "set fl \<inter> set_mset R' = {}" using store_invD(4) [OF inv] R'(1) by simp
  show "b < next_struct h" if "((structs h)(a \<mapsto> s')) b = Some t" for b t using that store_invD(5) [OF inv] a(2) by (auto split: if_splits)
  show "s_refs t = int (count R' b)" if "((structs h)(a \<mapsto> s')) b = Some t" "b \<in># R'" for b t
    using that s'(2) R' store_invD(6) [OF inv, of b t] by (auto split: if_splits)
  show "p < next_storage h" if "st' p = Some c" for p c using that st'(2) [of p] store_invD(7) [OF inv] by (cases "storage h p") auto
  show "\<exists>b\<in>#R'. \<exists>t. ((structs h)(a \<mapsto> s')) b = Some t \<and> s_ptr t = Some p" if q: "st' p = Some c" for p c
  proof -
    obtain c' where "storage h p = Some c'" using q st'(2) [of p] by (cases "storage h p") auto
    then obtain b t where b: "b \<in># R" "structs h b = Some t" "s_ptr t = Some p" using storage_owner [OF inv] by blast
    then show ?thesis using a(2) s'(1) R'(1) by (intro bexI [of _ b]) auto
  qed
  show "fst (s_value t) = q \<and> (\<exists>c. st' q = Some c \<and> snd (s_value t) + s_len t + s_scale t \<le> length c)"
    if t: "b \<in># R'" "((structs h)(a \<mapsto> s')) b = Some t" "s_ptr t = Some q" for b t q
  proof (cases "b = a")
    case True
    then have "s_ptr s = Some q" using t s'(1) by simp
    then show ?thesis using store_inv_ptr(1,2) [OF inv a, of q] st'(1) [of q] p t(2) True by fastforce
  next
    case False
    then show ?thesis using store_inv_ptr(1,2) [OF inv, of b t q] st'(1) [of q] t R'(1) by fastforce
  qed
  show "b = b'" if t: "b \<in># R'" "b' \<in># R'" "((structs h)(a \<mapsto> s')) b = Some t" "((structs h)(a \<mapsto> s')) b' = Some t'" "s_ptr t = Some q" "s_ptr t' = Some q" for b b' t t' q
  proof -
    have old: "\<exists>t0. structs h c = Some t0 \<and> s_ptr t0 = Some q" if "((structs h)(a \<mapsto> s')) c = Some u" "s_ptr u = Some q" for c u
      using that s'(1) a(2) by (cases "c = a") auto
    obtain t0 t0' where "structs h b = Some t0" "s_ptr t0 = Some q" "structs h b' = Some t0'" "s_ptr t0' = Some q"
      using old [OF t(3,5)] old [OF t(4,6)] by blast
    then show ?thesis using store_inv_ptr(3) [OF inv, of b' t0' q b t0] t(1,2) R'(1) by blast
  qed
qed

text \<open>The last reference is dropped.\<close>

lemma store_inv_drop:
  assumes inv: "store_inv h R fl" and a: "a \<in># R" "structs h a = Some s" "count R a = 1" and s': "s_refs s' = 0" "s_next s' = bc_Free_list h"
    and h': "structs h' = (structs h)(a \<mapsto> s')" "bc_Free_list h' = Some a" "next_struct h' = next_struct h"
      "storage h' = (case s_ptr s of None \<Rightarrow> storage h | Some p \<Rightarrow> (storage h)(p := None))" "next_storage h' = next_storage h"
  shows "store_inv h' (R - {#a#}) (a # fl)"
proof (rule store_invI, unfold h')
  have notin: "a \<notin> set fl" using a store_invD(4) [OF inv] by auto
  have R': "set_mset (R - {#a#}) = set_mset R - {a}" using a(3) by (auto simp: set_eq_iff in_diff_count)
  have rest: "b \<in># R" "b \<noteq> a" "structs h b = Some t" if "b \<in># R - {#a#}" "((structs h)(a \<mapsto> s')) b = Some t" for b t
    using that unfolding R' by auto
  show "free_chain ((structs h)(a \<mapsto> s')) (Some a) (a # fl)" using store_invD(1) [OF inv] notin s' by simp
  show "distinct (a # fl)" using store_invD(2) [OF inv] notin by simp
  show "dom ((structs h)(a \<mapsto> s')) = set (a # fl) \<union> set_mset (R - {#a#})" unfolding R' using store_invD(3) [OF inv] a by auto
  show "set (a # fl) \<inter> set_mset (R - {#a#}) = {}" unfolding R' using store_invD(4) [OF inv] by auto
  show "b < next_struct h" if "((structs h)(a \<mapsto> s')) b = Some t" for b t using that store_invD(5) [OF inv] a(2) by (auto split: if_splits)
  show "s_refs t = int (count (R - {#a#}) b)" if "((structs h)(a \<mapsto> s')) b = Some t" "b \<in># R - {#a#}" for b t
    using rest [OF that(2,1)] store_invD(6) [OF inv, of b t] by simp
  let ?st = "case s_ptr s of None \<Rightarrow> storage h | Some p \<Rightarrow> (storage h)(p := None)"
  have st: "?st p = (if s_ptr s = Some p then None else storage h p)" for p by (auto split: option.split)
  show "p < next_storage h" if "?st p = Some c" for p c using that store_invD(7) [OF inv, of p c] by (simp add: st split: if_splits)
  show "\<exists>b\<in>#R - {#a#}. \<exists>t. ((structs h)(a \<mapsto> s')) b = Some t \<and> s_ptr t = Some p" if q: "?st p = Some c" for p c
  proof -
    have q': "s_ptr s \<noteq> Some p" "storage h p = Some c" using q by (simp_all add: st split: if_splits)
    then obtain b t where b: "b \<in># R" "structs h b = Some t" "s_ptr t = Some p" using storage_owner [OF inv] by blast
    then have "b \<noteq> a" using a(2) q'(1) by auto
    then show ?thesis using b R' by (intro bexI [of _ b]) auto
  qed
  show "fst (s_value t) = q \<and> (\<exists>c. ?st q = Some c \<and> snd (s_value t) + s_len t + s_scale t \<le> length c)"
    if t: "b \<in># R - {#a#}" "((structs h)(a \<mapsto> s')) b = Some t" "s_ptr t = Some q" for b t q
  proof -
    note b = rest [OF t(1,2)]
    then have "s_ptr s \<noteq> Some q" using store_inv_ptr(3) [OF inv b(1,3) t(3), of a s] a(1,2) b(2) by auto
    then show ?thesis using store_inv_ptr(1,2) [OF inv b(1,3) t(3)] by (simp add: st)
  qed
  show "b = b'" if "b \<in># R - {#a#}" "b' \<in># R - {#a#}" "((structs h)(a \<mapsto> s')) b = Some t" "((structs h)(a \<mapsto> s')) b' = Some t'" "s_ptr t = Some q" "s_ptr t' = Some q" for b b' t t' q
    using store_inv_ptr(3) [OF inv, of b' t' q b t] rest [OF that(1,3)] rest [OF that(2,4)] that(5,6) by simp
qed

section \<open>The numbers a caller sees\<close>

definition numbers :: "num_store \<Rightarrow> nat multiset \<Rightarrow> nat \<rightharpoonup> bc_num" where
  "numbers h R a = (if a \<in># R \<and> owned h a then number_at h a else None)"

text \<open>What the operations are to numbers that are values.\<close>

fun spec_step :: "store_op \<Rightarrow> nat option \<Rightarrow> nat multiset \<Rightarrow> (nat \<rightharpoonup> bc_num) \<Rightarrow> (nat \<rightharpoonup> bc_num)" where
  "spec_step (New len sc) (Some r) R m = m(r \<mapsto> bc_new_num len sc)"
| "spec_step (Free a) r R m = (if count R a = 1 then m(a := None) else m)"
| "spec_step (Set a i d) r R m = m(a := (case m a of Some n \<Rightarrow> Some (n\<lparr>n_value := (n_value n)[i := d]\<rparr>) | None \<Rightarrow> None))"
| "spec_step (Strip a) r R m = m(a := (case m a of Some n \<Rightarrow> bc_rm_leading_zeros n | None \<Rightarrow> None))"
| "spec_step op r R m = m"

lemma numbers_same:
  assumes "store_inv h R fl" and "b \<in># R" and "b \<in># R'" and "structs h b = Some s" and "structs h' b = Some (s\<lparr>s_refs := r\<rparr>)"
    and "\<And>p. s_ptr s = Some p \<Longrightarrow> storage h' p = storage h p"
  shows "numbers h' R' b = numbers h R b"
proof (cases "s_ptr s")
  case (Some p)
  then have "fst (s_value s) = p" using store_inv_ptr(1) [OF assms(1,2,4)] by simp
  then show ?thesis using assms Some by (simp add: numbers_def owned_def number_at_def)
qed (use assms in \<open>simp add: numbers_def owned_def\<close>)

text \<open>Every operation a caller is allowed to do is defined, keeps the memory well-formed, and is what it should be to the numbers.\<close>

definition steps_well :: "store_op \<Rightarrow> num_store \<Rightarrow> nat multiset \<Rightarrow> bool" where
  "steps_well op h R \<longleftrightarrow> (\<exists>r h'. perform op h = Some (r, h') \<and> store_ok h' (holders op r R)
     \<and> numbers h' (holders op r R) = spec_step op r R (numbers h R))"

lemma steps_wellI:
  "perform op h = Some (r, h') \<Longrightarrow> store_inv h' (holders op r R) fl \<Longrightarrow> (\<And>b. numbers h' (holders op r R) b = spec_step op r R (numbers h R) b)
   \<Longrightarrow> steps_well op h R"
  unfolding steps_well_def store_ok_def by blast

lemma numbers_not_held: "b \<notin># R \<Longrightarrow> numbers h R b = None" by (simp add: numbers_def)

lemma held_other:
  assumes "store_inv h R fl" and "structs h' = (structs h)(a := x)" and "\<And>p. storage h p \<noteq> None \<Longrightarrow> p \<noteq> q \<Longrightarrow> storage h' p = storage h p"
    and "b \<noteq> a" and "b \<in># R \<longleftrightarrow> b \<in># R'" and "\<And>s. b \<in># R \<Longrightarrow> structs h b = Some s \<Longrightarrow> s_ptr s \<noteq> Some q"
  shows "numbers h' R' b = numbers h R b"
proof (cases "b \<in># R")
  case True
  then obtain s where s: "structs h b = Some s" using held_struct [OF assms(1)] by metis
  show ?thesis
  proof (rule numbers_same [OF assms(1) True _ s, where r = "s_refs s"])
    show "structs h' b = Some (s\<lparr>s_refs := s_refs s\<rparr>)" using s assms(2,4) by simp
    show "storage h' p = storage h p" if "s_ptr s = Some p" for p
      using assms(3) [of p] assms(6) [OF True s] store_inv_ptr(2) [OF assms(1) True s that] that by auto
  qed (use True assms(5) in simp)
qed (use assms(5) in \<open>simp add: numbers_def\<close>)

lemma fresh_storage: "store_inv h R fl \<Longrightarrow> b \<in># R \<Longrightarrow> structs h b = Some s \<Longrightarrow> s_ptr s \<noteq> Some (next_storage h)"
  using store_inv_ptr(2) store_invD(7) by blast

lemma new_steps_well:
  assumes inv: "store_inv h R fl"
  shows "steps_well (New len sc) h R"
proof -
  obtain a fl' n f where t: "take_struct h = Some (a, h\<lparr>bc_Free_list := f, next_struct := n\<rparr>)" "a \<notin># R" "a \<notin> set fl'" "a < n"
    "set fl' \<subseteq> set fl" "distinct fl'" "free_chain (structs h) f fl'" "set fl = set fl' \<or> set fl = insert a (set fl')"
    "next_struct h \<le> n" "insert a (dom (structs h)) = insert a (set fl' \<union> set_mset R)"
    by (rule take_struct_spec [OF inv])
  define s where "s = \<lparr>s_sign = PLUS, s_len = len, s_scale = sc, s_refs = 1, s_next = old_next a h, s_ptr = Some (next_storage h), s_value = (next_storage h, 0)\<rparr>"
  define h' where "h' = h\<lparr>bc_Free_list := f, next_struct := n, structs := (structs h)(a \<mapsto> s),
    storage := (storage h)(next_storage h \<mapsto> replicate (len + sc) 0), next_storage := next_storage h + 1\<rparr>"
  show ?thesis
  proof (rule steps_wellI)
    show "perform (New len sc) h = Some (Some a, h')" using t(1) by (simp add: new_num_def Let_def h'_def s_def old_next_def)
    have "store_inv h' (add_mset a R) fl'"
      by (rule store_inv_add [OF inv t(2-7,9,10), where s = s and b = "replicate (len + sc) 0", OF _ _ refl refl]) (simp_all add: h'_def s_def)
    then show "store_inv h' (holders (New len sc) (Some a) R) fl'" by simp
    show "numbers h' (holders (New len sc) (Some a) R) b = spec_step (New len sc) (Some a) R (numbers h R) b" for b
    proof (cases "b = a")
      case True
      then show ?thesis by (simp add: numbers_def owned_def number_at_def h'_def s_def bc_new_num_def)
    next
      case False
      have "numbers h' (add_mset a R) b = numbers h R b"
        by (rule held_other [OF inv, where a = a and q = "next_storage h", OF _ _ False])
          (use False in \<open>simp_all add: h'_def fresh_storage [OF inv]\<close>)
      then show ?thesis using False by simp
    qed
  qed
qed

lemma sub_steps_well:
  assumes inv: "store_inv h R fl"
  shows "steps_well (Sub len sc v) h R"
proof -
  obtain a fl' n f where t: "take_struct h = Some (a, h\<lparr>bc_Free_list := f, next_struct := n\<rparr>)" "a \<notin># R" "a \<notin> set fl'" "a < n"
    "set fl' \<subseteq> set fl" "distinct fl'" "free_chain (structs h) f fl'" "set fl = set fl' \<or> set fl = insert a (set fl')"
    "next_struct h \<le> n" "insert a (dom (structs h)) = insert a (set fl' \<union> set_mset R)"
    by (rule take_struct_spec [OF inv])
  define s where "s = \<lparr>s_sign = PLUS, s_len = len, s_scale = sc, s_refs = 1, s_next = old_next a h, s_ptr = None, s_value = v\<rparr>"
  define h' where "h' = h\<lparr>bc_Free_list := f, next_struct := n, structs := (structs h)(a \<mapsto> s)\<rparr>"
  show ?thesis
  proof (rule steps_wellI)
    show "perform (Sub len sc v) h = Some (Some a, h')" using t(1) by (simp add: sub_num_def h'_def s_def old_next_def)
    have "store_inv h' (add_mset a R) fl'"
      by (rule store_inv_add [OF inv t(2-7,9,10), where s = s, OF _ _ refl refl]) (simp_all add: h'_def s_def)
    then show "store_inv h' (holders (Sub len sc v) (Some a) R) fl'" by simp
    show "numbers h' (holders (Sub len sc v) (Some a) R) b = spec_step (Sub len sc v) (Some a) R (numbers h R) b" for b
    proof (cases "b = a")
      case True
      then show ?thesis using t(2) by (simp add: numbers_def owned_def h'_def s_def)
    next
      case False
      have "numbers h' (add_mset a R) b = numbers h R b"
        by (rule held_other [OF inv, where a = a and q = "next_storage h", OF _ _ False])
          (use False in \<open>simp_all add: h'_def fresh_storage [OF inv]\<close>)
      then show ?thesis by simp
    qed
  qed
qed

lemma copy_steps_well:
  assumes inv: "store_inv h R fl" and a: "a \<in># R" "int (count R a) < INT_MAX"
  shows "steps_well (Copy a) h R"
proof -
  obtain s where s: "structs h a = Some s" "s_refs s = int (count R a)" using held_struct [OF inv a(1)] by metis
  define h' where "h' = h\<lparr>structs := (structs h)(a \<mapsto> s\<lparr>s_refs := s_refs s + 1\<rparr>)\<rparr>"
  show ?thesis
  proof (rule steps_wellI)
    show "perform (Copy a) h = Some (Some a, h')" using s a(2) by (simp add: copy_num_def h'_def)
    have "store_inv h' (add_mset a R) fl"
      by (rule store_inv_change [OF inv a(1) s(1), where s' = "s\<lparr>s_refs := s_refs s + 1\<rparr>" and st' = "storage h"]) (use s a(1) in \<open>auto simp: h'_def\<close>)
    then show "store_inv h' (holders (Copy a) (Some a) R) fl" by simp
    show "numbers h' (holders (Copy a) (Some a) R) b = spec_step (Copy a) (Some a) R (numbers h R) b" for b
    proof (cases "b = a")
      case True
      then show ?thesis using numbers_same [OF inv a(1) _ s(1), of "add_mset a R" h' "s_refs s + 1"] by (simp add: h'_def)
    next
      case False
      have "numbers h' (add_mset a R) b = numbers h R b"
        by (rule held_other [OF inv, where a = a and q = "next_storage h", OF _ _ False])
          (use False in \<open>simp_all add: h'_def fresh_storage [OF inv]\<close>)
      then show ?thesis by simp
    qed
  qed
qed

lemma free_last_well:
  assumes inv: "store_inv h R fl" and a: "a \<in># R" "count R a = 1"
  shows "steps_well (Free a) h R"
proof -
  obtain s where s: "structs h a = Some s" "s_refs s = int (count R a)" using held_struct [OF inv a(1)] by metis
  define st where "st = (case s_ptr s of None \<Rightarrow> storage h | Some p \<Rightarrow> (storage h)(p := None))"
  define h' where "h' = h\<lparr>storage := st, structs := (structs h)(a \<mapsto> s\<lparr>s_refs := 0, s_next := bc_Free_list h\<rparr>), bc_Free_list := Some a\<rparr>"
  have R': "b \<in># R - {#a#} \<longleftrightarrow> b \<in># R \<and> b \<noteq> a" for b using a(2) by (auto simp: in_diff_count)
  show ?thesis
  proof (rule steps_wellI)
    have "free_storage (s_ptr s) h = Some (h\<lparr>storage := st\<rparr>)"
      using store_inv_ptr(2) [OF inv a(1) s(1)] by (auto simp: free_storage_def st_def split: option.split)
    then show "perform (Free a) h = Some (None, h')" using s a(2) by (simp add: free_num_def Let_def h'_def)
    have "store_inv h' (R - {#a#}) (a # fl)"
      by (rule store_inv_drop [OF inv a(1) s(1) a(2), where s' = "s\<lparr>s_refs := 0, s_next := bc_Free_list h\<rparr>"]) (simp_all add: h'_def st_def)
    then show "store_inv h' (holders (Free a) None R) (a # fl)" by simp
    show "numbers h' (holders (Free a) None R) b = spec_step (Free a) None R (numbers h R) b" for b
    proof (cases "b = a \<or> b \<notin># R")
      case True
      then show ?thesis using a(2) R' by (auto simp: numbers_def)
    next
      case False
      have other: "s_ptr t = Some q \<Longrightarrow> s_ptr s \<noteq> Some q" if "structs h b = Some t" for t q
        using store_inv_ptr(3) [OF inv a(1) s(1), of q b t] that False by auto
      obtain t where t: "structs h b = Some t" using held_struct [OF inv] False by metis
      have "numbers h' (R - {#a#}) b = numbers h R b"
        by (rule numbers_same [OF inv _ _ t, where r = "s_refs t"]) (use False R' t other [OF t] in \<open>auto simp: h'_def st_def split: option.split\<close>)
      then show ?thesis using a(2) False by simp
    qed
  qed
qed

lemma free_shared_well:
  assumes inv: "store_inv h R fl" and a: "a \<in># R" "count R a \<noteq> 1"
  shows "steps_well (Free a) h R"
proof -
  obtain s where s: "structs h a = Some s" "s_refs s = int (count R a)" using held_struct [OF inv a(1)] by metis
  define h' where "h' = h\<lparr>structs := (structs h)(a \<mapsto> s\<lparr>s_refs := s_refs s - 1\<rparr>)\<rparr>"
  have many: "count R a > 1" using a by (metis One_nat_def Suc_lessI count_greater_zero_iff)
  have R': "set_mset (R - {#a#}) = set_mset R" using many a(1) by (auto simp: set_eq_iff in_diff_count)
  show ?thesis
  proof (rule steps_wellI)
    show "perform (Free a) h = Some (None, h')" using s many by (simp add: free_num_def Let_def h'_def)
    have "store_inv h' (R - {#a#}) fl"
      by (rule store_inv_change [OF inv a(1) s(1), where s' = "s\<lparr>s_refs := s_refs s - 1\<rparr>" and st' = "storage h"]) (use s many R' in \<open>simp_all add: h'_def\<close>)
    then show "store_inv h' (holders (Free a) None R) fl" by simp
    show "numbers h' (holders (Free a) None R) b = spec_step (Free a) None R (numbers h R) b" for b
    proof (cases "b = a")
      case True
      then show ?thesis using numbers_same [OF inv a(1) _ s(1), of "R - {#a#}" h' "s_refs s - 1"] a R' by (simp add: h'_def)
    next
      case False
      have "numbers h' (R - {#a#}) b = numbers h R b"
        by (rule held_other [OF inv, where a = a and q = "next_storage h", OF _ _ False])
          (use False R' in \<open>simp_all add: h'_def fresh_storage [OF inv]\<close>)
      then show ?thesis using a(2) by simp
    qed
  qed
qed

lemma set_steps_well:
  assumes inv: "store_inv h R fl" and al: "allowed (Set a i d) h R"
  shows "steps_well (Set a i d) h R"
proof -
  obtain n where a: "count R a = 1" "a \<in># R" "owned h a" "number_at h a = Some n" "i < length (n_value n)"
  proof -
    have "a \<in># R" using al by (intro count_inI) simp
    then show thesis using al that by (auto split: option.splits)
  qed
  obtain s p where s: "structs h a = Some s" "s_refs s = int (count R a)" "s_ptr s = Some p"
    using held_struct [OF inv a(2)] a(3) by (auto simp: owned_def split: option.splits)
  note p = store_inv_ptr(1) [OF inv a(2) s(1,3)]
  obtain b where b: "storage h p = Some b" "snd (s_value s) + s_len s + s_scale s \<le> length b" using store_inv_ptr(2) [OF inv a(2) s(1,3)] by blast
  define off where "off = snd (s_value s)"
  have v: "s_value s = (p, off)" using p by (auto simp: off_def)
  have n: "n = \<lparr>n_sign = s_sign s, n_len = s_len s, n_scale = s_scale s, n_value = drop off b\<rparr>" "off + i < length b"
    using a(4,5) s(1) b v by (auto simp: number_at_def)
  define h' where "h' = h\<lparr>storage := (storage h)(p \<mapsto> b[off + i := d])\<rparr>"
  show ?thesis
  proof (rule steps_wellI)
    show "perform (Set a i d) h = Some (None, h')" using s v b n(2) by (simp add: set_digit_def h'_def wr_nat of_nat_add [symmetric] del: of_nat_add)
    have "store_inv h' R fl"
      by (rule store_inv_change [OF inv a(2) s(1), where s' = s and st' = "(storage h)(p \<mapsto> b[off + i := d])"]) (use s b in \<open>auto simp: h'_def fun_upd_idem split: if_splits\<close>)
    then show "store_inv h' (holders (Set a i d) None R) fl" by simp
    show "numbers h' (holders (Set a i d) None R) c = spec_step (Set a i d) None R (numbers h R) c" for c
    proof (cases "c = a")
      case True
      have "number_at h' a = Some (n\<lparr>n_value := (n_value n)[i := d]\<rparr>)" using s v n by (simp add: number_at_def h'_def drop_update_swap)
      then show ?thesis using True a by (simp add: numbers_def) (simp add: owned_def h'_def)
    next
      case False
      have "numbers h' R c = numbers h R c"
        by (rule held_other [OF inv, where a = a and q = p and x = "Some s", OF _ _ False])
          (use False s store_inv_ptr(3) [OF inv a(2) s(1,3)] in \<open>auto simp: h'_def fun_upd_idem\<close>)
      then show ?thesis using False by simp
    qed
  qed
qed

lemma skip_leading_strip: "strip_zeros (drop off b) len = map_option (\<lambda>(i, l). (drop i b, l)) (skip_leading b off len)"
proof (induction b off len rule: skip_leading.induct)
  case (1 b off len)
  show ?case
  proof (cases "off < length b")
    case True
    then have "drop off b = b ! off # drop (off + 1) b" by (simp add: Cons_nth_drop_Suc)
    then show ?thesis using 1 True by (auto simp: skip_leading.simps [of b off])
  qed (simp add: skip_leading.simps [of b off])
qed

lemma skip_leading_ends:
  "off + len \<le> length b \<Longrightarrow> 0 < len \<Longrightarrow> \<exists>i l. skip_leading b off len = Some (i, l) \<and> i + l = off + len \<and> (len = 1 \<longrightarrow> i = off)"
proof (induction b off len rule: skip_leading.induct)
  case (1 b off len)
  show ?case
  proof (cases "b ! off = 0 \<and> len > 1")
    case True
    then show ?thesis using 1 by (auto simp: skip_leading.simps [of b off])
  qed (use 1 in \<open>auto simp: skip_leading.simps [of b off]\<close>)
qed

lemma strip_steps_well:
  assumes inv: "store_inv h R fl" and al: "allowed (Strip a) h R"
  shows "steps_well (Strip a) h R"
proof -
  obtain n where a: "a \<in># R" "number_at h a = Some n" "0 < n_len n" "n_len n \<le> length (n_value n)" using al by (auto split: option.splits)
  obtain s where s: "structs h a = Some s" "s_refs s = int (count R a)" using held_struct [OF inv a(1)] by metis
  obtain p off where v: "s_value s = (p, off)" by fastforce
  obtain b where b: "storage h p = Some b" and n: "n = \<lparr>n_sign = s_sign s, n_len = s_len s, n_scale = s_scale s, n_value = drop off b\<rparr>"
    using a(2) s(1) v by (auto simp: number_at_def split: bind_splits)
  obtain i l where l: "skip_leading b off (s_len s) = Some (i, l)" "i + l = off + s_len s"
  proof -
    have "off + s_len s \<le> length b" "0 < s_len s" using a(3,4) n by auto
    then show thesis using skip_leading_ends that by blast
  qed
  define s' where "s' = s\<lparr>s_value := (p, i), s_len := l\<rparr>"
  define h' where "h' = h\<lparr>structs := (structs h)(a \<mapsto> s')\<rparr>"
  show ?thesis
  proof (rule steps_wellI)
    show "perform (Strip a) h = Some (None, h')" using s v b l by (simp add: rm_leading_def h'_def s'_def)
    have "store_inv h' R fl"
      by (rule store_inv_change [OF inv a(1) s(1), where s' = s' and st' = "storage h"]) (use s v l in \<open>simp_all add: h'_def s'_def\<close>)
    then show "store_inv h' (holders (Strip a) None R) fl" by simp
    show "numbers h' (holders (Strip a) None R) c = spec_step (Strip a) None R (numbers h R) c" for c
    proof (cases "c = a")
      case True
      have "bc_rm_leading_zeros n = number_at h' a"
        using l(1) b skip_leading_strip [of off b "s_len s"] by (simp add: bc_rm_leading_zeros_def n number_at_def h'_def s'_def)
      moreover have "owned h' a = owned h a" using s by (simp add: owned_def h'_def s'_def)
      ultimately show ?thesis using True a(1,2) by (simp add: numbers_def)
    next
      case False
      have "numbers h' R c = numbers h R c"
        by (rule held_other [OF inv, where a = a and q = "next_storage h", OF _ _ False])
          (use False in \<open>simp_all add: h'_def fresh_storage [OF inv]\<close>)
      then show ?thesis using False by simp
    qed
  qed
qed

lemma allowed_steps_well:
  assumes "store_ok h R" and "allowed op h R"
  shows "steps_well op h R"
proof -
  obtain fl where inv: "store_inv h R fl" using assms(1) unfolding store_ok_def by blast
  show ?thesis
  proof (cases op)
    case (Free a)
    then show ?thesis using free_last_well [OF inv] free_shared_well [OF inv] assms(2) by (cases "count R a = 1") auto
  qed (use inv assms(2) in \<open>auto intro: new_steps_well sub_steps_well copy_steps_well set_steps_well strip_steps_well simp del: allowed.simps(5,6)\<close>)
qed

lemma empty_store_ok: "store_inv empty_store {#} []"
  by (rule store_invI) (simp_all add: empty_store_def)

definition first_store :: num_store where
  "first_store = \<lparr>structs = [1 \<mapsto> \<lparr>s_sign = PLUS, s_len = 1, s_scale = 0, s_refs = 1, s_next = None, s_ptr = Some 1, s_value = (1, 0)\<rparr>,
       2 \<mapsto> \<lparr>s_sign = PLUS, s_len = 1, s_scale = 0, s_refs = 1, s_next = None, s_ptr = Some 2, s_value = (2, 0)\<rparr>,
       3 \<mapsto> \<lparr>s_sign = PLUS, s_len = 1, s_scale = 0, s_refs = 1, s_next = None, s_ptr = Some 3, s_value = (3, 0)\<rparr>],
     storage = [1 \<mapsto> [0], 2 \<mapsto> [1], 3 \<mapsto> [2]], bc_Free_list = None, next_struct = 4, next_storage = 4,
     zero_num = 1, one_num = 2, two_num = 3\<rparr>"

lemma init_numbers_first: "init_numbers empty_store = Some first_store"
  by (simp add: init_numbers_def new_num_def take_struct_def set_digit_def old_next_def empty_store_def first_store_def Let_def wr_def eval_nat_numeral)

lemma first_store_ok: "store_inv first_store {#1, 2, 3#} []"
  by (rule store_invI) (auto simp: first_store_def split: if_splits)

lemma store_reach_inv: "store_reach h R \<Longrightarrow> store_ok h R"
proof (induction rule: store_reach.induct)
  case (reach_init h)
  then show ?case using first_store_ok by (auto simp: init_numbers_first store_ok_def) (auto simp: first_store_def)
next
  case (reach_step h R op r h')
  then show ?case using allowed_steps_well [OF reach_step.IH reach_step.hyps(2)] by (auto simp: steps_well_def)
qed

section \<open>Properties\<close>

text \<open>
  C15: In every memory that callers reach, when each frees and copies only what it holds, the free list is made of exactly
  the structs that nobody holds, each once; the count of every other struct is the number of its references; every
  digit storage in use belongs to exactly one number that is held (nothing leaks, nothing is shared by mistake); and
  every operation a caller is allowed to do is defined (no storage is freed twice, no freed struct is used).
\<close>

theorem store_reach_ok:
  assumes "store_reach h R"
  shows "(\<exists>fl. free_chain (structs h) (bc_Free_list h) fl \<and> distinct fl \<and> set fl = dom (structs h) - set_mset R)
    \<and> (\<forall>a\<in>#R. \<exists>s. structs h a = Some s \<and> s_refs s = int (count R a))
    \<and> (\<forall>p. storage h p \<noteq> None \<longrightarrow> (\<exists>!a. a \<in># R \<and> (\<exists>s. structs h a = Some s \<and> s_ptr s = Some p)))
    \<and> (allowed op h R \<longrightarrow> (\<exists>r h'. perform op h = Some (r, h') \<and> store_reach h' (holders op r R)))"
proof -
  obtain fl where inv: "store_inv h R fl" using store_reach_inv [OF assms] unfolding store_ok_def by blast
  have "set fl = dom (structs h) - set_mset R" using store_invD(3,4) [OF inv] by blast
  moreover have "\<exists>s. structs h a = Some s \<and> s_refs s = int (count R a)" if "a \<in># R" for a using held_struct [OF inv that] by metis
  moreover have "\<exists>!a. a \<in># R \<and> (\<exists>s. structs h a = Some s \<and> s_ptr s = Some p)" if "storage h p \<noteq> None" for p
    using that storage_owner [OF inv] store_inv_ptr(3) [OF inv] by (smt (verit) not_None_eq)
  moreover have "\<exists>r h'. perform op h = Some (r, h') \<and> store_reach h' (holders op r R)" if "allowed op h R"
    using allowed_steps_well [OF store_reach_inv [OF assms] that] reach_step [OF assms that] by (auto simp: steps_well_def)
  ultimately show ?thesis using store_invD(1,2) [OF inv] by blast
qed

lemma store_reach_first: "store_reach first_store {#1, 2, 3#}"
  using reach_init [OF init_numbers_first] by (simp add: first_store_def)

theorem store_reach_ok_witness:
  "\<exists>r h'. perform (Free 2) first_store = Some (r, h') \<and> store_reach h' {#1, 3#} \<and> bc_Free_list h' = Some 2 \<and> storage h' 2 = None"
proof -
  have "\<exists>r h'. perform (Free 2) first_store = Some (r, h') \<and> store_reach h' (holders (Free 2) r {#1, 2, 3#})"
    using store_reach_ok [OF store_reach_first, of "Free 2"] by simp
  moreover have "\<exists>h'. perform (Free 2) first_store = Some (None, h') \<and> bc_Free_list h' = Some 2 \<and> storage h' 2 = None"
    by (simp add: first_store_def free_num_def free_storage_def Let_def)
  ultimately show ?thesis by auto
qed

text \<open>
  C14: To the callers the counted references are plain values: in every memory they reach, an allowed operation changes
  the numbers that are held as the same operation changes values. A new number is the zero of its lengths, dropping
  the last reference removes a number, copying one changes nothing, setting a digit and removing leading zeros change
  that number alone; all the other numbers keep sign, lengths and digits.
\<close>

theorem store_refines_values:
  assumes "store_reach h R" and "allowed op h R"
  shows "\<exists>r h'. perform op h = Some (r, h') \<and> numbers h' (holders op r R) = spec_step op r R (numbers h R)"
  using allowed_steps_well [OF store_reach_inv [OF assms(1)] assms(2)] by (auto simp: steps_well_def)

theorem store_refines_values_witness:
  "\<exists>r h'. perform (New 2 1) first_store = Some (r, h') \<and> r = Some 4 \<and> numbers h' {#4, 1, 2, 3#} 4 = Some (bc_new_num 2 1) \<and> numbers h' {#4, 1, 2, 3#} 3 = Some bc_two"
proof -
  obtain r h' where r: "perform (New 2 1) first_store = Some (r, h')" "numbers h' (holders (New 2 1) r {#1, 2, 3#}) = spec_step (New 2 1) r {#1, 2, 3#} (numbers first_store {#1, 2, 3#})"
    using store_refines_values [OF store_reach_first, of "New 2 1"] by auto
  have "r = Some 4" using r(1) by (auto simp: new_num_def take_struct_def first_store_def Let_def)
  moreover have "numbers first_store {#1, 2, 3#} 3 = Some bc_two" by (simp add: numbers_def owned_def number_at_def first_store_def bc_two_def bc_new_num_def Let_def)
  ultimately show ?thesis using r by simp
qed

end
