(* ===== verification/BcMachine.thy ===== *)
theory BcMachine
  imports BcOps
begin

text \<open>
  Straight-line code against a machine on rational numbers: its state is a stack of rationals and the values of the
  variables. The code of a list of instructions, run by \<open>exec_loop\<close>, takes the steps of that machine, or stops
  with a runtime error at an instruction that the machine has no step for (a division by zero).
\<close>

section \<open>The machine on rationals\<close>

datatype instr = Op char | Num "int list" "int list" | Load nat | Store nat | Incr nat | Decr nat

fun instr_code :: "instr \<Rightarrow> char list" where
  "instr_code (Op c) = [c]"
| "instr_code (Num ds fs) = CHR ''K'' # const_code ds fs"
| "instr_code (Load v) = CHR ''l'' # name_code v"
| "instr_code (Store v) = CHR ''s'' # name_code v"
| "instr_code (Incr v) = CHR ''i'' # name_code v"
| "instr_code (Decr v) = CHR ''d'' # name_code v"

definition instrs_code :: "instr list \<Rightarrow> char list" where
  "instrs_code is = concat (map instr_code is)"

type_synonym rat_state = "rat list \<times> (nat \<Rightarrow> rat)"

definition cmp_ops :: string where "cmp_ops = ''=#<{>}''"

definition logic_ops :: string where "logic_ops = ''&|''"

inductive rat_step :: "nat \<Rightarrow> instr \<Rightarrow> rat_state \<Rightarrow> rat_state \<Rightarrow> bool" for k where
  step_arith: "arith_val k c a b r \<Longrightarrow> rat_step k (Op c) (b # a # st, e) (r # st, e)"
| step_cmp: "c \<in> set cmp_ops \<Longrightarrow> rat_step k (Op c) (b # a # st, e) (of_bool (cmp_test c a b) # st, e)"
| step_and: "rat_step k (Op (CHR ''&'')) (b # a # st, e) (of_bool (a \<noteq> 0 \<and> b \<noteq> 0) # st, e)"
| step_or: "rat_step k (Op (CHR ''|'')) (b # a # st, e) (of_bool (a \<noteq> 0 \<or> b \<noteq> 0) # st, e)"
| step_not: "rat_step k (Op (CHR ''!'')) (a # st, e) (of_bool (a = 0) # st, e)"
| step_neg: "rat_step k (Op (CHR ''n'')) (a # st, e) (- a # st, e)"
| step_dup: "rat_step k (Op (CHR ''D'')) (a # st, e) (a # a # st, e)"
| step_pop: "rat_step k (Op (CHR ''p'')) (a # st, e) (st, e)"
| step_exchange: "rat_step k (Op (CHR ''x'')) (b # a # st, e) (a # b # st, e)"
| step_zero: "rat_step k (Op (CHR ''0'')) (st, e) (0 # st, e)"
| step_one: "rat_step k (Op (CHR ''1'')) (st, e) (1 # st, e)"
| step_num: "rat_step k (Num ds fs) (st, e) (of_int (dval (ds @ fs)) / 10 ^ length fs # st, e)"
| step_load: "rat_step k (Load v) (st, e) (e v # st, e)"
| step_store: "rat_step k (Store v) (a # st, e) (a # st, e(v := a))"
| step_incr: "rat_step k (Incr v) (st, e) (st, e(v := e v + 1))"
| step_decr: "rat_step k (Decr v) (st, e) (st, e(v := e v - 1))"

inductive rat_steps :: "nat \<Rightarrow> instr list \<Rightarrow> rat_state \<Rightarrow> rat_state \<Rightarrow> bool" for k where
  steps_none: "rat_steps k [] a a"
| steps_some: "rat_step k i a b \<Longrightarrow> rat_steps k is b c \<Longrightarrow> rat_steps k (i # is) a c"

inductive_simps rat_steps_simps: "rat_steps k [] a c" "rat_steps k (i # is) a c"

text \<open>The steps for \<open>is\<close> end in front of an instruction that the machine has no step for.\<close>

definition rat_stuck :: "nat \<Rightarrow> instr list \<Rightarrow> rat_state \<Rightarrow> rat_state \<Rightarrow> bool" where
  "rat_stuck k is a b \<longleftrightarrow> (\<exists>done i rest. is = done @ i # rest \<and> rat_steps k done a b \<and> \<not> (\<exists>c. rat_step k i b c))"

lemma rat_stuck_Cons: "rat_step k i a b \<Longrightarrow> rat_stuck k is b c \<Longrightarrow> rat_stuck k (i # is) a c"
  unfolding rat_stuck_def by (metis append_Cons steps_some)

inductive_cases rat_step_divE: "rat_step k (Op (CHR ''/'')) a b"
inductive_cases rat_step_modE: "rat_step k (Op (CHR ''%'')) a b"

section \<open>Code that fits the stack\<close>

definition two_ops :: string where "two_ops = arith_ops @ cmp_ops @ logic_ops"

text \<open>How many operands an instruction takes and how many results it leaves.\<close>

fun stack_use :: "instr \<Rightarrow> (nat \<times> nat) option" where
  "stack_use (Op c) = (if c \<in> set two_ops then Some (2, 1) else if c = CHR ''!'' \<or> c = CHR ''n'' then Some (1, 1)
     else if c = CHR ''D'' then Some (1, 2) else if c = CHR ''p'' then Some (1, 0) else if c = CHR ''x'' then Some (2, 2)
     else if c = CHR ''0'' \<or> c = CHR ''1'' then Some (0, 1) else None)"
| "stack_use (Num ds fs) = (if digits (ds @ fs) \<and> ds @ fs \<noteq> [] \<and> (length ds = 1 \<or> ds = [] \<or> hd ds \<noteq> 0) then Some (0, 1) else None)"
| "stack_use (Load v) = Some (0, 1)"
| "stack_use (Store v) = Some (1, 1)"
| "stack_use (Incr v) = Some (0, 0)"
| "stack_use (Decr v) = Some (0, 0)"

fun fits :: "nat \<Rightarrow> instr list \<Rightarrow> bool" where
  "fits n [] = True"
| "fits n (i # is) = (case stack_use i of Some (need, leave) \<Rightarrow> need \<le> n \<and> fits (n - need + leave) is | None \<Rightarrow> False)"

fun instr_var :: "instr \<Rightarrow> nat option" where
  "instr_var (Load v) = Some v"
| "instr_var (Store v) = Some v"
| "instr_var (Incr v) = Some v"
| "instr_var (Decr v) = Some v"
| "instr_var (Op c) = None"
| "instr_var (Num ds fs) = None"

section \<open>The states in relation\<close>

definition const_base :: "bc_state \<Rightarrow> int option" where
  "const_base s = (if pc_func (pc s) = 0 then Some (i_base s) else (case fn_stack s of v # vs \<Rightarrow> Some v | [] \<Rightarrow> None))"

text \<open>The machine is ready for straight-line code that uses the variables \<open>V\<close>.\<close>

definition ready :: "nat set \<Rightarrow> bc_state \<Rightarrow> bool" where
  "ready V s \<longleftrightarrow> (\<forall>x \<in> set (ex_stack s). bc_canon x) \<and> vars_ok s \<and> const_base s = Some 10
     \<and> (\<forall>v \<in> V. 3 < v \<and> v < 32768 \<and> var_live v s) \<and> \<not> runtime_error s \<and> \<not> had_sigint s \<and> exited s = None"

definition rats :: "bc_state \<Rightarrow> rat_state" where
  "rats s = (map bc_val (ex_stack s), \<lambda>v. bc_val (var_val s v))"

text \<open>What straight-line code leaves alone; of the variables it is where they are, and which of them are not set at all.\<close>

definition var_shape :: "(nat \<rightharpoonup> bc_var) \<Rightarrow> nat \<Rightarrow> bool option" where
  "var_shape vs = (\<lambda>k. map_option (\<lambda>v. v = Var_junk) (vs k))"

lemma var_shapeD:
  assumes "var_shape (variables t) = var_shape (variables s)"
  shows "dom (variables t) = dom (variables s)" "variables t k = Some Var_junk \<longleftrightarrow> variables s k = Some Var_junk"
proof -
  have e: "map_option (\<lambda>v. v = Var_junk) (variables t k) = map_option (\<lambda>v. v = Var_junk) (variables s k)" for k
    using assms by (simp add: var_shape_def fun_eq_iff)
  have "variables t k = None \<longleftrightarrow> variables s k = None" for k using e [of k] by (cases "variables t k"; cases "variables s k") simp_all
  then show "dom (variables t) = dom (variables s)" by (simp add: dom_def)
  show "variables t k = Some Var_junk \<longleftrightarrow> variables s k = Some Var_junk"
    using e [of k] by (cases "variables t k"; cases "variables s k") auto
qed

definition same_machine :: "bc_state \<Rightarrow> bc_state \<Rightarrow> bool" where
  "same_machine s t \<longleftrightarrow> bc_functions t = bc_functions s \<and> fn_stack t = fn_stack s \<and> i_base t = i_base s \<and> scale t = scale s
     \<and> o_base t = o_base s \<and> pc_func (pc t) = pc_func (pc s) \<and> arrays t = arrays s \<and> a_heap t = a_heap s
     \<and> stdout_chars t = stdout_chars s \<and> f_count t = f_count s \<and> v_count t = v_count s \<and> a_count t = a_count s
     \<and> std_only t = std_only s \<and> compile_only t = compile_only s \<and> use_math t = use_math s \<and> var_shape (variables t) = var_shape (variables s)"

section \<open>One instruction\<close>

lemma skip_code_sel [simp]:
  "ex_stack (skip_code n s) = ex_stack s" "scale (skip_code n s) = scale s" "variables (skip_code n s) = variables s"
  "pc_func (pc (skip_code n s)) = pc_func (pc s)" "pc_addr (pc (skip_code n s)) = pc_addr (pc s) + n"
  "bc_functions (skip_code n s) = bc_functions s" "runtime_error (skip_code n s) = runtime_error s"
  "fn_stack (skip_code n s) = fn_stack s" "i_base (skip_code n s) = i_base s" "o_base (skip_code n s) = o_base s"
  "exited (skip_code n s) = exited s" "had_sigint (skip_code n s) = had_sigint s"
  by (simp_all add: skip_code_def)


lemma exec_inst_arith: "c \<in> set arith_ops \<Longrightarrow> exec_inst c s = exec_arith c s"
  unfolding arith_ops_def by (simp, elim disjE) (simp_all add: exec_inst_def exec_named_def)

lemma exec_inst_cmp: "c \<in> set cmp_ops \<Longrightarrow> exec_inst c s = exec_compare c s"
  unfolding cmp_ops_def by (simp, elim disjE) (simp_all add: exec_inst_def exec_named_def)

lemma exec_inst_logic: "c \<in> set logic_ops \<Longrightarrow> exec_inst c s = exec_logic c s"
  unfolding logic_ops_def by (simp, elim disjE) (simp_all add: exec_inst_def exec_named_def)

lemma exec_inst_plain:
  "exec_inst (CHR ''!'') s = exec_test s" "exec_inst (CHR ''p'') s = Some (pop s)" "exec_inst (CHR ''x'') s = exec_exchange s"
  "exec_inst (CHR ''0'') s = Some (push_copy bc_zero s)" "exec_inst (CHR ''1'') s = Some (push_copy bc_one s)"
  "exec_inst (CHR ''D'') s = do { x \<leftarrow> tos s; Some (push_copy x s) }"
  "exec_inst (CHR ''n'') s = do { x \<leftarrow> tos s; r \<leftarrow> bc_sub bc_zero x 0; set_tos r s }" "exec_inst (CHR ''K'') s = exec_const s"
  by (simp_all add: exec_inst_def exec_named_def)

lemma exec_inst_name:
  "exec_inst (CHR ''l'') = with_name load_var" "exec_inst (CHR ''s'') = with_name store_var"
  "exec_inst (CHR ''i'') = with_name incr_var" "exec_inst (CHR ''d'') = with_name decr_var"
  by (simp_all add: fun_eq_iff exec_inst_def exec_named_def)

text \<open>The effect of an instruction on the stack alone.\<close>

definition op_done :: "char \<Rightarrow> nat \<Rightarrow> bc_state \<Rightarrow> bool" where
  "op_done c l s \<longleftrightarrow> (\<exists>st cc. exec_inst c s = Some (s\<lparr>c_code := cc, ex_stack := st\<rparr>) \<and> (\<forall>x \<in> set st. bc_canon x)
     \<and> length st = l \<and> (\<forall>e. rat_step (nat (scale s)) (Op c) (map bc_val (ex_stack s), e) (map bc_val st, e)))"

lemma same_code: "s\<lparr>ex_stack := st\<rparr> = s\<lparr>c_code := c_code s, ex_stack := st\<rparr>"
  by simp

lemma two_cases: "2 \<le> length xs \<Longrightarrow> (\<And>b a st. xs = b # a # st \<Longrightarrow> P) \<Longrightarrow> P"
  by (cases xs rule: list.exhaust; cases "tl xs") auto

lemma one_case: "1 \<le> length xs \<Longrightarrow> (\<And>a st. xs = a # st \<Longrightarrow> P) \<Longrightarrow> P"
  by (cases xs) auto

lemma op_two:
  assumes op: "c \<in> set two_ops" and n: "2 \<le> length (ex_stack s)" and canon: "\<forall>x \<in> set (ex_stack s). bc_canon x"
    and nz: "c \<in> {CHR ''/'', CHR ''%''} \<Longrightarrow> bc_val (hd (ex_stack s)) \<noteq> 0"
  shows "op_done c (length (ex_stack s) - 1) s"
proof -
  obtain b a st where st: "ex_stack s = b # a # st" using n by (rule two_cases)
  have c: "bc_canon a" "bc_canon b" "\<forall>x \<in> set st. bc_canon x" using canon st by auto
  consider "c \<in> set arith_ops" | "c \<in> set cmp_ops" | "c \<in> set logic_ops" using op by (auto simp: two_ops_def)
  then show ?thesis
  proof cases
    case 1
    obtain r where r: "exec_arith c s = Some (s\<lparr>ex_stack := r # st\<rparr>)" "bc_canon r"
      "arith_val (nat (scale s)) c (bc_val a) (bc_val b) (bc_val r)"
      using exec_arith_spec [OF st c(1,2) 1] nz st by auto
    show ?thesis unfolding op_done_def exec_inst_arith [OF 1]
      using r c(3) st step_arith [OF r(3)] by (intro exI [of _ "r # st"] exI [of _ "c_code s"]) simp
  next
    case 2
    then show ?thesis unfolding op_done_def exec_inst_cmp [OF 2] exec_compare_spec [OF st c(1,2) 2 [unfolded cmp_ops_def]]
      using c(3) st step_cmp [OF 2] by (intro exI [of _ "truth (cmp_test c (bc_val a) (bc_val b)) # st"] exI) (auto simp del: cmp_test.simps)
  next
    case 3
    let ?t = "if c = CHR ''&'' then bc_val a \<noteq> 0 \<and> bc_val b \<noteq> 0 else bc_val a \<noteq> 0 \<or> bc_val b \<noteq> 0"
    have "rat_step k (Op c) (bc_val b # bc_val a # map bc_val st, e) (of_bool ?t # map bc_val st, e)" for k e
      using 3 [unfolded logic_ops_def] step_and [of k "bc_val b" "bc_val a"] step_or [of k "bc_val b" "bc_val a"] by auto
    then show ?thesis unfolding op_done_def exec_inst_logic [OF 3] exec_logic_spec [OF st c(1,2) 3 [unfolded logic_ops_def] refl]
      using c(3) st by (intro exI [of _ "truth ?t # st"] exI [of _ ?t]) (auto simp del: of_bool_eq_iff)
  qed
qed

lemma stack_use_ops:
  "stack_use (Op (CHR ''!'')) = Some (1, 1)" "stack_use (Op (CHR ''n'')) = Some (1, 1)" "stack_use (Op (CHR ''D'')) = Some (1, 2)"
  "stack_use (Op (CHR ''p'')) = Some (1, 0)" "stack_use (Op (CHR ''x'')) = Some (2, 2)"
  "stack_use (Op (CHR ''0'')) = Some (0, 1)" "stack_use (Op (CHR ''1'')) = Some (0, 1)"
  by (simp_all add: two_ops_def arith_ops_def cmp_ops_def logic_ops_def)

lemma op_one:
  assumes op: "c \<in> set ''!nDp''" and n: "1 \<le> length (ex_stack s)" and canon: "\<forall>x \<in> set (ex_stack s). bc_canon x"
    and u: "stack_use (Op c) = Some (1, l)"
  shows "op_done c (length (ex_stack s) - 1 + l) s"
proof -
  obtain a st where st: "ex_stack s = a # st" using n by (rule one_case)
  have c: "bc_canon a" "\<forall>x \<in> set st. bc_canon x" using canon st by auto
  consider "c = CHR ''!''" | "c = CHR ''n''" | "c = CHR ''D''" | "c = CHR ''p''" using op by auto
  then show ?thesis
  proof cases
    case 1
    have "op_done (CHR ''!'') (length (ex_stack s)) s" unfolding op_done_def exec_inst_plain exec_test_spec [OF st c(1) refl]
      using c(2) st step_not by (intro exI [of _ "truth (bc_val a = 0) # st"] exI) auto
    moreover have "l = 1" using 1 u by (auto simp: stack_use_ops simp del: stack_use.simps)
    ultimately show ?thesis using 1 st by simp
  next
    case 2
    obtain r where r: "bc_sub bc_zero a 0 = Some r" "bc_canon r" "bc_val r = - bc_val a"
      using bc_sub_spec [OF bc_zero_props(1) c(1), of 0] by auto
    have "op_done (CHR ''n'') (length (ex_stack s)) s" unfolding op_done_def exec_inst_plain
      using r c(2) st step_neg [of _ "bc_val a"] by (intro exI [of _ "r # st"] exI [of _ "c_code s"]) (simp add: tos_def set_tos_def)
    moreover have "l = 1" using 2 u by (auto simp: stack_use_ops simp del: stack_use.simps)
    ultimately show ?thesis using 2 st by simp
  next
    case 3
    have "op_done (CHR ''D'') (length (ex_stack s) + 1) s" unfolding op_done_def exec_inst_plain
      using c st step_dup by (intro exI [of _ "a # a # st"] exI [of _ "c_code s"]) (simp add: tos_def push_copy_def)
    moreover have "l = 2" using 3 u by (auto simp: stack_use_ops simp del: stack_use.simps)
    ultimately show ?thesis using 3 st by simp
  next
    case 4
    have "op_done (CHR ''p'') (length (ex_stack s) - 1) s" unfolding op_done_def exec_inst_plain
      using c st step_pop by (intro exI [of _ st] exI [of _ "c_code s"]) (simp add: pop_def)
    moreover have "l = 0" using 4 u by (auto simp: stack_use_ops simp del: stack_use.simps)
    ultimately show ?thesis using 4 st by simp
  qed
qed

lemma op_rest:
  assumes canon: "\<forall>x \<in> set (ex_stack s). bc_canon x"
  shows "op_done (CHR ''0'') (length (ex_stack s) + 1) s" "op_done (CHR ''1'') (length (ex_stack s) + 1) s"
    "2 \<le> length (ex_stack s) \<Longrightarrow> op_done (CHR ''x'') (length (ex_stack s)) s"
proof -
  show "op_done (CHR ''0'') (length (ex_stack s) + 1) s" unfolding op_done_def exec_inst_plain
    using canon step_zero by (intro exI [of _ "bc_zero # ex_stack s"] exI [of _ "c_code s"]) (simp add: push_copy_def)
  show "op_done (CHR ''1'') (length (ex_stack s) + 1) s" unfolding op_done_def exec_inst_plain
    using canon step_one by (intro exI [of _ "bc_one # ex_stack s"] exI [of _ "c_code s"]) (simp add: push_copy_def)
  assume "2 \<le> length (ex_stack s)"
  then obtain b a st where st: "ex_stack s = b # a # st" by (rule two_cases)
  show "op_done (CHR ''x'') (length (ex_stack s)) s" unfolding op_done_def exec_inst_plain
    using canon st step_exchange by (intro exI [of _ "a # b # st"] exI [of _ "c_code s"]) (simp add: exec_exchange_def two_operands [OF st])
qed

text \<open>An instruction without operand in the code is done, or divides by zero.\<close>

lemma exec_op:
  assumes u: "stack_use (Op c) = Some (n, l)" and n: "n \<le> length (ex_stack s)" and canon: "\<forall>x \<in> set (ex_stack s). bc_canon x"
  shows "op_done c (length (ex_stack s) - n + l) s
       \<or> (\<exists>m. exec_inst c s = Some (rt_error m s) \<and> \<not> (\<exists>e a. rat_step (nat (scale s)) (Op c) (map bc_val (ex_stack s), e) a))"
proof -
  consider "c \<in> set two_ops" | "c \<in> set ''!nDp''" | "c = CHR ''x''" | "c = CHR ''0'' \<or> c = CHR ''1''"
    using u by (auto split: if_splits)
  then show ?thesis
  proof cases
    case 1
    then have nl: "n = 2" "l = 1" using u by auto
    show ?thesis
    proof (cases "c \<in> {CHR ''/'', CHR ''%''} \<and> bc_val (hd (ex_stack s)) = 0")
      case True
      obtain b a st where st: "ex_stack s = b # a # st" using n nl by (auto intro: two_cases)
      have "bc_canon b" "bc_val b = 0" using canon st True by auto
      note z = exec_arith_zero [OF st this]
      have "\<not> rat_step (nat (scale s)) (Op c) (map bc_val (ex_stack s), e) x" for e x
        using True st \<open>bc_val b = 0\<close> by (auto elim!: rat_step_divE rat_step_modE simp: arith_val_simps cmp_ops_def)
      then show ?thesis using True z exec_inst_arith [of c s] by (auto simp: arith_ops_def)
    next
      case False
      have "op_done c (length (ex_stack s) - 1) s" by (rule op_two [OF 1 _ canon]) (use False n nl in auto)
      moreover have "length (ex_stack s) - n + l = length (ex_stack s) - 1" using n nl by simp
      ultimately show ?thesis by simp
    qed
  next
    case 2
    then have "n = 1" using u by (auto simp: stack_use_ops simp del: stack_use.simps)
    then show ?thesis using op_one [OF 2 _ canon] n u by blast
  next
    case 3
    then have nl: "n = 2" "l = 2" using u by (auto simp: stack_use_ops simp del: stack_use.simps)
    then have "length (ex_stack s) - n + l = length (ex_stack s)" using n by simp
    then show ?thesis using 3 op_rest(3) [OF canon] n nl by simp
  next
    case 4
    then show ?thesis using op_rest(1,2) [OF canon] u by (auto simp: stack_use_ops simp del: stack_use.simps)
  qed
qed

section \<open>One step\<close>

lemma var_live_cong: "variables t = variables s \<Longrightarrow> var_live v t = var_live v s"
  by (simp add: var_live_def)

lemma vars_cong: "variables t = variables s \<Longrightarrow> vars_ok t = vars_ok s \<and> var_val t = var_val s"
  by (simp add: vars_ok_def var_val_def fun_eq_iff)

lemma ready_stack:
  assumes "ready V s" and "\<forall>x \<in> set st. bc_canon x"
  shows "ready V (skip_code n (s\<lparr>c_code := cc, ex_stack := st\<rparr>))" "same_machine s (skip_code n (s\<lparr>c_code := cc, ex_stack := st\<rparr>))"
    "rats (skip_code n (s\<lparr>c_code := cc, ex_stack := st\<rparr>)) = (map bc_val st, snd (rats s))"
  using assms by (simp_all add: ready_def same_machine_def rats_def skip_code_def const_base_def vars_ok_def var_live_def var_val_def split: if_splits)

text \<open>What a step of straight-line code is: the machine on rationals takes it, or there is an error.\<close>

definition step_ok :: "nat set \<Rightarrow> instr \<Rightarrow> nat \<Rightarrow> bc_state \<Rightarrow> bc_state \<Rightarrow> bool" where
  "step_ok V i len s t \<longleftrightarrow> ready V t \<and> same_machine s t \<and> pc_addr (pc t) = pc_addr (pc s) + length (instr_code i)
     \<and> length (ex_stack t) = len \<and> rat_step (nat (scale s)) i (rats s) (rats t)"

definition step_error :: "instr \<Rightarrow> bc_state \<Rightarrow> bc_state \<Rightarrow> bool" where
  "step_error i s t \<longleftrightarrow> same_machine s t \<and> runtime_error t \<and> exited t = None \<and> rats t = rats s \<and> \<not> (\<exists>a. rat_step (nat (scale s)) i (rats s) a)"

lemma step_op:
  assumes cd: "code_at (instr_code (Op c) @ cs) s" and r: "ready V s" and u: "stack_use (Op c) = Some (n, l)" and n: "n \<le> length (ex_stack s)"
  shows "\<exists>t. exec_step s = Some t \<and> (step_ok V (Op c) (length (ex_stack s) - n + l) s t \<or> step_error (Op c) s t)"
proof -
  let ?s = "skip_code 1 s"
  have f: "next_byte s = Some (c, ?s)" using next_byte_code(1) [of c cs s] cd by simp
  have st: "ex_stack ?s = ex_stack s" "scale ?s = scale s" by (simp_all add: skip_code_def)
  have canon: "\<forall>x \<in> set (ex_stack ?s). bc_canon x" using r by (simp add: ready_def st)
  have rats: "rats s = (map bc_val (ex_stack s), snd (rats s))" by (simp add: rats_def)
  have upd: "?s\<lparr>c_code := cc, ex_stack := st\<rparr> = skip_code 1 (s\<lparr>c_code := cc, ex_stack := st\<rparr>)" for cc st by (simp add: skip_code_def)
  consider "op_done c (length (ex_stack s) - n + l) ?s"
    | m where "exec_inst c ?s = Some (rt_error m ?s)" "\<not> (\<exists>e a. rat_step (nat (scale s)) (Op c) (map bc_val (ex_stack s), e) a)"
    using exec_op [OF u _ canon] n unfolding st by blast
  then show ?thesis
  proof cases
    case 1
    then obtain st' cc where d: "exec_inst c ?s = Some (?s\<lparr>c_code := cc, ex_stack := st'\<rparr>)" "\<forall>x \<in> set st'. bc_canon x"
      "length st' = length (ex_stack s) - n + l" "\<And>e. rat_step (nat (scale s)) (Op c) (map bc_val (ex_stack s), e) (map bc_val st', e)"
      unfolding op_done_def st by blast
    have "step_ok V (Op c) (length (ex_stack s) - n + l) s (skip_code 1 (s\<lparr>c_code := cc, ex_stack := st'\<rparr>))"
      unfolding step_ok_def using ready_stack [OF r d(2), of 1 cc] d(3) d(4) [of "snd (rats s)"] rats by (simp add: skip_code_def)
    then show ?thesis using f d(1) upd by (simp add: exec_step_def)
  next
    case 2
    have "step_error (Op c) s (rt_error m ?s)"
      using 2(2) r by (subst step_error_def) (auto simp: rats_def same_machine_def rt_error_def skip_code_def ready_def var_val_def)
    then show ?thesis using f 2(1) by (simp add: exec_step_def)
  qed
qed

lemma step_num:
  assumes cd: "code_at (instr_code (Num ds fs) @ cs) s" and r: "ready V s" and u: "stack_use (Num ds fs) \<noteq> None"
  shows "\<exists>t. exec_step s = Some t \<and> step_ok V (Num ds fs) (length (ex_stack s) + 1) s t"
proof -
  let ?s = "skip_code 1 s" and ?x = "num_of PLUS (if ds = [] then [0] else ds) fs"
  have d: "digits (ds @ fs)" "ds @ fs \<noteq> []" "length ds = 1 \<or> ds = [] \<or> hd ds \<noteq> 0" using u by (auto split: if_splits)
  have cd': "code_at (CHR ''K'' # const_code ds fs @ cs) s" using cd by simp
  note f = next_byte_code [OF cd']
  have "const_base ?s = Some 10" using r by (simp add: ready_def const_base_def split: if_splits)
  then have "exec_const ?s = push_b10_const ?s" by (auto simp: exec_const_def const_base_def split: if_splits list.splits)
  also have "\<dots> = Some (push_num ?x (skip_code (length (const_code ds fs)) ?s))" by (rule push_b10_const_code [OF f(2) d(1,2)])
  also have "\<dots> = Some (skip_code (length (instr_code (Num ds fs))) (s\<lparr>c_code := c_code s, ex_stack := ?x # ex_stack s\<rparr>))"
    by (simp add: skip_code_def push_num_def)
  finally have run: "exec_step s = \<dots>" using f(1) by (simp add: exec_step_def exec_inst_plain)
  have x: "bc_canon ?x" "bc_val ?x = of_int (dval (ds @ fs)) / 10 ^ length fs"
    using d by (auto simp: bc_canon_num_of bc_val_num_of digits_def digit_def dval_Cons)
  have canon: "\<forall>y \<in> set (?x # ex_stack s). bc_canon y" using r x(1) by (simp add: ready_def)
  have "step_ok V (Num ds fs) (length (ex_stack s) + 1) s (skip_code (length (instr_code (Num ds fs))) (s\<lparr>c_code := c_code s, ex_stack := ?x # ex_stack s\<rparr>))"
    unfolding step_ok_def ready_stack(3) [OF r canon]
    using ready_stack(1,2) [OF r canon, of "length (instr_code (Num ds fs))" "c_code s"] x(2)
    by (auto simp: skip_code_def rats_def intro: rat_step.step_num)
  then show ?thesis using run by simp
qed

text \<open>The variable instructions.\<close>

lemma same_but_vars_machine:
  assumes "same_but_vars s t"
  shows "var_shape (variables t) = var_shape (variables s) \<Longrightarrow> same_machine s t" "ex_stack t = ex_stack s" "pc t = pc s" "scale t = scale s" "const_base t = const_base s"
    "runtime_error t = runtime_error s" "had_sigint t = had_sigint s" "exited t = exited s"
proof -
  obtain vs where "t = s\<lparr>variables := vs\<rparr>" using assms unfolding same_but_vars_def by blast
  then show "var_shape (variables t) = var_shape (variables s) \<Longrightarrow> same_machine s t" "ex_stack t = ex_stack s" "pc t = pc s" "scale t = scale s"
    "const_base t = const_base s" "runtime_error t = runtime_error s" "had_sigint t = had_sigint s" "exited t = exited s" by (simp_all add: same_machine_def const_base_def)
qed

lemma step_var_live:
  assumes "store_var k s = Some t \<or> incr_var k s = Some t \<or> decr_var k s = Some t" and "k > 3" and "var_live j s"
  shows "var_live j t"
  using assms by (auto simp: store_var_def incr_var_def decr_var_def var_set_def var_live_def get_var_def split: bind_splits bc_var.splits if_splits)

lemma step_var_shape:
  assumes "store_var k s = Some t \<or> incr_var k s = Some t \<or> decr_var k s = Some t" and "k > 3"
  shows "var_shape (variables t) = var_shape (variables s)"
  using assms by (auto simp: store_var_def incr_var_def decr_var_def var_set_def get_var_def var_shape_def fun_eq_iff split: bind_splits bc_var.splits if_splits)

lemma ready_vars:
  assumes r: "ready V s" and t: "same_but_vars s t" "vars_ok t" "\<forall>v \<in> V. var_live v t" "var_shape (variables t) = var_shape (variables s)"
  shows "ready V t" "same_machine s t" "ex_stack t = ex_stack s" "pc t = pc s"
  using same_but_vars_machine [OF t(1)] r t(2-4) by (simp_all add: ready_def)

lemma same_machine_trans: "same_machine s t \<Longrightarrow> same_machine t u \<Longrightarrow> same_machine s u"
  by (simp add: same_machine_def)

text \<open>The state behind the operand.\<close>

lemma step_name:
  assumes cd: "code_at (c # name_code v @ cs) s" and r: "ready V s" and v: "v \<in> V" and e: "exec_inst c = with_name f"
    and u: "u = skip_code (Suc (length (name_code v))) s"
  shows "exec_step s = f v u" "ready V u" "same_machine s u" "rats u = rats s" "ex_stack u = ex_stack s" "var_live v u" "v > 3" "vars_ok u"
    "pc_addr (pc u) = pc_addr (pc s) + Suc (length (name_code v))" "scale u = scale s"
proof -
  have v': "v < 32768" "v > 3" using r v by (auto simp: ready_def)
  note f = next_byte_code [OF cd]
  show "exec_step s = f v u" using f(1) get_name_code [OF f(2) v'(1)] by (simp add: exec_step_def e with_name_def u skip_code_add)
  have canon: "\<forall>x \<in> set (ex_stack s). bc_canon x" using r by (simp add: ready_def)
  have s': "s\<lparr>c_code := c_code s, ex_stack := ex_stack s\<rparr> = s" by simp
  show ru: "ready V u" "same_machine s u" "rats u = rats s"
    using ready_stack [OF r canon, of "Suc (length (name_code v))" "c_code s"] unfolding u s' by (simp_all add: rats_def)
  show "ex_stack u = ex_stack s" "v > 3" "pc_addr (pc u) = pc_addr (pc s) + Suc (length (name_code v))" "scale u = scale s"
    using v' by (simp_all add: u)
  show "var_live v u" "vars_ok u" using ru(1) v by (simp_all add: ready_def)
qed

lemma step_var:
  assumes cd: "code_at (instr_code i @ cs) s" and r: "ready V s" and iv: "instr_var i = Some v" "v \<in> V"
    and u: "stack_use i = Some (n, l)" and n: "n \<le> length (ex_stack s)"
  shows "\<exists>t. exec_step s = Some t \<and> step_ok V i (length (ex_stack s) - n + l) s t"
proof -
  let ?u = "skip_code (Suc (length (name_code v))) s"
  have change: "step_ok V i (length (ex_stack s)) s t"
    if t: "same_but_vars ?u t" "vars_ok t" "\<forall>w \<in> V. var_live w t" "var_shape (variables t) = var_shape (variables ?u)" and ic: "length (instr_code i) = Suc (length (name_code v))"
      and st: "rat_step (nat (scale s)) i (rats s) (map bc_val (ex_stack s), \<lambda>j. bc_val (var_val t j))"
      and u: "ready V ?u" "same_machine s ?u" for t
    using ready_vars [OF u(1) t] same_machine_trans [OF u(2)] st ic by (simp add: step_ok_def rats_def)
  have rats: "rats s = (map bc_val (ex_stack s), \<lambda>j. bc_val (var_val s j))" by (simp add: rats_def)
  have val: "var_val ?u = var_val s" by (simp add: var_val_def fun_eq_iff)
  consider "i = Load v" | "i = Store v" | "i = Incr v" | "i = Decr v" using iv(1) by (cases i) auto
  then show ?thesis
  proof cases
    case 1
    then have cd': "code_at (CHR ''l'' # name_code v @ cs) s" using cd by simp
    note f = step_name [OF cd' r iv(2) exec_inst_name(1) refl]
    let ?t = "?u\<lparr>c_code := c_code ?u, ex_stack := var_val s v # ex_stack s\<rparr>"
    have run: "exec_step s = Some ?t" using f(1) load_var_spec [OF f(6)] f(7) by (simp add: val push_copy_def)
    have canon: "\<forall>x \<in> set (var_val s v # ex_stack s). bc_canon x" using var_val_canon [OF f(8), of v] r by (simp add: val ready_def)
    have "step_ok V i (length (ex_stack s) + 1) s ?t" using ready_stack [OF f(2) canon, of 0 "c_code ?u"] same_machine_trans [OF f(3)] 1 f(4)
      step_load [of _ v "map bc_val (ex_stack s)" "\<lambda>j. bc_val (var_val s j)"] by (simp add: step_ok_def rats val)
    then show ?thesis using run u 1 by auto
  next
    case 2
    then have cd': "code_at (CHR ''s'' # name_code v @ cs) s" using cd by simp
    note f = step_name [OF cd' r iv(2) exec_inst_name(2) refl]
    obtain x st where st: "ex_stack s = x # st" using n u 2 by (cases "ex_stack s") auto
    have x: "tos ?u = Some x" "bc_canon x" using st r by (simp_all add: tos_def ready_def)
    obtain t where t: "store_var v ?u = Some t" "vars_ok t" "same_but_vars ?u t" "\<forall>j. var_val t j = (if j = v then x else var_val ?u j)"
      using store_var_spec [OF f(8,6,7) x] by blast
    have live: "\<forall>w \<in> V. var_live w t" using step_var_live [OF disjI1 [OF t(1)] f(7)] f(2) by (simp add: ready_def)
    note dm = step_var_shape [OF disjI1 [OF t(1)] f(7)]
    have "(\<lambda>j. bc_val (var_val t j)) = (\<lambda>j. bc_val (var_val s j))(v := bc_val x)" using t(4) val by auto
    then have "step_ok V i (length (ex_stack s)) s t" using 2 st step_store
      by (intro change [OF t(3,2) live dm _ _ f(2,3)]) (simp_all add: rats)
    then show ?thesis using f(1) t(1) u 2 st by auto
  next
    case 3
    then have cd': "code_at (CHR ''i'' # name_code v @ cs) s" using cd by simp
    note f = step_name [OF cd' r iv(2) exec_inst_name(3) refl]
    obtain t x where t: "incr_var v ?u = Some t" "vars_ok t" "same_but_vars ?u t" "bc_val x = bc_val (var_val ?u v) + 1"
        "\<forall>j. var_val t j = (if j = v then x else var_val ?u j)"
      using step_var_spec(1) [OF f(8,6)] f(7) by fastforce
    have live: "\<forall>w \<in> V. var_live w t" using step_var_live [OF disjI2 [OF disjI1 [OF t(1)]] f(7)] f(2) by (simp add: ready_def)
    note dm = step_var_shape [OF disjI2 [OF disjI1 [OF t(1)]] f(7)]
    have "(\<lambda>j. bc_val (var_val t j)) = (\<lambda>j. bc_val (var_val s j))(v := bc_val (var_val s v) + 1)" using t(4,5) val by auto
    then have "step_ok V i (length (ex_stack s)) s t" using 3 step_incr
      by (intro change [OF t(3,2) live dm _ _ f(2,3)]) (simp_all add: rats)
    then show ?thesis using f(1) t(1) u 3 by auto
  next
    case 4
    then have cd': "code_at (CHR ''d'' # name_code v @ cs) s" using cd by simp
    note f = step_name [OF cd' r iv(2) exec_inst_name(4) refl]
    obtain t x where t: "decr_var v ?u = Some t" "vars_ok t" "same_but_vars ?u t" "bc_val x = bc_val (var_val ?u v) - 1"
        "\<forall>j. var_val t j = (if j = v then x else var_val ?u j)"
      using step_var_spec(2) [OF f(8,6)] f(7) by fastforce
    have live: "\<forall>w \<in> V. var_live w t" using step_var_live [OF disjI2 [OF disjI2 [OF t(1)]] f(7)] f(2) by (simp add: ready_def)
    note dm = step_var_shape [OF disjI2 [OF disjI2 [OF t(1)]] f(7)]
    have "(\<lambda>j. bc_val (var_val t j)) = (\<lambda>j. bc_val (var_val s j))(v := bc_val (var_val s v) - 1)" using t(4,5) val by auto
    then have "step_ok V i (length (ex_stack s)) s t" using 4 step_decr
      by (intro change [OF t(3,2) live dm _ _ f(2,3)]) (simp_all add: rats)
    then show ?thesis using f(1) t(1) u 4 by auto
  qed
qed

text \<open>Any instruction of straight-line code.\<close>

lemma step_instr:
  assumes cd: "code_at (instr_code i @ cs) s" and r: "ready V s" and iv: "\<And>v. instr_var i = Some v \<Longrightarrow> v \<in> V"
    and u: "stack_use i = Some (n, l)" and n: "n \<le> length (ex_stack s)"
  shows "\<exists>t. exec_step s = Some t \<and> (step_ok V i (length (ex_stack s) - n + l) s t \<or> step_error i s t)"
proof (cases i)
  case (Op c)
  then show ?thesis using step_op [of c cs s V n l] assms by blast
next
  case (Num ds fs)
  then show ?thesis using step_num [of ds fs cs s V] cd r u by (auto split: if_splits)
next
  case (Load v)
  then show ?thesis using step_var [OF cd r _ iv u n] by auto
next
  case (Store v)
  then show ?thesis using step_var [OF cd r _ iv u n] by auto
next
  case (Incr v)
  then show ?thesis using step_var [OF cd r _ iv u n] by auto
next
  case (Decr v)
  then show ?thesis using step_var [OF cd r _ iv u n] by auto
qed

section \<open>Straight-line code\<close>

lemma exec_loop_step: "running s = Some True \<Longrightarrow> exec_step s = Some t \<Longrightarrow> exec_loop s = exec_loop t"
  by (subst exec_loop.simps) simp

lemma exec_loop_stop: "running s = Some False \<Longrightarrow> exec_loop s = Some s"
  by (subst exec_loop.simps) simp

lemma running_ready:
  "ready V s \<Longrightarrow> bc_functions s (pc_func (pc s)) = Some f \<Longrightarrow> running s = Some (pc_addr (pc s) < f_code_size f)"
  by (simp add: running_def ready_def)

lemma instr_code_pos: "0 < length (instr_code i)"
  by (cases i) simp_all

lemma code_at_next:
  assumes "code_at (xs @ cs) s" and "same_machine s t" and "pc_addr (pc t) = pc_addr (pc s) + length xs"
  shows "code_at cs t"
  using code_at_append [OF assms(1)] assms(2,3) by (simp add: code_at_def same_machine_def)

text \<open>
  The result of a block: all of it is done and the machine is ready behind it, or the machine has
  stopped with a runtime error in front of an instruction that the rational machine cannot do.
\<close>

definition block_done :: "nat set \<Rightarrow> instr list \<Rightarrow> bc_state \<Rightarrow> bc_state \<Rightarrow> bool" where
  "block_done V is s t \<longleftrightarrow> rat_steps (nat (scale s)) is (rats s) (rats t) \<and> ready V t \<and> same_machine s t
     \<and> pc_addr (pc t) = pc_addr (pc s) + length (instrs_code is)"

definition block_error :: "instr list \<Rightarrow> bc_state \<Rightarrow> bc_state \<Rightarrow> bool" where
  "block_error is s t \<longleftrightarrow> runtime_error t \<and> exited t = None \<and> same_machine s t \<and> exec_loop t = Some t
     \<and> rat_stuck (nat (scale s)) is (rats s) (rats t)"

lemma block_spec:
  assumes "code_at (instrs_code is @ cs) s" and "ready V s" and "fits (length (ex_stack s)) is"
    and "\<And>i v. i \<in> set is \<Longrightarrow> instr_var i = Some v \<Longrightarrow> v \<in> V"
    and "bc_functions s (pc_func (pc s)) = Some f" and "pc_addr (pc s) + length (instrs_code is) \<le> f_code_size f"
  shows "\<exists>t. exec_loop s = exec_loop t \<and> (block_done V is s t \<or> block_error is s t)"
  using assms
proof (induction "is" arbitrary: s)
  case Nil
  then show ?case by (intro exI [of _ s]) (simp add: block_done_def instrs_code_def same_machine_def steps_none)
next
  case (Cons i "is")
  obtain n l where u: "stack_use i = Some (n, l)" "n \<le> length (ex_stack s)" "fits (length (ex_stack s) - n + l) is"
    using Cons.prems(3) by (auto split: option.splits)
  have cd: "code_at (instr_code i @ instrs_code is @ cs) s" using Cons.prems(1) by (simp add: instrs_code_def)
  have iv: "\<And>v. instr_var i = Some v \<Longrightarrow> v \<in> V" using Cons.prems(4) [of i] by simp
  obtain t where t: "exec_step s = Some t" "step_ok V i (length (ex_stack s) - n + l) s t \<or> step_error i s t"
    using step_instr [OF cd Cons.prems(2) iv u(1,2)] by blast
  have "running s = Some True"
    using running_ready [OF Cons.prems(2,5)] Cons.prems(6) instr_code_pos [of i]
    by (simp add: instrs_code_def del: length_greater_0_conv)
  note loop = exec_loop_step [OF this t(1)]
  from t(2) show ?case
  proof
    assume e: "step_error i s t"
    then have "running t = Some False" using Cons.prems(5) by (simp add: running_def step_error_def same_machine_def)
    moreover have "rat_stuck (nat (scale s)) (i # is) (rats s) (rats s)"
      using e steps_none [of _ "rats s"] unfolding rat_stuck_def step_error_def by (intro exI [of _ "[]"]) simp
    ultimately have "block_error (i # is) s t" using e exec_loop_stop by (simp add: block_error_def step_error_def)
    then show ?thesis using loop by blast
  next
    assume ok: "step_ok V i (length (ex_stack s) - n + l) s t"
    then have t': "ready V t" "same_machine s t" "pc_addr (pc t) = pc_addr (pc s) + length (instr_code i)"
      "length (ex_stack t) = length (ex_stack s) - n + l" "rat_step (nat (scale s)) i (rats s) (rats t)"
      by (simp_all add: step_ok_def)
    have "\<exists>r. exec_loop t = exec_loop r \<and> (block_done V is t r \<or> block_error is t r)"
    proof (rule Cons.IH)
      show "code_at (instrs_code is @ cs) t" by (rule code_at_next [OF cd t'(2,3)])
      show "pc_addr (pc t) + length (instrs_code is) \<le> f_code_size f" using Cons.prems(6) t'(3) by (simp add: instrs_code_def)
      show "bc_functions t (pc_func (pc t)) = Some f" using Cons.prems(5) t'(2) by (simp add: same_machine_def)
    qed (use t' u(3) Cons.prems(4) in \<open>auto simp: t'(4)\<close>)
    then obtain r where r: "exec_loop t = exec_loop r" "block_done V is t r \<or> block_error is t r" by blast
    have sc: "scale t = scale s" using t'(2) by (simp add: same_machine_def)
    have "block_done V (i # is) s r \<or> block_error (i # is) s r" using r(2)
    proof
      assume "block_done V is t r"
      then show ?thesis using t' sc same_machine_trans [OF t'(2)] steps_some [OF t'(5)]
        by (auto simp: block_done_def instrs_code_def)
    next
      assume "block_error is t r"
      then show ?thesis using same_machine_trans [OF t'(2)] rat_stuck_Cons [OF t'(5)] sc by (simp add: block_error_def)
    qed
    then show ?thesis using loop r(1) by auto
  qed
qed

section \<open>Properties\<close>

inductive_cases rat_steps_NilE: "rat_steps k [] a c"
inductive_cases rat_steps_ConsE: "rat_steps k (i # is) a c"
inductive_cases rat_step_OpE: "rat_step k (Op c) a b"
inductive_cases rat_step_NumE: "rat_step k (Num ds fs) a b"
inductive_cases rat_step_StoreE: "rat_step k (Store v) a b"

text \<open>
  Straight-line code against the machine on rationals: from a state with canonical numbers and enough
  operands on the stack, the loop of \<open>execute\<close> comes to the state behind the code, where stack and variables
  have the values that the rational machine computes and nothing else has changed; or it stops with a runtime error,
  and then at an instruction which the rational machine cannot do.
\<close>

theorem straight_line_correct:
  assumes "code_at (instrs_code is @ cs) s" and "ready V s" and "fits (length (ex_stack s)) is"
    and "\<forall>i \<in> set is. \<forall>v. instr_var i = Some v \<longrightarrow> v \<in> V"
    and "bc_functions s (pc_func (pc s)) = Some f" and "pc_addr (pc s) + length (instrs_code is) \<le> f_code_size f"
  shows "\<exists>t. exec_loop s = exec_loop t \<and> (block_done V is s t \<or> block_error is s t)"
  by (rule block_spec [OF assms(1-3) _ assms(5,6)]) (use assms(4) in blast)

text \<open>The state at the start of \<open>execute\<close>, with a main program of straight-line code.\<close>

definition main_code :: "instr list \<Rightarrow> bc_state \<Rightarrow> bool" where
  "main_code is s \<longleftrightarrow> (\<exists>f. bc_functions s 0 = Some f \<and> f_code_size f = length (instrs_code is)
     \<and> take (length (instrs_code is)) (f_body f) = map Some (instrs_code is))"

lemma execute_run:
  assumes "exec_loop (s\<lparr>pc := \<lparr>pc_func = 0, pc_addr = 0\<rparr>, runtime_error := False, had_sigint := False\<rparr>) = Some t"
    and "exited t = None" and "pc_func (pc t) = 0"
  shows "execute s = Some (t\<lparr>ex_stack := []\<rparr>)"
  using assms by (simp add: execute_def unwind.simps [of t])

lemma execute_lines:
  assumes "main_code is s" and "fits 0 is" and "ex_stack s = []" and "vars_ok s" and "i_base s = 10" and "exited s = None"
    and "\<forall>i \<in> set is. \<forall>v. instr_var i = Some v \<longrightarrow> 3 < v \<and> v < 32768 \<and> var_live v s"
  shows "\<exists>t. execute s = Some t \<and> ex_stack t = [] \<and> stdout_chars t = stdout_chars s
           \<and> (if runtime_error t
              then \<exists>st. rat_stuck (nat (scale s)) is ([], snd (rats s)) (st, snd (rats t))
              else \<exists>st. rat_steps (nat (scale s)) is ([], snd (rats s)) (st, snd (rats t)))"
proof -
  let ?s = "s\<lparr>pc := \<lparr>pc_func = 0, pc_addr = 0\<rparr>, runtime_error := False, had_sigint := False\<rparr>"
  let ?V = "{v. 3 < v \<and> v < 32768 \<and> var_live v s}"
  obtain f where f: "bc_functions s 0 = Some f" "f_code_size f = length (instrs_code is)"
    "take (length (instrs_code is)) (f_body f) = map Some (instrs_code is)" using assms(1) by (auto simp: main_code_def)
  have "ready ?V ?s" using assms by (simp add: ready_def const_base_def vars_ok_def var_live_def)
  moreover have "code_at (instrs_code is @ []) ?s" using f by (simp add: code_at_def)
  moreover have "bc_functions ?s (pc_func (pc ?s)) = Some f" "pc_addr (pc ?s) + length (instrs_code is) \<le> f_code_size f"
    using f by simp_all
  ultimately obtain t where t: "exec_loop ?s = exec_loop t" "block_done ?V is ?s t \<or> block_error is ?s t"
    using block_spec [of "is" "[]" ?s ?V f] assms(2,3,7) by auto
  have rs: "rats ?s = ([], snd (rats s))" "snd (rats (t\<lparr>ex_stack := []\<rparr>)) = snd (rats t)" using assms(3) by (simp_all add: rats_def var_val_def)
  have sm: "same_machine ?s t" "exited t = None" using t(2) by (auto simp: block_done_def block_error_def ready_def)
  then have pf: "pc_func (pc t) = 0" "bc_functions t 0 = Some f" "stdout_chars t = stdout_chars s" using f(1) by (simp_all add: same_machine_def)
  have loop: "exec_loop t = Some t"
  proof (cases "block_done ?V is ?s t")
    case True
    then have "running t = Some False" using f(2) pf by (simp add: running_def block_done_def)
    then show ?thesis by (rule exec_loop_stop)
  qed (use t(2) in \<open>auto simp: block_error_def\<close>)
  then have ex: "execute s = Some (t\<lparr>ex_stack := []\<rparr>)" using t(1) sm(2) pf(1) by (intro execute_run) simp_all
  obtain st e where rt: "rats t = (st, e)" by (cases "rats t")
  have "if runtime_error t then \<exists>st. rat_stuck (nat (scale s)) is ([], snd (rats s)) (st, snd (rats t))
              else \<exists>st. rat_steps (nat (scale s)) is ([], snd (rats s)) (st, snd (rats t))"
    using t(2)
  proof
    assume d: "block_done ?V is ?s t"
    then have "rat_steps (nat (scale s)) is ([], snd (rats s)) (st, e)" "\<not> runtime_error t"
      using rs rt by (simp_all add: block_done_def ready_def)
    then show ?thesis using rt by auto
  next
    assume e: "block_error is ?s t"
    then show ?thesis using rs rt by (auto simp: block_error_def)
  qed
  then show ?thesis using ex pf(3) rs(2) by (intro exI [of _ "t\<lparr>ex_stack := []\<rparr>"]) simp
qed

text \<open>
  C3: \<open>execute\<close> on a main program of straight-line code returns with an empty stack; the variables have the values
  that the machine on rationals gives them, from an empty stack, or there was a runtime error and they have the values in
  front of an instruction that this machine cannot do.
\<close>

theorem execute_straight_line:
  assumes "main_code is s" and "fits 0 is" and "ex_stack s = []" and "vars_ok s" and "i_base s = 10" and "exited s = None"
    and "\<forall>i \<in> set is. \<forall>v. instr_var i = Some v \<longrightarrow> 3 < v \<and> v < 32768 \<and> var_live v s"
  shows "\<exists>t. execute s = Some t \<and> ex_stack t = [] \<and> stdout_chars t = stdout_chars s
           \<and> (if runtime_error t
              then \<exists>st. rat_stuck (nat (scale s)) is ([], snd (rats s)) (st, snd (rats t))
              else \<exists>st. rat_steps (nat (scale s)) is ([], snd (rats s)) (st, snd (rats t)))"
  by (rule execute_lines [OF assms])

text \<open>A state with a main program.\<close>

definition loaded :: "instr list \<Rightarrow> bc_state" where
  "loaded is = (init_storage zero_state)\<lparr>bc_functions := [0 \<mapsto> new_function\<lparr>f_body := map Some (instrs_code is),
     f_code_size := length (instrs_code is)\<rparr>]\<rparr>"

lemma loaded_sel:
  "main_code is (loaded is)" "ex_stack (loaded is) = []" "vars_ok (loaded is)" "i_base (loaded is) = 10" "exited (loaded is) = None"
  "scale (loaded is) = 0" "3 \<le> v \<Longrightarrow> v < 32 \<Longrightarrow> var_live v (loaded is)" "snd (rats (loaded is)) = (\<lambda>v. 0)" "ready {} (loaded is)"
  "code_at (instrs_code is) (loaded is)" "bc_functions (loaded is) (pc_func (pc (loaded is))) = Some (new_function\<lparr>f_body := map Some (instrs_code is),
     f_code_size := length (instrs_code is)\<rparr>)" "pc_addr (pc (loaded is)) = 0" "rats (loaded is) = ([], \<lambda>v. 0)"
  by (simp_all add: loaded_def main_code_def init_storage_def more_functions_def more_variables_def more_arrays_def Let_def zero_state_def
      vars_ok_def var_live_def rats_def var_val_def fun_eq_iff ready_def const_base_def code_at_def)

lemma some_steps:
  "rat_step k (Op (CHR ''1'')) (st, e) b \<longleftrightarrow> b = (1 # st, e)"
  "rat_step k (Op (CHR ''p'')) (x # st, e) b \<longleftrightarrow> b = (st, e)"
  "rat_step k (Op (CHR ''+'')) (y # x # st, e) b \<longleftrightarrow> b = ((x + y) # st, e)"
  "rat_step k (Store v) (x # st, e) b \<longleftrightarrow> b = (x # st, e(v := x))"
  "rat_step k (Num ds fs) (st, e) b \<longleftrightarrow> b = (of_int (dval (ds @ fs)) / 10 ^ length fs # st, e)"
proof -
  show "rat_step k (Op (CHR ''1'')) (st, e) b \<longleftrightarrow> b = (1 # st, e)"
    by (auto elim: rat_step_OpE arith_valE simp: cmp_ops_def intro: step_one)
  show "rat_step k (Op (CHR ''p'')) (x # st, e) b \<longleftrightarrow> b = (st, e)"
    by (auto elim: rat_step_OpE arith_valE simp: cmp_ops_def intro: step_pop)
  show "rat_step k (Op (CHR ''+'')) (y # x # st, e) b \<longleftrightarrow> b = ((x + y) # st, e)"
    by (auto elim: rat_step_OpE simp: cmp_ops_def arith_val_simps intro: step_arith)
qed (auto elim: rat_step_StoreE rat_step_NumE intro: rat_step.intros)

theorem execute_straight_line_witness:
  "\<exists>t. execute (loaded [Num [1, 2] [5], Op (CHR ''1''), Op (CHR ''+''), Store 5, Op (CHR ''p'')]) = Some t \<and> ex_stack t = []
     \<and> (runtime_error t \<or> bc_val (var_val t 5) = 27 / 2)"
proof -
  let ?is = "[Num [1, 2] [5], Op (CHR ''1''), Op (CHR ''+''), Store 5, Op (CHR ''p'')]"
  have fit: "fits 0 ?is"
    by (simp add: stack_use_ops two_ops_def arith_ops_def cmp_ops_def logic_ops_def digits_def digit_def)
  have v: "\<forall>i \<in> set ?is. \<forall>v. instr_var i = Some v \<longrightarrow> 3 < v \<and> v < 32768 \<and> var_live v (loaded ?is)"
    using loaded_sel(7) [of 5 ?is] by simp
  obtain t where t: "execute (loaded ?is) = Some t" "ex_stack t = []"
    "\<not> runtime_error t \<Longrightarrow> \<exists>st. rat_steps 0 ?is ([], \<lambda>v. 0) (st, snd (rats t))"
    using execute_straight_line [OF loaded_sel(1) fit loaded_sel(2-5) v] by (auto simp: loaded_sel split: if_splits)
  have "bc_val (var_val t 5) = 27 / 2" if e: "\<not> runtime_error t"
  proof -
    obtain st where "rat_steps 0 ?is ([], \<lambda>v. 0) (st, snd (rats t))" using t(3) [OF e] by blast
    then have "snd (rats t) 5 = 27 / 2"
      by (auto simp: rat_steps_simps some_steps dval_Cons)
    then show ?thesis by (simp add: rats_def)
  qed
  then show ?thesis using t by blast
qed

theorem straight_line_correct_witness:
  "\<exists>t. exec_loop (loaded [Op (CHR ''1''), Op (CHR ''0''), Op (CHR ''/'')]) = Some t \<and> runtime_error t"
proof -
  let ?is = "[Op (CHR ''1''), Op (CHR ''0''), Op (CHR ''/'')]"
  have fit: "fits (length (ex_stack (loaded ?is))) ?is"
    by (simp add: loaded_sel two_ops_def arith_ops_def cmp_ops_def logic_ops_def)
  have v: "\<forall>i \<in> set ?is. \<forall>v. instr_var i = Some v \<longrightarrow> v \<in> {}" by simp
  have cd: "code_at (instrs_code ?is @ []) (loaded ?is)" using loaded_sel(10) by simp
  obtain t where t: "exec_loop (loaded ?is) = exec_loop t" "block_done {} ?is (loaded ?is) t \<or> block_error ?is (loaded ?is) t"
    using straight_line_correct [OF cd loaded_sel(9) fit v loaded_sel(11)] by (auto simp: loaded_sel)
  have "\<not> rat_steps 0 ?is ([], \<lambda>v. 0) a" for a
    by (auto elim!: rat_steps_ConsE rat_steps_NilE rat_step_OpE simp: arith_val_simps cmp_ops_def)
  then have "\<not> block_done {} ?is (loaded ?is) t" by (simp add: block_done_def loaded_sel)
  then show ?thesis using t by (auto simp: block_error_def)
qed

end
