(* ===== verification/BcLoad.thy ===== *)
theory BcLoad
  imports BcMachine
begin

text \<open>
  The loader (\<^verbatim>\<open>usr.bin/bc/load.c\<close>): it turns the text that the parser generates into the bytes of the code segments.
  The position in the text is the rest of the string; its end is the \<^verbatim>\<open>NUL\<close> character, and moving past
  it is undefined.
\<close>

section \<open>State\<close>

record loader =
  machine :: bc_state
  load_adr :: program_counter
  load_str :: bool
  load_const :: bool
  save_adr :: program_counter
  had_error :: bool
  errors :: "string list"

text \<open>\<open>yyerror\<close> and \<open>ct_warn\<close>; the place in the file that they print is left out.\<close>

definition yyerror :: "string \<Rightarrow> loader \<Rightarrow> loader" where
  "yyerror str l = l\<lparr>errors := errors l @ [str], had_error := True\<rparr>"

definition ct_warn :: "string \<Rightarrow> loader \<Rightarrow> loader" where
  "ct_warn mesg l = (if std_only (machine l) then yyerror (''Error: '' @ mesg) l
     else if warn_not_std (machine l) then l\<lparr>errors := errors l @ [''(Warning) '' @ mesg]\<rparr> else l)"

definition init_load :: "loader \<Rightarrow> loader option" where
  "init_load l = do {
     m \<leftarrow> clear_func 0 (machine l);
     Some (l\<lparr>machine := m, load_adr := \<lparr>pc_func = 0, pc_addr = 0\<rparr>, load_str := False, load_const := False\<rparr>)
   }"

section \<open>Bytes and labels\<close>

text \<open>The body doubles when it is full; the new half is not set.\<close>

definition addbyte :: "char \<Rightarrow> loader \<Rightarrow> loader option" where
  "addbyte thebyte l = (if had_error l then Some l else do {
     let prog_addr = pc_addr (load_adr l);
     f \<leftarrow> bc_functions (machine l) (pc_func (load_adr l));
     let body = (if prog_addr \<ge> length (f_body f) then f_body f @ replicate (length (f_body f)) None else f_body f);
     body \<leftarrow> wr body (int prog_addr) (Some thebyte);
     m \<leftarrow> upd_func (pc_func (load_adr l)) (\<lambda>f. f\<lparr>f_body := body, f_code_size := f_code_size f + 1\<rparr>) (machine l);
     Some (l\<lparr>machine := m, load_adr := (load_adr l)\<lparr>pc_addr := prog_addr + 1\<rparr>\<rparr>)
   })"

definition new_group :: bc_label_group where
  "new_group = replicate BC_LABEL_GROUP None"

text \<open>Groups are added while the list is walked; then the address is stored.\<close>

fun label_walk :: "nat \<Rightarrow> nat \<Rightarrow> nat \<Rightarrow> bc_label_group list \<Rightarrow> bc_label_group list option" where
  "label_walk grp offset adr [] = None"
| "label_walk 0 offset adr (g # gs) = do { g \<leftarrow> wr g (int offset) (Some adr); Some (g # gs) }"
| "label_walk (Suc grp) offset adr (g # gs) = do {
     gs \<leftarrow> label_walk grp offset adr (if gs = [] then [new_group] else gs);
     Some (g # gs)
   }"

definition def_label :: "nat \<Rightarrow> loader \<Rightarrow> loader option" where
  "def_label lab l = do {
     let func = pc_func (load_adr l);
     f \<leftarrow> bc_functions (machine l) func;
     gs \<leftarrow> label_walk (lab div BC_LABEL_GROUP) (lab mod BC_LABEL_GROUP) (pc_addr (load_adr l))
       (if f_label f = [] then [new_group] else f_label f);
     m \<leftarrow> upd_func func (\<lambda>f. f\<lparr>f_label := gs\<rparr>) (machine l);
     Some (l\<lparr>machine := m\<rparr>)
   }"

section \<open>Numbers in the text\<close>

fun long_digits :: "int \<Rightarrow> string \<Rightarrow> (int \<times> string) option" where
  "long_digits val [] = Some (val, [])"
| "long_digits val (c # cs) = (if isdigit c
     then do { guard (val * 10 + char_val c \<le> INT_MAX); long_digits (val * 10 + char_val c - 48) cs }
     else Some (val, c # cs))"

definition long_val :: "string \<Rightarrow> (int \<times> string) option" where
  "long_val str = (case str of
     c # cs \<Rightarrow> if c = CHR ''-'' then do { (val, cs) \<leftarrow> long_digits 0 cs; Some (- val, cs) } else long_digits 0 str
   | [] \<Rightarrow> long_digits 0 str)"

text \<open>The conversion to \<open>unsigned long\<close>, and \<^verbatim>\<open>str++\<close>.\<close>

definition unsigned_long :: "int \<Rightarrow> nat" where
  "unsigned_long v = nat (v mod 2 ^ 64)"

definition advance :: "string \<Rightarrow> string option" where
  "advance str = (case str of c # cs \<Rightarrow> Some cs | [] \<Rightarrow> None)"

definition peek :: "string \<Rightarrow> char" where
  "peek str = (case str of c # cs \<Rightarrow> c | [] \<Rightarrow> NUL)"

text \<open>A number in one byte, or in two with the high bit of the first set.\<close>

definition add_name :: "nat \<Rightarrow> loader \<Rightarrow> loader option" where
  "add_name n l = (if n < 128 then addbyte (char_of n) l
     else do { l \<leftarrow> addbyte (char_of (n div 256 mod 128 + 128)) l; addbyte (char_of (n mod 256)) l })"

section \<open>Functions\<close>

definition nextarg :: "arg_list \<Rightarrow> int \<Rightarrow> bool \<Rightarrow> arg_list" where
  "nextarg args val is_var = \<lparr>av_name = val, arg_is_var = is_var\<rparr> # args"

text \<open>The parameters: each behind a comma, up to a point.\<close>

partial_function (option) load_params :: "nat \<Rightarrow> string \<Rightarrow> bc_state \<Rightarrow> (string \<times> bc_state) option" where
  "load_params func str m = do {
     str' \<leftarrow> advance str;
     if peek str = CHR ''.'' then Some (str', m)
     else if peek str' = CHR ''.'' then do { str'' \<leftarrow> advance str'; Some (str'', m) }
     else do {
       str'' \<leftarrow> (if peek str' = CHR ''*'' then advance str' else Some str');
       (ap_name, str'') \<leftarrow> long_val str'';
       m \<leftarrow> upd_func func (\<lambda>f. f\<lparr>f_params := nextarg (f_params f) ap_name (peek str' = CHR ''*'')\<rparr>) m;
       load_params func str'' m
     }
   }"

text \<open>The automatic variables, up to the bracket; without a digit in the text this does not end.\<close>

partial_function (option) load_autos :: "nat \<Rightarrow> string \<Rightarrow> bc_state \<Rightarrow> (string \<times> bc_state) option" where
  "load_autos func str m = (if peek str = CHR ''['' then Some (str, m) else do {
     str \<leftarrow> (if peek str = CHR '','' then advance str else Some str);
     (ap_name, str) \<leftarrow> long_val str;
     m \<leftarrow> upd_func func (\<lambda>f. f\<lparr>f_autos := nextarg (f_autos f) ap_name False\<rparr>) m;
     load_autos func str m
   })"

fun load_args :: "string \<Rightarrow> loader \<Rightarrow> (string \<times> loader) option" where
  "load_args [] l = None"
| "load_args (c # cs) l = (if c = CHR '':'' then Some (c # cs, l) else do { l \<leftarrow> addbyte c l; load_args cs l })"

section \<open>The loader\<close>

text \<open>The value of a \<^verbatim>\<open>char\<close>, which is signed.\<close>

definition signed_char :: "char \<Rightarrow> int" where
  "signed_char c = (if char_val c < 128 then char_val c else char_val c - 256)"

text \<open>One character inside a constant. The caller has dealt with the newline.\<close>

definition load_digit :: "char \<Rightarrow> loader \<Rightarrow> loader option" where
  "load_digit c l = (
     if c = CHR '':'' then addbyte c (l\<lparr>load_const := False\<rparr>)
     else if c = CHR ''.'' then addbyte c l
     else do {
       let l = (if signed_char c > 70 \<and> (warn_not_std (machine l) \<or> std_only (machine l))
         then (if std_only (machine l) then yyerror ''Error in numeric constant'' l
               else ct_warn ''Non-standard base in numeric constant'' l)
         else l);
       addbyte (char_of (nat ((if signed_char c \<ge> 65 then signed_char c + 10 - 65 else signed_char c - 48) mod 256))) l
     })"

text \<open>One instruction; the result is the position of its last character.\<close>

definition load_jump :: "char \<Rightarrow> string \<Rightarrow> loader \<Rightarrow> (string \<times> loader) option" where
  "load_jump c str l = do {
     l \<leftarrow> addbyte c l;
     (v, str) \<leftarrow> long_val str;
     let label_no = unsigned_long v;
     if label_no > 65535 then Some (str, l\<lparr>machine := bc_exit 1 (machine l)\<rparr>)
     else do {
       l \<leftarrow> addbyte (char_of (label_no mod 256)) l;
       l \<leftarrow> addbyte (char_of (label_no div 256)) l;
       Some (str, l)
     }
   }"

definition load_func :: "string \<Rightarrow> loader \<Rightarrow> (string \<times> loader) option" where
  "load_func str l = do {
     (v, str) \<leftarrow> long_val str;
     guard (v \<ge> 0);
     m \<leftarrow> clear_func (nat v) (machine l);
     (str, m) \<leftarrow> load_params (nat v) str m;
     (str, m) \<leftarrow> load_autos (nat v) str m;
     Some (str, l\<lparr>machine := m, save_adr := load_adr l, load_adr := \<lparr>pc_func = nat v, pc_addr = 0\<rparr>\<rparr>)
   }"

definition load_call :: "string \<Rightarrow> loader \<Rightarrow> (string \<times> loader) option" where
  "load_call str l = do {
     l \<leftarrow> addbyte (CHR ''C'') l;
     (v, str) \<leftarrow> long_val str;
     l \<leftarrow> add_name (unsigned_long v) l;
     str \<leftarrow> (if peek str = CHR '','' then advance str else Some str);
     (str, l) \<leftarrow> load_args str l;
     l \<leftarrow> addbyte (CHR '':'') l;
     Some (str, l)
   }"

definition load_inst :: "char \<Rightarrow> string \<Rightarrow> loader \<Rightarrow> (string \<times> loader) option" where
  "load_inst c cs l = (
     if c = CHR 0x22 then Some (c # cs, l\<lparr>load_str := True\<rparr>)
     else if c = CHR ''N'' then do {
       (v, str) \<leftarrow> long_val cs;
       l \<leftarrow> def_label (unsigned_long v) l;
       Some (str, l)
     }
     else if c \<in> {CHR ''B'', CHR ''J'', CHR ''Z''} then load_jump c cs l
     else if c = CHR ''F'' then load_func cs l
     else if c = CHR '']'' then do {
       m \<leftarrow> upd_func (pc_func (load_adr l)) (\<lambda>f. f\<lparr>f_defined := True\<rparr>) (machine l);
       Some (c # cs, l\<lparr>machine := m, load_adr := save_adr l\<rparr>)
     }
     else if c = CHR ''C'' then load_call cs l
     else if c = CHR ''c'' then do { l \<leftarrow> addbyte c l; l \<leftarrow> addbyte (peek cs) l; Some (cs, l) }
     else if c = CHR ''K'' then do { l \<leftarrow> addbyte c l; Some (c # cs, l\<lparr>load_const := True\<rparr>) }
     else if c \<in> {CHR ''d'', CHR ''i'', CHR ''l'', CHR ''s'', CHR ''A'', CHR ''M'', CHR ''L'', CHR ''S''} then do {
       l \<leftarrow> addbyte c l;
       (v, str) \<leftarrow> long_val cs;
       l \<leftarrow> add_name (unsigned_long v) l;
       Some (str, l)
     }
     else if c = CHR ''@'' then (
       if peek cs = CHR ''i'' then do { l \<leftarrow> init_load l; Some (cs, l) }
       else if peek cs = CHR ''r'' then do { m \<leftarrow> execute (machine l); Some (cs, l\<lparr>machine := m\<rparr>) }
       else Some (cs, l))
     else if c = newline then Some (c # cs, l)
     else do { l \<leftarrow> addbyte c l; Some (c # cs, l) })"

definition load_step :: "string \<Rightarrow> loader \<Rightarrow> (string \<times> loader) option" where
  "load_step str l = (
     if load_str l then do {
       l \<leftarrow> addbyte (peek str) (if peek str = CHR 0x22 then l\<lparr>load_str := False\<rparr> else l);
       str \<leftarrow> advance str;
       Some (str, l)
     }
     else if load_const l then do {
       l \<leftarrow> (if peek str = newline then Some l else load_digit (peek str) l);
       str \<leftarrow> advance str;
       Some (str, l)
     }
     else do {
       cs \<leftarrow> advance str;
       (str, l) \<leftarrow> load_inst (peek str) cs l;
       if exited (machine l) \<noteq> None then Some ([], l) else do { str \<leftarrow> advance str; Some (str, l) }
     })"

partial_function (option) load_code :: "string \<Rightarrow> loader \<Rightarrow> loader option" where
  "load_code str l = (if str = [] \<or> had_error l then Some l
     else do { (str, l) \<leftarrow> load_step str l; load_code str l })"

section \<open>Loading bytes\<close>

lemma char_val_digit: "digit d \<Longrightarrow> char_val (bcd_char d) = d + 48"
  by (auto simp: bcd_char_def char_val_def digit_def)

lemma long_digits_dec:
  assumes "n < 100000000"
  shows "long_digits 0 (dec_str n @ r) = long_digits (int n) r"
  using assms
proof (induction n arbitrary: r rule: dec_str.induct)
  case (1 n)
  have one: "long_digits v (bcd_char d # r) = long_digits (v * 10 + d) r"
    if "digit d" "0 \<le> v" "v < 10000000" for v d r
    using that char_val_digit [OF that(1)] by (simp add: INT_MAX_def digit_def)
  show ?case
  proof (cases "n < 10")
    case True
    then show ?thesis using one [of "int n" 0 r] by (subst dec_str.simps) (simp add: digit_def)
  next
    case False
    have "long_digits 0 (dec_str (n div 10) @ bcd_char (int (n mod 10)) # r) = long_digits (int (n div 10)) (bcd_char (int (n mod 10)) # r)"
      using 1 False by simp
    also have "\<dots> = long_digits (int (n div 10) * 10 + int (n mod 10)) r"
      by (rule one) (use "1.prems" in \<open>simp_all add: digit_def\<close>)
    also have "int (n div 10) * 10 + int (n mod 10) = int n" by (metis div_mult_mod_eq of_nat_add of_nat_mult of_nat_numeral)
    finally show ?thesis using False by (subst dec_str.simps) simp
  qed
qed

lemma dec_str_head: "\<exists>d ds. dec_str n = bcd_char d # ds \<and> digit d"
proof (induction n rule: dec_str.induct)
  case (1 n)
  show ?case
  proof (cases "n < 10")
    case True
    then show ?thesis by (subst dec_str.simps) (auto simp: digit_def intro!: exI [of _ "int n"])
  next
    case False
    then show ?thesis using 1 by (subst dec_str.simps) auto
  qed
qed

text \<open>A number in the text, with a sign if it is negative.\<close>

lemma long_val_str:
  assumes "\<bar>v\<bar> < 100000000" and "\<not> isdigit c"
  shows "long_val (long_str v @ c # r) = Some (v, c # r)"
proof -
  have stop: "long_digits w (c # r) = Some (w, c # r)" for w using assms(2) by simp
  obtain d ds where d: "dec_str (nat v) = bcd_char d # ds" "digit d" using dec_str_head by blast
  show ?thesis
  proof (cases "v < 0")
    case True
    have "long_digits 0 (dec_str (nat (- v)) @ c # r) = Some (- v, c # r)"
      using long_digits_dec [of "nat (- v)" "c # r"] assms(1) True stop by simp
    then show ?thesis using True by (simp add: long_val_def long_str_def)
  next
    case False
    have "long_digits 0 (dec_str (nat v) @ c # r) = Some (v, c # r)"
      using long_digits_dec [of "nat v" "c # r"] assms(1) False stop by simp
    then show ?thesis using False d by (simp add: long_val_def long_str_def)
  qed
qed

text \<open>The bytes so far: the segment of a function holds them, and the rest of the state is that of the start.\<close>

definition loading :: "loader \<Rightarrow> nat \<Rightarrow> bc_function \<Rightarrow> char list \<Rightarrow> loader \<Rightarrow> bool" where
  "loading l0 func f0 bytes l \<longleftrightarrow> \<not> had_error l0
     \<and> (\<exists>body. l = l0\<lparr>machine := (machine l0)\<lparr>bc_functions := (bc_functions (machine l0))(func \<mapsto> f0\<lparr>f_body := body, f_code_size := length bytes\<rparr>)\<rparr>,
          load_adr := \<lparr>pc_func = func, pc_addr = length bytes\<rparr>, load_str := load_str l, load_const := load_const l\<rparr>
          \<and> 0 < length body \<and> length bytes \<le> length body \<and> take (length bytes) body = map Some bytes)"

lemma addbyte_loading:
  assumes "loading l0 func f0 bytes l"
  shows "\<exists>l'. addbyte b l = Some l' \<and> loading l0 func f0 (bytes @ [b]) l' \<and> load_str l' = load_str l \<and> load_const l' = load_const l"
proof -
  obtain body where l: "l = l0\<lparr>machine := (machine l0)\<lparr>bc_functions := (bc_functions (machine l0))(func \<mapsto> f0\<lparr>f_body := body, f_code_size := length bytes\<rparr>)\<rparr>,
          load_adr := \<lparr>pc_func = func, pc_addr = length bytes\<rparr>, load_str := load_str l, load_const := load_const l\<rparr>"
    and body: "0 < length body" "length bytes \<le> length body" "take (length bytes) body = map Some bytes" "\<not> had_error l0"
    using assms by (auto simp: loading_def)
  let ?body = "if length bytes \<ge> length body then body @ replicate (length body) None else body"
  let ?new = "?body[length bytes := Some b]"
  have len: "length bytes < length ?body" using body by auto
  have tk: "take (length bytes) ?body = map Some bytes" using body by auto
  have w: "wr ?body (int (length bytes)) (Some b) = Some ?new" using len by (rule wr_nat)
  let ?l = "l0\<lparr>machine := (machine l0)\<lparr>bc_functions := (bc_functions (machine l0))(func \<mapsto> f0\<lparr>f_body := ?new, f_code_size := length (bytes @ [b])\<rparr>)\<rparr>,
          load_adr := \<lparr>pc_func = func, pc_addr = length (bytes @ [b])\<rparr>, load_str := load_str l, load_const := load_const l\<rparr>"
  have m: "load_adr l = \<lparr>pc_func = func, pc_addr = length bytes\<rparr>" "\<not> had_error l"
    "bc_functions (machine l) func = Some (f0\<lparr>f_body := body, f_code_size := length bytes\<rparr>)"
    by (subst l, simp add: body(4))+
  have "addbyte b l = Some (l\<lparr>machine := (machine l)\<lparr>bc_functions := (bc_functions (machine l))(func \<mapsto> f0\<lparr>f_body := ?new, f_code_size := length bytes + 1\<rparr>)\<rparr>,
      load_adr := \<lparr>pc_func = func, pc_addr = length bytes + 1\<rparr>\<rparr>)"
    using m w by (simp add: addbyte_def upd_func_def Let_def split del: if_split cong: if_cong)
  also have "\<dots> = Some ?l" by (subst (1 2 3) l) simp
  finally have run: "addbyte b l = Some ?l" .
  have "take (length bytes + 1) ?new = take (length bytes) ?body @ [Some b]"
    using len by (simp add: take_Suc_conv_app_nth)
  then have "take (length (bytes @ [b])) ?new = map Some (bytes @ [b])" using tk by simp
  then have "loading l0 func f0 (bytes @ [b]) ?l" unfolding loading_def using body len by (auto split del: if_split)
  then show ?thesis using run by (intro exI [of _ ?l]) simp
qed

lemma loading_sel:
  assumes "loading l0 func f0 bytes l"
  shows "\<not> had_error l" "std_only (machine l) = std_only (machine l0)" "exited (machine l) = exited (machine l0)"
    "warn_not_std (machine l) = warn_not_std (machine l0)"
proof -
  obtain body where l: "l = l0\<lparr>machine := (machine l0)\<lparr>bc_functions := (bc_functions (machine l0))(func \<mapsto> f0\<lparr>f_body := body, f_code_size := length bytes\<rparr>)\<rparr>,
          load_adr := \<lparr>pc_func = func, pc_addr = length bytes\<rparr>, load_str := load_str l, load_const := load_const l\<rparr>" "\<not> had_error l0"
    using assms by (auto simp: loading_def)
  show "\<not> had_error l" "std_only (machine l) = std_only (machine l0)" "exited (machine l) = exited (machine l0)"
    "warn_not_std (machine l) = warn_not_std (machine l0)" by (subst l(1), simp add: l(2))+
qed

lemma loading_flags:
  assumes "loading l0 func f0 bytes l"
  shows "loading l0 func f0 bytes (l\<lparr>load_const := b\<rparr>)"
proof -
  obtain body where l: "l = l0\<lparr>machine := (machine l0)\<lparr>bc_functions := (bc_functions (machine l0))(func \<mapsto> f0\<lparr>f_body := body, f_code_size := length bytes\<rparr>)\<rparr>,
          load_adr := \<lparr>pc_func = func, pc_addr = length bytes\<rparr>, load_str := load_str l, load_const := load_const l\<rparr>"
    and body: "0 < length body" "length bytes \<le> length body" "take (length bytes) body = map Some bytes" "\<not> had_error l0"
    using assms by (auto simp: loading_def)
  have "l\<lparr>load_const := b\<rparr> = l0\<lparr>machine := (machine l0)\<lparr>bc_functions := (bc_functions (machine l0))(func \<mapsto> f0\<lparr>f_body := body, f_code_size := length bytes\<rparr>)\<rparr>,
          load_adr := \<lparr>pc_func = func, pc_addr = length bytes\<rparr>, load_str := load_str (l\<lparr>load_const := b\<rparr>), load_const := load_const (l\<lparr>load_const := b\<rparr>)\<rparr>"
    by (subst (1) l) simp
  then show ?thesis unfolding loading_def using body by blast
qed

lemma add_name_loading:
  assumes "loading l0 func f0 bytes l" and "n < 32768"
  shows "\<exists>l'. add_name n l = Some l' \<and> loading l0 func f0 (bytes @ name_code n) l' \<and> load_str l' = load_str l \<and> load_const l' = load_const l"
proof (cases "n < 128")
  case True
  then show ?thesis using addbyte_loading [OF assms(1)] by (simp add: add_name_def name_code_def)
next
  case False
  have m: "n div 256 mod 128 = n div 256" using assms(2) by simp
  obtain l1 where l1: "addbyte (char_of (n div 256 + 128)) l = Some l1" "loading l0 func f0 (bytes @ [char_of (n div 256 + 128)]) l1"
    "load_str l1 = load_str l" "load_const l1 = load_const l" using addbyte_loading [OF assms(1)] by blast
  obtain l2 where "addbyte (char_of (n mod 256)) l1 = Some l2" "loading l0 func f0 ((bytes @ [char_of (n div 256 + 128)]) @ [char_of (n mod 256)]) l2"
    "load_str l2 = load_str l1" "load_const l2 = load_const l1" using addbyte_loading [OF l1(2)] by blast
  then show ?thesis using False m l1 by (simp add: add_name_def name_code_def)
qed

section \<open>The text of straight-line code\<close>

fun instr_text :: "instr \<Rightarrow> string" where
  "instr_text (Op c) = [c]"
| "instr_text (Num ds fs) = CHR ''K'' # map bcd_char ds @ (if fs = [] then [] else CHR ''.'' # map bcd_char fs) @ [CHR '':'']"
| "instr_text (Load v) = CHR ''l'' # long_str (int v) @ [CHR '':'']"
| "instr_text (Store v) = CHR ''s'' # long_str (int v) @ [CHR '':'']"
| "instr_text (Incr v) = CHR ''i'' # long_str (int v) @ [CHR '':'']"
| "instr_text (Decr v) = CHR ''d'' # long_str (int v) @ [CHR '':'']"

definition plain :: "loader \<Rightarrow> bool" where
  "plain l \<longleftrightarrow> \<not> load_str l \<and> \<not> load_const l \<and> exited (machine l) = None"

lemma load_code_step:
  "str \<noteq> [] \<Longrightarrow> \<not> had_error l \<Longrightarrow> load_step str l = Some (r, l') \<Longrightarrow> load_code str l = load_code r l'"
  by (subst load_code.simps) simp

lemma load_step_plain:
  assumes "plain l" and "load_inst c cs l = Some (d # r, l')" and "exited (machine l') = None"
  shows "load_step (c # cs) l = Some (r, l')"
  using assms by (simp add: load_step_def plain_def advance_def peek_def)

text \<open>Digits and a point inside a constant.\<close>

lemma load_digit_loading:
  assumes l: "loading l0 func f0 bytes l" and d: "digit d"
  shows "\<exists>l'. load_digit (bcd_char d) l = Some l' \<and> loading l0 func f0 (bytes @ [num_char d]) l' \<and> load_str l' = load_str l \<and> load_const l' = load_const l"
proof -
  have v: "char_val (bcd_char d) = d + 48" "signed_char (bcd_char d) = d + 48" "0 \<le> d" "d \<le> 9"
    using char_val_digit [OF d] d by (auto simp: signed_char_def digit_def)
  have ne: "bcd_char d \<noteq> CHR '':''" "bcd_char d \<noteq> CHR ''.''" using v(1,4) d by (auto simp: char_val_def)
  have "load_digit (bcd_char d) l = addbyte (num_char d) l" using v ne by (simp add: load_digit_def num_char_def)
  then show ?thesis using addbyte_loading [OF l] by simp
qed

lemma load_digits:
  assumes "loading l0 func f0 bytes l" and "load_const l" and "\<not> load_str l" and "digits ds"
  shows "\<exists>l'. load_code (map bcd_char ds @ cs) l = load_code cs l' \<and> loading l0 func f0 (bytes @ map num_char ds) l' \<and> \<not> load_str l' \<and> load_const l'"
  using assms
proof (induction ds arbitrary: bytes l)
  case Nil
  then show ?case by (intro exI [of _ l]) simp
next
  case (Cons d ds)
  have d: "digit d" "digits ds" using Cons.prems(4) by (simp_all add: digits_def)
  obtain l1 where l1: "load_digit (bcd_char d) l = Some l1" "loading l0 func f0 (bytes @ [num_char d]) l1" "\<not> load_str l1" "load_const l1"
    using load_digit_loading [OF Cons.prems(1) d(1)] Cons.prems(2,3) by auto
  have "bcd_char d \<noteq> newline" using char_val_digit [OF d(1)] d(1) by (auto simp: char_val_def digit_def)
  then have "load_step (bcd_char d # map bcd_char ds @ cs) l = Some (map bcd_char ds @ cs, l1)"
    using Cons.prems(2,3) l1(1) by (simp add: load_step_def peek_def advance_def)
  then have "load_code (map bcd_char (d # ds) @ cs) l = load_code (map bcd_char ds @ cs) l1"
    using loading_sel(1) [OF Cons.prems(1)] by (simp add: load_code_step)
  then show ?case using Cons.IH [OF l1(2) l1(4) l1(3) d(2)] by simp
qed

lemma load_point:
  assumes "loading l0 func f0 bytes l" and "load_const l" and "\<not> load_str l" and "c = CHR ''.'' \<or> c = CHR '':''"
  shows "\<exists>l'. load_code (c # cs) l = load_code cs l' \<and> loading l0 func f0 (bytes @ [c]) l' \<and> \<not> load_str l' \<and> (load_const l' \<longleftrightarrow> c = CHR ''.'')"
proof -
  let ?l = "if c = CHR '':'' then l\<lparr>load_const := False\<rparr> else l"
  have "loading l0 func f0 bytes ?l" using assms(1) loading_flags by simp
  then obtain l1 where l1: "addbyte c ?l = Some l1" "loading l0 func f0 (bytes @ [c]) l1" "load_str l1 = load_str ?l" "load_const l1 = load_const ?l"
    using addbyte_loading by blast
  have "load_step (c # cs) l = Some (cs, l1)"
    using assms(2-4) l1(1) by (auto simp: load_step_def peek_def advance_def load_digit_def)
  then show ?thesis using loading_sel(1) [OF assms(1)] l1 assms(2-4) load_code_step [of "c # cs" l cs l1] by auto
qed

text \<open>The instruction characters that the loader copies.\<close>

definition copied :: "char \<Rightarrow> bool" where
  "copied c \<longleftrightarrow> \<not> (c = CHR ''N'' \<or> c = CHR ''B'' \<or> c = CHR ''J'' \<or> c = CHR ''Z'' \<or> c = CHR ''F'' \<or> c = CHR ''C'' \<or> c = CHR ''c'' \<or> c = CHR ''K''
     \<or> c = CHR ''d'' \<or> c = CHR ''i'' \<or> c = CHR ''l'' \<or> c = CHR ''s'' \<or> c = CHR ''A'' \<or> c = CHR ''M'' \<or> c = CHR ''L'' \<or> c = CHR ''S''
     \<or> c = CHR ''@'' \<or> c = CHR '']'' \<or> c = CHR 0x22 \<or> c = newline)"

lemma load_inst_copied: "copied c \<Longrightarrow> load_inst c cs l = do { l \<leftarrow> addbyte c l; Some (c # cs, l) }"
  by (simp add: load_inst_def copied_def)

lemma load_inst_name:
  "c \<in> set ''dils'' \<Longrightarrow> load_inst c cs l = do { l \<leftarrow> addbyte c l; (v, str) \<leftarrow> long_val cs; l \<leftarrow> add_name (unsigned_long v) l; Some (str, l) }"
  by (simp, elim disjE) (simp_all add: load_inst_def)

lemma stack_use_copied: "stack_use (Op c) \<noteq> None \<Longrightarrow> copied c"
proof (rule ccontr)
  assume u: "stack_use (Op c) \<noteq> None" and n: "\<not> copied c"
  from n have "c = CHR ''N'' \<or> c = CHR ''B'' \<or> c = CHR ''J'' \<or> c = CHR ''Z'' \<or> c = CHR ''F'' \<or> c = CHR ''C'' \<or> c = CHR ''c'' \<or> c = CHR ''K''
     \<or> c = CHR ''d'' \<or> c = CHR ''i'' \<or> c = CHR ''l'' \<or> c = CHR ''s'' \<or> c = CHR ''A'' \<or> c = CHR ''M'' \<or> c = CHR ''L'' \<or> c = CHR ''S''
     \<or> c = CHR ''@'' \<or> c = CHR '']'' \<or> c = CHR 0x22 \<or> c = newline" by (simp only: copied_def not_not)
  then have "stack_use (Op c) = None" by (elim disjE) (simp_all add: two_ops_def arith_ops_def cmp_ops_def logic_ops_def)
  then show False using u by simp
qed

lemma load_var_text:
  assumes "loading l0 func f0 bytes l" and "plain l" and "c \<in> set ''dils''" and "v < 32768"
  shows "\<exists>l'. load_code (c # long_str (int v) @ CHR '':'' # cs) l = load_code cs l' \<and> loading l0 func f0 (bytes @ c # name_code v) l' \<and> plain l'"
proof -
  obtain l1 where l1: "addbyte c l = Some l1" "loading l0 func f0 (bytes @ [c]) l1" "load_str l1 = load_str l" "load_const l1 = load_const l"
    using addbyte_loading [OF assms(1)] by blast
  obtain l2 where l2: "add_name v l1 = Some l2" "loading l0 func f0 ((bytes @ [c]) @ name_code v) l2" "load_str l2 = load_str l1" "load_const l2 = load_const l1"
    using add_name_loading [OF l1(2) assms(4)] by blast
  have lv: "long_val (long_str (int v) @ CHR '':'' # cs) = Some (int v, CHR '':'' # cs)"
    by (rule long_val_str) (use assms(4) in \<open>simp_all add: isdigit_def\<close>)
  have "unsigned_long (int v) = v" using assms(4) by (simp add: unsigned_long_def)
  then have i: "load_inst c (long_str (int v) @ CHR '':'' # cs) l = Some (CHR '':'' # cs, l2)"
    using load_inst_name [OF assms(3)] l1(1) lv l2(1) by simp
  have p: "plain l2" using assms(2) l1 l2 loading_sel(3) [OF assms(1)] loading_sel(3) [OF l2(2)] by (simp add: plain_def)
  then have "load_step (c # long_str (int v) @ CHR '':'' # cs) l = Some (cs, l2)"
    by (intro load_step_plain [OF assms(2) i]) (simp add: plain_def)
  then show ?thesis using load_code_step loading_sel(1) [OF assms(1)] l2(2) p by fastforce
qed

lemma load_num_text:
  assumes l: "loading l0 func f0 bytes l" and p: "plain l" and d: "digits (ds @ fs)"
  shows "\<exists>l'. load_code (instr_text (Num ds fs) @ cs) l = load_code cs l' \<and> loading l0 func f0 (bytes @ instr_code (Num ds fs)) l' \<and> plain l'"
proof -
  let ?tail = "(if fs = [] then [] else CHR ''.'' # map bcd_char fs) @ CHR '':'' # cs"
  have dg: "digits ds" "digits fs" using d by (simp_all add: digits_def)
  obtain l1 where l1: "addbyte (CHR ''K'') l = Some l1" "loading l0 func f0 (bytes @ [CHR ''K'']) l1" "load_str l1 = load_str l"
    using addbyte_loading [OF l] by blast
  let ?l1 = "l1\<lparr>load_const := True\<rparr>"
  have i: "load_inst (CHR ''K'') (map bcd_char ds @ ?tail) l = Some (CHR ''K'' # map bcd_char ds @ ?tail, ?l1)"
    using l1(1) by (simp add: load_inst_def)
  have ex: "exited (machine ?l1) = None" using p loading_sel(3) [OF l] loading_sel(3) [OF l1(2)] by (simp add: plain_def)
  have s1: "load_code (CHR ''K'' # map bcd_char ds @ ?tail) l = load_code (map bcd_char ds @ ?tail) ?l1"
    using load_code_step [OF _ loading_sel(1) [OF l] load_step_plain [OF p i ex]] by simp
  have lo: "loading l0 func f0 (bytes @ [CHR ''K'']) ?l1" "load_const ?l1" "\<not> load_str ?l1"
    using loading_flags [OF l1(2)] l1(3) p by (simp_all add: plain_def)
  obtain l2 where l2: "load_code (map bcd_char ds @ ?tail) ?l1 = load_code ?tail l2"
    "loading l0 func f0 ((bytes @ [CHR ''K'']) @ map num_char ds) l2" "\<not> load_str l2" "load_const l2"
    using load_digits [OF lo dg(1)] by blast
  let ?frac = "if fs = [] then [] else CHR ''.'' # map num_char fs"
  obtain l3 where l3: "load_code ?tail l2 = load_code (CHR '':'' # cs) l3"
    "loading l0 func f0 (((bytes @ [CHR ''K'']) @ map num_char ds) @ ?frac) l3" "\<not> load_str l3" "load_const l3"
  proof (cases "fs = []")
    case True
    then show ?thesis using that [of l2] l2 by simp
  next
    case False
    obtain l3 where l3: "load_code (CHR ''.'' # map bcd_char fs @ CHR '':'' # cs) l2 = load_code (map bcd_char fs @ CHR '':'' # cs) l3"
      "loading l0 func f0 (((bytes @ [CHR ''K'']) @ map num_char ds) @ [CHR ''.'']) l3" "\<not> load_str l3" "load_const l3"
      using load_point [OF l2(2,4,3), of "CHR ''.''" "map bcd_char fs @ CHR '':'' # cs"] by auto
    show ?thesis using load_digits [OF l3(2,4,3) dg(2), of "CHR '':'' # cs"] that False l3(1) by auto
  qed
  obtain l4 where l4: "load_code (CHR '':'' # cs) l3 = load_code cs l4"
    "loading l0 func f0 ((((bytes @ [CHR ''K'']) @ map num_char ds) @ ?frac) @ [CHR '':'']) l4" "\<not> load_str l4" "\<not> load_const l4"
    using load_point [OF l3(2,4,3), of "CHR '':''" cs] by auto
  have "exited (machine l4) = None" using p loading_sel(3) [OF l] loading_sel(3) [OF l4(2)] by (simp add: plain_def)
  then have "plain l4" using l4 by (simp add: plain_def)
  moreover have "loading l0 func f0 (bytes @ instr_code (Num ds fs)) l4" using l4(2) by (simp add: const_code_def)
  moreover have "load_code (instr_text (Num ds fs) @ cs) l = load_code cs l4" using s1 l2(1) l3(1) l4(1) by simp
  ultimately show ?thesis by blast
qed

lemma load_instr:
  assumes l: "loading l0 func f0 bytes l" and p: "plain l" and u: "stack_use i \<noteq> None" and v: "\<And>v. instr_var i = Some v \<Longrightarrow> v < 32768"
  shows "\<exists>l'. load_code (instr_text i @ cs) l = load_code cs l' \<and> loading l0 func f0 (bytes @ instr_code i) l' \<and> plain l'"
proof (cases i)
  case (Op c)
  have c: "copied c" using stack_use_copied u Op by blast
  obtain l1 where l1: "addbyte c l = Some l1" "loading l0 func f0 (bytes @ [c]) l1" "load_str l1 = load_str l" "load_const l1 = load_const l"
    using addbyte_loading [OF l] by blast
  have p1: "plain l1" using p l1 loading_sel(3) [OF l] loading_sel(3) [OF l1(2)] by (simp add: plain_def)
  have "load_inst c cs l = Some (c # cs, l1)" using load_inst_copied [OF c] l1(1) by simp
  then have "load_step (c # cs) l = Some (cs, l1)" using load_step_plain [OF p] p1 by (simp add: plain_def)
  then show ?thesis using load_code_step [of "c # cs" l cs l1] loading_sel(1) [OF l] l1(2) p1 Op by auto
next
  case (Num ds fs)
  have "digits (ds @ fs)" using u Num by (simp split: if_splits)
  then show ?thesis using load_num_text [OF l p] Num by simp
qed (use load_var_text [OF l p _ v] in auto)

definition instrs_text :: "instr list \<Rightarrow> string" where
  "instrs_text is = concat (map instr_text is)"

lemma load_instrs:
  assumes "loading l0 func f0 bytes l" and "plain l" and "fits n is" and "\<And>i v. i \<in> set is \<Longrightarrow> instr_var i = Some v \<Longrightarrow> v < 32768"
  shows "\<exists>l'. load_code (instrs_text is @ cs) l = load_code cs l' \<and> loading l0 func f0 (bytes @ instrs_code is) l' \<and> plain l'"
  using assms
proof (induction "is" arbitrary: n bytes l)
  case Nil
  then show ?case by (intro exI [of _ l]) (simp add: instrs_text_def instrs_code_def)
next
  case (Cons i "is")
  obtain need leave where u: "stack_use i = Some (need, leave)" "fits (n - need + leave) is" using Cons.prems(3) by (auto split: option.splits)
  have v: "\<And>v. instr_var i = Some v \<Longrightarrow> v < 32768" using Cons.prems(4) [of i] by simp
  obtain l1 where l1: "load_code (instr_text i @ instrs_text is @ cs) l = load_code (instrs_text is @ cs) l1"
    "loading l0 func f0 (bytes @ instr_code i) l1" "plain l1" using load_instr [OF Cons.prems(1,2) _ v] u(1) by blast
  have "\<exists>l'. load_code (instrs_text is @ cs) l1 = load_code cs l' \<and> loading l0 func f0 ((bytes @ instr_code i) @ instrs_code is) l' \<and> plain l'"
    by (rule Cons.IH [OF l1(2,3) u(2)]) (use Cons.prems(4) in auto)
  then show ?case using l1(1) by (simp add: instrs_text_def instrs_code_def)
qed

section \<open>Labels\<close>

text \<open>The address of a label, as the jump instructions find it.\<close>

definition label_adr :: "bc_function \<Rightarrow> nat \<Rightarrow> nat option" where
  "label_adr f lab = do {
     gp \<leftarrow> walk_groups (lab div 64) (f_label f);
     (case gp of g # gs \<Rightarrow> do { adr \<leftarrow> rd g (int (lab mod 64)); adr } | [] \<Rightarrow> None)
   }"

definition labels_ok :: "bc_label_group list \<Rightarrow> bool" where
  "labels_ok gs \<longleftrightarrow> (\<forall>g \<in> set gs. length g = 64)"

lemma walk_groups_drop: "walk_groups n gs = (if n \<le> length gs then Some (drop n gs) else None)"
  by (induction n gs rule: walk_groups.induct) auto

definition group_at :: "bc_label_group list \<Rightarrow> nat \<Rightarrow> bc_label_group" where
  "group_at gs n = (if n < length gs then gs ! n else new_group)"

lemma label_walk_spec:
  assumes "gs \<noteq> []" and "labels_ok gs" and "offset < 64"
  shows "\<exists>gs'. label_walk grp offset adr gs = Some gs' \<and> labels_ok gs' \<and> grp < length gs' \<and> length gs \<le> length gs'
     \<and> (\<forall>n < length gs'. gs' ! n = (if n = grp then (group_at gs n)[offset := Some adr] else group_at gs n))"
  using assms
proof (induction grp offset adr gs rule: label_walk.induct)
  case (2 offset adr g gs)
  have "wr g (int offset) (Some adr) = Some (g[offset := Some adr])" using "2.prems" by (intro wr_nat) (simp add: labels_ok_def)
  then show ?case using "2.prems" by (auto simp: labels_ok_def group_at_def nth_Cons')
next
  case (3 grp offset adr g gs)
  let ?gs = "if gs = [] then [new_group] else gs"
  have ne: "?gs \<noteq> []" and ok: "labels_ok ?gs" using "3.prems" by (auto simp: labels_ok_def new_group_def)
  obtain gs' where gs': "label_walk grp offset adr ?gs = Some gs'" "labels_ok gs'" "grp < length gs'" "length ?gs \<le> length gs'"
    "\<forall>n < length gs'. gs' ! n = (if n = grp then (group_at ?gs n)[offset := Some adr] else group_at ?gs n)"
    using "3.IH" [OF ne ok "3.prems"(3)] by blast
  have grp: "group_at ?gs n = group_at (g # gs) (Suc n)" for n by (auto simp: group_at_def)
  have "(g # gs') ! n = (if n = Suc grp then (group_at (g # gs) n)[offset := Some adr] else group_at (g # gs) n)" if "n < length (g # gs')" for n
    using that gs'(5) grp by (cases n) (simp_all add: group_at_def)
  then show ?case using gs' "3.prems" by (intro exI [of _ "g # gs'"]) (auto simp: labels_ok_def split: if_splits)
qed simp

lemma label_adr_group:
  "label_adr f lab = (if lab div 64 < length (f_label f) then do { adr \<leftarrow> rd (f_label f ! (lab div 64)) (int (lab mod 64)); adr } else None)"
proof (cases "lab div 64 < length (f_label f)")
  case True
  then show ?thesis by (simp add: label_adr_def walk_groups_drop Cons_nth_drop_Suc [symmetric])
qed (auto simp: label_adr_def walk_groups_drop)

lemma def_label_spec:
  assumes fn: "bc_functions (machine l) (pc_func (load_adr l)) = Some f" and ok: "labels_ok (f_label f)"
  shows "\<exists>gs. def_label lab l = Some (l\<lparr>machine := (machine l)\<lparr>bc_functions := (bc_functions (machine l))(pc_func (load_adr l) \<mapsto> f\<lparr>f_label := gs\<rparr>)\<rparr>\<rparr>)
     \<and> labels_ok gs \<and> label_adr (f\<lparr>f_label := gs\<rparr>) lab = Some (pc_addr (load_adr l))
     \<and> (\<forall>lab'. lab' \<noteq> lab \<longrightarrow> label_adr (f\<lparr>f_label := gs\<rparr>) lab' = label_adr f lab')"
proof -
  let ?gs = "if f_label f = [] then [new_group] else f_label f" and ?adr = "pc_addr (load_adr l)"
  have "labels_ok ?gs" "?gs \<noteq> []" using ok by (auto simp: labels_ok_def new_group_def)
  then obtain gs where gs: "label_walk (lab div 64) (lab mod 64) ?adr ?gs = Some gs" "labels_ok gs" "lab div 64 < length gs" "length ?gs \<le> length gs"
    "\<forall>n < length gs. gs ! n = (if n = lab div 64 then (group_at ?gs n)[lab mod 64 := Some ?adr] else group_at ?gs n)"
    using label_walk_spec [of ?gs "lab mod 64" "lab div 64" ?adr] by auto
  have len: "length (group_at ?gs n) = 64" for n using ok by (auto simp: group_at_def labels_ok_def new_group_def)
  have same: "group_at ?gs n = group_at (f_label f) n" for n by (auto simp: group_at_def)
  have old: "label_adr f lab' = do { adr \<leftarrow> rd (group_at (f_label f) (lab' div 64)) (int (lab' mod 64)); adr }" for lab'
    unfolding label_adr_group by (simp add: group_at_def new_group_def rd_nat)
  have new: "label_adr (f\<lparr>f_label := gs\<rparr>) lab' = (if lab' = lab then Some ?adr else label_adr f lab')" for lab'
  proof (cases "lab' div 64 < length gs")
    case True
    have "lab' = lab \<longleftrightarrow> lab' div 64 = lab div 64 \<and> lab' mod 64 = lab mod 64" by (metis div_mult_mod_eq)
    then show ?thesis using True gs(5) len [of "lab' div 64"] unfolding label_adr_group [of "f\<lparr>f_label := gs\<rparr>"] old [of lab'] same
      by (auto simp: rd_def nth_list_update)
  next
    case False
    then have "lab' \<noteq> lab" "\<not> lab' div 64 < length (f_label f)" using gs(3,4) by (auto split: if_splits)
    then show ?thesis using False by (simp add: label_adr_group)
  qed
  show ?thesis using gs(1,2) fn new by (intro exI [of _ gs]) (simp add: def_label_def upd_func_def Let_def)
qed

lemma exec_jump_code:
  assumes cd: "code_at (char_of (lab mod 256) # char_of (lab div 256) # cs) s" and lab: "lab < 65536"
    and fn: "bc_functions s (pc_func (pc s)) = Some f" and adr: "label_adr f lab = Some adr"
  shows "exec_jump inst s = Some (if inst = CHR ''J'' \<or> inst = CHR ''B'' \<and> c_code s \<or> inst = CHR ''Z'' \<and> \<not> c_code s
           then s\<lparr>pc := (pc s)\<lparr>pc_addr := adr\<rparr>\<rparr> else skip_code 2 s)"
proof -
  note f = next_byte_code [OF cd]
  note g = next_byte_code [OF f(2)]
  have hi: "lab div 256 < 256" using lab by simp
  have ln: "lab mod 256 + lab div 256 * 256 = lab" by simp
  have sk: "skip_code 1 (skip_code 1 s) = skip_code 2 s" by (simp add: skip_code_def)
  obtain gr gs a where gr: "walk_groups (lab div 64) (f_label f) = Some (gr # gs)" "rd gr (int (lab mod 64)) = Some (Some a)" "a = adr"
    using adr by (auto simp: label_adr_def split: bind_splits list.splits)
  show ?thesis using f(1) g(1) hi fn gr unfolding exec_jump_def sk
    by (simp add: ln skip_code_def)
qed

section \<open>Properties\<close>

text \<open>
  C23: a label and the jumps to it: \<open>def_label\<close> gives the label the current address and leaves every other label of the function
  where it was, for any label number; a jump, or a branch whose condition holds, that is executed in that function continues at
  this address, and a branch whose condition does not hold goes on behind its operand.
\<close>

theorem label_jump_correct:
  assumes "bc_functions (machine l) (pc_func (load_adr l)) = Some f" and "labels_ok (f_label f)" and lab: "lab < 65536"
  shows "\<exists>l' f'. def_label lab l = Some l' \<and> bc_functions (machine l') (pc_func (load_adr l)) = Some f' \<and> labels_ok (f_label f')
     \<and> label_adr f' lab = Some (pc_addr (load_adr l)) \<and> (\<forall>lab'. lab' \<noteq> lab \<longrightarrow> label_adr f' lab' = label_adr f lab')
     \<and> (\<forall>s inst cs. bc_functions s (pc_func (pc s)) = Some f' \<and> code_at (char_of (lab mod 256) # char_of (lab div 256) # cs) s
          \<longrightarrow> exec_jump inst s = Some (if inst = CHR ''J'' \<or> inst = CHR ''B'' \<and> c_code s \<or> inst = CHR ''Z'' \<and> \<not> c_code s
                then s\<lparr>pc := (pc s)\<lparr>pc_addr := pc_addr (load_adr l)\<rparr>\<rparr> else skip_code 2 s))"
proof -
  obtain gs where gs: "def_label lab l = Some (l\<lparr>machine := (machine l)\<lparr>bc_functions := (bc_functions (machine l))(pc_func (load_adr l) \<mapsto> f\<lparr>f_label := gs\<rparr>)\<rparr>\<rparr>)"
     "labels_ok gs" "label_adr (f\<lparr>f_label := gs\<rparr>) lab = Some (pc_addr (load_adr l))"
     "\<forall>lab'. lab' \<noteq> lab \<longrightarrow> label_adr (f\<lparr>f_label := gs\<rparr>) lab' = label_adr f lab'"
    using def_label_spec [OF assms(1,2)] by blast
  show ?thesis unfolding gs(1)
    by (intro exI conjI, rule refl, simp, simp add: gs(2), rule gs(3), rule gs(4)) (use exec_jump_code [OF _ lab _ gs(3)] in blast)
qed

text \<open>
  C2: the text of straight-line code between \<open>@i\<close> and \<open>@r\<close>, as the parser writes it: loading it clears the main
  program, puts the code of the instructions there, however long it is, and runs it. The variables then have the values that the machine
  on rationals computes, or there was a runtime error at an instruction that this machine cannot do.
\<close>

theorem load_and_run_correct:
  assumes "bc_functions (machine l) 0 = Some f" and "f_body f \<noteq> []" and "plain l" and "\<not> had_error l" and "fits 0 is"
    and "ex_stack (machine l) = []" and "vars_ok (machine l)" and "i_base (machine l) = 10"
    and "\<forall>i \<in> set is. \<forall>v. instr_var i = Some v \<longrightarrow> 3 < v \<and> v < 32768 \<and> var_live v (machine l)"
  shows "\<exists>r. load_code (''@i'' @ instrs_text is @ ''@r'') l = Some r \<and> \<not> had_error r \<and> ex_stack (machine r) = []
     \<and> (if runtime_error (machine r)
        then \<exists>st. rat_stuck (nat (scale (machine l))) is ([], snd (rats (machine l))) (st, snd (rats (machine r)))
        else \<exists>st. rat_steps (nat (scale (machine l))) is ([], snd (rats (machine l))) (st, snd (rats (machine r))))"
proof -
  let ?f = "f\<lparr>f_defined := False, f_code_size := 0, f_autos := [], f_params := [], f_label := []\<rparr>"
  let ?l = "l\<lparr>machine := (machine l)\<lparr>bc_functions := (bc_functions (machine l))(0 \<mapsto> ?f)\<rparr>, load_adr := \<lparr>pc_func = 0, pc_addr = 0\<rparr>,
    load_str := False, load_const := False\<rparr>"
  have init: "init_load l = Some ?l" using assms(1) by (simp add: init_load_def clear_func_def upd_func_def)
  have fe: "?f\<lparr>f_body := f_body f, f_code_size := length ([] :: char list)\<rparr> = ?f" by (cases f) simp
  have "loading ?l 0 ?f [] ?l" unfolding loading_def
  proof (intro conjI exI [of _ "f_body f"], goal_cases)
    case 2
    show ?case unfolding fe by (cases l) simp
  qed (use assms(2,4) in simp_all)
  moreover have "plain ?l" using assms(3) by (simp add: plain_def)
  ultimately obtain l' where l': "load_code (instrs_text is @ ''@r'') ?l = load_code ''@r'' l'" "loading ?l 0 ?f ([] @ instrs_code is) l'" "plain l'"
    using load_instrs [of ?l 0 ?f "[]" ?l 0 "is" "''@r''"] assms(5,9) by blast
  have "load_inst (CHR ''@'') (CHR ''i'' # instrs_text is @ ''@r'') l = Some (CHR ''i'' # instrs_text is @ ''@r'', ?l)"
    using init by (simp add: load_inst_def peek_def)
  then have start: "load_code (''@i'' @ instrs_text is @ ''@r'') l = load_code ''@r'' l'"
    using load_step_plain [OF assms(3)] assms(3,4) l'(1) load_code_step [of "''@i'' @ instrs_text is @ ''@r''" l "instrs_text is @ ''@r''" ?l]
    by (simp add: plain_def)
  obtain body where eq: "l' = ?l\<lparr>machine := (machine ?l)\<lparr>bc_functions := (bc_functions (machine ?l))(0 \<mapsto> ?f\<lparr>f_body := body, f_code_size := length (instrs_code is)\<rparr>)\<rparr>,
      load_adr := \<lparr>pc_func = 0, pc_addr = length (instrs_code is)\<rparr>, load_str := load_str l', load_const := load_const l'\<rparr>"
    "take (length (instrs_code is)) body = map Some (instrs_code is)"
    using l'(2) unfolding loading_def append_Nil by blast
  have m: "machine l' = (machine l)\<lparr>bc_functions := (bc_functions (machine l))(0 \<mapsto> ?f\<lparr>f_body := body, f_code_size := length (instrs_code is)\<rparr>)\<rparr>"
    by (subst eq(1)) simp
  have main: "main_code is (machine l')" using m eq(2) by (simp add: main_code_def)
  have cong: "vars_ok (machine l')" "\<forall>i \<in> set is. \<forall>v. instr_var i = Some v \<longrightarrow> 3 < v \<and> v < 32768 \<and> var_live v (machine l')"
    "ex_stack (machine l') = []" "i_base (machine l') = 10" "exited (machine l') = None" "scale (machine l') = scale (machine l)"
    "snd (rats (machine l')) = snd (rats (machine l))"
    using assms(3,6-9) unfolding m by (simp_all add: vars_ok_def var_live_def plain_def rats_def var_val_def)
  obtain t where t: "execute (machine l') = Some t" "ex_stack t = []"
    "if runtime_error t then \<exists>st. rat_stuck (nat (scale (machine l))) is ([], snd (rats (machine l))) (st, snd (rats t))
     else \<exists>st. rat_steps (nat (scale (machine l))) is ([], snd (rats (machine l))) (st, snd (rats t))"
    using execute_lines [OF main assms(5) cong(3,1,4,5,2)] unfolding cong by blast
  have e: "\<not> had_error l'" by (rule loading_sel(1) [OF l'(2)])
  have "load_inst (CHR ''@'') ''r'' l' = Some (''r'', l'\<lparr>machine := t\<rparr>)" using t(1) by (simp add: load_inst_def peek_def)
  then have "load_step ''@r'' l' = Some ([], l'\<lparr>machine := t\<rparr>)" using l'(3) by (simp add: load_step_def plain_def peek_def advance_def)
  then have "load_code ''@r'' l' = Some (l'\<lparr>machine := t\<rparr>)" using load_code_step [of "''@r''" l' "[]" "l'\<lparr>machine := t\<rparr>"] e by (simp add: load_code.simps)
  then show ?thesis using start t(2,3) e by (intro exI [of _ "l'\<lparr>machine := t\<rparr>"]) simp
qed

text \<open>An empty loader on a fresh machine.\<close>

definition fresh_loader :: loader where
  "fresh_loader = \<lparr>machine = init_storage zero_state, load_adr = \<lparr>pc_func = 0, pc_addr = 0\<rparr>, load_str = False, load_const = False,
     save_adr = \<lparr>pc_func = 0, pc_addr = 0\<rparr>, had_error = False, errors = []\<rparr>"

lemma fresh_loader_sel:
  "machine fresh_loader = init_storage zero_state" "plain fresh_loader" "\<not> had_error fresh_loader" "load_adr fresh_loader = \<lparr>pc_func = 0, pc_addr = 0\<rparr>"
  "bc_functions (init_storage zero_state) 0 = Some new_function" "f_body new_function \<noteq> []" "f_label new_function = []"
  "ex_stack (init_storage zero_state) = []" "i_base (init_storage zero_state) = 10" "scale (init_storage zero_state) = 0"
  "snd (rats (init_storage zero_state)) = (\<lambda>v. 0)" "3 \<le> v \<Longrightarrow> v < 32 \<Longrightarrow> var_live v (init_storage zero_state)"
  by (simp_all add: fresh_loader_def plain_def init_storage_def more_functions_def more_variables_def more_arrays_def Let_def zero_state_def
      new_function_def rats_def var_val_def fun_eq_iff var_live_def)

theorem load_and_run_correct_witness:
  "\<exists>r. load_code (''@iK12.5:1+s5:p@r'') fresh_loader = Some r \<and> (runtime_error (machine r) \<or> bc_val (var_val (machine r) 5) = 27 / 2)"
proof -
  let ?is = "[Num [1, 2] [5], Op (CHR ''1''), Op (CHR ''+''), Store 5, Op (CHR ''p'')]"
  note fr = fresh_loader_sel
  have one: "bcd_char 1 = CHR ''1''" by code_simp
  have tx: "''@i'' @ instrs_text ?is @ ''@r'' = ''@iK12.5:1+s5:p@r''"
    using one by (simp add: instrs_text_def long_str_def dec_str.simps bcd_char_numerals)
  have fit: "fits 0 ?is" by (simp add: stack_use_ops two_ops_def arith_ops_def cmp_ops_def logic_ops_def digits_def digit_def)
  have v: "\<forall>i \<in> set ?is. \<forall>v. instr_var i = Some v \<longrightarrow> 3 < v \<and> v < 32768 \<and> var_live v (machine fresh_loader)"
    using fr(12) [of 5] by (simp add: fr(1))
  obtain r where r: "load_code (''@i'' @ instrs_text ?is @ ''@r'') fresh_loader = Some r"
    "\<not> runtime_error (machine r) \<Longrightarrow> \<exists>st. rat_steps 0 ?is ([], \<lambda>v. 0) (st, snd (rats (machine r)))"
    using load_and_run_correct [of fresh_loader new_function ?is] fit v fr init_vars(2) [of zero_state] by (auto split: if_splits)
  have "bc_val (var_val (machine r) 5) = 27 / 2" if e: "\<not> runtime_error (machine r)"
  proof -
    obtain st where "rat_steps 0 ?is ([], \<lambda>v. 0) (st, snd (rats (machine r)))" using r(2) [OF e] by blast
    then have "snd (rats (machine r)) 5 = 27 / 2" by (auto simp: rat_steps_simps some_steps dval_Cons)
    then show ?thesis by (simp add: rats_def)
  qed
  then show ?thesis using r(1) tx by auto
qed

theorem label_jump_correct_witness:
  "\<exists>l' f'. def_label 100 fresh_loader = Some l' \<and> bc_functions (machine l') 0 = Some f' \<and> label_adr f' 100 = Some 0"
proof -
  note fr = fresh_loader_sel
  have "bc_functions (machine fresh_loader) (pc_func (load_adr fresh_loader)) = Some new_function" "labels_ok (f_label new_function)"
    by (simp_all add: fr labels_ok_def)
  from label_jump_correct [OF this, of 100] show ?thesis by (auto simp: fr)
qed

end
