(* ===== verification/BcNames.thy ===== *)
theory BcNames
  imports BcLoad
begin

text \<open>
  The tables of the parser (\<^verbatim>\<open>usr.bin/bc/util.c\<close>): the balanced tree of names and the numbers that names get,
  argument lists and their text in the generated code, and the check of parameters and automatic variables.
\<close>

section \<open>The name tree\<close>

record id_entry =
  id :: string
  a_name :: int
  f_name :: int
  v_name :: int

text \<open>\<open>id_rec\<close>: the entry, the balance, and the two subtrees.\<close>

datatype id_rec = Null | Node (entry: id_entry) (balance: int) (left: id_rec) (right: id_rec)

text \<open>The order of \<open>strcmp\<close>: the first difference of the characters as unsigned bytes.\<close>

fun strcmp :: "string \<Rightarrow> string \<Rightarrow> int" where
  "strcmp [] [] = 0"
| "strcmp [] (d # ds) = -1"
| "strcmp (c # cs) [] = 1"
| "strcmp (c # cs) (d # ds) = (if char_val c < char_val d then -1 else if char_val d < char_val c then 1 else strcmp cs ds)"

fun find_id :: "id_rec \<Rightarrow> string \<Rightarrow> id_entry option" where
  "find_id Null s = None"
| "find_id (Node e b l r) s = (
     let cmp_result = strcmp s (id e)
     in if cmp_result = 0 then Some e else if cmp_result < 0 then find_id l s else find_id r s)"

text \<open>The rebalancing of a left and of a right subtree that has become too high, with \<open>A\<close> the old root.\<close>

fun rebalance_left :: "id_entry \<Rightarrow> id_rec \<Rightarrow> id_rec \<Rightarrow> id_rec option" where
  "rebalance_left a (Node b bb bl br) ar = (
     if bb \<le> 0 then Some (Node b 0 bl (Node a 0 br ar))
     else (case br of
         Node c bc cl cr \<Rightarrow> Some (Node c 0
           (Node b (if bc = 1 then -1 else if bc = 0 \<or> bc = -1 then 0 else bb) bl cl)
           (Node a (if bc = -1 then 1 else if bc = 0 \<or> bc = 1 then 0 else -2) cr ar))
       | Null \<Rightarrow> None))"
| "rebalance_left a Null ar = None"

fun rebalance_right :: "id_entry \<Rightarrow> id_rec \<Rightarrow> id_rec \<Rightarrow> id_rec option" where
  "rebalance_right a al (Node b bb bl br) = (
     if bb \<ge> 0 then Some (Node b 0 (Node a 0 al bl) br)
     else (case bl of
         Node c bc cl cr \<Rightarrow> Some (Node c 0
           (Node a (if bc = 1 then -1 else if bc = 0 \<or> bc = -1 then 0 else 2) al cl)
           (Node b (if bc = -1 then 1 else if bc = 0 \<or> bc = 1 then 0 else bb) cr br))
       | Null \<Rightarrow> None))"
| "rebalance_right a al Null = None"

text \<open>The tree and whether it has become higher.\<close>

fun insert_id_rec :: "id_rec \<Rightarrow> id_entry \<Rightarrow> (id_rec \<times> bool) option" where
  "insert_id_rec Null new_id = Some (Node new_id 0 Null Null, True)"
| "insert_id_rec (Node e b l r) new_id = (
     if strcmp (id new_id) (id e) < 0
     then do {
       (l, grown) \<leftarrow> insert_id_rec l new_id;
       if \<not> grown then Some (Node e b l r, False)
       else if b - 1 = 0 then Some (Node e 0 l r, False)
       else if b - 1 = -1 then Some (Node e (-1) l r, True)
       else if b - 1 = -2 then do { t \<leftarrow> rebalance_left e l r; Some (t, False) }
       else Some (Node e (b - 1) l r, False)
     }
     else do {
       (r, grown) \<leftarrow> insert_id_rec r new_id;
       if \<not> grown then Some (Node e b l r, False)
       else if b + 1 = 0 then Some (Node e 0 l r, False)
       else if b + 1 = 1 then Some (Node e 1 l r, True)
       else if b + 1 = 2 then do { t \<leftarrow> rebalance_right e l r; Some (t, False) }
       else Some (Node e (b + 1) l r, False)
     })"

section \<open>Balance, order and content\<close>

fun tree_height :: "id_rec \<Rightarrow> int" where
  "tree_height Null = 0"
| "tree_height (Node e b l r) = 1 + max (tree_height l) (tree_height r)"

fun balanced :: "id_rec \<Rightarrow> bool" where
  "balanced Null = True"
| "balanced (Node e b l r) \<longleftrightarrow> b = tree_height r - tree_height l \<and> \<bar>b\<bar> \<le> 1 \<and> balanced l \<and> balanced r"

fun entries :: "id_rec \<Rightarrow> id_entry list" where
  "entries Null = []"
| "entries (Node e b l r) = entries l @ e # entries r"

abbreviation (input) before :: "string \<Rightarrow> string \<Rightarrow> bool" where
  "before s t \<equiv> strcmp s t < 0"

definition sorted_ids :: "id_rec \<Rightarrow> bool" where
  "sorted_ids t \<longleftrightarrow> sorted_wrt before (map id (entries t))"

lemma strcmp_eq: "strcmp s t = 0 \<longleftrightarrow> s = t"
  by (induction s t rule: strcmp.induct) (auto simp: char_val_def)

lemma strcmp_swap: "strcmp s t < 0 \<longleftrightarrow> strcmp t s > 0"
  by (induction s t rule: strcmp.induct) auto

lemma before_trans: "before s t \<Longrightarrow> before t u \<Longrightarrow> before s u"
proof (induction s u arbitrary: t rule: strcmp.induct)
  case (4 c cs d ds)
  then show ?case by (cases t) (auto split: if_splits)
qed (auto elim: strcmp.elims, (case_tac t; simp)+)

lemma before_total: "s \<noteq> t \<Longrightarrow> before s t \<or> before t s"
  using strcmp_eq [of s t] strcmp_swap [of t s] by linarith

lemma before_irrefl: "\<not> before s s"
  using strcmp_eq [of s s] by simp

lemma tree_height_nonneg: "0 \<le> tree_height t"
  by (induction t) auto

text \<open>Rotations keep the entries and restore the balance.\<close>

lemma rebalance_left_spec:
  assumes "balanced l" and "balanced r" and "tree_height l = tree_height r + 2" and "balance l \<noteq> 0"
  shows "\<exists>t. rebalance_left e l r = Some t \<and> balanced t \<and> tree_height t = tree_height l \<and> entries t = entries l @ e # entries r"
proof -
  obtain b bb bl br where l: "l = Node b bb bl br" using assms(3) tree_height_nonneg [of r] by (cases l) auto
  show ?thesis
  proof (cases "bb \<le> 0")
    case True
    then show ?thesis using assms by (auto simp: l)
  next
    case False
    then obtain c bc cl cr where br: "br = Node c bc cl cr" using assms(1) tree_height_nonneg [of bl] by (cases br) (auto simp: l)
    have "bc = -1 \<or> bc = 0 \<or> bc = 1" using assms(1) by (auto simp: l br)
    then show ?thesis using assms False by (auto simp: l br)
  qed
qed

lemma rebalance_right_spec:
  assumes "balanced l" and "balanced r" and "tree_height r = tree_height l + 2" and "balance r \<noteq> 0"
  shows "\<exists>t. rebalance_right e l r = Some t \<and> balanced t \<and> tree_height t = tree_height r \<and> entries t = entries l @ e # entries r"
proof -
  obtain b bb bl br where r: "r = Node b bb bl br" using assms(3) tree_height_nonneg [of l] by (cases r) auto
  show ?thesis
  proof (cases "bb \<ge> 0")
    case True
    then show ?thesis using assms by (auto simp: r)
  next
    case False
    then obtain c bc cl cr where bl: "bl = Node c bc cl cr" using assms(2) tree_height_nonneg [of br] by (cases bl) (auto simp: r)
    have "bc = -1 \<or> bc = 0 \<or> bc = 1" using assms(2) by (auto simp: r bl)
    then show ?thesis using assms False by (auto simp: r bl)
  qed
qed

text \<open>Where an entry goes: in front of the first one that is not before it.\<close>

definition placed :: "id_entry \<Rightarrow> id_rec \<Rightarrow> id_rec \<Rightarrow> bool" where
  "placed e t t' \<longleftrightarrow> (\<exists>xs ys. entries t = xs @ ys \<and> entries t' = xs @ e # ys
     \<and> (sorted_ids t \<longrightarrow> (\<forall>x \<in> set xs. \<not> before (id e) (id x)) \<and> (\<forall>y \<in> set ys. before (id e) (id y))))"

lemma sorted_ids_Node:
  "sorted_ids (Node x b l r) \<longleftrightarrow> sorted_ids l \<and> sorted_ids r \<and> (\<forall>y \<in> set (entries l). before (id y) (id x))
     \<and> (\<forall>y \<in> set (entries r). before (id x) (id y)) \<and> (\<forall>y \<in> set (entries l). \<forall>z \<in> set (entries r). before (id y) (id z))"
  by (auto simp: sorted_ids_def sorted_wrt_append)

lemma placed_left:
  assumes "placed e l l'" and "before (id e) (id x)" and "entries t' = entries l' @ x # entries r"
  shows "placed e (Node x b l r) t'"
proof -
  obtain xs ys where p: "entries l = xs @ ys" "entries l' = xs @ e # ys"
    "sorted_ids l \<longrightarrow> (\<forall>x \<in> set xs. \<not> before (id e) (id x)) \<and> (\<forall>y \<in> set ys. before (id e) (id y))"
    using assms(1) by (auto simp: placed_def)
  have "\<forall>y \<in> set (entries r). before (id e) (id y)" if "sorted_ids (Node x b l r)"
    using that assms(2) before_trans by (auto simp: sorted_ids_Node)
  then show ?thesis unfolding placed_def using p assms(2,3)
    by (intro exI [of _ xs] exI [of _ "ys @ x # entries r"]) (auto simp: sorted_ids_Node)
qed

lemma placed_right:
  assumes "placed e r r'" and "\<not> before (id e) (id x)" and "entries t' = entries l @ x # entries r'"
  shows "placed e (Node x b l r) t'"
proof -
  obtain xs ys where p: "entries r = xs @ ys" "entries r' = xs @ e # ys"
    "sorted_ids r \<longrightarrow> (\<forall>x \<in> set xs. \<not> before (id e) (id x)) \<and> (\<forall>y \<in> set ys. before (id e) (id y))"
    using assms(1) by (auto simp: placed_def)
  have "\<forall>y \<in> set (entries l). \<not> before (id e) (id y)" if "sorted_ids (Node x b l r)"
    using that assms(2) before_trans by (auto simp: sorted_ids_Node)
  then show ?thesis unfolding placed_def using p assms(2,3)
    by (intro exI [of _ "entries l @ x # xs"] exI [of _ ys]) (auto simp: sorted_ids_Node)
qed

lemma insert_id_rec_spec:
  assumes "balanced t"
  shows "\<exists>t' g. insert_id_rec t e = Some (t', g) \<and> balanced t' \<and> tree_height t' = tree_height t + of_bool g
     \<and> (g \<and> t \<noteq> Null \<longrightarrow> balance t' \<noteq> 0) \<and> (g \<and> t = Null \<longrightarrow> tree_height t' = 1) \<and> placed e t t'"
  using assms
proof (induction t)
  case Null
  show ?case by (intro exI [of _ "Node e 0 Null Null"] exI [of _ True]) (simp add: placed_def)
next
  case (Node x b l r)
  have bal: "balanced l" "balanced r" "b = tree_height r - tree_height l" "\<bar>b\<bar> \<le> 1" using Node.prems unfolding balanced.simps by blast+
  show ?case
  proof (cases "before (id e) (id x)")
    case True
    obtain l' g where l': "insert_id_rec l e = Some (l', g)" "balanced l'" "tree_height l' = tree_height l + of_bool g"
      "g \<and> l \<noteq> Null \<longrightarrow> balance l' \<noteq> 0" "g \<and> l = Null \<longrightarrow> tree_height l' = 1" "placed e l l'" using Node.IH(1) [OF bal(1)] by blast
    have pl: "entries t' = entries l' @ x # entries r \<Longrightarrow> placed e (Node x b l r) t'" for t' by (rule placed_left [OF l'(6) True])
    consider "\<not> g" | "g" "b = 1" | "g" "b = 0" | "g" "b = -1" using bal(4) by linarith
    then show ?thesis
    proof cases
      case 4
      have "l \<noteq> Null" using 4 bal(3) tree_height_nonneg [of r] by auto
      then have "balance l' \<noteq> 0" "tree_height l' = tree_height r + 2" using 4 l'(3,4) bal(3) by auto
      then obtain t where t: "rebalance_left x l' r = Some t" "balanced t" "tree_height t = tree_height l'" "entries t = entries l' @ x # entries r"
        using rebalance_left_spec [OF l'(2) bal(2)] by blast
      then show ?thesis using 4 True l'(1,3) bal(3) pl by auto
    qed (use True l' bal pl in auto)
  next
    case False
    obtain r' g where r': "insert_id_rec r e = Some (r', g)" "balanced r'" "tree_height r' = tree_height r + of_bool g"
      "g \<and> r \<noteq> Null \<longrightarrow> balance r' \<noteq> 0" "g \<and> r = Null \<longrightarrow> tree_height r' = 1" "placed e r r'" using Node.IH(2) [OF bal(2)] by blast
    have pl: "entries t' = entries l @ x # entries r' \<Longrightarrow> placed e (Node x b l r) t'" for t' by (rule placed_right [OF r'(6) False])
    consider "\<not> g" | "g" "b = -1" | "g" "b = 0" | "g" "b = 1" using bal(4) by linarith
    then show ?thesis
    proof cases
      case 4
      have "r \<noteq> Null" using 4 bal(3) tree_height_nonneg [of l] by auto
      then have "balance r' \<noteq> 0" "tree_height r' = tree_height l + 2" using 4 r'(3,4) bal(3) by auto
      then obtain t where t: "rebalance_right x l r' = Some t" "balanced t" "tree_height t = tree_height r'" "entries t = entries l @ x # entries r'"
        using rebalance_right_spec [OF bal(1) r'(2)] by blast
      then show ?thesis using 4 False r'(1,3) bal(3) pl by auto
    qed (use False r' bal pl in auto)
  qed
qed

lemma placed_sorted:
  assumes "placed e t t'" and "sorted_ids t" and "id e \<notin> id ` set (entries t)"
  shows "sorted_ids t'" "set (entries t') = insert e (set (entries t))"
proof -
  obtain xs ys where p: "entries t = xs @ ys" "entries t' = xs @ e # ys" "\<forall>x \<in> set xs. \<not> before (id e) (id x)" "\<forall>y \<in> set ys. before (id e) (id y)"
    using assms(1,2) by (auto simp: placed_def)
  have "before (id x) (id e)" if x: "x \<in> set xs" for x
  proof -
    have "id x \<noteq> id e" using x p(1) assms(3) by (metis Un_iff image_eqI set_append)
    then show ?thesis using before_total [of "id x" "id e"] x p(3) by blast
  qed
  then show "sorted_ids t'" using p assms(2) by (simp add: sorted_ids_def sorted_wrt_append)
  show "set (entries t') = insert e (set (entries t))" using p by auto
qed

lemma find_id_spec:
  assumes "sorted_ids t"
  shows "find_id t s = Some e \<longleftrightarrow> e \<in> set (entries t) \<and> id e = s"
  using assms
proof (induction t)
  case (Node x b l r)
  have ih: "find_id l s = Some e \<longleftrightarrow> e \<in> set (entries l) \<and> id e = s" "find_id r s = Some e \<longleftrightarrow> e \<in> set (entries r) \<and> id e = s"
    using Node by (auto simp: sorted_ids_Node)
  have l: "before (id e) (id x)" if "e \<in> set (entries l)" using Node.prems that by (auto simp: sorted_ids_Node)
  have r: "before (id x) (id e)" if "e \<in> set (entries r)" using Node.prems that by (auto simp: sorted_ids_Node)
  consider "s = id x" | "before s (id x)" | "before (id x) s" using before_total by blast
  then show ?case
  proof cases
    case 1
    then have "find_id (Node x b l r) s = Some x" using strcmp_eq [of s "id x"] by simp
    moreover have "e \<in> set (entries (Node x b l r)) \<and> id e = s \<longleftrightarrow> e = x" using 1 l r before_irrefl [of "id x"] by auto
    ultimately show ?thesis by auto
  next
    case 2
    then have "find_id (Node x b l r) s = find_id l s" by simp
    moreover have "e \<noteq> x" if "id e = s" using that 2 before_irrefl [of "id x"] by auto
    moreover have "e \<notin> set (entries r)" if "id e = s" using that 2 r before_trans [of "id x" s "id x"] before_irrefl [of "id x"] by auto
    ultimately show ?thesis using ih(1) by auto
  next
    case 3
    then have "strcmp s (id x) > 0" using strcmp_swap by blast
    then have "find_id (Node x b l r) s = find_id r s" by simp
    moreover have "e \<noteq> x" if "id e = s" using that 3 before_irrefl [of "id x"] by auto
    moreover have "e \<notin> set (entries l)" if "id e = s" using that 3 l before_trans [of "id x" s "id x"] before_irrefl [of "id x"] by auto
    ultimately show ?thesis using ih(2) by auto
  qed
qed simp

text \<open>The assignments through the pointer that \<open>find_id\<close> returns.\<close>

fun update_id :: "(id_entry \<Rightarrow> id_entry) \<Rightarrow> string \<Rightarrow> id_rec \<Rightarrow> id_rec" where
  "update_id g s Null = Null"
| "update_id g s (Node e b l r) = (
     let cmp_result = strcmp s (id e)
     in if cmp_result = 0 then Node (g e) b l r
        else if cmp_result < 0 then Node e b (update_id g s l) r else Node e b l (update_id g s r))"

section \<open>The interface of a symbol table\<close>

text \<open>
  What \<open>lookup\<close> relies on: a table finds entries by their key; a new entry with a key that is not in the table
  is added to what it finds, and an entry is changed in place.
\<close>

locale symbol_table =
  fixes find :: "'t \<Rightarrow> string \<Rightarrow> 'e option"
    and add :: "'t \<Rightarrow> 'e \<Rightarrow> 't option"
    and change :: "('e \<Rightarrow> 'e) \<Rightarrow> string \<Rightarrow> 't \<Rightarrow> 't"
    and key :: "'e \<Rightarrow> string"
    and ok :: "'t \<Rightarrow> bool"
  assumes add: "ok t \<Longrightarrow> find t (key e) = None \<Longrightarrow> \<exists>t'. add t e = Some t' \<and> ok t' \<and> find t' = (find t)(key e \<mapsto> e)"
    and change: "ok t \<Longrightarrow> (\<And>e. key (g e) = key e) \<Longrightarrow> ok (change g s t) \<and> find (change g s t) = (find t)(s := map_option g (find t s))"
begin

text \<open>Finding an entry, or adding a new one for the key.\<close>

lemma enter:
  assumes "ok t" and "key e = s"
  shows "\<exists>t'. (if find t s = None then add t e else Some t) = Some t' \<and> ok t'
    \<and> find t' = (find t)(s \<mapsto> (case find t s of None \<Rightarrow> e | Some x \<Rightarrow> x))"
  using assms add [of t e] by (auto split: option.splits)

text \<open>A field of the entries as a number, 0 where there is no entry: what adding and changing do to it.\<close>

lemma enter_number:
  assumes "ok t" and "key e = s" and "num e = (0 :: int)" and "(if find t s = None then add t e else Some t) = Some t'"
  shows "ok t'" "(case find t' u of None \<Rightarrow> 0 | Some e \<Rightarrow> num e) = (case find t u of None \<Rightarrow> 0 | Some e \<Rightarrow> num e)"
  using enter [OF assms(1,2)] assms(2-4) by (auto split: option.splits)

lemma change_number:
  assumes "ok t" and "\<And>e. key (g e) = key e" and "find t s = Some x"
  shows "ok (change g s t)"
    "(case find (change g s t) u of None \<Rightarrow> 0 | Some e \<Rightarrow> num e) = (if u = s then num (g x) else case find t u of None \<Rightarrow> 0 | Some e \<Rightarrow> num e)"
  using change [OF assms(1,2)] assms(3) by simp_all

end

definition tree_ok :: "id_rec \<Rightarrow> bool" where
  "tree_ok t \<longleftrightarrow> balanced t \<and> sorted_ids t"

lemma entries_update: "entries (update_id g s t) = map (\<lambda>e. if id e = s then g e else e) (entries t)" if "sorted_ids t"
  using that
proof (induction t)
  case (Node x b l r)
  have l: "\<And>e. e \<in> set (entries l) \<Longrightarrow> before (id e) (id x)" and r: "\<And>e. e \<in> set (entries r) \<Longrightarrow> before (id x) (id e)"
    and ih: "entries (update_id g s l) = map (\<lambda>e. if id e = s then g e else e) (entries l)"
      "entries (update_id g s r) = map (\<lambda>e. if id e = s then g e else e) (entries r)"
    using Node by (auto simp: sorted_ids_Node)
  have none: "map (\<lambda>e. if id e = s then g e else e) xs = xs" if "\<And>e. e \<in> set xs \<Longrightarrow> id e \<noteq> s" for xs
    using that by (simp add: map_idI)
  consider "s = id x" | "before s (id x)" | "before (id x) s" using before_total by blast
  then show ?case
  proof cases
    case 1
    then have "\<And>e. e \<in> set (entries l) \<Longrightarrow> id e \<noteq> s" "\<And>e. e \<in> set (entries r) \<Longrightarrow> id e \<noteq> s"
      using l r before_irrefl by metis+
    then show ?thesis using 1 strcmp_eq [of s "id x"] none by simp
  next
    case 2
    then have "\<And>e. e \<in> set (entries r) \<Longrightarrow> id e \<noteq> s" "id x \<noteq> s" using r before_trans before_irrefl by metis+
    then show ?thesis using 2 ih(1) none [of "entries r"] by simp
  next
    case 3
    then have "\<And>e. e \<in> set (entries l) \<Longrightarrow> id e \<noteq> s" "id x \<noteq> s" "strcmp s (id x) > 0"
      using l before_trans before_irrefl strcmp_swap by metis+
    then show ?thesis using ih(2) none [of "entries l"] by simp
  qed
qed simp

lemma balanced_update: "balanced (update_id g s t) = balanced t" "tree_height (update_id g s t) = tree_height t"
proof -
  have "balanced (update_id g s t) = balanced t \<and> tree_height (update_id g s t) = tree_height t"
    by (induction t) (simp_all add: Let_def)
  then show "balanced (update_id g s t) = balanced t" "tree_height (update_id g s t) = tree_height t" by simp_all
qed

lemma find_id_None: "sorted_ids t \<Longrightarrow> find_id t s = None \<longleftrightarrow> s \<notin> id ` set (entries t)"
  using find_id_spec [of t s] by (cases "find_id t s") fastforce+

lemma option_ext: "(\<And>e. a = Some e \<longleftrightarrow> b = Some e) \<Longrightarrow> a = b"
  by (metis not_None_eq)

interpretation names: symbol_table find_id "\<lambda>t e. map_option fst (insert_id_rec t e)" update_id "id :: id_entry \<Rightarrow> string" tree_ok
proof
  fix t and e :: id_entry assume t: "tree_ok t" and none: "find_id t (id e) = None"
  obtain t' g where i: "insert_id_rec t e = Some (t', g)" "balanced t'" "placed e t t'"
    using insert_id_rec_spec [of t e] t by (auto simp: tree_ok_def)
  have p: "sorted_ids t'" "set (entries t') = insert e (set (entries t))"
    using placed_sorted [OF i(3)] t none find_id_None by (auto simp: tree_ok_def)
  have n: "y \<in> set (entries t) \<Longrightarrow> id y \<noteq> id e" for y using find_id_None [of t "id e"] t none by (metis image_eqI tree_ok_def)
  have "find_id t' = (find_id t)(id e \<mapsto> e)"
  proof (rule ext, rule option_ext)
    fix s y
    show "find_id t' s = Some y \<longleftrightarrow> ((find_id t)(id e \<mapsto> e)) s = Some y"
      using find_id_spec [OF p(1), of s y] find_id_spec [of t s y] t n by (auto simp: p(2) tree_ok_def)
  qed
  then show "\<exists>t'. map_option fst (insert_id_rec t e) = Some t' \<and> tree_ok t' \<and> find_id t' = (find_id t)(id e \<mapsto> e)"
    using i p by (simp add: tree_ok_def)
next
  fix t s and g :: "id_entry \<Rightarrow> id_entry"
  assume t: "tree_ok t" and k: "\<And>e. id (g e) = id e"
  have "sorted_ids t" using t by (simp add: tree_ok_def)
  then have e: "map id (entries (update_id g s t)) = map id (entries t)" using entries_update [of t g s] k by simp
  have sorted: "sorted_ids (update_id g s t)" using t by (simp add: sorted_ids_def tree_ok_def e)
  have "find_id (update_id g s t) = (find_id t)(s := map_option g (find_id t s))"
  proof (rule ext, rule option_ext)
    fix u y
    show "find_id (update_id g s t) u = Some y \<longleftrightarrow> ((find_id t)(s := map_option g (find_id t s))) u = Some y"
      using find_id_spec [OF sorted, of u y] find_id_spec [of t] t k entries_update [of t g s]
      by (auto simp: tree_ok_def)
  qed
  then show "tree_ok (update_id g s t) \<and> find_id (update_id g s t) = (find_id t)(s := map_option g (find_id t s))"
    using sorted t balanced_update by (simp add: tree_ok_def)
qed

section \<open>Names and numbers\<close>

text \<open>The globals of the parser (\<^verbatim>\<open>global.h\<close>, \<^verbatim>\<open>util.c\<close>, \<^verbatim>\<open>bc.y\<close>), with the loader and the machine that it drives.\<close>

record parser =
  ld :: loader
  name_tree :: id_rec
  next_array :: int
  next_func :: int
  next_var :: int
  break_label :: int
  if_label :: int
  continue_label :: int
  next_label :: int
  genlen :: nat
  out_count :: int
  did_gen :: bool
  cur_func :: int
  arglist1 :: "string option"
  arglist2 :: "string option"

datatype namekind = ARRAY | FUNCT | FUNCTDEF | SIMPLE

definition init_tree :: "parser \<Rightarrow> parser" where
  "init_tree p = p\<lparr>name_tree := Null, next_array := 1, next_func := 1, next_var := 5\<rparr>"

abbreviation with_machine :: "(bc_state \<Rightarrow> bc_state) \<Rightarrow> parser \<Rightarrow> parser" where
  "with_machine g p \<equiv> p\<lparr>ld := (ld p)\<lparr>machine := g (machine (ld p))\<rparr>\<rparr>"

text \<open>An error after which the program ends; no number is returned.\<close>

definition lookup_error :: "string \<Rightarrow> parser \<Rightarrow> int option \<times> parser" where
  "lookup_error str p = (None, with_machine (bc_exit 1) (p\<lparr>ld := yyerror str (ld p)\<rparr>))"

definition lookup_array :: "string \<Rightarrow> id_entry \<Rightarrow> parser \<Rightarrow> (int option \<times> parser) option" where
  "lookup_array name e p = (
     if a_name e \<noteq> 0 then Some (Some (- a_name e), p)
     else do {
       let n = next_array p;
       guard (n < INT_MAX);
       let p = p\<lparr>name_tree := update_id (\<lambda>e. e\<lparr>a_name := n\<rparr>) name (name_tree p), next_array := n + 1\<rparr>;
       if n < MAX_STORE then do {
         let p = (if n \<ge> a_count (machine (ld p)) then with_machine more_arrays p else p);
         guard (0 \<le> n \<and> n < a_count (machine (ld p)));
         Some (Some (- n), with_machine (\<lambda>m. m\<lparr>a_names := (a_names m)(nat n \<mapsto> name)\<rparr>) p)
       }
       else Some (lookup_error ''Too many array variables'' p)
     })"

definition lookup_func :: "string \<Rightarrow> namekind \<Rightarrow> id_entry \<Rightarrow> parser \<Rightarrow> (int option \<times> parser) option" where
  "lookup_func name namekind e p = (
     if f_name e \<noteq> 0 then
       if use_math (machine (ld p)) \<and> namekind = FUNCTDEF \<and> f_name e \<le> 6
       then do {
         let n = next_func p;
         guard (n < INT_MAX);
         Some (Some n, p\<lparr>name_tree := update_id (\<lambda>e. e\<lparr>f_name := n\<rparr>) name (name_tree p), next_func := n + 1\<rparr>)
       }
       else Some (Some (f_name e), p)
     else do {
       let n = next_func p;
       guard (n < INT_MAX);
       let p = p\<lparr>name_tree := update_id (\<lambda>e. e\<lparr>f_name := n\<rparr>) name (name_tree p), next_func := n + 1\<rparr>;
       if n < MAX_STORE then do {
         let p = (if n \<ge> f_count (machine (ld p)) then with_machine more_functions p else p);
         guard (0 \<le> n \<and> n < f_count (machine (ld p)));
         Some (Some n, with_machine (\<lambda>m. m\<lparr>f_names := (f_names m)(nat n \<mapsto> name)\<rparr>) p)
       }
       else Some (lookup_error ''Too many functions'' p)
     })"

definition lookup_simple :: "string \<Rightarrow> id_entry \<Rightarrow> parser \<Rightarrow> (int option \<times> parser) option" where
  "lookup_simple name e p = (
     if v_name e \<noteq> 0 then Some (Some (v_name e), p)
     else do {
       let n = next_var p;
       guard (n < INT_MAX);
       let p = p\<lparr>name_tree := update_id (\<lambda>e. e\<lparr>v_name := n\<rparr>) name (name_tree p), next_var := n + 1\<rparr>;
       if n \<le> MAX_STORE then do {
         let p = (if n \<ge> v_count (machine (ld p)) then with_machine more_variables p else p);
         guard (1 \<le> n \<and> n \<le> v_count (machine (ld p)));
         Some (Some n, with_machine (\<lambda>m. m\<lparr>v_names := (v_names m)(nat (n - 1) \<mapsto> name)\<rparr>) p)
       }
       else Some (lookup_error ''Too many variables'' p)
     })"

definition lookup :: "string \<Rightarrow> namekind \<Rightarrow> parser \<Rightarrow> (int option \<times> parser) option" where
  "lookup name namekind p = do {
     let p = (if length name \<noteq> 1 then p\<lparr>ld := ct_warn (''multiple letter name - '' @ name) (ld p)\<rparr> else p);
     let new_id = \<lparr>id = name, a_name = 0, f_name = 0, v_name = 0\<rparr>;
     t \<leftarrow> (if find_id (name_tree p) name = None then map_option fst (insert_id_rec (name_tree p) new_id) else Some (name_tree p));
     let p = p\<lparr>name_tree := t\<rparr>;
     e \<leftarrow> find_id t name;
     (case namekind of ARRAY \<Rightarrow> lookup_array name e p | SIMPLE \<Rightarrow> lookup_simple name e p | _ \<Rightarrow> lookup_func name namekind e p)
   }"

section \<open>What the table promises\<close>

text \<open>The number of a name, 0 if it has none, and the next number of each kind.\<close>

fun number_field :: "namekind \<Rightarrow> id_entry \<Rightarrow> int" where
  "number_field ARRAY e = a_name e"
| "number_field SIMPLE e = v_name e"
| "number_field FUNCT e = f_name e"
| "number_field FUNCTDEF e = f_name e"

definition number_of :: "namekind \<Rightarrow> parser \<Rightarrow> string \<Rightarrow> int" where
  "number_of k p s = (case find_id (name_tree p) s of None \<Rightarrow> 0 | Some e \<Rightarrow> number_field k e)"

fun next_of :: "namekind \<Rightarrow> parser \<Rightarrow> int" where
  "next_of ARRAY p = next_array p"
| "next_of SIMPLE p = next_var p"
| "next_of FUNCT p = next_func p"
| "next_of FUNCTDEF p = next_func p"

fun count_of :: "namekind \<Rightarrow> parser \<Rightarrow> nat" where
  "count_of ARRAY p = a_count (machine (ld p))"
| "count_of SIMPLE p = v_count (machine (ld p))"
| "count_of FUNCT p = f_count (machine (ld p))"
| "count_of FUNCTDEF p = f_count (machine (ld p))"

definition same_kind :: "namekind \<Rightarrow> namekind \<Rightarrow> bool" where
  "same_kind k k' \<longleftrightarrow> k = k' \<or> {k, k'} = {FUNCT, FUNCTDEF}"

text \<open>
  The invariant: the tree is in order and balanced; numbers are below the next one of their kind and belong to one name;
  the tables of arrays and variables reach up to the next number. The table of functions may fall short of it, by
  as many numbers as functions of the mathematical library have been defined again.
\<close>

definition library_left :: "parser \<Rightarrow> int" where
  "library_left p = int (card ({1..6} \<inter> range (number_of FUNCT p)))"

definition numbers_ok :: "parser \<Rightarrow> bool" where
  "numbers_ok p \<longleftrightarrow> tree_ok (name_tree p)
     \<and> (\<forall>k s. 0 \<le> number_of k p s \<and> number_of k p s < next_of k p)
     \<and> (\<forall>k s t. number_of k p s = number_of k p t \<longrightarrow> number_of k p s \<noteq> 0 \<longrightarrow> s = t)
     \<and> (\<forall>k. 1 \<le> next_of k p)"

definition tables_ok :: "parser \<Rightarrow> bool" where
  "tables_ok p \<longleftrightarrow> next_array p \<le> a_count (machine (ld p)) \<and> next_var p \<le> v_count (machine (ld p))
     \<and> 32 \<le> f_count (machine (ld p)) \<and> next_func p \<le> f_count (machine (ld p)) + 6 - library_left p"

definition names_ok :: "parser \<Rightarrow> bool" where
  "names_ok p \<longleftrightarrow> numbers_ok p \<and> tables_ok p"

text \<open>A new number for one name of a kind.\<close>

definition numbered :: "namekind \<Rightarrow> string \<Rightarrow> int \<Rightarrow> parser \<Rightarrow> parser \<Rightarrow> bool" where
  "numbered k s n p p' \<longleftrightarrow> tree_ok (name_tree p')
     \<and> (\<forall>k' t. number_of k' p' t = (if t = s \<and> same_kind k k' then n else number_of k' p t))
     \<and> (\<forall>k'. next_of k' p' = (if same_kind k k' then n + 1 else next_of k' p))"

lemma same_kind_simps [simp]:
  "same_kind ARRAY k \<longleftrightarrow> k = ARRAY" "same_kind SIMPLE k \<longleftrightarrow> k = SIMPLE"
  "same_kind FUNCT k \<longleftrightarrow> k = FUNCT \<or> k = FUNCTDEF" "same_kind FUNCTDEF k \<longleftrightarrow> k = FUNCT \<or> k = FUNCTDEF"
  "same_kind k k"
  by (auto simp: same_kind_def doubleton_eq_iff)

lemma same_kind_number: "same_kind k k' \<Longrightarrow> number_of k p s = number_of k' p s \<and> next_of k p = next_of k' p"
  by (cases k; cases k') (auto simp: number_of_def split: option.splits)

lemma library_left_bounds: "0 \<le> library_left p" "library_left p \<le> 6"
  using card_mono [of "{1..6 :: int}" "{1..6} \<inter> range (number_of FUNCT p)"] by (simp_all add: library_left_def)

lemma numbered_ok:
  assumes ok: "numbers_ok p" and n: "n = next_of k p" and new: "numbered k s n p p'"
  shows "numbers_ok p'"
proof -
  have o: "0 \<le> number_of k' p t \<and> number_of k' p t < next_of k' p" "1 \<le> next_of k' p"
    "number_of k' p t = number_of k' p u \<longrightarrow> number_of k' p t \<noteq> 0 \<longrightarrow> t = u" for k' t u
    using ok by (simp_all add: numbers_ok_def)
  have e: "number_of k' p' t = (if t = s \<and> same_kind k k' then n else number_of k' p t)"
    "next_of k' p' = (if same_kind k k' then n + 1 else next_of k' p)" "tree_ok (name_tree p')" for k' t
    using new by (simp_all add: numbered_def)
  have k: "same_kind k k' \<Longrightarrow> n = next_of k' p" for k' using n same_kind_number by simp
  show ?thesis unfolding numbers_ok_def
  proof (intro conjI allI impI)
    show "tree_ok (name_tree p')" by (rule e)
    fix k' t u
    show "0 \<le> number_of k' p' t" "number_of k' p' t < next_of k' p'" using o(1) [of k' t] o(2) [of k'] k by (auto simp: e)
    show "1 \<le> next_of k' p'" using o(2) [of k'] k by (auto simp: e)
    show "t = u" if "number_of k' p' t = number_of k' p' u" "number_of k' p' t \<noteq> 0"
    proof (cases "same_kind k k'")
      case True
      then show ?thesis using that o(1) [of k' t] o(1) [of k' u] o(3) [of k' t u] k [OF True] unfolding e(1)
        by (cases "t = s"; cases "u = s") simp_all
    next
      case False
      then show ?thesis using that o(3) [of k' t u] unfolding e(1) by simp
    qed
  qed
qed

text \<open>Another table than that of functions is numbered: the functions are as before.\<close>

lemma library_left_cong: "(\<And>s. number_of FUNCT p' s = number_of FUNCT p s) \<Longrightarrow> library_left p' = library_left p"
  unfolding library_left_def by (simp only: image_def)

text \<open>A library function gets another number.\<close>

lemma library_left_redefine:
  assumes "numbers_ok p" and "numbered FUNCTDEF s n p p'" and "1 \<le> number_of FUNCT p s" and "number_of FUNCT p s \<le> 6" and "6 < n"
  shows "library_left p' = library_left p - 1"
proof -
  let ?f = "number_of FUNCT p" and ?f' = "number_of FUNCT p'"
  have f': "?f' t = (if t = s then n else ?f t)" for t using assms(2) by (auto simp: numbered_def)
  have inj: "?f t = ?f s \<Longrightarrow> t = s" for t using assms(1,3) unfolding numbers_ok_def by (metis not_one_le_zero)
  have "{1..6} \<inter> range ?f' = {1..6} \<inter> range ?f - {?f s}"
  proof (intro set_eqI iffI)
    fix x assume "x \<in> {1..6} \<inter> range ?f'"
    then show "x \<in> {1..6} \<inter> range ?f - {?f s}" using f' assms(5) inj by (auto split: if_splits)
  next
    fix x assume x: "x \<in> {1..6} \<inter> range ?f - {?f s}"
    then obtain t where "x = ?f t" "t \<noteq> s" by auto
    then have "x = ?f' t" using f' by simp
    then show "x \<in> {1..6} \<inter> range ?f'" using x by blast
  qed
  moreover have s: "?f s \<in> {1..6} \<inter> range ?f" using assms(3,4) by simp
  ultimately have "card ({1..6} \<inter> range ?f') = card ({1..6} \<inter> range ?f) - 1" by (simp only: card_Diff_singleton)
  moreover have "finite ({1..6} \<inter> range ?f)" by simp
  then have "card ({1..6} \<inter> range ?f) > 0" using s unfolding card_gt_0_iff by blast
  ultimately show ?thesis by (simp add: library_left_def)
qed

lemma lookup_entry:
  assumes "names_ok p"
  shows "\<exists>t e. (if find_id (name_tree p) name = None then map_option fst (insert_id_rec (name_tree p) \<lparr>id = name, a_name = 0, f_name = 0, v_name = 0\<rparr>)
      else Some (name_tree p)) = Some t \<and> find_id t name = Some e \<and> tree_ok t \<and> (\<forall>k s. number_of k (p\<lparr>name_tree := t\<rparr>) s = number_of k p s)"
proof -
  let ?e = "\<lparr>id = name, a_name = 0, f_name = 0, v_name = 0\<rparr>"
  have ok: "tree_ok (name_tree p)" using assms by (simp add: names_ok_def numbers_ok_def)
  obtain t where t: "(if find_id (name_tree p) name = None then map_option fst (insert_id_rec (name_tree p) ?e) else Some (name_tree p)) = Some t"
      "tree_ok t" "find_id t = (find_id (name_tree p))(name \<mapsto> (case find_id (name_tree p) name of None \<Rightarrow> ?e | Some x \<Rightarrow> x))"
    using names.enter [OF ok, of ?e name] by auto
  have "number_of k (p\<lparr>name_tree := t\<rparr>) s = number_of k p s" for k s
  proof -
    have "number_field k ?e = 0" by (cases k) simp_all
    then show ?thesis using names.enter_number(2) [OF ok _ _ t(1), of "number_field k" s] by (simp add: number_of_def)
  qed
  then show ?thesis using t by auto
qed

text \<open>The invariant and the numbers do not see the rest of the machine.\<close>

definition same_numbers :: "parser \<Rightarrow> parser \<Rightarrow> bool" where
  "same_numbers p p' \<longleftrightarrow> tree_ok (name_tree p') \<and> (\<forall>k s. number_of k p' s = number_of k p s) \<and> (\<forall>k. next_of k p' = next_of k p)"

lemma same_numbersD:
  assumes "same_numbers p p'"
  shows "tree_ok (name_tree p')" "number_of k p' s = number_of k p s" "next_of k p' = next_of k p" "library_left p' = library_left p"
    "next_array p' = next_array p" "next_var p' = next_var p" "next_func p' = next_func p"
proof -
  have n: "next_of k p' = next_of k p" for k using assms by (simp add: same_numbers_def)
  show "tree_ok (name_tree p')" "number_of k p' s = number_of k p s" "next_of k p' = next_of k p" "library_left p' = library_left p"
    using assms library_left_cong [of p' p] by (simp_all add: same_numbers_def)
  show "next_array p' = next_array p" "next_var p' = next_var p" "next_func p' = next_func p"
    using n [of ARRAY] n [of SIMPLE] n [of FUNCT] by simp_all
qed

lemma names_ok_cong:
  assumes "names_ok p" and "same_numbers p p'" and "\<And>k. count_of k p' = count_of k p"
  shows "names_ok p'"
  using assms(1) assms(3) [of ARRAY] assms(3) [of SIMPLE] assms(3) [of FUNCT]
  by (simp add: names_ok_def numbers_ok_def tables_ok_def same_numbersD [OF assms(2)])

lemma numbered_set:
  assumes "tree_ok (name_tree p)" and "find_id (name_tree p) s = Some e" and "\<And>e. id (h e) = id e"
    and h: "\<And>k' e. number_field k' (h e) = (if same_kind k k' then n else number_field k' e)"
    and "name_tree p' = update_id h s (name_tree p)" and "\<And>k'. next_of k' p' = (if same_kind k k' then n + 1 else next_of k' p)"
  shows "numbered k s n p p'"
proof -
  have "number_of k' p' t = (if t = s then number_field k' (h e) else number_of k' p t)" for k' t
    using names.change_number(2) [of "name_tree p" h s e "number_field k'" t] assms(1-3) by (simp add: number_of_def assms(5))
  moreover have "number_of k' p s = number_field k' e" for k' using assms(2) by (simp add: number_of_def)
  ultimately show ?thesis unfolding numbered_def using names.change_number(1) [of "name_tree p" h s e] assms(1-3,6)
    by (simp add: assms(5) h)
qed

text \<open>What a lookup returns and does, on a tree that has an entry of the name.\<close>

definition redefines :: "string \<Rightarrow> namekind \<Rightarrow> parser \<Rightarrow> bool" where
  "redefines name k p \<longleftrightarrow> use_math (machine (ld p)) \<and> k = FUNCTDEF \<and> number_of FUNCT p name \<in> {1..6}"

fun limit_of :: "namekind \<Rightarrow> int" where
  "limit_of SIMPLE = MAX_STORE + 1"
| "limit_of ARRAY = MAX_STORE"
| "limit_of FUNCT = MAX_STORE"
| "limit_of FUNCTDEF = MAX_STORE"

text \<open>The name that error messages print for a number.\<close>

fun name_at :: "namekind \<Rightarrow> int \<Rightarrow> parser \<Rightarrow> string option" where
  "name_at ARRAY n p = a_names (machine (ld p)) (nat n)"
| "name_at SIMPLE n p = v_names (machine (ld p)) (nat (n - 1))"
| "name_at FUNCT n p = f_names (machine (ld p)) (nat n)"
| "name_at FUNCTDEF n p = f_names (machine (ld p)) (nat n)"

text \<open>
  The contract. A name that has a number keeps it, except that a library function gets a new one at its definition;
  another name gets the next number of its kind, with a place in the tables, or the program ends because there is none left.
\<close>

definition number_given :: "string \<Rightarrow> namekind \<Rightarrow> parser \<Rightarrow> int option \<Rightarrow> parser \<Rightarrow> bool" where
  "number_given name k p r p' \<longleftrightarrow> (let old = number_of k p name in
     if old \<noteq> 0 \<and> \<not> redefines name k p then r = Some (if k = ARRAY then - old else old) \<and> same_numbers p p' \<and> names_ok p'
     else let n = next_of k p in numbered k name n p p' \<and> (
       if old \<noteq> 0 then r = Some n \<and> names_ok p' \<and> count_of k p' = count_of k p
       else if n < limit_of k
       then r = Some (if k = ARRAY then - n else n) \<and> names_ok p' \<and> n < count_of k p' \<and> name_at k n p' = Some name
       else r = None \<and> exited (machine (ld p')) = Some 1))"

lemma lookup_array_spec:
  assumes ok: "names_ok p" and e: "find_id (name_tree p) name = Some e" and n: "next_array p < INT_MAX"
  shows "\<exists>r p'. lookup_array name e p = Some (r, p') \<and> number_given name ARRAY p r p'"
proof (cases "a_name e = 0")
  case False
  then show ?thesis using e ok
    by (auto simp: lookup_array_def number_given_def number_of_def redefines_def same_numbers_def names_ok_def numbers_ok_def Let_def)
next
  case True
  let ?n = "next_array p" and ?h = "\<lambda>e. e\<lparr>a_name := next_array p\<rparr>"
  have old: "number_of ARRAY p name = 0" using True e by (simp add: number_of_def)
  have nums: "numbers_ok p" and t: "tree_ok (name_tree p)" and ge: "1 \<le> ?n" and tab: "tables_ok p"
    using ok next_of.simps(1) unfolding names_ok_def numbers_ok_def by metis+
  have le: "?n \<le> a_count (machine (ld p))" using tab by (simp add: tables_ok_def)
  have num: "numbered ARRAY name ?n p p'" if "name_tree p' = update_id ?h name (name_tree p)" "next_array p' = ?n + 1" "next_func p' = next_func p"
    "next_var p' = next_var p" for p'
  proof (rule numbered_set [OF t e _ _ that(1)])
    show "number_field k (?h x) = (if same_kind ARRAY k then ?n else number_field k x)" for k x by (cases k) simp_all
    show "next_of k p' = (if same_kind ARRAY k then ?n + 1 else next_of k p)" for k using that by (cases k) simp_all
  qed simp
  have good: "names_ok p'" if p': "name_tree p' = update_id ?h name (name_tree p)" "next_array p' = ?n + 1" "next_func p' = next_func p"
    "next_var p' = next_var p" "?n < a_count (machine (ld p'))" "v_count (machine (ld p')) = v_count (machine (ld p))"
    "f_count (machine (ld p')) = f_count (machine (ld p))" for p'
  proof -
    have "library_left p' = library_left p" using num [OF p'(1-4)] by (intro library_left_cong) (simp add: numbered_def)
    then show ?thesis using p' tab numbered_ok [OF nums _ num [OF p'(1-4)]] by (simp add: names_ok_def tables_ok_def)
  qed
  show ?thesis
  proof (cases "?n < MAX_STORE")
    case True
    then show ?thesis using \<open>a_name e = 0\<close> n ge le old
      by (auto simp: lookup_array_def number_given_def Let_def more_arrays_def redefines_def intro!: num good)
  next
    case False
    then show ?thesis using \<open>a_name e = 0\<close> n old
      by (auto simp: lookup_array_def number_given_def Let_def lookup_error_def bc_exit_def redefines_def intro!: num)
  qed
qed

lemma lookup_simple_spec:
  assumes ok: "names_ok p" and e: "find_id (name_tree p) name = Some e" and n: "next_var p < INT_MAX"
  shows "\<exists>r p'. lookup_simple name e p = Some (r, p') \<and> number_given name SIMPLE p r p'"
proof (cases "v_name e = 0")
  case False
  then show ?thesis using e ok
    by (auto simp: lookup_simple_def number_given_def number_of_def redefines_def same_numbers_def names_ok_def numbers_ok_def Let_def)
next
  case True
  let ?n = "next_var p" and ?h = "\<lambda>e. e\<lparr>v_name := next_var p\<rparr>"
  have old: "number_of SIMPLE p name = 0" using True e by (simp add: number_of_def)
  have nums: "numbers_ok p" and t: "tree_ok (name_tree p)" and ge: "1 \<le> ?n" and tab: "tables_ok p"
    using ok next_of.simps(2) unfolding names_ok_def numbers_ok_def by metis+
  have le: "?n \<le> v_count (machine (ld p))" using tab by (simp add: tables_ok_def)
  have num: "numbered SIMPLE name ?n p p'" if "name_tree p' = update_id ?h name (name_tree p)" "next_var p' = ?n + 1" "next_func p' = next_func p"
    "next_array p' = next_array p" for p'
  proof (rule numbered_set [OF t e _ _ that(1)])
    show "number_field k (?h x) = (if same_kind SIMPLE k then ?n else number_field k x)" for k x by (cases k) simp_all
    show "next_of k p' = (if same_kind SIMPLE k then ?n + 1 else next_of k p)" for k using that by (cases k) simp_all
  qed simp
  have good: "names_ok p'" if p': "name_tree p' = update_id ?h name (name_tree p)" "next_var p' = ?n + 1" "next_func p' = next_func p"
    "next_array p' = next_array p" "?n < v_count (machine (ld p'))" "a_count (machine (ld p')) = a_count (machine (ld p))"
    "f_count (machine (ld p')) = f_count (machine (ld p))" for p'
  proof -
    have "library_left p' = library_left p" using num [OF p'(1-4)] by (intro library_left_cong) (simp add: numbered_def)
    then show ?thesis using p' tab numbered_ok [OF nums _ num [OF p'(1-4)]] by (simp add: names_ok_def tables_ok_def)
  qed
  show ?thesis
  proof (cases "?n < MAX_STORE + 1")
    case True
    then show ?thesis using \<open>v_name e = 0\<close> n ge le old
      by (auto simp: lookup_simple_def number_given_def Let_def more_variables_def redefines_def intro!: num good)
  next
    case False
    then show ?thesis using \<open>v_name e = 0\<close> n old
      by (auto simp: lookup_simple_def number_given_def Let_def lookup_error_def bc_exit_def redefines_def intro!: num)
  qed
qed

lemma lookup_func_spec:
  assumes ok: "names_ok p" and e: "find_id (name_tree p) name = Some e" and n: "next_func p < INT_MAX"
    and k: "k = FUNCT \<or> k = FUNCTDEF"
  shows "\<exists>r p'. lookup_func name k e p = Some (r, p') \<and> number_given name k p r p'"
proof -
  let ?n = "next_func p" and ?h = "\<lambda>e. e\<lparr>f_name := next_func p\<rparr>"
  have old: "number_of k p name = f_name e" "number_of FUNCT p name = f_name e" "next_of k p = ?n" "limit_of k = MAX_STORE" "k \<noteq> ARRAY"
    using e k by (auto simp: number_of_def)
  have nums: "numbers_ok p" and t: "tree_ok (name_tree p)" and ge: "1 \<le> ?n" and tab: "tables_ok p"
    using ok next_of.simps(3) unfolding names_ok_def numbers_ok_def by metis+
  have le: "?n \<le> f_count (machine (ld p)) + 6" using tab library_left_bounds [of p] by (simp add: tables_ok_def)
  have num: "numbered k name ?n p p'" if "name_tree p' = update_id ?h name (name_tree p)" "next_func p' = ?n + 1" "next_var p' = next_var p"
    "next_array p' = next_array p" for p'
  proof (rule numbered_set [OF t e _ _ that(1)])
    show "number_field i (?h x) = (if same_kind k i then ?n else number_field i x)" for i x using k by (cases i) auto
    show "next_of i p' = (if same_kind k i then ?n + 1 else next_of i p)" for i using k that by (cases i) auto
  qed simp
  have good: "names_ok p'" if p': "name_tree p' = update_id ?h name (name_tree p)" "next_func p' = ?n + 1" "next_var p' = next_var p"
    "next_array p' = next_array p" "a_count (machine (ld p')) = a_count (machine (ld p))" "v_count (machine (ld p')) = v_count (machine (ld p))"
    and f: "32 \<le> f_count (machine (ld p'))" "?n + 1 \<le> f_count (machine (ld p')) + 6 - library_left p'" for p'
    using p' f tab numbered_ok [OF nums _ num [OF p'(1-4)]] old(3) by (simp add: names_ok_def tables_ok_def)
  consider "f_name e \<noteq> 0" "redefines name k p" | "f_name e \<noteq> 0" "\<not> redefines name k p" | "f_name e = 0" "?n < MAX_STORE" | "f_name e = 0" "\<not> ?n < MAX_STORE"
    by blast
  then show ?thesis
  proof cases
    case 1
    let ?p = "p\<lparr>name_tree := update_id ?h name (name_tree p), next_func := ?n + 1\<rparr>"
    have def_: "k = FUNCTDEF" "use_math (machine (ld p))" "1 \<le> f_name e" "f_name e \<le> 6" using 1 old by (auto simp: redefines_def)
    have r: "lookup_func name k e p = Some (Some ?n, ?p)" using 1 def_ n by (simp add: lookup_func_def Let_def)
    have new: "numbered k name ?n p ?p" by (rule num) simp_all
    have "names_ok ?p"
    proof (rule good)
      show "?n + 1 \<le> f_count (machine (ld ?p)) + 6 - library_left ?p"
      proof (cases "6 < ?n")
        case True
        then show ?thesis using library_left_redefine [OF nums new [unfolded def_(1)]] old def_ tab by (simp add: tables_ok_def)
      next
        case False
        then show ?thesis using library_left_bounds(2) [of ?p] tab by (simp add: tables_ok_def)
      qed
    qed (use tab in \<open>simp_all add: tables_ok_def\<close>)
    then show ?thesis using r 1 old new k by (auto simp: number_given_def Let_def)
  next
    case 2
    then have "lookup_func name k e p = Some (Some (f_name e), p)"
      using old nums [unfolded numbers_ok_def, THEN conjunct2, THEN conjunct1, rule_format, of FUNCT name]
      by (auto simp: lookup_func_def redefines_def)
    then show ?thesis using 2 ok old by (simp add: number_given_def same_numbers_def names_ok_def numbers_ok_def)
  next
    case 3
    have nodef: "\<not> redefines name k p" using 3 old by (simp add: redefines_def)
    let ?p = "p\<lparr>name_tree := update_id ?h name (name_tree p), next_func := ?n + 1\<rparr>"
    let ?q = "if ?n \<ge> f_count (machine (ld p)) then with_machine more_functions ?p else ?p"
    let ?r = "with_machine (\<lambda>m. m\<lparr>f_names := (f_names m)(nat ?n \<mapsto> name)\<rparr>) ?q"
    have lt: "?n < f_count (machine (ld ?q))" using le by (simp add: more_functions_def Let_def)
    have r: "lookup_func name k e p = Some (Some ?n, ?r)" using 3 n ge lt by (simp add: lookup_func_def Let_def cong: if_cong)
    have "names_ok ?r"
    proof (rule good)
      show "?n + 1 \<le> f_count (machine (ld ?r)) + 6 - library_left ?r" using lt library_left_bounds(2) [of ?r] by simp
    qed (use tab in \<open>simp_all add: tables_ok_def more_functions_def Let_def\<close>)
    moreover have "numbered k name ?n p ?r" by (rule num) (simp_all add: more_functions_def Let_def)
    moreover have "?n < count_of k ?r" using k lt by (auto simp: more_functions_def Let_def)
    moreover have "name_at k ?n ?r = Some name" using k by auto
    ultimately show ?thesis using r 3 old nodef by (auto simp: number_given_def Let_def)
  next
    case 4
    then have "\<not> redefines name k p" using old by (simp add: redefines_def)
    then show ?thesis using 4 n old by (auto simp: lookup_func_def number_given_def Let_def lookup_error_def bc_exit_def intro!: num)
  qed
qed

lemma same_numbers_trans: "same_numbers p q \<Longrightarrow> same_numbers q r \<Longrightarrow> same_numbers p r"
  by (simp add: same_numbers_def)

lemma number_given_cong:
  assumes "number_given name k q r p'" and "same_numbers p q" and "\<And>k. count_of k q = count_of k p"
    and "use_math (machine (ld q)) = use_math (machine (ld p))"
  shows "number_given name k p r p'"
proof -
  note d = same_numbersD [OF assms(2)]
  have "redefines name k q = redefines name k p" by (simp add: redefines_def assms(4) d)
  moreover have "numbered k name n q p' = numbered k name n p p'" for n by (simp add: numbered_def d)
  ultimately show ?thesis using assms(1) same_numbers_trans [OF assms(2)] assms(3) by (auto simp: number_given_def d Let_def)
qed

lemma same_numbersI:
  assumes "tree_ok (name_tree p')" and "\<And>k s. number_of k p' s = number_of k p s"
    and "next_array p' = next_array p" and "next_var p' = next_var p" and "next_func p' = next_func p"
  shows "same_numbers p p'"
proof -
  have "next_of k p' = next_of k p" for k using assms(3-5) by (cases k) simp_all
  then show ?thesis using assms(1,2) by (simp add: same_numbers_def)
qed

lemma count_of_cong: "machine (ld p') = machine (ld p) \<Longrightarrow> count_of k p' = count_of k p"
  by (cases k) simp_all

lemma ct_warn_machine [simp]: "machine (ct_warn mesg l) = machine l"
  by (simp add: ct_warn_def yyerror_def)

text \<open>A balanced tree is not high.\<close>

lemma balanced_size: "balanced t \<Longrightarrow> 2 ^ (nat (tree_height t) div 2) \<le> length (entries t) + 1"
proof (induction "nat (tree_height t)" arbitrary: t rule: less_induct)
  case less
  show ?case
  proof (cases t)
    case (Node e b l r)
    have b: "balanced l" "balanced r" "\<bar>tree_height r - tree_height l\<bar> \<le> 1" using less.prems by (auto simp: Node)
    have pos: "0 \<le> tree_height l" "0 \<le> tree_height r" by (rule tree_height_nonneg)+
    have ih: "2 ^ (nat (tree_height s) div 2) \<le> length (entries s) + 1" if "s = l \<or> s = r" for s
    proof (rule less.hyps)
      show "nat (tree_height s) < nat (tree_height t)" using that pos by (auto simp: Node)
      show "balanced s" using that b by blast
    qed
    have le: "nat (tree_height t) div 2 \<le> Suc (nat (tree_height s) div 2)" if "s = l \<or> s = r" for s
    proof -
      have "tree_height t \<le> tree_height s + 2" using that b(3) by (auto simp: Node)
      then have "nat (tree_height t) \<le> nat (tree_height s) + 2" using pos that by auto
      then show ?thesis by linarith
    qed
    have "(2 :: nat) ^ (nat (tree_height t) div 2) \<le> 2 ^ Suc (nat (tree_height s) div 2)" if "s = l \<or> s = r" for s
      by (rule power_increasing [OF le [OF that]]) simp
    from this [of l] this [of r] ih [of l] ih [of r] show ?thesis by (simp add: Node)
  qed simp
qed

section \<open>Theorems\<close>

text \<open>
  C26: inserting an entry in a balanced tree keeps it balanced and reports whether its height grew; a tree in order with no
  entry of the name stays in order and finds the new entry and the old ones. The height is at most twice the
  logarithm of the number of entries.
\<close>

theorem insert_id_rec_correct:
  assumes "balanced t" and "sorted_ids t" and "find_id t (id e) = None"
  shows "\<exists>t' grown. insert_id_rec t e = Some (t', grown) \<and> balanced t' \<and> sorted_ids t' \<and> tree_height t' = tree_height t + of_bool grown
    \<and> find_id t' = (find_id t)(id e \<mapsto> e) \<and> length (entries t') = length (entries t) + 1
    \<and> 2 ^ (nat (tree_height t') div 2) \<le> length (entries t') + 1"
proof -
  obtain t' g where i: "insert_id_rec t e = Some (t', g)" "balanced t'" "tree_height t' = tree_height t + of_bool g" "placed e t t'"
    using insert_id_rec_spec [OF assms(1), of e] by auto
  have "length (entries t') = length (entries t) + 1" using i(4) by (auto simp: placed_def)
  moreover have "tree_ok t' \<and> find_id t' = (find_id t)(id e \<mapsto> e)" using names.add [of t e] assms i(1) by (simp add: tree_ok_def)
  ultimately show ?thesis using i balanced_size [OF i(2)] by (auto simp: tree_ok_def)
qed

theorem insert_id_rec_correct_witness:
  "\<exists>t'. insert_id_rec (Node \<lparr>id = ''b'', a_name = 0, f_name = 0, v_name = 5\<rparr> 0 Null Null) \<lparr>id = ''a'', a_name = 0, f_name = 0, v_name = 6\<rparr> = Some (t', True)
     \<and> tree_height t' = 2"
  using insert_id_rec_correct [of "Node \<lparr>id = ''b'', a_name = 0, f_name = 0, v_name = 5\<rparr> 0 Null Null" "\<lparr>id = ''a'', a_name = 0, f_name = 0, v_name = 6\<rparr>"]
  by (auto simp: sorted_ids_def char_val_def)

text \<open>
  C13: lookup always returns. A name keeps the number it has; a new name gets the next number of its kind, which no other name
  has, with a place in the tables (which grow) and its text in the table of names, or the program ends with an error
  when the numbers are used up. The only number without a check is the new one of a library function that is defined again.
\<close>

theorem lookup_correct:
  assumes "names_ok p" and "next_of kind p < INT_MAX"
  shows "\<exists>r p'. lookup name kind p = Some (r, p') \<and> number_given name kind p r p'"
proof -
  let ?w = "if length name \<noteq> 1 then p\<lparr>ld := ct_warn (''multiple letter name - '' @ name) (ld p)\<rparr> else p"
  have w: "same_numbers p ?w" "count_of k ?w = count_of k p" "machine (ld ?w) = machine (ld p)" for k
  proof -
    show m: "machine (ld ?w) = machine (ld p)" by simp
    show "count_of k ?w = count_of k p" by (rule count_of_cong [OF m])
    show "same_numbers p ?w" by (rule same_numbersI) (use assms(1) in \<open>simp_all add: number_of_def names_ok_def numbers_ok_def\<close>)
  qed
  have wok: "names_ok ?w" by (rule names_ok_cong [OF assms(1) w(1,2)])
  obtain t e where t: "(if find_id (name_tree ?w) name = None then map_option fst (insert_id_rec (name_tree ?w) \<lparr>id = name, a_name = 0, f_name = 0, v_name = 0\<rparr>)
      else Some (name_tree ?w)) = Some t" "find_id t name = Some e" "tree_ok t" "\<forall>k s. number_of k (?w\<lparr>name_tree := t\<rparr>) s = number_of k ?w s"
    using lookup_entry [OF wok, of name] by blast
  let ?q = "?w\<lparr>name_tree := t\<rparr>"
  have q: "same_numbers ?w ?q" "count_of k ?q = count_of k ?w" "use_math (machine (ld ?q)) = use_math (machine (ld p))" for k
  proof -
    show "same_numbers ?w ?q" by (rule same_numbersI) (use t(3,4) in simp_all)
    show "count_of k ?q = count_of k ?w" by (rule count_of_cong) simp
    show "use_math (machine (ld ?q)) = use_math (machine (ld p))" using w(3) by simp
  qed
  have pq: "same_numbers p ?q" "count_of k ?q = count_of k p" for k
    using same_numbers_trans [OF w(1) q(1)] q(2) w(2) by simp_all
  have qok: "names_ok ?q" by (rule names_ok_cong [OF wok q(1,2)])
  have e: "find_id (name_tree ?q) name = Some e" using t(2) by simp
  have n: "next_of kind ?q < INT_MAX" using assms(2) same_numbersD(3) [OF pq(1)] by simp
  have l: "lookup name kind p = (case kind of ARRAY \<Rightarrow> lookup_array name e ?q | SIMPLE \<Rightarrow> lookup_simple name e ?q | _ \<Rightarrow> lookup_func name kind e ?q)"
    unfolding lookup_def Let_def t(1) t(2) bind.bind_lunit by (cases kind) (simp_all add: t)
  have "\<exists>r p'. lookup name kind p = Some (r, p') \<and> number_given name kind ?q r p'"
  proof (cases kind)
    case ARRAY
    then show ?thesis using lookup_array_spec [OF qok e] n l by simp
  next
    case SIMPLE
    then show ?thesis using lookup_simple_spec [OF qok e] n l by simp
  next
    case FUNCT
    then show ?thesis using lookup_func_spec [OF qok e, of FUNCT] n l by simp
  next
    case FUNCTDEF
    then show ?thesis using lookup_func_spec [OF qok e, of FUNCTDEF] n l by simp
  qed
  then show ?thesis using number_given_cong [OF _ pq q(3)] by blast
qed

text \<open>The parser before it reads anything.\<close>

definition fresh_parser :: parser where
  "fresh_parser = init_tree \<lparr>ld = fresh_loader, name_tree = Null, next_array = 0, next_func = 0, next_var = 0, break_label = 0,
     if_label = 0, continue_label = 0, next_label = 0, genlen = 0, out_count = 0, did_gen = False, cur_func = -1,
     arglist1 = None, arglist2 = None\<rparr>"

lemma fresh_names: "names_ok fresh_parser" "next_var fresh_parser = 5" "next_func fresh_parser = 1" "next_array fresh_parser = 1"
  "find_id (name_tree fresh_parser) s = None" "ld fresh_parser = fresh_loader"
proof -
  have n: "number_of k fresh_parser s = 0" for k s by (simp add: fresh_parser_def init_tree_def number_of_def)
  show sel: "next_var fresh_parser = 5" "next_func fresh_parser = 1" "next_array fresh_parser = 1" "find_id (name_tree fresh_parser) s = None"
    and ld: "ld fresh_parser = fresh_loader" by (simp_all add: fresh_parser_def init_tree_def)
  have nx: "1 \<le> next_of k fresh_parser" for k by (cases k) (simp_all add: sel)
  have nx0: "0 < next_of k fresh_parser" for k using nx [of k] by linarith
  have t: "tree_ok (name_tree fresh_parser)" by (simp add: fresh_parser_def init_tree_def tree_ok_def sorted_ids_def)
  have "numbers_ok fresh_parser" by (simp add: numbers_ok_def n t nx nx0)
  moreover have "library_left fresh_parser = 0" by (simp add: library_left_def n image_def)
  ultimately show "names_ok fresh_parser"
    by (simp add: names_ok_def tables_ok_def ld sel) (simp add: fresh_loader_def init_storage_def
      more_functions_def more_variables_def more_arrays_def Let_def)
qed

theorem lookup_correct_witness:
  "\<exists>p'. lookup ''rate'' SIMPLE fresh_parser = Some (Some 5, p') \<and> names_ok p' \<and> name_at SIMPLE 5 p' = Some ''rate''"
proof -
  have "next_of SIMPLE fresh_parser < INT_MAX" by (simp add: fresh_names INT_MAX_def)
  from lookup_correct [OF fresh_names(1) this, of "''rate''"] show ?thesis
    by (auto simp: number_given_def Let_def number_of_def fresh_names)
qed

end
