(* ===== verification/BcGen.thy ===== *)
theory BcGen
  imports BcNames
begin

text \<open>
  The code generator (\<^verbatim>\<open>usr.bin/bc/util.c\<close>): argument lists and their text, the check of parameters and automatic
  variables, and the functions through which the parser hands code to the loader.
\<close>

section \<open>Argument lists\<close>

text \<open>The buffer's size and its text. \<open>sval\<close> has 30 bytes, of which \<^verbatim>\<open>snprintf\<close> fills 29.\<close>

fun make_arg_str :: "arg_list \<Rightarrow> nat \<Rightarrow> (nat \<times> string) option" where
  "make_arg_str [] len = Some (len, [])"
| "make_arg_str (a # args) len = do {
     (sz, temp) \<leftarrow> make_arg_str args (len + 12);
     let sval = take 29 ((if arg_is_var a then ''*'' else []) @ long_str (av_name a) @ (if len \<noteq> 1 then '','' else []));
     guard (length temp + length sval < sz);
     Some (sz, temp @ sval)
   }"

definition arg_str :: "arg_list \<Rightarrow> parser \<Rightarrow> (string \<times> parser) option" where
  "arg_str args p = do {
     let p = p\<lparr>arglist2 := arglist1 p\<rparr>;
     (sz, temp) \<leftarrow> make_arg_str args 1;
     Some (temp, p\<lparr>arglist1 := Some temp\<rparr>)
   }"

definition call_str :: "arg_list \<Rightarrow> parser \<Rightarrow> string \<times> parser" where
  "call_str args p = (let p = p\<lparr>arglist2 := arglist1 p\<rparr>; temp = map (\<lambda>a. if av_name a \<noteq> 0 then CHR ''1'' else CHR ''0'') args
     in (temp, p\<lparr>arglist1 := Some temp\<rparr>))"

text \<open>The inner loop of each check, and the three outer loops.\<close>

fun check_dup :: "string \<Rightarrow> arg \<Rightarrow> arg_list \<Rightarrow> loader \<Rightarrow> loader" where
  "check_dup mesg tmp1 [] l = l"
| "check_dup mesg tmp1 (tmp2 # args) l = check_dup mesg tmp1 args (if av_name tmp2 = av_name tmp1 then yyerror mesg l else l)"

fun check_parameters :: "arg_list \<Rightarrow> loader \<Rightarrow> loader" where
  "check_parameters [] l = l"
| "check_parameters (tmp1 # args) l = check_parameters args (
     let l = check_dup ''duplicate parameter names'' tmp1 args l
     in if arg_is_var tmp1 then ct_warn ''Variable array parameter'' l else l)"

fun check_autos :: "arg_list \<Rightarrow> loader \<Rightarrow> loader" where
  "check_autos [] l = l"
| "check_autos (tmp1 # args) l = check_autos args (
     let l = check_dup ''duplicate auto variable names'' tmp1 args l
     in if arg_is_var tmp1 then yyerror ''* not allowed here'' l else l)"

fun check_both :: "arg_list \<Rightarrow> arg_list \<Rightarrow> loader \<Rightarrow> loader" where
  "check_both [] autos l = l"
| "check_both (tmp1 # params) autos l = check_both params autos (
     check_dup ''variable in both parameter and auto lists'' tmp1 autos l)"

definition check_params :: "arg_list \<Rightarrow> arg_list \<Rightarrow> loader \<Rightarrow> loader" where
  "check_params params autos l = (
     let l = check_parameters params l; l = check_autos autos l
     in if params \<noteq> [] \<and> autos \<noteq> [] then check_both params autos l else l)"

section \<open>Generating code\<close>

definition set_genstr_size :: "nat \<Rightarrow> parser \<Rightarrow> parser" where
  "set_genstr_size sz p = (if sz > genlen p then p\<lparr>genlen := sz\<rparr> else p)"

definition puts :: "string \<Rightarrow> bc_state \<Rightarrow> bc_state" where
  "puts str m = m\<lparr>stdout_chars := stdout_chars m @ str\<rparr>"

definition init_gen :: "parser \<Rightarrow> parser option" where
  "init_gen p = do {
     let p = p\<lparr>break_label := 0, continue_label := 0, next_label := 1, out_count := 2\<rparr>;
     p \<leftarrow> (if compile_only (machine (ld p)) then Some (with_machine (puts ''@i'') p)
       else do { l \<leftarrow> init_load (ld p); Some (p\<lparr>ld := l\<rparr>) });
     Some (set_genstr_size 64 (p\<lparr>ld := (ld p)\<lparr>had_error := False\<rparr>, did_gen := False\<rparr>))
   }"

definition generate :: "string \<Rightarrow> parser \<Rightarrow> parser option" where
  "generate str p = (
     let p = p\<lparr>did_gen := True\<rparr>
     in if compile_only (machine (ld p)) then
          let p = (with_machine (puts str) p)\<lparr>out_count := out_count p + length str\<rparr>
          in Some (if out_count p > 60 then (with_machine (puts [newline]) p)\<lparr>out_count := 0\<rparr> else p)
        else do { l \<leftarrow> load_code str (ld p); Some (p\<lparr>ld := l\<rparr>) })"

definition run_code :: "parser \<Rightarrow> parser option" where
  "run_code p = do {
     p \<leftarrow> (if \<not> had_error (ld p) \<and> did_gen p then
         if compile_only (machine (ld p)) then Some ((with_machine (puts (''@r'' @ [newline])) p)\<lparr>out_count := 0\<rparr>)
         else do { m \<leftarrow> execute (machine (ld p)); Some (p\<lparr>ld := (ld p)\<lparr>machine := m\<rparr>\<rparr>) }
       else Some p);
     if exited (machine (ld p)) \<noteq> None then Some p
     else if did_gen p then init_gen p else Some (p\<lparr>ld := (ld p)\<lparr>had_error := False\<rparr>\<rparr>)
   }"

section \<open>The text of argument lists\<close>

text \<open>The items in the order of the text, which is the reverse of that of the list.\<close>

definition arg_text :: "arg \<Rightarrow> string" where
  "arg_text a = (if arg_is_var a then ''*'' else []) @ long_str (av_name a)"

fun comma_text :: "arg_list \<Rightarrow> string" where
  "comma_text [] = []"
| "comma_text (a # args) = comma_text args @ arg_text a @ '',''"

text \<open>The names of arguments that fit the 12 bytes reserved for each.\<close>

abbreviation short_args :: "arg_list \<Rightarrow> bool" where
  "short_args args \<equiv> \<forall>a \<in> set args. \<bar>av_name a\<bar> < 1000000"

lemma dec_str_length: "n < 10 ^ k \<Longrightarrow> 0 < k \<Longrightarrow> length (dec_str n) \<le> k"
proof (induction k arbitrary: n)
  case (Suc k)
  show ?case
  proof (cases "n < 10")
    case True
    then show ?thesis by (subst dec_str.simps) simp
  next
    case False
    then have "0 < k" using Suc.prems by (cases k) simp_all
    moreover have "n div 10 < 10 ^ k" using Suc.prems by (simp add: less_mult_imp_div_less mult.commute)
    ultimately show ?thesis using Suc.IH [of "n div 10"] False by (subst dec_str.simps) simp
  qed
qed simp

lemma arg_text_length: "\<bar>av_name a\<bar> < 1000000 \<Longrightarrow> length (arg_text a) \<le> 8"
proof -
  assume "\<bar>av_name a\<bar> < 1000000"
  then have "length (dec_str (nat (av_name a))) \<le> 6" "length (dec_str (nat (- av_name a))) \<le> 6" by (simp_all add: dec_str_length)
  then show ?thesis by (auto simp: arg_text_def long_str_def)
qed

lemma comma_text_length: "short_args args \<Longrightarrow> length (comma_text args) \<le> 9 * length args"
proof (induction args)
  case (Cons a args)
  then show ?case using arg_text_length [of a] by simp
qed simp

lemma make_arg_str_inner: "short_args args \<Longrightarrow> 1 < len \<Longrightarrow> make_arg_str args len = Some (len + 12 * length args, comma_text args)"
proof (induction args arbitrary: len)
  case (Cons a args)
  have "length (arg_text a) \<le> 8" "length (comma_text args) \<le> 9 * length args" using Cons.prems arg_text_length comma_text_length by simp_all
  then show ?case using Cons by (simp add: Let_def flip: arg_text_def append_assoc)
qed simp

text \<open>Commas stand between the items.\<close>

fun args_text :: "arg_list \<Rightarrow> string" where
  "args_text [] = []"
| "args_text (a # args) = comma_text args @ arg_text a"

lemma arg_str_text:
  assumes "short_args args"
  shows "arg_str args p = Some (args_text args, p\<lparr>arglist2 := arglist1 p, arglist1 := Some (args_text args)\<rparr>)"
proof (cases args)
  case (Cons a as)
  have "length (arg_text a) \<le> 8" "length (comma_text as) \<le> 9 * length as" using assms arg_text_length comma_text_length by (simp_all add: Cons)
  then show ?thesis using assms make_arg_str_inner [of as 13]
    by (simp add: Cons arg_str_def Let_def flip: arg_text_def) 
qed (simp add: arg_str_def)

section \<open>The loader reads argument lists back\<close>

lemma peek_advance [simp]: "peek (c # cs) = c" "advance (c # cs) = Some cs"
  by (simp_all add: peek_def advance_def)

lemma long_str_head: "\<exists>d ds. long_str v = d # ds \<and> (isdigit d \<or> d = CHR ''-'')"
proof (cases "v < 0")
  case False
  obtain d ds where "dec_str (nat v) = bcd_char d # ds" "digit d" using dec_str_head by blast
  then show ?thesis using False char_val_digit [of d] by (auto simp: long_str_def isdigit_def digit_def char_val_def)
qed (simp add: long_str_def)

text \<open>The list that a text of items stands for, behind a given list.\<close>

lemma load_params_items:
  assumes "short_args args" and "bc_functions m func = Some f"
  shows "load_params func (concat (map (\<lambda>a. CHR '','' # arg_text a) args) @ ''.'' @ r) m
    = Some (r, m\<lparr>bc_functions := (bc_functions m)(func \<mapsto> f\<lparr>f_params := rev args @ f_params f\<rparr>)\<rparr>)"
  using assms
proof (induction args arbitrary: m f)
  case Nil
  then show ?case by (subst load_params.simps) (simp add: map_upd_triv)
next
  case (Cons a args)
  let ?rest = "concat (map (\<lambda>a. CHR '','' # arg_text a) args) @ ''.'' @ r"
  have rest: "\<exists>c cs. ?rest = c # cs \<and> \<not> isdigit c" by (cases args) (simp_all add: isdigit_def char_val_def)
  then obtain c cs where c: "?rest = c # cs" "\<not> isdigit c" by blast
  have lv: "long_val (long_str (av_name a) @ ?rest) = Some (av_name a, ?rest)" unfolding c(1) by (rule long_val_str) (use Cons.prems c in auto)
  obtain d ds where d: "long_str (av_name a) = d # ds" "isdigit d \<or> d = CHR ''-''" using long_str_head by blast
  have nd: "d \<noteq> CHR ''.''" "d \<noteq> CHR ''*''" using d(2) by (auto simp: isdigit_def char_val_def)
  let ?f = "f\<lparr>f_params := a # f_params f\<rparr>"
  have upd: "upd_func func (\<lambda>f. f\<lparr>f_params := nextarg (f_params f) (av_name a) (arg_is_var a)\<rparr>) m = Some (m\<lparr>bc_functions := (bc_functions m)(func \<mapsto> ?f)\<rparr>)"
    using Cons.prems(2) by (cases a) (simp add: upd_func_def nextarg_def)
  have "load_params func (CHR '','' # arg_text a @ ?rest) m = load_params func ?rest (m\<lparr>bc_functions := (bc_functions m)(func \<mapsto> ?f)\<rparr>)"
  proof (cases "arg_is_var a")
    case True
    then show ?thesis using lv upd by (subst load_params.simps) (simp add: arg_text_def)
  next
    case False
    then show ?thesis using lv upd d(1) nd by (subst load_params.simps) (simp add: arg_text_def)
  qed
  then show ?case using Cons.IH [of "m\<lparr>bc_functions := (bc_functions m)(func \<mapsto> ?f)\<rparr>" ?f] Cons.prems(1) by (simp cong: if_cong)
qed

lemma load_autos_items:
  assumes "short_args args" and "\<forall>a \<in> set args. \<not> arg_is_var a" and "bc_functions m func = Some f" and "args \<noteq> [] \<or> b"
  shows "load_autos func ((if b then concat (map (\<lambda>a. CHR '','' # arg_text a) args) else tl (concat (map (\<lambda>a. CHR '','' # arg_text a) args))) @ ''['' @ r) m
    = Some (''['' @ r, m\<lparr>bc_functions := (bc_functions m)(func \<mapsto> f\<lparr>f_autos := rev args @ f_autos f\<rparr>)\<rparr>)"
  using assms
proof (induction args arbitrary: m f b)
  case Nil
  then show ?case by (subst load_autos.simps) (simp add: map_upd_triv)
next
  case (Cons a args)
  let ?rest = "concat (map (\<lambda>a. CHR '','' # arg_text a) args) @ ''['' @ r"
  have "\<exists>c cs. ?rest = c # cs \<and> \<not> isdigit c" by (cases args) (simp_all add: isdigit_def char_val_def)
  then obtain c cs where c: "?rest = c # cs" "\<not> isdigit c" by blast
  have lv: "long_val (long_str (av_name a) @ ?rest) = Some (av_name a, ?rest)" unfolding c(1) by (rule long_val_str) (use Cons.prems c in auto)
  obtain d ds where d: "long_str (av_name a) = d # ds" "isdigit d \<or> d = CHR ''-''" using long_str_head by blast
  have nd: "d \<noteq> CHR ''[''" "d \<noteq> CHR '',''" using d(2) by (auto simp: isdigit_def char_val_def)
  have tx: "arg_text a = long_str (av_name a)" and a: "a = \<lparr>av_name = av_name a, arg_is_var = False\<rparr>" using Cons.prems(2) by (simp_all add: arg_text_def)
  let ?f = "f\<lparr>f_autos := a # f_autos f\<rparr>"
  have upd: "upd_func func (\<lambda>f. f\<lparr>f_autos := nextarg (f_autos f) (av_name a) False\<rparr>) m = Some (m\<lparr>bc_functions := (bc_functions m)(func \<mapsto> ?f)\<rparr>)"
    using Cons.prems(3) a by (simp add: upd_func_def nextarg_def)
  have "load_autos func ((if b then '','' else []) @ long_str (av_name a) @ ?rest) m = load_autos func ?rest (m\<lparr>bc_functions := (bc_functions m)(func \<mapsto> ?f)\<rparr>)"
    using lv upd d(1) nd by (subst load_autos.simps) simp
  moreover have "load_autos func ?rest (m\<lparr>bc_functions := (bc_functions m)(func \<mapsto> ?f)\<rparr>)
      = Some (''['' @ r, m\<lparr>bc_functions := (bc_functions m)(func \<mapsto> ?f\<lparr>f_autos := rev args @ f_autos ?f\<rparr>)\<rparr>)"
    using Cons.IH [of "m\<lparr>bc_functions := (bc_functions m)(func \<mapsto> ?f)\<rparr>" ?f True] Cons.prems(1,2) by (simp add: fun_upd_def cong: if_cong)
  moreover have "(if b then concat (map (\<lambda>a. CHR '','' # arg_text a) (a # args)) else tl (concat (map (\<lambda>a. CHR '','' # arg_text a) (a # args)))) @ ''['' @ r
      = (if b then '','' else []) @ long_str (av_name a) @ ?rest" by (cases b) (simp_all add: tx)
  ultimately show ?case by (simp add: fun_upd_def)
qed

lemma comma_text_items: "CHR '','' # comma_text args = concat (map (\<lambda>a. CHR '','' # arg_text a) (rev args)) @ '',''"
  by (induction args) simp_all

lemma args_text_items: "args \<noteq> [] \<Longrightarrow> CHR '','' # args_text args = concat (map (\<lambda>a. CHR '','' # arg_text a) (rev args))"
  by (cases args) (simp_all add: comma_text_items flip: append_Cons)

section \<open>The checks\<close>

lemma yyerror_sel [simp]: "had_error (yyerror mesg l) = True" "machine (yyerror mesg l) = machine l"
  by (simp_all add: yyerror_def)

lemma ct_warn_error: "had_error (ct_warn mesg l) \<longleftrightarrow> had_error l \<or> std_only (machine l)"
  by (auto simp: ct_warn_def yyerror_def)

lemma check_dup_error: "machine (check_dup mesg a args l) = machine l \<and> (had_error (check_dup mesg a args l) \<longleftrightarrow> had_error l \<or> av_name a \<in> av_name ` set args)"
  by (induction args arbitrary: l) auto

lemma check_parameters_error:
  "machine (check_parameters args l) = machine l \<and> (had_error (check_parameters args l)
     \<longleftrightarrow> had_error l \<or> \<not> distinct (map av_name args) \<or> std_only (machine l) \<and> (\<exists>a \<in> set args. arg_is_var a))"
  by (induction args arbitrary: l) (auto simp: Let_def check_dup_error ct_warn_error)

lemma check_autos_error:
  "machine (check_autos args l) = machine l \<and> (had_error (check_autos args l)
     \<longleftrightarrow> had_error l \<or> \<not> distinct (map av_name args) \<or> (\<exists>a \<in> set args. arg_is_var a))"
  by (induction args arbitrary: l) (auto simp: Let_def check_dup_error)

lemma check_both_error:
  "machine (check_both params autos l) = machine l \<and> (had_error (check_both params autos l)
     \<longleftrightarrow> had_error l \<or> av_name ` set params \<inter> av_name ` set autos \<noteq> {})"
  by (induction params arbitrary: l) (auto simp: check_dup_error)

section \<open>Theorems\<close>

text \<open>
  C22: the check of a function's parameters and automatic variables finds an error exactly when a name occurs twice among them, when
  an automatic variable is marked with a star, or when a parameter is and only standard features are allowed.
\<close>

theorem check_params_correct:
  "had_error (check_params params autos l) \<longleftrightarrow> had_error l \<or> \<not> distinct (map av_name (params @ autos)) \<or> (\<exists>a \<in> set autos. arg_is_var a)
     \<or> std_only (machine l) \<and> (\<exists>a \<in> set params. arg_is_var a)"
  using check_parameters_error [of params l] check_autos_error [of autos "check_parameters params l"]
    check_both_error [of params autos "check_autos autos (check_parameters params l)"]
  by (auto simp: check_params_def Let_def)

theorem check_params_correct_witness:
  "had_error (check_params [\<lparr>av_name = 5, arg_is_var = False\<rparr>] [\<lparr>av_name = 6, arg_is_var = False\<rparr>, \<lparr>av_name = 5, arg_is_var = False\<rparr>] fresh_loader)"
  by (subst check_params_correct) simp

text \<open>
  C40: the text of the parameters and of the automatic variables of a function fits its buffer, and the loader reads both
  lists back in their order from the header of the function.
\<close>

theorem arg_str_roundtrip:
  assumes "short_args params" and "short_args autos" and "\<forall>a \<in> set autos. \<not> arg_is_var a"
    and "bc_functions (machine l) n = Some f" and "n < 100000000"
  shows "\<exists>ps as p1 p2. arg_str params p = Some (ps, p1) \<and> arg_str autos p1 = Some (as, p2)
    \<and> load_func (long_str (int n) @ '','' @ ps @ ''.'' @ as @ ''['' @ r) l = Some (''['' @ r,
        l\<lparr>machine := (machine l)\<lparr>bc_functions := (bc_functions (machine l))(n \<mapsto> f\<lparr>f_defined := False, f_code_size := 0,
            f_label := [], f_params := params, f_autos := autos\<rparr>)\<rparr>,
          save_adr := load_adr l, load_adr := \<lparr>pc_func = n, pc_addr = 0\<rparr>\<rparr>)"
proof -
  let ?ps = "concat (map (\<lambda>a. CHR '','' # arg_text a) (rev params))" and ?as = "concat (map (\<lambda>a. CHR '','' # arg_text a) (rev autos))"
  let ?tx = "CHR '','' # args_text params @ ''.'' @ args_text autos @ ''['' @ r" and ?tas = "args_text autos @ ''['' @ r"
  let ?f = "f\<lparr>f_defined := False, f_code_size := 0, f_autos := [], f_params := [], f_label := []\<rparr>"
  let ?m = "(machine l)\<lparr>bc_functions := (bc_functions (machine l))(n \<mapsto> ?f)\<rparr>"
  let ?m1 = "(machine l)\<lparr>bc_functions := (bc_functions (machine l))(n \<mapsto> ?f\<lparr>f_params := params\<rparr>)\<rparr>"
  let ?m2 = "(machine l)\<lparr>bc_functions := (bc_functions (machine l))(n \<mapsto> ?f\<lparr>f_params := params, f_autos := autos\<rparr>)\<rparr>"
  have cl: "clear_func n (machine l) = Some ?m" using assms(4) by (simp add: clear_func_def upd_func_def)
  have lv: "long_val (long_str (int n) @ ?tx) = Some (int n, ?tx)" by (rule long_val_str) (use assms(5) in \<open>simp_all add: isdigit_def char_val_def\<close>)
  have ps: "load_params n ?tx ?m = Some (?tas, ?m1)"
  proof (cases "params = []")
    case True
    then have same: "?m1 = ?m" by (cases f) simp
    show ?thesis unfolding same using True by (subst load_params.simps) simp
  next
    case False
    have tx: "?tx = ?ps @ ''.'' @ ?tas" by (simp flip: append_Cons args_text_items [OF False])
    have "load_params n (?ps @ ''.'' @ ?tas) ?m = Some (?tas, ?m1)"
      using load_params_items [of "rev params" ?m n ?f ?tas] assms(1) by (simp add: fun_upd_def cong: if_cong)
    then show ?thesis unfolding tx .
  qed
  have "load_autos n ?tas ?m1 = Some (''['' @ r, ?m2)"
  proof (cases "autos = []")
    case True
    then have same: "?m2 = ?m1" by (cases f) simp
    show ?thesis unfolding same using True by (subst load_autos.simps) simp
  next
    case False
    then have "args_text autos = tl ?as" using args_text_items [OF False] by (metis list.sel(3))
    moreover have "load_autos n (tl ?as @ ''['' @ r) ?m1 = Some (''['' @ r, ?m2)"
      using load_autos_items [of "rev autos" ?m1 n "?f\<lparr>f_params := params\<rparr>" False r] assms(2,3) False by (simp add: fun_upd_def cong: if_cong)
    ultimately show ?thesis by simp
  qed
  then have "load_func (long_str (int n) @ ?tx) l = Some (''['' @ r, l\<lparr>machine := ?m2, save_adr := load_adr l, load_adr := \<lparr>pc_func = n, pc_addr = 0\<rparr>\<rparr>)"
    using lv cl ps by (simp add: load_func_def)
  then show ?thesis using arg_str_text assms(1,2) by simp
qed

theorem arg_str_roundtrip_witness:
  "\<exists>l'. load_func ''3,-2,*-1,5.7[0R]'' fresh_loader = Some (''[0R]'', l')"
proof -
  let ?ps = "[\<lparr>av_name = 5, arg_is_var = False\<rparr>, \<lparr>av_name = -1, arg_is_var = True\<rparr>, \<lparr>av_name = -2, arg_is_var = False\<rparr>]"
  let ?as = "[\<lparr>av_name = 7, arg_is_var = False\<rparr>]"
  have "short_args ?ps" "short_args ?as" "\<forall>a \<in> set ?as. \<not> arg_is_var a" "bc_functions (machine fresh_loader) 3 = Some new_function"
    by (simp_all add: fresh_loader_def init_storage_def more_functions_def more_variables_def more_arrays_def Let_def)
  moreover have "bcd_char 1 = CHR ''1''" "bcd_char 3 = CHR ''3''" by code_simp+
  ultimately show ?thesis using arg_str_roundtrip [of ?ps ?as fresh_loader 3 new_function fresh_parser "''0R]''"]
    by (auto simp: arg_str_text arg_text_def long_str_def dec_str.simps bcd_char_numerals)
qed

end
