(* ===== verification/BcParse.thy ===== *)
theory BcParse
  imports BcGen
begin

text \<open>
  The actions of the grammar (\<^verbatim>\<open>usr.bin/bc/bc.y\<close>), as functions on its syntax trees, in the order in which
  the parser performs them: they look names up, give out labels, and generate code. Once the program has ended
  (\<^verbatim>\<open>bc_exit\<close>) nothing changes any more. Error recovery and the statements that only print a text
  (\<^verbatim>\<open>warranty\<close>, \<^verbatim>\<open>limits\<close>) are left out.
\<close>

unbundle bit_operations_syntax

section \<open>Syntax trees\<close>

datatype named = Simple string | Element string expr | Ibase | Obase | Scale | History | Last
and expr = Assign named char expr | And expr expr | Or expr expr | Not expr | Rel expr string expr | Binary expr char expr
  | Negate expr | Value named | Number string | Paren expr | Call string "argument list" | Pre char named | Post named char
  | Length expr | Sqrt expr | Scale_of expr | Read | Random
and argument = Arg expr | Arg_array string

datatype print_element = Print_string string | Print_expr expr

text \<open>The \<open>bool\<close>s say whether a newline stands where \<^verbatim>\<open>opt_newline\<close> allows one.\<close>

datatype stmt = Expression expr | String string | Break | Continue | Quit | Halt | Return "expr option"
  | For "expr option" "expr option" "expr option" bool stmt | If expr bool stmt | If_else expr bool stmt bool stmt
  | While expr bool stmt | Block "stmt list" | Print "print_element list"

datatype param = P_simple string | P_array string | P_star string

text \<open>A function: void, name, parameters, newline, number of newlines behind the brace, automatic variables, body.\<close>

datatype item_tree = Statements "stmt list" | Function bool string "param list" bool nat "param list" "stmt list"

section \<open>Steps of the actions\<close>

abbreviation EX_ASSGN :: int where "EX_ASSGN \<equiv> 0"
abbreviation EX_REG :: int where "EX_REG \<equiv> 1"
abbreviation EX_COMP :: int where "EX_COMP \<equiv> 2"
abbreviation EX_PAREN :: int where "EX_PAREN \<equiv> 4"
abbreviation EX_VOID :: int where "EX_VOID \<equiv> 8"
abbreviation EX_EMPTY :: int where "EX_EMPTY \<equiv> 16"

abbreviation ended :: "parser \<Rightarrow> bool" where
  "ended p \<equiv> exited (machine (ld p)) \<noteq> None"

definition warn_on :: "bool \<Rightarrow> string \<Rightarrow> parser \<Rightarrow> parser" where
  "warn_on b mesg p = (if b \<and> \<not> ended p then p\<lparr>ld := ct_warn mesg (ld p)\<rparr> else p)"

definition error_on :: "bool \<Rightarrow> string \<Rightarrow> parser \<Rightarrow> parser" where
  "error_on b mesg p = (if b \<and> \<not> ended p then p\<lparr>ld := yyerror mesg (ld p)\<rparr> else p)"

text \<open>Code as it is, and code that \<^verbatim>\<open>snprintf\<close> puts in \<open>genstr\<close> first.\<close>

definition gen :: "string \<Rightarrow> parser \<Rightarrow> parser option" where
  "gen str p = (if ended p then Some p else generate str p)"

definition genf :: "string \<Rightarrow> parser \<Rightarrow> parser option" where
  "genf str p = gen (take (genlen p - 1) str) p"

definition find_number :: "string \<Rightarrow> namekind \<Rightarrow> parser \<Rightarrow> (int \<times> parser) option" where
  "find_number name kind p = (if ended p then Some (0, p)
     else do { (r, p) \<leftarrow> lookup name kind p; Some (case r of Some v \<Rightarrow> v | None \<Rightarrow> 0, p) })"

text \<open>\<^verbatim>\<open>next_label++\<close>\<close>

definition new_label :: "parser \<Rightarrow> (int \<times> parser) option" where
  "new_label p = do { guard (next_label p < INT_MAX); Some (next_label p, p\<lparr>next_label := next_label p + 1\<rparr>) }"

definition label_text :: "char \<Rightarrow> int \<Rightarrow> string" where
  "label_text c n = c # long_str n @ '':''"

section \<open>Expressions\<close>

definition rel_code :: "string \<Rightarrow> string" where
  "rel_code r = (case r of
     c # cs \<Rightarrow> if c = CHR ''='' then ''='' else if c = CHR ''!'' then ''#''
       else if c = CHR ''<'' then (if peek cs = CHR ''='' then ''{'' else ''<'')
       else if c = CHR ''>'' then (if peek cs = CHR ''='' then ''}'' else ''>'') else []
   | [] \<Rightarrow> [])"

text \<open>A constant: \<open>0\<close> and \<open>1\<close> have instructions of their own.\<close>

definition number_action :: "string \<Rightarrow> parser \<Rightarrow> parser option" where
  "number_action s p = (if s = ''0'' then gen ''0'' p else if s = ''1'' then gen ''1'' p
     else do { p \<leftarrow> gen ''K'' p; p \<leftarrow> gen s p; gen '':'' p })"

text \<open>The call of a function whose arguments have been compiled.\<close>

definition call_action :: "string \<Rightarrow> arg_list \<Rightarrow> parser \<Rightarrow> (int \<times> parser) option" where
  "call_action name args p = do {
     (fn, p) \<leftarrow> find_number name FUNCT p;
     if ended p then Some (0, p)
     else do {
       guard (fn \<ge> 0);
       f \<leftarrow> bc_functions (machine (ld p)) (nat fn);
       let v = (if f_void f then EX_VOID else EX_REG);
       if args \<noteq> [] then do {
         let (params, p) = call_str args p;
         p \<leftarrow> genf (''C'' @ long_str fn @ '','' @ params @ '':'') (set_genstr_size (20 + length params) p);
         Some (v, p)
       }
       else do { p \<leftarrow> genf (label_text (CHR ''C'') fn) p; Some (v, p) }
     }
   }"

text \<open>Loading and storing a variable; the number of an array is negative.\<close>

definition load_text :: "string \<Rightarrow> int \<Rightarrow> string" where
  "load_text pre v = (if v < 0 then pre @ label_text (CHR ''L'') (- v) else label_text (CHR ''l'') v)"

definition store_text :: "int \<Rightarrow> string" where
  "store_text v = (if v < 0 then label_text (CHR ''S'') (- v) else label_text (CHR ''s'') v)"

definition pre_text :: "char \<Rightarrow> int \<Rightarrow> string" where
  "pre_text c v = (if v < 0 then ''D'' @ label_text (if c = CHR ''+'' then CHR ''A'' else CHR ''M'') (- v) @ label_text (CHR ''L'') (- v)
     else label_text (if c = CHR ''+'' then CHR ''i'' else CHR ''d'') v @ label_text (CHR ''l'') v)"

definition post_action :: "char \<Rightarrow> int \<Rightarrow> parser \<Rightarrow> parser option" where
  "post_action c v p = (
     if v < 0 then do {
       p \<leftarrow> genf (''D'' @ label_text (CHR ''L'') (- v) @ ''x'') p;
       genf (label_text (if c = CHR ''+'' then CHR ''A'' else CHR ''M'') (- v)) p
     }
     else do {
       p \<leftarrow> genf (label_text (CHR ''l'') v) p;
       genf (label_text (if c = CHR ''+'' then CHR ''i'' else CHR ''d'') v) p
     })"

text \<open>The void operands of binary operators.\<close>

abbreviation is_void :: "int \<Rightarrow> bool" where "is_void v \<equiv> v AND EX_VOID \<noteq> 0"

abbreviation is_comp :: "int \<Rightarrow> bool" where "is_comp v \<equiv> v AND EX_COMP \<noteq> 0"

fun expression :: "expr \<Rightarrow> parser \<Rightarrow> (int \<times> parser) option"
and named_expression :: "named \<Rightarrow> parser \<Rightarrow> (int \<times> parser) option"
and argument_list :: "argument list \<Rightarrow> arg_list \<Rightarrow> parser \<Rightarrow> (arg_list \<times> parser) option" where
  "expression (Assign n c e) p = do {
     (v1, p) \<leftarrow> named_expression n p;
     p \<leftarrow> (if c \<noteq> CHR ''='' then genf (load_text ''D'' v1) p else Some p);
     (v4, p) \<leftarrow> expression e p;
     let p = warn_on (v4 AND EX_ASSGN \<noteq> 0) ''comparison in assignment'' p;
     let p = error_on (is_void v4) ''Assignment of a void expression'' p;
     p \<leftarrow> (if c \<noteq> CHR ''='' then genf [c] p else Some p);
     p \<leftarrow> genf (store_text v1) p;
     Some (EX_ASSGN, p)
   }"
| "expression (And a b) p = do {
     (v1, p) \<leftarrow> expression a p;
     (l, p) \<leftarrow> new_label (warn_on True ''&& operator'' p);
     p \<leftarrow> genf (''D'' @ label_text (CHR ''Z'') l @ ''p'') p;
     (v4, p) \<leftarrow> expression b p;
     let p = error_on (is_void v1 \<or> is_void v4) ''void expression with &&'' p;
     p \<leftarrow> genf (''D'' @ label_text (CHR ''Z'') l @ ''p1'' @ label_text (CHR ''N'') l) p;
     Some ((v1 OR v4) AND NOT EX_PAREN, p)
   }"
| "expression (Or a b) p = do {
     (v1, p) \<leftarrow> expression a p;
     (l, p) \<leftarrow> new_label (warn_on True ''|| operator'' p);
     p \<leftarrow> genf (label_text (CHR ''B'') l) p;
     (v4, p) \<leftarrow> expression b p;
     let p = error_on (is_void v1 \<or> is_void v4) ''void expression with ||'' p;
     (tmplab, p) \<leftarrow> new_label p;
     p \<leftarrow> genf (label_text (CHR ''B'') l @ ''0'' @ label_text (CHR ''J'') tmplab @ label_text (CHR ''N'') l @ ''1'' @ label_text (CHR ''N'') tmplab) p;
     Some ((v1 OR v4) AND NOT EX_PAREN, p)
   }"
| "expression (Not a) p = do {
     (v2, p) \<leftarrow> expression a p;
     let p = error_on (is_void v2) ''void expression with !'' p;
     p \<leftarrow> gen ''!'' (warn_on True ''! operator'' p);
     Some (v2 AND NOT EX_PAREN, p)
   }"
| "expression (Rel a r b) p = do {
     (v1, p) \<leftarrow> expression a p;
     (v3, p) \<leftarrow> expression b p;
     let p = error_on (is_void v1 \<or> is_void v3) ''void expression with comparison'' p;
     p \<leftarrow> (if rel_code r \<noteq> [] then gen (rel_code r) p else Some p);
     Some (EX_REG OR EX_COMP, p)
   }"
| "expression (Binary a c b) p = do {
     (v1, p) \<leftarrow> expression a p;
     (v3, p) \<leftarrow> expression b p;
     let p = error_on (is_void v1 \<or> is_void v3) (''void expression with '' @ [c]) p;
     p \<leftarrow> gen [c] p;
     Some ((v1 OR v3) AND NOT EX_PAREN, p)
   }"
| "expression (Negate a) p = do {
     (v2, p) \<leftarrow> expression a p;
     let p = error_on (is_void v2) ''void expression with unary -'' p;
     p \<leftarrow> gen ''n'' p;
     Some (v2 AND NOT EX_PAREN, p)
   }"
| "expression (Value n) p = do { (v, p) \<leftarrow> named_expression n p; p \<leftarrow> genf (load_text [] v) p; Some (EX_REG, p) }"
| "expression (Number s) p = do { p \<leftarrow> number_action s p; Some (EX_REG, p) }"
| "expression (Paren a) p = do {
     (v2, p) \<leftarrow> expression a p;
     Some (v2 OR EX_REG OR EX_PAREN, error_on (is_void v2) ''void expression in parenthesis'' p)
   }"
| "expression (Call name args) p = do { (as, p) \<leftarrow> argument_list args [] p; call_action name as p }"
| "expression (Pre c n) p = do { (v, p) \<leftarrow> named_expression n p; p \<leftarrow> genf (pre_text c v) p; Some (EX_REG, p) }"
| "expression (Post n c) p = do { (v, p) \<leftarrow> named_expression n p; p \<leftarrow> post_action c v p; Some (EX_REG, p) }"
| "expression (Length a) p = do {
     (v, p) \<leftarrow> expression a p;
     p \<leftarrow> gen ''cL'' (error_on (is_void v) ''void expression in length()'' p);
     Some (EX_REG, p)
   }"
| "expression (Sqrt a) p = do {
     (v, p) \<leftarrow> expression a p;
     p \<leftarrow> gen ''cR'' (error_on (is_void v) ''void expression in sqrt()'' p);
     Some (EX_REG, p)
   }"
| "expression (Scale_of a) p = do {
     (v, p) \<leftarrow> expression a p;
     p \<leftarrow> gen ''cS'' (error_on (is_void v) ''void expression in scale()'' p);
     Some (EX_REG, p)
   }"
| "expression Read p = do { p \<leftarrow> gen ''cI'' (warn_on True ''read function'' p); Some (EX_REG, p) }"
| "expression Random p = do { p \<leftarrow> gen ''cX'' (warn_on True ''random function'' p); Some (EX_REG, p) }"
| "named_expression (Simple name) p = find_number name SIMPLE p"
| "named_expression (Element name e) p = do {
     (v, p) \<leftarrow> expression e p;
     let p = error_on (is_void v) ''void expression as subscript'' p;
     find_number name ARRAY (warn_on (is_comp v) ''comparison in subscript'' p)
   }"
| "named_expression Ibase p = Some (0, p)"
| "named_expression Obase p = Some (1, p)"
| "named_expression Scale p = Some (2, p)"
| "named_expression History p = Some (3, warn_on True ''History variable'' p)"
| "named_expression Last p = Some (4, warn_on True ''Last variable'' p)"
| "argument_list [] as p = Some (as, p)"
| "argument_list (Arg e # args) as p = do {
     (v, p) \<leftarrow> expression e p;
     let p = warn_on (is_comp v) ''comparison in argument'' p;
     let p = error_on (is_void v) ''void argument'' p;
     argument_list args (nextarg as 0 False) p
   }"
| "argument_list (Arg_array name # args) as p = do {
     (v, p) \<leftarrow> find_number name ARRAY p;
     p \<leftarrow> genf (label_text (CHR ''K'') (- v)) p;
     argument_list args (nextarg as 1 False) p
   }"

section \<open>Statements\<close>

definition opt_newline :: "bool \<Rightarrow> parser \<Rightarrow> parser" where
  "opt_newline nl = warn_on nl ''newline not allowed''"

fun opt_expression :: "expr option \<Rightarrow> parser \<Rightarrow> (int \<times> parser) option" where
  "opt_expression None p = Some (EX_EMPTY, warn_on True ''Missing expression in for statement'' p)"
| "opt_expression (Some e) p = expression e p"

fun return_expression :: "expr option \<Rightarrow> parser \<Rightarrow> parser option" where
  "return_expression None p = do { p \<leftarrow> gen ''0'' p; Some (error_on (cur_func p = -1) ''Return outside of a function.'' p) }"
| "return_expression (Some e) p = do {
     (v, p) \<leftarrow> expression e p;
     let p = warn_on (is_comp v) ''comparison in return expresion'' p;
     let p = warn_on (v AND EX_PAREN = 0) ''return expression requires parenthesis'' p;
     let p = error_on (is_void v) ''return requires non-void expression'' p;
     if cur_func p = -1 then Some (error_on True ''Return outside of a function.'' p)
     else if ended p then Some p
     else do {
       guard (cur_func p \<ge> 0);
       f \<leftarrow> bc_functions (machine (ld p)) (nat (cur_func p));
       Some (error_on (f_void f) ''Return expression in a void function.'' p)
     }
   }"

fun print_list :: "print_element list \<Rightarrow> parser \<Rightarrow> parser option" where
  "print_list [] p = Some p"
| "print_list (Print_string s # es) p = do { p \<leftarrow> gen ''O'' p; p \<leftarrow> gen s p; print_list es p }"
| "print_list (Print_expr e # es) p = do {
     (v, p) \<leftarrow> expression e p;
     p \<leftarrow> gen ''P'' (error_on (is_void v) ''void expression in print'' p);
     print_list es p
   }"

text \<open>The parts of a \<^verbatim>\<open>for\<close> up to its body; the results are the labels of the test and of the body.\<close>

definition for_head :: "expr option \<Rightarrow> expr option \<Rightarrow> expr option \<Rightarrow> parser \<Rightarrow> parser option" where
  "for_head e1 e2 e3 p = do {
     (v4, p) \<leftarrow> opt_expression e1 p;
     let p = warn_on (is_comp v4) ''Comparison in first for expression'' p;
     let p = error_on (is_void v4) ''first expression is void'' p;
     p \<leftarrow> (if v4 AND EX_EMPTY = 0 then gen ''p'' p else Some p);
     (l4, p) \<leftarrow> new_label p;
     p \<leftarrow> genf (label_text (CHR ''N'') l4) p;
     (v7, p) \<leftarrow> opt_expression e2 p;
     let p = error_on (is_void v7) ''second expression is void'' p;
     p \<leftarrow> (if v7 AND EX_EMPTY \<noteq> 0 then gen ''1'' p else Some p);
     (l7, p) \<leftarrow> new_label p;
     p \<leftarrow> genf (label_text (CHR ''B'') l7 @ label_text (CHR ''J'') (break_label p)) p;
     (l9, p) \<leftarrow> new_label p;
     let p = p\<lparr>continue_label := l9\<rparr>;
     p \<leftarrow> genf (label_text (CHR ''N'') l9) p;
     (v10, p) \<leftarrow> opt_expression e3 p;
     let p = warn_on (is_comp v10) ''Comparison in third for expression'' p;
     let p = error_on (is_void v10) ''third expression is void'' p;
     genf ((if v10 AND EX_EMPTY \<noteq> 0 then [] else ''p'') @ label_text (CHR ''J'') l4 @ label_text (CHR ''N'') l7) p
   }"

definition if_head :: "expr \<Rightarrow> parser \<Rightarrow> parser option" where
  "if_head e p = do {
     (v, p) \<leftarrow> expression e p;
     let p = error_on (is_void v) ''void expression'' p;
     (l, p) \<leftarrow> new_label p;
     genf (label_text (CHR ''Z'') l) (p\<lparr>if_label := l\<rparr>)
   }"

definition else_head :: "parser \<Rightarrow> parser option" where
  "else_head p = do {
     (l, p) \<leftarrow> new_label (warn_on True ''else clause in if statement'' p);
     p \<leftarrow> genf (label_text (CHR ''J'') l @ label_text (CHR ''N'') (if_label p)) p;
     Some (p\<lparr>if_label := l\<rparr>)
   }"

definition while_head :: "expr \<Rightarrow> parser \<Rightarrow> parser option" where
  "while_head e p = do {
     (l, p) \<leftarrow> new_label p;
     p \<leftarrow> genf (label_text (CHR ''N'') l) (p\<lparr>continue_label := l\<rparr>);
     (v, p) \<leftarrow> expression e p;
     let p = error_on (is_void v) ''void expression'' p;
     (l, p) \<leftarrow> new_label p;
     genf (label_text (CHR ''Z'') l) (p\<lparr>break_label := l\<rparr>)
   }"

definition loop_end :: "parser \<Rightarrow> parser option" where
  "loop_end p = genf (label_text (CHR ''J'') (continue_label p) @ label_text (CHR ''N'') (break_label p)) p"

fun statement :: "stmt \<Rightarrow> parser \<Rightarrow> parser option"
and statement_list :: "stmt list \<Rightarrow> parser \<Rightarrow> parser option" where
  "statement (Expression e) p = do {
     (v, p) \<leftarrow> expression e p;
     let p = warn_on (is_comp v) ''comparison in expression'' p;
     gen (if v AND EX_REG \<noteq> 0 then ''W'' else ''p'') p
   }"
| "statement (String s) p = do { p \<leftarrow> gen ''w'' p; gen s p }"
| "statement Break p = (if break_label p = 0 then Some (error_on True ''Break outside a for/while'' p)
     else genf (label_text (CHR ''J'') (break_label p)) p)"
| "statement Continue p = (let p = warn_on True ''Continue statement'' p
     in if continue_label p = 0 then Some (error_on True ''Continue outside a for'' p)
        else genf (label_text (CHR ''J'') (continue_label p)) p)"
| "statement Quit p = Some (if ended p then p else with_machine (bc_exit 0) p)"
| "statement Halt p = gen ''h'' p"
| "statement (Return e) p = do { p \<leftarrow> return_expression e p; gen ''R'' p }"
| "statement (For e1 e2 e3 nl body) p = do {
     let old_break = break_label p;
     let old_continue = continue_label p;
     (l, p) \<leftarrow> new_label p;
     p \<leftarrow> for_head e1 e2 e3 (p\<lparr>break_label := l\<rparr>);
     p \<leftarrow> statement body (opt_newline nl p);
     p \<leftarrow> loop_end p;
     Some (p\<lparr>break_label := old_break, continue_label := old_continue\<rparr>)
   }"
| "statement (If e nl s) p = do {
     let old = if_label p;
     p \<leftarrow> if_head e p;
     p \<leftarrow> statement s (opt_newline nl p);
     p \<leftarrow> genf (label_text (CHR ''N'') (if_label p)) p;
     Some (p\<lparr>if_label := old\<rparr>)
   }"
| "statement (If_else e nl1 s1 nl2 s2) p = do {
     let old = if_label p;
     p \<leftarrow> if_head e p;
     p \<leftarrow> statement s1 (opt_newline nl1 p);
     p \<leftarrow> else_head p;
     p \<leftarrow> statement s2 (opt_newline nl2 p);
     p \<leftarrow> genf (label_text (CHR ''N'') (if_label p)) p;
     Some (p\<lparr>if_label := old\<rparr>)
   }"
| "statement (While e nl body) p = do {
     let old_break = break_label p;
     let old_continue = continue_label p;
     p \<leftarrow> while_head e p;
     p \<leftarrow> statement body (opt_newline nl p);
     p \<leftarrow> loop_end p;
     Some (p\<lparr>break_label := old_break, continue_label := old_continue\<rparr>)
   }"
| "statement (Block ss) p = statement_list ss p"
| "statement (Print es) p = print_list es (warn_on True ''print statement'' p)"
| "statement_list [] p = Some p"
| "statement_list (s # ss) p = do { p \<leftarrow> statement s p; statement_list ss p }"

section \<open>Functions and input items\<close>

fun define_list :: "param list \<Rightarrow> arg_list \<Rightarrow> parser \<Rightarrow> (arg_list \<times> parser) option" where
  "define_list [] as p = Some (as, p)"
| "define_list (P_simple name # ps) as p = do { (v, p) \<leftarrow> find_number name SIMPLE p; define_list ps (nextarg as v False) p }"
| "define_list (P_array name # ps) as p = do { (v, p) \<leftarrow> find_number name ARRAY p; define_list ps (nextarg as v False) p }"
| "define_list (P_star name # ps) as p = do {
     (v, p) \<leftarrow> find_number name ARRAY p;
     define_list ps (nextarg as v True) (warn_on True ''Call by variable arrays'' p)
   }"

text \<open>\<open>n\<close> newlines where one is required.\<close>

fun too_many :: "nat \<Rightarrow> parser \<Rightarrow> parser" where
  "too_many 0 p = p"
| "too_many (Suc n) p = too_many n (warn_on True ''Too many end of lines'' p)"

definition required_eol :: "nat \<Rightarrow> parser \<Rightarrow> parser" where
  "required_eol n p = (if n = 0 then warn_on True ''End of line required'' p else too_many (n - 1) p)"

text \<open>The header of a function, behind its lists; the result is the label to go on with behind the function.\<close>

definition function_head :: "string \<Rightarrow> bool \<Rightarrow> arg_list \<Rightarrow> arg_list \<Rightarrow> parser \<Rightarrow> parser option" where
  "function_head name void params autos p = (if ended p then Some p else do {
     let p = p\<lparr>ld := check_params params autos (ld p)\<rparr>;
     (ps, p) \<leftarrow> arg_str params p;
     (as, p) \<leftarrow> arg_str autos p;
     let p = set_genstr_size (30 + length ps + length as) p;
     (fn, p) \<leftarrow> find_number name FUNCTDEF p;
     let p = p\<lparr>cur_func := fn\<rparr>;
     p \<leftarrow> genf (''F'' @ long_str fn @ '','' @ ps @ ''.'' @ as @ ''['') p;
     if ended p then Some p
     else do {
       guard (fn \<ge> 0);
       m \<leftarrow> upd_func (nat fn) (\<lambda>f. f\<lparr>f_void := void\<rparr>) (machine (ld p));
       Some (p\<lparr>ld := (ld p)\<lparr>machine := m\<rparr>, next_label := 1\<rparr>)
     }
   })"

definition function_action :: "bool \<Rightarrow> string \<Rightarrow> param list \<Rightarrow> bool \<Rightarrow> nat \<Rightarrow> param list \<Rightarrow> stmt list \<Rightarrow> parser \<Rightarrow> parser option" where
  "function_action void name params nl n autos body p = do {
     let p = warn_on void ''void functions'' p;
     (ps, p) \<leftarrow> define_list params [] p;
     let p = required_eol n (opt_newline nl p);
     (as, p) \<leftarrow> define_list autos [] p;
     let old = next_label p;
     p \<leftarrow> function_head name void ps as p;
     p \<leftarrow> statement_list body p;
     p \<leftarrow> gen ''0R]'' p;
     Some (p\<lparr>next_label := old, cur_func := -1\<rparr>)
   }"

fun input_item :: "item_tree \<Rightarrow> parser \<Rightarrow> parser option" where
  "input_item (Statements ss) p = do { p \<leftarrow> statement_list ss p; if ended p then Some p else run_code p }"
| "input_item (Function void name params nl n autos body) p = do {
     p \<leftarrow> function_action void name params nl n autos body p;
     if ended p then Some p else run_code p
   }"

fun program :: "item_tree list \<Rightarrow> parser \<Rightarrow> parser option" where
  "program [] p = Some p"
| "program (i # is) p = do { p \<leftarrow> input_item i p; program is p }"

end
