(* ===== verification/BcFlow.thy ===== *)
theory BcFlow
  imports BcLoad
begin

text \<open>
  Code with labels and jumps: items that are instructions, labels and jumps, a machine on rationals that runs them by index, and
  what must become of a configuration whatever the roundings of the arithmetic are. The loader turns the text of the items
  into bytes and addresses of labels on which \<open>exec_loop\<close> takes the steps of that machine.
\<close>

section \<open>Items and their machine\<close>

datatype item = I instr | Lab nat | Jmp char nat

fun item_code :: "item \<Rightarrow> char list" where
  "item_code (I i) = instr_code i"
| "item_code (Lab n) = []"
| "item_code (Jmp c n) = [c, char_of (n mod 256), char_of (n div 256)]"

fun item_text :: "item \<Rightarrow> string" where
  "item_text (I i) = instr_text i"
| "item_text (Lab n) = CHR ''N'' # long_str (int n) @ '':''"
| "item_text (Jmp c n) = c # long_str (int n) @ '':''"

definition items_code :: "item list \<Rightarrow> char list" where
  "items_code its = concat (map item_code its)"

definition items_text :: "item list \<Rightarrow> string" where
  "items_text its = concat (map item_text its)"

lemma items_code_simps [simp]: "items_code [] = []" "items_code (it # its) = item_code it @ items_code its"
    "items_code (xs @ ys) = items_code xs @ items_code ys"
  by (simp_all add: items_code_def)

lemma items_text_simps [simp]: "items_text [] = []" "items_text (it # its) = item_text it @ items_text its"
    "items_text (xs @ ys) = items_text xs @ items_text ys"
  by (simp_all add: items_text_def)

text \<open>The place of a label.\<close>

fun find_label :: "item list \<Rightarrow> nat \<Rightarrow> nat option" where
  "find_label [] n = None"
| "find_label (it # its) n = (if it = Lab n then Some 0 else map_option Suc (find_label its n))"

definition labels :: "item list \<Rightarrow> nat set" where
  "labels its = {n. Lab n \<in> set its}"

lemma labels_simps [simp]: "labels [] = {}" "labels (I i # its) = labels its" "labels (Jmp c n # its) = labels its"
    "labels (Lab n # its) = insert n (labels its)" "labels (xs @ ys) = labels xs \<union> labels ys"
  by (auto simp: labels_def)

lemma find_label_None: "find_label its n = None \<longleftrightarrow> n \<notin> labels its"
  by (induction its) (auto simp: labels_def)

lemma find_label_append:
  "find_label (xs @ ys) n = (case find_label xs n of Some i \<Rightarrow> Some i | None \<Rightarrow> map_option (\<lambda>i. length xs + i) (find_label ys n))"
proof (induction xs)
  case Nil
  then show ?case by (cases "find_label ys n") simp_all
next
  case (Cons x xs)
  then show ?case by (cases "find_label xs n"; cases "find_label ys n") simp_all
qed

lemma find_label_here: "n \<notin> labels xs \<Longrightarrow> find_label (xs @ Lab n # ys) n = Some (length xs)"
  using find_label_None [of xs n] by (simp add: find_label_append)

lemma find_label_less: "find_label its n = Some i \<Longrightarrow> i < length its"
  by (induction its arbitrary: i) (auto split: if_splits)

type_synonym config = "nat \<times> rat_state"

inductive item_step :: "nat \<Rightarrow> item list \<Rightarrow> config \<Rightarrow> config \<Rightarrow> bool" for k P where
  item_instr: "i < length P \<Longrightarrow> P ! i = I ins \<Longrightarrow> rat_step k ins a b \<Longrightarrow> item_step k P (i, a) (Suc i, b)"
| item_label: "i < length P \<Longrightarrow> P ! i = Lab n \<Longrightarrow> item_step k P (i, a) (Suc i, a)"
| item_jump: "i < length P \<Longrightarrow> P ! i = Jmp (CHR ''J'') n \<Longrightarrow> find_label P n = Some j \<Longrightarrow> item_step k P (i, a) (j, a)"
| item_branch: "i < length P \<Longrightarrow> P ! i = Jmp c n \<Longrightarrow> c = CHR ''B'' \<or> c = CHR ''Z'' \<Longrightarrow> find_label P n = Some j
    \<Longrightarrow> item_step k P (i, x # st, e) (if (c = CHR ''B'') = (x \<noteq> 0) then j else Suc i, st, e)"

inductive_cases item_stepE: "item_step k P (i, a) c"

text \<open>A configuration surely comes to a set of configurations: it gets there whatever the steps are.\<close>

inductive surely :: "nat \<Rightarrow> item list \<Rightarrow> (config \<Rightarrow> bool) \<Rightarrow> config \<Rightarrow> bool" for k P Q where
  sure_here: "Q c \<Longrightarrow> surely k P Q c"
| sure_step: "item_step k P c d \<Longrightarrow> (\<And>c'. item_step k P c c' \<Longrightarrow> surely k P Q c') \<Longrightarrow> surely k P Q c"

text \<open>The rules by which code is run: one for each kind of item.\<close>

lemma sure_instr:
  assumes "P = pre @ I ins # post" and "rat_step k ins a b0"
    and "\<And>b. rat_step k ins a b \<Longrightarrow> surely k P Q (Suc (length pre), b)"
  shows "surely k P Q (length pre, a)"
proof (rule sure_step)
  show "item_step k P (length pre, a) (Suc (length pre), b0)" by (rule item_instr) (use assms in \<open>simp_all add: nth_append\<close>)
  show "surely k P Q c'" if "item_step k P (length pre, a) c'" for c'
    using that by (rule item_stepE) (use assms in \<open>auto simp: nth_append\<close>)
qed

lemma sure_label:
  assumes "P = pre @ Lab n # post" and "surely k P Q (Suc (length pre), a)"
  shows "surely k P Q (length pre, a)"
proof (rule sure_step)
  show "item_step k P (length pre, a) (Suc (length pre), a)" by (rule item_label) (use assms in \<open>simp_all add: nth_append\<close>)
  show "surely k P Q c'" if "item_step k P (length pre, a) c'" for c'
    using that by (rule item_stepE) (use assms in \<open>auto simp: nth_append\<close>)
qed

lemma sure_jump:
  assumes "P = pre @ Jmp (CHR ''J'') n # post" and "find_label P n = Some j" and "surely k P Q (j, a)"
  shows "surely k P Q (length pre, a)"
proof (rule sure_step)
  show "item_step k P (length pre, a) (j, a)" by (rule item_jump) (use assms in \<open>simp_all add: nth_append\<close>)
  show "surely k P Q c'" if "item_step k P (length pre, a) c'" for c'
    using that by (rule item_stepE) (use assms in \<open>auto simp: nth_append\<close>)
qed

lemma sure_branch:
  assumes "P = pre @ Jmp c n # post" and "c = CHR ''B'' \<or> c = CHR ''Z''" and "find_label P n = Some j"
    and "surely k P Q (if (c = CHR ''B'') = (x \<noteq> 0) then j else Suc (length pre), st, e)"
  shows "surely k P Q (length pre, x # st, e)"
proof (rule sure_step)
  show "item_step k P (length pre, x # st, e) (if (c = CHR ''B'') = (x \<noteq> 0) then j else Suc (length pre), st, e)"
    by (rule item_branch) (use assms in \<open>simp_all add: nth_append\<close>)
  show "surely k P Q c'" if "item_step k P (length pre, x # st, e) c'" for c'
    using that by (rule item_stepE) (use assms in \<open>auto simp: nth_append\<close>)
qed

section \<open>The bytes of the items\<close>

definition addr :: "item list \<Rightarrow> nat \<Rightarrow> nat" where
  "addr P i = length (items_code (take i P))"

lemma addr_Suc: "i < length P \<Longrightarrow> addr P (Suc i) = addr P i + length (item_code (P ! i))"
  by (simp add: addr_def take_Suc_conv_app_nth)

lemma addr_append: "i \<le> length xs \<Longrightarrow> addr (xs @ ys) i = addr xs i"
  by (simp add: addr_def)

definition holds_items :: "item list \<Rightarrow> bc_function \<Rightarrow> bool" where
  "holds_items P f \<longleftrightarrow> f_code_size f = length (items_code P) \<and> take (length (items_code P)) (f_body f) = map Some (items_code P)
     \<and> (\<forall>n i. find_label P n = Some i \<longrightarrow> label_adr f n = Some (addr P i))"

fun valid_item :: "nat set \<Rightarrow> item \<Rightarrow> bool" where
  "valid_item V (I i) \<longleftrightarrow> stack_use i \<noteq> None \<and> (\<forall>v. instr_var i = Some v \<longrightarrow> v \<in> V)"
| "valid_item V (Lab n) \<longleftrightarrow> n < 65536"
| "valid_item V (Jmp c n) \<longleftrightarrow> n < 65536 \<and> (c = CHR ''J'' \<or> c = CHR ''B'' \<or> c = CHR ''Z'')"

definition at_config :: "item list \<Rightarrow> nat set \<Rightarrow> bc_state \<Rightarrow> config \<Rightarrow> bc_state \<Rightarrow> bool" where
  "at_config P V s0 c s \<longleftrightarrow> ready V s \<and> same_machine s0 s \<and> rats s = snd c \<and> fst c \<le> length P \<and> pc_addr (pc s) = addr P (fst c)"

lemma items_split: "i < length P \<Longrightarrow> items_code P = items_code (take i P) @ item_code (P ! i) @ items_code (drop (Suc i) P)"
  by (metis id_take_nth_drop items_code_simps(2,3))

lemma code_at_items:
  assumes "holds_items P f" and "bc_functions s (pc_func (pc s)) = Some f" and "i < length P" and "pc_addr (pc s) = addr P i"
  shows "code_at (item_code (P ! i) @ items_code (drop (Suc i) P)) s"
proof -
  let ?a = "items_code (take i P)" and ?b = "item_code (P ! i) @ items_code (drop (Suc i) P)"
  have "take (length (?a @ ?b)) (f_body f) = map Some (?a @ ?b)" using assms(1) items_split [OF assms(3)] by (simp add: holds_items_def)
  then have "drop (length ?a) (take (length ?a + length ?b) (f_body f)) = map Some ?b" by simp
  then have "take (length ?b) (drop (length ?a) (f_body f)) = map Some ?b" by (simp add: drop_take)
  then show ?thesis using assms(2,4) by (simp add: code_at_def addr_def)
qed

lemma rat_step_stack: "rat_step k i (st, e) c \<Longrightarrow> stack_use i = Some (n, l) \<Longrightarrow> n \<le> length st"
  by (cases rule: rat_step.cases) (auto split: if_splits simp: two_ops_def arith_ops_def cmp_ops_def logic_ops_def)

section \<open>The machine runs the items\<close>

lemma at_config_step:
  assumes "at_config P V s0 (i, a) s" and "ready V t" and "same_machine s t" and "j \<le> length P" and "pc_addr (pc t) = addr P j" and "rats t = b"
  shows "at_config P V s0 (j, b) t"
  using assms same_machine_trans by (auto simp: at_config_def)

lemma exec_branch_item:
  assumes st: "c = CHR ''J'' \<and> a = b \<or> (c = CHR ''B'' \<or> c = CHR ''Z'') \<and> (\<exists>x. a = (x # fst b, snd b) \<and> go = ((c = CHR ''B'') = (x \<noteq> 0)))"
    and r: "ready V s" and a: "rats s = a" and n: "n < 65536" and cd: "code_at (item_code (Jmp c n) @ cs) s"
    and f: "bc_functions s (pc_func (pc s)) = Some f" and adr: "label_adr f n = Some adr" and go: "c = CHR ''J'' \<Longrightarrow> go"
  shows "\<exists>t. exec_step s = Some t \<and> ready V t \<and> same_machine s t \<and> rats t = b \<and> pc_addr (pc t) = (if go then adr else pc_addr (pc s) + 3)"
proof -
  let ?s = "skip_code 1 s"
  have cd': "code_at (c # char_of (n mod 256) # char_of (n div 256) # cs) s" using cd by simp
  note b = next_byte_code [OF cd']
  have c: "c = CHR ''J'' \<or> c = CHR ''B'' \<or> c = CHR ''Z''" using st by blast
  have inst: "exec_inst c ?s = exec_branch c ?s" using c by (elim disjE) (simp_all add: exec_inst_def exec_named_def)
  have run: "exec_step s = exec_branch c ?s" using b(1) inst by (simp add: exec_step_def)
  have canon: "\<forall>x \<in> set (ex_stack s). bc_canon x" using r by (simp add: ready_def)
  show ?thesis
  proof (cases "c = CHR ''J''")
    case True
    let ?t = "?s\<lparr>pc := (pc ?s)\<lparr>pc_addr := adr\<rparr>\<rparr>"
    have "exec_step s = Some ?t" using run exec_jump_code [OF b(2) n _ adr, of c] f True by (simp add: exec_branch_def)
    moreover have "ready V ?t" "same_machine s ?t" "rats ?t = rats s"
      using r by (simp_all add: ready_def same_machine_def rats_def skip_code_def const_base_def vars_ok_def var_live_def var_val_def split: if_splits)
    ultimately show ?thesis using True st a go by (intro exI [of _ ?t]) auto
  next
    case False
    then obtain x where x: "a = (x # fst b, snd b)" "go = ((c = CHR ''B'') = (x \<noteq> 0))" "c = CHR ''B'' \<or> c = CHR ''Z''" using st by auto
    then obtain y st where y: "ex_stack s = y # st" "bc_val y = x" "map bc_val st = fst b" using a by (cases "ex_stack s") (auto simp: rats_def)
    have z: "bc_is_zero y = Some (bc_val y = 0)" using bc_is_zero_val bc_canonD(2) canon y(1) by simp
    let ?u = "skip_code 1 (s\<lparr>c_code := bc_val y \<noteq> 0, ex_stack := st\<rparr>)"
    have u: "pop (?s\<lparr>c_code := bc_val y \<noteq> 0\<rparr>) = ?u" using y(1) by (simp add: pop_def skip_code_def)
    have "tos ?s = Some y" using y(1) by (simp add: tos_def)
    then have run': "exec_step s = exec_jump c ?u" using run False z u by (simp add: exec_branch_def)
    have cu: "code_at (char_of (n mod 256) # char_of (n div 256) # cs) ?u" using b(2) by (simp add: code_at_def skip_code_def)
    have fu: "bc_functions ?u (pc_func (pc ?u)) = Some f" using f by simp
    have cc: "c_code ?u = (x \<noteq> 0)" using y(2) by (simp add: skip_code_def)
    have "c = CHR ''J'' \<or> c = CHR ''B'' \<and> c_code ?u \<or> c = CHR ''Z'' \<and> \<not> c_code ?u \<longleftrightarrow> go" using x(2,3) cc False by auto
    then have "exec_step s = Some (if go then ?u\<lparr>pc := (pc ?u)\<lparr>pc_addr := adr\<rparr>\<rparr> else skip_code 2 ?u)"
      using run' exec_jump_code [OF cu n fu adr, of c] by simp
    moreover have "ready V ?u" "same_machine s ?u" "rats ?u = b" using ready_stack [OF r, of st 1] canon y a by (auto simp: rats_def x)
    moreover from this have "ready V (?u\<lparr>pc := (pc ?u)\<lparr>pc_addr := adr'\<rparr>\<rparr>)" "same_machine s (?u\<lparr>pc := (pc ?u)\<lparr>pc_addr := adr'\<rparr>\<rparr>)"
      "rats (?u\<lparr>pc := (pc ?u)\<lparr>pc_addr := adr'\<rparr>\<rparr>) = b" for adr'
      by (simp_all add: ready_def same_machine_def rats_def const_base_def vars_ok_def var_live_def var_val_def split: if_splits)
    moreover have "skip_code 2 ?u = ?u\<lparr>pc := (pc ?u)\<lparr>pc_addr := pc_addr (pc s) + 3\<rparr>\<rparr>" by (simp add: skip_code_def)
    ultimately show ?thesis by auto
  qed
qed

lemma step_config:
  assumes h: "holds_items P f" and v: "\<forall>it \<in> set P. valid_item V it" and f: "bc_functions s0 (pc_func (pc s0)) = Some f"
    and s: "at_config P V s0 c s" and step: "item_step (nat (scale s0)) P c d"
  shows "\<exists>t c'. exec_loop s = exec_loop t \<and> item_step (nat (scale s0)) P c c' \<and> at_config P V s0 c' t"
proof -
  obtain i a where c: "c = (i, a)" by (cases c) auto
  have i: "i < length P" using step by (auto simp: c elim: item_stepE)
  have r: "ready V s" "same_machine s0 s" "rats s = a" "pc_addr (pc s) = addr P i" using s by (simp_all add: c at_config_def)
  have fs: "bc_functions s (pc_func (pc s)) = Some f" and k: "scale s = scale s0" using f r(2) by (simp_all add: same_machine_def)
  have cd: "code_at (item_code (P ! i) @ items_code (drop (Suc i) P)) s" by (rule code_at_items [OF h fs i r(4)])
  have sz: "f_code_size f = addr P (Suc i) + length (items_code (drop (Suc i) P))"
    using h items_split [OF i] addr_Suc [OF i] by (simp add: holds_items_def addr_def)
  have val: "valid_item V (P ! i)" using v i by simp
  have loop: "exec_loop s = exec_loop t" if "exec_step s = Some t" "0 < length (item_code (P ! i))" for t
  proof -
    have "running s = Some True" using running_ready [OF r(1) fs] r(4) sz addr_Suc [OF i] that(2) by simp
    then show ?thesis using exec_loop_step that(1) by blast
  qed
  show ?thesis
  proof (cases "P ! i")
    case (I ins)
    obtain b where b: "rat_step (nat (scale s0)) ins a b" using step by (auto simp: c I elim: item_stepE)
    obtain n l where u: "stack_use ins = Some (n, l)" using val I by auto
    have n: "n \<le> length (ex_stack s)" using rat_step_stack [of "nat (scale s0)" ins "fst a" "snd a" b n l] b u r(3) by (auto simp: rats_def)
    obtain t where t: "exec_step s = Some t" "step_ok V ins (length (ex_stack s) - n + l) s t \<or> step_error ins s t"
      using step_instr [of ins _ s V n l, OF _ r(1) _ u n] cd val by (auto simp: I)
    have ok: "step_ok V ins (length (ex_stack s) - n + l) s t" using t(2) b r(3) k unfolding step_error_def by metis
    have "at_config P V s0 (Suc i, rats t) t"
      by (rule at_config_step [OF s [unfolded c]]) (use ok i r(4) addr_Suc [OF i] in \<open>simp_all add: step_ok_def I\<close>)
    moreover have "item_step (nat (scale s0)) P (i, a) (Suc i, rats t)" using item_instr [OF i I] ok r(3) k by (simp add: step_ok_def)
    moreover have "exec_loop s = exec_loop t" by (rule loop [OF t(1)]) (use instr_code_pos [of ins] in \<open>simp add: I\<close>)
    ultimately show ?thesis unfolding c by blast
  next
    case (Lab n)
    have "at_config P V s0 (Suc i, a) s" using s i addr_Suc [OF i] by (simp add: at_config_def c Lab)
    moreover have "item_step (nat (scale s0)) P (i, a) (Suc i, a)" by (rule item_label [OF i Lab])
    ultimately show ?thesis unfolding c by blast
  next
    case (Jmp b n)
    have n: "n < 65536" and bb: "b = CHR ''J'' \<or> b = CHR ''B'' \<or> b = CHR ''Z''" using val by (simp_all add: Jmp)
    obtain j where j: "find_label P n = Some j" using step by (auto simp: c Jmp elim: item_stepE)
    have adr: "label_adr f n = Some (addr P j)" "j \<le> length P" using h j find_label_less [OF j] by (simp_all add: holds_items_def)
    obtain e where e: "b = CHR ''J'' \<and> a = snd e \<and> fst e \<or> (b = CHR ''B'' \<or> b = CHR ''Z'') \<and> (\<exists>x. a = (x # fst (snd e), snd (snd e)) \<and> fst e = ((b = CHR ''B'') = (x \<noteq> 0)))"
    proof (cases "b = CHR ''J''")
      case True
      then show ?thesis using that [of "(True, a)"] by simp
    next
      case False
      then obtain x st ev where "a = (x # st, ev)" using step bb by (auto simp: c Jmp elim: item_stepE)
      then show ?thesis using that [of "((b = CHR ''B'') = (x \<noteq> 0), st, ev)"] False bb by auto
    qed
    obtain t where t: "exec_step s = Some t" "ready V t" "same_machine s t" "rats t = snd e" "pc_addr (pc t) = (if fst e then addr P j else pc_addr (pc s) + 3)"
      using exec_branch_item [of b a "snd e" "fst e", OF _ r(1,3) n _ fs adr(1)] cd e by (auto simp: Jmp)
    let ?j = "if fst e then j else Suc i"
    have "at_config P V s0 (?j, snd e) t"
      by (rule at_config_step [OF s [unfolded c] t(2,3)]) (use t(4,5) i adr(2) r(4) addr_Suc [OF i] in \<open>simp_all add: Jmp\<close>)
    moreover have "item_step (nat (scale s0)) P (i, a) (?j, snd e)"
    proof (cases "b = CHR ''J''")
      case True
      then show ?thesis using item_jump [OF i _ j, of "nat (scale s0)" a] e Jmp by auto
    next
      case False
      then obtain x where x: "a = (x # fst (snd e), snd (snd e))" "fst e = ((b = CHR ''B'') = (x \<noteq> 0))" using e by auto
      show ?thesis using item_branch [OF i Jmp _ j, of "nat (scale s0)" x "fst (snd e)" "snd (snd e)"] False bb x by auto
    qed
    moreover have "exec_loop s = exec_loop t" by (rule loop [OF t(1)]) (simp add: Jmp)
    ultimately show ?thesis unfolding c by blast
  qed
qed

lemma surely_run:
  assumes "surely (nat (scale s0)) P Q c" and h: "holds_items P f" "\<forall>it \<in> set P. valid_item V it" "bc_functions s0 (pc_func (pc s0)) = Some f"
    and "at_config P V s0 c s"
  shows "\<exists>t c'. exec_loop s = exec_loop t \<and> Q c' \<and> at_config P V s0 c' t"
  using assms(1,5)
proof (induction arbitrary: s)
  case (sure_step c d)
  obtain t c' where t: "exec_loop s = exec_loop t" "item_step (nat (scale s0)) P c c'" "at_config P V s0 c' t"
    using step_config [OF h sure_step.prems sure_step.hyps(1)] by blast
  then show ?case using sure_step.IH [OF t(2,3)] by auto
qed blast

section \<open>The loader makes the bytes\<close>

text \<open>What loading code of the main program leaves alone.\<close>

definition same_loader :: "loader \<Rightarrow> loader \<Rightarrow> bool" where
  "same_loader l l' \<longleftrightarrow> (\<exists>g adr. l' = l\<lparr>machine := (machine l)\<lparr>bc_functions := (bc_functions (machine l))(0 \<mapsto> g)\<rparr>, load_adr := adr\<rparr>)"

lemma same_loader_trans: "same_loader l l1 \<Longrightarrow> same_loader l1 l2 \<Longrightarrow> same_loader l l2"
  unfolding same_loader_def by (elim exE, hypsubst) (auto simp: fun_upd_def cong: if_cong)

text \<open>The main program consists of the items so far, and the loader is behind them.\<close>

definition holds_code :: "item list \<Rightarrow> loader \<Rightarrow> bool" where
  "holds_code P l \<longleftrightarrow> plain l \<and> \<not> had_error l \<and> load_adr l = \<lparr>pc_func = 0, pc_addr = length (items_code P)\<rparr>
     \<and> (\<exists>f. bc_functions (machine l) 0 = Some f \<and> holds_items P f \<and> 0 < length (f_body f) \<and> length (items_code P) \<le> length (f_body f)
          \<and> labels_ok (f_label f))"

lemma holds_code_loading:
  assumes "holds_code P l"
  obtains f where "loading l 0 f (items_code P) l" "bc_functions (machine l) 0 = Some f" "holds_items P f" "labels_ok (f_label f)"
proof -
  obtain f where f: "bc_functions (machine l) 0 = Some f" "holds_items P f" "0 < length (f_body f)" "length (items_code P) \<le> length (f_body f)"
      "labels_ok (f_label f)" using assms by (auto simp: holds_code_def)
  have "f\<lparr>f_body := f_body f, f_code_size := length (items_code P)\<rparr> = f" using f(2) by (cases f) (simp add: holds_items_def)
  then have "loading l 0 f (items_code P) l"
    using assms f unfolding loading_def holds_code_def holds_items_def
    by (intro conjI exI [of _ "f_body f"]) (auto simp: map_upd_triv cong: if_cong)
  then show ?thesis using that f by blast
qed

text \<open>Bytes that are added without a label.\<close>

lemma loading_holds_code:
  assumes l: "loading l 0 f (items_code P @ item_code it) l'" and h: "holds_code P l" and p: "plain l'"
    and f: "bc_functions (machine l) 0 = Some f" "holds_items P f" "labels_ok (f_label f)" and it: "\<And>n. it \<noteq> Lab n"
  shows "holds_code (P @ [it]) l'" "same_loader l l'"
proof -
  obtain body where l': "l' = l\<lparr>machine := (machine l)\<lparr>bc_functions := (bc_functions (machine l))(0 \<mapsto> f\<lparr>f_body := body, f_code_size := length (items_code P @ item_code it)\<rparr>)\<rparr>,
          load_adr := \<lparr>pc_func = 0, pc_addr = length (items_code P @ item_code it)\<rparr>, load_str := load_str l', load_const := load_const l'\<rparr>"
    and body: "0 < length body" "length (items_code P @ item_code it) \<le> length body"
      "take (length (items_code P @ item_code it)) body = map Some (items_code P @ item_code it)" and ne: "\<not> had_error l"
    using l unfolding loading_def by blast
  let ?f = "f\<lparr>f_body := body, f_code_size := length (items_code P @ item_code it)\<rparr>"
  have flags: "load_str l' = load_str l" "load_const l' = load_const l" using p h by (simp_all add: holds_code_def plain_def)
  have l'': "l' = l\<lparr>machine := (machine l)\<lparr>bc_functions := (bc_functions (machine l))(0 \<mapsto> ?f)\<rparr>,
          load_adr := \<lparr>pc_func = 0, pc_addr = length (items_code P @ item_code it)\<rparr>\<rparr>"
    by (subst l') (simp add: flags)
  have "find_label (P @ [it]) n = find_label P n" for n using it by (auto simp: find_label_append split: option.splits)
  moreover have "label_adr ?f n = label_adr f n" for n by (simp add: label_adr_def)
  moreover have "addr (P @ [it]) i = addr P i" if "find_label P n = Some i" for n i
    using find_label_less [OF that] by (simp add: addr_append)
  ultimately have "holds_items (P @ [it]) ?f" using f(2) body by (simp add: holds_items_def)
  then show "holds_code (P @ [it]) l'" using p ne body f(3) unfolding holds_code_def by (subst (2 3 4) l'') simp
  show "same_loader l l'" unfolding same_loader_def using l'' by blast
qed

lemma load_jmp_text:
  assumes "loading l0 func f0 bytes l" and "plain l" and "c = CHR ''J'' \<or> c = CHR ''B'' \<or> c = CHR ''Z''" and "n < 65536"
  shows "\<exists>l'. load_code (item_text (Jmp c n) @ cs) l = load_code cs l' \<and> loading l0 func f0 (bytes @ item_code (Jmp c n)) l' \<and> plain l'"
proof -
  obtain l1 where l1: "addbyte c l = Some l1" "loading l0 func f0 (bytes @ [c]) l1" "load_str l1 = load_str l" "load_const l1 = load_const l"
    using addbyte_loading [OF assms(1)] by blast
  obtain l2 where l2: "addbyte (char_of (n mod 256)) l1 = Some l2" "loading l0 func f0 ((bytes @ [c]) @ [char_of (n mod 256)]) l2"
    "load_str l2 = load_str l1" "load_const l2 = load_const l1" using addbyte_loading [OF l1(2)] by blast
  obtain l3 where l3: "addbyte (char_of (n div 256)) l2 = Some l3" "loading l0 func f0 (((bytes @ [c]) @ [char_of (n mod 256)]) @ [char_of (n div 256)]) l3"
    "load_str l3 = load_str l2" "load_const l3 = load_const l2" using addbyte_loading [OF l2(2)] by blast
  have lv: "long_val (long_str (int n) @ CHR '':'' # cs) = Some (int n, CHR '':'' # cs)"
    by (rule long_val_str) (use assms(4) in \<open>simp_all add: isdigit_def\<close>)
  have u: "unsigned_long (int n) = n" using assms(4) by (simp add: unsigned_long_def)
  have "load_jump c (long_str (int n) @ CHR '':'' # cs) l = Some (CHR '':'' # cs, l3)"
    using l1(1) lv l2(1) l3(1) assms(4) by (simp add: load_jump_def u Let_def)
  then have i: "load_inst c (long_str (int n) @ CHR '':'' # cs) l = Some (CHR '':'' # cs, l3)"
    using assms(3) by (elim disjE) (simp_all add: load_inst_def)
  have p: "plain l3" using assms(2) l1 l2 l3 loading_sel(3) [OF assms(1)] loading_sel(3) [OF l3(2)] by (simp add: plain_def)
  then have "load_step (c # long_str (int n) @ CHR '':'' # cs) l = Some (cs, l3)"
    by (intro load_step_plain [OF assms(2) i]) (simp add: plain_def)
  then show ?thesis using load_code_step loading_sel(1) [OF assms(1)] l3(2) p by fastforce
qed

text \<open>One item, and any number of them.\<close>

lemma load_item:
  assumes h: "holds_code P l" and v: "valid_item {v. v < 32768} it" and new: "\<And>n. it = Lab n \<Longrightarrow> n \<notin> labels P"
  shows "\<exists>l'. load_code (item_text it @ cs) l = load_code cs l' \<and> holds_code (P @ [it]) l' \<and> same_loader l l'"
proof -
  obtain f where f: "loading l 0 f (items_code P) l" "bc_functions (machine l) 0 = Some f" "holds_items P f" "labels_ok (f_label f)"
    by (rule holds_code_loading [OF h])
  have p: "plain l" using h by (simp add: holds_code_def)
  show ?thesis
  proof (cases it)
    case (I i)
    then show ?thesis using load_instr [OF f(1) p, of i cs] v loading_holds_code [OF _ h _ f(2-4), of it] by auto
  next
    case (Jmp c n)
    then show ?thesis using load_jmp_text [OF f(1) p, of c n cs] v loading_holds_code [OF _ h _ f(2-4), of it] by auto
  next
    case (Lab n)
    have n: "n < 65536" "n \<notin> labels P" using v new Lab by simp_all
    have adr: "load_adr l = \<lparr>pc_func = 0, pc_addr = length (items_code P)\<rparr>" using h by (simp add: holds_code_def)
    obtain gs where gs: "def_label n l = Some (l\<lparr>machine := (machine l)\<lparr>bc_functions := (bc_functions (machine l))(0 \<mapsto> f\<lparr>f_label := gs\<rparr>)\<rparr>\<rparr>)"
      "labels_ok gs" "label_adr (f\<lparr>f_label := gs\<rparr>) n = Some (length (items_code P))" "\<forall>m. m \<noteq> n \<longrightarrow> label_adr (f\<lparr>f_label := gs\<rparr>) m = label_adr f m"
      using def_label_spec [of l f n] f(2,4) adr by auto
    let ?l = "l\<lparr>machine := (machine l)\<lparr>bc_functions := (bc_functions (machine l))(0 \<mapsto> f\<lparr>f_label := gs\<rparr>)\<rparr>\<rparr>"
    have lv: "long_val (long_str (int n) @ CHR '':'' # cs) = Some (int n, CHR '':'' # cs)"
      by (rule long_val_str) (use n in \<open>simp_all add: isdigit_def\<close>)
    have "unsigned_long (int n) = n" using n by (simp add: unsigned_long_def)
    then have i: "load_inst (CHR ''N'') (long_str (int n) @ CHR '':'' # cs) l = Some (CHR '':'' # cs, ?l)"
      using lv gs(1) by (simp add: load_inst_def)
    have pl: "plain ?l" using p by (simp add: plain_def)
    have "load_step (CHR ''N'' # long_str (int n) @ CHR '':'' # cs) l = Some (cs, ?l)"
      by (intro load_step_plain [OF p i]) (use pl in \<open>simp add: plain_def\<close>)
    then have "load_code (item_text it @ cs) l = load_code cs ?l" using load_code_step loading_sel(1) [OF f(1)] by (simp add: Lab)
    moreover have "find_label (P @ [Lab n]) m = Some i \<Longrightarrow> label_adr (f\<lparr>f_label := gs\<rparr>) m = Some (addr (P @ [Lab n]) i)" for m i
      using f(3) gs(3,4) n(2) find_label_None [of P m] find_label_less [of P m]
      by (auto simp: find_label_append holds_items_def addr_append addr_def split: option.splits if_splits)
    then have "holds_items (P @ [Lab n]) (f\<lparr>f_label := gs\<rparr>)" using f(3) by (simp add: holds_items_def)
    then have "holds_code (P @ [it]) ?l" using h pl gs(2) f(2) by (simp add: holds_code_def Lab)
    moreover have "same_loader l ?l" unfolding same_loader_def by (intro exI [of _ "f\<lparr>f_label := gs\<rparr>"] exI [of _ "load_adr l"]) simp
    ultimately show ?thesis by blast
  qed
qed

lemma load_items:
  assumes "holds_code P l" and "\<forall>it \<in> set its. valid_item {v. v < 32768} it" and "labels P \<inter> labels its = {}" and "distinct (filter (\<lambda>it. \<exists>n. it = Lab n) its)"
  shows "\<exists>l'. load_code (items_text its @ cs) l = load_code cs l' \<and> holds_code (P @ its) l' \<and> same_loader l l'"
  using assms
proof (induction its arbitrary: P l)
  case Nil
  obtain f where "bc_functions (machine l) 0 = Some f" using Nil by (auto simp: holds_code_def)
  then have "same_loader l l" unfolding same_loader_def by (intro exI [of _ f] exI [of _ "load_adr l"]) (simp add: map_upd_triv)
  then show ?case using Nil by auto
next
  case (Cons it its)
  have new: "it = Lab n \<Longrightarrow> n \<notin> labels P" for n using Cons.prems(3) by (auto simp: labels_def)
  have it: "valid_item {v. v < 32768} it" using Cons.prems(2) by simp
  obtain l1 where l1: "load_code (item_text it @ items_text its @ cs) l = load_code (items_text its @ cs) l1" "holds_code (P @ [it]) l1" "same_loader l l1"
    using load_item [OF Cons.prems(1) it new, of "items_text its @ cs"] by blast
  have fresh: "labels (P @ [it]) \<inter> labels its = {}" using Cons.prems(3,4) by (cases it) (auto simp: labels_def)
  have v: "\<forall>it \<in> set its. valid_item {v. v < 32768} it" and d: "distinct (filter (\<lambda>it. \<exists>n. it = Lab n) its)"
    using Cons.prems(2,4) by (simp_all split: if_splits)
  obtain l' where "load_code (items_text its @ cs) l1 = load_code cs l'" "holds_code ((P @ [it]) @ its) l'" "same_loader l1 l'"
    using Cons.IH [OF l1(2) v fresh d] by blast
  then show ?case using l1(1) same_loader_trans [OF l1(3)] by (intro exI [of _ l']) simp
qed

end
