(* ===== verification/BcSem.thy ===== *)
theory BcSem
  imports BcParse BcFlow
begin

text \<open>
  The compiler is correct: for the part of the language with simple variables, constants, arithmetic, comparisons,
  \<open>&&\<close>, \<open>||\<close>, \<open>!\<close>, assignments, increments, \<open>if\<close>, \<open>while\<close>, \<open>for\<close> and blocks, the actions of the grammar generate code
  whose execution has the effect that a semantics on rational numbers gives to the syntax tree.
\<close>

section \<open>The meaning of expressions\<close>

text \<open>The digits of a constant before and after the point, and its value.\<close>

definition number_digits :: "string \<Rightarrow> int list \<times> int list" where
  "number_digits s = (map (\<lambda>c. char_val c - 48) (takeWhile isdigit s), map (\<lambda>c. char_val c - 48) (tl (dropWhile isdigit s)))"

definition number_value :: "string \<Rightarrow> rat" where
  "number_value s = (let (ds, fs) = number_digits s in of_int (dval (ds @ fs)) / 10 ^ length fs)"

definition core_number :: "string \<Rightarrow> bool" where
  "core_number s \<longleftrightarrow> (let (ds, fs) = number_digits s
     in instr_text (Num ds fs) = CHR ''K'' # s @ '':'' \<and> stack_use (Num ds fs) \<noteq> None)"

text \<open>\<open>\<nu>\<close> gives the numbers of the variables, \<open>k\<close> is the scale; a memory gives the values of the variables.\<close>

type_synonym memory = "nat \<Rightarrow> rat"

definition delta :: "char \<Rightarrow> rat" where
  "delta c = (if c = CHR ''+'' then 1 else -1)"

fun rel_holds :: "string \<Rightarrow> rat \<Rightarrow> rat \<Rightarrow> bool" where
  "rel_holds r v w \<longleftrightarrow> (if r = ''=='' then v = w else if r = ''!='' then v \<noteq> w else if r = ''<'' then v < w else if r = ''<='' then v \<le> w
     else if r = ''>'' then v > w else if r = ''>='' then v \<ge> w else False)"

declare rel_holds.simps [simp del]

inductive eval :: "(string \<Rightarrow> nat) \<Rightarrow> nat \<Rightarrow> expr \<Rightarrow> memory \<Rightarrow> rat \<Rightarrow> memory \<Rightarrow> bool" for \<nu> k where
  eval_number: "eval \<nu> k (Number s) m (number_value s) m"
| eval_value: "eval \<nu> k (Value (Simple x)) m (m (\<nu> x)) m"
| eval_assign: "eval \<nu> k e m v m1 \<Longrightarrow> eval \<nu> k (Assign (Simple x) (CHR ''='') e) m v (m1(\<nu> x := v))"
| eval_assign_op: "c \<noteq> CHR ''='' \<Longrightarrow> eval \<nu> k e m v m1 \<Longrightarrow> arith_val k c (m (\<nu> x)) v r \<Longrightarrow> eval \<nu> k (Assign (Simple x) c e) m r (m1(\<nu> x := r))"
| eval_and_false: "eval \<nu> k a m 0 m1 \<Longrightarrow> eval \<nu> k (And a b) m 0 m1"
| eval_and: "eval \<nu> k a m v m1 \<Longrightarrow> v \<noteq> 0 \<Longrightarrow> eval \<nu> k b m1 w m2 \<Longrightarrow> eval \<nu> k (And a b) m (of_bool (w \<noteq> 0)) m2"
| eval_or_true: "eval \<nu> k a m v m1 \<Longrightarrow> v \<noteq> 0 \<Longrightarrow> eval \<nu> k (Or a b) m 1 m1"
| eval_or: "eval \<nu> k a m 0 m1 \<Longrightarrow> eval \<nu> k b m1 w m2 \<Longrightarrow> eval \<nu> k (Or a b) m (of_bool (w \<noteq> 0)) m2"
| eval_not: "eval \<nu> k a m v m1 \<Longrightarrow> eval \<nu> k (Not a) m (of_bool (v = 0)) m1"
| eval_rel: "eval \<nu> k a m v m1 \<Longrightarrow> eval \<nu> k b m1 w m2 \<Longrightarrow> eval \<nu> k (Rel a r b) m (of_bool (rel_holds r v w)) m2"
| eval_binary: "eval \<nu> k a m v m1 \<Longrightarrow> eval \<nu> k b m1 w m2 \<Longrightarrow> arith_val k c v w r \<Longrightarrow> eval \<nu> k (Binary a c b) m r m2"
| eval_negate: "eval \<nu> k a m v m1 \<Longrightarrow> eval \<nu> k (Negate a) m (- v) m1"
| eval_paren: "eval \<nu> k a m v m1 \<Longrightarrow> eval \<nu> k (Paren a) m v m1"
| eval_pre: "eval \<nu> k (Pre c (Simple x)) m (m (\<nu> x) + delta c) (m(\<nu> x := m (\<nu> x) + delta c))"
| eval_post: "eval \<nu> k (Post (Simple x) c) m (m (\<nu> x)) (m(\<nu> x := m (\<nu> x) + delta c))"

text \<open>The expressions that are covered, and those among them that never divide by zero.\<close>

definition divides :: "char \<Rightarrow> bool" where
  "divides c \<longleftrightarrow> c = CHR ''/'' \<or> c = CHR ''%''"

fun core_expr :: "expr \<Rightarrow> bool" where
  "core_expr (Number s) = core_number s"
| "core_expr (Value (Simple x)) = True"
| "core_expr (Assign (Simple x) c e) \<longleftrightarrow> (c = CHR ''='' \<or> c \<in> set arith_ops) \<and> core_expr e"
| "core_expr (And a b) \<longleftrightarrow> core_expr a \<and> core_expr b"
| "core_expr (Or a b) \<longleftrightarrow> core_expr a \<and> core_expr b"
| "core_expr (Not a) = core_expr a"
| "core_expr (Rel a r b) \<longleftrightarrow> r \<in> {''=='', ''!='', ''<'', ''<='', ''>'', ''>=''} \<and> core_expr a \<and> core_expr b"
| "core_expr (Binary a c b) \<longleftrightarrow> c \<in> set arith_ops \<and> core_expr a \<and> core_expr b"
| "core_expr (Negate a) = core_expr a"
| "core_expr (Paren a) = core_expr a"
| "core_expr (Pre c (Simple x)) = True"
| "core_expr (Post (Simple x) c) = True"
| "core_expr _ = False"

fun safe :: "(string \<Rightarrow> nat) \<Rightarrow> nat \<Rightarrow> expr \<Rightarrow> memory \<Rightarrow> bool" where
  "safe \<nu> k (Assign (Simple x) c e) m \<longleftrightarrow> safe \<nu> k e m \<and> (divides c \<longrightarrow> (\<forall>v m1. eval \<nu> k e m v m1 \<longrightarrow> v \<noteq> 0))"
| "safe \<nu> k (And a b) m \<longleftrightarrow> safe \<nu> k a m \<and> (\<forall>v m1. eval \<nu> k a m v m1 \<longrightarrow> v \<noteq> 0 \<longrightarrow> safe \<nu> k b m1)"
| "safe \<nu> k (Or a b) m \<longleftrightarrow> safe \<nu> k a m \<and> (\<forall>m1. eval \<nu> k a m 0 m1 \<longrightarrow> safe \<nu> k b m1)"
| "safe \<nu> k (Not a) m = safe \<nu> k a m"
| "safe \<nu> k (Rel a r b) m \<longleftrightarrow> safe \<nu> k a m \<and> (\<forall>v m1. eval \<nu> k a m v m1 \<longrightarrow> safe \<nu> k b m1)"
| "safe \<nu> k (Binary a c b) m \<longleftrightarrow> safe \<nu> k a m \<and> (\<forall>v m1. eval \<nu> k a m v m1 \<longrightarrow> safe \<nu> k b m1
     \<and> (divides c \<longrightarrow> (\<forall>w m2. eval \<nu> k b m1 w m2 \<longrightarrow> w \<noteq> 0)))"
| "safe \<nu> k (Negate a) m = safe \<nu> k a m"
| "safe \<nu> k (Paren a) m = safe \<nu> k a m"
| "safe \<nu> k _ m = True"

section \<open>The items of an expression\<close>

text \<open>The items and the next label.\<close>

definition number_item :: "string \<Rightarrow> item" where
  "number_item s = I (if s = ''0'' then Op (CHR ''0'') else if s = ''1'' then Op (CHR ''1'')
     else Num (fst (number_digits s)) (snd (number_digits s)))"

definition step_item :: "char \<Rightarrow> nat \<Rightarrow> item" where
  "step_item c v = I (if c = CHR ''+'' then Incr v else Decr v)"

definition and_tail :: "nat \<Rightarrow> item list" where
  "and_tail l = [I (Op (CHR ''D'')), Jmp (CHR ''Z'') l, I (Op (CHR ''p'')), I (Op (CHR ''1'')), Lab l]"

definition or_tail :: "nat \<Rightarrow> nat \<Rightarrow> item list" where
  "or_tail l t = [Jmp (CHR ''B'') l, I (Op (CHR ''0'')), Jmp (CHR ''J'') t, Lab l, I (Op (CHR ''1'')), Lab t]"

fun label_count :: "expr \<Rightarrow> nat" where
  "label_count (Assign (Simple x) c e) = label_count e"
| "label_count (And a b) = label_count a + 1 + label_count b"
| "label_count (Or a b) = label_count a + 1 + label_count b + 1"
| "label_count (Not a) = label_count a"
| "label_count (Rel a r b) = label_count a + label_count b"
| "label_count (Binary a c b) = label_count a + label_count b"
| "label_count (Negate a) = label_count a"
| "label_count (Paren a) = label_count a"
| "label_count _ = 0"

fun ecode :: "(string \<Rightarrow> nat) \<Rightarrow> expr \<Rightarrow> nat \<Rightarrow> item list" where
  "ecode \<nu> (Number s) l = [number_item s]"
| "ecode \<nu> (Value (Simple x)) l = [I (Load (\<nu> x))]"
| "ecode \<nu> (Assign (Simple x) c e) l = (if c = CHR ''='' then ecode \<nu> e l @ [I (Store (\<nu> x))]
     else I (Load (\<nu> x)) # ecode \<nu> e l @ [I (Op c), I (Store (\<nu> x))])"
| "ecode \<nu> (And a b) l = (let l1 = l + label_count a
     in ecode \<nu> a l @ [I (Op (CHR ''D'')), Jmp (CHR ''Z'') l1, I (Op (CHR ''p''))] @ ecode \<nu> b (Suc l1) @ and_tail l1)"
| "ecode \<nu> (Or a b) l = (let l1 = l + label_count a
     in ecode \<nu> a l @ [Jmp (CHR ''B'') l1] @ ecode \<nu> b (Suc l1) @ or_tail l1 (Suc l1 + label_count b))"
| "ecode \<nu> (Not a) l = ecode \<nu> a l @ [I (Op (CHR ''!''))]"
| "ecode \<nu> (Rel a r b) l = ecode \<nu> a l @ ecode \<nu> b (l + label_count a) @ [I (Op (hd (rel_code r)))]"
| "ecode \<nu> (Binary a c b) l = ecode \<nu> a l @ ecode \<nu> b (l + label_count a) @ [I (Op c)]"
| "ecode \<nu> (Negate a) l = ecode \<nu> a l @ [I (Op (CHR ''n''))]"
| "ecode \<nu> (Paren a) l = ecode \<nu> a l"
| "ecode \<nu> (Pre c (Simple x)) l = [step_item c (\<nu> x), I (Load (\<nu> x))]"
| "ecode \<nu> (Post (Simple x) c) l = [I (Load (\<nu> x)), step_item c (\<nu> x)]"
| "ecode \<nu> _ l = []"

lemma ecode_labels: "n \<in> labels (ecode \<nu> e l) \<Longrightarrow> l \<le> n \<and> n < l + label_count e"
  by (induction e arbitrary: l rule: core_expr.induct)
    (fastforce simp: number_item_def step_item_def and_tail_def or_tail_def Let_def split: if_splits)+

section \<open>The items of an expression compute its value\<close>

lemma trunc_exists: "\<exists>q :: int. \<bar>x - of_int q\<bar> < 1 \<and> 0 \<le> x * (x - of_int q)" for x :: rat
proof (cases "0 \<le> x")
  case True
  have "\<bar>x - of_int \<lfloor>x\<rfloor>\<bar> < 1" "0 \<le> x - of_int \<lfloor>x\<rfloor>" using floor_correct [of x] by linarith+
  then show ?thesis using True mult_nonneg_nonneg by blast
next
  case False
  have "\<bar>x - of_int \<lceil>x\<rceil>\<bar> < 1" "x - of_int \<lceil>x\<rceil> \<le> 0" using ceiling_correct [of x] by linarith+
  then show ?thesis using False mult_nonpos_nonpos [of x] by (meson linear)
qed

lemma arith_exists:
  assumes "c \<in> set arith_ops" and "divides c \<Longrightarrow> b \<noteq> 0"
  shows "\<exists>r. arith_val k c a b r"
proof -
  consider "c = CHR ''+''" | "c = CHR ''-''" | "c = CHR ''*''" | "c = CHR ''/''" | "c = CHR ''%''" using assms(1) by (auto simp: arith_ops_def)
  then show ?thesis
  proof cases
    case 3
    have "near k (a * b) (a * b)" by (simp add: near_def)
    then show ?thesis using 3 arith_mul by blast
  next
    case 4
    then have "b \<noteq> 0" using assms(2) by (simp add: divides_def)
    then show ?thesis using 4 arith_div [of b "a / b" a k] by auto
  next
    case 5
    then have b: "b \<noteq> 0" using assms(2) by (simp add: divides_def)
    obtain x d where x: "x = a / b * 10 ^ k" and d: "d = b / 10 ^ k" by blast
    have a: "a = x * d" "d \<noteq> 0" "\<bar>d\<bar> = \<bar>b\<bar> / 10 ^ k" using b by (simp_all add: x d)
    obtain q :: int where q: "\<bar>x - of_int q\<bar> < 1" "0 \<le> x * (x - of_int q)" using trunc_exists by blast
    have r: "a - of_int q / 10 ^ k * b = (x - of_int q) * d" by (simp add: a(1) d left_diff_distrib diff_divide_distrib)
    have "\<bar>(x - of_int q) * d\<bar> < \<bar>b\<bar> / 10 ^ k" using mult_strict_right_mono [OF q(1), of "\<bar>d\<bar>"] a(2,3) by (simp add: abs_mult)
    moreover have "a * ((x - of_int q) * d) = (x * (x - of_int q)) * (d * d)" by (simp only: a(1) mult_ac)
    then have "0 \<le> a * ((x - of_int q) * d)" using q(2) by (metis mult_nonneg_nonneg zero_le_square)
    ultimately have "arith_val k (CHR ''%'') a b (a - of_int q / 10 ^ k * b)" by (intro arith_mod [OF b, of a q k]) (simp_all only: r, simp flip: r)
    then show ?thesis using 5 by blast
  qed (use arith_add arith_sub in blast)+
qed

lemma arith_op_step:
  assumes "c \<in> set arith_ops" and "divides c \<Longrightarrow> w \<noteq> 0"
  shows "\<exists>b. rat_step k (Op c) (w # v # st, m) b"
    "rat_step k (Op c) (w # v # st, m) b \<Longrightarrow> \<exists>r. arith_val k c v w r \<and> b = (r # st, m)"
proof -
  show "\<exists>b. rat_step k (Op c) (w # v # st, m) b" using arith_exists [OF assms, of k v] step_arith by blast
  show "\<exists>r. arith_val k c v w r \<and> b = (r # st, m)" if "rat_step k (Op c) (w # v # st, m) b"
    using that assms(1) by (cases rule: rat_step.cases) (auto simp: arith_ops_def cmp_ops_def)
qed

lemma plain_steps:
  "rat_step k (Op (CHR ''D'')) (a # st, m) b \<longleftrightarrow> b = (a # a # st, m)"
  "rat_step k (Op (CHR ''p'')) (a # st, m) b \<longleftrightarrow> b = (st, m)"
  "rat_step k (Op (CHR ''!'')) (a # st, m) b \<longleftrightarrow> b = (of_bool (a = 0) # st, m)"
  "rat_step k (Op (CHR ''n'')) (a # st, m) b \<longleftrightarrow> b = (- a # st, m)"
  "rat_step k (Op (CHR ''0'')) (st, m) b \<longleftrightarrow> b = (0 # st, m)"
  "rat_step k (Op (CHR ''1'')) (st, m) b \<longleftrightarrow> b = (1 # st, m)"
  "rat_step k (Num ds fs) (st, m) b \<longleftrightarrow> b = (of_int (dval (ds @ fs)) / 10 ^ length fs # st, m)"
  "rat_step k (Load v) (st, m) b \<longleftrightarrow> b = (m v # st, m)"
  "rat_step k (Store v) (a # st, m) b \<longleftrightarrow> b = (a # st, m(v := a))"
  "rat_step k (Incr v) (st, m) b \<longleftrightarrow> b = (st, m(v := m v + 1))"
  "rat_step k (Decr v) (st, m) b \<longleftrightarrow> b = (st, m(v := m v - 1))"
  "c \<in> set cmp_ops \<Longrightarrow> rat_step k (Op c) (y # x # st, m) b \<longleftrightarrow> b = (of_bool (cmp_test c x y) # st, m)"
  by (auto simp: rat_step.simps [of k] arith_val.simps cmp_ops_def simp del: cmp_test.simps)

text \<open>An instruction with one result, a label, and a branch, at a place given by what is in front of it.\<close>

lemma sure_one:
  assumes "P = xs @ I ins # ys" and "\<And>b. rat_step k ins a b \<longleftrightarrow> b = c" and "surely k P Q (length (xs @ [I ins]), c)"
  shows "surely k P Q (length xs, a)"
  using sure_instr [OF assms(1), of k a c Q] assms(2,3) by simp

lemma sure_Z:
  assumes "P = xs @ Jmp (CHR ''Z'') n # ys" and "find_label P n = Some j"
    and "x = 0 \<Longrightarrow> surely k P Q (j, st, m)" and "x \<noteq> 0 \<Longrightarrow> surely k P Q (length (xs @ [Jmp (CHR ''Z'') n]), st, m)"
  shows "surely k P Q (length xs, x # st, m)"
  by (rule sure_branch [OF assms(1) _ assms(2)]) (use assms(3,4) in auto)

lemma sure_B:
  assumes "P = xs @ Jmp (CHR ''B'') n # ys" and "find_label P n = Some j"
    and "x \<noteq> 0 \<Longrightarrow> surely k P Q (j, st, m)" and "x = 0 \<Longrightarrow> surely k P Q (length (xs @ [Jmp (CHR ''B'') n]), st, m)"
  shows "surely k P Q (length xs, x # st, m)"
  by (rule sure_branch [OF assms(1) _ assms(2)]) (use assms(3,4) in auto)

lemma sure_Lab:
  assumes "P = xs @ Lab n # ys" and "surely k P Q (length (xs @ [Lab n]), a)"
  shows "surely k P Q (length xs, a)"
  using sure_label [OF assms(1)] assms(2) by simp

lemma find_label_at: "P = xs @ Lab n # ys \<Longrightarrow> n \<notin> labels xs \<Longrightarrow> find_label P n = Some (length xs)"
  using find_label_here by simp

text \<open>What it means that a list of items computes an expression: put anywhere behind older labels, it pushes a value.\<close>

definition computes :: "(string \<Rightarrow> nat) \<Rightarrow> nat \<Rightarrow> expr \<Rightarrow> bool" where
  "computes \<nu> k e \<longleftrightarrow> (\<forall>l m P Q pre post st. safe \<nu> k e m \<longrightarrow> P = pre @ ecode \<nu> e l @ post \<longrightarrow> (\<forall>n \<in> labels pre. n < l)
     \<longrightarrow> (\<forall>v m1. eval \<nu> k e m v m1 \<longrightarrow> surely k P Q (length (pre @ ecode \<nu> e l), v # st, m1)) \<longrightarrow> surely k P Q (length pre, st, m))"

lemma computesD:
  assumes "computes \<nu> k e" and "P = pre @ ecode \<nu> e l @ post" and "safe \<nu> k e m" and "\<And>n. n \<in> labels pre \<Longrightarrow> n < l"
    and "\<And>v m1. eval \<nu> k e m v m1 \<Longrightarrow> surely k P Q (length (pre @ ecode \<nu> e l), v # st, m1)"
  shows "surely k P Q (length pre, st, m)"
  using assms unfolding computes_def by blast

lemma computes_and:
  assumes a: "computes \<nu> k a" and b: "computes \<nu> k b"
  shows "computes \<nu> k (And a b)"
  unfolding computes_def
proof (intro allI impI)
  fix l m P Q pre post st
  assume safe: "safe \<nu> k (And a b) m" and P: "P = pre @ ecode \<nu> (And a b) l @ post" and lab: "\<forall>n \<in> labels pre. n < l"
    and Q: "\<forall>v m1. eval \<nu> k (And a b) m v m1 \<longrightarrow> surely k P Q (length (pre @ ecode \<nu> (And a b) l), v # st, m1)"
  let ?l = "l + label_count a"
  let ?ca = "ecode \<nu> a l" and ?cb = "ecode \<nu> b (Suc ?l)" and ?D = "I (Op (CHR ''D''))" and ?Z = "Jmp (CHR ''Z'') ?l" and ?p = "I (Op (CHR ''p''))" and ?one = "I (Op (CHR ''1''))"
  let ?p1 = "pre @ ?ca @ [?D, ?Z, ?p]" and ?p2 = "pre @ ?ca @ [?D, ?Z, ?p] @ ?cb @ [?D, ?Z, ?p, ?one]"
  have PA: "P = pre @ ?ca @ [?D, ?Z, ?p] @ ?cb @ [?D, ?Z, ?p, ?one, Lab ?l] @ post" by (simp add: P and_tail_def Let_def)
  have "?l \<notin> labels ?p2" using lab ecode_labels [of ?l \<nu> a l] ecode_labels [of ?l \<nu> b "Suc ?l"] by fastforce
  then have j: "find_label P ?l = Some (length ?p2)" by (intro find_label_at [where ys = post]) (simp add: PA)
  have fin: "surely k P Q (length ?p2, v # st, m1)" if "eval \<nu> k (And a b) m v m1" for v m1
  proof (rule sure_Lab [of P _ ?l post])
    show "surely k P Q (length (?p2 @ [Lab ?l]), v # st, m1)" using Q that by (simp add: and_tail_def Let_def)
  qed (simp add: PA)
  have second: "surely k P Q (length (?p1 @ ?cb), w # st, m2)" if v: "eval \<nu> k a m v m1" "v \<noteq> 0" and w: "eval \<nu> k b m1 w m2" for v m1 w m2
  proof -
    have e: "surely k P Q (length ?p2, of_bool (w \<noteq> 0) # st, m2)" by (rule fin [OF eval_and [OF v w]])
    have "surely k P Q (length (?p1 @ ?cb @ [?D, ?Z]), w # st, m2)" if "w \<noteq> 0"
    proof (rule sure_one [OF _ plain_steps(2)])
      have "surely k P Q (length (?p1 @ ?cb @ [?D, ?Z, ?p]), st, m2)"
        by (rule sure_one [OF _ plain_steps(6)]) (use e that in \<open>simp_all add: PA\<close>)
      then show "surely k P Q (length ((?p1 @ ?cb @ [?D, ?Z]) @ [?p]), st, m2)" by simp
    qed (simp add: PA)
    then have "surely k P Q (length (?p1 @ ?cb @ [?D]), w # w # st, m2)" by - (rule sure_Z [OF _ j], use e in \<open>simp_all add: PA\<close>)
    then show ?thesis by - (rule sure_one [OF _ plain_steps(1)], simp_all add: PA)
  qed
  have first: "surely k P Q (length (pre @ ?ca), v # st, m1)" if v: "eval \<nu> k a m v m1" for v m1
  proof -
    have "surely k P Q (length (pre @ ?ca @ [?D, ?Z]), v # st, m1)" if nz: "v \<noteq> 0"
    proof (rule sure_one [OF _ plain_steps(2)])
      have "surely k P Q (length ?p1, st, m1)"
      proof (rule computesD [OF b])
        show "safe \<nu> k b m1" using safe v nz by simp
        show "n < Suc ?l" if "n \<in> labels ?p1" for n using that lab ecode_labels [of n \<nu> a l] by fastforce
        show "surely k P Q (length (?p1 @ ?cb), w # st, m2)" if "eval \<nu> k b m1 w m2" for w m2 by (rule second [OF v nz that])
      qed (simp add: PA)
      then show "surely k P Q (length ((pre @ ?ca @ [?D, ?Z]) @ [?p]), st, m1)" by simp
    qed (simp add: PA)
    moreover have "surely k P Q (length ?p2, v # st, m1)" if "v = 0" using fin eval_and_false v that by blast
    ultimately have "surely k P Q (length (pre @ ?ca @ [?D]), v # v # st, m1)" by - (rule sure_Z [OF _ j], simp_all add: PA)
    then show ?thesis by - (rule sure_one [OF _ plain_steps(1)], simp_all add: PA)
  qed
  show "surely k P Q (length pre, st, m)" by (rule computesD [OF a _ _ _ first]) (use safe lab PA in simp_all)
qed

lemma computes_or:
  assumes a: "computes \<nu> k a" and b: "computes \<nu> k b"
  shows "computes \<nu> k (Or a b)"
  unfolding computes_def
proof (intro allI impI)
  fix l m P Q pre post st
  assume safe: "safe \<nu> k (Or a b) m" and P: "P = pre @ ecode \<nu> (Or a b) l @ post" and lab: "\<forall>n \<in> labels pre. n < l"
    and Q: "\<forall>v m1. eval \<nu> k (Or a b) m v m1 \<longrightarrow> surely k P Q (length (pre @ ecode \<nu> (Or a b) l), v # st, m1)"
  let ?l = "l + label_count a" let ?t = "Suc ?l + label_count b"
  let ?ca = "ecode \<nu> a l" and ?cb = "ecode \<nu> b (Suc ?l)" and ?B = "Jmp (CHR ''B'') ?l" and ?J = "Jmp (CHR ''J'') ?t" and ?zero = "I (Op (CHR ''0''))" and ?one = "I (Op (CHR ''1''))"
  let ?p1 = "pre @ ?ca @ [?B]"
  let ?p2 = "?p1 @ ?cb @ [?B, ?zero, ?J]" let ?p3 = "?p2 @ [Lab ?l, ?one]"
  have PA: "P = pre @ ?ca @ [?B] @ ?cb @ [?B, ?zero, ?J, Lab ?l, ?one, Lab ?t] @ post" by (simp add: P or_tail_def Let_def)
  have "?l \<notin> labels ?p2" using lab ecode_labels [of ?l \<nu> a l] ecode_labels [of ?l \<nu> b "Suc ?l"] by fastforce
  then have j: "find_label P ?l = Some (length ?p2)" by (intro find_label_at [where ys = "?one # Lab ?t # post"]) (simp add: PA)
  have "?t \<notin> labels ?p3" using lab ecode_labels [of ?t \<nu> a l] ecode_labels [of ?t \<nu> b "Suc ?l"] by fastforce
  then have t: "find_label P ?t = Some (length ?p3)" by (intro find_label_at [where ys = post]) (simp add: PA)
  have fin: "surely k P Q (length ?p3, v # st, m1)" if "eval \<nu> k (Or a b) m v m1" for v m1
  proof (rule sure_Lab [of P _ ?t post])
    show "surely k P Q (length (?p3 @ [Lab ?t]), v # st, m1)" using Q that by (simp add: or_tail_def Let_def)
  qed (simp add: PA)
  have true: "surely k P Q (length ?p2, st, m1)" if "eval \<nu> k (Or a b) m 1 m1" for m1
  proof (rule sure_Lab [of P _ ?l "?one # Lab ?t # post"])
    have "surely k P Q (length (?p2 @ [Lab ?l]), st, m1)"
      by (rule sure_one [OF _ plain_steps(6)]) (use fin [OF that] in \<open>simp_all add: PA\<close>)
    then show "surely k P Q (length (?p2 @ [Lab ?l]), st, m1)" .
  qed (simp add: PA)
  have second: "surely k P Q (length (?p1 @ ?cb), w # st, m2)" if v: "eval \<nu> k a m 0 m1" and w: "eval \<nu> k b m1 w m2" for m1 w m2
  proof (rule sure_B [OF _ j])
    note e = eval_or [OF v w]
    show "surely k P Q (length ?p2, st, m2)" if "w \<noteq> 0" using true e that by simp
    assume "w = 0"
    then have "surely k P Q (length ?p3, 0 # st, m2)" using fin [OF e] by simp
    then have "surely k P Q (length (?p1 @ ?cb @ [?B, ?zero]), 0 # st, m2)" by - (rule sure_jump [OF _ t], simp_all add: PA)
    then have "surely k P Q (length (?p1 @ ?cb @ [?B]), st, m2)" by - (rule sure_one [OF _ plain_steps(5)], simp_all add: PA)
    then show "surely k P Q (length ((?p1 @ ?cb) @ [?B]), st, m2)" by simp
  qed (simp add: PA)
  have first: "surely k P Q (length (pre @ ?ca), v # st, m1)" if v: "eval \<nu> k a m v m1" for v m1
  proof (rule sure_B [OF _ j])
    show "surely k P Q (length ?p2, st, m1)" if "v \<noteq> 0" by (rule true [OF eval_or_true [OF v that]])
    assume z: "v = 0"
    have "surely k P Q (length ?p1, st, m1)"
    proof (rule computesD [OF b])
      show "safe \<nu> k b m1" using safe v z by simp
      show "n < Suc ?l" if "n \<in> labels ?p1" for n using that lab ecode_labels [of n \<nu> a l] by fastforce
      show "surely k P Q (length (?p1 @ ?cb), w # st, m2)" if "eval \<nu> k b m1 w m2" for w m2 by (rule second [OF v [unfolded z] that])
    qed (simp add: PA)
    then show "surely k P Q (length ((pre @ ?ca) @ [?B]), st, m1)" by simp
  qed (simp add: PA)
  show "surely k P Q (length pre, st, m)" by (rule computesD [OF a _ _ _ first]) (use safe lab PA in simp_all)
qed

lemma computes_two:
  assumes a: "computes \<nu> k a" and b: "computes \<nu> k b"
    and code: "\<And>l. ecode \<nu> e l = ecode \<nu> a l @ ecode \<nu> b (l + label_count a) @ [I ins]"
    and safe: "\<And>m. safe \<nu> k e m \<Longrightarrow> safe \<nu> k a m \<and> (\<forall>v m1. eval \<nu> k a m v m1 \<longrightarrow> safe \<nu> k b m1)"
    and ex: "\<And>m v m1 w m2 st. safe \<nu> k e m \<Longrightarrow> eval \<nu> k a m v m1 \<Longrightarrow> eval \<nu> k b m1 w m2 \<Longrightarrow> \<exists>c. rat_step k ins (w # v # st, m2) c"
    and sem: "\<And>m v m1 w m2 st c. safe \<nu> k e m \<Longrightarrow> eval \<nu> k a m v m1 \<Longrightarrow> eval \<nu> k b m1 w m2 \<Longrightarrow> rat_step k ins (w # v # st, m2) c
      \<Longrightarrow> \<exists>r. eval \<nu> k e m r m2 \<and> c = (r # st, m2)"
  shows "computes \<nu> k e"
  unfolding computes_def
proof (intro allI impI)
  fix l m P Q pre post st
  assume s: "safe \<nu> k e m" and P: "P = pre @ ecode \<nu> e l @ post" and lab: "\<forall>n \<in> labels pre. n < l"
    and Q: "\<forall>v m1. eval \<nu> k e m v m1 \<longrightarrow> surely k P Q (length (pre @ ecode \<nu> e l), v # st, m1)"
  let ?ca = "ecode \<nu> a l" and ?cb = "ecode \<nu> b (l + label_count a)"
  have PA: "P = pre @ ?ca @ ?cb @ [I ins] @ post" by (simp add: P code)
  show "surely k P Q (length pre, st, m)"
  proof (rule computesD [OF a])
    fix v m1 assume v: "eval \<nu> k a m v m1"
    show "surely k P Q (length (pre @ ?ca), v # st, m1)"
    proof (rule computesD [OF b])
      show "safe \<nu> k b m1" using safe [OF s] v by blast
      show "n < l + label_count a" if "n \<in> labels (pre @ ?ca)" for n using that lab ecode_labels [of n \<nu> a l] by fastforce
      fix w m2 assume w: "eval \<nu> k b m1 w m2"
      obtain c where c: "rat_step k ins (w # v # st, m2) c" using ex [OF s v w] by blast
      show "surely k P Q (length ((pre @ ?ca) @ ?cb), w # v # st, m2)"
      proof (rule sure_instr [OF _ c])
        show "surely k P Q (Suc (length ((pre @ ?ca) @ ?cb)), d)" if "rat_step k ins (w # v # st, m2) d" for d
          using sem [OF s v w that] Q by (auto simp: code)
      qed (simp add: PA)
    qed (simp add: PA)
  qed (use safe [OF s] lab PA in simp_all)
qed

lemma computes_one:
  assumes a: "computes \<nu> k a" and code: "\<And>l. ecode \<nu> e l = ecode \<nu> a l @ [I ins]" and safe: "\<And>m. safe \<nu> k e m = safe \<nu> k a m"
    and sem: "\<And>m v m1 st. eval \<nu> k a m v m1 \<Longrightarrow> \<exists>r m2. eval \<nu> k e m r m2 \<and> (\<forall>c. rat_step k ins (v # st, m1) c \<longleftrightarrow> c = (r # st, m2))"
  shows "computes \<nu> k e"
  unfolding computes_def
proof (intro allI impI)
  fix l m P Q pre post st
  assume s: "safe \<nu> k e m" and P: "P = pre @ ecode \<nu> e l @ post" and lab: "\<forall>n \<in> labels pre. n < l"
    and Q: "\<forall>v m1. eval \<nu> k e m v m1 \<longrightarrow> surely k P Q (length (pre @ ecode \<nu> e l), v # st, m1)"
  show "surely k P Q (length pre, st, m)"
  proof (rule computesD [OF a])
    fix v m1 assume v: "eval \<nu> k a m v m1"
    obtain r m2 where r: "eval \<nu> k e m r m2" "\<And>c. rat_step k ins (v # st, m1) c \<longleftrightarrow> c = (r # st, m2)" using sem [OF v, of st] by blast
    show "surely k P Q (length (pre @ ecode \<nu> a l), v # st, m1)"
      by (rule sure_one [OF _ r(2)]) (use Q r(1) in \<open>auto simp: P code\<close>)
  qed (use s lab in \<open>simp_all add: P code safe\<close>)
qed

text \<open>Instructions that do not look at the stack.\<close>

lemma computes_flat:
  assumes code: "\<And>l. ecode \<nu> e l = map I is" and sem: "\<And>m. eval \<nu> k e m (val m) (mem m)"
    and run: "\<And>m st P Q pre post. P = pre @ map I is @ post \<Longrightarrow> surely k P Q (length (pre @ map I is), val m # st, mem m) \<Longrightarrow> surely k P Q (length pre, st, m)"
  shows "computes \<nu> k e"
  unfolding computes_def
proof (intro allI impI)
  fix l m P Q pre post st
  assume P: "P = pre @ ecode \<nu> e l @ post" and Q: "\<forall>v m1. eval \<nu> k e m v m1 \<longrightarrow> surely k P Q (length (pre @ ecode \<nu> e l), v # st, m1)"
  show "surely k P Q (length pre, st, m)" by (rule run [OF P [unfolded code]]) (use Q sem [of m] in \<open>simp add: code\<close>)
qed

lemma computes_assign_op:
  assumes e: "computes \<nu> k e" and c: "c \<in> set arith_ops" and ne: "c \<noteq> CHR ''=''"
  shows "computes \<nu> k (Assign (Simple x) c e)"
  unfolding computes_def
proof (intro allI impI)
  fix l m P Q pre post st
  assume s: "safe \<nu> k (Assign (Simple x) c e) m" and P: "P = pre @ ecode \<nu> (Assign (Simple x) c e) l @ post" and lab: "\<forall>n \<in> labels pre. n < l"
    and Q: "\<forall>v m1. eval \<nu> k (Assign (Simple x) c e) m v m1 \<longrightarrow> surely k P Q (length (pre @ ecode \<nu> (Assign (Simple x) c e) l), v # st, m1)"
  let ?L = "I (Load (\<nu> x))" and ?c = "ecode \<nu> e l"
  have PA: "P = pre @ [?L] @ ?c @ [I (Op c), I (Store (\<nu> x))] @ post" using ne by (simp add: P)
  have "surely k P Q (length (pre @ [?L]), m (\<nu> x) # st, m)"
  proof (rule computesD [OF e])
    fix v m1 assume v: "eval \<nu> k e m v m1"
    have nz: "divides c \<Longrightarrow> v \<noteq> 0" using s v by auto
    note op = arith_op_step [OF c nz, of k "m (\<nu> x)" st m1]
    obtain b where b: "rat_step k (Op c) (v # m (\<nu> x) # st, m1) b" using op(1) by blast
    show "surely k P Q (length ((pre @ [?L]) @ ?c), v # m (\<nu> x) # st, m1)"
    proof (rule sure_instr [OF _ b])
      fix d assume "rat_step k (Op c) (v # m (\<nu> x) # st, m1) d"
      then obtain r where r: "arith_val k c (m (\<nu> x)) v r" "d = (r # st, m1)" using op(2) by blast
      have "surely k P Q (length (pre @ [?L] @ ?c @ [I (Op c), I (Store (\<nu> x))]), r # st, m1(\<nu> x := r))"
        using Q eval_assign_op [OF ne v r(1)] ne by simp
      then have "surely k P Q (length (pre @ [?L] @ ?c @ [I (Op c)]), r # st, m1)" by - (rule sure_one [OF _ plain_steps(9)], simp_all add: PA)
      then show "surely k P Q (Suc (length ((pre @ [?L]) @ ?c)), d)" by (simp add: r(2))
    qed (simp add: PA)
  qed (use s lab in \<open>simp_all add: PA\<close>)
  then show "surely k P Q (length pre, st, m)" by - (rule sure_one [OF _ plain_steps(8)], simp_all add: PA)
qed

lemma rel_codes: "r \<in> {''=='', ''!='', ''<'', ''<='', ''>'', ''>=''} \<Longrightarrow> hd (rel_code r) \<in> set cmp_ops \<and> rel_code r = [hd (rel_code r)]"
  by (simp, elim disjE) (simp_all add: rel_code_def cmp_ops_def peek_def)

lemma rel_code_holds: "r \<in> {''=='', ''!='', ''<'', ''<='', ''>'', ''>=''} \<Longrightarrow> cmp_test (hd (rel_code r)) v w = rel_holds r v w"
  by (simp del: cmp_test.simps, elim disjE) (simp_all add: rel_code_def peek_def NUL_def rel_holds.simps)

lemma flat_one:
  assumes "\<And>b. rat_step k ins (st, m) b \<longleftrightarrow> b = (v # st, m1)" and "P = pre @ map I [ins] @ post" and "surely k P Q (length (pre @ map I [ins]), v # st, m1)"
  shows "surely k P Q (length pre, st, m)"
  by (rule sure_one [OF _ assms(1)]) (use assms(2,3) in simp_all)

lemma flat_two:
  assumes "\<And>b. rat_step k i1 (st, m) b \<longleftrightarrow> b = c" and "\<And>b. rat_step k i2 c b \<longleftrightarrow> b = (v # st, m1)"
    and "P = pre @ map I [i1, i2] @ post" and "surely k P Q (length (pre @ map I [i1, i2]), v # st, m1)"
  shows "surely k P Q (length pre, st, m)"
proof (rule sure_one [OF _ assms(1)])
  have "surely k P Q (length (pre @ [I i1, I i2]), v # st, m1)" using assms(4) by simp
  then show "surely k P Q (length (pre @ [I i1]), c)" by - (rule sure_one [OF _ assms(2)], use assms(3) in simp_all)
qed (use assms(3) in simp)

lemma number_item_steps: "rat_step k (case number_item s of I i \<Rightarrow> i) (st, m) b \<longleftrightarrow> b = (number_value s # st, m)"
proof -
  have z: "number_value ''0'' = 0" "number_value ''1'' = 1"
    by (simp_all add: number_value_def number_digits_def isdigit_def char_val_def dval_Cons)
  show ?thesis by (auto simp: number_item_def plain_steps z) (simp_all add: number_value_def split_beta)
qed

lemma ecode_computes: "core_expr e \<Longrightarrow> computes \<nu> k e"
proof (induction e rule: core_expr.induct)
  case (1 s)
  obtain i where i: "number_item s = I i" by (simp add: number_item_def)
  have "rat_step k i (st, m) b \<longleftrightarrow> b = (number_value s # st, m)" for st m b using number_item_steps [of k s st m b] i by simp
  note one = flat_one [OF this]
  show ?case by (rule computes_flat [of \<nu> _ "[i]" k "\<lambda>m. number_value s" "\<lambda>m. m"]) (simp_all add: i eval_number one)
next
  case (2 x)
  have l: "rat_step k (Load (\<nu> x)) (st, m) b \<longleftrightarrow> b = (m (\<nu> x) # st, m)" for st m b by (simp add: plain_steps)
  note one = flat_one [OF l]
  show ?case by (rule computes_flat [of \<nu> _ "[Load (\<nu> x)]" k "\<lambda>m. m (\<nu> x)" "\<lambda>m. m"]) (simp_all add: eval_value one)
next
  case (3 x c e)
  then have e: "computes \<nu> k e" by simp
  show ?case
  proof (cases "c = CHR ''=''")
    case True
    show ?thesis
    proof (rule computes_one [OF e, of _ "Store (\<nu> x)"])
      show "\<exists>r m2. eval \<nu> k (Assign (Simple x) c e) m r m2 \<and> (\<forall>d. rat_step k (Store (\<nu> x)) (v # st, m1) d \<longleftrightarrow> d = (r # st, m2))"
        if "eval \<nu> k e m v m1" for m v m1 st using eval_assign [OF that] plain_steps(9) True by blast
    qed (simp_all add: True divides_def)
  next
    case False
    then show ?thesis using computes_assign_op [OF e] 3 by simp
  qed
next
  case (6 a)
  show ?case
  proof (rule computes_one [of \<nu> k a _ "Op (CHR ''!'')"])
    show "\<exists>r m2. eval \<nu> k (Not a) m r m2 \<and> (\<forall>c. rat_step k (Op (CHR ''!'')) (v # st, m1) c \<longleftrightarrow> c = (r # st, m2))"
      if "eval \<nu> k a m v m1" for m v m1 st using eval_not [OF that] plain_steps(3) by blast
  qed (use 6 in simp_all)
next
  case (7 a r b)
  have r: "hd (rel_code r) \<in> set cmp_ops" and mean: "cmp_test (hd (rel_code r)) v w = rel_holds r v w" for v w
    using 7 rel_codes rel_code_holds by (simp_all del: cmp_test.simps)
  show ?case
  proof (rule computes_two [of \<nu> k a b _ "Op (hd (rel_code r))"])
    fix m v m1 w m2 st d assume h: "eval \<nu> k a m v m1" "eval \<nu> k b m1 w m2"
    note s = plain_steps(12) [OF r, of k w v st m2, unfolded mean]
    show "\<exists>d. rat_step k (Op (hd (rel_code r))) (w # v # st, m2) d" using s by blast
    show "\<exists>q. eval \<nu> k (Rel a r b) m q m2 \<and> d = (q # st, m2)" if "rat_step k (Op (hd (rel_code r))) (w # v # st, m2) d"
      using s that eval_rel [OF h, of r] by blast
  qed (use 7 in simp_all)
next
  case (8 a c b)
  have c: "c \<in> set arith_ops" using 8 by simp
  show ?case
  proof (rule computes_two [of \<nu> k a b _ "Op c"])
    fix m v m1 w m2 st d assume h: "safe \<nu> k (Binary a c b) m" "eval \<nu> k a m v m1" "eval \<nu> k b m1 w m2"
    then have nz: "divides c \<Longrightarrow> w \<noteq> 0" by auto
    show "\<exists>d. rat_step k (Op c) (w # v # st, m2) d" using arith_op_step(1) [OF c nz] .
    show "\<exists>r. eval \<nu> k (Binary a c b) m r m2 \<and> d = (r # st, m2)" if "rat_step k (Op c) (w # v # st, m2) d"
      using arith_op_step(2) [OF c nz that] eval_binary [OF h(2,3)] by blast
  qed (use 8 in simp_all)
next
  case (9 a)
  show ?case
  proof (rule computes_one [of \<nu> k a _ "Op (CHR ''n'')"])
    show "\<exists>r m2. eval \<nu> k (Negate a) m r m2 \<and> (\<forall>c. rat_step k (Op (CHR ''n'')) (v # st, m1) c \<longleftrightarrow> c = (r # st, m2))"
      if "eval \<nu> k a m v m1" for m v m1 st using eval_negate [OF that] plain_steps(4) by blast
  qed (use 9 in simp_all)
next
  case (10 a)
  then have a: "computes \<nu> k a" by simp
  show ?case unfolding computes_def
  proof (intro allI impI)
    fix l m P Q pre post st
    assume h: "safe \<nu> k (Paren a) m" "P = pre @ ecode \<nu> (Paren a) l @ post" "\<forall>n \<in> labels pre. n < l"
      and Q: "\<forall>v m1. eval \<nu> k (Paren a) m v m1 \<longrightarrow> surely k P Q (length (pre @ ecode \<nu> (Paren a) l), v # st, m1)"
    show "surely k P Q (length pre, st, m)"
    proof (rule computesD [OF a])
      show "surely k P Q (length (pre @ ecode \<nu> a l), v # st, m1)" if "eval \<nu> k a m v m1" for v m1 using Q eval_paren [OF that] by simp
    qed (use h in simp_all)
  qed
next
  case (11 c x)
  have s: "rat_step k (if c = CHR ''+'' then Incr (\<nu> x) else Decr (\<nu> x)) (st, m) b \<longleftrightarrow> b = (st, m(\<nu> x := m (\<nu> x) + delta c))" for st m b
    by (simp add: plain_steps delta_def)
  have l: "rat_step k (Load (\<nu> x)) (st, m(\<nu> x := m (\<nu> x) + delta c)) b \<longleftrightarrow> b = ((m (\<nu> x) + delta c) # st, m(\<nu> x := m (\<nu> x) + delta c))" for st m b
    by (simp add: plain_steps)
  note two = flat_two [OF s l, unfolded list.map]
  show ?case by (rule computes_flat [of \<nu> _ "[if c = CHR ''+'' then Incr (\<nu> x) else Decr (\<nu> x), Load (\<nu> x)]" k "\<lambda>m. m (\<nu> x) + delta c" "\<lambda>m. m(\<nu> x := m (\<nu> x) + delta c)"])
    (simp_all only: ecode.simps step_item_def list.map eval_pre two)
next
  case (12 x c)
  have s: "rat_step k (if c = CHR ''+'' then Incr (\<nu> x) else Decr (\<nu> x)) (m (\<nu> x) # st, m) b \<longleftrightarrow> b = (m (\<nu> x) # st, m(\<nu> x := m (\<nu> x) + delta c))" for st m b
    by (simp add: plain_steps delta_def)
  have l: "rat_step k (Load (\<nu> x)) (st, m) b \<longleftrightarrow> b = (m (\<nu> x) # st, m)" for st m b by (simp add: plain_steps)
  note two = flat_two [OF l s, unfolded list.map]
  show ?case by (rule computes_flat [of \<nu> _ "[Load (\<nu> x), if c = CHR ''+'' then Incr (\<nu> x) else Decr (\<nu> x)]" k "\<lambda>m. m (\<nu> x)" "\<lambda>m. m(\<nu> x := m (\<nu> x) + delta c)"])
    (simp_all only: ecode.simps step_item_def list.map eval_post two)
qed (simp_all add: computes_and computes_or)

end
