(* ===== verification/BcStmt.thy ===== *)
theory BcStmt
  imports BcSem
begin

text \<open>
  The meaning of statements, the items that they are compiled to, and the proof that the items do what the statements mean, for
  statements that come to an end whatever the roundings of the arithmetic are.
\<close>

section \<open>The meaning of statements\<close>

text \<open>The optional expressions of \<open>for\<close>: without the second one the loop goes on.\<close>

definition opt_eval :: "(string \<Rightarrow> nat) \<Rightarrow> nat \<Rightarrow> expr option \<Rightarrow> memory \<Rightarrow> rat \<Rightarrow> memory \<Rightarrow> bool" where
  "opt_eval \<nu> k eo m v m1 = (case eo of None \<Rightarrow> v = 1 \<and> m1 = m | Some e \<Rightarrow> eval \<nu> k e m v m1)"

definition opt_safe :: "(string \<Rightarrow> nat) \<Rightarrow> nat \<Rightarrow> expr option \<Rightarrow> memory \<Rightarrow> bool" where
  "opt_safe \<nu> k eo m = (case eo of None \<Rightarrow> True | Some e \<Rightarrow> safe \<nu> k e m)"

text \<open>\<open>run_loop\<close> has the test, the expression behind the body, and the body.\<close>

inductive run :: "(string \<Rightarrow> nat) \<Rightarrow> nat \<Rightarrow> stmt \<Rightarrow> memory \<Rightarrow> memory \<Rightarrow> bool"
  and run_list :: "(string \<Rightarrow> nat) \<Rightarrow> nat \<Rightarrow> stmt list \<Rightarrow> memory \<Rightarrow> memory \<Rightarrow> bool"
  and run_loop :: "(string \<Rightarrow> nat) \<Rightarrow> nat \<Rightarrow> expr option \<Rightarrow> expr option \<Rightarrow> stmt \<Rightarrow> memory \<Rightarrow> memory \<Rightarrow> bool" for \<nu> k where
  run_expression: "eval \<nu> k e m v m1 \<Longrightarrow> run \<nu> k (Expression e) m m1"
| run_if_false: "eval \<nu> k e m 0 m1 \<Longrightarrow> run \<nu> k (If e nl s) m m1"
| run_if: "eval \<nu> k e m v m1 \<Longrightarrow> v \<noteq> 0 \<Longrightarrow> run \<nu> k s m1 m2 \<Longrightarrow> run \<nu> k (If e nl s) m m2"
| run_else: "eval \<nu> k e m 0 m1 \<Longrightarrow> run \<nu> k s2 m1 m2 \<Longrightarrow> run \<nu> k (If_else e nl s1 nl2 s2) m m2"
| run_then: "eval \<nu> k e m v m1 \<Longrightarrow> v \<noteq> 0 \<Longrightarrow> run \<nu> k s1 m1 m2 \<Longrightarrow> run \<nu> k (If_else e nl s1 nl2 s2) m m2"
| run_while: "run_loop \<nu> k (Some e) None s m m1 \<Longrightarrow> run \<nu> k (While e nl s) m m1"
| run_for: "opt_eval \<nu> k e1 m v m1 \<Longrightarrow> run_loop \<nu> k e2 e3 s m1 m2 \<Longrightarrow> run \<nu> k (For e1 e2 e3 nl s) m m2"
| run_block: "run_list \<nu> k ss m m1 \<Longrightarrow> run \<nu> k (Block ss) m m1"
| run_nil: "run_list \<nu> k [] m m"
| run_cons: "run \<nu> k s m m1 \<Longrightarrow> run_list \<nu> k ss m1 m2 \<Longrightarrow> run_list \<nu> k (s # ss) m m2"
| run_stop: "opt_eval \<nu> k e2 m 0 m1 \<Longrightarrow> run_loop \<nu> k e2 e3 s m m1"
| run_again: "opt_eval \<nu> k e2 m v m1 \<Longrightarrow> v \<noteq> 0 \<Longrightarrow> run \<nu> k s m1 m2 \<Longrightarrow> opt_eval \<nu> k e3 m2 w m3
    \<Longrightarrow> run_loop \<nu> k e2 e3 s m3 m4 \<Longrightarrow> run_loop \<nu> k e2 e3 s m m4"

text \<open>The statements that surely come to an end, without a division by zero.\<close>

inductive ends :: "(string \<Rightarrow> nat) \<Rightarrow> nat \<Rightarrow> stmt \<Rightarrow> memory \<Rightarrow> bool"
  and ends_list :: "(string \<Rightarrow> nat) \<Rightarrow> nat \<Rightarrow> stmt list \<Rightarrow> memory \<Rightarrow> bool"
  and ends_loop :: "(string \<Rightarrow> nat) \<Rightarrow> nat \<Rightarrow> expr option \<Rightarrow> expr option \<Rightarrow> stmt \<Rightarrow> memory \<Rightarrow> bool" for \<nu> k where
  ends_expression: "safe \<nu> k e m \<Longrightarrow> ends \<nu> k (Expression e) m"
| ends_if: "safe \<nu> k e m \<Longrightarrow> (\<And>v m1. eval \<nu> k e m v m1 \<Longrightarrow> v \<noteq> 0 \<Longrightarrow> ends \<nu> k s m1) \<Longrightarrow> ends \<nu> k (If e nl s) m"
| ends_if_else: "safe \<nu> k e m \<Longrightarrow> (\<And>v m1. eval \<nu> k e m v m1 \<Longrightarrow> v \<noteq> 0 \<Longrightarrow> ends \<nu> k s1 m1)
    \<Longrightarrow> (\<And>m1. eval \<nu> k e m 0 m1 \<Longrightarrow> ends \<nu> k s2 m1) \<Longrightarrow> ends \<nu> k (If_else e nl s1 nl2 s2) m"
| ends_while: "ends_loop \<nu> k (Some e) None s m \<Longrightarrow> ends \<nu> k (While e nl s) m"
| ends_for: "opt_safe \<nu> k e1 m \<Longrightarrow> (\<And>v m1. opt_eval \<nu> k e1 m v m1 \<Longrightarrow> ends_loop \<nu> k e2 e3 s m1) \<Longrightarrow> ends \<nu> k (For e1 e2 e3 nl s) m"
| ends_block: "ends_list \<nu> k ss m \<Longrightarrow> ends \<nu> k (Block ss) m"
| ends_nil: "ends_list \<nu> k [] m"
| ends_cons: "ends \<nu> k s m \<Longrightarrow> (\<And>m1. run \<nu> k s m m1 \<Longrightarrow> ends_list \<nu> k ss m1) \<Longrightarrow> ends_list \<nu> k (s # ss) m"
| ends_turn: "opt_safe \<nu> k e2 m \<Longrightarrow> (\<And>v m1. opt_eval \<nu> k e2 m v m1 \<Longrightarrow> v \<noteq> 0 \<Longrightarrow> ends \<nu> k s m1)
    \<Longrightarrow> (\<And>v m1 m2. opt_eval \<nu> k e2 m v m1 \<Longrightarrow> v \<noteq> 0 \<Longrightarrow> run \<nu> k s m1 m2 \<Longrightarrow> opt_safe \<nu> k e3 m2)
    \<Longrightarrow> (\<And>v m1 m2 w m3. opt_eval \<nu> k e2 m v m1 \<Longrightarrow> v \<noteq> 0 \<Longrightarrow> run \<nu> k s m1 m2 \<Longrightarrow> opt_eval \<nu> k e3 m2 w m3 \<Longrightarrow> ends_loop \<nu> k e2 e3 s m3)
    \<Longrightarrow> ends_loop \<nu> k e2 e3 s m"

text \<open>The statements that are covered.\<close>

fun core_opt :: "expr option \<Rightarrow> bool" where
  "core_opt None = True"
| "core_opt (Some e) = core_expr e"

fun core_stmt :: "stmt \<Rightarrow> bool" and core_list :: "stmt list \<Rightarrow> bool" where
  "core_stmt (Expression (Assign n c e)) = core_expr (Assign n c e)"
| "core_stmt (If e nl s) \<longleftrightarrow> core_expr e \<and> core_stmt s"
| "core_stmt (If_else e nl s1 nl2 s2) \<longleftrightarrow> core_expr e \<and> core_stmt s1 \<and> core_stmt s2"
| "core_stmt (While e nl s) \<longleftrightarrow> core_expr e \<and> core_stmt s"
| "core_stmt (For e1 e2 e3 nl s) \<longleftrightarrow> core_opt e1 \<and> core_opt e2 \<and> core_opt e3 \<and> core_stmt s"
| "core_stmt (Block ss) = core_list ss"
| "core_stmt _ = False"
| "core_list [] = True"
| "core_list (s # ss) \<longleftrightarrow> core_stmt s \<and> core_list ss"

section \<open>The items of statements\<close>

fun opt_count :: "expr option \<Rightarrow> nat" where
  "opt_count None = 0"
| "opt_count (Some e) = label_count e"

fun stmt_count :: "stmt \<Rightarrow> nat" and list_count :: "stmt list \<Rightarrow> nat" where
  "stmt_count (Expression e) = label_count e"
| "stmt_count (If e nl s) = label_count e + 1 + stmt_count s"
| "stmt_count (If_else e nl s1 nl2 s2) = label_count e + 1 + stmt_count s1 + 1 + stmt_count s2"
| "stmt_count (While e nl s) = 1 + label_count e + 1 + stmt_count s"
| "stmt_count (For e1 e2 e3 nl s) = 1 + opt_count e1 + 1 + opt_count e2 + 2 + opt_count e3 + stmt_count s"
| "stmt_count (Block ss) = list_count ss"
| "stmt_count _ = 0"
| "list_count [] = 0"
| "list_count (s # ss) = stmt_count s + list_count ss"

abbreviation pop_item :: item where "pop_item \<equiv> I (Op (CHR ''p''))"

text \<open>An optional expression for its effect, and one for its value.\<close>

fun effect_code :: "(string \<Rightarrow> nat) \<Rightarrow> expr option \<Rightarrow> nat \<Rightarrow> item list" where
  "effect_code \<nu> None l = []"
| "effect_code \<nu> (Some e) l = ecode \<nu> e l @ [pop_item]"

fun test_code :: "(string \<Rightarrow> nat) \<Rightarrow> expr option \<Rightarrow> nat \<Rightarrow> item list" where
  "test_code \<nu> None l = [I (Op (CHR ''1''))]"
| "test_code \<nu> (Some e) l = ecode \<nu> e l"

fun scode :: "(string \<Rightarrow> nat) \<Rightarrow> stmt \<Rightarrow> nat \<Rightarrow> item list" and list_code :: "(string \<Rightarrow> nat) \<Rightarrow> stmt list \<Rightarrow> nat \<Rightarrow> item list" where
  "scode \<nu> (Expression e) l = ecode \<nu> e l @ [pop_item]"
| "scode \<nu> (If e nl s) l = (let l1 = l + label_count e
     in ecode \<nu> e l @ [Jmp (CHR ''Z'') l1] @ scode \<nu> s (Suc l1) @ [Lab l1])"
| "scode \<nu> (If_else e nl s1 nl2 s2) l = (let l1 = l + label_count e; l2 = Suc l1 + stmt_count s1
     in ecode \<nu> e l @ [Jmp (CHR ''Z'') l1] @ scode \<nu> s1 (Suc l1) @ [Jmp (CHR ''J'') l2, Lab l1] @ scode \<nu> s2 (Suc l2) @ [Lab l2])"
| "scode \<nu> (While e nl s) l = (let l2 = Suc l + label_count e
     in [Lab l] @ ecode \<nu> e (Suc l) @ [Jmp (CHR ''Z'') l2] @ scode \<nu> s (Suc l2) @ [Jmp (CHR ''J'') l, Lab l2])"
| "scode \<nu> (For e1 e2 e3 nl s) l = (let l4 = Suc l + opt_count e1; l7 = Suc l4 + opt_count e2; l9 = Suc l7
     in effect_code \<nu> e1 (Suc l) @ [Lab l4] @ test_code \<nu> e2 (Suc l4) @ [Jmp (CHR ''B'') l7, Jmp (CHR ''J'') l, Lab l9]
        @ effect_code \<nu> e3 (Suc l9) @ [Jmp (CHR ''J'') l4, Lab l7] @ scode \<nu> s (Suc l9 + opt_count e3) @ [Jmp (CHR ''J'') l9, Lab l])"
| "scode \<nu> (Block ss) l = list_code \<nu> ss l"
| "scode \<nu> _ l = []"
| "list_code \<nu> [] l = []"
| "list_code \<nu> (s # ss) l = scode \<nu> s l @ list_code \<nu> ss (l + stmt_count s)"

lemma effect_labels: "n \<in> labels (effect_code \<nu> eo l) \<Longrightarrow> l \<le> n \<and> n < l + opt_count eo"
  using ecode_labels [of n \<nu> _ l] by (cases eo) auto

lemma test_labels: "n \<in> labels (test_code \<nu> eo l) \<Longrightarrow> l \<le> n \<and> n < l + opt_count eo"
  using ecode_labels [of n \<nu> _ l] by (cases eo) auto

lemma scode_labels:
  "n \<in> labels (scode \<nu> s l) \<Longrightarrow> l \<le> n \<and> n < l + stmt_count s"
  "n \<in> labels (list_code \<nu> ss l) \<Longrightarrow> l \<le> n \<and> n < l + list_count ss"
proof (induction \<nu> s l and \<nu> ss l rule: scode_list_code.induct)
  case (1 \<nu> e l)
  then show ?case using ecode_labels [of n \<nu> e l] by simp
next
  case (2 \<nu> e nl s l)
  then show ?case using ecode_labels [of n \<nu> e l] by (auto simp: Let_def)
next
  case (3 \<nu> e nl s1 nl2 s2 l)
  show ?case using "3.IH"(1) [OF refl refl] "3.IH"(2) [OF refl refl] "3.prems" ecode_labels [of n \<nu> e l]
    unfolding scode.simps Let_def by (simp; linarith)
next
  case (4 \<nu> e nl s l)
  then show ?case using ecode_labels [of n \<nu> e "Suc l"] by (auto simp: Let_def)
next
  case (5 \<nu> e1 e2 e3 nl s l)
  show ?case using "5.IH" [OF refl refl refl] "5.prems" effect_labels [of n \<nu> e1 "Suc l"] test_labels [of n \<nu> e2 "Suc (Suc l + opt_count e1)"]
      effect_labels [of n \<nu> e3 "Suc (Suc (Suc (Suc l + opt_count e1) + opt_count e2))"] by (auto simp: Let_def)
qed (simp_all; fastforce)+

section \<open>The items of statements do what they mean\<close>

text \<open>Put anywhere behind older labels, the items lead from a memory to the memories that the statement leads to.\<close>

definition performs :: "(nat \<Rightarrow> item list) \<Rightarrow> nat \<Rightarrow> (memory \<Rightarrow> memory \<Rightarrow> bool) \<Rightarrow> memory \<Rightarrow> bool" where
  "performs code k r m \<longleftrightarrow> (\<forall>l P Q pre post st. P = pre @ code l @ post \<longrightarrow> (\<forall>n \<in> labels pre. n < l)
     \<longrightarrow> (\<forall>m1. r m m1 \<longrightarrow> surely k P Q (length (pre @ code l), st, m1)) \<longrightarrow> surely k P Q (length pre, st, m))"

lemma performsD:
  assumes "performs code k r m" and "P = pre @ code l @ post" and "\<And>n. n \<in> labels pre \<Longrightarrow> n < l"
    and "\<And>m1. r m m1 \<Longrightarrow> surely k P Q (length (pre @ code l), st, m1)"
  shows "surely k P Q (length pre, st, m)"
  using assms unfolding performs_def by blast

lemma effect_performs:
  assumes "core_opt eo" and "opt_safe \<nu> k eo m"
  shows "performs (effect_code \<nu> eo) k (\<lambda>m m1. \<exists>v. opt_eval \<nu> k eo m v m1) m"
proof (cases eo)
  case None
  then show ?thesis by (simp add: performs_def opt_eval_def)
next
  case (Some e)
  have c: "computes \<nu> k e" using assms(1) Some by (simp add: ecode_computes)
  show ?thesis unfolding performs_def
  proof (intro allI impI)
    fix l P Q pre post st
    assume P: "P = pre @ effect_code \<nu> eo l @ post" and lab: "\<forall>n \<in> labels pre. n < l"
      and Q: "\<forall>m1. (\<exists>v. opt_eval \<nu> k eo m v m1) \<longrightarrow> surely k P Q (length (pre @ effect_code \<nu> eo l), st, m1)"
    show "surely k P Q (length pre, st, m)"
    proof (rule computesD [OF c])
      fix v m1 assume "eval \<nu> k e m v m1"
      then have "surely k P Q (length (pre @ ecode \<nu> e l @ [pop_item]), st, m1)" using Q by (auto simp: opt_eval_def Some)
      then show "surely k P Q (length (pre @ ecode \<nu> e l), v # st, m1)" by - (rule sure_one [OF _ plain_steps(2)], simp_all add: P Some)
    qed (use assms(2) lab in \<open>simp_all add: P Some opt_safe_def\<close>)
  qed
qed

lemma test_computes:
  assumes "core_opt eo" and "opt_safe \<nu> k eo m" and P: "P = pre @ test_code \<nu> eo l @ post" and "\<And>n. n \<in> labels pre \<Longrightarrow> n < l"
    and Q: "\<And>v m1. opt_eval \<nu> k eo m v m1 \<Longrightarrow> surely k P Q (length (pre @ test_code \<nu> eo l), v # st, m1)"
  shows "surely k P Q (length pre, st, m)"
proof (cases eo)
  case None
  have "surely k P Q (length (pre @ [I (Op (CHR ''1''))]), 1 # st, m)" using Q [of 1 m] by (simp add: None opt_eval_def)
  then show ?thesis by - (rule sure_one [OF _ plain_steps(6)], simp_all add: P None)
next
  case (Some e)
  have c: "computes \<nu> k e" using assms(1) Some by (simp add: ecode_computes)
  show ?thesis by (rule computesD [OF c, of P pre l post]) (use assms Some in \<open>simp_all add: opt_safe_def opt_eval_def\<close>)
qed

text \<open>One turn of a \<^verbatim>\<open>while\<close> loop, with the loop itself as what follows.\<close>

lemma while_turn:
  assumes e: "core_expr e" and safe: "safe \<nu> k e m"
    and body: "\<And>v m1. eval \<nu> k e m v m1 \<Longrightarrow> v \<noteq> 0 \<Longrightarrow> performs (scode \<nu> s) k (run \<nu> k s) m1"
    and again: "\<And>v m1 m2. eval \<nu> k e m v m1 \<Longrightarrow> v \<noteq> 0 \<Longrightarrow> run \<nu> k s m1 m2 \<Longrightarrow> performs (scode \<nu> (While e nl s)) k (run_loop \<nu> k (Some e) None s) m2"
  shows "performs (scode \<nu> (While e nl s)) k (run_loop \<nu> k (Some e) None s) m"
  unfolding performs_def
proof (intro allI impI)
  fix l P Q pre post st
  assume P: "P = pre @ scode \<nu> (While e nl s) l @ post" and lab: "\<forall>n \<in> labels pre. n < l"
    and Q: "\<forall>m1. run_loop \<nu> k (Some e) None s m m1 \<longrightarrow> surely k P Q (length (pre @ scode \<nu> (While e nl s) l), st, m1)"
  let ?l2 = "Suc l + label_count e"
  let ?ce = "ecode \<nu> e (Suc l)" and ?cs = "scode \<nu> s (Suc ?l2)" and ?Z = "Jmp (CHR ''Z'') ?l2" and ?J = "Jmp (CHR ''J'') l"
  let ?p1 = "pre @ [Lab l] @ ?ce @ [?Z]" and ?p2 = "pre @ [Lab l] @ ?ce @ [?Z] @ ?cs @ [?J]"
  have PA: "P = pre @ [Lab l] @ ?ce @ [?Z] @ ?cs @ [?J, Lab ?l2] @ post" by (simp add: P Let_def)
  have l: "find_label P l = Some (length pre)" by (rule find_label_at [of P pre l "?ce @ [?Z] @ ?cs @ [?J, Lab ?l2] @ post"]) (use lab in \<open>auto simp: PA\<close>)
  have "?l2 \<notin> labels ?p2" using lab ecode_labels [of ?l2 \<nu> e "Suc l"] scode_labels(1) [of ?l2 \<nu> s "Suc ?l2"] by fastforce
  then have l2: "find_label P ?l2 = Some (length ?p2)" by (intro find_label_at [where ys = post]) (simp add: PA)
  have loop: "surely k P Q (length (?p1 @ ?cs), st, m2)" if v: "eval \<nu> k e m v m1" "v \<noteq> 0" "run \<nu> k s m1 m2" for v m1 m2
  proof (rule sure_jump [OF _ l])
    show "surely k P Q (length pre, st, m2)"
    proof (rule performsD [OF again [OF v] P])
      fix m3 assume "run_loop \<nu> k (Some e) None s m2 m3"
      then have "run_loop \<nu> k (Some e) None s m m3" using run_again [of \<nu> k "Some e" m v m1 s m2 None 1 m2] v by (simp add: opt_eval_def)
      then show "surely k P Q (length (pre @ scode \<nu> (While e nl s) l), st, m3)" using Q by blast
    qed (use lab in blast)
  qed (simp add: PA)
  have stop: "surely k P Q (length ?p2, st, m1)" if "eval \<nu> k e m 0 m1" for m1
  proof (rule sure_Lab [of P _ ?l2 post])
    have "run_loop \<nu> k (Some e) None s m m1" using that by (intro run_stop) (simp add: opt_eval_def)
    then show "surely k P Q (length (?p2 @ [Lab ?l2]), st, m1)" using Q by (simp add: Let_def)
  qed (simp add: PA)
  have "surely k P Q (length (pre @ [Lab l]), st, m)"
  proof (rule computesD [OF ecode_computes [OF e]])
    fix v m1 assume v: "eval \<nu> k e m v m1"
    show "surely k P Q (length ((pre @ [Lab l]) @ ?ce), v # st, m1)"
    proof (rule sure_Z [OF _ l2])
      show "surely k P Q (length ?p2, st, m1)" if "v = 0" using stop v that by simp
      assume nz: "v \<noteq> 0"
      have "surely k P Q (length ?p1, st, m1)"
      proof (rule performsD [OF body [OF v nz]])
        show "n < Suc ?l2" if "n \<in> labels ?p1" for n using that lab ecode_labels [of n \<nu> e "Suc l"] by fastforce
        show "surely k P Q (length (?p1 @ ?cs), st, m2)" if "run \<nu> k s m1 m2" for m2 by (rule loop [OF v nz that])
      qed (simp add: PA)
      then show "surely k P Q (length (((pre @ [Lab l]) @ ?ce) @ [?Z]), st, m1)" by simp
    qed (simp add: PA)
  qed (use safe lab in \<open>auto simp: PA less_Suc_eq\<close>)
  then show "surely k P Q (length pre, st, m)" by - (rule sure_Lab [of P _ l], simp_all add: PA)
qed

text \<open>A \<^verbatim>\<open>for\<close> from its test on: \<open>l\<close> is the label of its end, \<open>l4\<close> that of the test.\<close>

definition for_tail :: "(string \<Rightarrow> nat) \<Rightarrow> expr option \<Rightarrow> expr option \<Rightarrow> stmt \<Rightarrow> nat \<Rightarrow> nat \<Rightarrow> item list" where
  "for_tail \<nu> e2 e3 s l l4 = (let l7 = Suc l4 + opt_count e2; l9 = Suc l7
     in [Lab l4] @ test_code \<nu> e2 (Suc l4) @ [Jmp (CHR ''B'') l7, Jmp (CHR ''J'') l, Lab l9]
        @ effect_code \<nu> e3 (Suc l9) @ [Jmp (CHR ''J'') l4, Lab l7] @ scode \<nu> s (Suc l9 + opt_count e3) @ [Jmp (CHR ''J'') l9, Lab l])"

lemma scode_for: "scode \<nu> (For e1 e2 e3 nl s) l = effect_code \<nu> e1 (Suc l) @ for_tail \<nu> e2 e3 s l (Suc l + opt_count e1)"
  by (simp add: for_tail_def Let_def)

definition for_performs :: "(string \<Rightarrow> nat) \<Rightarrow> nat \<Rightarrow> expr option \<Rightarrow> expr option \<Rightarrow> stmt \<Rightarrow> memory \<Rightarrow> bool" where
  "for_performs \<nu> k e2 e3 s m \<longleftrightarrow> (\<forall>l l4 P Q pre post st. P = pre @ for_tail \<nu> e2 e3 s l l4 @ post \<longrightarrow> l < l4 \<longrightarrow> l \<notin> labels pre \<longrightarrow> (\<forall>n \<in> labels pre. n < l4)
     \<longrightarrow> (\<forall>m1. run_loop \<nu> k e2 e3 s m m1 \<longrightarrow> surely k P Q (length (pre @ for_tail \<nu> e2 e3 s l l4), st, m1)) \<longrightarrow> surely k P Q (length pre, st, m))"

lemma for_performsD:
  assumes "for_performs \<nu> k e2 e3 s m" and "P = pre @ for_tail \<nu> e2 e3 s l l4 @ post" and "l < l4" and "l \<notin> labels pre" and "\<And>n. n \<in> labels pre \<Longrightarrow> n < l4"
    and "\<And>m1. run_loop \<nu> k e2 e3 s m m1 \<Longrightarrow> surely k P Q (length (pre @ for_tail \<nu> e2 e3 s l l4), st, m1)"
  shows "surely k P Q (length pre, st, m)"
  using assms unfolding for_performs_def by blast

lemma for_turn:
  assumes core: "core_opt e2" "core_opt e3" and safe: "opt_safe \<nu> k e2 m"
    and body: "\<And>v m1. opt_eval \<nu> k e2 m v m1 \<Longrightarrow> v \<noteq> 0 \<Longrightarrow> performs (scode \<nu> s) k (run \<nu> k s) m1"
    and safe3: "\<And>v m1 m2. opt_eval \<nu> k e2 m v m1 \<Longrightarrow> v \<noteq> 0 \<Longrightarrow> run \<nu> k s m1 m2 \<Longrightarrow> opt_safe \<nu> k e3 m2"
    and again: "\<And>v m1 m2 w m3. opt_eval \<nu> k e2 m v m1 \<Longrightarrow> v \<noteq> 0 \<Longrightarrow> run \<nu> k s m1 m2 \<Longrightarrow> opt_eval \<nu> k e3 m2 w m3 \<Longrightarrow> for_performs \<nu> k e2 e3 s m3"
  shows "for_performs \<nu> k e2 e3 s m"
  unfolding for_performs_def
proof (intro allI impI)
  fix l l4 P Q pre post st
  assume P: "P = pre @ for_tail \<nu> e2 e3 s l l4 @ post" and ll: "l < l4" and fresh: "l \<notin> labels pre" and lab: "\<forall>n \<in> labels pre. n < l4"
    and Q: "\<forall>m1. run_loop \<nu> k e2 e3 s m m1 \<longrightarrow> surely k P Q (length (pre @ for_tail \<nu> e2 e3 s l l4), st, m1)"
  let ?l7 = "Suc l4 + opt_count e2" let ?l9 = "Suc ?l7" let ?ls = "Suc ?l9 + opt_count e3"
  let ?ct = "test_code \<nu> e2 (Suc l4)" and ?ce = "effect_code \<nu> e3 (Suc ?l9)" and ?cs = "scode \<nu> s ?ls"
  let ?B = "Jmp (CHR ''B'') ?l7" and ?Jl = "Jmp (CHR ''J'') l" and ?J4 = "Jmp (CHR ''J'') l4" and ?J9 = "Jmp (CHR ''J'') ?l9"
  let ?p1 = "pre @ [Lab l4] @ ?ct" let ?p9 = "?p1 @ [?B, ?Jl]" let ?p7 = "?p9 @ [Lab ?l9] @ ?ce @ [?J4]" let ?pe = "?p7 @ [Lab ?l7] @ ?cs @ [?J9]"
  have PA: "P = pre @ [Lab l4] @ ?ct @ [?B, ?Jl, Lab ?l9] @ ?ce @ [?J4, Lab ?l7] @ ?cs @ [?J9, Lab l] @ post" by (simp add: P for_tail_def Let_def)
  note lt = test_labels [of _ \<nu> e2 "Suc l4"] and le = effect_labels [of _ \<nu> e3 "Suc ?l9"] and ls = scode_labels(1) [of _ \<nu> s ?ls]
  have f4: "find_label P l4 = Some (length pre)"
    by (rule find_label_at [of P pre l4 "?ct @ [?B, ?Jl, Lab ?l9] @ ?ce @ [?J4, Lab ?l7] @ ?cs @ [?J9, Lab l] @ post"]) (use lab in \<open>auto simp: PA\<close>)
  have "?l9 \<notin> labels ?p9" using lab lt [of ?l9] by fastforce
  then have f9: "find_label P ?l9 = Some (length ?p9)" by (intro find_label_at [where ys = "?ce @ [?J4, Lab ?l7] @ ?cs @ [?J9, Lab l] @ post"]) (simp add: PA)
  have "?l7 \<notin> labels ?p7" using lab lt [of ?l7] le [of ?l7] by fastforce
  then have f7: "find_label P ?l7 = Some (length ?p7)" by (intro find_label_at [where ys = "?cs @ [?J9, Lab l] @ post"]) (simp add: PA)
  have "l \<notin> labels ?pe" using fresh ll lt [of l] le [of l] ls [of l] by auto
  then have fl: "find_label P l = Some (length ?pe)" by (intro find_label_at [where ys = post]) (simp add: PA)
  have stop: "surely k P Q (length ?pe, st, m1)" if "opt_eval \<nu> k e2 m 0 m1" for m1
  proof (rule sure_Lab [of P _ l post])
    show "surely k P Q (length (?pe @ [Lab l]), st, m1)" using Q run_stop [OF that] by (simp add: for_tail_def Let_def)
  qed (simp add: PA)
  have next9: "surely k P Q (length ?p9, st, m2)" if v: "opt_eval \<nu> k e2 m v m1" "v \<noteq> 0" "run \<nu> k s m1 m2" for v m1 m2
  proof (rule sure_Lab [of P _ ?l9])
    show "surely k P Q (length (?p9 @ [Lab ?l9]), st, m2)"
    proof (rule performsD [OF effect_performs [OF core(2) safe3 [OF v]]])
      show "n < Suc ?l9" if "n \<in> labels (?p9 @ [Lab ?l9])" for n using that lab lt [of n] by auto
      fix m3 assume "\<exists>w. opt_eval \<nu> k e3 m2 w m3"
      then obtain w where w: "opt_eval \<nu> k e3 m2 w m3" by blast
      show "surely k P Q (length ((?p9 @ [Lab ?l9]) @ ?ce), st, m3)"
      proof (rule sure_jump [OF _ f4])
        show "surely k P Q (length pre, st, m3)"
        proof (rule for_performsD [OF again [OF v w] P ll fresh])
          show "surely k P Q (length (pre @ for_tail \<nu> e2 e3 s l l4), st, m4)" if "run_loop \<nu> k e2 e3 s m3 m4" for m4
            using Q run_again [OF v w that] by blast
        qed (use lab in blast)
      qed (simp add: PA)
    qed (simp add: PA)
  qed (simp add: PA)
  have turn: "surely k P Q (length ?p7, st, m1)" if v: "opt_eval \<nu> k e2 m v m1" "v \<noteq> 0" for v m1
  proof (rule sure_Lab [of P _ ?l7])
    show "surely k P Q (length (?p7 @ [Lab ?l7]), st, m1)"
    proof (rule performsD [OF body [OF v]])
      show "n < ?ls" if "n \<in> labels (?p7 @ [Lab ?l7])" for n using that lab lt [of n] le [of n] by auto
      show "surely k P Q (length ((?p7 @ [Lab ?l7]) @ ?cs), st, m2)" if "run \<nu> k s m1 m2" for m2
        by (rule sure_jump [OF _ f9 next9 [OF v that]]) (simp add: PA)
    qed (simp add: PA)
  qed (simp add: PA)
  have "surely k P Q (length (pre @ [Lab l4]), st, m)"
  proof (rule test_computes [OF core(1) safe])
    fix v m1 assume v: "opt_eval \<nu> k e2 m v m1"
    show "surely k P Q (length ((pre @ [Lab l4]) @ ?ct), v # st, m1)"
    proof (rule sure_B [OF _ f7])
      show "surely k P Q (length ?p7, st, m1)" if "v \<noteq> 0" by (rule turn [OF v that])
      assume z: "v = 0"
      show "surely k P Q (length (((pre @ [Lab l4]) @ ?ct) @ [?B]), st, m1)"
        by (rule sure_jump [OF _ fl stop [OF v [unfolded z]]]) (simp add: PA)
    qed (simp add: PA)
  qed (use lab in \<open>auto simp: PA less_Suc_eq\<close>)
  then show "surely k P Q (length pre, st, m)" by - (rule sure_Lab [of P _ l4], simp_all add: PA)
qed

lemma if_performs:
  assumes e: "core_expr e" and safe: "safe \<nu> k e m"
    and s: "\<And>v m1. eval \<nu> k e m v m1 \<Longrightarrow> v \<noteq> 0 \<Longrightarrow> performs (scode \<nu> s) k (run \<nu> k s) m1"
  shows "performs (scode \<nu> (If e nl s)) k (run \<nu> k (If e nl s)) m"
  unfolding performs_def
proof (intro allI impI)
  fix l P Q pre post st
  assume P: "P = pre @ scode \<nu> (If e nl s) l @ post" and lab: "\<forall>n \<in> labels pre. n < l"
    and Q: "\<forall>m1. run \<nu> k (If e nl s) m m1 \<longrightarrow> surely k P Q (length (pre @ scode \<nu> (If e nl s) l), st, m1)"
  let ?l1 = "l + label_count e" let ?ce = "ecode \<nu> e l" and ?cs = "scode \<nu> s (Suc ?l1)" and ?Z = "Jmp (CHR ''Z'') ?l1"
  let ?p1 = "pre @ ?ce @ [?Z]" let ?p2 = "?p1 @ ?cs"
  have PA: "P = pre @ ?ce @ [?Z] @ ?cs @ [Lab ?l1] @ post" by (simp add: P Let_def)
  note l1 = ecode_labels [of _ \<nu> e l] and l2 = scode_labels(1) [of _ \<nu> s "Suc ?l1"]
  have "?l1 \<notin> labels ?p2" using lab l1 [of ?l1] l2 [of ?l1] by fastforce
  then have j: "find_label P ?l1 = Some (length ?p2)" by (intro find_label_at [where ys = post]) (simp add: PA)
  have fin: "surely k P Q (length ?p2, st, m1)" if "run \<nu> k (If e nl s) m m1" for m1
    by (rule sure_Lab [of P _ ?l1 post]) (use Q that in \<open>simp_all add: PA Let_def\<close>)
  show "surely k P Q (length pre, st, m)"
  proof (rule computesD [OF ecode_computes [OF e]])
    fix v m1 assume v: "eval \<nu> k e m v m1"
    show "surely k P Q (length (pre @ ?ce), v # st, m1)"
    proof (rule sure_Z [OF _ j])
      show "surely k P Q (length ?p2, st, m1)" if "v = 0" using fin run_if_false v that by blast
      assume nz: "v \<noteq> 0"
      have "surely k P Q (length ?p1, st, m1)"
      proof (rule performsD [OF s [OF v nz]])
        show "n < Suc ?l1" if "n \<in> labels ?p1" for n using that lab l1 [of n] by fastforce
        show "surely k P Q (length (?p1 @ ?cs), st, m2)" if "run \<nu> k s m1 m2" for m2 using fin [OF run_if [OF v nz that]] by simp
      qed (simp add: PA)
      then show "surely k P Q (length ((pre @ ?ce) @ [?Z]), st, m1)" by simp
    qed (simp add: PA)
  qed (use safe lab in \<open>simp_all add: PA\<close>)
qed

lemma if_else_performs:
  assumes e: "core_expr e" and safe: "safe \<nu> k e m"
    and s1: "\<And>v m1. eval \<nu> k e m v m1 \<Longrightarrow> v \<noteq> 0 \<Longrightarrow> performs (scode \<nu> s1) k (run \<nu> k s1) m1"
    and s2: "\<And>m1. eval \<nu> k e m 0 m1 \<Longrightarrow> performs (scode \<nu> s2) k (run \<nu> k s2) m1"
  shows "performs (scode \<nu> (If_else e nl s1 nl2 s2)) k (run \<nu> k (If_else e nl s1 nl2 s2)) m"
  unfolding performs_def
proof (intro allI impI)
  fix l P Q pre post st
  let ?t = "If_else e nl s1 nl2 s2"
  assume P: "P = pre @ scode \<nu> ?t l @ post" and lab: "\<forall>n \<in> labels pre. n < l"
    and Q: "\<forall>m1. run \<nu> k ?t m m1 \<longrightarrow> surely k P Q (length (pre @ scode \<nu> ?t l), st, m1)"
  let ?l1 = "l + label_count e" let ?l2 = "Suc ?l1 + stmt_count s1"
  let ?ce = "ecode \<nu> e l" and ?c1 = "scode \<nu> s1 (Suc ?l1)" and ?c2 = "scode \<nu> s2 (Suc ?l2)" and ?Z = "Jmp (CHR ''Z'') ?l1" and ?J = "Jmp (CHR ''J'') ?l2"
  let ?p1 = "pre @ ?ce @ [?Z]" let ?p2 = "?p1 @ ?c1 @ [?J]" let ?p3 = "?p2 @ [Lab ?l1] @ ?c2"
  have PA: "P = pre @ ?ce @ [?Z] @ ?c1 @ [?J, Lab ?l1] @ ?c2 @ [Lab ?l2] @ post" by (simp add: P Let_def)
  note le = ecode_labels [of _ \<nu> e l] and lc1 = scode_labels(1) [of _ \<nu> s1 "Suc ?l1"] and lc2 = scode_labels(1) [of _ \<nu> s2 "Suc ?l2"]
  have "?l1 \<notin> labels ?p2" using lab le [of ?l1] lc1 [of ?l1] by fastforce
  then have j1: "find_label P ?l1 = Some (length ?p2)" by (intro find_label_at [where ys = "?c2 @ [Lab ?l2] @ post"]) (simp add: PA)
  have "?l2 \<notin> labels ?p3" using lab le [of ?l2] lc1 [of ?l2] lc2 [of ?l2] by fastforce
  then have j2: "find_label P ?l2 = Some (length ?p3)" by (intro find_label_at [where ys = post]) (simp add: PA)
  have fin: "surely k P Q (length ?p3, st, m1)" if "run \<nu> k ?t m m1" for m1
    by (rule sure_Lab [of P _ ?l2 post]) (use Q that in \<open>simp_all add: PA Let_def\<close>)
  show "surely k P Q (length pre, st, m)"
  proof (rule computesD [OF ecode_computes [OF e]])
    fix v m1 assume v: "eval \<nu> k e m v m1"
    show "surely k P Q (length (pre @ ?ce), v # st, m1)"
    proof (rule sure_Z [OF _ j1])
      assume z: "v = 0"
      show "surely k P Q (length ?p2, st, m1)"
      proof (rule sure_Lab [of P _ ?l1])
        show "surely k P Q (length (?p2 @ [Lab ?l1]), st, m1)"
        proof (rule performsD [OF s2 [OF v [unfolded z]]])
          show "n < Suc ?l2" if "n \<in> labels (?p2 @ [Lab ?l1])" for n using that lab le [of n] lc1 [of n] by fastforce
          show "surely k P Q (length ((?p2 @ [Lab ?l1]) @ ?c2), st, m2)" if "run \<nu> k s2 m1 m2" for m2
            using fin [OF run_else [OF v [unfolded z] that]] by simp
        qed (simp add: PA)
      qed (simp add: PA)
    next
      assume nz: "v \<noteq> 0"
      have "surely k P Q (length ?p1, st, m1)"
      proof (rule performsD [OF s1 [OF v nz]])
        show "n < Suc ?l1" if "n \<in> labels ?p1" for n using that lab le [of n] by fastforce
        show "surely k P Q (length (?p1 @ ?c1), st, m2)" if "run \<nu> k s1 m1 m2" for m2
          by (rule sure_jump [OF _ j2 fin [OF run_then [OF v nz that]]]) (simp add: PA)
      qed (simp add: PA)
      then show "surely k P Q (length ((pre @ ?ce) @ [?Z]), st, m1)" by simp
    qed (simp add: PA)
  qed (use safe lab in \<open>simp_all add: PA\<close>)
qed

lemma performs_seq:
  assumes a: "performs c1 k r1 m" and b: "\<And>m1. r1 m m1 \<Longrightarrow> performs c2 k r2 m1"
    and code: "\<And>l. c l = c1 l @ c2 (l + n1)" and labs: "\<And>l n. n \<in> labels (c1 l) \<Longrightarrow> n < l + n1"
    and sem: "\<And>m1 m2. r1 m m1 \<Longrightarrow> r2 m1 m2 \<Longrightarrow> r m m2"
  shows "performs c k r m"
  unfolding performs_def
proof (intro allI impI)
  fix l P Q pre post st
  assume P: "P = pre @ c l @ post" and lab: "\<forall>n \<in> labels pre. n < l" and Q: "\<forall>m1. r m m1 \<longrightarrow> surely k P Q (length (pre @ c l), st, m1)"
  show "surely k P Q (length pre, st, m)"
  proof (rule performsD [OF a])
    fix m1 assume r1: "r1 m m1"
    show "surely k P Q (length (pre @ c1 l), st, m1)"
    proof (rule performsD [OF b [OF r1]])
      show "surely k P Q (length ((pre @ c1 l) @ c2 (l + n1)), st, m2)" if "r2 m1 m2" for m2 using Q sem [OF r1 that] by (simp add: code)
    qed (use lab labs in \<open>auto simp: P code intro: trans_less_add1\<close>)
  qed (use lab in \<open>simp_all add: P code\<close>)
qed

lemma performs_weaken:
  assumes "performs c k r m" and "\<And>l. c' l = c l" and "\<And>m1. r m m1 \<Longrightarrow> r' m m1"
  shows "performs c' k r' m"
  using assms unfolding performs_def by metis

lemma scode_performs:
  "ends \<nu> k s m \<Longrightarrow> core_stmt s \<longrightarrow> performs (scode \<nu> s) k (run \<nu> k s) m"
  "ends_list \<nu> k ss m \<Longrightarrow> core_list ss \<longrightarrow> performs (list_code \<nu> ss) k (run_list \<nu> k ss) m"
  "ends_loop \<nu> k e2 e3 s m \<Longrightarrow> core_opt e2 \<and> core_opt e3 \<and> core_stmt s \<longrightarrow> for_performs \<nu> k e2 e3 s m
     \<and> (\<forall>e nl. e2 = Some e \<longrightarrow> e3 = None \<longrightarrow> performs (scode \<nu> (While e nl s)) k (run_loop \<nu> k e2 e3 s) m)"
proof (induction rule: ends_ends_list_ends_loop.inducts)
  case (ends_expression e m)
  show ?case
  proof
    assume c: "core_stmt (Expression e)"
    then have "core_expr e" by (cases e) auto
    then have "performs (effect_code \<nu> (Some e)) k (\<lambda>m m1. \<exists>v. opt_eval \<nu> k (Some e) m v m1) m"
      using ends_expression by (intro effect_performs) (simp_all add: opt_safe_def)
    then show "performs (scode \<nu> (Expression e)) k (run \<nu> k (Expression e)) m"
      by (rule performs_weaken) (auto simp: opt_eval_def intro: run_expression)
  qed
next
  case (ends_if e m s nl)
  then show ?case using if_performs [of e \<nu> k m s nl] by (simp del: scode.simps)
next
  case (ends_if_else e m s1 s2 nl nl2)
  then show ?case using if_else_performs [of e \<nu> k m s1 s2 nl nl2] by (simp del: scode.simps)
next
  case (ends_while e s m nl)
  show ?case
  proof
    assume "core_stmt (While e nl s)"
    then have "performs (scode \<nu> (While e nl s)) k (run_loop \<nu> k (Some e) None s) m" using ends_while.IH by (simp del: scode.simps)
    then show "performs (scode \<nu> (While e nl s)) k (run \<nu> k (While e nl s)) m" by (rule performs_weaken) (simp_all add: run_while)
  qed
next
  case (ends_for e1 m e2 e3 s nl)
  show ?case
  proof
    assume c: "core_stmt (For e1 e2 e3 nl s)"
    have tail: "for_performs \<nu> k e2 e3 s m1" if "opt_eval \<nu> k e1 m v m1" for v m1 using ends_for(3) [OF that] c by simp
    note eff = effect_performs [of e1 \<nu> k m]
    show "performs (scode \<nu> (For e1 e2 e3 nl s)) k (run \<nu> k (For e1 e2 e3 nl s)) m"
      unfolding performs_def
    proof (intro allI impI)
      fix l P Q pre post st
      assume P: "P = pre @ scode \<nu> (For e1 e2 e3 nl s) l @ post" and lab: "\<forall>n \<in> labels pre. n < l"
        and Q: "\<forall>m1. run \<nu> k (For e1 e2 e3 nl s) m m1 \<longrightarrow> surely k P Q (length (pre @ scode \<nu> (For e1 e2 e3 nl s) l), st, m1)"
      let ?c1 = "effect_code \<nu> e1 (Suc l)"
      show "surely k P Q (length pre, st, m)"
      proof (rule performsD [OF eff])
        fix m1 assume "\<exists>v. opt_eval \<nu> k e1 m v m1"
        then obtain v where v: "opt_eval \<nu> k e1 m v m1" by blast
        show "surely k P Q (length (pre @ ?c1), st, m1)"
        proof (rule for_performsD [OF tail [OF v]])
          show "P = (pre @ ?c1) @ for_tail \<nu> e2 e3 s l (Suc l + opt_count e1) @ post" using P by (simp only: scode_for append_assoc)
          show "l \<notin> labels (pre @ ?c1)" using lab effect_labels [of l \<nu> e1 "Suc l"] by auto
          show "n < Suc l + opt_count e1" if "n \<in> labels (pre @ ?c1)" for n using that lab effect_labels [of n \<nu> e1 "Suc l"] by fastforce
          show "surely k P Q (length ((pre @ ?c1) @ for_tail \<nu> e2 e3 s l (Suc l + opt_count e1)), st, m2)" if "run_loop \<nu> k e2 e3 s m1 m2" for m2
            using Q run_for [OF v that] by (simp only: scode_for append_assoc)
        qed simp
      next
        show "P = pre @ ?c1 @ for_tail \<nu> e2 e3 s l (Suc l + opt_count e1) @ post" using P by (simp only: scode_for append_assoc)
      qed (use c ends_for(1) lab in \<open>auto simp: less_Suc_eq\<close>)
    qed
  qed
next
  case (ends_block ss m)
  show ?case
  proof
    assume "core_stmt (Block ss)"
    then have "performs (list_code \<nu> ss) k (run_list \<nu> k ss) m" using ends_block.IH by simp
    then show "performs (scode \<nu> (Block ss)) k (run \<nu> k (Block ss)) m" by (rule performs_weaken) (simp_all add: run_block)
  qed
next
  case (ends_nil m)
  show ?case using run_nil by (simp add: performs_def)
next
  case (ends_cons s m ss)
  show ?case
  proof
    assume c: "core_list (s # ss)"
    show "performs (list_code \<nu> (s # ss)) k (run_list \<nu> k (s # ss)) m"
    proof (rule performs_seq [where ?n1.0 = "stmt_count s"])
      show "performs (scode \<nu> s) k (run \<nu> k s) m" using ends_cons c by simp
      show "performs (list_code \<nu> ss) k (run_list \<nu> k ss) m1" if "run \<nu> k s m m1" for m1 using ends_cons that c by simp
    qed (use scode_labels(1) run_cons in auto)
  qed
next
  case (ends_turn e2 m s e3)
  show ?case
  proof (intro impI conjI allI)
    assume c: "core_opt e2 \<and> core_opt e3 \<and> core_stmt s"
    show "for_performs \<nu> k e2 e3 s m"
      by (rule for_turn) (use ends_turn c in blast)+
    fix e nl assume e: "e2 = Some e" "e3 = None"
    have ev: "opt_eval \<nu> k e2 m v m1 = eval \<nu> k e m v m1" for m v m1 by (simp add: e opt_eval_def)
    have "performs (scode \<nu> (While e nl s)) k (run_loop \<nu> k (Some e) None s) m"
    proof (rule while_turn)
      show "performs (scode \<nu> s) k (run \<nu> k s) m1" if "eval \<nu> k e m v m1" "v \<noteq> 0" for v m1 using ends_turn that c by (auto simp: ev)
      show "performs (scode \<nu> (While e nl s)) k (run_loop \<nu> k (Some e) None s) m2" if "eval \<nu> k e m v m1" "v \<noteq> 0" "run \<nu> k s m1 m2" for v m1 m2
        using ends_turn that c e by (auto simp: ev opt_eval_def simp del: scode.simps)
    qed (use c ends_turn(1) e in \<open>simp_all add: opt_safe_def\<close>)
    then show "performs (scode \<nu> (While e nl s)) k (run_loop \<nu> k e2 e3 s) m" by (simp only: e)
  qed
qed

end
