(* ===== verification/BcActions.thy ===== *)
theory BcActions
  imports BcStmt
begin

text \<open>
  The actions of the grammar generate the items of the statements: what the parser, the loader and the machine share while a main
  program is compiled, each action as a step of this, and then expressions, statements, and a whole input item that is compiled and run.
\<close>

section \<open>The parser while it compiles\<close>

text \<open>A numbering of the variables that agrees with the name tree, and the variables that code may use.\<close>

definition agrees :: "(string \<Rightarrow> nat) \<Rightarrow> parser \<Rightarrow> bool" where
  "agrees \<nu> p \<longleftrightarrow> (\<forall>x. number_of SIMPLE p x \<noteq> 0 \<longrightarrow> \<nu> x = nat (number_of SIMPLE p x))"

definition usable :: "bc_state \<Rightarrow> nat set" where
  "usable m = {v. 3 < v \<and> v < 32768 \<and> var_live v m}"

text \<open>The code so far may mention variables, by the numbers of the numbering.\<close>

type_synonym code = "(string \<Rightarrow> nat) \<Rightarrow> item list"

definition code_ok :: "item list \<Rightarrow> parser \<Rightarrow> bool" where
  "code_ok P p \<longleftrightarrow> holds_code P (ld p) \<and> (\<forall>n \<in> labels P. int n < next_label p)
     \<and> (\<forall>it \<in> set P. valid_item (usable (machine (ld p))) it) \<and> (P \<noteq> [] \<longrightarrow> did_gen p)"

definition vars_numbered :: "parser \<Rightarrow> bool" where
  "vars_numbered p \<longleftrightarrow> 5 \<le> next_var p \<and> next_var p \<le> 32768 \<and> (\<forall>x. number_of SIMPLE p x \<noteq> 0 \<longrightarrow> 5 \<le> number_of SIMPLE p x)
     \<and> dom (variables (machine (ld p))) = {3..<v_count (machine (ld p))} \<and> (\<forall>v. variables (machine (ld p)) v \<noteq> Some Var_junk)"

definition compiling :: "code \<Rightarrow> parser \<Rightarrow> bool" where
  "compiling P p \<longleftrightarrow> (\<forall>\<nu>. agrees \<nu> p \<longrightarrow> code_ok (P \<nu>) p) \<and> names_ok p \<and> vars_numbered p
     \<and> \<not> compile_only (machine (ld p)) \<and> \<not> std_only (machine (ld p)) \<and> 64 \<le> genlen p \<and> 1 \<le> next_label p"

text \<open>What the actions do to the rest: labels and numbers are used up, the table of variables may grow.\<close>

definition grown :: "bc_state \<Rightarrow> bc_state \<Rightarrow> bool" where
  "grown m m' \<longleftrightarrow> ex_stack m' = ex_stack m \<and> fn_stack m' = fn_stack m \<and> i_base m' = i_base m \<and> o_base m' = o_base m \<and> scale m' = scale m
     \<and> arrays m' = arrays m \<and> a_heap m' = a_heap m \<and> stdout_chars m' = stdout_chars m
     \<and> snd (rats m') = snd (rats m) \<and> (vars_ok m \<longrightarrow> vars_ok m') \<and> (\<forall>v. 3 \<le> v \<longrightarrow> var_live v m \<longrightarrow> var_live v m')"

definition later :: "nat \<Rightarrow> nat \<Rightarrow> parser \<Rightarrow> parser \<Rightarrow> bool" where
  "later n c p p' \<longleftrightarrow> (\<forall>x. number_of SIMPLE p x \<noteq> 0 \<longrightarrow> number_of SIMPLE p' x = number_of SIMPLE p x)
     \<and> next_label p' = next_label p + int n \<and> next_var p' \<le> next_var p + int c \<and> grown (machine (ld p)) (machine (ld p'))"

definition marks :: "parser \<Rightarrow> int \<times> int \<times> int" where
  "marks p = (break_label p, continue_label p, if_label p)"

lemma grown_refl [simp]: "grown m m"
  by (simp add: grown_def)

lemma grown_trans: "grown m m1 \<Longrightarrow> grown m1 m2 \<Longrightarrow> grown m m2"
  by (simp add: grown_def)

lemma grown_usable: "grown m m' \<Longrightarrow> usable m \<subseteq> usable m'"
  by (auto simp: grown_def usable_def)

lemma later_refl: "later 0 0 p p"
  by (simp add: later_def)

lemma later_trans: "later n c p p1 \<Longrightarrow> later n' c' p1 p2 \<Longrightarrow> later (n + n') (c + c') p p2"
  using grown_trans by (fastforce simp: later_def)

lemma later_agrees: "later n c p p' \<Longrightarrow> agrees \<nu> p' \<Longrightarrow> agrees \<nu> p"
  by (fastforce simp: later_def agrees_def)

text \<open>A numbering that agrees always exists.\<close>

lemma agrees_numbers: "agrees (\<lambda>x. nat (number_of SIMPLE p x)) p"
  by (simp add: agrees_def)

lemma compiling_run: "compiling P p \<Longrightarrow> exited (machine (ld p)) = None"
proof -
  assume "compiling P p"
  then have "code_ok (P (\<lambda>x. nat (number_of SIMPLE p x))) p" using agrees_numbers by (simp add: compiling_def)
  then show ?thesis by (simp add: code_ok_def holds_code_def plain_def)
qed

lemma valid_item_mono: "valid_item V it \<Longrightarrow> V \<subseteq> W \<Longrightarrow> valid_item W it"
  by (cases it) auto

section \<open>Steps that generate code\<close>

lemma long_str_length: "n < 100000 \<Longrightarrow> length (long_str (int n)) \<le> 5"
  using dec_str_length [of n 5] by (simp add: long_str_def)

lemma item_text_length: "valid_item {v. v < 32768} it \<Longrightarrow> (\<forall>ds fs. it \<noteq> I (Num ds fs)) \<Longrightarrow> length (item_text it) \<le> 7"
proof (cases it)
  case (I i)
  then show "valid_item {v. v < 32768} it \<Longrightarrow> \<forall>ds fs. it \<noteq> I (Num ds fs) \<Longrightarrow> length (item_text it) \<le> 7"
    using long_str_length by (cases i) (auto intro: order_trans)
qed (use long_str_length in \<open>auto intro: order_trans\<close>)

lemma items_text_length:
  "\<forall>it \<in> set its. valid_item {v. v < 32768} it \<Longrightarrow> \<forall>it \<in> set its. \<forall>ds fs. it \<noteq> I (Num ds fs) \<Longrightarrow> length (items_text its) \<le> 7 * length its"
proof (induction its)
  case (Cons it its)
  then show ?case using item_text_length [of it] by simp
qed simp

lemma same_loaderD:
  assumes "same_loader l l'"
  shows "grown (machine l) (machine l')" "v_count (machine l') = v_count (machine l)" "a_count (machine l') = a_count (machine l)"
    "f_count (machine l') = f_count (machine l)" "usable (machine l') = usable (machine l)" "variables (machine l') = variables (machine l)"
    "compile_only (machine l') = compile_only (machine l)" "std_only (machine l') = std_only (machine l)"
  using assms unfolding same_loader_def by (elim exE, hypsubst, simp add: grown_def rats_def var_val_def vars_ok_def var_live_def usable_def)+

text \<open>Generating a text that is the text of items.\<close>

lemma gen_items:
  assumes c: "compiling P p" and tx: "\<And>\<nu>. agrees \<nu> p \<Longrightarrow> items_text (its \<nu>) = str" and len: "length str < 64"
    and its: "\<And>\<nu> it. agrees \<nu> p \<Longrightarrow> it \<in> set (its \<nu>) \<Longrightarrow> valid_item (usable (machine (ld p))) it"
    and labs: "\<And>\<nu> n. agrees \<nu> p \<Longrightarrow> n \<in> labels (its \<nu>) \<Longrightarrow> n \<notin> labels (P \<nu>) \<and> int n < next_label p"
    and dist: "\<And>\<nu>. agrees \<nu> p \<Longrightarrow> distinct (filter (\<lambda>it. \<exists>n. it = Lab n) (its \<nu>))"
  shows "\<exists>p'. gen str p = Some p' \<and> genf str p = Some p' \<and> compiling (\<lambda>\<nu>. P \<nu> @ its \<nu>) p' \<and> later 0 0 p p' \<and> marks p' = marks p"
proof -
  let ?\<nu> = "\<lambda>x. nat (number_of SIMPLE p x)"
  have ok: "code_ok (P \<nu>) p" if "agrees \<nu> p" for \<nu> using c that by (simp add: compiling_def)
  have one: "\<exists>l'. load_code str (ld p) = Some l' \<and> holds_code (P \<nu> @ its \<nu>) l' \<and> same_loader (ld p) l'" if a: "agrees \<nu> p" for \<nu>
  proof -
    have h: "holds_code (P \<nu>) (ld p)" using ok [OF a] by (simp add: code_ok_def)
    have v: "\<forall>it \<in> set (its \<nu>). valid_item {v. v < 32768} it" using its [OF a] by (auto simp: usable_def intro: valid_item_mono)
    have d: "labels (P \<nu>) \<inter> labels (its \<nu>) = {}" using labs [OF a] by blast
    show ?thesis using load_items [OF h v d dist [OF a], of "[]"] tx [OF a] by (simp add: load_code.simps)
  qed
  obtain l' where l': "load_code str (ld p) = Some l'" "same_loader (ld p) l'" using one [OF agrees_numbers] by blast
  let ?p = "p\<lparr>did_gen := True, ld := l'\<rparr>"
  note s = same_loaderD [OF l'(2)]
  have g: "gen str p = Some ?p" using compiling_run [OF c] l'(1) c by (simp add: gen_def generate_def compiling_def Let_def)
  moreover have "64 \<le> genlen p" using c by (simp add: compiling_def)
  then have "take (genlen p - 1) str = str" using len by simp
  then have "genf str p = Some ?p" using g by (simp add: genf_def)
  moreover have num: "number_of k ?p x = number_of k p x" "agrees \<nu> ?p = agrees \<nu> p" "library_left ?p = library_left p" "next_of k ?p = next_of k p" for k x \<nu>
    by (cases k; simp add: number_of_def agrees_def library_left_def)+
  have "code_ok (P \<nu> @ its \<nu>) ?p" if a: "agrees \<nu> p" for \<nu>
    using ok [OF a] one [OF a] l'(1) its [OF a] labs [OF a] s(5) by (auto simp: code_ok_def)
  then have "compiling (\<lambda>\<nu>. P \<nu> @ its \<nu>) ?p"
    using c s num by (simp add: compiling_def names_ok_def numbers_ok_def tables_ok_def vars_numbered_def)
  moreover have "later 0 0 p ?p" using s(1) num(1) by (simp add: later_def)
  moreover have "marks ?p = marks p" by (simp add: marks_def)
  ultimately show ?thesis by blast
qed

text \<open>What an action has done: generated items, and used up labels and numbers.\<close>

definition compiled :: "code \<Rightarrow> parser \<Rightarrow> parser \<Rightarrow> code \<Rightarrow> nat \<Rightarrow> nat \<Rightarrow> bool" where
  "compiled P p p' C n c \<longleftrightarrow> compiling (\<lambda>\<nu>. P \<nu> @ C \<nu>) p' \<and> later n c p p' \<and> marks p' = marks p"

lemma compiledD:
  assumes "compiled P p p' C n c"
  shows "compiling (\<lambda>\<nu>. P \<nu> @ C \<nu>) p'" "next_label p' = next_label p + int n" "next_var p' \<le> next_var p + int c"
    "agrees \<nu> p' \<Longrightarrow> agrees \<nu> p" "later n c p p'" "marks p' = marks p"
  using assms later_agrees by (auto simp: compiled_def later_def)

lemma compiled_trans:
  "compiled P p p1 C1 n1 c1 \<Longrightarrow> compiled (\<lambda>\<nu>. P \<nu> @ C1 \<nu>) p1 p2 C2 n2 c2 \<Longrightarrow> compiled P p p2 (\<lambda>\<nu>. C1 \<nu> @ C2 \<nu>) (n1 + n2) (c1 + c2)"
  unfolding compiled_def by (auto intro: later_trans)

lemma compiling_cong: "compiling P p \<Longrightarrow> (\<And>\<nu>. agrees \<nu> p \<Longrightarrow> P \<nu> = P' \<nu>) \<Longrightarrow> compiling P' p"
  by (simp add: compiling_def)

lemma compiled_cong:
  assumes "compiled P p p' C n c" and "\<And>\<nu>. agrees \<nu> p' \<Longrightarrow> C \<nu> = C' \<nu>" and "n = n'" and "c \<le> c'"
  shows "compiled P p p' C' n' c'"
  using assms compiling_cong [of "\<lambda>\<nu>. P \<nu> @ C \<nu>" p' "\<lambda>\<nu>. P \<nu> @ C' \<nu>"] by (auto simp: compiled_def later_def)

text \<open>A label that has been given out and not been defined yet.\<close>

definition pending :: "nat \<Rightarrow> code \<Rightarrow> parser \<Rightarrow> bool" where
  "pending n P p \<longleftrightarrow> int n < next_label p \<and> (\<forall>\<nu>. agrees \<nu> p \<longrightarrow> n \<notin> labels (P \<nu>))"

lemma pending_compiled:
  assumes "pending n P p" and "compiled P p p' C k c" and "\<And>\<nu>. n \<notin> labels (C \<nu>)"
  shows "pending n (\<lambda>\<nu>. P \<nu> @ C \<nu>) p'"
  using assms compiledD(2,4) [OF assms(2)] by (auto simp: pending_def)

lemma gen_short:
  assumes c: "compiling P p" and tx: "items_text its = str" and len: "length its \<le> 9"
    and its: "\<And>it. it \<in> set its \<Longrightarrow> valid_item (usable (machine (ld p))) it \<and> (\<forall>ds fs. it \<noteq> I (Num ds fs))"
    and labs: "\<And>n. n \<in> labels its \<Longrightarrow> pending n P p" and dist: "distinct (filter (\<lambda>it. \<exists>n. it = Lab n) its)"
  shows "\<exists>p'. gen str p = Some p' \<and> genf str p = Some p' \<and> compiled P p p' (\<lambda>\<nu>. its) 0 0 \<and> usable (machine (ld p)) \<subseteq> usable (machine (ld p'))"
proof -
  have "valid_item {v. v < 32768} it" if "it \<in> set its" for it
    by (rule valid_item_mono) (use its [OF that] in \<open>auto simp: usable_def\<close>)
  then have "length (items_text its) \<le> 7 * length its" using its by (intro items_text_length) auto
  then have "length str < 64" using len unfolding tx by linarith
  then obtain p' where p': "gen str p = Some p'" "genf str p = Some p'" "compiling (\<lambda>\<nu>. P \<nu> @ its) p'" "later 0 0 p p'" "marks p' = marks p"
    using gen_items [OF c, of "\<lambda>\<nu>. its" str] tx its labs dist by (auto simp: pending_def)
  then show ?thesis using grown_usable by (auto simp: compiled_def later_def)
qed

text \<open>Warnings, errors that are not there, and new labels.\<close>

lemma warn_on_compiled: "compiling P p \<Longrightarrow> compiled P p (warn_on b mesg p) (\<lambda>\<nu>. []) 0 0"
proof -
  assume c: "compiling P p"
  let ?p = "warn_on b mesg p"
  have std: "\<not> std_only (machine (ld p))" using c by (simp add: compiling_def)
  have sel: "machine (ld ?p) = machine (ld p)" "holds_code Q (ld ?p) = holds_code Q (ld p)" "name_tree ?p = name_tree p" "next_label ?p = next_label p"
    "next_var ?p = next_var p" "next_func ?p = next_func p" "next_array ?p = next_array p" "genlen ?p = genlen p" "did_gen ?p = did_gen p" "marks ?p = marks p" for Q
    using std by (auto simp: warn_on_def ct_warn_def holds_code_def plain_def marks_def)
  have num: "number_of k ?p x = number_of k p x" "agrees \<nu> ?p = agrees \<nu> p" "library_left ?p = library_left p" "next_of k ?p = next_of k p" for k x \<nu>
    by (cases k; simp add: number_of_def agrees_def library_left_def sel)+
  have "compiling P ?p" using c
    by (simp add: compiling_def code_ok_def names_ok_def numbers_ok_def tables_ok_def vars_numbered_def sel num)
  then show ?thesis by (simp add: compiled_def later_def sel num)
qed

lemma error_off [simp]: "error_on False mesg p = p"
  by (simp add: error_on_def)

lemma new_label_compiled:
  assumes c: "compiling P p" and "next_label p < 65536"
  shows "\<exists>p'. new_label p = Some (next_label p, p') \<and> compiled P p p' (\<lambda>\<nu>. []) 1 0 \<and> pending (nat (next_label p)) P p'"
proof -
  let ?p = "p\<lparr>next_label := next_label p + 1\<rparr>"
  have num: "number_of k ?p x = number_of k p x" "agrees \<nu> ?p = agrees \<nu> p" "library_left ?p = library_left p" "next_of k ?p = next_of k p" for k x \<nu>
    by (cases k; simp add: number_of_def agrees_def library_left_def)+
  have pos: "1 \<le> next_label p" using c by (simp add: compiling_def)
  have "code_ok Q p \<Longrightarrow> code_ok Q ?p" for Q by (auto simp: code_ok_def)
  then have "compiling P ?p" using c
    by (simp add: compiling_def names_ok_def numbers_ok_def tables_ok_def vars_numbered_def num)
  moreover have "nat (next_label p) \<notin> labels (P \<nu>)" if "agrees \<nu> p" for \<nu>
  proof -
    have "\<forall>n \<in> labels (P \<nu>). int n < next_label p" using c that by (simp add: compiling_def code_ok_def)
    then show ?thesis using pos by (metis int_nat_eq less_irrefl nat_0_le order_trans zero_le_one)
  qed
  then have "pending (nat (next_label p)) P ?p" using pos by (simp add: pending_def num)
  ultimately show ?thesis using assms(2) by (simp add: new_label_def INT_MAX_def compiled_def later_def num marks_def)
qed

text \<open>The number of a variable, old or new.\<close>

lemma number_usable:
  assumes "names_ok p" and "vars_numbered p" and "number_of SIMPLE p x \<noteq> 0"
  shows "nat (number_of SIMPLE p x) \<in> usable (machine (ld p))" "5 \<le> number_of SIMPLE p x"
proof -
  have "number_of SIMPLE p x < next_of SIMPLE p" using assms(1) unfolding names_ok_def numbers_ok_def by blast
  moreover have "next_var p \<le> v_count (machine (ld p))" using assms(1) by (simp add: names_ok_def tables_ok_def)
  moreover show "5 \<le> number_of SIMPLE p x" using assms(2,3) by (simp add: vars_numbered_def)
  ultimately have "nat (number_of SIMPLE p x) \<in> {3..<v_count (machine (ld p))}" "nat (number_of SIMPLE p x) < 32768" "3 < nat (number_of SIMPLE p x)"
    using assms(2) by (auto simp: vars_numbered_def)
  then have "nat (number_of SIMPLE p x) \<in> dom (variables (machine (ld p)))" using assms(2) by (simp only: vars_numbered_def)
  then show "nat (number_of SIMPLE p x) \<in> usable (machine (ld p))"
    using assms(2) \<open>3 < nat (number_of SIMPLE p x)\<close> \<open>nat (number_of SIMPLE p x) < 32768\<close> by (auto simp: usable_def var_live_def vars_numbered_def)
qed

text \<open>The parser state behind a lookup, and the machine with a larger table.\<close>

lemma lookup_simple_frame:
  assumes "lookup_simple name e p = Some (r, p')" and "next_var p \<le> 32767"
  shows "ld p' = (ld p)\<lparr>machine := (if v_name e = 0 \<and> v_count (machine (ld p)) \<le> next_var p then more_variables (machine (ld p)) else machine (ld p))
       \<lparr>v_names := v_names (machine (ld p'))\<rparr>\<rparr>"
    "next_var p \<le> next_var p'" "next_var p' \<le> next_var p + 1" "next_label p' = next_label p" "genlen p' = genlen p" "did_gen p' = did_gen p"
    "marks p' = marks p" "cur_func p' = cur_func p"
  using assms by (auto simp: lookup_simple_def marks_def Let_def split: if_splits bind_splits)

lemma more_variables_grown:
  assumes "dom (variables m) = {3..<v_count m}" and "\<forall>v. variables m v \<noteq> Some Var_junk"
  shows "grown m (more_variables m)" "dom (variables (more_variables m)) = {3..<v_count (more_variables m)}" "\<forall>v. variables (more_variables m) v \<noteq> Some Var_junk"
proof -
  have out: "variables m v = None \<longleftrightarrow> \<not> (3 \<le> v \<and> v < v_count m)" for v using assms(1) by (metis atLeastLessThan_iff domIff)
  have "bc_val (var_val (more_variables m) v) = bc_val (var_val m v)" for v
    using out [of v] by (auto simp: var_val_def more_variables_def Let_def split: option.splits)
  moreover have "vars_ok m \<Longrightarrow> vars_ok (more_variables m)" by (auto simp: vars_ok_def more_variables_def Let_def)
  moreover have "3 \<le> v \<Longrightarrow> var_live v m \<Longrightarrow> var_live v (more_variables m)" for v
    using out [of v] by (auto simp: var_live_def more_variables_def Let_def)
  ultimately show "grown m (more_variables m)" by (simp add: grown_def rats_def fun_eq_iff) (simp add: more_variables_def Let_def)
  show "\<forall>v. variables (more_variables m) v \<noteq> Some Var_junk" using assms(2) by (simp add: more_variables_def Let_def)
  show "dom (variables (more_variables m)) = {3..<v_count (more_variables m)}"
  proof (rule set_eqI)
    fix v
    have "variables (more_variables m) v = None \<longleftrightarrow> \<not> (3 \<le> v \<and> v < v_count (more_variables m))"
      using out [of v] by (simp add: more_variables_def Let_def)
    then show "v \<in> dom (variables (more_variables m)) \<longleftrightarrow> v \<in> {3..<v_count (more_variables m)}" by (simp add: domIff)
  qed
qed

lemma lookup_frame:
  assumes l: "lookup x SIMPLE p = Some (r, p')" and n: "next_var p \<le> 32767" and std: "\<not> std_only (machine (ld p))"
    and d: "dom (variables (machine (ld p))) = {3..<v_count (machine (ld p))}" "\<forall>v. variables (machine (ld p)) v \<noteq> Some Var_junk"
  shows "grown (machine (ld p)) (machine (ld p')) \<and> dom (variables (machine (ld p'))) = {3..<v_count (machine (ld p'))}
     \<and> (\<forall>v. variables (machine (ld p')) v \<noteq> Some Var_junk)"
    and "holds_code Q (ld p') = holds_code Q (ld p)" and "compile_only (machine (ld p')) = compile_only (machine (ld p))"
    and "std_only (machine (ld p')) = std_only (machine (ld p))"
    and "next_var p \<le> next_var p' \<and> next_var p' \<le> next_var p + 1 \<and> next_label p' = next_label p \<and> genlen p' = genlen p
       \<and> did_gen p' = did_gen p \<and> marks p' = marks p"
proof -
  let ?w = "if length x \<noteq> 1 then p\<lparr>ld := ct_warn (''multiple letter name - '' @ x) (ld p)\<rparr> else p"
  obtain t e where q: "lookup_simple x e (?w\<lparr>name_tree := t\<rparr>) = Some (r, p')"
    using l by (auto simp: lookup_def Let_def split: bind_splits)
  let ?q = "?w\<lparr>name_tree := t\<rparr>"
  have sel: "machine (ld ?q) = machine (ld p)" "next_var ?q = next_var p" "next_label ?q = next_label p" "genlen ?q = genlen p"
    "did_gen ?q = did_gen p" "marks ?q = marks p" "holds_code Q (ld ?q) = holds_code Q (ld p)" for Q
    using std by (auto simp: ct_warn_def holds_code_def plain_def marks_def)
  note f = lookup_simple_frame [OF q] 
  have nq: "next_var ?q \<le> 32767" using n sel(2) by simp
  let ?m = "if v_name e = 0 \<and> v_count (machine (ld p)) \<le> next_var p then more_variables (machine (ld p)) else machine (ld p)"
  have ld: "ld p' = (ld ?q)\<lparr>machine := ?m\<lparr>v_names := v_names (machine (ld p'))\<rparr>\<rparr>" using f(1) [OF nq] unfolding sel .
  obtain M where M: "M = ?m" by blast
  have m: "machine (ld p') = M\<lparr>v_names := v_names (machine (ld p'))\<rparr>" unfolding M by (subst ld) simp
  have names: "grown a (b\<lparr>v_names := vn\<rparr>) = grown a b" for a b vn by (simp add: grown_def rats_def var_val_def vars_ok_def var_live_def)
  have "grown (machine (ld p)) M \<and> dom (variables M) = {3..<v_count M} \<and> (\<forall>v. variables M v \<noteq> Some Var_junk)"
    using more_variables_grown [OF d] d by (simp add: M)
  then show "grown (machine (ld p)) (machine (ld p')) \<and> dom (variables (machine (ld p'))) = {3..<v_count (machine (ld p'))}
     \<and> (\<forall>v. variables (machine (ld p')) v \<noteq> Some Var_junk)" by (subst (1 2 3 4) m) (simp add: names)
  have "bc_functions ?m = bc_functions (machine (ld p))" "exited ?m = exited (machine (ld p))" by (simp_all add: more_variables_def Let_def)
  then show "holds_code Q (ld p') = holds_code Q (ld p)" unfolding sel(7) [symmetric] by (subst ld) (simp add: holds_code_def plain_def sel)
  show "compile_only (machine (ld p')) = compile_only (machine (ld p))" "std_only (machine (ld p')) = std_only (machine (ld p))"
    by (subst m, simp add: M more_variables_def Let_def)+
  show "next_var p \<le> next_var p' \<and> next_var p' \<le> next_var p + 1 \<and> next_label p' = next_label p \<and> genlen p' = genlen p
       \<and> did_gen p' = did_gen p \<and> marks p' = marks p" using f(2-7) [OF nq] unfolding sel by simp
qed

lemma find_number_compiled:
  assumes c: "compiling P p" and n: "next_var p \<le> 32767"
  shows "\<exists>v p'. find_number x SIMPLE p = Some (int v, p') \<and> compiled P p p' (\<lambda>\<nu>. []) 0 1 \<and> v \<in> usable (machine (ld p'))
     \<and> (\<forall>\<nu>. agrees \<nu> p' \<longrightarrow> \<nu> x = v)"
proof -
  have ok: "names_ok p" "vars_numbered p" and std: "\<not> std_only (machine (ld p))" using c by (simp_all add: compiling_def)
  obtain r p' where l: "lookup x SIMPLE p = Some (r, p')" "number_given x SIMPLE p r p'"
    using lookup_correct [OF ok(1), of SIMPLE x] n by (auto simp: INT_MAX_def)
  have d: "dom (variables (machine (ld p))) = {3..<v_count (machine (ld p))}" "\<forall>v. variables (machine (ld p)) v \<noteq> Some Var_junk"
    using ok(2) by (simp_all add: vars_numbered_def)
  note f = lookup_frame [OF l(1) n std d]
  let ?v = "if number_of SIMPLE p x = 0 then next_var p else number_of SIMPLE p x"
  have num: "r = Some ?v" "names_ok p'" "number_of SIMPLE p' y = (if y = x then ?v else number_of SIMPLE p y)" for y
  proof (atomize (full), cases "number_of SIMPLE p x = 0")
    case True
    then have "r = Some (next_var p) \<and> names_ok p' \<and> numbered SIMPLE x (next_var p) p p'"
      using l(2) n unfolding number_given_def redefines_def Let_def by simp
    then show "r = Some ?v \<and> names_ok p' \<and> number_of SIMPLE p' y = (if y = x then ?v else number_of SIMPLE p y)" using True by (simp add: numbered_def)
  next
    case False
    then have "r = Some (number_of SIMPLE p x) \<and> names_ok p' \<and> same_numbers p p'"
      using l(2) unfolding number_given_def redefines_def Let_def by simp
    then show "r = Some ?v \<and> names_ok p' \<and> number_of SIMPLE p' y = (if y = x then ?v else number_of SIMPLE p y)"
      using False by (simp add: same_numbersD)
  qed
  have v5: "5 \<le> ?v" using ok number_usable(2) by (auto simp: vars_numbered_def)
  have vn: "vars_numbered p'" using ok(2) n f(1,5) v5 num(3) by (auto simp: vars_numbered_def)
  have old: "number_of SIMPLE p y \<noteq> 0 \<Longrightarrow> number_of SIMPLE p' y = number_of SIMPLE p y" for y using num(3) [of y] by (cases "y = x") simp_all
  have lat: "later 0 1 p p'" using old f(1,5) by (simp add: later_def)
  have "code_ok (P \<nu>) p'" if "agrees \<nu> p'" for \<nu>
  proof -
    have "code_ok (P \<nu>) p" using c later_agrees [OF lat that] by (simp add: compiling_def)
    moreover have "usable (machine (ld p)) \<subseteq> usable (machine (ld p'))" using f(1) grown_usable by blast
    ultimately show ?thesis using f(2,5) valid_item_mono by (fastforce simp: code_ok_def)
  qed
  then have "compiling P p'" using c num(2) vn f(3-5) by (simp add: compiling_def)
  then have "compiled P p p' (\<lambda>\<nu>. []) 0 1" using lat f(5) by (simp add: compiled_def)
  moreover have x': "number_of SIMPLE p' x = ?v" using num(3) [of x] by simp
  then have nz: "number_of SIMPLE p' x \<noteq> 0" using v5 by simp
  note number_usable(1) [OF num(2) vn nz, unfolded x']
  moreover have "\<nu> x = nat ?v" if "agrees \<nu> p'" for \<nu>
  proof -
    have "\<nu> x = nat (number_of SIMPLE p' x)" using that nz by (simp add: agrees_def)
    then show ?thesis using x' by simp
  qed
  moreover have "find_number x SIMPLE p = Some (int (nat ?v), p')" using l(1) num(1) compiling_run [OF c] v5 by (simp add: find_number_def)
  ultimately show ?thesis by blast
qed

section \<open>Constants\<close>

text \<open>A constant comes to the loader in three pieces.\<close>

lemma loading_compile: "loading l0 func f0 bytes l \<Longrightarrow> compile_only (machine l) = compile_only (machine l0)"
proof -
  assume "loading l0 func f0 bytes l"
  then obtain body where l: "l = l0\<lparr>machine := (machine l0)\<lparr>bc_functions := (bc_functions (machine l0))(func \<mapsto> f0\<lparr>f_body := body, f_code_size := length bytes\<rparr>)\<rparr>,
          load_adr := \<lparr>pc_func = func, pc_addr = length bytes\<rparr>, load_str := load_str l, load_const := load_const l\<rparr>"
    by (auto simp: loading_def)
  show ?thesis by (subst l) simp
qed

lemma number_load:
  assumes h: "holds_code P l" and v: "stack_use (Num ds fs) \<noteq> None" and s: "instr_text (Num ds fs) = CHR ''K'' # s @ '':''"
  shows "\<exists>l1 l2 l'. load_code ''K'' l = Some l1 \<and> load_code s l1 = Some l2 \<and> load_code '':'' l2 = Some l' \<and> holds_code (P @ [I (Num ds fs)]) l'
     \<and> same_loader l l' \<and> (\<forall>m \<in> {l1, l2}. exited (machine m) = None \<and> compile_only (machine m) = compile_only (machine l))"
proof -
  obtain f where f: "loading l 0 f (items_code P) l" "bc_functions (machine l) 0 = Some f" "holds_items P f" "labels_ok (f_label f)"
    by (rule holds_code_loading [OF h])
  have p: "plain l" using h by (simp add: holds_code_def)
  have dg: "digits ds" "digits fs" using v by (auto simp: digits_def split: if_splits)
  let ?b = "items_code P"
  obtain l1 where l1: "addbyte (CHR ''K'') l = Some l1" "loading l 0 f (?b @ [CHR ''K'']) l1" "load_str l1 = load_str l"
    using addbyte_loading [OF f(1)] by blast
  let ?l1 = "l1\<lparr>load_const := True\<rparr>"
  have lo: "loading l 0 f (?b @ [CHR ''K'']) ?l1" "load_const ?l1" "\<not> load_str ?l1" using loading_flags [OF l1(2)] l1(3) p by (simp_all add: plain_def)
  have "load_inst (CHR ''K'') [] l = Some (''K'', ?l1)" using l1(1) by (simp add: load_inst_def)
  then have "load_step ''K'' l = Some ([], ?l1)" by (rule load_step_plain [OF p]) (use loading_sel(3) [OF lo(1)] p in \<open>simp add: plain_def\<close>)
  then have K: "load_code ''K'' l = Some ?l1" using load_code_step [OF _ loading_sel(1) [OF f(1)]] by (simp add: load_code.simps)
  let ?tail = "if fs = [] then [] else CHR ''.'' # map bcd_char fs" and ?frac = "if fs = [] then [] else CHR ''.'' # map num_char fs"
  obtain l2 where l2: "load_code (map bcd_char ds @ ?tail) ?l1 = load_code ?tail l2" "loading l 0 f ((?b @ [CHR ''K'']) @ map num_char ds) l2"
    "\<not> load_str l2" "load_const l2" using load_digits [OF lo dg(1)] by blast
  obtain l3 where l3: "load_code ?tail l2 = Some l3" "loading l 0 f (((?b @ [CHR ''K'']) @ map num_char ds) @ ?frac) l3" "\<not> load_str l3" "load_const l3"
  proof (cases "fs = []")
    case True
    then show ?thesis using that [of l2] l2 by (simp add: load_code.simps)
  next
    case False
    obtain l3 where l3: "load_code (CHR ''.'' # map bcd_char fs) l2 = load_code (map bcd_char fs) l3"
      "loading l 0 f (((?b @ [CHR ''K'']) @ map num_char ds) @ [CHR ''.'']) l3" "\<not> load_str l3" "load_const l3"
      using load_point [OF l2(2,4,3), of "CHR ''.''" "map bcd_char fs"] by auto
    show ?thesis using load_digits [OF l3(2,4,3) dg(2), of "[]"] that False l3(1) by (auto simp: load_code.simps)
  qed
  obtain l4 where l4: "load_code '':'' l3 = Some l4" "loading l 0 f ((((?b @ [CHR ''K'']) @ map num_char ds) @ ?frac) @ [CHR '':'']) l4"
    "\<not> load_str l4" "\<not> load_const l4" using load_point [OF l3(2,4,3), of "CHR '':''" "[]"] by (auto simp: load_code.simps)
  have "plain l4" using l4 p loading_sel(3) [OF l4(2)] by (simp add: plain_def)
  moreover have "loading l 0 f (?b @ item_code (I (Num ds fs))) l4" using l4(2) by (simp add: const_code_def)
  ultimately have "holds_code (P @ [I (Num ds fs)]) l4" "same_loader l l4"
    using loading_holds_code [of l f P "I (Num ds fs)" l4] h f(2-4) by simp_all
  moreover have "s = map bcd_char ds @ ?tail" using s by auto
  then have "load_code s ?l1 = Some l3" using l2(1) l3(1) by simp
  moreover have "exited (machine ?l1) = None \<and> compile_only (machine ?l1) = compile_only (machine l)"
    "exited (machine l3) = None \<and> compile_only (machine l3) = compile_only (machine l)"
    using loading_sel(3) [OF lo(1)] loading_sel(3) [OF l3(2)] loading_compile [OF lo(1)] loading_compile [OF l3(2)] p by (simp_all add: plain_def)
  ultimately show ?thesis using K l4(1) by blast
qed

text \<open>Generated code that leaves the loader with more items.\<close>

lemma compiling_items:
  assumes c: "compiling P p" and l: "same_loader (ld p) l'" "\<And>\<nu>. agrees \<nu> p \<Longrightarrow> holds_code (P \<nu> @ its) l'"
    and its: "\<And>it. it \<in> set its \<Longrightarrow> valid_item (usable (machine (ld p))) it" and "labels its = {}"
  shows "compiled P p (p\<lparr>did_gen := True, ld := l'\<rparr>) (\<lambda>\<nu>. its) 0 0"
proof -
  let ?p = "p\<lparr>did_gen := True, ld := l'\<rparr>"
  note s = same_loaderD [OF l(1)]
  have num: "number_of k ?p x = number_of k p x" "agrees \<nu> ?p = agrees \<nu> p" "library_left ?p = library_left p" "next_of k ?p = next_of k p" for k x \<nu>
    by (cases k; simp add: number_of_def agrees_def library_left_def)+
  have "code_ok (P \<nu> @ its) ?p" if a: "agrees \<nu> p" for \<nu>
    using c a l(2) [OF a] its assms(5) s(5) by (auto simp: code_ok_def compiling_def)
  then have "compiling (\<lambda>\<nu>. P \<nu> @ its) ?p"
    using c s num by (simp add: compiling_def names_ok_def numbers_ok_def tables_ok_def vars_numbered_def)
  then show ?thesis using s(1) num(1) by (simp add: compiled_def later_def marks_def)
qed

lemma number_compiled:
  assumes c: "compiling P p" and n: "core_number s"
  shows "\<exists>p'. number_action s p = Some p' \<and> compiled P p p' (\<lambda>\<nu>. [number_item s]) 0 0"
proof -
  obtain ds fs where d: "number_digits s = (ds, fs)" by (cases "number_digits s")
  have t: "instr_text (Num ds fs) = CHR ''K'' # s @ '':''" "stack_use (Num ds fs) \<noteq> None" using n by (simp_all add: core_number_def d del: stack_use.simps instr_text.simps)
  consider "s = ''0''" | "s = ''1''" | "s \<noteq> ''0'' \<and> s \<noteq> ''1''" by blast
  then show ?thesis
  proof cases
    case 1
    have "\<exists>p'. gen ''0'' p = Some p' \<and> genf ''0'' p = Some p' \<and> compiled P p p' (\<lambda>\<nu>. [I (Op (CHR ''0''))]) 0 0 \<and> usable (machine (ld p)) \<subseteq> usable (machine (ld p'))"
      by (rule gen_short [OF c]) (simp_all add: two_ops_def arith_ops_def cmp_ops_def logic_ops_def)
    then show ?thesis by (auto simp: number_action_def number_item_def 1)
  next
    case 2
    have "\<exists>p'. gen ''1'' p = Some p' \<and> genf ''1'' p = Some p' \<and> compiled P p p' (\<lambda>\<nu>. [I (Op (CHR ''1''))]) 0 0 \<and> usable (machine (ld p)) \<subseteq> usable (machine (ld p'))"
      by (rule gen_short [OF c]) (simp_all add: two_ops_def arith_ops_def cmp_ops_def logic_ops_def)
    then show ?thesis by (auto simp: number_action_def number_item_def 2)
  next
    case 3
    have h: "holds_code (P \<nu>) (ld p)" if "agrees \<nu> p" for \<nu> using c that by (simp add: compiling_def code_ok_def)
    obtain l1 l2 l' where l: "load_code ''K'' (ld p) = Some l1" "load_code s l1 = Some l2" "load_code '':'' l2 = Some l'" "same_loader (ld p) l'"
      "\<forall>m \<in> {l1, l2}. exited (machine m) = None \<and> compile_only (machine m) = compile_only (machine (ld p))"
      using number_load [OF h [OF agrees_numbers] t(2,1)] by blast
    have "holds_code (P \<nu> @ [I (Num ds fs)]) l'" if "agrees \<nu> p" for \<nu> using number_load [OF h [OF that] t(2,1)] l(1-3) by auto
    then have "compiled P p (p\<lparr>did_gen := True, ld := l'\<rparr>) (\<lambda>\<nu>. [I (Num ds fs)]) 0 0"
      by (intro compiling_items [OF c l(4)]) (use t(2) in \<open>simp_all del: stack_use.simps\<close>)
    moreover have "number_action s p = Some (p\<lparr>did_gen := True, ld := l'\<rparr>)"
      using 3 l compiling_run [OF c] c by (simp add: number_action_def gen_def generate_def Let_def compiling_def)
    ultimately show ?thesis using 3 by (auto simp: number_item_def d)
  qed
qed

end
