(* ===== verification/BcExpr.thy ===== *)
theory BcExpr
  imports BcActions
begin

text \<open>
  The compiler is correct, from the syntax tree to the values of the variables: expressions and statements generate their items, and
  \<open>input_item\<close> loads and runs them.
\<close>

section \<open>Actions in a row\<close>

text \<open>From \<open>p\<close> on, where the code was \<open>P\<close>, the actions up to \<open>p1\<close> have generated \<open>C\<close> with \<open>n\<close> labels and at most \<open>c\<close> new variables.\<close>

definition built :: "code \<Rightarrow> parser \<Rightarrow> code \<Rightarrow> nat \<Rightarrow> nat \<Rightarrow> parser \<Rightarrow> bool" where
  "built P p C n c p1 \<longleftrightarrow> compiling P p \<and> compiled P p p1 C n c"

abbreviation first_label :: "parser \<Rightarrow> nat" where
  "first_label p \<equiv> nat (next_label p)"

lemma built_start: "compiling P p \<Longrightarrow> built P p (\<lambda>\<nu>. []) 0 0 p"
  using later_refl by (simp add: built_def compiled_def)

lemma builtD:
  assumes "built P p C n c p1"
  shows "compiling (\<lambda>\<nu>. P \<nu> @ C \<nu>) p1" "next_label p1 = next_label p + int n" "first_label p1 = first_label p + n" "next_label p = int (first_label p)"
    "next_var p1 \<le> next_var p + int c" "exited (machine (ld p1)) = None"
proof -
  have "1 \<le> next_label p" using assms by (simp add: built_def compiling_def)
  then show "compiling (\<lambda>\<nu>. P \<nu> @ C \<nu>) p1" "next_label p1 = next_label p + int n" "first_label p1 = first_label p + n" "next_label p = int (first_label p)"
    "next_var p1 \<le> next_var p + int c" "exited (machine (ld p1)) = None"
    using assms compiledD(1-3) [of P p p1 C n c] compiling_run by (auto simp: built_def)
qed

lemma built_add:
  "built P p C n c p1 \<Longrightarrow> compiled (\<lambda>\<nu>. P \<nu> @ C \<nu>) p1 p2 X m d \<Longrightarrow> built P p (\<lambda>\<nu>. C \<nu> @ X \<nu>) (n + m) (c + d) p2"
  using compiled_trans by (auto simp: built_def)

lemma built_cong:
  "built P p C n c p1 \<Longrightarrow> (\<And>\<nu>. agrees \<nu> p1 \<Longrightarrow> C \<nu> = C' \<nu>) \<Longrightarrow> n = n' \<Longrightarrow> c \<le> c' \<Longrightarrow> built P p C' n' c' p1"
  using compiled_cong by (auto simp: built_def)

lemma built_pending:
  assumes "built P p C n c p1" and "first_label p \<le> k" and "k < first_label p + n" and "\<And>\<nu>. k \<notin> labels (C \<nu>)"
  shows "pending k (\<lambda>\<nu>. P \<nu> @ C \<nu>) p1"
proof -
  note b = builtD [OF assms(1)]
  have "k \<notin> labels (P \<nu>)" if "agrees \<nu> p1" for \<nu>
  proof -
    have "agrees \<nu> p" using compiledD(4) [of P p p1 C n c] assms(1) that by (simp add: built_def)
    then have "\<forall>n \<in> labels (P \<nu>). int n < next_label p" using assms(1) by (simp add: built_def compiling_def code_ok_def)
    then show ?thesis using assms(2) b(4) by force
  qed
  then show ?thesis using b(2-4) assms(3,4) by (simp add: pending_def)
qed

text \<open>The steps.\<close>

lemma built_warn [simp]: "built P p C n c p1 \<Longrightarrow> built P p C n c (warn_on b mesg p1)"
  using built_add [OF _ warn_on_compiled [OF builtD(1)]] by fastforce

lemma built_gen:
  assumes "built P p C n c p1" and "items_text its = str" and "length its \<le> 9"
    and "\<And>it. it \<in> set its \<Longrightarrow> valid_item (usable (machine (ld p1))) it \<and> (\<forall>ds fs. it \<noteq> I (Num ds fs))"
    and "\<And>k. k \<in> labels its \<Longrightarrow> first_label p \<le> k \<and> k < first_label p + n \<and> (\<forall>\<nu>. k \<notin> labels (C \<nu>))"
    and "distinct (filter (\<lambda>it. \<exists>n. it = Lab n) its)"
  shows "\<exists>p2. gen str p1 = Some p2 \<and> genf str p1 = Some p2 \<and> built P p (\<lambda>\<nu>. C \<nu> @ its) n c p2"
proof -
  have "pending k (\<lambda>\<nu>. P \<nu> @ C \<nu>) p1" if "k \<in> labels its" for k using built_pending [OF assms(1), of k] assms(5) [OF that] by blast
  then show ?thesis using gen_short [OF builtD(1) [OF assms(1)] assms(2-4) _ assms(6)] built_add [OF assms(1)] by fastforce
qed

lemma built_label:
  assumes "built P p C n c p1" and "first_label p + n < 65536"
  shows "\<exists>p2. new_label p1 = Some (int (first_label p + n), p2) \<and> built P p C (Suc n) c p2"
proof -
  note b = builtD [OF assms(1)]
  have "next_label p1 < 65536" using b(2,4) assms(2) by linarith
  then obtain p2 where "new_label p1 = Some (next_label p1, p2)" "compiled (\<lambda>\<nu>. P \<nu> @ C \<nu>) p1 p2 (\<lambda>\<nu>. []) 1 0"
    using new_label_compiled [OF b(1)] by blast
  then show ?thesis using built_add [OF assms(1)] b(2,4) by fastforce
qed

text \<open>The number of a variable, whatever numbers other names get.\<close>

definition numbered_as :: "string \<Rightarrow> nat \<Rightarrow> parser \<Rightarrow> bool" where
  "numbered_as x v p \<longleftrightarrow> v \<in> usable (machine (ld p)) \<and> (\<forall>\<nu>. agrees \<nu> p \<longrightarrow> \<nu> x = v)"

lemma built_number:
  assumes "built P p C n c p1" and "next_var p + int c \<le> 32767"
  shows "\<exists>v p2. find_number x SIMPLE p1 = Some (int v, p2) \<and> built P p C n (Suc c) p2 \<and> numbered_as x v p2"
proof -
  note b = builtD [OF assms(1)]
  have "next_var p1 \<le> 32767" using b(5) assms(2) by linarith
  then obtain v p2 where "find_number x SIMPLE p1 = Some (int v, p2)" "compiled (\<lambda>\<nu>. P \<nu> @ C \<nu>) p1 p2 (\<lambda>\<nu>. []) 0 1" "numbered_as x v p2"
    using find_number_compiled [OF b(1), of x] by (auto simp: numbered_as_def)
  then show ?thesis using built_add [OF assms(1)] by fastforce
qed

lemma built_constant:
  assumes "built P p C n c p1" and "core_number s"
  shows "\<exists>p2. number_action s p1 = Some p2 \<and> built P p (\<lambda>\<nu>. C \<nu> @ [number_item s]) n c p2"
  using number_compiled [OF builtD(1) [OF assms(1)] assms(2)] built_add [OF assms(1)] by fastforce

text \<open>Operators.\<close>

lemma built_op:
  assumes "built P p C n c p1" and "stack_use (Op op) \<noteq> None"
  shows "\<exists>p2. gen [op] p1 = Some p2 \<and> genf [op] p1 = Some p2 \<and> built P p (\<lambda>\<nu>. C \<nu> @ [I (Op op)]) n c p2"
  by (rule built_gen [OF assms(1)]) (use assms(2) in \<open>simp_all del: stack_use.simps\<close>)

lemma plain_ops [simp]: "stack_use (Op (CHR ''D'')) \<noteq> None" "stack_use (Op (CHR ''p'')) \<noteq> None" "stack_use (Op (CHR ''0'')) \<noteq> None"
  "stack_use (Op (CHR ''1'')) \<noteq> None" "stack_use (Op (CHR ''!'')) \<noteq> None" "stack_use (Op (CHR ''n'')) \<noteq> None"
  "c \<in> set arith_ops \<Longrightarrow> stack_use (Op c) \<noteq> None" "c \<in> set cmp_ops \<Longrightarrow> stack_use (Op c) \<noteq> None"
  by (auto simp: two_ops_def arith_ops_def cmp_ops_def logic_ops_def)

section \<open>Expressions\<close>

text \<open>The bits of the result that make a difference: void, and empty.\<close>

definition flags_ok :: "int \<Rightarrow> bool" where
  "flags_ok v \<longleftrightarrow> \<not> bit v 3 \<and> \<not> bit v 4"

lemma flags_tests: "v AND EX_VOID = 0 \<longleftrightarrow> \<not> bit v 3" "v AND EX_EMPTY = 0 \<longleftrightarrow> \<not> bit v 4"
  using and_exp_eq_0_iff_not_bit [of v 3] and_exp_eq_0_iff_not_bit [of v 4] by simp_all

lemma flags_simps [simp]: "flags_ok 0" "flags_ok 1" "flags_ok 3" "flags_ok v \<Longrightarrow> flags_ok (v AND - 5)"
  "flags_ok v \<Longrightarrow> flags_ok w \<Longrightarrow> flags_ok ((v OR w) AND - 5)" "flags_ok v \<Longrightarrow> flags_ok (v OR 5)"
proof -
  have n: "- 5 = NOT (4 :: int)" "5 = (1 :: int) OR 4" by simp_all
  show "flags_ok 0" "flags_ok 1" "flags_ok 3" by (simp_all add: flags_ok_def)
  show "flags_ok v \<Longrightarrow> flags_ok (v AND - 5)" "flags_ok v \<Longrightarrow> flags_ok w \<Longrightarrow> flags_ok ((v OR w) AND - 5)"
    unfolding n(1) by (simp_all add: flags_ok_def bit_and_iff bit_or_iff)
  show "flags_ok v \<Longrightarrow> flags_ok (v OR 5)" by (simp add: flags_ok_def bit_or_iff)
qed

lemma flags_void [simp]: "flags_ok v \<Longrightarrow> v AND EX_VOID = 0" "flags_ok v \<Longrightarrow> v AND EX_EMPTY = 0"
  by (simp_all add: flags_ok_def flags_tests)

text \<open>At most so many new variables.\<close>

fun name_count :: "expr \<Rightarrow> nat" where
  "name_count (Value (Simple x)) = 1"
| "name_count (Assign (Simple x) c e) = Suc (name_count e)"
| "name_count (And a b) = name_count a + name_count b"
| "name_count (Or a b) = name_count a + name_count b"
| "name_count (Not a) = name_count a"
| "name_count (Rel a r b) = name_count a + name_count b"
| "name_count (Binary a c b) = name_count a + name_count b"
| "name_count (Negate a) = name_count a"
| "name_count (Paren a) = name_count a"
| "name_count (Pre c (Simple x)) = 1"
| "name_count (Post (Simple x) c) = 1"
| "name_count _ = 0"

definition makes :: "expr \<Rightarrow> bool" where
  "makes e \<longleftrightarrow> (\<forall>P p C n c p1. built P p C n c p1 \<longrightarrow> first_label p + n + label_count e \<le> 65536
     \<longrightarrow> next_var p + int (c + name_count e) \<le> 32768
     \<longrightarrow> (\<exists>v p2. expression e p1 = Some (v, p2) \<and> flags_ok v
           \<and> built P p (\<lambda>\<nu>. C \<nu> @ ecode \<nu> e (first_label p + n)) (n + label_count e) (c + name_count e) p2))"

lemma makesD:
  assumes "makes e" and "built P p C n c p1" and "first_label p + n + label_count e \<le> 65536" and "next_var p + int (c + name_count e) \<le> 32768"
  shows "\<exists>v p2. expression e p1 = Some (v, p2) \<and> flags_ok v
           \<and> built P p (\<lambda>\<nu>. C \<nu> @ ecode \<nu> e (first_label p + n)) (n + label_count e) (c + name_count e) p2"
  using assms unfolding makes_def by blast

text \<open>An operator behind one operand, and behind two.\<close>

lemma makes_unary:
  assumes a: "makes a" and op: "stack_use (Op op) \<noteq> None"
    and ex: "\<And>v p p2 p3. expression a p = Some (v, p2) \<Longrightarrow> flags_ok v \<Longrightarrow> gen [op] (warn_on b mesg p2) = Some p3 \<Longrightarrow> \<exists>w. expression e p = Some (w, p3) \<and> flags_ok w"
    and code: "\<And>\<nu> l. ecode \<nu> e l = ecode \<nu> a l @ [I (Op op)]" "label_count e = label_count a" "name_count e = name_count a"
  shows "makes e"
  unfolding makes_def
proof (intro allI impI)
  fix P p C n c p1
  assume b: "built P p C n c p1" "first_label p + n + label_count e \<le> 65536" "next_var p + int (c + name_count e) \<le> 32768"
  obtain v p2 where p2: "expression a p1 = Some (v, p2)" "flags_ok v"
    "built P p (\<lambda>\<nu>. C \<nu> @ ecode \<nu> a (first_label p + n)) (n + label_count a) (c + name_count a) p2"
    using makesD [OF a b(1)] b(2,3) code by auto
  obtain p3 where "gen [op] (warn_on b mesg p2) = Some p3"
    "built P p (\<lambda>\<nu>. (C \<nu> @ ecode \<nu> a (first_label p + n)) @ [I (Op op)]) (n + label_count a) (c + name_count a) p3"
    using built_op [OF built_warn [OF p2(3)] op] by blast
  then show "\<exists>v p2. expression e p1 = Some (v, p2) \<and> flags_ok v
      \<and> built P p (\<lambda>\<nu>. C \<nu> @ ecode \<nu> e (first_label p + n)) (n + label_count e) (c + name_count e) p2"
    using ex [OF p2(1,2)] by (fastforce simp: code)
qed

lemma makes_binary:
  assumes a: "makes a" "makes b" and op: "stack_use (Op op) \<noteq> None"
    and ex: "\<And>v w p p2 p3 p4. expression a p = Some (v, p2) \<Longrightarrow> expression b p2 = Some (w, p3) \<Longrightarrow> flags_ok v \<Longrightarrow> flags_ok w \<Longrightarrow> gen [op] p3 = Some p4
      \<Longrightarrow> \<exists>u. expression e p = Some (u, p4) \<and> flags_ok u"
    and code: "\<And>\<nu> l. ecode \<nu> e l = ecode \<nu> a l @ ecode \<nu> b (l + label_count a) @ [I (Op op)]" "label_count e = label_count a + label_count b"
      "name_count e = name_count a + name_count b"
  shows "makes e"
  unfolding makes_def
proof (intro allI impI)
  fix P p C n c p1
  assume b: "built P p C n c p1" "first_label p + n + label_count e \<le> 65536" "next_var p + int (c + name_count e) \<le> 32768"
  let ?ca = "\<lambda>\<nu>. C \<nu> @ ecode \<nu> a (first_label p + n)"
  obtain v p2 where p2: "expression a p1 = Some (v, p2)" "flags_ok v" "built P p ?ca (n + label_count a) (c + name_count a) p2"
    using makesD [OF a(1) b(1)] b(2,3) code by auto
  let ?cb = "\<lambda>\<nu>. ?ca \<nu> @ ecode \<nu> b (first_label p + (n + label_count a))"
  obtain w p3 where p3: "expression b p2 = Some (w, p3)" "flags_ok w" "built P p ?cb (n + label_count a + label_count b) (c + name_count a + name_count b) p3"
    using makesD [OF a(2) p2(3)] b(2,3) code by auto
  obtain p4 where "gen [op] p3 = Some p4" "built P p (\<lambda>\<nu>. ?cb \<nu> @ [I (Op op)]) (n + label_count a + label_count b) (c + name_count a + name_count b) p4"
    using built_op [OF p3(3) op] by blast
  then show "\<exists>v p2. expression e p1 = Some (v, p2) \<and> flags_ok v
      \<and> built P p (\<lambda>\<nu>. C \<nu> @ ecode \<nu> e (first_label p + n)) (n + label_count e) (c + name_count e) p2"
    using ex [OF p2(1) p3(1) p2(2) p3(2)] by (fastforce simp: code add.assoc)
qed

text \<open>It is enough to look at what comes behind any code.\<close>

lemma makesI:
  assumes "\<And>P p. built P p (\<lambda>\<nu>. []) 0 0 p \<Longrightarrow> first_label p + label_count e \<le> 65536 \<Longrightarrow> next_var p + int (name_count e) \<le> 32768
    \<Longrightarrow> \<exists>v p2. expression e p = Some (v, p2) \<and> flags_ok v \<and> built P p (\<lambda>\<nu>. ecode \<nu> e (first_label p)) (label_count e) (name_count e) p2"
  shows "makes e"
  unfolding makes_def
proof (intro allI impI)
  fix P p C n c p1
  assume b: "built P p C n c p1" "first_label p + n + label_count e \<le> 65536" "next_var p + int (c + name_count e) \<le> 32768"
  note d = builtD [OF b(1)]
  obtain v p2 where p2: "expression e p1 = Some (v, p2)" "flags_ok v" "built (\<lambda>\<nu>. P \<nu> @ C \<nu>) p1 (\<lambda>\<nu>. ecode \<nu> e (first_label p1)) (label_count e) (name_count e) p2"
    using assms [OF built_start [OF d(1)]] d(3,5) b(2,3) by auto
  then have "compiled (\<lambda>\<nu>. P \<nu> @ C \<nu>) p1 p2 (\<lambda>\<nu>. ecode \<nu> e (first_label p + n)) (label_count e) (name_count e)" using d(3) by (simp add: built_def)
  then have "built P p (\<lambda>\<nu>. C \<nu> @ ecode \<nu> e (first_label p + n)) (n + label_count e) (c + name_count e) p2" by (rule built_add [OF b(1)])
  then show "\<exists>v p2. expression e p1 = Some (v, p2) \<and> flags_ok v
      \<and> built P p (\<lambda>\<nu>. C \<nu> @ ecode \<nu> e (first_label p + n)) (n + label_count e) (c + name_count e) p2"
    using p2(1,2) by blast
qed

lemma makes_and:
  assumes "makes a" and "makes b"
  shows "makes (And a b)"
proof (rule makesI)
  fix P p
  assume s: "built P p (\<lambda>\<nu>. []) 0 0 p" "first_label p + label_count (And a b) \<le> 65536" "next_var p + int (name_count (And a b)) \<le> 32768"
  obtain l where l: "first_label p = l" by blast
  let ?L = "l + label_count a"
  obtain v p1 where p1: "expression a p = Some (v, p1)" "flags_ok v" "built P p (\<lambda>\<nu>. ecode \<nu> a l) (label_count a) (name_count a) p1"
    using makesD [OF assms(1) s(1)] s(2,3) l by auto
  obtain p2 where p2: "new_label (warn_on True ''&& operator'' p1) = Some (int ?L, p2)" "built P p (\<lambda>\<nu>. ecode \<nu> a l) (Suc (label_count a)) (name_count a) p2"
    using built_label [OF built_warn [OF p1(3)], unfolded l] s(2) [unfolded l] by auto
  let ?its = "[I (Op (CHR ''D'')), Jmp (CHR ''Z'') ?L, I (Op (CHR ''p''))]"
  let ?tx = "''D'' @ label_text (CHR ''Z'') (int ?L) @ ''p''"
  have "\<exists>q. gen ?tx p2 = Some q \<and> genf ?tx p2 = Some q \<and> built P p (\<lambda>\<nu>. ecode \<nu> a l @ ?its) (Suc (label_count a)) (name_count a) q"
    by (rule built_gen [OF p2(2)]) (use s(2) l in \<open>auto simp: label_text_def simp del: stack_use.simps\<close>)
  then obtain p3 where p3: "genf ?tx p2 = Some p3" "built P p (\<lambda>\<nu>. ecode \<nu> a l @ ?its) (Suc (label_count a)) (name_count a) p3" by blast
  obtain w p4 where p4: "expression b p3 = Some (w, p4)" "flags_ok w"
    "built P p (\<lambda>\<nu>. (ecode \<nu> a l @ ?its) @ ecode \<nu> b (l + Suc (label_count a))) (Suc (label_count a) + label_count b) (name_count a + name_count b) p4"
    using makesD [OF assms(2) p3(2)] s(2,3) l by auto
  have fresh: "?L \<notin> labels (ecode \<nu> a l) \<and> ?L \<notin> labels (ecode \<nu> b (l + Suc (label_count a)))" for \<nu>
    using ecode_labels [of ?L \<nu> a l] ecode_labels [of ?L \<nu> b "l + Suc (label_count a)"] by auto
  let ?ty = "''D'' @ label_text (CHR ''Z'') (int ?L) @ ''p1'' @ label_text (CHR ''N'') (int ?L)"
  let ?c = "\<lambda>\<nu>. ((ecode \<nu> a l @ ?its) @ ecode \<nu> b (l + Suc (label_count a))) @ and_tail ?L"
  have "\<exists>q. gen ?ty p4 = Some q \<and> genf ?ty p4 = Some q \<and> built P p ?c (Suc (label_count a) + label_count b) (name_count a + name_count b) q"
    by (rule built_gen [OF p4(3)]) (use s(2) fresh l in \<open>auto simp: label_text_def and_tail_def simp del: stack_use.simps\<close>)
  then show "\<exists>v p2. expression (And a b) p = Some (v, p2) \<and> flags_ok v
      \<and> built P p (\<lambda>\<nu>. ecode \<nu> (And a b) (first_label p)) (label_count (And a b)) (name_count (And a b)) p2"
    using p1(1,2) p2(1) p3(1) p4(1,2) unfolding l by (auto simp: Let_def)
qed

lemma makes_or:
  assumes "makes a" and "makes b"
  shows "makes (Or a b)"
proof (rule makesI)
  fix P p
  assume s: "built P p (\<lambda>\<nu>. []) 0 0 p" "first_label p + label_count (Or a b) \<le> 65536" "next_var p + int (name_count (Or a b)) \<le> 32768"
  obtain l where l: "first_label p = l" by blast
  let ?L = "l + label_count a" let ?T = "Suc ?L + label_count b"
  obtain v p1 where p1: "expression a p = Some (v, p1)" "flags_ok v" "built P p (\<lambda>\<nu>. ecode \<nu> a l) (label_count a) (name_count a) p1"
    using makesD [OF assms(1) s(1)] s(2,3) l by auto
  obtain p2 where p2: "new_label (warn_on True ''|| operator'' p1) = Some (int ?L, p2)" "built P p (\<lambda>\<nu>. ecode \<nu> a l) (Suc (label_count a)) (name_count a) p2"
    using built_label [OF built_warn [OF p1(3)], unfolded l] s(2) [unfolded l] by auto
  let ?its = "[Jmp (CHR ''B'') ?L]"
  have "\<exists>q. gen (label_text (CHR ''B'') (int ?L)) p2 = Some q \<and> genf (label_text (CHR ''B'') (int ?L)) p2 = Some q
      \<and> built P p (\<lambda>\<nu>. ecode \<nu> a l @ ?its) (Suc (label_count a)) (name_count a) q"
    by (rule built_gen [OF p2(2)]) (use s(2) l in \<open>auto simp: label_text_def\<close>)
  then obtain p3 where p3: "genf (label_text (CHR ''B'') (int ?L)) p2 = Some p3" "built P p (\<lambda>\<nu>. ecode \<nu> a l @ ?its) (Suc (label_count a)) (name_count a) p3" by blast
  let ?c = "\<lambda>\<nu>. (ecode \<nu> a l @ ?its) @ ecode \<nu> b (l + Suc (label_count a))"
  obtain w p4 where p4: "expression b p3 = Some (w, p4)" "flags_ok w" "built P p ?c (Suc (label_count a) + label_count b) (name_count a + name_count b) p4"
    using makesD [OF assms(2) p3(2)] s(2,3) l by auto
  obtain p5 where p5: "new_label p4 = Some (int ?T, p5)" "built P p ?c (Suc (Suc (label_count a) + label_count b)) (name_count a + name_count b) p5"
    using built_label [OF p4(3), unfolded l] s(2) [unfolded l] by auto
  have fresh: "k \<notin> labels (ecode \<nu> a l) \<and> k \<notin> labels (ecode \<nu> b (l + Suc (label_count a)))" if "k = ?L \<or> k = ?T" for \<nu> k
    using that ecode_labels [of k \<nu> a l] ecode_labels [of k \<nu> b "l + Suc (label_count a)"] by auto
  let ?tx = "label_text (CHR ''B'') (int ?L) @ ''0'' @ label_text (CHR ''J'') (int ?T) @ label_text (CHR ''N'') (int ?L) @ ''1'' @ label_text (CHR ''N'') (int ?T)"
  have "\<exists>q. gen ?tx p5 = Some q \<and> genf ?tx p5 = Some q
      \<and> built P p (\<lambda>\<nu>. ?c \<nu> @ or_tail ?L ?T) (Suc (Suc (label_count a) + label_count b)) (name_count a + name_count b) q"
    by (rule built_gen [OF p5(2)]) (use s(2) fresh l in \<open>auto simp: label_text_def or_tail_def simp del: stack_use.simps\<close>)
  then show "\<exists>v p2. expression (Or a b) p = Some (v, p2) \<and> flags_ok v
      \<and> built P p (\<lambda>\<nu>. ecode \<nu> (Or a b) (first_label p)) (label_count (Or a b)) (name_count (Or a b)) p2"
    using p1(1,2) p2(1) p3(1) p4(1,2) p5(1) unfolding l by (auto simp: Let_def)
qed

lemma built_numbered: "built P p C n c p1 \<Longrightarrow> numbered_as x v p \<Longrightarrow> numbered_as x v p1"
  using grown_usable later_agrees by (fastforce simp: built_def compiled_def numbered_as_def later_def)

lemma built_var:
  assumes b: "built P p C n c p1" and v: "numbered_as x v p" and tx: "items_text its = str" and "length its \<le> 9"
    and its: "\<forall>it \<in> set its. \<exists>i \<in> {Load v, Store v, Incr v, Decr v}. it = I i" and code: "\<And>\<nu>. \<nu> x = v \<Longrightarrow> X \<nu> = its"
  shows "\<exists>p2. genf str p1 = Some p2 \<and> built P p (\<lambda>\<nu>. C \<nu> @ X \<nu>) n c p2"
proof -
  have nolab: "labels its = {}" "filter (\<lambda>it. \<exists>n. it = Lab n) its = []" using its by (fastforce simp: labels_def filter_empty_conv)+
  have v1: "v \<in> usable (machine (ld p1))" using built_numbered [OF b v] by (simp add: numbered_as_def)
  have "valid_item (usable (machine (ld p1))) it \<and> (\<forall>ds fs. it \<noteq> I (Num ds fs))" if "it \<in> set its" for it using its that v1 by auto
  then obtain p2 where p2: "genf str p1 = Some p2" "built P p (\<lambda>\<nu>. C \<nu> @ its) n c p2"
    using built_gen [OF b tx assms(4)] nolab by auto
  have "\<nu> x = v" if "agrees \<nu> p2" for \<nu> using built_numbered [OF p2(2) v] that by (simp add: numbered_as_def)
  then have "built P p (\<lambda>\<nu>. C \<nu> @ X \<nu>) n c p2" using code by (intro built_cong [OF p2(2)]) simp_all
  then show ?thesis using p2(1) by blast
qed

text \<open>An action that begins with the number of a variable.\<close>

lemma makes_named:
  assumes act: "\<And>p. expression e p = do { (v, p) \<leftarrow> find_number x SIMPLE p; rest v p }"
    and code: "\<And>\<nu> l. ecode \<nu> e l = code \<nu> l" "label_count e = n" "name_count e = Suc c"
    and rest: "\<And>P p v. built P p (\<lambda>\<nu>. []) 0 0 p \<Longrightarrow> numbered_as x v p \<Longrightarrow> first_label p + n \<le> 65536 \<Longrightarrow> next_var p + int c \<le> 32768
      \<Longrightarrow> \<exists>w p2. rest (int v) p = Some (w, p2) \<and> flags_ok w \<and> built P p (\<lambda>\<nu>. code \<nu> (first_label p)) n c p2"
  shows "makes e"
proof (rule makesI)
  fix P p
  assume s: "built P p (\<lambda>\<nu>. []) 0 0 p" "first_label p + label_count e \<le> 65536" "next_var p + int (name_count e) \<le> 32768"
  obtain v p1 where p1: "find_number x SIMPLE p = Some (int v, p1)" "built P p (\<lambda>\<nu>. []) 0 1 p1" "numbered_as x v p1"
    using built_number [OF s(1), of x] s(3) code(3) by auto
  note d = builtD [OF p1(2)]
  have b: "built P p1 (\<lambda>\<nu>. []) 0 0 p1" using built_start d(1) by simp
  obtain w p2 where p2: "rest (int v) p1 = Some (w, p2)" "flags_ok w" "built P p1 (\<lambda>\<nu>. code \<nu> (first_label p)) n c p2"
    using rest [OF b p1(3)] s(2,3) code(2,3) d(3,5) by auto
  have "built P p (\<lambda>\<nu>. ecode \<nu> e (first_label p)) (label_count e) (name_count e) p2"
    using built_add [OF p1(2), of p2 "\<lambda>\<nu>. code \<nu> (first_label p)" n c] p2(3) by (simp add: built_def code)
  then show "\<exists>v p2. expression e p = Some (v, p2) \<and> flags_ok v \<and> built P p (\<lambda>\<nu>. ecode \<nu> e (first_label p)) (label_count e) (name_count e) p2"
    using p1(1) p2(1,2) by (simp add: act)
qed

lemma makes_value: "makes (Value (Simple x))"
proof (rule makes_named [where rest = "\<lambda>v p. do { p \<leftarrow> genf (load_text [] v) p; Some (EX_REG, p) }" and code = "\<lambda>\<nu> l. [I (Load (\<nu> x))]"])
  show "\<exists>w p2. do { p \<leftarrow> genf (load_text [] (int v)) p; Some (EX_REG, p) } = Some (w, p2) \<and> flags_ok w \<and> built P p (\<lambda>\<nu>. [I (Load (\<nu> x))]) 0 0 p2"
    if "built P p (\<lambda>\<nu>. []) 0 0 p" "numbered_as x v p" for P p v
    using built_var [OF that, of "[I (Load v)]" "load_text [] (int v)" "\<lambda>\<nu>. [I (Load (\<nu> x))]"] by (auto simp: load_text_def label_text_def)
qed simp_all

lemma makes_pre: "makes (Pre c (Simple x))"
proof (rule makes_named [where rest = "\<lambda>v p. do { p \<leftarrow> genf (pre_text c v) p; Some (EX_REG, p) }" and code = "\<lambda>\<nu> l. [step_item c (\<nu> x), I (Load (\<nu> x))]"])
  show "\<exists>w p2. do { p \<leftarrow> genf (pre_text c (int v)) p; Some (EX_REG, p) } = Some (w, p2) \<and> flags_ok w
      \<and> built P p (\<lambda>\<nu>. [step_item c (\<nu> x), I (Load (\<nu> x))]) 0 0 p2"
    if "built P p (\<lambda>\<nu>. []) 0 0 p" "numbered_as x v p" for P p v
    using built_var [OF that, of "[step_item c v, I (Load v)]" "pre_text c (int v)" "\<lambda>\<nu>. [step_item c (\<nu> x), I (Load (\<nu> x))]"]
    by (cases "c = CHR ''+''") (auto simp: pre_text_def label_text_def step_item_def)
qed simp_all

lemma makes_post: "makes (Post (Simple x) c)"
proof (rule makes_named [where rest = "\<lambda>v p. do { p \<leftarrow> post_action c v p; Some (EX_REG, p) }" and code = "\<lambda>\<nu> l. [I (Load (\<nu> x)), step_item c (\<nu> x)]"])
  fix P p v
  assume b: "built P p (\<lambda>\<nu>. []) 0 0 p" "numbered_as x v p"
  obtain p1 where p1: "genf (label_text (CHR ''l'') (int v)) p = Some p1" "built P p (\<lambda>\<nu>. [] @ [I (Load (\<nu> x))]) 0 0 p1"
    using built_var [OF b, of "[I (Load v)]" "label_text (CHR ''l'') (int v)" "\<lambda>\<nu>. [I (Load (\<nu> x))]"] by (auto simp: label_text_def)
  obtain p2 where "genf (label_text (if c = CHR ''+'' then CHR ''i'' else CHR ''d'') (int v)) p1 = Some p2"
    "built P p (\<lambda>\<nu>. ([] @ [I (Load (\<nu> x))]) @ [step_item c (\<nu> x)]) 0 0 p2"
    using built_var [OF p1(2) b(2), of "[step_item c v]" "label_text (if c = CHR ''+'' then CHR ''i'' else CHR ''d'') (int v)" "\<lambda>\<nu>. [step_item c (\<nu> x)]"]
    by (cases "c = CHR ''+''") (auto simp: label_text_def step_item_def)
  then show "\<exists>w p2. do { p \<leftarrow> post_action c (int v) p; Some (EX_REG, p) } = Some (w, p2) \<and> flags_ok w
      \<and> built P p (\<lambda>\<nu>. [I (Load (\<nu> x)), step_item c (\<nu> x)]) 0 0 p2" using p1(1) by (simp add: post_action_def)
qed simp_all

lemma makes_assign:
  assumes e: "makes e" and c: "c = CHR ''='' \<or> c \<in> set arith_ops"
  shows "makes (Assign (Simple x) c e)"
proof (rule makes_named [where n = "label_count e" and c = "name_count e" and code = "\<lambda>\<nu>. ecode \<nu> (Assign (Simple x) c e)"
    and rest = "\<lambda>v p. do {
      p \<leftarrow> (if c \<noteq> CHR ''='' then genf (load_text ''D'' v) p else Some p);
      (v4, p) \<leftarrow> expression e p;
      let p = warn_on (v4 AND EX_ASSGN \<noteq> 0) ''comparison in assignment'' p;
      let p = error_on (is_void v4) ''Assignment of a void expression'' p;
      p \<leftarrow> (if c \<noteq> CHR ''='' then genf [c] p else Some p);
      p \<leftarrow> genf (store_text v) p;
      Some (EX_ASSGN, p)
    }"])
  fix P p v
  assume b: "built P p (\<lambda>\<nu>. []) 0 0 p" "numbered_as x v p" and s: "first_label p + label_count e \<le> 65536" "next_var p + int (name_count e) \<le> 32768"
  let ?l = "first_label p"
  let ?c1 = "\<lambda>\<nu>. [] @ (if c = CHR ''='' then [] else [I (Load (\<nu> x))])"
  obtain p1 where p1: "(if c \<noteq> CHR ''='' then genf (load_text ''D'' (int v)) p else Some p) = Some p1" "built P p ?c1 0 0 p1"
  proof (cases "c = CHR ''=''")
    case False
    then show ?thesis using that built_var [OF b, of "[I (Load v)]" "load_text ''D'' (int v)" "\<lambda>\<nu>. [I (Load (\<nu> x))]"]
      by (auto simp: load_text_def label_text_def)
  qed (use that b(1) in simp)
  obtain v4 p2 where p2: "expression e p1 = Some (v4, p2)" "flags_ok v4" "built P p (\<lambda>\<nu>. ?c1 \<nu> @ ecode \<nu> e ?l) (label_count e) (name_count e) p2"
    using makesD [OF e p1(2)] s by auto
  let ?w = "warn_on (v4 AND EX_ASSGN \<noteq> 0) ''comparison in assignment'' p2"
  let ?c3 = "\<lambda>\<nu>. (?c1 \<nu> @ ecode \<nu> e ?l) @ (if c = CHR ''='' then [] else [I (Op c)])"
  obtain p3 where p3: "(if c \<noteq> CHR ''='' then genf [c] ?w else Some ?w) = Some p3" "built P p ?c3 (label_count e) (name_count e) p3"
  proof (cases "c = CHR ''=''")
    case False
    then have "stack_use (Op c) \<noteq> None" using c by (simp del: stack_use.simps)
    then show ?thesis using that built_op [OF built_warn [OF p2(3)], of c] False by (auto simp del: stack_use.simps)
  qed (use that built_warn [OF p2(3)] in simp)
  obtain p4 where "genf (store_text (int v)) p3 = Some p4" "built P p (\<lambda>\<nu>. ?c3 \<nu> @ [I (Store (\<nu> x))]) (label_count e) (name_count e) p4"
    using built_var [OF p3(2) b(2), of "[I (Store v)]" "store_text (int v)" "\<lambda>\<nu>. [I (Store (\<nu> x))]"] by (auto simp: store_text_def label_text_def)
  then show "\<exists>w p2. do {
      p \<leftarrow> (if c \<noteq> CHR ''='' then genf (load_text ''D'' (int v)) p else Some p);
      (v4, p) \<leftarrow> expression e p;
      let p = warn_on (v4 AND EX_ASSGN \<noteq> 0) ''comparison in assignment'' p;
      let p = error_on (is_void v4) ''Assignment of a void expression'' p;
      p \<leftarrow> (if c \<noteq> CHR ''='' then genf [c] p else Some p);
      p \<leftarrow> genf (store_text (int v)) p;
      Some (EX_ASSGN, p)
    } = Some (w, p2) \<and> flags_ok w \<and> built P p (\<lambda>\<nu>. ecode \<nu> (Assign (Simple x) c e) ?l) (label_count e) (name_count e) p2"
    using p1(1) p2(1,2) p3(1) by (intro exI [of _ 0] exI [of _ p4]) (cases "c = CHR ''=''"; simp add: Let_def)
qed simp_all

text \<open>All expressions that are covered.\<close>

lemma core_makes: "core_expr e \<Longrightarrow> makes e"
proof (induction e rule: core_expr.induct)
  case (1 s)
  show ?case
  proof (rule makesI)
    show "\<exists>v p2. expression (Number s) p = Some (v, p2) \<and> flags_ok v
        \<and> built P p (\<lambda>\<nu>. ecode \<nu> (Number s) (first_label p)) (label_count (Number s)) (name_count (Number s)) p2" if "built P p (\<lambda>\<nu>. []) 0 0 p" for P p
      using built_constant [OF that, of s] 1 by auto
  qed
next
  case (6 a)
  show ?case by (rule makes_unary [of a "CHR ''!''" True "''! operator''"]) (use 6 in auto)
next
  case (7 a r b)
  have r: "rel_code r = [hd (rel_code r)]" "hd (rel_code r) \<in> set cmp_ops" using 7 rel_codes by simp_all
  show ?case
  proof (rule makes_binary [of a b "hd (rel_code r)"])
    fix v w p p2 p3 p4 assume h: "expression a p = Some (v, p2)" "expression b p2 = Some (w, p3)" "flags_ok v" "flags_ok w" "gen [hd (rel_code r)] p3 = Some p4"
    then show "\<exists>u. expression (Rel a r b) p = Some (u, p4) \<and> flags_ok u" using r(1) by (simp add: Let_def) (metis list.distinct(1))
  qed (use 7 r(2) in \<open>auto simp del: stack_use.simps\<close>)
next
  case (8 a c b)
  show ?case by (rule makes_binary [of a b c]) (use 8 in \<open>auto simp: Let_def simp del: stack_use.simps\<close>)
next
  case (9 a)
  show ?case by (rule makes_unary [of a "CHR ''n''" False "[]"]) (use 9 in \<open>auto simp: warn_on_def\<close>)
next
  case (10 a)
  then have a: "makes a" by simp
  show ?case
  proof (rule makesI)
    show "\<exists>v p2. expression (Paren a) p = Some (v, p2) \<and> flags_ok v
        \<and> built P p (\<lambda>\<nu>. ecode \<nu> (Paren a) (first_label p)) (label_count (Paren a)) (name_count (Paren a)) p2"
      if "built P p (\<lambda>\<nu>. []) 0 0 p" "first_label p + label_count (Paren a) \<le> 65536" "next_var p + int (name_count (Paren a)) \<le> 32768" for P p
      using makesD [OF a that(1)] that(2,3) by auto
  qed
qed (simp_all add: makes_and makes_or makes_value makes_pre makes_post makes_assign)

end
