(* ===== verification/BcCompile.thy ===== *)
theory BcCompile
  imports BcExpr
begin

text \<open>
  The actions of statements generate their items, and \<open>input_item\<close> compiles statements, loads them and runs them.
\<close>

section \<open>Marks\<close>

definition set_marks :: "int \<times> int \<times> int \<Rightarrow> parser \<Rightarrow> parser" where
  "set_marks m p = p\<lparr>break_label := fst m, continue_label := fst (snd m), if_label := snd (snd m)\<rparr>"

lemma set_marks_sel [simp]: "ld (set_marks m p) = ld p" "name_tree (set_marks m p) = name_tree p" "next_label (set_marks m p) = next_label p"
  "next_var (set_marks m p) = next_var p" "next_func (set_marks m p) = next_func p" "next_array (set_marks m p) = next_array p"
  "genlen (set_marks m p) = genlen p" "did_gen (set_marks m p) = did_gen p" "marks (set_marks m p) = m" "set_marks m (set_marks m' p) = set_marks m p"
  by (simp_all add: set_marks_def marks_def)

lemma set_marks_same: "marks q = m \<Longrightarrow> set_marks m q = q"
  by (auto simp: set_marks_def marks_def)

lemma set_marks_cong:
  "number_of k (set_marks m p) x = number_of k p x" "agrees \<nu> (set_marks m p) = agrees \<nu> p" "compiling P (set_marks m p) = compiling P p"
  "library_left (set_marks m p) = library_left p" "next_of k (set_marks m p) = next_of k p"
proof -
  show num: "number_of k (set_marks m p) x = number_of k p x" "agrees \<nu> (set_marks m p) = agrees \<nu> p" "library_left (set_marks m p) = library_left p"
    "next_of k (set_marks m p) = next_of k p" for k x \<nu>
    by (cases k; simp add: number_of_def agrees_def library_left_def)+
  show "compiling P (set_marks m p) = compiling P p"
    by (simp add: compiling_def code_ok_def names_ok_def numbers_ok_def tables_ok_def vars_numbered_def num)
qed

lemma built_set_marks: "built P p C n c p1 \<Longrightarrow> built P (set_marks m p) C n c (set_marks m p1)"
  by (simp add: built_def compiled_def later_def set_marks_cong)

lemma built_marks: "built P p C n c p1 \<Longrightarrow> marks p1 = marks p"
  by (simp add: built_def compiled_def)

section \<open>Statements\<close>

definition does :: "(parser \<Rightarrow> parser option) \<Rightarrow> ((string \<Rightarrow> nat) \<Rightarrow> nat \<Rightarrow> item list) \<Rightarrow> nat \<Rightarrow> nat \<Rightarrow> bool" where
  "does f code n c \<longleftrightarrow> (\<forall>P p. built P p (\<lambda>\<nu>. []) 0 0 p \<longrightarrow> first_label p + n \<le> 65536 \<longrightarrow> next_var p + int c \<le> 32768
     \<longrightarrow> (\<exists>p2. f p = Some p2 \<and> built P p (\<lambda>\<nu>. code \<nu> (first_label p)) n c p2))"

lemma doesI:
  "(\<And>P p l. built P p (\<lambda>\<nu>. []) 0 0 p \<Longrightarrow> first_label p = l \<Longrightarrow> l + n \<le> 65536 \<Longrightarrow> next_var p + int c \<le> 32768
     \<Longrightarrow> \<exists>p2. f p = Some p2 \<and> built P p (\<lambda>\<nu>. code \<nu> l) n c p2) \<Longrightarrow> does f code n c"
  by (simp add: does_def)

lemma doesD:
  assumes "does f code m d" and b: "built P p C n c p1" and "first_label p + n + m \<le> 65536" and "next_var p + int (c + d) \<le> 32768"
  shows "\<exists>p2. f p1 = Some p2 \<and> built P p (\<lambda>\<nu>. C \<nu> @ code \<nu> (first_label p + n)) (n + m) (c + d) p2"
proof -
  note b' = builtD [OF b]
  obtain p2 where p2: "f p1 = Some p2" "built (\<lambda>\<nu>. P \<nu> @ C \<nu>) p1 (\<lambda>\<nu>. code \<nu> (first_label p1)) m d p2"
    using assms(1,3,4) built_start [OF b'(1)] b'(3,5) unfolding does_def by fastforce
  then have "compiled (\<lambda>\<nu>. P \<nu> @ C \<nu>) p1 p2 (\<lambda>\<nu>. code \<nu> (first_label p + n)) m d" using b'(3) by (simp add: built_def)
  from built_add [OF b this] p2(1) show ?thesis by blast
qed

text \<open>Optional expressions.\<close>

fun opt_names :: "expr option \<Rightarrow> nat" where
  "opt_names None = 0"
| "opt_names (Some e) = name_count e"

fun opt_code :: "(string \<Rightarrow> nat) \<Rightarrow> expr option \<Rightarrow> nat \<Rightarrow> item list" where
  "opt_code \<nu> None l = []"
| "opt_code \<nu> (Some e) l = ecode \<nu> e l"

lemma opt_makes:
  assumes eo: "core_opt eo" and b: "built P p C n c p1" and s: "first_label p + n + opt_count eo \<le> 65536" "next_var p + int (c + opt_names eo) \<le> 32768"
  shows "\<exists>v p2. opt_expression eo p1 = Some (v, p2) \<and> v AND EX_VOID = 0 \<and> (v AND EX_EMPTY = 0 \<longleftrightarrow> eo \<noteq> None)
    \<and> built P p (\<lambda>\<nu>. C \<nu> @ opt_code \<nu> eo (first_label p + n)) (n + opt_count eo) (c + opt_names eo) p2"
proof (cases eo)
  case None
  then show ?thesis using built_warn [OF b] by simp
next
  case (Some e)
  then show ?thesis using makesD [OF core_makes b, of e] eo s by auto
qed

text \<open>At most so many new variables.\<close>

fun stmt_names :: "stmt \<Rightarrow> nat" and list_names :: "stmt list \<Rightarrow> nat" where
  "stmt_names (Expression e) = name_count e"
| "stmt_names (If e nl s) = name_count e + stmt_names s"
| "stmt_names (If_else e nl s1 nl2 s2) = name_count e + stmt_names s1 + stmt_names s2"
| "stmt_names (While e nl s) = name_count e + stmt_names s"
| "stmt_names (For e1 e2 e3 nl s) = opt_names e1 + opt_names e2 + opt_names e3 + stmt_names s"
| "stmt_names (Block ss) = list_names ss"
| "stmt_names _ = 0"
| "list_names [] = 0"
| "list_names (s # ss) = stmt_names s + list_names ss"

lemma opt_labels: "n \<in> labels (opt_code \<nu> eo l) \<Longrightarrow> l \<le> n \<and> n < l + opt_count eo"
  using ecode_labels [of n \<nu> _ l] by (cases eo) auto

lemma does_assign:
  assumes "core_expr (Assign n c e)"
  shows "does (statement (Expression (Assign n c e))) (\<lambda>\<nu>. scode \<nu> (Expression (Assign n c e))) (label_count (Assign n c e)) (name_count (Assign n c e))"
proof (rule doesI)
  let ?e = "Assign n c e"
  fix P p l assume b: "built P p (\<lambda>\<nu>. []) 0 0 p" and l: "first_label p = l" and s: "l + label_count ?e \<le> 65536" "next_var p + int (name_count ?e) \<le> 32768"
  obtain v p1 where p1: "expression ?e p = Some (v, p1)" "built P p (\<lambda>\<nu>. [] @ ecode \<nu> ?e (l + 0)) (0 + label_count ?e) (0 + name_count ?e) p1"
    using makesD [OF core_makes [OF assms] b] s l by auto
  have v: "v = 0" using p1(1) by (auto simp: Let_def split: bind_splits)
  obtain p2 where "gen ''p'' (warn_on (is_comp v) ''comparison in expression'' p1) = Some p2"
    "built P p (\<lambda>\<nu>. ([] @ ecode \<nu> ?e (l + 0)) @ [I (Op (CHR ''p''))]) (0 + label_count ?e) (0 + name_count ?e) p2"
    using built_op [OF built_warn [OF p1(2)] plain_ops(2)] by blast
  then show "\<exists>p2. statement (Expression ?e) p = Some p2 \<and> built P p (\<lambda>\<nu>. scode \<nu> (Expression ?e) l) (label_count ?e) (name_count ?e) p2"
    using p1(1) v by (simp add: Let_def del: expression.simps)
qed

text \<open>An assignment of marks in the middle, and the old ones again at the end.\<close>

lemma built_mark:
  assumes "built P p C n c p1" and "p2 = set_marks m p1"
  shows "built P (set_marks m p) C n c p2" "marks p2 = m"
  using built_set_marks [OF assms(1)] assms(2) by simp_all

lemma built_restore:
  assumes "built P (set_marks m p) C n c p1" and "p2 = set_marks (marks p) p1"
  shows "built P p C n c p2"
  using built_set_marks [OF assms(1), of "marks p"] assms(2) set_marks_same [OF refl] by simp

lemma built_marked:
  assumes "built P (set_marks m p) C n c p1"
  shows "break_label p1 = fst m" "continue_label p1 = fst (snd m)" "if_label p1 = snd (snd m)"
  using built_marks [OF assms] unfolding set_marks_sel by (auto simp: marks_def)

lemma if_head_built:
  assumes e: "core_expr e" and b: "built P p (\<lambda>\<nu>. []) 0 0 p" and l: "first_label p = l"
    and s: "l + label_count e < 65536" "next_var p + int (name_count e) \<le> 32768"
  shows "\<exists>p1. if_head e p = Some p1 \<and> built P (set_marks (break_label p, continue_label p, int (l + label_count e)) p)
     (\<lambda>\<nu>. ecode \<nu> e l @ [Jmp (CHR ''Z'') (l + label_count e)]) (Suc (label_count e)) (name_count e) p1"
proof -
  let ?L = "l + label_count e"
  obtain v p1 where p1: "expression e p = Some (v, p1)" "flags_ok v" "built P p (\<lambda>\<nu>. ecode \<nu> e l) (label_count e) (name_count e) p1"
    using makesD [OF core_makes [OF e] b] s l by auto
  obtain p2 where p2: "new_label p1 = Some (int ?L, p2)" "built P p (\<lambda>\<nu>. ecode \<nu> e l) (Suc (label_count e)) (name_count e) p2"
    using built_label [OF p1(3), unfolded l] s by auto
  let ?m = "(break_label p, continue_label p, int ?L)"
  have "p2\<lparr>if_label := int ?L\<rparr> = set_marks ?m p2" using built_marks [OF p2(2)] by (auto simp: set_marks_def marks_def)
  note q = built_mark [OF p2(2) this]
  have "\<exists>r. gen (label_text (CHR ''Z'') (int ?L)) (p2\<lparr>if_label := int ?L\<rparr>) = Some r \<and> genf (label_text (CHR ''Z'') (int ?L)) (p2\<lparr>if_label := int ?L\<rparr>) = Some r
    \<and> built P (set_marks ?m p) (\<lambda>\<nu>. ecode \<nu> e l @ [Jmp (CHR ''Z'') ?L]) (Suc (label_count e)) (name_count e) r"
    by (rule built_gen [OF q(1)]) (use s in \<open>auto simp: label_text_def\<close>)
  then show ?thesis using p1(1,2) p2(1) by (auto simp: if_head_def Let_def)
qed

lemma does_if:
  assumes e: "core_expr e" and st: "does (statement s) (\<lambda>\<nu>. scode \<nu> s) (stmt_count s) (stmt_names s)"
  shows "does (statement (If e nl s)) (\<lambda>\<nu>. scode \<nu> (If e nl s)) (stmt_count (If e nl s)) (stmt_names (If e nl s))"
proof (rule doesI)
  fix P p l assume b: "built P p (\<lambda>\<nu>. []) 0 0 p" and l: "first_label p = l"
    and s: "l + stmt_count (If e nl s) \<le> 65536" "next_var p + int (stmt_names (If e nl s)) \<le> 32768"
  let ?L = "l + label_count e" and ?n = "Suc (label_count e) + stmt_count s" and ?c = "name_count e + stmt_names s"
  let ?m = "(break_label p, continue_label p, int ?L)"
  obtain p1 where p1: "if_head e p = Some p1" "built P (set_marks ?m p) (\<lambda>\<nu>. ecode \<nu> e l @ [Jmp (CHR ''Z'') ?L]) (Suc (label_count e)) (name_count e) p1"
    using if_head_built [OF e b l] s by auto
  let ?C = "\<lambda>\<nu>. (ecode \<nu> e l @ [Jmp (CHR ''Z'') ?L]) @ scode \<nu> s (l + Suc (label_count e))"
  obtain p2 where p2: "statement s (opt_newline nl p1) = Some p2" "built P (set_marks ?m p) ?C ?n ?c p2"
    using doesD [OF st built_warn [OF p1(2)]] s l unfolding opt_newline_def by auto
  have il: "if_label p2 = int ?L" using built_marked(3) [OF p2(2)] by simp
  have fresh: "?L \<notin> labels (?C \<nu>)" for \<nu>
    using ecode_labels [of ?L \<nu> e l] scode_labels(1) [of ?L \<nu> s "l + Suc (label_count e)"] by auto
  have "\<exists>r. gen (label_text (CHR ''N'') (int ?L)) p2 = Some r \<and> genf (label_text (CHR ''N'') (int ?L)) p2 = Some r
    \<and> built P (set_marks ?m p) (\<lambda>\<nu>. ?C \<nu> @ [Lab ?L]) ?n ?c r"
    by (rule built_gen [OF p2(2)]) (use s l fresh in \<open>auto simp: label_text_def\<close>)
  then obtain p3 where p3: "genf (label_text (CHR ''N'') (int ?L)) p2 = Some p3" "built P (set_marks ?m p) (\<lambda>\<nu>. ?C \<nu> @ [Lab ?L]) ?n ?c p3" by blast
  have "p3\<lparr>if_label := if_label p\<rparr> = set_marks (marks p) p3" using built_marked [OF p3(2)] by (simp add: set_marks_def marks_def)
  from built_restore [OF p3(2) this] show "\<exists>p2. statement (If e nl s) p = Some p2
      \<and> built P p (\<lambda>\<nu>. scode \<nu> (If e nl s) l) (stmt_count (If e nl s)) (stmt_names (If e nl s)) p2"
    using p1(1) p2(1) il p3(1) by (auto simp: Let_def)
qed

lemma does_if_else:
  assumes e: "core_expr e" and st1: "does (statement s1) (\<lambda>\<nu>. scode \<nu> s1) (stmt_count s1) (stmt_names s1)"
    and st2: "does (statement s2) (\<lambda>\<nu>. scode \<nu> s2) (stmt_count s2) (stmt_names s2)"
  shows "does (statement (If_else e nl s1 nl2 s2)) (\<lambda>\<nu>. scode \<nu> (If_else e nl s1 nl2 s2)) (stmt_count (If_else e nl s1 nl2 s2)) (stmt_names (If_else e nl s1 nl2 s2))"
    (is "does (statement ?st) _ _ _")
proof (rule doesI)
  fix P p l assume b: "built P p (\<lambda>\<nu>. []) 0 0 p" and l: "first_label p = l"
    and s: "l + stmt_count ?st \<le> 65536" "next_var p + int (stmt_names ?st) \<le> 32768"
  let ?L = "l + label_count e" let ?M = "Suc ?L + stmt_count s1"
  let ?m = "(break_label p, continue_label p, int ?L)" and ?m2 = "(break_label p, continue_label p, int ?M)"
  obtain p1 where p1: "if_head e p = Some p1" "built P (set_marks ?m p) (\<lambda>\<nu>. ecode \<nu> e l @ [Jmp (CHR ''Z'') ?L]) (Suc (label_count e)) (name_count e) p1"
    using if_head_built [OF e b l] s by auto
  let ?C = "\<lambda>\<nu>. (ecode \<nu> e l @ [Jmp (CHR ''Z'') ?L]) @ scode \<nu> s1 (Suc ?L)"
  let ?n = "Suc (label_count e) + stmt_count s1" and ?c = "name_count e + stmt_names s1"
  obtain p2 where p2: "statement s1 (opt_newline nl p1) = Some p2" "built P (set_marks ?m p) ?C ?n ?c p2"
    using doesD [OF st1 built_warn [OF p1(2)], unfolded set_marks_sel l] s unfolding opt_newline_def by auto
  obtain p3 where p3: "new_label (warn_on True ''else clause in if statement'' p2) = Some (int ?M, p3)" "built P (set_marks ?m p) ?C (Suc ?n) ?c p3"
    using built_label [OF built_warn [OF p2(2)], unfolded set_marks_sel l] s by (auto simp: add.assoc)
  have il: "if_label p3 = int ?L" using built_marked(3) [OF p3(2)] by simp
  have fresh: "k \<notin> labels (?C \<nu>)" if "k = ?L \<or> k = ?M" for \<nu> k
    using that ecode_labels [of k \<nu> e l] scode_labels(1) [of k \<nu> s1 "Suc ?L"] by auto
  let ?tx = "label_text (CHR ''J'') (int ?M) @ label_text (CHR ''N'') (int ?L)"
  let ?C2 = "\<lambda>\<nu>. ?C \<nu> @ [Jmp (CHR ''J'') ?M, Lab ?L]"
  have "\<exists>r. gen ?tx p3 = Some r \<and> genf ?tx p3 = Some r \<and> built P (set_marks ?m p) ?C2 (Suc ?n) ?c r"
    by (rule built_gen [OF p3(2)]) (use s l fresh in \<open>auto simp: label_text_def\<close>)
  then obtain p4 where p4: "genf ?tx p3 = Some p4" "built P (set_marks ?m p) ?C2 (Suc ?n) ?c p4" by blast
  have "p4\<lparr>if_label := int ?M\<rparr> = set_marks ?m2 p4" using built_marked [OF p4(2)] by (simp add: set_marks_def marks_def)
  from built_mark(1) [OF p4(2) this] have q: "built P (set_marks ?m2 p) ?C2 (Suc ?n) ?c (p4\<lparr>if_label := int ?M\<rparr>)" by simp
  have eh: "else_head p2 = Some (p4\<lparr>if_label := int ?M\<rparr>)" using p3(1) p4(1) il by (simp add: else_head_def)
  let ?C3 = "\<lambda>\<nu>. ?C2 \<nu> @ scode \<nu> s2 (Suc ?M)"
  obtain p5 where p5: "statement s2 (opt_newline nl2 (p4\<lparr>if_label := int ?M\<rparr>)) = Some p5"
      "built P (set_marks ?m2 p) ?C3 (Suc ?n + stmt_count s2) (?c + stmt_names s2) p5"
    using doesD [OF st2 built_warn [OF q], unfolded set_marks_sel l] s unfolding opt_newline_def by (auto simp: add.assoc)
  have il5: "if_label p5 = int ?M" using built_marked(3) [OF p5(2)] by simp
  have fresh2: "?M \<notin> labels (?C3 \<nu>)" for \<nu> using fresh [of ?M \<nu>] scode_labels(1) [of ?M \<nu> s2 "Suc ?M"] by auto
  have "\<exists>r. gen (label_text (CHR ''N'') (int ?M)) p5 = Some r \<and> genf (label_text (CHR ''N'') (int ?M)) p5 = Some r
    \<and> built P (set_marks ?m2 p) (\<lambda>\<nu>. ?C3 \<nu> @ [Lab ?M]) (Suc ?n + stmt_count s2) (?c + stmt_names s2) r"
    by (rule built_gen [OF p5(2)]) (use s l fresh2 in \<open>auto simp: label_text_def\<close>)
  then obtain p6 where p6: "genf (label_text (CHR ''N'') (int ?M)) p5 = Some p6"
    "built P (set_marks ?m2 p) (\<lambda>\<nu>. ?C3 \<nu> @ [Lab ?M]) (Suc ?n + stmt_count s2) (?c + stmt_names s2) p6" by blast
  have "p6\<lparr>if_label := if_label p\<rparr> = set_marks (marks p) p6" using built_marked [OF p6(2)] by (simp add: set_marks_def marks_def)
  from built_restore [OF p6(2) this] show "\<exists>p2. statement ?st p = Some p2 \<and> built P p (\<lambda>\<nu>. scode \<nu> ?st l) (stmt_count ?st) (stmt_names ?st) p2"
    using p1(1) p2(1) eh p5(1) il5 p6(1) by (auto simp: Let_def add.assoc)
qed

lemma loop_end_built:
  assumes b: "built P q C n c p1" and l: "first_label q = l" and m: "break_label p1 = int B" "continue_label p1 = int k"
    and B: "l \<le> B" "B < l + n" "\<And>\<nu>. B \<notin> labels (C \<nu>)" and s: "l + n \<le> 65536" "k < l + n"
  shows "\<exists>p2. loop_end p1 = Some p2 \<and> built P q (\<lambda>\<nu>. C \<nu> @ [Jmp (CHR ''J'') k, Lab B]) n c p2"
proof -
  let ?tx = "label_text (CHR ''J'') (int k) @ label_text (CHR ''N'') (int B)"
  have "\<exists>r. gen ?tx p1 = Some r \<and> genf ?tx p1 = Some r \<and> built P q (\<lambda>\<nu>. C \<nu> @ [Jmp (CHR ''J'') k, Lab B]) n c r"
    by (rule built_gen [OF b]) (use B s l in \<open>auto simp: label_text_def\<close>)
  then show ?thesis using m by (auto simp: loop_end_def)
qed

lemma while_head_built:
  assumes e: "core_expr e" and b: "built P p (\<lambda>\<nu>. []) 0 0 p" and l: "first_label p = l"
    and s: "l + label_count e + 2 \<le> 65536" "next_var p + int (name_count e) \<le> 32768"
  shows "\<exists>p1. while_head e p = Some p1 \<and> built P (set_marks (int (Suc l + label_count e), int l, if_label p) p)
     (\<lambda>\<nu>. [Lab l] @ ecode \<nu> e (Suc l) @ [Jmp (CHR ''Z'') (Suc l + label_count e)]) (2 + label_count e) (name_count e) p1"
proof -
  let ?L = "Suc l + label_count e"
  let ?m = "(break_label p, int l, if_label p)" and ?m2 = "(int ?L, int l, if_label p)"
  obtain p1 where p1: "new_label p = Some (int l, p1)" "built P p (\<lambda>\<nu>. []) 1 0 p1" using built_label [OF b, unfolded l] s by auto
  have "p1\<lparr>continue_label := int l\<rparr> = set_marks ?m p1" using built_marks [OF p1(2)] by (auto simp: set_marks_def marks_def)
  note q = built_mark [OF p1(2) this]
  have "\<exists>r. gen (label_text (CHR ''N'') (int l)) (p1\<lparr>continue_label := int l\<rparr>) = Some r \<and> genf (label_text (CHR ''N'') (int l)) (p1\<lparr>continue_label := int l\<rparr>) = Some r
    \<and> built P (set_marks ?m p) (\<lambda>\<nu>. [] @ [Lab l]) 1 0 r"
    by (rule built_gen [OF q(1)]) (use s l in \<open>auto simp: label_text_def\<close>)
  then obtain p2 where p2: "genf (label_text (CHR ''N'') (int l)) (p1\<lparr>continue_label := int l\<rparr>) = Some p2" "built P (set_marks ?m p) (\<lambda>\<nu>. [] @ [Lab l]) 1 0 p2" by blast
  obtain v p3 where p3: "expression e p2 = Some (v, p3)" "flags_ok v" "built P (set_marks ?m p) (\<lambda>\<nu>. [Lab l] @ ecode \<nu> e (Suc l)) (Suc (label_count e)) (name_count e) p3"
    using makesD [OF core_makes [OF e] p2(2), unfolded set_marks_sel l] s by auto
  obtain p4 where p4: "new_label p3 = Some (int ?L, p4)" "built P (set_marks ?m p) (\<lambda>\<nu>. [Lab l] @ ecode \<nu> e (Suc l)) (Suc (Suc (label_count e))) (name_count e) p4"
    using built_label [OF p3(3), unfolded set_marks_sel l] s by (auto simp: add.assoc)
  have "p4\<lparr>break_label := int ?L\<rparr> = set_marks ?m2 p4" using built_marked [OF p4(2)] by (simp add: set_marks_def)
  from built_mark(1) [OF p4(2) this]
  have q4: "built P (set_marks ?m2 p) (\<lambda>\<nu>. [Lab l] @ ecode \<nu> e (Suc l)) (Suc (Suc (label_count e))) (name_count e) (p4\<lparr>break_label := int ?L\<rparr>)" by simp
  have "\<exists>r. gen (label_text (CHR ''Z'') (int ?L)) (p4\<lparr>break_label := int ?L\<rparr>) = Some r \<and> genf (label_text (CHR ''Z'') (int ?L)) (p4\<lparr>break_label := int ?L\<rparr>) = Some r
    \<and> built P (set_marks ?m2 p) (\<lambda>\<nu>. ([Lab l] @ ecode \<nu> e (Suc l)) @ [Jmp (CHR ''Z'') ?L]) (Suc (Suc (label_count e))) (name_count e) r"
    by (rule built_gen [OF q4]) (use s l in \<open>auto simp: label_text_def\<close>)
  then show ?thesis using p1(1) p2(1) p3(1,2) p4(1) by (auto simp: while_head_def Let_def)
qed

lemma does_while:
  assumes e: "core_expr e" and st: "does (statement s) (\<lambda>\<nu>. scode \<nu> s) (stmt_count s) (stmt_names s)"
  shows "does (statement (While e nl s)) (\<lambda>\<nu>. scode \<nu> (While e nl s)) (stmt_count (While e nl s)) (stmt_names (While e nl s))"
proof (rule doesI)
  fix P p l assume b: "built P p (\<lambda>\<nu>. []) 0 0 p" and l: "first_label p = l"
    and s: "l + stmt_count (While e nl s) \<le> 65536" "next_var p + int (stmt_names (While e nl s)) \<le> 32768"
  let ?L = "Suc l + label_count e" and ?n = "2 + label_count e + stmt_count s" and ?c = "name_count e + stmt_names s"
  let ?m = "(int ?L, int l, if_label p)" and ?C1 = "\<lambda>\<nu>. [Lab l] @ ecode \<nu> e (Suc l) @ [Jmp (CHR ''Z'') ?L]"
  obtain p1 where p1: "while_head e p = Some p1" "built P (set_marks ?m p) ?C1 (2 + label_count e) (name_count e) p1"
    using while_head_built [OF e b l] s by auto
  let ?C = "\<lambda>\<nu>. ?C1 \<nu> @ scode \<nu> s (Suc ?L)"
  obtain p2 where p2: "statement s (opt_newline nl p1) = Some p2" "built P (set_marks ?m p) ?C ?n ?c p2"
    using doesD [OF st built_warn [OF p1(2)], unfolded set_marks_sel l] s unfolding opt_newline_def by auto
  have fresh: "?L \<notin> labels (?C \<nu>)" for \<nu> using ecode_labels [of ?L \<nu> e "Suc l"] scode_labels(1) [of ?L \<nu> s "Suc ?L"] by auto
  obtain p3 where p3: "loop_end p2 = Some p3" "built P (set_marks ?m p) (\<lambda>\<nu>. ?C \<nu> @ [Jmp (CHR ''J'') l, Lab ?L]) ?n ?c p3"
    using loop_end_built [OF p2(2) _ _ _ _ _ fresh, of l l] built_marked [OF p2(2)] s l by auto
  have "p3\<lparr>break_label := break_label p, continue_label := continue_label p\<rparr> = set_marks (marks p) p3"
    using built_marked [OF p3(2)] by (simp add: set_marks_def marks_def)
  from built_restore [OF p3(2) this] show "\<exists>p2. statement (While e nl s) p = Some p2
      \<and> built P p (\<lambda>\<nu>. scode \<nu> (While e nl s) l) (stmt_count (While e nl s)) (stmt_names (While e nl s)) p2"
    using p1(1) p2(1) p3(1) by (auto simp: Let_def)
qed

text \<open>A piece of a \<^verbatim>\<open>for\<close>: an optional expression whose value is dropped, or that is 1 when it is missing.\<close>

lemma opt_effect_built:
  assumes eo: "core_opt eo" and b: "built P p C n c p1" and s: "first_label p + n + opt_count eo \<le> 65536" "next_var p + int (c + opt_names eo) \<le> 32768"
  shows "\<exists>v p2 p3. opt_expression eo p1 = Some (v, p2) \<and> v AND EX_VOID = 0
    \<and> (if v AND EX_EMPTY = 0 then gen ''p'' (warn_on (is_comp v) mesg p2) else Some (warn_on (is_comp v) mesg p2)) = Some p3
    \<and> built P p (\<lambda>\<nu>. C \<nu> @ effect_code \<nu> eo (first_label p + n)) (n + opt_count eo) (c + opt_names eo) p3"
proof -
  obtain v p2 where p2: "opt_expression eo p1 = Some (v, p2)" "v AND EX_VOID = 0" "v AND EX_EMPTY = 0 \<longleftrightarrow> eo \<noteq> None"
    "built P p (\<lambda>\<nu>. C \<nu> @ opt_code \<nu> eo (first_label p + n)) (n + opt_count eo) (c + opt_names eo) p2" using opt_makes [OF eo b s] by blast
  note w = built_warn [OF p2(4), of "is_comp v" mesg]
  show ?thesis
  proof (cases eo)
    case None
    then show ?thesis using p2 w by auto
  next
    case (Some e)
    then show ?thesis using p2 built_op [OF w plain_ops(2)] by auto
  qed
qed

lemma opt_test_built:
  assumes eo: "core_opt eo" and b: "built P p C n c p1" and s: "first_label p + n + opt_count eo \<le> 65536" "next_var p + int (c + opt_names eo) \<le> 32768"
  shows "\<exists>v p2 p3. opt_expression eo p1 = Some (v, p2) \<and> v AND EX_VOID = 0
    \<and> (if v AND EX_EMPTY \<noteq> 0 then gen ''1'' p2 else Some p2) = Some p3
    \<and> built P p (\<lambda>\<nu>. C \<nu> @ test_code \<nu> eo (first_label p + n)) (n + opt_count eo) (c + opt_names eo) p3"
proof -
  obtain v p2 where p2: "opt_expression eo p1 = Some (v, p2)" "v AND EX_VOID = 0" "v AND EX_EMPTY = 0 \<longleftrightarrow> eo \<noteq> None"
    "built P p (\<lambda>\<nu>. C \<nu> @ opt_code \<nu> eo (first_label p + n)) (n + opt_count eo) (c + opt_names eo) p2" using opt_makes [OF eo b s] by blast
  show ?thesis
  proof (cases eo)
    case None
    then show ?thesis using p2 built_op [OF p2(4) plain_ops(4)] by auto
  next
    case (Some e)
    then show ?thesis using p2 by auto
  qed
qed

text \<open>The third expression of a \<^verbatim>\<open>for\<close> and what follows it go into one text.\<close>

lemma for_step_built:
  assumes eo: "core_opt eo" and b: "built P p C n c p1" and l: "first_label p = l"
    and s: "l + n + opt_count eo \<le> 65536" "next_var p + int (c + opt_names eo) \<le> 32768"
    and labs: "l4 < l + n" "l \<le> l7" "l7 < l + n" "\<And>\<nu>. l7 \<notin> labels (C \<nu>)"
  shows "\<exists>v p2 p3. opt_expression eo p1 = Some (v, p2) \<and> v AND EX_VOID = 0
    \<and> genf ((if v AND EX_EMPTY \<noteq> 0 then [] else ''p'') @ label_text (CHR ''J'') (int l4) @ label_text (CHR ''N'') (int l7)) (warn_on (is_comp v) mesg p2) = Some p3
    \<and> built P p (\<lambda>\<nu>. (C \<nu> @ effect_code \<nu> eo (l + n)) @ [Jmp (CHR ''J'') l4, Lab l7]) (n + opt_count eo) (c + opt_names eo) p3"
proof -
  obtain v p2 where p2: "opt_expression eo p1 = Some (v, p2)" "v AND EX_VOID = 0" "v AND EX_EMPTY = 0 \<longleftrightarrow> eo \<noteq> None"
    "built P p (\<lambda>\<nu>. C \<nu> @ opt_code \<nu> eo (l + n)) (n + opt_count eo) (c + opt_names eo) p2"
    using opt_makes [OF eo b] s unfolding l by blast
  let ?its = "(if eo = None then [] else [pop_item]) @ [Jmp (CHR ''J'') l4, Lab l7]"
  let ?tx = "(if v AND EX_EMPTY \<noteq> 0 then [] else ''p'') @ label_text (CHR ''J'') (int l4) @ label_text (CHR ''N'') (int l7)"
  have fresh: "l7 \<notin> labels (C \<nu> @ opt_code \<nu> eo (l + n))" for \<nu> using labs(3,4) opt_labels [of l7 \<nu> eo "l + n"] by auto
  have eq: "(C \<nu> @ opt_code \<nu> eo (l + n)) @ ?its = (C \<nu> @ effect_code \<nu> eo (l + n)) @ [Jmp (CHR ''J'') l4, Lab l7]" for \<nu>
    by (cases eo) simp_all
  have "\<exists>r. gen ?tx (warn_on (is_comp v) mesg p2) = Some r \<and> genf ?tx (warn_on (is_comp v) mesg p2) = Some r
    \<and> built P p (\<lambda>\<nu>. (C \<nu> @ opt_code \<nu> eo (l + n)) @ ?its) (n + opt_count eo) (c + opt_names eo) r"
    by (rule built_gen [OF built_warn [OF p2(4)]]) (use s l labs fresh p2(3) in \<open>auto simp: label_text_def simp del: stack_use.simps split: if_splits\<close>)
  then show ?thesis using p2(1,2) unfolding eq by blast
qed

lemma for_head_built:
  assumes eo: "core_opt e1" "core_opt e2" "core_opt e3" and b: "built P p (\<lambda>\<nu>. []) 1 0 p0" and l: "first_label p = l"
    and m: "break_label p0 = int l"
    and s: "l + 4 + opt_count e1 + opt_count e2 + opt_count e3 \<le> 65536" "next_var p + int (opt_names e1 + opt_names e2 + opt_names e3) \<le> 32768"
  shows "let l4 = Suc l + opt_count e1; l7 = Suc l4 + opt_count e2; l9 = Suc l7
    in \<exists>p1. for_head e1 e2 e3 p0 = Some p1 \<and> built P (set_marks (int l, int l9, if_label p0) p)
         (\<lambda>\<nu>. effect_code \<nu> e1 (Suc l) @ [Lab l4] @ test_code \<nu> e2 (Suc l4) @ [Jmp (CHR ''B'') l7, Jmp (CHR ''J'') l, Lab l9]
           @ effect_code \<nu> e3 (Suc l9) @ [Jmp (CHR ''J'') l4, Lab l7])
         (4 + opt_count e1 + opt_count e2 + opt_count e3) (opt_names e1 + opt_names e2 + opt_names e3) p1"
proof -
  let ?l4 = "Suc l + opt_count e1" let ?l7 = "Suc ?l4 + opt_count e2" let ?l9 = "Suc ?l7"
  let ?n1 = "Suc (opt_count e1)" let ?n2 = "Suc ?n1 + opt_count e2" let ?o2 = "opt_names e1 + opt_names e2"
  let ?m = "(int l, int ?l9, if_label p0)"
  let ?C1 = "\<lambda>\<nu>. effect_code \<nu> e1 (Suc l)" let ?C2 = "\<lambda>\<nu>. ?C1 \<nu> @ [Lab ?l4]" let ?C3 = "\<lambda>\<nu>. ?C2 \<nu> @ test_code \<nu> e2 (Suc ?l4)"
  let ?C4 = "\<lambda>\<nu>. ?C3 \<nu> @ [Jmp (CHR ''B'') ?l7, Jmp (CHR ''J'') l]" let ?C5 = "\<lambda>\<nu>. ?C4 \<nu> @ [Lab ?l9]"
  have fresh: "k \<notin> labels (?C1 \<nu>)" "k \<notin> labels (test_code \<nu> e2 (Suc ?l4))" if "k = ?l4 \<or> k = ?l7 \<or> k = ?l9" for \<nu> k
    using that effect_labels [of k \<nu> e1 "Suc l"] test_labels [of k \<nu> e2 "Suc ?l4"] by auto
  have le1: "first_label p + 1 + opt_count e1 \<le> 65536" "next_var p + int (0 + opt_names e1) \<le> 32768" using s l by simp_all
  obtain v1 pa pb where pb: "opt_expression e1 p0 = Some (v1, pa)" "v1 AND EX_VOID = 0"
      "(if v1 AND EX_EMPTY = 0 then gen ''p'' (warn_on (is_comp v1) ''Comparison in first for expression'' pa)
        else Some (warn_on (is_comp v1) ''Comparison in first for expression'' pa)) = Some pb"
      "built P p ?C1 ?n1 (opt_names e1) pb" using opt_effect_built [OF eo(1) b le1, of "''Comparison in first for expression''", unfolded l] by auto
  obtain pc where pc: "new_label pb = Some (int ?l4, pc)" "built P p ?C1 (Suc ?n1) (opt_names e1) pc"
    using built_label [OF pb(4), unfolded l] s by (auto simp: add.assoc)
  have "\<exists>r. gen (label_text (CHR ''N'') (int ?l4)) pc = Some r \<and> genf (label_text (CHR ''N'') (int ?l4)) pc = Some r \<and> built P p ?C2 (Suc ?n1) (opt_names e1) r"
    by (rule built_gen [OF pc(2)]) (use s l fresh in \<open>auto simp: label_text_def\<close>)
  then obtain pd where pd: "genf (label_text (CHR ''N'') (int ?l4)) pc = Some pd" "built P p ?C2 (Suc ?n1) (opt_names e1) pd" by blast
  have le2: "first_label p + Suc ?n1 + opt_count e2 \<le> 65536" "next_var p + int (opt_names e1 + opt_names e2) \<le> 32768" using s l by simp_all
  have n2: "first_label p + Suc ?n1 = Suc ?l4" using l by simp
  obtain v2 pe pf where pf: "opt_expression e2 pd = Some (v2, pe)" "v2 AND EX_VOID = 0" "(if v2 AND EX_EMPTY \<noteq> 0 then gen ''1'' pe else Some pe) = Some pf"
      "built P p ?C3 ?n2 ?o2 pf" using opt_test_built [OF eo(2) pd(2) le2] unfolding n2 by blast
  obtain pg where pg: "new_label pf = Some (int ?l7, pg)" "built P p ?C3 (Suc ?n2) ?o2 pg"
    using built_label [OF pf(4), unfolded l] s by (auto simp: add.assoc)
  have bl: "break_label pg = int l" using built_marks [OF pg(2)] built_marks [OF b] m by (simp add: marks_def)
  let ?tx = "label_text (CHR ''B'') (int ?l7) @ label_text (CHR ''J'') (int l)"
  have "\<exists>r. gen ?tx pg = Some r \<and> genf ?tx pg = Some r \<and> built P p ?C4 (Suc ?n2) ?o2 r"
    by (rule built_gen [OF pg(2)]) (use s l in \<open>auto simp: label_text_def\<close>)
  then obtain ph where ph: "genf ?tx pg = Some ph" "built P p ?C4 (Suc ?n2) ?o2 ph" by blast
  obtain pi where pi: "new_label ph = Some (int ?l9, pi)" "built P p ?C4 (Suc (Suc ?n2)) ?o2 pi"
    using built_label [OF ph(2), unfolded l] s by (auto simp: add.assoc)
  have "pi\<lparr>continue_label := int ?l9\<rparr> = set_marks ?m pi" using built_marks [OF pi(2)] built_marks [OF b] m by (simp add: set_marks_def marks_def)
  note pj = built_mark [OF pi(2) this]
  have "\<exists>r. gen (label_text (CHR ''N'') (int ?l9)) (pi\<lparr>continue_label := int ?l9\<rparr>) = Some r
      \<and> genf (label_text (CHR ''N'') (int ?l9)) (pi\<lparr>continue_label := int ?l9\<rparr>) = Some r \<and> built P (set_marks ?m p) ?C5 (Suc (Suc ?n2)) ?o2 r"
    by (rule built_gen [OF pj(1)]) (use s l fresh in \<open>auto simp: label_text_def\<close>)
  then obtain pk where pk: "genf (label_text (CHR ''N'') (int ?l9)) (pi\<lparr>continue_label := int ?l9\<rparr>) = Some pk"
    "built P (set_marks ?m p) ?C5 (Suc (Suc ?n2)) ?o2 pk" by blast
  have fr: "?l7 \<notin> labels (?C5 \<nu>)" for \<nu> using fresh [of ?l7 \<nu>] by simp
  have fl: "first_label (set_marks ?m p) = l" using l by simp
  obtain v3 pl pm where "opt_expression e3 pk = Some (v3, pl)" "v3 AND EX_VOID = 0"
      "genf ((if v3 AND EX_EMPTY \<noteq> 0 then [] else ''p'') @ label_text (CHR ''J'') (int ?l4) @ label_text (CHR ''N'') (int ?l7))
         (warn_on (is_comp v3) ''Comparison in third for expression'' pl) = Some pm"
      "built P (set_marks ?m p) (\<lambda>\<nu>. (?C5 \<nu> @ effect_code \<nu> e3 (l + Suc (Suc ?n2))) @ [Jmp (CHR ''J'') ?l4, Lab ?l7]) (Suc (Suc ?n2) + opt_count e3) (?o2 + opt_names e3) pm"
    using for_step_built [OF eo(3) pk(2) fl _ _ _ _ _ fr, of ?l4 "''Comparison in third for expression''"] s by auto
  note pm = this
  have "for_head e1 e2 e3 p0 = Some pm"
    using pb(1-3) pc(1) pd(1) pf(1-3) pg(1) bl ph(1) pi(1) pk(1) pm(1-3) unfolding for_head_def Let_def by (simp split del: if_split cong: if_cong)
  moreover have "l + Suc (Suc ?n2) = Suc ?l9" "Suc (Suc ?n2) + opt_count e3 = 4 + opt_count e1 + opt_count e2 + opt_count e3" by simp_all
  note pm(4) [unfolded this append_assoc]
  ultimately show ?thesis unfolding Let_def by simp
qed

lemma does_for:
  assumes eo: "core_opt e1" "core_opt e2" "core_opt e3" and st: "does (statement s) (\<lambda>\<nu>. scode \<nu> s) (stmt_count s) (stmt_names s)"
  shows "does (statement (For e1 e2 e3 nl s)) (\<lambda>\<nu>. scode \<nu> (For e1 e2 e3 nl s)) (stmt_count (For e1 e2 e3 nl s)) (stmt_names (For e1 e2 e3 nl s))"
    (is "does (statement ?st) _ _ _")
proof (rule doesI)
  fix P p l assume b: "built P p (\<lambda>\<nu>. []) 0 0 p" and l: "first_label p = l" and s: "l + stmt_count ?st \<le> 65536" "next_var p + int (stmt_names ?st) \<le> 32768"
  let ?l4 = "Suc l + opt_count e1" let ?l7 = "Suc ?l4 + opt_count e2" let ?l9 = "Suc ?l7"
  let ?m1 = "(int l, continue_label p, if_label p)" let ?m = "(int l, int ?l9, if_label p)" let ?q = "set_marks ?m1 p"
  let ?h = "4 + opt_count e1 + opt_count e2 + opt_count e3" let ?o = "opt_names e1 + opt_names e2 + opt_names e3"
  let ?H = "\<lambda>\<nu>. effect_code \<nu> e1 (Suc l) @ [Lab ?l4] @ test_code \<nu> e2 (Suc ?l4) @ [Jmp (CHR ''B'') ?l7, Jmp (CHR ''J'') l, Lab ?l9]
     @ effect_code \<nu> e3 (Suc ?l9) @ [Jmp (CHR ''J'') ?l4, Lab ?l7]"
  obtain p0 where p0: "new_label p = Some (int l, p0)" "built P p (\<lambda>\<nu>. []) 1 0 p0" using built_label [OF b, unfolded l] s by auto
  have "p0\<lparr>break_label := int l\<rparr> = set_marks ?m1 p0" using built_marks [OF p0(2)] by (auto simp: set_marks_def marks_def)
  note q = built_mark [OF p0(2) this]
  have q0: "first_label ?q = l" "break_label (p0\<lparr>break_label := int l\<rparr>) = int l" "if_label (p0\<lparr>break_label := int l\<rparr>) = if_label p"
    using l built_marks [OF p0(2)] by (simp_all add: marks_def)
  obtain p1 where p1: "for_head e1 e2 e3 (p0\<lparr>break_label := int l\<rparr>) = Some p1" "built P (set_marks ?m p) ?H ?h ?o p1"
    using for_head_built [OF eo q(1) q0(1,2)] q0(3) s by (auto simp: Let_def)
  let ?C = "\<lambda>\<nu>. ?H \<nu> @ scode \<nu> s (Suc ?l9 + opt_count e3)" let ?n = "?h + stmt_count s" let ?c = "?o + stmt_names s"
  have lb: "l + ?h = Suc ?l9 + opt_count e3" by simp
  obtain p2 where p2: "statement s (opt_newline nl p1) = Some p2" "built P (set_marks ?m p) ?C ?n ?c p2"
    using doesD [OF st built_warn [OF p1(2)], unfolded set_marks_sel l lb] s unfolding opt_newline_def by auto
  have fresh: "l \<notin> labels (?C \<nu>)" for \<nu> using effect_labels [of l \<nu> e1 "Suc l"] test_labels [of l \<nu> e2 "Suc ?l4"]
      effect_labels [of l \<nu> e3 "Suc ?l9"] scode_labels(1) [of l \<nu> s "Suc ?l9 + opt_count e3"] by auto
  have fl: "first_label (set_marks ?m p) = l" using l by simp
  obtain p3 where p3: "loop_end p2 = Some p3" "built P (set_marks ?m p) (\<lambda>\<nu>. ?C \<nu> @ [Jmp (CHR ''J'') ?l9, Lab l]) ?n ?c p3"
    using loop_end_built [OF p2(2) fl _ _ _ _ fresh, of ?l9] built_marked [OF p2(2)] s by auto
  have "p3\<lparr>break_label := break_label p, continue_label := continue_label p\<rparr> = set_marks (marks p) p3"
    using built_marked [OF p3(2)] by (simp add: set_marks_def marks_def)
  note f = built_restore [OF p3(2) this]
  have code: "?C \<nu> @ [Jmp (CHR ''J'') ?l9, Lab l] = scode \<nu> ?st l" for \<nu> by (simp add: Let_def)
  have cnt: "?n = stmt_count ?st" "?c = stmt_names ?st" by simp_all
  show "\<exists>p2. statement ?st p = Some p2 \<and> built P p (\<lambda>\<nu>. scode \<nu> ?st l) (stmt_count ?st) (stmt_names ?st) p2"
    using f p0(1) p1(1) p2(1) p3(1) unfolding code cnt by (auto simp: Let_def simp del: scode.simps stmt_count.simps stmt_names.simps)
qed

lemma core_does:
  "core_stmt s \<Longrightarrow> does (statement s) (\<lambda>\<nu>. scode \<nu> s) (stmt_count s) (stmt_names s)"
  "core_list ss \<Longrightarrow> does (statement_list ss) (\<lambda>\<nu>. list_code \<nu> ss) (list_count ss) (list_names ss)"
proof (induction s and ss rule: core_stmt_core_list.induct)
  case (1 n c e)
  then show ?case using does_assign [of n c e] by (simp del: statement.simps scode.simps expression.simps label_count.simps name_count.simps)
next
  case (2 e nl s)
  then show ?case using does_if [of e s nl] by (simp del: statement.simps scode.simps stmt_count.simps stmt_names.simps)
next
  case (3 e nl s1 nl2 s2)
  then show ?case using does_if_else [of e s1 s2 nl nl2] by (simp del: statement.simps scode.simps stmt_count.simps stmt_names.simps)
next
  case (4 e nl s)
  then show ?case using does_while [of e s nl] by (simp del: statement.simps scode.simps stmt_count.simps stmt_names.simps)
next
  case (5 e1 e2 e3 nl s)
  then show ?case using does_for [of e1 e2 e3 s nl] by (simp del: statement.simps scode.simps stmt_count.simps stmt_names.simps)
next
  case (6 ss)
  then show ?case by (simp add: does_def)
next
  case "8"
  show ?case by (auto simp: does_def)
next
  case (9 s ss)
  then have d: "does (statement s) (\<lambda>\<nu>. scode \<nu> s) (stmt_count s) (stmt_names s)"
    "does (statement_list ss) (\<lambda>\<nu>. list_code \<nu> ss) (list_count ss) (list_names ss)" by simp_all
  show ?case
  proof (rule doesI)
    fix P p l assume b: "built P p (\<lambda>\<nu>. []) 0 0 p" and l: "first_label p = l"
      and s: "l + list_count (s # ss) \<le> 65536" "next_var p + int (list_names (s # ss)) \<le> 32768"
    obtain p1 where p1: "statement s p = Some p1" "built P p (\<lambda>\<nu>. scode \<nu> s l) (stmt_count s) (stmt_names s) p1"
      using doesD [OF d(1) b, unfolded l] s by auto
    then show "\<exists>p2. statement_list (s # ss) p = Some p2 \<and> built P p (\<lambda>\<nu>. list_code \<nu> (s # ss) l) (list_count (s # ss)) (list_names (s # ss)) p2"
      using doesD [OF d(2) p1(2), unfolded l] s by auto
  qed
qed simp_all

end
