(* ===== verification/BcRun.thy ===== *)
theory BcRun
  imports BcCompile "HOL-Library.Countable"
begin

text \<open>
  Statements from the syntax tree to the values of the variables: the parser compiles them, the loader holds the code, the machine runs it,
  and the parser is ready for the next input.
\<close>

section \<open>The parser between two inputs\<close>

definition memory_of :: "parser \<Rightarrow> memory" where
  "memory_of p = snd (rats (machine (ld p)))"

definition idle :: "parser \<Rightarrow> bool" where
  "idle p \<longleftrightarrow> compiling (\<lambda>\<nu>. []) p \<and> ex_stack (machine (ld p)) = [] \<and> i_base (machine (ld p)) = 10 \<and> vars_ok (machine (ld p))"

text \<open>Numbers that agree with the name tree and that no two names share.\<close>

definition full_numbers :: "parser \<Rightarrow> string \<Rightarrow> nat" where
  "full_numbers p x = (if number_of SIMPLE p x = 0 then nat (next_var p) + to_nat x else nat (number_of SIMPLE p x))"

lemma full_numbers_inj:
  assumes "names_ok p"
  shows "inj (full_numbers p)" "agrees (full_numbers p) p"
proof -
  have n: "0 \<le> number_of SIMPLE p x" "number_of SIMPLE p x < next_var p" for x
    using assms next_of.simps(2) [of p] unfolding names_ok_def numbers_ok_def by metis+
  have eq: "number_of SIMPLE p x = number_of SIMPLE p y \<Longrightarrow> number_of SIMPLE p x \<noteq> 0 \<Longrightarrow> x = y" for x y
    using assms unfolding names_ok_def numbers_ok_def by blast
  show "inj (full_numbers p)"
  proof (rule injI)
    fix x y assume "full_numbers p x = full_numbers p y"
    then show "x = y" using n [of x] n [of y] eq [of x y] by (auto simp: full_numbers_def split: if_splits)
  qed
  show "agrees (full_numbers p) p" by (simp add: agrees_def full_numbers_def)
qed

text \<open>The machine at the start of the code and behind it.\<close>

lemma run_items:
  assumes s: "surely (nat (scale m)) P Q (0, [], snd (rats m))" and Q: "\<And>c. Q c \<Longrightarrow> fst c = length P"
    and f: "bc_functions m 0 = Some f" "holds_items P f" and v: "\<forall>it \<in> set P. valid_item (usable m) it"
    and m: "ex_stack m = []" "i_base m = 10" "vars_ok m" "exited m = None"
  shows "\<exists>t st. execute m = Some t \<and> ready (usable m) t \<and> ex_stack t = [] \<and> Q (length P, st, snd (rats t))
     \<and> same_machine (m\<lparr>pc := \<lparr>pc_func = 0, pc_addr = 0\<rparr>, runtime_error := False, had_sigint := False\<rparr>) t"
proof -
  let ?s = "m\<lparr>pc := \<lparr>pc_func = 0, pc_addr = 0\<rparr>, runtime_error := False, had_sigint := False\<rparr>"
  have rs: "rats ?s = ([], snd (rats m))" using m(1) by (simp add: rats_def var_val_def)
  have "ready (usable m) ?s" using m by (simp add: ready_def const_base_def usable_def vars_ok_def var_live_def)
  then have c: "at_config P (usable m) ?s (0, rats ?s) ?s" by (simp add: at_config_def same_machine_def addr_def)
  have fs: "bc_functions ?s (pc_func (pc ?s)) = Some f" using f(1) by simp
  have sc: "surely (nat (scale ?s)) P Q (0, rats ?s)" using s rs by simp
  obtain t c' where t: "exec_loop ?s = exec_loop t" "Q c'" "at_config P (usable m) ?s c' t"
    using surely_run [OF sc f(2) v fs c] by blast
  have e: "ready (usable m) t" "same_machine ?s t" "rats t = snd c'" "pc_addr (pc t) = addr P (length P)" "fst c' = length P"
    using t(2,3) Q by (auto simp: at_config_def)
  have pf: "pc_func (pc t) = 0" "bc_functions t 0 = Some f" using e(2) f(1) by (simp_all add: same_machine_def)
  have "running t = Some False" using f(2) pf e(4) by (simp add: running_def holds_items_def addr_def)
  then have loop: "exec_loop t = Some t" by (rule exec_loop_stop)
  have "exited t = None" using e(1) by (simp add: ready_def)
  then have ex: "execute m = Some (t\<lparr>ex_stack := []\<rparr>)" using t(1) loop pf(1) by (intro execute_run) simp_all
  let ?t = "t\<lparr>ex_stack := []\<rparr>"
  have "ready (usable m) ?t" using e(1) pf(1) by (simp add: ready_def const_base_def vars_ok_def var_live_def)
  moreover have "same_machine ?s ?t" using e(2) by (simp add: same_machine_def)
  moreover have "c' = (length P, fst (rats t), snd (rats ?t))" using e(3,5) by (cases c') (simp add: rats_def var_val_def)
  ultimately show ?thesis using ex t(2) by (intro exI [of _ ?t] exI [of _ "fst (rats t)"]) simp
qed

text \<open>Behind a run, and at the start of the program, \<open>init_gen\<close> makes the parser ready.\<close>

lemma init_gen_idle:
  assumes "names_ok q" and "vars_numbered q" and "\<not> compile_only (machine (ld q))" and "\<not> std_only (machine (ld q))"
    and "ex_stack (machine (ld q)) = []" and "i_base (machine (ld q)) = 10" and "vars_ok (machine (ld q))" and "exited (machine (ld q)) = None"
    and f: "bc_functions (machine (ld q)) 0 = Some f" "f_body f \<noteq> []"
  shows "\<exists>r. init_gen q = Some r \<and> idle r \<and> (\<forall>k x. number_of k r x = number_of k q x) \<and> memory_of r = memory_of q \<and> next_label r = 1
    \<and> next_var r = next_var q \<and> scale (machine (ld r)) = scale (machine (ld q)) \<and> stdout_chars (machine (ld r)) = stdout_chars (machine (ld q))"
proof -
  let ?f = "f\<lparr>f_defined := False, f_code_size := 0, f_autos := [], f_params := [], f_label := []\<rparr>"
  let ?m = "(machine (ld q))\<lparr>bc_functions := (bc_functions (machine (ld q)))(0 \<mapsto> ?f)\<rparr>"
  let ?l = "(ld q)\<lparr>machine := ?m, load_adr := \<lparr>pc_func = 0, pc_addr = 0\<rparr>, load_str := False, load_const := False\<rparr>"
  let ?q = "q\<lparr>break_label := 0, continue_label := 0, next_label := 1, out_count := 2\<rparr>"
  let ?r = "set_genstr_size 64 (?q\<lparr>ld := ?l\<lparr>had_error := False\<rparr>, did_gen := False\<rparr>)"
  have "init_load (ld ?q) = Some ?l" using f(1) by (simp add: init_load_def clear_func_def upd_func_def)
  then have run: "init_gen q = Some ?r" using assms(3) by (simp add: init_gen_def Let_def)
  have sel: "name_tree ?r = name_tree q" "ld ?r = ?l\<lparr>had_error := False\<rparr>" "next_label ?r = 1" "next_var ?r = next_var q" "next_func ?r = next_func q"
    "next_array ?r = next_array q" "did_gen ?r = False" "64 \<le> genlen ?r" by (simp_all add: set_genstr_size_def)
  have num: "number_of k ?r x = number_of k q x" "agrees \<nu> ?r = agrees \<nu> q" "library_left ?r = library_left q" "next_of k ?r = next_of k q" for k x \<nu>
    by (cases k; simp add: number_of_def agrees_def library_left_def sel)+
  have lab: "label_adr ?f n = None" for n by (simp add: label_adr_group)
  have "holds_code [] (ld ?r)" using assms(8) f(2) unfolding sel
    by (simp add: holds_code_def plain_def holds_items_def labels_ok_def)
  then have "code_ok [] ?r" by (simp add: code_ok_def)
  moreover have "names_ok ?r" using assms(1) by (simp add: names_ok_def numbers_ok_def tables_ok_def num) (simp add: sel)
  moreover have "vars_numbered ?r" using assms(2) by (simp add: vars_numbered_def num) (simp add: sel)
  ultimately have "compiling (\<lambda>\<nu>. []) ?r" using assms(3,4) sel(8) by (simp add: compiling_def) (simp add: sel)
  then have "idle ?r" using assms(5-7) unfolding idle_def sel by (simp add: vars_ok_def)
  moreover have "memory_of ?r = memory_of q" unfolding memory_of_def sel by (simp add: rats_def var_val_def)
  ultimately show ?thesis using run num(1) sel(3,4) by (intro exI [of _ ?r]) (simp add: sel(2))
qed

lemma run_code_idle:
  assumes c: "compiling P p" and m: "ex_stack (machine (ld p)) = []" "i_base (machine (ld p)) = 10" "vars_ok (machine (ld p))"
    and a: "agrees \<nu> p" and s: "surely (nat (scale (machine (ld p)))) (P \<nu>) Q (0, [], memory_of p)"
    and Q: "\<And>c. Q c \<Longrightarrow> fst c = length (P \<nu>)" and empty: "\<And>\<nu>'. P \<nu> = [] \<Longrightarrow> P \<nu>' = []"
  shows "\<exists>q st. run_code p = Some q \<and> idle q \<and> Q (length (P \<nu>), st, memory_of q) \<and> (\<forall>k x. number_of k q x = number_of k p x)
    \<and> next_var q = next_var p \<and> scale (machine (ld q)) = scale (machine (ld p)) \<and> stdout_chars (machine (ld q)) = stdout_chars (machine (ld p))
    \<and> next_label q \<le> next_label p"
proof -
  have ok: "code_ok (P \<nu>) p" using c a by (simp add: compiling_def)
  have ne: "\<not> had_error (ld p)" and ex: "exited (machine (ld p)) = None" using ok by (simp_all add: code_ok_def holds_code_def plain_def)
  have cs: "names_ok p" "vars_numbered p" "\<not> compile_only (machine (ld p))" "\<not> std_only (machine (ld p))" "1 \<le> next_label p"
    using c by (simp_all add: compiling_def)
  show ?thesis
  proof (cases "did_gen p")
    case False
    then have e: "P \<nu> = []" using ok by (simp add: code_ok_def)
    have "Q (0, [], memory_of p)" using s
    proof (cases rule: surely.cases)
      case (sure_step d)
      then show ?thesis by (auto simp: e elim: item_stepE)
    qed
    moreover have "p\<lparr>ld := (ld p)\<lparr>had_error := False\<rparr>\<rparr> = p" using ne by simp
    then have "run_code p = Some p" using False ex by (simp add: run_code_def)
    moreover have "compiling (\<lambda>\<nu>. []) p" by (rule compiling_cong [OF c]) (rule empty [OF e])
    then have "idle p" using m by (simp add: idle_def)
    ultimately show ?thesis using e by (intro exI [of _ p] exI [of _ "[]"]) simp
  next
    case True
    let ?m = "machine (ld p)" let ?s = "?m\<lparr>pc := \<lparr>pc_func = 0, pc_addr = 0\<rparr>, runtime_error := False, had_sigint := False\<rparr>"
    obtain f where f: "bc_functions ?m 0 = Some f" "holds_items (P \<nu>) f" "0 < length (f_body f)" using ok by (auto simp: code_ok_def holds_code_def)
    have v: "\<forall>it \<in> set (P \<nu>). valid_item (usable ?m) it" using ok by (simp add: code_ok_def)
    obtain t st where t: "execute ?m = Some t" "ready (usable ?m) t" "ex_stack t = []" "Q (length (P \<nu>), st, snd (rats t))" "same_machine ?s t"
      using run_items [OF s [unfolded memory_of_def] Q f(1,2) v m ex] by auto
    let ?q = "p\<lparr>ld := (ld p)\<lparr>machine := t\<rparr>\<rparr>"
    have same: "v_count t = v_count ?m" "a_count t = a_count ?m" "f_count t = f_count ?m" "compile_only t = compile_only ?m" "std_only t = std_only ?m"
      "i_base t = i_base ?m" "scale t = scale ?m" "stdout_chars t = stdout_chars ?m" "bc_functions t = bc_functions ?m" and shape: "var_shape (variables t) = var_shape (variables ?m)"
      using t(5) by (simp_all add: same_machine_def)
    have num: "number_of k ?q x = number_of k p x" "library_left ?q = library_left p" "next_of k ?q = next_of k p" for k x
      by (cases k; simp add: number_of_def library_left_def)+
    have "names_ok ?q" using cs(1) same by (simp add: names_ok_def numbers_ok_def tables_ok_def num)
    moreover have "vars_numbered ?q" using cs(2) same(1) var_shapeD [OF shape] by (simp add: vars_numbered_def num)
    moreover have "vars_ok t" "exited t = None" using t(2) by (simp_all add: ready_def)
    ultimately obtain r where r: "init_gen ?q = Some r" "idle r" "\<forall>k x. number_of k r x = number_of k ?q x" "memory_of r = memory_of ?q" "next_label r = 1"
      "next_var r = next_var ?q" "scale (machine (ld r)) = scale (machine (ld ?q))" "stdout_chars (machine (ld r)) = stdout_chars (machine (ld ?q))"
      using init_gen_idle [of ?q f] cs(3,4) same t(3) m(2) f(1,3) by auto
    have "run_code p = Some r" using True ne cs(3) t(1) \<open>exited t = None\<close> r(1) by (simp add: run_code_def)
    moreover have "memory_of r = snd (rats t)" using r(4) by (simp add: memory_of_def)
    ultimately show ?thesis using r(2,3,5-8) t(4) same num cs(5) by (intro exI [of _ r] exI [of _ st]) simp
  qed
qed

text \<open>Whether there is any code does not depend on the numbers.\<close>

lemma code_empty:
  "core_stmt s \<Longrightarrow> scode \<nu> s l = [] \<Longrightarrow> scode \<mu> s k = []"
  "core_list ss \<Longrightarrow> list_code \<nu> ss l = [] \<Longrightarrow> list_code \<mu> ss k = []"
  by (induction s and ss arbitrary: l k and l k rule: core_stmt_core_list.induct) (auto simp: Let_def)

section \<open>Compiling and running\<close>

lemma compile_run:
  assumes p: "idle p" and core: "core_list ss" and s: "next_label p + int (list_count ss) \<le> 65536" "next_var p + int (list_names ss) \<le> 32768"
    and run: "\<And>\<nu>. inj \<nu> \<Longrightarrow> agrees \<nu> p \<Longrightarrow> ends_list \<nu> (nat (scale (machine (ld p)))) ss (memory_of p)"
  shows "\<exists>\<nu> q. input_item (Statements ss) p = Some q \<and> idle q \<and> inj \<nu> \<and> agrees \<nu> q \<and> agrees \<nu> p
    \<and> run_list \<nu> (nat (scale (machine (ld p)))) ss (memory_of p) (memory_of q)
    \<and> scale (machine (ld q)) = scale (machine (ld p)) \<and> stdout_chars (machine (ld q)) = stdout_chars (machine (ld p))
    \<and> next_label q \<le> next_label p + int (list_count ss) \<and> next_var q \<le> next_var p + int (list_names ss)"
proof -
  let ?k = "nat (scale (machine (ld p)))" and ?l = "first_label p"
  have c: "compiling (\<lambda>\<nu>. []) p" using p by (simp add: idle_def)
  note st = built_start [OF c]
  have fl: "next_label p = int ?l" using builtD(4) [OF st] .
  have le: "?l + 0 + list_count ss \<le> 65536" "next_var p + int (0 + list_names ss) \<le> 32768" using s fl by linarith+
  obtain p1 where p1: "statement_list ss p = Some p1"
      "built (\<lambda>\<nu>. []) p (\<lambda>\<nu>. [] @ list_code \<nu> ss (?l + 0)) (0 + list_count ss) (0 + list_names ss) p1"
    using doesD [OF core_does(2) [OF core] st le] by blast
  let ?P = "\<lambda>\<nu>. list_code \<nu> ss ?l"
  have b: "built (\<lambda>\<nu>. []) p ?P (list_count ss) (list_names ss) p1" using p1(2) by simp
  have c1: "compiling ?P p1" using builtD(1) [OF b] by simp
  have lat: "later (list_count ss) (list_names ss) p p1" using b by (simp add: built_def compiled_def)
  then have g: "grown (machine (ld p)) (machine (ld p1))" by (simp add: later_def)
  obtain \<nu> where nu: "inj \<nu>" "agrees \<nu> p1" using full_numbers_inj [of p1] c1 by (auto simp: compiling_def)
  have nup: "agrees \<nu> p" by (rule later_agrees [OF lat nu(2)])
  let ?Q = "\<lambda>c. fst c = length (?P \<nu>) \<and> run_list \<nu> ?k ss (memory_of p) (snd (snd c))"
  have mem: "memory_of p1 = memory_of p" "scale (machine (ld p1)) = scale (machine (ld p))" "stdout_chars (machine (ld p1)) = stdout_chars (machine (ld p))"
    "ex_stack (machine (ld p1)) = []" "i_base (machine (ld p1)) = 10" "vars_ok (machine (ld p1))"
    using g p by (simp_all add: grown_def memory_of_def idle_def)
  have "performs (list_code \<nu> ss) ?k (run_list \<nu> ?k ss) (memory_of p)" using scode_performs(2) [OF run [OF nu(1) nup]] core by blast
  then have "surely ?k (?P \<nu>) ?Q (length ([] :: item list), [], memory_of p)"
    by (rule performsD [where l = ?l and post = "[]"]) (auto intro: sure_here)
  then have sure: "surely (nat (scale (machine (ld p1)))) (?P \<nu>) ?Q (0, [], memory_of p1)" using mem by simp
  obtain q x where q: "run_code p1 = Some q" "idle q" "?Q (length (?P \<nu>), x, memory_of q)" "\<forall>k x. number_of k q x = number_of k p1 x"
    "next_var q = next_var p1" "scale (machine (ld q)) = scale (machine (ld p1))" "stdout_chars (machine (ld q)) = stdout_chars (machine (ld p1))"
    "next_label q \<le> next_label p1"
  proof -
    have em: "?P \<nu>' = []" if "?P \<nu> = []" for \<nu>' using code_empty(2) [OF core that] .
    have len: "fst c = length (?P \<nu>)" if "?Q c" for c using that by simp
    show thesis using run_code_idle [OF c1 mem(4-6) nu(2) sure len em] that by auto
  qed
  have "exited (machine (ld p1)) = None" by (rule compiling_run [OF c1])
  then have "input_item (Statements ss) p = Some q" using p1(1) q(1) by simp
  moreover have "agrees \<nu> q" using nu(2) q(4) by (simp add: agrees_def)
  ultimately show ?thesis using q mem nu(1) nup builtD(2,5) [OF b] by (intro exI [of _ \<nu>] exI [of _ q]) simp
qed

section \<open>Theorems\<close>

text \<open>
  C1: assignments, conditionals, loops and blocks over simple variables, as the parser handles one input item: when the statements
  surely come to an end without a division by zero, in the meaning that they have on rational numbers for any numbering of the
  variables, the actions of the grammar compile them, the loader holds the code and the machine runs it to its end. The values of the
  variables are then what the statements mean, nothing is printed, and the parser is ready for the next item.
\<close>

theorem compile_run_correct:
  assumes "idle p" and "core_list ss" and "next_label p + int (list_count ss) \<le> 65536" and "next_var p + int (list_names ss) \<le> 32768"
    and "\<And>\<nu>. inj \<nu> \<Longrightarrow> agrees \<nu> p \<Longrightarrow> ends_list \<nu> (nat (scale (machine (ld p)))) ss (memory_of p)"
  shows "\<exists>\<nu> q. input_item (Statements ss) p = Some q \<and> idle q \<and> inj \<nu> \<and> agrees \<nu> q \<and> agrees \<nu> p
    \<and> run_list \<nu> (nat (scale (machine (ld p)))) ss (memory_of p) (memory_of q)
    \<and> scale (machine (ld q)) = scale (machine (ld p)) \<and> stdout_chars (machine (ld q)) = stdout_chars (machine (ld p))
    \<and> next_label q \<le> next_label p + int (list_count ss) \<and> next_var q \<le> next_var p + int (list_names ss)"
  by (rule compile_run [OF assms])

text \<open>The parser that has read nothing yet, and a loop that counts down.\<close>

lemma fresh_idle: "\<exists>p. init_gen fresh_parser = Some p \<and> idle p \<and> memory_of p = (\<lambda>v. 0) \<and> next_label p = 1 \<and> next_var p = 5 \<and> scale (machine (ld p)) = 0"
proof -
  note fr = fresh_loader_sel
  have num: "number_of SIMPLE fresh_parser x = 0" for x using fresh_names(5) by (simp add: number_of_def)
  have d: "dom (variables (init_storage zero_state)) = {3..<v_count (init_storage zero_state)}" "variables (init_storage zero_state) v \<noteq> Some Var_junk" for v
    by (auto simp: init_storage_def more_functions_def more_variables_def more_arrays_def Let_def zero_state_def dom_def split: if_splits)
  have vn: "vars_numbered fresh_parser" using fresh_names(2) num d by (simp add: vars_numbered_def fresh_names(6) fr(1))
  have m: "\<not> compile_only (machine (ld fresh_parser))" "\<not> std_only (machine (ld fresh_parser))" "vars_ok (machine (ld fresh_parser))"
    "exited (machine (ld fresh_parser)) = None"
    using fr(2) init_vars(2) [of zero_state] unfolding fresh_names(6) fr(1)
    by (simp_all add: plain_def fr(1) init_storage_def more_functions_def more_variables_def more_arrays_def Let_def zero_state_def)
  obtain p where "init_gen fresh_parser = Some p" "idle p" "memory_of p = memory_of fresh_parser" "next_label p = 1" "next_var p = next_var fresh_parser"
    "scale (machine (ld p)) = scale (machine (ld fresh_parser))"
    using init_gen_idle [OF fresh_names(1) vn m(1,2) _ _ m(3,4), of new_function] unfolding fresh_names(6) fr(1) fr(5,8,9)
    using fr(6) by auto
  then show ?thesis using fresh_names fr by (simp add: memory_of_def)
qed

abbreviation countdown_body :: stmt where
  "countdown_body \<equiv> Expression (Assign (Simple ''x'') (CHR ''-'') (Number ''1''))"

definition countdown :: "stmt list" where
  "countdown = [Expression (Assign (Simple ''x'') (CHR ''='') (Number ''3'')), While (Value (Simple ''x'')) False countdown_body]"

inductive_cases value_cases: "eval \<nu> k (Value n) m v m1"
inductive_cases number_cases: "eval \<nu> k (Number s) m v m1"
inductive_cases assign_cases: "eval \<nu> k (Assign n c e) m v m1"
inductive_cases expression_cases: "run \<nu> k (Expression e) m m1"
inductive_cases while_cases: "run \<nu> k (While e nl s) m m1"
inductive_cases list_cases: "run_list \<nu> k (s # ss) m m1"
inductive_cases nil_cases: "run_list \<nu> k [] m m1"

lemma number_values: "number_value ''1'' = 1" "number_value ''3'' = 3" "core_number ''1''" "core_number ''3''"
proof -
  have "bcd_char 1 = CHR ''1''" "bcd_char 3 = CHR ''3''" by code_simp+
  then show "number_value ''1'' = 1" "number_value ''3'' = 3" "core_number ''1''" "core_number ''3''"
    by (simp_all add: number_value_def core_number_def number_digits_def isdigit_def char_val_def dval_Cons digits_def digit_def)
qed

lemma countdown_step: "run \<nu> k countdown_body m m1 \<longleftrightarrow> m1 = m(\<nu> ''x'' := m (\<nu> ''x'') - 1)"
proof
  assume "run \<nu> k countdown_body m m1"
  then show "m1 = m(\<nu> ''x'' := m (\<nu> ''x'') - 1)"
    by (auto elim!: expression_cases assign_cases number_cases simp: number_values arith_val.simps)
next
  have "run \<nu> k countdown_body m (m(\<nu> ''x'' := m (\<nu> ''x'') - number_value ''1''))"
    by (rule run_expression [OF eval_assign_op [OF _ eval_number arith_sub]]) simp
  then show "m1 = m(\<nu> ''x'' := m (\<nu> ''x'') - 1) \<Longrightarrow> run \<nu> k countdown_body m m1" by (simp add: number_values)
qed

lemma countdown_ends: "m (\<nu> ''x'') = of_nat n \<Longrightarrow> ends_loop \<nu> k (Some (Value (Simple ''x''))) None countdown_body m"
proof (induction n arbitrary: m)
  case 0
  show ?case by (rule ends_turn) (use 0 in \<open>auto simp: opt_safe_def opt_eval_def elim: value_cases\<close>)
next
  case (Suc n)
  show ?case
  proof (rule ends_turn)
    show "ends \<nu> k countdown_body m1" for m1 by (rule ends_expression) (simp add: divides_def)
    show "ends_loop \<nu> k (Some (Value (Simple ''x''))) None countdown_body m3"
      if "opt_eval \<nu> k (Some (Value (Simple ''x''))) m v m1" "run \<nu> k countdown_body m1 m2" "opt_eval \<nu> k None m2 w m3" for v m1 m2 w m3
    proof (rule Suc.IH)
      have "m1 = m" "m3 = m2" using that(1,3) by (auto simp: opt_eval_def elim: value_cases)
      then show "m3 (\<nu> ''x'') = of_nat n" using that(2) Suc.prems by (simp add: countdown_step)
    qed
  qed (simp_all add: opt_safe_def)
qed

lemma loop_stops: "run_loop \<nu> k e2 e3 s m m1 \<Longrightarrow> e2 = Some (Value (Simple x)) \<Longrightarrow> m1 (\<nu> x) = 0"
proof (induction rule: run_run_list_run_loop.inducts(3) [where ?P1.0 = "\<lambda>_ _ _. True" and ?P2.0 = "\<lambda>_ _ _. True"])
qed (auto simp: opt_eval_def elim: value_cases)

theorem compile_run_correct_witness:
  "\<exists>p \<nu> q. init_gen fresh_parser = Some p \<and> input_item (Statements countdown) p = Some q \<and> idle q \<and> agrees \<nu> q \<and> memory_of q (\<nu> ''x'') = 0"
proof -
  obtain p where p: "init_gen fresh_parser = Some p" "idle p" "next_label p = 1" "next_var p = 5" using fresh_idle by blast
  have core: "core_list countdown" "list_count countdown = 2" "list_names countdown = 3" by (simp_all add: countdown_def number_values arith_ops_def)
  have ends: "ends_list \<nu> k countdown m" for \<nu> k m
    unfolding countdown_def
  proof (rule ends_cons)
    show "ends_list \<nu> k [While (Value (Simple ''x'')) False countdown_body] m1" if "run \<nu> k (Expression (Assign (Simple ''x'') (CHR ''='') (Number ''3''))) m m1" for m1
    proof (rule ends_cons [OF ends_while [OF countdown_ends [of _ _ 3]]])
      show "m1 (\<nu> ''x'') = of_nat 3" using that by (auto elim!: expression_cases assign_cases number_cases simp: number_values)
    qed (rule ends_nil)
  qed (simp add: ends_expression divides_def)
  obtain \<nu> q where q: "input_item (Statements countdown) p = Some q" "idle q" "agrees \<nu> q"
    "run_list \<nu> (nat (scale (machine (ld p)))) countdown (memory_of p) (memory_of q)"
    using compile_run_correct [OF p(2) core(1) _ _ ends] core(2,3) p(3,4) by auto
  have "memory_of q (\<nu> ''x'') = 0" using q(4) unfolding countdown_def
    by (auto elim!: list_cases nil_cases while_cases dest: loop_stops)
  then show ?thesis using p(1) q(1-3) by blast
qed

end
