(* ===== verification/Cksum.thy ===== *)
theory Cksum
  imports Prelude "HOL-Library.Word"
begin

text \<open>
  The checksums of \<^verbatim>\<open>usr.bin/cksum\<close> (\<^verbatim>\<open>crc.c\<close>, \<^verbatim>\<open>sum1.c\<close>, \<^verbatim>\<open>sum2.c\<close>) and of \<^verbatim>\<open>usr.bin/sum/sum.c\<close>. A file is the list of
  the chunks that \<^verbatim>\<open>read\<close> returns and whether the last call says end of file or error. The integers have the widths of
  the C types; the length, an \<^verbatim>\<open>off_t\<close>, does not overflow.
\<close>

unbundle bit_operations_syntax

section \<open>The CRC\<close>

definition crctab :: "32 word list" where
  "crctab = [
     0x0, 0x04c11db7, 0x09823b6e, 0x0d4326d9, 0x130476dc, 0x17c56b6b, 0x1a864db2, 0x1e475005, 0x2608edb8, 0x22c9f00f,
     0x2f8ad6d6, 0x2b4bcb61, 0x350c9b64, 0x31cd86d3, 0x3c8ea00a, 0x384fbdbd, 0x4c11db70, 0x48d0c6c7, 0x4593e01e, 0x4152fda9,
     0x5f15adac, 0x5bd4b01b, 0x569796c2, 0x52568b75, 0x6a1936c8, 0x6ed82b7f, 0x639b0da6, 0x675a1011, 0x791d4014, 0x7ddc5da3,
     0x709f7b7a, 0x745e66cd, 0x9823b6e0, 0x9ce2ab57, 0x91a18d8e, 0x95609039, 0x8b27c03c, 0x8fe6dd8b, 0x82a5fb52, 0x8664e6e5,
     0xbe2b5b58, 0xbaea46ef, 0xb7a96036, 0xb3687d81, 0xad2f2d84, 0xa9ee3033, 0xa4ad16ea, 0xa06c0b5d, 0xd4326d90, 0xd0f37027,
     0xddb056fe, 0xd9714b49, 0xc7361b4c, 0xc3f706fb, 0xceb42022, 0xca753d95, 0xf23a8028, 0xf6fb9d9f, 0xfbb8bb46, 0xff79a6f1,
     0xe13ef6f4, 0xe5ffeb43, 0xe8bccd9a, 0xec7dd02d, 0x34867077, 0x30476dc0, 0x3d044b19, 0x39c556ae, 0x278206ab, 0x23431b1c,
     0x2e003dc5, 0x2ac12072, 0x128e9dcf, 0x164f8078, 0x1b0ca6a1, 0x1fcdbb16, 0x018aeb13, 0x054bf6a4, 0x0808d07d, 0x0cc9cdca,
     0x7897ab07, 0x7c56b6b0, 0x71159069, 0x75d48dde, 0x6b93dddb, 0x6f52c06c, 0x6211e6b5, 0x66d0fb02, 0x5e9f46bf, 0x5a5e5b08,
     0x571d7dd1, 0x53dc6066, 0x4d9b3063, 0x495a2dd4, 0x44190b0d, 0x40d816ba, 0xaca5c697, 0xa864db20, 0xa527fdf9, 0xa1e6e04e,
     0xbfa1b04b, 0xbb60adfc, 0xb6238b25, 0xb2e29692, 0x8aad2b2f, 0x8e6c3698, 0x832f1041, 0x87ee0df6, 0x99a95df3, 0x9d684044,
     0x902b669d, 0x94ea7b2a, 0xe0b41de7, 0xe4750050, 0xe9362689, 0xedf73b3e, 0xf3b06b3b, 0xf771768c, 0xfa325055, 0xfef34de2,
     0xc6bcf05f, 0xc27dede8, 0xcf3ecb31, 0xcbffd686, 0xd5b88683, 0xd1799b34, 0xdc3abded, 0xd8fba05a, 0x690ce0ee, 0x6dcdfd59,
     0x608edb80, 0x644fc637, 0x7a089632, 0x7ec98b85, 0x738aad5c, 0x774bb0eb, 0x4f040d56, 0x4bc510e1, 0x46863638, 0x42472b8f,
     0x5c007b8a, 0x58c1663d, 0x558240e4, 0x51435d53, 0x251d3b9e, 0x21dc2629, 0x2c9f00f0, 0x285e1d47, 0x36194d42, 0x32d850f5,
     0x3f9b762c, 0x3b5a6b9b, 0x0315d626, 0x07d4cb91, 0x0a97ed48, 0x0e56f0ff, 0x1011a0fa, 0x14d0bd4d, 0x19939b94, 0x1d528623,
     0xf12f560e, 0xf5ee4bb9, 0xf8ad6d60, 0xfc6c70d7, 0xe22b20d2, 0xe6ea3d65, 0xeba91bbc, 0xef68060b, 0xd727bbb6, 0xd3e6a601,
     0xdea580d8, 0xda649d6f, 0xc423cd6a, 0xc0e2d0dd, 0xcda1f604, 0xc960ebb3, 0xbd3e8d7e, 0xb9ff90c9, 0xb4bcb610, 0xb07daba7,
     0xae3afba2, 0xaafbe615, 0xa7b8c0cc, 0xa379dd7b, 0x9b3660c6, 0x9ff77d71, 0x92b45ba8, 0x9675461f, 0x8832161a, 0x8cf30bad,
     0x81b02d74, 0x857130c3, 0x5d8a9099, 0x594b8d2e, 0x5408abf7, 0x50c9b640, 0x4e8ee645, 0x4a4ffbf2, 0x470cdd2b, 0x43cdc09c,
     0x7b827d21, 0x7f436096, 0x7200464f, 0x76c15bf8, 0x68860bfd, 0x6c47164a, 0x61043093, 0x65c52d24, 0x119b4be9, 0x155a565e,
     0x18197087, 0x1cd86d30, 0x029f3d35, 0x065e2082, 0x0b1d065b, 0x0fdc1bec, 0x3793a651, 0x3352bbe6, 0x3e119d3f, 0x3ad08088,
     0x2497d08d, 0x2056cd3a, 0x2d15ebe3, 0x29d4f654, 0xc5a92679, 0xc1683bce, 0xcc2b1d17, 0xc8ea00a0, 0xd6ad50a5, 0xd26c4d12,
     0xdf2f6bcb, 0xdbee767c, 0xe3a1cbc1, 0xe760d676, 0xea23f0af, 0xeee2ed18, 0xf0a5bd1d, 0xf464a0aa, 0xf9278673, 0xfde69bc4,
     0x89b8fd09, 0x8d79e0be, 0x803ac667, 0x84fbdbd0, 0x9abc8bd5, 0x9e7d9662, 0x933eb0bb, 0x97ffad0c, 0xafb010b1, 0xab710d06,
     0xa6322bdf, 0xa2f33668, 0xbcb4666d, 0xb8757bda, 0xb5365d03, 0xb1f740b4]"

definition COMPUTE :: "32 word \<Rightarrow> 8 word \<Rightarrow> 32 word" where
  "COMPUTE var ch = push_bit 8 var XOR crctab ! unat (drop_bit 24 var XOR ucast ch)"

fun crc_read :: "8 word list list \<Rightarrow> 32 word \<times> nat \<Rightarrow> 32 word \<times> nat" where
  "crc_read [] st = st"
| "crc_read (buf # bufs) (thecrc, len) = crc_read bufs (foldl COMPUTE thecrc buf, len + length buf)"

text \<open>\<^verbatim>\<open>for (; len != 0; len >>= 8) COMPUTE(thecrc, len & 0xff);\<close>\<close>

fun crc_length :: "nat \<Rightarrow> 32 word \<Rightarrow> 32 word" where
  "crc_length len thecrc = (if len \<noteq> 0 then crc_length (len div 256) (COMPUTE thecrc (of_nat (len mod 256))) else thecrc)"

declare crc_length.simps [simp del]

definition crc :: "8 word list list \<Rightarrow> bool \<Rightarrow> (32 word \<times> nat) option" where
  "crc bufs ok = (let (thecrc, len) = crc_read bufs (0, 0)
     in if \<not> ok then None else Some (NOT (crc_length len thecrc), len))"

definition crc_buf :: "32 word \<Rightarrow> 8 word list \<Rightarrow> 32 word" where
  "crc_buf thecrc buf = foldl COMPUTE thecrc buf"

definition crc_byte :: "32 word \<Rightarrow> 32 word \<Rightarrow> 32 word" where
  "crc_byte thecrc byte_val = COMPUTE thecrc (ucast (byte_val AND 0xff))"

section \<open>The sums\<close>

definition csum1_step :: "32 word \<Rightarrow> 8 word \<Rightarrow> 32 word" where
  "csum1_step thecrc p = (let thecrc = (if thecrc AND 1 \<noteq> 0 then thecrc OR 0x10000 else thecrc)
     in (drop_bit 1 thecrc + ucast p) AND 0xffff)"

fun sum_read :: "(32 word \<Rightarrow> 8 word \<Rightarrow> 32 word) \<Rightarrow> 8 word list list \<Rightarrow> 32 word \<times> nat \<Rightarrow> 32 word \<times> nat" where
  "sum_read step [] st = st"
| "sum_read step (buf # bufs) (thecrc, n) = sum_read step bufs (foldl step thecrc buf, n + length buf)"

definition csum1 :: "8 word list list \<Rightarrow> bool \<Rightarrow> (32 word \<times> nat) option" where
  "csum1 bufs ok = (let (thecrc, n) = sum_read csum1_step bufs (0, 0) in if \<not> ok then None else Some (thecrc, n))"

definition csum2 :: "8 word list list \<Rightarrow> bool \<Rightarrow> (32 word \<times> nat) option" where
  "csum2 bufs ok = (
     let (thecrc, n) = sum_read (\<lambda>c p. c + ucast p) bufs (0, 0)
     in if \<not> ok then None
        else let thecrc = (thecrc AND 0xffff) + drop_bit 16 thecrc;
                 thecrc = (thecrc AND 0xffff) + drop_bit 16 thecrc
             in Some (thecrc, n))"

text \<open>
  \<^verbatim>\<open>sum.c\<close> reads blocks of 512 bytes with \<^verbatim>\<open>fread\<close> and counts them; a shorter block is the last.
\<close>

definition rsum_step :: "16 word \<Rightarrow> 8 word \<Rightarrow> 16 word" where
  "rsum_step c b = (let xbit = push_bit 15 (c AND 1); c = drop_bit 1 c; c = c OR xbit in c + ucast b)"

function rsum_loop :: "('c \<Rightarrow> 8 word \<Rightarrow> 'c) \<Rightarrow> 8 word list \<Rightarrow> 'c \<times> nat \<Rightarrow> 'c \<times> nat" where
  "rsum_loop step file (c, s) = (
     let buf = take 512 file
     in if buf = [] then (c, s)
        else let c = foldl step c buf; s = s + 1
             in if length buf < 512 then (c, s) else rsum_loop step (drop 512 file) (c, s))"
  by pat_completeness auto
termination by (relation "measure (\<lambda>(st, f, x). length f)") auto

declare rsum_loop.simps [simp del]

definition rsum :: "8 word list \<Rightarrow> 16 word \<times> nat" where
  "rsum file = rsum_loop rsum_step file (0, 0)"

definition sum_sysv :: "8 word list \<Rightarrow> 64 word \<times> nat" where
  "sum_sysv file = (let (c, s) = rsum_loop (\<lambda>c b. c + ucast b) file (0, 0)
     in ((c AND 0xFFFF) + drop_bit 16 c, s))"

section \<open>The shift register\<close>

text \<open>
  The reference: a shift register with feedback \<open>0x04c11db7\<close>, which takes the message bit by bit, high bits first.
\<close>

definition crc_shift :: "32 word \<Rightarrow> 32 word" where
  "crc_shift r = (if bit r 31 then push_bit 1 r XOR 0x04c11db7 else push_bit 1 r)"

definition crc_bit :: "32 word \<Rightarrow> bool \<Rightarrow> 32 word" where
  "crc_bit r b = (if bit r 31 \<noteq> b then push_bit 1 r XOR 0x04c11db7 else push_bit 1 r)"

definition byte_bits :: "8 word \<Rightarrow> bool list" where
  "byte_bits b = map (bit b) [7, 6, 5, 4, 3, 2, 1, 0]"

definition shift8 :: "32 word \<Rightarrow> 32 word" where
  "shift8 r = crc_shift (crc_shift (crc_shift (crc_shift (crc_shift (crc_shift (crc_shift (crc_shift r)))))))"

text \<open>The register is linear, so the rows of the table are sums of the rows of the powers of two.\<close>

fun rows :: "32 word list \<Rightarrow> 32 word list" where
  "rows [] = [0]"
| "rows (b # bs) = rows bs @ map (\<lambda>r. b XOR r) (rows bs)"

lemma crctab_rows: "crctab = rows [0x690ce0ee, 0x34867077, 0x9823b6e0, 0x4c11db70, 0x2608edb8, 0x130476dc, 0x09823b6e, 0x04c11db7]"
  by (simp add: crctab_def)

lemma length_rows: "length (rows bs) = 2 ^ length bs"
  by (induction bs) simp_all

lemma crc_shift_xor: "crc_shift (x XOR y) = crc_shift x XOR crc_shift y"
  by (auto simp: crc_shift_def bit_xor_iff push_bit_xor ac_simps)

lemma shift8_xor: "shift8 (x XOR y) = shift8 x XOR shift8 y"
  by (simp add: shift8_def crc_shift_xor)

lemma shift8_basis: "shift8 (push_bit 24 1) = 0x04c11db7" "shift8 (push_bit 24 2) = 0x09823b6e" "shift8 (push_bit 24 4) = 0x130476dc"
  "shift8 (push_bit 24 8) = 0x2608edb8" "shift8 (push_bit 24 16) = 0x4c11db70" "shift8 (push_bit 24 32) = 0x9823b6e0"
  "shift8 (push_bit 24 64) = 0x34867077" "shift8 (push_bit 24 128) = 0x690ce0ee" "shift8 0 = 0"
  by (simp_all add: shift8_def crc_shift_def)

lemma of_nat_split:
  assumes j: "j < 2 ^ k" and k: "k < 8"
  shows "(of_nat (2 ^ k + j) :: 32 word) = 2 ^ k XOR of_nat j"
proof -
  have "\<not> bit (2 ^ k :: 32 word) n \<or> \<not> bit (of_nat j :: 32 word) n" for n
  proof (cases "n = k")
    case True
    have "\<not> bit j k" using j by (simp add: bit_iff_odd)
    then show ?thesis using True by (simp add: bit_of_nat_iff)
  qed (simp add: bit_exp_iff)
  then have "(2 ^ k :: 32 word) AND of_nat j = 0" by (auto simp: bit_eq_iff bit_and_iff)
  then have "(2 ^ k :: 32 word) + of_nat j = 2 ^ k XOR of_nat j" by (rule disjunctive_add_eq_xor)
  then show ?thesis by simp
qed

fun basis_ok :: "32 word list \<Rightarrow> bool" where
  "basis_ok [] = True"
| "basis_ok (b # bs) = (shift8 (push_bit 24 (2 ^ length bs)) = b \<and> basis_ok bs)"

lemma rows_nth: "basis_ok bs \<Longrightarrow> length bs \<le> 8 \<Longrightarrow> i < 2 ^ length bs \<Longrightarrow> rows bs ! i = shift8 (push_bit 24 (of_nat i))"
proof (induction bs arbitrary: i)
  case (Cons b bs)
  show ?case
  proof (cases "i < 2 ^ length bs")
    case True
    then show ?thesis using Cons by (simp add: nth_append length_rows)
  next
    case False
    then obtain j where j: "i = 2 ^ length bs + j" using le_Suc_ex by (metis not_less)
    have "j < 2 ^ length bs" using Cons.prems(3) j by simp
    moreover from this have "(of_nat i :: 32 word) = 2 ^ length bs XOR of_nat j" unfolding j using Cons.prems(2) by (intro of_nat_split) simp_all
    ultimately show ?thesis using Cons j by (simp add: nth_append length_rows push_bit_xor shift8_xor)
  qed
qed (simp add: shift8_basis)

lemma crctab_nth: "i < 256 \<Longrightarrow> crctab ! i = shift8 (push_bit 24 (of_nat i))"
  unfolding crctab_rows by (rule rows_nth) (simp_all add: shift8_basis [simplified])

lemma length_crctab [simp]: "length crctab = 256"
  by (simp add: crctab_rows length_rows)

text \<open>Eight steps on a register whose high byte is zero only move it.\<close>

lemma crc_shift_low: "\<not> bit z 31 \<Longrightarrow> crc_shift z = push_bit 1 z"
  by (simp add: crc_shift_def)

lemma shift8_low:
  assumes "\<And>n. 24 \<le> n \<Longrightarrow> \<not> bit z n"
  shows "shift8 z = push_bit 8 z"
proof -
  have "crc_shift (push_bit k z) = push_bit (Suc k) z" if "k < 8" for k
    using assms [of "31 - k"] that by (subst crc_shift_low) (simp_all add: bit_push_bit_iff)
  from this [of 0] this [of 1] this [of 2] this [of 3] this [of 4] this [of 5] this [of 6] this [of 7]
  show ?thesis by (simp add: shift8_def eval_nat_numeral)
qed

lemma shift8_table: "shift8 y = push_bit 8 y XOR crctab ! unat (drop_bit 24 y)"
proof -
  have y: "y = push_bit 24 (drop_bit 24 y) XOR take_bit 24 y"
    by (rule bit_eqI) (auto simp: bit_simps)
  have i: "unat (drop_bit 24 y) < 256"
    using unat_drop_bit_eq [of 24 y] unsigned_less [of y, where ?'a = nat] by (simp add: drop_bit_eq_div)
  have "shift8 (take_bit 24 y) = push_bit 8 (take_bit 24 y)" by (rule shift8_low) (simp add: bit_take_bit_iff)
  also have "push_bit 8 (take_bit 24 y) = push_bit 8 y" by (rule bit_eqI) (auto simp: bit_simps)
  finally have "shift8 (take_bit 24 y) = push_bit 8 y" .
  then have "shift8 (push_bit 24 (drop_bit 24 y) XOR take_bit 24 y) = crctab ! unat (drop_bit 24 y) XOR push_bit 8 y"
    using crctab_nth [OF i] by (simp add: shift8_xor)
  then show ?thesis using y by (simp add: xor.commute)
qed

lemma COMPUTE_shift8: "COMPUTE r b = shift8 (r XOR push_bit 24 (ucast b))"
proof -
  have "push_bit 8 (r XOR push_bit 24 (ucast b)) = push_bit 8 r" by (rule bit_eqI) (auto simp: bit_simps)
  moreover have "drop_bit 24 (r XOR push_bit 24 (ucast b)) = drop_bit 24 r XOR ucast b"
    by (rule bit_eqI) (auto simp: bit_simps dest: bit_imp_le_length)
  ultimately show ?thesis by (simp add: COMPUTE_def shift8_table)
qed

text \<open>The bits of a byte, fed one by one.\<close>

abbreviation (input) unit_at :: "nat \<Rightarrow> bool \<Rightarrow> 32 word" where
  "unit_at n c \<equiv> push_bit n (of_bool c)"

lemma crc_bit_shift: "crc_bit r c = crc_shift (r XOR unit_at 31 c)"
proof -
  have "push_bit 1 (r XOR unit_at 31 c) = push_bit 1 r" by (rule bit_eqI) (auto simp: bit_simps)
  moreover have "bit (r XOR unit_at 31 c) 31 = (bit r 31 \<noteq> c)" by (simp add: bit_simps)
  ultimately show ?thesis by (simp add: crc_bit_def crc_shift_def)
qed

lemma crc_shift_unit: "n < 31 \<Longrightarrow> crc_shift (unit_at n c) = unit_at (Suc n) c"
  by (subst crc_shift_low) (auto simp: bit_simps)

lemma byte_units: "push_bit 24 (ucast b) = unit_at 31 (bit b 7) XOR unit_at 30 (bit b 6) XOR unit_at 29 (bit b 5) XOR unit_at 28 (bit b 4)
    XOR unit_at 27 (bit b 3) XOR unit_at 26 (bit b 2) XOR unit_at 25 (bit b 1) XOR unit_at 24 (bit b 0)"
proof (rule bit_eqI)
  fix n :: nat
  have "n < 24 \<or> n = 24 \<or> n = 25 \<or> n = 26 \<or> n = 27 \<or> n = 28 \<or> n = 29 \<or> n = 30 \<or> n = 31 \<or> n > 31" by linarith
  then show "bit (push_bit 24 (ucast b) :: 32 word) n = bit (unit_at 31 (bit b 7) XOR unit_at 30 (bit b 6) XOR unit_at 29 (bit b 5) XOR unit_at 28 (bit b 4)
    XOR unit_at 27 (bit b 3) XOR unit_at 26 (bit b 2) XOR unit_at 25 (bit b 1) XOR unit_at 24 (bit b 0)) n"
    by (elim disjE) (simp_all add: bit_simps)
qed

lemma COMPUTE_bits: "COMPUTE r b = foldl crc_bit r (byte_bits b)"
proof -
  have units: "unit_at 30 c = crc_shift (unit_at 29 c)" "unit_at 31 c = crc_shift (unit_at 30 c)" "unit_at 29 c = crc_shift (unit_at 28 c)"
    "unit_at 28 c = crc_shift (unit_at 27 c)" "unit_at 27 c = crc_shift (unit_at 26 c)" "unit_at 26 c = crc_shift (unit_at 25 c)"
    "unit_at 25 c = crc_shift (unit_at 24 c)" for c
    by (simp_all add: crc_shift_unit del: push_bit_of_1)
  show ?thesis unfolding COMPUTE_shift8 byte_units shift8_def byte_bits_def
    by (simp only: crc_bit_shift foldl.simps list.map crc_shift_xor units xor.assoc)
qed

lemma COMPUTE_message: "foldl COMPUTE r bs = foldl crc_bit r (concat (map byte_bits bs))"
  by (induction bs arbitrary: r) (simp_all add: COMPUTE_bits)

text \<open>The length follows the file, low byte first.\<close>

fun length_bytes :: "nat \<Rightarrow> 8 word list" where
  "length_bytes n = (if n = 0 then [] else of_nat (n mod 256) # length_bytes (n div 256))"

declare length_bytes.simps [simp del]

lemma crc_length_bytes: "crc_length n r = foldl COMPUTE r (length_bytes n)"
proof (induction n r rule: crc_length.induct)
  case (1 n r)
  then show ?case by (simp add: crc_length.simps [of n] length_bytes.simps [of n])
qed

lemma crc_read_concat: "crc_read bufs (r, n) = (foldl COMPUTE r (concat bufs), n + length (concat bufs))"
  by (induction bufs arbitrary: r n) simp_all

lemma crc_message: "crc bufs True = Some (NOT (foldl COMPUTE 0 (concat bufs @ length_bytes (length (concat bufs)))), length (concat bufs))"
  by (simp add: crc_def crc_read_concat crc_length_bytes)

text \<open>A register can be read back from the next one.\<close>

lemma xor_zero: "(x :: 32 word) XOR y = 0 \<longleftrightarrow> x = y"
  by (auto simp: bit_eq_iff bit_xor_iff)

lemma xor_cancel: "(x :: 32 word) XOR z = y XOR z \<longleftrightarrow> x = y" "z XOR x = z XOR y \<longleftrightarrow> x = y"
  by (auto simp: bit_eq_iff bit_xor_iff)

lemma crc_shift_0 [simp]: "crc_shift d = 0 \<longleftrightarrow> d = 0"
proof
  assume 0: "crc_shift d = 0"
  have top: "\<not> bit d 31"
  proof
    assume "bit d 31"
    then have "push_bit 1 d = 0x04c11db7" using 0 by (simp add: crc_shift_def xor_zero)
    then have "bit (push_bit 1 d) 0 = bit (0x04c11db7 :: 32 word) 0" by (rule arg_cong)
    then show False by (simp only: bit_push_bit_iff) simp
  qed
  show "d = 0"
  proof (rule bit_word_eqI)
    fix n :: nat
    assume n: "n < LENGTH(32)"
    have "\<not> bit (push_bit 1 d) (Suc n)" using 0 top by (simp add: crc_shift_def)
    then show "bit d n = bit 0 n" using n top by (cases "n = 31") (simp_all only: bit_push_bit_iff, simp_all)
  qed
qed (simp add: crc_shift_def)

lemma shift8_inj: "shift8 x = shift8 y \<Longrightarrow> x = y"
proof -
  assume "shift8 x = shift8 y"
  then have "shift8 (x XOR y) = 0" by (simp add: shift8_xor)
  then have "x XOR y = 0" by (simp add: shift8_def)
  then show "x = y" by (simp add: xor_zero)
qed

lemma COMPUTE_inj: "COMPUTE r b = COMPUTE r' b \<Longrightarrow> r = r'"
  unfolding COMPUTE_shift8 by (drule shift8_inj) (simp add: xor_cancel)

lemma message_inj: "foldl COMPUTE r bs = foldl COMPUTE r' bs \<Longrightarrow> r = r'"
proof (induction bs arbitrary: r r')
  case (Cons b bs)
  have "foldl COMPUTE (COMPUTE r b) bs = foldl COMPUTE (COMPUTE r' b) bs" using Cons.prems by simp
  then have "COMPUTE r b = COMPUTE r' b" by (rule Cons.IH)
  then show ?case by (rule COMPUTE_inj)
qed simp

text \<open>Up to four bytes: the register after them is a shift of the sum of the register before and the word they make.\<close>

fun burst_word :: "nat \<Rightarrow> 8 word list \<Rightarrow> 32 word" where
  "burst_word k [] = 0"
| "burst_word k (b # bs) = push_bit k (ucast b) XOR burst_word (k - 8) bs"

lemma burst_high: "bit (burst_word k bs) n \<Longrightarrow> 8 * length bs \<le> k + 8 \<Longrightarrow> n < k + 8"
proof (induction bs arbitrary: k)
  case (Cons b bs)
  show ?case
  proof (cases "bit (push_bit k (ucast b :: 32 word)) n")
    case True
    then show ?thesis by (auto simp: bit_simps dest: bit_imp_le_length)
  next
    case False
    then have *: "bit (burst_word (k - 8) bs) n" using Cons.prems(1) by (simp add: bit_xor_iff)
    then have "bs \<noteq> []" by auto
    then have "8 \<le> k" using Cons.prems(2) by (cases bs) simp_all
    then show ?thesis using Cons.IH [OF *] Cons.prems(2) by simp
  qed
qed simp

lemma burst_shift: "k \<le> 16 \<Longrightarrow> 8 * length bs \<le> k + 8 \<Longrightarrow> shift8 (burst_word k bs) = burst_word (k + 8) bs"
proof (induction bs arbitrary: k)
  case (Cons b bs)
  have "shift8 (push_bit k (ucast b)) = push_bit 8 (push_bit k (ucast b))"
    by (rule shift8_low) (use Cons.prems(1) in \<open>auto simp: bit_simps dest: bit_imp_le_length\<close>)
  moreover have "shift8 (burst_word (k - 8) bs) = burst_word k bs"
  proof (cases bs)
    case (Cons c cs)
    then show ?thesis using Cons.IH [of "k - 8"] Cons.prems by simp
  qed (simp add: shift8_def)
  ultimately show ?case by (simp add: shift8_xor push_bit_push_bit add.commute)
qed (simp add: shift8_def)

lemma burst_message: "length bs \<le> 4 \<Longrightarrow> foldl COMPUTE r bs = (shift8 ^^ length bs) (r XOR burst_word 24 bs)"
proof (induction bs arbitrary: r)
  case (Cons b bs)
  have "burst_word 24 bs = shift8 (burst_word 16 bs)" using burst_shift [of 16 bs] Cons.prems by simp
  then have "shift8 (r XOR push_bit 24 (ucast b)) XOR burst_word 24 bs = shift8 (r XOR burst_word 24 (b # bs))"
    by (simp add: shift8_xor xor.assoc)
  then show ?case using Cons by (simp add: COMPUTE_shift8 funpow_swap1)
qed simp

lemma burst_word_inj: "burst_word k as = burst_word k bs \<Longrightarrow> length as = length bs \<Longrightarrow> 8 * length as \<le> k + 8 \<Longrightarrow> k \<le> 24 \<Longrightarrow> as = bs"
proof (induction as arbitrary: bs k)
  case (Cons a as)
  obtain b bs' where bs: "bs = b # bs'" using Cons.prems(2) by (cases bs) auto
  have low: "\<not> bit (burst_word (k - 8) cs) n" if "length cs = length as" "k \<le> n" for cs n
  proof
    assume *: "bit (burst_word (k - 8) cs) n"
    then have "cs \<noteq> []" by auto
    then have "8 \<le> k" using Cons.prems(3) that(1) by (cases as) auto
    then show False using burst_high [OF *] Cons.prems(3) that by simp
  qed
  have "bit a n = bit b n" if "n < 8" for n
  proof -
    have "bit (burst_word k (a # as)) (k + n) = bit (burst_word k bs) (k + n)" using Cons.prems(1) by simp
    then show ?thesis using low [of as "k + n"] low [of bs' "k + n"] bs Cons.prems(2,4) that by (simp add: bit_simps)
  qed
  then have "a = b" by (intro bit_word_eqI) simp
  moreover have "as = bs'"
  proof (cases "k < 8")
    case True
    then have "length as = 0" using Cons.prems(3) by (cases as) auto
    then show ?thesis using Cons.prems(2) bs by simp
  next
    case False
    then show ?thesis using Cons.IH [of "k - 8" bs'] Cons.prems bs \<open>a = b\<close> by (simp add: xor_cancel)
  qed
  ultimately show ?case using bs by simp
qed simp

lemma shift8_pow_inj: "(shift8 ^^ n) x = (shift8 ^^ n) y \<Longrightarrow> x = y"
  by (induction n arbitrary: x y) (auto simp: funpow_swap1 dest: shift8_inj)

section \<open>The sums as arithmetic\<close>

lemma sum_read_concat: "sum_read step bufs (r, n) = (foldl step r (concat bufs), n + length (concat bufs))"
  by (induction bufs arbitrary: r n) simp_all

lemma and_16: "(x :: 32 word) AND 0xffff = take_bit 16 x"
  by (simp add: take_bit_eq_mask mask_eq_exp_minus_1)

lemma add_16: "(ucast (x :: 16 word) + ucast (p :: 8 word)) AND 0xffff = (ucast (x + ucast p) :: 32 word)"
  unfolding and_16 by transfer (simp add: take_bit_eq_mod mod_simps)

lemma rotate_step: "csum1_step (ucast c) p = ucast (rsum_step c p)"
proof -
  have "bit (ucast c :: 32 word) 0 = bit c 0" by (simp only: bit_ucast_iff) simp
  then have odd: "(ucast c :: 32 word) AND 1 \<noteq> 0 \<longleftrightarrow> bit c 0"
    by (simp add: and_one_eq mod2_eq_if bit_0)
  obtain k :: nat where k: "k = 16" by simp
  have top: "(0x10000 :: 32 word) = push_bit k 1" by (simp add: k)
  have "bit (drop_bit 1 (if bit c 0 then ucast c OR push_bit k 1 else ucast c) :: 32 word) n
      = bit (ucast (drop_bit 1 c OR push_bit 15 (c AND 1)) :: 32 word) n" if "n < 32" for n
  proof -
    define t where "t = (push_bit k 1 :: 32 word)"
    have t: "bit t (Suc n) \<longleftrightarrow> n = 15" unfolding t_def bit_push_bit_iff bit_1_iff using k that by auto
    show ?thesis unfolding t_def [symmetric] using that t by (auto simp: bit_simps dest: bit_imp_le_length)
  qed
  then have "drop_bit 1 (if bit c 0 then ucast c OR push_bit k 1 else ucast c) = (ucast (drop_bit 1 c OR push_bit 15 (c AND 1)) :: 32 word)"
    by (intro bit_word_eqI) simp
  then show ?thesis
    unfolding csum1_step_def rsum_step_def Let_def odd top by (simp only: add_16)
qed

lemma rsum_loop_blocks: "rsum_loop step xs (c, s) = (foldl step c xs, s + (length xs + 511) div 512)"
proof (induction "length xs" arbitrary: xs c s rule: less_induct)
  case less
  show ?case
  proof (cases "length xs < 512")
    case True
    then have "xs \<noteq> [] \<Longrightarrow> (length xs + 511) div 512 = 1" by (cases xs) auto
    then show ?thesis using True by (cases "xs = []") (simp_all add: rsum_loop.simps [of step xs] rsum_loop.simps [of step "[]"])
  next
    case False
    then have "length xs + 511 = (length xs - 512 + 511) + 512" by simp
    then have "(length xs + 511) div 512 = Suc ((length xs - 512 + 511) div 512)"
      by (metis Suc_eq_plus1 div_add_self2 zero_neq_numeral)
    moreover have "foldl step c xs = foldl step (foldl step c (take 512 xs)) (drop 512 xs)"
      by (metis append_take_drop_id foldl_append)
    moreover have "take 512 xs \<noteq> []" "length (take 512 xs) = 512" using False by auto
    ultimately show ?thesis using less [of "drop 512 xs" "foldl step c (take 512 xs)" "s + 1"] False
      by (simp add: rsum_loop.simps [of step xs])
  qed
qed

abbreviation (input) byte_sum :: "8 word list \<Rightarrow> nat" where
  "byte_sum file \<equiv> sum_list (map unat file)"

lemma sum_fold: "unat (foldl (\<lambda>c p. c + ucast p) r bs :: 'a::len word) = (unat r + byte_sum bs) mod 2 ^ LENGTH('a)" if "8 \<le> LENGTH('a)"
proof (induction bs arbitrary: r)
  case (Cons b bs)
  have "unat (ucast b :: 'a word) = unat b"
  proof -
    have "unat b < 2 ^ 8" using unsigned_less [of b, where ?'a = nat] by simp
    also have "(2 :: nat) ^ 8 \<le> 2 ^ LENGTH('a)" by (rule power_increasing [OF that]) simp
    finally show ?thesis by (simp add: unsigned_ucast_eq take_bit_nat_eq_self)
  qed
  then have "unat (r + ucast b) mod 2 ^ LENGTH('a) = (unat r + unat b) mod 2 ^ LENGTH('a)"
    by (simp add: unat_word_ariths)
  then show ?case unfolding foldl.simps Cons.IH
    by (simp add: add.assoc) (metis add.assoc mod_add_left_eq)
qed (simp add: unat_of_nat)

lemma fold_once:
  fixes w :: "'a::len word"
  assumes "20 \<le> LENGTH('a)" and "unat w < 2 ^ 32"
  shows "unat ((w AND 0xffff) + drop_bit 16 w) = unat w mod 65536 + unat w div 65536"
proof -
  have "(0xffff :: 'a word) = mask 16" by (simp add: mask_eq_exp_minus_1)
  then have "w AND 0xffff = take_bit 16 w" by (simp only: take_bit_eq_mask)
  moreover have "unat (take_bit 16 w) = take_bit 16 (unat w)" by (rule unsigned_take_bit_eq)
  ultimately have low: "unat (w AND 0xffff) = unat w mod 65536" by (simp only: take_bit_eq_mod) simp
  have "unat (drop_bit 16 w) = drop_bit 16 (unat w)" by (rule unat_drop_bit_eq)
  then have high: "unat (drop_bit 16 w) = unat w div 65536" by (simp only: drop_bit_eq_div) simp
  have "unat w mod 65536 + unat w div 65536 < 2 ^ 20" using assms(2) by simp
  also have "(2 :: nat) ^ 20 \<le> 2 ^ LENGTH('a)" by (rule power_increasing [OF assms(1)]) simp
  finally show ?thesis unfolding unat_word_ariths low high by simp
qed

section \<open>Properties\<close>

text \<open>
  C16: The table-driven CRC is the checksum of POSIX: whatever the sizes of the pieces in which the file is read, the
  result is the complement of the 32-bit shift register with feedback 0x04c11db7 that has taken every bit of the file
  and of its length (low byte first, no leading zeros), and the length; a read error is an error. The entry points for
  a buffer and for a byte take the same steps.
\<close>

theorem crc_correct:
  "crc bufs True = Some (NOT (foldl crc_bit 0 (concat (map byte_bits (concat bufs @ length_bytes (length (concat bufs)))))), length (concat bufs))
   \<and> crc bufs False = None \<and> crc_buf r bs = foldl crc_bit r (concat (map byte_bits bs)) \<and> crc_byte r (ucast b) = foldl crc_bit r (byte_bits b)"
proof -
  have "(0xff :: 32 word) = mask 8" by (simp add: mask_eq_exp_minus_1)
  moreover have "ucast (ucast b AND mask 8 :: 32 word) = b" by (rule bit_word_eqI) (auto simp: bit_simps)
  ultimately have "ucast (ucast b AND 0xff :: 32 word) = b" by (simp only:)
  then have "crc_byte r (ucast b) = foldl crc_bit r (byte_bits b)" by (simp add: crc_byte_def COMPUTE_bits)
  then show ?thesis
    by (simp only: crc_message crc_buf_def COMPUTE_message) (simp add: crc_def split_beta)
qed

text \<open>
  C17: The CRC detects bursts: two files of the same length that differ only within four neighbouring bytes never have the
  same checksum.
\<close>

theorem crc_detects_burst:
  assumes "concat bufs = xs @ as @ ys" and "concat bufs' = xs @ bs @ ys" and "length as = length bs" and "length as \<le> 4" and "as \<noteq> bs"
  shows "crc bufs True \<noteq> crc bufs' True"
proof
  let ?n = "length (xs @ as @ ys)" and ?r = "foldl COMPUTE 0 xs"
  assume "crc bufs True = crc bufs' True"
  then have "foldl COMPUTE (foldl COMPUTE ?r as) (ys @ length_bytes ?n) = foldl COMPUTE (foldl COMPUTE ?r bs) (ys @ length_bytes ?n)"
    using assms(1-3) by (simp add: crc_message)
  then have "foldl COMPUTE ?r as = foldl COMPUTE ?r bs" by (rule message_inj)
  then have "burst_word 24 as = burst_word 24 bs"
    using assms(3,4) shift8_pow_inj by (fastforce simp: burst_message xor_cancel)
  then show False using burst_word_inj assms(3-5) by fastforce
qed

theorem crc_detects_burst_witness: "crc [[1, 2], [3, 4, 5]] True \<noteq> crc [[1, 7], [9, 4, 5]] True"
  by (rule crc_detects_burst [where xs = "[1]" and as = "[2, 3]" and bs = "[7, 9]" and ys = "[4, 5]"]) simp_all

text \<open>
  C29: The rotating sum of \<^verbatim>\<open>sum -r\<close>, kept in 16 bits and read in blocks of 512 bytes, is the sum of \<^verbatim>\<open>cksum -o 1\<close>, kept in
  32 bits and read in any pieces; the first counts the started blocks, the second the bytes.
\<close>

theorem sum_r_equiv:
  "csum1 bufs True = Some (ucast (fst (rsum (concat bufs))), length (concat bufs)) \<and> csum1 bufs False = None
   \<and> snd (rsum (concat bufs)) = (length (concat bufs) + 511) div 512"
proof -
  have "foldl csum1_step (ucast c) bs = ucast (foldl rsum_step c bs)" for c bs
    by (induction bs arbitrary: c) (simp_all add: rotate_step)
  from this [of 0] show ?thesis by (simp add: csum1_def rsum_def sum_read_concat rsum_loop_blocks split_beta)
qed

text \<open>
  C30: The sum of \<^verbatim>\<open>cksum -o 2\<close> is the sum of the bytes with the carries out of 16 bits added back: a number below 65536
  that is congruent to it modulo 65535, and 0 only for 0. \<^verbatim>\<open>sum\<close> adds the carries back once only: it prints the same
  number where that is below 65536, and a number that is 65535 larger otherwise.
\<close>

theorem csum2_correct:
  assumes "byte_sum (concat bufs) < 2 ^ 32"
  shows "\<exists>r v. csum2 bufs True = Some (r, length (concat bufs)) \<and> unat r < 65536 \<and> unat r mod 65535 = byte_sum (concat bufs) mod 65535
    \<and> (unat r = 0 \<longleftrightarrow> byte_sum (concat bufs) = 0)
    \<and> fst (sum_sysv (concat bufs)) = v \<and> unat v = byte_sum (concat bufs) mod 65536 + byte_sum (concat bufs) div 65536
    \<and> unat r = (if unat v < 65536 then unat v else unat v - 65535)"
proof -
  define S where "S = byte_sum (concat bufs)"
  define a where "a = S mod 65536 + S div 65536"
  have S: "S < 2 ^ 32" using assms by (simp add: S_def)
  have a: "a < 131071" using S by (simp add: a_def)
  have "S = a + 65535 * (S div 65536)" by (simp add: a_def)
  then have mod: "S mod 65535 = a mod 65535" by (metis mod_mult_self2)
  let ?c = "foldl (\<lambda>c p. c + ucast p) (0 :: 32 word) (concat bufs)" and ?s = "foldl (\<lambda>c p. c + ucast p) (0 :: 64 word) (concat bufs)"
  have c: "unat ?c = S" "unat ?s = S" using S by (simp_all add: sum_fold S_def [symmetric])
  let ?c1 = "(?c AND 0xffff) + drop_bit 16 ?c" and ?v = "(?s AND 0xffff) + drop_bit 16 ?s"
  have c1: "unat ?c1 = a" "unat ?v = a" using fold_once [of ?c] fold_once [of ?s] c S by (simp_all add: a_def)
  define r where "r = (?c1 AND 0xffff) + drop_bit 16 ?c1"
  have r: "unat r = a mod 65536 + a div 65536" unfolding r_def using fold_once [of ?c1] c1 a by simp
  have "unat r = (if a < 65536 then a else a - 65535)"
  proof (cases "a < 65536")
    case False
    then obtain d where "a = 65536 + d" "d < 65536" using a by (intro that [of "a - 65536"]) simp_all
    then show ?thesis using r by simp
  qed (use r in simp)
  moreover have "a = 0 \<longleftrightarrow> S = 0" by (auto simp: a_def)
  moreover have "(a - 65535) mod 65535 = a mod 65535" if "\<not> a < 65536" using that le_mod_geq [of 65535 a] by simp
  ultimately have "unat r < 65536" "unat r mod 65535 = S mod 65535" "unat r = 0 \<longleftrightarrow> S = 0" "unat r = (if a < 65536 then a else a - 65535)"
    using a mod by auto
  moreover have "csum2 bufs True = Some (r, length (concat bufs))" by (simp add: csum2_def sum_read_concat r_def Let_def)
  moreover have "fst (sum_sysv (concat bufs)) = ?v" by (simp add: sum_sysv_def rsum_loop_blocks)
  ultimately show ?thesis using c1(2) by (intro exI [of _ r] exI [of _ ?v]) (simp add: S_def a_def)
qed

theorem csum2_correct_witness:
  "\<exists>r. csum2 [replicate 514 255, [1]] True = Some (r, 515) \<and> unat r = 1 \<and> unat (fst (sum_sysv (replicate 514 255 @ [1]))) = 65536"
proof -
  have S: "byte_sum (concat [replicate 514 255, [1 :: 8 word]]) = 131071" by (simp add: sum_list_replicate)
  obtain r v where r: "csum2 [replicate 514 255, [1]] True = Some (r, 515)" "unat r < 65536" "fst (sum_sysv (replicate 514 255 @ [1])) = v"
    "unat v = 131071 mod 65536 + 131071 div 65536" "unat r = (if unat v < 65536 then unat v else unat v - 65535)"
    using csum2_correct [of "[replicate 514 255, [1]]"] unfolding S by auto
  then show ?thesis by simp
qed

end
