(* ===== verification/Base64.thy ===== *)
theory Base64
  imports Prelude "HOL-Library.Word"
begin

text \<open>
  The encoder and the decoder of \<^verbatim>\<open>usr.bin/base64/base64.c\<close>. Data are lists of bytes, text is a list of characters; the
  output is what \<^verbatim>\<open>fputc\<close> got, also when the decoder then stops with \<open>EINVAL\<close>. That the output device fails is left out.
\<close>

unbundle bit_operations_syntax

datatype status = Success | EINVAL

definition B64 :: string where
  "B64 = ''ABCDEFGHIJKLMNOPQRSTUVWXYZabcdefghijklmnopqrstuvwxyz0123456789+/''"

section \<open>Encoding\<close>

text \<open>Up to three bytes, filled up with zeros, and their number.\<close>

definition getinput :: "8 word list \<Rightarrow> 8 word list \<times> nat \<times> 8 word list" where
  "getinput fin = (let inp = take 3 fin; res = length inp in (inp @ replicate (3 - res) 0, res, drop 3 fin))"

fun encode :: "8 word list \<Rightarrow> 8 word list" where
  "encode [a, b, c] =
     [drop_bit 2 a, push_bit 4 (a AND 0x03) OR drop_bit 4 b, push_bit 2 (b AND 0x0f) OR drop_bit 6 c, c AND 0x3f]"
| "encode _ = []"

definition put_wrapped :: "char \<Rightarrow> nat \<Rightarrow> nat \<Rightarrow> string \<times> nat" where
  "put_wrapped c wrap pos = (if pos + 1 = wrap then ([c, CHR 0x0A], 0) else ([c], pos + 1))"

fun putoutput :: "8 word list \<Rightarrow> nat \<Rightarrow> nat \<Rightarrow> nat \<Rightarrow> status \<times> string \<times> nat" where
  "putoutput [] n wrap pos = (Success, [], pos)"
| "putoutput (d # out) n wrap pos = (
     if n > 0 \<and> d \<ge> 64 then (EINVAL, [], pos)
     else let (s, pos) = put_wrapped (if n > 0 then B64 ! unat d else CHR ''='') wrap pos;
              (e, s', pos) = putoutput out (n - 1) wrap pos
          in (e, s @ s', pos))"

function b64_loop :: "8 word list \<Rightarrow> nat \<Rightarrow> nat \<Rightarrow> status \<times> string" where
  "b64_loop fin wrap pos = (
     let (inp, ilen, rest) = getinput fin
     in if ilen > 2 then
          (let (e, s, pos) = putoutput (encode inp) (ilen + 1) wrap pos
           in if e \<noteq> Success then (e, s) else let (e, s') = b64_loop rest wrap pos in (e, s @ s'))
        else
          (let (e, s, pos) = (if ilen \<noteq> 0 then putoutput (encode inp) (ilen + 1) wrap pos else (Success, [], pos))
           in if e \<noteq> Success then (e, s) else (Success, s @ (if pos \<noteq> 0 \<and> wrap \<noteq> 0 then [CHR 0x0A] else []))))"
  by pat_completeness auto
termination by (relation "measure (\<lambda>(f, w, p). length f)") (auto simp: getinput_def Let_def)

declare b64_loop.simps [simp del]

definition b64_encode :: "8 word list \<Rightarrow> nat \<Rightarrow> status \<times> string" where
  "b64_encode fin wrap = b64_loop fin wrap 0"

section \<open>Decoding\<close>

definition isspace :: "char \<Rightarrow> bool" where
  "isspace c \<longleftrightarrow> c \<in> {CHR '' '', CHR 0x09, CHR 0x0A, CHR 0x0B, CHR 0x0C, CHR 0x0D}"

text \<open>The position of a character in a string; \<^verbatim>\<open>strchr\<close> also finds the NUL behind its end.\<close>

fun strchr :: "string \<Rightarrow> char \<Rightarrow> nat option" where
  "strchr [] c = (if c = CHR 0x00 then Some 0 else None)"
| "strchr (x # xs) c = (if x = c then Some 0 else map_option Suc (strchr xs c))"

definition skip_spaces :: "bool \<Rightarrow> string \<Rightarrow> string" where
  "skip_spaces ignore fin = (if ignore then dropWhile isspace fin else fin)"

text \<open>Behind the first \<open>=\<close>.\<close>

definition padding :: "bool \<Rightarrow> nat \<Rightarrow> string \<Rightarrow> status" where
  "padding ignore state fin = (
     if state = 0 \<or> state = 1 then EINVAL
     else if state = 2 then
       (case skip_spaces ignore fin of
          [] \<Rightarrow> EINVAL
        | c # rest \<Rightarrow> if c \<noteq> CHR ''='' then EINVAL else if skip_spaces ignore rest \<noteq> [] then EINVAL else Success)
     else if skip_spaces ignore fin \<noteq> [] then EINVAL else Success)"

fun b64_decode_loop :: "bool \<Rightarrow> nat \<Rightarrow> 8 word \<Rightarrow> string \<Rightarrow> status \<times> 8 word list" where
  "b64_decode_loop ignore state out [] = (if state \<noteq> 0 then EINVAL else Success, [])"
| "b64_decode_loop ignore state out (c # fin) = (
     if ignore \<and> isspace c then b64_decode_loop ignore state out fin
     else if c = CHR ''='' then (padding ignore state fin, [])
     else case strchr B64 c of
         None \<Rightarrow> (EINVAL, [])
       | Some pos \<Rightarrow> let b = of_nat pos
           in if state = 0 then b64_decode_loop ignore 1 (push_bit 2 b) fin
              else if state = 1 then
                (let (e, bs) = b64_decode_loop ignore 2 (push_bit 4 (b AND 0xf)) fin in (e, (out OR drop_bit 4 b) # bs))
              else if state = 2 then
                (let (e, bs) = b64_decode_loop ignore 3 (push_bit 6 (b AND 0x3)) fin in (e, (out OR drop_bit 2 b) # bs))
              else (let (e, bs) = b64_decode_loop ignore 0 0 fin in (e, (out OR b) # bs)))"

definition b64_decode :: "bool \<Rightarrow> string \<Rightarrow> status \<times> 8 word list" where
  "b64_decode ignore fin = b64_decode_loop ignore 0 0 fin"

section \<open>Digits\<close>

lemma length_B64: "length B64 = 64"
  by (simp add: B64_def)

lemma distinct_B64: "distinct B64"
  by (simp add: B64_def)

lemma B64_plain: "\<forall>c\<in>set B64. \<not> isspace c \<and> c \<noteq> CHR ''=''"
  by (simp add: B64_def isspace_def)

lemma strchr_nth: "distinct xs \<Longrightarrow> i < length xs \<Longrightarrow> strchr xs (xs ! i) = Some i"
proof (induction xs arbitrary: i)
  case (Cons x xs)
  then show ?case by (cases i) auto
qed simp

lemma digit:
  assumes "(d :: 8 word) < 64"
  shows "strchr B64 (B64 ! unat d) = Some (unat d)" "\<not> isspace (B64 ! unat d)" "B64 ! unat d \<noteq> CHR ''=''"
proof -
  have "unat d < length B64" using assms by (simp add: length_B64 word_less_nat_alt)
  then show "strchr B64 (B64 ! unat d) = Some (unat d)" "\<not> isspace (B64 ! unat d)" "B64 ! unat d \<noteq> CHR ''=''"
    using strchr_nth [OF distinct_B64] B64_plain nth_mem by blast+
qed

lemma bits_below_64: "(\<And>n. 6 \<le> n \<Longrightarrow> \<not> bit (d :: 8 word) n) \<Longrightarrow> d < 64"
proof -
  assume "\<And>n. 6 \<le> n \<Longrightarrow> \<not> bit d n"
  then have "take_bit 6 d = d" by (intro bit_word_eqI) (auto simp: bit_simps not_le [symmetric])
  then have "unat d = take_bit 6 (unat d)" by (metis unsigned_take_bit_eq)
  then have "unat d < 2 ^ 6" by (metis take_bit_nat_less_exp)
  then show ?thesis by (simp add: word_less_nat_alt)
qed

lemma below_8: "n < 8 \<Longrightarrow> n = 0 \<or> n = 1 \<or> n = 2 \<or> n = 3 \<or> n = 4 \<or> n = 5 \<or> n = 6 \<or> n = (7 :: nat)"
  by linarith

text \<open>What the decoder keeps of a digit, in each state; the four digits of a group, and the three bytes they give back.\<close>

definition kept0 :: "8 word \<Rightarrow> 8 word" where "kept0 d = push_bit 2 d"

definition kept1 :: "8 word \<Rightarrow> 8 word" where "kept1 d = push_bit 4 (d AND 0xf)"

definition kept2 :: "8 word \<Rightarrow> 8 word" where "kept2 d = push_bit 6 (d AND 0x3)"

lemma encode_digits:
  obtains d0 d1 d2 d3 where "encode [a, b, c] = [d0, d1, d2, d3]" "d0 < 64" "d1 < 64" "d2 < 64" "d3 < 64"
    "kept0 d0 OR drop_bit 4 d1 = a" "kept1 d1 OR drop_bit 2 d2 = b" "kept2 d2 OR d3 = c"
proof
  have masks: "(0x3 :: 8 word) = mask 2" "(0xf :: 8 word) = mask 4" "(0x3f :: 8 word) = mask 6" by (simp_all add: mask_eq_exp_minus_1)
  let ?d0 = "drop_bit 2 a" and ?d1 = "push_bit 4 (a AND mask 2) OR drop_bit 4 b" and ?d2 = "push_bit 2 (b AND mask 4) OR drop_bit 6 c" and ?d3 = "c AND mask 6"
  show "encode [a, b, c] = [?d0, ?d1, ?d2, ?d3]" unfolding encode.simps masks ..
  show "?d0 < 64" "?d1 < 64" "?d2 < 64" "?d3 < 64"
    by (rule bits_below_64; auto simp: bit_simps dest: bit_imp_le_length)+
  show "kept0 ?d0 OR drop_bit 4 ?d1 = a"
    unfolding kept0_def masks by (rule bit_word_eqI) (simp, drule below_8, elim disjE; simp add: bit_simps)
  show "kept1 ?d1 OR drop_bit 2 ?d2 = b"
    unfolding kept1_def masks by (rule bit_word_eqI) (simp, drule below_8, elim disjE; simp add: bit_simps)
  show "kept2 ?d2 OR ?d3 = c"
    unfolding kept2_def masks by (rule bit_word_eqI) (simp, drule below_8, elim disjE; simp add: bit_simps)
qed

declare encode.simps(1) [simp del]

section \<open>Groups\<close>

text \<open>The text without line breaks, and a text broken into lines of \<open>wrap\<close> characters from column \<open>pos\<close> on.\<close>

definition group :: "8 word list \<Rightarrow> nat \<Rightarrow> string" where
  "group out n = map (\<lambda>d. B64 ! unat d) (take n out) @ replicate (4 - n) CHR ''=''"

fun wrapped :: "string \<Rightarrow> nat \<Rightarrow> nat \<Rightarrow> string \<times> nat" where
  "wrapped [] wrap pos = ([], pos)"
| "wrapped (c # cs) wrap pos = (let (s, pos) = put_wrapped c wrap pos; (s', pos) = wrapped cs wrap pos in (s @ s', pos))"

fun unwrapped :: "8 word list \<Rightarrow> string" where
  "unwrapped (a # b # c # rest) = group (encode [a, b, c]) 4 @ unwrapped rest"
| "unwrapped [a, b] = group (encode [a, b, 0]) 3"
| "unwrapped [a] = group (encode [a, 0, 0]) 2"
| "unwrapped [] = []"

lemma putoutput_wrapped:
  "\<forall>d\<in>set out. d < 64 \<Longrightarrow> putoutput out n wrap pos = (let (s, pos) = wrapped (map (\<lambda>d. B64 ! unat d) (take n out) @ replicate (length out - n) CHR ''='') wrap pos in (Success, s, pos))"
proof (induction out arbitrary: n pos)
  case (Cons d out)
  then show ?case by (cases n) (auto simp: split_beta Let_def)
qed simp

lemma wrapped_append: "wrapped (s @ t) wrap pos = (let (s', pos) = wrapped s wrap pos; (t', pos) = wrapped t wrap pos in (s' @ t', pos))"
  by (induction s arbitrary: pos) (simp_all add: split_beta Let_def)

lemma putoutput_group:
  "putoutput (encode [a, b, c]) n wrap pos = (let (s, pos) = wrapped (group (encode [a, b, c]) n) wrap pos in (Success, s, pos))"
proof -
  obtain d0 d1 d2 d3 where "encode [a, b, c] = [d0, d1, d2, d3]" "d0 < 64" "d1 < 64" "d2 < 64" "d3 < 64" by (rule encode_digits)
  then show ?thesis using putoutput_wrapped [of "encode [a, b, c]" n wrap pos] by (simp add: group_def eval_nat_numeral del: putoutput.simps)
qed

lemma b64_loop_wrapped: "b64_loop fin wrap pos = (let (s, pos) = wrapped (unwrapped fin) wrap pos in (Success, s @ (if pos \<noteq> 0 \<and> wrap \<noteq> 0 then [CHR 0x0A] else [])))"
proof (induction fin arbitrary: pos rule: unwrapped.induct)
  case (1 a b c rest)
  then show ?case by (simp add: b64_loop.simps [of "a # b # c # rest"] getinput_def putoutput_group wrapped_append split_beta Let_def eval_nat_numeral)
qed (simp_all add: b64_loop.simps [of "[_, _]"] b64_loop.simps [of "[_]"] b64_loop.simps [of "[]"] getinput_def putoutput_group split_beta Let_def eval_nat_numeral)

section \<open>Lines\<close>

lemma wrapped_lines:
  assumes "length cur = pos" and "pos < wrap"
  shows "\<exists>lines cur'. cur @ fst (wrapped s wrap pos) = concat (map (\<lambda>l. l @ [CHR 0x0A]) lines) @ cur' \<and> (\<forall>l\<in>set lines. length l = wrap)
    \<and> length cur' = snd (wrapped s wrap pos) \<and> length cur' < wrap \<and> concat lines @ cur' = cur @ s"
  using assms
proof (induction s arbitrary: cur pos)
  case Nil
  then show ?case by (intro exI [of _ "[]"] exI [of _ cur]) simp
next
  case (Cons c s)
  show ?case
  proof (cases "pos + 1 = wrap")
    case True
    obtain lines cur' where "fst (wrapped s wrap 0) = concat (map (\<lambda>l. l @ [CHR 0x0A]) lines) @ cur'" "\<forall>l\<in>set lines. length l = wrap"
      "length cur' = snd (wrapped s wrap 0)" "length cur' < wrap" "concat lines @ cur' = s"
      using Cons.IH [of "[]" 0] Cons.prems by auto
    then show ?thesis using True Cons.prems(1)
      by (intro exI [of _ "(cur @ [c]) # lines"] exI [of _ cur']) (simp add: put_wrapped_def split_beta Let_def)
  next
    case False
    then obtain lines cur' where "(cur @ [c]) @ fst (wrapped s wrap (pos + 1)) = concat (map (\<lambda>l. l @ [CHR 0x0A]) lines) @ cur'" "\<forall>l\<in>set lines. length l = wrap"
      "length cur' = snd (wrapped s wrap (pos + 1))" "length cur' < wrap" "concat lines @ cur' = (cur @ [c]) @ s"
      using Cons.IH [of "cur @ [c]" "pos + 1"] Cons.prems by auto
    then show ?thesis using False by (intro exI [of _ lines] exI [of _ cur']) (simp add: put_wrapped_def split_beta Let_def)
  qed
qed

lemma encode_lines:
  assumes "0 < wrap"
  shows "\<exists>lines. snd (b64_encode fin wrap) = concat (map (\<lambda>l. l @ [CHR 0x0A]) lines) \<and> concat lines = unwrapped fin
    \<and> (\<forall>l\<in>set (butlast lines). length l = wrap) \<and> (\<forall>l\<in>set lines. 0 < length l \<and> length l \<le> wrap)"
proof -
  obtain lines cur where l: "fst (wrapped (unwrapped fin) wrap 0) = concat (map (\<lambda>l. l @ [CHR 0x0A]) lines) @ cur" "\<forall>l\<in>set lines. length l = wrap"
    "length cur = snd (wrapped (unwrapped fin) wrap 0)" "length cur < wrap" "concat lines @ cur = unwrapped fin"
    using wrapped_lines [of "[]" 0 wrap "unwrapped fin"] assms by auto
  show ?thesis
  proof (cases "cur = []")
    case True
    then show ?thesis using l assms by (intro exI [of _ lines]) (auto simp: b64_encode_def b64_loop_wrapped split_beta Let_def dest: in_set_butlastD)
  next
    case False
    then have "snd (wrapped (unwrapped fin) wrap 0) \<noteq> 0" using l(3) by (metis length_0_conv)
    then show ?thesis using False l assms by (intro exI [of _ "lines @ [cur]"]) (auto simp: b64_encode_def b64_loop_wrapped split_beta Let_def)
  qed
qed

section \<open>Decoding what was encoded\<close>

abbreviation (input) visible :: "string \<Rightarrow> string" where
  "visible s \<equiv> filter (\<lambda>c. \<not> isspace c) s"

lemma skip_visible: "skip_spaces True (visible s) = (case skip_spaces True s of [] \<Rightarrow> [] | c # t \<Rightarrow> c # visible t)"
  by (induction s) (auto simp: skip_spaces_def)

lemma padding_visible: "padding True state (visible s) = padding True state s"
  by (auto simp: padding_def skip_visible split: list.splits)

lemma decode_visible: "b64_decode_loop True state out (visible s) = b64_decode_loop True state out s"
  by (induction s arbitrary: state out) (simp_all add: padding_visible Let_def split: option.split)

lemma strchr_B64_pad: "isspace c \<Longrightarrow> c \<noteq> CHR ''=''"
  by (auto simp: isspace_def)

lemma decode_digit:
  assumes "d < 64"
  shows "b64_decode_loop ig 0 out (B64 ! unat d # s) = b64_decode_loop ig 1 (kept0 d) s"
    "b64_decode_loop ig 1 out (B64 ! unat d # s) = (let (e, bs) = b64_decode_loop ig 2 (kept1 d) s in (e, (out OR drop_bit 4 d) # bs))"
    "b64_decode_loop ig 2 out (B64 ! unat d # s) = (let (e, bs) = b64_decode_loop ig 3 (kept2 d) s in (e, (out OR drop_bit 2 d) # bs))"
    "b64_decode_loop ig 3 out (B64 ! unat d # s) = (let (e, bs) = b64_decode_loop ig 0 0 s in (e, (out OR d) # bs))"
  using digit [OF assms] by (simp_all add: Let_def kept0_def kept1_def kept2_def)

lemma decode_pad: "b64_decode_loop ig st out (CHR ''='' # s) = (padding ig st s, [])"
  by (simp add: isspace_def)

lemma padding_end: "padding ig 3 [] = Success" "padding ig 2 [CHR ''=''] = Success"
  by (simp_all add: padding_def skip_spaces_def isspace_def)

lemmas decode_simps = decode_digit decode_pad padding_end split_beta Let_def

lemma group_chars:
  "group [d0, d1, d2, d3] 4 = [B64 ! unat d0, B64 ! unat d1, B64 ! unat d2, B64 ! unat d3]"
  "group [d0, d1, d2, d3] 3 = [B64 ! unat d0, B64 ! unat d1, B64 ! unat d2, CHR ''='']"
  "group [d0, d1, d2, d3] 2 = [B64 ! unat d0, B64 ! unat d1, CHR ''='', CHR ''='']"
  by (simp_all add: group_def eval_nat_numeral)

lemma decode_groups:
  "b64_decode_loop ig 0 0 (group (encode [a, b, c]) 4 @ s) = (let (e, bs) = b64_decode_loop ig 0 0 s in (e, a # b # c # bs))"
  "b64_decode_loop ig 0 0 (group (encode [a, b, c]) 3) = (Success, [a, b])"
  "b64_decode_loop ig 0 0 (group (encode [a, b, c]) 2) = (Success, [a])"
proof -
  obtain d0 d1 d2 d3 where d: "encode [a, b, c] = [d0, d1, d2, d3]" "d0 < 64" "d1 < 64" "d2 < 64" "d3 < 64"
    and kept: "kept0 d0 OR drop_bit 4 d1 = a" "kept1 d1 OR drop_bit 2 d2 = b" "kept2 d2 OR d3 = c" by (rule encode_digits)
  show "b64_decode_loop ig 0 0 (group (encode [a, b, c]) 4 @ s) = (let (e, bs) = b64_decode_loop ig 0 0 s in (e, a # b # c # bs))"
    "b64_decode_loop ig 0 0 (group (encode [a, b, c]) 3) = (Success, [a, b])" "b64_decode_loop ig 0 0 (group (encode [a, b, c]) 2) = (Success, [a])"
    unfolding d(1) group_chars append.simps decode_digit [OF d(2)] decode_digit [OF d(3)] decode_digit [OF d(4)] decode_digit [OF d(5)] decode_pad padding_end kept
    by (simp_all add: split_beta)
qed

lemma decode_unwrapped: "b64_decode_loop ig 0 0 (unwrapped fin) = (Success, fin)"
  by (induction fin rule: unwrapped.induct) (simp_all add: decode_groups)

lemma group_props:
  assumes "n \<in> {2, 3, 4}"
  shows "length (group (encode [a, b, c]) n) = 4" "\<forall>c\<in>set (group (encode [a, b, c]) n). \<not> isspace c"
proof -
  obtain d0 d1 d2 d3 where d: "encode [a, b, c] = [d0, d1, d2, d3]" "d0 < 64" "d1 < 64" "d2 < 64" "d3 < 64" by (rule encode_digits)
  have "\<not> isspace CHR ''=''" by (simp add: isspace_def)
  then show "length (group (encode [a, b, c]) n) = 4" "\<forall>c\<in>set (group (encode [a, b, c]) n). \<not> isspace c"
    using assms digit(2) [OF d(2)] digit(2) [OF d(3)] digit(2) [OF d(4)] digit(2) [OF d(5)] unfolding d(1) by (auto simp: group_chars)
qed

lemma unwrapped_visible: "c \<in> set (unwrapped fin) \<Longrightarrow> \<not> isspace c"
proof (induction fin rule: unwrapped.induct)
  case (1 a b d rest)
  then show ?case using group_props(2) [of 4 a b d] by auto
next
  case (2 a b)
  then show ?case using group_props(2) [of 3 a b 0] by auto
next
  case (3 a)
  then show ?case using group_props(2) [of 2 a 0 0] by auto
qed simp

lemma unwrapped_length: "length (unwrapped fin) = 4 * ((length fin + 2) div 3)"
proof (induction fin rule: unwrapped.induct)
  case (1 a b c rest)
  have "(length rest + 2 + 3) div 3 = (length rest + 2) div 3 + 1" by (rule div_add_self2) simp
  then show ?case using 1 by (simp add: group_props(1) add.commute)
qed (simp_all add: group_props(1))

lemma encode_visible: "visible (snd (b64_encode fin wrap)) = unwrapped fin"
proof -
  have "visible (fst (wrapped s wrap pos)) = visible s" for s pos
    by (induction s arbitrary: pos) (auto simp: put_wrapped_def split_beta Let_def isspace_def)
  then have "visible (snd (b64_encode fin wrap)) = visible (unwrapped fin)"
    by (simp add: b64_encode_def b64_loop_wrapped split_beta Let_def isspace_def)
  then show ?thesis using unwrapped_visible by (simp add: filter_id_conv)
qed

section \<open>Properties\<close>

text \<open>
  C18: \<^verbatim>\<open>base64 -d -i\<close> undoes \<^verbatim>\<open>base64\<close>: every list of bytes is encoded without an error, for every line width, and the text
  is decoded to the same bytes; when no line breaks were asked for, also without the option to ignore space. The text
  has four characters for every three bytes begun, in lines of the width asked for, of which only the last may be shorter.
\<close>

theorem b64_roundtrip:
  "\<exists>text. b64_encode fin wrap = (Success, text) \<and> b64_decode True text = (Success, fin) \<and> (wrap = 0 \<longrightarrow> b64_decode False text = (Success, fin))
    \<and> length (visible text) = 4 * ((length fin + 2) div 3)
    \<and> (0 < wrap \<longrightarrow> (\<exists>lines. text = concat (map (\<lambda>l. l @ [CHR 0x0A]) lines)
         \<and> (\<forall>l\<in>set (butlast lines). length l = wrap) \<and> (\<forall>l\<in>set lines. 0 < length l \<and> length l \<le> wrap)))"
proof -
  let ?text = "snd (b64_encode fin wrap)"
  have "b64_encode fin wrap = (Success, ?text)" by (simp add: b64_encode_def b64_loop_wrapped split_beta Let_def)
  moreover have "b64_decode True ?text = (Success, fin)"
    using decode_visible [of 0 0 ?text] by (simp add: b64_decode_def encode_visible decode_unwrapped)
  moreover have "b64_decode False ?text = (Success, fin)" if "wrap = 0"
  proof -
    have "fst (wrapped s 0 pos) = s" for s pos by (induction s arbitrary: pos) (simp_all add: put_wrapped_def split_beta Let_def)
    then show ?thesis using that by (simp add: b64_encode_def b64_loop_wrapped split_beta Let_def b64_decode_def decode_unwrapped)
  qed
  moreover have "length (visible ?text) = 4 * ((length fin + 2) div 3)" by (simp add: encode_visible unwrapped_length)
  ultimately show ?thesis using encode_lines [of wrap fin] by (intro exI [of _ ?text]) blast
qed

theorem b64_roundtrip_witness:
  "\<exists>text. b64_encode [77, 97] 0 = (Success, text) \<and> b64_decode False text = (Success, [77, 97])"
  using b64_roundtrip [of "[77, 97]" 0] by auto

text \<open>The decoder takes a NUL for a digit with the value 64: \<^verbatim>\<open>strchr\<close> finds it behind the digits.\<close>

lemma b64_decode_nul: "b64_decode False (''TWF'' @ [CHR 0x00]) = (Success, [77, 97, 64])"
  by code_simp

end
