(* ===== verification/Uucode.thy ===== *)
theory Uucode
  imports Prelude "HOL-Library.Word"
begin

text \<open>
  The bodies of \<^verbatim>\<open>usr.bin/uuencode/uuencode.c\<close> (\<open>encode\<close>) and of \<^verbatim>\<open>usr.bin/uudecode/uudecode.c\<close> (\<open>decode\<close> behind the
  header line). Files are lists of bytes; a \<^verbatim>\<open>char\<close> is signed. Both programs work in a buffer on the stack that keeps
  what earlier lines left in it, and read some of that: the buffers are arguments, with any contents. \<open>None\<close> is an
  access outside the buffer. That the output device fails is left out.
\<close>

unbundle bit_operations_syntax

section \<open>Encoding\<close>

definition ENC :: "int \<Rightarrow> 8 word" where
  "ENC c = word_of_int (if c \<noteq> 0 then (c AND 0x3F) + 32 else 96)"

text \<open>\<^verbatim>\<open>for (p = buf; n > 0; n -= 3, p += 3)\<close>\<close>

fun enc_groups :: "8 word list \<Rightarrow> nat \<Rightarrow> 8 word list option" where
  "enc_groups p n = (if n = 0 then Some [] else case p of
     p0 # p1 # p2 # rest \<Rightarrow> do {
       s \<leftarrow> enc_groups rest (n - 3);
       Some (ENC (drop_bit 2 (sint p0)) # ENC ((push_bit 4 (sint p0) AND 0x30) OR (drop_bit 4 (sint p1) AND 0x0F))
         # ENC ((push_bit 2 (sint p1) AND 0x3C) OR (drop_bit 6 (sint p2) AND 0x03)) # ENC (sint p2 AND 0x3F) # s)
     }
   | _ \<Rightarrow> None)"

declare enc_groups.simps [simp del]

function uu_lines :: "8 word list \<Rightarrow> 8 word list \<Rightarrow> 8 word list option" where
  "uu_lines stdin buf = (
     let n = min 45 (length stdin); buf = take n stdin @ drop n buf
     in if n = 0 then Some []
        else case uu_lines (drop n stdin) buf of
            None \<Rightarrow> None
          | Some more \<Rightarrow> do { s \<leftarrow> enc_groups buf n; Some (ENC (int n) # s @ 10 # more) })"
  by pat_completeness auto
termination by (relation "measure (\<lambda>(f, b). length f)") auto

declare uu_lines.simps [simp del]

definition uuencode :: "8 word list \<Rightarrow> 8 word list \<Rightarrow> 8 word list option" where
  "uuencode stdin buf = do { s \<leftarrow> uu_lines stdin buf; Some (s @ [ENC 0, 10]) }"

section \<open>Decoding\<close>

definition DEC :: "8 word \<Rightarrow> int" where
  "DEC c = (sint c - 32) AND 0x3F"

text \<open>\<^verbatim>\<open>fgets\<close> with room for \<open>k\<close> characters: the line with its end, and what is left.\<close>

fun get_line :: "nat \<Rightarrow> 8 word list \<Rightarrow> 8 word list \<times> 8 word list" where
  "get_line (Suc k) (c # fin) = (if c = 10 then ([c], fin) else (let (l, fin) = get_line k fin in (c # l, fin)))"
| "get_line _ fin = ([], fin)"

definition fgets :: "8 word list \<Rightarrow> 8 word list \<Rightarrow> (8 word list \<times> 8 word list) option" where
  "fgets buf fin = (if fin = [] then None
     else let (l, fin) = get_line (length buf - 1) fin in Some (l @ 0 # drop (length l + 1) buf, fin))"

text \<open>The characters of a line that are put: \<open>ch\<close> is a \<^verbatim>\<open>char\<close>.\<close>

fun dec_groups :: "8 word list \<Rightarrow> nat \<Rightarrow> 8 word list option" where
  "dec_groups p n = (if n = 0 then Some []
     else if n \<ge> 3 then (case p of
       p0 # p1 # p2 # p3 # rest \<Rightarrow> do {
         s \<leftarrow> dec_groups rest (n - 3);
         Some (word_of_int (push_bit 2 (DEC p0) OR drop_bit 4 (DEC p1)) # word_of_int (push_bit 4 (DEC p1) OR drop_bit 2 (DEC p2))
           # word_of_int (push_bit 6 (DEC p2) OR DEC p3) # s)
       }
     | _ \<Rightarrow> None)
     else (case p of
       p0 # p1 # rest \<Rightarrow>
         if n = 2 then (case rest of
             p2 # _ \<Rightarrow> Some [word_of_int (push_bit 2 (DEC p0) OR drop_bit 4 (DEC p1)), word_of_int (push_bit 4 (DEC p1) OR drop_bit 2 (DEC p2))]
           | [] \<Rightarrow> None)
         else Some [word_of_int (push_bit 2 (DEC p0) OR drop_bit 4 (DEC p1))]
     | _ \<Rightarrow> None))"

declare dec_groups.simps [simp del]

datatype uu_end = Decoded | Short_file | No_end_line

lemma get_line_shorter: "length (snd (get_line k fin)) \<le> length fin"
  by (induction k fin rule: get_line.induct) (auto simp: split_beta)

lemma fgets_shorter: "fgets buf fin = Some (b, fin') \<Longrightarrow> 2 \<le> length buf \<Longrightarrow> length fin' < length fin"
proof -
  assume f: "fgets buf fin = Some (b, fin')" and b: "2 \<le> length buf"
  obtain k where k: "length buf - 1 = Suc k" using b by (cases "length buf - 1") auto
  obtain c cs where c: "fin = c # cs" using f by (cases fin) (auto simp: fgets_def)
  show ?thesis using f k c get_line_shorter [of k cs] by (auto simp: fgets_def split_beta split: if_splits)
qed

text \<open>\<open>end\<close> and the end of the line\<close>

definition end_line :: "8 word list" where
  "end_line = [101, 110, 100, 10]"

function uudecode :: "8 word list \<Rightarrow> 8 word list \<Rightarrow> (uu_end \<times> 8 word list) option" where
  "uudecode buf fin = (if length buf < 2 then None else case fgets buf fin of
     None \<Rightarrow> Some (Short_file, [])
   | Some (buf, fin) \<Rightarrow>
       let n = nat (DEC (hd buf))
       in if n = 0 then
            (case fgets buf fin of
               None \<Rightarrow> Some (No_end_line, [])
             | Some (buf, fin) \<Rightarrow> Some (if takeWhile (\<lambda>c. c \<noteq> 0) buf = end_line then Decoded else No_end_line, []))
          else case uudecode buf fin of
              None \<Rightarrow> None
            | Some (e, more) \<Rightarrow> do { s \<leftarrow> dec_groups (tl buf) n; Some (e, s @ more) })"
  by pat_completeness auto
termination by (relation "measure (\<lambda>(b, f). length f)") (auto dest: fgets_shorter)

declare uudecode.simps [simp del]

section \<open>Digits\<close>

lemma sint_small: "0 \<le> k \<Longrightarrow> k < 128 \<Longrightarrow> sint (word_of_int k :: 8 word) = k"
  by (simp add: signed_of_int signed_take_bit_int_eq_self)

lemma and_63: "0 \<le> (c AND 0x3F :: int)" "(c AND 0x3F :: int) < 64"
proof -
  have "(0x3F :: int) = mask 6" by (simp add: mask_eq_exp_minus_1)
  then have "c AND 0x3F = c mod 64" by (simp only: take_bit_eq_mask [symmetric] take_bit_eq_mod) simp
  then show "0 \<le> (c AND 0x3F :: int)" "(c AND 0x3F :: int) < 64" by simp_all
qed

lemma DEC_ENC: "DEC (ENC c) = c AND 0x3F"
proof (cases "c = 0")
  case False
  then show ?thesis using sint_small [of "(c AND 0x3F) + 32"] and_63 [of c] by (simp add: DEC_def ENC_def)
qed (simp add: DEC_def ENC_def)

text \<open>A digit is a printing character.\<close>

lemma ENC_plain: "ENC c \<noteq> 10" "ENC c \<noteq> 0"
proof -
  have "sint (ENC c) \<ge> 32" using sint_small [of "(c AND 0x3F) + 32"] and_63 [of c] by (simp add: ENC_def)
  then show "ENC c \<noteq> 10" "ENC c \<noteq> 0" by auto
qed

lemma word8_eqI: "(\<And>n. n \<in> {0, 1, 2, 3, 4, 5, 6, 7} \<Longrightarrow> bit x n = bit y n) \<Longrightarrow> x = (y :: 8 word)"
proof (rule bit_word_eqI)
  fix n assume eq: "\<And>n. n \<in> {0, 1, 2, 3, 4, 5, 6, 7} \<Longrightarrow> bit x n = bit y n" and n: "n < LENGTH(8)"
  have "n = 0 \<or> n = 1 \<or> n = 2 \<or> n = 3 \<or> n = 4 \<or> n = 5 \<or> n = 6 \<or> n = 7" using n by simp linarith
  then show "bit x n = bit y n" by (intro eq) blast
qed

lemma bytes_back:
  fixes a b c :: "8 word"
  shows "word_of_int (push_bit 2 (drop_bit 2 (sint a) AND 0x3F) OR drop_bit 4 (((push_bit 4 (sint a) AND 0x30) OR (drop_bit 4 (sint b) AND 0x0F)) AND 0x3F)) = a"
    "word_of_int (push_bit 4 (((push_bit 4 (sint a) AND 0x30) OR (drop_bit 4 (sint b) AND 0x0F)) AND 0x3F)
       OR drop_bit 2 (((push_bit 2 (sint b) AND 0x3C) OR (drop_bit 6 (sint c) AND 0x03)) AND 0x3F)) = b"
    "word_of_int (push_bit 6 (((push_bit 2 (sint b) AND 0x3C) OR (drop_bit 6 (sint c) AND 0x03)) AND 0x3F) OR ((sint c AND 0x3F) AND 0x3F)) = c"
  by (rule word8_eqI; elim insertE emptyE; simp add: bit_simps)+

section \<open>Lines\<close>

lemma enc_groups_0: "enc_groups p 0 = Some []"
  by (simp add: enc_groups.simps)

lemma dec_groups_more: "3 \<le> n \<Longrightarrow> dec_groups (p0 # p1 # p2 # p3 # rest) n = do {
    s \<leftarrow> dec_groups rest (n - 3);
    Some (word_of_int (push_bit 2 (DEC p0) OR drop_bit 4 (DEC p1)) # word_of_int (push_bit 4 (DEC p1) OR drop_bit 2 (DEC p2))
      # word_of_int (push_bit 6 (DEC p2) OR DEC p3) # s) }"
  by (simp add: dec_groups.simps [of "p0 # p1 # p2 # p3 # rest"])

lemma dec_groups_2: "dec_groups (p0 # p1 # p2 # rest) 2 =
    Some [word_of_int (push_bit 2 (DEC p0) OR drop_bit 4 (DEC p1)), word_of_int (push_bit 4 (DEC p1) OR drop_bit 2 (DEC p2))]"
  by (simp add: dec_groups.simps [of "p0 # p1 # p2 # rest"])

lemma dec_groups_1: "dec_groups (p0 # p1 # rest) 1 = Some [word_of_int (push_bit 2 (DEC p0) OR drop_bit 4 (DEC p1))]"
  by (simp add: dec_groups.simps [of "p0 # p1 # rest"])

text \<open>The four characters of a group.\<close>

lemma group_back:
  assumes "p = p0 # p1 # p2 # rest" and "0 < n" and "enc_groups rest (n - 3) = Some s"
  obtains e0 e1 e2 e3 where "enc_groups p n = Some (e0 # e1 # e2 # e3 # s)" "\<forall>c\<in>{e0, e1, e2, e3}. c \<noteq> 10"
      "word_of_int (push_bit 2 (DEC e0) OR drop_bit 4 (DEC e1)) = p0" "word_of_int (push_bit 4 (DEC e1) OR drop_bit 2 (DEC e2)) = p1"
      "word_of_int (push_bit 6 (DEC e2) OR DEC e3) = p2"
proof
  let ?e0 = "ENC (drop_bit 2 (sint p0))" and ?e1 = "ENC ((push_bit 4 (sint p0) AND 0x30) OR (drop_bit 4 (sint p1) AND 0x0F))"
    and ?e2 = "ENC ((push_bit 2 (sint p1) AND 0x3C) OR (drop_bit 6 (sint p2) AND 0x03))" and ?e3 = "ENC (sint p2 AND 0x3F)"
  show "enc_groups p n = Some (?e0 # ?e1 # ?e2 # ?e3 # s)" using assms by (simp add: enc_groups.simps [of "p0 # p1 # p2 # rest"])
  show "\<forall>c\<in>{?e0, ?e1, ?e2, ?e3}. c \<noteq> 10" by (simp add: ENC_plain(1))
  show "word_of_int (push_bit 2 (DEC ?e0) OR drop_bit 4 (DEC ?e1)) = p0" "word_of_int (push_bit 4 (DEC ?e1) OR drop_bit 2 (DEC ?e2)) = p1"
    "word_of_int (push_bit 6 (DEC ?e2) OR DEC ?e3) = p2"
    by (simp_all only: DEC_ENC bytes_back)
qed

lemma groups_back:
  "n + 2 \<le> length p \<Longrightarrow> \<exists>s. enc_groups p n = Some s \<and> (\<forall>t. dec_groups (s @ t) n = Some (take n p)) \<and> (\<forall>c\<in>set s. c \<noteq> 10) \<and> length s \<le> 2 * n + 2"
proof (induction n arbitrary: p rule: less_induct)
  case (less n)
  show ?case
  proof (cases "n = 0")
    case True
    then show ?thesis by (simp add: enc_groups.simps dec_groups.simps)
  next
    case False
    then obtain p0 p1 p2 rest where p: "p = p0 # p1 # p2 # rest" using less.prems
      by (cases p; cases "tl p"; cases "tl (tl p)") auto
    obtain s where s: "enc_groups rest (n - 3) = Some s" "\<And>t. dec_groups (s @ t) (n - 3) = Some (take (n - 3) rest)" "\<forall>c\<in>set s. c \<noteq> 10"
      "length s \<le> 2 * (n - 3) + 2" "n \<le> 3 \<Longrightarrow> s = []"
    proof (cases "n \<ge> 3")
      case True
      then obtain s where "enc_groups rest (n - 3) = Some s" "\<And>t. dec_groups (s @ t) (n - 3) = Some (take (n - 3) rest)" "\<forall>c\<in>set s. c \<noteq> 10" "length s \<le> 2 * (n - 3) + 2"
      proof -
        have "n - 3 < n" "n - 3 + 2 \<le> length rest" using True less.prems p by simp_all
        then show thesis using less.IH [of "n - 3" rest] that by blast
      qed
      then show thesis using that True by (cases "n = 3") (auto simp: enc_groups_0)
    qed (use that [of "[]"] in \<open>simp add: enc_groups.simps dec_groups.simps\<close>)
    obtain e0 e1 e2 e3 where e: "enc_groups p n = Some (e0 # e1 # e2 # e3 # s)" "\<forall>c\<in>{e0, e1, e2, e3}. c \<noteq> 10"
      "word_of_int (push_bit 2 (DEC e0) OR drop_bit 4 (DEC e1)) = p0" "word_of_int (push_bit 4 (DEC e1) OR drop_bit 2 (DEC e2)) = p1"
      "word_of_int (push_bit 6 (DEC e2) OR DEC e3) = p2"
      by (rule group_back [OF p _ s(1)]) (use False in simp)
    have "dec_groups (e0 # e1 # e2 # e3 # s @ t) n = Some (take n p)" for t
    proof (cases "3 \<le> n")
      case True
      then have "take n p = p0 # p1 # p2 # take (n - 3) rest" by (cases n; cases "n - 1"; cases "n - 2") (auto simp: p)
      then show ?thesis using s(2) [of t] True by (simp only: dec_groups_more e(3-5)) simp
    next
      case le: False
      then have "n = 1 \<or> n = 2" using False by linarith
      then show ?thesis by (elim disjE) (simp_all only: dec_groups_1 dec_groups_2 e(3-5), simp_all add: p)
    qed
    moreover have "length (e0 # e1 # e2 # e3 # s) \<le> 2 * n + 2" using s(4,5) False by (cases "3 \<le> n") auto
    ultimately show ?thesis using e(1,2) s(3) by (intro exI [of _ "e0 # e1 # e2 # e3 # s"]) simp
  qed
qed

lemma get_line_plain: "\<forall>c\<in>set l. c \<noteq> 10 \<Longrightarrow> length l < k \<Longrightarrow> get_line k (l @ 10 # rest) = (l @ [10], rest)"
proof (induction l arbitrary: k)
  case Nil
  then show ?case by (cases k) auto
next
  case (Cons c l)
  then show ?case by (cases k) auto
qed

lemma fgets_plain: "\<forall>c\<in>set l. c \<noteq> 10 \<Longrightarrow> length l + 1 < length buf \<Longrightarrow> fgets buf (l @ 10 # rest) = Some (l @ 10 # 0 # drop (length l + 2) buf, rest)"
  by (simp add: fgets_def get_line_plain)

lemma DEC_length: "n < 64 \<Longrightarrow> nat (DEC (ENC (int n))) = n"
proof -
  assume n: "n < 64"
  have "(0x3F :: int) = mask 6" by (simp add: mask_eq_exp_minus_1)
  then have "int n AND 0x3F = int n mod 64" by (simp only: take_bit_eq_mask [symmetric] take_bit_eq_mod) simp
  then show ?thesis using n by (simp add: DEC_ENC)
qed

lemma decode_end: "128 \<le> length buf \<Longrightarrow> uudecode buf ([ENC 0, 10] @ end_line) = Some (Decoded, [])"
proof -
  assume buf: "128 \<le> length buf"
  define b where "b = [ENC 0] @ 10 # 0 # drop 3 buf"
  have first: "fgets buf ([ENC 0] @ 10 # end_line) = Some (b, end_line)"
    using fgets_plain [of "[ENC 0]" buf end_line] buf ENC_plain(1) by (simp add: b_def numeral_3_eq_3)
  have second: "fgets b ([101, 110, 100] @ 10 # []) = Some ([101, 110, 100] @ 10 # 0 # drop (length [101, 110, 100 :: 8 word] + 2) b, [])"
    by (rule fgets_plain) (use buf in \<open>simp_all add: b_def\<close>)
  have "nat (DEC (hd b)) = 0" using DEC_length [of 0] by (simp add: b_def)
  then show ?thesis using first second buf by (simp add: uudecode.simps [of buf] end_line_def)
qed

lemma code_back:
  "length buf = 80 \<Longrightarrow> 128 \<le> length b \<Longrightarrow> \<exists>text. uu_lines stdin buf = Some text \<and> uudecode b (text @ [ENC 0, 10] @ end_line) = Some (Decoded, stdin)"
proof (induction stdin buf arbitrary: b rule: uu_lines.induct)
  case (1 stdin buf)
  define n where "n = min 45 (length stdin)"
  define buf' where "buf' = take n stdin @ drop n buf"
  have buf': "length buf' = 80" "n + 2 \<le> length buf'" "take n buf' = take n stdin" using 1(2) by (simp_all add: buf'_def n_def)
  show ?case
  proof (cases "n = 0")
    case True
    then have "stdin = []" by (auto simp: n_def min_def split: if_splits)
    then show ?thesis using decode_end [OF 1(3)] by (simp add: uu_lines.simps [of "[]"])
  next
    case False
    obtain s where s: "enc_groups buf' n = Some s" "\<And>t. dec_groups (s @ t) n = Some (take n stdin)" "\<forall>c\<in>set s. c \<noteq> 10" "length s \<le> 2 * n + 2"
      using groups_back [OF buf'(2)] buf'(3) by auto
    obtain t where t: "uu_lines (drop n stdin) buf' = Some t"
      and more: "\<And>b. 128 \<le> length b \<Longrightarrow> uudecode b (t @ [ENC 0, 10] @ end_line) = Some (Decoded, drop n stdin)"
    proof -
      have "\<exists>t. uu_lines (drop n stdin) buf' = Some t \<and> uudecode c (t @ [ENC 0, 10] @ end_line) = Some (Decoded, drop n stdin)" if "128 \<le> length c" for c
        using 1(1) [OF n_def buf'_def False buf'(1) that] .
      note some = this
      obtain t where t: "uu_lines (drop n stdin) buf' = Some t" using some [OF 1(3)] by blast
      have "uudecode c (t @ [ENC 0, 10] @ end_line) = Some (Decoded, drop n stdin)" if "128 \<le> length c" for c
        using some [OF that] t by auto
      then show thesis using that t by blast
    qed
    let ?line = "ENC (int n) # s"
    have short: "length ?line + 1 < length b" using s(4) 1(3) by (simp add: n_def min_def split: if_splits)
    define b' where "b' = ?line @ 10 # 0 # drop (length ?line + 2) b"
    have "fgets b (?line @ 10 # t @ [ENC 0, 10] @ end_line) = Some (b', t @ [ENC 0, 10] @ end_line)"
      unfolding b'_def by (rule fgets_plain) (use s(3) short ENC_plain(1) in auto)
    moreover have "nat (DEC (hd b')) = n" using DEC_length [of n] by (simp add: b'_def n_def)
    moreover from this have "\<not> DEC (hd b') \<le> 0" using False by auto
    moreover have "dec_groups (tl b') n = Some (take n stdin)" using s(2) by (simp add: b'_def)
    moreover have "128 \<le> length b'" using short 1(3) by (simp add: b'_def)
    ultimately have "uudecode b (?line @ 10 # t @ [ENC 0, 10] @ end_line) = Some (Decoded, stdin)"
      using False more [of b'] 1(3) by (simp add: uudecode.simps [of b])
    moreover have "uu_lines stdin buf = Some (?line @ 10 # t)"
      using False s(1) t by (simp add: uu_lines.simps [of stdin] Let_def flip: n_def buf'_def)
    ultimately show ?thesis by simp
  qed
qed

section \<open>Properties\<close>

text \<open>
  C19: \<^verbatim>\<open>uudecode\<close> undoes \<^verbatim>\<open>uuencode\<close>: every file is encoded without an access outside the buffer, and the lines, the
  line of length zero and \<^verbatim>\<open>end\<close> are decoded to the same bytes, whatever the two buffers held before.
\<close>

theorem uu_roundtrip:
  assumes "length buf = 80" and "128 \<le> length b"
  shows "\<exists>text. uuencode stdin buf = Some text \<and> uudecode b (text @ end_line) = Some (Decoded, stdin)"
proof -
  obtain t where "uu_lines stdin buf = Some t" "uudecode b (t @ [ENC 0, 10] @ end_line) = Some (Decoded, stdin)"
    using code_back [OF assms] by blast
  then show ?thesis by (simp add: uuencode_def)
qed

theorem uu_roundtrip_witness:
  "\<exists>text. uuencode [67, 97, 116, 255] (replicate 80 7) = Some text \<and> uudecode (replicate 1024 9) (text @ end_line) = Some (Decoded, [67, 97, 116, 255])"
  by (rule uu_roundtrip) simp_all

end
