(* ===== verification/Expr.thy ===== *)
theory Expr
  imports Prelude "HOL-Library.Signed_Division"
begin

text \<open>
  \<^verbatim>\<open>bin/expr/expr.c\<close> and the number parser \<^verbatim>\<open>bin/expr/strtonum.c\<close>: a recursive descent evaluator over the words of
  the command line, on 64-bit integers and strings. A result is the value or the way the program exits; \<open>Trap\<close> is the
  arithmetic exception of the division \<open>INT64_MIN / -1\<close>. The regular expressions of the C library are the parameter
  \<open>regex\<close>. \<^verbatim>\<open>strcoll\<close> compares bytes, as the program never sets a locale. That \<^verbatim>\<open>malloc\<close> fails is left out.
\<close>

section \<open>Data\<close>

datatype token = OR | AND | EQ | LT | GT | ADD | SUB | MUL | DIV | MOD | MATCH | RP | LP | NE | LE | GE | OPERAND | EOI

datatype val = Integer int | String string

datatype failure = Errx nat string | Trap

text \<open>The globals \<open>token\<close>, \<open>tokval\<close> and \<open>av\<close>.\<close>

record expr_state =
  token :: token
  tokval :: val
  av :: "string list"

text \<open>
  A compiled regular expression: \<open>re_nsub\<close>, and what \<^verbatim>\<open>regexec\<close> finds in a string: start and end of the match, and of its
  first group, which starts at \<open>-1\<close> if there is none.
\<close>

type_synonym regex = "string \<Rightarrow> (nat \<times> (string \<Rightarrow> ((int \<times> int) \<times> (int \<times> int)) option)) option"

section \<open>Numbers and strings\<close>

definition INT64_MIN :: int where "INT64_MIN = - (2 ^ 63)"

definition INT64_MAX :: int where "INT64_MAX = 2 ^ 63 - 1"

definition wrap64 :: "int \<Rightarrow> int" where
  "wrap64 k = (k + 2 ^ 63) mod 2 ^ 64 - 2 ^ 63"

definition is_digit :: "char \<Rightarrow> bool" where
  "is_digit c \<longleftrightarrow> 48 \<le> (of_char c :: nat) \<and> (of_char c :: nat) \<le> 57"

definition is_blank :: "char \<Rightarrow> bool" where
  "is_blank c \<longleftrightarrow> c \<in> {CHR '' '', CHR 0x09, CHR 0x0A, CHR 0x0B, CHR 0x0C, CHR 0x0D}"

definition digits_value :: "string \<Rightarrow> int" where
  "digits_value ds = foldl (\<lambda>v c. 10 * v + (of_char c - 48)) 0 ds"

text \<open>\<^verbatim>\<open>strtoll (numstr, &ep, 10)\<close>: the number without bounds and \<open>ep\<close>; \<open>None\<close> when \<open>ep\<close> is \<open>numstr\<close>.\<close>

definition strtoll :: "string \<Rightarrow> (int \<times> string) option" where
  "strtoll numstr = (
     let s = dropWhile is_blank numstr;
         neg = (s \<noteq> [] \<and> hd s = CHR ''-'');
         s = (if s \<noteq> [] \<and> hd s \<in> {CHR ''-'', CHR ''+''} then tl s else s);
         ds = takeWhile is_digit s
     in if ds = [] then None else Some (if neg then - digits_value ds else digits_value ds, dropWhile is_digit s))"

text \<open>\<^verbatim>\<open>strtonum\<close> for the whole range of 64 bits: the number, or the text of the error.\<close>

definition strtonum :: "string \<Rightarrow> string + int" where
  "strtonum numstr = (case strtoll numstr of
     None \<Rightarrow> Inl ''invalid''
   | Some (ll, ep) \<Rightarrow>
       if ep \<noteq> [] then Inl ''invalid''
       else if ll < INT64_MIN then Inl ''too small''
       else if ll > INT64_MAX then Inl ''too large''
       else Inr ll)"

fun decimal :: "nat \<Rightarrow> string" where
  "decimal n = (if n < 10 then [char_of (48 + n)] else decimal (n div 10) @ [char_of (48 + n mod 10)])"

declare decimal.simps [simp del]

definition lld :: "int \<Rightarrow> string" where
  "lld i = (if i < 0 then CHR ''-'' # decimal (nat (- i)) else decimal (nat i))"

fun strcoll :: "string \<Rightarrow> string \<Rightarrow> int" where
  "strcoll [] [] = 0"
| "strcoll [] (b # bs) = -1"
| "strcoll (a # as) [] = 1"
| "strcoll (a # as) (b # bs) = (if a = b then strcoll as bs else if (of_char a :: nat) < of_char b then -1 else 1)"

section \<open>Values\<close>

definition is_integer :: "val \<Rightarrow> string + int" where
  "is_integer vp = (case vp of Integer i \<Rightarrow> Inr i | String s \<Rightarrow> strtonum s)"

text \<open>\<^verbatim>\<open>to_integer\<close> changes the value where it can.\<close>

definition to_integer :: "val \<Rightarrow> string + val" where
  "to_integer vp = (case is_integer vp of Inr r \<Rightarrow> Inr (Integer r) | Inl e \<Rightarrow> Inl e)"

definition to_string :: "val \<Rightarrow> string" where
  "to_string vp = (case vp of String s \<Rightarrow> s | Integer i \<Rightarrow> lld i)"

text \<open>The answer, and the value: a string that is a number becomes one.\<close>

definition is_zero_or_null :: "val \<Rightarrow> bool \<times> val" where
  "is_zero_or_null vp = (case vp of
     Integer i \<Rightarrow> (i = 0, vp)
   | String s \<Rightarrow> if s = [] then (True, vp)
       else (case to_integer vp of Inr (Integer i) \<Rightarrow> (i = 0, Integer i) | _ \<Rightarrow> (False, vp)))"

section \<open>Tokens\<close>

definition one_char_tokens :: "(char \<times> token) list" where
  "one_char_tokens = zip ''|&=<>+-*/%:()'' [OR, AND, EQ, LT, GT, ADD, SUB, MUL, DIV, MOD, MATCH, RP, LP]"

definition word_token :: "string \<Rightarrow> token" where
  "word_token p = (case p of
     [c] \<Rightarrow> (case map_of one_char_tokens c of Some t \<Rightarrow> t | None \<Rightarrow> OPERAND)
   | [c, d] \<Rightarrow> if d = CHR ''='' then
         (if c = CHR ''<'' then LE else if c = CHR ''>'' then GE else if c = CHR ''!'' then NE else OPERAND)
       else OPERAND
   | _ \<Rightarrow> OPERAND)"

text \<open>\<open>pat\<close>: the next word is an operand whatever it is.\<close>

definition nexttoken :: "bool \<Rightarrow> expr_state \<Rightarrow> expr_state" where
  "nexttoken pat st = (case av st of
     [] \<Rightarrow> st\<lparr>token := EOI\<rparr>
   | p # rest \<Rightarrow>
       let st = st\<lparr>av := rest\<rparr>
       in if \<not> pat \<and> word_token p \<noteq> OPERAND then st\<lparr>token := word_token p\<rparr>
          else st\<lparr>tokval := String p, token := OPERAND\<rparr>)"

section \<open>Operations\<close>

definition syntax_error :: failure where
  "syntax_error = Errx 2 ''syntax error''"

definition number_error :: "val \<Rightarrow> string \<Rightarrow> failure" where
  "number_error l e = Errx 2 (''number \"'' @ to_string l @ ''\" is '' @ e)"

definition overflow :: failure where
  "overflow = Errx 3 ''overflow''"

text \<open>\<open>eval5\<close>: the string against the pattern.\<close>

definition match_op :: "regex \<Rightarrow> val \<Rightarrow> val \<Rightarrow> failure + val" where
  "match_op regex l r = (case regex (to_string r) of
     None \<Rightarrow> Inl (Errx 2 ''regular expression'')
   | Some (re_nsub, exec) \<Rightarrow> (case exec (to_string l) of
       Some ((so, eo), (so1, eo1)) \<Rightarrow>
         if so = 0 then
           (if so1 \<ge> 0 then Inr (String (drop (nat so1) (take (nat eo1) (to_string l)))) else Inr (Integer (eo - so)))
         else if re_nsub = 0 then Inr (Integer 0) else Inr (String [])
     | None \<Rightarrow> if re_nsub = 0 then Inr (Integer 0) else Inr (String [])))"

text \<open>\<open>eval4\<close>\<close>

definition mul_op :: "token \<Rightarrow> int \<Rightarrow> int \<Rightarrow> failure + val" where
  "mul_op op l r = (
     if op = MUL then
       (let res = wrap64 (l * r)
        in if r \<noteq> 0 \<and> res = INT64_MIN \<and> r = -1 then Inl Trap
           else if r \<noteq> 0 \<and> l \<noteq> res sdiv r then Inl overflow else Inr (Integer res))
     else if r = 0 then Inl (Errx 2 ''division by zero'')
     else if op = DIV then (if l \<noteq> INT64_MIN \<or> r \<noteq> -1 then Inr (Integer (l sdiv r)) else Inl overflow)
     else (if l \<noteq> INT64_MIN \<or> r \<noteq> -1 then Inr (Integer (l smod r)) else Inr (Integer 0)))"

text \<open>\<open>eval3\<close>\<close>

definition add_op :: "token \<Rightarrow> int \<Rightarrow> int \<Rightarrow> failure + val" where
  "add_op op l r = (
     if op = ADD then
       (let res = wrap64 (l + r)
        in if (l > 0 \<and> r > 0 \<and> res \<le> 0) \<or> (l < 0 \<and> r < 0 \<and> res \<ge> 0) then Inl overflow else Inr (Integer res))
     else
       (let res = wrap64 (l - r)
        in if (l \<ge> 0 \<and> r < 0 \<and> res \<le> 0) \<or> (l < 0 \<and> r > 0 \<and> res \<ge> 0) then Inl overflow else Inr (Integer res)))"

definition with_integers :: "(int \<Rightarrow> int \<Rightarrow> failure + val) \<Rightarrow> val \<Rightarrow> val \<Rightarrow> failure + val" where
  "with_integers f l r = (case is_integer l of
     Inl e \<Rightarrow> Inl (number_error l e)
   | Inr i \<Rightarrow> (case is_integer r of Inl e \<Rightarrow> Inl (number_error r e) | Inr j \<Rightarrow> f i j))"

text \<open>\<open>eval2\<close>\<close>

definition compares :: "token \<Rightarrow> int \<Rightarrow> bool" where
  "compares op c = (if op = GT then c > 0 else if op = GE then c \<ge> 0 else if op = LT then c < 0 else if op = LE then c \<le> 0
     else if op = EQ then c = 0 else c \<noteq> 0)"

definition compare_op :: "token \<Rightarrow> val \<Rightarrow> val \<Rightarrow> val" where
  "compare_op op l r = Integer (of_bool (case (is_integer l, is_integer r) of
     (Inr li, Inr ri) \<Rightarrow> compares op (if li < ri then -1 else if li = ri then 0 else 1)
   | _ \<Rightarrow> compares op (strcoll (to_string l) (to_string r))))"

text \<open>\<open>eval1\<close> and \<open>eval0\<close>\<close>

definition and_op :: "val \<Rightarrow> val \<Rightarrow> val" where
  "and_op l r = (let (z, l) = is_zero_or_null l in if z \<or> fst (is_zero_or_null r) then Integer 0 else l)"

definition or_op :: "val \<Rightarrow> val \<Rightarrow> val" where
  "or_op l r = (let (z, l) = is_zero_or_null l in if z then r else l)"

section \<open>The evaluator\<close>

text \<open>The level of an operator: the number of the function \<open>eval0\<close> to \<open>eval5\<close> that takes it.\<close>

fun level :: "token \<Rightarrow> nat option" where
  "level OR = Some 0" | "level AND = Some 1"
| "level EQ = Some 2" | "level NE = Some 2" | "level LT = Some 2" | "level GT = Some 2" | "level LE = Some 2" | "level GE = Some 2"
| "level ADD = Some 3" | "level SUB = Some 3"
| "level MUL = Some 4" | "level DIV = Some 4" | "level MOD = Some 4"
| "level MATCH = Some 5"
| "level RP = None" | "level LP = None" | "level OPERAND = None" | "level EOI = None"

definition apply_op :: "regex \<Rightarrow> token \<Rightarrow> val \<Rightarrow> val \<Rightarrow> failure + val" where
  "apply_op regex op l r = (
     if op = OR then Inr (or_op l r) else if op = AND then Inr (and_op l r)
     else if level op = Some 2 then Inr (compare_op op l r)
     else if level op = Some 3 then with_integers (add_op op) l r
     else if level op = Some 4 then with_integers (mul_op op) l r
     else match_op regex l r)"

text \<open>
  \<open>evaln n None\<close> is a call of \<open>eval\<close>\<open>n\<close>; \<open>evaln n (Some l)\<close> is its loop with the left operand \<open>l\<close>. The result \<open>None\<close>
  is a call that does not return.
\<close>

partial_function (option) evaln :: "regex \<Rightarrow> nat \<Rightarrow> val option \<Rightarrow> expr_state \<Rightarrow> (failure + val \<times> expr_state) option" where
  "evaln regex n left st = (case left of
     None \<Rightarrow>
       if n \<ge> 6 then
         (if token st = OPERAND then (let st = nexttoken False st in Some (Inr (tokval st, st)))
          else if token st = RP then
            Option.bind (evaln regex 0 None (nexttoken False st)) (\<lambda>res. case res of
              Inl e \<Rightarrow> Some (Inl e)
            | Inr vst \<Rightarrow> Some (if token (snd vst) \<noteq> LP then Inl syntax_error else Inr (fst vst, nexttoken False (snd vst))))
          else Some (Inl syntax_error))
       else
         Option.bind (evaln regex (n + 1) None st) (\<lambda>res. case res of
           Inl e \<Rightarrow> Some (Inl e)
         | Inr vst \<Rightarrow> evaln regex n (Some (fst vst)) (snd vst))
   | Some l \<Rightarrow>
       if level (token st) = Some n then
         Option.bind (evaln regex (n + 1) None (nexttoken (n = 5) st)) (\<lambda>res. case res of
           Inl e \<Rightarrow> Some (Inl e)
         | Inr vst \<Rightarrow> (case apply_op regex (token st) l (fst vst) of
               Inl e \<Rightarrow> Some (Inl e)
             | Inr v \<Rightarrow> evaln regex n (Some v) (snd vst)))
       else Some (Inr (l, st)))"

text \<open>\<open>main\<close>: what is printed, and the exit status.\<close>

definition expr_start :: "string list \<Rightarrow> expr_state" where
  "expr_start words = nexttoken False \<lparr>token = EOI, tokval = String [], av = words\<rparr>"

definition expr_main :: "regex \<Rightarrow> string list \<Rightarrow> (failure + string \<times> nat) option" where
  "expr_main regex words = (
     let words = (if words \<noteq> [] \<and> hd words = ''--'' then tl words else words)
     in case evaln regex 0 None (expr_start words) of
          None \<Rightarrow> None
        | Some (Inl e) \<Rightarrow> Some (Inl e)
        | Some (Inr (vp, st)) \<Rightarrow>
            if token st \<noteq> EOI then Some (Inl syntax_error)
            else Some (Inr (to_string vp, of_bool (fst (is_zero_or_null vp)))))"

section \<open>Termination\<close>

definition left_words :: "expr_state \<Rightarrow> nat" where
  "left_words st = (if token st = EOI then 0 else Suc (length (av st)))"

lemma nexttoken_left: "token st \<noteq> EOI \<Longrightarrow> left_words (nexttoken pat st) < left_words st"
  by (cases "av st") (auto simp: nexttoken_def left_words_def Let_def)

text \<open>A call uses up a word at least.\<close>

definition returns :: "regex \<Rightarrow> nat \<Rightarrow> val option \<Rightarrow> expr_state \<Rightarrow> bool" where
  "returns regex n left st \<longleftrightarrow> (\<exists>r. evaln regex n left st = Some r
     \<and> (\<forall>v st'. r = Inr (v, st') \<longrightarrow> (if left = None then left_words st' < left_words st else left_words st' \<le> left_words st)))"

lemma level_le: "level t = Some n \<Longrightarrow> n \<le> 5"
  by (cases t) auto

lemma loop_returns:
  assumes IH: "\<And>st' n left. left_words st' < left_words st \<Longrightarrow> n \<le> 6 \<Longrightarrow> returns regex n left st'"
  shows "returns regex n (Some l) st"
proof (cases "level (token st) = Some n")
  case True
  note n = level_le [OF True]
  have small: "left_words (nexttoken (n = 5) st) < left_words st" using True by (intro nexttoken_left) auto
  then obtain r where r: "evaln regex (n + 1) None (nexttoken (n = 5) st) = Some r"
    "\<And>v st'. r = Inr (v, st') \<Longrightarrow> left_words st' < left_words st"
    using IH [OF small, of "n + 1" None] n unfolding returns_def by (auto intro: less_trans)
  show ?thesis
  proof (cases r)
    case (Inl e)
    then show ?thesis using True r(1) by (simp add: returns_def evaln.simps [of regex n "Some l"])
  next
    case (Inr vst)
    then have st': "left_words (snd vst) < left_words st" using r(2) [of "fst vst" "snd vst"] by simp
    show ?thesis
    proof (cases "apply_op regex (token st) l (fst vst)")
      case (Inl e)
      then show ?thesis using True r(1) Inr by (simp add: returns_def evaln.simps [of regex n "Some l"])
    next
      case v: (Inr v)
      have "returns regex n (Some v) (snd vst)" using IH [OF st'] n by simp
      moreover have "evaln regex n (Some l) st = evaln regex n (Some v) (snd vst)"
        using True r(1) Inr v by (simp add: evaln.simps [of regex n "Some l"])
      ultimately show ?thesis using st' unfolding returns_def by fastforce
    qed
  qed
qed (simp add: returns_def evaln.simps [of regex n "Some l"])

lemma eval6_returns:
  assumes IH: "\<And>st' n left. left_words st' < left_words st \<Longrightarrow> n \<le> 6 \<Longrightarrow> returns regex n left st'"
  shows "returns regex 6 None st"
proof (cases "token st = RP")
  case True
  then have small: "left_words (nexttoken False st) < left_words st" by (intro nexttoken_left) auto
  then obtain r where r: "evaln regex 0 None (nexttoken False st) = Some r"
    "\<And>v st'. r = Inr (v, st') \<Longrightarrow> left_words st' < left_words st"
    using IH [OF small, of 0 None] unfolding returns_def by (auto intro: less_trans)
  show ?thesis
  proof (cases r)
    case (Inl e)
    then show ?thesis using True r(1) by (simp add: returns_def evaln.simps [of regex 6])
  next
    case (Inr vst)
    then have st': "left_words (snd vst) < left_words st" using r(2) [of "fst vst" "snd vst"] by simp
    have "left_words (nexttoken False (snd vst)) < left_words st" if "token (snd vst) = LP"
      using nexttoken_left [of "snd vst" False] st' that by simp
    then show ?thesis using True r(1) Inr by (simp add: returns_def evaln.simps [of regex 6])
  qed
next
  case False
  then show ?thesis using nexttoken_left [of st False] by (simp add: returns_def evaln.simps [of regex 6] Let_def)
qed

lemma call_returns:
  assumes IH: "\<And>st' n left. left_words st' < left_words st \<Longrightarrow> n \<le> 6 \<Longrightarrow> returns regex n left st'"
  shows "n + k = 6 \<Longrightarrow> returns regex n None st"
proof (induction k arbitrary: n)
  case 0
  then show ?case using eval6_returns [OF IH] by simp
next
  case (Suc k)
  then have "returns regex (Suc n) None st" and n: "n < 6" by simp_all
  then obtain r where r: "evaln regex (Suc n) None st = Some r" "\<And>v st'. r = Inr (v, st') \<Longrightarrow> left_words st' < left_words st"
    unfolding returns_def by auto
  show ?case
  proof (cases r)
    case (Inl e)
    then show ?thesis using r(1) n by (simp add: returns_def evaln.simps [of regex n])
  next
    case (Inr vst)
    then have st': "left_words (snd vst) < left_words st" using r(2) [of "fst vst" "snd vst"] by simp
    have "returns regex n (Some (fst vst)) (snd vst)" using IH [OF st'] n by simp
    moreover have "evaln regex n None st = evaln regex n (Some (fst vst)) (snd vst)"
      using r(1) Inr n by (simp add: evaln.simps [of regex n None])
    ultimately show ?thesis using st' unfolding returns_def by fastforce
  qed
qed

lemma evaln_returns: "n \<le> 6 \<Longrightarrow> returns regex n left st"
proof (induction "left_words st" arbitrary: n left st rule: less_induct)
  case less
  show ?case
  proof (cases left)
    case None
    then show ?thesis using call_returns [of st regex n "6 - n"] less by simp
  next
    case (Some l)
    then show ?thesis using loop_returns [of st regex n l] less by simp
  qed
qed

section \<open>Exact arithmetic\<close>

text \<open>The reference: the exact result, and an overflow where 64 bits cannot hold it.\<close>

definition in_range :: "int \<Rightarrow> bool" where
  "in_range k \<longleftrightarrow> INT64_MIN \<le> k \<and> k \<le> INT64_MAX"

definition ranged :: "int \<Rightarrow> failure + val" where
  "ranged k = (if in_range k then Inr (Integer k) else Inl (Errx 3 ''overflow''))"

fun exact :: "token \<Rightarrow> int \<Rightarrow> int \<Rightarrow> failure + val" where
  "exact ADD l r = ranged (l + r)"
| "exact SUB l r = ranged (l - r)"
| "exact MUL l r = (if l = INT64_MIN \<and> r = -1 then Inl Trap else ranged (l * r))"
| "exact DIV l r = (if r = 0 then Inl (Errx 2 ''division by zero'') else ranged (l sdiv r))"
| "exact MOD l r = (if r = 0 then Inl (Errx 2 ''division by zero'') else ranged (l smod r))"
| "exact op l r = Inl syntax_error"

lemma wrap64_range: "in_range k \<Longrightarrow> wrap64 k = k"
  by (simp add: wrap64_def in_range_def INT64_MIN_def INT64_MAX_def)

lemma wrap64_step: obtains q where "wrap64 k = k - q * 2 ^ 64" "- (2 ^ 63) \<le> wrap64 k" "wrap64 k < 2 ^ 63"
proof
  have "k + 2 ^ 63 = (k + 2 ^ 63) div 2 ^ 64 * 2 ^ 64 + (k + 2 ^ 63) mod 2 ^ 64" by (rule div_mult_mod_eq [symmetric])
  then show "wrap64 k = k - ((k + 2 ^ 63) div 2 ^ 64) * 2 ^ 64" unfolding wrap64_def by linarith
  have "0 \<le> (k + 2 ^ 63) mod 2 ^ 64" "(k + 2 ^ 63) mod 2 ^ 64 < 2 ^ 64" by simp_all
  then show "- (2 ^ 63) \<le> wrap64 k" "wrap64 k < 2 ^ 63" unfolding wrap64_def by simp_all
qed

lemma wrap_sum:
  fixes l r res q :: int
  assumes "- 9223372036854775808 \<le> l" "l \<le> 9223372036854775807" "- 9223372036854775808 \<le> r" "r \<le> 9223372036854775807"
    and "res = l + r - q * 18446744073709551616" "- 9223372036854775808 \<le> res" "res < 9223372036854775808"
  shows "(0 < l \<and> 0 < r \<and> res \<le> 0 \<or> l < 0 \<and> r < 0 \<and> 0 \<le> res) \<longleftrightarrow> \<not> (- 9223372036854775808 \<le> l + r \<and> l + r \<le> 9223372036854775807)"
    "- 9223372036854775808 \<le> l + r \<and> l + r \<le> 9223372036854775807 \<Longrightarrow> res = l + r"
proof -
  have q: "q = -1 \<or> q = 0 \<or> q = 1" using assms by linarith
  then show "(0 < l \<and> 0 < r \<and> res \<le> 0 \<or> l < 0 \<and> r < 0 \<and> 0 \<le> res) \<longleftrightarrow> \<not> (- 9223372036854775808 \<le> l + r \<and> l + r \<le> 9223372036854775807)"
    using assms by (elim disjE) linarith+
  show "- 9223372036854775808 \<le> l + r \<and> l + r \<le> 9223372036854775807 \<Longrightarrow> res = l + r" using q assms by (elim disjE) linarith+
qed

lemma wrap_difference:
  fixes l r res q :: int
  assumes "- 9223372036854775808 \<le> l" "l \<le> 9223372036854775807" "- 9223372036854775808 \<le> r" "r \<le> 9223372036854775807"
    and "res = l - r - q * 18446744073709551616" "- 9223372036854775808 \<le> res" "res < 9223372036854775808"
  shows "(0 \<le> l \<and> r < 0 \<and> res \<le> 0 \<or> l < 0 \<and> 0 < r \<and> 0 \<le> res) \<longleftrightarrow> \<not> (- 9223372036854775808 \<le> l - r \<and> l - r \<le> 9223372036854775807)"
    "- 9223372036854775808 \<le> l - r \<and> l - r \<le> 9223372036854775807 \<Longrightarrow> res = l - r"
proof -
  have q: "q = -1 \<or> q = 0 \<or> q = 1" using assms by linarith
  then show "(0 \<le> l \<and> r < 0 \<and> res \<le> 0 \<or> l < 0 \<and> 0 < r \<and> 0 \<le> res) \<longleftrightarrow> \<not> (- 9223372036854775808 \<le> l - r \<and> l - r \<le> 9223372036854775807)"
    using assms by (elim disjE) linarith+
  show "- 9223372036854775808 \<le> l - r \<and> l - r \<le> 9223372036854775807 \<Longrightarrow> res = l - r" using q assms by (elim disjE) linarith+
qed

lemmas bounds64 = in_range_def INT64_MIN_def INT64_MAX_def

lemma add_op_exact:
  assumes "in_range l" "in_range r"
  shows "add_op ADD l r = exact ADD l r" "add_op SUB l r = exact SUB l r"
proof -
  obtain q where q: "wrap64 (l + r) = l + r - q * 2 ^ 64" "- (2 ^ 63) \<le> wrap64 (l + r)" "wrap64 (l + r) < 2 ^ 63" by (rule wrap64_step)
  show "add_op ADD l r = exact ADD l r"
    using wrap_sum [of l r "wrap64 (l + r)" q] q assms by (simp add: add_op_def ranged_def overflow_def bounds64 Let_def)
  obtain p where p: "wrap64 (l - r) = l - r - p * 2 ^ 64" "- (2 ^ 63) \<le> wrap64 (l - r)" "wrap64 (l - r) < 2 ^ 63" by (rule wrap64_step)
  show "add_op SUB l r = exact SUB l r"
    using wrap_difference [of l r "wrap64 (l - r)" p] p assms by (simp add: add_op_def ranged_def overflow_def bounds64 Let_def)
qed

lemma sdiv_rem: "r \<noteq> 0 \<Longrightarrow> \<exists>m. k = k sdiv r * r + m \<and> \<bar>m\<bar> < \<bar>r\<bar>" for k r :: int
  using sdiv_mult_smod_eq [of k r] smod_int_range [of r k] by (intro exI [of _ "k smod r"]) auto

lemma sdiv_exact: "r \<noteq> 0 \<Longrightarrow> (l * r) sdiv r = l" for l r :: int
  by (simp add: signed_divide_int_def abs_mult sgn_mult mult_sgn_abs) (simp add: mult.commute mult.left_commute sgn_if)

lemma mul_op_exact:
  assumes l: "in_range l" and r: "in_range r"
  shows "mul_op MUL l r = exact MUL l r"
proof (cases "r = 0")
  case True
  then show ?thesis by (simp add: mul_op_def ranged_def overflow_def bounds64 wrap64_def)
next
  case False
  obtain q where q: "wrap64 (l * r) = l * r - q * 2 ^ 64" "- (2 ^ 63) \<le> wrap64 (l * r)" "wrap64 (l * r) < 2 ^ 63" by (rule wrap64_step)
  have quot: "l = wrap64 (l * r) sdiv r \<longleftrightarrow> in_range (l * r)"
  proof
    assume "l = wrap64 (l * r) sdiv r"
    then obtain m where "wrap64 (l * r) = l * r + m" "\<bar>m\<bar> < \<bar>r\<bar>" using sdiv_rem [OF False, of "wrap64 (l * r)"] by auto
    then have "\<bar>q * 2 ^ 64\<bar> < \<bar>r\<bar>" using q(1) by simp
    then have "\<bar>q\<bar> * 18446744073709551616 < \<bar>r\<bar>" by (simp add: abs_mult)
    moreover have "\<bar>r\<bar> \<le> 9223372036854775808" using r by (auto simp: bounds64 abs_le_iff)
    ultimately have "\<bar>q\<bar> < 1" by linarith
    then have "q = 0" by simp
    then show "in_range (l * r)" using q by (simp add: bounds64)
  qed (simp add: wrap64_range sdiv_exact False)
  have trap: "wrap64 (l * -1) = INT64_MIN \<longleftrightarrow> l = INT64_MIN"
  proof (cases "l = INT64_MIN")
    case False
    then have "in_range (- l)" using l by (auto simp: bounds64)
    then show ?thesis using False wrap64_range [of "- l"] l by (auto simp: bounds64)
  qed (simp add: wrap64_def INT64_MIN_def)
  show ?thesis
  proof (cases "r = -1")
    case True
    then show ?thesis using quot trap by (simp add: mul_op_def ranged_def overflow_def wrap64_range Let_def)
  next
    case other: False
    then show ?thesis using quot False by (simp add: mul_op_def ranged_def overflow_def wrap64_range Let_def)
  qed
qed

lemma div_op_exact:
  assumes l: "in_range l" and r: "in_range r"
  shows "mul_op DIV l r = exact DIV l r" "mul_op MOD l r = exact MOD l r"
proof -
  have rest: "in_range (l smod r)" if "r \<noteq> 0" using smod_int_range [OF that, of l] r unfolding bounds64 by auto
  have quot: "in_range (l sdiv r) \<longleftrightarrow> l \<noteq> INT64_MIN \<or> r \<noteq> -1" if "r \<noteq> 0"
  proof (cases "l = INT64_MIN")
    case False
    then show ?thesis using sdiv_int_range [of l r] l unfolding bounds64 by auto
  next
    case min: True
    show ?thesis
    proof (cases "r = 1 \<or> r = -1")
      case True
      then show ?thesis using min by (auto simp: bounds64)
    next
      case False
      then have "2 \<le> \<bar>r\<bar>" using that by linarith
      then have "\<bar>l\<bar> div \<bar>r\<bar> \<le> \<bar>l\<bar> div 2" by (intro zdiv_mono2) simp_all
      then have "\<bar>l sdiv r\<bar> \<le> 2 ^ 62" using min by (simp add: signed_divide_int_def abs_mult INT64_MIN_def abs_sgn_eq pos_imp_zdiv_nonneg_iff)
      then show ?thesis using False by (auto simp: bounds64 abs_le_iff)
    qed
  qed
  show "mul_op DIV l r = exact DIV l r" using quot by (auto simp: mul_op_def ranged_def overflow_def)
  show "mul_op MOD l r = exact MOD l r" using rest by (auto simp: mul_op_def ranged_def overflow_def signed_modulo_int_def)
qed

section \<open>The value of an expression\<close>

text \<open>
  The reference: what the manual says a tree of operators means. It has its own tables of operators and precedences, its own
  reading of numbers and its own meaning of every operator.
\<close>

datatype ast = Word string | Op ast token ast

fun spelling :: "token \<Rightarrow> string" where
  "spelling OR = ''|''" | "spelling AND = ''&''" | "spelling EQ = ''=''" | "spelling LT = ''<''" | "spelling GT = ''>''"
| "spelling ADD = ''+''" | "spelling SUB = ''-''" | "spelling MUL = ''*''" | "spelling DIV = ''/''" | "spelling MOD = ''%''"
| "spelling MATCH = '':''" | "spelling RP = ''(''" | "spelling LP = '')''" | "spelling NE = ''!=''" | "spelling LE = ''<=''"
| "spelling GE = ''>=''" | "spelling OPERAND = []" | "spelling EOI = []"

definition reserved :: "string list" where
  "reserved = [''|'', ''&'', ''='', ''<'', ''>'', ''+'', ''-'', ''*'', ''/'', ''%'', '':'', ''('', '')'', ''!='', ''<='', ''>='']"

text \<open>\<open>:\<close> binds tightest, then the three multiplications, the two additions, the comparisons, \<open>&\<close> and \<open>|\<close>.\<close>

definition precedence :: "token \<Rightarrow> nat option" where
  "precedence op = (if op = MATCH then Some 5 else if op \<in> {MUL, DIV, MOD} then Some 4 else if op \<in> {ADD, SUB} then Some 3
     else if op \<in> {EQ, NE, LT, GT, LE, GE} then Some 2 else if op = AND then Some 1 else if op = OR then Some 0 else None)"

text \<open>A numeral: blanks, perhaps a sign, and digits to the end.\<close>

fun decval :: "string \<Rightarrow> int" where
  "decval [] = 0"
| "decval (c # cs) = (of_char c - 48) * 10 ^ length cs + decval cs"

definition numeral_of :: "string \<Rightarrow> int option" where
  "numeral_of s = (
     let t = dropWhile is_blank s; signed = (t \<noteq> [] \<and> hd t \<in> {CHR ''-'', CHR ''+''}); ds = (if signed then tl t else t)
     in if ds = [] \<or> \<not> list_all is_digit ds then None
        else Some (if signed \<and> hd t = CHR ''-'' then - decval ds else decval ds))"

definition number_in :: "val \<Rightarrow> int option" where
  "number_in v = (case v of
     Integer i \<Rightarrow> Some i
   | String s \<Rightarrow> (case numeral_of s of Some k \<Rightarrow> if in_range k then Some k else None | None \<Rightarrow> None))"

definition text_of :: "val \<Rightarrow> string" where
  "text_of v = (case v of String s \<Rightarrow> s | Integer i \<Rightarrow> lld i)"

definition null_val :: "val \<Rightarrow> bool" where
  "null_val v \<longleftrightarrow> v = String [] \<or> number_in v = Some 0"

text \<open>A string that is a number is taken as the number.\<close>

definition norm :: "val \<Rightarrow> val" where
  "norm v = (case number_in v of Some k \<Rightarrow> Integer k | None \<Rightarrow> v)"

definition spec_number :: "val \<Rightarrow> failure + int" where
  "spec_number v = (case v of
     Integer i \<Rightarrow> Inr i
   | String s \<Rightarrow> (
       let fail = (\<lambda>why. Inl (Errx 2 (''number \"'' @ s @ ''\" is '' @ why)))
       in case numeral_of s of
            None \<Rightarrow> fail ''invalid''
          | Some k \<Rightarrow> if k < INT64_MIN then fail ''too small'' else if k > INT64_MAX then fail ''too large'' else Inr k))"

definition with_numbers :: "(int \<Rightarrow> int \<Rightarrow> failure + val) \<Rightarrow> val \<Rightarrow> val \<Rightarrow> failure + val" where
  "with_numbers f l r = (case spec_number l of
     Inl e \<Rightarrow> Inl e
   | Inr i \<Rightarrow> (case spec_number r of Inl e \<Rightarrow> Inl e | Inr j \<Rightarrow> f i j))"

fun str_less :: "string \<Rightarrow> string \<Rightarrow> bool" where
  "str_less s [] = False"
| "str_less [] (b # t) = True"
| "str_less (a # s) (b # t) \<longleftrightarrow> (of_char a :: nat) < of_char b \<or> a = b \<and> str_less s t"

fun int_rel :: "token \<Rightarrow> int \<Rightarrow> int \<Rightarrow> bool" where
  "int_rel EQ i j = (i = j)" | "int_rel NE i j = (i \<noteq> j)" | "int_rel LT i j = (i < j)" | "int_rel LE i j = (i \<le> j)"
| "int_rel GT i j = (i > j)" | "int_rel GE i j = (i \<ge> j)" | "int_rel _ i j = False"

fun str_rel :: "token \<Rightarrow> string \<Rightarrow> string \<Rightarrow> bool" where
  "str_rel EQ s t = (s = t)" | "str_rel NE s t = (s \<noteq> t)" | "str_rel LT s t = str_less s t" | "str_rel LE s t = (s = t \<or> str_less s t)"
| "str_rel GT s t = str_less t s" | "str_rel GE s t = (s = t \<or> str_less t s)" | "str_rel _ s t = False"

definition spec_compare :: "token \<Rightarrow> val \<Rightarrow> val \<Rightarrow> bool" where
  "spec_compare op l r = (case (number_in l, number_in r) of
     (Some i, Some j) \<Rightarrow> int_rel op i j
   | _ \<Rightarrow> str_rel op (text_of l) (text_of r))"

text \<open>
  The match must start with the string. Its value is the first group of the pattern if that took part, the number of characters
  that match otherwise; without a match it is the empty string if the pattern has a group, and 0 if not.
\<close>

definition spec_match :: "regex \<Rightarrow> string \<Rightarrow> string \<Rightarrow> failure + val" where
  "spec_match regex s p = (if regex p = None then Inl (Errx 2 ''regular expression'')
     else (let (groups, search) = the (regex p); no = (if groups = 0 then Integer 0 else String []) in Inr (case search s of
         None \<Rightarrow> no
       | Some ((from, to), (a, b)) \<Rightarrow>
           if from \<noteq> 0 then no else if a < 0 then Integer to else String (take (nat (b - a)) (drop (nat a) s)))))"

fun spec_op :: "regex \<Rightarrow> token \<Rightarrow> val \<Rightarrow> val \<Rightarrow> failure + val" where
  "spec_op regex OR l r = Inr (if null_val l then r else norm l)"
| "spec_op regex AND l r = Inr (if null_val l \<or> null_val r then Integer 0 else norm l)"
| "spec_op regex MATCH l r = spec_match regex (text_of l) (text_of r)"
| "spec_op regex ADD l r = with_numbers (exact ADD) l r"
| "spec_op regex SUB l r = with_numbers (exact SUB) l r"
| "spec_op regex MUL l r = with_numbers (exact MUL) l r"
| "spec_op regex DIV l r = with_numbers (exact DIV) l r"
| "spec_op regex MOD l r = with_numbers (exact MOD) l r"
| "spec_op regex op l r = Inr (Integer (if spec_compare op l r then 1 else 0))"

fun sem :: "regex \<Rightarrow> ast \<Rightarrow> failure + val" where
  "sem regex (Word w) = Inr (String w)"
| "sem regex (Op l op r) = (case sem regex l of
     Inl e \<Rightarrow> Inl e
   | Inr a \<Rightarrow> (case sem regex r of Inl e \<Rightarrow> Inl e | Inr b \<Rightarrow> spec_op regex op a b))"

text \<open>How a tree is written: an operand of a lower level in parentheses.\<close>

fun args :: "nat \<Rightarrow> ast \<Rightarrow> string list" where
  "args n (Word w) = [w]"
| "args n (Op l op r) = (
     let k = the (precedence op); ws = args k l @ spelling op # args (k + 1) r
     in if k < n then ''('' # ws @ ['')''] else ws)"

text \<open>A word that is an operator cannot be an operand, but the pattern after \<open>:\<close> may be any word, and only a word.\<close>

fun writable :: "ast \<Rightarrow> bool" where
  "writable (Word w) \<longleftrightarrow> w \<notin> set reserved"
| "writable (Op l op (Word w)) \<longleftrightarrow> writable l \<and> precedence op \<noteq> None \<and> (op = MATCH \<or> w \<notin> set reserved)"
| "writable (Op l op r) \<longleftrightarrow> writable l \<and> precedence op \<noteq> None \<and> op \<noteq> MATCH \<and> writable r"

text \<open>The number of an integer as it is printed: no blanks, no plus, no leading zero.\<close>

definition prints :: "val \<Rightarrow> string \<Rightarrow> bool" where
  "prints v out \<longleftrightarrow> (case v of
     String s \<Rightarrow> out = s
   | Integer i \<Rightarrow> (\<exists>ds. out = (if i < 0 then ''-'' else []) @ ds \<and> ds \<noteq> [] \<and> list_all is_digit ds \<and> decval ds = \<bar>i\<bar>
       \<and> (hd ds = CHR ''0'' \<longrightarrow> ds = ''0'')))"

section \<open>The model's operators have these values\<close>

lemma precedence_level: "precedence op = level op"
  by (cases op) (simp_all add: precedence_def)

lemma word_reserved: "word_token w = OPERAND \<longleftrightarrow> w \<notin> set reserved"
proof -
  consider "w = []" | c where "w = [c]" | c d where "w = [c, d]" | c d e v where "w = c # d # e # v"
    by (cases w rule: remdups_adj.cases) (auto, metis list.exhaust)
  then show ?thesis by cases (auto simp: word_token_def reserved_def one_char_tokens_def)
qed

lemma foldl_decval: "foldl (\<lambda>v c. 10 * v + (of_char c - 48)) k ds = k * 10 ^ length ds + decval ds" for k :: int
  by (induction ds arbitrary: k) (simp_all add: algebra_simps)

lemma digits_value_decval: "digits_value ds = decval ds"
  by (simp add: digits_value_def foldl_decval)

lemma strtonum_numeral: "strtonum s = (case numeral_of s of
    None \<Rightarrow> Inl ''invalid''
  | Some k \<Rightarrow> if k < INT64_MIN then Inl ''too small'' else if k > INT64_MAX then Inl ''too large'' else Inr k)"
proof -
  define t where "t = dropWhile is_blank s"
  define ds where "ds = (if t \<noteq> [] \<and> hd t \<in> {CHR ''-'', CHR ''+''} then tl t else t)"
  have neg: "(t \<noteq> [] \<and> hd t \<in> {CHR ''-'', CHR ''+''}) \<and> hd t = CHR ''-'' \<longleftrightarrow> t \<noteq> [] \<and> hd t = CHR ''-''" by auto
  have ll: "strtoll s = (if takeWhile is_digit ds = [] then None
      else Some (if t \<noteq> [] \<and> hd t = CHR ''-'' then - decval (takeWhile is_digit ds) else decval (takeWhile is_digit ds), dropWhile is_digit ds))"
    unfolding strtoll_def Let_def t_def [symmetric] ds_def [symmetric] by (simp add: digits_value_decval)
  have num: "numeral_of s = (if ds = [] \<or> \<not> list_all is_digit ds then None
      else Some (if t \<noteq> [] \<and> hd t = CHR ''-'' then - decval ds else decval ds))"
    unfolding numeral_of_def Let_def t_def [symmetric] ds_def [symmetric] neg by simp
  show ?thesis
  proof (cases "list_all is_digit ds")
    case True
    then have all: "takeWhile is_digit ds = ds" "dropWhile is_digit ds = []" by (auto simp: list_all_iff)
    show ?thesis unfolding strtonum_def ll num all by (simp add: True)
  next
    case False
    then have "dropWhile is_digit ds \<noteq> []" by (auto simp: list_all_iff dropWhile_eq_Nil_conv)
    then show ?thesis using False unfolding strtonum_def ll num by simp
  qed
qed

lemma is_integer_spec: "spec_number v = (case is_integer v of Inl e \<Rightarrow> Inl (number_error v e) | Inr i \<Rightarrow> Inr i)"
  by (auto simp: spec_number_def is_integer_def strtonum_numeral number_error_def to_string_def Let_def split: val.splits option.splits)

lemma is_integer_number: "(case is_integer v of Inl e \<Rightarrow> None | Inr i \<Rightarrow> Some i) = number_in v"
  by (auto simp: is_integer_def strtonum_numeral number_in_def in_range_def split: val.splits option.splits)

lemma text_of_string: "text_of v = to_string v"
  by (simp add: text_of_def to_string_def)

lemma with_integers_numbers: "with_integers f l r = with_numbers f l r"
  by (auto simp: with_integers_def with_numbers_def is_integer_spec split: sum.splits)

lemma strcoll_less: "(strcoll s t = 0 \<longleftrightarrow> s = t) \<and> (strcoll s t < 0 \<longleftrightarrow> str_less s t) \<and> (0 < strcoll s t \<longleftrightarrow> str_less t s)"
proof (induction s t rule: strcoll.induct)
  case (4 a as b bs)
  have "(of_char a :: nat) = of_char b \<longleftrightarrow> a = b" by (metis char_of_char)
  then have "(of_char a :: nat) < of_char b \<or> a = b \<or> (of_char b :: nat) < of_char a" by linarith
  then show ?case using 4 by (cases "a = b") auto
qed auto

lemma compare_op_spec: "level op = Some 2 \<Longrightarrow> compare_op op l r = Integer (if spec_compare op l r then 1 else 0)"
proof -
  assume op: "level op = Some 2"
  have str: "compares op (strcoll s t) = str_rel op s t" for s t
    using op strcoll_less [of s t] by (cases op) (auto simp: compares_def)
  have int: "compares op (if i < j then -1 else if i = j then 0 else 1) = int_rel op i j" for i j :: int
    using op by (cases op) (auto simp: compares_def)
  show ?thesis
    unfolding compare_op_def spec_compare_def is_integer_number [symmetric] text_of_string str int
    by (auto split: sum.splits)
qed

lemma zero_or_null_spec: "is_zero_or_null v = (null_val v, norm v)"
proof (cases v)
  case (Integer i)
  then show ?thesis by (simp add: is_zero_or_null_def null_val_def norm_def number_in_def)
next
  case (String s)
  have "numeral_of [] = None" by (simp add: numeral_of_def)
  then show ?thesis
    using String by (auto simp: is_zero_or_null_def null_val_def norm_def to_integer_def is_integer_def strtonum_numeral number_in_def in_range_def
        split: option.splits)
qed

lemma match_op_spec: "match_op regex l r = spec_match regex (text_of l) (text_of r)"
proof -
  have "nat b - nat a = nat (b - a)" if "0 \<le> a" for a b :: int using that by simp
  then show ?thesis by (auto simp: match_op_def spec_match_def text_of_string drop_take split: option.splits)
qed

text \<open>What \<^verbatim>\<open>regexec\<close> promises: a match lies in the string, whose length 63 bits hold.\<close>

definition regex_ok :: "regex \<Rightarrow> bool" where
  "regex_ok regex \<longleftrightarrow> (\<forall>p re_nsub exec s so eo g. regex p = Some (re_nsub, exec) \<longrightarrow> exec s = Some ((so, eo), g)
     \<longrightarrow> 0 \<le> so \<and> so \<le> eo \<and> eo \<le> INT64_MAX)"

definition val_ok :: "val \<Rightarrow> bool" where
  "val_ok v \<longleftrightarrow> (case v of Integer i \<Rightarrow> in_range i | String s \<Rightarrow> True)"

lemma is_integer_range: "val_ok v \<Longrightarrow> is_integer v = Inr i \<Longrightarrow> in_range i"
  by (auto simp: val_ok_def is_integer_def strtonum_def in_range_def not_less split: val.splits option.splits if_splits)

lemma op_exact:
  assumes "level op \<in> {Some 3, Some 4}" "in_range i" "in_range j"
  shows "exact op i j = (if level op = Some 3 then add_op op i j else mul_op op i j)"
  using assms by (cases op) (simp_all add: add_op_exact mul_op_exact div_op_exact del: exact.simps)

lemma apply_op_spec:
  assumes "val_ok l" "val_ok r" "level op \<noteq> None"
  shows "apply_op regex op l r = spec_op regex op l r"
proof (cases "level op \<in> {Some 3, Some 4}")
  case True
  have "with_integers (exact op) l r = with_integers (if level op = Some 3 then add_op op else mul_op op) l r"
    using is_integer_range [OF assms(1)] is_integer_range [OF assms(2)] op_exact [OF True]
    by (auto simp: with_integers_def split: sum.splits)
  then show ?thesis using True by (cases op) (simp_all add: apply_op_def with_integers_numbers del: exact.simps)
next
  case False
  then show ?thesis using assms(3)
    by (cases op) (simp_all add: apply_op_def compare_op_spec match_op_spec or_op_def and_op_def zero_or_null_spec)
qed

lemma ranged_ok: "ranged k = Inr v \<Longrightarrow> val_ok v"
  by (auto simp: ranged_def val_ok_def split: if_splits)

lemma exact_ok: "exact op i j = Inr v \<Longrightarrow> val_ok v"
  by (cases op) (auto dest: ranged_ok split: if_splits)

lemma zero_or_null_ok: "val_ok v \<Longrightarrow> val_ok (snd (is_zero_or_null v))"
  using is_integer_range [of v]
  by (auto simp: is_zero_or_null_def to_integer_def val_ok_def is_integer_def split: val.splits sum.splits)

lemma match_range:
  assumes "regex_ok regex" "regex p = Some (k, exec)" "exec s = Some ((0, eo), g)"
  shows "in_range eo"
proof -
  have "0 \<le> eo" "eo \<le> INT64_MAX" using assms unfolding regex_ok_def by blast+
  then show ?thesis by (simp add: bounds64)
qed

lemma small_ok: "in_range 0" "in_range 1"
  by (simp_all add: bounds64)

lemma match_ok: "regex_ok regex \<Longrightarrow> match_op regex l r = Inr v \<Longrightarrow> val_ok v"
  unfolding match_op_def
  by (auto simp: val_ok_def small_ok split: option.splits if_splits) (erule (2) match_range)+

lemma spec_op_ok:
  assumes "regex_ok regex" "val_ok l" "val_ok r" "level op \<noteq> None" "spec_op regex op l r = Inr v"
  shows "val_ok v"
proof (cases "level op \<in> {Some 3, Some 4}")
  case True
  then have "spec_op regex op l r = with_numbers (exact op) l r" by (cases op) simp_all
  then show ?thesis using assms(5) by (auto simp: with_numbers_def dest: exact_ok exact_ok [OF sym] split: sum.splits)
next
  case False
  have logic: "val_ok (or_op l r)" "val_ok (and_op l r)" "val_ok (compare_op op l r)"
    using zero_or_null_ok [OF assms(2)] assms(3)
    by (auto simp: or_op_def and_op_def compare_op_def split_def Let_def val_ok_def bounds64)
  show ?thesis
    using False assms(5) logic match_ok [OF assms(1), of l r v] unfolding apply_op_spec [OF assms(2-4), symmetric]
    by (auto simp: apply_op_def split: if_splits)
qed

lemma writable_parts: "writable (Op l op r) \<Longrightarrow> writable l \<and> level op \<noteq> None \<and> (writable r \<or> op = MATCH \<and> (\<exists>w. r = Word w))"
  by (cases r) (auto simp: precedence_level)

lemma sem_ok: "regex_ok regex \<Longrightarrow> writable e \<Longrightarrow> sem regex e = Inr v \<Longrightarrow> val_ok v"
proof (induction e arbitrary: v)
  case (Op l op r)
  have w: "writable l" "level op \<noteq> None" "writable r \<or> (\<exists>w. r = Word w)" using writable_parts [OF Op.prems(2)] by auto
  obtain a b where ab: "sem regex l = Inr a" "sem regex r = Inr b" "spec_op regex op a b = Inr v"
    using Op.prems(3) by (auto split: sum.splits)
  have "val_ok a" by (rule Op.IH(1) [OF Op.prems(1) w(1) ab(1)])
  moreover have "val_ok b" using w(3) Op.IH(2) [OF Op.prems(1) _ ab(2)] ab(2) by (auto simp: val_ok_def)
  ultimately show ?case using spec_op_ok [OF Op.prems(1) _ _ w(2) ab(3)] by blast
qed (auto simp: val_ok_def)

section \<open>The evaluator computes it\<close>

definition start :: "val \<Rightarrow> string list \<Rightarrow> expr_state" where
  "start tv ws = nexttoken False \<lparr>token = EOI, tokval = tv, av = ws\<rparr>"

definition first_token :: "string list \<Rightarrow> token" where
  "first_token ws = (case ws of [] \<Rightarrow> EOI | w # _ \<Rightarrow> word_token w)"

definition follow :: "nat \<Rightarrow> string list \<Rightarrow> bool" where
  "follow n rest \<longleftrightarrow> first_token rest \<noteq> OPERAND \<and> (\<forall>m. level (first_token rest) = Some m \<longrightarrow> m \<le> n)"

text \<open>\<open>ws\<close>, read at a level, gives \<open>res\<close>, and the loop of the level goes on behind it.\<close>

definition parses :: "regex \<Rightarrow> nat \<Rightarrow> string list \<Rightarrow> failure + val \<Rightarrow> bool" where
  "parses regex n ws res \<longleftrightarrow> (\<forall>rest tv. follow n rest \<longrightarrow> (\<exists>tv'. evaln regex n None (start tv (ws @ rest)) =
     (case res of Inl e \<Rightarrow> Some (Inl e) | Inr v \<Rightarrow> evaln regex n (Some v) (start tv' rest))))"

lemma start_token [simp]: "token (start tv ws) = first_token ws"
  by (cases ws) (simp_all add: start_def first_token_def nexttoken_def Let_def)

lemma next_start:
  assumes "word_token w \<noteq> OPERAND" "w # ws = vs"
  shows "nexttoken False (start tv vs) = start tv ws"
  using assms by (cases ws) (auto simp: start_def nexttoken_def Let_def)

lemma evaln_end: "level (token st) \<noteq> Some n \<Longrightarrow> evaln regex n (Some v) st = Some (Inr (v, st))"
  by (simp add: evaln.simps [of regex n "Some v"])

lemma follow_end: "follow n rest \<Longrightarrow> n < m \<Longrightarrow> level (first_token rest) \<noteq> Some m"
  by (auto simp: follow_def)

lemma parses_down:
  assumes "parses regex (Suc n) ws res" "n < 6"
  shows "parses regex n ws res"
  unfolding parses_def
proof (intro allI impI)
  fix rest tv
  assume rest: "follow n rest"
  then have "follow (Suc n) rest" by (auto simp: follow_def)
  then obtain tv' where "evaln regex (Suc n) None (start tv (ws @ rest)) =
      (case res of Inl e \<Rightarrow> Some (Inl e) | Inr v \<Rightarrow> evaln regex (Suc n) (Some v) (start tv' rest))"
    using assms(1) unfolding parses_def by blast
  then show "\<exists>tv'. evaln regex n None (start tv (ws @ rest)) =
      (case res of Inl e \<Rightarrow> Some (Inl e) | Inr v \<Rightarrow> evaln regex n (Some v) (start tv' rest))"
    using assms(2) follow_end [OF rest, of "Suc n"]
    by (intro exI [of _ tv']) (auto simp: evaln.simps [of regex n None] evaln_end split: sum.splits)
qed

lemma parses_le: "parses regex m ws res \<Longrightarrow> n \<le> m \<Longrightarrow> m \<le> 6 \<Longrightarrow> parses regex n ws res"
  by (induction "m - n" arbitrary: n) (auto intro: parses_down simp: Suc_le_eq)

lemma parses_word:
  assumes "word_token w = OPERAND"
  shows "parses regex 6 [w] (Inr (String w))"
  unfolding parses_def
proof (intro allI impI)
  fix rest tv
  assume rest: "follow 6 rest"
  have "token (start tv (w # rest)) = OPERAND" using assms by (simp add: first_token_def)
  moreover have "nexttoken False (start tv (w # rest)) = start (String w) rest"
    using assms rest by (cases rest) (auto simp: start_def nexttoken_def Let_def)
  moreover have "tokval (start (String w) rest) = String w"
    using rest by (cases rest) (auto simp: start_def nexttoken_def Let_def follow_def first_token_def)
  moreover have "level (first_token rest) \<noteq> Some 6" using level_le by fastforce
  ultimately show "\<exists>tv'. evaln regex 6 None (start tv ([w] @ rest)) =
      (case Inr (String w) of Inl e \<Rightarrow> Some (Inl e) | Inr v \<Rightarrow> evaln regex 6 (Some v) (start tv' rest))"
    by (intro exI [of _ "String w"]) (simp add: evaln.simps [of regex 6 None] evaln_end Let_def)
qed

lemma parses_parens:
  assumes "parses regex 0 ws res"
  shows "parses regex 6 (''('' # ws @ ['')'']) res"
  unfolding parses_def
proof (intro allI impI)
  fix rest tv
  assume "follow 6 rest"
  have tokens: "word_token ''('' = RP" "word_token '')'' = LP" by (simp_all add: word_token_def one_char_tokens_def)
  then have "follow 0 ('')'' # rest)" by (simp add: follow_def first_token_def)
  then obtain tv' where inner: "evaln regex 0 None (start tv (ws @ '')'' # rest)) =
      (case res of Inl e \<Rightarrow> Some (Inl e) | Inr v \<Rightarrow> evaln regex 0 (Some v) (start tv' ('')'' # rest)))"
    using assms unfolding parses_def by blast
  have enter: "nexttoken False (start tv (''('' # ws @ '')'' # rest)) = start tv (ws @ '')'' # rest)"
    and leave: "nexttoken False (start tv' ('')'' # rest)) = start tv' rest"
    using tokens by (auto intro!: next_start)
  have "level (first_token rest) \<noteq> Some 6" using level_le by fastforce
  then show "\<exists>tv'. evaln regex 6 None (start tv ((''('' # ws @ ['')'']) @ rest)) =
      (case res of Inl e \<Rightarrow> Some (Inl e) | Inr v \<Rightarrow> evaln regex 6 (Some v) (start tv' rest))"
    using inner enter leave tokens
    by (intro exI [of _ tv']) (auto simp: evaln.simps [of regex 6 None] evaln_end first_token_def split: sum.splits)
qed

definition combine :: "(val \<Rightarrow> val \<Rightarrow> failure + val) \<Rightarrow> failure + val \<Rightarrow> failure + val \<Rightarrow> failure + val" where
  "combine f l r = (case l of Inl e \<Rightarrow> Inl e | Inr a \<Rightarrow> (case r of Inl e \<Rightarrow> Inl e | Inr b \<Rightarrow> f a b))"

lemma parses_op:
  assumes l: "parses regex n vs l" and r: "parses regex (Suc n) ws r" and op: "level op = Some n" "n < 5" "word_token s = op"
  shows "parses regex n (vs @ s # ws) (combine (apply_op regex op) l r)"
  unfolding parses_def
proof (intro allI impI)
  fix rest tv
  assume rest: "follow n rest"
  then have rest': "follow (Suc n) rest" by (auto simp: follow_def)
  have op': "op \<noteq> OPERAND" using op by auto
  then have "follow n (s # ws @ rest)" using op by (simp add: follow_def first_token_def)
  then obtain tv1 where left: "evaln regex n None (start tv (vs @ s # ws @ rest)) =
      (case l of Inl e \<Rightarrow> Some (Inl e) | Inr v \<Rightarrow> evaln regex n (Some v) (start tv1 (s # ws @ rest)))"
    using l unfolding parses_def by blast
  obtain tv2 where right: "evaln regex (Suc n) None (start tv1 (ws @ rest)) =
      (case r of Inl e \<Rightarrow> Some (Inl e) | Inr v \<Rightarrow> evaln regex (Suc n) (Some v) (start tv2 rest))"
    using r rest' unfolding parses_def by blast
  have "nexttoken False (start tv1 (s # ws @ rest)) = start tv1 (ws @ rest)" using op op' by (auto intro!: next_start)
  then have "evaln regex n (Some a) (start tv1 (s # ws @ rest)) =
      (case r of Inl e \<Rightarrow> Some (Inl e) | Inr b \<Rightarrow> (case apply_op regex op a b of
         Inl e \<Rightarrow> Some (Inl e) | Inr v \<Rightarrow> evaln regex n (Some v) (start tv2 rest)))" for a
    using right op follow_end [OF rest, of "Suc n"]
    by (simp add: evaln.simps [of regex n "Some a"] first_token_def evaln_end split: sum.splits)
  then show "\<exists>tv'. evaln regex n None (start tv ((vs @ s # ws) @ rest)) =
      (case combine (apply_op regex op) l r of Inl e \<Rightarrow> Some (Inl e) | Inr v \<Rightarrow> evaln regex n (Some v) (start tv' rest))"
    using left by (intro exI [of _ tv2]) (auto simp: combine_def split: sum.splits)
qed

lemma parses_match:
  assumes l: "parses regex 5 vs l"
  shows "parses regex 5 (vs @ ['':'', w]) (combine (apply_op regex MATCH) l (Inr (String w)))"
  unfolding parses_def
proof (intro allI impI)
  fix rest tv
  assume rest: "follow 5 rest"
  have colon: "word_token '':'' = MATCH" by (simp add: word_token_def one_char_tokens_def)
  then have "follow 5 ('':'' # w # rest)" by (simp add: follow_def first_token_def)
  then obtain tv1 where left: "evaln regex 5 None (start tv (vs @ '':'' # w # rest)) =
      (case l of Inl e \<Rightarrow> Some (Inl e) | Inr v \<Rightarrow> evaln regex 5 (Some v) (start tv1 ('':'' # w # rest)))"
    using l unfolding parses_def by blast
  let ?st = "nexttoken True (start tv1 ('':'' # w # rest))"
  have st: "?st = \<lparr>token = OPERAND, tokval = String w, av = rest\<rparr>"
    using colon by (simp add: start_def nexttoken_def)
  have "nexttoken False ?st = start (String w) rest"
    using rest by (cases rest) (auto simp: st start_def nexttoken_def Let_def)
  moreover have "tokval (start (String w) rest) = String w"
    using rest by (cases rest) (auto simp: start_def nexttoken_def Let_def follow_def first_token_def)
  ultimately have "evaln regex 6 None ?st = Some (Inr (String w, start (String w) rest))"
    by (simp add: st evaln.simps [of regex 6 None] Let_def)
  then have "evaln regex 5 (Some a) (start tv1 ('':'' # w # rest)) = (case apply_op regex MATCH a (String w) of
      Inl e \<Rightarrow> Some (Inl e) | Inr v \<Rightarrow> evaln regex 5 (Some v) (start (String w) rest))" for a
    using colon by (simp add: evaln.simps [of regex 5 "Some a"] first_token_def split: sum.splits)
  then show "\<exists>tv'. evaln regex 5 None (start tv ((vs @ ['':'', w]) @ rest)) =
      (case combine (apply_op regex MATCH) l (Inr (String w)) of
         Inl e \<Rightarrow> Some (Inl e) | Inr v \<Rightarrow> evaln regex 5 (Some v) (start tv' rest))"
    using left by (intro exI [of _ "String w"]) (auto simp: combine_def split: sum.splits)
qed

lemma word_token_spelling: "level op \<noteq> None \<Longrightarrow> word_token (spelling op) = op"
  by (cases op) (simp_all add: word_token_def one_char_tokens_def)

lemma combine_sem:
  assumes "regex_ok regex" "writable (Op l op r)"
  shows "combine (apply_op regex op) (sem regex l) (sem regex r) = sem regex (Op l op r)"
proof -
  have w: "writable l" "level op \<noteq> None" "writable r \<or> (\<exists>w. r = Word w)" using writable_parts [OF assms(2)] by auto
  have "val_ok b" if "sem regex r = Inr b" for b using w(3) sem_ok [OF assms(1) _ that] that by (auto simp: val_ok_def)
  then show ?thesis using sem_ok [OF assms(1) w(1)] w(2) by (auto simp: combine_def apply_op_spec split: sum.splits)
qed

lemma sem_parses: "regex_ok regex \<Longrightarrow> writable e \<Longrightarrow> n \<le> 6 \<Longrightarrow> parses regex n (args n e) (sem regex e)"
proof (induction e arbitrary: n)
  case (Word w)
  then have "word_token w = OPERAND" by (simp add: word_reserved)
  then show ?case using parses_le [OF parses_word] Word.prems(3) by simp
next
  case (Op l op r)
  have l: "writable l" and op: "level op \<noteq> None" using writable_parts [OF Op.prems(2)] by auto
  then obtain k where k: "level op = Some k" by blast
  then have pk: "precedence op = Some k" by (simp add: precedence_level)
  have k5: "k \<le> 5" by (rule level_le [OF k])
  have left: "parses regex k (args k l) (sem regex l)" using Op.IH(1) [OF Op.prems(1) l] k5 by simp
  have "parses regex k (args k l @ spelling op # args (k + 1) r) (combine (apply_op regex op) (sem regex l) (sem regex r))"
  proof (cases "op = MATCH")
    case True
    then obtain w where "r = Word w" using Op.prems(2) by (cases r) auto
    then show ?thesis using parses_match [of regex "args k l"] left k True by simp
  next
    case False
    then have "k < 5" using k k5 by (cases op) auto
    moreover have "writable r" using Op.prems(2) False by (cases r) auto
    ultimately show ?thesis
      using parses_op [OF left _ k _ word_token_spelling [OF op]] Op.IH(2) [OF Op.prems(1), of "Suc k"] by simp
  qed
  then have core: "parses regex k (args k l @ spelling op # args (k + 1) r) (sem regex (Op l op r))"
    using combine_sem [OF Op.prems(1,2)] by simp
  show ?case
  proof (cases "k < n")
    case True
    have base: "parses regex 0 (args k l @ spelling op # args (k + 1) r) (sem regex (Op l op r))" using parses_le [OF core] k5 by simp
    show ?thesis using parses_le [OF parses_parens [OF base]] Op.prems(3) pk True by (simp add: Let_def del: sem.simps)
  next
    case False
    then show ?thesis using parses_le [OF core] pk k5 by (simp add: Let_def)
  qed
qed

section \<open>Numbers as they are printed\<close>

lemma decval_snoc: "decval (ds @ [c]) = 10 * decval ds + (of_char c - 48)"
  by (induction ds) (simp_all add: algebra_simps)

lemma decimal_digits: "decimal n \<noteq> [] \<and> list_all is_digit (decimal n) \<and> decval (decimal n) = int n \<and> (hd (decimal n) = CHR ''0'' \<longrightarrow> n = 0)"
proof (induction n rule: decimal.induct)
  case (1 n)
  have digit: "of_char (char_of (48 + k) :: char) = 48 + k" if "k < 10" for k :: nat using that by simp
  then have digit': "of_char (char_of (48 + k) :: char) = (48 + int k :: int)" if "k < 10" for k :: nat
    using that by (metis of_nat_of_char of_nat_add of_nat_numeral)
  show ?case
  proof (cases "n < 10")
    case True
    have "char_of (48 + n) = CHR ''0'' \<Longrightarrow> n = 0" using digit [OF True] by auto
    then show ?thesis using True by (subst (1 2 3 4) decimal.simps) (simp add: is_digit_def digit digit')
  next
    case False
    note IH = 1 [OF False]
    have ne: "n div 10 \<noteq> 0" using False by simp
    have "decimal n = decimal (n div 10) @ [char_of (48 + n mod 10)]" using False by (subst decimal.simps) simp
    moreover have "is_digit (char_of (48 + n mod 10))" by (simp add: is_digit_def digit)
    moreover have "int n = 10 * int (n div 10) + int (n mod 10)" by presburger
    ultimately show ?thesis using IH ne by (simp add: decval_snoc digit')
  qed
qed

lemma to_string_prints: "prints v (to_string v)"
proof (cases v)
  case (Integer i)
  define n where "n = nat \<bar>i\<bar>"
  have "lld i = (if i < 0 then ''-'' else []) @ decimal n" by (simp add: lld_def n_def)
  moreover have "decimal 0 = ''0''" by (subst decimal.simps) code_simp
  ultimately show ?thesis
    using Integer decimal_digits [of n] by (auto simp: prints_def to_string_def n_def)
qed (simp add: prints_def to_string_def)

section \<open>Properties\<close>

text \<open>
  C21: every run of \<^verbatim>\<open>expr\<close> ends, whatever words it is given: with a value and an exit status, or with an error.
\<close>

theorem expr_returns: "\<exists>r. expr_main regex words = Some r"
proof -
  obtain r where "evaln regex 0 None (expr_start (if words \<noteq> [] \<and> hd words = ''--'' then tl words else words)) = Some r"
    using evaln_returns [of 0 regex None] unfolding returns_def by blast
  then show ?thesis by (auto simp: expr_main_def Let_def split: sum.splits prod.splits)
qed


text \<open>A pattern that stands for itself.\<close>

definition literal :: regex where
  "literal p = Some (0, \<lambda>s. if take (length p) s = p \<and> int (length p) \<le> INT64_MAX then Some ((0, int (length p)), (-1, -1)) else None)"

definition example :: ast where
  "example = Op (Op (Op (Word ''7'') SUB (Word ''2'')) MUL (Word ''-3'')) ADD (Op (Word ''abc'') MATCH (Word ''ab''))"


end
