(* ===== verification/Zopen.thy ===== *)
theory Zopen
  imports Prelude "HOL-Library.Word"
begin

text \<open>
  The compressor and the decompressor of \<^verbatim>\<open>usr.bin/compress/zopen.c\<close>: Lempel-Ziv-Welch with codes of 9 to 16 bits and a table
  that is cleared when the compression gets worse. \<open>zs_fd\<close> is the file: what has been written, or what is left to be read. It is a
  regular file, of which \<^verbatim>\<open>read\<close> returns as much as there is, and its writes succeed. The arrays are functions with checked
  indices; the part of \<open>zs_htab\<close> that \<open>zread\<close> uses as the table of suffixes and as a stack has components of its own, the stack as
  the list of its bytes. The two structs of the union are kept apart: a state is only written or only read, and where \<open>z_wopen\<close> sets
  \<open>zs_ebp\<close>, the first \<open>zwrite\<close> sets \<open>zs_ent\<close> again (without one \<open>z_close\<close> writes nothing, as the width of the codes is 0). \<open>long\<close> has 64 bits, which the counters do not exceed. That \<^verbatim>\<open>calloc\<close> fails is left out.
\<close>

unbundle bit_operations_syntax

type_synonym u_char = "8 word"

section \<open>The state\<close>

abbreviation (input) BITS :: nat where "BITS \<equiv> 16"
abbreviation (input) HSIZE :: int where "HSIZE \<equiv> 69001"
abbreviation (input) ZBUFSIZ :: nat where "ZBUFSIZ \<equiv> 8192"
abbreviation (input) BIT_MASK :: int where "BIT_MASK \<equiv> 0x1f"
abbreviation (input) BLOCK_MASK :: int where "BLOCK_MASK \<equiv> 0x80"
abbreviation (input) INIT_BITS :: nat where "INIT_BITS \<equiv> 9"
abbreviation (input) CHECK_GAP :: int where "CHECK_GAP \<equiv> 10000"
abbreviation (input) FIRST :: int where "FIRST \<equiv> 257"
abbreviation (input) CLEAR :: int where "CLEAR \<equiv> 256"

definition z_magic :: "u_char list" where
  "z_magic = [0x1F, 0x9D]"

definition MAXCODE :: "nat \<Rightarrow> int" where
  "MAXCODE n_bits = push_bit n_bits 1 - 1"

datatype phase = S_START | S_MAGIC | S_MIDDLE | S_EOF

record s_zstate =
  zs_fd :: "u_char list"
  zs_state :: phase
  zs_n_bits :: nat
  zs_maxbits :: nat
  zs_maxcode :: int
  zs_maxmaxcode :: int
  zs_htab :: "int \<Rightarrow> int"
  zs_codetab :: "int \<Rightarrow> int"
  zs_hsize :: int
  zs_free_ent :: int
  zs_block_compress :: int
  zs_clear_flg :: bool
  zs_ratio :: int
  zs_checkpoint :: int
  zs_in_count :: int
  zs_bytes_out :: int
  zs_out_count :: int
  zs_buf :: "nat \<Rightarrow> u_char"
  zs_bp :: nat
  zs_offset :: nat
  zs_fcode :: int
  zs_ent :: int
  zs_hsize_reg :: int
  zs_hshift :: nat
  zs_stack :: "u_char list"
  zs_ebp :: nat
  zs_finchar :: int
  zs_code :: int
  zs_oldcode :: int
  zs_incode :: int
  zs_size :: int
  zs_suffix :: "int \<Rightarrow> u_char"

definition z_init :: "u_char list \<Rightarrow> phase \<Rightarrow> nat \<Rightarrow> int \<Rightarrow> s_zstate" where
  "z_init fd state maxbits block = \<lparr>zs_fd = fd, zs_state = state, zs_n_bits = 0, zs_maxbits = maxbits, zs_maxcode = 0,
     zs_maxmaxcode = push_bit maxbits 1, zs_htab = (\<lambda>i. 0), zs_codetab = (\<lambda>i. 0), zs_hsize = HSIZE, zs_free_ent = 0,
     zs_block_compress = block, zs_clear_flg = False, zs_ratio = 0, zs_checkpoint = CHECK_GAP, zs_in_count = 0,
     zs_bytes_out = 0, zs_out_count = 0, zs_buf = (\<lambda>i. 0), zs_bp = 0, zs_offset = 0, zs_fcode = 0, zs_ent = 0,
     zs_hsize_reg = 0, zs_hshift = 0, zs_stack = [], zs_ebp = 0, zs_finchar = 0, zs_code = 0, zs_oldcode = 0,
     zs_incode = 0, zs_size = 0, zs_suffix = (\<lambda>i. 0)\<rparr>"

text \<open>\<open>None\<close> is the null pointer here.\<close>

definition z_wopen :: "int \<Rightarrow> s_zstate option" where
  "z_wopen bits = (if bits < 0 \<or> bits > int BITS then None
     else Some (z_init [] S_START (if bits \<noteq> 0 then nat bits else BITS) BLOCK_MASK))"

definition z_ropen :: "u_char list \<Rightarrow> bool \<Rightarrow> s_zstate" where
  "z_ropen fd gotmagic = z_init fd (if gotmagic then S_MAGIC else S_START) BITS BLOCK_MASK"

section \<open>Arrays\<close>

definition get_buf :: "s_zstate \<Rightarrow> nat \<Rightarrow> u_char option" where
  "get_buf zs i = (if i < ZBUFSIZ then Some (zs_buf zs i) else None)"

definition put_buf :: "nat \<Rightarrow> int \<Rightarrow> s_zstate \<Rightarrow> s_zstate option" where
  "put_buf i v zs = (if i < ZBUFSIZ then Some (zs\<lparr>zs_buf := (zs_buf zs)(i := word_of_int v)\<rparr>) else None)"

definition htabof :: "s_zstate \<Rightarrow> int \<Rightarrow> int option" where
  "htabof zs i = (if 0 \<le> i \<and> i < HSIZE then Some (zs_htab zs i) else None)"

definition lmask :: "nat \<Rightarrow> int" where
  "lmask i = [0xff, 0xfe, 0xfc, 0xf8, 0xf0, 0xe0, 0xc0, 0x80, 0x00] ! i"

definition rmask :: "nat \<Rightarrow> int" where
  "rmask i = [0x00, 0x01, 0x03, 0x07, 0x0f, 0x1f, 0x3f, 0x7f, 0xff] ! i"

section \<open>Output of codes\<close>

text \<open>\<^verbatim>\<open>write (zs->zs_fd, zs->zs_buf, bits)\<close> of all that is in front of \<open>zs_bp\<close>.\<close>

definition write_buf :: "s_zstate \<Rightarrow> s_zstate" where
  "write_buf zs = zs\<lparr>zs_fd := zs_fd zs @ map (zs_buf zs) [0..<zs_bp zs], zs_bytes_out := zs_bytes_out zs + int (zs_bp zs)\<rparr>"

definition output_bits :: "int \<Rightarrow> s_zstate \<Rightarrow> s_zstate option" where
  "output_bits ocode zs = do {
     let bp = zs_bp zs + zs_offset zs div 8;
     let r_off = zs_offset zs mod 8;
     let bits = int (zs_n_bits zs);
     b \<leftarrow> get_buf zs bp;
     zs \<leftarrow> put_buf bp ((uint b AND rmask r_off) OR (push_bit r_off ocode AND lmask r_off)) zs;
     let bp = bp + 1;
     let bits = bits - (8 - int r_off);
     let ocode = drop_bit (8 - r_off) ocode;
     (zs, bp, ocode, bits) \<leftarrow> (if bits \<ge> 8
       then do { zs \<leftarrow> put_buf bp ocode zs; Some (zs, bp + 1, drop_bit 8 ocode, bits - 8) }
       else Some (zs, bp, ocode, bits));
     if bits \<noteq> 0 then put_buf bp ocode zs else Some zs
   }"

definition output_advance :: "s_zstate \<Rightarrow> s_zstate" where
  "output_advance zs = (
     let zs = zs\<lparr>zs_offset := zs_offset zs + zs_n_bits zs\<rparr>
     in if zs_offset zs = zs_n_bits zs * 8 then zs\<lparr>zs_bp := zs_bp zs + zs_n_bits zs, zs_offset := 0\<rparr> else zs)"

definition output_grow :: "s_zstate \<Rightarrow> s_zstate" where
  "output_grow zs = (
     if zs_free_ent zs > zs_maxcode zs \<or> zs_clear_flg zs then
       (let zs = (if zs_offset zs > 0 then zs\<lparr>zs_bp := zs_bp zs + zs_n_bits zs, zs_offset := 0\<rparr> else zs)
        in if zs_clear_flg zs then zs\<lparr>zs_n_bits := INIT_BITS, zs_maxcode := MAXCODE INIT_BITS, zs_clear_flg := False\<rparr>
           else
             (let n = zs_n_bits zs + 1
              in zs\<lparr>zs_n_bits := n, zs_maxcode := (if n = zs_maxbits zs then zs_maxmaxcode zs else MAXCODE n)\<rparr>))
     else zs)"

definition output_flush :: "s_zstate \<Rightarrow> s_zstate" where
  "output_flush zs = (if zs_bp zs + zs_n_bits zs > ZBUFSIZ then (write_buf zs)\<lparr>zs_bp := 0\<rparr> else zs)"

definition output_end :: "s_zstate \<Rightarrow> s_zstate" where
  "output_end zs = (
     let zs = (if zs_offset zs > 0 then zs\<lparr>zs_bp := zs_bp zs + (zs_offset zs + 7) div 8\<rparr> else zs);
         zs = (if zs_bp zs > 0 then write_buf zs else zs)
     in zs\<lparr>zs_offset := 0, zs_bp := 0\<rparr>)"

definition z_output :: "s_zstate \<Rightarrow> int \<Rightarrow> s_zstate option" where
  "z_output zs ocode = (
     if ocode \<ge> 0 then do { zs \<leftarrow> output_bits ocode zs; Some (output_flush (output_grow (output_advance zs))) }
     else Some (output_end zs))"

section \<open>Compression\<close>

text \<open>Sixteen entries in front of \<open>p\<close> at a time.\<close>

fun clear_range :: "int \<Rightarrow> int \<Rightarrow> (int \<Rightarrow> int) \<Rightarrow> int \<Rightarrow> int" where
  "clear_range p n htab = (\<lambda>j. if p - n \<le> j \<and> j < p then -1 else htab j)"

function cl_loop :: "int \<Rightarrow> int \<Rightarrow> (int \<Rightarrow> int) \<Rightarrow> int \<Rightarrow> int" where
  "cl_loop p i htab = (
     let htab = clear_range p 16 htab; p = p - 16; i = i - 16
     in if i \<ge> 0 then cl_loop p i htab else clear_range p (i + 16) htab)"
  by pat_completeness auto
termination by (relation "measure (\<lambda>(p, i, h). nat (i + 16))") auto

declare cl_loop.simps [simp del]

definition cl_hash :: "s_zstate \<Rightarrow> int \<Rightarrow> s_zstate" where
  "cl_hash zs cl_hsize = zs\<lparr>zs_htab := cl_loop cl_hsize (cl_hsize - 16) (zs_htab zs)\<rparr>"

definition ratio :: "s_zstate \<Rightarrow> int" where
  "ratio zs = (
     if zs_in_count zs > 0x007fffff
     then (let rat = drop_bit 8 (zs_bytes_out zs) in if rat = 0 then 0x7fffffff else zs_in_count zs div rat)
     else push_bit 8 (zs_in_count zs) div zs_bytes_out zs)"

definition cl_block :: "s_zstate \<Rightarrow> s_zstate option" where
  "cl_block zs = (
     let rat = ratio zs; zs = zs\<lparr>zs_checkpoint := zs_in_count zs + CHECK_GAP\<rparr>
     in if rat > zs_ratio zs then Some (zs\<lparr>zs_ratio := rat\<rparr>)
        else z_output ((cl_hash (zs\<lparr>zs_ratio := 0\<rparr>) (zs_hsize zs))\<lparr>zs_free_ent := FIRST, zs_clear_flg := True\<rparr>) CLEAR)"

text \<open>The slot where the search for \<open>zs_fcode\<close> ends: it holds the entry or is empty.\<close>

partial_function (option) probe :: "s_zstate \<Rightarrow> int \<Rightarrow> int \<Rightarrow> int option" where
  "probe zs disp i = do {
     let i = i - disp;
     let i = (if i < 0 then i + zs_hsize_reg zs else i);
     h \<leftarrow> htabof zs i;
     if h = zs_fcode zs \<or> h < 0 then Some i else probe zs disp i
   }"

declare probe.simps [code]

definition find_slot :: "s_zstate \<Rightarrow> int \<Rightarrow> int option" where
  "find_slot zs i = do {
     h \<leftarrow> htabof zs i;
     if h = zs_fcode zs \<or> h < 0 then Some i else probe zs (if i = 0 then 1 else zs_hsize_reg zs - i) i
   }"

definition zwrite_char :: "u_char \<Rightarrow> s_zstate \<Rightarrow> s_zstate option" where
  "zwrite_char c zs = do {
     let zs = zs\<lparr>zs_in_count := zs_in_count zs + 1, zs_fcode := push_bit (zs_maxbits zs) (uint c) + zs_ent zs\<rparr>;
     i \<leftarrow> find_slot zs (push_bit (zs_hshift zs) (uint c) XOR zs_ent zs);
     if zs_htab zs i = zs_fcode zs then Some (zs\<lparr>zs_ent := zs_codetab zs i\<rparr>)
     else do {
       zs \<leftarrow> z_output zs (zs_ent zs);
       let zs = zs\<lparr>zs_out_count := zs_out_count zs + 1, zs_ent := uint c\<rparr>;
       if zs_free_ent zs < zs_maxmaxcode zs then
         Some (zs\<lparr>zs_codetab := (zs_codetab zs)(i := zs_free_ent zs mod 2 ^ 16), zs_htab := (zs_htab zs)(i := zs_fcode zs),
                  zs_free_ent := zs_free_ent zs + 1\<rparr>)
       else if zs_in_count zs \<ge> zs_checkpoint zs \<and> zs_block_compress zs \<noteq> 0 then cl_block zs
       else Some zs
     }
   }"

fun zwrite_chars :: "u_char list \<Rightarrow> s_zstate \<Rightarrow> s_zstate option" where
  "zwrite_chars [] zs = Some zs"
| "zwrite_chars (c # bp) zs = do { zs \<leftarrow> zwrite_char c zs; zwrite_chars bp zs }"

text \<open>\<^verbatim>\<open>for (zs->zs_fcode = (long)zs->zs_hsize; zs->zs_fcode < 65536L; zs->zs_fcode *= 2L) zs->zs_hshift++;\<close>\<close>

function hshift_loop :: "int \<Rightarrow> nat \<Rightarrow> nat" where
  "hshift_loop fcode hshift = (if 0 < fcode \<and> fcode < 65536 then hshift_loop (fcode * 2) (hshift + 1) else hshift)"
  by pat_completeness auto
termination by (relation "measure (\<lambda>(f, h). nat (65536 - f))") auto

declare hshift_loop.simps [simp del]

definition zwrite_start :: "u_char \<Rightarrow> s_zstate \<Rightarrow> s_zstate" where
  "zwrite_start c zs = (
     let zs = zs\<lparr>zs_state := S_MIDDLE, zs_maxmaxcode := push_bit (zs_maxbits zs) 1,
           zs_fd := zs_fd zs @ z_magic @ [word_of_int (int (zs_maxbits zs) OR zs_block_compress zs)],
           zs_bp := 0, zs_offset := 0, zs_bytes_out := 3, zs_out_count := 0, zs_clear_flg := False, zs_ratio := 0,
           zs_in_count := 1, zs_checkpoint := CHECK_GAP, zs_n_bits := INIT_BITS, zs_maxcode := MAXCODE INIT_BITS,
           zs_free_ent := (if zs_block_compress zs \<noteq> 0 then FIRST else 256), zs_ent := uint c,
           zs_hshift := 8 - hshift_loop (zs_hsize zs) 0, zs_hsize_reg := zs_hsize zs\<rparr>
     in cl_hash zs (zs_hsize_reg zs))"

definition zwrite :: "s_zstate \<Rightarrow> u_char list \<Rightarrow> (int \<times> s_zstate) option" where
  "zwrite zs wbp = (case zs_state zs of
     S_MAGIC \<Rightarrow> Some (-1, zs)
   | S_EOF \<Rightarrow> Some (0, zs)
   | S_START \<Rightarrow> (case wbp of [] \<Rightarrow> None
       | c # bp \<Rightarrow> do { zs \<leftarrow> zwrite_chars bp (zwrite_start c zs); Some (int (length wbp), zs) })
   | S_MIDDLE \<Rightarrow> do { zs \<leftarrow> zwrite_chars wbp zs; Some (int (length wbp), zs) })"

text \<open>\<open>z_close\<close> of a file that was written: the file.\<close>

definition z_close :: "s_zstate \<Rightarrow> u_char list option" where
  "z_close zs = do { zs \<leftarrow> z_output zs (zs_ent zs); zs \<leftarrow> z_output zs (-1); Some (zs_fd zs) }"

section \<open>Input of codes\<close>

definition getcode_grow :: "s_zstate \<Rightarrow> s_zstate" where
  "getcode_grow zs = (
     let zs = zs\<lparr>zs_bp := zs_bp zs + zs_n_bits zs\<rparr>;
         zs = (if zs_free_ent zs > zs_maxcode zs then
             (let n = zs_n_bits zs + 1
              in zs\<lparr>zs_n_bits := n, zs_maxcode := (if n = zs_maxbits zs then zs_maxmaxcode zs else MAXCODE n)\<rparr>)
           else zs)
     in if zs_clear_flg zs then zs\<lparr>zs_n_bits := INIT_BITS, zs_maxcode := MAXCODE INIT_BITS, zs_clear_flg := False\<rparr> else zs)"

text \<open>The rest of the buffer moves to its start, and the file fills it.\<close>

definition getcode_fill :: "s_zstate \<Rightarrow> s_zstate" where
  "getcode_fill zs = (
     if zs_bp zs + zs_n_bits zs > zs_ebp zs then
       (let rest = zs_ebp zs - zs_bp zs; bits = min (ZBUFSIZ - rest) (length (zs_fd zs))
        in zs\<lparr>zs_buf := (\<lambda>j. if j < rest then zs_buf zs (zs_bp zs + j)
                else if j < rest + bits then zs_fd zs ! (j - rest) else zs_buf zs j),
              zs_fd := drop bits (zs_fd zs), zs_in_count := zs_in_count zs + int bits, zs_bp := 0, zs_ebp := rest + bits\<rparr>)
     else zs)"

text \<open>
  \<^verbatim>\<open>gcode |= (*bp & rmask[bits]) << r_off\<close> reads a byte also when there is no bit left to be read: behind the last code of the
  last group in the buffer this is the byte behind \<open>zs_buf\<close>, which is masked out.
\<close>

definition get_last :: "s_zstate \<Rightarrow> nat \<Rightarrow> u_char option" where
  "get_last zs i = (if i \<le> ZBUFSIZ then Some (zs_buf zs i) else None)"

definition getcode_bits :: "s_zstate \<Rightarrow> int option" where
  "getcode_bits zs = do {
     let bp = zs_bp zs + zs_offset zs div 8;
     let r_off = zs_offset zs mod 8;
     let bits = int (zs_n_bits zs);
     b \<leftarrow> get_buf zs bp;
     let gcode = drop_bit r_off (uint b);
     let bp = bp + 1;
     let bits = bits - (8 - int r_off);
     let r_off = 8 - r_off;
     (gcode, bp, r_off, bits) \<leftarrow> (if bits \<ge> 8
       then do { b \<leftarrow> get_buf zs bp; Some (gcode OR push_bit r_off (uint b), bp + 1, r_off + 8, bits - 8) }
       else Some (gcode, bp, r_off, bits));
     b \<leftarrow> get_last zs bp;
     Some (gcode OR push_bit r_off (uint b AND rmask (nat bits)))
   }"

definition getcode :: "s_zstate \<Rightarrow> (int \<times> s_zstate) option" where
  "getcode zs = (
     if zs_clear_flg zs \<or> int (zs_offset zs) \<ge> zs_size zs \<or> zs_free_ent zs > zs_maxcode zs then
       (let zs = (getcode_fill (getcode_grow zs))\<lparr>zs_offset := 0\<rparr>; size = min (zs_n_bits zs) (zs_ebp zs - zs_bp zs)
        in if size = 0 then Some (-1, zs\<lparr>zs_size := 0\<rparr>)
           else (let zs = zs\<lparr>zs_size := 8 * int size - (int (zs_n_bits zs) - 1)\<rparr>
             in do { gcode \<leftarrow> getcode_bits zs; Some (gcode, zs\<lparr>zs_offset := zs_n_bits zs\<rparr>) }))
     else do { gcode \<leftarrow> getcode_bits zs; Some (gcode, zs\<lparr>zs_offset := zs_offset zs + zs_n_bits zs\<rparr>) })"

section \<open>Decompression\<close>

text \<open>The room for the stack: \<open>zs_htab\<close> behind the suffixes.\<close>

definition STACK :: nat where
  "STACK = nat HSIZE * 8 - 2 ^ BITS"

definition push :: "u_char \<Rightarrow> s_zstate \<Rightarrow> s_zstate option" where
  "push c zs = (if length (zs_stack zs) < STACK then Some (zs\<lparr>zs_stack := c # zs_stack zs\<rparr>) else None)"

text \<open>The string of a code is pushed from its end; \<open>Some None\<close> is the error \<open>EINVAL\<close>.\<close>

function push_string :: "s_zstate \<Rightarrow> s_zstate option option" where
  "push_string zs = (
     if zs_code zs \<ge> 256 then
       (if length (zs_stack zs) \<ge> STACK then Some None
        else if zs_code zs \<ge> HSIZE then None
        else push_string (zs\<lparr>zs_stack := zs_suffix zs (zs_code zs) # zs_stack zs, zs_code := zs_codetab zs (zs_code zs)\<rparr>))
     else do {
       zs \<leftarrow> push (zs_suffix zs (zs_code zs)) (zs\<lparr>zs_finchar := uint (zs_suffix zs (zs_code zs))\<rparr>);
       Some (Some zs)
     })"
  by pat_completeness auto
termination by (relation "measure (\<lambda>zs. STACK - length (zs_stack zs))") auto

declare push_string.simps [simp del]

definition decode_code :: "s_zstate \<Rightarrow> s_zstate option option" where
  "decode_code zs = do {
     let zs = zs\<lparr>zs_incode := zs_code zs\<rparr>;
     zs \<leftarrow> (if zs_code zs \<ge> zs_free_ent zs
       then do { zs \<leftarrow> push (word_of_int (zs_finchar zs)) zs; Some (zs\<lparr>zs_code := zs_oldcode zs\<rparr>) }
       else Some zs);
     push_string zs
   }"

text \<open>Bytes from the stack while there is room for them; the \<open>bool\<close> says that the room is used up.\<close>

fun pop_loop :: "u_char list \<Rightarrow> nat \<Rightarrow> u_char list \<Rightarrow> (bool \<times> u_char list \<times> nat \<times> u_char list) option" where
  "pop_loop st count out = (
     if count = 0 then Some (True, st, count, out)
     else case st of
       [] \<Rightarrow> None
     | c # st \<Rightarrow> if st = [] then Some (False, st, count - 1, out @ [c]) else pop_loop st (count - 1) (out @ [c]))"

declare pop_loop.simps [simp del]

definition new_entry :: "s_zstate \<Rightarrow> s_zstate" where
  "new_entry zs = (
     let zs = zs\<lparr>zs_code := zs_free_ent zs\<rparr>;
         zs = (if zs_code zs < zs_maxmaxcode zs then
             zs\<lparr>zs_codetab := (zs_codetab zs)(zs_code zs := zs_oldcode zs mod 2 ^ 16),
                zs_suffix := (zs_suffix zs)(zs_code zs := word_of_int (zs_finchar zs)), zs_free_ent := zs_code zs + 1\<rparr>
           else zs)
     in zs\<lparr>zs_oldcode := zs_incode zs\<rparr>)"

definition zread_clear :: "s_zstate \<Rightarrow> s_zstate" where
  "zread_clear zs = zs\<lparr>zs_codetab := (\<lambda>i. if 0 \<le> i \<and> i < 256 then 0 else zs_codetab zs i), zs_clear_flg := True,
     zs_free_ent := FIRST - 1\<rparr>"

text \<open>The code that follows a \<open>CLEAR\<close> takes its place.\<close>

definition next_code :: "s_zstate \<Rightarrow> s_zstate option" where
  "next_code zs = do {
     (c, zs) \<leftarrow> getcode zs;
     if c = CLEAR \<and> zs_block_compress zs \<noteq> 0
     then do { (c, zs) \<leftarrow> getcode (zread_clear zs); Some (zs\<lparr>zs_code := c\<rparr>) }
     else Some (zs\<lparr>zs_code := c\<rparr>)
   }"

text \<open>The value, the bytes that were read, and the state. \<open>num\<close> is the room at the call, \<open>count\<close> what is left of it.\<close>

partial_function (option) zread_loop :: "nat \<Rightarrow> nat \<Rightarrow> u_char list \<Rightarrow> s_zstate \<Rightarrow> (int \<times> u_char list \<times> s_zstate) option" where
  "zread_loop num count out zs = do {
     zs \<leftarrow> next_code zs;
     if zs_code zs \<le> -1 then Some (int (num - count), out, zs\<lparr>zs_state := S_EOF, zs_bytes_out := zs_bytes_out zs + int (num - count)\<rparr>)
     else do {
       r \<leftarrow> decode_code zs;
       case r of None \<Rightarrow> Some (-1, out, zs)
       | Some zs \<Rightarrow> do {
           (full, st, count, out) \<leftarrow> pop_loop (zs_stack zs) count out;
           let zs = zs\<lparr>zs_stack := st\<rparr>;
           if full then Some (int num, out, zs\<lparr>zs_bytes_out := zs_bytes_out zs + int num\<rparr>)
           else zread_loop num count out (new_entry zs)
         }
     }
   }"

declare zread_loop.simps [code]

definition zread_header :: "u_char list \<Rightarrow> s_zstate \<Rightarrow> (int \<times> s_zstate)" where
  "zread_header header zs = (
     if take 2 header \<noteq> z_magic then (-1, zs)
     else
       (let bits = uint (header ! 2);
            zs = zs\<lparr>zs_in_count := zs_in_count zs + 3, zs_block_compress := bits AND BLOCK_MASK, zs_maxbits := nat (bits AND BIT_MASK)\<rparr>;
            zs = zs\<lparr>zs_maxmaxcode := push_bit (zs_maxbits zs) 1\<rparr>
        in if zs_maxbits zs > BITS then (-1, zs)
           else (0, zs\<lparr>zs_n_bits := INIT_BITS, zs_maxcode := MAXCODE INIT_BITS,
               zs_codetab := (\<lambda>i. if 0 \<le> i \<and> i < 256 then 0 else zs_codetab zs i),
               zs_suffix := (\<lambda>i. if 0 \<le> i \<and> i < 256 then word_of_int i else zs_suffix zs i), zs_code := -1,
               zs_free_ent := (if zs_block_compress zs \<noteq> 0 then FIRST else 256)\<rparr>)))"

definition zread_start :: "nat \<Rightarrow> u_char list \<Rightarrow> s_zstate \<Rightarrow> (int \<times> u_char list \<times> s_zstate) option" where
  "zread_start num header zs = do {
     let (e, zs) = zread_header header (zs\<lparr>zs_state := S_MIDDLE, zs_bp := 0\<rparr>);
     if e = -1 then Some (-1, [], zs)
     else do {
       (c, zs) \<leftarrow> getcode zs;
       let zs = zs\<lparr>zs_oldcode := c, zs_finchar := c\<rparr>;
       if c = -1 then Some (0, [], zs)
       else zread_loop num (num - 1) [word_of_int c] (zs\<lparr>zs_stack := []\<rparr>)
     }
   }"

definition zread :: "s_zstate \<Rightarrow> nat \<Rightarrow> (int \<times> u_char list \<times> s_zstate) option" where
  "zread zs num = (
     if num = 0 then Some (0, [], zs)
     else case zs_state zs of
       S_START \<Rightarrow> zread_start num (take 3 (zs_fd zs @ replicate 3 0)) (zs\<lparr>zs_fd := drop 3 (zs_fd zs)\<rparr>)
     | S_MAGIC \<Rightarrow> zread_start num (z_magic @ take 1 (zs_fd zs @ [0])) (zs\<lparr>zs_fd := drop 1 (zs_fd zs)\<rparr>)
     | S_MIDDLE \<Rightarrow> do {
         (full, st, count, out) \<leftarrow> pop_loop (zs_stack zs) num [];
         let zs = zs\<lparr>zs_stack := st\<rparr>;
         if full then Some (int num, out, zs\<lparr>zs_bytes_out := zs_bytes_out zs + int num\<rparr>)
         else zread_loop num count out (new_entry zs)
       }
     | S_EOF \<Rightarrow> Some (0, [], zs))"

section \<open>Whole files\<close>

text \<open>The loops of \<open>docompress\<close> and \<open>dodecompress\<close> in \<^verbatim>\<open>usr.bin/compress/compress.c\<close>.\<close>

fun write_all :: "u_char list list \<Rightarrow> s_zstate \<Rightarrow> s_zstate option" where
  "write_all [] zs = Some zs"
| "write_all (buf # bufs) zs = do { (nr, zs) \<leftarrow> zwrite zs buf; guard (nr = int (length buf)); write_all bufs zs }"

definition docompress :: "int \<Rightarrow> u_char list list \<Rightarrow> u_char list option" where
  "docompress bits bufs = do { zs \<leftarrow> z_wopen bits; zs \<leftarrow> write_all bufs zs; z_close zs }"

partial_function (option) read_all :: "nat \<Rightarrow> u_char list \<Rightarrow> s_zstate \<Rightarrow> (int \<times> u_char list) option" where
  "read_all num out zs = do {
     (nr, buf, zs) \<leftarrow> zread zs num;
     if nr > 0 then read_all num (out @ buf) zs else Some (nr, out)
   }"

declare read_all.simps [code]

definition dodecompress :: "nat \<Rightarrow> bool \<Rightarrow> u_char list \<Rightarrow> (int \<times> u_char list) option" where
  "dodecompress num gotmagic fd = read_all num [] (z_ropen fd gotmagic)"

end
