(* ===== verification/ZopenCodes.thy ===== *)
theory ZopenCodes
  imports Zopen
begin

text \<open>
  The layout of the codes in a compressed file: which bits the writer puts where, and that the reader finds them there.
\<close>

unbundle bit_operations_syntax

section \<open>Bits of bytes\<close>

lemma rmask_mask: "r \<le> 8 \<Longrightarrow> rmask r = mask r"
proof -
  assume "r \<le> 8"
  then have "r \<in> {0,1,2,3,4,5,6,7,8}" by auto
  then show ?thesis by (auto simp: rmask_def mask_eq_exp_minus_1)
qed

lemma lmask_mask: "r \<le> 8 \<Longrightarrow> lmask r = push_bit r (mask (8 - r))"
proof -
  assume "r \<le> 8"
  then have "r \<in> {0,1,2,3,4,5,6,7,8}" by auto
  then show ?thesis by (auto simp: lmask_def mask_eq_exp_minus_1 push_bit_eq_mult)
qed

lemma bit_byte: "bit (word_of_int k :: u_char) j \<longleftrightarrow> j < 8 \<and> bit k j"
  by (simp add: bit_word_of_int_iff)

definition bit_in :: "(nat \<Rightarrow> u_char) \<Rightarrow> nat \<Rightarrow> bool" where
  "bit_in b q = bit (b (q div 8)) (q mod 8)"

text \<open>The code \<open>c\<close> of \<open>n\<close> bits stands in the buffer from the bit \<open>q\<close> on.\<close>

definition bits_at :: "(nat \<Rightarrow> u_char) \<Rightarrow> nat \<Rightarrow> nat \<Rightarrow> int \<Rightarrow> bool" where
  "bits_at b n q c \<longleftrightarrow> (\<forall>t<n. bit_in b (q + t) = bit c t)"

definition first_byte :: "u_char \<Rightarrow> nat \<Rightarrow> int \<Rightarrow> u_char" where
  "first_byte b r c = word_of_int ((uint b AND rmask r) OR (push_bit r c AND lmask r))"

lemma bit_first_byte: "r < 8 \<Longrightarrow> j < 8 \<Longrightarrow> bit (first_byte b r c) j = (if j < r then bit b j else bit c (j - r))"
  by (auto simp: first_byte_def rmask_mask lmask_mask bit_byte bit_simps bit_uint_iff)

definition put_code :: "(nat \<Rightarrow> u_char) \<Rightarrow> nat \<Rightarrow> nat \<Rightarrow> int \<Rightarrow> nat \<Rightarrow> u_char" where
  "put_code b n q c = (let s = q div 8; r = q mod 8; b = b(s := first_byte (b s) r c, s + 1 := word_of_int (drop_bit (8 - r) c))
     in if n + r > 16 then b(s + 2 := word_of_int (drop_bit (16 - r) c)) else b)"

lemma split_div: "(q + t) div 8 = q div 8 + (q mod 8 + t) div 8" "(q + t) mod 8 = (q mod 8 + t) mod 8" for q t :: nat
proof -
  have "q + t = (q mod 8 + t) + q div 8 * 8" by simp
  then show "(q + t) div 8 = q div 8 + (q mod 8 + t) div 8" by (metis add.commute div_mult_self1 zero_neq_numeral)
qed (simp add: mod_add_left_eq)

lemma put_code_new:
  assumes "t < n" "n \<le> 16"
  shows "bit_in (put_code b n q c) (q + t) = bit c t"
proof -
  define s r where "s = q div 8" and "r = q mod 8"
  have r: "r < 8" by (simp add: r_def)
  have pos: "(q + t) div 8 = s + (r + t) div 8" "(q + t) mod 8 = (r + t) mod 8" unfolding s_def r_def by (rule split_div)+
  consider (first) "r + t < 8" | (second) "8 \<le> r + t" "r + t < 16" | (third) "16 \<le> r + t" "r + t < 24" using assms r by linarith
  then show ?thesis
  proof cases
    case first
    then have "(r + t) div 8 = 0" "(r + t) mod 8 = r + t" by simp_all
    then show ?thesis
      using first r by (simp add: bit_in_def pos put_code_def Let_def bit_first_byte flip: s_def r_def)
  next
    case second
    then have "r + t - 8 < 8" by linarith
    have "(r + t) div 8 = 1" "(r + t) mod 8 = r + t - 8" using second by (simp_all add: div_nat_eqI mod_nat_eqI le_mod_geq)
    then show ?thesis
      using second r \<open>r + t - 8 < 8\<close> by (simp add: bit_in_def pos put_code_def Let_def bit_byte bit_drop_bit_eq flip: s_def r_def)
  next
    case third
    have "r + t - 16 < 8" using third by linarith
    have "(r + t) div 8 = 2" "(r + t) mod 8 = r + t - 16" using third by (simp_all add: div_nat_eqI le_mod_geq)
    then show ?thesis
      using third r assms \<open>r + t - 16 < 8\<close> by (simp add: bit_in_def pos put_code_def Let_def bit_byte bit_drop_bit_eq flip: s_def r_def)
  qed
qed

lemma put_code_old:
  assumes "p < q"
  shows "bit_in (put_code b n q c) p = bit_in b p"
proof -
  have "p div 8 < q div 8 \<or> p div 8 = q div 8 \<and> p mod 8 < q mod 8"
    using assms by (metis div_le_mono le_neq_implies_less mod_less_divisor div_mult_mod_eq nat_add_left_cancel_less less_imp_le)
  then show ?thesis by (auto simp: bit_in_def put_code_def Let_def bit_first_byte)
qed

lemma put_code_outside: "i < q div 8 \<Longrightarrow> put_code b n q c i = b i"
  by (simp add: put_code_def Let_def)

lemma output_bits_put:
  assumes n: "9 \<le> zs_n_bits zs" "zs_n_bits zs \<le> 16" and k: "zs_offset zs = zs_n_bits zs * k" "k < 8"
    and room: "zs_bp zs + zs_n_bits zs \<le> ZBUFSIZ"
  shows "output_bits c zs = Some (zs\<lparr>zs_buf := put_code (zs_buf zs) (zs_n_bits zs) (8 * zs_bp zs + zs_offset zs) c\<rparr>)"
proof -
  define n off where "n = zs_n_bits zs" and "off = zs_offset zs"
  define s r where "s = off div 8" and "r = off mod 8"
  have r: "r < 8" by (simp add: r_def)
  have "off + n \<le> 8 * n" using k unfolding n_def off_def by (metis Suc_leI mult.commute mult_Suc_right mult_le_mono2 add.commute)
  then have fits: "8 * s + r + n \<le> 8 * n" unfolding s_def r_def by simp
  have pos: "(8 * zs_bp zs + off) div 8 = zs_bp zs + s" "(8 * zs_bp zs + off) mod 8 = r" unfolding s_def r_def by simp_all
  have s0: "zs_bp zs + s < 8192" "zs_bp zs + s + 1 < 8192" using fits n room r unfolding n_def [symmetric] by linarith+
  note defs = output_bits_def put_buf_def get_buf_def put_code_def first_byte_def
  have fold: "zs_n_bits zs = n" "zs_offset zs = off" "off div 8 = s" "off mod 8 = r" by (simp_all add: n_def off_def s_def r_def)
  have n9: "9 \<le> n" using n by (simp add: fold)
  consider "n + r < 16" | "n + r = 16" | "16 < n + r" by linarith
  then show ?thesis
  proof cases
    case 1
    then have "\<not> 8 \<le> int n - (8 - int r)" "int n - (8 - int r) \<noteq> 0" "\<not> 16 < n + r" using n9 r by linarith+
    then show ?thesis using s0 by (simp only: defs fold pos Let_def) simp
  next
    case 2
    then have "8 \<le> int n - (8 - int r)" "int n - (8 - int r) - 8 = 0" "\<not> 16 < n + r" by linarith+
    then show ?thesis using s0 by (simp only: defs fold pos Let_def) simp
  next
    case 3
    then have "8 \<le> int n - (8 - int r)" "int n - (8 - int r) - 8 \<noteq> 0" by linarith+
    moreover have "zs_bp zs + s + 2 < 8192" using 3 fits n room r unfolding n_def [symmetric] by linarith
    moreover have "8 + (8 - r) = 16 - r" using r by simp
    ultimately show ?thesis using s0 3 by (simp only: defs fold pos Let_def) (simp add: drop_bit_drop_bit)
  qed
qed

lemma byte_bit: "bit (b :: u_char) j \<Longrightarrow> j < 8"
  using bit_imp_le_length [of b j] by simp

lemma bit_uint_byte: "bit (uint (b :: u_char)) j \<longleftrightarrow> bit b j"
  by (auto simp: bit_uint_iff dest: byte_bit)

definition read_code :: "(nat \<Rightarrow> u_char) \<Rightarrow> nat \<Rightarrow> nat \<Rightarrow> int" where
  "read_code b n q = (let s = q div 8; r = q mod 8; g = drop_bit r (uint (b s))
     in if n + r < 16 then g OR push_bit (8 - r) (uint (b (s + 1)) AND mask (n + r - 8))
        else g OR push_bit (8 - r) (uint (b (s + 1))) OR push_bit (16 - r) (uint (b (s + 2)) AND mask (n + r - 16)))"

lemma bit_read_code:
  assumes "9 \<le> n" "n \<le> 16"
  shows "bit (read_code b n q) t \<longleftrightarrow> t < n \<and> bit_in b (q + t)"
proof -
  define s r where "s = q div 8" and "r = q mod 8"
  have r: "r < 8" by (simp add: r_def)
  have pos: "(q + t) div 8 = s + (r + t) div 8" "(q + t) mod 8 = (r + t) mod 8" unfolding s_def r_def by (rule split_div)+
  note defs = read_code_def bit_in_def Let_def bit_or_iff bit_push_bit_iff bit_drop_bit_eq bit_and_iff bit_mask_iff bit_uint_byte
  consider (first) "r + t < 8" | (second) "8 \<le> r + t" "r + t < 16" | (third) "16 \<le> r + t" "r + t < 24" | (last) "24 \<le> r + t" by linarith
  then show ?thesis
  proof cases
    case first
    then have "(r + t) div 8 = 0" "(r + t) mod 8 = r + t" "t < n" "\<not> 8 - r \<le> t" "\<not> 16 - r \<le> t" using assms by simp_all
    then show ?thesis by (simp add: defs pos flip: s_def r_def)
  next
    case second
    then have "(r + t) div 8 = 1" "(r + t) mod 8 = t - (8 - r)" "8 - r \<le> t" "\<not> 16 - r \<le> t" "\<not> r + t < 8" using r by (auto simp: div_nat_eqI le_mod_geq)
    moreover have "t - (8 - r) < n + r - 8 \<longleftrightarrow> t < n" using second r assms by linarith
    moreover have "t < n" if "\<not> n + r < 16" using that second by linarith
    ultimately show ?thesis using byte_bit [of "b s" "r + t"] by (auto simp: defs pos simp flip: s_def r_def)
  next
    case third
    then have "(r + t) div 8 = 2" "(r + t) mod 8 = t - (16 - r)" "8 - r \<le> t" "16 - r \<le> t" "\<not> r + t < 8" "\<not> t - (8 - r) < 8" using r
      by (auto simp: div_nat_eqI le_mod_geq)
    moreover have "t - (16 - r) < n + r - 16 \<longleftrightarrow> t < n" using third r assms by linarith
    moreover have "\<not> t < n" if "n + r < 16" using that third by linarith
    ultimately show ?thesis using byte_bit [of "b s" "r + t"] byte_bit [of "b (s + 1)" "t - (8 - r)"]
      by (auto simp: defs pos simp flip: s_def r_def)
  next
    case last
    then have "\<not> r + t < 8" "\<not> t - (8 - r) < 8" "\<not> t - (16 - r) < 8" "\<not> t < n" using r assms by linarith+
    then show ?thesis using byte_bit [of "b s" "r + t"] byte_bit [of "b (s + 1)" "t - (8 - r)"] byte_bit [of "b (s + 2)" "t - (16 - r)"]
      by (auto simp: defs pos simp flip: s_def r_def)
  qed
qed

lemma read_code_nonneg: "0 \<le> read_code b n q"
  by (simp add: read_code_def Let_def or_nonnegative_int_iff)

lemma read_held:
  assumes "9 \<le> n" "n \<le> 16" "bits_at b n q c" "0 \<le> c" "c < 2 ^ n"
  shows "read_code b n q = c"
proof (rule bit_eqI)
  fix t
  have "take_bit n c = c" using assms(4,5) by (simp add: take_bit_int_eq_self)
  then have "bit c t \<longleftrightarrow> t < n \<and> bit c t" by (metis bit_take_bit_iff)
  then show "bit (read_code b n q) t = bit c t" using assms(3) by (auto simp: bit_read_code [OF assms(1,2)] bits_at_def)
qed

lemma getcode_bits_room:
  assumes n: "9 \<le> zs_n_bits zs" "zs_n_bits zs \<le> 16" and room: "8 * zs_bp zs + zs_offset zs + zs_n_bits zs \<le> 8 * ZBUFSIZ"
  shows "getcode_bits zs = Some (read_code (zs_buf zs) (zs_n_bits zs) (8 * zs_bp zs + zs_offset zs))"
proof -
  define n off where "n = zs_n_bits zs" and "off = zs_offset zs"
  define s r where "s = off div 8" and "r = off mod 8"
  have r: "r < 8" by (simp add: r_def)
  have pos: "(8 * zs_bp zs + off) div 8 = zs_bp zs + s" "(8 * zs_bp zs + off) mod 8 = r" unfolding s_def r_def by simp_all
  have "off = 8 * s + r" by (simp add: s_def r_def)
  then have s0: "zs_bp zs + s < 8192" "zs_bp zs + s + 1 < 8192" "zs_bp zs + s + 2 \<le> 8192" using n room unfolding n_def [symmetric] off_def [symmetric] by linarith+
  note defs = getcode_bits_def get_buf_def get_last_def read_code_def
  have fold: "zs_n_bits zs = n" "zs_offset zs = off" "off div 8 = s" "off mod 8 = r" by (simp_all add: n_def off_def s_def r_def)
  have n9: "9 \<le> n" "n \<le> 16" using n by (simp_all add: fold)
  show ?thesis
  proof (cases "n + r < 16")
    case True
    then have "\<not> 8 \<le> int n - (8 - int r)" "nat (int n - (8 - int r)) = n + r - 8" using n9 r by linarith+
    then show ?thesis using s0 True n9 by (simp only: defs fold pos Let_def) (simp add: rmask_mask)
  next
    case False
    then have "8 \<le> int n - (8 - int r)" "nat (int n - (8 - int r) - 8) = n + r - 16" "n + r - 16 \<le> 8" using n9 r by linarith+
    moreover have "8 - r + 8 = 16 - r" using r by simp
    ultimately show ?thesis using s0 False by (simp only: defs fold pos Let_def) (simp add: rmask_mask or.assoc)
  qed
qed

lemma getcode_bits_read:
  assumes n: "9 \<le> zs_n_bits zs" "zs_n_bits zs \<le> 16" and k: "zs_offset zs = zs_n_bits zs * k" "k < 8"
    and room: "zs_bp zs + zs_n_bits zs \<le> ZBUFSIZ"
  shows "getcode_bits zs = Some (read_code (zs_buf zs) (zs_n_bits zs) (8 * zs_bp zs + zs_offset zs))"
proof (rule getcode_bits_room [OF n])
  have "zs_offset zs + zs_n_bits zs \<le> 8 * zs_n_bits zs" using k by (metis Suc_leI mult.commute mult_Suc_right mult_le_mono2 add.commute)
  then show "8 * zs_bp zs + zs_offset zs + zs_n_bits zs \<le> 8 * ZBUFSIZ" using room by linarith
qed

section \<open>Files of codes\<close>

text \<open>
  A trace is a list of codes, each with the writer's \<open>zs_free_ent\<close> and \<open>zs_clear_flg\<close> when it was written. They say where the
  width of the codes changes: there the group of up to eight codes ends, and is filled up. \<open>enc mb n mc k tr bs\<close>: the bytes
  \<open>bs\<close>, from the start of a group of which \<open>k\<close> codes have been read, hold the codes of \<open>tr\<close>.
\<close>

type_synonym trace = "(int \<times> int \<times> bool) list"

definition next_width :: "nat \<Rightarrow> bool \<Rightarrow> nat \<Rightarrow> nat \<times> int" where
  "next_width mb clr n = (if clr then (INIT_BITS, MAXCODE INIT_BITS) else (n + 1, if n + 1 = mb then 2 ^ mb else MAXCODE (n + 1)))"

fun enc :: "nat \<Rightarrow> nat \<Rightarrow> int \<Rightarrow> nat \<Rightarrow> trace \<Rightarrow> u_char list \<Rightarrow> bool" where
  "enc mb n mc k [] bs \<longleftrightarrow> length bs = (n * k + 7) div 8"
| "enc mb n mc k ((c, F, clr) # tr) bs \<longleftrightarrow>
     9 \<le> n \<and> n \<le> 16 \<and> 511 \<le> mc \<and> 0 \<le> c \<and> c < 2 ^ n \<and> n * (k + 1) \<le> 8 * length bs \<and> bits_at (nth bs) n (n * k) c
     \<and> (if F > mc \<or> clr then n \<le> length bs \<and> enc mb (fst (next_width mb clr n)) (snd (next_width mb clr n)) 0 tr (drop n bs)
        else if k = 7 then enc mb n mc 0 tr (drop n bs)
        else enc mb n mc (k + 1) tr bs)"

definition rest_bytes :: "s_zstate \<Rightarrow> u_char list" where
  "rest_bytes zs = map (zs_buf zs) [zs_bp zs..<zs_ebp zs] @ zs_fd zs"

definition refill :: "s_zstate \<Rightarrow> bool" where
  "refill zs \<longleftrightarrow> zs_clear_flg zs \<or> int (zs_offset zs) \<ge> zs_size zs \<or> zs_free_ent zs > zs_maxcode zs"

definition refill_width :: "nat \<Rightarrow> s_zstate \<Rightarrow> nat \<times> int" where
  "refill_width mb zs = (if zs_clear_flg zs \<or> zs_free_ent zs > zs_maxcode zs then next_width mb (zs_clear_flg zs) (zs_n_bits zs)
     else (zs_n_bits zs, zs_maxcode zs))"

definition in_group :: "s_zstate \<Rightarrow> nat \<Rightarrow> bool" where
  "in_group zs k \<longleftrightarrow> zs_bp zs + zs_n_bits zs \<le> ZBUFSIZ \<and> (zs_n_bits zs \<le> zs_ebp zs - zs_bp zs \<or> zs_fd zs = [])
     \<and> zs_size zs = 8 * int (min (zs_n_bits zs) (length (rest_bytes zs))) - (int (zs_n_bits zs) - 1) \<and> zs_offset zs = zs_n_bits zs * k"

text \<open>The codes of \<open>tr\<close> are what is left to be read.\<close>

definition reading :: "nat \<Rightarrow> trace \<Rightarrow> s_zstate \<Rightarrow> bool" where
  "reading mb tr zs \<longleftrightarrow> zs_maxbits zs = mb \<and> zs_maxmaxcode zs = 2 ^ mb \<and> zs_ebp zs \<le> ZBUFSIZ \<and>
     (if refill zs
      then enc mb (fst (refill_width mb zs)) (snd (refill_width mb zs)) 0 tr (rest_bytes (zs\<lparr>zs_bp := zs_bp zs + zs_n_bits zs\<rparr>))
      else \<exists>k. k < 8 \<and> in_group zs k \<and> 9 \<le> zs_n_bits zs \<and> enc mb (zs_n_bits zs) (zs_maxcode zs) k tr (rest_bytes zs))"

lemma refill_width_small: "fst (next_width mb clr n) > 0"
  by (simp add: next_width_def)

lemma getcode_grow_width:
  "zs_maxbits zs = mb \<Longrightarrow> zs_maxmaxcode zs = 2 ^ mb \<Longrightarrow> getcode_grow zs = zs\<lparr>zs_bp := zs_bp zs + zs_n_bits zs,
     zs_n_bits := fst (refill_width mb zs), zs_maxcode := snd (refill_width mb zs), zs_clear_flg := False\<rparr>"
  by (simp add: getcode_grow_def refill_width_def next_width_def Let_def)

lemma fill_rest:
  assumes "zs_ebp zs \<le> ZBUFSIZ" "zs_n_bits zs \<le> ZBUFSIZ"
  shows "rest_bytes (getcode_fill zs) = rest_bytes zs" "zs_ebp (getcode_fill zs) \<le> ZBUFSIZ"
    "zs_bp (getcode_fill zs) + zs_n_bits zs \<le> ZBUFSIZ"
    "zs_n_bits zs \<le> zs_ebp (getcode_fill zs) - zs_bp (getcode_fill zs) \<or> zs_fd (getcode_fill zs) = []"
proof -
  have full: "rest_bytes (getcode_fill zs) = rest_bytes zs" if "zs_bp zs + zs_n_bits zs > zs_ebp zs"
  proof -
    define rest bits where "rest = zs_ebp zs - zs_bp zs" and "bits = min (ZBUFSIZ - rest) (length (zs_fd zs))"
    have split: "[0..<rest + bits] = [0..<rest] @ [rest..<rest + bits]" using upt_add_eq_append [of 0 rest bits] by simp
    have "map (\<lambda>j. zs_buf zs (zs_bp zs + j)) [0..<rest] = map (zs_buf zs) [zs_bp zs..<zs_ebp zs]"
      by (rule nth_equalityI) (simp_all add: rest_def)
    moreover have "map (\<lambda>j. zs_fd zs ! (j - rest)) [rest..<rest + bits] = take bits (zs_fd zs)"
      by (rule nth_equalityI) (simp_all add: bits_def)
    moreover have "map (zs_buf (getcode_fill zs)) [0..<rest + bits] =
        map (\<lambda>j. zs_buf zs (zs_bp zs + j)) [0..<rest] @ map (\<lambda>j. zs_fd zs ! (j - rest)) [rest..<rest + bits]"
      using that unfolding split map_append by (auto simp: getcode_fill_def Let_def simp flip: rest_def bits_def)
    ultimately show ?thesis using that
      by (simp add: rest_bytes_def) (simp add: getcode_fill_def Let_def flip: rest_def bits_def)
  qed
  show "rest_bytes (getcode_fill zs) = rest_bytes zs" using full by (cases "zs_bp zs + zs_n_bits zs > zs_ebp zs") (simp_all add: getcode_fill_def)
  show "zs_ebp (getcode_fill zs) \<le> ZBUFSIZ" "zs_bp (getcode_fill zs) + zs_n_bits zs \<le> ZBUFSIZ" using assms by (auto simp: getcode_fill_def Let_def)
  show "zs_n_bits zs \<le> zs_ebp (getcode_fill zs) - zs_bp (getcode_fill zs) \<or> zs_fd (getcode_fill zs) = []"
    using assms by (auto simp: getcode_fill_def Let_def min_def)
qed

text \<open>Reading changes the buffer and the position in the file only.\<close>

definition input_moved :: "s_zstate \<Rightarrow> s_zstate \<Rightarrow> bool" where
  "input_moved zs zs' \<longleftrightarrow> \<not> zs_clear_flg zs' \<and> zs\<lparr>zs_fd := [], zs_n_bits := 0, zs_maxcode := 0, zs_clear_flg := False,
       zs_buf := (\<lambda>i. 0), zs_bp := 0, zs_ebp := 0, zs_offset := 0, zs_size := 0, zs_in_count := 0\<rparr> =
     zs'\<lparr>zs_fd := [], zs_n_bits := 0, zs_maxcode := 0, zs_clear_flg := False,
       zs_buf := (\<lambda>i. 0), zs_bp := 0, zs_ebp := 0, zs_offset := 0, zs_size := 0, zs_in_count := 0\<rparr>"

lemma input_moved_fields:
  assumes "input_moved zs zs'"
  shows "zs_codetab zs' = zs_codetab zs" "zs_suffix zs' = zs_suffix zs" "zs_stack zs' = zs_stack zs" "zs_free_ent zs' = zs_free_ent zs"
    "zs_maxbits zs' = zs_maxbits zs" "zs_maxmaxcode zs' = zs_maxmaxcode zs" "zs_block_compress zs' = zs_block_compress zs"
    "zs_finchar zs' = zs_finchar zs" "zs_oldcode zs' = zs_oldcode zs" "zs_incode zs' = zs_incode zs" "zs_state zs' = zs_state zs"
    "\<not> zs_clear_flg zs'"
  using assms by (cases zs, cases zs', simp add: input_moved_def)+

lemma rest_advance:
  assumes "n \<le> zs_ebp zs - zs_bp zs \<or> zs_fd zs = []"
  shows "rest_bytes (zs\<lparr>zs_bp := zs_bp zs + n\<rparr>) = drop n (rest_bytes zs)"
  using assms by (auto simp: rest_bytes_def drop_map add.commute)

lemma rest_flags [simp]:
  "rest_bytes (zs\<lparr>zs_offset := a\<rparr>) = rest_bytes zs" "rest_bytes (zs\<lparr>zs_free_ent := b\<rparr>) = rest_bytes zs"
  "rest_bytes (zs\<lparr>zs_clear_flg := d\<rparr>) = rest_bytes zs" "rest_bytes (zs\<lparr>zs_size := e\<rparr>) = rest_bytes zs"
  by (simp_all add: rest_bytes_def)

lemma group_room:
  assumes "in_group zs k" "k < 8" "9 \<le> zs_n_bits zs" "n = zs_n_bits zs" "bits_at (nth (rest_bytes zs)) n (n * k) c" "n * (k + 1) \<le> 8 * length (rest_bytes zs)"
  shows "bits_at (zs_buf zs) n (8 * zs_bp zs + n * k) c"
  unfolding bits_at_def
proof (intro allI impI)
  fix t
  assume t: "t < n"
  define i where "i = (n * k + t) div 8"
  have "n * k \<le> n * 7" using assms(2) by (intro mult_le_mono2) simp
  then have "n * k + t < 8 * n" using t by linarith
  moreover have "n * k + t < 8 * length (rest_bytes zs)" using t assms(6) by simp
  ultimately have "i < n" "i < length (rest_bytes zs)" unfolding i_def by (simp_all add: less_mult_imp_div_less mult.commute)
  then have "rest_bytes zs ! i = zs_buf zs (zs_bp zs + i)"
    using assms(1,4) by (auto simp: in_group_def rest_bytes_def nth_append)
  moreover have "(8 * zs_bp zs + n * k + t) div 8 = zs_bp zs + i" "(8 * zs_bp zs + n * k + t) mod 8 = (n * k + t) mod 8"
    unfolding i_def by (simp_all add: add.assoc)
  moreover have "bit_in (nth (rest_bytes zs)) (n * k + t) = bit c t" using assms(5) t by (simp add: bits_at_def)
  ultimately show "bit_in (zs_buf zs) (8 * zs_bp zs + n * k + t) = bit c t" by (simp add: bit_in_def i_def)
qed

lemma group_step:
  assumes g: "in_group zs k" "k < 8" and e: "enc mb (zs_n_bits zs) (zs_maxcode zs) k ((c, F, clr) # tr) (rest_bytes zs)"
    and m: "zs_maxbits zs = mb" "zs_maxmaxcode zs = 2 ^ mb" "zs_ebp zs \<le> ZBUFSIZ"
    and free: "\<not> clr \<Longrightarrow> free > zs_maxcode zs \<longleftrightarrow> F > zs_maxcode zs"
  shows "getcode_bits zs = Some c"
    "reading mb tr (zs\<lparr>zs_offset := zs_offset zs + zs_n_bits zs, zs_free_ent := free, zs_clear_flg := clr\<rparr>)" (is "reading _ _ ?zs")
proof -
  define n where "n = zs_n_bits zs"
  have n: "9 \<le> n" "n \<le> 16" and c: "0 \<le> c" "c < 2 ^ n" and len: "n * (k + 1) \<le> 8 * length (rest_bytes zs)"
    and held: "bits_at (nth (rest_bytes zs)) n (n * k) c" and off: "zs_offset zs = n * k"
    using e g(1) by (simp_all add: n_def in_group_def)
  show "getcode_bits zs = Some c"
    using getcode_bits_read [of zs k] read_held [OF n group_room [OF g _ n_def held len] c] n g
    by (simp add: n_def in_group_def)
  have zs: "zs_offset ?zs = n * (k + 1)" "zs_n_bits ?zs = n" "zs_clear_flg ?zs = clr" "zs_free_ent ?zs = free" "zs_maxcode ?zs = zs_maxcode zs"
    "zs_size ?zs = zs_size zs" by (simp_all add: off n_def)
  have size: "zs_size zs = 8 * int (min n (length (rest_bytes zs))) - (int n - 1)" using g(1) by (simp add: in_group_def n_def)
  have adv: "rest_bytes (?zs\<lparr>zs_bp := zs_bp ?zs + n\<rparr>) = drop n (rest_bytes zs)"
    using rest_advance [of n ?zs] g(1) by (simp add: in_group_def n_def)
  show "reading mb tr ?zs"
  proof (cases "F > zs_maxcode zs \<or> clr")
    case True
    then have "refill ?zs" "refill_width mb ?zs = next_width mb clr n" using free by (auto simp: refill_def refill_width_def n_def)
    moreover have "enc mb (fst (next_width mb clr n)) (snd (next_width mb clr n)) 0 tr (drop n (rest_bytes zs))" using e True by (simp add: n_def)
    ultimately show ?thesis using m adv by (simp add: reading_def n_def)
  next
    case False
    then have width: "refill_width mb ?zs = (n, zs_maxcode zs)" and f: "\<not> free > zs_maxcode zs" using free by (auto simp: refill_width_def n_def)
    show ?thesis
    proof (cases "k = 7")
      case True
      have "int (n * (k + 1)) \<ge> zs_size zs" using size n True by simp
      then have "refill ?zs" using zs by (simp add: refill_def)
      moreover have "enc mb n (zs_maxcode zs) 0 tr (drop n (rest_bytes zs))" using e False True by (simp add: n_def)
      ultimately show ?thesis using m adv width by (simp add: reading_def n_def)
    next
      case k: False
      then have e': "enc mb n (zs_maxcode zs) (k + 1) tr (rest_bytes zs)" using e False by (simp add: n_def)
      have k7: "k + 2 \<le> 8" using k g(2) by simp
      show ?thesis
      proof (cases "refill ?zs")
        case True
        then have past: "int (n * (k + 1)) \<ge> zs_size zs" using False f zs by (simp add: refill_def)
        have "tr = []"
        proof (rule ccontr)
          assume "tr \<noteq> []"
          then obtain e1 tr' where "tr = e1 # tr'" by (cases tr) auto
          then have "n * (k + 2) \<le> 8 * length (rest_bytes zs)" using e' by (cases e1) simp
          moreover have "n * (k + 2) \<le> 8 * n" using k7 by (simp add: mult.commute)
          ultimately have "int (n * (k + 2)) \<le> 8 * int (min n (length (rest_bytes zs)))" by linarith
          then show False using past size n by (simp add: distrib_left algebra_simps)
        qed
        moreover have "length (rest_bytes zs) \<le> n"
        proof -
          have rest: "length (rest_bytes zs) = (n * (k + 1) + 7) div 8" using e' \<open>tr = []\<close> by simp
          have "n * (k + 1) \<le> n * 7" using k7 by (intro mult_le_mono2) linarith
          moreover have "x + 7 < (n + 1) * 8" if "x \<le> n * 7" for x using that by simp
          ultimately have "n * (k + 1) + 7 < (n + 1) * 8" by blast
          then have "(n * (k + 1) + 7) div 8 < n + 1" by (rule less_mult_imp_div_less)
          then show ?thesis using rest by simp
        qed
        ultimately show ?thesis using True m adv width by (simp add: reading_def n_def)
      next
        case read: False
        have "in_group ?zs (k + 1)" using g(1) by (simp add: in_group_def off n_def rest_bytes_def)
        then have "\<exists>k<8. in_group ?zs k \<and> 9 \<le> zs_n_bits ?zs \<and> enc mb (zs_n_bits ?zs) (zs_maxcode ?zs) k tr (rest_bytes ?zs)"
          using e' k7 n by (intro exI [of _ "k + 1"]) (simp add: n_def)
        then show ?thesis using read m unfolding reading_def by simp
      qed
    qed
  qed
qed

text \<open>The next group, after a refill.\<close>

definition refilled :: "s_zstate \<Rightarrow> s_zstate" where
  "refilled zs = (let zs = (getcode_fill (getcode_grow zs))\<lparr>zs_offset := 0\<rparr>
     in zs\<lparr>zs_size := 8 * int (min (zs_n_bits zs) (zs_ebp zs - zs_bp zs)) - (int (zs_n_bits zs) - 1)\<rparr>)"

lemma refilled_moved:
  assumes "reading mb tr zs"
  shows "input_moved zs (refilled zs)"
proof -
  have grow: "getcode_grow zs = zs\<lparr>zs_bp := zs_bp zs + zs_n_bits zs, zs_n_bits := fst (refill_width mb zs),
      zs_maxcode := snd (refill_width mb zs), zs_clear_flg := False\<rparr>"
    using assms by (intro getcode_grow_width) (simp_all add: reading_def)
  then have "input_moved zs (getcode_grow zs)" by (simp add: input_moved_def)
  moreover have "input_moved zs z \<Longrightarrow> input_moved zs (getcode_fill z)" for z by (simp add: input_moved_def getcode_fill_def Let_def)
  ultimately have "input_moved zs (getcode_fill (getcode_grow zs))" by blast
  then show ?thesis by (simp add: input_moved_def refilled_def Let_def)
qed

lemma refilled_group:
  assumes r: "reading mb tr zs" "refill zs" and n: "fst (refill_width mb zs) \<le> 16"
  shows "in_group (refilled zs) 0" "zs_n_bits (refilled zs) = fst (refill_width mb zs)" "zs_maxcode (refilled zs) = snd (refill_width mb zs)"
    "zs_ebp (refilled zs) \<le> ZBUFSIZ" "enc mb (zs_n_bits (refilled zs)) (zs_maxcode (refilled zs)) 0 tr (rest_bytes (refilled zs))"
    "min (zs_n_bits (refilled zs)) (zs_ebp (refilled zs) - zs_bp (refilled zs)) = min (zs_n_bits (refilled zs)) (length (rest_bytes (refilled zs)))"
proof -
  let ?g = "getcode_grow zs" and ?f = "getcode_fill (getcode_grow zs)"
  have grow: "?g = zs\<lparr>zs_bp := zs_bp zs + zs_n_bits zs, zs_n_bits := fst (refill_width mb zs),
      zs_maxcode := snd (refill_width mb zs), zs_clear_flg := False\<rparr>"
    using r(1) by (intro getcode_grow_width) (simp_all add: reading_def)
  have pre: "zs_ebp ?g \<le> ZBUFSIZ" "zs_n_bits ?g \<le> ZBUFSIZ" using r(1) n by (simp_all add: grow reading_def)
  note fill = fill_rest [OF pre]
  have keep: "zs_n_bits ?f = zs_n_bits ?g" "zs_maxcode ?f = zs_maxcode ?g" by (simp_all add: getcode_fill_def Let_def)
  have rest: "rest_bytes (refilled zs) = rest_bytes ?f" by (simp add: refilled_def Let_def rest_bytes_def)
  have rest_g: "rest_bytes ?g = rest_bytes (zs\<lparr>zs_bp := zs_bp zs + zs_n_bits zs\<rparr>)" by (simp add: grow rest_bytes_def)
  show width: "zs_n_bits (refilled zs) = fst (refill_width mb zs)" "zs_maxcode (refilled zs) = snd (refill_width mb zs)"
    by (simp_all add: refilled_def Let_def keep) (simp_all add: grow)
  show "zs_ebp (refilled zs) \<le> ZBUFSIZ" using fill(2) by (simp add: refilled_def Let_def)
  show "enc mb (zs_n_bits (refilled zs)) (zs_maxcode (refilled zs)) 0 tr (rest_bytes (refilled zs))"
    using r by (simp add: width rest fill(1) rest_g reading_def)
  show size: "min (zs_n_bits (refilled zs)) (zs_ebp (refilled zs) - zs_bp (refilled zs)) = min (zs_n_bits (refilled zs)) (length (rest_bytes (refilled zs)))"
    using fill(4) by (auto simp: refilled_def Let_def keep rest_bytes_def)
  show "in_group (refilled zs) 0"
    using fill(3,4) size by (simp add: in_group_def) (simp add: refilled_def Let_def keep)
qed

text \<open>A code is read.\<close>

lemma getcode_next:
  assumes r: "reading mb ((c, F, clr) # tr) zs"
  shows "\<exists>zs'. getcode zs = Some (c, zs') \<and> input_moved zs zs' \<and> 511 \<le> zs_maxcode zs'
    \<and> (\<forall>free. (\<not> clr \<longrightarrow> (free > zs_maxcode zs' \<longleftrightarrow> F > zs_maxcode zs')) \<longrightarrow> reading mb tr (zs'\<lparr>zs_free_ent := free, zs_clear_flg := clr\<rparr>))"
proof (cases "refill zs")
  case True
  then have enc0: "enc mb (fst (refill_width mb zs)) (snd (refill_width mb zs)) 0 ((c, F, clr) # tr) (rest_bytes (zs\<lparr>zs_bp := zs_bp zs + zs_n_bits zs\<rparr>))"
    using r True by (simp only: reading_def if_True)
  then have n: "fst (refill_width mb zs) \<le> 16" by simp
  let ?zs = "refilled zs"
  note g = refilled_group [OF r True n]
  have m: "zs_maxbits ?zs = mb" "zs_maxmaxcode ?zs = 2 ^ mb"
    using r input_moved_fields(5,6) [OF refilled_moved [OF r]] by (simp_all add: reading_def)
  have size: "min (zs_n_bits ?zs) (zs_ebp ?zs - zs_bp ?zs) \<noteq> 0" using g(5,6) by auto
  have bits: "getcode_bits ?zs = Some c" using group_step(1) [OF g(1) _ g(5) m g(4), of F] by simp
  have off: "zs_offset ?zs = 0" by (simp add: refilled_def Let_def)
  have run: "getcode zs = Some (c, ?zs\<lparr>zs_offset := zs_offset ?zs + zs_n_bits ?zs\<rparr>)"
    using True size bits by (simp add: getcode_def refill_def off Let_def) (auto simp: refilled_def Let_def min_def)
  have "reading mb tr (?zs\<lparr>zs_offset := zs_offset ?zs + zs_n_bits ?zs, zs_free_ent := free, zs_clear_flg := clr\<rparr>)"
    if "\<not> clr \<longrightarrow> (free > zs_maxcode ?zs \<longleftrightarrow> F > zs_maxcode ?zs)" for free
    using group_step(2) [OF g(1) _ g(5) m g(4), of free] that by simp
  moreover have "input_moved zs (?zs\<lparr>zs_offset := zs_offset ?zs + zs_n_bits ?zs\<rparr>)"
    using refilled_moved [OF r] by (simp add: input_moved_def)
  moreover have "511 \<le> zs_maxcode ?zs" using g(5) by simp
  ultimately show ?thesis using run by (intro exI [of _ "?zs\<lparr>zs_offset := zs_offset ?zs + zs_n_bits ?zs\<rparr>"]) auto
next
  case False
  then obtain k where g: "k < 8" "in_group zs k" and e: "enc mb (zs_n_bits zs) (zs_maxcode zs) k ((c, F, clr) # tr) (rest_bytes zs)"
    using r unfolding reading_def by auto
  have m: "zs_maxbits zs = mb" "zs_maxmaxcode zs = 2 ^ mb" "zs_ebp zs \<le> ZBUFSIZ" using r by (simp_all add: reading_def)
  have "getcode_bits zs = Some c" using group_step(1) [OF g(2,1) e m, of F] by simp
  then have run: "getcode zs = Some (c, zs\<lparr>zs_offset := zs_offset zs + zs_n_bits zs\<rparr>)" using False by (simp add: getcode_def refill_def)
  have "reading mb tr (zs\<lparr>zs_offset := zs_offset zs + zs_n_bits zs, zs_free_ent := free, zs_clear_flg := clr\<rparr>)"
    if "\<not> clr \<longrightarrow> (free > zs_maxcode zs \<longleftrightarrow> F > zs_maxcode zs)" for free
    using group_step(2) [OF g(2,1) e m, of free] that by simp
  moreover have "input_moved zs (zs\<lparr>zs_offset := zs_offset zs + zs_n_bits zs\<rparr>)"
    using False by (simp add: input_moved_def refill_def)
  moreover have "511 \<le> zs_maxcode zs" using e by simp
  ultimately show ?thesis using run by (intro exI [of _ "zs\<lparr>zs_offset := zs_offset zs + zs_n_bits zs\<rparr>"]) auto
qed

text \<open>At the end there is no code.\<close>

lemma getcode_end:
  assumes r: "reading mb [] zs"
  shows "\<exists>zs'. getcode zs = Some (-1, zs')"
proof -
  have "refill zs"
  proof (rule ccontr)
    assume "\<not> refill zs"
    then obtain k where g: "in_group zs k" "9 \<le> zs_n_bits zs" "k < 8"
      and e: "length (rest_bytes zs) = (zs_n_bits zs * k + 7) div 8" and off: "int (zs_offset zs) < zs_size zs"
      using r unfolding reading_def refill_def by auto
    have "8 * int (length (rest_bytes zs)) \<le> int (zs_n_bits zs * k) + 7" unfolding e by linarith
    then show False using off g by (simp add: in_group_def)
  qed
  then have empty: "rest_bytes (zs\<lparr>zs_bp := zs_bp zs + zs_n_bits zs\<rparr>) = []" using r by (simp add: reading_def)
  then have "zs_ebp zs \<le> zs_bp zs + zs_n_bits zs" "zs_fd zs = []" by (auto simp: rest_bytes_def)
  then show ?thesis using \<open>refill zs\<close> by (auto simp: getcode_def refill_def Let_def getcode_grow_def getcode_fill_def)
qed

section \<open>The writer\<close>

text \<open>Output changes the buffer, the file and the width of the codes only.\<close>

definition output_moved :: "s_zstate \<Rightarrow> s_zstate \<Rightarrow> bool" where
  "output_moved zs zs' \<longleftrightarrow> \<not> zs_clear_flg zs' \<and> zs\<lparr>zs_fd := [], zs_n_bits := 0, zs_maxcode := 0, zs_clear_flg := False,
       zs_buf := (\<lambda>i. 0), zs_bp := 0, zs_offset := 0, zs_bytes_out := 0\<rparr> =
     zs'\<lparr>zs_fd := [], zs_n_bits := 0, zs_maxcode := 0, zs_clear_flg := False,
       zs_buf := (\<lambda>i. 0), zs_bp := 0, zs_offset := 0, zs_bytes_out := 0\<rparr>"

lemma output_moved_fields:
  assumes "output_moved zs zs'"
  shows "zs_htab zs' = zs_htab zs" "zs_codetab zs' = zs_codetab zs" "zs_hsize zs' = zs_hsize zs" "zs_free_ent zs' = zs_free_ent zs"
    "zs_maxbits zs' = zs_maxbits zs" "zs_maxmaxcode zs' = zs_maxmaxcode zs" "zs_block_compress zs' = zs_block_compress zs"
    "zs_ent zs' = zs_ent zs" "zs_hsize_reg zs' = zs_hsize_reg zs" "zs_hshift zs' = zs_hshift zs" "zs_fcode zs' = zs_fcode zs"
    "zs_in_count zs' = zs_in_count zs" "zs_checkpoint zs' = zs_checkpoint zs" "zs_ratio zs' = zs_ratio zs" "zs_state zs' = zs_state zs"
    "\<not> zs_clear_flg zs'"
  using assms by (cases zs, cases zs', simp add: output_moved_def)+

definition sent :: "s_zstate \<Rightarrow> u_char list" where
  "sent zs = zs_fd zs @ map (zs_buf zs) [0..<zs_bp zs]"

text \<open>
  Behind \<open>hdr\<close>, the file and the buffer hold the codes of \<open>tr\<close>: whatever codes follow, in bytes that begin with the bits of the
  unfinished group, the whole is a file of all the codes.
\<close>

definition writing :: "nat \<Rightarrow> u_char list \<Rightarrow> trace \<Rightarrow> s_zstate \<Rightarrow> bool" where
  "writing mb hdr tr zs \<longleftrightarrow> zs_maxbits zs = mb \<and> zs_maxmaxcode zs = 2 ^ mb \<and> 9 \<le> zs_n_bits zs \<and> zs_n_bits zs \<le> 16 \<and> 511 \<le> zs_maxcode zs
     \<and> zs_bp zs + zs_n_bits zs \<le> ZBUFSIZ \<and> (\<exists>k W. k < 8 \<and> zs_offset zs = zs_n_bits zs * k \<and> sent zs = hdr @ W
       \<and> (\<forall>tr' Z. (\<forall>q < zs_offset zs. bit_in (nth Z) q = bit_in (zs_buf zs) (8 * zs_bp zs + q))
            \<longrightarrow> enc mb (zs_n_bits zs) (zs_maxcode zs) k tr' Z \<longrightarrow> enc mb INIT_BITS (MAXCODE INIT_BITS) 0 (tr @ tr') (W @ Z)))"

lemma enc_length: "enc mb n mc k tr bs \<Longrightarrow> n * k \<le> 8 * length bs"
  by (cases tr) auto

text \<open>The state behind the code, before the buffer is written.\<close>

lemma writing_group:
  fixes c :: int and zs :: s_zstate
  defines "n \<equiv> zs_n_bits zs" and "B \<equiv> put_code (zs_buf zs) (zs_n_bits zs) (8 * zs_bp zs + zs_offset zs) c"
  assumes w: "writing mb hdr tr zs" and c: "0 \<le> c" "c < 2 ^ n" and F: "F > zs_maxcode zs \<or> clr \<or> zs_offset zs = n * 7"
    and w': "(n', mc') = (if F > zs_maxcode zs \<or> clr then next_width mb clr n else (n, zs_maxcode zs))"
  obtains W where "zs_fd zs @ map B [0..<zs_bp zs + n] = hdr @ W"
    "\<And>tr' Z. enc mb n' mc' 0 tr' Z \<Longrightarrow> enc mb INIT_BITS (MAXCODE INIT_BITS) 0 (tr @ (c, F, clr) # tr') (W @ Z)"
proof -
  obtain k W where k: "k < 8" "zs_offset zs = n * k" and W: "sent zs = hdr @ W" and n: "9 \<le> n" "n \<le> 16" "511 \<le> zs_maxcode zs"
    and cont: "\<And>tr' Z. (\<forall>q < n * k. bit_in (nth Z) q = bit_in (zs_buf zs) (8 * zs_bp zs + q)) \<Longrightarrow>
        enc mb n (zs_maxcode zs) k tr' Z \<Longrightarrow> enc mb INIT_BITS (MAXCODE INIT_BITS) 0 (tr @ tr') (W @ Z)"
    using w unfolding writing_def n_def by metis
  define G where "G = map B [zs_bp zs..<zs_bp zs + n]"
  have front: "map B [0..<zs_bp zs] = map (zs_buf zs) [0..<zs_bp zs]" by (simp add: B_def put_code_outside)
  have "zs_fd zs @ map B [0..<zs_bp zs + n] = zs_fd zs @ map B [0..<zs_bp zs] @ G"
    unfolding G_def map_append [symmetric] using upt_add_eq_append [of 0 "zs_bp zs" n] by simp
  then have "zs_fd zs @ map B [0..<zs_bp zs + n] = hdr @ W @ G" using W by (simp add: front sent_def)
  moreover have "enc mb INIT_BITS (MAXCODE INIT_BITS) 0 (tr @ (c, F, clr) # tr') ((W @ G) @ Z)" if Z: "enc mb n' mc' 0 tr' Z" for tr' Z
  proof -
    have "k \<le> 7" using k by simp
    then have "n * (k + 1) \<le> n * 8" by (intro mult_le_mono2) simp
    then have fits: "n * k + n \<le> n * 8" by simp
    have bits: "bit_in (nth (G @ Z)) q = bit_in B (8 * zs_bp zs + q)" if "q < n * k + n" for q
    proof -
      have "q < n * 8" using that fits by linarith
      then have "q div 8 < n" by (rule less_mult_imp_div_less)
      then show ?thesis by (simp add: bit_in_def G_def nth_append)
    qed
    have old: "\<forall>q < n * k. bit_in (nth (G @ Z)) q = bit_in (zs_buf zs) (8 * zs_bp zs + q)"
      using bits by (simp add: B_def put_code_old k)
    have "bits_at (nth (G @ Z)) n (n * k) c"
    proof -
      have "bit_in (nth (G @ Z)) (n * k + t) = bit c t" if "t < n" for t
        using bits [of "n * k + t"] put_code_new [OF that n(2), of "zs_buf zs" "8 * zs_bp zs + n * k" c] that
        by (simp add: B_def k(2) add.assoc flip: n_def)
      then show ?thesis by (simp add: bits_at_def)
    qed
    moreover have "n \<le> length (G @ Z)" "drop n (G @ Z) = Z" by (simp_all add: G_def)
    moreover from this fits have "n * (k + 1) \<le> 8 * length (G @ Z)" unfolding distrib_left by linarith
    moreover have "k = 7" if "\<not> (F > zs_maxcode zs \<or> clr)" using F that k(2) n by auto
    ultimately have "enc mb n (zs_maxcode zs) k ((c, F, clr) # tr') (G @ Z)"
      using n c Z w' by (cases "F > zs_maxcode zs \<or> clr") (auto simp: prod_eq_iff)
    then have "enc mb INIT_BITS (MAXCODE INIT_BITS) 0 (tr @ (c, F, clr) # tr') (W @ G @ Z)" by (rule cont [OF old])
    then show ?thesis by simp
  qed
  ultimately show thesis using that by blast
qed

text \<open>A buffer that could not take another group is written.\<close>

lemma flush_sent: "sent (output_flush zs) = sent zs" "zs_n_bits zs \<le> ZBUFSIZ \<Longrightarrow> zs_bp (output_flush zs) + zs_n_bits (output_flush zs) \<le> ZBUFSIZ"
  "zs_n_bits (output_flush zs) = zs_n_bits zs" "zs_maxcode (output_flush zs) = zs_maxcode zs" "zs_offset (output_flush zs) = zs_offset zs"
  by (auto simp: output_flush_def write_buf_def sent_def)

lemma flush_moved: "output_moved z zs \<Longrightarrow> output_moved z (output_flush zs)"
  by (simp add: output_moved_def output_flush_def write_buf_def)

lemma z_output_code:
  assumes w: "writing mb hdr tr zs" and c: "0 \<le> c" "c < 2 ^ zs_n_bits zs"
    and brk: "brk \<longleftrightarrow> zs_free_ent zs > zs_maxcode zs \<or> zs_clear_flg zs"
    and w': "(n', mc') = (if brk then next_width mb (zs_clear_flg zs) (zs_n_bits zs) else (zs_n_bits zs, zs_maxcode zs))" "n' \<le> 16"
  obtains zs' where "z_output zs c = Some zs'" "output_moved zs zs'" "zs_n_bits zs' = n'" "zs_maxcode zs' = mc'"
    "writing mb hdr (tr @ [(c, zs_free_ent zs, zs_clear_flg zs)]) zs'"
proof -
  define n F clr where "n = zs_n_bits zs" and "F = zs_free_ent zs" and "clr = zs_clear_flg zs"
  define B where "B = put_code (zs_buf zs) n (8 * zs_bp zs + zs_offset zs) c"
  obtain k W where k: "k < 8" "zs_offset zs = n * k" and W: "sent zs = hdr @ W" and n: "9 \<le> n" "n \<le> 16" "511 \<le> zs_maxcode zs" and room: "zs_bp zs + n \<le> ZBUFSIZ"
    and m: "zs_maxbits zs = mb" "zs_maxmaxcode zs = 2 ^ mb"
    and cont: "\<And>tr' Z. (\<forall>q < n * k. bit_in (nth Z) q = bit_in (zs_buf zs) (8 * zs_bp zs + q)) \<Longrightarrow>
        enc mb n (zs_maxcode zs) k tr' Z \<Longrightarrow> enc mb INIT_BITS (MAXCODE INIT_BITS) 0 (tr @ tr') (W @ Z)"
    using w unfolding writing_def n_def by metis
  have n'9: "9 \<le> n'" using w'(1) n by (auto simp: next_width_def n_def split: if_splits)
  have "(511 :: int) \<le> 2 ^ j - 1" if "9 \<le> j" for j :: nat using power_increasing [OF that, of "2 :: int"] by simp
  then have mc': "511 \<le> mc'" using w'(1) n by (force simp: next_width_def n_def MAXCODE_def split: if_splits)
  have bits: "output_bits c zs = Some (zs\<lparr>zs_buf := B\<rparr>)"
    unfolding B_def n_def using output_bits_put [of zs k c] n k room by (simp add: n_def)
  let ?last = "zs\<lparr>zs_buf := B, zs_bp := zs_bp zs + n, zs_offset := 0, zs_n_bits := n', zs_maxcode := mc', zs_clear_flg := False\<rparr>"
  let ?zs = "output_grow (output_advance (zs\<lparr>zs_buf := B\<rparr>))"
  have run: "z_output zs c = Some (output_flush ?zs)" using bits c by (simp add: z_output_def)
  show thesis
  proof (cases "brk \<or> k = 7")
    case True
    have group: "?zs = ?last"
    proof (cases brk)
      case True
      then show ?thesis using w'(1) brk k m n
        by (auto simp: output_grow_def output_advance_def Let_def next_width_def n_def split: if_splits)
    next
      case False
      then show ?thesis using w'(1) brk k m n True by (simp add: output_grow_def output_advance_def Let_def n_def)
    qed
    have "F > zs_maxcode zs \<or> clr \<or> zs_offset zs = n * 7" using True brk k by (auto simp: F_def clr_def)
    moreover have "(n', mc') = (if F > zs_maxcode zs \<or> clr then next_width mb clr n else (n, zs_maxcode zs))"
      using w'(1) brk by (simp add: F_def clr_def n_def)
    ultimately obtain V where V: "zs_fd zs @ map B [0..<zs_bp zs + n] = hdr @ V"
      "\<And>tr' Z. enc mb n' mc' 0 tr' Z \<Longrightarrow> enc mb INIT_BITS (MAXCODE INIT_BITS) 0 (tr @ (c, F, clr) # tr') (V @ Z)"
      using writing_group [OF w c, of F clr n' mc'] unfolding n_def B_def by metis
    have "sent (output_flush ?last) = hdr @ V" using V(1) by (simp add: flush_sent) (simp add: sent_def)
    moreover have "zs_maxbits (output_flush ?last) = mb" "zs_maxmaxcode (output_flush ?last) = 2 ^ mb" using m by (simp_all add: output_flush_def write_buf_def)
    moreover have "zs_bp (output_flush ?last) + zs_n_bits (output_flush ?last) \<le> ZBUFSIZ" by (rule flush_sent) (use w'(2) in simp)
    ultimately have "writing mb hdr (tr @ [(c, F, clr)]) (output_flush ?last)"
      unfolding writing_def using V(2) n'9 mc' w'(2) by (intro conjI exI [of _ 0] exI [of _ V]) (simp_all add: flush_sent)
    moreover have "output_moved zs (output_flush ?last)" by (rule flush_moved) (simp add: output_moved_def)
    ultimately show thesis using that run group by (simp add: flush_sent F_def clr_def)
  next
    case False
    let ?z = "zs\<lparr>zs_buf := B, zs_offset := n * (k + 1), zs_clear_flg := False\<rparr>"
    have nw: "n' = n" "mc' = zs_maxcode zs" and clr: "\<not> clr" "\<not> F > zs_maxcode zs" using False w'(1) brk by (simp_all add: n_def clr_def F_def)
    have "n * (k + 1) \<noteq> n * 8" using False n by simp
    then have z: "?zs = ?z" using False brk k by (simp add: output_grow_def output_advance_def Let_def n_def)
    have flush: "output_flush ?z = ?z" using room by (simp add: output_flush_def n_def)
    have front: "map B [0..<zs_bp zs] = map (zs_buf zs) [0..<zs_bp zs]" by (simp add: B_def put_code_outside)
    have "sent ?z = zs_fd zs @ map B [0..<zs_bp zs]" by (simp add: sent_def)
    then have "sent ?z = hdr @ W" using W unfolding front sent_def by simp
    moreover have "enc mb INIT_BITS (MAXCODE INIT_BITS) 0 (tr @ (c, F, clr) # tr') (W @ Z)"
      if Z: "\<forall>q < n * (k + 1). bit_in (nth Z) q = bit_in B (8 * zs_bp zs + q)" and e: "enc mb n (zs_maxcode zs) (k + 1) tr' Z" for tr' Z
    proof (rule cont)
      show "\<forall>q < n * k. bit_in (nth Z) q = bit_in (zs_buf zs) (8 * zs_bp zs + q)" using Z by (simp add: B_def put_code_old k)
      have "bits_at (nth Z) n (n * k) c"
        using Z put_code_new [of _ n "zs_buf zs" "8 * zs_bp zs + n * k" c] n by (simp add: bits_at_def B_def k(2) add.assoc)
      then show "enc mb n (zs_maxcode zs) k ((c, F, clr) # tr') Z"
        using n c clr False e enc_length [OF e] by (simp add: n_def)
    qed
    ultimately have "writing mb hdr (tr @ [(c, F, clr)]) ?z"
      using m n room k False unfolding writing_def by (intro conjI exI [of _ "k + 1"] exI [of _ W]) (simp_all add: n_def)
    moreover have "output_moved zs ?z" by (simp add: output_moved_def)
    ultimately show thesis using that [of ?z] run z flush nw by (simp add: F_def clr_def n_def)
  qed
qed

lemma z_output_end:
  assumes w: "writing mb hdr tr zs"
  obtains zs' W where "z_output zs (-1) = Some zs'" "zs_fd zs' = hdr @ W" "enc mb INIT_BITS (MAXCODE INIT_BITS) 0 tr W"
proof -
  define n where "n = zs_n_bits zs"
  obtain k W where k: "k < 8" "zs_offset zs = n * k" and W: "sent zs = hdr @ W"
    and cont: "\<And>tr' Z. (\<forall>q < n * k. bit_in (nth Z) q = bit_in (zs_buf zs) (8 * zs_bp zs + q)) \<Longrightarrow>
        enc mb n (zs_maxcode zs) k tr' Z \<Longrightarrow> enc mb INIT_BITS (MAXCODE INIT_BITS) 0 (tr @ tr') (W @ Z)"
    using w unfolding writing_def n_def by metis
  define l where "l = (n * k + 7) div 8"
  let ?Z = "map (zs_buf zs) [zs_bp zs..<zs_bp zs + l]"
  have "\<forall>q < n * k. bit_in (nth ?Z) q = bit_in (zs_buf zs) (8 * zs_bp zs + q)"
  proof (intro allI impI)
    fix q assume "q < n * k"
    then have "q div 8 < l" unfolding l_def by (simp add: div_less_iff_less_mult) 
    then show "bit_in (nth ?Z) q = bit_in (zs_buf zs) (8 * zs_bp zs + q)" by (simp add: bit_in_def)
  qed
  then have "enc mb INIT_BITS (MAXCODE INIT_BITS) 0 tr (W @ ?Z)" using cont [of ?Z "[]"] by (simp add: l_def)
  moreover have "zs_fd (output_end zs) = hdr @ W @ ?Z"
  proof -
    have "map (zs_buf zs) [0..<zs_bp zs] @ ?Z = map (zs_buf zs) [0..<zs_bp zs + l]"
      unfolding map_append [symmetric] using upt_add_eq_append [of 0 "zs_bp zs" l] by simp
    moreover have "zs_fd (output_end zs) = zs_fd zs @ map (zs_buf zs) [0..<zs_bp zs + l]"
      by (auto simp: output_end_def Let_def write_buf_def l_def k(2))
    ultimately show ?thesis using W unfolding sent_def by (metis append.assoc)
  qed
  ultimately show thesis using that [of "output_end zs" "W @ ?Z"] by (simp add: z_output_def)
qed

end
