(* ===== verification/ZopenWrite.thy ===== *)
theory ZopenWrite
  imports ZopenCodes
begin

text \<open>
  The dictionary: a reference decoder with a table of strings, and the proof that what the compressor writes is a file of codes from
  which the reference decoder gets the input back. Of the hash table it needs that its entries are right and that the search ends.
\<close>

unbundle bit_operations_syntax

section \<open>The reference decoder\<close>

type_synonym table = "u_char list list"

definition known :: "table \<Rightarrow> int \<Rightarrow> bool" where
  "known T c \<longleftrightarrow> 0 \<le> c \<and> c < 256 \<or> FIRST \<le> c \<and> c < FIRST + int (length T)"

definition str :: "table \<Rightarrow> int \<Rightarrow> u_char list" where
  "str T c = (if c < 256 then [word_of_int c] else T ! nat (c - FIRST))"

definition next_table :: "int \<Rightarrow> table \<Rightarrow> u_char list \<Rightarrow> u_char list \<Rightarrow> table" where
  "next_table M T w s = (if FIRST + int (length T) < M then T @ [w @ [hd s]] else T)"

text \<open>
  The state is the table and the string of the last code, or \<open>None\<close> at the start and behind a \<open>CLEAR\<close>. The numbers and flags of the
  trace are checked: they are what the decoder's own table says.
\<close>

fun dec :: "int \<Rightarrow> (table \<times> u_char list) option \<Rightarrow> trace \<Rightarrow> u_char list option" where
  "dec M D [] = Some []"
| "dec M None ((c, F, clr) # tr) = (
     if 0 \<le> c \<and> c < 256 \<and> \<not> clr \<and> F = FIRST then map_option ((@) [word_of_int c]) (dec M (Some ([], [word_of_int c])) tr) else None)"
| "dec M (Some (T, w)) ((c, F, clr) # tr) = (
     if c = CLEAR then (if clr then dec M None tr else None)
     else if \<not> clr \<and> (known T c \<or> c = FIRST + int (length T) \<and> c < M) then
       (let s = (if known T c then str T c else w @ [hd w]); T' = next_table M T w s
        in if F = FIRST + int (length T') then map_option ((@) s) (dec M (Some (T', s)) tr) else None)
     else None)"

section \<open>The hash table\<close>

lemma cl_loop_clear: "16 \<le> p \<Longrightarrow> cl_loop p (p - 16) h = (\<lambda>j. if 0 \<le> j \<and> j < p then -1 else h j)"
proof (induction "nat p" arbitrary: p h rule: less_induct)
  case less
  let ?h = "clear_range p 16 h"
  show ?case
  proof (cases "p - 32 \<ge> 0")
    case True
    have "cl_loop (p - 16) (p - 16 - 16) ?h = (\<lambda>j. if 0 \<le> j \<and> j < p - 16 then -1 else ?h j)"
      using less.hyps [of "p - 16" ?h] True by simp
    then have "cl_loop p (p - 16) h = (\<lambda>j. if 0 \<le> j \<and> j < p - 16 then -1 else ?h j)"
      using True by (subst cl_loop.simps) (simp add: Let_def)
    then show ?thesis using True by (auto simp: fun_eq_iff)
  next
    case False
    then have "cl_loop p (p - 16) h = clear_range (p - 16) (p - 16) ?h" by (subst cl_loop.simps) (simp add: Let_def)
    then show ?thesis using less.prems by auto
  qed
qed

lemma no_small_divisor: "\<forall>x \<in> {2..262::int}. 69001 mod x \<noteq> 0"
proof -
  have "\<forall>x \<in> set [2..262::int]. 69001 mod x \<noteq> 0" by code_simp
  then show ?thesis unfolding set_upto .
qed

lemma gcd_hsize:
  assumes "0 < d" "d < 69001"
  shows "gcd d 69001 = (1 :: int)"
proof (rule ccontr)
  define g where "g = gcd d 69001"
  assume "gcd d 69001 \<noteq> 1"
  then have "g \<noteq> 1" by (simp add: g_def)
  moreover have "0 < g" by (simp add: g_def)
  moreover have "g \<le> d" using assms unfolding g_def by (intro gcd_le1_int)
  ultimately have g: "1 < g" "g < 69001" using assms by linarith+
  obtain h where h: "69001 = g * h" unfolding g_def by (metis dvd_def gcd_dvd2)
  have "1 < h"
  proof (rule ccontr)
    assume "\<not> 1 < h"
    then have "g * h \<le> g * 1" using g by (intro mult_left_mono) simp_all
    then show False using h g by linarith
  qed
  have "g \<le> 262 \<or> h \<le> 262"
  proof (rule ccontr)
    assume "\<not> (g \<le> 262 \<or> h \<le> 262)"
    then have "263 * 263 \<le> g * h" by (intro mult_mono) simp_all
    then show False using h by simp
  qed
  moreover have "g dvd 69001" by (rule dvdI [OF h])
  moreover have "h dvd 69001" by (rule dvdI [OF trans [OF h mult.commute]])
  moreover have "\<not> x dvd 69001" if "1 < x" "x \<le> 262" for x :: int
  proof -
    have "x \<in> {2..262}" using that by simp
    then have "69001 mod x \<noteq> 0" by (rule bspec [OF no_small_divisor])
    then show ?thesis by (simp only: dvd_eq_mod_eq_0 not_False_eq_True)
  qed
  ultimately show False using g(1) \<open>1 < h\<close> by blast
qed

text \<open>The search meets every slot.\<close>

lemma probe_reaches:
  assumes d: "0 < d" "d < 69001" and j: "0 \<le> j" "j < 69001"
  shows "\<exists>k. (i - int (Suc k) * d) mod 69001 = j"
proof -
  obtain u v where "u * d + v * 69001 = 1" using bezout_int [of d 69001] gcd_hsize [OF d] by auto
  then have "u * d = 1 - v * 69001" by simp
  define x where "x = ((i - j) * u - 1) mod 69001"
  have x: "0 \<le> x" by (simp add: x_def)
  have "(i - (x + 1) * d) mod 69001 = (i - ((i - j) * u) * d) mod 69001"
    unfolding x_def by (metis (no_types, lifting) diff_add_cancel mod_add_left_eq mod_diff_right_eq mod_mult_left_eq)
  also have "((i - j) * u) * d = (i - j) - (i - j) * v * 69001" using \<open>u * d = _\<close> by (simp add: mult.assoc right_diff_distrib)
  also have "(i - ((i - j) - (i - j) * v * 69001)) mod 69001 = (j + ((i - j) * v) * 69001) mod 69001" by (rule arg_cong [of _ _ "\<lambda>x. x mod 69001"]) simp
  also have "\<dots> = j" using j by simp
  finally show ?thesis using x by (intro exI [of _ "nat x"]) (simp add: add.commute)
qed

lemma probe_step:
  fixes i d :: int
  assumes "0 \<le> i" "i < 69001" "0 < d" "d < 69001"
  shows "(if i - d < 0 then i - d + 69001 else i - d) = (i - d) mod 69001"
proof (cases "i < d")
  case True
  then have "(i - d + 69001) mod 69001 = i - d + 69001" using assms by (intro mod_pos_pos_trivial) simp_all
  then show ?thesis using True by simp
next
  case False
  then show ?thesis using assms by (simp add: mod_pos_pos_trivial)
qed

lemma probe_unfold:
  assumes "zs_hsize_reg zs = 69001" "0 < d" "d < 69001" "0 \<le> i" "i < 69001"
  shows "probe zs d i = (let s = (i - d) mod 69001 in if zs_htab zs s = zs_fcode zs \<or> zs_htab zs s < 0 then Some s else probe zs d s)"
proof -
  define s where "s = (i - d) mod 69001"
  have "0 \<le> s" "s < 69001" by (simp_all add: s_def)
  moreover have "(if i - d < 0 then i - d + 69001 else i - d) = s" using probe_step assms by (simp add: s_def)
  ultimately show ?thesis by (subst probe.simps) (simp only: assms(1) Let_def htabof_def flip: s_def; simp)
qed

lemma probe_returns:
  assumes "zs_hsize_reg zs = 69001" "0 < d" "d < 69001" "0 \<le> i" "i < 69001" "zs_htab zs ((i - int (Suc k) * d) mod 69001) < 0"
  shows "\<exists>s. probe zs d i = Some s \<and> 0 \<le> s \<and> s < 69001 \<and> (zs_htab zs s = zs_fcode zs \<or> zs_htab zs s < 0)"
  using assms(4-6)
proof (induction k arbitrary: i)
  case 0
  define s where "s = (i - d) mod 69001"
  have "probe zs d i = Some s" using 0 by (simp add: probe_unfold [OF assms(1-3)] Let_def flip: s_def)
  then show ?case using 0 by (simp add: s_def)
next
  case (Suc k)
  define s where "s = (i - d) mod 69001"
  have s: "0 \<le> s" "s < 69001" by (simp_all add: s_def)
  have "(s - int (Suc k) * d) mod 69001 = (i - int (Suc (Suc k)) * d) mod 69001"
    unfolding s_def by (simp add: mod_diff_left_eq algebra_simps)
  then have "\<exists>t. probe zs d s = Some t \<and> 0 \<le> t \<and> t < 69001 \<and> (zs_htab zs t = zs_fcode zs \<or> zs_htab zs t < 0)"
    using Suc s by simp
  then show ?case using Suc.prems s by (simp add: probe_unfold [OF assms(1-3)] Let_def flip: s_def)
qed

definition occupied :: "s_zstate \<Rightarrow> int set" where
  "occupied zs = {i. 0 \<le> i \<and> i < 69001 \<and> 0 \<le> zs_htab zs i}"

lemma occupied_finite [simp]: "finite (occupied zs)"
  by (rule finite_subset [of _ "{0..<69001}"]) (auto simp: occupied_def)

lemma find_slot_returns:
  assumes "zs_hsize_reg zs = 69001" "0 \<le> i" "i < 69001" "card (occupied zs) < 69001"
  shows "\<exists>s. find_slot zs i = Some s \<and> 0 \<le> s \<and> s < 69001 \<and> (zs_htab zs s = zs_fcode zs \<or> zs_htab zs s < 0)"
proof (cases "zs_htab zs i = zs_fcode zs \<or> zs_htab zs i < 0")
  case True
  then show ?thesis using assms by (simp add: find_slot_def htabof_def)
next
  case False
  define d where "d = (if i = 0 then 1 else 69001 - i)"
  have d: "0 < d" "d < 69001" using assms by (auto simp: d_def)
  have "\<exists>j. 0 \<le> j \<and> j < 69001 \<and> zs_htab zs j < 0"
  proof (rule ccontr)
    assume "\<nexists>j. 0 \<le> j \<and> j < 69001 \<and> zs_htab zs j < 0"
    then have "occupied zs = {0..<69001}" by (auto simp: occupied_def not_less)
    then show False using assms(4) by simp
  qed
  then obtain j where j: "0 \<le> j" "j < 69001" "zs_htab zs j < 0" by blast
  obtain k where "(i - int (Suc k) * d) mod 69001 = j" using probe_reaches [OF d j(1,2)] by blast
  then have "zs_htab zs ((i - int (Suc k) * d) mod 69001) < 0" using j(3) by simp
  moreover have "find_slot zs i = probe zs d i" using False assms by (simp add: find_slot_def htabof_def d_def)
  ultimately show ?thesis using probe_returns [OF assms(1) d assms(2,3)] by simp
qed

section \<open>Widths\<close>

definition width_ok :: "nat \<Rightarrow> nat \<Rightarrow> int \<Rightarrow> int \<Rightarrow> bool" where
  "width_ok mb n mc F \<longleftrightarrow> mb \<le> 16 \<and> F \<le> mc + 1 \<and> F \<le> max FIRST (2 ^ mb)
     \<and> (mc = 2 ^ n - 1 \<and> (n = 9 \<or> 9 < n \<and> n < mb \<or> n = 10 \<and> mb = 9) \<or> n = mb \<and> 10 \<le> n \<and> mc = 2 ^ mb)"

lemma MAXCODE_power: "MAXCODE n = 2 ^ n - 1"
  by (simp add: MAXCODE_def)

lemma width_bits: "width_ok mb n mc F \<Longrightarrow> 9 \<le> n \<and> n \<le> 16"
  by (auto simp: width_ok_def)

lemma width_code:
  assumes "width_ok mb n mc F" "c < F" "c < max FIRST (2 ^ mb)"
  shows "c < 2 ^ n"
proof (cases "n = mb \<and> 10 \<le> n")
  case True
  then have "(257 :: int) \<le> 2 ^ mb" using power_increasing [of 10 mb "2 :: int"] by simp
  then show ?thesis using True assms(3) by simp
next
  case False
  then show ?thesis using assms by (auto simp: width_ok_def)
qed

lemma width_start: "mb \<le> 16 \<Longrightarrow> width_ok mb INIT_BITS (MAXCODE INIT_BITS) FIRST"
  by (simp add: width_ok_def MAXCODE_power)

lemma width_grow:
  assumes "width_ok mb n mc F" "(n', mc') = (if F > mc then next_width mb False n else (n, mc))"
  shows "n' \<le> 16" "width_ok mb n' mc' F" "F < max FIRST (2 ^ mb) \<Longrightarrow> width_ok mb n' mc' (F + 1)" "F \<le> mc'"
proof -
  have "width_ok mb n' mc' F \<and> F \<le> mc'"
  proof (cases "F > mc")
    case False
    then show ?thesis using assms by simp
  next
    case True
    show ?thesis
    proof (cases "n = mb \<and> 10 \<le> n \<and> mc = 2 ^ mb")
      case full: True
      then have "(257 :: int) \<le> 2 ^ mb" using power_increasing [of 10 mb "2 :: int"] by simp
      then show ?thesis using full True assms(1) by (simp add: width_ok_def)
    next
      case False
      then have mc: "mc = 2 ^ n - 1" "n = 9 \<or> 9 < n \<and> n < mb \<or> n = 10 \<and> mb = 9" using assms(1) by (auto simp: width_ok_def)
      then have F: "F = 2 ^ n" using assms(1) True by (auto simp: width_ok_def)
      have "(512 :: int) \<le> 2 ^ n" using mc(2) power_increasing [of 9 n "2 :: int"] by auto
      moreover have "F \<le> max FIRST (2 ^ mb)" using assms(1) by (simp add: width_ok_def)
      ultimately have "(2 :: int) ^ n \<le> 2 ^ mb" unfolding F by linarith
      then have "n \<le> mb" by simp
      then show ?thesis using assms mc F True by (auto simp: width_ok_def next_width_def MAXCODE_power)
    qed
  qed
  then show "width_ok mb n' mc' F" "n' \<le> 16" "F < max FIRST (2 ^ mb) \<Longrightarrow> width_ok mb n' mc' (F + 1)" "F \<le> mc'"
    by (auto dest: width_bits) (auto simp: width_ok_def)
qed

section \<open>Strings\<close>

lemma str_byte [simp]: "c < 256 \<Longrightarrow> str T c = [word_of_int c]"
  by (simp add: str_def)

lemma str_append: "known T c \<Longrightarrow> str (T @ U) c = str T c" "known T c \<Longrightarrow> known (T @ U) c"
  by (auto simp: str_def known_def nth_append)

lemma str_last: "str (T @ [s]) (FIRST + int (length T)) = s" "known (T @ [s]) (FIRST + int (length T))"
  by (simp_all add: str_def known_def nth_append)

lemma str_nonempty: "\<forall>s \<in> set T. s \<noteq> [] \<Longrightarrow> known T c \<Longrightarrow> str T c \<noteq> []"
  by (auto simp: str_def known_def)

text \<open>The writer's table \<open>T\<close> is one entry ahead of the decoder's.\<close>

definition dec_state :: "int \<Rightarrow> table \<Rightarrow> int \<Rightarrow> (table \<times> u_char list) option \<Rightarrow> bool" where
  "dec_state M T ent D \<longleftrightarrow> (case D of None \<Rightarrow> T = [] \<and> ent < 256 | Some (T0, w) \<Rightarrow> w \<noteq> [] \<and> T = next_table M T0 w (str T ent))"

lemma dec_emit:
  assumes "dec_state M T ent D" "known T ent" "\<forall>s \<in> set T. s \<noteq> []"
  shows "dec M D ((ent, FIRST + int (length T), False) # tr) = map_option ((@) (str T ent)) (dec M (Some (T, str T ent)) tr)"
proof (cases D)
  case None
  then show ?thesis using assms by (simp add: dec_state_def known_def)
next
  case (Some Tw)
  obtain T0 w where D: "D = Some (T0, w)" using Some by (cases Tw) simp
  then have w: "w \<noteq> []" and T: "T = next_table M T0 w (str T ent)" using assms(1) by (simp_all add: dec_state_def)
  have ent: "ent \<noteq> CLEAR" using assms(2) by (auto simp: known_def)
  show ?thesis
  proof (cases "known T0 ent")
    case True
    then have "str T0 ent = str T ent" using str_append(1) [OF True] by (subst T) (simp add: next_table_def)
    then show ?thesis using D ent True T by (simp add: Let_def)
  next
    case False
    then have full: "FIRST + int (length T0) < M" and T1: "T = T0 @ [w @ [hd (str T ent)]]"
      using assms(2) T by (auto simp: next_table_def split: if_splits)
    then have "length T = length T0 + 1" by (metis length_append_singleton Suc_eq_plus1)
    then have e: "ent = FIRST + int (length T0)" using False assms(2) by (auto simp: known_def)
    have s: "str T ent = w @ [hd (str T ent)]" by (subst T1) (simp only: e str_last)
    then have "hd (str T ent) = hd w" using w by (metis hd_append2)
    then have "str T ent = w @ [hd w]" using s by simp
    then show ?thesis using D ent False T e full by (simp add: Let_def)
  qed
qed

lemma dec_state_next:
  assumes "s \<noteq> []" "T' = next_table M T s [c]" "0 \<le> e" "e < 256" "word_of_int e = c"
  shows "dec_state M T' e (Some (T, s))"
  using assms by (simp add: dec_state_def)

section \<open>The state of the compressor\<close>

definition table_ok :: "nat \<Rightarrow> table \<Rightarrow> s_zstate \<Rightarrow> bool" where
  "table_ok mb T zs \<longleftrightarrow> zs_hsize zs = 69001 \<and> zs_hsize_reg zs = 69001 \<and> zs_hshift zs = 8 \<and> zs_free_ent zs = FIRST + int (length T)
     \<and> (\<forall>s \<in> set T. s \<noteq> []) \<and> (T = [] \<or> FIRST + int (length T) \<le> 2 ^ mb) \<and> card (occupied zs) \<le> length T
     \<and> (\<forall>i. 0 \<le> i \<longrightarrow> i < 69001 \<longrightarrow> 0 \<le> zs_htab zs i \<longrightarrow> (\<exists>b e. zs_htab zs i = b * 2 ^ mb + e \<and> known T e
          \<and> FIRST \<le> zs_codetab zs i \<and> known T (zs_codetab zs i) \<and> str T (zs_codetab zs i) = str T e @ [word_of_int b]))"

text \<open>The bytes \<open>I\<close> have been compressed: what has been written decodes to all but the string of \<open>zs_ent\<close>.\<close>

definition writer :: "nat \<Rightarrow> u_char list \<Rightarrow> u_char list \<Rightarrow> s_zstate \<Rightarrow> bool" where
  "writer mb hdr I zs \<longleftrightarrow> zs_state zs = S_MIDDLE \<and> \<not> zs_clear_flg zs \<and> (\<exists>X D T tr. writing mb hdr tr zs \<and> table_ok mb T zs
     \<and> width_ok mb (zs_n_bits zs) (zs_maxcode zs) (zs_free_ent zs) \<and> known T (zs_ent zs) \<and> dec_state (2 ^ mb) T (zs_ent zs) D
     \<and> I = X @ str T (zs_ent zs) \<and> (\<forall>tr'. dec (2 ^ mb) None (tr @ tr') = map_option ((@) X) (dec (2 ^ mb) D tr')))"

lemma writing_cong:
  assumes "zs_maxbits zs' = zs_maxbits zs" "zs_maxmaxcode zs' = zs_maxmaxcode zs" "zs_n_bits zs' = zs_n_bits zs" "zs_maxcode zs' = zs_maxcode zs"
    "zs_bp zs' = zs_bp zs" "zs_offset zs' = zs_offset zs" "zs_fd zs' = zs_fd zs" "zs_buf zs' = zs_buf zs"
  shows "writing mb hdr tr zs' \<longleftrightarrow> writing mb hdr tr zs"
  using assms by (simp add: writing_def sent_def)

lemma table_ok_cong:
  assumes "zs_hsize zs' = zs_hsize zs" "zs_hsize_reg zs' = zs_hsize_reg zs" "zs_hshift zs' = zs_hshift zs" "zs_free_ent zs' = zs_free_ent zs"
    "zs_htab zs' = zs_htab zs" "zs_codetab zs' = zs_codetab zs"
  shows "table_ok mb T zs' \<longleftrightarrow> table_ok mb T zs"
  using assms by (simp add: table_ok_def occupied_def)

lemma table_bounds:
  assumes "table_ok mb T zs" "mb \<le> 16" "known T c"
  shows "0 \<le> c" "c < 65536" "FIRST \<le> c \<Longrightarrow> c < 2 ^ mb" "c < FIRST + int (length T)" "c < max FIRST (2 ^ mb)"
    "card (occupied zs) < 69001" "T \<noteq> [] \<Longrightarrow> c < 2 ^ mb"
proof -
  have "(2 :: int) ^ mb \<le> 2 ^ 16" using assms(2) by (intro power_increasing) simp_all
  then have M: "(2 :: int) ^ mb \<le> 65536" by simp
  show "0 \<le> c" "c < 65536" "FIRST \<le> c \<Longrightarrow> c < 2 ^ mb" "c < FIRST + int (length T)" "c < max FIRST (2 ^ mb)" "T \<noteq> [] \<Longrightarrow> c < 2 ^ mb"
    using assms(1,3) M by (auto simp: table_ok_def known_def)
  have "length T < 69001" using assms(1) M by (auto simp: table_ok_def)
  then show "card (occupied zs) < 69001" using assms(1) by (simp add: table_ok_def)
qed

lemma xor_hash: "0 \<le> e \<Longrightarrow> e < 65536 \<Longrightarrow> 0 \<le> push_bit 8 (uint (c :: u_char)) XOR e \<and> push_bit 8 (uint c) XOR e < 65536"
proof -
  assume e: "0 \<le> e" "e < 65536"
  have "uint c < 256" using uint_lt2p [of c] by simp
  then have c: "0 \<le> push_bit 8 (uint c)" "push_bit 8 (uint c) < 2 ^ 16" by (simp_all add: push_bit_eq_mult)
  show ?thesis using XOR_upper [OF c, of e] e c by simp
qed

text \<open>A code is written; the decoder's table catches up.\<close>

lemma writer_emit:
  assumes w: "writing mb hdr tr zs" "\<not> zs_clear_flg zs" and t: "table_ok mb T zs" and width: "width_ok mb (zs_n_bits zs) (zs_maxcode zs) (zs_free_ent zs)"
    and ent: "known T (zs_ent zs)" "dec_state (2 ^ mb) T (zs_ent zs) D"
    and dec: "\<And>tr'. dec (2 ^ mb) None (tr @ tr') = map_option ((@) X) (dec (2 ^ mb) D tr')"
  obtains zs' tr1 where "z_output zs (zs_ent zs) = Some zs'" "output_moved zs zs'" "writing mb hdr tr1 zs'"
    "width_ok mb (zs_n_bits zs') (zs_maxcode zs') (zs_free_ent zs)"
    "zs_free_ent zs < max FIRST (2 ^ mb) \<longrightarrow> width_ok mb (zs_n_bits zs') (zs_maxcode zs') (zs_free_ent zs + 1)"
    "\<forall>tr'. dec (2 ^ mb) None (tr1 @ tr') = map_option ((@) (X @ str T (zs_ent zs))) (dec (2 ^ mb) (Some (T, str T (zs_ent zs))) tr')"
proof -
  let ?n = "zs_n_bits zs" and ?F = "zs_free_ent zs" and ?c = "zs_ent zs"
  have mb: "mb \<le> 16" using width by (simp add: width_ok_def)
  note b = table_bounds [OF t mb ent(1)]
  have F: "?F = FIRST + int (length T)" and ne: "\<forall>s \<in> set T. s \<noteq> []" using t by (simp_all add: table_ok_def)
  have c: "0 \<le> ?c" "?c < 2 ^ ?n" using b width_code [OF width, of ?c] F by simp_all
  obtain n' mc' where n': "(n', mc') = (if ?F > zs_maxcode zs then next_width mb False ?n else (?n, zs_maxcode zs))" by (metis surj_pair)
  note grow = width_grow [OF width n']
  have n'': "(n', mc') = (if ?F > zs_maxcode zs then next_width mb (zs_clear_flg zs) ?n else (?n, zs_maxcode zs))" using n' w(2) by simp
  have brk: "?F > zs_maxcode zs \<longleftrightarrow> ?F > zs_maxcode zs \<or> zs_clear_flg zs" using w(2) by simp
  obtain zs' where zs': "z_output zs ?c = Some zs'" "output_moved zs zs'" "zs_n_bits zs' = n'" "zs_maxcode zs' = mc'"
    "writing mb hdr (tr @ [(?c, ?F, False)]) zs'"
    by (rule z_output_code [OF w(1) c brk n'' grow(1)]) (use w(2) in simp)
  have app: "(@) (X @ str T ?c) = (\<lambda>x. X @ str T ?c @ x)" by auto
  have "dec (2 ^ mb) None ((tr @ [(?c, ?F, False)]) @ tr') = map_option ((@) (X @ str T ?c)) (dec (2 ^ mb) (Some (T, str T ?c)) tr')" for tr'
    using dec [of "(?c, ?F, False) # tr'"] dec_emit [OF ent(2,1) ne, of tr'] F by (simp add: option.map_comp comp_def app)
  then show thesis using that [OF zs'(1,2,5)] grow zs'(3,4) by simp
qed

text \<open>The table is cleared.\<close>

lemma writer_clear:
  assumes w: "writing mb hdr tr zs" and c: "zs_hsize zs = 69001" "zs_hsize_reg zs = 69001" "zs_hshift zs = 8" "mb \<le> 16"
    and ent: "zs_ent zs = uint (c :: u_char)" and state: "zs_state zs = S_MIDDLE"
    and dec: "\<And>tr'. dec (2 ^ mb) None (tr @ tr') = map_option ((@) X) (dec (2 ^ mb) (Some (T, s)) tr')"
  shows "\<exists>zs'. z_output ((cl_hash zs 69001)\<lparr>zs_free_ent := FIRST, zs_clear_flg := True\<rparr>) CLEAR = Some zs' \<and> writer mb hdr (X @ [c]) zs'"
proof -
  let ?zs = "(cl_hash zs 69001)\<lparr>zs_free_ent := FIRST, zs_clear_flg := True\<rparr>"
  have hash: "cl_hash zs 69001 = zs\<lparr>zs_htab := \<lambda>j. if 0 \<le> j \<and> j < 69001 then -1 else zs_htab zs j\<rparr>"
    using cl_loop_clear [of 69001 "zs_htab zs"] by (simp add: cl_hash_def)
  have w': "writing mb hdr tr ?zs" using w by (subst writing_cong [of _ zs]) (simp_all add: hash)
  have n: "9 \<le> zs_n_bits ?zs" using w by (simp add: hash writing_def)
  have "(2 :: int) ^ 9 \<le> 2 ^ zs_n_bits ?zs" using n by (intro power_increasing) simp_all
  then have small: "CLEAR < 2 ^ zs_n_bits ?zs" by simp
  have nw: "(INIT_BITS, MAXCODE INIT_BITS) = (if True then next_width mb (zs_clear_flg ?zs) (zs_n_bits ?zs) else (zs_n_bits ?zs, zs_maxcode ?zs))"
    by (simp add: next_width_def)
  obtain zs' where zs': "z_output ?zs CLEAR = Some zs'" "output_moved ?zs zs'" "zs_n_bits zs' = INIT_BITS" "zs_maxcode zs' = MAXCODE INIT_BITS"
    "writing mb hdr (tr @ [(CLEAR, zs_free_ent ?zs, zs_clear_flg ?zs)]) zs'"
    by (rule z_output_code [OF w' _ small _ nw]) simp_all
  note f = output_moved_fields [OF zs'(2)]
  have "occupied zs' = {}" by (auto simp: occupied_def f hash)
  then have "table_ok mb [] zs'" using c by (simp add: table_ok_def f) (simp add: hash)
  moreover have "zs_ent zs' = uint c" "zs_state zs' = S_MIDDLE" "zs_free_ent zs' = FIRST" using ent state by (simp_all add: f hash)
  moreover have "0 \<le> uint c" "uint c < 256" using uint_lt2p [of c] by simp_all
  moreover have "dec (2 ^ mb) None ((tr @ [(CLEAR, FIRST, True)]) @ tr') = map_option ((@) X) (dec (2 ^ mb) None tr')" for tr' using dec by simp
  ultimately have "writer mb hdr (X @ [c]) zs'"
    unfolding writer_def using zs'(3-5) f(16) c width_start [of mb]
    by (intro conjI exI [of _ X] exI [of _ None] exI [of _ "[]"] exI [of _ "tr @ [(CLEAR, FIRST, True)]"])
      (simp_all add: dec_state_def known_def)
  then show ?thesis using zs'(1) by blast
qed

lemma cl_block_writer:
  assumes w: "writing mb hdr tr zs" and t: "table_ok mb T zs" and full: "\<not> zs_free_ent zs < 2 ^ mb" and mb: "mb \<le> 16"
    and clr: "\<not> zs_clear_flg zs" and width: "width_ok mb (zs_n_bits zs) (zs_maxcode zs) (zs_free_ent zs)"
    and ent: "zs_ent zs = uint (c :: u_char)" and state: "zs_state zs = S_MIDDLE" and s: "s \<noteq> []"
    and dec: "\<And>tr'. dec (2 ^ mb) None (tr @ tr') = map_option ((@) X) (dec (2 ^ mb) (Some (T, s)) tr')"
  shows "writer mb hdr (X @ [c]) zs" "\<exists>zs'. cl_block zs = Some zs' \<and> writer mb hdr (X @ [c]) zs'"
proof -
  have c: "0 \<le> uint c" "uint c < 256" using uint_lt2p [of c] by simp_all
  have "next_table (2 ^ mb) T s [c] = T" using t full by (simp add: next_table_def table_ok_def)
  then have d: "dec_state (2 ^ mb) T (uint c) (Some (T, s))" using dec_state_next [OF s _ c, of T "2 ^ mb" T c] by simp
  have keep: "writer mb hdr (X @ [c]) z"
    if "writing mb hdr tr z" "table_ok mb T z" "zs_n_bits z = zs_n_bits zs" "zs_maxcode z = zs_maxcode zs" "zs_free_ent z = zs_free_ent zs"
      "zs_ent z = uint c" "zs_state z = S_MIDDLE" "\<not> zs_clear_flg z" for z
    unfolding writer_def using that width c d dec
    by (intro conjI exI [of _ X] exI [of _ "Some (T, s)"] exI [of _ T] exI [of _ tr]) (simp_all add: known_def)
  then show "writer mb hdr (X @ [c]) zs" using w t ent state clr by simp
  let ?zs = "zs\<lparr>zs_checkpoint := zs_in_count zs + CHECK_GAP\<rparr>"
  define rat where "rat = ratio zs"
  have run: "cl_block zs = (if rat > zs_ratio zs then Some (?zs\<lparr>zs_ratio := rat\<rparr>)
      else z_output ((cl_hash (?zs\<lparr>zs_ratio := 0\<rparr>) (zs_hsize zs))\<lparr>zs_free_ent := FIRST, zs_clear_flg := True\<rparr>) CLEAR)"
    by (simp add: cl_block_def rat_def)
  show "\<exists>zs'. cl_block zs = Some zs' \<and> writer mb hdr (X @ [c]) zs'"
  proof (cases "rat > zs_ratio zs")
    case True
    have "writer mb hdr (X @ [c]) (?zs\<lparr>zs_ratio := rat\<rparr>)"
      using w t ent state clr by (intro keep) (simp_all add: writing_cong [of "?zs\<lparr>zs_ratio := rat\<rparr>" zs] table_ok_cong [of "?zs\<lparr>zs_ratio := rat\<rparr>" zs])
    then show ?thesis using True run by simp
  next
    case False
    have "writing mb hdr tr (?zs\<lparr>zs_ratio := 0\<rparr>)" using w by (simp add: writing_cong [of "?zs\<lparr>zs_ratio := 0\<rparr>" zs])
    moreover have "zs_hsize zs = 69001" "zs_hsize_reg zs = 69001" "zs_hshift zs = 8" using t by (simp_all add: table_ok_def)
    ultimately show ?thesis using False run writer_clear [of mb hdr tr "?zs\<lparr>zs_ratio := 0\<rparr>" c X T s] mb ent state dec by simp
  qed
qed

section \<open>The compressor\<close>

lemma fcode_unique:
  fixes e e' b b' :: int
  assumes "b * 2 ^ mb + e = b' * 2 ^ mb + e'" "0 \<le> e" "e < 2 ^ mb" "0 \<le> e'" "e' < 2 ^ mb"
  shows "b = b' \<and> e = e'"
proof -
  have "(b * 2 ^ mb + e) div 2 ^ mb = b" "(b' * 2 ^ mb + e') div 2 ^ mb = b'" using assms(2-5) by simp_all
  then have "b = b'" by (metis assms(1))
  then show ?thesis using assms(1) by simp
qed

text \<open>The entry that a search finds.\<close>

lemma table_found:
  assumes t: "table_ok mb T zs" and mb: "mb \<le> 16" and ent: "known T (zs_ent zs)"
    and i: "0 \<le> i" "i < 69001" "zs_htab zs i = uint (c :: u_char) * 2 ^ mb + zs_ent zs"
  shows "known T (zs_codetab zs i)" "str T (zs_codetab zs i) = str T (zs_ent zs) @ [c]" "T \<noteq> []"
proof -
  have "0 \<le> zs_htab zs i" using i(3) table_bounds(1) [OF t mb ent] by simp
  then obtain b e where be: "zs_htab zs i = b * 2 ^ mb + e" "known T e" "FIRST \<le> zs_codetab zs i"
    "known T (zs_codetab zs i)" "str T (zs_codetab zs i) = str T e @ [word_of_int b]"
    using t i(1,2) unfolding table_ok_def by blast
  show T: "T \<noteq> []" using be(3,4) by (auto simp: known_def)
  have "b = uint c \<and> e = zs_ent zs"
    using fcode_unique [of b mb e "uint c" "zs_ent zs"] be(1) i(3)
      table_bounds(1) [OF t mb be(2)] table_bounds(7) [OF t mb be(2) T] table_bounds(1) [OF t mb ent] table_bounds(7) [OF t mb ent T] by simp
  then show "known T (zs_codetab zs i)" "str T (zs_codetab zs i) = str T (zs_ent zs) @ [c]" using be by simp_all
qed

text \<open>A new entry in an empty slot.\<close>

lemma table_insert:
  assumes t: "table_ok mb T zs" and mb: "mb \<le> 16" and room: "zs_free_ent zs < 2 ^ mb" and ent: "known T e"
    and i: "0 \<le> i" "i < 69001" "zs_htab zs i < 0"
  shows "table_ok mb (T @ [str T e @ [c]]) (zs\<lparr>zs_codetab := (zs_codetab zs)(i := zs_free_ent zs mod 2 ^ 16),
      zs_htab := (zs_htab zs)(i := uint c * 2 ^ mb + e), zs_free_ent := zs_free_ent zs + 1\<rparr>)" (is "table_ok mb ?T ?zs")
proof -
  have F: "zs_free_ent zs = FIRST + int (length T)" using t by (simp add: table_ok_def)
  have "(2 :: int) ^ mb \<le> 2 ^ 16" using mb by (intro power_increasing) simp_all
  then have Fm: "zs_free_ent zs mod 2 ^ 16 = FIRST + int (length T)" using room F by (intro trans [OF mod_pos_pos_trivial]) simp_all
  have e: "0 \<le> uint c * 2 ^ mb + e" using table_bounds(1) [OF t mb ent] by simp
  have "occupied ?zs = insert i (occupied zs)" using i e by (auto simp: occupied_def)
  moreover have "i \<notin> occupied zs" using i by (simp add: occupied_def)
  ultimately have card: "card (occupied ?zs) \<le> length ?T" using t by (simp add: table_ok_def)
  have entries: "\<exists>b e. zs_htab ?zs j = b * 2 ^ mb + e \<and> known ?T e \<and> FIRST \<le> zs_codetab ?zs j \<and> known ?T (zs_codetab ?zs j)
      \<and> str ?T (zs_codetab ?zs j) = str ?T e @ [word_of_int b]" if j: "0 \<le> j" "j < 69001" "0 \<le> zs_htab ?zs j" for j
  proof (cases "j = i")
    case True
    show ?thesis
    proof (intro exI conjI)
      show "zs_htab ?zs j = uint c * 2 ^ mb + e" using True by simp
      have "zs_codetab ?zs j = FIRST + int (length T)" using True Fm by simp
      then show "FIRST \<le> zs_codetab ?zs j" "known ?T (zs_codetab ?zs j)" "str ?T (zs_codetab ?zs j) = str ?T e @ [word_of_int (uint c)]"
        using str_last [of T "str T e @ [c]"] str_append(1) [OF ent, of "[str T e @ [c]]"] by simp_all
      show "known ?T e" by (rule str_append(2) [OF ent])
    qed
  next
    case False
    then obtain b e where "zs_htab zs j = b * 2 ^ mb + e" "known T e" "FIRST \<le> zs_codetab zs j" "known T (zs_codetab zs j)"
      "str T (zs_codetab zs j) = str T e @ [word_of_int b]"
      using t j unfolding table_ok_def by auto
    then show ?thesis using False by (intro exI [of _ b] exI [of _ e]) (simp add: str_append)
  qed
  have "\<forall>s \<in> set ?T. s \<noteq> []" "FIRST + int (length ?T) \<le> 2 ^ mb" using t F room by (auto simp: table_ok_def)
  then show ?thesis using t card entries F unfolding table_ok_def by auto
qed

lemma zwrite_char_writer:
  assumes "writer mb hdr I zs"
  shows "\<exists>zs'. zwrite_char c zs = Some zs' \<and> writer mb hdr (I @ [c]) zs'"
proof -
  obtain X D T tr where w: "writing mb hdr tr zs" and t: "table_ok mb T zs"
    and width: "width_ok mb (zs_n_bits zs) (zs_maxcode zs) (zs_free_ent zs)" and ent: "known T (zs_ent zs)"
    and d: "dec_state (2 ^ mb) T (zs_ent zs) D" and I: "I = X @ str T (zs_ent zs)"
    and dec: "\<And>tr'. dec (2 ^ mb) None (tr @ tr') = map_option ((@) X) (dec (2 ^ mb) D tr')"
    and state: "zs_state zs = S_MIDDLE" and clr: "\<not> zs_clear_flg zs"
    using assms unfolding writer_def by blast
  have mb: "mb \<le> 16" using width by (simp add: width_ok_def)
  have mbits: "zs_maxbits zs = mb" "zs_maxmaxcode zs = 2 ^ mb" using w by (simp_all add: writing_def)
  note b = table_bounds [OF t mb ent]
  define fc where "fc = uint c * 2 ^ mb + zs_ent zs"
  define z where "z = zs\<lparr>zs_in_count := zs_in_count zs + 1, zs_fcode := fc\<rparr>"
  have fc: "0 \<le> fc" using b(1) by (simp add: fc_def)
  have wz: "writing mb hdr tr z" and tz: "table_ok mb T z"
    using w t by (simp_all add: z_def writing_cong [of "zs\<lparr>zs_in_count := zs_in_count zs + 1, zs_fcode := fc\<rparr>" zs]
        table_ok_cong [of "zs\<lparr>zs_in_count := zs_in_count zs + 1, zs_fcode := fc\<rparr>" zs])
  have zz: "zs_ent z = zs_ent zs" "zs_fcode z = fc" "zs_n_bits z = zs_n_bits zs" "zs_maxcode z = zs_maxcode zs" "zs_free_ent z = zs_free_ent zs"
    "zs_state z = S_MIDDLE" "\<not> zs_clear_flg z" "zs_hshift z = 8" "zs_hsize_reg z = 69001" "zs_maxmaxcode z = 2 ^ mb" "zs_htab z = zs_htab zs"
    "zs_codetab z = zs_codetab zs"
    using state clr mbits t by (simp_all add: z_def table_ok_def)
  have hash: "0 \<le> push_bit 8 (uint c) XOR zs_ent z" "push_bit 8 (uint c) XOR zs_ent z < 69001" using xor_hash [OF b(1,2), of c] by (simp_all add: zz)
  obtain i where i: "find_slot z (push_bit 8 (uint c) XOR zs_ent z) = Some i" "0 \<le> i" "i < 69001" "zs_htab z i = fc \<or> zs_htab z i < 0"
    using find_slot_returns [OF zz(9) hash] table_bounds(6) [OF tz mb, of "zs_ent z"] ent zz by auto
  have run: "zwrite_char c zs = (if zs_htab z i = fc then Some (z\<lparr>zs_ent := zs_codetab z i\<rparr>)
      else do { z1 \<leftarrow> z_output z (zs_ent z); let z1 = z1\<lparr>zs_out_count := zs_out_count z1 + 1, zs_ent := uint c\<rparr>;
        if zs_free_ent z1 < zs_maxmaxcode z1 then
          Some (z1\<lparr>zs_codetab := (zs_codetab z1)(i := zs_free_ent z1 mod 2 ^ 16), zs_htab := (zs_htab z1)(i := zs_fcode z1),
                  zs_free_ent := zs_free_ent z1 + 1\<rparr>)
        else if zs_in_count z1 \<ge> zs_checkpoint z1 \<and> zs_block_compress z1 \<noteq> 0 then cl_block z1 else Some z1 })"
    using i(1) mbits zz t unfolding zwrite_char_def by (simp add: push_bit_eq_mult fc_def [symmetric] z_def [symmetric] table_ok_def)
  show ?thesis
  proof (cases "zs_htab z i = fc")
    case True
    note found = table_found [OF t mb ent i(2,3), of c]
    have eq: "zs_htab zs i = uint c * 2 ^ mb + zs_ent zs" using True by (simp add: zz fc_def)
    let ?z = "z\<lparr>zs_ent := zs_codetab zs i\<rparr>"
    have "writing mb hdr tr ?z" "table_ok mb T ?z" using wz tz by (simp_all add: writing_cong [of ?z z] table_ok_cong [of ?z z])
    moreover have "dec_state (2 ^ mb) T (zs_codetab zs i) D"
      using d found [OF eq] str_nonempty [OF _ ent] t by (auto simp: dec_state_def next_table_def table_ok_def split: option.splits)
    ultimately have "writer mb hdr (I @ [c]) ?z"
      unfolding writer_def using width dec I found [OF eq] zz
      by (intro conjI exI [of _ X] exI [of _ D] exI [of _ T] exI [of _ tr]) simp_all
    then show ?thesis using True run by (simp add: zz)
  next
    case False
    then have empty: "zs_htab zs i < 0" using i(4) by (simp add: zz)
    define s where "s = str T (zs_ent zs)"
    have s: "s \<noteq> []" using str_nonempty [OF _ ent] t by (auto simp: s_def table_ok_def)
    have ent_z: "known T (zs_ent z)" "dec_state (2 ^ mb) T (zs_ent z) D" "width_ok mb (zs_n_bits z) (zs_maxcode z) (zs_free_ent z)"
      using ent d width by (simp_all add: zz)
    obtain z1 tr1 where z1: "z_output z (zs_ent z) = Some z1" "output_moved z z1" "writing mb hdr tr1 z1"
      "width_ok mb (zs_n_bits z1) (zs_maxcode z1) (zs_free_ent z)"
      "zs_free_ent z < max FIRST (2 ^ mb) \<longrightarrow> width_ok mb (zs_n_bits z1) (zs_maxcode z1) (zs_free_ent z + 1)"
      "\<forall>tr'. dec (2 ^ mb) None (tr1 @ tr') = map_option ((@) (X @ str T (zs_ent z))) (dec (2 ^ mb) (Some (T, str T (zs_ent z))) tr')"
      using writer_emit [OF wz zz(7) tz ent_z(3,1,2) dec] by metis
    note f = output_moved_fields [OF z1(2)]
    let ?z = "z1\<lparr>zs_out_count := zs_out_count z1 + 1, zs_ent := uint c\<rparr>"
    have w1: "writing mb hdr tr1 ?z" using z1(3) by (simp add: writing_cong [of ?z z1])
    have t1: "table_ok mb T ?z" using t by (simp add: table_ok_cong [of ?z zs] f z_def)
    have dec1: "dec (2 ^ mb) None (tr1 @ tr') = map_option ((@) I) (dec (2 ^ mb) (Some (T, s)) tr')" for tr'
      using z1(6) by (simp add: s_def I zz)
    have c: "0 \<le> uint c" "uint c < 256" using uint_lt2p [of c] by simp_all
    show ?thesis
    proof (cases "zs_free_ent zs < 2 ^ mb")
      case True
      let ?T = "T @ [s @ [c]]"
      let ?z1 = "?z\<lparr>zs_codetab := (zs_codetab ?z)(i := zs_free_ent ?z mod 2 ^ 16), zs_htab := (zs_htab ?z)(i := zs_fcode ?z),
          zs_free_ent := zs_free_ent ?z + 1\<rparr>"
      have "table_ok mb ?T ?z1"
        using table_insert [OF t1 mb _ ent i(2,3), of c] True empty by (simp add: f zz s_def fc_def)
      moreover have "writing mb hdr tr1 ?z1" using z1(3) by (subst writing_cong [of _ z1]) simp_all
      moreover have "?T = next_table (2 ^ mb) T s [c]" using True t by (simp add: next_table_def table_ok_def)
      then have "dec_state (2 ^ mb) ?T (uint c) (Some (T, s))" using dec_state_next [OF s _ c] by simp
      moreover have "width_ok mb (zs_n_bits ?z1) (zs_maxcode ?z1) (zs_free_ent ?z1)" using z1(5) True by (simp add: f zz)
      ultimately have "writer mb hdr (I @ [c]) ?z1"
        unfolding writer_def using c dec1 f zz
        by (intro conjI exI [of _ I] exI [of _ "Some (T, s)"] exI [of _ ?T] exI [of _ tr1]) (simp_all add: known_def)
      then show ?thesis using False run z1(1) True by (simp add: f zz)
    next
      case full: False
      have ok: "\<not> zs_free_ent ?z < 2 ^ mb" "\<not> zs_clear_flg ?z" "width_ok mb (zs_n_bits ?z) (zs_maxcode ?z) (zs_free_ent ?z)" "zs_ent ?z = uint c" "zs_state ?z = S_MIDDLE"
        using full z1(4) by (simp_all add: f zz)
      note block = cl_block_writer [OF w1 t1 ok(1) mb ok(2-5) s dec1]
      then show ?thesis using False run z1(1) full by (auto simp: f zz Let_def)
    qed
  qed
qed

lemma zwrite_chars_writer: "writer mb hdr I zs \<Longrightarrow> \<exists>zs'. zwrite_chars cs zs = Some zs' \<and> writer mb hdr (I @ cs) zs'"
proof (induction cs arbitrary: I zs)
  case (Cons c cs)
  obtain zs1 where "zwrite_char c zs = Some zs1" "writer mb hdr (I @ [c]) zs1" using zwrite_char_writer [OF Cons.prems] by blast
  then show ?case using Cons.IH [of "I @ [c]" zs1] by simp
qed simp

definition z_header :: "nat \<Rightarrow> u_char list" where
  "z_header mb = z_magic @ [word_of_int (int mb OR BLOCK_MASK)]"

lemma hsize_shift: "hshift_loop 69001 0 = 0"
  by (subst hshift_loop.simps) simp

lemma zwrite_start_writer:
  assumes mb: "1 \<le> mb" "mb \<le> 16"
  shows "writer mb (z_header mb) [c] (zwrite_start c (z_init [] S_START mb BLOCK_MASK))"
proof -
  let ?zs = "zwrite_start c (z_init [] S_START mb BLOCK_MASK)"
  have c: "0 \<le> uint c" "uint c < 256" using uint_lt2p [of c] by simp_all
  have htab: "zs_htab ?zs = (\<lambda>j. if 0 \<le> j \<and> j < 69001 then -1 else 0)"
    using cl_loop_clear [of 69001 "\<lambda>i. 0"] by (simp add: zwrite_start_def z_init_def cl_hash_def Let_def)
  have zs: "zs_state ?zs = S_MIDDLE" "\<not> zs_clear_flg ?zs" "zs_maxbits ?zs = mb" "zs_maxmaxcode ?zs = 2 ^ mb" "zs_n_bits ?zs = 9"
    "zs_maxcode ?zs = MAXCODE 9" "zs_bp ?zs = 0" "zs_offset ?zs = 0" "zs_fd ?zs = z_header mb" "zs_hsize ?zs = 69001" "zs_hsize_reg ?zs = 69001"
    "zs_hshift ?zs = 8" "zs_free_ent ?zs = FIRST" "zs_ent ?zs = uint c"
    by (simp_all add: zwrite_start_def z_init_def cl_hash_def Let_def z_header_def hsize_shift)
  have "writing mb (z_header mb) [] ?zs" unfolding writing_def by (intro conjI exI [of _ 0] exI [of _ "[]"]) (simp_all add: zs sent_def MAXCODE_power)
  moreover have "occupied ?zs = {}" by (auto simp: occupied_def htab)
  then have "table_ok mb [] ?zs" by (simp add: table_ok_def zs) (simp add: htab)
  moreover have "(@) [] = (\<lambda>x :: u_char list. x)" by auto
  ultimately show ?thesis
    unfolding writer_def using c width_start [OF mb(2)]
    by (intro conjI exI [of _ "[]"] exI [of _ None] exI [of _ "[]"]) (simp_all add: zs dec_state_def known_def option.map_ident)
qed

lemma writer_state: "writer mb hdr I zs \<Longrightarrow> zs_state zs = S_MIDDLE"
  by (simp add: writer_def)

lemma zwrite_writer:
  assumes "writer mb hdr I zs"
  shows "\<exists>zs'. zwrite zs buf = Some (int (length buf), zs') \<and> writer mb hdr (I @ buf) zs'"
  using zwrite_chars_writer [OF assms, of buf] writer_state [OF assms] by (auto simp: zwrite_def)

lemma write_all_writer: "writer mb hdr I zs \<Longrightarrow> \<exists>zs'. write_all bufs zs = Some zs' \<and> writer mb hdr (I @ concat bufs) zs'"
proof (induction bufs arbitrary: I zs)
  case (Cons buf bufs)
  obtain zs1 where "zwrite zs buf = Some (int (length buf), zs1)" "writer mb hdr (I @ buf) zs1" using zwrite_writer [OF Cons.prems] by blast
  then show ?case using Cons.IH [of "I @ buf" zs1] by simp
qed simp

lemma z_close_writer:
  assumes "writer mb hdr I zs"
  obtains W tr where "z_close zs = Some (hdr @ W)" "enc mb INIT_BITS (MAXCODE INIT_BITS) 0 tr W" "dec (2 ^ mb) None tr = Some I"
proof -
  obtain X D T tr where w: "writing mb hdr tr zs" and t: "table_ok mb T zs"
    and width: "width_ok mb (zs_n_bits zs) (zs_maxcode zs) (zs_free_ent zs)" and ent: "known T (zs_ent zs)"
    and d: "dec_state (2 ^ mb) T (zs_ent zs) D" and I: "I = X @ str T (zs_ent zs)"
    and dec: "\<And>tr'. dec (2 ^ mb) None (tr @ tr') = map_option ((@) X) (dec (2 ^ mb) D tr')" and clr: "\<not> zs_clear_flg zs"
    using assms unfolding writer_def by blast
  obtain z1 tr1 where z1: "z_output zs (zs_ent zs) = Some z1" "writing mb hdr tr1 z1"
    "\<forall>tr'. dec (2 ^ mb) None (tr1 @ tr') = map_option ((@) (X @ str T (zs_ent zs))) (dec (2 ^ mb) (Some (T, str T (zs_ent zs))) tr')"
    using writer_emit [OF w clr t width ent d dec] by metis
  obtain z2 W where "z_output z1 (-1) = Some z2" "zs_fd z2 = hdr @ W" "enc mb INIT_BITS (MAXCODE INIT_BITS) 0 tr1 W"
    by (rule z_output_end [OF z1(2)])
  moreover have "dec (2 ^ mb) None tr1 = Some I" using spec [OF z1(3), of "[]"] I by simp
  ultimately show thesis using that z1(1) by (simp add: z_close_def)
qed

text \<open>What \<open>docompress\<close> writes.\<close>

lemma docompress_writes:
  assumes bits: "0 \<le> bits" "bits \<le> 16" and bufs: "bufs \<noteq> []" "\<forall>buf \<in> set bufs. buf \<noteq> []"
  obtains mb W tr where "1 \<le> mb" "mb \<le> 16" "docompress bits bufs = Some (z_header mb @ W)"
    "enc mb INIT_BITS (MAXCODE INIT_BITS) 0 tr W" "dec (2 ^ mb) None tr = Some (concat bufs)"
proof -
  define mb where "mb = (if bits \<noteq> 0 then nat bits else 16)"
  have mb: "1 \<le> mb" "mb \<le> 16" using bits by (auto simp: mb_def)
  obtain c cs rest where b: "bufs = (c # cs) # rest" using bufs by (cases bufs; cases "hd bufs") auto
  obtain z1 where z1: "zwrite_chars cs (zwrite_start c (z_init [] S_START mb BLOCK_MASK)) = Some z1" "writer mb (z_header mb) ([c] @ cs) z1"
    using zwrite_chars_writer [OF zwrite_start_writer [OF mb]] by blast
  obtain z2 where z2: "write_all rest z1 = Some z2" "writer mb (z_header mb) (concat bufs) z2"
    using write_all_writer [OF z1(2), of rest] b by auto
  obtain W tr where W: "z_close z2 = Some (z_header mb @ W)" "enc mb INIT_BITS (MAXCODE INIT_BITS) 0 tr W" "dec (2 ^ mb) None tr = Some (concat bufs)"
    by (rule z_close_writer [OF z2(2)])
  have "z_wopen bits = Some (z_init [] S_START mb BLOCK_MASK)" using bits by (simp add: z_wopen_def mb_def)
  moreover have "zwrite (z_init [] S_START mb BLOCK_MASK) (c # cs) = Some (int (length (c # cs)), z1)"
    using z1(1) by (simp add: zwrite_def z_init_def)
  ultimately have "docompress bits bufs = Some (z_header mb @ W)" using z2(1) W(1) b by (simp add: docompress_def)
  then show thesis using that mb W by blast
qed

end
