(* ===== verification/ZopenRead.thy ===== *)
theory ZopenRead
  imports ZopenWrite
begin

text \<open>
  The decompressor: its tables of prefixes and suffixes hold the strings of the reference decoder, and \<open>zread\<close>, called with any
  size of buffer, returns what the reference decoder finds in the file, piece by piece.
\<close>

unbundle bit_operations_syntax

section \<open>Tables of prefixes and suffixes\<close>

definition tab_chains :: "nat \<Rightarrow> table \<Rightarrow> s_zstate \<Rightarrow> bool" where
  "tab_chains mb T zs \<longleftrightarrow> mb \<le> 16 \<and> (T = [] \<or> FIRST + int (length T) \<le> 2 ^ mb) \<and> (\<forall>c. 0 \<le> c \<longrightarrow> c < 256 \<longrightarrow> zs_suffix zs c = word_of_int c)
     \<and> (\<forall>k < length T. known T (zs_codetab zs (FIRST + int k)) \<and> zs_codetab zs (FIRST + int k) < FIRST + int k
          \<and> T ! k = str T (zs_codetab zs (FIRST + int k)) @ [zs_suffix zs (FIRST + int k)])"

lemma tab_chains_cong: "zs_suffix zs' = zs_suffix zs \<Longrightarrow> zs_codetab zs' = zs_codetab zs \<Longrightarrow> tab_chains mb T zs' = tab_chains mb T zs"
  by (simp add: tab_chains_def)

lemma chain_step:
  assumes "tab_chains mb T zs" "known T c" "\<not> c < 256"
  shows "known T (zs_codetab zs c)" "0 \<le> zs_codetab zs c" "zs_codetab zs c < c" "str T c = str T (zs_codetab zs c) @ [zs_suffix zs c]" "c < 65536"
proof -
  define k where "k = nat (c - FIRST)"
  have k: "k < length T" "c = FIRST + int k" using assms(2,3) by (auto simp: known_def k_def)
  then have T: "known T (zs_codetab zs c) \<and> zs_codetab zs c < c \<and> T ! k = str T (zs_codetab zs c) @ [zs_suffix zs c]"
    using assms(1) by (auto simp: tab_chains_def)
  then show "known T (zs_codetab zs c)" "0 \<le> zs_codetab zs c" "zs_codetab zs c < c" by (auto simp: known_def)
  have "str T c = T ! k" by (simp add: str_def k(2))
  then show "str T c = str T (zs_codetab zs c) @ [zs_suffix zs c]" using T by simp
  have "(2 :: int) ^ mb \<le> 2 ^ 16" using assms(1) by (intro power_increasing) (simp_all add: tab_chains_def)
  then show "c < 65536" using assms(1) k by (auto simp: tab_chains_def)
qed

lemma chain_length:
  assumes "tab_chains mb T zs"
  shows "known T c \<Longrightarrow> str T c \<noteq> [] \<and> int (length (str T c)) \<le> max 1 (c - 255)"
proof (induction "nat c" arbitrary: c rule: less_induct)
  case less
  show ?case
  proof (cases "c < 256")
    case False
    note s = chain_step [OF assms less.prems False]
    have "str T (zs_codetab zs c) \<noteq> [] \<and> int (length (str T (zs_codetab zs c))) \<le> max 1 (zs_codetab zs c - 255)"
      using less.hyps [OF _ s(1)] s(2,3) by simp
    moreover have "257 \<le> c" using less.prems False by (auto simp: known_def)
    ultimately show ?thesis using s(3,4) by auto
  qed simp
qed

lemma push_string_chain:
  assumes "tab_chains mb T zs" "known T (zs_code zs)" "int (length (zs_stack zs)) + max 1 (zs_code zs - 255) \<le> int STACK"
  shows "\<exists>c. push_string zs = Some (Some (zs\<lparr>zs_stack := str T (zs_code zs) @ zs_stack zs, zs_code := c, zs_finchar := uint (hd (str T (zs_code zs)))\<rparr>))"
  using assms
proof (induction "nat (zs_code zs)" arbitrary: zs rule: less_induct)
  case less
  show ?case
  proof (cases "zs_code zs < 256")
    case True
    have "zs_suffix zs (zs_code zs) = word_of_int (zs_code zs)" using less.prems(1,2) True by (auto simp: tab_chains_def known_def)
    then show ?thesis using True less.prems(3) by (subst push_string.simps) (auto simp: push_def intro!: exI [of _ "zs_code zs"])
  next
    case False
    note s = chain_step [OF less.prems(1,2) False]
    let ?z = "zs\<lparr>zs_stack := zs_suffix zs (zs_code zs) # zs_stack zs, zs_code := zs_codetab zs (zs_code zs)\<rparr>"
    have ge: "257 \<le> zs_code zs" using less.prems(2) False by (auto simp: known_def)
    have "max 1 (zs_codetab zs (zs_code zs) - 255) + 1 \<le> zs_code zs - 255" using s(3) ge by (simp add: max_def)
    then have room: "int (length (zs_stack ?z)) + max 1 (zs_code ?z - 255) \<le> int STACK" using less.prems(3) by simp
    have "tab_chains mb T ?z" using less.prems(1) by (subst tab_chains_cong [of _ zs]) simp_all
    then obtain c where c: "push_string ?z = Some (Some (?z\<lparr>zs_stack := str T (zs_code ?z) @ zs_stack ?z, zs_code := c, zs_finchar := uint (hd (str T (zs_code ?z)))\<rparr>))"
      using less.hyps [of ?z] s(1-3) room ge by auto
    have "\<not> length (zs_stack zs) \<ge> STACK" using less.prems(3) False by linarith
    then have "push_string zs = push_string ?z" using False s(5) by (subst push_string.simps) simp
    moreover have "hd (str T (zs_code zs)) = hd (str T (zs_code ?z))" "str T (zs_code ?z) @ zs_stack ?z = str T (zs_code zs) @ zs_stack zs"
      using s(4) chain_length [OF less.prems(1) s(1)] by simp_all
    ultimately show ?thesis using c by (intro exI [of _ c]) simp
  qed
qed

section \<open>Codes\<close>

definition rtab :: "nat \<Rightarrow> table \<Rightarrow> u_char list \<Rightarrow> s_zstate \<Rightarrow> bool" where
  "rtab mb T w zs \<longleftrightarrow> tab_chains mb T zs \<and> (zs_free_ent zs = FIRST + int (length T) \<or> 2 ^ mb \<le> CLEAR \<and> T = [] \<and> zs_free_ent zs = CLEAR)
     \<and> known T (zs_oldcode zs) \<and> str T (zs_oldcode zs) = w \<and> word_of_int (zs_finchar zs) = hd w \<and> w \<noteq> []"

lemma rtab_cong:
  assumes "zs_suffix zs' = zs_suffix zs" "zs_codetab zs' = zs_codetab zs" "zs_free_ent zs' = zs_free_ent zs" "zs_oldcode zs' = zs_oldcode zs"
    "zs_finchar zs' = zs_finchar zs"
  shows "rtab mb T w zs' = rtab mb T w zs"
  using assms by (simp add: rtab_def tab_chains_cong [of zs' zs])

lemma stack_room: "65282 < int STACK"
  by (simp add: STACK_def)

text \<open>The string of a code is on the stack, its first byte on top; nothing else that is needed later changes.\<close>

definition decoded :: "s_zstate \<Rightarrow> u_char list \<Rightarrow> s_zstate \<Rightarrow> bool" where
  "decoded zs s z \<longleftrightarrow> (\<exists>c. z = zs\<lparr>zs_incode := zs_code zs, zs_stack := s, zs_code := c, zs_finchar := uint (hd s)\<rparr>)"

lemma decode_known:
  assumes "tab_chains mb T zs" "known T (zs_code zs)" "zs_stack zs = []" "zs_code zs < zs_free_ent zs"
  shows "\<exists>z. decode_code zs = Some (Some z) \<and> decoded zs (str T (zs_code zs)) z"
proof -
  let ?z = "zs\<lparr>zs_incode := zs_code zs\<rparr>"
  have "zs_code zs < 65536" using chain_step(5) [OF assms(1,2)] by linarith
  then have "int (length (zs_stack ?z)) + max 1 (zs_code ?z - 255) \<le> int STACK" using assms(3) stack_room by simp
  moreover have "tab_chains mb T ?z" using assms(1) by (subst tab_chains_cong [of _ zs]) simp_all
  ultimately obtain c where "push_string ?z = Some (Some (?z\<lparr>zs_stack := str T (zs_code ?z) @ zs_stack ?z, zs_code := c, zs_finchar := uint (hd (str T (zs_code ?z)))\<rparr>))"
    using push_string_chain [of mb T ?z] assms(2) by auto
  then show ?thesis using assms(3,4) by (simp add: decode_code_def decoded_def Let_def) blast
qed

lemma decode_new:
  assumes r: "rtab mb T w zs" and c: "zs_code zs = zs_free_ent zs" and "zs_stack zs = []"
  shows "\<exists>z. decode_code zs = Some (Some z) \<and> decoded zs (w @ [hd w]) z"
proof -
  let ?z = "zs\<lparr>zs_incode := zs_code zs, zs_stack := [hd w], zs_code := zs_oldcode zs\<rparr>"
  have r': "tab_chains mb T zs" "known T (zs_oldcode zs)" "str T (zs_oldcode zs) = w" "word_of_int (zs_finchar zs) = hd w" "w \<noteq> []"
    using r by (simp_all add: rtab_def)
  have "zs_oldcode zs < 65536" using chain_step(5) [OF r'(1,2)] by linarith
  then have "int (length (zs_stack ?z)) + max 1 (zs_code ?z - 255) \<le> int STACK" using stack_room by simp
  moreover have "tab_chains mb T ?z" using r'(1) by (subst tab_chains_cong [of _ zs]) simp_all
  ultimately obtain c where c': "push_string ?z = Some (Some (?z\<lparr>zs_stack := str T (zs_code ?z) @ zs_stack ?z, zs_code := c, zs_finchar := uint (hd (str T (zs_code ?z)))\<rparr>))"
    using push_string_chain [of mb T ?z] r'(2) by auto
  have "0 < STACK" using stack_room by linarith
  then have "decode_code zs = push_string ?z" using c assms(3) r'(4) by (simp add: decode_code_def push_def Let_def)
  then show ?thesis using c' r'(3,5) assms(3) by (simp add: decoded_def) blast
qed

lemma new_entry_rtab:
  assumes r: "rtab mb T w zs" and M: "zs_maxmaxcode zs = 2 ^ mb" and d: "decoded zs s z" and s: "s \<noteq> []"
    and c: "known (next_table (2 ^ mb) T w s) (zs_code zs)" "str (next_table (2 ^ mb) T w s) (zs_code zs) = s"
  shows "rtab mb (next_table (2 ^ mb) T w s) s (new_entry (z\<lparr>zs_stack := []\<rparr>))"
    "zs_free_ent (new_entry (z\<lparr>zs_stack := []\<rparr>)) = FIRST + int (length (next_table (2 ^ mb) T w s)) \<or> 2 ^ mb \<le> CLEAR \<and> T = [] \<and> zs_free_ent (new_entry (z\<lparr>zs_stack := []\<rparr>)) = CLEAR"
proof -
  let ?T = "next_table (2 ^ mb) T w s" and ?n = "new_entry (z\<lparr>zs_stack := []\<rparr>)"
  have ch: "tab_chains mb T zs" and old: "known T (zs_oldcode zs)" "str T (zs_oldcode zs) = w"
    and free: "zs_free_ent zs = FIRST + int (length T) \<or> 2 ^ mb \<le> CLEAR \<and> T = [] \<and> zs_free_ent zs = CLEAR"
    using r by (simp_all add: rtab_def)
  have mb: "(2 :: int) ^ mb \<le> 65536" using ch power_increasing [of mb 16 "2 :: int"] by (simp add: tab_chains_def)
  have z: "zs_incode z = zs_code zs" "zs_oldcode z = zs_oldcode zs" "zs_finchar z = uint (hd s)" "zs_free_ent z = zs_free_ent zs"
    "zs_maxmaxcode z = 2 ^ mb" "zs_codetab z = zs_codetab zs" "zs_suffix z = zs_suffix zs"
    using d M by (auto simp: decoded_def)
  have last: "zs_oldcode ?n = zs_code zs" "zs_finchar ?n = uint (hd s)" by (simp_all add: new_entry_def Let_def z)
  have "tab_chains mb ?T ?n \<and> (zs_free_ent ?n = FIRST + int (length ?T) \<or> 2 ^ mb \<le> CLEAR \<and> T = [] \<and> ?T = [] \<and> zs_free_ent ?n = CLEAR)"
  proof (cases "zs_free_ent zs < 2 ^ mb")
    case False
    then have "?T = T" using free by (auto simp: next_table_def)
    moreover have "zs_free_ent ?n = zs_free_ent zs" "zs_codetab ?n = zs_codetab zs" "zs_suffix ?n = zs_suffix zs"
      using False by (simp_all add: new_entry_def Let_def z)
    ultimately show ?thesis using ch free by (auto simp: tab_chains_cong [of ?n zs])
  next
    case True
    then have F: "zs_free_ent zs = FIRST + int (length T)" and T: "?T = T @ [w @ [hd s]]" using free by (auto simp: next_table_def)
    have "zs_oldcode zs < FIRST + int (length T)" "0 \<le> zs_oldcode zs" using old(1) by (auto simp: known_def)
    then have "zs_oldcode zs mod 65536 = zs_oldcode zs" using True F mb by (intro mod_pos_pos_trivial) simp_all
    then have n: "zs_free_ent ?n = FIRST + int (length ?T)" "zs_codetab ?n = (zs_codetab zs)(FIRST + int (length T) := zs_oldcode zs)"
      "zs_suffix ?n = (zs_suffix zs)(FIRST + int (length T) := hd s)"
      using True by (simp_all add: new_entry_def Let_def z F T)
    have "known ?T (zs_codetab ?n (FIRST + int k)) \<and> zs_codetab ?n (FIRST + int k) < FIRST + int k
        \<and> ?T ! k = str ?T (zs_codetab ?n (FIRST + int k)) @ [zs_suffix ?n (FIRST + int k)]" if "k < length ?T" for k
    proof (cases "k = length T")
      case True
      then show ?thesis using old \<open>zs_oldcode zs < _\<close> by (simp add: n T str_append nth_append)
    next
      case False
      then have "k < length T" using that T by simp
      then show ?thesis using ch by (simp add: n T str_append nth_append tab_chains_def)
    qed
    moreover have "\<forall>c. 0 \<le> c \<longrightarrow> c < 256 \<longrightarrow> zs_suffix ?n c = word_of_int c" using ch by (simp add: n tab_chains_def)
    moreover have "FIRST + int (length ?T) \<le> 2 ^ mb" using True F T by simp
    ultimately show ?thesis using n(1) ch by (simp add: tab_chains_def)
  qed
  then show "rtab mb ?T s ?n" "zs_free_ent ?n = FIRST + int (length ?T) \<or> 2 ^ mb \<le> CLEAR \<and> T = [] \<and> zs_free_ent ?n = CLEAR"
    using last c s by (auto simp: rtab_def)
qed

section \<open>Steps of the loop\<close>

text \<open>At the head of the loop \<open>tr\<close> is left to be read, and the decoder's table is \<open>T\<close>, its last string \<open>w\<close>.\<close>

definition at_head :: "nat \<Rightarrow> table \<Rightarrow> u_char list \<Rightarrow> trace \<Rightarrow> s_zstate \<Rightarrow> bool" where
  "at_head mb T w tr zs \<longleftrightarrow> reading mb tr zs \<and> rtab mb T w zs \<and> zs_stack zs = [] \<and> zs_block_compress zs \<noteq> 0"

lemma reading_cong:
  assumes "zs_maxbits zs' = zs_maxbits zs" "zs_maxmaxcode zs' = zs_maxmaxcode zs" "zs_ebp zs' = zs_ebp zs" "zs_clear_flg zs' = zs_clear_flg zs"
    "zs_offset zs' = zs_offset zs" "zs_size zs' = zs_size zs" "zs_free_ent zs' = zs_free_ent zs" "zs_maxcode zs' = zs_maxcode zs"
    "zs_n_bits zs' = zs_n_bits zs" "zs_bp zs' = zs_bp zs" "zs_buf zs' = zs_buf zs" "zs_fd zs' = zs_fd zs"
  shows "reading mb tr zs' \<longleftrightarrow> reading mb tr zs"
  using assms by (simp add: reading_def refill_def refill_width_def in_group_def rest_bytes_def)

lemma decoded_fields:
  assumes "decoded zs s z"
  shows "zs_stack z = s" "zs_incode z = zs_code zs" "zs_state z = zs_state zs" "zs_block_compress z = zs_block_compress zs"
    "zs_codetab z = zs_codetab zs" "zs_suffix z = zs_suffix zs" "zs_oldcode z = zs_oldcode zs" "zs_finchar z = uint (hd s)"
    "zs_free_ent z = zs_free_ent zs" "zs_maxmaxcode z = zs_maxmaxcode zs"
  using assms by (auto simp: decoded_def)

lemma new_entry_fields [simp]:
  "zs_stack (new_entry z) = zs_stack z" "zs_state (new_entry z) = zs_state z" "zs_block_compress (new_entry z) = zs_block_compress z"
  by (simp_all add: new_entry_def Let_def)

text \<open>The position in the file is not touched between two calls of \<open>getcode\<close>.\<close>

lemma reading_behind:
  assumes g: "\<forall>free. (\<not> clr \<longrightarrow> (free > zs_maxcode zs1 \<longleftrightarrow> F > zs_maxcode zs1)) \<longrightarrow> reading mb tr (zs1\<lparr>zs_free_ent := free, zs_clear_flg := clr\<rparr>)"
    and "\<not> zs_clear_flg zs1" "\<not> clr" and d: "decoded (zs1\<lparr>zs_code := c\<rparr>) s z"
    and free: "zs_free_ent (new_entry (z\<lparr>zs_stack := []\<rparr>)) = F \<or> 511 \<le> zs_maxcode zs1 \<and> zs_free_ent (new_entry (z\<lparr>zs_stack := []\<rparr>)) \<le> 511 \<and> F \<le> 511"
  shows "reading mb tr (new_entry (z\<lparr>zs_stack := []\<rparr>))"
proof -
  let ?n = "new_entry (z\<lparr>zs_stack := []\<rparr>)"
  have "reading mb tr (zs1\<lparr>zs_free_ent := zs_free_ent ?n, zs_clear_flg := clr\<rparr>)" using g free by force
  moreover have "reading mb tr ?n \<longleftrightarrow> reading mb tr (zs1\<lparr>zs_free_ent := zs_free_ent ?n, zs_clear_flg := clr\<rparr>)"
    using d assms(2,3) by (intro reading_cong) (auto simp: decoded_def new_entry_def Let_def)
  ultimately show ?thesis by simp
qed

text \<open>One pass of the loop decodes the next string of the reference decoder.\<close>

definition step_to :: "nat \<Rightarrow> u_char list \<Rightarrow> trace \<Rightarrow> s_zstate \<Rightarrow> bool" where
  "step_to mb Y tr zs \<longleftrightarrow> (\<exists>zs1. next_code zs = Some zs1 \<and> (zs_code zs1 = -1 \<and> Y = [] \<or>
     0 \<le> zs_code zs1 \<and> (\<exists>z Y' T w tr'. decode_code zs1 = Some (Some z) \<and> zs_state z = zs_state zs \<and> zs_stack z \<noteq> [] \<and> Y = zs_stack z @ Y'
       \<and> at_head mb T w tr' (new_entry (z\<lparr>zs_stack := []\<rparr>)) \<and> dec (2 ^ mb) (Some (T, w)) tr' = Some Y' \<and> length tr' < length tr)))"

lemma step_code:
  assumes h: "at_head mb T w ((c, F, clr) # tr) zs" and dec: "dec (2 ^ mb) (Some (T, w)) ((c, F, clr) # tr) = Some Y" and c: "c \<noteq> CLEAR"
  shows "step_to mb Y ((c, F, clr) # tr) zs"
proof -
  have r: "reading mb ((c, F, clr) # tr) zs" and tab: "rtab mb T w zs" and st: "zs_stack zs = []" and block: "zs_block_compress zs \<noteq> 0"
    using h by (simp_all add: at_head_def)
  obtain zs1 where g: "getcode zs = Some (c, zs1)" "input_moved zs zs1" "511 \<le> zs_maxcode zs1"
    and behind: "\<forall>free. (\<not> clr \<longrightarrow> (free > zs_maxcode zs1 \<longleftrightarrow> F > zs_maxcode zs1)) \<longrightarrow> reading mb tr (zs1\<lparr>zs_free_ent := free, zs_clear_flg := clr\<rparr>)"
    using getcode_next [OF r] by blast
  note f = input_moved_fields [OF g(2)]
  let ?zs = "zs1\<lparr>zs_code := c\<rparr>"
  define s where "s = (if known T c then str T c else w @ [hd w])"
  define T' where "T' = next_table (2 ^ mb) T w s"
  have clr: "\<not> clr" and F: "F = FIRST + int (length T')" and valid: "known T c \<or> c = FIRST + int (length T) \<and> c < 2 ^ mb"
    using dec c by (auto simp: s_def T'_def Let_def split: if_splits)
  obtain Y' where Y: "dec (2 ^ mb) (Some (T', s)) tr = Some Y'" "Y = s @ Y'"
    using dec c clr valid F by (auto simp: Let_def simp flip: s_def T'_def)
  have run: "next_code zs = Some ?zs" using g c by (simp add: next_code_def)
  have tab1: "rtab mb T w ?zs" using tab by (subst rtab_cong [of _ zs]) (simp_all add: f)
  have ch: "tab_chains mb T ?zs" and w: "w \<noteq> []" and free: "zs_free_ent zs = FIRST + int (length T) \<or> 2 ^ mb \<le> CLEAR \<and> T = [] \<and> zs_free_ent zs = CLEAR"
    using tab tab1 by (simp_all add: rtab_def)
  have sc: "known T' c \<and> str T' c = s \<and> s \<noteq> [] \<and> (\<exists>z. decode_code ?zs = Some (Some z) \<and> decoded ?zs s z)"
  proof (cases "known T c")
    case True
    then have "c < zs_free_ent zs" using free by (auto simp: known_def)
    then have "\<exists>z. decode_code ?zs = Some (Some z) \<and> decoded ?zs s z" using decode_known [OF ch] True st by (simp add: f s_def)
    moreover have "known T' c" "str T' c = s" using True by (simp_all add: T'_def next_table_def str_append s_def)
    ultimately show ?thesis using chain_length [OF ch True] by (simp add: s_def True)
  next
    case False
    then have new: "c = FIRST + int (length T)" "c < 2 ^ mb" using valid by simp_all
    then have "T' = T @ [w @ [hd w]]" "s = w @ [hd w]" using False w by (simp_all add: T'_def next_table_def s_def)
    moreover have "zs_free_ent zs = c" using free new by auto
    ultimately show ?thesis using decode_new [OF tab1] st new(1) str_last [of T "w @ [hd w]"] by (simp add: f)
  qed
  then obtain z where z: "decode_code ?zs = Some (Some z)" "decoded ?zs s z" by blast
  have M: "zs_maxmaxcode ?zs = 2 ^ mb" using r by (simp add: f reading_def)
  note n = new_entry_rtab [OF tab1 M z(2)]
  have tab': "rtab mb T' s (new_entry (z\<lparr>zs_stack := []\<rparr>))"
    and free': "zs_free_ent (new_entry (z\<lparr>zs_stack := []\<rparr>)) = F \<or> 2 ^ mb \<le> CLEAR \<and> T = [] \<and> zs_free_ent (new_entry (z\<lparr>zs_stack := []\<rparr>)) = CLEAR"
    using n sc F by (simp_all add: T'_def)
  have "zs_free_ent (new_entry (z\<lparr>zs_stack := []\<rparr>)) = F \<or> 511 \<le> zs_maxcode zs1 \<and> zs_free_ent (new_entry (z\<lparr>zs_stack := []\<rparr>)) \<le> 511 \<and> F \<le> 511"
    using free' g(3) F by (auto simp: T'_def next_table_def)
  then have "reading mb tr (new_entry (z\<lparr>zs_stack := []\<rparr>))" using reading_behind [OF behind _ clr z(2)] f(12) by simp
  then have "at_head mb T' s tr (new_entry (z\<lparr>zs_stack := []\<rparr>))"
    using tab' block by (simp add: at_head_def decoded_fields [OF z(2)] f)
  moreover have "0 \<le> c" using valid by (auto simp: known_def)
  ultimately show ?thesis
    unfolding step_to_def using run z Y sc decoded_fields [OF z(2)] f(11) by (intro exI [of _ ?zs]) auto
qed

lemma step_end: "at_head mb T w [] zs \<Longrightarrow> step_to mb [] tr zs"
  using getcode_end [of mb zs] by (auto simp: at_head_def step_to_def next_code_def)

lemma step_clear:
  assumes h: "at_head mb T w ((CLEAR, F, True) # tr) zs" and dec: "dec (2 ^ mb) None tr = Some Y"
  shows "step_to mb Y ((CLEAR, F, True) # tr) zs"
proof -
  have r: "reading mb ((CLEAR, F, True) # tr) zs" and tab: "rtab mb T w zs" and st: "zs_stack zs = []" and block: "zs_block_compress zs \<noteq> 0"
    using h by (simp_all add: at_head_def)
  obtain zs1 where g: "getcode zs = Some (CLEAR, zs1)" "input_moved zs zs1" and behind: "\<forall>free. reading mb tr (zs1\<lparr>zs_free_ent := free, zs_clear_flg := True\<rparr>)"
    using getcode_next [OF r] by auto
  note f = input_moved_fields [OF g(2)]
  let ?c = "zread_clear zs1"
  have r1: "reading mb tr ?c" using behind by (subst reading_cong [of _ "zs1\<lparr>zs_free_ent := 256, zs_clear_flg := True\<rparr>"]) (simp_all add: zread_clear_def)
  have run: "next_code zs = do { (c, zs) \<leftarrow> getcode ?c; Some (zs\<lparr>zs_code := c\<rparr>) }" using g block by (simp add: next_code_def f)
  show ?thesis
  proof (cases tr)
    case Nil
    then show ?thesis using getcode_end [of mb ?c] r1 run dec by (auto simp: step_to_def)
  next
    case (Cons e tr')
    obtain c F' clr where e: "e = (c, F', clr)" by (cases e)
    have c: "0 \<le> c" "c < 256" "\<not> clr" "F' = FIRST" using dec Cons e by (auto split: if_splits)
    obtain Y' where Y: "dec (2 ^ mb) (Some ([], [word_of_int c])) tr' = Some Y'" "Y = [word_of_int c] @ Y'"
      using dec Cons e c by auto
    obtain zs3 where g3: "getcode ?c = Some (c, zs3)" "input_moved ?c zs3" "511 \<le> zs_maxcode zs3"
      and behind3: "\<forall>free. (\<not> clr \<longrightarrow> (free > zs_maxcode zs3 \<longleftrightarrow> F' > zs_maxcode zs3)) \<longrightarrow> reading mb tr' (zs3\<lparr>zs_free_ent := free, zs_clear_flg := clr\<rparr>)"
      using getcode_next [of mb c F' clr tr' ?c] r1 Cons e by blast
    note f3 = input_moved_fields [OF g3(2)]
    let ?zs = "zs3\<lparr>zs_code := c\<rparr>"
    have fc: "zs_suffix ?c = zs_suffix zs" "zs_stack ?c = []" "zs_free_ent ?c = 256" "zs_block_compress ?c = zs_block_compress zs"
      "zs_maxmaxcode ?c = 2 ^ mb" "zs_state ?c = zs_state zs"
      using st r by (simp_all add: zread_clear_def f reading_def)
    have ch: "tab_chains mb [] ?zs" using tab by (simp add: tab_chains_def rtab_def f3 fc)
    have "known [] (zs_code ?zs)" using c by (simp add: known_def)
    from decode_known [OF ch this] obtain z where z: "decode_code ?zs = Some (Some z)" "decoded ?zs [word_of_int c] z"
      using c by (auto simp: f3 fc)
    note d = decoded_fields [OF z(2)]
    let ?n = "new_entry (z\<lparr>zs_stack := []\<rparr>)"
    have n: "zs_free_ent ?n = FIRST \<or> 2 ^ mb \<le> CLEAR \<and> zs_free_ent ?n = CLEAR" "zs_oldcode ?n = c" "zs_finchar ?n = uint (word_of_int c :: u_char)"
      "\<forall>c. 0 \<le> c \<longrightarrow> c < 256 \<longrightarrow> zs_suffix ?n c = zs_suffix zs c"
      by (auto simp: new_entry_def Let_def d f3 fc not_less)
    have "rtab mb [] [word_of_int c] ?n" using n ch c by (auto simp: rtab_def tab_chains_def known_def f3 fc)
    moreover have "zs_free_ent ?n = F' \<or> 511 \<le> zs_maxcode zs3 \<and> zs_free_ent ?n \<le> 511 \<and> F' \<le> 511" using n(1) c g3(3) by auto
    then have "reading mb tr' ?n" using reading_behind [OF behind3 _ c(3) z(2)] f3(12) by simp
    ultimately have "at_head mb [] [word_of_int c] tr' ?n" using block by (simp add: at_head_def d f3 fc)
    then have "\<exists>T w tr''. at_head mb T w tr'' ?n \<and> dec (2 ^ mb) (Some (T, w)) tr'' = Some Y' \<and> length tr'' < length ((CLEAR, F, True) # tr)"
      using Y(1) Cons by (intro exI [of _ "[]"] exI [of _ "[word_of_int c]"] exI [of _ tr']) simp
    then have "\<exists>T w tr''. zs_state z = zs_state zs \<and> zs_stack z \<noteq> [] \<and> Y = zs_stack z @ Y' \<and> at_head mb T w tr'' ?n
        \<and> dec (2 ^ mb) (Some (T, w)) tr'' = Some Y' \<and> length tr'' < length ((CLEAR, F, True) # tr)"
      using Y(2) by (simp add: d(1,3) f3(11) fc(6))
    then show ?thesis
      unfolding step_to_def using run g3(1) z(1) c(1) by (intro exI [of _ ?zs]) auto
  qed
qed

lemma loop_step:
  assumes "at_head mb T w tr zs" "dec (2 ^ mb) (Some (T, w)) tr = Some Y"
  shows "step_to mb Y tr zs"
proof (cases tr)
  case Nil
  then show ?thesis using step_end assms by simp
next
  case (Cons e tr')
  obtain c F clr where e: "e = (c, F, clr)" by (cases e)
  show ?thesis
  proof (cases "c = CLEAR")
    case True
    then have "clr" "dec (2 ^ mb) None tr' = Some Y" using assms(2) Cons e by (auto split: if_splits)
    then show ?thesis using step_clear assms(1) Cons e True by simp
  next
    case False
    then show ?thesis using step_code assms Cons e by simp
  qed
qed

section \<open>Calls of zread\<close>

text \<open>Between two calls: what is left to be returned is on the stack and in the file.\<close>

definition zready :: "nat \<Rightarrow> u_char list \<Rightarrow> s_zstate \<Rightarrow> bool" where
  "zready mb Y zs \<longleftrightarrow> zs_state zs = S_MIDDLE \<and> zs_stack zs \<noteq> [] \<and> (\<exists>Y' T w tr. Y = zs_stack zs @ Y'
     \<and> at_head mb T w tr (new_entry (zs\<lparr>zs_stack := []\<rparr>)) \<and> dec (2 ^ mb) (Some (T, w)) tr = Some Y')"

text \<open>A call that has room for \<open>count\<close> more of the bytes \<open>Y\<close>.\<close>

definition answers :: "nat \<Rightarrow> u_char list \<Rightarrow> nat \<Rightarrow> nat \<Rightarrow> u_char list \<Rightarrow> (int \<times> u_char list \<times> s_zstate) option \<Rightarrow> bool" where
  "answers mb Y num count out r \<longleftrightarrow> (\<exists>zs. r = Some (int (num - count + min count (length Y)), out @ take count Y, zs)
     \<and> (if length Y \<le> count then zs_state zs = S_EOF else zready mb (drop count Y) zs))"

lemma answers_shift:
  assumes "answers mb Y num (count - length st) (out @ st) r" "length st \<le> count" "count \<le> num"
  shows "answers mb (st @ Y) num count out r"
proof -
  define c where "c = count - length st"
  obtain zs where "r = Some (int (num - c + min c (length Y)), (out @ st) @ take c Y, zs)"
    "if length Y \<le> c then zs_state zs = S_EOF else zready mb (drop c Y) zs"
    using assms(1) unfolding answers_def c_def by blast
  moreover have "num - c + min c (length Y) = num - count + min count (length (st @ Y))"
    "(out @ st) @ take c Y = out @ take count (st @ Y)" "length Y \<le> c \<longleftrightarrow> length (st @ Y) \<le> count" "drop c Y = drop count (st @ Y)"
    using assms(2,3) by (auto simp: c_def)
  ultimately show ?thesis unfolding answers_def by (intro exI [of _ zs]) (simp only: simp_thms)
qed

lemma pop_loop_bytes: "st \<noteq> [] \<Longrightarrow> pop_loop st count out =
    Some (if length st \<le> count then (False, [], count - length st, out @ st) else (True, drop count st, 0, out @ take count st))"
proof (induction st arbitrary: count out)
  case (Cons c st)
  then show ?case by (subst pop_loop.simps) (cases count; auto)
qed simp

lemma at_head_cong:
  "at_head mb T w tr (new_entry (z\<lparr>zs_bytes_out := b, zs_stack := []\<rparr>)) \<longleftrightarrow> at_head mb T w tr (new_entry (z\<lparr>zs_stack := []\<rparr>))"
proof -
  let ?a = "new_entry (z\<lparr>zs_bytes_out := b, zs_stack := []\<rparr>)" and ?b = "new_entry (z\<lparr>zs_stack := []\<rparr>)"
  have "reading mb tr ?a = reading mb tr ?b" by (rule reading_cong) (simp_all add: new_entry_def Let_def)
  moreover have "rtab mb T w ?a = rtab mb T w ?b" by (rule rtab_cong) (simp_all add: new_entry_def Let_def)
  ultimately show ?thesis by (simp add: at_head_def)
qed

text \<open>From the stack, and then from the file.\<close>

lemma pop_answers:
  assumes st: "zs_stack z \<noteq> []" and state: "zs_state z = S_MIDDLE" and count: "count \<le> num"
    and h: "at_head mb T w tr (new_entry (z\<lparr>zs_stack := []\<rparr>))" and dec: "dec (2 ^ mb) (Some (T, w)) tr = Some Y'"
    and rest: "\<And>count out. count \<le> num \<Longrightarrow> answers mb Y' num count out (zread_loop num count out (new_entry (z\<lparr>zs_stack := []\<rparr>)))"
  shows "answers mb (zs_stack z @ Y') num count out (do {
      (full, st, count, out) \<leftarrow> pop_loop (zs_stack z) count out;
      let zs = z\<lparr>zs_stack := st\<rparr>;
      if full then Some (int num, out, zs\<lparr>zs_bytes_out := zs_bytes_out zs + int num\<rparr>)
      else zread_loop num count out (new_entry zs) })" (is "answers _ _ _ _ _ ?r")
proof (cases "length (zs_stack z) \<le> count")
  case True
  let ?c = "count - length (zs_stack z)"
  have "?r = zread_loop num ?c (out @ zs_stack z) (new_entry (z\<lparr>zs_stack := []\<rparr>))" using pop_loop_bytes [OF st] True by simp
  moreover have "answers mb Y' num ?c (out @ zs_stack z) (zread_loop num ?c (out @ zs_stack z) (new_entry (z\<lparr>zs_stack := []\<rparr>)))"
    using rest count by simp
  ultimately show ?thesis using answers_shift [OF _ True count] by simp
next
  case False
  have "?r = Some (int num, out @ take count (zs_stack z), z\<lparr>zs_stack := drop count (zs_stack z), zs_bytes_out := zs_bytes_out z + int num\<rparr>)"
    using pop_loop_bytes [OF st] False by simp
  moreover have "zready mb (drop count (zs_stack z @ Y')) (z\<lparr>zs_stack := drop count (zs_stack z), zs_bytes_out := zs_bytes_out z + int num\<rparr>)"
  proof -
    have "at_head mb T w tr (new_entry (z\<lparr>zs_bytes_out := zs_bytes_out z + int num, zs_stack := []\<rparr>))" using at_head_cong h by blast
    moreover have "drop count (zs_stack z @ Y') = drop count (zs_stack z) @ Y'" using False by simp
    ultimately have "\<exists>Y'' T w tr. drop count (zs_stack z @ Y') = drop count (zs_stack z) @ Y''
        \<and> at_head mb T w tr (new_entry (z\<lparr>zs_bytes_out := zs_bytes_out z + int num, zs_stack := []\<rparr>))
        \<and> dec (2 ^ mb) (Some (T, w)) tr = Some Y''" using dec by blast
    then show ?thesis unfolding zready_def using False state by simp
  qed
  ultimately show ?thesis using False count by (simp add: answers_def)
qed

lemma zread_loop_answers:
  assumes "at_head mb T w tr zs" "dec (2 ^ mb) (Some (T, w)) tr = Some Y" "zs_state zs = S_MIDDLE" "count \<le> num"
  shows "answers mb Y num count out (zread_loop num count out zs)"
  using assms
proof (induction "length tr" arbitrary: tr T w zs Y count out rule: less_induct)
  case less
  obtain zs1 where n: "next_code zs = Some zs1"
    and cases: "zs_code zs1 = -1 \<and> Y = [] \<or> 0 \<le> zs_code zs1 \<and> (\<exists>z Y' T w tr'. decode_code zs1 = Some (Some z) \<and> zs_state z = zs_state zs
       \<and> zs_stack z \<noteq> [] \<and> Y = zs_stack z @ Y' \<and> at_head mb T w tr' (new_entry (z\<lparr>zs_stack := []\<rparr>))
       \<and> dec (2 ^ mb) (Some (T, w)) tr' = Some Y' \<and> length tr' < length tr)"
    using loop_step [OF less.prems(1,2)] unfolding step_to_def by blast
  show ?case
  proof (cases "zs_code zs1 = -1")
    case True
    then show ?thesis using n cases by (subst zread_loop.simps) (simp add: answers_def)
  next
    case False
    then obtain z Y' T' w' tr' where z: "0 \<le> zs_code zs1" "decode_code zs1 = Some (Some z)" "zs_state z = zs_state zs" "zs_stack z \<noteq> []"
      "Y = zs_stack z @ Y'" "at_head mb T' w' tr' (new_entry (z\<lparr>zs_stack := []\<rparr>))" "dec (2 ^ mb) (Some (T', w')) tr' = Some Y'" "length tr' < length tr"
      using cases by blast
    have "answers mb Y' num count out (zread_loop num count out (new_entry (z\<lparr>zs_stack := []\<rparr>)))" if "count \<le> num" for count out
      by (rule less.hyps [OF z(8,6,7)]) (use z(3) less.prems(3) that in simp_all)
    note pop = pop_answers [OF z(4) _ less.prems(4) z(6,7) this]
    show ?thesis using pop z(1,2,3,5) n less.prems(3) by (subst zread_loop.simps) simp
  qed
qed

lemma zread_answers:
  assumes "zready mb Y zs" "0 < num"
  shows "answers mb Y num num [] (zread zs num)"
proof -
  obtain Y' T w tr where Y: "zs_stack zs \<noteq> []" "zs_state zs = S_MIDDLE" "Y = zs_stack zs @ Y'" "at_head mb T w tr (new_entry (zs\<lparr>zs_stack := []\<rparr>))"
    "dec (2 ^ mb) (Some (T, w)) tr = Some Y'"
    using assms(1) unfolding zready_def by blast
  have "answers mb Y' num count out (zread_loop num count out (new_entry (zs\<lparr>zs_stack := []\<rparr>)))" if "count \<le> num" for count out
    using zread_loop_answers [OF Y(4,5) _ that] Y(2) by simp
  from pop_answers [OF Y(1,2) le_refl Y(4,5) this] show ?thesis using assms(2) Y(2,3) by (simp add: zread_def)
qed

section \<open>Whole files\<close>

lemma read_all_ready: "zready mb Y zs \<Longrightarrow> 0 < num \<Longrightarrow> read_all num out zs = Some (0, out @ Y)"
proof (induction "length Y" arbitrary: Y zs out rule: less_induct)
  case less
  have Y: "Y \<noteq> []" using less.prems(1) by (auto simp: zready_def)
  obtain zs' where r: "zread zs num = Some (int (min num (length Y)), take num Y, zs')"
    "if length Y \<le> num then zs_state zs' = S_EOF else zready mb (drop num Y) zs'"
    using zread_answers [OF less.prems] by (auto simp: answers_def)
  have step: "read_all num out zs = read_all num (out @ take num Y) zs'" using r(1) Y less.prems(2) by (subst read_all.simps) simp
  show ?case
  proof (cases "length Y \<le> num")
    case True
    then have "read_all num (out @ Y) zs' = Some (0, out @ Y)" using r(2) less.prems(2) by (subst read_all.simps) (simp add: zread_def)
    then show ?thesis using step True by simp
  next
    case False
    then have "read_all num (out @ take num Y) zs' = Some (0, (out @ take num Y) @ drop num Y)"
      using r(2) less.prems(2) by (intro less.hyps) auto
    then show ?thesis using step by simp
  qed
qed

lemma header_bits:
  assumes "1 \<le> mb" "mb \<le> 16"
  shows "uint (word_of_int (int mb OR BLOCK_MASK) :: u_char) AND BLOCK_MASK = 128" "nat (uint (word_of_int (int mb OR BLOCK_MASK) :: u_char) AND BIT_MASK) = mb"
proof -
  have "mb = 1 \<or> mb = 2 \<or> mb = 3 \<or> mb = 4 \<or> mb = 5 \<or> mb = 6 \<or> mb = 7 \<or> mb = 8 \<or> mb = 9 \<or> mb = 10 \<or> mb = 11 \<or> mb = 12
      \<or> mb = 13 \<or> mb = 14 \<or> mb = 15 \<or> mb = 16" using assms by presburger
  then show "uint (word_of_int (int mb OR BLOCK_MASK) :: u_char) AND BLOCK_MASK = 128" "nat (uint (word_of_int (int mb OR BLOCK_MASK) :: u_char) AND BIT_MASK) = mb"
    by auto
qed

text \<open>The first call.\<close>

lemma zread_start_answers:
  assumes mb: "1 \<le> mb" "mb \<le> 16" and e: "enc mb INIT_BITS (MAXCODE INIT_BITS) 0 tr W" and dec: "dec (2 ^ mb) None tr = Some Y" "Y \<noteq> []"
    and num: "0 < num"
  shows "answers mb Y num num [] (zread_start num (z_header mb) ((z_init fd st BITS BLOCK_MASK)\<lparr>zs_fd := W\<rparr>))"
proof -
  obtain en tr' where tr: "tr = en # tr'" using dec by (cases tr) auto
  obtain c F clr where en: "en = (c, F, clr)" by (cases en)
  have c: "0 \<le> c" "c < 256" "\<not> clr" "F = FIRST" using dec(1) tr en by (auto split: if_splits)
  obtain Y' where Y: "dec (2 ^ mb) (Some ([], [word_of_int c])) tr' = Some Y'" "Y = word_of_int c # Y'" using dec(1) tr en c by auto
  let ?init = "(z_init fd st BITS BLOCK_MASK)\<lparr>zs_fd := W, zs_state := S_MIDDLE, zs_bp := 0\<rparr>"
  have small: "\<not> 16 < mb" using mb by simp
  define zs where "zs = snd (zread_header (z_header mb) ?init)"
  have hd: "zread_header (z_header mb) ?init = (0, zs)"
    by (simp add: zs_def zread_header_def z_header_def z_magic_def header_bits [OF mb] small Let_def)
  have zs: "zs_maxbits zs = mb" "zs_maxmaxcode zs = 2 ^ mb" "zs_block_compress zs = 128" "zs_n_bits zs = 9" "zs_maxcode zs = MAXCODE 9"
    "zs_free_ent zs = FIRST" "zs_bp zs = 0" "zs_ebp zs = 0" "zs_offset zs = 0" "zs_size zs = 0" "\<not> zs_clear_flg zs" "zs_fd zs = W" "zs_state zs = S_MIDDLE"
    "\<forall>c. 0 \<le> c \<longrightarrow> c < 256 \<longrightarrow> zs_suffix zs c = word_of_int c"
    using hd by (auto simp: zread_header_def z_header_def z_magic_def header_bits [OF mb] small Let_def z_init_def)
  have "refill zs" "refill_width mb zs = (9, MAXCODE 9)" by (simp_all add: refill_def refill_width_def zs MAXCODE_power)
  then have "reading mb tr zs" using e by (simp add: reading_def zs rest_bytes_def)
  then obtain z where g: "getcode zs = Some (c, z)" "input_moved zs z"
    and behind: "\<forall>free. (\<not> clr \<longrightarrow> (free > zs_maxcode z \<longleftrightarrow> F > zs_maxcode z)) \<longrightarrow> reading mb tr' (z\<lparr>zs_free_ent := free, zs_clear_flg := clr\<rparr>)"
    using getcode_next [of mb c F clr tr' zs] tr en by blast
  note f = input_moved_fields [OF g(2)]
  let ?z = "z\<lparr>zs_oldcode := c, zs_finchar := c, zs_stack := []\<rparr>"
  have "reading mb tr' (z\<lparr>zs_free_ent := F, zs_clear_flg := clr\<rparr>)" using behind by simp
  moreover have "reading mb tr' ?z \<longleftrightarrow> reading mb tr' (z\<lparr>zs_free_ent := F, zs_clear_flg := clr\<rparr>)"
    by (rule reading_cong) (use c f zs in simp_all)
  ultimately have "reading mb tr' ?z" by simp
  moreover have "rtab mb [] [word_of_int c] ?z" using c mb by (simp add: rtab_def tab_chains_def known_def f zs)
  ultimately have "at_head mb [] [word_of_int c] tr' ?z" by (simp add: at_head_def f zs)
  then have "answers mb Y' num (num - 1) [word_of_int c] (zread_loop num (num - 1) [word_of_int c] ?z)"
    by (rule zread_loop_answers [OF _ Y(1)]) (simp_all add: f zs)
  moreover have "zread_start num (z_header mb) ((z_init fd st BITS BLOCK_MASK)\<lparr>zs_fd := W\<rparr>) = zread_loop num (num - 1) [word_of_int c] ?z"
    using hd g(1) c(1) by (simp add: zread_start_def Let_def)
  ultimately show ?thesis using answers_shift [of mb Y' num num "[word_of_int c]" "[]"] num Y(2) by simp
qed

lemma dodecompress_file:
  assumes mb: "1 \<le> mb" "mb \<le> 16" and e: "enc mb INIT_BITS (MAXCODE INIT_BITS) 0 tr W" and dec: "dec (2 ^ mb) None tr = Some Y" "Y \<noteq> []"
    and num: "0 < num"
  shows "dodecompress num False (z_header mb @ W) = Some (0, Y)" "dodecompress num True (drop 2 (z_header mb @ W)) = Some (0, Y)"
proof -
  have len: "length (z_header mb) = 3" by (simp add: z_header_def z_magic_def)
  have rest: "read_all num [] zs = Some (0, Y)" if r: "answers mb Y num num [] (zread zs num)" for zs
  proof -
    obtain zs' where z: "zread zs num = Some (int (min num (length Y)), take num Y, zs')"
      "if length Y \<le> num then zs_state zs' = S_EOF else zready mb (drop num Y) zs'"
      using r by (auto simp: answers_def)
    have step: "read_all num [] zs = read_all num (take num Y) zs'" using z(1) dec(2) num by (subst read_all.simps) simp
    show ?thesis
    proof (cases "length Y \<le> num")
      case True
      then have "read_all num Y zs' = Some (0, Y)" using z(2) num by (subst read_all.simps) (simp add: zread_def)
      then show ?thesis using step True by simp
    next
      case False
      then show ?thesis using step read_all_ready [of mb "drop num Y" zs' num "take num Y"] z(2) num by simp
    qed
  qed
  have "zread (z_ropen (z_header mb @ W) False) num = zread_start num (z_header mb) ((z_init (z_header mb @ W) S_START BITS BLOCK_MASK)\<lparr>zs_fd := W\<rparr>)"
    using num len by (simp add: zread_def z_ropen_def) (simp add: z_init_def)
  then show "dodecompress num False (z_header mb @ W) = Some (0, Y)"
    using rest zread_start_answers [OF mb e dec num] by (simp add: dodecompress_def)
  have "z_header mb = z_magic @ [word_of_int (int mb OR BLOCK_MASK)]" by (simp add: z_header_def)
  then have "zread (z_ropen (drop 2 (z_header mb @ W)) True) num
      = zread_start num (z_header mb) ((z_init (drop 2 (z_header mb @ W)) S_MAGIC BITS BLOCK_MASK)\<lparr>zs_fd := W\<rparr>)"
    using num by (simp add: zread_def z_ropen_def z_magic_def) (simp add: z_init_def z_magic_def)
  then show "dodecompress num True (drop 2 (z_header mb @ W)) = Some (0, Y)"
    using rest zread_start_answers [OF mb e dec num] by (simp add: dodecompress_def)
qed

text \<open>Nothing is written for an empty file, not even the header, and that is no file for the decompressor.\<close>

lemma empty_file:
  assumes "0 \<le> bits" "bits \<le> 16" "0 < num"
  shows "docompress bits [] = Some []" "dodecompress num False [] = Some (-1, [])"
proof -
  show "docompress bits [] = Some []"
    using assms(1,2) by (simp add: docompress_def z_wopen_def z_close_def z_output_def output_bits_def get_buf_def put_buf_def Let_def z_init_def
        output_advance_def output_grow_def output_flush_def output_end_def)
  have "zread (z_ropen [] False) num = zread_start num (replicate 3 0) (z_ropen [] False)"
    using assms(3) by (simp add: zread_def z_ropen_def z_init_def)
  moreover have "take 2 (replicate 3 (0 :: u_char)) = 0 # replicate 1 0" by (simp add: numeral_eq_Suc)
  then have "take 2 (replicate 3 (0 :: u_char)) \<noteq> z_magic" unfolding z_magic_def by simp
  ultimately show "dodecompress num False [] = Some (-1, [])"
    unfolding dodecompress_def by (subst read_all.simps) (simp add: zread_start_def zread_header_def)
qed

text \<open>
  C4: whatever \<open>compress\<close> writes for a non-empty file, read in any pieces and with any number of bits, decompresses to the file,
  through a buffer of any size, from the start of the compressed file or behind its magic number. The empty file, of which there are
  no pieces, is compressed to an empty file, which decompression refuses.
\<close>

theorem zopen_roundtrip:
  assumes "0 \<le> bits" "bits \<le> 16" "\<forall>buf \<in> set bufs. buf \<noteq> []" "0 < num"
  shows "\<exists>file. docompress bits bufs = Some file
    \<and> (bufs \<noteq> [] \<longrightarrow> take 2 file = z_magic \<and> dodecompress num False file = Some (0, concat bufs)
         \<and> dodecompress num True (drop 2 file) = Some (0, concat bufs))
    \<and> (bufs = [] \<longrightarrow> file = [] \<and> dodecompress num False file = Some (-1, []))"
proof (cases "bufs = []")
  case True
  then show ?thesis using empty_file [OF assms(1,2,4)] by simp
next
  case False
  obtain mb W tr where w: "1 \<le> mb" "mb \<le> 16" "docompress bits bufs = Some (z_header mb @ W)"
    "enc mb INIT_BITS (MAXCODE INIT_BITS) 0 tr W" "dec (2 ^ mb) None tr = Some (concat bufs)"
    by (rule docompress_writes [OF assms(1,2) False assms(3)])
  have "concat bufs \<noteq> []" using False assms(3) by (cases bufs) auto
  then show ?thesis using dodecompress_file [OF w(1,2,4,5) _ assms(4)] w(3) False by (simp add: z_header_def z_magic_def)
qed

lemma zopen_roundtrip_witness: "\<exists>file. docompress 16 [[1, 2], [1, 2, 1, 2, 3]] = Some file \<and> take 2 file = z_magic
    \<and> dodecompress 4 False file = Some (0, [1, 2, 1, 2, 1, 2, 3]) \<and> dodecompress 4 True (drop 2 file) = Some (0, [1, 2, 1, 2, 1, 2, 3])"
  using zopen_roundtrip [of 16 "[[1, 2], [1, 2, 1, 2, 3]]" 4] by simp

end
