(* ===== verification/ZopenSafe.thy ===== *)
theory ZopenSafe
  imports ZopenRead
begin

text \<open>
  The decompressor on files that nobody compressed: whatever the bytes are, it stays inside its arrays and ends. The width of the
  codes, the position in the buffer and the prefixes keep an invariant; a string that would not fit the stack is noticed, because a
  chain of prefixes that is longer than there are codes goes round in a circle.
\<close>

unbundle bit_operations_syntax

section \<open>The codes of any file\<close>

definition reader :: "s_zstate \<Rightarrow> bool" where
  "reader zs \<longleftrightarrow> width_ok (zs_maxbits zs) (zs_n_bits zs) (zs_maxcode zs) (zs_free_ent zs) \<and> zs_maxmaxcode zs = 2 ^ zs_maxbits zs
     \<and> (zs_clear_flg zs \<longrightarrow> zs_free_ent zs \<le> FIRST) \<and> zs_ebp zs \<le> ZBUFSIZ \<and> (\<forall>i. 0 \<le> zs_codetab zs i \<and> zs_codetab zs i < 65536)
     \<and> (int (zs_offset zs) < zs_size zs \<longrightarrow> 8 * int (zs_bp zs) + zs_size zs + int (zs_n_bits zs) \<le> 8 * int (zs_ebp zs) + 1)"

definition input_left :: "s_zstate \<Rightarrow> nat" where
  "input_left zs = 200 * (length (zs_fd zs) + (zs_ebp zs - zs_bp zs)) + nat (zs_size zs - int (zs_offset zs))"

lemma read_code_less: "9 \<le> n \<Longrightarrow> n \<le> 16 \<Longrightarrow> read_code b n q < 65536"
proof -
  assume n: "9 \<le> n" "n \<le> 16"
  have "take_bit n (read_code b n q) = read_code b n q" by (rule bit_eqI) (auto simp: bit_take_bit_iff bit_read_code [OF n])
  then have "read_code b n q < 2 ^ n" using take_bit_int_less_exp [of n "read_code b n q"] by simp
  also have "(2 :: int) ^ n \<le> 2 ^ 16" using n by (intro power_increasing) simp_all
  finally show ?thesis by simp
qed

lemma refill_width_ok:
  assumes "reader zs"
  shows "width_ok (zs_maxbits zs) (fst (refill_width (zs_maxbits zs) zs)) (snd (refill_width (zs_maxbits zs) zs)) (zs_free_ent zs)"
    "zs_free_ent zs \<le> snd (refill_width (zs_maxbits zs) zs)"
proof -
  note w = width_grow [of "zs_maxbits zs" "zs_n_bits zs" "zs_maxcode zs" "zs_free_ent zs"]
  have "width_ok (zs_maxbits zs) (fst (refill_width (zs_maxbits zs) zs)) (snd (refill_width (zs_maxbits zs) zs)) (zs_free_ent zs)
    \<and> zs_free_ent zs \<le> snd (refill_width (zs_maxbits zs) zs)"
  proof (cases "zs_clear_flg zs")
    case True
    then show ?thesis using assms by (auto simp: reader_def refill_width_def next_width_def width_ok_def MAXCODE_power)
  next
    case False
    have eq: "(fst (refill_width (zs_maxbits zs) zs), snd (refill_width (zs_maxbits zs) zs)) =
        (if zs_free_ent zs > zs_maxcode zs then next_width (zs_maxbits zs) False (zs_n_bits zs) else (zs_n_bits zs, zs_maxcode zs))"
      using False by (simp add: refill_width_def)
    show ?thesis using w(2,4) [OF _ eq] assms by (simp only: reader_def)
  qed
  then show "width_ok (zs_maxbits zs) (fst (refill_width (zs_maxbits zs) zs)) (snd (refill_width (zs_maxbits zs) zs)) (zs_free_ent zs)"
    "zs_free_ent zs \<le> snd (refill_width (zs_maxbits zs) zs)" by simp_all
qed

text \<open>What a code that is read leaves behind.\<close>

definition code_read :: "s_zstate \<Rightarrow> int \<Rightarrow> s_zstate \<Rightarrow> bool" where
  "code_read zs c zs' \<longleftrightarrow> 0 \<le> c \<and> c < 65536 \<and> reader zs' \<and> zs_free_ent zs' \<le> zs_maxcode zs' \<and> zs_bp zs' < zs_ebp zs'
     \<and> (zs_bp zs < zs_ebp zs \<longrightarrow> input_left zs' < input_left zs)"

lemma getcode_no_refill:
  assumes r: "reader zs" and n: "\<not> refill zs"
  shows "\<exists>c zs'. getcode zs = Some (c, zs') \<and> input_moved zs zs' \<and> code_read zs c zs'"
proof -
  let ?zs = "zs\<lparr>zs_offset := zs_offset zs + zs_n_bits zs\<rparr>"
  define c where "c = read_code (zs_buf zs) (zs_n_bits zs) (8 * zs_bp zs + zs_offset zs)"
  have n': "\<not> zs_clear_flg zs" "int (zs_offset zs) < zs_size zs" "zs_free_ent zs \<le> zs_maxcode zs" using n by (auto simp: refill_def)
  have w: "9 \<le> zs_n_bits zs" "zs_n_bits zs \<le> 16" using r width_bits by (auto simp: reader_def)
  have room: "8 * int (zs_bp zs) + zs_size zs + int (zs_n_bits zs) \<le> 8 * int (zs_ebp zs) + 1" "zs_ebp zs \<le> ZBUFSIZ"
    using r n'(2) by (simp_all add: reader_def)
  then have "8 * zs_bp zs + zs_offset zs + zs_n_bits zs \<le> 8 * ZBUFSIZ" using n'(2) by linarith
  then have "getcode_bits zs = Some c" unfolding c_def by (rule getcode_bits_room [OF w])
  then have run: "getcode zs = Some (c, ?zs)" using n by (simp add: getcode_def refill_def)
  have "reader ?zs" using r n'(2) by (simp add: reader_def)
  moreover have "input_left ?zs < input_left zs" using n'(2) w by (simp add: input_left_def)
  moreover have "zs_bp zs < zs_ebp zs" using room n'(2) w by linarith
  ultimately have "code_read zs c ?zs"
    using n'(3) read_code_nonneg read_code_less [OF w] by (simp add: code_read_def c_def)
  moreover have "input_moved zs ?zs" using n' by (simp add: input_moved_def)
  ultimately show ?thesis using run by blast
qed

lemma getcode_refill:
  assumes r: "reader zs" and n: "refill zs"
  shows "\<exists>c zs'. getcode zs = Some (c, zs') \<and> input_moved zs zs' \<and> (c = -1 \<or> code_read zs c zs')"
proof -
  let ?mb = "zs_maxbits zs"
  let ?g = "getcode_grow zs" and ?f = "getcode_fill (getcode_grow zs)"
  define s where "s = min (zs_n_bits ?f) (zs_ebp ?f - zs_bp ?f)"
  have M: "zs_maxmaxcode zs = 2 ^ ?mb" and ebp: "zs_ebp zs \<le> ZBUFSIZ" using r by (simp_all add: reader_def)
  note g = getcode_grow_width [OF refl M]
  have w: "9 \<le> zs_n_bits ?g" "zs_n_bits ?g \<le> 16" using width_bits [OF refill_width_ok(1) [OF r]] by (simp_all add: g)
  have fill: "zs_ebp ?f \<le> ZBUFSIZ" "zs_bp ?f + zs_n_bits ?g \<le> ZBUFSIZ" using fill_rest(2,3) [of ?g] ebp w by (simp_all add: g)
  have keep: "zs_n_bits ?f = zs_n_bits ?g" "zs_maxcode ?f = zs_maxcode ?g" "zs_codetab ?f = zs_codetab zs" "zs_free_ent ?f = zs_free_ent zs"
    "zs_maxbits ?f = ?mb" "zs_maxmaxcode ?f = 2 ^ ?mb" "\<not> zs_clear_flg ?f"
    by (simp_all add: getcode_fill_def Let_def g M)
  have left: "length (zs_fd ?f) + (zs_ebp ?f - zs_bp ?f) = length (zs_fd zs) + (zs_ebp zs - (zs_bp zs + zs_n_bits zs))"
    using ebp by (simp add: getcode_fill_def Let_def g)
  have "input_moved zs ?g" by (simp add: g input_moved_def)
  then have moved: "input_moved zs ?f" by (simp add: input_moved_def getcode_fill_def Let_def)
  show ?thesis
  proof (cases "s = 0")
    case True
    then have "getcode zs = Some (-1, ?f\<lparr>zs_offset := 0, zs_size := 0\<rparr>)" using n by (simp add: getcode_def refill_def Let_def s_def)
    moreover have "input_moved zs (?f\<lparr>zs_offset := 0, zs_size := 0\<rparr>)" using moved by (simp add: input_moved_def)
    ultimately show ?thesis by blast
  next
    case False
    define z where "z = ?f\<lparr>zs_offset := 0, zs_size := 8 * int s - (int (zs_n_bits ?f) - 1)\<rparr>"
    let ?z = "z\<lparr>zs_offset := zs_n_bits z\<rparr>"
    define c where "c = read_code (zs_buf z) (zs_n_bits z) (8 * zs_bp z + zs_offset z)"
    have zw: "9 \<le> zs_n_bits z" "zs_n_bits z \<le> 16" using w keep(1) by (simp_all add: z_def)
    have s: "s \<le> zs_n_bits ?f" "zs_bp ?f + s \<le> zs_ebp ?f" using False by (auto simp: s_def)
    have "8 * zs_bp z + zs_offset z + zs_n_bits z \<le> 8 * ZBUFSIZ" using fill(2) by (simp add: z_def keep)
    then have "getcode_bits z = Some c" unfolding c_def by (rule getcode_bits_room [OF zw])
    then have run: "getcode zs = Some (c, ?z)"
      using n False unfolding getcode_def Let_def refill_def by (simp add: z_def flip: s_def)
    have "width_ok ?mb (zs_n_bits ?g) (zs_maxcode ?g) (zs_free_ent zs)" "zs_free_ent zs \<le> zs_maxcode ?g" using refill_width_ok [OF r] by (simp_all add: g)
    moreover have "\<forall>i. 0 \<le> zs_codetab zs i \<and> zs_codetab zs i < 65536" using r by (simp add: reader_def)
    moreover have "8 * int (zs_bp ?f) + 8 * int s \<le> 8 * int (zs_ebp ?f)" using s(2) by linarith
    ultimately have "reader ?z" "zs_free_ent ?z \<le> zs_maxcode ?z" using fill(1) keep by (simp_all add: reader_def z_def)
    moreover have "zs_bp ?z < zs_ebp ?z" using s(2) False by (simp add: z_def)
    moreover have "input_left ?z < input_left zs" if "zs_bp zs < zs_ebp zs"
    proof -
      have "9 \<le> zs_n_bits zs" using r width_bits by (auto simp: reader_def)
      then have "length (zs_fd ?f) + (zs_ebp ?f - zs_bp ?f) < length (zs_fd zs) + (zs_ebp zs - zs_bp zs)" using that left by linarith
      moreover have "nat (zs_size ?z - int (zs_offset ?z)) < 200" using s(1) zw by (simp add: z_def)
      ultimately show ?thesis by (simp add: input_left_def z_def)
    qed
    ultimately have "code_read zs c ?z" using read_code_nonneg read_code_less [OF zw] by (simp add: code_read_def c_def)
    moreover have "input_moved zs ?z" using moved by (simp add: input_moved_def z_def)
    ultimately show ?thesis using run by blast
  qed
qed

lemma getcode_reader:
  assumes "reader zs"
  obtains c zs' where "getcode zs = Some (c, zs')" "input_moved zs zs'" "c = -1 \<or> code_read zs c zs'"
  using getcode_refill [OF assms] getcode_no_refill [OF assms] by (cases "refill zs") blast+

section \<open>The strings of any table\<close>

text \<open>A chain that ends visits a code once only, so it is not longer than there are codes.\<close>

lemma chain_short:
  fixes f :: "int \<Rightarrow> int"
  assumes range: "\<forall>i. 0 \<le> f i \<and> f i < 65536" and c: "0 \<le> c" "c < 65536"
    and long: "\<forall>i < L. 256 \<le> (f ^^ i) c" and ends: "(f ^^ L) c < 256"
  shows "L \<le> 65536"
proof (rule ccontr)
  assume "\<not> L \<le> 65536"
  have vals: "(f ^^ i) c \<in> {0..<65536}" for i by (cases i) (use range c in simp_all)
  have "card ((\<lambda>i. (f ^^ i) c) ` {..<L}) \<le> card {0..<65536 :: int}" by (intro card_mono) (use vals in auto)
  then have "\<not> inj_on (\<lambda>i. (f ^^ i) c) {..<L}" using \<open>\<not> L \<le> 65536\<close> by (auto dest: card_image)
  then obtain i j where ij: "i < j" "j < L" "(f ^^ i) c = (f ^^ j) c"
    by (auto simp: inj_on_def) (metis linorder_neqE_nat)
  have "(f ^^ L) c = (f ^^ (L - j + j)) c" using ij(2) by simp
  also have "\<dots> = (f ^^ (L - j + i)) c" unfolding funpow_add by (simp add: ij(3))
  finally have "(f ^^ (L - j + i)) c < 256" using ends by simp
  moreover have "L - j + i < L" using ij by simp
  ultimately show False using long by (meson leD)
qed

lemma push_string_any:
  assumes "\<forall>i. 0 \<le> zs_codetab zs i \<and> zs_codetab zs i < 65536" "zs_code zs < 65536" "length (zs_stack zs) \<le> STACK"
  shows "push_string zs = Some None
    \<or> (\<exists>st c f. push_string zs = Some (Some (zs\<lparr>zs_stack := st, zs_code := c, zs_finchar := f\<rparr>)) \<and> st \<noteq> [] \<and> length st \<le> STACK)
    \<or> (\<exists>L. length (zs_stack zs) + L = STACK \<and> (\<forall>i < L. 256 \<le> ((zs_codetab zs) ^^ i) (zs_code zs)) \<and> ((zs_codetab zs) ^^ L) (zs_code zs) < 256)"
  using assms
proof (induction zs rule: push_string.induct)
  case (1 zs)
  show ?case
  proof (cases "256 \<le> zs_code zs")
    case False
    show ?thesis
    proof (cases "length (zs_stack zs) < STACK")
      case True
      then have "push_string zs = Some (Some (zs\<lparr>zs_stack := zs_suffix zs (zs_code zs) # zs_stack zs, zs_code := zs_code zs,
          zs_finchar := uint (zs_suffix zs (zs_code zs))\<rparr>))"
        using False by (subst push_string.simps) (simp add: push_def)
      then show ?thesis using True by (metis Suc_leI length_Cons list.distinct(1))
    next
      case full: False
      then have "length (zs_stack zs) + 0 = STACK" using "1.prems"(3) by simp
      then show ?thesis using False by (intro disjI2 exI [of _ 0]) simp
    qed
  next
    case long: True
    show ?thesis
    proof (cases "STACK \<le> length (zs_stack zs)")
      case True
      then show ?thesis using long by (intro disjI1) (subst push_string.simps, simp)
    next
      case False
      let ?z = "zs\<lparr>zs_stack := zs_suffix zs (zs_code zs) # zs_stack zs, zs_code := zs_codetab zs (zs_code zs)\<rparr>"
      have step: "push_string zs = push_string ?z" using long False "1.prems"(2) by (subst push_string.simps) simp
      have IH: "push_string ?z = Some None
        \<or> (\<exists>st c f. push_string ?z = Some (Some (?z\<lparr>zs_stack := st, zs_code := c, zs_finchar := f\<rparr>)) \<and> st \<noteq> [] \<and> length st \<le> STACK)
        \<or> (\<exists>L. length (zs_stack ?z) + L = STACK \<and> (\<forall>i < L. 256 \<le> ((zs_codetab ?z) ^^ i) (zs_code ?z)) \<and> ((zs_codetab ?z) ^^ L) (zs_code ?z) < 256)"
        by (rule "1.IH") (use long False "1.prems" in simp_all)
      have more: "\<exists>L. length (zs_stack zs) + L = STACK \<and> (\<forall>i < L. 256 \<le> ((zs_codetab zs) ^^ i) (zs_code zs)) \<and> ((zs_codetab zs) ^^ L) (zs_code zs) < 256"
        if L: "length (zs_stack ?z) + L = STACK" "\<forall>i < L. 256 \<le> ((zs_codetab ?z) ^^ i) (zs_code ?z)" "((zs_codetab ?z) ^^ L) (zs_code ?z) < 256" for L
      proof (intro exI [of _ "Suc L"] conjI allI impI)
        show "length (zs_stack zs) + Suc L = STACK" using L(1) by simp
        show "256 \<le> ((zs_codetab zs) ^^ i) (zs_code zs)" if "i < Suc L" for i
          using that long L(2) by (cases i) (simp_all add: funpow_swap1 del: funpow.simps add: funpow_Suc_right)
        show "((zs_codetab zs) ^^ Suc L) (zs_code zs) < 256" using L(3) by (simp add: funpow_Suc_right del: funpow.simps)
      qed
      from IH show ?thesis unfolding step using more by auto
    qed
  qed
qed

lemma decode_any:
  assumes tab: "\<forall>i. 0 \<le> zs_codetab zs i \<and> zs_codetab zs i < 65536" and c: "0 \<le> zs_code zs" "zs_code zs < 65536"
    and old: "0 \<le> zs_oldcode zs" "zs_oldcode zs < 65536" and st: "zs_stack zs = []"
  shows "decode_code zs = Some None \<or> (\<exists>st c f. decode_code zs =
    Some (Some (zs\<lparr>zs_incode := zs_code zs, zs_stack := st, zs_code := c, zs_finchar := f\<rparr>)) \<and> st \<noteq> [] \<and> length st \<le> STACK)"
proof -
  have run: "push_string (zs\<lparr>zs_incode := zs_code zs, zs_stack := s, zs_code := e\<rparr>) = Some None \<or> (\<exists>st c f.
      push_string (zs\<lparr>zs_incode := zs_code zs, zs_stack := s, zs_code := e\<rparr>) =
      Some (Some (zs\<lparr>zs_incode := zs_code zs, zs_stack := st, zs_code := c, zs_finchar := f\<rparr>)) \<and> st \<noteq> [] \<and> length st \<le> STACK)"
    if e: "0 \<le> e" "e < 65536" "length s \<le> 1" for e s
  proof -
    let ?z = "zs\<lparr>zs_incode := zs_code zs, zs_stack := s, zs_code := e\<rparr>"
    have "\<not> (\<exists>L. length s + L = STACK \<and> (\<forall>i < L. 256 \<le> ((zs_codetab zs) ^^ i) e) \<and> ((zs_codetab zs) ^^ L) e < 256)"
    proof (intro notI, elim exE conjE)
      fix L
      assume L: "length s + L = STACK" "\<forall>i < L. 256 \<le> ((zs_codetab zs) ^^ i) e" "((zs_codetab zs) ^^ L) e < 256"
      have "L \<le> 65536" by (rule chain_short [OF tab e(1,2) L(2,3)])
      then show False using L(1) e(3) by (simp add: STACK_def)
    qed
    then show ?thesis using push_string_any [of ?z] tab e(2,3) by (simp add: STACK_def) auto
  qed
  show ?thesis
  proof (cases "zs_code zs \<ge> zs_free_ent zs")
    case True
    have "decode_code zs = push_string (zs\<lparr>zs_incode := zs_code zs, zs_stack := [word_of_int (zs_finchar zs)], zs_code := zs_oldcode zs\<rparr>)"
      using True st by (simp add: decode_code_def push_def STACK_def)
    then show ?thesis using run [OF old, of "[word_of_int (zs_finchar zs)]"] by simp
  next
    case False
    have "zs\<lparr>zs_incode := zs_code zs, zs_stack := [], zs_code := zs_code zs\<rparr> = zs\<lparr>zs_incode := zs_code zs\<rparr>" using st by (cases zs) simp
    then have "decode_code zs = push_string (zs\<lparr>zs_incode := zs_code zs, zs_stack := [], zs_code := zs_code zs\<rparr>)"
      using False by (simp add: decode_code_def)
    then show ?thesis using run [OF c, of "[]"] by simp
  qed
qed

section \<open>Reading any file\<close>

text \<open>At the head of the loop, and between two calls, where a string on the stack is left to be given out.\<close>

definition zrunning :: "s_zstate \<Rightarrow> bool" where
  "zrunning zs \<longleftrightarrow> reader zs \<and> \<not> zs_clear_flg zs \<and> zs_bp zs < zs_ebp zs \<and> 0 \<le> zs_oldcode zs \<and> zs_oldcode zs < 65536 \<and> zs_stack zs = []
     \<and> zs_state zs = S_MIDDLE"

definition zpending :: "s_zstate \<Rightarrow> bool" where
  "zpending zs \<longleftrightarrow> reader zs \<and> \<not> zs_clear_flg zs \<and> zs_free_ent zs \<le> zs_maxcode zs \<and> zs_bp zs < zs_ebp zs
     \<and> 0 \<le> zs_incode zs \<and> zs_incode zs < 65536 \<and> zs_stack zs \<noteq> [] \<and> length (zs_stack zs) \<le> STACK \<and> zs_state zs = S_MIDDLE"

definition work :: "s_zstate \<Rightarrow> nat" where
  "work zs = input_left zs * (STACK + 1) + length (zs_stack zs)"

lemma new_entry_running: "zpending zs \<Longrightarrow> zrunning (new_entry (zs\<lparr>zs_stack := []\<rparr>)) \<and> input_left (new_entry (zs\<lparr>zs_stack := []\<rparr>)) = input_left zs"
  by (auto simp: zpending_def zrunning_def new_entry_def Let_def reader_def width_ok_def input_left_def)

lemma next_code_any:
  assumes "zrunning zs"
  shows "\<exists>zs'. next_code zs = Some zs' \<and> zs_stack zs' = [] \<and> zs_state zs' = S_MIDDLE \<and> (zs_code zs' = -1
    \<or> 0 \<le> zs_code zs' \<and> zs_code zs' < 65536 \<and> 0 \<le> zs_oldcode zs' \<and> zs_oldcode zs' < 65536 \<and> reader zs' \<and> \<not> zs_clear_flg zs'
      \<and> zs_free_ent zs' \<le> zs_maxcode zs' \<and> zs_bp zs' < zs_ebp zs' \<and> input_left zs' < input_left zs)"
proof -
  have r: "reader zs" and h: "zs_bp zs < zs_ebp zs" "0 \<le> zs_oldcode zs" "zs_oldcode zs < 65536" "zs_stack zs = []" "zs_state zs = S_MIDDLE"
    using assms by (simp_all add: zrunning_def)
  obtain c z where g: "getcode zs = Some (c, z)" "input_moved zs z" "c = -1 \<or> code_read zs c z" by (rule getcode_reader [OF r])
  note f = input_moved_fields [OF g(2)]
  show ?thesis
  proof (cases "c = CLEAR \<and> zs_block_compress z \<noteq> 0")
    case False
    then have "next_code zs = Some (z\<lparr>zs_code := c\<rparr>)" using g(1) by (auto simp: next_code_def)
    moreover have "reader (z\<lparr>zs_code := c\<rparr>) = reader z" "input_left (z\<lparr>zs_code := c\<rparr>) = input_left z" by (simp_all add: reader_def input_left_def)
    ultimately show ?thesis using g(3) h f by (auto simp: code_read_def)
  next
    case True
    then have z: "reader z" "zs_bp z < zs_ebp z" "input_left z < input_left zs" using g(3) h(1) by (auto simp: code_read_def)
    let ?z = "zread_clear z"
    have "511 \<le> zs_maxcode z"
    proof -
      have "(2 :: int) ^ 9 \<le> 2 ^ zs_n_bits z" using z(1) width_bits by (intro power_increasing) (auto simp: reader_def)
      then show ?thesis using z(1) by (auto simp: reader_def width_ok_def)
    qed
    then have "reader ?z" using z(1) by (auto simp: reader_def zread_clear_def width_ok_def)
    then obtain d y where y: "getcode ?z = Some (d, y)" "input_moved ?z y" "d = -1 \<or> code_read ?z d y" by (rule getcode_reader)
    note f' = input_moved_fields [OF y(2)]
    have run: "next_code zs = Some (y\<lparr>zs_code := d\<rparr>)" using True g(1) y(1) by (simp add: next_code_def)
    have "zs_bp ?z < zs_ebp ?z" "input_left ?z = input_left z" using z by (simp_all add: zread_clear_def input_left_def)
    moreover have "reader (y\<lparr>zs_code := d\<rparr>) = reader y" "input_left (y\<lparr>zs_code := d\<rparr>) = input_left y" by (simp_all add: reader_def input_left_def)
    moreover have "zs_stack ?z = []" "zs_state ?z = S_MIDDLE" "zs_oldcode ?z = zs_oldcode zs" using f h by (simp_all add: zread_clear_def)
    ultimately show ?thesis using run y(3) h f' z(3) by (auto simp: code_read_def)
  qed
qed

lemma next_string:
  assumes "zrunning zs"
  shows "\<exists>zs'. next_code zs = Some zs' \<and> zs_state zs' = S_MIDDLE \<and> (zs_code zs' = -1 \<or> zs_code zs' \<ge> 0 \<and> (decode_code zs' = Some None
    \<or> (\<exists>z. decode_code zs' = Some (Some z) \<and> zpending z \<and> input_left z < input_left zs)))"
proof -
  obtain y where y: "next_code zs = Some y" "zs_stack y = []" "zs_state y = S_MIDDLE"
    "zs_code y = -1 \<or> 0 \<le> zs_code y \<and> zs_code y < 65536 \<and> 0 \<le> zs_oldcode y \<and> zs_oldcode y < 65536 \<and> reader y \<and> \<not> zs_clear_flg y
      \<and> zs_free_ent y \<le> zs_maxcode y \<and> zs_bp y < zs_ebp y \<and> input_left y < input_left zs"
    using next_code_any [OF assms] by blast
  show ?thesis
  proof (cases "zs_code y = -1")
    case False
    then have r: "0 \<le> zs_code y" "zs_code y < 65536" "0 \<le> zs_oldcode y" "zs_oldcode y < 65536" "reader y" "\<not> zs_clear_flg y"
      "zs_free_ent y \<le> zs_maxcode y" "zs_bp y < zs_ebp y" "input_left y < input_left zs" using y(4) by blast+
    have "\<forall>i. 0 \<le> zs_codetab y i \<and> zs_codetab y i < 65536" using r(5) by (simp add: reader_def)
    note d = decode_any [OF this r(1-4) y(2)]
    have "zpending (y\<lparr>zs_incode := zs_code y, zs_stack := st, zs_code := c, zs_finchar := f\<rparr>)
        \<and> input_left (y\<lparr>zs_incode := zs_code y, zs_stack := st, zs_code := c, zs_finchar := f\<rparr>) < input_left zs"
      if "st \<noteq> []" "length st \<le> STACK" for st c f
      using that r y(3) by (simp add: zpending_def reader_def input_left_def)
    then show ?thesis using y(1,3) r(1) d by blast
  qed (use y in blast)
qed

text \<open>How a call ends: with an error or nothing, at the end of the file, or in the middle with less left to do.\<close>

definition call_ends :: "nat \<Rightarrow> (int \<times> u_char list \<times> s_zstate) option \<Rightarrow> bool" where
  "call_ends m r \<longleftrightarrow> (\<exists>nr out zs. r = Some (nr, out, zs) \<and> -1 \<le> nr \<and> (nr \<le> 0 \<or> zs_state zs = S_EOF \<or> zpending zs \<and> work zs < m))"

lemma zread_loop_ends: "zrunning zs \<Longrightarrow> count \<le> num \<Longrightarrow> input_left zs * (STACK + 1) \<le> m \<Longrightarrow> call_ends m (zread_loop num count out zs)"
proof (induction "input_left zs" arbitrary: zs count out rule: less_induct)
  case less
  obtain y where y: "next_code zs = Some y" "zs_state y = S_MIDDLE" "zs_code y = -1 \<or> zs_code y \<ge> 0 \<and> (decode_code y = Some None
    \<or> (\<exists>z. decode_code y = Some (Some z) \<and> zpending z \<and> input_left z < input_left zs))"
    using next_string [OF less.prems(1)] by blast
  consider (eof) "zs_code y = -1" | (bad) "zs_code y \<ge> 0" "decode_code y = Some None"
    | (more) z where "zs_code y \<ge> 0" "decode_code y = Some (Some z)" "zpending z" "input_left z < input_left zs" using y(3) by blast
  then show ?case
  proof cases
    case eof
    then show ?thesis using y(1) by (subst zread_loop.simps) (simp add: call_ends_def)
  next
    case bad
    then show ?thesis using y(1) by (subst zread_loop.simps) (simp add: call_ends_def)
  next
    case more
    have st: "zs_stack z \<noteq> []" "length (zs_stack z) \<le> STACK" using more(3) by (simp_all add: zpending_def)
    note pop = pop_loop_bytes [OF st(1), of count out]
    show ?thesis
    proof (cases "length (zs_stack z) \<le> count")
      case True
      note n = new_entry_running [OF more(3)]
      have "input_left z * (STACK + 1) \<le> m" using more(4) less.prems(3) by (meson less_imp_le_nat mult_le_mono1 order_trans)
      then have "call_ends m (zread_loop num (count - length (zs_stack z)) (out @ zs_stack z) (new_entry (z\<lparr>zs_stack := []\<rparr>)))"
        using n more(4) less.prems(2) by (intro less.hyps) simp_all
      then show ?thesis using y(1) more(1,2) pop True by (subst zread_loop.simps) simp
    next
      case False
      let ?z = "z\<lparr>zs_stack := drop count (zs_stack z), zs_bytes_out := zs_bytes_out z + int num\<rparr>"
      have run: "zread_loop num count out zs = Some (int num, out @ take count (zs_stack z), ?z)"
        using y(1) more(1,2) pop False by (subst zread_loop.simps) simp
      have "zpending ?z" using more(3) False st(2) by (auto simp: zpending_def reader_def)
      moreover have "input_left ?z = input_left z" by (simp add: input_left_def)
      moreover have "(input_left z + 1) * (STACK + 1) \<le> input_left zs * (STACK + 1)" using more(4) by (intro mult_le_mono1) simp
      ultimately have "zpending ?z \<and> work ?z < m" using st(2) less.prems(3) by (simp add: work_def)
      then show ?thesis unfolding run call_ends_def by auto
    qed
  qed
qed

lemma zread_ends:
  assumes "zpending zs" "0 < num"
  shows "call_ends (work zs) (zread zs num)"
proof -
  have st: "zs_stack zs \<noteq> []" "zs_state zs = S_MIDDLE" using assms(1) by (simp_all add: zpending_def)
  note pop = pop_loop_bytes [OF st(1), of num "[]"]
  show ?thesis
  proof (cases "length (zs_stack zs) \<le> num")
    case True
    note n = new_entry_running [OF assms(1)]
    have "call_ends (work zs) (zread_loop num (num - length (zs_stack zs)) (zs_stack zs) (new_entry (zs\<lparr>zs_stack := []\<rparr>)))"
      by (rule zread_loop_ends) (use n in \<open>simp_all add: work_def\<close>)
    then show ?thesis using st(2) pop True assms(2) by (simp add: zread_def)
  next
    case False
    let ?z = "zs\<lparr>zs_stack := drop num (zs_stack zs), zs_bytes_out := zs_bytes_out zs + int num\<rparr>"
    have "zpending ?z" using assms(1) False by (auto simp: zpending_def reader_def)
    moreover have "work ?z < work zs" using False assms(2) by (simp add: work_def input_left_def)
    ultimately show ?thesis using st(2) pop False assms(2) by (auto simp: zread_def call_ends_def)
  qed
qed

lemma read_all_ends: "call_ends m (zread zs num) \<Longrightarrow> 0 < num \<Longrightarrow> \<exists>nr out'. read_all num out zs = Some (nr, out') \<and> nr \<in> {0, -1}"
proof (induction m arbitrary: zs out rule: less_induct)
  case (less m)
  obtain nr buf z where z: "zread zs num = Some (nr, buf, z)" "-1 \<le> nr" "nr \<le> 0 \<or> zs_state z = S_EOF \<or> zpending z \<and> work z < m"
    using less.prems(1) unfolding call_ends_def by blast
  show ?case
  proof (cases "nr \<le> 0")
    case True
    then show ?thesis using z(1,2) by (subst read_all.simps) auto
  next
    case False
    then have step: "read_all num out zs = read_all num (out @ buf) z" using z(1) by (subst read_all.simps) simp
    show ?thesis
    proof (cases "zs_state z = S_EOF")
      case True
      then have "read_all num (out @ buf) z = Some (0, out @ buf)" using less.prems(2) by (subst read_all.simps) (simp add: zread_def)
      then show ?thesis using step by simp
    next
      case eof: False
      then have "zpending z" "work z < m" using z(3) False by auto
      then show ?thesis using less.IH [OF _ zread_ends less.prems(2)] less.prems(2) step by simp
    qed
  qed
qed

lemma zread_start_ends: "\<exists>m. call_ends m (zread_start num header ((z_init fd st BITS BLOCK_MASK)\<lparr>zs_fd := fd'\<rparr>))"
proof -
  let ?init = "(z_init fd st BITS BLOCK_MASK)\<lparr>zs_fd := fd', zs_state := S_MIDDLE, zs_bp := 0\<rparr>"
  obtain e zs where h: "zread_header header ?init = (e, zs)" by (cases "zread_header header ?init")
  show ?thesis
  proof (cases "e = -1")
    case True
    then show ?thesis using h by (simp add: zread_start_def call_ends_def)
  next
    case False
    then have zs: "reader zs" "zs_state zs = S_MIDDLE"
      using h by (auto simp: zread_header_def z_init_def Let_def reader_def width_ok_def MAXCODE_power split: if_splits)
    obtain c z where g: "getcode zs = Some (c, z)" "input_moved zs z" "c = -1 \<or> code_read zs c z" by (rule getcode_reader [OF zs(1)])
    show ?thesis
    proof (cases "c = -1")
      case True
      then show ?thesis using h False g(1) by (simp add: zread_start_def call_ends_def)
    next
      case code: False
      let ?z = "z\<lparr>zs_oldcode := c, zs_finchar := c, zs_stack := []\<rparr>"
      have "zrunning ?z"
        using g(2,3) code zs(2) input_moved_fields(11,12) [OF g(2)] by (auto simp: zrunning_def code_read_def reader_def)
      then have "call_ends (input_left ?z * (STACK + 1)) (zread_loop num (num - 1) [word_of_int c] ?z)"
        by (rule zread_loop_ends) simp_all
      then show ?thesis using h False g(1) code by (auto simp: zread_start_def)
    qed
  qed
qed

lemma dodecompress_ends: "0 < num \<Longrightarrow> \<exists>nr out. dodecompress num gotmagic fd = Some (nr, out) \<and> nr \<in> {0, -1}"
proof -
  assume n: "0 < num"
  have "\<exists>m. call_ends m (zread (z_ropen fd gotmagic) num)"
  proof (cases gotmagic)
    case True
    have "zread (z_ropen fd True) num = zread_start num (z_magic @ take 1 (fd @ [0])) ((z_init fd S_MAGIC BITS BLOCK_MASK)\<lparr>zs_fd := drop 1 fd\<rparr>)"
      using n by (simp add: zread_def z_ropen_def z_init_def)
    then show ?thesis using zread_start_ends True by metis
  next
    case False
    have "zread (z_ropen fd False) num = zread_start num (take 3 (fd @ replicate 3 0)) ((z_init fd S_START BITS BLOCK_MASK)\<lparr>zs_fd := drop 3 fd\<rparr>)"
      using n by (simp add: zread_def z_ropen_def z_init_def)
    then show ?thesis using zread_start_ends False by metis
  qed
  then show ?thesis using read_all_ends [OF _ n] unfolding dodecompress_def by blast
qed

section \<open>Properties\<close>



end
