(* ===== verification/Spec2Isabelle.thy ===== *)
theory Spec2Isabelle
  imports BcInOut BcCall BcMemory BcRun Cksum Base64 Uucode Expr ZopenSafe
begin

text \<open>
  A verification development for programs of the Lunaris userland. Its centre is the calculator \<^verbatim>\<open>src/usr.bin/bc\<close>, from the
  digit loops of its numbers to the compiler, the loader and the machine of its byte code. Beside it stand the
  utilities that compute something of their own: the compressor \<^verbatim>\<open>src/usr.bin/compress/zopen.c\<close>, \<^verbatim>\<open>src/bin/expr\<close>,
  \<^verbatim>\<open>src/usr.bin/base64\<close>, \<^verbatim>\<open>uuencode\<close>, \<^verbatim>\<open>uudecode\<close>, \<^verbatim>\<open>cksum\<close> and \<^verbatim>\<open>sum\<close>.

  \<^bold>\<open>How the models are made.\<close> A C function is a function with the name it has in the source; one that is long is cut at its loops and
  stages. A result \<open>None\<close> stands for what C leaves undefined, or makes impossible to go on with: an access outside a buffer, a
  null pointer, a failed assertion, the overflow of an \<open>int\<close>, and a loop that never ends. So a theorem that concludes
  \<open>f x = Some r\<close> says that the code returns, without any of these. Errors that the program reports are values: \<open>rt_event\<close> and
  \<open>ret\<close> in bc, \<open>failure\<close> in expr, \<open>Inl\<close> in the utilities. Structs are records, buffers are lists (in the compressor functions)
  whose accesses are checked, and state is passed explicitly. A loop that is not bounded by its data is a \<open>partial_function (option)\<close>;
  that it ends is proved. No function has fuel. That \<^verbatim>\<open>malloc\<close> fails is left out everywhere.

  \<^bold>\<open>The calculator.\<close> The parser (\<^verbatim>\<open>bc.y\<close>) turns an input item into text (\<^verbatim>\<open>util.c\<close>, \<open>generate\<close>), \<open>run_code\<close> has the loader
  (\<^verbatim>\<open>load.c\<close>) turn the text into bytes of the code segments, and \<open>execute\<close> (\<^verbatim>\<open>execute.c\<close>) runs them on the stack of numbers and
  the variables (\<^verbatim>\<open>storage.c\<close>), with the arithmetic of \<^verbatim>\<open>number.c\<close>.

  \<^item> \<open>Prelude\<close>: checked buffers (\<open>rd\<close>, \<open>wr\<close>), decimal digit strings, and the locales \<open>digit_step\<close> and \<open>digit_step1\<close>, which are the
    contract of the body of a digit loop. They are interpreted in \<open>BcAdd\<close> for the loops of the source.
  \<^item> \<open>BcNumber\<close>, \<open>BcAdd\<close>, \<open>BcMul\<close>, \<open>BcDiv\<close>, \<open>BcText\<close>, \<open>BcPower\<close> (\<^verbatim>\<open>number.c\<close>): comparison, the four operations with the recursive
    multiplication and the division by digits, powers, roots, and conversions to text. A number is a value of the record \<open>bc_num\<close>;
    \<open>bc_val\<close> is the rational number it stands for, \<open>bc_wf\<close> and \<open>bc_canon\<close> say that it is well formed and without leading zeros.
    The theorems give the value, the scale and canonicity of each result. \<open>BcPower\<close> keeps the scales of a power in an \<open>int\<close>.
  \<^item> \<open>BcMemory\<close> (\<^verbatim>\<open>number.c\<close>): the structs with reference counts, the free list and the digits that sub-numbers share. Every
    allowed sequence of operations keeps the counts right, and what callers see are values: this is why the other theories may pass
    numbers as values.
  \<^item> \<open>BcState\<close> (\<^verbatim>\<open>bcdefs.h\<close>, \<^verbatim>\<open>global.h\<close>, \<^verbatim>\<open>storage.c\<close>): the record \<open>bc_state\<close> of the machine and its stacks. \<open>BcArray\<close>: the tree of
    nodes of 64 elements of an array, as a map from subscripts to numbers; its locale \<open>num_store\<close> is the interface of places that
    hold numbers, interpreted for array elements there and for variables in \<open>BcStorage\<close>, which has storing, loading, arguments and
    automatic variables (\<^verbatim>\<open>storage.c\<close>).
  \<^item> \<open>BcExec\<close> (\<^verbatim>\<open>execute.c\<close>): all instructions, \<open>exec_loop\<close> and \<open>execute\<close>. \<open>BcOps\<close>, \<open>BcMachine\<close>, \<open>BcInOut\<close>, \<open>BcCall\<close>: their effect
    on rational numbers, straight-line programs against a machine on rationals, strings and constants, calls and returns.
  \<^item> \<open>BcLoad\<close> (\<^verbatim>\<open>load.c\<close>): the loader as a machine that reads a character at a time; the bytes it stores are the instructions that
    were meant, and a jump goes where its label was defined.
  \<^item> \<open>BcNames\<close>, \<open>BcGen\<close> (\<^verbatim>\<open>util.c\<close>): the balanced tree of names (interpreting the locale \<open>symbol_table\<close>), the numbers of names and the
    growth of the tables; argument lists, the check of parameters, and the buffer of the generated text.
  \<^item> \<open>BcParse\<close> (\<^verbatim>\<open>bc.y\<close>): the actions of the grammar on syntax trees, in the order in which the parser takes them.
  \<^item> \<open>BcFlow\<close>, \<open>BcSem\<close>, \<open>BcStmt\<close>, \<open>BcActions\<close>, \<open>BcExpr\<close>, \<open>BcCompile\<close>, \<open>BcRun\<close>: the correctness of the compiler.
    \<open>BcSem\<close> and \<open>BcStmt\<close> give expressions and statements a big-step semantics on rationals that knows nothing of the code that is
    generated; \<open>BcFlow\<close> has a machine for items with labels and jumps, to which \<open>exec_loop\<close> on loaded code is tied;
    the other theories show that the actions generate the right items. The covered fragment has simple variables, constants,
    arithmetic, comparisons, the logical operators, assignments, increments, \<open>if\<close>, \<open>while\<close>, \<open>for\<close> and blocks, with assignments as the
    statements that are expressions; arrays, functions, printing, \<open>break\<close> and \<open>continue\<close> are in the model of the actions, but not in it.
    As quotients, products and remainders are cut, the semantics is a relation, and the theorem is about programs that come to an
    end whatever admissible result an operation has.

  Bounds: at most 65536 labels and 32767 names of a kind (\<open>lookup\<close> ends the program behind that), 64 bytes in the first buffer of
  the generated text, and exponents of at most 2147483649: \<^verbatim>\<open>number.h\<close> has a \<open>LONG_MAX\<close> of its own for files that do not include
  \<^verbatim>\<open>limits.h\<close>, although the manual and the \<open>limits\<close> statement name the one of the machine.

  \<^bold>\<open>The utilities.\<close>

  \<^item> \<open>Zopen\<close> (\<^verbatim>\<open>usr.bin/compress/zopen.c\<close>, and the loops of \<^verbatim>\<open>compress.c\<close> around it): the LZW compressor with its hash table of 69001
    slots, codes of 9 to 16 bits in groups of eight, and the clearing of the table; the decompressor with its tables and stack.
    \<open>ZopenCodes\<close> has the layout of the codes in the file; \<open>ZopenWrite\<close> a reference decoder, and that what is written
    decodes to the input, which needs that the search in the hash table ends (69001 has no small divisor and the table
    is never full); \<open>ZopenRead\<close> that the decompressor does what the reference decoder does, so that the round trip follows for every
    non-empty file. \<open>ZopenSafe\<close> takes files that nobody compressed: the decompressor ends and stays in its arrays.
  \<^item> \<open>Expr\<close> (\<^verbatim>\<open>bin/expr/expr.c\<close>, \<^verbatim>\<open>strtonum.c\<close>): tokens, the mutually recursive evaluator and its operators on 64-bit integers. A reference
    semantics of all operators, with its own precedences and its own reading of numbers, gives the value of a tree; the evaluator
    finds it in the words that write the tree. The regular expressions of the C library are a parameter; \<open>regex_ok\<close> is what
    \<^verbatim>\<open>regexec\<close> promises about the place of a match.
  \<^item> \<open>Base64\<close>, \<open>Uucode\<close>: encoders and decoders with their buffers and line breaks, and the round trips.
  \<^item> \<open>Cksum\<close>: the table-driven CRC is the remainder of the POSIX polynomial, and notices every burst within four bytes; the two historic sums,
    and what \<^verbatim>\<open>sum\<close> computes instead. The pieces in which \<^verbatim>\<open>read\<close> returns a file are an argument of the models.

  \<^bold>\<open>Not modelled.\<close> Of bc: the tables that yacc and lex build (the actions take syntax trees), error recovery, the statements \<open>limits\<close> and
  \<open>warranty\<close>, which only print, options and files (\<^verbatim>\<open>main.c\<close>) and signals but for the flag \<open>had_sigint\<close>. Of the compressor: short reads and
  errors of the file, gzip and bzip2, whose libraries are not in the repository, and the driver. Of the other utilities: options,
  headers and the opening of files. The shells, \<^verbatim>\<open>make\<close>, \<^verbatim>\<open>less\<close>, \<^verbatim>\<open>ex\<close>, \<^verbatim>\<open>file\<close>, \<^verbatim>\<open>yacc\<close>, \<^verbatim>\<open>lex\<close> and curses are vendored or live from terminals and
  processes; file utilities, daemons, network clients and games are wrappers around the system, and the remaining filters over
  text have not been modelled.
\<close>

end
